(* ===== verification/JsPrelude.thy ===== *)
theory JsPrelude
  imports Main "HOL-Library.Word"
begin

unbundle bit_operations_syntax

text \<open>
  The part of JavaScript that every component of the library uses, and the generic lemmas the
  component theories share.

  A JavaScript number that the code uses as an integer is an \<^typ>\<open>int\<close>. The bitwise operators
  convert their operands to 32-bit two's complement first, so \<open>to_int32\<close> and \<open>to_uint32\<close> are
  written out and every operator goes through them; no result is assumed to fit.

  An array of \<open>T | undefined\<close> is a list of options: \<^term>\<open>None\<close> is \<open>undefined\<close> (or a hole, which
  reads as \<open>undefined\<close>). Reads past the end give \<open>undefined\<close>, writes past the end extend the array,
  a write at a negative index sets a property that is no element. A typed array has a fixed length:
  reads past the end give \<open>undefined\<close>, which is the number 0 once it is stored in such an array
  again, and writes past the end are dropped.

  An operation that may throw and that changes state returns the outcome (\<open>Inl\<close> the error) together
  with the state at that moment, because the caller can catch the error and go on.
\<close>

named_theorems js_ops \<open>definitions of the JavaScript operators and array methods\<close>

section \<open>Errors\<close>

text \<open>The error classes the library throws itself; the message texts are not modelled.\<close>

datatype js_error = RangeError | TypeError | PlainError string

type_synonym 'r outcome = "js_error + 'r"

section \<open>Numbers\<close>

definition to_int32 :: "int \<Rightarrow> int" where
  "to_int32 x = (x + 2 ^ 31) mod 2 ^ 32 - 2 ^ 31"

definition to_uint32 :: "int \<Rightarrow> int" where
  "to_uint32 x = x mod 2 ^ 32"

definition js_and :: "int \<Rightarrow> int \<Rightarrow> int" where
  [js_ops]: "js_and a b = to_int32 a AND to_int32 b"

definition js_or :: "int \<Rightarrow> int \<Rightarrow> int" where
  [js_ops]: "js_or a b = to_int32 a OR to_int32 b"

definition js_xor :: "int \<Rightarrow> int \<Rightarrow> int" where
  [js_ops]: "js_xor a b = to_int32 a XOR to_int32 b"

definition js_shl :: "int \<Rightarrow> int \<Rightarrow> int" where
  [js_ops]: "js_shl a s = to_int32 (push_bit (nat (s mod 32)) (to_int32 a))"

definition js_shr :: "int \<Rightarrow> int \<Rightarrow> int" where
  [js_ops]: "js_shr a s = drop_bit (nat (s mod 32)) (to_int32 a)"

definition js_ushr :: "int \<Rightarrow> int \<Rightarrow> int" where
  [js_ops]: "js_ushr a s = drop_bit (nat (s mod 32)) (to_uint32 a)"

text \<open>Number of binary digits of a natural number, and \<open>Math.clz32\<close>.\<close>

fun bitlen :: "nat \<Rightarrow> nat" where
  "bitlen n = (if n = 0 then 0 else Suc (bitlen (n div 2)))"

declare bitlen.simps [simp del]

definition js_clz32 :: "int \<Rightarrow> int" where
  [js_ops]: "js_clz32 x = 32 - int (bitlen (nat (to_uint32 x)))"

lemma to_int32_id: "- (2 ^ 31) \<le> x \<Longrightarrow> x < 2 ^ 31 \<Longrightarrow> to_int32 x = x"
  unfolding to_int32_def by (subst mod_pos_pos_trivial) auto

lemma to_uint32_id: "0 \<le> x \<Longrightarrow> x < 2 ^ 32 \<Longrightarrow> to_uint32 x = x"
  unfolding to_uint32_def by simp

lemma js_and_mask:
  assumes "0 \<le> x" "x < 2 ^ 31" "k \<le> 31"
  shows "js_and x (2 ^ k - 1) = x mod 2 ^ k"
proof -
  have "(2::int) ^ k \<le> 2 ^ 31"
    using assms(3) by (intro power_increasing) auto
  then have "to_int32 (2 ^ k - 1) = 2 ^ k - 1"
    using one_le_power[of "2::int" k] by (intro to_int32_id) linarith+
  moreover have "to_int32 x = x"
    using assms by (intro to_int32_id) auto
  ultimately show ?thesis
    by (simp add: js_and_def and_exp_eq_0_iff_not_bit flip: take_bit_eq_mod mask_eq_exp_minus_1 take_bit_eq_mask)
qed

lemma js_shr_div:
  assumes "0 \<le> x" "x < 2 ^ 31" "s < 32"
  shows "js_shr x (int s) = x div 2 ^ s"
proof -
  have "to_int32 x = x" using assms by (intro to_int32_id) auto
  then show ?thesis using assms(3) by (simp add: js_shr_def drop_bit_eq_div)
qed

lemma js_ushr_div:
  assumes "0 \<le> x" "x < 2 ^ 32" "s < 32"
  shows "js_ushr x (int s) = x div 2 ^ s"
proof -
  have "to_uint32 x = x" using assms by (intro to_uint32_id) auto
  then show ?thesis using assms(3) by (simp add: js_ushr_def drop_bit_eq_div)
qed

lemma js_shl_mult:
  assumes "0 \<le> x" "x * 2 ^ s < 2 ^ 31" "s < 32"
  shows "js_shl x (int s) = x * 2 ^ s"
proof -
  have "x * 1 \<le> x * 2 ^ s" using assms(1) by (intro mult_left_mono) auto
  then have "to_int32 x = x" using assms by (intro to_int32_id) auto
  moreover have "to_int32 (x * 2 ^ s) = x * 2 ^ s"
    using assms by (intro to_int32_id) (auto intro: order_trans[of _ 0])
  ultimately show ?thesis using assms(3) by (simp add: js_shl_def push_bit_eq_mult)
qed

lemma bitlen_bounds: "0 < n \<Longrightarrow> 2 ^ (bitlen n - 1) \<le> n \<and> n < 2 ^ bitlen n \<and> 0 < bitlen n"
proof (induction n rule: bitlen.induct)
  case (1 n)
  show ?case
  proof (cases "n div 2 = 0")
    case True
    then have "n = 1" using 1 by auto
    then show ?thesis by (simp add: bitlen.simps)
  next
    case False
    then have ih: "2 ^ (bitlen (n div 2) - 1) \<le> n div 2" "n div 2 < 2 ^ bitlen (n div 2)"
        "0 < bitlen (n div 2)"
      using 1 by auto
    obtain j where j: "bitlen (n div 2) = Suc j" using ih(3) by (cases "bitlen (n div 2)") auto
    have "bitlen n = Suc (Suc j)" using 1 j by (simp add: bitlen.simps[of n])
    then show ?thesis using ih j by auto
  qed
qed

lemma bitlen_le: "n < 2 ^ k \<Longrightarrow> bitlen n \<le> k"
proof (cases "n = 0")
  case True
  then show ?thesis by (simp add: bitlen.simps)
next
  case False
  assume "n < 2 ^ k"
  with bitlen_bounds[of n] False have "(2::nat) ^ (bitlen n - 1) < 2 ^ k" by linarith
  then have "bitlen n - 1 < k" by (rule power_less_imp_less_exp[rotated]) simp
  then show ?thesis by simp
qed

section \<open>Arrays\<close>

lemma option_eqI:
  assumes "\<And>v. a = Some v \<longleftrightarrow> b = Some v"
  shows "a = b"
  using assms[of "the a"] assms[of "the b"] by (cases a; cases b) simp_all

definition js_len :: "'a list \<Rightarrow> int" where
  "js_len xs = int (length xs)"

definition js_get :: "'a option list \<Rightarrow> int \<Rightarrow> 'a option" where
  "js_get xs i = (if 0 \<le> i \<and> i < js_len xs then xs ! nat i else None)"

definition js_put :: "'a option list \<Rightarrow> int \<Rightarrow> 'a option \<Rightarrow> 'a option list" where
  "js_put xs i v =
     (if i < 0 then xs
      else if i < js_len xs then xs[nat i := v]
      else xs @ replicate (nat i - length xs) None @ [v])"

text \<open>Assignment to \<open>xs.length\<close> of a valid length.\<close>

definition js_setLength :: "'a option list \<Rightarrow> int \<Rightarrow> 'a option list" where
  "js_setLength xs n = take (nat n) xs @ replicate (nat n - length xs) None"

text \<open>\<open>copyWithin(target, start, end)\<close> and \<open>fill(v, start, end)\<close> for indices that are not negative.\<close>

definition js_copyWithin :: "'a list \<Rightarrow> int \<Rightarrow> int \<Rightarrow> int \<Rightarrow> 'a list" where
  "js_copyWithin xs t s e =
     (let t' = nat t; s' = nat s; e' = min (nat e) (length xs);
          c = min (e' - s') (length xs - t')
      in take t' xs @ take c (drop s' xs) @ drop (t' + c) xs)"

definition js_fill :: "'a list \<Rightarrow> 'a \<Rightarrow> int \<Rightarrow> int \<Rightarrow> 'a list" where
  "js_fill xs v s e =
     (let s' = nat s; e' = min (nat e) (length xs)
      in take s' xs @ replicate (e' - s') v @ drop (max s' e') xs)"

definition js_slice :: "'a list \<Rightarrow> int \<Rightarrow> int \<Rightarrow> 'a list" where
  "js_slice xs s e = take (nat e - nat s) (drop (nat s) xs)"

text \<open>\<open>Int32Array\<close>: fixed length.\<close>

definition ta_get :: "int list \<Rightarrow> int \<Rightarrow> int" where
  "ta_get xs i = (if 0 \<le> i \<and> i < js_len xs then xs ! nat i else 0)"

definition ta_put :: "int list \<Rightarrow> int \<Rightarrow> int \<Rightarrow> int list" where
  "ta_put xs i v = (if 0 \<le> i \<and> i < js_len xs then xs[nat i := to_int32 v] else xs)"

lemma js_get_nth: "0 \<le> i \<Longrightarrow> i < int (length xs) \<Longrightarrow> js_get xs i = xs ! nat i"
  by (simp add: js_get_def js_len_def)

lemma js_put_update: "0 \<le> i \<Longrightarrow> i < int (length xs) \<Longrightarrow> js_put xs i v = xs[nat i := v]"
  by (simp add: js_put_def js_len_def)

lemma js_get_int: "n < length xs \<Longrightarrow> js_get xs (int n) = xs ! n"
  by (simp add: js_get_nth)

lemma js_put_int: "n < length xs \<Longrightarrow> js_put xs (int n) v = xs[n := v]"
  by (simp add: js_put_update)

lemma js_get_0: "xs \<noteq> [] \<Longrightarrow> js_get xs 0 = xs ! 0"
  by (simp add: js_get_nth)

lemma js_put_0: "xs \<noteq> [] \<Longrightarrow> js_put xs 0 v = xs[0 := v]"
  by (simp add: js_put_update)

lemma length_js_put: "0 \<le> i \<Longrightarrow> i < int (length xs) \<Longrightarrow> length (js_put xs i v) = length xs"
  by (simp add: js_put_update)

lemma copyWithin_eq:
  assumes "nat e \<le> length xs" "nat s \<le> nat e" "nat t + (nat e - nat s) \<le> length xs"
  shows "js_copyWithin xs t s e = take (nat t) xs @ take (nat e - nat s) (drop (nat s) xs) @
    drop (nat t + (nat e - nat s)) xs"
proof -
  have 1: "min (nat e) (length xs) = nat e" by (rule min_absorb1) (rule assms(1))
  have 2: "min (nat e - nat s) (length xs - nat t) = nat e - nat s"
    using assms(3) by (intro min_absorb1) linarith
  show ?thesis unfolding js_copyWithin_def Let_def 1 2 by (rule refl)
qed

lemma move_nth:
  assumes "s + c \<le> length xs" "t + c \<le> length xs" "i < length xs"
  shows "(take t xs @ take c (drop s xs) @ drop (t + c) xs) ! i =
    (if t \<le> i \<and> i < t + c then xs ! (s + (i - t)) else xs ! i)"
proof -
  have len: "length (take t xs) = t" "length (take c (drop s xs)) = c" using assms by auto
  consider "i < t" | "t \<le> i" "i < t + c" | "t + c \<le> i" by linarith
  then show ?thesis
    by cases (use assms in \<open>auto simp: nth_append len\<close>)
qed

lemma move_length:
  "s + c \<le> length xs \<Longrightarrow> t + c \<le> length xs \<Longrightarrow>
    length (take t xs @ take c (drop s xs) @ drop (t + c) xs) = length xs"
  by auto

lemma nth_copyWithin:
  assumes "nat e \<le> length xs" "nat s \<le> nat e" "nat t + (nat e - nat s) \<le> length xs" "i < length xs"
  shows "js_copyWithin xs t s e ! i =
    (if nat t \<le> i \<and> i < nat t + (nat e - nat s) then xs ! (nat s + (i - nat t)) else xs ! i)"
  unfolding copyWithin_eq[OF assms(1-3)] using assms by (intro move_nth) linarith+

lemma length_copyWithin:
  assumes "nat e \<le> length xs" "nat s \<le> nat e" "nat t + (nat e - nat s) \<le> length xs"
  shows "length (js_copyWithin xs t s e) = length xs"
  unfolding copyWithin_eq[OF assms] using assms by (intro move_length) linarith+

lemma fill_eq:
  "nat s \<le> nat e \<Longrightarrow> nat e \<le> length xs \<Longrightarrow>
    js_fill xs v s e = take (nat s) xs @ replicate (nat e - nat s) v @ drop (nat e) xs"
  by (simp add: js_fill_def Let_def min_absorb1 max_absorb2)

lemma nth_fill:
  assumes "nat s \<le> nat e" "nat e \<le> length xs" "i < length xs"
  shows "js_fill xs v s e ! i = (if nat s \<le> i \<and> i < nat e then v else xs ! i)"
proof -
  have len: "length (take (nat s) xs) = nat s" using assms by simp
  consider "i < nat s" | "nat s \<le> i" "i < nat e" | "nat e \<le> i" by linarith
  then show ?thesis
    using assms by cases (auto simp: fill_eq nth_append len)
qed

lemma length_fill: "nat s \<le> nat e \<Longrightarrow> nat e \<le> length xs \<Longrightarrow> length (js_fill xs v s e) = length xs"
  by (simp add: fill_eq)

lemma nth_setLength:
  "i < nat n \<Longrightarrow> js_setLength xs n ! i = (if i < length xs then xs ! i else None)"
  by (auto simp: js_setLength_def nth_append min_def)

lemma length_setLength [simp]: "length (js_setLength xs n) = nat n"
  by (auto simp: js_setLength_def)

text \<open>
  The counted loop \<open>for (let j = a; j < b; j++) dst[j + off] = src[j]\<close>, which several modules use
  to move a range between two arrays.
\<close>

definition js_copy_loop :: "'a option list \<Rightarrow> int \<Rightarrow> int \<Rightarrow> int \<Rightarrow> 'a option list \<Rightarrow> 'a option list"
  where "js_copy_loop src a b off dst =
    fold (\<lambda>j d. js_put d (j + off) (js_get src j)) [a..b - 1] dst"

lemma js_copy_loop_step:
  "a < b \<Longrightarrow> js_copy_loop src a b off dst =
     js_put (js_copy_loop src a (b - 1) off dst) (b - 1 + off) (js_get src (b - 1))"
  unfolding js_copy_loop_def by (subst upto_rec2) auto

lemma js_copy_loop_nth:
  assumes "0 \<le> a" "a \<le> b" "b \<le> int (length src)" "0 \<le> a + off" "b + off \<le> int (length dst)"
  shows "length (js_copy_loop src a b off dst) = length dst \<and>
    (\<forall>i<length dst. js_copy_loop src a b off dst ! i =
      (if a + off \<le> int i \<and> int i < b + off then src ! nat (int i - off) else dst ! i))"
  using assms(2,3,5)
proof (induction b rule: int_ge_induct)
  case base
  then show ?case by (auto simp: js_copy_loop_def)
next
  case (step b)
  have ih: "length (js_copy_loop src a b off dst) = length dst"
    "\<And>i. i < length dst \<Longrightarrow> js_copy_loop src a b off dst ! i =
      (if a + off \<le> int i \<and> int i < b + off then src ! nat (int i - off) else dst ! i)"
    using step by auto
  have eq: "js_copy_loop src a (b + 1) off dst =
      (js_copy_loop src a b off dst)[nat (b + off) := src ! nat b]"
    using step assms ih(1)
    by (subst js_copy_loop_step) (auto simp: js_put_update js_get_nth)
  have pos: "0 \<le> b + off" "nat (b + off) < length dst" using step assms by auto
  have "(js_copy_loop src a b off dst)[nat (b + off) := src ! nat b] ! i =
      (if a + off \<le> int i \<and> int i < b + 1 + off then src ! nat (int i - off) else dst ! i)"
    if i: "i < length dst" for i
  proof (cases "i = nat (b + off)")
    case True
    then have "nat (int i - off) = nat b" "a + off \<le> int i" "int i < b + 1 + off"
      using pos step.hyps by auto
    then show ?thesis using True pos ih(1) by simp
  next
    case False
    then have "(int i < b + 1 + off) = (int i < b + off)" using pos by auto
    then show ?thesis using False i by (simp add: ih)
  qed
  then show ?case unfolding eq using ih(1) by simp
qed

section \<open>Generic lemmas\<close>

lemma mod_add_wrap_nat: "(a::nat) < n \<Longrightarrow> b \<le> n \<Longrightarrow> (a + b) mod n = (if a + b < n then a + b else a + b - n)"
  by (auto simp: le_mod_geq)

lemma mod_add_wrap_int:
  "0 \<le> (a::int) \<Longrightarrow> a < n \<Longrightarrow> 0 \<le> b \<Longrightarrow> b \<le> n \<Longrightarrow>
    (a + b) mod n = (if a + b < n then a + b else a + b - n)"
proof -
  assume a: "0 \<le> a" "a < n" "0 \<le> b" "b \<le> n"
  show ?thesis
  proof (cases "a + b < n")
    case True
    with a show ?thesis by simp
  next
    case False
    have "(a + b) mod n = (a + b - n + n) mod n" by simp
    also have "\<dots> = (a + b - n) mod n" by (rule mod_add_self2)
    also have "\<dots> = a + b - n"
      using a False by (intro mod_pos_pos_trivial) auto
    finally show ?thesis using False by simp
  qed
qed

lemma ta_get_put:
  assumes "0 \<le> i" "i < js_len xs" "- (2 ^ 31) \<le> v" "v < 2 ^ 31"
  shows "ta_get (ta_put xs i v) = (ta_get xs)(i := v)"
proof
  fix j
  have "to_int32 v = v" using assms(3,4) by (rule to_int32_id)
  then show "ta_get (ta_put xs i v) j = ((ta_get xs)(i := v)) j"
    using assms(1,2) by (auto simp: ta_get_def ta_put_def js_len_def nth_list_update)
qed

lemma js_len_ta_put [simp]: "js_len (ta_put xs i v) = js_len xs"
  by (simp add: ta_put_def js_len_def)

lemma js_get_put: "0 \<le> s \<Longrightarrow> js_get (js_put xs s v) t = (if t = s then v else js_get xs t)"
proof (cases "s < js_len xs")
  case True
  then show "0 \<le> s \<Longrightarrow> ?thesis" by (auto simp: js_get_def js_put_def js_len_def nth_list_update)
next
  case False
  assume s: "0 \<le> s"
  obtain n where n: "s = int (length xs + n)" using False s by (intro that[of "nat s - length xs"]) (auto simp: js_len_def)
  have put: "js_put xs s v = xs @ replicate n None @ [v]" using n by (simp add: js_put_def js_len_def)
  consider "t < 0" | m where "t = int m" "m < length xs" | m where "t = int (length xs + m)" "m < n"
    | "t = s" | "s < t"
  proof -
    have "\<exists>m. t = int (length xs + m) \<and> m < n" if "\<not> t < int (length xs)" "t < s"
      using that n by (intro exI[of _ "nat t - length xs"]) auto
    moreover have "\<exists>m. t = int m \<and> m < length xs" if "\<not> t < 0" "t < int (length xs)"
      using that by (intro exI[of _ "nat t"]) auto
    ultimately show ?thesis using that by (metis linorder_cases)
  qed
  then show ?thesis
    unfolding put by cases (auto simp: n js_get_def js_len_def nth_append nat_add_distrib)
qed

section \<open>Sessions of calls\<close>

text \<open>Run a list of calls from a state, and collect the answers.\<close>

fun run_calls :: "('call \<Rightarrow> 's \<Rightarrow> 'r \<times> 's) \<Rightarrow> 'call list \<Rightarrow> 's \<Rightarrow> 'r list \<times> 's" where
  "run_calls f [] s = ([], s)"
| "run_calls f (k # ks) s =
     (fst (f k s) # fst (run_calls f ks (snd (f k s))), snd (run_calls f ks (snd (f k s))))"

lemma run_calls_refines:
  assumes "\<And>k c s. R c s \<Longrightarrow> fst (f k c) = fst (g k s) \<and> R (snd (f k c)) (snd (g k s))" "R c s"
  shows "fst (run_calls f ks c) = fst (run_calls g ks s) \<and> R (snd (run_calls f ks c)) (snd (run_calls g ks s))"
  using assms(2) by (induction ks arbitrary: c s) (auto simp: assms(1))

lemma run_calls_invariant:
  assumes "\<And>k s. I s \<Longrightarrow> I (snd (f k s))" "I s"
  shows "I (snd (run_calls f ks s))"
  using assms(2) by (induction ks arbitrary: s) (auto simp: assms(1))

end
