(* ===== verification/Interfaces.thy ===== *)
theory Interfaces
  imports JsPrelude
begin

text \<open>
  The interfaces between the modules, as locales: what a client module calls and the laws the
  provider keeps. Each is interpreted in the theory of the module that provides it.

  \<^item> \<open>fifo\<close>: the queue operations that \<open>BufferizedFunction.ts\<close> and \<open>BatchExecutor.ts\<close> use
    (\<open>push\<close>, \<open>shift\<close>, \<open>peekFront\<close>, \<open>dumpToArray\<close>); \<open>deque\<close> adds the other end.
  \<^item> \<open>memo_cache\<close>: \<open>MemoizationCache\<close> of \<open>Memoization.ts\<close> (\<open>get\<close>, \<open>has\<close>, \<open>set\<close>).
  \<^item> \<open>comparator\<close>: what \<open>PriorityQueue.ts\<close> and \<open>OrderedMap.ts\<close> ask of the comparison function.
\<close>

section \<open>Queues\<close>

locale fifo =
  fixes empty_q :: "'q"
    and enq :: "'q \<Rightarrow> 'a \<Rightarrow> unit outcome \<times> 'q"
    and deq :: "'q \<Rightarrow> 'a option \<times> 'q"
    and front :: "'q \<Rightarrow> 'a option"
    and drain :: "'q \<Rightarrow> 'a option list \<times> 'q"
    and rep :: "'q \<Rightarrow> 'a list \<Rightarrow> bool"
    and room :: nat
  assumes rep_empty: "rep empty_q []"
    and enq_rep: "rep q xs \<Longrightarrow> length xs < room \<Longrightarrow> \<exists>q'. enq q v = (Inr (), q') \<and> rep q' (xs @ [v])"
    and deq_empty: "rep q [] \<Longrightarrow> deq q = (None, q)"
    and deq_rep: "rep q (x # xs) \<Longrightarrow> \<exists>q'. deq q = (Some x, q') \<and> rep q' xs"
    and front_rep: "rep q xs \<Longrightarrow> front q = (if xs = [] then None else Some (hd xs))"
    and drain_rep: "rep q xs \<Longrightarrow> \<exists>q'. drain q = (map Some xs, q') \<and> rep q' []"
begin

lemma enqE:
  assumes "rep q xs" "length xs < room" "enq q v = (r, q')"
  shows "r = Inr ()" "rep q' (xs @ [v])"
  using enq_rep[OF assms(1,2), of v] assms(3) by auto

lemma deqE:
  assumes "rep q (x # xs)" "deq q = (r, q')"
  shows "r = Some x" "rep q' xs"
  using deq_rep[OF assms(1)] assms(2) by auto

lemma drainE:
  assumes "rep q xs" "drain q = (r, q')"
  shows "r = map Some xs" "rep q' []"
  using drain_rep[OF assms(1)] assms(2) by auto

end

locale deque = fifo empty_q enq deq front drain rep room
  for empty_q :: "'q" and enq :: "'q \<Rightarrow> 'a \<Rightarrow> unit outcome \<times> 'q"
    and deq front drain and rep :: "'q \<Rightarrow> 'a list \<Rightarrow> bool" and room +
  fixes enq_front :: "'q \<Rightarrow> 'a \<Rightarrow> unit outcome \<times> 'q"
    and deq_back :: "'q \<Rightarrow> 'a option \<times> 'q"
  assumes enq_front_rep:
      "rep q xs \<Longrightarrow> length xs < room \<Longrightarrow> \<exists>q'. enq_front q v = (Inr (), q') \<and> rep q' (v # xs)"
    and deq_back_empty: "rep q [] \<Longrightarrow> deq_back q = (None, q)"
    and deq_back_rep: "rep q (xs @ [x]) \<Longrightarrow> \<exists>q'. deq_back q = (Some x, q') \<and> rep q' xs"
begin

text \<open>What is pushed at one end comes out at the same end first, and at the other end last.\<close>

lemma stack_order:
  assumes "rep q xs" "length xs < room" "enq q v = (r, q1)" "deq_back q1 = (y, q2)"
  shows "y = Some v" "rep q2 xs"
  using enqE[OF assms(1-3)] deq_back_rep[of q1 xs v] assms(4) by auto

lemma front_stack_order:
  assumes "rep q xs" "length xs < room" "enq_front q v = (r, q1)" "deq q1 = (y, q2)"
  shows "y = Some v" "rep q2 xs"
  using enq_front_rep[OF assms(1,2), of v] assms(3,4) deqE[of q1 v xs y q2] by auto

end

section \<open>Caches\<close>

text \<open>
  A cache is described by what it holds, a partial map from keys to values, where a value may be
  \<open>undefined\<close> (\<^term>\<open>Some None\<close>). A bounded cache may drop entries when one is inserted, so \<open>set\<close>
  promises the new entry and nothing else that was not there.
\<close>

locale memo_cache =
  fixes cget :: "'c \<Rightarrow> 'k \<Rightarrow> 'v option \<times> 'c"
    and chas :: "'c \<Rightarrow> 'k \<Rightarrow> bool"
    and cput :: "'c \<Rightarrow> 'k \<Rightarrow> 'v option \<Rightarrow> 'c"
    and cinv :: "'c \<Rightarrow> bool"
    and view :: "'c \<Rightarrow> 'k \<Rightarrow> 'v option option"
  assumes get_value: "cinv c \<Longrightarrow> fst (cget c k) = (case view c k of None \<Rightarrow> None | Some v \<Rightarrow> v)"
    and get_inv: "cinv c \<Longrightarrow> cinv (snd (cget c k))"
    and get_view: "cinv c \<Longrightarrow> view (snd (cget c k)) = view c"
    and has_view: "cinv c \<Longrightarrow> chas c k \<longleftrightarrow> view c k \<noteq> None"
    and put_inv: "cinv c \<Longrightarrow> cinv (cput c k v)"
    and put_new: "cinv c \<Longrightarrow> view (cput c k v) k = Some v"
    and put_other: "cinv c \<Longrightarrow> k' \<noteq> k \<Longrightarrow> view (cput c k v) k' = Some w \<Longrightarrow> view c k' = Some w"

section \<open>Comparison functions\<close>

text \<open>
  The contract of a comparator that returns a number: its sign is antisymmetric and transitive. Keys
  that compare as 0 need not be equal; they are one key to the module that uses it.
\<close>

locale comparator =
  fixes cmp :: "'a \<Rightarrow> 'a \<Rightarrow> int"
  assumes cmp_antisym: "cmp a b < 0 \<longleftrightarrow> 0 < cmp b a"
    and cmp_trans: "cmp a b \<le> 0 \<Longrightarrow> cmp b c \<le> 0 \<Longrightarrow> cmp a c \<le> 0"
begin

lemma cmp_refl [simp]: "cmp a a = 0"
  using cmp_antisym[of a a] by linarith

lemma cmp_zero_sym: "cmp a b = 0 \<longleftrightarrow> cmp b a = 0"
  using cmp_antisym[of a b] cmp_antisym[of b a] by linarith

lemma cmp_flip: "cmp a b \<le> 0 \<longleftrightarrow> 0 \<le> cmp b a"
  using cmp_antisym[of b a] by linarith

lemma cmp_less_trans: "cmp a b < 0 \<Longrightarrow> cmp b c < 0 \<Longrightarrow> cmp a c < 0"
  using cmp_trans[of c a b] cmp_flip[of c b] cmp_flip[of c a] cmp_antisym[of a b] cmp_antisym[of b c]
    cmp_trans[of b c a] cmp_flip[of b a]
  by linarith

lemma cmp_less_le_trans: "cmp a b < 0 \<Longrightarrow> cmp b c \<le> 0 \<Longrightarrow> cmp a c < 0"
  using cmp_trans[of b c a] cmp_flip[of c a] cmp_flip[of b a] cmp_antisym[of a b] by linarith

lemma cmp_le_less_trans: "cmp a b \<le> 0 \<Longrightarrow> cmp b c < 0 \<Longrightarrow> cmp a c < 0"
  using cmp_trans[of c a b] cmp_flip[of c a] cmp_flip[of c b] cmp_antisym[of b c] by linarith

lemma cmp_eq_subst: "cmp a b = 0 \<Longrightarrow> (cmp a c < 0 \<longleftrightarrow> cmp b c < 0) \<and> (cmp c a < 0 \<longleftrightarrow> cmp c b < 0)"
  using cmp_le_less_trans[of a b c] cmp_le_less_trans[of b a c] cmp_zero_sym[of a b]
    cmp_less_le_trans[of c a b] cmp_less_le_trans[of c b a] by fastforce

end

end
