(* ===== verification/Queue.thy ===== *)
theory Queue
  imports Interfaces
begin

text \<open>
  \<open>src/src/Queue.ts\<close>: the circular-buffer deque. The record has the six symbol-keyed fields of the
  interface \<open>Queue<T>\<close>; the elements are wrapped in \<^term>\<open>Some\<close>, \<^term>\<open>None\<close> is an empty slot and
  the \<open>undefined\<close> that \<open>pop\<close> and \<open>shift\<close> return on an empty queue.

  Index arithmetic goes through the 32-bit operators. Growing a buffer of \<open>2 ^ 30\<close> slots makes
  \<open>list.length << 1\<close> negative and the assignment to \<open>length\<close> throws a \<open>RangeError\<close>, which the
  model keeps: \<open>q_push\<close> and \<open>q_unshift\<close> return an outcome with the state.

  \<open>ring\<close> says that a buffer holds a list from a head index on; \<open>q_rep\<close> that a queue represents a
  list. Every operation is shown to refine the list operation it stands for.
\<close>

section \<open>State\<close>

record 'a queue =
  qCapacityMask :: int
  qHead :: int
  qTail :: int
  qList :: "'a option list"
  qLastDump :: int
  qPrevDump :: int

section \<open>Operations\<close>

definition q_init :: "'a queue" where
  "q_init = \<lparr>qCapacityMask = 3, qHead = 0, qTail = 0, qList = replicate 4 None,
     qLastDump = 0, qPrevDump = 0\<rparr>"

definition q_size :: "'a queue \<Rightarrow> int" where
  "q_size q = js_and (qTail q - qHead q + js_len (qList q)) (qCapacityMask q)"

definition q_growList :: "'a queue \<Rightarrow> unit outcome \<times> 'a queue" where
  "q_growList q =
     (let len = js_len (qList q); newLen = js_shl len 1
      in if newLen < 0 then (Inl RangeError, q)
         else let mask = js_or (js_shl (qCapacityMask q) 1) 1;
                  list1 = js_setLength (qList q) newLen;
                  list2 = js_copyWithin list1 len 0 (qTail q);
                  list3 = js_fill list2 None 0 (qTail q)
              in (Inr (), q\<lparr>qList := list3, qCapacityMask := mask,
                            qTail := js_and (qHead q + len) mask\<rparr>))"

definition q_push :: "'a queue \<Rightarrow> 'a \<Rightarrow> unit outcome \<times> 'a queue" where
  "q_push q v =
     (let q1 = q\<lparr>qList := js_put (qList q) (qTail q) (Some v),
                 qTail := js_and (qTail q + 1) (qCapacityMask q)\<rparr>
      in if qTail q1 = qHead q1 then q_growList q1 else (Inr (), q1))"

text \<open>The two branches of \<open>tryToShrinkList\<close> that slide the live range to the start.\<close>

definition q_compact :: "'a option list \<Rightarrow> int \<Rightarrow> int \<Rightarrow> 'a option list" where
  "q_compact list head tail =
     (if tail \<ge> head then js_copyWithin list 0 head tail
      else let savedBack = js_slice list 0 tail; frontLen = js_len list - head
           in js_copy_loop savedBack 0 tail frontLen (js_copyWithin list 0 head (js_len list)))"

definition q_tryToShrinkList :: "'a queue \<Rightarrow> 'a queue" where
  "q_tryToShrinkList q =
     (let len = js_len (qList q);
          count = js_and (qTail q - qHead q + len) (qCapacityMask q)
      in if len > 10000 \<and> count < js_shr len 2
         then let list1 = q_compact (qList q) (qHead q) (qTail q);
                  list2 = js_setLength list1 (js_ushr (js_len list1) 1)
              in q\<lparr>qTail := count, qHead := 0,
                   qCapacityMask := js_or (js_shr (qCapacityMask q) 1) 1,
                   qList := js_fill list2 None count (js_len list2)\<rparr>
         else q)"

definition q_pop :: "'a queue \<Rightarrow> 'a option \<times> 'a queue" where
  "q_pop q =
     (if qTail q = qHead q then (None, q)
      else let tail = js_and (qTail q - 1 + js_len (qList q)) (qCapacityMask q);
               value = js_get (qList q) tail;
               q1 = q\<lparr>qTail := tail, qList := js_put (qList q) tail None\<rparr>
           in (value, if js_len (qList q1) > 10000 then q_tryToShrinkList q1 else q1))"

definition q_shift :: "'a queue \<Rightarrow> 'a option \<times> 'a queue" where
  "q_shift q =
     (if qTail q = qHead q then (None, q)
      else let value = js_get (qList q) (qHead q);
               q1 = q\<lparr>qList := js_put (qList q) (qHead q) None,
                      qHead := js_and (qHead q + 1) (qCapacityMask q)\<rparr>
           in (value, if js_len (qList q1) > 10000 then q_tryToShrinkList q1 else q1))"

definition q_unshift :: "'a queue \<Rightarrow> 'a \<Rightarrow> unit outcome \<times> 'a queue" where
  "q_unshift q v =
     (let head = js_and (qHead q - 1 + js_len (qList q)) (qCapacityMask q);
          q1 = q\<lparr>qHead := head, qList := js_put (qList q) head (Some v)\<rparr>
      in if qTail q1 = qHead q1 then q_growList q1 else (Inr (), q1))"

definition q_peekFront :: "'a queue \<Rightarrow> 'a option" where
  "q_peekFront q = (if qTail q = qHead q then None else js_get (qList q) (qHead q))"

definition q_peekBack :: "'a queue \<Rightarrow> 'a option" where
  "q_peekBack q =
     (if qTail q = qHead q then None
      else js_get (qList q) (js_and (qTail q - 1 + js_len (qList q)) (qCapacityMask q)))"

definition q_get :: "'a queue \<Rightarrow> int \<Rightarrow> 'a option" where
  "q_get q i = js_get (qList q) (js_and (qHead q + i) (qCapacityMask q))"

definition q_set :: "'a queue \<Rightarrow> int \<Rightarrow> 'a \<Rightarrow> 'a queue" where
  "q_set q i v =
     q\<lparr>qList := js_put (qList q) (js_and (qHead q + i) (qCapacityMask q)) (Some v)\<rparr>"

definition q_swap :: "'a queue \<Rightarrow> int \<Rightarrow> int \<Rightarrow> 'a queue" where
  "q_swap q i j =
     (let list = qList q; mask = qCapacityMask q; head = qHead q;
          ri = js_and (head + i) mask; rj = js_and (head + j) mask;
          tmp = js_get list ri;
          list1 = js_put list ri (js_get list rj)
      in q\<lparr>qList := js_put list1 rj tmp\<rparr>)"

definition q_toArray :: "'a queue \<Rightarrow> 'a option list" where
  "q_toArray q =
     (let list = qList q; head = qHead q; tail = qTail q;
          result = replicate (nat (js_and (tail - head + js_len list) (qCapacityMask q))) None
      in if tail \<ge> head then js_copy_loop list head tail (- head) result
         else js_copy_loop list 0 tail (js_len list - head)
                (js_copy_loop list head (js_len list) (- head) result))"

text \<open>\<open>dumpToArray\<close> reads a slot and clears it in the same loop body.\<close>

definition q_dump_loop :: "int \<Rightarrow> int \<Rightarrow> int \<Rightarrow> 'a option list \<times> 'a option list
    \<Rightarrow> 'a option list \<times> 'a option list" where
  "q_dump_loop a b off =
     fold (\<lambda>i (result, list). (js_put result (i + off) (js_get list i), js_put list i None))
       [a..b - 1]"

definition q_dump_copy :: "'a option list \<Rightarrow> int \<Rightarrow> int \<Rightarrow> 'a option list
    \<Rightarrow> 'a option list \<times> 'a option list" where
  "q_dump_copy list head tail result =
     (if tail \<ge> head then q_dump_loop head tail (- head) (result, list)
      else q_dump_loop 0 tail (js_len list - head)
             (q_dump_loop head (js_len list) (- head) (result, list)))"

definition q_dump_release :: "'a queue \<Rightarrow> 'a queue" where
  "q_dump_release q =
     (if js_len (qList q) > 10000
      then let last = qLastDump q; prev = qPrevDump q;
               keep = (if last > prev then last else prev)
           in if keep < js_shr (js_len (qList q)) 1
              then let cap = (if keep < 4 then 4 else js_shl 1 (32 - js_clz32 keep))
                   in q\<lparr>qList := js_setLength (qList q) cap, qCapacityMask := cap - 1\<rparr>
              else q
      else q)"

definition q_dumpToArray :: "'a queue \<Rightarrow> 'a option list \<times> 'a queue" where
  "q_dumpToArray q =
     (let result0 = replicate (nat (js_and (qTail q - qHead q + js_len (qList q)) (qCapacityMask q))) None;
          (result, list) = q_dump_copy (qList q) (qHead q) (qTail q) result0;
          q1 = q_dump_release (q\<lparr>qHead := 0, qTail := 0, qList := list\<rparr>)
      in (result, q1\<lparr>qPrevDump := qLastDump q1, qLastDump := js_len result\<rparr>))"

text \<open>\<open>make(items)\<close>: pushes the items one by one; an exception of a push leaves \<open>make\<close>.\<close>

fun q_pushAll :: "'a queue \<Rightarrow> 'a list \<Rightarrow> unit outcome \<times> 'a queue" where
  "q_pushAll q [] = (Inr (), q)"
| "q_pushAll q (v # vs) =
     (case q_push q v of (Inl e, q') \<Rightarrow> (Inl e, q') | (Inr _, q') \<Rightarrow> q_pushAll q' vs)"

definition q_make :: "'a list option \<Rightarrow> 'a queue outcome" where
  "q_make items =
     (case items of None \<Rightarrow> Inr q_init
      | Some vs \<Rightarrow> (case q_pushAll q_init vs of (Inl e, _) \<Rightarrow> Inl e | (Inr _, q) \<Rightarrow> Inr q))"

section \<open>Ring buffers\<close>

text \<open>
  \<open>ring list cap h xs\<close>: the buffer has \<open>cap\<close> slots and holds \<open>xs\<close> from slot \<open>h\<close> on, wrapping at the
  end; every other slot is empty. It is stated slot by slot, so an operation that writes one slot is
  one case split.
\<close>

definition off :: "nat \<Rightarrow> nat \<Rightarrow> nat \<Rightarrow> nat" where
  "off cap h j = (if h \<le> j then j - h else j + cap - h)"

definition wrap :: "nat \<Rightarrow> nat \<Rightarrow> nat" where
  "wrap cap n = (if n < cap then n else n - cap)"

definition slot :: "'a list \<Rightarrow> nat \<Rightarrow> 'a option" where
  "slot xs i = (if i < length xs then Some (xs ! i) else None)"

definition ring :: "'a option list \<Rightarrow> nat \<Rightarrow> nat \<Rightarrow> 'a list \<Rightarrow> bool" where
  "ring l cap h xs \<longleftrightarrow> length l = cap \<and> h < cap \<and> length xs \<le> cap \<and>
     (\<forall>j<cap. l ! j = slot xs (off cap h j))"

lemma slot_snoc: "slot (xs @ [v]) i = (if i = length xs then Some v else slot xs i)"
  by (auto simp: slot_def nth_append)

lemma slot_butlast: "slot (butlast xs) i = (if i = length xs - 1 then None else slot xs i)"
  by (auto simp: slot_def nth_butlast)

lemma slot_tl: "slot (tl xs) i = slot xs (Suc i)"
  by (auto simp: slot_def nth_tl)

lemma slot_Cons: "slot (v # xs) i = (if i = 0 then Some v else slot xs (i - 1))"
  by (auto simp: slot_def nth_Cons split: nat.splits)

lemma slot_update: "k < length xs \<Longrightarrow> slot (xs[k := v]) i = (if i = k then Some v else slot xs i)"
  by (auto simp: slot_def)

lemma slot_out [simp]: "length xs \<le> i \<Longrightarrow> slot xs i = None"
  by (simp add: slot_def)

lemma slot_in [simp]: "i < length xs \<Longrightarrow> slot xs i = Some (xs ! i)"
  by (simp add: slot_def)

lemma ringD:
  assumes "ring l cap h xs"
  shows "length l = cap" "h < cap" "length xs \<le> cap" "j < cap \<Longrightarrow> l ! j = slot xs (off cap h j)"
  using assms by (auto simp: ring_def)

lemma off_wrap: "h < cap \<Longrightarrow> n < cap \<Longrightarrow> off cap h (wrap cap (h + n)) = n"
  by (auto simp: off_def wrap_def)

lemma off_eq_iff: "h < cap \<Longrightarrow> n < cap \<Longrightarrow> j < cap \<Longrightarrow> off cap h j = n \<longleftrightarrow> j = wrap cap (h + n)"
  by (auto simp: off_def wrap_def)

lemma wrap_less: "h < cap \<Longrightarrow> n \<le> cap \<Longrightarrow> wrap cap (h + n) < cap"
  by (auto simp: wrap_def)

lemma ring_nth:
  assumes "ring l cap h xs" "i < length xs"
  shows "l ! wrap cap (h + i) = Some (xs ! i)"
  using assms by (auto simp: ring_def wrap_less off_wrap)

lemma ring_write:
  assumes "ring l cap h xs" "n < cap" "length ys \<le> cap"
    and "\<And>i. i < cap \<Longrightarrow> slot ys i = (if i = n then v else slot xs i)"
  shows "ring (l[wrap cap (h + n) := v]) cap h ys"
  unfolding ring_def
proof (intro conjI allI impI)
  fix j assume j: "j < cap"
  have "h < cap" "length l = cap" using assms(1) by (auto simp: ring_def)
  then have "off cap h j < cap" using j by (auto simp: off_def)
  then show "l[wrap cap (h + n) := v] ! j = slot ys (off cap h j)"
    using assms j \<open>h < cap\<close> \<open>length l = cap\<close>
    by (auto simp: ring_def nth_list_update off_eq_iff off_wrap)
qed (use assms in \<open>auto simp: ring_def\<close>)

lemma ring_push:
  assumes "ring l cap h xs" "length xs < cap"
  shows "ring (l[wrap cap (h + length xs) := Some v]) cap h (xs @ [v])"
  using assms by (intro ring_write) (auto simp: slot_snoc)

lemma ring_pop:
  assumes "ring l cap h xs" "xs \<noteq> []"
  shows "ring (l[wrap cap (h + (length xs - 1)) := None]) cap h (butlast xs)"
proof -
  have "0 < length xs" "length xs \<le> cap" using assms by (auto simp: ring_def)
  then have "length xs - 1 < cap" by linarith
  then show ?thesis using assms by (intro ring_write) (auto simp: slot_butlast ring_def)
qed

lemma ring_set:
  assumes "ring l cap h xs" "k < length xs"
  shows "ring (l[wrap cap (h + k) := Some v]) cap h (xs[k := v])"
proof -
  have "length xs \<le> cap" using assms by (auto simp: ring_def)
  then show ?thesis using assms by (intro ring_write) (auto simp: slot_update)
qed

lemma ring_shift:
  assumes "ring l cap h xs" "xs \<noteq> []"
  shows "ring (l[h := None]) cap (wrap cap (h + 1)) (tl xs)"
  unfolding ring_def
proof (intro conjI allI impI)
  have c: "h < cap" "length l = cap" "length xs \<le> cap" "0 < length xs"
    using assms by (auto simp: ring_def)
  show "wrap cap (h + 1) < cap" using c by (intro wrap_less) auto
  fix j assume j: "j < cap"
  show "l[h := None] ! j = slot (tl xs) (off cap (wrap cap (h + 1)) j)"
  proof (cases "j = h")
    case True
    then have "length xs - 1 \<le> off cap (wrap cap (h + 1)) j"
      using c by (auto simp: off_def wrap_def)
    then show ?thesis using True c by simp
  next
    case False
    then have "off cap h j = Suc (off cap (wrap cap (h + 1)) j)"
      using j c by (auto simp: off_def wrap_def)
    then show ?thesis using False j assms(1) by (simp add: ring_def slot_tl)
  qed
qed (use assms in \<open>auto simp: ring_def\<close>)

lemma ring_unshift:
  assumes "ring l cap h xs" "length xs < cap"
  shows "ring (l[wrap cap (h + (cap - 1)) := Some v]) cap (wrap cap (h + (cap - 1))) (v # xs)"
  unfolding ring_def
proof (intro conjI allI impI)
  have c: "h < cap" "length l = cap" using assms by (auto simp: ring_def)
  show "wrap cap (h + (cap - 1)) < cap" using c by (intro wrap_less) auto
  fix j assume j: "j < cap"
  show "l[wrap cap (h + (cap - 1)) := Some v] ! j
      = slot (v # xs) (off cap (wrap cap (h + (cap - 1))) j)"
  proof (cases "j = wrap cap (h + (cap - 1))")
    case True
    then show ?thesis using j c by (simp add: off_def)
  next
    case False
    then have "off cap (wrap cap (h + (cap - 1))) j = Suc (off cap h j)"
      using j c by (auto simp: off_def wrap_def split: if_splits)
    then show ?thesis using False j assms(1) by (simp add: ring_def slot_Cons)
  qed
qed (use assms in \<open>auto simp: ring_def\<close>)

text \<open>Doubling a full buffer: the part before the head moves behind the old end.\<close>

lemma ring_grow:
  assumes "ring l cap h xs" "length xs = cap"
  shows "ring (js_fill (js_copyWithin (js_setLength l (int (2 * cap))) (int cap) 0 (int h)) None 0 (int h))
           (2 * cap) h xs"
proof -
  let ?l1 = "js_setLength l (int (2 * cap))"
  let ?l2 = "js_copyWithin ?l1 (int cap) 0 (int h)"
  let ?l3 = "js_fill ?l2 None 0 (int h)"
  have c: "h < cap" "length l = cap" using assms by (auto simp: ring_def)
  have len1: "length ?l1 = 2 * cap" by simp
  have len2: "length ?l2 = 2 * cap" using c by (subst length_copyWithin) auto
  have len3: "length ?l3 = 2 * cap" using c len2 by (subst length_fill) auto
  have n1: "?l1 ! j = (if j < cap then l ! j else None)" if "j < 2 * cap" for j
    using that c nth_setLength[of j "int (2 * cap)" l] by simp
  have n2: "?l2 ! j = (if cap \<le> j \<and> j < cap + h then ?l1 ! (j - cap) else ?l1 ! j)"
    if "j < 2 * cap" for j
    using that c by (subst nth_copyWithin) auto
  have n3: "?l3 ! j = (if j < h then None else ?l2 ! j)" if "j < 2 * cap" for j
    using that c len2 by (subst nth_fill) auto
  have "?l3 ! j = slot xs (off (2 * cap) h j)" if j: "j < 2 * cap" for j
  proof -
    consider "j < h" | "h \<le> j" "j < cap" | "cap \<le> j" "j < cap + h" | "cap + h \<le> j" by linarith
    then show ?thesis
    proof cases
      case 1
      then have "length xs \<le> off (2 * cap) h j" using c assms(2) by (simp add: off_def)
      then show ?thesis using 1 j n3 by simp
    next
      case 2
      then show ?thesis using j c n1[of j] n2[of j] n3[of j] assms(1) by (simp add: ring_def off_def)
    next
      case 3
      then have "off cap h (j - cap) = off (2 * cap) h j" "j - cap < cap" using c by (auto simp: off_def)
      then show ?thesis
        using 3 j c n1[of "j - cap"] n2[of j] n3[of j] assms(1) by (simp add: ring_def)
    next
      case 4
      then have "length xs \<le> off (2 * cap) h j" using c assms(2) by (simp add: off_def)
      then show ?thesis using 4 j c n1[of j] n2[of j] n3[of j] by simp
    qed
  qed
  then show ?thesis using c len3 assms(2) by (simp add: ring_def)
qed

text \<open>Halving a buffer: the live range is compacted to the start, the rest is cleared.\<close>

lemma ring_prefix:
  assumes "length l1 = cap" "length xs \<le> half" "half \<le> cap" "0 < half"
    and "\<And>j. j < length xs \<Longrightarrow> l1 ! j = Some (xs ! j)"
  shows "ring (js_fill (js_setLength l1 (int half)) None (int (length xs)) (int half)) half 0 xs"
  unfolding ring_def
proof (intro conjI allI impI)
  let ?l2 = "js_setLength l1 (int half)"
  have len2: "length ?l2 = half" by simp
  show "length (js_fill ?l2 None (int (length xs)) (int half)) = half"
    using assms by (subst length_fill) auto
  fix j assume j: "j < half"
  have "js_fill ?l2 None (int (length xs)) (int half) ! j =
      (if length xs \<le> j then None else ?l2 ! j)"
    using j assms by (subst nth_fill) auto
  also have "\<dots> = slot xs j"
    using j assms nth_setLength[of j "int half" l1] by simp
  finally show "js_fill ?l2 None (int (length xs)) (int half) ! j = slot xs (off half 0 j)"
    by (simp add: off_def)
qed (use assms in auto)

lemma compact_contiguous:
  assumes "ring l cap h xs" "h + length xs < cap"
  defines "l1 \<equiv> js_copyWithin l 0 (int h) (int (h + length xs))"
  shows "length l1 = cap \<and> (\<forall>j<length xs. l1 ! j = Some (xs ! j))"
proof -
  have c: "length l = cap" using assms(1) by (rule ringD)
  have "l1 ! j = Some (xs ! j)" if "j < length xs" for j
    unfolding l1_def using that assms(1,2) c ring_nth[OF assms(1) that]
    by (subst nth_copyWithin) (auto simp: wrap_def)
  moreover have "length l1 = cap"
    unfolding l1_def using assms(2) c by (subst length_copyWithin) auto
  ultimately show ?thesis by simp
qed

lemma compact_wrapped:
  assumes "ring l cap h xs" "cap \<le> h + length xs" "length xs < cap"
  defines "t \<equiv> h + length xs - cap"
  defines "l1 \<equiv> js_copy_loop (js_slice l 0 (int t)) 0 (int t) (int (cap - h))
                (js_copyWithin l 0 (int h) (int cap))"
  shows "length l1 = cap \<and> (\<forall>j<length xs. l1 ! j = Some (xs ! j))"
proof -
  let ?behind = "js_slice l 0 (int t)" and ?m = "js_copyWithin l 0 (int h) (int cap)"
  have c: "length l = cap" "h < cap" using assms(1) by (auto simp: ring_def)
  have t: "t < h" "t + (cap - h) = length xs" using assms(2,3) c unfolding t_def by auto
  have lenm: "length ?m = cap" using c by (subst length_copyWithin) auto
  have lenb: "length ?behind = t" using c t by (simp add: js_slice_def)
  have bk: "?behind ! i = l ! i" if "i < t" for i using that by (simp add: js_slice_def)
  have m: "?m ! j = l ! (h + j)" if "j < cap - h" for j
    using that c by (subst nth_copyWithin) auto
  have loop: "length l1 = cap" "\<And>i. i < cap \<Longrightarrow> l1 ! i =
      (if cap - h \<le> i \<and> i < length xs then ?behind ! (i - (cap - h)) else ?m ! i)"
    using js_copy_loop_nth[of 0 "int t" ?behind "int (cap - h)" ?m] lenm lenb t c assms(3)
    unfolding l1_def by (auto simp: nat_diff_distrib of_nat_diff)
  have "l1 ! j = Some (xs ! j)" if j: "j < length xs" for j
  proof (cases "j < cap - h")
    case True
    then have "wrap cap (h + j) = h + j" using c by (auto simp: wrap_def)
    then show ?thesis
      using True loop(2)[of j] m[of j] j assms(3) ring_nth[OF assms(1) j] by auto
  next
    case False
    then have "wrap cap (h + j) = j - (cap - h)" "j - (cap - h) < t" using c t j by (auto simp: wrap_def)
    then show ?thesis
      using False loop(2)[of j] bk j assms(3) ring_nth[OF assms(1) j] by auto
  qed
  then show ?thesis using loop(1) by simp
qed

section \<open>What a queue represents\<close>

definition q_rep :: "'a queue \<Rightarrow> 'a list \<Rightarrow> bool" where
  "q_rep q xs \<longleftrightarrow> (\<exists>k h. 2 \<le> k \<and> k \<le> 30 \<and> qCapacityMask q = 2 ^ k - 1 \<and> qHead q = int h \<and>
     length xs < 2 ^ k \<and> qTail q = int (wrap (2 ^ k) (h + length xs)) \<and>
     ring (qList q) (2 ^ k) h xs \<and> 0 \<le> qLastDump q \<and> 0 \<le> qPrevDump q)"

lemma q_repI:
  assumes "2 \<le> k" "k \<le> 30" "qCapacityMask q = 2 ^ k - 1" "qHead q = int h" "length xs < 2 ^ k"
    "qTail q = int (wrap (2 ^ k) (h + length xs))" "ring (qList q) (2 ^ k) h xs"
    "0 \<le> qLastDump q" "0 \<le> qPrevDump q"
  shows "q_rep q xs"
  using assms unfolding q_rep_def by blast

lemma q_repE:
  assumes "q_rep q xs"
  obtains k h where "2 \<le> k" "k \<le> 30" "qCapacityMask q = 2 ^ k - 1" "qHead q = int h"
    "length xs < 2 ^ k" "qTail q = int (wrap (2 ^ k) (h + length xs))"
    "ring (qList q) (2 ^ k) h xs" "0 \<le> qLastDump q" "0 \<le> qPrevDump q"
    "length (qList q) = 2 ^ k" "h < 2 ^ k"
  using assms unfolding q_rep_def ring_def by blast

lemma pow2_le_30: "k \<le> 30 \<Longrightarrow> (2::int) ^ k \<le> 2 ^ 30"
  by (rule power_increasing) auto

lemma and_wrap:
  assumes "n < 2 * 2 ^ k" "k \<le> 30"
  shows "js_and (int n) (2 ^ k - 1) = int (wrap (2 ^ k) n)"
proof -
  have "int n < 2 * 2 ^ k" using assms(1) by (metis of_nat_less_iff of_nat_mult of_nat_numeral of_nat_power)
  then have "js_and (int n) (2 ^ k - 1) = int n mod 2 ^ k"
    using assms(2) pow2_le_30[of k] by (intro js_and_mask) auto
  also have "\<dots> = int (n mod 2 ^ k)" by (simp add: zmod_int)
  also have "n mod 2 ^ k = wrap (2 ^ k) n"
    using assms(1) by (auto simp: wrap_def le_mod_geq)
  finally show ?thesis .
qed

lemma wrap_Suc: "h < cap \<Longrightarrow> n < cap \<Longrightarrow> wrap cap (wrap cap (h + n) + 1) = wrap cap (h + Suc n)"
  by (auto simp: wrap_def)

lemma wrap_full: "h < cap \<Longrightarrow> n \<le> cap \<Longrightarrow> 0 < n \<Longrightarrow> wrap cap (h + n) = h \<longleftrightarrow> n = cap"
  by (auto simp: wrap_def)

lemma wrap_empty: "h < cap \<Longrightarrow> n < cap \<Longrightarrow> wrap cap (h + n) = h \<longleftrightarrow> n = 0"
  by (auto simp: wrap_def)

lemma wrap_back: "h < cap \<Longrightarrow> 0 < n \<Longrightarrow> n < cap \<Longrightarrow>
    wrap cap (wrap cap (h + n) + cap - 1) = wrap cap (h + (n - 1))"
  by (auto simp: wrap_def)

lemma mask_grow: "k \<le> 29 \<Longrightarrow> js_or (js_shl (2 ^ k - 1) 1) 1 = 2 ^ Suc k - 1"
proof -
  assume k: "k \<le> 29"
  have one_le: "(1::int) \<le> 2 ^ k" by simp
  have "(2::int) ^ k \<le> 2 ^ 29" using k by (intro power_increasing) auto
  then have "js_shl (2 ^ k - 1) (int 1) = (2 ^ k - 1) * 2 ^ 1"
    by (intro js_shl_mult) auto
  moreover have "to_int32 ((2 ^ k - 1) * 2 ^ 1) = (2 ^ k - 1) * 2 ^ 1"
    using \<open>2 ^ k \<le> 2 ^ 29\<close> one_le by (intro to_int32_id) auto
  moreover have "to_int32 1 = 1" by (simp add: to_int32_def)
  ultimately show ?thesis by (simp add: js_or_def or_one_eq)
qed

lemma q_growList_full:
  assumes "ring (qList q) (2 ^ k) h xs" "length xs = 2 ^ k" "2 \<le> k" "k \<le> 30"
    "qCapacityMask q = 2 ^ k - 1" "qHead q = int h" "qTail q = int h"
    "0 \<le> qLastDump q" "0 \<le> qPrevDump q"
  shows "k < 30 \<Longrightarrow> \<exists>q'. q_growList q = (Inr (), q') \<and> q_rep q' xs"
    and "k = 30 \<Longrightarrow> q_growList q = (Inl RangeError, q)"
proof -
  have len: "js_len (qList q) = 2 ^ k" "h < 2 ^ k" using assms(1) by (auto simp: ring_def js_len_def)
  show "\<exists>q'. q_growList q = (Inr (), q') \<and> q_rep q' xs" if "k < 30"
  proof -
    have "(2::int) ^ k \<le> 2 ^ 29" using that by (intro power_increasing) auto
    then have shl: "js_shl (2 ^ k) 1 = 2 ^ k * 2" using js_shl_mult[of "2 ^ k" 1] by simp
    have tail: "js_and (int h + 2 ^ k) (2 ^ Suc k - 1) = int (wrap (2 ^ Suc k) (h + 2 ^ k))"
      using and_wrap[of "h + 2 ^ k" "Suc k"] len that by simp
    have mask: "js_or (js_shl (2 ^ k - 1) 1) 1 = 2 ^ Suc k - 1" using that by (intro mask_grow) simp
    let ?l = "js_fill (js_copyWithin (js_setLength (qList q) (2 ^ k * 2)) (2 ^ k) 0 (int h)) None 0 (int h)"
    have ring: "ring ?l (2 ^ Suc k) h xs"
      using ring_grow[OF assms(1,2)] by (simp add: mult.commute)
    let ?q = "q\<lparr>qList := ?l, qCapacityMask := 2 ^ Suc k - 1,
        qTail := int (wrap (2 ^ Suc k) (h + 2 ^ k))\<rparr>"
    have "q_growList q = (Inr (), ?q)"
      unfolding q_growList_def Let_def len shl assms(5-7) mask tail by simp
    moreover have "q_rep ?q xs"
      using assms that ring by (intro q_repI[where k = "Suc k" and h = h]) auto
    ultimately show ?thesis by blast
  qed
  show "q_growList q = (Inl RangeError, q)" if "k = 30"
    using that len by (simp add: q_growList_def js_shl_def to_int32_def)
qed

section \<open>The operations refine list operations\<close>

lemma q_init_rep: "q_rep q_init []"
  by (intro q_repI[where k = 2 and h = 0])
    (auto simp: q_init_def ring_def off_def wrap_def less_Suc_eq numeral_eq_Suc)

lemma q_push_cases:
  assumes "q_rep q xs"
  shows "length xs < 2 ^ 30 - 1 \<Longrightarrow> \<exists>q'. q_push q v = (Inr (), q') \<and> q_rep q' (xs @ [v])"
    and "length xs = 2 ^ 30 - 1 \<Longrightarrow> fst (q_push q v) = Inl RangeError"
proof -
  from assms obtain k h where r: "2 \<le> k" "k \<le> 30" "qCapacityMask q = 2 ^ k - 1" "qHead q = int h"
    "length xs < 2 ^ k" "qTail q = int (wrap (2 ^ k) (h + length xs))"
    "ring (qList q) (2 ^ k) h xs" "0 \<le> qLastDump q" "0 \<le> qPrevDump q"
    "length (qList q) = 2 ^ k" "h < 2 ^ k"
    by (rule q_repE)
  let ?t = "wrap (2 ^ k) (h + length xs)"
  have t: "?t < 2 ^ k" using r by (intro wrap_less) auto
  have put: "js_put (qList q) (int ?t) (Some v) = (qList q)[?t := Some v]"
    using t r by (subst js_put_update) auto
  have tail: "js_and (int ?t + 1) (2 ^ k - 1) = int (wrap (2 ^ k) (h + Suc (length xs)))"
    using and_wrap[of "?t + 1" k] t r wrap_Suc[of h "2 ^ k" "length xs"]
    by (simp add: add.commute)
  let ?q1 = "q\<lparr>qList := (qList q)[?t := Some v], qTail := int (wrap (2 ^ k) (h + Suc (length xs)))\<rparr>"
  have push: "q_push q v = (if qTail ?q1 = qHead ?q1 then q_growList ?q1 else (Inr (), ?q1))"
    unfolding q_push_def Let_def r put tail by simp
  have ring1: "ring (qList ?q1) (2 ^ k) h (xs @ [v])" using ring_push[OF r(7) r(5)] by simp
  have full: "qTail ?q1 = qHead ?q1 \<longleftrightarrow> Suc (length xs) = 2 ^ k"
    using wrap_full[of h "2 ^ k" "Suc (length xs)"] r by simp
  show "\<exists>q'. q_push q v = (Inr (), q') \<and> q_rep q' (xs @ [v])" if "length xs < 2 ^ 30 - 1"
  proof (cases "Suc (length xs) = 2 ^ k")
    case True
    then have "k < 30" using that r(2) by (cases "k = 30") auto
    moreover have "qTail ?q1 = int h" using full True r by simp
    ultimately show ?thesis
      using q_growList_full(1)[OF ring1] True push full r by auto
  next
    case False
    then have "q_rep ?q1 (xs @ [v])" using ring1 r by (intro q_repI[where k = k and h = h]) auto
    then show ?thesis using push full False by auto
  qed
  show "fst (q_push q v) = Inl RangeError" if len: "length xs = 2 ^ 30 - 1"
  proof -
    have "k = 30"
    proof (rule ccontr)
      assume "k \<noteq> 30"
      then have "(2::nat) ^ k \<le> 2 ^ 29" using r(2) by (intro power_increasing) auto
      then show False using len r(5) by simp
    qed
    moreover have "Suc (length xs) = 2 ^ k" using len \<open>k = 30\<close> by simp
    moreover have "qTail ?q1 = int h" using full \<open>Suc (length xs) = 2 ^ k\<close> r by simp
    ultimately show ?thesis
      using q_growList_full(2)[OF ring1] push full r by auto
  qed
qed

lemma q_unshift_cases:
  assumes "q_rep q xs"
  shows "length xs < 2 ^ 30 - 1 \<Longrightarrow> \<exists>q'. q_unshift q v = (Inr (), q') \<and> q_rep q' (v # xs)"
proof -
  assume that: "length xs < 2 ^ 30 - 1"
  from assms obtain k h where r: "2 \<le> k" "k \<le> 30" "qCapacityMask q = 2 ^ k - 1" "qHead q = int h"
    "length xs < 2 ^ k" "qTail q = int (wrap (2 ^ k) (h + length xs))"
    "ring (qList q) (2 ^ k) h xs" "0 \<le> qLastDump q" "0 \<le> qPrevDump q"
    "length (qList q) = 2 ^ k" "h < 2 ^ k"
    by (rule q_repE)
  let ?h = "wrap (2 ^ k) (h + (2 ^ k - 1))"
  have h: "?h < 2 ^ k" using r by (intro wrap_less) auto
  have head: "js_and (int h - 1 + js_len (qList q)) (2 ^ k - 1) = int ?h"
    using and_wrap[of "h + (2 ^ k - 1)" k] r by (simp add: js_len_def of_nat_diff algebra_simps)
  have put: "js_put (qList q) (int ?h) (Some v) = (qList q)[?h := Some v]"
    using h r by (subst js_put_update) auto
  let ?q1 = "q\<lparr>qHead := int ?h, qList := (qList q)[?h := Some v]\<rparr>"
  have unshift: "q_unshift q v = (if qTail ?q1 = qHead ?q1 then q_growList ?q1 else (Inr (), ?q1))"
    unfolding q_unshift_def Let_def r(3,4) head put by simp
  have ring1: "ring (qList ?q1) (2 ^ k) ?h (v # xs)" using ring_unshift[OF r(7) r(5)] by simp
  have tail: "wrap (2 ^ k) (?h + Suc (length xs)) = wrap (2 ^ k) (h + length xs)"
    using r(5,11) by (auto simp: wrap_def)
  have full: "qTail ?q1 = qHead ?q1 \<longleftrightarrow> Suc (length xs) = 2 ^ k"
    using wrap_full[of ?h "2 ^ k" "Suc (length xs)"] r h tail by simp
  show ?thesis
  proof (cases "Suc (length xs) = 2 ^ k")
    case True
    then have "k < 30" using that r(2) by (cases "k = 30") auto
    then show ?thesis
      using q_growList_full(1)[OF ring1] True unshift full r by auto
  next
    case False
    then have "q_rep ?q1 (v # xs)"
      using ring1 r tail by (intro q_repI[where k = k and h = ?h]) auto
    then show ?thesis using unshift full False by auto
  qed
qed

lemma q_count:
  assumes "h < 2 ^ k" "n < 2 ^ k" "k \<le> 30"
  shows "js_and (int (wrap (2 ^ k) (h + n)) - int h + 2 ^ k) (2 ^ k - 1) = int n"
proof -
  let ?m = "wrap (2 ^ k) (h + n) + 2 ^ k - h"
  have "int ?m = int (wrap (2 ^ k) (h + n)) - int h + 2 ^ k"
    using assms(1) by (simp add: of_nat_diff)
  moreover have "?m < 2 * 2 ^ k" "wrap (2 ^ k) ?m = n"
    using assms by (auto simp: wrap_def)
  ultimately show ?thesis using and_wrap[of ?m k] assms(3) by simp
qed

lemma q_size_rep: "q_rep q xs \<Longrightarrow> q_size q = int (length xs)"
  by (erule q_repE) (simp add: q_size_def js_len_def q_count)

lemma q_isEmpty: "q_rep q xs \<Longrightarrow> qTail q = qHead q \<longleftrightarrow> xs = []"
  by (erule q_repE) (simp add: wrap_empty)

lemma mask_shrink: "2 \<le> k \<Longrightarrow> k \<le> 30 \<Longrightarrow> js_or (js_shr (2 ^ k - 1) 1) 1 = 2 ^ (k - 1) - 1"
proof -
  assume k: "2 \<le> k" "k \<le> 30"
  then obtain j where j: "k = Suc (Suc j)" by (metis add_2_eq_Suc le_Suc_ex)
  have p: "(2::int) ^ Suc j \<le> 2 ^ 29" "(1::int) \<le> 2 ^ j" "(0::int) \<le> 2 ^ j" using k j power_increasing[of j 28 "2::int"] by auto
  have "js_shr (2 ^ k - 1) (int 1) = (2 ^ k - 1) div 2 ^ 1"
    using p j by (intro js_shr_div) auto
  also have "\<dots> = 2 ^ Suc j - 1" using j by simp
  finally have "js_shr (2 ^ k - 1) 1 = 2 ^ Suc j - 1" by simp
  moreover have "- (2 ^ 31) \<le> (2::int) ^ Suc j - 1" by (rule order_trans[of _ 0]) simp_all
  then have "to_int32 (2 ^ Suc j - 1) = 2 ^ Suc j - 1"
    using p(1) by (intro to_int32_id) auto
  moreover have "to_int32 1 = 1" by (simp add: to_int32_def)
  ultimately show ?thesis using j by (simp add: js_or_def or_one_eq)
qed

lemma q_compact_prefix:
  assumes "ring l cap h xs" "length xs < cap"
  defines "l1 \<equiv> q_compact l (int h) (int (wrap cap (h + length xs)))"
  shows "length l1 = cap \<and> (\<forall>j<length xs. l1 ! j = Some (xs ! j))"
proof -
  have c: "length l = cap" "h < cap" using assms(1) by (auto simp: ring_def)
  show ?thesis
  proof (cases "h + length xs < cap")
    case True
    then have "wrap cap (h + length xs) = h + length xs" by (simp add: wrap_def)
    then show ?thesis using compact_contiguous[OF assms(1) True] by (simp add: l1_def q_compact_def)
  next
    case False
    then have t: "wrap cap (h + length xs) = h + length xs - cap" "h + length xs - cap < h"
      using c assms(2) by (auto simp: wrap_def)
    have "int (cap - h) = int cap - int h" using c by (simp add: of_nat_diff)
    then have "l1 = js_copy_loop (js_slice l 0 (int (h + length xs - cap))) 0
        (int (h + length xs - cap)) (int (cap - h)) (js_copyWithin l 0 (int h) (int cap))"
      unfolding l1_def q_compact_def Let_def t(1) using t(2) c by (simp add: js_len_def)
    then show ?thesis using compact_wrapped[OF assms(1) _ assms(2)] False by simp
  qed
qed

lemma half_pow: "0 < k \<Longrightarrow> k \<le> 30 \<Longrightarrow> js_ushr (2 ^ k) 1 = 2 ^ (k - 1) \<and> js_shr (2 ^ k) 1 = 2 ^ (k - 1)"
  using js_ushr_div[of "2 ^ k" 1] js_shr_div[of "2 ^ k" 1] pow2_le_30[of k]
    power_Suc[of "2::int" "k - 1"] by simp

lemma q_shrink_rep:
  assumes "q_rep q xs"
  shows "q_rep (q_tryToShrinkList q) xs"
proof -
  from assms obtain k h where r: "2 \<le> k" "k \<le> 30" "qCapacityMask q = 2 ^ k - 1" "qHead q = int h"
    "length xs < 2 ^ k" "qTail q = int (wrap (2 ^ k) (h + length xs))"
    "ring (qList q) (2 ^ k) h xs" "0 \<le> qLastDump q" "0 \<le> qPrevDump q"
    "length (qList q) = 2 ^ k" "h < 2 ^ k"
    by (rule q_repE)
  let ?n = "length xs"
  have len: "js_len (qList q) = 2 ^ k" using r by (simp add: js_len_def)
  have cnt: "js_and (int (wrap (2 ^ k) (h + ?n)) - int h + 2 ^ k) (2 ^ k - 1) = int ?n"
    using r by (intro q_count) auto
  let ?l1 = "q_compact (qList q) (int h) (int (wrap (2 ^ k) (h + ?n)))"
  have prefix: "length ?l1 = 2 ^ k" "\<forall>j<?n. ?l1 ! j = Some (xs ! j)"
    using q_compact_prefix[OF r(7) r(5)] by auto
  show ?thesis
  proof (cases "js_len (qList q) > 10000 \<and> int ?n < js_shr (js_len (qList q)) 2")
    case False
    then have "q_tryToShrinkList q = q"
      unfolding q_tryToShrinkList_def Let_def r(3,4,6) len cnt by (subst if_not_P) auto
    then show ?thesis using assms by simp
  next
    case True
    have k: "14 \<le> k"
      using True len power_increasing[of k 13 "2::int"] by (cases "k \<le> 13") auto
    have len1: "js_len ?l1 = 2 ^ k" using prefix(1) by (simp add: js_len_def)
    have half: "js_ushr (2 ^ k) 1 = 2 ^ (k - 1)" using half_pow[of k] k r(2) by simp
    have n: "?n < 2 ^ (k - 1)"
    proof -
      have "int ?n < 2 ^ k div 4"
        using True len js_shr_div[of "2 ^ k" 2] pow2_le_30[OF r(2)] by simp
      moreover have "(2::int) ^ k = 2 * 2 ^ (k - 1)" using k power_Suc[of "2::int" "k - 1"] by simp
      ultimately have "int ?n < 2 ^ (k - 1)" by linarith
      then have "int ?n < int (2 ^ (k - 1))" by simp
      then show ?thesis by (simp only: of_nat_less_iff)
    qed
    let ?l3 = "js_fill (js_setLength ?l1 (2 ^ (k - 1))) None (int ?n) (2 ^ (k - 1))"
    have "js_len (js_setLength ?l1 (2 ^ (k - 1))) = 2 ^ (k - 1)" by (simp add: js_len_def)
    then have "q_tryToShrinkList q = q\<lparr>qTail := int ?n, qHead := 0,
        qCapacityMask := 2 ^ (k - 1) - 1, qList := ?l3\<rparr>"
      using True unfolding q_tryToShrinkList_def Let_def r(3,4,6) len cnt len1 half
      by (simp add: mask_shrink[OF r(1,2)])
    moreover have "ring ?l3 (2 ^ (k - 1)) 0 xs"
      using ring_prefix[of ?l1 "2 ^ k" xs "2 ^ (k - 1)"] prefix n by simp
    ultimately show ?thesis
      using r n k by (intro q_repI[where k = "k - 1" and h = 0]) (auto simp: wrap_def)
  qed
qed

lemma q_last_index:
  assumes "h < 2 ^ k" "Suc m < 2 ^ k" "k \<le> 30"
  shows "js_and (int (wrap (2 ^ k) (h + Suc m)) - 1 + 2 ^ k) (2 ^ k - 1) = int (wrap (2 ^ k) (h + m))"
proof -
  let ?w = "wrap (2 ^ k) (h + Suc m)"
  obtain c where c: "(2::nat) ^ k = Suc c" using gr0_implies_Suc[of "2 ^ k"] by auto
  then have "int (2 ^ k) = int c + 1" by simp
  then have "int (?w + c) = int ?w - 1 + 2 ^ k" by simp
  moreover have "?w + c < 2 * 2 ^ k" using wrap_less[of h "2 ^ k" "Suc m"] assms c by simp
  moreover have "wrap (2 ^ k) (?w + c) = wrap (2 ^ k) (h + m)"
    using assms(1,2) c by (auto simp: wrap_def)
  ultimately show ?thesis using and_wrap[of "?w + c" k] assms(3) by (metis)
qed

text \<open>The check at the end of \<open>pop\<close> and \<open>shift\<close>.\<close>

definition q_after :: "'a queue \<Rightarrow> 'a queue" where
  "q_after q = (if js_len (qList q) > 10000 then q_tryToShrinkList q else q)"

lemma q_after_rep: "q_rep q xs \<Longrightarrow> q_rep (q_after q) xs"
  by (simp add: q_after_def q_shrink_rep)

lemma q_pop_empty: "q_rep q [] \<Longrightarrow> q_pop q = (None, q)"
  using q_isEmpty[of q "[]"] by (simp add: q_pop_def)

lemma q_shift_empty: "q_rep q [] \<Longrightarrow> q_shift q = (None, q)"
  using q_isEmpty[of q "[]"] by (simp add: q_shift_def)

lemma q_pop_rep:
  assumes "q_rep q xs" "xs \<noteq> []"
  shows "\<exists>q'. q_pop q = (Some (last xs), q') \<and> q_rep q' (butlast xs)"
proof -
  from assms(1) obtain k h where r: "2 \<le> k" "k \<le> 30" "qCapacityMask q = 2 ^ k - 1" "qHead q = int h"
    "length xs < 2 ^ k" "qTail q = int (wrap (2 ^ k) (h + length xs))"
    "ring (qList q) (2 ^ k) h xs" "0 \<le> qLastDump q" "0 \<le> qPrevDump q"
    "length (qList q) = 2 ^ k" "h < 2 ^ k"
    by (rule q_repE)
  obtain m where m: "length xs = Suc m" using assms(2) by (cases xs) auto
  let ?t = "wrap (2 ^ k) (h + m)"
  have n: "m < length xs" "m < 2 ^ k" using m r(5) by auto
  have t: "?t < 2 ^ k" using r n by (intro wrap_less) auto
  have tail: "js_and (int (wrap (2 ^ k) (h + length xs)) - 1 + js_len (qList q)) (2 ^ k - 1) = int ?t"
    using q_last_index[of h k m] r m by (simp add: js_len_def)
  have val: "js_get (qList q) (int ?t) = Some (last xs)"
    using ring_nth[OF r(7) n(1)] t r(10) assms(2) m by (simp add: js_get_def js_len_def last_conv_nth)
  have put: "js_put (qList q) (int ?t) None = (qList q)[?t := None]"
    using t r(10) by (subst js_put_update) auto
  let ?q1 = "q\<lparr>qTail := int ?t, qList := (qList q)[?t := None]\<rparr>"
  have "q_rep ?q1 (butlast xs)"
    using ring_pop[OF r(7) assms(2)] r n m by (intro q_repI[where k = k and h = h]) auto
  moreover have "qTail q \<noteq> qHead q" using q_isEmpty[OF assms(1)] assms(2) by simp
  then have "q_pop q = (Some (last xs), q_after ?q1)"
    unfolding q_pop_def Let_def q_after_def r(3,6) tail val put by simp
  ultimately show ?thesis using q_after_rep by blast
qed

lemma q_shift_rep:
  assumes "q_rep q xs" "xs \<noteq> []"
  shows "\<exists>q'. q_shift q = (Some (hd xs), q') \<and> q_rep q' (tl xs)"
proof -
  from assms(1) obtain k h where r: "2 \<le> k" "k \<le> 30" "qCapacityMask q = 2 ^ k - 1" "qHead q = int h"
    "length xs < 2 ^ k" "qTail q = int (wrap (2 ^ k) (h + length xs))"
    "ring (qList q) (2 ^ k) h xs" "0 \<le> qLastDump q" "0 \<le> qPrevDump q"
    "length (qList q) = 2 ^ k" "h < 2 ^ k"
    by (rule q_repE)
  obtain m where m: "length xs = Suc m" using assms(2) by (cases xs) auto
  then have n: "0 < length xs" by simp
  have head: "js_and (int h + 1) (2 ^ k - 1) = int (wrap (2 ^ k) (h + 1))"
    using and_wrap[of "h + 1" k] r by (simp add: add.commute)
  have wh: "wrap (2 ^ k) (h + 0) = h" using r(11) by (simp add: wrap_def)
  have val: "js_get (qList q) (int h) = Some (hd xs)"
    using ring_nth[OF r(7) n] wh r(10,11) assms(2) by (simp add: js_get_def js_len_def hd_conv_nth)
  have put: "js_put (qList q) (int h) None = (qList q)[h := None]"
    using r(10,11) by (subst js_put_update) auto
  let ?q1 = "q\<lparr>qList := (qList q)[h := None], qHead := int (wrap (2 ^ k) (h + 1))\<rparr>"
  have "wrap (2 ^ k) (wrap (2 ^ k) (h + 1) + m) = wrap (2 ^ k) (h + length xs)"
    using m r(5,11) by (auto simp: wrap_def)
  then have "q_rep ?q1 (tl xs)"
    using ring_shift[OF r(7) assms(2)] r m
    by (intro q_repI[where k = k and h = "wrap (2 ^ k) (h + 1)"]) auto
  moreover have "qTail q \<noteq> qHead q" using q_isEmpty[OF assms(1)] assms(2) by simp
  then have "q_shift q = (Some (hd xs), q_after ?q1)"
    unfolding q_shift_def Let_def q_after_def r(3,4) head val put by simp
  ultimately show ?thesis using q_after_rep by blast
qed

section \<open>Reading and writing by logical index\<close>

lemma q_index:
  assumes "h < 2 ^ k" "i < 2 ^ k" "k \<le> 30"
  shows "js_and (int h + int i) (2 ^ k - 1) = int (wrap (2 ^ k) (h + i))"
  using and_wrap[of "h + i" k] assms by simp

lemma q_peekFront_rep:
  assumes "q_rep q xs"
  shows "q_peekFront q = (if xs = [] then None else Some (hd xs))"
proof -
  from assms obtain k h where r: "qHead q = int h" "ring (qList q) (2 ^ k) h xs" "h < 2 ^ k"
    "length (qList q) = 2 ^ k"
    by (rule q_repE)
  show ?thesis
  proof (cases xs)
    case Nil
    then show ?thesis using q_isEmpty[OF assms] by (simp add: q_peekFront_def)
  next
    case (Cons x ys)
    then show ?thesis
      using q_isEmpty[OF assms] r ring_nth[OF r(2), of 0]
      by (simp add: q_peekFront_def js_get_def js_len_def wrap_def)
  qed
qed

lemma q_peekBack_rep:
  assumes "q_rep q xs"
  shows "q_peekBack q = (if xs = [] then None else Some (last xs))"
proof -
  from assms obtain k h where r: "k \<le> 30" "qCapacityMask q = 2 ^ k - 1" "length xs < 2 ^ k"
    "qTail q = int (wrap (2 ^ k) (h + length xs))"
    "ring (qList q) (2 ^ k) h xs" "h < 2 ^ k" "length (qList q) = 2 ^ k"
    by (rule q_repE)
  show ?thesis
  proof (cases "xs = []")
    case True
    then show ?thesis using q_isEmpty[OF assms] by (simp add: q_peekBack_def)
  next
    case False
    then obtain m where m: "length xs = Suc m" by (cases xs) auto
    have "wrap (2 ^ k) (h + m) < 2 ^ k" using r m by (intro wrap_less) auto
    then show ?thesis
      using False q_isEmpty[OF assms] q_last_index[of h k m] ring_nth[OF r(5), of m] r m
      by (simp add: q_peekBack_def js_get_def js_len_def last_conv_nth)
  qed
qed

lemma q_get_rep: "q_rep q xs \<Longrightarrow> i < length xs \<Longrightarrow> q_get q (int i) = Some (xs ! i)"
  by (erule q_repE) (simp add: q_get_def q_index js_get_def js_len_def ring_nth wrap_less)

lemma q_set_rep: "q_rep q xs \<Longrightarrow> i < length xs \<Longrightarrow> q_rep (q_set q (int i) v) (xs[i := v])"
proof (erule q_repE)
  fix k h
  assume r: "i < length xs" "2 \<le> k" "k \<le> 30" "qCapacityMask q = 2 ^ k - 1" "qHead q = int h"
    "length xs < 2 ^ k" "qTail q = int (wrap (2 ^ k) (h + length xs))"
    "ring (qList q) (2 ^ k) h xs" "0 \<le> qLastDump q" "0 \<le> qPrevDump q"
    "length (qList q) = 2 ^ k" "h < 2 ^ k"
  have "wrap (2 ^ k) (h + i) < 2 ^ k" using r by (intro wrap_less) auto
  then have "q_set q (int i) v = q\<lparr>qList := (qList q)[wrap (2 ^ k) (h + i) := Some v]\<rparr>"
    using r by (simp add: q_set_def q_index js_put_update)
  then show ?thesis
    using ring_set[OF r(8) r(1)] r by (intro q_repI[where k = k and h = h]) auto
qed

lemma q_swap_rep:
  assumes "q_rep q xs" "i < length xs" "j < length xs"
  shows "q_rep (q_swap q (int i) (int j)) (xs[i := xs ! j, j := xs ! i])"
proof -
  from assms(1) obtain k h where r: "k \<le> 30" "qCapacityMask q = 2 ^ k - 1" "qHead q = int h"
    "length xs < 2 ^ k" "ring (qList q) (2 ^ k) h xs" "h < 2 ^ k" "length (qList q) = 2 ^ k"
    by (rule q_repE)
  let ?ri = "wrap (2 ^ k) (h + i)" and ?rj = "wrap (2 ^ k) (h + j)"
  have l: "?ri < 2 ^ k" "?rj < 2 ^ k" using r assms by (auto intro!: wrap_less)
  have idx: "js_and (int h + int i) (2 ^ k - 1) = int ?ri" "js_and (int h + int j) (2 ^ k - 1) = int ?rj"
    using r assms by (auto intro!: q_index)
  have g: "js_get (qList q) (int ?ri) = Some (xs ! i)" "js_get (qList q) (int ?rj) = Some (xs ! j)"
    using l r assms ring_nth[OF r(5)] by (auto simp: js_get_def js_len_def)
  have "q_swap q (int i) (int j) = q_set (q_set q (int i) (xs ! j)) (int j) (xs ! i)"
    unfolding q_swap_def q_set_def Let_def r(2,3) idx g by (simp add: r(2,3) idx)
  then show ?thesis
    using q_set_rep[OF q_set_rep[OF assms(1,2)], of j] assms(3) by simp
qed

section \<open>Copying out\<close>

lemma ring_copy_contiguous:
  assumes "ring l cap h xs" "h + length xs < cap"
  shows "js_copy_loop l (int h) (int (h + length xs)) (- int h) (replicate (length xs) None) = map Some xs"
proof -
  let ?r = "js_copy_loop l (int h) (int (h + length xs)) (- int h) (replicate (length xs) None)"
  have "length l = cap" using assms(1) by (rule ringD)
  then have "length ?r = length xs" "\<And>i. i < length xs \<Longrightarrow> ?r ! i = l ! (i + h)"
    using js_copy_loop_nth[of "int h" "int (h + length xs)" l "- int h" "replicate (length xs) None"] assms(2)
    by (auto simp: nat_add_distrib)
  moreover have "l ! (i + h) = Some (xs ! i)" if "i < length xs" for i
    using ring_nth[OF assms(1) that] assms(2) that by (simp add: wrap_def add.commute)
  ultimately show ?thesis by (intro nth_equalityI) auto
qed

lemma ring_copy_wrapped:
  assumes "ring l cap h xs" "cap \<le> h + length xs" "length xs < cap"
  shows "js_copy_loop l 0 (int (h + length xs - cap)) (int cap - int h)
      (js_copy_loop l (int h) (int cap) (- int h) (replicate (length xs) None)) = map Some xs"
proof -
  let ?n = "length xs" and ?t = "h + length xs - cap"
  define r1 where "r1 = js_copy_loop l (int h) (int cap) (- int h) (replicate ?n None)"
  define r2 where "r2 = js_copy_loop l 0 (int ?t) (int (cap - h)) r1"
  have c: "length l = cap" "h < cap" using assms(1) by (auto simp: ring_def)
  have r1: "length r1 = ?n" "\<And>i. i < ?n \<Longrightarrow> r1 ! i = (if i < cap - h then l ! (i + h) else None)"
    using js_copy_loop_nth[of "int h" "int cap" l "- int h" "replicate ?n None"] c assms(2)
    unfolding r1_def by (auto simp: nat_add_distrib)
  have r2: "length r2 = ?n"
    "\<And>i. i < ?n \<Longrightarrow> r2 ! i = (if cap - h \<le> i then l ! (i - (cap - h)) else r1 ! i)"
    using js_copy_loop_nth[of 0 "int ?t" l "int (cap - h)" r1] r1(1) c assms(2,3)
    unfolding r2_def by (auto simp: of_nat_diff nat_diff_distrib)
  have "r2 ! i = Some (xs ! i)" if i: "i < ?n" for i
  proof (cases "i < cap - h")
    case True
    then have "wrap cap (h + i) = i + h" using c by (auto simp: wrap_def)
    then show ?thesis using ring_nth[OF assms(1) i] True i r1 r2 by simp
  next
    case False
    then have "wrap cap (h + i) = i - (cap - h)" using c by (auto simp: wrap_def)
    then show ?thesis using ring_nth[OF assms(1) i] False i r2 by simp
  qed
  then have "r2 = map Some xs" using r2(1) by (intro nth_equalityI) auto
  then show ?thesis using c by (simp add: r1_def r2_def of_nat_diff)
qed

lemma q_toArray_rep:
  assumes "q_rep q xs"
  shows "q_toArray q = map Some xs"
proof -
  from assms obtain k h where r: "2 \<le> k" "k \<le> 30" "qCapacityMask q = 2 ^ k - 1" "qHead q = int h"
    "length xs < 2 ^ k" "qTail q = int (wrap (2 ^ k) (h + length xs))"
    "ring (qList q) (2 ^ k) h xs" "length (qList q) = 2 ^ k" "h < 2 ^ k"
    by (rule q_repE)
  define cap where "cap = (2 ^ k :: nat)"
  note r' = r(5-9)[folded cap_def]
  have len: "js_len (qList q) = int cap" using r'(4) by (simp add: js_len_def)
  have cnt: "js_and (int (wrap cap (h + length xs)) - int h + int cap) (2 ^ k - 1) = int (length xs)"
    using q_count[OF r(9) r(5) r(2)] by (simp add: cap_def)
  show ?thesis
  proof (cases "h + length xs < cap")
    case True
    then show ?thesis
      using ring_copy_contiguous[OF r'(3) True] cnt
      by (simp add: q_toArray_def Let_def r(3,4) r'(2) len wrap_def)
  next
    case False
    then show ?thesis
      using ring_copy_wrapped[OF r'(3) _ r'(1)] cnt r'(1,5)
      by (simp add: q_toArray_def Let_def r(3,4) r'(2) len wrap_def)
  qed
qed

lemma q_dump_loop_eq:
  assumes "0 \<le> a" "a \<le> b" "b \<le> int (length l)"
  shows "q_dump_loop a b d (r, l) = (js_copy_loop l a b d r, js_fill l None a b)"
  using assms(2,3)
proof (induction b rule: int_ge_induct)
  case base
  then show ?case using assms(1) by (simp add: q_dump_loop_def js_copy_loop_def fill_eq)
next
  case (step b)
  have ih: "q_dump_loop a b d (r, l) = (js_copy_loop l a b d r, js_fill l None a b)"
    using step by simp
  have "[a..b] = [a..b - 1] @ [b]" using step.hyps by (subst upto_rec2) auto
  then have "q_dump_loop a (b + 1) d (r, l) =
      (js_put (js_copy_loop l a b d r) (b + d) (js_get (js_fill l None a b) b),
       js_put (js_fill l None a b) b None)"
    using ih by (simp add: q_dump_loop_def)
  moreover have "js_get (js_fill l None a b) b = js_get l b"
    using assms(1) step by (simp add: js_get_def js_len_def length_fill nth_fill)
  moreover have "js_put (js_fill l None a b) b None = js_fill l None a (b + 1)"
  proof (rule nth_equalityI)
    have len: "length (js_fill l None a b) = length l" "length (js_fill l None a (b + 1)) = length l"
      using assms(1) step by (auto intro!: length_fill)
    then show "length (js_put (js_fill l None a b) b None) = length (js_fill l None a (b + 1))"
      using assms(1) step by (simp add: js_put_update)
    fix i assume "i < length (js_put (js_fill l None a b) b None)"
    then have "i < length l" using assms(1) step len by (simp add: js_put_update)
    then show "js_put (js_fill l None a b) b None ! i = js_fill l None a (b + 1) ! i"
      using assms(1) step len by (auto simp: js_put_update nth_list_update nth_fill)
  qed
  moreover have "js_copy_loop l a (b + 1) d r = js_put (js_copy_loop l a b d r) (b + d) (js_get l b)"
    using step.hyps by (subst js_copy_loop_step) auto
  ultimately show ?case by simp
qed

lemma js_copy_loop_src_cong:
  assumes "0 \<le> a" "\<And>j. a \<le> j \<Longrightarrow> j < b \<Longrightarrow> js_get l j = js_get l' j"
  shows "js_copy_loop l a b d r = js_copy_loop l' a b d r"
  unfolding js_copy_loop_def using assms(2) by (intro fold_cong) auto

text \<open>The two loops of \<open>dumpToArray\<close>: everything is copied out and every live slot is cleared.\<close>

lemma js_get_fill_below:
  assumes "nat s \<le> nat e" "nat e \<le> length l" "j < s"
  shows "js_get (js_fill l v s e) j = js_get l j"
  using assms by (auto simp: js_get_def js_len_def length_fill nth_fill)

lemma fill_clears:
  assumes "nat s \<le> nat e" "nat e \<le> length l"
    "\<And>j. j < length l \<Longrightarrow> j < nat s \<or> nat e \<le> j \<Longrightarrow> l ! j = None"
  shows "js_fill l None s e = replicate (length l) None"
  using assms by (intro nth_equalityI) (auto simp: length_fill nth_fill)

lemma ring_dump_contiguous:
  assumes "ring l cap h xs" "h + length xs < cap"
  shows "q_dump_loop (int h) (int (h + length xs)) (- int h) (replicate (length xs) None, l)
    = (map Some xs, replicate cap None)"
proof -
  have c: "length l = cap" using assms(1) by (rule ringD)
  have "l ! j = None" if "j < cap" "j < h \<or> h + length xs \<le> j" for j
  proof -
    have "length xs \<le> off cap h j" using that assms(2) by (auto simp: off_def)
    then show ?thesis using assms(1) that(1) by (simp add: ring_def)
  qed
  then have "js_fill l None (int h) (int (h + length xs)) = replicate cap None"
    using c assms(2) by (subst fill_clears) (auto simp: nat_add_distrib)
  then show ?thesis
    using c assms(2) ring_copy_contiguous[OF assms] by (subst q_dump_loop_eq) auto
qed

lemma ring_dump_wrapped:
  assumes "ring l cap h xs" "cap \<le> h + length xs" "length xs < cap"
  shows "q_dump_loop 0 (int (h + length xs - cap)) (int cap - int h)
      (q_dump_loop (int h) (int cap) (- int h) (replicate (length xs) None, l))
    = (map Some xs, replicate cap None)"
proof -
  let ?t = "h + length xs - cap"
  have c: "length l = cap" "h < cap" using assms(1) by (auto simp: ring_def)
  have t: "?t < h" using assms(2,3) c by linarith
  let ?r1 = "js_copy_loop l (int h) (int cap) (- int h) (replicate (length xs) None)"
  let ?l1 = "js_fill l None (int h) (int cap)"
  have len1: "length ?l1 = cap" using c by (subst length_fill) auto
  have "l ! j = None" if "j < h" "?t \<le> j" for j
  proof -
    have "length xs \<le> off cap h j" "j < cap" using that c by (auto simp: off_def)
    then show ?thesis using assms(1) by (simp add: ring_def)
  qed
  then have "js_fill ?l1 None 0 (int ?t) = replicate cap None"
    using c t len1 by (subst fill_clears) (auto simp: nth_fill)
  moreover have "js_copy_loop ?l1 0 (int ?t) (int cap - int h) ?r1
      = js_copy_loop l 0 (int ?t) (int cap - int h) ?r1"
    using c t by (intro js_copy_loop_src_cong js_get_fill_below) auto
  ultimately show ?thesis
    using c t len1 ring_copy_wrapped[OF assms] by (simp add: q_dump_loop_eq)
qed

lemma shl_bitlen:
  assumes "4 \<le> n" "n < 2 ^ 29"
  shows "js_shl 1 (32 - js_clz32 (int n)) = 2 ^ bitlen n \<and> bitlen n \<le> 29 \<and> 3 \<le> bitlen n"
proof -
  have b: "2 ^ (bitlen n - 1) \<le> n" "n < 2 ^ bitlen n" "bitlen n \<le> 29"
    using bitlen_bounds[of n] bitlen_le[of n 29] assms by auto
  have "3 \<le> bitlen n"
  proof (rule ccontr)
    assume "\<not> 3 \<le> bitlen n"
    then have "(2::nat) ^ bitlen n \<le> 2 ^ 2" by (intro power_increasing) auto
    then show False using b(2) assms(1) by simp
  qed
  moreover have "32 - js_clz32 (int n) = int (bitlen n)"
    using assms(2) by (simp add: js_clz32_def to_uint32_id)
  moreover have "(2::int) ^ bitlen n \<le> 2 ^ 29" using b(3) by (intro power_increasing) auto
  then have "js_shl 1 (int (bitlen n)) = 2 ^ bitlen n"
    using js_shl_mult[of 1 "bitlen n"] b(3) by simp
  ultimately show ?thesis using b(3) by simp
qed

text \<open>
  The capacity after a dump. \<open>keep\<close> is the larger of the two previous dump sizes; a buffer of more
  than 10000 slots that is more than twice as large is cut to the next power of two above it.
\<close>

definition dump_keep :: "'a queue \<Rightarrow> int" where
  "dump_keep q = (if qLastDump q > qPrevDump q then qLastDump q else qPrevDump q)"

definition dump_shrinks :: "'a queue \<Rightarrow> bool" where
  "dump_shrinks q \<longleftrightarrow> js_len (qList q) > 10000 \<and> dump_keep q < js_len (qList q) div 2"

definition dump_cap :: "'a queue \<Rightarrow> int" where
  "dump_cap q = (if dump_keep q < 4 then 4 else js_shl 1 (32 - js_clz32 (dump_keep q)))"

lemma q_dump_release_eq:
  assumes "js_len (qList q) = 2 ^ k" "k \<le> 30"
  shows "q_dump_release q = (if dump_shrinks q
     then q\<lparr>qList := js_setLength (qList q) (dump_cap q), qCapacityMask := dump_cap q - 1\<rparr> else q)"
proof -
  have "js_shr (js_len (qList q)) 1 = js_len (qList q) div 2"
    using js_shr_div[of "2 ^ k" 1] pow2_le_30[OF assms(2)] assms(1) by simp
  then show ?thesis
    unfolding q_dump_release_def Let_def dump_keep_def[symmetric] dump_cap_def[symmetric] dump_shrinks_def
    by simp
qed

lemma dump_cap_pow:
  assumes "dump_shrinks q" "js_len (qList q) = 2 ^ k" "k \<le> 30" "0 \<le> dump_keep q"
  obtains j where "dump_cap q = 2 ^ j" "2 \<le> j" "j \<le> 29" "j < k" "dump_keep q < 2 ^ j"
    "2 ^ j \<le> max 4 (2 * dump_keep q)"
proof -
  have lt: "dump_keep q < 2 ^ k div 2" "(10000::int) < 2 ^ k" using assms by (auto simp: dump_shrinks_def)
  have k: "14 \<le> k" using lt(2) power_increasing[of k 13 "2::int"] by (cases "k \<le> 13") auto
  show thesis
  proof (cases "dump_keep q < 4")
    case True
    then show thesis using that[of 2] k by (simp add: dump_cap_def)
  next
    case False
    define n where "n = nat (dump_keep q)"
    have n: "dump_keep q = int n" "4 \<le> n" using False by (auto simp: n_def)
    have "n < 2 ^ 29" using lt(1) pow2_le_30[OF assms(3)] n(1) by simp
    then have b: "js_shl 1 (32 - js_clz32 (int n)) = 2 ^ bitlen n" "bitlen n \<le> 29" "3 \<le> bitlen n"
      using shl_bitlen[OF n(2)] by auto
    have p: "2 ^ (bitlen n - 1) \<le> n" "n < 2 ^ bitlen n" using bitlen_bounds[of n] n(2) by auto
    obtain j where j: "bitlen n = Suc j" using b(3) by (cases "bitlen n") auto
    have up: "(2::nat) ^ bitlen n \<le> 2 * n" using p(1) j by simp
    have p': "int n < int (2 ^ bitlen n)" "int (2 ^ bitlen n) \<le> int (2 * n)"
      using p(2) up by (simp_all only: of_nat_less_iff of_nat_le_iff)
    have "(2::int) ^ bitlen n \<le> 2 * int n" using p'(2) by simp
    with lt(1) n(1) have "(2::int) ^ bitlen n < 2 ^ k" by linarith
    then have "bitlen n < k" by (rule power_less_imp_less_exp[rotated]) simp
    then show thesis using that[of "bitlen n"] False n(1) b p' by (simp add: dump_cap_def)
  qed
qed

lemma setLength_replicate: "js_setLength (replicate n None) m = replicate (nat m) None"
  by (intro nth_equalityI) (simp_all add: nth_setLength)

lemma ring_empty: "0 < cap \<Longrightarrow> ring (replicate cap None) cap 0 []"
  by (simp add: ring_def off_def)

lemma q_dump_rep:
  assumes "q_rep q xs" "q_dumpToArray q = (r, q')"
  shows "r = map Some xs" "q_rep q' []" "qLastDump q' = int (length xs)" "qPrevDump q' = qLastDump q"
    "js_len (qList q') = (if dump_shrinks q then dump_cap q else js_len (qList q))"
proof -
  from assms(1) obtain k h where r: "2 \<le> k" "k \<le> 30" "qCapacityMask q = 2 ^ k - 1" "qHead q = int h"
    "length xs < 2 ^ k" "qTail q = int (wrap (2 ^ k) (h + length xs))"
    "ring (qList q) (2 ^ k) h xs" "length (qList q) = 2 ^ k" "h < 2 ^ k"
    "0 \<le> qLastDump q" "0 \<le> qPrevDump q"
    by (rule q_repE)
  define cap where "cap = (2 ^ k :: nat)"
  note r' = r(5-9)[folded cap_def]
  have len: "js_len (qList q) = int cap" using r'(4) by (simp add: js_len_def)
  have cnt: "js_and (int (wrap cap (h + length xs)) - int h + int cap) (2 ^ k - 1) = int (length xs)"
    using q_count[OF r(9) r(5) r(2)] by (simp add: cap_def)
  have loop: "q_dump_copy (qList q) (qHead q) (qTail q) (replicate (length xs) None)
      = (map Some xs, replicate cap None)"
  proof (cases "h + length xs < cap")
    case True
    then show ?thesis using ring_dump_contiguous[OF r'(3) True] r(4) r'(2)
      by (simp add: wrap_def q_dump_copy_def)
  next
    case False
    then show ?thesis
      using ring_dump_wrapped[OF r'(3) _ r'(1)] r(4) r'(1,2,5)
      by (simp add: wrap_def q_dump_copy_def len)
  qed
  let ?q1 = "q\<lparr>qHead := 0, qTail := 0, qList := replicate cap None\<rparr>"
  have len1: "js_len (qList ?q1) = 2 ^ k" by (simp add: js_len_def cap_def)
  have same: "dump_shrinks ?q1 = dump_shrinks q" "dump_cap ?q1 = dump_cap q" "dump_keep ?q1 = dump_keep q"
    using len by (auto simp: dump_shrinks_def dump_cap_def dump_keep_def js_len_def)
  define q2 where "q2 = q_dump_release ?q1"
  have dump: "q_dumpToArray q = (map Some xs, q2\<lparr>qPrevDump := qLastDump q2, qLastDump := int (length xs)\<rparr>)"
    unfolding q_dumpToArray_def Let_def len r(3) cnt[folded r(4) r'(2)] nat_int loop q2_def
    by (simp add: js_len_def)
  have q2: "q2 = (if dump_shrinks q
      then ?q1\<lparr>qList := replicate (nat (dump_cap q)) None, qCapacityMask := dump_cap q - 1\<rparr> else ?q1)"
    unfolding q2_def q_dump_release_eq[OF len1 r(2)] same by (simp add: setLength_replicate)
  have q': "r = map Some xs" "q' = q2\<lparr>qPrevDump := qLastDump q2, qLastDump := int (length xs)\<rparr>"
    using dump assms(2) by auto
  show "r = map Some xs" by (rule q'(1))
  show "qLastDump q' = int (length xs)" "qPrevDump q' = qLastDump q" using q'(2) q2 by auto
  have "0 \<le> dump_keep q" using r(10,11) by (simp add: dump_keep_def)
  moreover have "js_len (qList q) = 2 ^ k" using len by (simp add: cap_def)
  ultimately have "dump_shrinks q \<longrightarrow> (\<exists>j. dump_cap q = 2 ^ j \<and> 2 \<le> j \<and> j \<le> 29)"
    using dump_cap_pow[of q k] r(2) by metis
  then obtain j where j: "dump_shrinks q \<Longrightarrow> dump_cap q = 2 ^ j \<and> 2 \<le> j \<and> j \<le> 29"
    by blast
  show "js_len (qList q') = (if dump_shrinks q then dump_cap q else js_len (qList q))"
  proof (cases "dump_shrinks q")
    case True
    then have "length (qList q') = nat (dump_cap q)" "0 \<le> dump_cap q" using q'(2) q2 j by simp_all
    then show ?thesis using True by (simp add: js_len_def)
  next
    case False
    then have "length (qList q') = cap" using q'(2) q2 by simp
    then show ?thesis using False len by (simp add: js_len_def)
  qed
  have dumps: "0 \<le> qLastDump q'" "0 \<le> qPrevDump q'" using q'(2) q2 r(10) by auto
  show "q_rep q' []"
  proof (cases "dump_shrinks q")
    case True
    then have "qList q' = replicate (2 ^ j) None" "qCapacityMask q' = 2 ^ j - 1"
        "qHead q' = 0" "qTail q' = 0"
      using q'(2) q2 j by (auto simp: nat_power_eq)
    then show ?thesis
      using j[OF True] dumps by (intro q_repI[where k = j and h = 0]) (simp_all add: wrap_def ring_empty)
  next
    case False
    then have "qList q' = replicate (2 ^ k) None" "qCapacityMask q' = 2 ^ k - 1"
        "qHead q' = 0" "qTail q' = 0"
      using q'(2) q2 r(3) by (auto simp: cap_def)
    then show ?thesis
      using r(1,2) dumps by (intro q_repI[where k = k and h = 0]) (simp_all add: wrap_def ring_empty)
  qed
qed

section \<open>The queue as a provider\<close>

lemma q_push_rep: "q_rep q xs \<Longrightarrow> length xs < 2 ^ 30 - 1 \<Longrightarrow> \<exists>q'. q_push q v = (Inr (), q') \<and> q_rep q' (xs @ [v])"
  by (rule q_push_cases(1))

lemma q_unshift_rep: "q_rep q xs \<Longrightarrow> length xs < 2 ^ 30 - 1 \<Longrightarrow> \<exists>q'. q_unshift q v = (Inr (), q') \<and> q_rep q' (v # xs)"
  by (rule q_unshift_cases)

lemma q_shift_Cons: "q_rep q (x # xs) \<Longrightarrow> \<exists>q'. q_shift q = (Some x, q') \<and> q_rep q' xs"
  using q_shift_rep[of q "x # xs"] by simp

lemma q_pop_snoc: "q_rep q (xs @ [x]) \<Longrightarrow> \<exists>q'. q_pop q = (Some x, q') \<and> q_rep q' xs"
  using q_pop_rep[of q "xs @ [x]"] by simp

lemma q_drain: "q_rep q xs \<Longrightarrow> \<exists>q'. q_dumpToArray q = (map Some xs, q') \<and> q_rep q' []"
  using q_dump_rep[of q xs "fst (q_dumpToArray q)" "snd (q_dumpToArray q)"] by (metis prod.collapse)

interpretation qd: deque q_init q_push q_shift q_peekFront q_dumpToArray q_rep "2 ^ 30 - 1"
    q_unshift q_pop
  by unfold_locales
    (fact q_init_rep q_push_rep q_shift_empty q_shift_Cons q_peekFront_rep q_drain
      q_unshift_rep q_pop_empty q_pop_snoc)+

lemma q_pushAll_rep:
  "q_rep q xs \<Longrightarrow> length xs + length vs < 2 ^ 30 \<Longrightarrow>
    \<exists>q'. q_pushAll q vs = (Inr (), q') \<and> q_rep q' (xs @ vs)"
proof (induction vs arbitrary: q xs)
  case Nil
  then show ?case by auto
next
  case (Cons v vs)
  then have "length xs < 2 ^ 30 - 1" by simp
  then obtain q1 where q1: "q_push q v = (Inr (), q1)" "q_rep q1 (xs @ [v])"
    using q_push_rep[OF Cons.prems(1)] by blast
  show ?case using Cons.IH[OF q1(2)] Cons.prems(2) q1(1) by simp
qed

section \<open>Command sequences\<close>

text \<open>
  A client's session: a list of calls. \<open>q_exec\<close> runs a call on the buffer, \<open>list_exec\<close> on the list
  it stands for; each returns what the call gives the client.
\<close>

datatype 'a q_cmd = QPush 'a | QUnshift 'a | QPop | QShift | QPeekFront | QPeekBack | QToArray | QDump
  | QGet nat | QSet nat 'a | QSwap nat nat

fun q_exec :: "'a q_cmd \<Rightarrow> 'a queue \<Rightarrow> 'a option list \<times> 'a queue" where
  "q_exec (QPush v) q = ([], snd (q_push q v))"
| "q_exec (QUnshift v) q = ([], snd (q_unshift q v))"
| "q_exec QPop q = (case q_pop q of (r, q') \<Rightarrow> ([r], q'))"
| "q_exec QShift q = (case q_shift q of (r, q') \<Rightarrow> ([r], q'))"
| "q_exec QPeekFront q = ([q_peekFront q], q)"
| "q_exec QPeekBack q = ([q_peekBack q], q)"
| "q_exec QToArray q = (q_toArray q, q)"
| "q_exec QDump q = q_dumpToArray q"
| "q_exec (QGet i) q = ([q_get q (int i)], q)"
| "q_exec (QSet i v) q = ([], q_set q (int i) v)"
| "q_exec (QSwap i j) q = ([], q_swap q (int i) (int j))"

fun list_exec :: "'a q_cmd \<Rightarrow> 'a list \<Rightarrow> 'a option list \<times> 'a list" where
  "list_exec (QPush v) xs = ([], xs @ [v])"
| "list_exec (QUnshift v) xs = ([], v # xs)"
| "list_exec QPop xs = (if xs = [] then ([None], []) else ([Some (last xs)], butlast xs))"
| "list_exec QShift xs = (case xs of [] \<Rightarrow> ([None], []) | x # ys \<Rightarrow> ([Some x], ys))"
| "list_exec QPeekFront xs = ([if xs = [] then None else Some (hd xs)], xs)"
| "list_exec QPeekBack xs = ([if xs = [] then None else Some (last xs)], xs)"
| "list_exec QToArray xs = (map Some xs, xs)"
| "list_exec QDump xs = (map Some xs, [])"
| "list_exec (QGet i) xs = ([Some (xs ! i)], xs)"
| "list_exec (QSet i v) xs = ([], xs[i := v])"
| "list_exec (QSwap i j) xs = ([], xs[i := xs ! j, j := xs ! i])"

text \<open>What the documentation asks of the caller: indices in range, and room for one more element.\<close>

fun cmd_ok :: "'a q_cmd \<Rightarrow> 'a list \<Rightarrow> bool" where
  "cmd_ok (QPush v) xs = (length xs < 2 ^ 30 - 1)"
| "cmd_ok (QUnshift v) xs = (length xs < 2 ^ 30 - 1)"
| "cmd_ok (QGet i) xs = (i < length xs)"
| "cmd_ok (QSet i v) xs = (i < length xs)"
| "cmd_ok (QSwap i j) xs = (i < length xs \<and> j < length xs)"
| "cmd_ok _ xs = True"

fun q_session :: "'a q_cmd list \<Rightarrow> 'a queue \<Rightarrow> 'a option list list \<times> 'a queue" where
  "q_session [] q = ([], q)"
| "q_session (c # cs) q = (let (r, q1) = q_exec c q; (rs, q2) = q_session cs q1 in (r # rs, q2))"

fun list_session :: "'a q_cmd list \<Rightarrow> 'a list \<Rightarrow> 'a option list list \<times> 'a list" where
  "list_session [] xs = ([], xs)"
| "list_session (c # cs) xs = (let (r, ys) = list_exec c xs; (rs, zs) = list_session cs ys in (r # rs, zs))"

fun session_ok :: "'a q_cmd list \<Rightarrow> 'a list \<Rightarrow> bool" where
  "session_ok [] xs = True"
| "session_ok (c # cs) xs = (cmd_ok c xs \<and> session_ok cs (snd (list_exec c xs)))"

lemma q_exec_refines:
  assumes "q_rep q xs" "cmd_ok c xs"
  shows "fst (q_exec c q) = fst (list_exec c xs) \<and> q_rep (snd (q_exec c q)) (snd (list_exec c xs))"
proof (cases c)
  case (QPush v)
  then show ?thesis using q_push_rep[OF assms(1), of v] assms(2) by auto
next
  case (QUnshift v)
  then show ?thesis using q_unshift_rep[OF assms(1), of v] assms(2) by auto
next
  case QPop
  then show ?thesis using q_pop_rep[OF assms(1)] q_pop_empty[of q] assms(1) by (cases "xs = []") auto
next
  case QShift
  show ?thesis
  proof (cases xs)
    case Nil
    then show ?thesis using QShift q_shift_empty[of q] assms(1) by simp
  next
    case (Cons x ys)
    then show ?thesis using QShift q_shift_Cons[of q x ys] assms(1) by auto
  qed
next
  case QDump
  then show ?thesis using q_drain[OF assms(1)] by auto
qed (use assms in \<open>auto simp: q_peekFront_rep q_peekBack_rep q_toArray_rep q_get_rep q_set_rep q_swap_rep\<close>)

lemma q_session_refines:
  assumes "q_rep q xs" "session_ok cs xs"
  shows "fst (q_session cs q) = fst (list_session cs xs) \<and>
    q_rep (snd (q_session cs q)) (snd (list_session cs xs))"
  using assms
proof (induction cs arbitrary: q xs)
  case (Cons c cs)
  have "fst (q_exec c q) = fst (list_exec c xs)" "q_rep (snd (q_exec c q)) (snd (list_exec c xs))"
    using q_exec_refines[of q xs c] Cons.prems by auto
  then show ?case
    using Cons.IH[of "snd (q_exec c q)" "snd (list_exec c xs)"] Cons.prems
    by (auto simp: Let_def split: prod.splits)
qed simp

section \<open>Properties\<close>

text \<open>
  C1. Every session of calls on a fresh queue gives the client exactly what the same calls on a plain
  list give, and leaves a buffer that represents the list's final value, through any number of
  doublings, halvings and dumps, as long as the indices are in range and fewer than \<open>2 ^ 30\<close>
  elements are held.
\<close>

theorem queue_session_refines_list:
  assumes "session_ok cs []"
  shows "fst (q_session cs q_init) = fst (list_session cs []) \<and>
    q_rep (snd (q_session cs q_init)) (snd (list_session cs []))"
  by (rule q_session_refines[OF q_init_rep assms])

theorem queue_session_refines_list_witness:
  "fst (q_session [QPush 1, QPush 2, QUnshift (0::nat), QPush 3, QPush 4, QSwap 0 4, QPop, QShift, QDump] q_init)
     = [[], [], [], [], [], [], [Some 0], [Some 4], [Some 1, Some 2, Some 3]]"
  using queue_session_refines_list
    [of "[QPush 1, QPush 2, QUnshift (0::nat), QPush 3, QPush 4, QSwap 0 4, QPop, QShift, QDump]"]
  by simp

text \<open>
  The capacity limit: on a queue that holds \<open>2 ^ 30 - 1\<close> elements the next \<open>push\<close> fills the buffer,
  \<open>list.length << 1\<close> is negative as a 32-bit integer, and the call throws a \<open>RangeError\<close>.
\<close>

theorem queue_push_limit:
  assumes "q_rep q xs" "length xs = 2 ^ 30 - 1"
  shows "fst (q_push q v) = Inl RangeError"
  using assms by (rule q_push_cases(2))

definition q_full :: "nat \<Rightarrow> 'a \<Rightarrow> 'a queue" where
  "q_full k v = \<lparr>qCapacityMask = 2 ^ k - 1, qHead = 0, qTail = 2 ^ k - 1,
     qList = replicate (2 ^ k - 1) (Some v) @ [None], qLastDump = 0, qPrevDump = 0\<rparr>"

lemma q_full_rep:
  assumes "2 \<le> k" "k \<le> 30"
  shows "q_rep (q_full k v) (replicate (2 ^ k - 1) v)"
proof -
  obtain c where c: "(2::nat) ^ k = Suc c" using gr0_implies_Suc[of "2 ^ k"] by auto
  then have "int (2 ^ k) = int c + 1" by simp
  then have c': "(2::int) ^ k = int c + 1" by simp
  have "ring (replicate c (Some v) @ [None]) (Suc c) 0 (replicate c v)"
    by (auto simp: ring_def off_def slot_def nth_append less_Suc_eq)
  then show ?thesis
    using assms c c' by (intro q_repI[where k = k and h = 0]) (auto simp: q_full_def wrap_def)
qed

theorem queue_push_limit_witness: "fst (q_push (q_full 30 True) False) = Inl RangeError"
  by (rule queue_push_limit[OF q_full_rep]) simp_all

text \<open>
  \<open>dumpToArray\<close> returns the elements front to back and empties the queue, and bounds what it keeps
  allocated: afterwards the buffer has at most 10000 slots or at most about twice the larger of the
  two previous dumps. When it releases memory it still leaves more slots than that dump had
  elements, so a steady stream of batches of that size never grows the buffer again.
\<close>

theorem queue_dump_hysteresis:
  assumes "q_rep q xs" "q_dumpToArray q = (r, q')"
  shows "r = map Some xs \<and> q_rep q' [] \<and>
    js_len (qList q') \<le> max 10000 (2 * dump_keep q + 1) \<and>
    (js_len (qList q') = js_len (qList q) \<or>
     dump_keep q < js_len (qList q') \<and> js_len (qList q') < js_len (qList q))"
proof -
  from assms(1) obtain k where k: "js_len (qList q) = 2 ^ k" "k \<le> 30" "0 \<le> dump_keep q"
    by (rule q_repE) (auto simp: js_len_def dump_keep_def)
  have d: "r = map Some xs" "q_rep q' []"
      "js_len (qList q') = (if dump_shrinks q then dump_cap q else js_len (qList q))"
    using q_dump_rep[OF assms] by auto
  show ?thesis
  proof (cases "dump_shrinks q")
    case True
    then obtain j where j: "dump_cap q = 2 ^ j" "j < k" "dump_keep q < 2 ^ j"
        "2 ^ j \<le> max 4 (2 * dump_keep q)"
      using dump_cap_pow[of q k] k by blast
    have "(2::int) ^ j < 2 ^ k" using j(2) by (intro power_strict_increasing) auto
    then show ?thesis using True d j k(1) by auto
  next
    case False
    then have "js_len (qList q) \<le> max 10000 (2 * dump_keep q + 1)"
      unfolding dump_shrinks_def by (auto simp: max_def)
    then show ?thesis using False d by simp
  qed
qed

theorem queue_dump_hysteresis_witness:
  "q_rep (snd (q_dumpToArray (q_full 14 True))) [] \<and>
   js_len (qList (snd (q_dumpToArray (q_full 14 True)))) \<le> 10000"
  using queue_dump_hysteresis[OF q_full_rep[of 14 True], of "fst (q_dumpToArray (q_full 14 True))"
      "snd (q_dumpToArray (q_full 14 True))"]
  by (simp add: dump_keep_def q_full_def)

end
