(* ===== verification/PriorityQueue.thy ===== *)
theory PriorityQueue
  imports Interfaces "HOL-Library.Multiset"
begin

text \<open>
  \<open>src/src/PriorityQueue.ts\<close>: the binary min-heap. The comparator is a field of the record and may
  throw (\<open>Inl\<close>); it is applied to slots, that is to values that may be \<open>undefined\<close>.

  The two undo loops in the \<open>catch\<close> blocks have no bound of their own in the code, so they are
  partial functions (\<^term>\<open>None\<close>: the loop does not end); that they always end, and restore the array
  slot by slot, is part of what is proved. Every operation that sifts returns an option for that
  reason: \<^term>\<open>Some (outcome, state)\<close>.

  The index arithmetic is 32-bit, so the statements bound the number of elements by \<open>2 ^ 30\<close>.
\<close>

section \<open>State\<close>

record ('a, 'e) pqueue =
  pqItems :: "'a option list"
  pqSize :: int
  pqCmp :: "'a option \<Rightarrow> 'a option \<Rightarrow> 'e + int"

section \<open>Operations\<close>

lemma shr_parent_less: "0 < i \<Longrightarrow> js_shr (i - 1) 1 < i"
proof -
  assume i: "0 < i"
  have "js_shr (i - 1) 1 = to_int32 (i - 1) div 2" by (simp add: js_shr_def drop_bit_eq_div)
  moreover have "to_int32 (i - 1) \<le> i - 1"
  proof (cases "i - 1 < 2 ^ 31")
    case True
    then show ?thesis using i by (simp add: to_int32_id)
  next
    case False
    have "to_int32 (i - 1) < 2 ^ 31" unfolding to_int32_def by (simp add: pos_mod_bound)
    with False show ?thesis by linarith
  qed
  ultimately show ?thesis using i by linarith
qed

text \<open>\<open>siftUp\<close>: the loop inside \<open>try\<close>, the undo loop of the \<open>catch\<close> block, the whole function.\<close>

function pq_up_loop :: "('a option \<Rightarrow> 'a option \<Rightarrow> 'e + int) \<Rightarrow> 'a option \<Rightarrow> 'a option list \<Rightarrow> int
    \<Rightarrow> 'e option \<times> 'a option list \<times> int" where
  "pq_up_loop cmp value items i =
     (if i > 0
      then let parent = js_shr (i - 1) 1
           in case cmp value (js_get items parent) of
                Inl e \<Rightarrow> (Some e, items, i)
              | Inr c \<Rightarrow>
                  if c < 0 then pq_up_loop cmp value (js_put items i (js_get items parent)) parent
                  else (None, items, i)
      else (None, items, i))"
  by pat_completeness auto
termination
  by (relation "measure (\<lambda>(cmp, value, items, i). nat i)") (auto dest: shr_parent_less)

declare pq_up_loop.simps [simp del]

partial_function (option) pq_undo_up ::
  "'a option list \<Rightarrow> 'a option \<Rightarrow> int \<Rightarrow> int \<Rightarrow> 'a option list option" where
  "pq_undo_up items carry j i =
     (if j = i then Some items
      else pq_undo_up (js_put items j carry) (js_get items j) (js_shr (j - 1) 1) i)"

definition pq_siftUp :: "('a, 'e) pqueue \<Rightarrow> int \<Rightarrow> (('e + unit) \<times> ('a, 'e) pqueue) option" where
  "pq_siftUp pq start =
     (let value = js_get (pqItems pq) start
      in case pq_up_loop (pqCmp pq) value (pqItems pq) start of
           (None, items, i) \<Rightarrow> Some (Inr (), pq\<lparr>pqItems := js_put items i value\<rparr>)
         | (Some e, items, i) \<Rightarrow>
             map_option (\<lambda>items1. (Inl e, pq\<lparr>pqItems := js_put items1 start None, pqSize := start\<rparr>))
               (pq_undo_up items value start i))"

text \<open>\<open>siftDown\<close>: one iteration picks the smaller child and compares it with the value.\<close>

definition pq_pick_child :: "('a option \<Rightarrow> 'a option \<Rightarrow> 'e + int) \<Rightarrow> 'a option list \<Rightarrow> int \<Rightarrow> int
    \<Rightarrow> 'e + int" where
  "pq_pick_child cmp items n left =
     (let right = left + 1
      in if right < n
         then (case cmp (js_get items right) (js_get items left) of
                 Inl e \<Rightarrow> Inl e
               | Inr c \<Rightarrow> Inr (if c < 0 then right else left))
         else Inr left)"

text \<open>
  The loop ends because the index grows below \<open>n\<close>, as long as \<open>2 * i + 1\<close> fits 32 bits; past that
  the shifted index is negative. It is a partial function, and \<open>pq_down_loop_ok\<close> shows that it ends.
\<close>

partial_function (option) pq_down_loop :: "('a option \<Rightarrow> 'a option \<Rightarrow> 'e + int) \<Rightarrow> 'a option \<Rightarrow> int
    \<Rightarrow> 'a option list \<Rightarrow> int \<Rightarrow> ('e option \<times> 'a option list \<times> int) option" where
  "pq_down_loop cmp value n items i =
     (let left = js_shl i 1 + 1
      in if left \<ge> n then Some (None, items, i)
         else case pq_pick_child cmp items n left of
                Inl e \<Rightarrow> Some (Some e, items, i)
              | Inr child \<Rightarrow>
                  (case cmp (js_get items child) value of
                     Inl e \<Rightarrow> Some (Some e, items, i)
                   | Inr c \<Rightarrow>
                       if c < 0
                       then pq_down_loop cmp value n (js_put items i (js_get items child)) child
                       else Some (None, items, i)))"

partial_function (option) pq_undo_down ::
  "'a option list \<Rightarrow> int \<Rightarrow> int \<Rightarrow> 'a option list option" where
  "pq_undo_down items j start =
     (if j = start then Some items
      else pq_undo_down (js_put items j (js_get items (js_shr (j - 1) 1))) (js_shr (j - 1) 1) start)"

definition pq_siftDown :: "('a, 'e) pqueue \<Rightarrow> int \<Rightarrow> (('e + unit) \<times> ('a, 'e) pqueue) option" where
  "pq_siftDown pq start =
     (let n = pqSize pq; value = js_get (pqItems pq) start
      in case pq_down_loop (pqCmp pq) value n (pqItems pq) start of
           None \<Rightarrow> None
         | Some (None, items, i) \<Rightarrow> Some (Inr (), pq\<lparr>pqItems := js_put items i value\<rparr>)
         | Some (Some e, items, i) \<Rightarrow>
             map_option (\<lambda>items1. (Inl e, pq\<lparr>pqItems := js_put items1 start value\<rparr>))
               (pq_undo_down items i start))"

declare pq_undo_up.simps [code] pq_down_loop.simps [code] pq_undo_down.simps [code]

definition pq_size :: "('a, 'e) pqueue \<Rightarrow> int" where
  "pq_size pq = pqSize pq"

definition pq_peek :: "('a, 'e) pqueue \<Rightarrow> 'a option" where
  "pq_peek pq = (if pqSize pq = 0 then None else js_get (pqItems pq) 0)"

definition pq_push :: "('a, 'e) pqueue \<Rightarrow> 'a \<Rightarrow> (('e + unit) \<times> ('a, 'e) pqueue) option" where
  "pq_push pq v =
     (let n = pqSize pq
      in pq_siftUp (pq\<lparr>pqItems := js_put (pqItems pq) n (Some v), pqSize := n + 1\<rparr>) n)"

definition pq_maybeShrink :: "('a, 'e) pqueue \<Rightarrow> int \<Rightarrow> ('a, 'e) pqueue" where
  "pq_maybeShrink pq newSize =
     (if js_len (pqItems pq) > 10000 \<and> newSize < js_shr (js_len (pqItems pq)) 2
      then pq\<lparr>pqItems := js_slice (pqItems pq) 0 (js_shl newSize 1)\<rparr> else pq)"

definition pq_pop :: "('a, 'e) pqueue \<Rightarrow> (('e + 'a option) \<times> ('a, 'e) pqueue) option" where
  "pq_pop pq =
     (let n = pqSize pq
      in if n = 0 then Some (Inr None, pq)
         else let items = pqItems pq; min = js_get items 0; newSize = n - 1
              in if newSize = 0
                 then Some (Inr min, pq\<lparr>pqItems := js_put items 0 None, pqSize := 0\<rparr>)
                 else let items1 = js_put (js_put items 0 (js_get items newSize)) newSize None
                      in case pq_siftDown (pq\<lparr>pqItems := items1, pqSize := newSize\<rparr>) 0 of
                           None \<Rightarrow> None
                         | Some (Inl e, pq1) \<Rightarrow>
                             let items2 = js_put (pqItems pq1) newSize (js_get (pqItems pq1) 0)
                             in Some (Inl e, pq1\<lparr>pqItems := js_put items2 0 min, pqSize := n\<rparr>)
                         | Some (Inr _, pq1) \<Rightarrow>
                             Some (Inr min,
                               if js_and newSize 1023 = 0 then pq_maybeShrink pq1 newSize else pq1))"

text \<open>\<open>heapify\<close>: the loop over \<open>i\<close> runs downwards on a scratch heap.\<close>

function pq_heapify_loop :: "('a, 'e) pqueue \<Rightarrow> int \<Rightarrow> (('e + unit) \<times> ('a, 'e) pqueue) option" where
  "pq_heapify_loop tmp i =
     (if i \<ge> 0
      then (case pq_siftDown tmp i of
              None \<Rightarrow> None
            | Some (Inl e, tmp1) \<Rightarrow> Some (Inl e, tmp1)
            | Some (Inr _, tmp1) \<Rightarrow> pq_heapify_loop tmp1 (i - 1))
      else Some (Inr (), tmp))"
  by pat_completeness auto
termination
  by (relation "measure (\<lambda>(tmp, i). nat (i + 1))") auto

declare pq_heapify_loop.simps [simp del]

definition pq_heapify :: "('a, 'e) pqueue \<Rightarrow> 'a list \<Rightarrow> (('e + unit) \<times> ('a, 'e) pqueue) option" where
  "pq_heapify pq vs =
     (let arr = map Some vs; n = js_len arr;
          tmp = \<lparr>pqItems = arr, pqSize = n, pqCmp = pqCmp pq\<rparr>
      in case pq_heapify_loop tmp (js_shr n 1 - 1) of
           None \<Rightarrow> None
         | Some (Inl e, _) \<Rightarrow> Some (Inl e, pq)
         | Some (Inr _, tmp1) \<Rightarrow> Some (Inr (), pq\<lparr>pqItems := pqItems tmp1, pqSize := n\<rparr>))"

definition pq_make :: "('a option \<Rightarrow> 'a option \<Rightarrow> 'e + int) \<Rightarrow> 'a list option
    \<Rightarrow> (('e + unit) \<times> ('a, 'e) pqueue) option" where
  "pq_make cmp items =
     (let pq = \<lparr>pqItems = [], pqSize = 0, pqCmp = cmp\<rparr>
      in case items of None \<Rightarrow> Some (Inr (), pq) | Some vs \<Rightarrow> pq_heapify pq vs)"

section \<open>Heaps\<close>

definition par :: "nat \<Rightarrow> nat" where
  "par i = (i - 1) div 2"

text \<open>The heap order at every node whose parent is not below \<open>m\<close>.\<close>

definition heap_from :: "('a \<Rightarrow> 'a \<Rightarrow> int) \<Rightarrow> nat \<Rightarrow> 'a list \<Rightarrow> bool" where
  "heap_from cmp m xs \<longleftrightarrow>
     (\<forall>j<length xs. 0 < j \<longrightarrow> m \<le> par j \<longrightarrow> cmp (xs ! par j) (xs ! j) \<le> 0)"

text \<open>The order except around a node \<open>i\<close> that is moving up, or down.\<close>

definition up_inv :: "('a \<Rightarrow> 'a \<Rightarrow> int) \<Rightarrow> 'a list \<Rightarrow> nat \<Rightarrow> bool" where
  "up_inv cmp xs i \<longleftrightarrow>
     (\<forall>j<length xs. 0 < j \<longrightarrow> j \<noteq> i \<longrightarrow> cmp (xs ! par j) (xs ! j) \<le> 0) \<and>
     (\<forall>j<length xs. 0 < j \<longrightarrow> par j = i \<longrightarrow> 0 < i \<longrightarrow> cmp (xs ! par i) (xs ! j) \<le> 0)"

definition down_inv :: "('a \<Rightarrow> 'a \<Rightarrow> int) \<Rightarrow> nat \<Rightarrow> 'a list \<Rightarrow> nat \<Rightarrow> bool" where
  "down_inv cmp m xs i \<longleftrightarrow> m \<le> i \<and>
     (\<forall>j<length xs. 0 < j \<longrightarrow> m \<le> par j \<longrightarrow> par j \<noteq> i \<longrightarrow> cmp (xs ! par j) (xs ! j) \<le> 0) \<and>
     (\<forall>j<length xs. 0 < j \<longrightarrow> par j = i \<longrightarrow> 0 < i \<longrightarrow> m \<le> par i \<longrightarrow> cmp (xs ! par i) (xs ! j) \<le> 0)"

lemma par_less: "0 < j \<Longrightarrow> par j < j"
  unfolding par_def by linarith

lemma par_child: "0 < j \<Longrightarrow> par j = i \<longleftrightarrow> j = 2 * i + 1 \<or> j = 2 * i + 2"
  unfolding par_def by presburger

text \<open>Swapping a node with its parent, or with its smaller child, moves the exception one level.\<close>

context comparator
begin

lemma heap_from_root: "heap_from cmp 0 xs \<Longrightarrow> j < length xs \<Longrightarrow> cmp (xs ! 0) (xs ! j) \<le> 0"
proof (induction j rule: less_induct)
  case (less j)
  show ?case
  proof (cases "j = 0")
    case False
    then have "par j < j" by (intro par_less) simp
    then have "cmp (xs ! 0) (xs ! par j) \<le> 0" using less by simp
    moreover have "cmp (xs ! par j) (xs ! j) \<le> 0" using less.prems False by (simp add: heap_from_def)
    ultimately show ?thesis by (rule cmp_trans)
  qed simp
qed

lemma up_inv_done:
  assumes "up_inv cmp xs i" "i < length xs" "i = 0 \<or> \<not> cmp (xs ! i) (xs ! par i) < 0"
  shows "heap_from cmp 0 xs"
  unfolding heap_from_def
proof (intro allI impI)
  fix j assume j: "j < length xs" "0 < j" "0 \<le> par j"
  show "cmp (xs ! par j) (xs ! j) \<le> 0"
  proof (cases "j = i")
    case True
    then show ?thesis using assms(3) j cmp_flip[of "xs ! par i" "xs ! i"] by auto
  next
    case False
    then show ?thesis using assms(1) j by (simp add: up_inv_def)
  qed
qed

lemma up_inv_swap:
  assumes "up_inv cmp xs i" "i < length xs" "0 < i" "cmp (xs ! i) (xs ! par i) < 0"
  shows "up_inv cmp (xs[i := xs ! par i, par i := xs ! i]) (par i)"
proof -
  let ?p = "par i" and ?ys = "xs[i := xs ! par i, par i := xs ! i]"
  have p: "?p < i" using assms(3) by (rule par_less)
  have inv1: "\<And>j. j < length xs \<Longrightarrow> 0 < j \<Longrightarrow> j \<noteq> i \<Longrightarrow> cmp (xs ! par j) (xs ! j) \<le> 0"
    and inv2: "\<And>j. j < length xs \<Longrightarrow> 0 < j \<Longrightarrow> par j = i \<Longrightarrow> cmp (xs ! par i) (xs ! j) \<le> 0"
    using assms(1,3) by (auto simp: up_inv_def)
  have vp: "cmp (xs ! i) (xs ! ?p) \<le> 0" using assms(4) by simp
  have n: "?ys ! ?p = xs ! i" "?ys ! i = xs ! ?p" "\<And>k. k \<noteq> i \<Longrightarrow> k \<noteq> ?p \<Longrightarrow> ?ys ! k = xs ! k"
    using p assms(2) by auto
  have 1: "cmp (?ys ! par j) (?ys ! j) \<le> 0" if j: "j < length xs" "0 < j" "j \<noteq> ?p" for j
  proof (cases "par j = ?p")
    case True
    then show ?thesis
      using j n vp inv1[of j] cmp_trans[OF vp, of "xs ! j"] by (cases "j = i") auto
  next
    case False
    then have "j \<noteq> i" by auto
    then show ?thesis using j False n inv1[of j] inv2[of j] by (cases "par j = i") auto
  qed
  have 2: "cmp (?ys ! par ?p) (?ys ! j) \<le> 0" if j: "j < length xs" "0 < j" "par j = ?p" "0 < ?p" for j
  proof -
    have pp: "par ?p < ?p" using j(4) by (rule par_less)
    then have g: "cmp (xs ! par ?p) (xs ! ?p) \<le> 0" using inv1[of ?p] j p assms(2) by simp
    have "j \<noteq> ?p" using par_less[OF j(2)] j(3) by simp
    then show ?thesis
      using j n pp p g inv1[of j] cmp_trans[OF g, of "xs ! j"] by (cases "j = i") auto
  qed
  show ?thesis unfolding up_inv_def using 1 2 by simp
qed

lemma down_inv_done:
  assumes "down_inv cmp m xs i"
    and "\<And>j. j < length xs \<Longrightarrow> 0 < j \<Longrightarrow> par j = i \<Longrightarrow> \<not> cmp (xs ! j) (xs ! i) < 0"
  shows "heap_from cmp m xs"
  unfolding heap_from_def
proof (intro allI impI)
  fix j assume j: "j < length xs" "0 < j" "m \<le> par j"
  show "cmp (xs ! par j) (xs ! j) \<le> 0"
    using assms(1) assms(2)[of j] j cmp_flip[of "xs ! i" "xs ! j"]
    by (cases "par j = i") (auto simp: down_inv_def)
qed

lemma down_inv_swap:
  assumes "down_inv cmp m xs i" "c < length xs" "0 < c" "par c = i" "cmp (xs ! c) (xs ! i) < 0"
    and "\<And>j. j < length xs \<Longrightarrow> 0 < j \<Longrightarrow> par j = i \<Longrightarrow> cmp (xs ! c) (xs ! j) \<le> 0"
  shows "down_inv cmp m (xs[i := xs ! c, c := xs ! i]) c"
proof -
  let ?ys = "xs[i := xs ! c, c := xs ! i]"
  have i: "i < c" using par_less[OF assms(3)] assms(4) by simp
  have inv1: "\<And>j. j < length xs \<Longrightarrow> 0 < j \<Longrightarrow> m \<le> par j \<Longrightarrow> par j \<noteq> i \<Longrightarrow> cmp (xs ! par j) (xs ! j) \<le> 0"
    and inv2: "\<And>j. j < length xs \<Longrightarrow> 0 < j \<Longrightarrow> par j = i \<Longrightarrow> 0 < i \<Longrightarrow> m \<le> par i \<Longrightarrow>
        cmp (xs ! par i) (xs ! j) \<le> 0"
    and m: "m \<le> i"
    using assms(1) by (auto simp: down_inv_def)
  have n: "?ys ! c = xs ! i" "?ys ! i = xs ! c" "\<And>k. k \<noteq> i \<Longrightarrow> k \<noteq> c \<Longrightarrow> ?ys ! k = xs ! k"
    using i assms(2) by auto
  have 1: "cmp (?ys ! par j) (?ys ! j) \<le> 0"
    if j: "j < length xs" "0 < j" "m \<le> par j" "par j \<noteq> c" for j
  proof (cases "par j = i")
    case True
    then have "j \<noteq> i" using par_less[OF j(2)] by auto
    then show ?thesis using True j n assms(5,6) by (cases "j = c") auto
  next
    case False
    then have jc: "j \<noteq> c" using assms(4) by auto
    show ?thesis
    proof (cases "j = i")
      case True
      then show ?thesis using False j n jc inv2[of c] assms(2-4) par_less[OF j(2)] by auto
    next
      case False
      then show ?thesis using \<open>par j \<noteq> i\<close> j n jc inv1[of j] by auto
    qed
  qed
  have 2: "cmp (?ys ! par c) (?ys ! j) \<le> 0" if j: "j < length xs" "0 < j" "par j = c" "m \<le> par c" for j
  proof -
    have "j \<noteq> c" "j \<noteq> i" using par_less[OF j(2)] j(3) i by auto
    then show ?thesis using j n inv1[of j] i assms(4) by auto
  qed
  show ?thesis unfolding down_inv_def using 1 2 m i by simp
qed

end

section \<open>What a heap represents\<close>

text \<open>
  The comparator of the code agrees with an order \<open>cmp\<close> wherever it returns; it may throw anywhere.
\<close>

definition pq_agrees :: "('a option \<Rightarrow> 'a option \<Rightarrow> 'e + int) \<Rightarrow> ('a \<Rightarrow> 'a \<Rightarrow> int) \<Rightarrow> bool" where
  "pq_agrees c cmp \<longleftrightarrow> (\<forall>a b r. c (Some a) (Some b) = Inr r \<longrightarrow> (r < 0 \<longleftrightarrow> cmp a b < 0))"

definition never_throws :: "('a option \<Rightarrow> 'a option \<Rightarrow> 'e + int) \<Rightarrow> bool" where
  "never_throws c \<longleftrightarrow> (\<forall>a b e. c (Some a) (Some b) \<noteq> Inl e)"

definition pq_rep :: "('a, 'e) pqueue \<Rightarrow> 'a list \<Rightarrow> bool" where
  "pq_rep pq xs \<longleftrightarrow> pqSize pq = int (length xs) \<and> length xs \<le> length (pqItems pq) \<and>
     (\<forall>j<length xs. pqItems pq ! j = Some (xs ! j))"

text \<open>During a sift the value is held aside and slot \<open>i\<close> is a hole: \<open>ys\<close> is the list with the value in it.\<close>

definition hole :: "'a option list \<Rightarrow> nat \<Rightarrow> 'a list \<Rightarrow> bool" where
  "hole items i ys \<longleftrightarrow> length ys \<le> length items \<and> i < length ys \<and>
     (\<forall>j<length ys. j \<noteq> i \<longrightarrow> items ! j = Some (ys ! j))"

lemma hole_move:
  assumes "hole items i ys" "k < length ys" "k \<noteq> i"
  shows "hole (items[i := items ! k]) k (ys[i := ys ! k, k := ys ! i])"
  using assms by (auto simp: hole_def nth_list_update)

lemma hole_get: "hole items i ys \<Longrightarrow> k < length ys \<Longrightarrow> k \<noteq> i \<Longrightarrow> js_get items (int k) = Some (ys ! k)"
  by (auto simp: hole_def js_get_def js_len_def)

lemma hole_put: "hole items i ys \<Longrightarrow> js_put items (int i) v = items[i := v]"
  by (simp add: hole_def js_put_update)

lemma hole_fill:
  assumes "hole items i ys"
  shows "length ys \<le> length (items[i := Some (ys ! i)]) \<and>
    (\<forall>j<length ys. items[i := Some (ys ! i)] ! j = Some (ys ! j))"
  using assms by (auto simp: hole_def nth_list_update)

lemma mset_exchange: "i < length ys \<Longrightarrow> k < length ys \<Longrightarrow> mset (ys[i := ys ! k, k := ys ! i]) = mset ys"
  by (metis mset_swap)

text \<open>Index arithmetic within the bound.\<close>

lemma shr_par: "0 < i \<Longrightarrow> i \<le> 2 ^ 30 \<Longrightarrow> js_shr (int i - 1) 1 = int (par i)"
  using js_shr_div[of "int i - 1" 1] by (simp add: par_def zdiv_int of_nat_diff)

lemma shl_left: "i < 2 ^ 30 \<Longrightarrow> js_shl (int i) 1 + 1 = int (2 * i + 1)"
  using js_shl_mult[of "int i" 1] by simp

section \<open>Sifting up\<close>

context comparator
begin

lemma pq_up_loop_ok:
  assumes "pq_agrees c cmp" "hole items i ys" "length ys \<le> 2 ^ 30" "up_inv cmp ys i"
    "pq_up_loop c (Some (ys ! i)) items (int i) = (None, items', i')"
  shows "\<exists>k ys'. i' = int k \<and> hole items' k ys' \<and> ys' ! k = ys ! i \<and> length items' = length items \<and>
    mset ys' = mset ys \<and> length ys' = length ys \<and> heap_from cmp 0 ys'"
  using assms(2-5)
proof (induction i arbitrary: items ys rule: less_induct)
  case (less i)
  have i: "i < length ys" "length ys \<le> length items" using less.prems(1) by (auto simp: hole_def)
  show ?case
  proof (cases "0 < i")
    case False
    then show ?thesis
      using less.prems i up_inv_done[of ys i] by (auto simp: pq_up_loop.simps)
  next
    case True
    let ?p = "par i"
    have p: "?p < i" using True by (rule par_less)
    have sh: "js_shr (int i - 1) 1 = int ?p" using True i less.prems(2) by (intro shr_par) auto
    have get: "js_get items (int ?p) = Some (ys ! ?p)" using less.prems(1) p i by (intro hole_get) auto
    note unf = pq_up_loop.simps[of c "Some (ys ! i)" items "int i"]
    show ?thesis
    proof (cases "c (Some (ys ! i)) (Some (ys ! ?p))")
      case (Inl e)
      then show ?thesis using less.prems(4) True unf by (simp add: sh get)
    next
      case (Inr r)
      show ?thesis
      proof (cases "r < 0")
        case False
        then have "\<not> cmp (ys ! i) (ys ! ?p) < 0" using assms(1) Inr by (auto simp: pq_agrees_def)
        then have "heap_from cmp 0 ys" using less.prems(3) i by (intro up_inv_done) auto
        then show ?thesis using less.prems(1,4) True Inr False unf by (auto simp: sh get)
      next
        case True': True
        let ?items = "items[i := items ! ?p]" and ?ys = "ys[i := ys ! ?p, ?p := ys ! i]"
        have lt: "cmp (ys ! i) (ys ! ?p) < 0" using assms(1) Inr True' by (auto simp: pq_agrees_def)
        have put: "js_put items (int i) (Some (ys ! ?p)) = ?items"
          using less.prems(1) p i by (simp add: hole_put hole_def)
        have v: "?ys ! ?p = ys ! i" using p i by simp
        have "hole ?items ?p ?ys" using less.prems(1) p i by (intro hole_move) auto
        moreover have "up_inv cmp ?ys ?p" using less.prems(3) i True lt by (intro up_inv_swap) auto
        moreover have "pq_up_loop c (Some (?ys ! ?p)) ?items (int ?p) = (None, items', i')"
          using less.prems(4) True Inr True' unf v by (simp add: sh get put)
        ultimately obtain k ys' where "i' = int k" "hole items' k ys'" "ys' ! k = ?ys ! ?p"
          "length items' = length ?items" "mset ys' = mset ?ys" "length ys' = length ?ys" "heap_from cmp 0 ys'"
          using less.IH[OF p, of ?items ?ys] less.prems(2) by auto
        then show ?thesis using v mset_exchange[of i ys ?p] i p by auto
      qed
    qed
  qed
qed

end

text \<open>
  When the comparator throws, the undo loop ends and puts every displaced ancestor back. \<open>B\<close> is the
  array while the loop runs: it agrees with \<open>items'\<close> where the loop has not been.
\<close>

lemma pq_up_loop_throw:
  assumes "i < length items" "i \<le> 2 ^ 30" "pq_up_loop c v items (int i) = (Some e, items', i')"
  shows "\<exists>k. i' = int k \<and> k \<le> i \<and> length items' = length items \<and> items' ! k = items ! k \<and>
    (\<forall>j<length items. i < j \<longrightarrow> items' ! j = items ! j) \<and>
    (\<forall>B carry. length B = length items \<longrightarrow> (\<forall>j\<le>i. B ! j = items' ! j) \<longrightarrow>
      (\<exists>B'. pq_undo_up B carry (int i) i' = Some B' \<and> length B' = length B \<and>
         (\<forall>j<length B. B' ! j =
            (if j < i then items ! j else if j = i \<and> k \<noteq> i then carry else B ! j))))"
  using assms
proof (induction i arbitrary: items rule: less_induct)
  case (less i)
  have i: "0 < i" using less.prems(3) pq_up_loop.simps[of c v items "int i"] by (auto split: if_splits)
  let ?p = "par i"
  have p: "?p < i" using i by (rule par_less)
  have sh: "js_shr (int i - 1) 1 = int ?p" using i less.prems(2) by (rule shr_par)
  have get: "js_get items (int ?p) = items ! ?p" using p less.prems(1) by (simp add: js_get_def js_len_def)
  note unf = pq_up_loop.simps[of c v items "int i"]
  show ?case
  proof (cases "c v (items ! ?p)")
    case (Inl e')
    then have "items' = items" "i' = int i" using less.prems(3) i unf by (auto simp: sh get)
    then show ?thesis by (auto simp: pq_undo_up.simps)
  next
    case (Inr r)
    then have neg: "r < 0" using less.prems(3) i unf by (auto simp: sh get Let_def split: if_splits)
    let ?items = "items[i := items ! ?p]"
    have "js_put items (int i) (items ! ?p) = ?items" using less.prems(1) by (simp add: js_put_update)
    then have "pq_up_loop c v ?items (int ?p) = (Some e, items', i')"
      using less.prems(3) i Inr neg unf by (simp add: sh get)
    then obtain k where k: "i' = int k" "k \<le> ?p" "length items' = length items" "items' ! k = ?items ! k"
      and frame: "\<And>j. j < length items \<Longrightarrow> ?p < j \<Longrightarrow> items' ! j = ?items ! j"
      and undo: "\<And>B carry. length B = length items \<Longrightarrow> (\<forall>j\<le>?p. B ! j = items' ! j) \<Longrightarrow>
        \<exists>B'. pq_undo_up B carry (int ?p) i' = Some B' \<and> length B' = length B \<and>
         (\<forall>j<length B. B' ! j =
            (if j < ?p then ?items ! j else if j = ?p \<and> k \<noteq> ?p then carry else B ! j))"
      using less.IH[OF p, of ?items] less.prems(1,2) p by auto
    have ki: "k < i" "k \<noteq> i" using k(2) p by auto
    have undo': "\<exists>B'. pq_undo_up B carry (int i) i' = Some B' \<and> length B' = length B \<and>
         (\<forall>j<length B. B' ! j =
            (if j < i then items ! j else if j = i \<and> k \<noteq> i then carry else B ! j))"
      if B: "length B = length items" "\<forall>j\<le>i. B ! j = items' ! j" for B carry
    proof -
      let ?B = "B[i := carry]"
      have "B ! i = items ! ?p" using B(2) frame[of i] less.prems(1) p by simp
      then have step: "pq_undo_up B carry (int i) i' = pq_undo_up ?B (items ! ?p) (int ?p) i'"
        using ki k(1) B(1) less.prems(1)
        by (subst pq_undo_up.simps) (simp add: sh js_put_update js_get_nth)
      obtain B' where B': "pq_undo_up ?B (items ! ?p) (int ?p) i' = Some B'" "length B' = length ?B"
        and nth: "\<And>j. j < length B \<Longrightarrow> B' ! j =
            (if j < ?p then ?items ! j else if j = ?p \<and> k \<noteq> ?p then items ! ?p else ?B ! j)"
        using undo[of ?B "items ! ?p"] B p by auto
      have "B' ! j = (if j < i then items ! j else if j = i \<and> k \<noteq> i then carry else B ! j)"
        if j: "j < length B" for j
      proof -
        consider "j < ?p" | "j = ?p" | "?p < j" "j < i" | "j = i" | "i < j" by linarith
        then show ?thesis
        proof cases
          case 3
          then show ?thesis using nth[OF j] B frame[of j] j by auto
        next
          case 2
          then show ?thesis using nth[OF j] B k(4) p ki by auto
        qed (use nth[OF j] p ki j in auto)
      qed
      then show ?thesis using step B' by auto
    qed
    have "items' ! k = items ! k" using k(4) ki(2) by simp
    moreover have "\<forall>j<length items. i < j \<longrightarrow> items' ! j = items ! j" using frame p by auto
    ultimately show ?thesis using k ki undo' by (intro exI[of _ k]) auto
  qed
qed

lemma pq_siftUp_throw:
  assumes "start < length (pqItems pq)" "start \<le> 2 ^ 30"
    "pq_up_loop (pqCmp pq) (pqItems pq ! start) (pqItems pq) (int start) = (Some e, items', i')"
  shows "pq_siftUp pq (int start) =
    Some (Inl e, pq\<lparr>pqItems := (pqItems pq)[start := None], pqSize := int start\<rparr>)"
proof -
  let ?items = "pqItems pq"
  obtain k where k: "k \<le> start" "length items' = length ?items" "items' ! k = ?items ! k"
    and frame: "\<And>j. j < length ?items \<Longrightarrow> start < j \<Longrightarrow> items' ! j = ?items ! j"
    and undo: "\<And>B carry. length B = length ?items \<Longrightarrow> (\<forall>j \<le> start. B ! j = items' ! j) \<Longrightarrow>
        \<exists>B'. pq_undo_up B carry (int start) i' = Some B' \<and> length B' = length B \<and>
         (\<forall>j<length B. B' ! j =
            (if j < start then ?items ! j else if j = start \<and> k \<noteq> start then carry else B ! j))"
    using pq_up_loop_throw[OF assms] by auto
  obtain B' where B': "pq_undo_up items' (?items ! start) (int start) i' = Some B'" "length B' = length items'"
    and nth: "\<And>j. j < length items' \<Longrightarrow> B' ! j =
      (if j < start then ?items ! j else if j = start \<and> k \<noteq> start then ?items ! start else items' ! j)"
    using undo[of items' "?items ! start"] k(2) by auto
  have "B' = ?items"
  proof (rule nth_equalityI)
    fix j assume "j < length B'"
    then have j: "j < length items'" "j < length ?items" using B'(2) k(2) by auto
    consider "j < start" | "j = start" | "start < j" by linarith
    then show "B' ! j = ?items ! j" using nth[OF j(1)] k(3) frame[OF j(2)] by cases auto
  qed (use B'(2) k(2) in simp)
  moreover have "js_get ?items (int start) = ?items ! start" using assms(1) by (simp add: js_get_def js_len_def)
  ultimately show ?thesis
    using assms B'(1) by (simp add: pq_siftUp_def Let_def js_put_update)
qed

section \<open>Sifting down\<close>

lemma hole_child_get:
  assumes "hole items i ys" "0 < k" "par k = i" "k < length ys"
  shows "js_get items (int k) = Some (ys ! k)"
  using assms par_less[OF assms(2)] by (intro hole_get) auto

context comparator
begin

lemma pq_pick_child_ok:
  assumes "pq_agrees c cmp" "hole items i ys" "2 * i + 1 < length ys"
    "pq_pick_child c items (int (length ys)) (int (2 * i + 1)) = Inr child"
  shows "\<exists>k. child = int k \<and> 0 < k \<and> par k = i \<and> k < length ys \<and>
    (\<forall>j<length ys. 0 < j \<longrightarrow> par j = i \<longrightarrow> cmp (ys ! k) (ys ! j) \<le> 0)"
proof -
  let ?l = "2 * i + 1" and ?r = "2 * i + 2"
  have par: "par ?l = i" "par ?r = i" by (simp_all add: par_def)
  have getl: "js_get items (int ?l) = Some (ys ! ?l)"
    using assms(2,3) par by (intro hole_child_get) auto
  have kids: "j = ?l \<or> j = ?r" if "0 < j" "par j = i" for j using that par_child by auto
  show ?thesis
  proof (cases "?r < length ys")
    case False
    then have "child = int ?l" using assms(4) by (simp add: pq_pick_child_def Let_def)
    moreover have "cmp (ys ! ?l) (ys ! j) \<le> 0" if "j < length ys" "0 < j" "par j = i" for j
      using kids[OF that(2,3)] that(1) False by auto
    ultimately show ?thesis using assms(3) par by (intro exI[of _ ?l]) auto
  next
    case True
    have getr: "js_get items (int ?r) = Some (ys ! ?r)"
      using assms(2) True par by (intro hole_child_get) auto
    have r1: "int ?l + 1 = int ?r" by simp
    obtain r where r: "c (Some (ys ! ?r)) (Some (ys ! ?l)) = Inr r" "child = (if r < 0 then int ?r else int ?l)"
      using assms(4) True unfolding pq_pick_child_def Let_def r1 getl getr
      by (auto split: sum.splits)
    have "r < 0 \<longleftrightarrow> cmp (ys ! ?r) (ys ! ?l) < 0" using assms(1) r(1) by (simp add: pq_agrees_def)
    then have "cmp (ys ! (if r < 0 then ?r else ?l)) (ys ! j) \<le> 0" if "0 < j" "par j = i" for j
      using kids[OF that] cmp_flip[of "ys ! ?l" "ys ! ?r"] by auto
    then show ?thesis using r(2) True par by (intro exI[of _ "if r < 0 then ?r else ?l"]) auto
  qed
qed

lemma pq_pick_child_throws:
  assumes "hole items i ys" "2 * i + 1 < length ys"
    "pq_pick_child c items (int (length ys)) (int (2 * i + 1)) = Inl e"
  shows "\<not> never_throws c"
proof -
  let ?l = "2 * i + 1" and ?r = "2 * i + 2"
  have par: "par ?l = i" "par ?r = i" by (simp_all add: par_def)
  have getl: "js_get items (int ?l) = Some (ys ! ?l)"
    using assms(1,2) par by (intro hole_child_get) auto
  have r: "?r < length ys" using assms(3) by (auto simp: pq_pick_child_def Let_def split: if_splits)
  have getr: "js_get items (int ?r) = Some (ys ! ?r)"
    using assms(1) r par by (intro hole_child_get) auto
  have r1: "int ?l + 1 = int ?r" by simp
  have "c (Some (ys ! ?r)) (Some (ys ! ?l)) = Inl e"
    using assms(3) r unfolding pq_pick_child_def Let_def r1 getl getr by (auto split: sum.splits)
  then show ?thesis by (auto simp: never_throws_def)
qed

lemma pq_down_loop_ok:
  assumes "pq_agrees c cmp" "hole items i ys" "length ys \<le> 2 ^ 30" "down_inv cmp m ys i"
  shows "\<exists>r items' k. pq_down_loop c (Some (ys ! i)) (int (length ys)) items (int i) = Some (r, items', int k) \<and>
    length items' = length items \<and> k < length ys \<and>
    (r = None \<longrightarrow> (\<exists>ys'. hole items' k ys' \<and> ys' ! k = ys ! i \<and> mset ys' = mset ys \<and>
       length ys' = length ys \<and> heap_from cmp m ys')) \<and>
    (r \<noteq> None \<longrightarrow> (\<exists>x. \<forall>start \<le> i.
       pq_undo_down items' (int k) (int start) = pq_undo_down (items[i := x]) (int i) (int start))) \<and>
    (never_throws c \<longrightarrow> r = None)"
  using assms(2-4)
proof (induction "length ys - i" arbitrary: i items ys rule: less_induct)
  case less
  let ?n = "length ys" and ?v = "Some (ys ! i)" and ?l = "2 * i + 1"
  have i: "i < ?n" "?n \<le> length items" using less.prems(1) by (auto simp: hole_def)
  have sh: "js_shl (int i) 1 + 1 = int ?l" using i less.prems(2) by (intro shl_left) auto
  note unf = pq_down_loop.simps[of c ?v "int ?n" items "int i"]
  have undo_here: "\<exists>x. \<forall>start \<le> i. pq_undo_down items (int i) (int start)
      = pq_undo_down (items[i := x]) (int i) (int start)"
    by (intro exI[of _ "items ! i"]) simp
  show ?case
  proof (cases "?l < ?n")
    case False
    then have "heap_from cmp m ys" using less.prems(3) by (intro down_inv_done) (auto simp: par_child)
    then show ?thesis using False less.prems(1) i unf by (auto simp: sh)
  next
    case True
    show ?thesis
    proof (cases "pq_pick_child c items (int ?n) (int ?l)")
      case (Inl e)
      then have "\<not> never_throws c" using less.prems(1) True by (intro pq_pick_child_throws)
      then show ?thesis using Inl True i unf undo_here by (auto simp: sh)
    next
      case (Inr child)
      then obtain k where k: "child = int k" "0 < k" "par k = i" "k < ?n"
        and least: "\<And>j. j < ?n \<Longrightarrow> 0 < j \<Longrightarrow> par j = i \<Longrightarrow> cmp (ys ! k) (ys ! j) \<le> 0"
        using pq_pick_child_ok[OF assms(1) less.prems(1) True] by blast
      have ik: "i < k" using par_less[OF k(2)] k(3) by simp
      have get: "js_get items (int k) = Some (ys ! k)" using less.prems(1) k by (intro hole_child_get) auto
      show ?thesis
      proof (cases "c (Some (ys ! k)) ?v")
        case (Inl e)
        then have "\<not> never_throws c" by (auto simp: never_throws_def)
        then show ?thesis using Inl True Inr k(1) i unf undo_here get by (auto simp: sh)
      next
        case c: (Inr r)
        then have r: "r < 0 \<longleftrightarrow> cmp (ys ! k) (ys ! i) < 0" using assms(1) by (auto simp: pq_agrees_def)
        show ?thesis
        proof (cases "r < 0")
          case False
          have "heap_from cmp m ys"
          proof (rule down_inv_done[OF less.prems(3)])
            fix j assume "j < ?n" "0 < j" "par j = i"
            then show "\<not> cmp (ys ! j) (ys ! i) < 0"
              using least[of j] False r cmp_le_less_trans[of "ys ! k" "ys ! j" "ys ! i"] by auto
          qed
          then show ?thesis using True Inr k(1) c False less.prems(1) i unf get by (auto simp: sh)
        next
          case neg: True
          let ?items = "items[i := items ! k]" and ?ys = "ys[i := ys ! k, k := ys ! i]"
          have ii: "items ! k = Some (ys ! k)" using less.prems(1) k ik by (auto simp: hole_def)
          have put: "js_put items (int i) (Some (ys ! k)) = ?items"
            using less.prems(1) ii by (simp add: hole_put)
          have v: "?ys ! k = ys ! i" using k by simp
          have "hole ?items k ?ys" using less.prems(1) k(4) ik by (intro hole_move) auto
          moreover have "down_inv cmp m ?ys k"
            using less.prems(3) k neg r least by (intro down_inv_swap) auto
          ultimately obtain q items' k' where rec:
              "pq_down_loop c (Some (?ys ! k)) (int (length ?ys)) ?items (int k) = Some (q, items', int k')"
              "length items' = length ?items" "k' < length ?ys"
            and okr: "q = None \<longrightarrow> (\<exists>ys'. hole items' k' ys' \<and> ys' ! k' = ?ys ! k \<and> mset ys' = mset ?ys \<and>
                length ys' = length ?ys \<and> heap_from cmp m ys')"
            and undor: "q \<noteq> None \<longrightarrow> (\<exists>x. \<forall>start \<le> k.
                pq_undo_down items' (int k') (int start) = pq_undo_down (?items[k := x]) (int k) (int start))"
            and nothrow: "never_throws c \<longrightarrow> q = None"
            using less.hyps[of ?ys k ?items] less.prems(2) i ik k(4) by fastforce
          have eq: "pq_down_loop c ?v (int ?n) items (int i) = Some (q, items', int k')"
            using True Inr k(1) c neg unf get put rec(1) v by (simp add: sh)
          have "q \<noteq> None \<longrightarrow> (\<exists>x. \<forall>start \<le> i. pq_undo_down items' (int k') (int start)
              = pq_undo_down (items[i := x]) (int i) (int start))"
          proof
            assume qn: "q \<noteq> None"
            obtain x where x: "\<And>start. start \<le> k \<Longrightarrow>
                pq_undo_down items' (int k') (int start) = pq_undo_down (?items[k := x]) (int k) (int start)"
              using undor qn by blast
            have shp: "js_shr (int k - 1) 1 = int i" using shr_par[OF k(2)] k(3,4) less.prems(2) by auto
            have len: "k < length items" "i < length items" using k(4) i by auto
            have collapse: "?items[k := x, k := ?items[k := x] ! i] = items[i := items ! k]"
              using len ik by (intro nth_equalityI) (auto simp: nth_list_update)
            have "pq_undo_down (?items[k := x]) (int k) (int start)
                = pq_undo_down (items[i := items ! k]) (int i) (int start)" if "start \<le> i" for start
              using that ik len collapse
              by (subst pq_undo_down.simps) (simp add: shp js_get_nth js_put_update)
            then show "\<exists>x. \<forall>start \<le> i. pq_undo_down items' (int k') (int start)
                = pq_undo_down (items[i := x]) (int i) (int start)"
              using x ik by (intro exI[of _ "items ! k"]) auto
          qed
          moreover have "q = None \<longrightarrow> (\<exists>ys'. hole items' k' ys' \<and> ys' ! k' = ys ! i \<and>
              mset ys' = mset ys \<and> length ys' = length ys \<and> heap_from cmp m ys')"
            using okr v mset_exchange[of i ys k] i k(4) by simp
          moreover have "length items' = length items" "k' < length ys" using rec(2,3) by simp_all
          ultimately show ?thesis using eq nothrow by blast
        qed
      qed
    qed
  qed
qed

end

lemma pq_undo_down_stop: "pq_undo_down items (int i) (int i) = Some items"
  by (subst pq_undo_down.simps) simp

context comparator
begin

text \<open>\<open>siftDown\<close> on a heap whose order holds below \<open>start\<close>: order restored, or nothing changed.\<close>

lemma pq_siftDown_ok:
  assumes "pq_agrees (pqCmp pq) cmp" "pq_rep pq xs" "length xs \<le> 2 ^ 30" "start < length xs"
    "heap_from cmp (Suc start) xs"
  shows "(\<exists>ys pq'. pq_siftDown pq (int start) = Some (Inr (), pq') \<and> pq_rep pq' ys \<and> pqCmp pq' = pqCmp pq \<and>
      mset ys = mset xs \<and> length (pqItems pq') = length (pqItems pq) \<and> heap_from cmp start ys) \<or>
    (\<exists>e. pq_siftDown pq (int start) = Some (Inl e, pq)) \<and> \<not> never_throws (pqCmp pq)"
proof -
  let ?items = "pqItems pq"
  have items: "length xs \<le> length ?items" "\<And>j. j < length xs \<Longrightarrow> ?items ! j = Some (xs ! j)"
    "pqSize pq = int (length xs)"
    using assms(2) by (auto simp: pq_rep_def)
  have hole: "hole ?items start xs" using items assms(4) by (simp add: hole_def)
  have "\<not> start \<le> par start" if "0 < start" using par_less[OF that] by simp
  moreover have "Suc start \<le> par j" if "start \<le> par j" "par j \<noteq> start" for j using that by simp
  ultimately have dinv: "down_inv cmp start xs start"
    using assms(5) unfolding down_inv_def heap_from_def by blast
  obtain r items' k where loop:
      "pq_down_loop (pqCmp pq) (Some (xs ! start)) (int (length xs)) ?items (int start) = Some (r, items', int k)"
      "length items' = length ?items" "k < length xs"
    and ok: "r = None \<longrightarrow> (\<exists>ys'. hole items' k ys' \<and> ys' ! k = xs ! start \<and> mset ys' = mset xs \<and>
       length ys' = length xs \<and> heap_from cmp start ys')"
    and undo: "r \<noteq> None \<longrightarrow> (\<exists>x. \<forall>s \<le> start.
       pq_undo_down items' (int k) (int s) = pq_undo_down (?items[start := x]) (int start) (int s))"
    and nothrow: "never_throws (pqCmp pq) \<longrightarrow> r = None"
    using pq_down_loop_ok[OF assms(1) hole assms(3) dinv] by (elim exE conjE) blast
  have get: "js_get ?items (int start) = Some (xs ! start)"
    using items assms(4) by (simp add: js_get_def js_len_def)
  show ?thesis
  proof (cases r)
    case None
    then obtain ys where ys: "hole items' k ys" "ys ! k = xs ! start" "mset ys = mset xs"
        "length ys = length xs" "heap_from cmp start ys"
      using ok by blast
    let ?pq = "pq\<lparr>pqItems := items'[k := Some (ys ! k)]\<rparr>"
    have "pq_siftDown pq (int start) = Some (Inr (), ?pq)"
      using loop(1) None get items(3) ys(1,2) by (simp add: pq_siftDown_def Let_def hole_put)
    moreover have "pq_rep ?pq ys" using hole_fill[OF ys(1)] items(3) ys(4) by (simp add: pq_rep_def)
    ultimately show ?thesis using ys(3,5) loop(2) by (intro disjI1 exI[of _ ys] exI[of _ ?pq]) simp
  next
    case (Some e)
    then have "r \<noteq> None" by simp
    with undo obtain x where "\<forall>s \<le> start. pq_undo_down items' (int k) (int s)
        = pq_undo_down (?items[start := x]) (int start) (int s)"
      by blast
    then have "pq_undo_down items' (int k) (int start) = pq_undo_down (?items[start := x]) (int start) (int start)"
      by (rule spec[of _ start, THEN mp]) (rule order_refl)
    then have "pq_undo_down items' (int k) (int start) = Some (?items[start := x])"
      by (simp only: pq_undo_down_stop)
    moreover have "?items[start := x, start := Some (xs ! start)] = ?items"
      using list_update_id[of ?items start] by (simp only: items(2)[OF assms(4)] list_update_overwrite)
    ultimately have "pq_siftDown pq (int start) = Some (Inl e, pq)"
      using loop(1) Some get items(1,3) assms(4) by (simp add: pq_siftDown_def Let_def js_put_update)
    then show ?thesis using nothrow Some by blast
  qed
qed

lemma pq_push_ok:
  assumes "pq_agrees (pqCmp pq) cmp" "pq_rep pq xs" "length xs < 2 ^ 30" "heap_from cmp 0 xs"
  shows "(\<exists>ys pq'. pq_push pq v = Some (Inr (), pq') \<and> pq_rep pq' ys \<and> pqCmp pq' = pqCmp pq \<and>
      mset ys = add_mset v (mset xs) \<and> heap_from cmp 0 ys) \<or>
    (\<exists>e pq'. pq_push pq v = Some (Inl e, pq') \<and> pq_rep pq' xs \<and> pqCmp pq' = pqCmp pq)"
proof -
  let ?n = "length xs"
  have rep: "?n \<le> length (pqItems pq)" "\<And>j. j < ?n \<Longrightarrow> pqItems pq ! j = Some (xs ! j)"
    "pqSize pq = int ?n"
    using assms(2) by (auto simp: pq_rep_def)
  define items where "items = js_put (pqItems pq) (int ?n) (Some v)"
  have items: "?n < length items" "items ! ?n = Some v" "\<And>j. j < ?n \<Longrightarrow> items ! j = Some (xs ! j)"
    using rep by (auto simp: items_def js_put_def js_len_def nth_append)
  let ?pq = "pq\<lparr>pqItems := items, pqSize := int ?n + 1\<rparr>"
  have push: "pq_push pq v = pq_siftUp ?pq (int ?n)"
    by (simp add: pq_push_def Let_def rep(3) items_def)
  let ?ys = "xs @ [v]"
  have hole: "hole items ?n ?ys" using items by (simp add: hole_def nth_append)
  have up: "up_inv cmp ?ys ?n"
    unfolding up_inv_def
  proof (intro conjI allI impI)
    fix j assume "j < length ?ys" "0 < j" "j \<noteq> ?n"
    then show "cmp (?ys ! par j) (?ys ! j) \<le> 0"
      using assms(4) par_less[of j] by (simp add: heap_from_def nth_append)
  next
    fix j assume "j < length ?ys" "0 < j" "par j = ?n"
    then show "cmp (?ys ! par ?n) (?ys ! j) \<le> 0" using par_less[of j] by simp
  qed
  have get: "js_get items (int ?n) = Some v" using items by (simp add: js_get_def js_len_def)
  show ?thesis
  proof (cases "pq_up_loop (pqCmp pq) (Some v) items (int ?n)")
    case (fields r items' i')
    show ?thesis
    proof (cases r)
      case None
      then obtain k ys' where k: "i' = int k" "hole items' k ys'" "ys' ! k = v"
          "mset ys' = mset ?ys" "length ys' = length ?ys" "heap_from cmp 0 ys'"
        using pq_up_loop_ok[OF assms(1) hole _ up, of items' i'] fields assms(3) by auto
      let ?pq' = "?pq\<lparr>pqItems := items'[k := Some (ys' ! k)]\<rparr>"
      have "pq_push pq v = Some (Inr (), ?pq')"
        using push fields None get k(1-3) by (simp add: pq_siftUp_def Let_def hole_put)
      moreover have "pq_rep ?pq' ys'" using hole_fill[OF k(2)] k(5) by (simp add: pq_rep_def)
      ultimately show ?thesis using k(4,6) by (intro disjI1 exI[of _ ys'] exI[of _ ?pq']) simp
    next
      case (Some e)
      let ?pq' = "?pq\<lparr>pqItems := items[?n := None], pqSize := int ?n\<rparr>"
      have "pq_push pq v = Some (Inl e, ?pq')"
        using push pq_siftUp_throw[of ?n ?pq e items' i'] items(1,2) fields Some assms(3) by simp
      moreover have "pq_rep ?pq' xs" using items(1,3) by (simp add: pq_rep_def)
      ultimately show ?thesis by (intro disjI2 exI[of _ e] exI[of _ ?pq']) simp
    qed
  qed
qed

end

text \<open>A comparator that never throws on elements lets every push return normally.\<close>

lemma pq_up_loop_quiet:
  assumes "never_throws c" "\<forall>j<i. items ! j \<noteq> None" "i < length items" "i \<le> 2 ^ 30"
  shows "fst (pq_up_loop c (Some v) items (int i)) = None"
  using assms(2-4)
proof (induction i arbitrary: items rule: less_induct)
  case (less i)
  show ?case
  proof (cases "0 < i")
    case False
    then show ?thesis by (simp add: pq_up_loop.simps)
  next
    case True
    let ?p = "par i"
    have p: "?p < i" using True by (rule par_less)
    have sh: "js_shr (int i - 1) 1 = int ?p" using True less.prems(3) by (intro shr_par) auto
    obtain x where x: "items ! ?p = Some x" using less.prems(1) p by auto
    then have get: "js_get items (int ?p) = Some x"
      using less.prems(2) p by (simp add: js_get_def js_len_def)
    obtain r where r: "c (Some v) (Some x) = Inr r"
      using assms(1) by (cases "c (Some v) (Some x)") (auto simp: never_throws_def)
    have "fst (pq_up_loop c (Some v) (items[i := Some x]) (int ?p)) = None"
      using less.prems p by (intro less.IH) auto
    then show ?thesis
      using True sh get r less.prems(2) by (simp add: pq_up_loop.simps[of c _ items] js_put_update Let_def)
  qed
qed

lemma pq_push_quiet:
  assumes "never_throws (pqCmp pq)" "pq_rep pq xs" "length xs < 2 ^ 30"
  shows "pq_push pq v \<noteq> Some (Inl e, pq')"
proof -
  let ?n = "length xs" and ?items = "js_put (pqItems pq) (int (length xs)) (Some v)"
  have rep: "?n \<le> length (pqItems pq)" "\<And>j. j < ?n \<Longrightarrow> pqItems pq ! j = Some (xs ! j)" "pqSize pq = int ?n"
    using assms(2) by (auto simp: pq_rep_def)
  have items: "?n < length ?items" "?items ! ?n = Some v" "\<forall>j<?n. ?items ! j \<noteq> None"
    using rep(1,2) by (auto simp: js_put_def js_len_def nth_append)
  then have get: "js_get ?items (int ?n) = Some v" by (simp add: js_get_def js_len_def)
  obtain items' i' where "pq_up_loop (pqCmp pq) (Some v) ?items (int ?n) = (None, items', i')"
    using pq_up_loop_quiet[OF assms(1) items(3,1), of v] assms(3)
    by (cases "pq_up_loop (pqCmp pq) (Some v) ?items (int ?n)") auto
  then show ?thesis using get by (simp add: pq_push_def Let_def rep(3) pq_siftUp_def)
qed

section \<open>Pop, shrink, heapify\<close>

lemma pq_maybeShrink_rep:
  assumes "pq_rep pq xs" "length xs \<le> 2 ^ 29"
  shows "pq_rep (pq_maybeShrink pq (int (length xs))) xs \<and>
    pqCmp (pq_maybeShrink pq (int (length xs))) = pqCmp pq"
proof -
  have "js_shl (int (length xs)) 1 = 2 * int (length xs)"
    using js_shl_mult[of "int (length xs)" 1] assms(2) by simp
  then show ?thesis
    using assms(1) by (auto simp: pq_maybeShrink_def pq_rep_def js_slice_def nat_mult_distrib)
qed

text \<open>The array \<open>pop\<close> hands to \<open>siftDown\<close>: the last element at the root.\<close>

lemma pq_pop_moved:
  assumes "pq_rep pq xs" "length xs = Suc (Suc m)"
  shows "pq_rep (pq\<lparr>pqItems := (pqItems pq)[0 := pqItems pq ! Suc m, Suc m := None], pqSize := int (Suc m)\<rparr>)
    (xs ! Suc m # take m (tl xs))"
proof -
  have "(xs ! Suc m # take m (tl xs)) ! j = (if j = 0 then xs ! Suc m else xs ! j)" if "j < Suc m" for j
    using that assms(2) by (cases j) (auto simp: nth_tl)
  moreover have "pqItems pq \<noteq> []" using assms by (auto simp: pq_rep_def)
  ultimately show ?thesis using assms by (auto simp: pq_rep_def nth_list_update)
qed

lemma mset_pop_moved:
  assumes "length xs = Suc (Suc m)"
  shows "mset xs = add_mset (xs ! 0) (mset (xs ! Suc m # take m (tl xs)))"
proof -
  obtain x ys where xs: "xs = x # ys" "length ys = Suc m" using assms by (cases xs) auto
  have "ys = take m ys @ [ys ! m]" using xs(2) take_Suc_conv_app_nth[of m ys] by simp
  then have "mset ys = mset (take m ys @ [ys ! m])" by (rule arg_cong)
  then show ?thesis using xs by simp
qed

context comparator
begin

lemma pq_pop_ok:
  assumes "pq_agrees (pqCmp pq) cmp" "pq_rep pq xs" "length xs \<le> 2 ^ 29" "heap_from cmp 0 xs" "xs \<noteq> []"
  shows "(\<exists>ys pq'. pq_pop pq = Some (Inr (Some (xs ! 0)), pq') \<and> pq_rep pq' ys \<and> pqCmp pq' = pqCmp pq \<and>
      mset xs = add_mset (xs ! 0) (mset ys) \<and> heap_from cmp 0 ys) \<or>
    (\<exists>e. pq_pop pq = Some (Inl e, pq)) \<and> \<not> never_throws (pqCmp pq)"
proof -
  have rep: "length xs \<le> length (pqItems pq)" "\<And>j. j < length xs \<Longrightarrow> pqItems pq ! j = Some (xs ! j)"
    "pqSize pq = int (length xs)"
    using assms(2) by (auto simp: pq_rep_def)
  have min: "js_get (pqItems pq) 0 = Some (xs ! 0)"
    using rep assms(5) by (auto simp: js_get_def js_len_def)
  show ?thesis
  proof (cases "length xs = 1")
    case True
    let ?pq = "pq\<lparr>pqItems := js_put (pqItems pq) 0 None, pqSize := 0\<rparr>"
    have "pq_pop pq = Some (Inr (Some (xs ! 0)), ?pq)" using True rep(3) min by (simp add: pq_pop_def Let_def)
    moreover have "pq_rep ?pq []" by (simp add: pq_rep_def)
    moreover have "mset xs = {#xs ! 0#}" using True by (cases xs) auto
    ultimately show ?thesis by (intro disjI1 exI[of _ "[]"] exI[of _ ?pq]) (simp add: heap_from_def)
  next
    case False
    then obtain m where m: "length xs = Suc (Suc m)"
      using assms(5) by (cases xs rule: list.exhaust) (auto simp: neq_Nil_conv)
    let ?items = "(pqItems pq)[0 := pqItems pq ! Suc m, Suc m := None]"
    let ?pq1 = "pq\<lparr>pqItems := ?items, pqSize := int (Suc m)\<rparr>"
    let ?zs = "xs ! Suc m # take m (tl xs)"
    have len: "length ?zs = Suc m" "Suc m < length (pqItems pq)" using m rep(1) by auto
    then have ne: "pqItems pq \<noteq> []" by auto
    have items: "js_put (js_put (pqItems pq) 0 (js_get (pqItems pq) (int (Suc m)))) (int (Suc m)) None = ?items"
      using len(2) ne by (simp add: js_get_int js_put_int js_put_0 del: of_nat_Suc)
    have "?zs ! j = xs ! j" if "0 < j" "j < Suc m" for j using that m by (cases j) (auto simp: nth_tl)
    then have "heap_from cmp (Suc 0) ?zs"
      using assms(4) m len(1) unfolding heap_from_def by (auto simp: par_def)
    then consider (fine) ys pq' where "pq_siftDown ?pq1 0 = Some (Inr (), pq')" "pq_rep pq' ys"
        "pqCmp pq' = pqCmp pq" "mset ys = mset ?zs" "heap_from cmp 0 ys"
      | (throw) e where "pq_siftDown ?pq1 0 = Some (Inl e, ?pq1)" "\<not> never_throws (pqCmp pq)"
      using pq_siftDown_ok[of ?pq1 ?zs 0] pq_pop_moved[OF assms(2) m] assms(1,3) m by auto
    then show ?thesis
    proof cases
      case fine
      let ?pq2 = "if js_and (int (Suc m)) 1023 = 0 then pq_maybeShrink pq' (int (Suc m)) else pq'"
      have "length ys = Suc m" using fine(4) len(1) by (metis size_mset)
      then have "pq_rep ?pq2 ys" "pqCmp ?pq2 = pqCmp pq"
        using pq_maybeShrink_rep[of pq' ys] fine(2,3) assms(3) m by auto
      moreover have "pq_pop pq = Some (Inr (Some (xs ! 0)), ?pq2)"
        using rep(3) m min items fine(1) by (simp add: pq_pop_def Let_def)
      moreover have "mset xs = add_mset (xs ! 0) (mset ys)"
        using mset_pop_moved[OF m] fine(4) by simp
      ultimately show ?thesis using fine(5) by blast
    next
      case throw
      have "js_put (js_put ?items (int (Suc m)) (js_get ?items 0)) 0 (Some (xs ! 0)) = pqItems pq"
      proof -
        have "js_put (js_put ?items (int (Suc m)) (js_get ?items 0)) 0 (Some (xs ! 0))
            = ?items[Suc m := pqItems pq ! Suc m, 0 := Some (xs ! 0)]"
          using len(2) ne by (simp add: js_get_0 js_put_int js_put_0 del: of_nat_Suc)
        also have "\<dots> = pqItems pq"
          using rep(2)[of 0] m len(2) ne by (intro nth_equalityI) (auto simp: nth_list_update)
        finally show ?thesis .
      qed
      then have "pq_pop pq = Some (Inl e, pq)"
        using rep(3) m min items throw(1) by (simp add: pq_pop_def Let_def)
      then show ?thesis using throw(2) by blast
    qed
  qed
qed

end

context comparator
begin

lemma pq_heapify_loop_ok:
  assumes "pq_agrees (pqCmp pq) cmp" "pq_rep pq xs" "length xs \<le> 2 ^ 30" "n \<le> length xs"
    "heap_from cmp n xs"
  shows "(\<exists>ys pq'. pq_heapify_loop pq (int n - 1) = Some (Inr (), pq') \<and> pq_rep pq' ys \<and>
      pqCmp pq' = pqCmp pq \<and> mset ys = mset xs \<and> heap_from cmp 0 ys) \<or>
    (\<exists>e pq'. pq_heapify_loop pq (int n - 1) = Some (Inl e, pq')) \<and> \<not> never_throws (pqCmp pq)"
  using assms
proof (induction n arbitrary: pq xs)
  case 0
  then show ?case by (auto simp: pq_heapify_loop.simps)
next
  case (Suc n)
  from pq_siftDown_ok[of pq xs n] Suc.prems
  consider (fine) ys pq' where "pq_siftDown pq (int n) = Some (Inr (), pq')" "pq_rep pq' ys"
      "pqCmp pq' = pqCmp pq" "mset ys = mset xs" "heap_from cmp n ys"
    | (throw) e where "pq_siftDown pq (int n) = Some (Inl e, pq)" "\<not> never_throws (pqCmp pq)"
    by auto
  then show ?case
  proof cases
    case fine
    have "length ys = length xs" using fine(4) by (rule mset_eq_length)
    then have "(\<exists>zs pq2. pq_heapify_loop pq' (int n - 1) = Some (Inr (), pq2) \<and> pq_rep pq2 zs \<and>
        pqCmp pq2 = pqCmp pq' \<and> mset zs = mset ys \<and> heap_from cmp 0 zs) \<or>
        (\<exists>e pq2. pq_heapify_loop pq' (int n - 1) = Some (Inl e, pq2)) \<and> \<not> never_throws (pqCmp pq')"
      using Suc.prems fine by (intro Suc.IH) auto
    moreover have "pq_heapify_loop pq (int (Suc n) - 1) = pq_heapify_loop pq' (int n - 1)"
      using fine(1) by (simp add: pq_heapify_loop.simps[of pq "int n"])
    ultimately show ?thesis using fine(3,4) by metis
  next
    case throw
    then have "pq_heapify_loop pq (int (Suc n) - 1) = Some (Inl e, pq)"
      by (simp add: pq_heapify_loop.simps[of pq "int n"])
    then show ?thesis using throw(2) by blast
  qed
qed

lemma pq_heapify_ok:
  assumes "pq_agrees (pqCmp pq) cmp" "length vs \<le> 2 ^ 30"
  shows "(\<exists>ys pq'. pq_heapify pq vs = Some (Inr (), pq') \<and> pq_rep pq' ys \<and>
      pqCmp pq' = pqCmp pq \<and> mset ys = mset vs \<and> heap_from cmp 0 ys) \<or>
    (\<exists>e. pq_heapify pq vs = Some (Inl e, pq)) \<and> \<not> never_throws (pqCmp pq)"
proof -
  let ?tmp = "\<lparr>pqItems = map Some vs, pqSize = int (length vs), pqCmp = pqCmp pq\<rparr>"
  let ?h = "length vs div 2"
  have rep: "pq_rep ?tmp vs" by (simp add: pq_rep_def)
  have sh: "js_shr (int (length vs)) 1 - 1 = int ?h - 1"
    using js_shr_div[of "int (length vs)" 1] assms(2) by (simp add: zdiv_int)
  have "heap_from cmp ?h vs" by (auto simp: heap_from_def par_def)
  then consider (fine) ys tmp1 where "pq_heapify_loop ?tmp (int ?h - 1) = Some (Inr (), tmp1)"
      "pq_rep tmp1 ys" "mset ys = mset vs" "heap_from cmp 0 ys"
    | (throw) e tmp1 where "pq_heapify_loop ?tmp (int ?h - 1) = Some (Inl e, tmp1)"
        "\<not> never_throws (pqCmp pq)"
    using pq_heapify_loop_ok[of ?tmp vs ?h] assms rep by auto
  then show ?thesis
  proof cases
    case fine
    let ?pq = "pq\<lparr>pqItems := pqItems tmp1, pqSize := int (length vs)\<rparr>"
    have "pq_heapify pq vs = Some (Inr (), ?pq)"
      using fine(1) sh by (simp add: pq_heapify_def Let_def js_len_def)
    moreover have "pq_rep ?pq ys"
      using fine(2) mset_eq_length[OF fine(3)] by (simp add: pq_rep_def)
    ultimately show ?thesis using fine(3,4) by (intro disjI1 exI[of _ ys] exI[of _ ?pq]) simp
  next
    case throw
    then have "pq_heapify pq vs = Some (Inl e, pq)"
      using sh by (simp add: pq_heapify_def Let_def js_len_def)
    then show ?thesis using throw(2) by blast
  qed
qed

end

section \<open>Sessions\<close>

text \<open>A client's calls, and what they returned.\<close>

datatype 'a pq_call = PqPush 'a | PqPop | PqPeek | PqSize | PqHeapify "'a list"

datatype ('a, 'e) pq_answer = PqThrew 'e | PqUnit | PqValue "'a option" | PqNumber int

definition pq_answer :: "('b \<Rightarrow> ('a, 'e) pq_answer) \<Rightarrow> ('e + 'b) \<times> 's \<Rightarrow> ('a, 'e) pq_answer \<times> 's" where
  "pq_answer f r = (case fst r of Inl e \<Rightarrow> PqThrew e | Inr v \<Rightarrow> f v, snd r)"

fun pq_exec :: "('a, 'e) pqueue \<Rightarrow> 'a pq_call \<Rightarrow> (('a, 'e) pq_answer \<times> ('a, 'e) pqueue) option" where
  "pq_exec pq (PqPush v) = map_option (pq_answer (\<lambda>_. PqUnit)) (pq_push pq v)"
| "pq_exec pq PqPop = map_option (pq_answer PqValue) (pq_pop pq)"
| "pq_exec pq PqPeek = Some (PqValue (pq_peek pq), pq)"
| "pq_exec pq PqSize = Some (PqNumber (pq_size pq), pq)"
| "pq_exec pq (PqHeapify vs) = map_option (pq_answer (\<lambda>_. PqUnit)) (pq_heapify pq vs)"

fun pq_session :: "('a, 'e) pqueue \<Rightarrow> 'a pq_call list \<Rightarrow> ('a, 'e) pq_answer list option" where
  "pq_session pq [] = Some []"
| "pq_session pq (c # cs) =
     (case pq_exec pq c of None \<Rightarrow> None
      | Some (r, pq1) \<Rightarrow> map_option ((#) r) (pq_session pq1 cs))"

text \<open>
  The abstract queue is a multiset. A call that throws leaves it as it was; \<open>pop\<close> takes out, and
  \<open>peek\<close> shows, some element that no other precedes.
\<close>

definition is_least :: "('a \<Rightarrow> 'a \<Rightarrow> int) \<Rightarrow> 'a \<Rightarrow> 'a multiset \<Rightarrow> bool" where
  "is_least cmp x M \<longleftrightarrow> x \<in># M \<and> (\<forall>y \<in># M. cmp x y \<le> 0)"

inductive mset_queue :: "('a \<Rightarrow> 'a \<Rightarrow> int) \<Rightarrow> 'a multiset \<Rightarrow> 'a pq_call \<Rightarrow> ('a, 'e) pq_answer \<Rightarrow> 'a multiset \<Rightarrow> bool"
  for cmp where
  push: "mset_queue cmp M (PqPush v) PqUnit (add_mset v M)"
| heapify: "mset_queue cmp M (PqHeapify vs) PqUnit (mset vs)"
| pop: "is_least cmp x (add_mset x M) \<Longrightarrow> mset_queue cmp (add_mset x M) PqPop (PqValue (Some x)) M"
| pop_empty: "mset_queue cmp {#} PqPop (PqValue None) {#}"
| peek: "is_least cmp x M \<Longrightarrow> mset_queue cmp M PqPeek (PqValue (Some x)) M"
| peek_empty: "mset_queue cmp {#} PqPeek (PqValue None) {#}"
| size: "mset_queue cmp M PqSize (PqNumber (int (size M))) M"
| push_throws: "mset_queue cmp M (PqPush v) (PqThrew e) M"
| pop_throws: "mset_queue cmp M PqPop (PqThrew e) M"
| heapify_throws: "mset_queue cmp M (PqHeapify vs) (PqThrew e) M"

inductive_simps mset_queue_push: "mset_queue cmp M (PqPush v) PqUnit M'"
inductive_simps mset_queue_pop: "mset_queue cmp M PqPop (PqValue (Some x)) M'"

inductive mset_trace :: "('a \<Rightarrow> 'a \<Rightarrow> int) \<Rightarrow> 'a multiset \<Rightarrow> 'a pq_call list \<Rightarrow> ('a, 'e) pq_answer list \<Rightarrow> bool"
  for cmp where
  nil: "mset_trace cmp M [] []"
| cons: "mset_queue cmp M c r M' \<Longrightarrow> mset_trace cmp M' cs rs \<Longrightarrow> mset_trace cmp M (c # cs) (r # rs)"

inductive_cases mset_traceE: "mset_trace cmp M cs rs"

fun pq_added :: "'a pq_call list \<Rightarrow> nat" where
  "pq_added [] = 0"
| "pq_added (PqPush v # cs) = Suc (pq_added cs)"
| "pq_added (PqHeapify vs # cs) = length vs + pq_added cs"
| "pq_added (c # cs) = pq_added cs"

definition pq_holds :: "('a \<Rightarrow> 'a \<Rightarrow> int) \<Rightarrow> ('a option \<Rightarrow> 'a option \<Rightarrow> 'e + int) \<Rightarrow> 'a multiset \<Rightarrow>
    ('a, 'e) pqueue \<Rightarrow> bool" where
  "pq_holds cmp c M pq \<longleftrightarrow> pqCmp pq = c \<and> (\<exists>xs. pq_rep pq xs \<and> mset xs = M \<and> heap_from cmp 0 xs)"

lemma pq_holdsI: "pq_rep pq xs \<Longrightarrow> heap_from cmp 0 xs \<Longrightarrow> mset xs = M \<Longrightarrow> pqCmp pq = c \<Longrightarrow> pq_holds cmp c M pq"
  by (auto simp: pq_holds_def)

lemma pq_holdsE:
  assumes "pq_holds cmp c M pq"
  obtains xs where "pq_rep pq xs" "heap_from cmp 0 xs" "mset xs = M" "pqCmp pq = c"
  using assms by (auto simp: pq_holds_def)

context comparator
begin

lemma root_is_least: "heap_from cmp 0 xs \<Longrightarrow> xs \<noteq> [] \<Longrightarrow> is_least cmp (xs ! 0) (mset xs)"
  using heap_from_root by (auto simp: is_least_def in_set_conv_nth)

lemma pq_exec_refines:
  assumes "pq_agrees c cmp" "pq_holds cmp c M pq" "size M + pq_added [k] \<le> 2 ^ 29"
  shows "\<exists>r pq' M'. pq_exec pq k = Some (r, pq') \<and> mset_queue cmp M k r M' \<and> pq_holds cmp c M' pq' \<and>
    size M' \<le> size M + pq_added [k]"
proof -
  from assms(2) obtain xs where xs: "pq_rep pq xs" "heap_from cmp 0 xs" "mset xs = M" "pqCmp pq = c"
    by (rule pq_holdsE)
  have n: "size M = length xs" using xs(3) by auto
  have empty: "pqSize pq = 0 \<longleftrightarrow> xs = []" using xs(1) by (auto simp: pq_rep_def)
  have agrees: "pq_agrees (pqCmp pq) cmp" using assms(1) xs(4) by simp
  show ?thesis
  proof (cases k)
    case (PqPush v)
    from pq_push_ok[OF agrees xs(1) _ xs(2), of v] assms(3) n PqPush
    consider (fine) ys pq' where "pq_push pq v = Some (Inr (), pq')" "pq_rep pq' ys" "pqCmp pq' = pqCmp pq"
        "mset ys = add_mset v (mset xs)" "heap_from cmp 0 ys"
      | (throw) e pq' where "pq_push pq v = Some (Inl e, pq')" "pq_rep pq' xs" "pqCmp pq' = pqCmp pq"
      by auto
    then show ?thesis
    proof cases
      case fine
      then have "pq_holds cmp c (add_mset v M) pq'" using xs by (intro pq_holdsI) auto
      then show ?thesis using fine(1) PqPush
        by (intro exI[of _ PqUnit] exI[of _ pq'] exI[of _ "add_mset v M"]) (simp add: pq_answer_def mset_queue.push)
    next
      case throw
      then have "pq_holds cmp c M pq'" using xs by (intro pq_holdsI) auto
      then show ?thesis using throw(1) PqPush
        by (intro exI[of _ "PqThrew e"] exI[of _ pq'] exI[of _ M]) (simp add: pq_answer_def mset_queue.push_throws)
    qed
  next
    case PqPop
    show ?thesis
    proof (cases "xs = []")
      case True
      then show ?thesis using PqPop empty xs assms(2)
        by (intro exI[of _ "PqValue None"] exI[of _ pq] exI[of _ M])
          (auto simp: pq_pop_def Let_def pq_answer_def mset_queue.pop_empty)
    next
      case False
      from pq_pop_ok[OF agrees xs(1) _ xs(2) False] assms(3) n PqPop
      consider (fine) ys pq' where "pq_pop pq = Some (Inr (Some (xs ! 0)), pq')" "pq_rep pq' ys"
          "pqCmp pq' = pqCmp pq" "mset xs = add_mset (xs ! 0) (mset ys)" "heap_from cmp 0 ys"
        | (throw) e where "pq_pop pq = Some (Inl e, pq)"
        by auto
      then show ?thesis
      proof cases
        case fine
        have M: "M = add_mset (xs ! 0) (mset ys)" using xs(3) fine(4) by simp
        have "is_least cmp (xs ! 0) M" using root_is_least[OF xs(2) False] xs(3) by simp
        then have "mset_queue cmp M k (PqValue (Some (xs ! 0))) (mset ys)"
          unfolding PqPop M by (rule mset_queue.pop)
        moreover have "pq_holds cmp c (mset ys) pq'" using fine xs by (intro pq_holdsI) auto
        moreover have "pq_exec pq k = Some (PqValue (Some (xs ! 0)), pq')"
          using fine(1) PqPop by (simp add: pq_answer_def)
        ultimately show ?thesis using M by auto
      next
        case throw
        then show ?thesis using PqPop assms(2)
          by (intro exI[of _ "PqThrew e"] exI[of _ pq] exI[of _ M]) (simp add: pq_answer_def mset_queue.pop_throws)
      qed
    qed
  next
    case PqPeek
    have "mset_queue cmp M PqPeek (PqValue (pq_peek pq)) M"
    proof (cases "xs = []")
      case True
      then show ?thesis using empty xs(3) mset_queue.peek_empty by (auto simp: pq_peek_def)
    next
      case False
      then have "pq_peek pq = Some (xs ! 0)"
        using xs(1) empty by (auto simp: pq_peek_def pq_rep_def js_get_def js_len_def)
      then show ?thesis using root_is_least[OF xs(2) False] xs(3) mset_queue.peek by auto
    qed
    then show ?thesis using PqPeek assms(2) by auto
  next
    case PqSize
    have "pq_size pq = int (size M)" using xs(1) n by (simp add: pq_size_def pq_rep_def)
    then show ?thesis using PqSize assms(2) mset_queue.size[of cmp M] by auto
  next
    case (PqHeapify vs)
    from pq_heapify_ok[OF agrees, of vs] assms(3) PqHeapify
    consider (fine) ys pq' where "pq_heapify pq vs = Some (Inr (), pq')" "pq_rep pq' ys" "pqCmp pq' = pqCmp pq"
        "mset ys = mset vs" "heap_from cmp 0 ys"
      | (throw) e where "pq_heapify pq vs = Some (Inl e, pq)"
      by auto
    then show ?thesis
    proof cases
      case fine
      then have "pq_holds cmp c (mset vs) pq'" using xs by (intro pq_holdsI[of pq' ys]) auto
      then show ?thesis using fine(1) PqHeapify
        by (intro exI[of _ PqUnit] exI[of _ pq'] exI[of _ "mset vs"]) (simp add: pq_answer_def mset_queue.heapify)
    next
      case throw
      then show ?thesis using PqHeapify assms(2)
        by (intro exI[of _ "PqThrew e"] exI[of _ pq] exI[of _ M]) (simp add: pq_answer_def mset_queue.heapify_throws)
    qed
  qed
qed

lemma pq_added_Cons: "pq_added (k # ks) = pq_added [k] + pq_added ks"
  by (cases k) auto

lemma pq_session_refines:
  assumes "pq_agrees c cmp" "pq_holds cmp c M pq" "size M + pq_added ks \<le> 2 ^ 29"
  shows "\<exists>rs. pq_session pq ks = Some rs \<and> mset_trace cmp M ks rs"
  using assms(2,3)
proof (induction ks arbitrary: M pq)
  case Nil
  then show ?case by (auto intro: mset_trace.nil)
next
  case (Cons k ks)
  have added: "pq_added (k # ks) = pq_added [k] + pq_added ks" by (rule pq_added_Cons)
  have "size M + pq_added [k] \<le> 2 ^ 29" using Cons.prems(2) added by linarith
  from pq_exec_refines[OF assms(1) Cons.prems(1) this]
  obtain r pq' M' where step: "pq_exec pq k = Some (r, pq')" "mset_queue cmp M k r M'"
      "pq_holds cmp c M' pq'" "size M' \<le> size M + pq_added [k]"
    by (elim exE conjE)
  have "size M' + pq_added ks \<le> 2 ^ 29" using Cons.prems(2) added step(4) by linarith
  from Cons.IH[OF step(3) this] obtain rs where "pq_session pq' ks = Some rs" "mset_trace cmp M' ks rs"
    by blast
  then show ?case using step(1,2) by (auto intro: mset_trace.cons)
qed

end

lemma pq_empty_holds: "pq_holds cmp c {#} \<lparr>pqItems = [], pqSize = 0, pqCmp = c\<rparr>"
  by (rule pq_holdsI[of _ "[]"]) (simp_all add: pq_rep_def heap_from_def)

text \<open>The comparator of the documentation's example, \<open>(a, b) => a - b\<close>.\<close>

definition pq_number_cmp :: "int \<Rightarrow> int \<Rightarrow> int" where
  "pq_number_cmp a b = a - b"

interpretation pq_number: comparator pq_number_cmp
  by unfold_locales (auto simp: pq_number_cmp_def)

text \<open>The same as a comparator of the code, which throws on \<open>undefined\<close> and on a forbidden pair.\<close>

definition pq_number_code :: "(int \<times> int) set \<Rightarrow> int option \<Rightarrow> int option \<Rightarrow> js_error + int" where
  "pq_number_code bad a b =
     (case (a, b) of (Some x, Some y) \<Rightarrow> if (x, y) \<in> bad then Inl TypeError else Inr (pq_number_cmp x y)
      | _ \<Rightarrow> Inl TypeError)"

lemma pq_number_agrees: "pq_agrees (pq_number_code bad) pq_number_cmp"
  by (auto simp: pq_agrees_def pq_number_code_def)

section \<open>Properties\<close>

text \<open>
  C3. Every session of calls on a fresh heap returns, and its answers are those of a multiset: \<open>pop\<close>
  takes out, and \<open>peek\<close> shows, an element that no other precedes, \<open>size\<close> counts, and a call in which
  the comparator throws leaves the multiset as it was, wherever in the sift it throws. The
  comparator's sign must agree with a preorder where it returns, and at most \<open>2 ^ 29\<close> elements be added.
\<close>

theorem pq_session_is_multiset:
  assumes "comparator cmp" "pq_agrees c cmp" "pq_added ks \<le> 2 ^ 29"
  shows "\<exists>pq rs. pq_make c None = Some (Inr (), pq) \<and> pq_session pq ks = Some rs \<and>
    mset_trace cmp {#} ks rs"
  using comparator.pq_session_refines[OF assms(1,2) pq_empty_holds, of ks] assms(3)
  by (simp add: pq_make_def)

theorem pq_session_is_multiset_witness:
  "\<exists>pq rs. pq_make (pq_number_code {(1, 4)}) None = Some (Inr (), pq) \<and>
     pq_session pq [PqHeapify [5, 3, 4], PqPush 1, PqPop, PqPeek] = Some rs \<and>
     mset_trace pq_number_cmp {#} [PqHeapify [5, 3, 4], PqPush 1, PqPop, PqPeek] rs"
  by (rule pq_session_is_multiset[OF pq_number.comparator_axioms pq_number_agrees]) simp

lemma pq_throw_atomic_aux:
  assumes "comparator cmp" "pq_agrees (pqCmp pq) cmp" "pq_rep pq xs" "heap_from cmp 0 xs" "length xs \<le> 2 ^ 29"
  shows "pq_pop pq = Some (Inl e, pq1) \<Longrightarrow> pq1 = pq"
    and "pq_push pq v = Some (Inl e, pq2) \<Longrightarrow> pq_rep pq2 xs \<and> pqCmp pq2 = pqCmp pq"
proof -
  assume p: "pq_pop pq = Some (Inl e, pq1)"
  show "pq1 = pq"
  proof (cases "xs = []")
    case True
    then show ?thesis using p assms(3) by (simp add: pq_pop_def pq_rep_def)
  next
    case False
    then show ?thesis using comparator.pq_pop_ok[OF assms(1-3,5,4) False] p by auto
  qed
next
  assume "pq_push pq v = Some (Inl e, pq2)"
  then show "pq_rep pq2 xs \<and> pqCmp pq2 = pqCmp pq"
    using comparator.pq_push_ok[OF assms(1-3) _ assms(4), of v] assms(5) by auto
qed

text \<open>
  C14. Exception safety: when the comparator throws inside \<open>pop\<close> or \<open>heapify\<close>, the heap's record is
  exactly the one before the call, slot by slot; when it throws inside \<open>push\<close>, the heap has the same
  size and the same elements in the same slots.
\<close>

theorem pq_throw_is_atomic:
  assumes "comparator cmp" "pq_agrees (pqCmp pq) cmp" "pq_rep pq xs" "heap_from cmp 0 xs" "length xs \<le> 2 ^ 29"
    "length vs \<le> 2 ^ 30"
  shows "(\<forall>e pq1. pq_pop pq = Some (Inl e, pq1) \<longrightarrow> pq1 = pq) \<and>
    (\<forall>e pq1. pq_heapify pq vs = Some (Inl e, pq1) \<longrightarrow> pq1 = pq) \<and>
    (\<forall>v e pq1. pq_push pq v = Some (Inl e, pq1) \<longrightarrow>
       pqSize pq1 = pqSize pq \<and> pqCmp pq1 = pqCmp pq \<and>
       (\<forall>j<length xs. pqItems pq1 ! j = pqItems pq ! j))"
proof (intro conjI allI impI)
  show "pq1 = pq" if "pq_pop pq = Some (Inl e, pq1)" for e pq1
    using pq_throw_atomic_aux(1)[OF assms(1-5) that] .
  show "pq1 = pq" if "pq_heapify pq vs = Some (Inl e, pq1)" for e pq1
    using comparator.pq_heapify_ok[OF assms(1,2,6)] that by auto
qed (use pq_throw_atomic_aux(2)[OF assms(1-5)] assms(3) in \<open>force simp: pq_rep_def\<close>)+

definition pq_throw_demo :: "(int, js_error) pqueue" where
  "pq_throw_demo = \<lparr>pqItems = [Some 1, Some 5, Some 3], pqSize = 3, pqCmp = pq_number_code {(5, 3)}\<rparr>"

theorem pq_throw_is_atomic_witness:
  "pq_pop pq_throw_demo = Some (Inl TypeError, pq_throw_demo)"
proof -
  have rep: "pq_rep pq_throw_demo [1, 5, 3]"
    by (simp add: pq_rep_def pq_throw_demo_def less_Suc_eq)
  have heap: "heap_from pq_number_cmp 0 [1, 5, 3]"
    by (simp add: heap_from_def less_Suc_eq pq_number_cmp_def par_def)
  have agrees: "pq_agrees (pqCmp pq_throw_demo) pq_number_cmp"
    by (simp add: pq_throw_demo_def pq_number_agrees)
  have "map_option fst (pq_pop pq_throw_demo) = Some (Inl TypeError)"
    by code_simp
  then show ?thesis
    using pq_throw_is_atomic[OF pq_number.comparator_axioms agrees rep heap, of "[]"] by auto
qed

text \<open>Heap sort: make a heap of some values and pop them all.\<close>

fun pq_drain :: "nat \<Rightarrow> ('a, 'e) pqueue \<Rightarrow> 'a list option" where
  "pq_drain 0 pq = Some []"
| "pq_drain (Suc n) pq =
     (case pq_pop pq of
        Some (Inr (Some x), pq1) \<Rightarrow> map_option ((#) x) (pq_drain n pq1)
      | _ \<Rightarrow> None)"

lemma pq_drain_sorts:
  assumes "comparator cmp" "pq_agrees c cmp" "never_throws c"
  shows "pq_rep pq xs \<Longrightarrow> heap_from cmp 0 xs \<Longrightarrow> pqCmp pq = c \<Longrightarrow> length xs \<le> 2 ^ 29 \<Longrightarrow>
    \<exists>ys. pq_drain (length xs) pq = Some ys \<and> mset ys = mset xs \<and> sorted_wrt (\<lambda>a b. cmp a b \<le> 0) ys"
proof (induction "length xs" arbitrary: xs pq)
  case 0
  then show ?case by simp
next
  case (Suc n)
  have ne: "xs \<noteq> []" using Suc.hyps(2) by auto
  obtain ys pq' where pop: "pq_pop pq = Some (Inr (Some (xs ! 0)), pq')" "pq_rep pq' ys"
      "pqCmp pq' = pqCmp pq" "mset xs = add_mset (xs ! 0) (mset ys)" "heap_from cmp 0 ys"
    using comparator.pq_pop_ok[OF assms(1) _ Suc.prems(1) Suc.prems(4) Suc.prems(2) ne] assms(2,3) Suc.prems(3)
    by auto
  have len: "length ys = n" using arg_cong[OF pop(4), of size] Suc.hyps(2) by simp
  then obtain zs where zs: "pq_drain n pq' = Some zs" "mset zs = mset ys" "sorted_wrt (\<lambda>a b. cmp a b \<le> 0) zs"
    using Suc.hyps(1)[of ys pq'] pop Suc.prems(3,4) Suc.hyps(2) by auto
  have "cmp (xs ! 0) z \<le> 0" if "z \<in> set zs" for z
  proof -
    have "z \<in># mset xs" using that pop(4) zs(2) by (metis insertCI set_mset_add_mset_insert set_mset_mset)
    then show ?thesis
      using comparator.root_is_least[OF assms(1) Suc.prems(2) ne] by (simp add: is_least_def)
  qed
  then show ?case using pop(1,4) zs Suc.hyps(2)[symmetric] by (intro exI[of _ "xs ! 0 # zs"]) simp
qed

text \<open>
  Heap sort: making a heap of any values with a comparator that does not throw and popping until
  it is empty yields exactly those values, as often as they occur, in non-decreasing order.
\<close>

theorem pq_heap_sort:
  assumes "comparator cmp" "pq_agrees c cmp" "never_throws c" "length vs \<le> 2 ^ 29"
  shows "\<exists>pq ys. pq_make c (Some vs) = Some (Inr (), pq) \<and> pq_drain (length vs) pq = Some ys \<and>
    mset ys = mset vs \<and> sorted_wrt (\<lambda>a b. cmp a b \<le> 0) ys"
proof -
  let ?pq = "\<lparr>pqItems = [], pqSize = 0, pqCmp = c\<rparr>"
  obtain xs pq where made: "pq_heapify ?pq vs = Some (Inr (), pq)" "pq_rep pq xs" "pqCmp pq = c"
      "mset xs = mset vs" "heap_from cmp 0 xs"
    using comparator.pq_heapify_ok[OF assms(1), of ?pq vs] assms(2-4) by auto
  have len: "length xs = length vs" using made(4) by (rule mset_eq_length)
  then obtain ys where "pq_drain (length vs) pq = Some ys" "mset ys = mset xs"
      "sorted_wrt (\<lambda>a b. cmp a b \<le> 0) ys"
    using pq_drain_sorts[OF assms(1-3) made(2,5,3)] assms(4) by auto
  then show ?thesis using made by (auto simp: pq_make_def)
qed

lemma pq_number_never_throws: "never_throws (pq_number_code {})"
  by (simp add: never_throws_def pq_number_code_def)

theorem pq_heap_sort_witness:
  "\<exists>pq ys. pq_make (pq_number_code {}) (Some [3, 1, 2, 1]) = Some (Inr (), pq) \<and>
    pq_drain (length [3, 1, 2, 1 :: int]) pq = Some ys \<and>
    mset ys = mset [3, 1, 2, 1] \<and> sorted_wrt (\<lambda>a b. pq_number_cmp a b \<le> 0) ys"
  by (rule pq_heap_sort[OF pq_number.comparator_axioms pq_number_agrees pq_number_never_throws]) simp

end
