(* ===== verification/LRUCache.thy ===== *)
theory LRUCache
  imports Interfaces
begin

text \<open>
  \<open>src/src/LRUCache.ts\<close>: the bounded cache. A circular doubly linked list threaded through two
  \<open>Int32Array\<close>s, with slot 0 as its anchor, keeps the slots in order of use; a \<open>Map\<close> finds the slot of
  a key, and a stack holds the slots not in use. Values and freed keys are options (\<^term>\<open>None\<close> is
  \<open>undefined\<close>, which is also a legal value). The \<open>Map\<close> is a partial map: its order is never read.
\<close>

section \<open>State and operations\<close>

record ('k, 'v) lru =
  lruPrev :: "int list"
  lruNext :: "int list"
  lruKeys :: "'k option list"
  lruVals :: "'v option list"
  lruIndex :: "'k \<Rightarrow> int option"
  lruFree :: "int list"
  lruSize :: int

definition lru_make :: "int \<Rightarrow> ('k, 'v) lru outcome" where
  "lru_make capacity =
     (if capacity < 1 \<or> js_or capacity 0 \<noteq> capacity then Inl RangeError
      else let slots = capacity + 1
           in Inr \<lparr>lruPrev = ta_put (replicate (nat slots) 0) 0 0,
                   lruNext = ta_put (replicate (nat slots) 0) 0 0,
                   lruKeys = replicate (nat slots) None, lruVals = replicate (nat slots) None,
                   lruIndex = Map.empty, lruFree = map (\<lambda>i. i + 1) [0..capacity - 1],
                   lruSize = 0\<rparr>)"

definition lru_detach :: "('k, 'v) lru \<Rightarrow> int \<Rightarrow> ('k, 'v) lru" where
  "lru_detach c slot =
     (let p = ta_get (lruPrev c) slot; n = ta_get (lruNext c) slot
      in c\<lparr>lruNext := ta_put (lruNext c) p n, lruPrev := ta_put (lruPrev c) n p\<rparr>)"

definition lru_insertAfterSentinel :: "('k, 'v) lru \<Rightarrow> int \<Rightarrow> ('k, 'v) lru" where
  "lru_insertAfterSentinel c slot =
     (let n = ta_get (lruNext c) 0; next1 = ta_put (lruNext c) 0 slot;
          prev1 = ta_put (lruPrev c) slot 0
      in c\<lparr>lruNext := ta_put next1 slot n, lruPrev := ta_put prev1 n slot\<rparr>)"

definition lru_get :: "('k, 'v) lru \<Rightarrow> 'k \<Rightarrow> 'v option \<times> ('k, 'v) lru" where
  "lru_get c key =
     (case lruIndex c key of None \<Rightarrow> (None, c)
      | Some slot \<Rightarrow>
          let c1 = lru_insertAfterSentinel (lru_detach c slot) slot
          in (js_get (lruVals c1) slot, c1))"

text \<open>The slot a new key takes: a free one, or that of the least recently used entry.\<close>

definition lru_claim :: "('k, 'v) lru \<Rightarrow> int \<times> ('k, 'v) lru" where
  "lru_claim c =
     (if lruFree c \<noteq> []
      then (last (lruFree c), c\<lparr>lruFree := butlast (lruFree c), lruSize := lruSize c + 1\<rparr>)
      else let slot = ta_get (lruPrev c) 0;
               index1 = (case js_get (lruKeys c) slot of None \<Rightarrow> lruIndex c
                         | Some old \<Rightarrow> (lruIndex c)(old := None))
           in (slot, lru_detach (c\<lparr>lruIndex := index1\<rparr>) slot))"

definition lru_set :: "('k, 'v) lru \<Rightarrow> 'k \<Rightarrow> 'v option \<Rightarrow> ('k, 'v) lru" where
  "lru_set c key value =
     (case lruIndex c key of
        Some existing \<Rightarrow>
          lru_insertAfterSentinel
            (lru_detach (c\<lparr>lruVals := js_put (lruVals c) existing value\<rparr>) existing) existing
      | None \<Rightarrow>
          let (slot, c1) = lru_claim c
          in lru_insertAfterSentinel
               (c1\<lparr>lruKeys := js_put (lruKeys c1) slot (Some key),
                   lruVals := js_put (lruVals c1) slot value,
                   lruIndex := (lruIndex c1)(key \<mapsto> slot)\<rparr>) slot)"

definition lru_has :: "('k, 'v) lru \<Rightarrow> 'k \<Rightarrow> bool" where
  "lru_has c key \<longleftrightarrow> lruIndex c key \<noteq> None"

definition lru_del :: "('k, 'v) lru \<Rightarrow> 'k \<Rightarrow> bool \<times> ('k, 'v) lru" where
  "lru_del c key =
     (case lruIndex c key of None \<Rightarrow> (False, c)
      | Some slot \<Rightarrow>
          let c1 = lru_detach (c\<lparr>lruIndex := (lruIndex c)(key := None)\<rparr>) slot
          in (True, c1\<lparr>lruKeys := js_put (lruKeys c1) slot None,
                       lruVals := js_put (lruVals c1) slot None,
                       lruFree := lruFree c1 @ [slot], lruSize := lruSize c1 - 1\<rparr>))"

definition lru_size :: "('k, 'v) lru \<Rightarrow> int" where
  "lru_size c = lruSize c"

section \<open>Linked lists\<close>

text \<open>\<open>seg nx pv a xs b\<close>: following \<open>nx\<close> from \<open>a\<close> visits \<open>xs\<close> and arrives at \<open>b\<close>; \<open>pv\<close> goes back.\<close>

fun seg :: "(int \<Rightarrow> int) \<Rightarrow> (int \<Rightarrow> int) \<Rightarrow> int \<Rightarrow> int list \<Rightarrow> int \<Rightarrow> bool" where
  "seg nx pv a [] b \<longleftrightarrow> nx a = b \<and> pv b = a"
| "seg nx pv a (x # xs) b \<longleftrightarrow> nx a = x \<and> pv x = a \<and> seg nx pv x xs b"

lemma seg_append: "seg nx pv a (xs @ x # ys) b \<longleftrightarrow> seg nx pv a xs x \<and> seg nx pv x ys b"
  by (induction xs arbitrary: a) auto

lemma seg_nx_other: "s \<notin> set (a # xs) \<Longrightarrow> seg (nx(s := v)) pv a xs b \<longleftrightarrow> seg nx pv a xs b"
  by (induction xs arbitrary: a) auto

lemma seg_pv_other: "s \<notin> set xs \<Longrightarrow> s \<noteq> b \<Longrightarrow> seg nx (pv(s := v)) a xs b \<longleftrightarrow> seg nx pv a xs b"
  by (induction xs arbitrary: a) auto

lemma seg_last: "seg nx pv a xs b \<Longrightarrow> pv b = last (a # xs)"
  by (induction xs arbitrary: a) auto

lemma seg_hd: "seg nx pv a xs b \<Longrightarrow> nx a = hd (xs @ [b])"
  by (cases xs) auto

text \<open>Redirecting the end of a segment.\<close>

lemma seg_retarget:
  assumes "seg nx pv a xs s" "distinct (a # xs)" "n \<notin> set xs"
  shows "seg (nx(last (a # xs) := n)) (pv(n := last (a # xs))) a xs n"
proof (cases xs rule: rev_cases)
  case Nil
  then show ?thesis by simp
next
  case (snoc ys p)
  have "seg nx pv a ys p" using assms(1) snoc by (simp add: seg_append)
  then have "seg (nx(p := n)) (pv(n := p)) a ys p"
    using assms(2,3) snoc by (subst seg_nx_other) (auto simp: seg_pv_other)
  then show ?thesis using snoc by (simp add: seg_append)
qed

lemma seg_retarget_start:
  assumes "seg nx pv s ys b" "distinct ys" "b \<notin> set ys" "p \<notin> set ys" "n = hd (ys @ [b])"
  shows "seg (nx(p := n)) (pv(n := p)) p ys b"
proof (cases ys)
  case Nil
  then show ?thesis using assms by simp
next
  case (Cons y zs)
  then have "seg nx pv y zs b" using assms(1) by simp
  then have "seg (nx(p := y)) (pv(y := p)) y zs b"
    using assms Cons by (subst seg_nx_other) (auto simp: seg_pv_other)
  then show ?thesis using assms(5) Cons by simp
qed

text \<open>Unlinking one slot of a circular list, and linking one in at the front.\<close>

lemma seg_detach:
  assumes "seg nx pv 0 (xs @ s # ys) 0" "distinct (0 # xs @ s # ys)"
  shows "seg (nx(pv s := nx s)) (pv(nx s := pv s)) 0 (xs @ ys) 0"
proof -
  have left: "seg nx pv 0 xs s" and right: "seg nx pv s ys 0"
    using assms(1) by (auto simp: seg_append)
  have p: "pv s = last (0 # xs)" using left by (rule seg_last)
  have n: "nx s = hd (ys @ [0])" using right by (rule seg_hd)
  have nxs: "nx s \<notin> set xs" using n assms(2) by (cases ys) auto
  have pys: "pv s \<notin> set ys" using p assms(2) by (cases xs rule: rev_cases) auto
  have l: "seg (nx(pv s := nx s)) (pv(nx s := pv s)) 0 xs (nx s)"
    unfolding p using seg_retarget[OF left _ nxs[unfolded p]] assms(2) by simp
  have r: "seg (nx(pv s := nx s)) (pv(nx s := pv s)) (pv s) ys 0"
    using seg_retarget_start[OF right _ _ pys n] assms(2) by simp
  show ?thesis
  proof (cases ys)
    case Nil
    then show ?thesis using l n by simp
  next
    case (Cons y zs)
    then have "nx s = y" using n by simp
    then show ?thesis using l r Cons by (simp add: seg_append)
  qed
qed

lemma seg_insert:
  assumes "seg nx pv 0 xs 0" "distinct (0 # xs)" "s \<notin> set (0 # xs)"
  shows "seg (nx(0 := s, s := nx 0)) (pv(s := 0, nx 0 := s)) 0 (s # xs) 0"
proof (cases xs)
  case Nil
  then show ?thesis using assms by auto
next
  case (Cons y zs)
  have "nx 0 = y" "seg nx pv y zs 0" using assms(1) Cons by auto
  moreover have "seg (nx(0 := s, s := y)) (pv(s := 0, y := s)) y zs 0"
    using assms(2,3) Cons calculation(2) by (auto simp: seg_nx_other seg_pv_other)
  ultimately show ?thesis using assms(3) Cons by auto
qed

section \<open>Representation\<close>

definition lru_links :: "('k, 'v) lru \<Rightarrow> int \<Rightarrow> int list \<Rightarrow> bool" where
  "lru_links c cap ss \<longleftrightarrow> 0 < cap \<and> cap < 2 ^ 31 \<and>
     js_len (lruPrev c) = cap + 1 \<and> js_len (lruNext c) = cap + 1 \<and>
     seg (ta_get (lruNext c)) (ta_get (lruPrev c)) 0 ss 0 \<and> distinct ss \<and> set ss \<subseteq> {1..cap}"

definition lru_cell :: "('k, 'v) lru \<Rightarrow> int \<Rightarrow> 'k \<times> 'v option \<Rightarrow> bool" where
  "lru_cell c s e \<longleftrightarrow> js_get (lruKeys c) s = Some (fst e) \<and> js_get (lruVals c) s = snd e \<and>
     lruIndex c (fst e) = Some s"

definition lru_data :: "('k, 'v) lru \<Rightarrow> int \<Rightarrow> int list \<Rightarrow> ('k \<times> 'v option) list \<Rightarrow> bool" where
  "lru_data c cap ss es \<longleftrightarrow> js_len (lruKeys c) = cap + 1 \<and> js_len (lruVals c) = cap + 1 \<and>
     list_all2 (lru_cell c) ss es \<and> dom (lruIndex c) = fst ` set es \<and> distinct (map fst es)"

definition lru_stack :: "('k, 'v) lru \<Rightarrow> int \<Rightarrow> int list \<Rightarrow> bool" where
  "lru_stack c cap ss \<longleftrightarrow> distinct (lruFree c) \<and> set (lruFree c) = {1..cap} - set ss \<and>
     lruSize c = int (length ss)"

text \<open>The cache represents the entries \<open>es\<close>, most recently used first.\<close>

definition lru_rep :: "('k, 'v) lru \<Rightarrow> int \<Rightarrow> ('k \<times> 'v option) list \<Rightarrow> bool" where
  "lru_rep c cap es \<longleftrightarrow> (\<exists>ss. lru_links c cap ss \<and> lru_data c cap ss es \<and> lru_stack c cap ss)"

lemma lru_detach_fields [simp]:
  "lruKeys (lru_detach c s) = lruKeys c" "lruVals (lru_detach c s) = lruVals c"
  "lruIndex (lru_detach c s) = lruIndex c" "lruFree (lru_detach c s) = lruFree c"
  "lruSize (lru_detach c s) = lruSize c"
  by (simp_all add: lru_detach_def Let_def)

lemma lru_insert_fields [simp]:
  "lruKeys (lru_insertAfterSentinel c s) = lruKeys c" "lruVals (lru_insertAfterSentinel c s) = lruVals c"
  "lruIndex (lru_insertAfterSentinel c s) = lruIndex c" "lruFree (lru_insertAfterSentinel c s) = lruFree c"
  "lruSize (lru_insertAfterSentinel c s) = lruSize c"
  by (simp_all add: lru_insertAfterSentinel_def Let_def)

lemma lru_links_fields [simp]:
  "lru_links (c\<lparr>lruKeys := a\<rparr>) = lru_links c" "lru_links (c\<lparr>lruVals := b\<rparr>) = lru_links c"
  "lru_links (c\<lparr>lruIndex := d\<rparr>) = lru_links c" "lru_links (c\<lparr>lruFree := f\<rparr>) = lru_links c"
  "lru_links (c\<lparr>lruSize := n\<rparr>) = lru_links c"
  by (simp_all add: lru_links_def fun_eq_iff)

lemma seg_range:
  assumes "seg nx pv a xs b" "set (a # xs @ [b]) \<subseteq> R"
  shows "pv b \<in> R" "nx a \<in> R"
  using assms seg_last[OF assms(1)] seg_hd[OF assms(1)] by (cases xs; auto)+

lemma lru_links_detach:
  assumes "lru_links c cap (xs @ s # ys)"
  shows "lru_links (lru_detach c s) cap (xs @ ys)"
proof -
  let ?nx = "ta_get (lruNext c)" and ?pv = "ta_get (lruPrev c)"
  have l: "0 < cap" "cap < 2 ^ 31" "js_len (lruPrev c) = cap + 1" "js_len (lruNext c) = cap + 1"
      "seg ?nx ?pv 0 (xs @ s # ys) 0" "distinct (xs @ s # ys)" "set (xs @ s # ys) \<subseteq> {1..cap}"
    using assms by (auto simp: lru_links_def)
  have "seg ?nx ?pv 0 xs s" "seg ?nx ?pv s ys 0" using l(5) by (auto simp: seg_append)
  moreover have "set (0 # xs @ [s]) \<subseteq> {0..cap}" "set (s # ys @ [0]) \<subseteq> {0..cap}"
    using l(1,7) by force+
  ultimately have "?pv s \<in> {0..cap}" "?nx s \<in> {0..cap}"
    by (blast intro: seg_range)+
  moreover have "seg (?nx(?pv s := ?nx s)) (?pv(?nx s := ?pv s)) 0 (xs @ ys) 0"
    using l by (intro seg_detach) auto
  ultimately show ?thesis
    using l by (simp add: lru_links_def lru_detach_def Let_def ta_get_put)
qed

lemma lru_links_insert:
  assumes "lru_links c cap ss" "s \<in> {1..cap}" "s \<notin> set ss"
  shows "lru_links (lru_insertAfterSentinel c s) cap (s # ss)"
proof -
  let ?nx = "ta_get (lruNext c)" and ?pv = "ta_get (lruPrev c)"
  have l: "0 < cap" "cap < 2 ^ 31" "js_len (lruPrev c) = cap + 1" "js_len (lruNext c) = cap + 1"
      "seg ?nx ?pv 0 ss 0" "distinct ss" "set ss \<subseteq> {1..cap}"
    using assms(1) by (auto simp: lru_links_def)
  have "set (0 # ss @ [0]) \<subseteq> {0..cap}" using l(1,7) by force
  with l(5) have "?nx 0 \<in> {0..cap}" by (rule seg_range)
  moreover have "seg (?nx(0 := s, s := ?nx 0)) (?pv(s := 0, ?nx 0 := s)) 0 (s # ss) 0"
    using l assms by (intro seg_insert) auto
  ultimately show ?thesis
    using l assms by (simp add: lru_links_def lru_insertAfterSentinel_def Let_def ta_get_put)
qed

text \<open>A key that is present splits the list at its slot.\<close>

lemma lru_found:
  assumes "lru_data c cap ss es" "lruIndex c k = Some s"
  shows "\<exists>xs ys es1 v es2. ss = xs @ s # ys \<and> es = es1 @ (k, v) # es2 \<and>
    list_all2 (lru_cell c) xs es1 \<and> list_all2 (lru_cell c) ys es2 \<and> lru_cell c s (k, v)"
proof -
  have "k \<in> fst ` set es" using assms by (auto simp: lru_data_def)
  then obtain v es1 es2 where es: "es = es1 @ (k, v) # es2" by (auto dest: split_list)
  then obtain xs s' ys where ss: "ss = xs @ s' # ys" "list_all2 (lru_cell c) xs es1"
      "list_all2 (lru_cell c) ys es2" "lru_cell c s' (k, v)"
    using assms(1) by (auto simp: lru_data_def list_all2_append2 list_all2_Cons2)
  then have "s' = s" using assms(2) by (simp add: lru_cell_def)
  then show ?thesis using es ss by blast
qed

text \<open>The recency list: what each operation does to it.\<close>

definition forget :: "'k \<Rightarrow> ('k \<times> 'v) list \<Rightarrow> ('k \<times> 'v) list" where
  "forget k es = filter (\<lambda>e. fst e \<noteq> k) es"

definition recency_set :: "int \<Rightarrow> 'k \<Rightarrow> 'v \<Rightarrow> ('k \<times> 'v) list \<Rightarrow> ('k \<times> 'v) list" where
  "recency_set cap k v es = take (nat cap) ((k, v) # forget k es)"

definition recency_get :: "'k \<Rightarrow> ('k \<times> 'v option) list \<Rightarrow> 'v option \<times> ('k \<times> 'v option) list" where
  "recency_get k es = (case map_of es k of None \<Rightarrow> (None, es) | Some v \<Rightarrow> (v, (k, v) # forget k es))"

lemma forget_absent: "k \<notin> fst ` set es \<Longrightarrow> forget k es = es"
  unfolding forget_def by (rule filter_True) auto

lemma forget_append: "forget k (xs @ ys) = forget k xs @ forget k ys"
  by (simp add: forget_def)

lemma forget_split:
  assumes "distinct (map fst (es1 @ (k, v) # es2))"
  shows "forget k (es1 @ (k, v) # es2) = es1 @ es2"
proof -
  have "k \<notin> fst ` set es1" "k \<notin> fst ` set es2" using assms by (auto simp: image_iff)
  then have "forget k es1 = es1" "forget k es2 = es2" by (simp_all add: forget_absent)
  then show ?thesis using forget_append[of k es1 "(k, v) # es2"] by (simp add: forget_def)
qed

lemma map_of_split:
  assumes "distinct (map fst (es1 @ (k, v) # es2))"
  shows "map_of (es1 @ (k, v) # es2) k = Some v"
  by (rule map_of_is_SomeI[OF assms]) simp

section \<open>The operations on the recency list\<close>

lemma js_len_put: "0 \<le> s \<Longrightarrow> s < js_len xs \<Longrightarrow> js_len (js_put xs s v) = js_len xs"
  by (simp add: js_len_def js_put_update)

lemma js_put_same: "0 \<le> s \<Longrightarrow> s < js_len xs \<Longrightarrow> js_put xs s (js_get xs s) = xs"
  by (simp add: js_len_def js_put_update js_get_nth)

lemma lru_cells_cong:
  assumes "list_all2 (lru_cell c) ss es"
    "\<And>s e. s \<in> set ss \<Longrightarrow> e \<in> set es \<Longrightarrow> lru_cell c s e \<Longrightarrow> lru_cell c' s e"
  shows "list_all2 (lru_cell c') ss es"
  using assms by (rule list.rel_mono_strong)

lemma lru_promote:
  assumes "lru_links c cap (xs @ s # ys)" "lru_data c cap (xs @ s # ys) (es1 @ (k, v) # es2)"
    "lru_stack c cap (xs @ s # ys)" "list_all2 (lru_cell c) xs es1" "list_all2 (lru_cell c) ys es2"
    "lru_cell c s (k, v)"
  shows "lru_rep (lru_insertAfterSentinel (lru_detach (c\<lparr>lruVals := js_put (lruVals c) s w\<rparr>) s) s) cap
    ((k, w) # es1 @ es2)"
proof -
  let ?c1 = "c\<lparr>lruVals := js_put (lruVals c) s w\<rparr>"
  let ?c2 = "lru_insertAfterSentinel (lru_detach ?c1 s) s"
  have d: "distinct (xs @ s # ys)" "set (xs @ s # ys) \<subseteq> {1..cap}" using assms(1) by (auto simp: lru_links_def)
  have len: "js_len (lruKeys c) = cap + 1" "js_len (lruVals c) = cap + 1" and
    dom: "dom (lruIndex c) = fst ` set (es1 @ (k, v) # es2)" "distinct (map fst (es1 @ (k, v) # es2))"
    using assms(2) by (auto simp: lru_data_def)
  have s: "0 \<le> s" "s < js_len (lruVals c)" using d(2) len(2) by auto
  have "lru_links ?c2 cap (s # xs @ ys)"
    using lru_links_insert[of "lru_detach ?c1 s" cap "xs @ ys" s] lru_links_detach[of ?c1 cap xs s ys] assms(1) d
    by auto
  moreover have other: "lru_cell ?c2 t e" if "t \<in> set (xs @ ys)" "lru_cell c t e" for t e
    using that d(1) s by (auto simp: lru_cell_def js_get_put)
  have "list_all2 (lru_cell ?c2) (s # xs @ ys) ((k, w) # es1 @ es2)"
    using assms(6) s other lru_cells_cong[OF assms(4), of ?c2] lru_cells_cong[OF assms(5), of ?c2]
    by (auto simp: lru_cell_def[of _ s] js_get_put intro!: list_all2_appendI)
  then have "lru_data ?c2 cap (s # xs @ ys) ((k, w) # es1 @ es2)"
    using len dom s by (auto simp: lru_data_def js_len_put)
  moreover have "lru_stack ?c2 cap (s # xs @ ys)" using assms(3) by (auto simp: lru_stack_def)
  ultimately show ?thesis by (auto simp: lru_rep_def)
qed

lemma lru_absent: "lru_rep c cap es \<Longrightarrow> lruIndex c k = None \<longleftrightarrow> k \<notin> fst ` set es"
  unfolding lru_rep_def lru_data_def by (metis domIff)

lemma lru_repE:
  assumes "lru_rep c cap es" "lruIndex c k = Some s"
  obtains xs ys es1 v es2 where "es = es1 @ (k, v) # es2" "lru_links c cap (xs @ s # ys)"
    "lru_data c cap (xs @ s # ys) es" "lru_stack c cap (xs @ s # ys)" "list_all2 (lru_cell c) xs es1"
    "list_all2 (lru_cell c) ys es2" "lru_cell c s (k, v)" "distinct (map fst es)" "s \<in> {1..cap}"
proof -
  obtain ss where ss: "lru_links c cap ss" "lru_data c cap ss es" "lru_stack c cap ss"
    using assms(1) by (auto simp: lru_rep_def)
  obtain xs ys es1 v es2 where sp: "ss = xs @ s # ys" "es = es1 @ (k, v) # es2"
    "list_all2 (lru_cell c) xs es1" "list_all2 (lru_cell c) ys es2" "lru_cell c s (k, v)"
    using lru_found[OF ss(2) assms(2)] by blast
  have "distinct (map fst es)" using ss(2) by (simp add: lru_data_def)
  moreover have "s \<in> {1..cap}" using ss(1) sp(1) by (auto simp: lru_links_def)
  ultimately show thesis using ss sp by (intro that[of es1 v es2 xs ys]) auto
qed

lemma lru_get_rep:
  assumes "lru_rep c cap es"
  shows "fst (lru_get c k) = fst (recency_get k es) \<and> lru_rep (snd (lru_get c k)) cap (snd (recency_get k es))"
proof (cases "lruIndex c k")
  case None
  then have "map_of es k = None" using lru_absent[OF assms] by (simp add: map_of_eq_None_iff)
  then show ?thesis using None assms by (simp add: lru_get_def recency_get_def)
next
  case (Some s)
  then obtain xs ys es1 v es2 where sp: "es = es1 @ (k, v) # es2" "lru_links c cap (xs @ s # ys)"
    "lru_data c cap (xs @ s # ys) es" "lru_stack c cap (xs @ s # ys)" "list_all2 (lru_cell c) xs es1"
    "list_all2 (lru_cell c) ys es2" "lru_cell c s (k, v)" "distinct (map fst es)" "s \<in> {1..cap}"
    by (rule lru_repE[OF assms])
  have v: "js_get (lruVals c) s = v" using sp(7) by (simp add: lru_cell_def)
  have "js_put (lruVals c) s v = lruVals c"
    using sp(3,9) v js_put_same[of s "lruVals c"] by (simp add: lru_data_def)
  then have "lru_rep (lru_insertAfterSentinel (lru_detach c s) s) cap ((k, v) # es1 @ es2)"
    using lru_promote[OF sp(2) sp(3)[unfolded sp(1)] sp(4-7), of v] by simp
  moreover have "recency_get k es = (v, (k, v) # es1 @ es2)"
    unfolding recency_get_def using sp(1,8) map_of_split[of es1 k v es2] forget_split[of es1 k v es2] by simp
  ultimately show ?thesis using Some v by (simp add: lru_get_def Let_def)
qed

lemma lru_length:
  assumes "lru_rep c cap es"
  shows "int (length es) \<le> cap" "lruSize c = int (length es)" "lruFree c = [] \<longleftrightarrow> int (length es) = cap" "0 < cap"
proof -
  obtain ss where ss: "lru_links c cap ss" "lru_data c cap ss es" "lru_stack c cap ss"
    using assms by (auto simp: lru_rep_def)
  have len: "length ss = length es" using ss(2) by (auto simp: lru_data_def list_all2_lengthD)
  have sub: "distinct ss" "set ss \<subseteq> {1..cap}" "0 < cap" using ss(1) by (auto simp: lru_links_def)
  have n: "card (set ss) = length es" using sub(1) len by (simp add: distinct_card)
  have cap: "card {1..cap} = nat cap" by simp
  have le: "length es \<le> nat cap" using card_mono[OF _ sub(2)] n cap by simp
  then show "int (length es) \<le> cap" "0 < cap" using sub(3) by auto
  show "lruSize c = int (length es)" using ss(3) len by (simp add: lru_stack_def)
  have "lruFree c = [] \<longleftrightarrow> {1..cap} \<subseteq> set ss"
    using ss(3) by (simp add: lru_stack_def flip: set_empty)
  also have "\<dots> \<longleftrightarrow> length es = nat cap"
    using sub(2) n cap card_subset_eq[of "{1..cap}" "set ss"]
    by (metis finite_atLeastAtMost_int order_refl subset_antisym)
  finally show "lruFree c = [] \<longleftrightarrow> int (length es) = cap" using sub(3) by auto
qed

lemma lru_insert_new:
  assumes "lru_links c cap ss" "lru_data c cap ss es" "s \<in> {1..cap}" "s \<notin> set ss" "k \<notin> fst ` set es"
    "distinct (lruFree c)" "set (lruFree c) = {1..cap} - set (s # ss)" "lruSize c = int (Suc (length ss))"
  shows "lru_rep (lru_insertAfterSentinel
    (c\<lparr>lruKeys := js_put (lruKeys c) s (Some k), lruVals := js_put (lruVals c) s w,
       lruIndex := (lruIndex c)(k \<mapsto> s)\<rparr>) s) cap ((k, w) # es)"
proof -
  let ?c = "lru_insertAfterSentinel (c\<lparr>lruKeys := js_put (lruKeys c) s (Some k),
    lruVals := js_put (lruVals c) s w, lruIndex := (lruIndex c)(k \<mapsto> s)\<rparr>) s"
  have d: "js_len (lruKeys c) = cap + 1" "js_len (lruVals c) = cap + 1" "list_all2 (lru_cell c) ss es"
      "dom (lruIndex c) = fst ` set es" "distinct (map fst es)"
    using assms(2) by (auto simp: lru_data_def)
  have "lru_links ?c cap (s # ss)" using assms(1,3,4) by (intro lru_links_insert) auto
  moreover have "list_all2 (lru_cell ?c) ss es"
    using assms(3,4,5) d(1,2) by (intro lru_cells_cong[OF d(3)]) (auto simp: lru_cell_def js_get_put image_iff)
  then have "list_all2 (lru_cell ?c) (s # ss) ((k, w) # es)"
    using assms(3) d(1,2) by (simp add: lru_cell_def[of _ s] js_get_put)
  then have "lru_data ?c cap (s # ss) ((k, w) # es)"
    using assms(3,5) d by (auto simp: lru_data_def js_len_put)
  moreover have "lru_stack ?c cap (s # ss)" using assms(6-8) by (simp add: lru_stack_def)
  ultimately show ?thesis by (auto simp: lru_rep_def)
qed

text \<open>With no free slot, the slot of the last entry is taken over.\<close>

lemma lru_evict:
  assumes "lru_rep c cap es" "lruFree c = []"
  shows "\<exists>s old es0 ss0 c1. es = es0 @ [old] \<and> lru_claim c = (s, c1) \<and> lru_links c1 cap ss0 \<and>
    lru_data c1 cap ss0 es0 \<and> s \<in> {1..cap} \<and> s \<notin> set ss0 \<and>
    distinct (lruFree c1) \<and> set (lruFree c1) = {1..cap} - set (s # ss0) \<and> lruSize c1 = int (Suc (length ss0))"
proof -
  obtain ss where ss: "lru_links c cap ss" "lru_data c cap ss es" "lru_stack c cap ss"
    using assms(1) by (auto simp: lru_rep_def)
  have full: "set ss = {1..cap}" using ss(1,3) assms(2) by (auto simp: lru_links_def lru_stack_def)
  have "ss \<noteq> []" using full ss(1) by (auto simp: lru_links_def)
  then obtain ss0 s where s: "ss = ss0 @ [s]" by (cases ss rule: rev_cases) auto
  then obtain es0 k w where es: "es = es0 @ [(k, w)]" and cells: "list_all2 (lru_cell c) ss0 es0" "lru_cell c s (k, w)"
    using ss(2) by (auto simp: lru_data_def list_all2_append1 list_all2_Cons1)
  have links: "seg (ta_get (lruNext c)) (ta_get (lruPrev c)) 0 ss 0" "distinct ss"
    using ss(1) by (auto simp: lru_links_def)
  have tail: "ta_get (lruPrev c) 0 = s" using seg_last[OF links(1)] s by simp
  let ?c1 = "lru_detach (c\<lparr>lruIndex := (lruIndex c)(k := None)\<rparr>) s"
  have claim: "lru_claim c = (s, ?c1)"
    using assms(2) tail cells(2) by (simp add: lru_claim_def Let_def lru_cell_def)
  have "lru_links ?c1 cap (ss0 @ [])"
    using ss(1) s by (intro lru_links_detach) simp
  moreover have fresh: "distinct (map fst es)" using ss(2) by (simp add: lru_data_def)
  have "list_all2 (lru_cell ?c1) ss0 es0"
    using fresh es by (intro lru_cells_cong[OF cells(1)]) (auto simp: lru_cell_def)
  then have "lru_data ?c1 cap ss0 es0" using ss(2) es fresh by (auto simp: lru_data_def)
  moreover have "s \<notin> set ss0" "s \<in> {1..cap}" "set (s # ss0) = {1..cap}" using links(2) s full by auto
  moreover have "lruSize ?c1 = int (Suc (length ss0))" using ss(3) s by (simp add: lru_stack_def)
  ultimately show ?thesis using es claim assms(2) by auto
qed

lemma lru_claim_free:
  assumes "lru_rep c cap es" "lruFree c \<noteq> []"
  shows "\<exists>s ss c1. lru_claim c = (s, c1) \<and> lru_links c1 cap ss \<and> lru_data c1 cap ss es \<and> s \<in> {1..cap} \<and>
    s \<notin> set ss \<and> distinct (lruFree c1) \<and> set (lruFree c1) = {1..cap} - set (s # ss) \<and>
    lruSize c1 = int (Suc (length ss))"
proof -
  obtain ss where ss: "lru_links c cap ss" "lru_data c cap ss es" "lru_stack c cap ss"
    using assms(1) by (auto simp: lru_rep_def)
  obtain fs s where fs: "lruFree c = fs @ [s]" using assms(2) by (cases "lruFree c" rule: rev_cases) auto
  let ?c1 = "c\<lparr>lruFree := butlast (lruFree c), lruSize := lruSize c + 1\<rparr>"
  have "lru_cell ?c1 = lru_cell c" by (simp add: lru_cell_def fun_eq_iff)
  then have "lru_data ?c1 cap ss es" using ss(2) by (simp add: lru_data_def)
  moreover have "s \<in> {1..cap}" "s \<notin> set ss" "distinct fs" "set fs = {1..cap} - set (s # ss)"
    using ss(3) fs by (auto simp: lru_stack_def)
  moreover have "lru_claim c = (s, ?c1)" using assms(2) fs by (simp add: lru_claim_def)
  ultimately show ?thesis using ss fs by (auto simp: lru_stack_def)
qed

lemma lru_set_rep:
  assumes "lru_rep c cap es"
  shows "lru_rep (lru_set c k w) cap (recency_set cap k w es)"
proof (cases "lruIndex c k")
  case (Some s)
  then obtain xs ys es1 v es2 where sp: "es = es1 @ (k, v) # es2" "lru_links c cap (xs @ s # ys)"
    "lru_data c cap (xs @ s # ys) es" "lru_stack c cap (xs @ s # ys)" "list_all2 (lru_cell c) xs es1"
    "list_all2 (lru_cell c) ys es2" "lru_cell c s (k, v)" "distinct (map fst es)" "s \<in> {1..cap}"
    by (rule lru_repE[OF assms])
  have "forget k es = es1 @ es2" using sp(1,8) forget_split[of es1 k v es2] by simp
  moreover have "length es \<le> nat cap" using lru_length(1)[OF assms] by simp
  ultimately have "recency_set cap k w es = (k, w) # es1 @ es2"
    using sp(1) by (simp add: recency_set_def del: take_append)
  then show ?thesis
    using Some lru_promote[OF sp(2) sp(3)[unfolded sp(1)] sp(4-7), of w] by (simp add: lru_set_def)
next
  case None
  then have k: "k \<notin> fst ` set es" using lru_absent[OF assms] by simp
  note len = lru_length[OF assms]
  have forget: "forget k es = es" using k by (rule forget_absent)
  show ?thesis
  proof (cases "lruFree c = []")
    case True
    obtain s old es0 ss0 c1 where e: "es = es0 @ [old]" "lru_claim c = (s, c1)" "lru_links c1 cap ss0"
      "lru_data c1 cap ss0 es0" "s \<in> {1..cap}" "s \<notin> set ss0" "distinct (lruFree c1)"
      "set (lruFree c1) = {1..cap} - set (s # ss0)" "lruSize c1 = int (Suc (length ss0))"
      using lru_evict[OF assms True] by blast
    have "nat cap = Suc (length es0)" using len(3) True e(1) by simp
    then have "recency_set cap k w es = (k, w) # es0" using forget e(1) by (simp add: recency_set_def)
    moreover have "k \<notin> fst ` set es0" using k e(1) by auto
    ultimately show ?thesis
      using None e(2) lru_insert_new[OF e(3-6) _ e(7-9), of k w] by (simp add: lru_set_def)
  next
    case False
    obtain s ss c1 where e: "lru_claim c = (s, c1)" "lru_links c1 cap ss" "lru_data c1 cap ss es"
      "s \<in> {1..cap}" "s \<notin> set ss" "distinct (lruFree c1)" "set (lruFree c1) = {1..cap} - set (s # ss)"
      "lruSize c1 = int (Suc (length ss))"
      using lru_claim_free[OF assms False] by blast
    have "length es < nat cap" using len False by auto
    then have "recency_set cap k w es = (k, w) # es" using forget by (simp add: recency_set_def)
    then show ?thesis
      using None e(1) lru_insert_new[OF e(2-5) k e(6-8), of w] by (simp add: lru_set_def)
  qed
qed

lemma lru_del_rep:
  assumes "lru_rep c cap es"
  shows "fst (lru_del c k) = (k \<in> fst ` set es) \<and> lru_rep (snd (lru_del c k)) cap (forget k es)"
proof (cases "lruIndex c k")
  case None
  then have "k \<notin> fst ` set es" using lru_absent[OF assms] by simp
  then show ?thesis using assms None by (simp add: lru_del_def forget_absent)
next
  case (Some s)
  then obtain xs ys es1 v es2 where sp: "es = es1 @ (k, v) # es2" "lru_links c cap (xs @ s # ys)"
    "lru_data c cap (xs @ s # ys) es" "lru_stack c cap (xs @ s # ys)" "list_all2 (lru_cell c) xs es1"
    "list_all2 (lru_cell c) ys es2" "lru_cell c s (k, v)" "distinct (map fst es)" "s \<in> {1..cap}"
    by (rule lru_repE[OF assms])
  let ?c = "snd (lru_del c k)"
  have d: "distinct (xs @ s # ys)" "js_len (lruKeys c) = cap + 1" "js_len (lruVals c) = cap + 1"
    using sp(2,3) by (auto simp: lru_links_def lru_data_def)
  have del: "lru_del c k = (True, ?c)"
      "?c = (lru_detach (c\<lparr>lruIndex := (lruIndex c)(k := None)\<rparr>) s)
        \<lparr>lruKeys := js_put (lruKeys c) s None, lruVals := js_put (lruVals c) s None,
         lruFree := lruFree c @ [s], lruSize := lruSize c - 1\<rparr>"
    using Some by (simp_all add: lru_del_def Let_def)
  have "lru_links ?c cap (xs @ ys)" using sp(2) lru_links_detach[of "c\<lparr>lruIndex := (lruIndex c)(k := None)\<rparr>" cap xs s ys]
    unfolding del(2) by simp
  moreover have other: "lru_cell ?c t e" if "t \<in> set (xs @ ys)" "e \<in> set (es1 @ es2)" "lru_cell c t e" for t e
    using that d sp(1,8,9) unfolding del(2) by (auto simp: lru_cell_def js_get_put image_iff)
  have "list_all2 (lru_cell ?c) (xs @ ys) (es1 @ es2)"
    by (intro list_all2_appendI lru_cells_cong[OF sp(5)] lru_cells_cong[OF sp(6)] other) auto
  moreover have "fst ` set (es1 @ es2) = fst ` set es - {k}" using sp(1,8) by auto
  moreover have "js_len (lruKeys ?c) = cap + 1" "js_len (lruVals ?c) = cap + 1"
      "dom (lruIndex ?c) = dom (lruIndex c) - {k}"
    using sp(9) d(2,3) unfolding del(2) by (simp_all add: js_len_put)
  moreover have "dom (lruIndex c) = fst ` set es" using sp(3) by (simp add: lru_data_def)
  moreover have "distinct (map fst (es1 @ es2))" using sp(1,8) by simp
  ultimately have "lru_data ?c cap (xs @ ys) (es1 @ es2)"
    unfolding lru_data_def by simp
  moreover have "lru_stack ?c cap (xs @ ys)"
    using sp(4,9) d(1) unfolding del(2) by (auto simp: lru_stack_def)
  moreover have "forget k es = es1 @ es2" using sp(1,8) forget_split[of es1 k v es2] by simp
  ultimately have "lru_rep ?c cap (forget k es)" unfolding lru_rep_def
    using \<open>lru_links ?c cap (xs @ ys)\<close> by metis
  moreover have "fst (lru_del c k)" using del(1) by (metis fst_conv)
  moreover have "k \<in> fst ` set es" using sp(1) by simp
  ultimately show ?thesis by blast
qed

lemma lru_make_cases:
  shows "1 \<le> cap \<Longrightarrow> cap < 2 ^ 31 \<Longrightarrow> \<exists>c. lru_make cap = Inr c \<and> lru_rep c cap []"
    and "\<not> (1 \<le> cap \<and> cap < 2 ^ 31) \<Longrightarrow> lru_make cap = Inl RangeError"
proof -
  have bound: "to_int32 cap < 2 ^ 31" unfolding to_int32_def by (simp add: pos_mod_bound)
  have or0: "js_or cap 0 = to_int32 cap" by (simp add: js_or_def to_int32_def)
  show "lru_make cap = Inl RangeError" if "\<not> (1 \<le> cap \<and> cap < 2 ^ 31)"
    using that bound or0 by (auto simp: lru_make_def)
  assume cap: "1 \<le> cap" "cap < 2 ^ 31"
  then have id: "js_or cap 0 = cap" using or0 by (simp add: to_int32_id)
  let ?z = "ta_put (replicate (nat (cap + 1)) 0) 0 0"
  let ?c = "\<lparr>lruPrev = ?z, lruNext = ?z, lruKeys = replicate (nat (cap + 1)) None,
      lruVals = replicate (nat (cap + 1)) None, lruIndex = Map.empty,
      lruFree = map (\<lambda>i. i + 1) [0..cap - 1], lruSize = 0\<rparr>"
  have "lru_make cap = Inr ?c" using cap id by (simp add: lru_make_def Let_def)
  moreover have "ta_get ?z 0 = 0" using cap
    by (simp add: ta_get_def ta_put_def js_len_def to_int32_def)
  then have "lru_links ?c cap []" using cap by (simp add: lru_links_def js_len_def[of "replicate _ _"])
  moreover have "lru_data ?c cap [] []" using cap by (simp add: lru_data_def js_len_def)
  moreover have "(\<lambda>i. i + 1) ` {0..cap - 1} = {1..cap}"
    by (auto simp: image_iff intro!: bexI[of _ "_ - 1"])
  then have "lru_stack ?c cap []" by (auto simp: lru_stack_def distinct_map)
  ultimately show "\<exists>c. lru_make cap = Inr c \<and> lru_rep c cap []" by (auto simp: lru_rep_def)
qed

section \<open>Sessions\<close>

datatype ('k, 'v) lru_call = LruGet 'k | LruSet 'k "'v option" | LruHas 'k | LruDel 'k | LruSize

datatype 'v lru_answer = LruValue "'v option" | LruBool bool | LruUnit | LruNumber int

fun lru_exec :: "('k, 'v) lru_call \<Rightarrow> ('k, 'v) lru \<Rightarrow> 'v lru_answer \<times> ('k, 'v) lru" where
  "lru_exec (LruGet k) c = map_prod LruValue id (lru_get c k)"
| "lru_exec (LruSet k v) c = (LruUnit, lru_set c k v)"
| "lru_exec (LruHas k) c = (LruBool (lru_has c k), c)"
| "lru_exec (LruDel k) c = map_prod LruBool id (lru_del c k)"
| "lru_exec LruSize c = (LruNumber (lru_size c), c)"

fun recency_exec :: "int \<Rightarrow> ('k, 'v) lru_call \<Rightarrow> ('k \<times> 'v option) list \<Rightarrow> 'v lru_answer \<times> ('k \<times> 'v option) list"
  where
  "recency_exec cap (LruGet k) es = map_prod LruValue id (recency_get k es)"
| "recency_exec cap (LruSet k v) es = (LruUnit, recency_set cap k v es)"
| "recency_exec cap (LruHas k) es = (LruBool (k \<in> fst ` set es), es)"
| "recency_exec cap (LruDel k) es = (LruBool (k \<in> fst ` set es), forget k es)"
| "recency_exec cap LruSize es = (LruNumber (int (length es)), es)"

lemma lru_exec_rep:
  assumes "lru_rep c cap es"
  shows "fst (lru_exec k c) = fst (recency_exec cap k es) \<and>
    lru_rep (snd (lru_exec k c)) cap (snd (recency_exec cap k es))"
  using assms lru_get_rep[OF assms] lru_del_rep[OF assms] lru_set_rep[OF assms] lru_length(2)[OF assms]
    lru_absent[OF assms]
  by (cases k) (auto simp: lru_has_def lru_size_def)

lemma lru_session_rep:
  assumes "lru_rep c cap es"
  shows "fst (run_calls lru_exec ks c) = fst (run_calls (recency_exec cap) ks es) \<and>
    lru_rep (snd (run_calls lru_exec ks c)) cap (snd (run_calls (recency_exec cap) ks es))"
  by (rule run_calls_refines[where R = "\<lambda>c es. lru_rep c cap es"]) (use lru_exec_rep assms in blast)+

section \<open>The cache as a memo cache\<close>

definition lru_view :: "('k, 'v) lru \<Rightarrow> 'k \<Rightarrow> 'v option option" where
  "lru_view c k = map_option (js_get (lruVals c)) (lruIndex c k)"

definition lru_ok :: "('k, 'v) lru \<Rightarrow> bool" where
  "lru_ok c \<longleftrightarrow> (\<exists>cap es. lru_rep c cap es)"

lemma lru_view_rep:
  assumes "lru_rep c cap es"
  shows "lru_view c = map_of es"
proof
  fix k
  show "lru_view c k = map_of es k"
  proof (cases "lruIndex c k")
    case None
    then have "map_of es k = None" using lru_absent[OF assms] by (simp add: map_of_eq_None_iff)
    then show ?thesis using None by (simp add: lru_view_def)
  next
    case (Some s)
    then obtain es1 v es2 where "es = es1 @ (k, v) # es2" "lru_cell c s (k, v)" "distinct (map fst es)"
      by (rule lru_repE[OF assms])
    then show ?thesis using Some map_of_split[of es1 k v es2] by (simp add: lru_view_def lru_cell_def)
  qed
qed

lemma lru_distinct: "lru_rep c cap es \<Longrightarrow> distinct (map fst es)"
  by (auto simp: lru_rep_def lru_data_def)

lemma map_of_forget: "map_of (forget k es) j = (if j = k then None else map_of es j)"
  by (induction es) (auto simp: forget_def)

lemma map_of_takeD: "distinct (map fst es) \<Longrightarrow> map_of (take n es) k = Some v \<Longrightarrow> map_of es k = Some v"
  by (metis in_set_takeD map_of_SomeD map_of_is_SomeI)

interpretation lru_memo: memo_cache lru_get lru_has lru_set lru_ok lru_view
proof unfold_locales
  fix c :: "('k, 'v) lru" and k k' :: 'k and v w
  assume "lru_ok c"
  then obtain cap es where rep: "lru_rep c cap es" by (auto simp: lru_ok_def)
  note view = lru_view_rep[OF rep] and get = lru_get_rep[OF rep, of k] and dist = lru_distinct[OF rep]
  show "fst (lru_get c k) = (case lru_view c k of None \<Rightarrow> None | Some v \<Rightarrow> v)"
    using get view by (auto simp: recency_get_def split: option.split)
  show "lru_ok (snd (lru_get c k))" using get by (auto simp: lru_ok_def)
  have "map_of (snd (recency_get k es)) = map_of es"
    by (auto simp: recency_get_def map_of_forget split: option.split)
  then show "lru_view (snd (lru_get c k)) = lru_view c"
    using view lru_view_rep[OF conjunct2[OF get]] by simp
  show "lru_has c k \<longleftrightarrow> lru_view c k \<noteq> None" by (simp add: lru_has_def lru_view_def)
  have set: "lru_rep (lru_set c k v) cap (recency_set cap k v es)" by (rule lru_set_rep[OF rep])
  then show "lru_ok (lru_set c k v)" by (auto simp: lru_ok_def)
  obtain n where n: "nat cap = Suc n" using lru_length(4)[OF rep] by (cases "nat cap") auto
  then show "lru_view (lru_set c k v) k = Some v"
    unfolding lru_view_rep[OF set] recency_set_def n by simp
  show "lru_view c k' = Some w" if "k' \<noteq> k" "lru_view (lru_set c k v) k' = Some w"
  proof -
    have "distinct (map fst ((k, v) # forget k es))"
      using dist by (auto simp: forget_def distinct_map_filter)
    then have "map_of ((k, v) # forget k es) k' = Some w"
      using that(2) unfolding lru_view_rep[OF set] recency_set_def by (rule map_of_takeD)
    then show ?thesis using that(1) view by (simp add: map_of_forget)
  qed
qed

section \<open>Properties\<close>

text \<open>
  C7. Every session of calls on a fresh cache of capacity \<open>cap\<close> answers as a list of entries in order
  of use does: \<open>get\<close> and \<open>set\<close> move their entry to the front, \<open>set\<close> cuts the list to \<open>cap\<close> entries, so
  that the least recently used one goes, \<open>del\<close> takes its entry out, \<open>has\<close> and \<open>size\<close> change nothing. The
  links, the index and the free stack of the final cache describe exactly the final list.
\<close>

theorem lru_session_refines_recency:
  assumes "1 \<le> cap" "cap < 2 ^ 31"
  shows "\<exists>c. lru_make cap = Inr c \<and>
    fst (run_calls lru_exec ks c) = fst (run_calls (recency_exec cap) ks []) \<and>
    lru_rep (snd (run_calls lru_exec ks c)) cap (snd (run_calls (recency_exec cap) ks []))"
  using lru_make_cases(1)[OF assms] lru_session_rep by blast

definition lru_demo :: "(nat, bool) lru_call list" where
  "lru_demo = [LruSet 1 (Some True), LruSet 2 None, LruGet 1, LruSet 3 (Some False), LruHas 2, LruGet 1, LruSize]"

theorem lru_session_refines_recency_witness:
  "\<exists>c. lru_make 2 = Inr c \<and> fst (run_calls lru_exec lru_demo c)
     = [LruUnit, LruUnit, LruValue (Some True), LruUnit, LruBool False, LruValue (Some True), LruNumber 2]"
proof -
  have "nat 2 = Suc (Suc 0)" by simp
  then have "fst (run_calls (recency_exec 2) lru_demo [])
     = [LruUnit, LruUnit, LruValue (Some True), LruUnit, LruBool False, LruValue (Some True), LruNumber 2]"
    by (simp add: lru_demo_def recency_get_def recency_set_def forget_def)
  then show ?thesis using lru_session_refines_recency[of 2 lru_demo] by auto
qed

text \<open>The entries of a sequence of writes, the latest first, as if nothing were ever evicted.\<close>

definition lru_write_all :: "('k \<times> 'v option) list \<Rightarrow> ('k, 'v) lru \<Rightarrow> ('k, 'v) lru" where
  "lru_write_all kvs c = fold (\<lambda>(k, v) c. lru_set c k v) kvs c"

definition latest :: "('k \<times> 'v) list \<Rightarrow> ('k \<times> 'v) list" where
  "latest kvs = fold (\<lambda>(k, v) es. (k, v) # forget k es) kvs []"

lemma take_forget: "distinct (map fst es) \<Longrightarrow> take n (forget k (take (Suc n) es)) = take n (forget k es)"
proof (induction es arbitrary: n)
  case (Cons e es)
  show ?case
  proof (cases "fst e = k")
    case True
    then have k: "k \<notin> fst ` set es" using Cons.prems by (simp add: image_iff)
    then have "k \<notin> fst ` set (take n es)" by (auto dest: in_set_takeD)
    then have "forget k (take n es) = take n es" by (rule forget_absent)
    moreover have "forget k es = es" using k by (rule forget_absent)
    ultimately show ?thesis using True by (simp add: forget_def)
  next
    case False
    then show ?thesis using Cons.IH[of "n - 1"] Cons.prems by (cases n) (simp_all add: forget_def)
  qed
qed (simp add: forget_def)

lemma distinct_latest_step: "distinct (map fst es) \<Longrightarrow> distinct (map fst ((k, v) # forget k es))"
  by (auto simp: forget_def distinct_map_filter)

lemma lru_writes_rep:
  "lru_rep c cap (take (nat cap) es) \<Longrightarrow> distinct (map fst es) \<Longrightarrow>
   lru_rep (fold (\<lambda>(k, v) c. lru_set c k v) kvs c) cap
     (take (nat cap) (fold (\<lambda>(k, v) es. (k, v) # forget k es) kvs es))"
proof (induction kvs arbitrary: c es)
  case (Cons kv kvs)
  obtain k v where kv: "kv = (k, v)" by force
  obtain n where n: "nat cap = Suc n" using lru_length(4)[OF Cons.prems(1)] by (cases "nat cap") auto
  have "recency_set cap k v (take (nat cap) es) = take (nat cap) ((k, v) # forget k es)"
    unfolding recency_set_def n using take_forget[OF Cons.prems(2), of n k] by simp
  then have "lru_rep (lru_set c k v) cap (take (nat cap) ((k, v) # forget k es))"
    using lru_set_rep[OF Cons.prems(1), of k v] by simp
  then show ?case using Cons.IH distinct_latest_step[OF Cons.prems(2), of k v] kv by simp
qed simp

text \<open>
  After any sequence of writes the cache holds exactly the \<open>cap\<close> most recently written keys, each
  with its latest value, and its size is the number of distinct keys written, cut at \<open>cap\<close>.
\<close>

theorem lru_keeps_most_recent:
  fixes kvs :: "('a \<times> 'b option) list"
  assumes "1 \<le> cap" "cap < 2 ^ 31"
  shows "\<exists>c. lru_make cap = Inr c \<and>
    lru_view (lru_write_all kvs c) = map_of (take (nat cap) (latest kvs)) \<and>
    lru_size (lru_write_all kvs c) = min cap (int (length (latest kvs)))"
proof -
  obtain c :: "('a, 'b) lru" where c: "lru_make cap = Inr c" "lru_rep c cap []"
    using lru_make_cases(1)[OF assms] by blast
  then have rep: "lru_rep (lru_write_all kvs c) cap (take (nat cap) (latest kvs))"
    unfolding lru_write_all_def latest_def using lru_writes_rep[of c cap "[]" kvs] by simp
  show ?thesis
    using c(1) lru_view_rep[OF rep] lru_length(2)[OF rep] assms by (auto simp: lru_size_def)
qed

theorem lru_keeps_most_recent_witness:
  "\<exists>c. lru_make 2 = Inr c \<and>
     lru_view (lru_write_all [(1::nat, Some ''a''), (2, Some ''b''), (1, Some ''c''), (3, None)] c) =
       [3 \<mapsto> None, 1 \<mapsto> Some ''c'']"
proof -
  have "take (nat 2) (latest [(1::nat, Some ''a''), (2, Some ''b''), (1, Some ''c''), (3, None)])
      = [(3, None), (1, Some ''c'')]"
    by (simp add: latest_def forget_def numeral_2_eq_2)
  then show ?thesis
    using lru_keeps_most_recent[of 2 "[(1::nat, Some ''a''), (2, Some ''b''), (1, Some ''c''), (3, None)]"]
    by (auto simp: fun_eq_iff)
qed

text \<open>
  \<open>make\<close> accepts exactly the capacities that are positive 32-bit integers, and throws a
  \<open>RangeError\<close> for every other integer.
\<close>

theorem lru_make_checks_capacity:
  "((\<exists>c :: ('k, 'v) lru. lru_make cap = Inr c) \<longleftrightarrow> 1 \<le> cap \<and> cap < 2 ^ 31) \<and>
   ((lru_make cap :: ('k, 'v) lru outcome) = Inl RangeError \<longleftrightarrow> cap < 1 \<or> 2 ^ 31 \<le> cap)"
proof (cases "1 \<le> cap \<and> cap < 2 ^ 31")
  case True
  then obtain c :: "('k, 'v) lru" where "lru_make cap = Inr c" using lru_make_cases(1) by blast
  then show ?thesis using True by simp
next
  case False
  then have "(lru_make cap :: ('k, 'v) lru outcome) = Inl RangeError" by (rule lru_make_cases(2))
  then show ?thesis using False by auto
qed

end
