(* ===== verification/Memoization.thy ===== *)
theory Memoization
  imports LRUCache
begin

text \<open>
  \<open>src/src/Memoization.ts\<close>: \<open>memoize\<close> over any cache, and \<open>once\<close>. The function, the key function and the
  cache are the client's. The function may throw, may have effects on a world of its own and may call
  the memoized function again, so it is given, and returns, the pair of the cache and the world.
  Results are options: \<^term>\<open>None\<close> is the value \<open>undefined\<close>, which the code caches like any other.
\<close>

section \<open>memoize\<close>

text \<open>The default cache is a JavaScript \<open>Map\<close>.\<close>

type_synonym ('k, 'v) js_map = "'k \<Rightarrow> 'v option option"

definition jmap_get :: "('k, 'v) js_map \<Rightarrow> 'k \<Rightarrow> 'v option \<times> ('k, 'v) js_map" where
  "jmap_get m k = ((case m k of None \<Rightarrow> None | Some v \<Rightarrow> v), m)"

definition jmap_has :: "('k, 'v) js_map \<Rightarrow> 'k \<Rightarrow> bool" where
  "jmap_has m k \<longleftrightarrow> m k \<noteq> None"

definition jmap_set :: "('k, 'v) js_map \<Rightarrow> 'k \<Rightarrow> 'v option \<Rightarrow> ('k, 'v) js_map" where
  "jmap_set m k v = m(k \<mapsto> v)"

interpretation jmap_memo: memo_cache jmap_get jmap_has jmap_set "\<lambda>_. True" "\<lambda>m. m"
  by unfold_locales (simp_all add: jmap_get_def jmap_has_def jmap_set_def)

definition memoized :: "('c \<Rightarrow> 'k \<Rightarrow> 'r option \<times> 'c) \<Rightarrow> ('c \<Rightarrow> 'k \<Rightarrow> bool) \<Rightarrow> ('c \<Rightarrow> 'k \<Rightarrow> 'r option \<Rightarrow> 'c)
    \<Rightarrow> ('a \<Rightarrow> 'k) \<Rightarrow> ('a \<Rightarrow> 'c \<times> 'w \<Rightarrow> ('e + 'r option) \<times> 'c \<times> 'w) \<Rightarrow> 'a \<Rightarrow> 'c \<times> 'w
    \<Rightarrow> ('e + 'r option) \<times> 'c \<times> 'w" where
  "memoized cget chas cset cacheKeyFn fn args st =
     (let key = cacheKeyFn args; (cached, cache) = cget (fst st) key
      in if cached \<noteq> None then (Inr cached, cache, snd st)
         else if chas cache key then (Inr None, cache, snd st)
         else case fn args (cache, snd st) of
                (Inl e, st1) \<Rightarrow> (Inl e, st1)
              | (Inr result, st1) \<Rightarrow> (Inr result, cset (fst st1) key result, snd st1))"

text \<open>
  A cache is sound for a function of the keys when every entry is that function's value. A client
  function computes \<open>f\<close> if it returns \<open>f\<close>'s value on every sound cache and leaves the cache sound; it
  may throw and it may call the memoized function.
\<close>

definition sound_for :: "('k \<Rightarrow> 'r option) \<Rightarrow> ('k \<Rightarrow> 'r option option) \<Rightarrow> bool" where
  "sound_for f m \<longleftrightarrow> (\<forall>k v. m k = Some v \<longrightarrow> v = f k)"

definition fn_computes :: "('c \<Rightarrow> bool) \<Rightarrow> ('c \<Rightarrow> 'k \<Rightarrow> 'r option option) \<Rightarrow> ('a \<Rightarrow> 'k) \<Rightarrow> ('k \<Rightarrow> 'r option)
    \<Rightarrow> ('a \<Rightarrow> 'c \<times> 'w \<Rightarrow> ('e + 'r option) \<times> 'c \<times> 'w) \<Rightarrow> bool" where
  "fn_computes cinv view key f fn \<longleftrightarrow>
     (\<forall>a c w r c' w'. cinv c \<longrightarrow> sound_for f (view c) \<longrightarrow> fn a (c, w) = (r, c', w') \<longrightarrow>
        cinv c' \<and> sound_for f (view c') \<and> (\<forall>v. r = Inr v \<longrightarrow> v = f (key a)))"

context memo_cache
begin

lemma sound_put: "cinv c \<Longrightarrow> sound_for f (view c) \<Longrightarrow> sound_for f (view (cput c k (f k)))"
  unfolding sound_for_def using put_new put_other by (metis option.inject)

text \<open>The memoized function computes what its function computes; in particular it may be used inside it.\<close>

lemma memoized_computes:
  assumes "fn_computes cinv view key f fn"
  shows "fn_computes cinv view key f (memoized cget chas cput key fn)"
  unfolding fn_computes_def
proof (intro allI impI)
  fix a c w r c' w'
  assume c: "cinv c" "sound_for f (view c)" and call: "memoized cget chas cput key fn a (c, w) = (r, c', w')"
  let ?k = "key a" and ?c1 = "snd (cget c (key a))"
  have c1: "cinv ?c1" "sound_for f (view ?c1)" "view ?c1 = view c"
    using c get_inv get_view by auto
  have has: "chas ?c1 ?k \<longleftrightarrow> view c ?k \<noteq> None" using has_view[OF c1(1)] c1(3) by simp
  show "cinv c' \<and> sound_for f (view c') \<and> (\<forall>v. r = Inr v \<longrightarrow> v = f ?k)"
  proof (cases "view c ?k")
    case (Some v)
    then have "v = f ?k" using c(2) by (simp add: sound_for_def)
    then have "r = Inr (f ?k)" "c' = ?c1"
      using call get_value[OF c(1), of ?k] Some has by (auto simp: memoized_def Let_def split: if_splits prod.splits)
    then show ?thesis using c1 by simp
  next
    case None
    obtain r1 c2 w2 where fn: "fn a (?c1, w) = (r1, c2, w2)" by (cases "fn a (?c1, w)")
    then have c2: "cinv c2" "sound_for f (view c2)" "\<And>v. r1 = Inr v \<Longrightarrow> v = f ?k"
      using assms c1 unfolding fn_computes_def by blast+
    have "(r, c', w') = (case r1 of Inl e \<Rightarrow> (Inl e, c2, w2) | Inr v \<Rightarrow> (Inr v, cput c2 ?k v, w2))"
      using call get_value[OF c(1), of ?k] None has fn
      by (auto simp: memoized_def Let_def split: prod.splits sum.splits)
    then show ?thesis using c2 put_inv sound_put by (auto split: sum.splits)
  qed
qed

text \<open>Once a key is in the cache, the function is not run: the world is left alone.\<close>

lemma memoized_hit:
  assumes "cinv c" "view c (key a) = Some v"
  shows "memoized cget chas cput key fn a (c, w) = (Inr v, snd (cget c (key a)), w)"
proof -
  have "chas (snd (cget c (key a))) (key a)"
    using has_view[OF get_inv[OF assms(1)]] get_view[OF assms(1)] assms(2) by simp
  then show ?thesis
    using get_value[OF assms(1), of "key a"] assms(2)
    by (cases "cget c (key a)"; cases v) (auto simp: memoized_def Let_def)
qed

lemma memoized_miss:
  assumes "cinv c" "view c (key a) = None"
  shows "memoized cget chas cput key fn a (c, w) =
    (case fn a (snd (cget c (key a)), w) of (Inl e, st1) \<Rightarrow> (Inl e, st1)
     | (Inr v, st1) \<Rightarrow> (Inr v, cput (fst st1) (key a) v, snd st1))"
proof -
  have "\<not> chas (snd (cget c (key a))) (key a)"
    using has_view[OF get_inv[OF assms(1)]] get_view[OF assms(1)] assms(2) by simp
  then show ?thesis
    using get_value[OF assms(1), of "key a"] assms(2)
    by (cases "cget c (key a)") (auto simp: memoized_def)
qed

end

section \<open>once\<close>

text \<open>
  The variables the closure of \<open>once\<close> holds: whether \<open>f\<close> still is the function, whether it is running,
  and the result. The function runs between \<open>running = true\<close> and the \<open>finally\<close> block and may call the
  wrapper again, so it is given the variables in that state.
\<close>

record 'r once_vars =
  onceF :: bool
  onceRunning :: bool
  onceResult :: "'r option"

definition once_init :: "'r once_vars" where
  "once_init = \<lparr>onceF = True, onceRunning = False, onceResult = None\<rparr>"

definition once_call :: "('a \<Rightarrow> 'r once_vars \<times> 'w \<Rightarrow> (js_error + 'r option) \<times> 'r once_vars \<times> 'w) \<Rightarrow> 'a
    \<Rightarrow> 'r once_vars \<times> 'w \<Rightarrow> (js_error + 'r option) \<times> 'r once_vars \<times> 'w" where
  "once_call fn args st =
     (let (vars, w) = st
      in if onceF vars
         then if onceRunning vars then (Inl TypeError, vars, w)
              else case fn args (vars\<lparr>onceRunning := True\<rparr>, w) of
                     (Inl e, vars1, w1) \<Rightarrow> (Inl e, vars1\<lparr>onceRunning := False\<rparr>, w1)
                   | (Inr r, vars1, w1) \<Rightarrow>
                       (Inr r, vars1\<lparr>onceResult := r, onceF := False, onceRunning := False\<rparr>, w1)
         else (Inr (onceResult vars), vars, w))"

text \<open>
  All a function can do to the variables is call the wrapper, which while it runs throws and changes
  nothing.
\<close>

lemma once_reentry: "onceF vars \<Longrightarrow> onceRunning vars \<Longrightarrow> once_call fn a (vars, w) = (Inl TypeError, vars, w)"
  by (simp add: once_call_def)

definition only_calls :: "('a \<Rightarrow> 'r once_vars \<times> 'w \<Rightarrow> (js_error + 'r option) \<times> 'r once_vars \<times> 'w) \<Rightarrow> bool" where
  "only_calls fn \<longleftrightarrow> (\<forall>a vars w. onceF vars \<longrightarrow> onceRunning vars \<longrightarrow> fst (snd (fn a (vars, w))) = vars)"

section \<open>Properties\<close>

text \<open>
  C38. Memoizing with an \<open>LRUCache\<close> is transparent: a function that computes \<open>f\<close> of its key still
  computes \<open>f\<close> when memoized, whatever the capacity and whatever was evicted, when it throws, when it
  returns \<open>undefined\<close>, and when it calls the memoized function on the same cache while it runs.
\<close>

theorem memoize_lru_transparent:
  assumes "fn_computes lru_ok lru_view key f fn"
  shows "fn_computes lru_ok lru_view key f (memoized lru_get lru_has lru_set key fn)"
  using assms by (rule lru_memo.memoized_computes)

definition square_fn :: "nat \<Rightarrow> (nat, nat) lru \<times> nat \<Rightarrow> (js_error + nat option) \<times> (nat, nat) lru \<times> nat" where
  "square_fn a st =
     (if a = 3 then Inl TypeError else Inr (if a = 0 then None else Some (a * a)), fst st, Suc (snd st))"

definition square :: "nat \<Rightarrow> nat option" where
  "square a = (if a = 0 then None else Some (a * a))"

lemma square_fn_computes: "fn_computes lru_ok lru_view id square square_fn"
  by (auto simp: fn_computes_def square_fn_def square_def)

theorem memoize_lru_transparent_witness:
  "fn_computes lru_ok lru_view id square (memoized lru_get lru_has lru_set id square_fn)"
  by (rule memoize_lru_transparent[OF square_fn_computes])

text \<open>A function that does not touch the cache, and logs the keys it is run for.\<close>

definition logging :: "('a \<Rightarrow> 'k) \<Rightarrow> ('k \<Rightarrow> 'r option) \<Rightarrow> 'a \<Rightarrow> ('k, 'r) js_map \<times> 'k list
    \<Rightarrow> (js_error + 'r option) \<times> ('k, 'r) js_map \<times> 'k list" where
  "logging key f a st = (Inr (f (key a)), fst st, snd st @ [key a])"

lemma memo_log_step:
  assumes "\<forall>k v. m k = Some v \<longrightarrow> v = f k" "dom m = set log" "distinct log"
    "memoized jmap_get jmap_has jmap_set key (logging key f) a (m, log) = (r, m', log')"
  shows "r = Inr (f (key a)) \<and> (\<forall>k v. m' k = Some v \<longrightarrow> v = f k) \<and> dom m' = set log' \<and> distinct log' \<and>
    set log' = insert (key a) (set log)"
proof (cases "m (key a)")
  case None
  then have "key a \<notin> set log" using assms(2) by auto
  moreover have "r = Inr (f (key a)) \<and> m' = m(key a \<mapsto> f (key a)) \<and> log' = log @ [key a]"
    using assms(4) jmap_memo.memoized_miss[of m key a "logging key f" log] None
    by (auto simp: logging_def jmap_get_def jmap_set_def)
  ultimately show ?thesis using assms(1-3) by (auto simp: dom_fun_upd simp del: dom_def split: if_splits)
next
  case (Some v)
  then have "key a \<in> set log" using assms(2) by auto
  then show ?thesis
    using assms jmap_memo.memoized_hit[of m key a v "logging key f" log] Some
    by (auto simp: jmap_get_def)
qed

lemma memo_log_session:
  assumes "\<forall>k v. m k = Some v \<longrightarrow> v = f k" "dom m = set log" "distinct log"
  shows "fst (run_calls (memoized jmap_get jmap_has jmap_set key (logging key f)) as (m, log))
      = map (\<lambda>a. Inr (f (key a))) as \<and>
    distinct (snd (snd (run_calls (memoized jmap_get jmap_has jmap_set key (logging key f)) as (m, log)))) \<and>
    set (snd (snd (run_calls (memoized jmap_get jmap_has jmap_set key (logging key f)) as (m, log))))
      = set log \<union> key ` set as"
  using assms
proof (induction as arbitrary: m log)
  case (Cons a as)
  obtain r m' log' where c:
    "memoized jmap_get jmap_has jmap_set key (logging key f) a (m, log) = (r, m', log')"
    by (cases "memoized jmap_get jmap_has jmap_set key (logging key f) a (m, log)")
  then show ?case using memo_log_step[OF Cons.prems c] Cons.IH[of m' log'] by auto
qed simp

definition memo_trace :: "('a \<Rightarrow> 'k) \<Rightarrow> ('k \<Rightarrow> 'r option) \<Rightarrow> 'a list
    \<Rightarrow> (js_error + 'r option) list \<times> ('k, 'r) js_map \<times> 'k list" where
  "memo_trace key f as = run_calls (memoized jmap_get jmap_has jmap_set key (logging key f)) as (Map.empty, [])"

text \<open>
  With the default \<open>Map\<close> every call of a session returns the function's value, \<open>undefined\<close> included,
  and the function is run exactly once for each key that occurs.
\<close>

theorem memoize_map_runs_once:
  "fst (memo_trace key f as) = map (\<lambda>a. Inr (f (key a))) as \<and>
   distinct (snd (snd (memo_trace key f as))) \<and> set (snd (snd (memo_trace key f as))) = key ` set as"
  unfolding memo_trace_def using memo_log_session[of Map.empty f "[]" key as] by simp

text \<open>What \<open>once\<close> may answer: errors, then one result for ever; and how often it runs the function.\<close>

fun once_stable :: "(js_error + 'r option) list \<Rightarrow> bool" where
  "once_stable [] = True"
| "once_stable (Inl e # rs) = once_stable rs"
| "once_stable (Inr v # rs) = (\<forall>r \<in> set rs. r = Inr v)"

fun once_runs :: "(js_error + 'r option) list \<Rightarrow> (js_error + 'r option) list" where
  "once_runs [] = []"
| "once_runs (Inl e # rs) = Inl e # once_runs rs"
| "once_runs (Inr v # rs) = [Inr v]"

text \<open>The function with a log of its outcomes added to its world.\<close>

definition logged :: "('a \<Rightarrow> 'r once_vars \<times> 'w \<Rightarrow> (js_error + 'r option) \<times> 'r once_vars \<times> 'w)
    \<Rightarrow> 'a \<Rightarrow> 'r once_vars \<times> 'w \<times> (js_error + 'r option) list
    \<Rightarrow> (js_error + 'r option) \<times> 'r once_vars \<times> 'w \<times> (js_error + 'r option) list" where
  "logged fn a st =
     (let (r, vars, w) = fn a (fst st, fst (snd st)) in (r, vars, w, snd (snd st) @ [r]))"

lemma once_done:
  assumes "\<not> onceF vars"
  shows "run_calls (once_call fn) as (vars, w) = (map (\<lambda>_. Inr (onceResult vars)) as, vars, w)"
  using assms by (induction as) (simp_all add: once_call_def)

lemma once_session:
  assumes "only_calls fn" "onceF vars" "\<not> onceRunning vars"
  shows "once_stable (fst (run_calls (once_call (logged fn)) as (vars, w, log))) \<and>
    snd (snd (snd (run_calls (once_call (logged fn)) as (vars, w, log))))
      = log @ once_runs (fst (run_calls (once_call (logged fn)) as (vars, w, log)))"
  using assms(2,3)
proof (induction as arbitrary: vars w log)
  case (Cons a as)
  obtain r vars1 w1 where fn: "fn a (vars\<lparr>onceRunning := True\<rparr>, w) = (r, vars1, w1)"
    by (cases "fn a (vars\<lparr>onceRunning := True\<rparr>, w)")
  have "fst (snd (fn a (vars\<lparr>onceRunning := True\<rparr>, w))) = vars\<lparr>onceRunning := True\<rparr>"
    using assms(1) Cons.prems(1) by (simp add: only_calls_def)
  then have vars1: "vars1 = vars\<lparr>onceRunning := True\<rparr>" using fn by simp
  show ?case
  proof (cases r)
    case (Inl e)
    then have "once_call (logged fn) a (vars, w, log) =
        (Inl e, vars\<lparr>onceRunning := False\<rparr>, w1, log @ [Inl e])"
      using Cons.prems fn vars1 by (simp add: once_call_def logged_def)
    then show ?thesis using Cons.IH[of "vars\<lparr>onceRunning := False\<rparr>" w1 "log @ [Inl e]"] Cons.prems by simp
  next
    case (Inr v)
    let ?vars = "vars\<lparr>onceRunning := True, onceResult := v, onceF := False, onceRunning := False\<rparr>"
    have "once_call (logged fn) a (vars, w, log) = (Inr v, ?vars, w1, log @ [Inr v])"
      using Cons.prems fn vars1 Inr by (simp add: once_call_def logged_def)
    then show ?thesis using once_done[of ?vars "logged fn" as "(w1, log @ [Inr v])"] by simp
  qed
qed simp

text \<open>
  \<open>once\<close>: in every sequence of calls the first successful run of the function fixes the result of all
  later calls, a run that throws is retried by the next call, and the function is run exactly once
  per error and once for the result. The function may call the wrapper while it runs (and then gets a
  \<open>TypeError\<close>), but cannot reach its variables otherwise.
\<close>

theorem once_runs_until_success:
  assumes "only_calls fn"
  shows "once_stable (fst (run_calls (once_call (logged fn)) as (once_init, w, []))) \<and>
    snd (snd (snd (run_calls (once_call (logged fn)) as (once_init, w, []))))
      = once_runs (fst (run_calls (once_call (logged fn)) as (once_init, w, [])))"
  using once_session[OF assms, of once_init as w "[]"] by (simp add: once_init_def)

text \<open>A function that calls the wrapper while it runs, and throws on its first two runs.\<close>

definition flaky :: "nat \<Rightarrow> nat once_vars \<times> nat \<Rightarrow> (js_error + nat option) \<times> nat once_vars \<times> nat" where
  "flaky a st =
     (case once_call (\<lambda>_ st. (Inr None, st)) a st of
        (Inl e, vars, w) \<Rightarrow> (if w < 2 then Inl e else Inr (Some a), vars, Suc w)
      | (Inr r, vars, w) \<Rightarrow> (Inr r, vars, w))"

lemma flaky_only_calls: "only_calls flaky"
  by (simp add: only_calls_def flaky_def once_call_def)

theorem once_runs_until_success_witness:
  "fst (run_calls (once_call (logged flaky)) [5, 6, 7, 8, 9] (once_init, 0, []))
     = [Inl TypeError, Inl TypeError, Inr (Some 7), Inr (Some 7), Inr (Some 7)] \<and>
   snd (snd (snd (run_calls (once_call (logged flaky)) [5, 6, 7, 8, 9] (once_init, 0, []))))
     = [Inl TypeError, Inl TypeError, Inr (Some 7)]"
proof -
  have "fst (run_calls (once_call (logged flaky)) [5, 6, 7, 8, 9] (once_init, 0, []))
     = [Inl TypeError, Inl TypeError, Inr (Some 7), Inr (Some 7), Inr (Some 7)]"
    by (simp add: once_call_def logged_def flaky_def once_init_def)
  then show ?thesis
    using once_runs_until_success[OF flaky_only_calls, of "[5, 6, 7, 8, 9]" 0] by simp
qed

end
