(* ===== verification/RadixTree.thy ===== *)
theory RadixTree
  imports JsPrelude "HOL-Library.Sublist" "HOL-Library.List_Lexorder"
begin

text \<open>
  \<open>src/src/RadixTree.ts\<close>: the compressed trie. A string is the list of its UTF-16 code units. Nodes are
  owned by one parent, so the in-place updates of the code are updates of a tree value; where the
  code keeps a path of (node, index) pairs to come back to, the model keeps the path of indices. A
  value \<open>undefined\<close> means that there is none, so a stored value is an option.

  The binary searches take the middle of two indices by \<open>>>> 1\<close>; the model writes \<open>div 2\<close>, which is the
  same below \<open>2 ^ 32\<close> (\<open>radix_mid\<close>): children begin with different code units, so they are at most
  65536 (\<open>radix_children_bound\<close>).
\<close>

section \<open>State and operations\<close>

datatype 'v radix_node =
  RNode (kPrefix: "nat list") (kValue: "'v option") (kChildren: "'v radix_node list")

record 'v radix_tree =
  kRoot :: "'v radix_node"
  kSize :: int

definition radix_makeNode :: "nat list \<Rightarrow> 'v option \<Rightarrow> 'v radix_node" where
  "radix_makeNode pre v = RNode pre v []"

definition radix_make :: "'v radix_tree" where
  "radix_make = \<lparr>kRoot = radix_makeNode [] None, kSize = 0\<rparr>"

text \<open>\<open>charCodeAt\<close>: \<^term>\<open>None\<close> is \<open>NaN\<close>, equal to no number and not less than any.\<close>

definition code_at :: "nat list \<Rightarrow> nat \<Rightarrow> nat option" where
  "code_at s i = (if i < length s then Some (s ! i) else None)"

definition code_less :: "nat option \<Rightarrow> nat \<Rightarrow> bool" where
  "code_less c d = (case c of None \<Rightarrow> False | Some x \<Rightarrow> x < d)"

function radix_find_loop :: "'v radix_node list \<Rightarrow> nat \<Rightarrow> int \<Rightarrow> int \<Rightarrow> int" where
  "radix_find_loop children char lo hi =
     (if lo \<le> hi
      then let mid = (lo + hi) div 2;
               midChar = code_at (kPrefix (children ! nat mid)) 0
           in if midChar = Some char then mid
              else if code_less midChar char then radix_find_loop children char (mid + 1) hi
              else radix_find_loop children char lo (mid - 1)
      else - 1)"
  by pat_completeness auto
termination
  by (relation "measure (\<lambda>(children, char, lo, hi). nat (hi - lo + 1))") auto

definition radix_findChild :: "'v radix_node list \<Rightarrow> nat \<Rightarrow> int" where
  "radix_findChild children char = radix_find_loop children char 0 (js_len children - 1)"

function radix_insertion_loop :: "'v radix_node list \<Rightarrow> nat \<Rightarrow> int \<Rightarrow> int \<Rightarrow> int" where
  "radix_insertion_loop children char lo hi =
     (if lo < hi
      then let mid = (lo + hi) div 2
           in if code_less (code_at (kPrefix (children ! nat mid)) 0) char
              then radix_insertion_loop children char (mid + 1) hi
              else radix_insertion_loop children char lo mid
      else lo)"
  by pat_completeness auto
termination
  by (relation "measure (\<lambda>(children, char, lo, hi). nat (hi - lo))") auto

definition radix_findInsertionIndex :: "'v radix_node list \<Rightarrow> nat \<Rightarrow> int" where
  "radix_findInsertionIndex children char = radix_insertion_loop children char 0 (js_len children)"

declare radix_find_loop.simps [simp del] radix_insertion_loop.simps [simp del]

lemma radix_find_range:
  "0 \<le> lo \<Longrightarrow> radix_find_loop cs ch lo hi = - 1 \<or>
   lo \<le> radix_find_loop cs ch lo hi \<and> radix_find_loop cs ch lo hi \<le> hi"
proof (induction cs ch lo hi rule: radix_find_loop.induct)
  case (1 cs ch lo hi)
  let ?mid = "(lo + hi) div 2"
  show ?case
  proof (cases "lo \<le> hi")
    case True
    then have mid: "lo \<le> ?mid" "?mid \<le> hi" by auto
    consider (hit) "code_at (kPrefix (cs ! nat ?mid)) 0 = Some ch"
      | (less) "code_at (kPrefix (cs ! nat ?mid)) 0 \<noteq> Some ch" "code_less (code_at (kPrefix (cs ! nat ?mid)) 0) ch"
      | (greater) "code_at (kPrefix (cs ! nat ?mid)) 0 \<noteq> Some ch" "\<not> code_less (code_at (kPrefix (cs ! nat ?mid)) 0) ch"
      by blast
    then show ?thesis
    proof cases
      case hit
      then show ?thesis using True mid by (simp add: radix_find_loop.simps[of cs ch lo hi])
    next
      case less
      then have "radix_find_loop cs ch lo hi = radix_find_loop cs ch (?mid + 1) hi"
        using True by (simp add: radix_find_loop.simps[of cs ch lo hi])
      then show ?thesis using 1(1)[OF True refl refl less] mid 1(3) by auto
    next
      case greater
      then have "radix_find_loop cs ch lo hi = radix_find_loop cs ch lo (?mid - 1)"
        using True by (simp add: radix_find_loop.simps[of cs ch lo hi])
      then show ?thesis using 1(2)[OF True refl refl greater] mid 1(3) by auto
    qed
  qed (simp add: radix_find_loop.simps[of cs ch lo hi])
qed

text \<open>\<open>children.splice(idx, 0, node)\<close>.\<close>

definition splice_in :: "'a list \<Rightarrow> int \<Rightarrow> 'a \<Rightarrow> 'a list" where
  "splice_in xs i x = take (nat i) xs @ x # drop (nat i) xs"

text \<open>The length of the common prefix, the \<open>for\<close> loop over \<open>commonLen\<close>.\<close>

fun radix_common :: "nat list \<Rightarrow> nat list \<Rightarrow> nat" where
  "radix_common (x # xs) (y # ys) = (if x \<noteq> y then 0 else Suc (radix_common xs ys))"
| "radix_common _ _ = 0"

text \<open>A partial match: the child is split at \<open>commonLen\<close>.\<close>

definition radix_split :: "'v radix_node \<Rightarrow> nat \<Rightarrow> nat list \<Rightarrow> 'v \<Rightarrow> 'v radix_node" where
  "radix_split child commonLen remaining value =
     (let childPrefix = kPrefix child;
          child1 = RNode (drop commonLen childPrefix) (kValue child) (kChildren child);
          splitPrefix = take commonLen childPrefix
      in if commonLen = length remaining then RNode splitPrefix (Some value) [child1]
         else let leafNode = radix_makeNode (drop commonLen remaining) (Some value);
                  leafIdx = radix_findInsertionIndex [child1] (the (code_at (kPrefix leafNode) 0))
              in RNode splitPrefix None (splice_in [child1] leafIdx leafNode))"

lemma radix_child_size:
  "radix_findChild (kChildren node) ch \<noteq> - 1 \<Longrightarrow>
   size (kChildren node ! nat (radix_findChild (kChildren node) ch)) < size node"
proof -
  let ?i = "radix_findChild (kChildren node) ch"
  assume "?i \<noteq> - 1"
  then have "0 \<le> ?i" "?i < int (length (kChildren node))"
    using radix_find_range[of 0 "kChildren node" ch "js_len (kChildren node) - 1"]
    by (auto simp: radix_findChild_def js_len_def)
  then have "kChildren node ! nat ?i \<in> set (kChildren node)" by simp
  then show ?thesis by (cases node) (auto dest!: size_list_estimation'[where y = "size (kChildren node ! nat ?i)" and f = size])
qed

text \<open>The walk of \<open>insert\<close> from a node; the second component tells whether the size grew.\<close>

function radix_insert_at :: "'v radix_node \<Rightarrow> nat list \<Rightarrow> 'v \<Rightarrow> 'v radix_node \<times> bool" where
  "radix_insert_at node remaining value =
     (if remaining = [] then (RNode (kPrefix node) (Some value) (kChildren node), kValue node = None)
      else let children = kChildren node; firstChar = hd remaining;
               childIdx = radix_findChild children firstChar
           in if childIdx = - 1
              then (RNode (kPrefix node) (kValue node)
                      (splice_in children (radix_findInsertionIndex children firstChar)
                        (radix_makeNode remaining (Some value))), True)
              else let child = children ! nat childIdx;
                       commonLen = radix_common remaining (kPrefix child)
                   in if commonLen = length (kPrefix child)
                      then let (child1, added) = radix_insert_at child (drop commonLen remaining) value
                           in (RNode (kPrefix node) (kValue node) (children[nat childIdx := child1]), added)
                      else (RNode (kPrefix node) (kValue node)
                              (children[nat childIdx := radix_split child commonLen remaining value]), True))"
  by pat_completeness auto
termination
  by (relation "measure (\<lambda>(node, remaining, value). size node)") (auto dest: radix_child_size)

declare radix_insert_at.simps [simp del]

text \<open>The loop that compares a child's prefix with the key from an offset on.\<close>

definition radix_matches :: "nat list \<Rightarrow> nat \<Rightarrow> nat list \<Rightarrow> bool" where
  "radix_matches key pos pre = list_all (\<lambda>i. code_at key (pos + i) = code_at pre i) [0..<length pre]"

text \<open>\<open>lookup\<close> walks by an offset into the key.\<close>

function radix_lookup_at :: "'v radix_node \<Rightarrow> nat list \<Rightarrow> nat \<Rightarrow> 'v option" where
  "radix_lookup_at node key pos =
     (if pos = length key then kValue node
      else let children = kChildren node;
               childIdx = (case code_at key pos of None \<Rightarrow> - 1 | Some c \<Rightarrow> radix_findChild children c)
           in if childIdx = - 1 then None
              else let child = children ! nat childIdx; plen = length (kPrefix child)
                   in if length key - pos < plen then None
                      else if \<not> radix_matches key pos (kPrefix child) then None
                      else radix_lookup_at child key (pos + plen))"
  by pat_completeness auto
termination
  by (relation "measure (\<lambda>(node, key, pos). size node)") (auto split: option.splits dest: radix_child_size)

declare radix_lookup_at.simps [simp del]

definition radix_lookup :: "'v radix_tree \<Rightarrow> nat list \<Rightarrow> 'v option" where
  "radix_lookup tree key = radix_lookup_at (kRoot tree) key 0"

definition radix_has :: "'v radix_tree \<Rightarrow> nat list \<Rightarrow> bool" where
  "radix_has tree key \<longleftrightarrow> radix_lookup tree key \<noteq> None"

definition radix_size :: "'v radix_tree \<Rightarrow> int" where
  "radix_size tree = kSize tree"

definition radix_insert_value :: "'v radix_tree \<Rightarrow> nat list \<Rightarrow> 'v \<Rightarrow> 'v radix_tree" where
  "radix_insert_value tree key value =
     (let (root1, added) = radix_insert_at (kRoot tree) key value
      in \<lparr>kRoot = root1, kSize = (if added then kSize tree + 1 else kSize tree)\<rparr>)"

text \<open>
  \<open>remove\<close>: the walk down records the child indices it takes; \<^term>\<open>None\<close> is the \<open>return false\<close> on the
  way. \<open>remaining.length < childPrefix.length\<close> and the comparison that follows are those of \<open>lookup\<close>.
\<close>

function radix_walk :: "'v radix_node \<Rightarrow> nat list \<Rightarrow> nat list option" where
  "radix_walk node remaining =
     (if remaining = [] then Some []
      else let children = kChildren node;
               childIdx = radix_findChild children (hd remaining)
           in if childIdx = - 1 then None
              else let child = children ! nat childIdx; childPrefix = kPrefix child
                   in if length remaining < length childPrefix then None
                      else if \<not> radix_matches remaining 0 childPrefix then None
                      else map_option ((#) (nat childIdx))
                             (radix_walk child (drop (length childPrefix) remaining)))"
  by pat_completeness auto
termination
  by (relation "measure (\<lambda>(node, remaining). size node)") (auto dest: radix_child_size)

declare radix_walk.simps [simp del]

text \<open>The node at a path, and the tree with that node replaced.\<close>

fun node_at :: "'v radix_node \<Rightarrow> nat list \<Rightarrow> 'v radix_node" where
  "node_at node [] = node"
| "node_at node (i # is) = node_at (kChildren node ! i) is"

fun set_at :: "'v radix_node \<Rightarrow> nat list \<Rightarrow> 'v radix_node \<Rightarrow> 'v radix_node" where
  "set_at node [] new = new"
| "set_at node (i # is) new =
     RNode (kPrefix node) (kValue node) ((kChildren node)[i := set_at (kChildren node ! i) is new])"

text \<open>\<open>splice(idx, 1)\<close>, and the merge of a node with its only child.\<close>

definition splice_out :: "'a list \<Rightarrow> nat \<Rightarrow> 'a list" where
  "splice_out xs i = take i xs @ drop (Suc i) xs"

definition radix_absorb :: "'v radix_node \<Rightarrow> 'v radix_node" where
  "radix_absorb node =
     (let onlyChild = kChildren node ! 0
      in RNode (kPrefix node @ kPrefix onlyChild) (kValue onlyChild) (kChildren onlyChild))"

definition radix_merge_pass :: "'v radix_node \<Rightarrow> nat list \<Rightarrow> 'v radix_node" where
  "radix_merge_pass root path =
     (let node = node_at root path
      in if kChildren node = [] \<and> path \<noteq> []
         then let parent = node_at root (butlast path);
                  parent1 = RNode (kPrefix parent) (kValue parent) (splice_out (kChildren parent) (last path));
                  parent2 = (if length path \<ge> 2 \<and> kValue parent1 = None \<and> length (kChildren parent1) = 1
                             then radix_absorb parent1 else parent1)
              in set_at root (butlast path) parent2
         else if length (kChildren node) = 1 \<and> path \<noteq> [] then set_at root path (radix_absorb node)
         else root)"

definition radix_remove :: "'v radix_tree \<Rightarrow> nat list \<Rightarrow> bool \<times> 'v radix_tree" where
  "radix_remove tree key =
     (case radix_walk (kRoot tree) key of None \<Rightarrow> (False, tree)
      | Some path \<Rightarrow>
          let node = node_at (kRoot tree) path
          in if kValue node = None then (False, tree)
             else let root1 = set_at (kRoot tree) path (RNode (kPrefix node) None (kChildren node))
                  in (True, \<lparr>kRoot = radix_merge_pass root1 path, kSize = kSize tree - 1\<rparr>))"

definition radix_insert :: "'v radix_tree \<Rightarrow> nat list \<Rightarrow> 'v option \<Rightarrow> 'v radix_tree" where
  "radix_insert tree key value =
     (case value of None \<Rightarrow> snd (radix_remove tree key) | Some v \<Rightarrow> radix_insert_value tree key v)"

text \<open>
  \<open>entries\<close> and \<open>prefixMatch\<close>: a depth-first search with an explicit stack, its top at the head of the
  list. The two stacks of \<open>entries\<close> move together, so they are one stack of pairs.
\<close>

function radix_entries_loop :: "('v radix_node \<times> nat list) list \<Rightarrow> (nat list \<times> 'v) list" where
  "radix_entries_loop [] = []"
| "radix_entries_loop ((current, accKey) # stack) =
     (case kValue current of None \<Rightarrow> [] | Some v \<Rightarrow> [(accKey, v)]) @
     radix_entries_loop (map (\<lambda>c. (c, accKey @ kPrefix c)) (kChildren current) @ stack)"
  by pat_completeness auto

lemma node_size: "sum_list (map size (kChildren node)) < size node"
proof (cases node)
  case (RNode p v cs)
  have "sum_list (map size cs) \<le> size_list size cs" by (induction cs) auto
  then show ?thesis using RNode by simp
qed

termination radix_entries_loop
  by (relation "measure (\<lambda>stack. sum_list (map (size \<circ> fst) stack))") (auto simp: comp_def node_size)

definition radix_entries :: "'v radix_tree \<Rightarrow> (nat list \<times> 'v) list" where
  "radix_entries tree = radix_entries_loop [(kRoot tree, [])]"

function radix_values_loop :: "'v radix_node list \<Rightarrow> 'v list" where
  "radix_values_loop [] = []"
| "radix_values_loop (current # stack) =
     (case kValue current of None \<Rightarrow> [] | Some v \<Rightarrow> [v]) @ radix_values_loop (kChildren current @ stack)"
  by pat_completeness auto
termination
  by (relation "measure (\<lambda>stack. sum_list (map size stack))") (auto simp: node_size)

text \<open>The walk of \<open>prefixMatch\<close>: the prefix may end inside the prefix of a child.\<close>

function radix_prefix_walk :: "'v radix_node \<Rightarrow> nat list \<Rightarrow> 'v radix_node option" where
  "radix_prefix_walk node remaining =
     (if remaining = [] then Some node
      else let children = kChildren node;
               childIdx = radix_findChild children (hd remaining)
           in if childIdx = - 1 then None
              else let child = children ! nat childIdx; childPrefix = kPrefix child
                   in if length remaining < length childPrefix
                      then if \<not> radix_matches childPrefix 0 remaining then None else Some child
                      else if \<not> radix_matches remaining 0 childPrefix then None
                      else radix_prefix_walk child (drop (length childPrefix) remaining))"
  by pat_completeness auto
termination
  by (relation "measure (\<lambda>(node, remaining). size node)") (auto dest: radix_child_size)

declare radix_prefix_walk.simps [simp del]

definition radix_prefixMatch :: "'v radix_tree \<Rightarrow> nat list \<Rightarrow> 'v list" where
  "radix_prefixMatch tree pre =
     (case radix_prefix_walk (kRoot tree) pre of None \<Rightarrow> [] | Some node \<Rightarrow> radix_values_loop [node])"

text \<open>The middle index: \<open>>>> 1\<close> and \<open>div 2\<close> agree, and children are few.\<close>

lemma radix_mid: "0 \<le> lo \<Longrightarrow> 0 \<le> hi \<Longrightarrow> lo + hi < 2 ^ 32 \<Longrightarrow> js_ushr (lo + hi) 1 = (lo + hi) div 2"
  using js_ushr_div[of "lo + hi" 1] by simp

section \<open>Well-formed tries and what they hold\<close>

text \<open>Children have non-empty prefixes with strictly increasing first units.\<close>

definition first :: "'v radix_node \<Rightarrow> nat" where
  "first c = hd (kPrefix c)"

definition siblings :: "'v radix_node list \<Rightarrow> bool" where
  "siblings cs \<longleftrightarrow> (\<forall>c\<in>set cs. kPrefix c \<noteq> []) \<and> sorted_wrt (<) (map first cs)"

inductive radix_wf :: "'v radix_node \<Rightarrow> bool" where
  "siblings cs \<Longrightarrow> \<forall>c\<in>set cs. radix_wf c \<Longrightarrow> radix_wf (RNode p v cs)"

inductive_simps radix_wf_RNode: "radix_wf (RNode p v cs)"

inductive binds :: "'v radix_node \<Rightarrow> nat list \<Rightarrow> 'v \<Rightarrow> bool" where
  here: "binds (RNode p (Some v) cs) [] v"
| below: "c \<in> set cs \<Longrightarrow> binds c k v \<Longrightarrow> binds (RNode p w cs) (kPrefix c @ k) v"

inductive_simps binds_RNode: "binds (RNode p w cs) k v"

text \<open>With the node's own prefix.\<close>

definition full :: "'v radix_node \<Rightarrow> nat list \<Rightarrow> 'v \<Rightarrow> bool" where
  "full n k v \<longleftrightarrow> (\<exists>k'. k = kPrefix n @ k' \<and> binds n k' v)"

lemma binds_node:
  "binds n k v \<longleftrightarrow> k = [] \<and> kValue n = Some v \<or> (\<exists>c\<in>set (kChildren n). full c k v)"
  by (cases n) (auto simp: binds_RNode full_def)

lemma binds_full: "binds (RNode p w cs) k v \<longleftrightarrow> k = [] \<and> w = Some v \<or> (\<exists>c\<in>set cs. full c k v)"
  using binds_node[of "RNode p w cs"] by simp

lemma radix_wf_node: "radix_wf n \<longleftrightarrow> siblings (kChildren n) \<and> (\<forall>c\<in>set (kChildren n). radix_wf c)"
  by (cases n) (simp add: radix_wf_RNode)

lemma full_hd: "full c k v \<Longrightarrow> kPrefix c \<noteq> [] \<Longrightarrow> k \<noteq> [] \<and> hd k = hd (kPrefix c)"
  by (auto simp: full_def)

lemma radix_children_bound:
  assumes "siblings cs" "\<And>c. c \<in> set cs \<Longrightarrow> first c < 65536"
  shows "length cs \<le> 65536"
proof -
  have "distinct (map first cs)" using assms(1) by (simp add: siblings_def strict_sorted_iff)
  then have "length cs = card (set (map first cs))" using distinct_card by fastforce
  also have "\<dots> \<le> card {..<65536::nat}" using assms(2) by (intro card_mono) auto
  finally show ?thesis by simp
qed

subsection \<open>The binary searches\<close>

lemma code_at_first: "siblings cs \<Longrightarrow> i < length cs \<Longrightarrow> code_at (kPrefix (cs ! i)) 0 = Some (first (cs ! i))"
  by (metis nth_mem siblings_def code_at_def first_def hd_conv_nth length_greater_0_conv)

lemma siblings_less: "siblings cs \<Longrightarrow> i < j \<Longrightarrow> j < length cs \<Longrightarrow> first (cs ! i) < first (cs ! j)"
  by (auto simp: siblings_def sorted_wrt_iff_nth_less)

lemma siblings_unique:
  assumes "siblings cs" "i < length cs" "j < length cs" "first (cs ! i) = first (cs ! j)"
  shows "i = j"
  using siblings_less[OF assms(1), of i j] siblings_less[OF assms(1), of j i] assms(2-4)
  by (metis nat_neq_iff less_irrefl)

lemma radix_find_loop_ok:
  "siblings cs \<Longrightarrow> 0 \<le> lo \<Longrightarrow> hi < int (length cs) \<Longrightarrow>
   \<forall>i<length cs. int i < lo \<longrightarrow> first (cs ! i) < ch \<Longrightarrow> \<forall>i<length cs. hi < int i \<longrightarrow> ch < first (cs ! i) \<Longrightarrow>
   (radix_find_loop cs ch lo hi = - 1 \<and> (\<forall>i<length cs. first (cs ! i) \<noteq> ch)) \<or>
   (\<exists>i<length cs. radix_find_loop cs ch lo hi = int i \<and> first (cs ! i) = ch)"
proof (induction cs ch lo hi rule: radix_find_loop.induct)
  case (1 cs ch lo hi)
  let ?mid = "(lo + hi) div 2"
  note unf = radix_find_loop.simps[of cs ch lo hi]
  show ?case
  proof (cases "lo \<le> hi")
    case False
    then have "first (cs ! i) \<noteq> ch" if "i < length cs" for i
      using 1(6,7) that by (cases "int i < lo") force+
    then show ?thesis using False unf by simp
  next
    case True
    obtain m where m: "?mid = int m" "m < length cs" "lo \<le> int m" "int m \<le> hi"
      using True 1(4,5) by (intro that[of "nat ?mid"]) auto
    have at: "code_at (kPrefix (cs ! m)) 0 = Some (first (cs ! m))" using 1(3) m(2) by (rule code_at_first)
    consider "first (cs ! m) = ch" | "first (cs ! m) < ch" | "ch < first (cs ! m)" by linarith
    then show ?thesis
    proof cases
      case 1
      then show ?thesis using True unf at m by auto
    next
      case 2
      have "\<forall>i<length cs. int i < ?mid + 1 \<longrightarrow> first (cs ! i) < ch"
      proof (intro allI impI)
        fix i assume "i < length cs" "int i < ?mid + 1"
        then show "first (cs ! i) < ch"
          using 2 m siblings_less[OF 1(3), of i m] by (cases "i = m") auto
      qed
      moreover have "radix_find_loop cs ch lo hi = radix_find_loop cs ch (?mid + 1) hi"
        using True unf at m 2 by (simp add: code_less_def)
      ultimately show ?thesis
        using 1(1)[OF True refl refl] 1(3-7) m at 2 by (simp add: code_less_def)
    next
      case 3
      have "\<forall>i<length cs. ?mid - 1 < int i \<longrightarrow> ch < first (cs ! i)"
      proof (intro allI impI)
        fix i assume "i < length cs" "?mid - 1 < int i"
        then show "ch < first (cs ! i)"
          using 3 m siblings_less[OF 1(3), of m i] by (cases "i = m") auto
      qed
      moreover have "radix_find_loop cs ch lo hi = radix_find_loop cs ch lo (?mid - 1)"
        using True unf at m 3 by (simp add: code_less_def)
      ultimately show ?thesis
        using 1(2)[OF True refl refl] 1(3-7) m at 3 by (simp add: code_less_def)
    qed
  qed
qed

lemma radix_find_cases:
  assumes "siblings cs"
  obtains (none) "radix_findChild cs ch = - 1" "\<And>c. c \<in> set cs \<Longrightarrow> first c \<noteq> ch"
    | (found) i where "radix_findChild cs ch = int i" "i < length cs" "first (cs ! i) = ch"
proof -
  have "(radix_findChild cs ch = - 1 \<and> (\<forall>i<length cs. first (cs ! i) \<noteq> ch)) \<or>
    (\<exists>i<length cs. radix_findChild cs ch = int i \<and> first (cs ! i) = ch)"
    unfolding radix_findChild_def using assms by (intro radix_find_loop_ok) (auto simp: js_len_def)
  then show thesis using none found by (auto simp: in_set_conv_nth)
qed

lemma radix_insertion_loop_ok:
  "siblings cs \<Longrightarrow> 0 \<le> lo \<Longrightarrow> lo \<le> hi \<Longrightarrow> hi \<le> int (length cs) \<Longrightarrow>
   \<forall>i<length cs. int i < lo \<longrightarrow> first (cs ! i) < ch \<Longrightarrow> \<forall>i<length cs. hi \<le> int i \<longrightarrow> ch \<le> first (cs ! i) \<Longrightarrow>
   \<exists>k \<le> length cs. radix_insertion_loop cs ch lo hi = int k \<and>
     (\<forall>i<k. first (cs ! i) < ch) \<and> (\<forall>i<length cs. k \<le> i \<longrightarrow> ch \<le> first (cs ! i))"
proof (induction cs ch lo hi rule: radix_insertion_loop.induct)
  case (1 cs ch lo hi)
  let ?mid = "(lo + hi) div 2"
  note unf = radix_insertion_loop.simps[of cs ch lo hi]
  show ?case
  proof (cases "lo < hi")
    case False
    then show ?thesis using 1(4-8) unf by (intro exI[of _ "nat lo"]) auto
  next
    case True
    obtain m where m: "?mid = int m" "m < length cs" "lo \<le> int m" "int m < hi"
      using True 1(4-6) by (intro that[of "nat ?mid"]) auto
    have at: "code_at (kPrefix (cs ! m)) 0 = Some (first (cs ! m))" using 1(3) m(2) by (rule code_at_first)
    show ?thesis
    proof (cases "first (cs ! m) < ch")
      case less: True
      have "\<forall>i<length cs. int i < ?mid + 1 \<longrightarrow> first (cs ! i) < ch"
      proof (intro allI impI)
        fix i assume "i < length cs" "int i < ?mid + 1"
        then show "first (cs ! i) < ch"
          using less m siblings_less[OF 1(3), of i m] by (cases "i = m") auto
      qed
      moreover have "radix_insertion_loop cs ch lo hi = radix_insertion_loop cs ch (?mid + 1) hi"
        using True unf at m less by (simp add: code_less_def)
      ultimately show ?thesis
        using 1(1)[OF True refl] 1(3-8) m at less by (simp add: code_less_def)
    next
      case False
      have "\<forall>i<length cs. ?mid \<le> int i \<longrightarrow> ch \<le> first (cs ! i)"
      proof (intro allI impI)
        fix i assume "i < length cs" "?mid \<le> int i"
        then show "ch \<le> first (cs ! i)"
          using False m siblings_less[OF 1(3), of m i] by (cases "i = m") auto
      qed
      moreover have "radix_insertion_loop cs ch lo hi = radix_insertion_loop cs ch lo ?mid"
        using True unf at m False by (simp add: code_less_def)
      ultimately show ?thesis
        using 1(2)[OF True refl] 1(3-8) m at False by (simp add: code_less_def)
    qed
  qed
qed

lemma radix_insertion_ok:
  assumes "siblings cs"
  obtains k where "radix_findInsertionIndex cs ch = int k" "k \<le> length cs"
    "\<And>i. i < k \<Longrightarrow> first (cs ! i) < ch" "\<And>i. i < length cs \<Longrightarrow> k \<le> i \<Longrightarrow> ch \<le> first (cs ! i)"
  using radix_insertion_loop_ok[OF assms, of 0 "js_len cs" ch]
  by (auto simp: radix_findInsertionIndex_def js_len_def)

text \<open>Splicing a new first unit in keeps the children sorted.\<close>

lemma siblings_splice_in:
  assumes "siblings cs" "kPrefix n \<noteq> []" "\<And>c. c \<in> set cs \<Longrightarrow> first c \<noteq> first n"
  shows "siblings (splice_in cs (radix_findInsertionIndex cs (first n)) n)"
    "set (splice_in cs (radix_findInsertionIndex cs (first n)) n) = insert n (set cs)"
proof -
  obtain k where k: "radix_findInsertionIndex cs (first n) = int k" "k \<le> length cs"
    "\<And>i. i < k \<Longrightarrow> first (cs ! i) < first n" "\<And>i. i < length cs \<Longrightarrow> k \<le> i \<Longrightarrow> first n \<le> first (cs ! i)"
    using radix_insertion_ok[OF assms(1)] by blast
  have cs: "cs = take k cs @ drop k cs" by simp
  have left: "first c < first n" if "c \<in> set (take k cs)" for c
    using that k(2,3) by (auto simp: in_set_conv_nth)
  have right: "first n < first c" if c: "c \<in> set (drop k cs)" for c
  proof -
    obtain i where "i < length cs - k" "c = cs ! (k + i)" using c k(2) by (auto simp: in_set_conv_nth)
    then have "first n \<le> first c" "c \<in> set cs" using k(4)[of "k + i"] by auto
    then show ?thesis using assms(3)[of c] by simp
  qed
  define l r where "l = take k cs" and "r = drop k cs"
  have lr: "cs = l @ r" "\<And>c. c \<in> set l \<Longrightarrow> first c < first n" "\<And>c. c \<in> set r \<Longrightarrow> first n < first c"
    using left right unfolding l_def r_def by simp_all
  have sp: "splice_in cs (radix_findInsertionIndex cs (first n)) n = l @ n # r"
    using k(1) by (simp add: splice_in_def l_def r_def)
  show "siblings (splice_in cs (radix_findInsertionIndex cs (first n)) n)"
    unfolding sp using assms(1)[unfolded lr(1)] assms(2) lr(2,3) by (auto simp: siblings_def sorted_wrt_append)
  show "set (splice_in cs (radix_findInsertionIndex cs (first n)) n) = insert n (set cs)"
    unfolding sp using arg_cong[OF lr(1), of set] by simp
qed

text \<open>Replacing a child by one that begins with the same unit keeps the order.\<close>

lemma siblings_update:
  assumes "siblings cs" "i < length cs" "kPrefix n \<noteq> []" "first n = first (cs ! i)"
  shows "siblings (cs[i := n])"
  using assms by (auto simp: siblings_def sorted_wrt_iff_nth_less nth_list_update dest!: set_update_subset_insert[THEN subsetD])

lemma siblings_other:
  assumes "siblings cs" "i < length cs" "c \<in> set cs" "first c = first (cs ! i)"
  shows "c = cs ! i"
  using assms siblings_unique[OF assms(1), of _ i] by (metis in_set_conv_nth)

subsection \<open>One step down\<close>

lemma radix_matches_prefix:
  assumes "pos + length pre \<le> length key"
  shows "radix_matches key pos pre \<longleftrightarrow> prefix pre (drop pos key)"
proof -
  have "radix_matches key pos pre \<longleftrightarrow> (\<forall>i<length pre. drop pos key ! i = pre ! i)"
    using assms by (auto simp: radix_matches_def list_all_iff code_at_def)
  also have "\<dots> \<longleftrightarrow> take (length pre) (drop pos key) = pre"
    using assms by (auto simp: list_eq_iff_nth_eq)
  also have "\<dots> \<longleftrightarrow> prefix pre (drop pos key)"
    by (metis append_eq_conv_conj append_take_drop_id prefixE prefixI)
  finally show ?thesis .
qed

lemma full_prefix: "full c k v \<longleftrightarrow> prefix (kPrefix c) k \<and> binds c (drop (length (kPrefix c)) k) v"
  by (auto simp: full_def prefix_def)

lemma binds_Nil: "siblings (kChildren n) \<Longrightarrow> binds n [] v \<longleftrightarrow> kValue n = Some v"
  unfolding binds_node[of n "[]" v] by (auto simp: full_def siblings_def)

lemma full_first: "full c k v \<Longrightarrow> kPrefix c \<noteq> [] \<Longrightarrow> k \<noteq> [] \<and> first c = hd k"
  by (auto simp: full_def first_def)

lemma binds_no_child:
  assumes "siblings (kChildren n)" "k \<noteq> []" "\<And>c. c \<in> set (kChildren n) \<Longrightarrow> first c \<noteq> hd k"
  shows "\<not> binds n k v"
proof
  assume "binds n k v"
  then obtain c where "c \<in> set (kChildren n)" "full c k v"
    using assms(2) unfolding binds_node[of n k v] by blast
  then show False using assms full_first[of c k v] by (auto simp: siblings_def)
qed

lemma binds_child:
  assumes "siblings (kChildren n)" "k \<noteq> []" "i < length (kChildren n)" "first (kChildren n ! i) = hd k"
  shows "binds n k v \<longleftrightarrow> full (kChildren n ! i) k v"
proof -
  have "c = kChildren n ! i" if c: "c \<in> set (kChildren n)" "full c k v" for c
  proof (rule siblings_other[OF assms(1,3) c(1)])
    have "kPrefix c \<noteq> []" using assms(1) c(1) by (simp add: siblings_def)
    then show "first c = first (kChildren n ! i)" using full_first[OF c(2)] assms(4) by simp
  qed
  moreover have "kChildren n ! i \<in> set (kChildren n)" using assms(3) by simp
  ultimately show ?thesis unfolding binds_node[of n k v] using assms(2) by blast
qed

subsection \<open>lookup\<close>

lemma radix_lookup_at_ok:
  "radix_wf n \<Longrightarrow> pos \<le> length key \<Longrightarrow> radix_lookup_at n key pos = Some v \<longleftrightarrow> binds n (drop pos key) v"
proof (induction n key pos rule: radix_lookup_at.induct)
  case (1 n key pos)
  note unf = radix_lookup_at.simps[of n key pos]
  have sib: "siblings (kChildren n)" and wf: "\<forall>c\<in>set (kChildren n). radix_wf c"
    using 1(2) by (auto simp: radix_wf_node[of n])
  show ?case
  proof (cases "pos = length key")
    case True
    then show ?thesis using unf sib by (simp add: binds_Nil)
  next
    case False
    let ?k = "drop pos key"
    have k: "?k \<noteq> []" "hd ?k = key ! pos" "code_at key pos = Some (key ! pos)"
      using False 1(3) by (auto simp: hd_drop_conv_nth code_at_def)
    show ?thesis
    proof (cases rule: radix_find_cases[OF sib, of "key ! pos", case_names none found])
      case none
      then show ?thesis using False unf k binds_no_child[OF sib k(1)] by auto
    next
      case (found i)
      let ?c = "kChildren n ! i"
      have eq: "binds n ?k v \<longleftrightarrow> full ?c ?k v" using binds_child[OF sib k(1) found(2)] found(3) k(2) by simp
      have c: "?c \<in> set (kChildren n)" "radix_wf ?c" using found(2) wf by auto
      show ?thesis
      proof (cases "length key - pos < length (kPrefix ?c) \<or> \<not> prefix (kPrefix ?c) ?k")
        case True
        then have "\<not> full ?c ?k v" by (auto simp: full_prefix dest: prefix_length_le)
        moreover have "radix_lookup_at n key pos = None"
          using True False unf k found radix_matches_prefix[of pos "kPrefix ?c" key] by (auto simp: Let_def)
        ultimately show ?thesis using eq by simp
      next
        case pre: False
        then have m: "radix_matches key pos (kPrefix ?c)" and len: "pos + length (kPrefix ?c) \<le> length key"
          using radix_matches_prefix[of pos "kPrefix ?c" key] 1(3) by auto
        have "radix_lookup_at ?c key (pos + length (kPrefix ?c)) = Some v \<longleftrightarrow>
            binds ?c (drop (pos + length (kPrefix ?c)) key) v"
          using 1(1)[OF False refl refl _ refl refl] found pre k m c(2) len by auto
        then show ?thesis
          using eq pre m False unf k found by (simp add: full_prefix Let_def add.commute)
      qed
    qed
  qed
qed

subsection \<open>insert\<close>

lemma radix_common_take:
  "radix_common xs ys \<le> length xs \<and> radix_common xs ys \<le> length ys \<and>
   take (radix_common xs ys) xs = take (radix_common xs ys) ys \<and>
   (radix_common xs ys < length xs \<and> radix_common xs ys < length ys \<longrightarrow>
     xs ! radix_common xs ys \<noteq> ys ! radix_common xs ys)"
  by (induction xs ys rule: radix_common.induct) auto

lemma radix_common_pos: "xs \<noteq> [] \<Longrightarrow> ys \<noteq> [] \<Longrightarrow> hd xs = hd ys \<Longrightarrow> 0 < radix_common xs ys"
  by (cases xs; cases ys) auto

text \<open>The result of splitting a child: same start, the child's bindings and the new one.\<close>

lemma radix_split_ok:
  assumes "radix_wf c" "r \<noteq> []" "kPrefix c \<noteq> []" "hd r = first c" "radix_common r (kPrefix c) < length (kPrefix c)"
    "n = radix_split c (radix_common r (kPrefix c)) r v"
  shows "radix_wf n \<and> kPrefix n \<noteq> [] \<and> first n = first c \<and>
    (\<forall>k w. full n k w \<longleftrightarrow> (if k = r then w = v else full c k w)) \<and> (\<forall>w. \<not> full c r w)"
proof -
  let ?m = "radix_common r (kPrefix c)"
  let ?q = "take ?m (kPrefix c)" and ?c1 = "RNode (drop ?m (kPrefix c)) (kValue c) (kChildren c)"
  have m: "0 < ?m" "?m \<le> length r" "take ?m r = ?q" "?m < length r \<Longrightarrow> r ! ?m \<noteq> kPrefix c ! ?m"
    using radix_common_pos[of r "kPrefix c"] radix_common_take[of r "kPrefix c"] assms(2-5)
    by (auto simp: first_def)
  have q: "length ?q = ?m" "?q \<noteq> []" "hd ?q = first c" using m(1) assms(3,5) by (auto simp: first_def hd_take)
  have key: "r = ?q @ drop ?m r" using m(3) by (metis append_take_drop_id)
  have c1: "radix_wf ?c1" "kPrefix ?c1 \<noteq> []" "siblings [?c1]"
    using assms(1,5) by (auto simp: radix_wf_node[of c] radix_wf_RNode siblings_def)
  have full1: "full c k w \<longleftrightarrow> prefix ?q k \<and> full ?c1 (drop ?m k) w" for k w
  proof -
    have b: "binds ?c1 j w \<longleftrightarrow> binds c j w" for j by (cases c) (simp add: binds_RNode)
    have "full c k w \<longleftrightarrow> (\<exists>k'. k = ?q @ drop ?m (kPrefix c) @ k' \<and> binds c k' w)"
      by (metis append.assoc append_take_drop_id full_def)
    also have "\<dots> \<longleftrightarrow> prefix ?q k \<and> full ?c1 (drop ?m k) w"
      using q(1) b by (auto simp: full_def prefix_def)
    finally show ?thesis .
  qed
  have other: "\<not> full ?c1 (drop ?m r) w" for w
  proof
    assume f: "full ?c1 (drop ?m r) w"
    then have "drop ?m r \<noteq> []" "first ?c1 = hd (drop ?m r)" using full_first[OF f c1(2)] by auto
    then show False using m(4) assms(5) by (auto simp: first_def hd_drop_conv_nth)
  qed
  then have absent: "\<not> full c r w" for w using full1 by blast
  have n: "kPrefix n = ?q \<and> radix_wf n \<and>
    (\<forall>j w. binds n j w \<longleftrightarrow> j = drop ?m r \<and> w = v \<or> full ?c1 j w)"
  proof (cases "?m = length r")
    case True
    then have "n = RNode ?q (Some v) [?c1]" using assms(6) by (simp add: radix_split_def Let_def)
    moreover have "radix_wf (RNode ?q (Some v) [?c1])" by (rule radix_wf.intros) (use c1 in simp_all)
    ultimately show ?thesis using True by (auto simp: binds_full)
  next
    case False
    let ?leaf = "RNode (drop ?m r) (Some v) []"
    have leaf: "kPrefix ?leaf \<noteq> []" "first ?leaf = r ! ?m" "code_at (kPrefix ?leaf) 0 = Some (r ! ?m)"
      using False m(2) by (auto simp: first_def hd_drop_conv_nth code_at_def)
    have "first ?c1 \<noteq> first ?leaf" using leaf(2) m False assms(5) by (simp add: first_def hd_drop_conv_nth)
    then have sib: "siblings (splice_in [?c1] (radix_findInsertionIndex [?c1] (first ?leaf)) ?leaf)"
        "set (splice_in [?c1] (radix_findInsertionIndex [?c1] (first ?leaf)) ?leaf) = {?leaf, ?c1}"
      using siblings_splice_in[OF c1(3) leaf(1)] by auto
    have "n = RNode ?q None (splice_in [?c1] (radix_findInsertionIndex [?c1] (first ?leaf)) ?leaf)"
      using assms(6) False leaf by (simp add: radix_split_def radix_makeNode_def Let_def)
    moreover have "full ?leaf j w \<longleftrightarrow> j = drop ?m r \<and> w = v" for j w by (auto simp: full_def binds_full)
    moreover have "radix_wf ?leaf" by (simp add: radix_wf_RNode siblings_def)
    then have "radix_wf (RNode ?q None (splice_in [?c1] (radix_findInsertionIndex [?c1] (first ?leaf)) ?leaf))"
      by (intro radix_wf.intros) (use sib c1(1) in auto)
    ultimately show ?thesis using sib(2) by (simp add: binds_full)
  qed
  have "full n k w \<longleftrightarrow> (if k = r then w = v else full c k w)" for k w
  proof -
    have "full n k w \<longleftrightarrow> prefix ?q k \<and> (drop ?m k = drop ?m r \<and> w = v \<or> full ?c1 (drop ?m k) w)"
      using n q(1) by (simp add: full_prefix[of n])
    moreover have "prefix ?q k \<and> drop ?m k = drop ?m r \<longleftrightarrow> k = r"
      using key q(1) by (metis append_eq_conv_conj prefix_def)
    ultimately show ?thesis using full1 other by auto
  qed
  then show ?thesis using n q absent by (simp add: first_def)
qed

lemma radix_wf_children: "radix_wf n \<Longrightarrow> siblings (kChildren n) \<and> (\<forall>c\<in>set (kChildren n). radix_wf c)"
  using radix_wf_node[of n] by simp

text \<open>Replacing the child that begins with \<open>k\<close>'s first unit, when only one key below it changes.\<close>

lemma binds_update_child:
  assumes "siblings cs" "i < length cs" "first (cs ! i) = hd k" "k \<noteq> []"
    "\<And>j w. full c j w \<longleftrightarrow> (if j = k then P w else full (cs ! i) j w)"
  shows "binds (RNode p v (cs[i := c])) j w \<longleftrightarrow> (if j = k then P w else binds (RNode p v cs) j w)"
proof -
  have others: "d = cs ! i" if "d \<in> set cs" "full d k w" for d w
  proof (rule siblings_other[OF assms(1,2) that(1)])
    have "kPrefix d \<noteq> []" using assms(1) that(1) by (simp add: siblings_def)
    then show "first d = first (cs ! i)" using full_first[OF that(2)] assms(3) by simp
  qed
  have split: "cs = take i cs @ cs ! i # drop (Suc i) cs" using assms(2) by (rule id_take_nth_drop)
  have mem: "d \<in> set cs \<longleftrightarrow> d = cs ! i \<or> d \<in> set (take i cs @ drop (Suc i) cs)" for d
    using arg_cong[OF split, of set] by auto
  have memu: "d \<in> set (cs[i := c]) \<longleftrightarrow> d = c \<or> d \<in> set (take i cs @ drop (Suc i) cs)" for d
    using assms(2) by (auto simp: upd_conv_take_nth_drop)
  have notin: "\<not> full d k w" if d: "d \<in> set (take i cs @ drop (Suc i) cs)" for d w
  proof
    assume "full d k w"
    then have eq: "d = cs ! i" using others mem d by blast
    have "distinct cs" using assms(1) unfolding siblings_def by (auto simp: strict_sorted_iff distinct_map)
    then have "distinct (take i cs @ cs ! i # drop (Suc i) cs)" using split by simp
    then show False using d eq by auto
  qed
  show ?thesis
  proof (cases "j = k")
    case True
    have "full c k w \<longleftrightarrow> P w" using assms(5)[of k w] by simp
    then show ?thesis using True assms(4) notin memu by (auto simp: binds_full)
  next
    case False
    have "full c j w \<longleftrightarrow> full (cs ! i) j w" using assms(5)[of j w] False by simp
    then show ?thesis using False mem memu by (auto simp: binds_full)
  qed
qed

lemma radix_wf_update:
  assumes "radix_wf n" "i < length (kChildren n)" "radix_wf c" "kPrefix c \<noteq> []" "first c = first (kChildren n ! i)"
  shows "radix_wf (RNode p v ((kChildren n)[i := c]))"
  using radix_wf_children[OF assms(1)] assms(2-5)
  by (intro radix_wf.intros) (auto intro: siblings_update dest!: set_update_subset_insert[THEN subsetD])

lemma radix_insert_at_ok:
  "radix_wf n \<Longrightarrow> radix_insert_at n r v = (n', added) \<Longrightarrow>
   radix_wf n' \<and> kPrefix n' = kPrefix n \<and>
   (\<forall>k w. binds n' k w \<longleftrightarrow> (if k = r then w = v else binds n k w)) \<and> (added \<longleftrightarrow> (\<forall>w. \<not> binds n r w))"
proof (induction n r v arbitrary: n' added rule: radix_insert_at.induct)
  case (1 n r v)
  note unf = radix_insert_at.simps[of n r v]
  have sib: "siblings (kChildren n)" and wf: "\<forall>c\<in>set (kChildren n). radix_wf c"
    using radix_wf_children[OF 1(2)] by auto
  have n: "RNode (kPrefix n) (kValue n) (kChildren n) = n" by simp
  show ?case
  proof (cases "r = []")
    case True
    then have eq: "n' = RNode (kPrefix n) (Some v) (kChildren n)" "added = (kValue n = None)"
      using 1(3) unf by auto
    have "radix_wf n'" unfolding eq by (rule radix_wf.intros) (use sib wf in auto)
    moreover have "\<not> full c [] w" if "c \<in> set (kChildren n)" for c w
      using that sib by (auto simp: full_def siblings_def)
    then have "binds n' k w \<longleftrightarrow> (if k = [] then w = v else binds n k w)" for k w
      unfolding eq binds_full binds_node[of n] by auto
    moreover have "added \<longleftrightarrow> (\<forall>w. \<not> binds n [] w)"
      using eq(2) binds_Nil[OF sib] by (cases "kValue n") auto
    ultimately show ?thesis using True eq(1) by auto
  next
    case r: False
    show ?thesis
    proof (cases rule: radix_find_cases[OF sib, of "hd r", case_names none found])
      case none
      let ?leaf = "RNode r (Some v) []"
      let ?cs = "splice_in (kChildren n) (radix_findInsertionIndex (kChildren n) (hd r)) ?leaf"
      have eq: "n' = RNode (kPrefix n) (kValue n) ?cs" "added"
        using 1(3) r none(1) unf by (auto simp: radix_makeNode_def Let_def)
      have cs: "siblings ?cs" "set ?cs = insert ?leaf (set (kChildren n))"
        using siblings_splice_in[OF sib, of ?leaf] none(2) r by (auto simp: first_def)
      have leaf: "full ?leaf k w \<longleftrightarrow> k = r \<and> w = v" for k w by (auto simp: full_def binds_full)
      have "radix_wf ?leaf" by (rule radix_wf.intros) (auto simp: siblings_def)
      then have "radix_wf n'" unfolding eq by (intro radix_wf.intros) (use cs wf in auto)
      moreover have absent: "\<not> binds n r w" for w using binds_no_child[OF sib r] none(2) by auto
      moreover have "binds n' k w \<longleftrightarrow> (if k = r then w = v else binds n k w)" for k w
        using absent r unfolding eq binds_full cs(2) binds_node[of n] by (auto simp: leaf)
      ultimately show ?thesis using eq by simp
    next
      case (found i)
      let ?c = "kChildren n ! i"
      let ?m = "radix_common r (kPrefix ?c)"
      have c: "?c \<in> set (kChildren n)" "radix_wf ?c" "kPrefix ?c \<noteq> []"
        using found(2) wf sib by (auto simp: siblings_def)
      have bc: "binds n r w \<longleftrightarrow> full ?c r w" for w using binds_child[OF sib r found(2,3)] .
      obtain c' where c': "n' = RNode (kPrefix n) (kValue n) ((kChildren n)[i := c'])" "radix_wf c'" "kPrefix c' \<noteq> []"
        "first c' = first ?c" "\<And>k w. full c' k w \<longleftrightarrow> (if k = r then w = v else full ?c k w)"
        "added \<longleftrightarrow> (\<forall>w. \<not> full ?c r w)"
      proof (cases "?m = length (kPrefix ?c)")
        case True
        let ?d = "drop ?m r"
        obtain c1 a where rec: "radix_insert_at ?c ?d v = (c1, a)" by force
        then have ih: "radix_wf c1" "kPrefix c1 = kPrefix ?c" "a \<longleftrightarrow> (\<forall>w. \<not> binds ?c ?d w)"
          "\<And>k w. binds c1 k w \<longleftrightarrow> (if k = ?d then w = v else binds ?c k w)"
          using 1(1)[OF r refl refl refl _ refl refl, of c1 a] found c(2) True by auto
        have pre: "r = kPrefix ?c @ ?d"
          using True radix_common_take[of r "kPrefix ?c"] by (metis append_take_drop_id take_all_iff order_refl)
        have "full c1 k w \<longleftrightarrow> (if k = r then w = v else full ?c k w)" for k w
        proof (cases "prefix (kPrefix ?c) k")
          case True
          then obtain j where "k = kPrefix ?c @ j" by (auto simp: prefix_def)
          moreover have "k = r \<longleftrightarrow> j = ?d" using pre calculation by (metis same_append_eq)
          ultimately show ?thesis using ih(2,4) by (simp add: full_prefix)
        next
          case False
          then have "k \<noteq> r" using pre by (metis prefixI)
          then show ?thesis using False ih(2) by (simp add: full_prefix)
        qed
        moreover have "n' = RNode (kPrefix n) (kValue n) ((kChildren n)[i := c1])" "added = a"
          using 1(3) r found(1) True rec unf by (auto simp: Let_def)
        moreover have "full ?c r w \<longleftrightarrow> binds ?c ?d w" for w using pre by (metis full_def same_append_eq)
        ultimately show thesis using ih c(3) by (intro that[of c1]) (auto simp: first_def)
      next
        case False
        then have "?m < length (kPrefix ?c)" using radix_common_take[of r "kPrefix ?c"] by simp
        note split = radix_split_ok[OF c(2) r c(3) found(3)[symmetric] this refl, of v]
        have "n' = RNode (kPrefix n) (kValue n) ((kChildren n)[i := radix_split ?c ?m r v])" "added"
          using 1(3) r found(1) False unf by (auto simp: Let_def)
        then show thesis using split by (intro that[of "radix_split ?c ?m r v"]) auto
      qed
      have "radix_wf n'" unfolding c'(1) using radix_wf_update[OF 1(2) found(2) c'(2,3,4)] .
      moreover have "binds n' k w \<longleftrightarrow> (if k = r then w = v else binds n k w)" for k w
        unfolding c'(1) using binds_update_child[OF sib found(2,3) r, of c' "\<lambda>w. w = v"] c'(5) n by simp
      ultimately show ?thesis using c'(1,6) bc by simp
    qed
  qed
qed

subsection \<open>Paths\<close>

fun valid_path :: "'v radix_node \<Rightarrow> nat list \<Rightarrow> bool" where
  "valid_path n [] \<longleftrightarrow> True"
| "valid_path n (i # is) \<longleftrightarrow> i < length (kChildren n) \<and> valid_path (kChildren n ! i) is"

fun path_key :: "'v radix_node \<Rightarrow> nat list \<Rightarrow> nat list" where
  "path_key n [] = []"
| "path_key n (i # is) = kPrefix (kChildren n ! i) @ path_key (kChildren n ! i) is"

lemma path_append:
  "valid_path n (p @ q) \<longleftrightarrow> valid_path n p \<and> valid_path (node_at n p) q"
  "node_at n (p @ q) = node_at (node_at n p) q"
  "path_key n (p @ q) = path_key n p @ path_key (node_at n p) q"
  by (induction p arbitrary: n) auto

lemma set_at_append: "valid_path n p \<Longrightarrow> set_at n (p @ q) x = set_at n p (set_at (node_at n p) q x)"
  by (induction p arbitrary: n) auto

lemma set_at_twice: "valid_path n p \<Longrightarrow> set_at (set_at n p x) p y = set_at n p y"
  by (induction p arbitrary: n) auto

lemma node_at_set_at: "valid_path n p \<Longrightarrow> node_at (set_at n p x) p = x"
  by (induction p arbitrary: n) auto

lemma radix_wf_node_at: "radix_wf n \<Longrightarrow> valid_path n p \<Longrightarrow>
  radix_wf (node_at n p) \<and> (p \<noteq> [] \<longrightarrow> kPrefix (node_at n p) \<noteq> [])"
proof (induction p arbitrary: n)
  case (Cons i p)
  have "siblings (kChildren n)" "radix_wf (kChildren n ! i)" "kPrefix (kChildren n ! i) \<noteq> []"
    using radix_wf_children[OF Cons.prems(1)] Cons.prems(2) by (auto simp: siblings_def)
  then show ?case using Cons.IH[of "kChildren n ! i"] Cons.prems(2) by (cases p) auto
qed simp

text \<open>Removing one key below a node at a path removes it from the tree.\<close>

lemma set_at_delete:
  assumes "radix_wf n" "valid_path n p" "radix_wf m" "first m = first (node_at n p)"
    "p \<noteq> [] \<longrightarrow> kPrefix m \<noteq> []" "p = [] \<longrightarrow> kPrefix m = kPrefix n"
    "\<And>k w. full m k w \<longleftrightarrow> (if k = kPrefix (node_at n p) @ r then False else full (node_at n p) k w)"
  shows "radix_wf (set_at n p m) \<and> kPrefix (set_at n p m) = (if p = [] then kPrefix m else kPrefix n) \<and>
    (\<forall>k w. full (set_at n p m) k w \<longleftrightarrow> (if k = kPrefix n @ path_key n p @ r then False else full n k w))"
  using assms
proof (induction p arbitrary: n)
  case (Cons i p)
  let ?c = "kChildren n ! i" and ?c' = "set_at (kChildren n ! i) p m"
  have c: "radix_wf ?c" "kPrefix ?c \<noteq> []" "i < length (kChildren n)" "siblings (kChildren n)" "valid_path ?c p"
    using radix_wf_children[OF Cons.prems(1)] Cons.prems(2) by (auto simp: siblings_def)
  have ih: "radix_wf ?c' \<and> kPrefix ?c' = (if p = [] then kPrefix m else kPrefix ?c) \<and>
    (\<forall>k w. full ?c' k w \<longleftrightarrow> (if k = kPrefix ?c @ path_key ?c p @ r then False else full ?c k w))"
  proof (cases "p = []")
    case True
    then show ?thesis using Cons.prems(3,7) by simp
  next
    case False
    then show ?thesis using Cons.IH[of ?c] Cons.prems c by simp
  qed
  have c': "kPrefix ?c' \<noteq> []" "first ?c' = first ?c"
    using ih Cons.prems(4,5) c(2) by (auto simp: first_def)
  let ?k = "kPrefix ?c @ path_key ?c p @ r"
  have "radix_wf (set_at n (i # p) m)"
    using radix_wf_update[OF Cons.prems(1) c(3) _ c'] ih by simp
  moreover have b: "binds (set_at n (i # p) m) k w \<longleftrightarrow> (if k = ?k then False else binds n k w)" for k w
    using binds_update_child[OF c(4,3), of ?k ?c' "\<lambda>_. False" "kPrefix n" "kValue n" k w] ih c(2)
    by (simp add: first_def)
  have "full (set_at n (i # p) m) k w \<longleftrightarrow> (if k = kPrefix n @ ?k then False else full n k w)" for k w
    unfolding full_def b by auto
  ultimately show ?case by simp
qed simp

lemma radix_walk_ok:
  "radix_wf n \<Longrightarrow> case radix_walk n k of None \<Rightarrow> \<forall>v. \<not> binds n k v
   | Some p \<Rightarrow> valid_path n p \<and> path_key n p = k \<and> (\<forall>v. binds n k v \<longleftrightarrow> kValue (node_at n p) = Some v)"
proof (induction n k rule: radix_walk.induct)
  case (1 n k)
  note unf = radix_walk.simps[of n k]
  have sib: "siblings (kChildren n)" and wf: "\<forall>c\<in>set (kChildren n). radix_wf c"
    using radix_wf_children[OF 1(2)] by auto
  show ?case
  proof (cases "k = []")
    case True
    then show ?thesis using unf binds_Nil[OF sib] by simp
  next
    case k: False
    show ?thesis
    proof (cases rule: radix_find_cases[OF sib, of "hd k", case_names none found])
      case none
      then show ?thesis using unf k binds_no_child[OF sib k] by auto
    next
      case (found i)
      let ?c = "kChildren n ! i"
      have eq: "binds n k v \<longleftrightarrow> full ?c k v" for v using binds_child[OF sib k found(2,3)] .
      have c: "radix_wf ?c" using found(2) wf by auto
      show ?thesis
      proof (cases "length k < length (kPrefix ?c) \<or> \<not> prefix (kPrefix ?c) k")
        case True
        then have "radix_walk n k = None"
          using unf k found radix_matches_prefix[of 0 "kPrefix ?c" k] by (auto simp: Let_def)
        moreover have "\<not> full ?c k v" for v using True by (auto simp: full_prefix dest: prefix_length_le)
        ultimately show ?thesis using eq by simp
      next
        case False
        then have m: "radix_matches k 0 (kPrefix ?c)" "prefix (kPrefix ?c) k"
          using radix_matches_prefix[of 0 "kPrefix ?c" k] by auto
        let ?d = "drop (length (kPrefix ?c)) k"
        have "radix_walk n k = map_option ((#) i) (radix_walk ?c ?d)"
          using False m unf k found by (simp add: Let_def)
        moreover have "k = kPrefix ?c @ ?d" using m(2) by (auto simp: prefix_def)
        moreover have "case radix_walk ?c ?d of None \<Rightarrow> \<forall>v. \<not> binds ?c ?d v
          | Some p \<Rightarrow> valid_path ?c p \<and> path_key ?c p = ?d \<and> (\<forall>v. binds ?c ?d v \<longleftrightarrow> kValue (node_at ?c p) = Some v)"
          using 1(1)[OF k refl refl _ refl refl, unfolded found(1) nat_int] m False c by simp
        ultimately show ?thesis using eq found(2) m(2) by (auto simp: full_prefix split: option.splits)
      qed
    qed
  qed
qed

subsection \<open>remove\<close>

lemma radix_absorb_ok:
  assumes "radix_wf n" "kValue n = None" "length (kChildren n) = 1"
  shows "radix_wf (radix_absorb n)" "full (radix_absorb n) k w \<longleftrightarrow> full n k w"
    "kPrefix n \<noteq> [] \<Longrightarrow> kPrefix (radix_absorb n) \<noteq> [] \<and> first (radix_absorb n) = first n"
proof -
  obtain c where c: "kChildren n = [c]" using assms(3) by (auto simp: length_Suc_conv)
  then have a: "radix_absorb n = RNode (kPrefix n @ kPrefix c) (kValue c) (kChildren c)"
    by (simp add: radix_absorb_def)
  have "radix_wf c" using radix_wf_children[OF assms(1)] c by simp
  then show "radix_wf (radix_absorb n)"
    unfolding a using radix_wf_children[of c] by (intro radix_wf.intros) auto
  have "binds (radix_absorb n) j w \<longleftrightarrow> binds c j w" for j
    unfolding a by (cases c) (simp add: binds_RNode)
  moreover have "binds n j w \<longleftrightarrow> full c j w" for j unfolding binds_node[of n] using assms(2) c by simp
  ultimately show "full (radix_absorb n) k w \<longleftrightarrow> full n k w" by (auto simp: full_def a)
  show "kPrefix n \<noteq> [] \<Longrightarrow> kPrefix (radix_absorb n) \<noteq> [] \<and> first (radix_absorb n) = first n"
    by (simp add: a first_def)
qed

lemma splice_out_set: "distinct cs \<Longrightarrow> i < length cs \<Longrightarrow> set (splice_out cs i) = set cs - {cs ! i}"
proof -
  assume d: "distinct cs" "i < length cs"
  then have split: "cs = take i cs @ cs ! i # drop (Suc i) cs" by (simp add: id_take_nth_drop)
  then have "distinct (take i cs @ cs ! i # drop (Suc i) cs)" using d by simp
  then show ?thesis using arg_cong[OF split, of set] by (auto simp: splice_out_def)
qed

lemma siblings_distinct: "siblings cs \<Longrightarrow> distinct cs"
  by (auto simp: siblings_def strict_sorted_iff distinct_map)

lemma siblings_splice_out:
  assumes "siblings cs" "i < length cs"
  shows "siblings (splice_out cs i)"
proof -
  define l r where "l = take i cs" and "r = drop (Suc i) cs"
  have cs: "cs = l @ cs ! i # r" unfolding l_def r_def using assms(2) by (rule id_take_nth_drop)
  have "siblings (l @ cs ! i # r)" using assms(1) cs by simp
  then have "siblings (l @ r)" by (auto simp: siblings_def sorted_wrt_append)
  then show ?thesis by (simp add: splice_out_def l_def r_def)
qed

text \<open>Taking an emptied leaf out of its parent.\<close>

lemma drop_leaf_ok:
  assumes "radix_wf n" "i < length (kChildren n)" "kChildren (kChildren n ! i) = []"
  defines "c \<equiv> kChildren n ! i"
  shows "radix_wf (RNode (kPrefix n) (kValue n) (splice_out (kChildren n) i))"
    "full (RNode (kPrefix n) (kValue n) (splice_out (kChildren n) i)) k w \<longleftrightarrow>
     (if k = kPrefix n @ kPrefix c then False else full n k w)"
proof -
  let ?n = "RNode (kPrefix n) (kValue n) (splice_out (kChildren n) i)"
  have sib: "siblings (kChildren n)" and wf: "\<forall>c\<in>set (kChildren n). radix_wf c"
    using radix_wf_children[OF assms(1)] by auto
  have set: "set (splice_out (kChildren n) i) = set (kChildren n) - {c}"
    unfolding c_def using siblings_distinct[OF sib] assms(2) by (rule splice_out_set)
  show "radix_wf ?n"
    by (rule radix_wf.intros) (use siblings_splice_out[OF sib assms(2)] wf set in auto)
  have cin: "c \<in> set (kChildren n)" "kPrefix c \<noteq> []"
    using assms(2) sib by (auto simp: c_def siblings_def)
  have "kChildren c = []" using assms(3) by (simp add: c_def)
  then have "binds c j w \<Longrightarrow> j = []" for j using binds_node[of c j w] by simp
  then have leaf: "full c j w \<Longrightarrow> j = kPrefix c" for j by (auto simp: full_def)
  have only: "full d (kPrefix c) w \<Longrightarrow> d \<in> set (kChildren n) \<Longrightarrow> d = c" for d
  proof -
    assume d: "full d (kPrefix c) w" "d \<in> set (kChildren n)"
    then have "first d = first c" using full_first[OF d(1)] sib by (auto simp: siblings_def first_def)
    then show "d = c" using siblings_other[OF sib assms(2) d(2)] by (simp add: c_def)
  qed
  have "binds ?n j w \<longleftrightarrow> (if j = kPrefix c then False else binds n j w)" for j
    unfolding binds_full binds_node[of n] set using cin leaf only by auto
  then show "full ?n k w \<longleftrightarrow> (if k = kPrefix n @ kPrefix c then False else full n k w)"
    by (auto simp: full_def)
qed

text \<open>Clearing the value of the target, with the merge pass, removes exactly that key.\<close>

lemma clear_ok:
  assumes "radix_wf n"
  shows "radix_wf (RNode (kPrefix n) None (kChildren n))"
    "full (RNode (kPrefix n) None (kChildren n)) k w \<longleftrightarrow> (if k = kPrefix n then False else full n k w)"
proof -
  let ?n = "RNode (kPrefix n) None (kChildren n)"
  have sib: "siblings (kChildren n)" and wf: "\<forall>c\<in>set (kChildren n). radix_wf c"
    using radix_wf_children[OF assms] by auto
  show "radix_wf ?n" by (rule radix_wf.intros) (use sib wf in auto)
  have "\<not> full c [] w" if "c \<in> set (kChildren n)" for c using that sib by (auto simp: full_def siblings_def)
  then have "binds ?n j w \<longleftrightarrow> (if j = [] then False else binds n j w)" for j
    unfolding binds_full binds_node[of n] by auto
  then show "full ?n k w \<longleftrightarrow> (if k = kPrefix n then False else full n k w)" by (auto simp: full_def)
qed

lemma radix_wf_prefix_update: "radix_wf n \<Longrightarrow> radix_wf (RNode p v (kChildren n))"
  using radix_wf_children[of n] by (auto intro: radix_wf.intros)

lemma merge_pass_ok:
  assumes "radix_wf root" "valid_path root path"
  defines "node \<equiv> node_at root path"
  defines "root1 \<equiv> set_at root path (RNode (kPrefix node) None (kChildren node))"
  shows "radix_wf (radix_merge_pass root1 path) \<and> kPrefix (radix_merge_pass root1 path) = kPrefix root \<and>
    (\<forall>k w. full (radix_merge_pass root1 path) k w \<longleftrightarrow>
       (if k = kPrefix root @ path_key root path then False else full root k w))"
proof -
  let ?clear = "RNode (kPrefix node) None (kChildren node)"
  have node: "radix_wf node" "path \<noteq> [] \<longrightarrow> kPrefix node \<noteq> []"
    using radix_wf_node_at[OF assms(1,2)] by (auto simp: node_def)
  have at1: "node_at root1 path = ?clear" unfolding root1_def using assms(2) by (rule node_at_set_at)
  consider (leaf) "kChildren node = []" "path \<noteq> []"
    | (one) "length (kChildren node) = 1" "path \<noteq> []"
    | (plain) "path = [] \<or> kChildren node \<noteq> [] \<and> length (kChildren node) \<noteq> 1" by blast
  then show ?thesis
  proof cases
    case plain
    then have "radix_merge_pass root1 path = root1" using at1 by (auto simp: radix_merge_pass_def)
    moreover have "radix_wf root1 \<and> kPrefix root1 = (if path = [] then kPrefix ?clear else kPrefix root) \<and>
        (\<forall>k w. full root1 k w \<longleftrightarrow> (if k = kPrefix root @ path_key root path @ [] then False else full root k w))"
      unfolding root1_def
      by (rule set_at_delete[OF assms(1,2) clear_ok(1)[OF node(1)]])
        (use node(2) clear_ok(2)[OF node(1)] in \<open>auto simp: first_def node_def\<close>)
    ultimately show ?thesis by (auto simp: node_def)
  next
    case one
    let ?m = "radix_absorb ?clear"
    have ab: "radix_wf ?m" "\<And>k w. full ?m k w \<longleftrightarrow> full ?clear k w" "kPrefix ?m \<noteq> []" "first ?m = first node"
      using radix_absorb_ok[OF clear_ok(1)[OF node(1)]] one node(2) by (auto simp: first_def)
    have "kChildren node \<noteq> []" using one(1) by auto
    then have "radix_merge_pass root1 path = set_at root path ?m"
      using one at1 assms(2) by (simp add: radix_merge_pass_def Let_def root1_def set_at_twice)
    moreover have "radix_wf (set_at root path ?m) \<and>
        kPrefix (set_at root path ?m) = (if path = [] then kPrefix ?m else kPrefix root) \<and>
        (\<forall>k w. full (set_at root path ?m) k w \<longleftrightarrow>
           (if k = kPrefix root @ path_key root path @ [] then False else full root k w))"
      by (rule set_at_delete[OF assms(1,2) ab(1)])
        (use one ab clear_ok(2)[OF node(1)] in \<open>auto simp: node_def\<close>)
    ultimately show ?thesis using one by auto
  next
    case leaf
    obtain pp i where path: "path = pp @ [i]" using leaf(2) by (cases path rule: rev_cases) auto
    let ?p = "node_at root pp"
    have vp: "valid_path root pp" "i < length (kChildren ?p)" and node_i: "node = kChildren ?p ! i"
      using assms(2) by (auto simp: path path_append node_def)
    have wfp: "radix_wf ?p" "pp \<noteq> [] \<longrightarrow> kPrefix ?p \<noteq> []" using radix_wf_node_at[OF assms(1) vp(1)] by auto
    let ?q = "RNode (kPrefix ?p) (kValue ?p) (splice_out (kChildren ?p) i)"
    let ?q2 = "if length path \<ge> 2 \<and> kValue ?q = None \<and> length (kChildren ?q) = 1 then radix_absorb ?q else ?q"
    have drop: "radix_wf ?q" "\<And>k w. full ?q k w \<longleftrightarrow> (if k = kPrefix ?p @ kPrefix node then False else full ?p k w)"
      using drop_leaf_ok[OF wfp(1) vp(2)] leaf(1) by (simp_all add: node_i)
    have q2: "radix_wf ?q2" "\<And>k w. full ?q2 k w \<longleftrightarrow> (if k = kPrefix ?p @ kPrefix node then False else full ?p k w)"
        "pp \<noteq> [] \<longrightarrow> kPrefix ?q2 \<noteq> []" "first ?q2 = first ?p" "pp = [] \<longrightarrow> kPrefix ?q2 = kPrefix root"
      using radix_absorb_ok[OF drop(1)] drop wfp(2) by (auto simp: path first_def)
    have "root1 = set_at root pp (RNode (kPrefix ?p) (kValue ?p) ((kChildren ?p)[i := ?clear]))"
      unfolding root1_def path using vp(1) by (simp add: set_at_append)
    then have "radix_merge_pass root1 path = set_at root pp ?q2"
      using leaf at1 vp path by (simp add: radix_merge_pass_def node_at_set_at set_at_twice Let_def splice_out_def)
    moreover have "path_key root path = path_key root pp @ kPrefix node" by (simp add: path path_append node_i)
    moreover have "radix_wf (set_at root pp ?q2) \<and>
        kPrefix (set_at root pp ?q2) = (if pp = [] then kPrefix ?q2 else kPrefix root) \<and>
        (\<forall>k w. full (set_at root pp ?q2) k w \<longleftrightarrow>
           (if k = kPrefix root @ path_key root pp @ kPrefix node then False else full root k w))"
      by (rule set_at_delete[OF assms(1) vp(1) q2(1,4,3,5,2)])
    ultimately show ?thesis using q2(5) by auto
  qed
qed

section \<open>What a tree represents\<close>

text \<open>The tree holds the map \<open>m\<close>, and counts its keys.\<close>

definition radix_rep :: "'v radix_tree \<Rightarrow> (nat list \<rightharpoonup> 'v) \<Rightarrow> bool" where
  "radix_rep tree m \<longleftrightarrow> radix_wf (kRoot tree) \<and> kPrefix (kRoot tree) = [] \<and>
     (\<forall>k v. binds (kRoot tree) k v \<longleftrightarrow> m k = Some v) \<and> finite (dom m) \<and> kSize tree = int (card (dom m))"

lemma radix_make_rep: "radix_rep radix_make Map.empty"
proof -
  have "radix_wf (RNode [] None [])" by (rule radix_wf.intros) (auto simp: siblings_def)
  then show ?thesis by (simp add: radix_rep_def radix_make_def radix_makeNode_def binds_RNode)
qed

lemma radix_lookup_rep:
  assumes "radix_rep tree m"
  shows "radix_lookup tree k = m k"
proof (cases "m k")
  case None
  then have "\<not> binds (kRoot tree) k v" for v using assms by (simp add: radix_rep_def)
  then have "radix_lookup tree k \<noteq> Some v" for v
    using radix_lookup_at_ok[of "kRoot tree" 0 k v] assms by (simp add: radix_lookup_def radix_rep_def)
  then show ?thesis using None by (cases "radix_lookup tree k") auto
next
  case (Some v)
  then show ?thesis
    using radix_lookup_at_ok[of "kRoot tree" 0 k v] assms by (simp add: radix_lookup_def radix_rep_def)
qed

lemma radix_insert_value_rep:
  assumes "radix_rep tree m"
  shows "radix_rep (radix_insert_value tree k v) (m(k \<mapsto> v))"
proof -
  obtain root added where ins: "radix_insert_at (kRoot tree) k v = (root, added)" by force
  have ok: "radix_wf root" "kPrefix root = []" "\<And>j w. binds root j w \<longleftrightarrow> (if j = k then w = v else m j = Some w)"
      "added \<longleftrightarrow> m k = None"
    using radix_insert_at_ok[OF _ ins] assms by (auto simp: radix_rep_def)
  have "card (dom (m(k \<mapsto> v))) = (if m k = None then Suc (card (dom m)) else card (dom m))"
    using assms by (simp add: radix_rep_def card_insert_if domIff)
  then show ?thesis
    using ok assms ins by (auto simp: radix_rep_def radix_insert_value_def)
qed

lemma radix_remove_rep:
  assumes "radix_rep tree m"
  shows "fst (radix_remove tree k) = (m k \<noteq> None) \<and> radix_rep (snd (radix_remove tree k)) (m(k := None))"
proof -
  let ?r = "kRoot tree"
  have rep: "radix_wf ?r" "kPrefix ?r = []" "\<And>k v. binds ?r k v \<longleftrightarrow> m k = Some v" "finite (dom m)"
      "kSize tree = int (card (dom m))"
    using assms by (auto simp: radix_rep_def)
  have same: "m(k := None) = m" if "m k = None" using that by auto
  show ?thesis
  proof (cases "radix_walk ?r k")
    case None
    then have "\<forall>v. m k \<noteq> Some v" using radix_walk_ok[OF rep(1), of k] rep(3) by simp
    then have "m k = None" by (cases "m k") auto
    then show ?thesis using None assms same by (simp add: radix_remove_def)
  next
    case (Some p)
    then have p: "valid_path ?r p" "path_key ?r p = k" "\<And>v. m k = Some v \<longleftrightarrow> kValue (node_at ?r p) = Some v"
      using radix_walk_ok[OF rep(1), of k] rep(3) by auto
    have val: "kValue (node_at ?r p) = m k" using p(3) by (intro option_eqI) simp
    show ?thesis
    proof (cases "m k")
      case None
      then show ?thesis using Some val assms same by (simp add: radix_remove_def)
    next
      case (Some v)
      let ?root = "radix_merge_pass (set_at ?r p (RNode (kPrefix (node_at ?r p)) None (kChildren (node_at ?r p)))) p"
      have ok: "radix_wf ?root" "kPrefix ?root = []"
          "\<And>j w. full ?root j w \<longleftrightarrow> (if j = k then False else full ?r j w)"
        using merge_pass_ok[OF rep(1) p(1)] rep(2) p(2) by auto
      have b: "binds ?root j w \<longleftrightarrow> (m(k := None)) j = Some w" for j w
        using ok(3)[of j w] ok(2) rep(2,3) by (simp add: full_def)
      have "0 < card (dom m)" using Some rep(4) by (auto simp: card_gt_0_iff)
      then have "int (card (dom (m(k := None)))) = int (card (dom m)) - 1"
        using Some rep(4) by (simp add: card_Diff_singleton domIff)
      moreover have "radix_remove tree k = (True, \<lparr>kRoot = ?root, kSize = kSize tree - 1\<rparr>)"
        using \<open>radix_walk ?r k = Some p\<close> val Some by (simp add: radix_remove_def Let_def)
      ultimately show ?thesis using ok b rep(4,5) Some by (simp add: radix_rep_def)
    qed
  qed
qed

lemma radix_insert_rep:
  "radix_rep tree m \<Longrightarrow> radix_rep (radix_insert tree k v) (m(k := v))"
  using radix_insert_value_rep[of tree m k] radix_remove_rep[of tree m k]
  by (cases v) (auto simp: radix_insert_def)

section \<open>Compression\<close>

text \<open>A node below the root has a value or at least two children.\<close>

definition dense :: "'v radix_node \<Rightarrow> bool" where
  "dense n \<longleftrightarrow> kValue n \<noteq> None \<or> 2 \<le> length (kChildren n)"

inductive tight :: "'v radix_node \<Rightarrow> bool" where
  "\<forall>c\<in>set cs. dense c \<and> tight c \<Longrightarrow> tight (RNode p v cs)"

lemma dense_RNode: "dense (RNode p v cs) \<longleftrightarrow> v \<noteq> None \<or> 2 \<le> length cs"
  by (simp add: dense_def)

lemma tight_node: "tight n \<longleftrightarrow> (\<forall>c\<in>set (kChildren n). dense c \<and> tight c)"
  by (cases n) (auto simp: tight.simps[of n] intro: tight.intros elim: tight.cases)

lemma tight_update:
  assumes "tight n" "dense c" "tight c"
  shows "tight (RNode p v ((kChildren n)[i := c]))"
  using assms tight_node[of n] by (intro tight.intros) (auto dest!: set_update_subset_insert[THEN subsetD])

lemma splice_in_set: "set (splice_in xs i x) = insert x (set xs)"
proof -
  have "set xs = set (take (nat i) xs) \<union> set (drop (nat i) xs)" by (metis append_take_drop_id set_append)
  then show ?thesis by (auto simp: splice_in_def)
qed

lemma splice_in_length: "length (splice_in xs i x) = Suc (length xs)"
  by (simp add: splice_in_def)

lemma radix_split_tight:
  assumes "tight c" "dense c"
  shows "tight (radix_split c m r v) \<and> dense (radix_split c m r v)"
proof -
  let ?c1 = "RNode (drop m (kPrefix c)) (kValue c) (kChildren c)"
  have c1: "dense ?c1" "tight ?c1"
    using assms tight_node[of c] by (auto simp: dense_def intro: tight.intros)
  have "tight (radix_makeNode (drop m r) (Some v))" unfolding radix_makeNode_def by (rule tight.intros) simp
  moreover have "dense (radix_makeNode (drop m r) (Some v))" by (simp add: radix_makeNode_def dense_def)
  ultimately show ?thesis using c1
    by (auto simp: radix_split_def Let_def dense_RNode splice_in_set splice_in_length intro!: tight.intros)
qed

lemma radix_insert_at_tight:
  "radix_wf n \<Longrightarrow> tight n \<Longrightarrow> radix_insert_at n r v = (n', a) \<Longrightarrow> tight n' \<and> (dense n \<longrightarrow> dense n')"
proof (induction n r v arbitrary: n' a rule: radix_insert_at.induct)
  case (1 n r v)
  note unf = radix_insert_at.simps[of n r v]
  have sib: "siblings (kChildren n)" and wf: "\<forall>c\<in>set (kChildren n). radix_wf c"
    using radix_wf_children[OF 1(2)] by auto
  have kids: "\<forall>c\<in>set (kChildren n). dense c \<and> tight c" using 1(3) tight_node by blast
  show ?case
  proof (cases "r = []")
    case True
    then have "n' = RNode (kPrefix n) (Some v) (kChildren n)" using 1(4) unf by auto
    then show ?thesis using kids by (auto simp: dense_def intro: tight.intros)
  next
    case r: False
    show ?thesis
    proof (cases rule: radix_find_cases[OF sib, of "hd r", case_names none found])
      case none
      let ?leaf = "radix_makeNode r (Some v)"
      have "n' = RNode (kPrefix n) (kValue n) (splice_in (kChildren n) (radix_findInsertionIndex (kChildren n) (hd r)) ?leaf)"
        using 1(4) r none(1) unf by (auto simp: Let_def)
      moreover have "dense ?leaf" "tight ?leaf" by (auto simp: radix_makeNode_def dense_def intro: tight.intros)
      ultimately show ?thesis using kids
        by (auto simp: splice_in_set splice_in_length dense_def[of n] dense_def[of "RNode _ (kValue n) _"] intro!: tight.intros)
    next
      case (found i)
      let ?c = "kChildren n ! i"
      have c: "dense ?c" "tight ?c" "radix_wf ?c" using found(2) kids wf by auto
      obtain c' where c': "n' = RNode (kPrefix n) (kValue n) ((kChildren n)[i := c'])" "tight c'" "dense c'"
      proof (cases "radix_common r (kPrefix ?c) = length (kPrefix ?c)")
        case True
        obtain c1 b where rec: "radix_insert_at ?c (drop (radix_common r (kPrefix ?c)) r) v = (c1, b)" by force
        then have "tight c1 \<and> (dense ?c \<longrightarrow> dense c1)"
          using 1(1)[OF r refl refl refl _ refl refl, of c1 b] found c True by auto
        moreover have "n' = RNode (kPrefix n) (kValue n) ((kChildren n)[i := c1])"
          using 1(4) r found(1) True rec unf by (auto simp: Let_def)
        ultimately show thesis using c(1) that by blast
      next
        case False
        have "n' = RNode (kPrefix n) (kValue n)
            ((kChildren n)[i := radix_split ?c (radix_common r (kPrefix ?c)) r v])"
          using 1(4) r found(1) False unf by (auto simp: Let_def)
        then show thesis using radix_split_tight[OF c(2,1)] that by blast
      qed
      then show ?thesis using tight_update[OF 1(3)] by (simp add: dense_def)
    qed
  qed
qed

lemma tight_node_at: "tight n \<Longrightarrow> valid_path n p \<Longrightarrow> tight (node_at n p) \<and> (p \<noteq> [] \<longrightarrow> dense (node_at n p))"
proof (induction p arbitrary: n)
  case (Cons i p)
  have "dense (kChildren n ! i) \<and> tight (kChildren n ! i)" using Cons.prems tight_node[of n] by auto
  then show ?case using Cons.IH[of "kChildren n ! i"] Cons.prems(2) by (cases p) auto
qed simp

lemma tight_set_at:
  "tight n \<Longrightarrow> valid_path n p \<Longrightarrow> tight m \<Longrightarrow> (p \<noteq> [] \<longrightarrow> dense m) \<Longrightarrow>
   tight (set_at n p m) \<and> (p \<noteq> [] \<longrightarrow> dense n \<longrightarrow> dense (set_at n p m))"
proof (induction p arbitrary: n)
  case (Cons i p)
  have c: "dense (kChildren n ! i)" "tight (kChildren n ! i)" using Cons.prems(1,2) tight_node[of n] by auto
  have "tight (set_at (kChildren n ! i) p m) \<and> dense (set_at (kChildren n ! i) p m)"
    using Cons.IH[of "kChildren n ! i"] Cons.prems c by (cases p) auto
  then show ?case using tight_update[OF Cons.prems(1)] by (simp add: dense_def)
qed simp

lemma radix_absorb_tight:
  assumes "tight n" "length (kChildren n) = 1"
  shows "tight (radix_absorb n) \<and> dense (radix_absorb n)"
proof -
  obtain c where c: "kChildren n = [c]" using assms(2) by (auto simp: length_Suc_conv)
  then have "dense c" "tight c" using assms(1) tight_node[of n] by auto
  then show ?thesis using c tight_node[of c] by (auto simp: radix_absorb_def dense_def intro: tight.intros)
qed

lemma merge_pass_tight:
  assumes "tight root" "valid_path root path"
  defines "node \<equiv> node_at root path"
  defines "root1 \<equiv> set_at root path (RNode (kPrefix node) None (kChildren node))"
  shows "tight (radix_merge_pass root1 path)"
proof -
  let ?clear = "RNode (kPrefix node) None (kChildren node)"
  have node: "tight node" using tight_node_at[OF assms(1,2)] by (simp add: node_def)
  then have clear: "tight ?clear" using tight_node[of node] by (auto intro: tight.intros)
  have at1: "node_at root1 path = ?clear" unfolding root1_def using assms(2) by (rule node_at_set_at)
  consider (leaf) "kChildren node = []" "path \<noteq> []"
    | (one) "length (kChildren node) = 1" "path \<noteq> []"
    | (plain) "path = [] \<or> 2 \<le> length (kChildren node)" by (cases "kChildren node"; cases "tl (kChildren node)") auto
  then show ?thesis
  proof cases
    case plain
    then have "radix_merge_pass root1 path = root1" using at1 by (auto simp: radix_merge_pass_def Let_def)
    moreover have "path \<noteq> [] \<longrightarrow> dense ?clear" using plain by (auto simp: dense_def)
    ultimately show ?thesis unfolding root1_def using tight_set_at[OF assms(1,2) clear] by simp
  next
    case one
    have "kChildren node \<noteq> []" using one(1) by auto
    then have "radix_merge_pass root1 path = set_at root path (radix_absorb ?clear)"
      using one at1 assms(2) by (simp add: radix_merge_pass_def Let_def root1_def set_at_twice)
    then show ?thesis using tight_set_at[OF assms(1,2)] radix_absorb_tight[OF clear] one(1) by simp
  next
    case leaf
    obtain pp i where path: "path = pp @ [i]" using leaf(2) by (cases path rule: rev_cases) auto
    let ?p = "node_at root pp"
    have vp: "valid_path root pp" "i < length (kChildren ?p)"
      using assms(2) by (auto simp: path path_append)
    have p: "tight ?p" "pp \<noteq> [] \<longrightarrow> dense ?p" using tight_node_at[OF assms(1) vp(1)] by auto
    let ?q = "RNode (kPrefix ?p) (kValue ?p) (splice_out (kChildren ?p) i)"
    let ?q2 = "if length path \<ge> 2 \<and> kValue ?q = None \<and> length (kChildren ?q) = 1 then radix_absorb ?q else ?q"
    have "set (splice_out (kChildren ?p) i) \<subseteq> set (kChildren ?p)"
      by (auto simp: splice_out_def dest: in_set_takeD in_set_dropD)
    then have q: "tight ?q" using p(1) tight_node[of ?p] by (intro tight.intros) auto
    have len: "length (kChildren ?p) = Suc (length (splice_out (kChildren ?p) i))"
      using vp(2) by (auto simp: splice_out_def)
    have q2: "tight ?q2" using q radix_absorb_tight[OF q] by (split if_split) blast
    have "dense ?q2" if pp: "pp \<noteq> []"
    proof (cases "kValue ?q = None \<and> length (kChildren ?q) = 1")
      case True
      then have "?q2 = radix_absorb ?q" using pp by (cases pp) (auto simp: path)
      then show ?thesis using radix_absorb_tight[OF q] True by simp
    next
      case False
      then have "?q2 = ?q" by auto
      moreover have "dense ?q" using p(2) pp len False by (auto simp: dense_RNode dense_def[of ?p])
      ultimately show ?thesis by simp
    qed
    moreover have "root1 = set_at root pp (RNode (kPrefix ?p) (kValue ?p) ((kChildren ?p)[i := ?clear]))"
      unfolding root1_def path using vp(1) by (simp add: set_at_append)
    then have "radix_merge_pass root1 path = set_at root pp ?q2"
      using leaf at1 vp path by (simp add: radix_merge_pass_def node_at_set_at set_at_twice Let_def splice_out_def)
    ultimately show ?thesis using tight_set_at[OF assms(1) vp(1) q2] by simp
  qed
qed

lemma radix_exec_tight:
  assumes "radix_wf (kRoot t)" "tight (kRoot t)"
  shows "tight (kRoot (radix_insert t k v))" "tight (kRoot (snd (radix_remove t k)))"
proof -
  show remove: "tight (kRoot (snd (radix_remove t k)))"
  proof (cases "radix_walk (kRoot t) k")
    case (Some p)
    then have "valid_path (kRoot t) p" using radix_walk_ok[OF assms(1), of k] by simp
    then show ?thesis using Some assms(2) merge_pass_tight by (auto simp: radix_remove_def Let_def)
  qed (simp add: radix_remove_def assms(2))
  show "tight (kRoot (radix_insert t k v))"
  proof (cases v)
    case None
    then show ?thesis using remove by (simp add: radix_insert_def)
  next
    case (Some x)
    obtain n a where ins: "radix_insert_at (kRoot t) k x = (n, a)" by force
    then show ?thesis using Some radix_insert_at_tight[OF assms ins] by (simp add: radix_insert_def radix_insert_value_def)
  qed
qed

text \<open>The number of nodes below the root.\<close>

fun node_count :: "'v radix_node \<Rightarrow> nat" where
  "node_count (RNode p v cs) = sum_list (map (\<lambda>c. Suc (node_count c)) cs)"

section \<open>Traversals\<close>

text \<open>What the depth-first search lists, by recursion on the tree.\<close>

fun listing :: "'v radix_node \<Rightarrow> nat list \<Rightarrow> (nat list \<times> 'v) list" where
  "listing (RNode p v cs) acc =
     (case v of None \<Rightarrow> [] | Some x \<Rightarrow> [(acc, x)]) @ concat (map (\<lambda>c. listing c (acc @ kPrefix c)) cs)"

lemma listing_node:
  "listing n acc = (case kValue n of None \<Rightarrow> [] | Some x \<Rightarrow> [(acc, x)]) @
     concat (map (\<lambda>c. listing c (acc @ kPrefix c)) (kChildren n))"
  by (cases n) simp

lemma radix_entries_loop_listing: "radix_entries_loop st = concat (map (\<lambda>(n, acc). listing n acc) st)"
proof (induction st rule: radix_entries_loop.induct)
  case (2 n acc st)
  then show ?case using listing_node[of n acc] by (simp add: comp_def)
qed simp

lemma radix_values_append: "radix_values_loop (ns @ ms) = radix_values_loop ns @ radix_values_loop ms"
  by (induction ns rule: radix_values_loop.induct) simp_all

lemma radix_values_listing: "map snd (listing n acc) = radix_values_loop [n]"
proof -
  have all: "radix_values_loop cs = concat (map (\<lambda>c. radix_values_loop [c]) cs)" for cs :: "'a radix_node list"
  proof (induction cs)
    case (Cons c cs)
    then show ?case using radix_values_append[of "[c]" cs] by simp
  qed simp
  show "map snd (listing n acc) = radix_values_loop [n]"
  proof (induction n acc rule: listing.induct)
    case (1 p v cs acc)
    have "map snd (listing (RNode p v cs) acc) =
        (case v of None \<Rightarrow> [] | Some x \<Rightarrow> [x]) @ concat (map (\<lambda>c. map snd (listing c (acc @ kPrefix c))) cs)"
      by (simp add: map_concat comp_def split: option.split)
    also have "map (\<lambda>c. map snd (listing c (acc @ kPrefix c))) cs = map (\<lambda>c. radix_values_loop [c]) cs"
      using 1 by simp
    finally show ?case using all[of cs] by simp
  qed
qed

lemma listing_set: "(k, v) \<in> set (listing n acc) \<longleftrightarrow> (\<exists>j. k = acc @ j \<and> binds n j v)"
proof (induction n acc arbitrary: k rule: listing.induct)
  case (1 p w cs acc)
  have "(k, v) \<in> set (listing (RNode p w cs) acc) \<longleftrightarrow>
      k = acc \<and> w = Some v \<or> (\<exists>c\<in>set cs. \<exists>j. k = (acc @ kPrefix c) @ j \<and> binds c j v)"
    using 1 by (auto split: option.splits)
  also have "\<dots> \<longleftrightarrow> (\<exists>j. k = acc @ j \<and> binds (RNode p w cs) j v)"
    unfolding binds_full full_def by auto
  finally show ?case .
qed

lemma list_less_append: "(acc @ xs :: nat list) < acc @ ys \<longleftrightarrow> xs < ys"
  by (induction acc) auto

lemma list_less_first: "xs \<noteq> [] \<Longrightarrow> ys \<noteq> [] \<Longrightarrow> hd xs < hd ys \<Longrightarrow> (xs :: nat list) < ys"
  by (cases xs; cases ys) auto

text \<open>The listing is in strictly increasing order of the keys.\<close>

lemma listing_sorted:
  "radix_wf n \<Longrightarrow> sorted_wrt (<) (map fst (listing n acc))"
proof (induction n acc rule: listing.induct)
  case (1 p v cs acc)
  have sib: "siblings cs" and wf: "\<forall>c\<in>set cs. radix_wf c"
    using radix_wf_children[OF 1(2)] by auto
  have below: "acc < k" if k: "(k, w) \<in> set (listing c (acc @ kPrefix c))" "c \<in> set cs" for k w c
  proof -
    obtain j where "k = acc @ kPrefix c @ j" using k(1) listing_set[of k w c "acc @ kPrefix c"] by auto
    moreover have "kPrefix c \<noteq> []" using sib k(2) by (simp add: siblings_def)
    ultimately show ?thesis using list_less_append[of acc "[]" "kPrefix c @ j"] by (cases "kPrefix c") auto
  qed
  have across: "k < k'" if k: "(k, w) \<in> set (listing c (acc @ kPrefix c))" "(k', w') \<in> set (listing d (acc @ kPrefix d))"
      "c \<in> set cs" "d \<in> set cs" "first c < first d" for k k' w w' c d
  proof -
    obtain i j where "k = acc @ kPrefix c @ i" "k' = acc @ kPrefix d @ j"
      using k(1,2) listing_set[of k w c "acc @ kPrefix c"] listing_set[of k' w' d "acc @ kPrefix d"] by auto
    moreover have "kPrefix c \<noteq> []" "kPrefix d \<noteq> []" using sib k(3,4) by (auto simp: siblings_def)
    ultimately show ?thesis using k(5) by (simp add: list_less_append list_less_first first_def)
  qed
  have rest: "sorted_wrt (<) (map fst (concat (map (\<lambda>c. listing c (acc @ kPrefix c)) ds)))"
    if "siblings ds" "set ds \<subseteq> set cs" for ds
    using that
  proof (induction ds)
    case (Cons c ds)
    have sib': "siblings ds" "\<And>d. d \<in> set ds \<Longrightarrow> first c < first d" using Cons.prems(1) by (auto simp: siblings_def)
    have "c \<in> set cs" using Cons.prems(2) by simp
    then have "sorted_wrt (<) (map fst (listing c (acc @ kPrefix c)))" using 1(1) wf by blast
    moreover have "x < y" if x: "x \<in> set (map fst (listing c (acc @ kPrefix c)))"
      and y: "y \<in> set (map fst (concat (map (\<lambda>c. listing c (acc @ kPrefix c)) ds)))" for x y
    proof -
      obtain w where "(x, w) \<in> set (listing c (acc @ kPrefix c))" using x by auto
      moreover obtain d w' where "d \<in> set ds" "(y, w') \<in> set (listing d (acc @ kPrefix d))" using y by auto
      ultimately show ?thesis using across sib'(2) Cons.prems(2) by (meson list.set_intros subsetD)
    qed
    ultimately show ?case
      using Cons.IH[OF sib'(1)] Cons.prems(2) by (simp add: sorted_wrt_append)
  qed simp
  have "sorted_wrt (<) (map fst (concat (map (\<lambda>c. listing c (acc @ kPrefix c)) cs)))"
    using sib by (rule rest) simp
  then show ?case using below by (cases v) (auto simp del: map_concat)
qed

lemma radix_prefix_walk_ok:
  "radix_wf n \<Longrightarrow> case radix_prefix_walk n r of None \<Rightarrow> \<forall>k v. prefix r k \<longrightarrow> \<not> binds n k v
   | Some m \<Rightarrow> radix_wf m \<and> (\<exists>km. \<forall>k v. binds n k v \<and> prefix r k \<longleftrightarrow> (\<exists>j. k = km @ j \<and> binds m j v))"
proof (induction n r rule: radix_prefix_walk.induct)
  case (1 n r)
  note unf = radix_prefix_walk.simps[of n r]
  have sib: "siblings (kChildren n)" and wf: "\<forall>c\<in>set (kChildren n). radix_wf c"
    using radix_wf_children[OF 1(2)] by auto
  show ?case
  proof (cases "r = []")
    case True
    moreover have "\<exists>km. \<forall>k v. binds n k v \<longleftrightarrow> (\<exists>j. k = km @ j \<and> binds n j v)"
      by (rule exI[of _ "[]"]) simp
    ultimately show ?thesis using unf 1(2) by simp
  next
    case r: False
    have start: "k \<noteq> [] \<and> hd k = hd r" if "prefix r k" for k using that r by (auto simp: prefix_def)
    show ?thesis
    proof (cases rule: radix_find_cases[OF sib, of "hd r", case_names none found])
      case none
      have "\<not> binds n k v" if "prefix r k" for k v
        using start[OF that] none(2) by (intro binds_no_child[OF sib]) auto
      then show ?thesis using unf r none(1) by simp
    next
      case (found i)
      let ?c = "kChildren n ! i" and ?p = "kPrefix (kChildren n ! i)"
      have c: "radix_wf ?c" using found(2) wf by auto
      have eq: "binds n k v \<longleftrightarrow> full ?c k v" if "prefix r k" for k v
        using start[OF that] found(3) by (intro binds_child[OF sib _ found(2)]) auto
      have "prefix ?p r" if "length ?p \<le> length r" "prefix r ?p" using that by (auto simp: prefix_def)
      then consider (short) "length r < length ?p" "prefix r ?p" | (long) "length ?p \<le> length r" "prefix ?p r"
        | (off) "\<not> prefix r ?p" "\<not> prefix ?p r" using prefix_length_le[of ?p r] not_le by blast
      then show ?thesis
      proof cases
        case short
        then have "radix_prefix_walk n r = Some ?c"
          using unf r found radix_matches_prefix[of 0 r ?p] by (simp add: Let_def)
        moreover have "binds n k v \<and> prefix r k \<longleftrightarrow> (\<exists>j. k = ?p @ j \<and> binds ?c j v)" for k v
          using eq[of k v] short(2) by (auto simp: full_def prefix_prefix)
        ultimately show ?thesis using c by auto
      next
        case off
        then have "radix_prefix_walk n r = None"
          using unf r found radix_matches_prefix[of 0 r ?p] radix_matches_prefix[of 0 ?p r]
          by (cases "length r < length ?p") (auto simp: Let_def)
        moreover have "\<not> binds n k v" if "prefix r k" for k v
        proof
          assume "binds n k v"
          then have "prefix ?p k" using eq[OF that] by (simp add: full_prefix)
          then show False using that off prefix_same_cases by blast
        qed
        ultimately show ?thesis by simp
      next
        case long
        let ?d = "drop (length ?p) r"
        have rp: "r = ?p @ ?d" using long(2) by (auto simp: prefix_def)
        have walk: "radix_prefix_walk n r = radix_prefix_walk ?c ?d"
          using unf r found long radix_matches_prefix[of 0 ?p r] by (simp add: Let_def)
        have ih: "case radix_prefix_walk ?c ?d of None \<Rightarrow> \<forall>k v. prefix ?d k \<longrightarrow> \<not> binds ?c k v
          | Some m \<Rightarrow> radix_wf m \<and> (\<exists>km. \<forall>k v. binds ?c k v \<and> prefix ?d k \<longleftrightarrow> (\<exists>j. k = km @ j \<and> binds m j v))"
          using 1(1)[OF r refl refl _ refl refl, unfolded found(1) nat_int] long
            radix_matches_prefix[of 0 ?p r] c by simp
        have step: "binds n k v \<and> prefix r k \<longleftrightarrow> (\<exists>j. k = ?p @ j \<and> binds ?c j v \<and> prefix ?d j)" for k v
        proof -
          have "prefix r (?p @ j) \<longleftrightarrow> prefix ?d j" for j by (subst rp) simp
          then show ?thesis using eq[of k v] by (auto simp: full_def)
        qed
        show ?thesis
        proof (cases "radix_prefix_walk ?c ?d")
          case None
          then have "\<not> binds n k v" if "prefix r k" for k v using step[of k v] ih that by auto
          then show ?thesis using None walk by simp
        next
          case (Some m)
          then obtain km where km: "radix_wf m" "\<And>k v. binds ?c k v \<and> prefix ?d k \<longleftrightarrow> (\<exists>j. k = km @ j \<and> binds m j v)"
            using ih by auto
          have "binds n k v \<and> prefix r k \<longleftrightarrow> (\<exists>j. k = (?p @ km) @ j \<and> binds m j v)" for k v
            using step[of k v] km(2)[of _ v] by auto
          then have "\<exists>km. \<forall>k v. binds n k v \<and> prefix r k \<longleftrightarrow> (\<exists>j. k = km @ j \<and> binds m j v)" by blast
          then show ?thesis using km(1) Some walk by simp
        qed
      qed
    qed
  qed
qed

text \<open>Two lists in strictly increasing key order with the same elements are the same list.\<close>

lemma sorted_entries_unique:
  fixes xs ys :: "(nat list \<times> 'v) list"
  assumes "sorted_wrt (<) (map fst xs)" "sorted_wrt (<) (map fst ys)" "set xs = set ys"
  shows "xs = ys"
proof -
  have "distinct (map fst xs)" "sorted (map fst xs)" "distinct (map fst ys)" "sorted (map fst ys)"
    using assms(1,2) by (auto simp: strict_sorted_iff)
  moreover have "inj_on fst (set xs \<union> set ys)" using calculation(1) assms(3) by (simp add: distinct_map)
  ultimately show ?thesis using assms(3) by (intro map_sorted_distinct_set_unique)
qed

section \<open>Sessions\<close>

datatype 'v radix_call = RInsert "nat list" "'v option" | RLookup "nat list" | RHas "nat list"
  | RRemove "nat list" | RSize

datatype 'v radix_answer = RUnit | RValue "'v option" | RBool bool | RNumber int

fun radix_exec :: "'v radix_call \<Rightarrow> 'v radix_tree \<Rightarrow> 'v radix_answer \<times> 'v radix_tree" where
  "radix_exec (RInsert k v) t = (RUnit, radix_insert t k v)"
| "radix_exec (RLookup k) t = (RValue (radix_lookup t k), t)"
| "radix_exec (RHas k) t = (RBool (radix_has t k), t)"
| "radix_exec (RRemove k) t = map_prod RBool id (radix_remove t k)"
| "radix_exec RSize t = (RNumber (radix_size t), t)"

fun map_exec :: "'v radix_call \<Rightarrow> (nat list \<rightharpoonup> 'v) \<Rightarrow> 'v radix_answer \<times> (nat list \<rightharpoonup> 'v)" where
  "map_exec (RInsert k v) m = (RUnit, m(k := v))"
| "map_exec (RLookup k) m = (RValue (m k), m)"
| "map_exec (RHas k) m = (RBool (m k \<noteq> None), m)"
| "map_exec (RRemove k) m = (RBool (m k \<noteq> None), m(k := None))"
| "map_exec RSize m = (RNumber (int (card (dom m))), m)"

lemma radix_exec_rep:
  assumes "radix_rep t m"
  shows "fst (radix_exec c t) = fst (map_exec c m) \<and> radix_rep (snd (radix_exec c t)) (snd (map_exec c m))"
  using assms radix_lookup_rep[OF assms] radix_remove_rep[OF assms] radix_insert_rep[OF assms]
  by (cases c) (auto simp: radix_has_def radix_size_def radix_rep_def)

lemma radix_session_rep:
  assumes "radix_rep t m"
  shows "fst (run_calls radix_exec cs t) = fst (run_calls map_exec cs m) \<and>
    radix_rep (snd (run_calls radix_exec cs t)) (snd (run_calls map_exec cs m))"
  by (rule run_calls_refines[where R = radix_rep]) (use radix_exec_rep assms in blast)+

section \<open>Properties\<close>

text \<open>
  C2. Every session of \<open>insert\<close>, \<open>lookup\<close>, \<open>has\<close>, \<open>remove\<close> and \<open>size\<close> on a fresh tree answers as the same
  calls on a finite map do, inserting \<open>undefined\<close> being removal; splits, merges and the removal of
  emptied leaves are never visible.
\<close>

theorem radix_session_refines_map:
  "fst (run_calls radix_exec cs radix_make) = fst (run_calls map_exec cs Map.empty) \<and>
   radix_rep (snd (run_calls radix_exec cs radix_make)) (snd (run_calls map_exec cs Map.empty))"
  by (rule radix_session_rep[OF radix_make_rep])

text \<open>
  C13. After any session \<open>entries\<close> lists exactly the bindings of the map, each key once, in strictly
  increasing lexicographic order of the code units.
\<close>

theorem radix_entries_sorted:
  fixes cs :: "'v radix_call list"
  shows "sorted_wrt (<) (map fst (radix_entries (snd (run_calls radix_exec cs radix_make)))) \<and>
    set (radix_entries (snd (run_calls radix_exec cs radix_make)))
      = {(k, v). snd (run_calls map_exec cs Map.empty) k = Some v}"
proof -
  let ?t = "snd (run_calls radix_exec cs (radix_make :: 'v radix_tree))"
  have rep: "radix_rep ?t (snd (run_calls map_exec cs Map.empty))"
    using radix_session_rep[OF radix_make_rep] by blast
  have e: "radix_entries ?t = listing (kRoot ?t) []"
    by (simp add: radix_entries_def radix_entries_loop_listing)
  show ?thesis unfolding e
    using listing_sorted[of "kRoot ?t" "[]"] listing_set[of _ _ "kRoot ?t" "[]"] rep
    by (auto simp: radix_rep_def)
qed

text \<open>
  After any session \<open>prefixMatch\<close> returns the values of exactly those \<open>entries\<close> whose key begins with
  the prefix, in the same order, also when the prefix ends inside the compressed prefix of a node.
\<close>

theorem radix_prefixMatch_filters:
  fixes cs :: "'v radix_call list"
  shows "radix_prefixMatch (snd (run_calls radix_exec cs radix_make)) pre =
    map snd (filter (\<lambda>e. prefix pre (fst e)) (radix_entries (snd (run_calls radix_exec cs radix_make))))"
proof -
  let ?t = "snd (run_calls radix_exec cs (radix_make :: 'v radix_tree))"
  have wf: "radix_wf (kRoot ?t)"
    using radix_session_rep[OF radix_make_rep, of cs] by (simp add: radix_rep_def)
  have e: "radix_entries ?t = listing (kRoot ?t) []"
    by (simp add: radix_entries_def radix_entries_loop_listing)
  have mem: "(k, v) \<in> set (listing (kRoot ?t) []) \<longleftrightarrow> binds (kRoot ?t) k v" for k v
    using listing_set[of k v "kRoot ?t" "[]"] by simp
  let ?f = "filter (\<lambda>e. prefix pre (fst e)) (listing (kRoot ?t) [])"
  show ?thesis
  proof (cases "radix_prefix_walk (kRoot ?t) pre")
    case None
    then have "\<forall>k v. prefix pre k \<longrightarrow> \<not> binds (kRoot ?t) k v" using radix_prefix_walk_ok[OF wf, of pre] by simp
    then have "?f = []" using mem by (auto simp: filter_empty_conv)
    then show ?thesis using None e by (simp add: radix_prefixMatch_def)
  next
    case (Some m)
    then obtain km where km: "radix_wf m" "\<And>k v. binds (kRoot ?t) k v \<and> prefix pre k \<longleftrightarrow> (\<exists>j. k = km @ j \<and> binds m j v)"
      using radix_prefix_walk_ok[OF wf, of pre] by auto
    have "listing m km = ?f"
    proof (rule sorted_entries_unique)
      show "sorted_wrt (<) (map fst ?f)"
        using listing_sorted[OF wf, of "[]"] by (simp add: sorted_wrt_map sorted_wrt_filter)
      have "(k, v) \<in> set (listing m km) \<longleftrightarrow> (k, v) \<in> set ?f" for k v
        using km(2)[of k v] mem[of k v] listing_set[of k v m km] by auto
      then show "set (listing m km) = set ?f" by auto
    qed (rule listing_sorted[OF km(1)])
    then show ?thesis
      using Some e radix_values_listing[of m km] by (simp add: radix_prefixMatch_def)
  qed
qed

lemma sum_children_bound:
  fixes f g :: "'a \<Rightarrow> nat"
  assumes "\<forall>c\<in>set cs. f c + 2 \<le> 2 * g c"
  shows "sum_list (map (\<lambda>c. Suc (f c)) cs) + length cs \<le> 2 * sum_list (map g cs)"
  using assms by (induction cs) auto

lemma node_count_bound:
  "tight n \<Longrightarrow> node_count n \<le> 2 * length (listing n acc) \<and> (dense n \<longrightarrow> node_count n + 2 \<le> 2 * length (listing n acc))"
proof (induction n arbitrary: acc)
  case (RNode p v cs)
  have kids: "\<forall>c\<in>set cs. dense c \<and> tight c" using RNode.prems tight_node[of "RNode p v cs"] by simp
  have "\<forall>c\<in>set cs. node_count c + 2 \<le> 2 * length (listing c (acc @ kPrefix c))"
    using RNode.IH kids by blast
  then have "node_count (RNode p v cs) + length cs \<le> 2 * sum_list (map (\<lambda>c. length (listing c (acc @ kPrefix c))) cs)"
    using sum_children_bound[of cs node_count "\<lambda>c. length (listing c (acc @ kPrefix c))"] by simp
  moreover have "length (listing (RNode p v cs) acc) =
      (if v = None then 0 else 1) + sum_list (map (\<lambda>c. length (listing c (acc @ kPrefix c))) cs)"
    by (simp add: length_concat comp_def split: option.split)
  ultimately show ?case by (auto simp: dense_RNode)
qed

lemma radix_size_listing:
  assumes "radix_rep t m"
  shows "kSize t = int (length (listing (kRoot t) []))"
proof -
  let ?l = "listing (kRoot t) []"
  have "distinct (map fst ?l)"
    using listing_sorted[of "kRoot t" "[]"] assms by (simp add: radix_rep_def strict_sorted_iff)
  then have "length ?l = card (set (map fst ?l))" using distinct_card by fastforce
  also have "set (map fst ?l) = dom m"
  proof -
    have l: "(k, v) \<in> set ?l \<longleftrightarrow> m k = Some v" for k v
      using assms listing_set[of k v "kRoot t" "[]"] unfolding radix_rep_def by simp
    have "k \<in> set (map fst ?l) \<longleftrightarrow> k \<in> dom m" for k
    proof
      assume "k \<in> set (map fst ?l)"
      then obtain v where "(k, v) \<in> set ?l" by auto
      then show "k \<in> dom m" using l by (simp add: domIff)
    next
      assume "k \<in> dom m"
      then obtain v where "m k = Some v" by auto
      then show "k \<in> set (map fst ?l)" using l[of k v] by (metis fst_conv image_eqI image_set)
    qed
    then show ?thesis by (rule set_eqI)
  qed
  finally show ?thesis using assms by (simp add: radix_rep_def)
qed

text \<open>
  C15. The tree stays compressed: after any session, every node below the root holds a value or has at
  least two children, so there are at most twice as many nodes as keys: splits and removals leave no
  chains and no empty leaves behind.
\<close>

theorem radix_stays_compressed:
  fixes cs :: "'v radix_call list"
  shows "tight (kRoot (snd (run_calls radix_exec cs radix_make))) \<and>
    int (node_count (kRoot (snd (run_calls radix_exec cs radix_make))))
      \<le> 2 * kSize (snd (run_calls radix_exec cs radix_make))"
proof -
  let ?I = "\<lambda>t :: 'v radix_tree. (\<exists>m. radix_rep t m) \<and> tight (kRoot t)"
  let ?t = "snd (run_calls radix_exec cs (radix_make :: 'v radix_tree))"
  have "?I ?t"
  proof (rule run_calls_invariant)
    show "?I radix_make"
      using radix_make_rep by (auto simp: radix_make_def radix_makeNode_def intro: tight.intros)
    fix c and t :: "'v radix_tree"
    assume t: "?I t"
    then obtain m where m: "radix_rep t m" by blast
    have "tight (kRoot (snd (radix_exec c t)))"
      using t m radix_exec_tight[of t] by (cases c) (auto simp: radix_rep_def)
    then show "?I (snd (radix_exec c t))" using radix_exec_rep[OF m, of c] by blast
  qed
  then obtain m where m: "radix_rep ?t m" and tight: "tight (kRoot ?t)" by blast
  have "int (node_count (kRoot ?t)) \<le> 2 * int (length (listing (kRoot ?t) []))"
    using node_count_bound[OF tight, of "[]"] by linarith
  then show ?thesis using tight radix_size_listing[OF m] by simp
qed

end
