(* ===== verification/OrderedMap.thy ===== *)
theory OrderedMap
  imports Interfaces
begin

text \<open>
  \<open>src/src/OrderedMap.ts\<close>: the sorted map, an AVL tree whose nodes are slots of parallel arrays. The
  topology arrays are \<open>Int32Array\<close>s, keys and values are plain arrays of options (\<^term>\<open>None\<close> is
  \<open>undefined\<close>, which is also a legal value). The comparator is a field of the record; it returns a
  number and does not throw. The recursive functions and the descents follow indices, so nothing in
  the code bounds them: they are partial functions, and that they end is proved. What \<open>deleteMin\<close> and
  \<open>deleteNode\<close> leave in the module variables is a component of their result.
\<close>

section \<open>State\<close>

record ('k, 'v) omap =
  omRoot :: int
  omKeys :: "'k option list"
  omVals :: "'v option list"
  omLeft :: "int list"
  omRight :: "int list"
  omHeight :: "int list"
  omSize :: int
  omCmp :: "'k \<Rightarrow> 'k \<Rightarrow> int"
  omFree :: "int list"
  omLen :: int

definition om_key :: "('k, 'v) omap \<Rightarrow> int \<Rightarrow> 'k" where
  "om_key m n = the (js_get (omKeys m) n)"

text \<open>Numbers with \<open>NaN\<close> (\<^term>\<open>None\<close>), on which every \<open><\<close>, \<open>>\<close> and \<open>===\<close> is false.\<close>

definition om_defaultCmp :: "int option \<Rightarrow> int option \<Rightarrow> int" where
  "om_defaultCmp a b =
     (let lt = (\<lambda>x y. case (x, y) of (Some i, Some j) \<Rightarrow> i < (j :: int) | _ \<Rightarrow> False)
      in if lt a b then - 1 else if lt b a then 1
         else if a = None then (if b = None then 0 else 1)
         else if b = None then - 1 else 0)"

definition om_make :: "('k \<Rightarrow> 'k \<Rightarrow> int) \<Rightarrow> ('k, 'v) omap" where
  "om_make cmp = \<lparr>omRoot = - 1, omKeys = replicate 16 None, omVals = replicate 16 None,
     omLeft = replicate 16 (- 1), omRight = replicate 16 (- 1), omHeight = replicate 16 0,
     omSize = 0, omCmp = cmp, omFree = [0..15], omLen = 16\<rparr>"

section \<open>Nodes\<close>

definition om_allocNode :: "('k, 'v) omap \<Rightarrow> int \<times> ('k, 'v) omap" where
  "om_allocNode m =
     (if omFree m \<noteq> [] then (last (omFree m), m\<lparr>omFree := butlast (omFree m)\<rparr>)
      else let oldLen = omLen m; newLen = oldLen * 2;
               grow = (\<lambda>old fill. old @ replicate (nat newLen - length old) fill)
           in (oldLen, m\<lparr>omLeft := grow (omLeft m) (- 1), omRight := grow (omRight m) (- 1),
                         omHeight := grow (omHeight m) 0, omLen := newLen,
                         omFree := omFree m @ [oldLen + 1..newLen - 1]\<rparr>))"

definition om_freeNode :: "('k, 'v) omap \<Rightarrow> int \<Rightarrow> ('k, 'v) omap" where
  "om_freeNode m n = m\<lparr>omKeys := js_put (omKeys m) n None, omVals := js_put (omVals m) n None,
     omLeft := ta_put (omLeft m) n (- 1), omRight := ta_put (omRight m) n (- 1),
     omHeight := ta_put (omHeight m) n 0, omFree := omFree m @ [n]\<rparr>"

definition om_nodeHeight :: "('k, 'v) omap \<Rightarrow> int \<Rightarrow> int" where
  "om_nodeHeight m n = (if n = - 1 then 0 else ta_get (omHeight m) n)"

definition om_updateHeight :: "('k, 'v) omap \<Rightarrow> int \<Rightarrow> ('k, 'v) omap" where
  "om_updateHeight m n =
     (let lh = om_nodeHeight m (ta_get (omLeft m) n); rh = om_nodeHeight m (ta_get (omRight m) n)
      in m\<lparr>omHeight := ta_put (omHeight m) n (1 + (if lh > rh then lh else rh))\<rparr>)"

definition om_rotateRight :: "('k, 'v) omap \<Rightarrow> int \<Rightarrow> int \<times> ('k, 'v) omap" where
  "om_rotateRight m n =
     (let l = ta_get (omLeft m) n; b = ta_get (omRight m) l;
          m1 = m\<lparr>omRight := ta_put (omRight m) l n, omLeft := ta_put (omLeft m) n b\<rparr>
      in (l, om_updateHeight (om_updateHeight m1 n) l))"

definition om_rotateLeft :: "('k, 'v) omap \<Rightarrow> int \<Rightarrow> int \<times> ('k, 'v) omap" where
  "om_rotateLeft m n =
     (let r = ta_get (omRight m) n; b = ta_get (omLeft m) r;
          m1 = m\<lparr>omLeft := ta_put (omLeft m) r n, omRight := ta_put (omRight m) n b\<rparr>
      in (r, om_updateHeight (om_updateHeight m1 n) r))"

text \<open>\<open>rebalance\<close> updates the height itself; the two halves are the branches on the balance factor.\<close>

definition om_fixLeft :: "('k, 'v) omap \<Rightarrow> int \<Rightarrow> int \<Rightarrow> int \<times> ('k, 'v) omap" where
  "om_fixLeft m n l =
     (let llh = om_nodeHeight m (ta_get (omLeft m) l); lrh = om_nodeHeight m (ta_get (omRight m) l);
          m1 = (if llh < lrh
                then let (l1, m2) = om_rotateLeft m l in m2\<lparr>omLeft := ta_put (omLeft m2) n l1\<rparr>
                else m)
      in om_rotateRight m1 n)"

definition om_fixRight :: "('k, 'v) omap \<Rightarrow> int \<Rightarrow> int \<Rightarrow> int \<times> ('k, 'v) omap" where
  "om_fixRight m n r =
     (let rlh = om_nodeHeight m (ta_get (omLeft m) r); rrh = om_nodeHeight m (ta_get (omRight m) r);
          m1 = (if rlh > rrh
                then let (r1, m2) = om_rotateRight m r in m2\<lparr>omRight := ta_put (omRight m2) n r1\<rparr>
                else m)
      in om_rotateLeft m1 n)"

definition om_rebalance :: "('k, 'v) omap \<Rightarrow> int \<Rightarrow> int \<times> ('k, 'v) omap" where
  "om_rebalance m n =
     (let l = ta_get (omLeft m) n; r = ta_get (omRight m) n;
          lh = om_nodeHeight m l; rh = om_nodeHeight m r;
          m1 = m\<lparr>omHeight := ta_put (omHeight m) n (1 + (if lh > rh then lh else rh))\<rparr>;
          bf = lh - rh
      in if bf > 1 then om_fixLeft m1 n l else if bf < - 1 then om_fixRight m1 n r else (n, m1))"

section \<open>Insertion and deletion\<close>

definition om_newNode :: "('k, 'v) omap \<Rightarrow> 'k \<Rightarrow> 'v option \<Rightarrow> int \<times> ('k, 'v) omap" where
  "om_newNode m key val =
     (let (n, m1) = om_allocNode m
      in (n, m1\<lparr>omKeys := js_put (omKeys m1) n (Some key), omVals := js_put (omVals m1) n val,
                omLeft := ta_put (omLeft m1) n (- 1), omRight := ta_put (omRight m1) n (- 1),
                omHeight := ta_put (omHeight m1) n 1, omSize := omSize m1 + 1\<rparr>))"

partial_function (option) om_insertNode ::
  "('k \<Rightarrow> 'k \<Rightarrow> int) \<Rightarrow> 'k \<Rightarrow> 'v option \<Rightarrow> ('k, 'v) omap \<Rightarrow> int \<Rightarrow> (int \<times> ('k, 'v) omap) option" where
  "om_insertNode cmp key val m root =
     (if root = - 1 then Some (om_newNode m key val)
      else if cmp key (om_key m root) < 0
      then Option.bind (om_insertNode cmp key val m (ta_get (omLeft m) root)) (\<lambda>(newChild, m1).
             Some (om_rebalance (m1\<lparr>omLeft := ta_put (omLeft m1) root newChild\<rparr>) root))
      else if cmp key (om_key m root) > 0
      then Option.bind (om_insertNode cmp key val m (ta_get (omRight m) root)) (\<lambda>(newChild, m1).
             Some (om_rebalance (m1\<lparr>omRight := ta_put (omRight m1) root newChild\<rparr>) root))
      else Some (root, m\<lparr>omVals := js_put (omVals m) root val\<rparr>))"

text \<open>The new root of the subtree, the detached minimum, the state.\<close>

partial_function (option) om_deleteMin ::
  "('k, 'v) omap \<Rightarrow> int \<Rightarrow> (int \<times> int \<times> ('k, 'v) omap) option" where
  "om_deleteMin m root =
     (if ta_get (omLeft m) root = - 1 then Some (ta_get (omRight m) root, root, m)
      else Option.bind (om_deleteMin m (ta_get (omLeft m) root)) (\<lambda>(newLeft, minIdx, m1).
             let (n, m2) = om_rebalance (m1\<lparr>omLeft := ta_put (omLeft m1) root newLeft\<rparr>) root
             in Some (n, minIdx, m2)))"

text \<open>The node is found: it goes, or its in-order successor takes its place.\<close>

definition om_removeRoot :: "('k, 'v) omap \<Rightarrow> int \<Rightarrow> (int \<times> ('k, 'v) omap) option" where
  "om_removeRoot m0 root =
     (let m = m0\<lparr>omSize := omSize m0 - 1\<rparr>;
          leftChild = ta_get (omLeft m) root; rightChild = ta_get (omRight m) root
      in if rightChild = - 1 then Some (leftChild, om_freeNode m root)
         else if leftChild = - 1 then Some (rightChild, om_freeNode m root)
         else Option.bind (om_deleteMin m rightChild) (\<lambda>(newRight, successor, m1).
                let m2 = m1\<lparr>omLeft := ta_put (omLeft m1) successor leftChild,
                            omRight := ta_put (omRight m1) successor newRight\<rparr>
                in Some (om_rebalance (om_freeNode m2 root) successor)))"

text \<open>The new root, whether a node was deleted, the state.\<close>

partial_function (option) om_deleteNode ::
  "('k \<Rightarrow> 'k \<Rightarrow> int) \<Rightarrow> 'k \<Rightarrow> ('k, 'v) omap \<Rightarrow> int \<Rightarrow> (int \<times> bool \<times> ('k, 'v) omap) option" where
  "om_deleteNode cmp key m root =
     (if root = - 1 then Some (- 1, False, m)
      else if cmp key (om_key m root) < 0
      then Option.bind (om_deleteNode cmp key m (ta_get (omLeft m) root)) (\<lambda>(newLeft, deleted, m1).
             if \<not> deleted then Some (root, False, m1)
             else let (n, m2) = om_rebalance (m1\<lparr>omLeft := ta_put (omLeft m1) root newLeft\<rparr>) root
                  in Some (n, True, m2))
      else if cmp key (om_key m root) > 0
      then Option.bind (om_deleteNode cmp key m (ta_get (omRight m) root)) (\<lambda>(newRight, deleted, m1).
             if \<not> deleted then Some (root, False, m1)
             else let (n, m2) = om_rebalance (m1\<lparr>omRight := ta_put (omRight m1) root newRight\<rparr>) root
                  in Some (n, True, m2))
      else Option.bind (om_removeRoot m root) (\<lambda>(n, m1). Some (n, True, m1)))"

section \<open>The public operations\<close>

definition om_set :: "('k, 'v) omap \<Rightarrow> 'k \<Rightarrow> 'v option \<Rightarrow> ('k, 'v) omap option" where
  "om_set m key val =
     map_option (\<lambda>(root, m1). m1\<lparr>omRoot := root\<rparr>) (om_insertNode (omCmp m) key val m (omRoot m))"

definition om_del :: "('k, 'v) omap \<Rightarrow> 'k \<Rightarrow> (bool \<times> ('k, 'v) omap) option" where
  "om_del m key =
     map_option (\<lambda>(root, deleted, m1). (deleted, m1\<lparr>omRoot := root\<rparr>))
       (om_deleteNode (omCmp m) key m (omRoot m))"

text \<open>\<open>get\<close>: the outer option is termination, the inner one the value.\<close>

partial_function (option) om_get_loop :: "('k, 'v) omap \<Rightarrow> 'k \<Rightarrow> int \<Rightarrow> 'v option option" where
  "om_get_loop m key n =
     (if n = - 1 then Some None
      else let c = omCmp m key (om_key m n)
           in if c < 0 then om_get_loop m key (ta_get (omLeft m) n)
              else if c > 0 then om_get_loop m key (ta_get (omRight m) n)
              else Some (js_get (omVals m) n))"

definition om_get :: "('k, 'v) omap \<Rightarrow> 'k \<Rightarrow> 'v option option" where
  "om_get m key = om_get_loop m key (omRoot m)"

partial_function (option) om_has_loop :: "('k, 'v) omap \<Rightarrow> 'k \<Rightarrow> int \<Rightarrow> bool option" where
  "om_has_loop m key cur =
     (if cur = - 1 then Some False
      else let c = omCmp m key (om_key m cur)
           in if c = 0 then Some True
              else om_has_loop m key (if c < 0 then ta_get (omLeft m) cur else ta_get (omRight m) cur))"

definition om_has :: "('k, 'v) omap \<Rightarrow> 'k \<Rightarrow> bool option" where
  "om_has m key = om_has_loop m key (omRoot m)"

definition om_size :: "('k, 'v) omap \<Rightarrow> int" where
  "om_size m = omSize m"

definition om_entry :: "('k, 'v) omap \<Rightarrow> int \<Rightarrow> 'k \<times> 'v option" where
  "om_entry m n = (om_key m n, js_get (omVals m) n)"

text \<open>The end of a spine, for \<open>min\<close> and \<open>max\<close>.\<close>

partial_function (option) om_spine_end :: "int list \<Rightarrow> int \<Rightarrow> int option" where
  "om_spine_end next n = (if ta_get next n = - 1 then Some n else om_spine_end next (ta_get next n))"

definition om_min :: "('k, 'v) omap \<Rightarrow> ('k \<times> 'v option) option option" where
  "om_min m = (if omRoot m = - 1 then Some None
     else map_option (\<lambda>n. Some (om_entry m n)) (om_spine_end (omLeft m) (omRoot m)))"

definition om_max :: "('k, 'v) omap \<Rightarrow> ('k \<times> 'v option) option option" where
  "om_max m = (if omRoot m = - 1 then Some None
     else map_option (\<lambda>n. Some (om_entry m n)) (om_spine_end (omRight m) (omRoot m)))"

partial_function (option) om_floor_loop :: "('k, 'v) omap \<Rightarrow> 'k \<Rightarrow> int \<Rightarrow> int \<Rightarrow> int option" where
  "om_floor_loop m key n best =
     (if n = - 1 then Some best
      else let c = omCmp m key (om_key m n)
           in if c = 0 then Some n
              else if c > 0 then om_floor_loop m key (ta_get (omRight m) n) n
              else om_floor_loop m key (ta_get (omLeft m) n) best)"

definition om_floor :: "('k, 'v) omap \<Rightarrow> 'k \<Rightarrow> ('k \<times> 'v option) option option" where
  "om_floor m key = map_option (\<lambda>best. if best = - 1 then None else Some (om_entry m best))
     (om_floor_loop m key (omRoot m) (- 1))"

partial_function (option) om_ceiling_loop :: "('k, 'v) omap \<Rightarrow> 'k \<Rightarrow> int \<Rightarrow> int \<Rightarrow> int option" where
  "om_ceiling_loop m key n best =
     (if n = - 1 then Some best
      else let c = omCmp m key (om_key m n)
           in if c = 0 then Some n
              else if c < 0 then om_ceiling_loop m key (ta_get (omLeft m) n) n
              else om_ceiling_loop m key (ta_get (omRight m) n) best)"

definition om_ceiling :: "('k, 'v) omap \<Rightarrow> 'k \<Rightarrow> ('k \<times> 'v option) option option" where
  "om_ceiling m key = map_option (\<lambda>best. if best = - 1 then None else Some (om_entry m best))
     (om_ceiling_loop m key (omRoot m) (- 1))"

section \<open>Traversals\<close>

text \<open>\<open>stack.push(cur); cur = left[cur]\<close> down the left spine; the top of the stack is the head.\<close>

partial_function (option) om_push_left :: "int list \<Rightarrow> int \<Rightarrow> int list \<Rightarrow> int list option" where
  "om_push_left left cur stack =
     (if cur = - 1 then Some stack else om_push_left left (ta_get left cur) (cur # stack))"

text \<open>\<open>entries\<close>, as the list of what the generator yields; \<open>keys\<close> and \<open>values\<close> are its components.\<close>

partial_function (option) om_entries_loop ::
  "('k, 'v) omap \<Rightarrow> int \<Rightarrow> int list \<Rightarrow> ('k \<times> 'v option) list option" where
  "om_entries_loop m cur stack =
     Option.bind (om_push_left (omLeft m) cur stack) (\<lambda>stack1.
       case stack1 of [] \<Rightarrow> Some []
       | n # stack2 \<Rightarrow>
           Option.bind (om_entries_loop m (ta_get (omRight m) n) stack2) (\<lambda>rest.
             Some (om_entry m n # rest)))"

definition om_entries :: "('k, 'v) omap \<Rightarrow> ('k \<times> 'v option) list option" where
  "om_entries m = om_entries_loop m (omRoot m) []"

definition om_keys :: "('k, 'v) omap \<Rightarrow> 'k list option" where
  "om_keys m = map_option (map fst) (om_entries m)"

definition om_values :: "('k, 'v) omap \<Rightarrow> 'v option list option" where
  "om_values m = map_option (map snd) (om_entries m)"

text \<open>\<open>range\<close> and \<open>forRange\<close>: the descent to the first key not below \<open>lo\<close>, then the walk up to \<open>hi\<close>.\<close>

partial_function (option) om_range_init :: "('k, 'v) omap \<Rightarrow> 'k \<Rightarrow> int \<Rightarrow> int list \<Rightarrow> int list option" where
  "om_range_init m lo cur stack =
     (if cur = - 1 then Some stack
      else if omCmp m (om_key m cur) lo \<ge> 0 then om_range_init m lo (ta_get (omLeft m) cur) (cur # stack)
      else om_range_init m lo (ta_get (omRight m) cur) stack)"

partial_function (option) om_range_loop ::
  "('k, 'v) omap \<Rightarrow> 'k \<Rightarrow> int list \<Rightarrow> ('k \<times> 'v option) list option" where
  "om_range_loop m hi stack =
     (case stack of [] \<Rightarrow> Some []
      | cur # stack1 \<Rightarrow>
          if omCmp m (om_key m cur) hi > 0 then Some []
          else Option.bind (om_push_left (omLeft m) (ta_get (omRight m) cur) stack1) (\<lambda>stack2.
                 Option.bind (om_range_loop m hi stack2) (\<lambda>rest. Some (om_entry m cur # rest))))"

definition om_range :: "('k, 'v) omap \<Rightarrow> 'k \<Rightarrow> 'k \<Rightarrow> ('k \<times> 'v option) list option" where
  "om_range m lo hi = Option.bind (om_range_init m lo (omRoot m) []) (om_range_loop m hi)"

text \<open>
  \<open>forRange\<close> calls back with each entry: the client's state is folded, the count returned. Its stack is
  a typed array of 128 slots shared by all calls, with a top pointer: a push past the end is lost.
\<close>

partial_function (option) om_fr_init ::
  "('k, 'v) omap \<Rightarrow> 'k \<Rightarrow> int \<Rightarrow> int list \<Rightarrow> int \<Rightarrow> (int list \<times> int) option" where
  "om_fr_init m lo cur buf tp =
     (if cur = - 1 then Some (buf, tp)
      else if omCmp m (om_key m cur) lo \<ge> 0
      then om_fr_init m lo (ta_get (omLeft m) cur) (ta_put buf tp cur) (tp + 1)
      else om_fr_init m lo (ta_get (omRight m) cur) buf tp)"

partial_function (option) om_fr_push :: "int list \<Rightarrow> int \<Rightarrow> int list \<Rightarrow> int \<Rightarrow> (int list \<times> int) option" where
  "om_fr_push left r buf tp =
     (if r = - 1 then Some (buf, tp) else om_fr_push left (ta_get left r) (ta_put buf tp r) (tp + 1))"

partial_function (option) om_forRange_loop ::
  "('k, 'v) omap \<Rightarrow> 'k \<Rightarrow> ('k \<Rightarrow> 'v option \<Rightarrow> 's \<Rightarrow> 's) \<Rightarrow> int list \<Rightarrow> int \<Rightarrow> int \<Rightarrow> 's
    \<Rightarrow> (int \<times> 's \<times> int list) option" where
  "om_forRange_loop m hi fn buf tp count s =
     (if \<not> tp > 0 then Some (count, s, buf)
      else let cur = ta_get buf (tp - 1)
           in if omCmp m (om_key m cur) hi > 0 then Some (count, s, buf)
              else Option.bind (om_fr_push (omLeft m) (ta_get (omRight m) cur) buf (tp - 1)) (\<lambda>(buf1, tp1).
                     om_forRange_loop m hi fn buf1 tp1 (count + 1)
                       (fn (om_key m cur) (js_get (omVals m) cur) s)))"

definition om_forRange :: "int list \<Rightarrow> ('k, 'v) omap \<Rightarrow> 'k \<Rightarrow> 'k \<Rightarrow> ('k \<Rightarrow> 'v option \<Rightarrow> 's \<Rightarrow> 's) \<Rightarrow> 's
    \<Rightarrow> (int \<times> 's \<times> int list) option" where
  "om_forRange buf m lo hi fn s =
     Option.bind (om_fr_init m lo (omRoot m) buf 0) (\<lambda>(buf1, tp).
       om_forRange_loop m hi fn buf1 tp 0 s)"

declare om_insertNode.simps [code] om_deleteMin.simps [code] om_deleteNode.simps [code]
  om_get_loop.simps [code] om_has_loop.simps [code] om_spine_end.simps [code]
  om_floor_loop.simps [code] om_ceiling_loop.simps [code] om_push_left.simps [code]
  om_entries_loop.simps [code] om_range_init.simps [code] om_range_loop.simps [code]
  om_fr_init.simps [code] om_fr_push.simps [code] om_forRange_loop.simps [code]

section \<open>The tree in the arrays\<close>

text \<open>The tree as a value, with the slot and the stored height of each node.\<close>

datatype ('k, 'v) avl = Tip | Bin int "('k, 'v) avl" 'k "'v option" int "('k, 'v) avl"

fun slots :: "('k, 'v) avl \<Rightarrow> int list" where
  "slots Tip = []"
| "slots (Bin s l k v h r) = slots l @ s # slots r"

fun inorder :: "('k, 'v) avl \<Rightarrow> ('k \<times> 'v option) list" where
  "inorder Tip = []"
| "inorder (Bin s l k v h r) = inorder l @ (k, v) # inorder r"

fun ht :: "('k, 'v) avl \<Rightarrow> int" where
  "ht Tip = 0"
| "ht (Bin s l k v h r) = h"

text \<open>Stored heights are the heights.\<close>

fun hts :: "('k, 'v) avl \<Rightarrow> bool" where
  "hts Tip \<longleftrightarrow> True"
| "hts (Bin s l k v h r) \<longleftrightarrow> h = 1 + max (ht l) (ht r) \<and> hts l \<and> hts r"

lemma hts_bound: "hts t \<Longrightarrow> 0 \<le> ht t \<and> ht t \<le> int (length (slots t))"
  by (induction t) auto

definition om_ok :: "('k, 'v) omap \<Rightarrow> bool" where
  "om_ok m \<longleftrightarrow> js_len (omLeft m) = omLen m \<and> js_len (omRight m) = omLen m \<and>
     js_len (omHeight m) = omLen m \<and> 0 < omLen m \<and> omLen m \<le> 2 ^ 30"

fun om_at :: "('k, 'v) omap \<Rightarrow> int \<Rightarrow> ('k, 'v) avl \<Rightarrow> bool" where
  "om_at m n Tip \<longleftrightarrow> n = - 1"
| "om_at m n (Bin s l k v h r) \<longleftrightarrow> n = s \<and> 0 \<le> s \<and> s < omLen m \<and>
     js_get (omKeys m) s = Some k \<and> js_get (omVals m) s = v \<and> ta_get (omHeight m) s = h \<and>
     om_at m (ta_get (omLeft m) s) l \<and> om_at m (ta_get (omRight m) s) r"

lemma om_at_range: "om_at m n t \<Longrightarrow> set (slots t) \<subseteq> {0..<omLen m}"
  by (induction t arbitrary: n) auto

lemma om_at_root: "om_at m n t \<Longrightarrow> 0 < omLen m \<Longrightarrow> - 1 \<le> n \<and> n < omLen m"
  by (cases t) auto

lemma om_at_null: "om_at m n t \<Longrightarrow> n = - 1 \<longleftrightarrow> t = Tip"
  by (cases t) auto

lemma om_at_height: "om_at m n t \<Longrightarrow> om_nodeHeight m n = ht t"
  by (cases t) (auto simp: om_nodeHeight_def)

lemma om_at_height2: "om_at m n t \<Longrightarrow> n \<notin> A \<Longrightarrow> (\<And>s. s \<notin> A \<Longrightarrow> H s = ta_get (omHeight m) s) \<Longrightarrow>
  (if n = - 1 then 0 else H n) = ht t"
  by (cases t) auto

text \<open>What an operation on the slots \<open>S\<close> leaves alone.\<close>

definition om_same :: "int set \<Rightarrow> ('k, 'v) omap \<Rightarrow> ('k, 'v) omap \<Rightarrow> bool" where
  "om_same S m m' \<longleftrightarrow> omLen m \<le> omLen m' \<and> omCmp m' = omCmp m \<and> omRoot m' = omRoot m \<and>
     (\<forall>s. s \<notin> S \<longrightarrow> 0 \<le> s \<longrightarrow> s < omLen m \<longrightarrow>
        js_get (omKeys m') s = js_get (omKeys m) s \<and> js_get (omVals m') s = js_get (omVals m) s \<and>
        ta_get (omLeft m') s = ta_get (omLeft m) s \<and> ta_get (omRight m') s = ta_get (omRight m) s \<and>
        ta_get (omHeight m') s = ta_get (omHeight m) s)"

definition om_upd :: "int set \<Rightarrow> ('k, 'v) omap \<Rightarrow> ('k, 'v) omap \<Rightarrow> bool" where
  "om_upd S m m' \<longleftrightarrow> om_same S m m' \<and> om_ok m' \<and> omLen m' = omLen m \<and> omFree m' = omFree m \<and>
     omSize m' = omSize m \<and> omKeys m' = omKeys m \<and> omVals m' = omVals m"

lemma om_same_refl [simp]: "om_same S m m"
  by (simp add: om_same_def)

lemma om_same_trans: "om_same S m m1 \<Longrightarrow> om_same T m1 m2 \<Longrightarrow> om_same (S \<union> T) m m2"
  by (auto simp: om_same_def)

lemma om_same_mono: "om_same S m m' \<Longrightarrow> S \<subseteq> T \<Longrightarrow> om_same T m m'"
  by (auto simp: om_same_def)

lemma om_upd_trans: "om_upd S m m1 \<Longrightarrow> om_upd T m1 m2 \<Longrightarrow> om_upd (S \<union> T) m m2"
  by (auto simp: om_upd_def intro: om_same_trans)

lemma om_upd_mono: "om_upd S m m' \<Longrightarrow> S \<subseteq> T \<Longrightarrow> om_upd T m m'"
  by (auto simp: om_upd_def intro: om_same_mono)

lemma om_at_same:
  "om_same S m m' \<Longrightarrow> om_at m n t \<Longrightarrow> set (slots t) \<inter> S = {} \<Longrightarrow> om_at m' n t"
  by (induction t arbitrary: n) (auto simp: om_same_def)

section \<open>Rotations\<close>

definition mkb :: "int \<Rightarrow> ('k, 'v) avl \<Rightarrow> 'k \<Rightarrow> 'v option \<Rightarrow> ('k, 'v) avl \<Rightarrow> ('k, 'v) avl" where
  "mkb s l k v r = Bin s l k v (1 + max (ht l) (ht r)) r"

fun rotR :: "int \<Rightarrow> ('k, 'v) avl \<Rightarrow> 'k \<Rightarrow> 'v option \<Rightarrow> ('k, 'v) avl \<Rightarrow> ('k, 'v) avl" where
  "rotR n (Bin l a lk lv lh b) k v c = mkb l a lk lv (mkb n b k v c)"
| "rotR n Tip k v c = mkb n Tip k v c"

fun rotL :: "int \<Rightarrow> ('k, 'v) avl \<Rightarrow> 'k \<Rightarrow> 'v option \<Rightarrow> ('k, 'v) avl \<Rightarrow> ('k, 'v) avl" where
  "rotL n a k v (Bin r b rk rv rh c) = mkb r (mkb n a k v b) rk rv c"
| "rotL n a k v Tip = mkb n a k v Tip"

fun leanL :: "('k, 'v) avl \<Rightarrow> ('k, 'v) avl" where
  "leanL (Bin l a lk lv lh b) = (if ht a < ht b then rotL l a lk lv b else Bin l a lk lv lh b)"
| "leanL Tip = Tip"

fun leanR :: "('k, 'v) avl \<Rightarrow> ('k, 'v) avl" where
  "leanR (Bin r b rk rv rh c) = (if ht b > ht c then rotR r b rk rv c else Bin r b rk rv rh c)"
| "leanR Tip = Tip"

definition bal :: "int \<Rightarrow> ('k, 'v) avl \<Rightarrow> 'k \<Rightarrow> 'v option \<Rightarrow> ('k, 'v) avl \<Rightarrow> ('k, 'v) avl" where
  "bal s l k v r =
     (if ht l - ht r > 1 then rotR s (leanL l) k v r
      else if ht l - ht r < - 1 then rotL s l k v (leanR r)
      else mkb s l k v r)"

lemma om_updateHeight_ok:
  assumes "om_ok m" "0 \<le> n" "n < omLen m" "om_nodeHeight m (ta_get (omLeft m) n) = hl"
    "om_nodeHeight m (ta_get (omRight m) n) = hr" "0 \<le> hl" "0 \<le> hr" "hl \<le> 2 ^ 30" "hr \<le> 2 ^ 30"
  shows "omLeft (om_updateHeight m n) = omLeft m" "omRight (om_updateHeight m n) = omRight m"
    "ta_get (omHeight (om_updateHeight m n)) = (ta_get (omHeight m))(n := 1 + max hl hr)"
    "om_upd {n} m (om_updateHeight m n)"
proof -
  show h: "ta_get (omHeight (om_updateHeight m n)) = (ta_get (omHeight m))(n := 1 + max hl hr)"
    using assms by (auto simp: om_updateHeight_def Let_def om_ok_def ta_get_put max_def)
  show "omLeft (om_updateHeight m n) = omLeft m" "omRight (om_updateHeight m n) = omRight m"
    by (simp_all add: om_updateHeight_def Let_def)
  show "om_upd {n} m (om_updateHeight m n)"
    using h assms(1) by (simp add: om_upd_def om_same_def om_ok_def) (simp add: om_updateHeight_def Let_def)
qed

lemma om_upd_left:
  assumes "om_ok m" "0 \<le> n" "n < omLen m" "- 1 \<le> x" "x < omLen m"
  shows "om_upd {n} m (m\<lparr>omLeft := ta_put (omLeft m) n x\<rparr>)"
    "ta_get (omLeft (m\<lparr>omLeft := ta_put (omLeft m) n x\<rparr>)) = (ta_get (omLeft m))(n := x)"
  using assms by (auto simp: om_upd_def om_same_def om_ok_def ta_get_put)

lemma om_upd_right:
  assumes "om_ok m" "0 \<le> n" "n < omLen m" "- 1 \<le> x" "x < omLen m"
  shows "om_upd {n} m (m\<lparr>omRight := ta_put (omRight m) n x\<rparr>)"
    "ta_get (omRight (m\<lparr>omRight := ta_put (omRight m) n x\<rparr>)) = (ta_get (omRight m))(n := x)"
  using assms by (auto simp: om_upd_def om_same_def om_ok_def ta_get_put)

lemma om_upd_ok: "om_upd S m m' \<Longrightarrow> om_ok m' \<and> om_same S m m' \<and> omLen m' = omLen m"
  by (simp add: om_upd_def)

lemma om_upd_kv: "om_upd S m m' \<Longrightarrow> omKeys m' = omKeys m \<and> omVals m' = omVals m"
  by (simp add: om_upd_def)

text \<open>Two subtrees hung under one node, with its height updated.\<close>

lemma om_at_join:
  assumes "om_ok m" "0 \<le> n" "n < omLen m" "js_get (omKeys m) n = Some k" "js_get (omVals m) n = v"
    "om_at m (ta_get (omLeft m) n) l" "om_at m (ta_get (omRight m) n) r"
    "n \<notin> set (slots l)" "n \<notin> set (slots r)" "hts l" "hts r"
    "length (slots l) \<le> 2 ^ 30" "length (slots r) \<le> 2 ^ 30"
  shows "om_at (om_updateHeight m n) n (mkb n l k v r)" "om_upd {n} m (om_updateHeight m n)"
proof -
  note up = om_updateHeight_ok[OF assms(1-3) om_at_height[OF assms(6)] om_at_height[OF assms(7)]]
  have b: "0 \<le> ht l" "0 \<le> ht r" "ht l \<le> 2 ^ 30" "ht r \<le> 2 ^ 30"
    using hts_bound[of l] hts_bound[of r] assms(10-13) by auto
  show u: "om_upd {n} m (om_updateHeight m n)" using up(4) b by blast
  have "om_at (om_updateHeight m n) (ta_get (omLeft m) n) l" "om_at (om_updateHeight m n) (ta_get (omRight m) n) r"
    using om_upd_ok[OF u] assms(6-9) by (auto intro: om_at_same[of "{n}" m])
  then show "om_at (om_updateHeight m n) n (mkb n l k v r)"
    using up(1-3) b om_upd_ok[OF u] om_upd_kv[OF u] assms(2-5) by (simp add: mkb_def)
qed

lemma om_rotateRight_ok:
  assumes "om_ok m" "om_at m n (Bin n (Bin l a lk lv lh b) k v h c)"
    "distinct (slots (Bin n (Bin l a lk lv lh b) k v h c))" "hts a" "hts b" "hts c"
    "length (slots (Bin n (Bin l a lk lv lh b) k v h c)) \<le> 2 ^ 30"
  shows "fst (om_rotateRight m n) = l \<and>
    om_at (snd (om_rotateRight m n)) l (rotR n (Bin l a lk lv lh b) k v c) \<and>
    om_upd {n, l} m (snd (om_rotateRight m n))"
proof -
  let ?b = "ta_get (omRight m) l"
  have len: "0 < omLen m" using assms(1) by (simp add: om_ok_def)
  have at: "0 \<le> n" "n < omLen m" "0 \<le> l" "l < omLen m" "n \<noteq> l" "ta_get (omLeft m) n = l"
      "js_get (omKeys m) n = Some k" "js_get (omVals m) n = v" "js_get (omKeys m) l = Some lk"
      "js_get (omVals m) l = lv" "om_at m (ta_get (omLeft m) l) a" "om_at m ?b b" "om_at m (ta_get (omRight m) n) c"
    using assms(2,3) by auto
  have fresh: "n \<notin> set (slots a)" "n \<notin> set (slots b)" "n \<notin> set (slots c)"
      "l \<notin> set (slots a)" "l \<notin> set (slots b)" "l \<notin> set (slots c)"
    using assms(3) by auto
  let ?m0 = "m\<lparr>omRight := ta_put (omRight m) l n\<rparr>"
  let ?m1 = "?m0\<lparr>omLeft := ta_put (omLeft ?m0) n ?b\<rparr>"
  have nl: "- 1 \<le> n" using at(1) by simp
  have b: "- 1 \<le> ?b" "?b < omLen m" using om_at_root[OF at(12) len] by auto
  have u0: "om_upd {l} m ?m0" "ta_get (omRight ?m0) = (ta_get (omRight m))(l := n)"
    using om_upd_right[OF assms(1) at(3,4) nl at(2)] by auto
  have ok0: "om_ok ?m0" "omLen ?m0 = omLen m" using om_upd_ok[OF u0(1)] by auto
  have u1': "om_upd {n} ?m0 ?m1" "ta_get (omLeft ?m1) = (ta_get (omLeft ?m0))(n := ?b)"
    by (rule om_upd_left; use ok0 at b in simp)+
  have u1: "om_upd {l, n} m ?m1" using om_upd_trans[OF u0(1) u1'(1)] by (simp add: insert_commute)
  have L1: "ta_get (omLeft ?m1) = (ta_get (omLeft m))(n := ?b)"
    and R1: "ta_get (omRight ?m1) = (ta_get (omRight m))(l := n)" using u0(2) u1'(2) by auto
  have sub: "om_at ?m1 x t" if "om_at m x t" "n \<notin> set (slots t)" "l \<notin> set (slots t)" for x t
    using om_at_same[of "{l, n}" m ?m1 x t] om_upd_ok[OF u1] that by auto
  let ?m2 = "om_updateHeight ?m1 n"
  have j2: "om_at ?m2 n (mkb n b k v c)" "om_upd {n} ?m1 ?m2"
  proof -
    have "om_at ?m1 (ta_get (omLeft ?m1) n) b" "om_at ?m1 (ta_get (omRight ?m1) n) c"
      unfolding L1 R1 using sub at fresh by auto
    then show "om_at ?m2 n (mkb n b k v c)" "om_upd {n} ?m1 ?m2"
      using om_at_join[of ?m1 n k v b c] om_upd_ok[OF u1] at fresh assms(5-7) by auto
  qed
  have L2: "ta_get (omLeft ?m2) = (ta_get (omLeft m))(n := ?b)" "ta_get (omRight ?m2) = (ta_get (omRight m))(l := n)"
    using L1 R1 by (simp_all add: om_updateHeight_def Let_def)
  have u2: "om_upd {l, n} m ?m2" using om_upd_trans[OF u1 j2(2)] by (simp add: insert_commute)
  let ?m3 = "om_updateHeight ?m2 l"
  have j3: "om_at ?m3 l (mkb l a lk lv (mkb n b k v c))" "om_upd {l} ?m2 ?m3"
  proof -
    have "om_at ?m2 (ta_get (omLeft ?m2) l) a"
      unfolding L2 using om_at_same[of "{l, n}" m ?m2 "ta_get (omLeft m) l" a] om_upd_ok[OF u2] at fresh by auto
    moreover have "om_at ?m2 (ta_get (omRight ?m2) l) (mkb n b k v c)" unfolding L2 using j2(1) by simp
    moreover have "hts (mkb n b k v c)" "length (slots (mkb n b k v c)) \<le> 2 ^ 30" "l \<notin> set (slots (mkb n b k v c))"
      using assms(5-7) fresh at(5) by (auto simp: mkb_def)
    ultimately show "om_at ?m3 l (mkb l a lk lv (mkb n b k v c))" "om_upd {l} ?m2 ?m3"
      using om_at_join[of ?m2 l lk lv a "mkb n b k v c"] om_upd_ok[OF u2] om_upd_kv[OF u2] at fresh assms(4,7)
      by auto
  qed
  have "om_rotateRight m n = (l, ?m3)" using at(6) by (simp add: om_rotateRight_def Let_def)
  moreover have "om_upd {n, l} m ?m3" using om_upd_trans[OF u2 j3(2)] by (simp add: insert_commute)
  ultimately show ?thesis using j3(1) by simp
qed

lemma om_rotateLeft_ok:
  assumes "om_ok m" "om_at m n (Bin n a k v h (Bin r b rk rv rh c))"
    "distinct (slots (Bin n a k v h (Bin r b rk rv rh c)))" "hts a" "hts b" "hts c"
    "length (slots (Bin n a k v h (Bin r b rk rv rh c))) \<le> 2 ^ 30"
  shows "fst (om_rotateLeft m n) = r \<and>
    om_at (snd (om_rotateLeft m n)) r (rotL n a k v (Bin r b rk rv rh c)) \<and>
    om_upd {n, r} m (snd (om_rotateLeft m n))"
proof -
  let ?b = "ta_get (omLeft m) r"
  have len: "0 < omLen m" using assms(1) by (simp add: om_ok_def)
  have at: "0 \<le> n" "n < omLen m" "0 \<le> r" "r < omLen m" "n \<noteq> r" "ta_get (omRight m) n = r"
      "js_get (omKeys m) n = Some k" "js_get (omVals m) n = v" "js_get (omKeys m) r = Some rk"
      "js_get (omVals m) r = rv" "om_at m (ta_get (omLeft m) n) a" "om_at m ?b b" "om_at m (ta_get (omRight m) r) c"
    using assms(2,3) by auto
  have fresh: "n \<notin> set (slots a)" "n \<notin> set (slots b)" "n \<notin> set (slots c)"
      "r \<notin> set (slots a)" "r \<notin> set (slots b)" "r \<notin> set (slots c)"
    using assms(3) by auto
  let ?m0 = "m\<lparr>omLeft := ta_put (omLeft m) r n\<rparr>"
  let ?m1 = "?m0\<lparr>omRight := ta_put (omRight ?m0) n ?b\<rparr>"
  have nl: "- 1 \<le> n" using at(1) by simp
  have b: "- 1 \<le> ?b" "?b < omLen m" using om_at_root[OF at(12) len] by auto
  have u0: "om_upd {r} m ?m0" "ta_get (omLeft ?m0) = (ta_get (omLeft m))(r := n)"
    using om_upd_left[OF assms(1) at(3,4) nl at(2)] by auto
  have ok0: "om_ok ?m0" "omLen ?m0 = omLen m" using om_upd_ok[OF u0(1)] by auto
  have u1': "om_upd {n} ?m0 ?m1" "ta_get (omRight ?m1) = (ta_get (omRight ?m0))(n := ?b)"
    by (rule om_upd_right; use ok0 at b in simp)+
  have u1: "om_upd {r, n} m ?m1" using om_upd_trans[OF u0(1) u1'(1)] by (simp add: insert_commute)
  have L1: "ta_get (omRight ?m1) = (ta_get (omRight m))(n := ?b)"
    and R1: "ta_get (omLeft ?m1) = (ta_get (omLeft m))(r := n)" using u0(2) u1'(2) by auto
  have sub: "om_at ?m1 x t" if "om_at m x t" "n \<notin> set (slots t)" "r \<notin> set (slots t)" for x t
    using om_at_same[of "{r, n}" m ?m1 x t] om_upd_ok[OF u1] that by auto
  let ?m2 = "om_updateHeight ?m1 n"
  have j2: "om_at ?m2 n (mkb n a k v b)" "om_upd {n} ?m1 ?m2"
  proof -
    have "om_at ?m1 (ta_get (omLeft ?m1) n) a" "om_at ?m1 (ta_get (omRight ?m1) n) b"
      unfolding L1 R1 using sub at fresh by auto
    then show "om_at ?m2 n (mkb n a k v b)" "om_upd {n} ?m1 ?m2"
      using om_at_join[of ?m1 n k v a b] om_upd_ok[OF u1] at fresh assms(4-7) by auto
  qed
  have L2: "ta_get (omRight ?m2) = (ta_get (omRight m))(n := ?b)" "ta_get (omLeft ?m2) = (ta_get (omLeft m))(r := n)"
    using L1 R1 by (simp_all add: om_updateHeight_def Let_def)
  have u2: "om_upd {r, n} m ?m2" using om_upd_trans[OF u1 j2(2)] by (simp add: insert_commute)
  let ?m3 = "om_updateHeight ?m2 r"
  have j3: "om_at ?m3 r (mkb r (mkb n a k v b) rk rv c)" "om_upd {r} ?m2 ?m3"
  proof -
    have "om_at ?m2 (ta_get (omRight ?m2) r) c"
      unfolding L2 using om_at_same[of "{r, n}" m ?m2 "ta_get (omRight m) r" c] om_upd_ok[OF u2] at fresh by auto
    moreover have "om_at ?m2 (ta_get (omLeft ?m2) r) (mkb n a k v b)" unfolding L2 using j2(1) by simp
    moreover have "hts (mkb n a k v b)" "length (slots (mkb n a k v b)) \<le> 2 ^ 30" "r \<notin> set (slots (mkb n a k v b))"
      using assms(4-7) fresh at(5) by (auto simp: mkb_def)
    ultimately show "om_at ?m3 r (mkb r (mkb n a k v b) rk rv c)" "om_upd {r} ?m2 ?m3"
      using om_at_join[of ?m2 r rk rv "mkb n a k v b" c] om_upd_ok[OF u2] om_upd_kv[OF u2] at fresh assms(6,7)
      by auto
  qed
  have "om_rotateLeft m n = (r, ?m3)" using at(6) by (simp add: om_rotateLeft_def Let_def)
  moreover have "om_upd {n, r} m ?m3" using om_upd_trans[OF u2 j3(2)] by (simp add: insert_commute)
  ultimately show ?thesis using j3(1) by simp
qed

section \<open>Rebalancing\<close>

lemma mkb_facts [simp]:
  "slots (mkb s l k v r) = slots l @ s # slots r"
  "inorder (mkb s l k v r) = inorder l @ (k, v) # inorder r"
  "ht (mkb s l k v r) = 1 + max (ht l) (ht r)"
  "hts (mkb s l k v r) \<longleftrightarrow> hts l \<and> hts r"
  by (simp_all add: mkb_def)

lemma rot_facts [simp]:
  "slots (rotR s l k v r) = slots l @ s # slots r" "slots (rotL s l k v r) = slots l @ s # slots r"
  "inorder (rotR s l k v r) = inorder l @ (k, v) # inorder r"
  "inorder (rotL s l k v r) = inorder l @ (k, v) # inorder r"
  "hts l \<Longrightarrow> hts r \<Longrightarrow> hts (rotR s l k v r)" "hts l \<Longrightarrow> hts r \<Longrightarrow> hts (rotL s l k v r)"
  by (cases l; simp; fail)+ (cases r; simp; fail | cases l; simp; fail)+

lemma rot_mkb [simp]:
  "rotR n (mkb l a lk lv b) k v c = mkb l a lk lv (mkb n b k v c)"
  "rotL n a k v (mkb r b rk rv c) = mkb r (mkb n a k v b) rk rv c"
  by (simp_all add: mkb_def)

lemma lean_facts [simp]:
  "slots (leanL t) = slots t" "slots (leanR t) = slots t" "inorder (leanL t) = inorder t"
  "inorder (leanR t) = inorder t" "hts t \<Longrightarrow> hts (leanL t)" "hts t \<Longrightarrow> hts (leanR t)"
  by (cases t; simp)+

lemma bal_facts [simp]:
  "slots (bal s l k v r) = slots l @ s # slots r"
  "inorder (bal s l k v r) = inorder l @ (k, v) # inorder r"
  "hts l \<Longrightarrow> hts r \<Longrightarrow> hts (bal s l k v r)"
  by (simp_all add: bal_def)

lemma om_fixLeft_ok:
  assumes "om_ok m" "om_at m n (Bin n l k v h r)" "distinct (slots l @ n # slots r)" "hts l" "hts r"
    "length (slots l @ n # slots r) \<le> 2 ^ 30" "l \<noteq> Tip"
  shows "om_at (snd (om_fixLeft m n (ta_get (omLeft m) n))) (fst (om_fixLeft m n (ta_get (omLeft m) n)))
      (rotR n (leanL l) k v r) \<and>
    om_upd (set (slots l @ n # slots r)) m (snd (om_fixLeft m n (ta_get (omLeft m) n)))"
proof -
  obtain ls a lk lv lh b where l: "l = Bin ls a lk lv lh b" using assms(7) by (cases l) auto
  have len: "0 < omLen m" using assms(1) by (simp add: om_ok_def)
  have at: "ta_get (omLeft m) n = ls" "om_at m ls l" "om_at m (ta_get (omLeft m) ls) a"
      "om_at m (ta_get (omRight m) ls) b" "0 \<le> n" "n < omLen m" "om_at m (ta_get (omRight m) n) r"
    using assms(2) l by auto
  have hts: "hts a" "hts b" using assms(4) l by auto
  show ?thesis
  proof (cases "ht a < ht b")
    case False
    have "om_fixLeft m n ls = om_rotateRight m n"
      using False om_at_height[OF at(3)] om_at_height[OF at(4)] by (simp add: om_fixLeft_def)
    then show ?thesis
      using om_rotateRight_ok[OF assms(1), of n ls a lk lv lh b k v h r] assms(2,3,5,6) hts False at(1)
      by (auto simp: l elim!: om_upd_mono)
  next
    case True
    then obtain bs ba bk bv bh bb where b: "b = Bin bs ba bk bv bh bb"
      using hts_bound[OF hts(1)] by (cases b) auto
    let ?t = "rotL ls a lk lv b"
    obtain l1 m2 where rot: "om_rotateLeft m ls = (l1, m2)" by force
    have r: "l1 = bs" "om_at m2 l1 ?t" "om_upd {ls, bs} m m2"
      using om_rotateLeft_ok[OF assms(1), of ls a lk lv lh bs ba bk bv bh bb] at(2) assms(3,6) hts
      by (auto simp: l b rot)
    let ?m3 = "m2\<lparr>omLeft := ta_put (omLeft m2) n l1\<rparr>"
    have l1: "- 1 \<le> l1" "l1 < omLen m2" using om_at_root[OF r(2)] om_upd_ok[OF r(3)] len by auto
    have u3: "om_upd {n} m2 ?m3" "ta_get (omLeft ?m3) = (ta_get (omLeft m2))(n := l1)"
      using om_upd_left[of m2 n l1] om_upd_ok[OF r(3)] at(5,6) l1 by auto
    have u: "om_upd {ls, bs, n} m ?m3" using om_upd_trans[OF r(3) u3(1)] by (simp add: insert_commute)
    have n: "n \<notin> {ls, bs}" "n \<notin> set (slots ?t)" "n \<notin> set (slots r)" using assms(3) by (auto simp: l b)
    have "om_at ?m3 l1 ?t" using om_at_same[OF _ r(2)] u3(1) n by (auto simp: om_upd_def)
    moreover have "om_at ?m3 (ta_get (omRight m) n) r"
      using om_at_same[OF _ at(7), of "{ls, bs, n}" ?m3] u assms(3) by (auto simp: om_upd_def l b)
    moreover have "ta_get (omRight ?m3) n = ta_get (omRight m) n" "ta_get (omHeight m2) n = ta_get (omHeight m) n"
      using r(3) n(1) at(5,6) by (auto simp: om_upd_def om_same_def)
    moreover have "js_get (omKeys ?m3) n = Some k" "js_get (omVals ?m3) n = v" "ta_get (omHeight m) n = h"
      using om_upd_kv[OF u] assms(2) by auto
    ultimately have at3: "om_at ?m3 n (Bin n ?t k v h r)"
      using u3(2) om_upd_ok[OF u] at(5,6) by auto
    have fx: "om_fixLeft m n ls = om_rotateRight ?m3 n"
      using True om_at_height[OF at(3)] om_at_height[OF at(4)] rot by (simp add: om_fixLeft_def)
    obtain th where t: "?t = Bin bs (mkb ls a lk lv ba) bk bv th bb" by (simp add: b mkb_def)
    obtain q m4 where q: "om_rotateRight ?m3 n = (q, m4)" by force
    have "q = bs \<and> om_at m4 q (rotR n ?t k v r) \<and> om_upd {n, bs} ?m3 m4"
      using om_rotateRight_ok[OF _ at3[unfolded t]] om_upd_ok[OF u] assms(3,5,6) hts
      by (auto simp: l b q t)
    then have q4: "om_at m4 q (rotR n ?t k v r)" "om_upd {n, bs} ?m3 m4" by auto
    have "om_upd (set (slots l @ n # slots r)) m m4"
      by (rule om_upd_mono[OF om_upd_trans[OF u q4(2)]]) (auto simp: l b)
    then show ?thesis using q4(1) True by (simp add: at(1) fx q l)
  qed
qed

lemma om_fixRight_ok:
  assumes "om_ok m" "om_at m n (Bin n l k v h r)" "distinct (slots l @ n # slots r)" "hts l" "hts r"
    "length (slots l @ n # slots r) \<le> 2 ^ 30" "r \<noteq> Tip"
  shows "om_at (snd (om_fixRight m n (ta_get (omRight m) n))) (fst (om_fixRight m n (ta_get (omRight m) n)))
      (rotL n l k v (leanR r)) \<and>
    om_upd (set (slots l @ n # slots r)) m (snd (om_fixRight m n (ta_get (omRight m) n)))"
proof -
  obtain rs b rk rv rh c where r: "r = Bin rs b rk rv rh c" using assms(7) by (cases r) auto
  have len: "0 < omLen m" using assms(1) by (simp add: om_ok_def)
  have at: "ta_get (omRight m) n = rs" "om_at m rs r" "om_at m (ta_get (omLeft m) rs) b"
      "om_at m (ta_get (omRight m) rs) c" "0 \<le> n" "n < omLen m" "om_at m (ta_get (omLeft m) n) l"
    using assms(2) r by auto
  have hts: "hts b" "hts c" using assms(5) r by auto
  show ?thesis
  proof (cases "ht b > ht c")
    case False
    have "om_fixRight m n rs = om_rotateLeft m n"
      using False om_at_height[OF at(3)] om_at_height[OF at(4)] by (simp add: om_fixRight_def)
    then show ?thesis
      using om_rotateLeft_ok[OF assms(1), of n l k v h rs b rk rv rh c] assms(2,3,4,6) hts False at(1)
      by (auto simp: r elim!: om_upd_mono)
  next
    case True
    then obtain bs ba bk bv bh bb where b: "b = Bin bs ba bk bv bh bb"
      using hts_bound[OF hts(2)] by (cases b) auto
    let ?t = "rotR rs b rk rv c"
    obtain r1 m2 where rot: "om_rotateRight m rs = (r1, m2)" by force
    have r1': "r1 = bs" "om_at m2 r1 ?t" "om_upd {rs, bs} m m2"
      using om_rotateRight_ok[OF assms(1), of rs bs ba bk bv bh bb rk rv rh c] at(2) assms(3,6) hts
      by (auto simp: r b rot)
    let ?m3 = "m2\<lparr>omRight := ta_put (omRight m2) n r1\<rparr>"
    have r1: "- 1 \<le> r1" "r1 < omLen m2" using om_at_root[OF r1'(2)] om_upd_ok[OF r1'(3)] len by auto
    have u3: "om_upd {n} m2 ?m3" "ta_get (omRight ?m3) = (ta_get (omRight m2))(n := r1)"
      using om_upd_right[of m2 n r1] om_upd_ok[OF r1'(3)] at(5,6) r1 by auto
    have u: "om_upd {rs, bs, n} m ?m3" using om_upd_trans[OF r1'(3) u3(1)] by (simp add: insert_commute)
    have n: "n \<notin> {rs, bs}" "n \<notin> set (slots ?t)" "n \<notin> set (slots l)" using assms(3) by (auto simp: r b)
    have "om_at ?m3 r1 ?t" using om_at_same[OF _ r1'(2)] u3(1) n by (auto simp: om_upd_def)
    moreover have "om_at ?m3 (ta_get (omLeft m) n) l"
      using om_at_same[OF _ at(7), of "{rs, bs, n}" ?m3] u assms(3) by (auto simp: om_upd_def r b)
    moreover have "ta_get (omLeft ?m3) n = ta_get (omLeft m) n" "ta_get (omHeight m2) n = ta_get (omHeight m) n"
      using r1'(3) n(1) at(5,6) by (auto simp: om_upd_def om_same_def)
    moreover have "js_get (omKeys ?m3) n = Some k" "js_get (omVals ?m3) n = v" "ta_get (omHeight m) n = h"
      using om_upd_kv[OF u] assms(2) by auto
    ultimately have at3: "om_at ?m3 n (Bin n l k v h ?t)"
      using u3(2) om_upd_ok[OF u] at(5,6) by auto
    have fx: "om_fixRight m n rs = om_rotateLeft ?m3 n"
      using True om_at_height[OF at(3)] om_at_height[OF at(4)] rot by (simp add: om_fixRight_def)
    obtain th where t: "?t = Bin bs ba bk bv th (mkb rs bb rk rv c)" by (simp add: b mkb_def)
    obtain q m4 where q: "om_rotateLeft ?m3 n = (q, m4)" by force
    have "q = bs \<and> om_at m4 q (rotL n l k v ?t) \<and> om_upd {n, bs} ?m3 m4"
      using om_rotateLeft_ok[OF _ at3[unfolded t]] om_upd_ok[OF u] assms(3,4,6) hts
      by (auto simp: r b q t)
    then have q4: "om_at m4 q (rotL n l k v ?t)" "om_upd {n, bs} ?m3 m4" by auto
    have "om_upd (set (slots l @ n # slots r)) m m4"
      by (rule om_upd_mono[OF om_upd_trans[OF u q4(2)]]) (auto simp: r b)
    then show ?thesis using q4(1) True by (simp add: at(1) fx q r)
  qed
qed

lemma om_rebalance_ok:
  assumes "om_ok m" "om_at m n (Bin n l k v h r)" "distinct (slots l @ n # slots r)" "hts l" "hts r"
    "length (slots l @ n # slots r) \<le> 2 ^ 30"
  shows "om_at (snd (om_rebalance m n)) (fst (om_rebalance m n)) (bal n l k v r) \<and>
    om_upd (set (slots l @ n # slots r)) m (snd (om_rebalance m n))"
proof -
  let ?m1 = "om_updateHeight m n"
  have at: "0 \<le> n" "n < omLen m" "js_get (omKeys m) n = Some k" "js_get (omVals m) n = v"
      "om_at m (ta_get (omLeft m) n) l" "om_at m (ta_get (omRight m) n) r"
    using assms(2) by auto
  have j: "om_at ?m1 n (mkb n l k v r)" "om_upd {n} m ?m1"
    using om_at_join[OF assms(1) at] assms(3-6) by auto
  have at1: "om_at ?m1 n (Bin n l k v (1 + max (ht l) (ht r)) r)" using j(1) by (simp add: mkb_def)
  have same: "ta_get (omLeft ?m1) n = ta_get (omLeft m) n" "ta_get (omRight ?m1) n = ta_get (omRight m) n"
    by (simp_all add: om_updateHeight_def Let_def)
  have eq: "om_rebalance m n =
      (if ht l - ht r > 1 then om_fixLeft ?m1 n (ta_get (omLeft ?m1) n)
       else if ht l - ht r < - 1 then om_fixRight ?m1 n (ta_get (omRight ?m1) n) else (n, ?m1))"
    unfolding om_rebalance_def om_updateHeight_def Let_def
    using om_at_height[OF at(5)] om_at_height[OF at(6)] by simp
  have ok1: "om_ok ?m1" using om_upd_ok[OF j(2)] by simp
  have mono: "om_upd (set (slots l @ n # slots r)) m m2" if "om_upd (set (slots l @ n # slots r)) ?m1 m2" for m2
    by (rule om_upd_mono[OF om_upd_trans[OF j(2) that]]) auto
  consider "ht l - ht r > 1" | "ht l - ht r < - 1" | "\<not> ht l - ht r > 1" "\<not> ht l - ht r < - 1" by linarith
  then show ?thesis
  proof cases
    case 1
    then have "l \<noteq> Tip" using hts_bound[OF assms(5)] by auto
    then show ?thesis using om_fixLeft_ok[OF ok1 at1 assms(3-6)] 1 mono by (simp add: eq bal_def)
  next
    case 2
    then have "r \<noteq> Tip" using hts_bound[OF assms(4)] by auto
    then show ?thesis using om_fixRight_ok[OF ok1 at1 assms(3-6)] 2 mono by (simp add: eq bal_def)
  next
    case 3
    then show ?thesis using j(1) om_upd_mono[OF j(2)] by (simp add: eq bal_def)
  qed
qed

section \<open>Insertion in the tree\<close>

fun t_has :: "('k \<Rightarrow> 'k \<Rightarrow> int) \<Rightarrow> 'k \<Rightarrow> ('k, 'v) avl \<Rightarrow> bool" where
  "t_has cmp key Tip \<longleftrightarrow> False"
| "t_has cmp key (Bin s l k v h r) \<longleftrightarrow>
     (if cmp key k < 0 then t_has cmp key l else if cmp key k > 0 then t_has cmp key r else True)"

fun t_ins :: "('k \<Rightarrow> 'k \<Rightarrow> int) \<Rightarrow> int \<Rightarrow> 'k \<Rightarrow> 'v option \<Rightarrow> ('k, 'v) avl \<Rightarrow> ('k, 'v) avl" where
  "t_ins cmp new key val Tip = Bin new Tip key val 1 Tip"
| "t_ins cmp new key val (Bin s l k v h r) =
     (if cmp key k < 0 then bal s (t_ins cmp new key val l) k v r
      else if cmp key k > 0 then bal s l k v (t_ins cmp new key val r)
      else Bin s l k val h r)"

lemma t_ins_slots:
  "set (slots (t_ins cmp new key val t)) = (if t_has cmp key t then set (slots t) else insert new (set (slots t)))"
  "length (slots (t_ins cmp new key val t)) = (if t_has cmp key t then length (slots t) else Suc (length (slots t)))"
  by (induction t) auto

lemma t_ins_distinct:
  "new \<notin> set (slots t) \<Longrightarrow> distinct (slots t) \<Longrightarrow> distinct (slots (t_ins cmp new key val t))"
  by (induction t) (auto simp: t_ins_slots)

lemma t_ins_hts: "hts t \<Longrightarrow> hts (t_ins cmp new key val t)"
  by (induction t) auto

text \<open>The slots in use, and the state of the allocator.\<close>

definition om_used :: "('k, 'v) omap \<Rightarrow> int set" where
  "om_used m = {0..<omLen m} - set (omFree m)"

definition om_mem :: "('k, 'v) omap \<Rightarrow> bool" where
  "om_mem m \<longleftrightarrow> distinct (omFree m) \<and> set (omFree m) \<subseteq> {0..<omLen m} \<and>
     (\<exists>j. omLen m = 16 * 2 ^ j)"

definition om_room :: "('k, 'v) omap \<Rightarrow> bool" where
  "om_room m \<longleftrightarrow> (omFree m = [] \<longrightarrow> omLen m \<le> 2 ^ 29)"

definition om_fresh :: "('k, 'v) omap \<Rightarrow> int" where
  "om_fresh m = (if omFree m \<noteq> [] then last (omFree m) else omLen m)"

lemma ta_get_append: "0 \<le> s \<Longrightarrow> s < js_len xs \<Longrightarrow> ta_get (xs @ ys) s = ta_get xs s"
  by (auto simp: ta_get_def js_len_def nth_append)

lemma om_allocNode_ok:
  assumes "om_ok m" "om_mem m" "om_room m"
  shows "\<exists>m1. om_allocNode m = (om_fresh m, m1) \<and> om_same {} m m1 \<and> om_ok m1 \<and> om_mem m1 \<and>
    om_used m1 = insert (om_fresh m) (om_used m) \<and> om_fresh m \<notin> om_used m \<and> 0 \<le> om_fresh m \<and>
    om_fresh m < omLen m1 \<and> omSize m1 = omSize m \<and> omKeys m1 = omKeys m \<and> omVals m1 = omVals m"
proof (cases "omFree m = []")
  case False
  then obtain fs n where fs: "omFree m = fs @ [n]" by (cases "omFree m" rule: rev_cases) auto
  then show ?thesis
    using assms by (auto simp: om_allocNode_def om_fresh_def om_same_def om_ok_def om_mem_def om_used_def)
next
  case True
  have len: "0 < omLen m" "omLen m \<le> 2 ^ 29" "js_len (omLeft m) = omLen m" "js_len (omRight m) = omLen m"
      "js_len (omHeight m) = omLen m" "nat (omLen m * 2) - nat (omLen m) = nat (omLen m)"
    using assms True by (auto simp: om_ok_def om_room_def)
  let ?m1 = "snd (om_allocNode m)"
  have fst: "om_allocNode m = (om_fresh m, ?m1)" "om_fresh m = omLen m"
    using True by (simp_all add: om_allocNode_def om_fresh_def Let_def)
  obtain j where j: "omLen m = 16 * 2 ^ j" using assms(2) by (auto simp: om_mem_def)
  have L: "omLen ?m1 = omLen m * 2" using True by (simp add: om_allocNode_def Let_def)
  then have "omLen ?m1 = 16 * 2 ^ Suc j" by (simp add: j)
  then have j1: "\<exists>j. omLen ?m1 = 16 * 2 ^ j" by blast
  have "om_same {} m ?m1"
    using True len by (auto simp: om_allocNode_def Let_def om_same_def ta_get_append)
  moreover have "om_ok ?m1"
    using True len by (auto simp: om_allocNode_def Let_def om_ok_def js_len_def)
  moreover have "om_mem ?m1" unfolding om_mem_def using j1
    by (intro conjI) (use True len in \<open>auto simp: om_allocNode_def Let_def\<close>)
  moreover have "om_used ?m1 = insert (om_fresh m) (om_used m)" "om_fresh m \<notin> om_used m"
    using True len by (auto simp: om_allocNode_def Let_def om_used_def om_fresh_def)
  moreover have "om_fresh m < omLen ?m1" "0 \<le> om_fresh m" "omSize ?m1 = omSize m" "omKeys ?m1 = omKeys m"
      "omVals ?m1 = omVals m"
    using True len by (auto simp: om_allocNode_def Let_def om_fresh_def)
  ultimately show ?thesis using fst(1) by blast
qed

lemma om_newNode_ok:
  assumes "om_ok m" "om_mem m" "om_room m"
  shows "\<exists>m1. om_newNode m key val = (om_fresh m, m1) \<and> om_at m1 (om_fresh m) (Bin (om_fresh m) Tip key val 1 Tip) \<and>
    om_same {om_fresh m} m m1 \<and> om_ok m1 \<and> om_mem m1 \<and> om_used m1 = insert (om_fresh m) (om_used m) \<and>
    omSize m1 = omSize m + 1"
proof -
  let ?n = "om_fresh m"
  obtain m0 where m0: "om_allocNode m = (?n, m0)" "om_same {} m m0" "om_ok m0" "om_mem m0"
    "om_used m0 = insert ?n (om_used m)" "0 \<le> ?n" "?n < omLen m0" "omSize m0 = omSize m"
    using om_allocNode_ok[OF assms] by blast
  let ?m1 = "m0\<lparr>omKeys := js_put (omKeys m0) ?n (Some key), omVals := js_put (omVals m0) ?n val,
    omLeft := ta_put (omLeft m0) ?n (- 1), omRight := ta_put (omRight m0) ?n (- 1),
    omHeight := ta_put (omHeight m0) ?n 1, omSize := omSize m0 + 1\<rparr>"
  have put: "ta_get (omLeft ?m1) = (ta_get (omLeft m0))(?n := - 1)"
    "ta_get (omRight ?m1) = (ta_get (omRight m0))(?n := - 1)" "ta_get (omHeight ?m1) = (ta_get (omHeight m0))(?n := 1)"
    using m0(3,6,7) by (auto simp: om_ok_def ta_get_put)
  have "om_newNode m key val = (?n, ?m1)" using m0(1) by (simp add: om_newNode_def)
  moreover have "om_at ?m1 ?n (Bin ?n Tip key val 1 Tip)"
    using put m0(6,7) by (simp add: js_get_put)
  moreover have "om_same {?n} m0 ?m1" using put m0(6) by (simp add: om_same_def js_get_put)
  then have "om_same {?n} m ?m1" using om_same_trans[OF m0(2)] by fastforce
  moreover have "om_ok ?m1" "om_mem ?m1" "om_used ?m1 = insert ?n (om_used m)" "omSize ?m1 = omSize m + 1"
    using m0(3-5,8) by (auto simp: om_ok_def om_mem_def om_used_def)
  ultimately show ?thesis by blast
qed
lemma om_at_val:
  assumes "om_at m n (Bin n l k v h r)" "n \<notin> set (slots l)" "n \<notin> set (slots r)"
  shows "om_at (m\<lparr>omVals := js_put (omVals m) n val\<rparr>) n (Bin n l k val h r) \<and>
    om_same {n} m (m\<lparr>omVals := js_put (omVals m) n val\<rparr>)"
proof -
  let ?m = "m\<lparr>omVals := js_put (omVals m) n val\<rparr>"
  have s: "om_same {n} m ?m" using assms by (auto simp: om_same_def js_get_put)
  then have "om_at ?m (ta_get (omLeft m) n) l" "om_at ?m (ta_get (omRight m) n) r"
    using assms by (auto intro: om_at_same[of "{n}" m])
  then show ?thesis using s assms(1) by (simp add: js_get_put)
qed

text \<open>A child replaced under its parent, and the parent rebalanced.\<close>

lemma om_hang_left:
  assumes "om_ok m1" "om_same S m m1" "om_at m n (Bin n l k v h r)" "om_at m1 c l'" "n \<notin> S"
    "set (slots r) \<inter> S = {}" "distinct (slots l' @ n # slots r)" "hts l'" "hts r"
    "length (slots l' @ n # slots r) \<le> 2 ^ 30"
  shows "om_at (snd (om_rebalance (m1\<lparr>omLeft := ta_put (omLeft m1) n c\<rparr>) n))
      (fst (om_rebalance (m1\<lparr>omLeft := ta_put (omLeft m1) n c\<rparr>) n)) (bal n l' k v r) \<and>
    om_upd (set (slots l' @ n # slots r)) m1 (snd (om_rebalance (m1\<lparr>omLeft := ta_put (omLeft m1) n c\<rparr>) n))"
proof -
  let ?m2 = "m1\<lparr>omLeft := ta_put (omLeft m1) n c\<rparr>"
  have at: "0 \<le> n" "n < omLen m" using assms(3) by auto
  have at1: "om_at m1 (ta_get (omRight m1) n) r" "js_get (omKeys m1) n = Some k" "js_get (omVals m1) n = v"
      "n < omLen m1"
    using om_at_same[OF assms(2)] assms(3,5,6,2) by (auto simp: om_same_def)
  have c: "- 1 \<le> c" "c < omLen m1" using om_at_root[OF assms(4)] assms(1) by (auto simp: om_ok_def)
  have u: "om_upd {n} m1 ?m2" "ta_get (omLeft ?m2) = (ta_get (omLeft m1))(n := c)"
    using om_upd_left[OF assms(1) at(1) at1(4) c] by auto
  have n: "n \<notin> set (slots l')" "n \<notin> set (slots r)" using assms(7) by auto
  have "om_at ?m2 c l'" "om_at ?m2 (ta_get (omRight m1) n) r"
    using om_at_same[of "{n}" m1 ?m2] om_upd_ok[OF u(1)] assms(4) at1(1) n by auto
  then have "om_at ?m2 n (Bin n l' k v (ta_get (omHeight m1) n) r)" using u(2) at at1 by simp
  from om_rebalance_ok[OF _ this assms(7-10)] om_upd_ok[OF u(1)]
  have "om_at (snd (om_rebalance ?m2 n)) (fst (om_rebalance ?m2 n)) (bal n l' k v r)"
    "om_upd (set (slots l' @ n # slots r)) ?m2 (snd (om_rebalance ?m2 n))" by auto
  moreover have "om_upd (set (slots l' @ n # slots r)) m1 (snd (om_rebalance ?m2 n))"
    by (rule om_upd_mono[OF om_upd_trans[OF u(1) calculation(2)]]) auto
  ultimately show ?thesis by blast
qed

lemma om_hang_right:
  assumes "om_ok m1" "om_same S m m1" "om_at m n (Bin n l k v h r)" "om_at m1 c r'" "n \<notin> S"
    "set (slots l) \<inter> S = {}" "distinct (slots l @ n # slots r')" "hts l" "hts r'"
    "length (slots l @ n # slots r') \<le> 2 ^ 30"
  shows "om_at (snd (om_rebalance (m1\<lparr>omRight := ta_put (omRight m1) n c\<rparr>) n))
      (fst (om_rebalance (m1\<lparr>omRight := ta_put (omRight m1) n c\<rparr>) n)) (bal n l k v r') \<and>
    om_upd (set (slots l @ n # slots r')) m1 (snd (om_rebalance (m1\<lparr>omRight := ta_put (omRight m1) n c\<rparr>) n))"
proof -
  let ?m2 = "m1\<lparr>omRight := ta_put (omRight m1) n c\<rparr>"
  have at: "0 \<le> n" "n < omLen m" using assms(3) by auto
  have at1: "om_at m1 (ta_get (omLeft m1) n) l" "js_get (omKeys m1) n = Some k" "js_get (omVals m1) n = v"
      "n < omLen m1"
    using om_at_same[OF assms(2)] assms(3,5,6,2) by (auto simp: om_same_def)
  have c: "- 1 \<le> c" "c < omLen m1" using om_at_root[OF assms(4)] assms(1) by (auto simp: om_ok_def)
  have u: "om_upd {n} m1 ?m2" "ta_get (omRight ?m2) = (ta_get (omRight m1))(n := c)"
    using om_upd_right[OF assms(1) at(1) at1(4) c] by auto
  have n: "n \<notin> set (slots l)" "n \<notin> set (slots r')" using assms(7) by auto
  have "om_at ?m2 c r'" "om_at ?m2 (ta_get (omLeft m1) n) l"
    using om_at_same[of "{n}" m1 ?m2] om_upd_ok[OF u(1)] assms(4) at1(1) n by auto
  then have "om_at ?m2 n (Bin n l k v (ta_get (omHeight m1) n) r')" using u(2) at at1 by simp
  from om_rebalance_ok[OF _ this assms(7-10)] om_upd_ok[OF u(1)]
  have "om_at (snd (om_rebalance ?m2 n)) (fst (om_rebalance ?m2 n)) (bal n l k v r')"
    "om_upd (set (slots l @ n # slots r')) ?m2 (snd (om_rebalance ?m2 n))" by auto
  moreover have "om_upd (set (slots l @ n # slots r')) m1 (snd (om_rebalance ?m2 n))"
    by (rule om_upd_mono[OF om_upd_trans[OF u(1) calculation(2)]]) auto
  ultimately show ?thesis by blast
qed
lemma om_upd_mem: "om_upd S m m' \<Longrightarrow> om_mem m' = om_mem m \<and> om_used m' = om_used m \<and> omSize m' = omSize m"
  by (simp add: om_upd_def om_mem_def om_used_def)

text \<open>What \<open>insertNode\<close> did to the state.\<close>

definition om_ins_post :: "('k, 'v) omap \<Rightarrow> bool \<Rightarrow> int set \<Rightarrow> ('k, 'v) omap \<Rightarrow> bool" where
  "om_ins_post m hit S m' \<longleftrightarrow> om_ok m' \<and> om_mem m' \<and> om_same (insert (om_fresh m) S) m m' \<and>
     om_used m' = (if hit then om_used m else insert (om_fresh m) (om_used m)) \<and>
     omSize m' = (if hit then omSize m else omSize m + 1)"

lemma om_ins_post_upd:
  assumes "om_ins_post m hit S m1" "om_upd T m1 m2" "S \<subseteq> S'" "T \<subseteq> insert (om_fresh m) S'"
  shows "om_ins_post m hit S' m2"
proof -
  have "om_same (insert (om_fresh m) S \<union> T) m m2"
    using assms(1,2) by (intro om_same_trans[of _ m m1]) (simp_all add: om_ins_post_def om_upd_def)
  then have "om_same (insert (om_fresh m) S') m m2" by (rule om_same_mono) (use assms(3,4) in auto)
  then show ?thesis using assms(1) om_upd_mem[OF assms(2)] om_upd_ok[OF assms(2)] by (simp add: om_ins_post_def)
qed

lemma om_insertNode_ok:
  assumes "om_ok m" "om_mem m" "om_room m"
  shows "om_at m n t \<Longrightarrow> distinct (slots t) \<Longrightarrow> hts t \<Longrightarrow> om_fresh m \<notin> set (slots t) \<Longrightarrow>
    length (slots t) < 2 ^ 30 \<Longrightarrow>
    \<exists>n' m'. om_insertNode cmp key val m n = Some (n', m') \<and>
      om_at m' n' (t_ins cmp (om_fresh m) key val t) \<and> om_ins_post m (t_has cmp key t) (set (slots t)) m'"
proof (induction t arbitrary: n)
  case Tip
  obtain m1 where m1: "om_newNode m key val = (om_fresh m, m1)"
      "om_at m1 (om_fresh m) (Bin (om_fresh m) Tip key val 1 Tip)" "om_same {om_fresh m} m m1" "om_ok m1" "om_mem m1"
      "om_used m1 = insert (om_fresh m) (om_used m)" "omSize m1 = omSize m + 1"
    using om_newNode_ok[OF assms, of key val] by blast
  moreover have "om_insertNode cmp key val m n = Some (om_fresh m, m1)"
    using Tip m1(1) by (simp add: om_insertNode.simps[of cmp key val m "- 1"])
  ultimately show ?case
    by (intro exI[of _ "om_fresh m"] exI[of _ m1]) (simp add: om_ins_post_def)
next
  case (Bin s l k v h r)
  let ?f = "om_fresh m"
  have n: "n = s" "s \<noteq> - 1" "om_key m s = k" "om_at m (ta_get (omLeft m) s) l" "om_at m (ta_get (omRight m) s) r"
    using Bin.prems(1) by (auto simp: om_key_def)
  have at: "om_at m s (Bin s l k v h r)" using Bin.prems(1) n(1) by simp
  have d: "s \<notin> set (slots l)" "s \<notin> set (slots r)" "set (slots l) \<inter> set (slots r) = {}" "?f \<noteq> s"
      "distinct (slots l)" "distinct (slots r)" "?f \<notin> set (slots l)" "?f \<notin> set (slots r)" "hts l" "hts r"
    using Bin.prems(2,3,4) by auto
  consider "cmp key k < 0" | "cmp key k > 0" | "cmp key k = 0" by linarith
  then show ?case
  proof cases
    case 1
    let ?l = "t_ins cmp ?f key val l"
    obtain c m1 where c: "om_insertNode cmp key val m (ta_get (omLeft m) s) = Some (c, m1)" "om_at m1 c ?l"
        "om_ins_post m (t_has cmp key l) (set (slots l)) m1"
      using Bin.IH(1)[OF n(4) d(5) d(9) d(7)] Bin.prems(5) by auto
    let ?q = "om_rebalance (m1\<lparr>omLeft := ta_put (omLeft m1) s c\<rparr>) s"
    have pre: "distinct (slots ?l @ s # slots r)" "length (slots ?l @ s # slots r) \<le> 2 ^ 30"
      using t_ins_distinct[OF d(7) d(5)] d Bin.prems(5) by (auto simp: t_ins_slots)
    have hang: "om_at (snd ?q) (fst ?q) (bal s ?l k v r)" "om_upd (set (slots ?l @ s # slots r)) m1 (snd ?q)"
      using om_hang_left[OF _ _ at c(2), of "insert ?f (set (slots l))"] c(3) d t_ins_hts[OF d(9)] pre
      by (auto simp: om_ins_post_def)
    have "om_ins_post m (t_has cmp key l) (set (slots (Bin s l k v h r))) (snd ?q)"
      by (rule om_ins_post_upd[OF c(3) hang(2)]) (auto simp: t_ins_slots)
    moreover have "om_insertNode cmp key val m n = Some (fst ?q, snd ?q)"
      using 1 n c(1) by (simp add: om_insertNode.simps[of cmp key val m s])
    ultimately show ?thesis using hang(1) 1
      by (intro exI[of _ "fst ?q"] exI[of _ "snd ?q"]) simp
  next
    case 2
    let ?r = "t_ins cmp ?f key val r"
    obtain c m1 where c: "om_insertNode cmp key val m (ta_get (omRight m) s) = Some (c, m1)" "om_at m1 c ?r"
        "om_ins_post m (t_has cmp key r) (set (slots r)) m1"
      using Bin.IH(2)[OF n(5) d(6) d(10) d(8)] Bin.prems(5) by auto
    let ?q = "om_rebalance (m1\<lparr>omRight := ta_put (omRight m1) s c\<rparr>) s"
    have pre: "distinct (slots l @ s # slots ?r)" "length (slots l @ s # slots ?r) \<le> 2 ^ 30"
      using t_ins_distinct[OF d(8) d(6)] d Bin.prems(5) by (auto simp: t_ins_slots)
    have hang: "om_at (snd ?q) (fst ?q) (bal s l k v ?r)" "om_upd (set (slots l @ s # slots ?r)) m1 (snd ?q)"
      using om_hang_right[OF _ _ at c(2), of "insert ?f (set (slots r))"] c(3) d t_ins_hts[OF d(10)] pre
      by (auto simp: om_ins_post_def)
    have "om_ins_post m (t_has cmp key r) (set (slots (Bin s l k v h r))) (snd ?q)"
      by (rule om_ins_post_upd[OF c(3) hang(2)]) (auto simp: t_ins_slots)
    moreover have "om_insertNode cmp key val m n = Some (fst ?q, snd ?q)"
      using 2 n c(1) by (simp add: om_insertNode.simps[of cmp key val m s])
    ultimately show ?thesis using hang(1) 2
      by (intro exI[of _ "fst ?q"] exI[of _ "snd ?q"]) simp
  next
    case 3
    let ?m = "m\<lparr>omVals := js_put (omVals m) s val\<rparr>"
    have v: "om_at ?m s (Bin s l k val h r)" "om_same {s} m ?m" using om_at_val[OF at d(1,2)] by auto
    have "om_same (insert ?f (set (slots (Bin s l k v h r)))) m ?m" by (rule om_same_mono[OF v(2)]) auto
    then have "om_ins_post m True (set (slots (Bin s l k v h r))) ?m"
      using assms by (simp add: om_ins_post_def om_ok_def om_mem_def om_used_def)
    moreover have "om_insertNode cmp key val m n = Some (s, ?m)"
      using 3 n by (simp add: om_insertNode.simps[of cmp key val m s])
    ultimately show ?thesis using v(1) 3
      by (intro exI[of _ s] exI[of _ ?m]) simp
  qed
qed
section \<open>Deletion in the tree\<close>

fun t_delmin :: "('k, 'v) avl \<Rightarrow> ('k, 'v) avl \<times> int \<times> 'k \<times> 'v option" where
  "t_delmin Tip = undefined"
| "t_delmin (Bin s l k v h r) =
     (if l = Tip then (r, s, k, v) else (bal s (fst (t_delmin l)) k v r, snd (t_delmin l)))"

definition t_join :: "('k, 'v) avl \<Rightarrow> ('k, 'v) avl \<Rightarrow> ('k, 'v) avl" where
  "t_join l r = (if r = Tip then l else if l = Tip then r
     else case t_delmin r of (r1, s, k, v) \<Rightarrow> bal s l k v r1)"

fun t_del :: "('k \<Rightarrow> 'k \<Rightarrow> int) \<Rightarrow> 'k \<Rightarrow> ('k, 'v) avl \<Rightarrow> ('k, 'v) avl" where
  "t_del cmp key Tip = Tip"
| "t_del cmp key (Bin s l k v h r) =
     (if \<not> t_has cmp key (Bin s l k v h r) then Bin s l k v h r
      else if cmp key k < 0 then bal s (t_del cmp key l) k v r
      else if cmp key k > 0 then bal s l k v (t_del cmp key r)
      else t_join l r)"

lemma t_delmin_facts:
  "t \<noteq> Tip \<Longrightarrow> t_delmin t = (t1, s, k, v) \<Longrightarrow>
    slots t = s # slots t1 \<and> inorder t = (k, v) # inorder t1 \<and> (hts t \<longrightarrow> hts t1)"
proof (induction t arbitrary: t1)
  case (Bin x l k' v' h r)
  then show ?case
    by (cases "l = Tip"; cases "t_delmin l") auto
qed simp

lemma t_join_facts:
  "slots (t_join l r) = slots l @ slots r" "inorder (t_join l r) = inorder l @ inorder r"
  "hts l \<Longrightarrow> hts r \<Longrightarrow> hts (t_join l r)"
  using t_delmin_facts[of r] by (auto simp: t_join_def split: prod.splits)

lemma t_del_hts: "hts t \<Longrightarrow> hts (t_del cmp key t)"
  by (induction t) (auto simp: t_join_facts)

lemma t_del_slots:
  "set (slots (t_del cmp key t)) \<subseteq> set (slots t)"
  "distinct (slots t) \<Longrightarrow> distinct (slots (t_del cmp key t))"
  "length (slots t) = length (slots (t_del cmp key t)) + (if t_has cmp key t then 1 else 0)"
  "\<not> t_has cmp key t \<Longrightarrow> t_del cmp key t = t"
proof -
  show 1: "set (slots (t_del cmp key t)) \<subseteq> set (slots t)" for t :: "('a, 'b) avl"
    by (induction t) (auto simp: t_join_facts)
  show "distinct (slots t) \<Longrightarrow> distinct (slots (t_del cmp key t))"
    by (induction t) (use 1 in \<open>auto simp: t_join_facts\<close>)
  show "length (slots t) = length (slots (t_del cmp key t)) + (if t_has cmp key t then 1 else 0)"
    by (induction t) (auto simp: t_join_facts)
  show "\<not> t_has cmp key t \<Longrightarrow> t_del cmp key t = t"
    by (cases t) auto
qed

lemma om_deleteMin_ok:
  assumes "om_ok m"
  shows "om_at m n t \<Longrightarrow> t \<noteq> Tip \<Longrightarrow> distinct (slots t) \<Longrightarrow> hts t \<Longrightarrow> length (slots t) \<le> 2 ^ 30 \<Longrightarrow>
    t_delmin t = (t1, x, k, v) \<Longrightarrow>
    \<exists>n' m'. om_deleteMin m n = Some (n', x, m') \<and> om_at m' n' t1 \<and> om_upd (set (slots t)) m m' \<and>
      js_get (omKeys m) x = Some k \<and> js_get (omVals m) x = v"
proof (induction t arbitrary: n t1)
  case (Bin s l lk lv h r)
  have n: "n = s" "om_at m (ta_get (omLeft m) s) l" "om_at m (ta_get (omRight m) s) r"
      "om_at m s (Bin s l lk lv h r)" "js_get (omKeys m) s = Some lk" "js_get (omVals m) s = lv"
    using Bin.prems(1) by auto
  have null: "ta_get (omLeft m) s = - 1 \<longleftrightarrow> l = Tip" using om_at_null[OF n(2)] .
  show ?case
  proof (cases "l = Tip")
    case True
    then have "om_deleteMin m n = Some (ta_get (omRight m) s, x, m)" "t1 = r"
      using Bin.prems(6) n null by (simp_all add: om_deleteMin.simps[of m x])
    then show ?thesis using True Bin.prems(6) n assms
      by (intro exI[of _ "ta_get (omRight m) s"] exI[of _ m]) (simp add: om_upd_def)
  next
    case False
    obtain l1 where l1: "t_delmin l = (l1, x, k, v)" "t1 = bal s l1 lk lv r"
      using Bin.prems(6) False by (cases "t_delmin l") auto
    obtain c m1 where c: "om_deleteMin m (ta_get (omLeft m) s) = Some (c, x, m1)" "om_at m1 c l1"
        "om_upd (set (slots l)) m m1" "js_get (omKeys m) x = Some k" "js_get (omVals m) x = v"
      using Bin.IH(1)[OF n(2) False _ _ _ l1(1)] Bin.prems(3,4,5) by auto
    let ?q = "om_rebalance (m1\<lparr>omLeft := ta_put (omLeft m1) s c\<rparr>) s"
    have f: "slots l = x # slots l1" "hts l1" using t_delmin_facts[OF False l1(1)] Bin.prems(4) by auto
    have hang: "om_at (snd ?q) (fst ?q) t1" "om_upd (set (slots l1 @ s # slots r)) m1 (snd ?q)"
      using om_hang_left[OF _ _ n(4) c(2), of "set (slots l)"] om_upd_ok[OF c(3)] Bin.prems(3-5) f l1(2) by auto
    have "om_upd (set (slots (Bin s l lk lv h r))) m (snd ?q)"
      by (rule om_upd_mono[OF om_upd_trans[OF c(3) hang(2)]]) (use f in auto)
    moreover have "om_deleteMin m n = Some (fst ?q, x, snd ?q)"
      using False n null c(1) by (simp add: om_deleteMin.simps[of m s] case_prod_beta)
    ultimately show ?thesis using hang(1) c(4,5) by blast
  qed
qed simp

lemma om_freeNode_ok:
  assumes "om_ok m" "om_mem m" "n \<in> om_used m"
  shows "om_ok (om_freeNode m n)" "om_mem (om_freeNode m n)" "om_used (om_freeNode m n) = om_used m - {n}"
    "om_same {n} m (om_freeNode m n)" "omSize (om_freeNode m n) = omSize m"
proof -
  have n: "0 \<le> n" "n < omLen m" "n \<notin> set (omFree m)" using assms(3) by (auto simp: om_used_def)
  show "om_ok (om_freeNode m n)" "omSize (om_freeNode m n) = omSize m" "om_mem (om_freeNode m n)"
    "om_used (om_freeNode m n) = om_used m - {n}"
    using assms(1,2) n by (auto simp: om_freeNode_def om_ok_def om_mem_def om_used_def)
  show "om_same {n} m (om_freeNode m n)"
    using assms(1) n by (auto simp: om_freeNode_def om_same_def om_ok_def js_get_put ta_get_put)
qed
text \<open>What a deletion did to the state: it gave back the slots \<open>S\<close> lost.\<close>

definition om_del_post :: "('k, 'v) omap \<Rightarrow> int set \<Rightarrow> int set \<Rightarrow> bool \<Rightarrow> ('k, 'v) omap \<Rightarrow> bool" where
  "om_del_post m S S' hit m' \<longleftrightarrow> om_ok m' \<and> om_mem m' \<and> om_same S m m' \<and> om_used m' = om_used m - (S - S') \<and>
     omSize m' = omSize m - (if hit then 1 else 0)"

lemma om_removeRoot_ok:
  assumes "om_ok m" "om_mem m" "om_at m n (Bin n l k v h r)" "distinct (slots l @ n # slots r)" "hts l" "hts r"
    "length (slots l @ n # slots r) \<le> 2 ^ 30" "n \<in> om_used m"
  shows "\<exists>n' m'. om_removeRoot m n = Some (n', m') \<and> om_at m' n' (t_join l r) \<and>
    om_del_post m (set (slots l @ n # slots r)) (set (slots l @ slots r)) True m'"
proof -
  let ?m = "m\<lparr>omSize := omSize m - 1\<rparr>" and ?S = "set (slots l @ n # slots r)"
  have m0: "om_ok ?m" "om_mem ?m" "om_used ?m = om_used m" "om_same {} m ?m"
    using assms(1,2) by (auto simp: om_ok_def om_mem_def om_used_def om_same_def)
  have at0: "om_at ?m n (Bin n l k v h r)" using om_at_same[OF m0(4) assms(3)] by simp
  have at: "om_at ?m (ta_get (omLeft m) n) l" "om_at ?m (ta_get (omRight m) n) r"
    using at0 by auto
  have null: "ta_get (omLeft m) n = - 1 \<longleftrightarrow> l = Tip" "ta_get (omRight m) n = - 1 \<longleftrightarrow> r = Tip"
    using om_at_null[OF at(1)] om_at_null[OF at(2)] by auto
  note fr = om_freeNode_ok[of ?m n, OF m0(1,2)]
  have gone: "?S - set (slots l @ slots r) = {n}" using assms(4) by auto
  have nS: "{n} \<subseteq> ?S" by simp
  have post: "om_del_post m ?S (set (slots l @ slots r)) True (om_freeNode ?m n)"
    using fr m0(3) assms(8) om_same_mono[OF om_same_trans[OF m0(4) fr(4)], of ?S] nS
    by (simp add: om_del_post_def gone del: set_append)
  show ?thesis
  proof (cases "r = Tip \<or> l = Tip")
    case True
    then have "om_removeRoot m n = Some (if r = Tip then ta_get (omLeft m) n else ta_get (omRight m) n, om_freeNode ?m n)"
      using null by (auto simp: om_removeRoot_def Let_def)
    moreover have "om_at (om_freeNode ?m n) (if r = Tip then ta_get (omLeft m) n else ta_get (omRight m) n) (t_join l r)"
      using True at assms(4,8) m0(3) fr(4) om_at_same[of "{n}" ?m "om_freeNode ?m n"] by (auto simp: t_join_def)
    ultimately show ?thesis using post by blast
  next
    case False
    obtain r1 x xk xv where dm: "t_delmin r = (r1, x, xk, xv)" by (cases "t_delmin r") auto
    have f: "slots r = x # slots r1" "hts r1" using t_delmin_facts[OF _ dm] False assms(6) by auto
    obtain c m1 where c: "om_deleteMin ?m (ta_get (omRight m) n) = Some (c, x, m1)" "om_at m1 c r1"
        "om_upd (set (slots r)) ?m m1" "js_get (omKeys m) x = Some xk" "js_get (omVals m) x = xv"
      using om_deleteMin_ok[OF m0(1) at(2) _ _ assms(6) _ dm] assms(4,7) False by auto
    let ?lc = "ta_get (omLeft m) n"
    let ?m2 = "m1\<lparr>omLeft := ta_put (omLeft m1) x ?lc\<rparr>"
    let ?m3 = "?m2\<lparr>omRight := ta_put (omRight ?m2) x c\<rparr>"
    have ok1: "om_ok m1" "omLen m1 = omLen m" "om_same (set (slots r)) ?m m1" using om_upd_ok[OF c(3)] by auto
    have len: "0 < omLen m" using assms(1) by (simp add: om_ok_def)
    have x: "0 \<le> x" "x < omLen m1" using om_at_range[OF at(2)] f ok1(2) by auto
    have lc: "- 1 \<le> ?lc" "?lc < omLen m1" using om_at_root[OF at(1)] len ok1(2) by auto
    have u2: "om_upd {x} m1 ?m2" "ta_get (omLeft ?m2) = (ta_get (omLeft m1))(x := ?lc)"
      using om_upd_left[OF ok1(1) x lc] by auto
    have cc: "- 1 \<le> c" "c < omLen ?m2" using om_at_root[OF c(2)] len ok1(2) by auto
    have ok2: "om_ok ?m2" "x < omLen ?m2" using om_upd_ok[OF u2(1)] x by auto
    have u3: "om_upd {x} ?m2 ?m3" "ta_get (omRight ?m3) = (ta_get (omRight ?m2))(x := c)"
      using om_upd_right[OF ok2(1) x(1) ok2(2) cc] by auto
    have u: "om_upd {x} m1 ?m3" using om_upd_trans[OF u2(1) u3(1)] by simp
    have um: "om_upd (set (slots r)) ?m ?m3"
      by (rule om_upd_mono[OF om_upd_trans[OF c(3) u]]) (use f in auto)
    let ?m4 = "om_freeNode ?m3 n"
    have us: "n \<in> om_used ?m3" using om_upd_mem[OF um] m0(3) assms(8) by simp
    have fr4: "om_ok ?m4" "om_mem ?m4" "om_used ?m4 = om_used m - {n}" "om_same {n} ?m3 ?m4"
        "omSize ?m4 = omSize m - 1"
      using om_freeNode_ok[OF _ _ us] om_upd_ok[OF um] om_upd_mem[OF um] m0 by auto
    have d: "n \<noteq> x" "n \<notin> set (slots r1)" "n \<notin> set (slots l)" "x \<notin> set (slots l)" "x \<notin> set (slots r1)"
        "set (slots l) \<inter> set (slots r) = {}"
      using assms(4) f by auto
    have "om_at ?m3 ?lc l" using om_at_same[OF _ at(1)] om_upd_ok[OF um] d(6) by auto
    then have l4: "om_at ?m4 ?lc l" using om_at_same[OF fr4(4)] d(3) by auto
    have "om_at ?m3 c r1" using om_at_same[OF _ c(2)] om_upd_ok[OF u] d(5) by auto
    then have r4: "om_at ?m4 c r1" using om_at_same[OF fr4(4)] d(2) by auto
    have top: "ta_get (omLeft ?m4) x = ?lc" "ta_get (omRight ?m4) x = c" "js_get (omKeys ?m4) x = Some xk"
        "js_get (omVals ?m4) x = xv" "x < omLen ?m4"
      using fr4(4) d(1) x u2(2) u3(2) om_upd_kv[OF um] c(4,5) by (auto simp: om_same_def)
    have at4: "om_at ?m4 x (Bin x l xk xv (ta_get (omHeight ?m4) x) r1)"
      using top x(1) l4 r4 by simp
    let ?q = "om_rebalance ?m4 x"
    have q: "om_at (snd ?q) (fst ?q) (bal x l xk xv r1)" "om_upd (set (slots l @ x # slots r1)) ?m4 (snd ?q)"
      using om_rebalance_ok[OF fr4(1) at4 _ assms(5) f(2)] assms(4,7) f by auto
    have "om_removeRoot m n = Some ?q"
      using False null c(1) by (simp add: om_removeRoot_def Let_def)
    moreover have "t_join l r = bal x l xk xv r1" using False dm by (simp add: t_join_def)
    moreover have "om_same ?S m (snd ?q)"
    proof -
      have "om_same ({} \<union> (set (slots r) \<union> ({n} \<union> set (slots l @ x # slots r1)))) m (snd ?q)"
        using om_same_trans[OF m0(4) om_same_trans[OF _ om_same_trans[OF fr4(4)]]] om_upd_ok[OF um] om_upd_ok[OF q(2)]
        by blast
      then show ?thesis by (rule om_same_mono) (use f in auto)
    qed
    then have "om_del_post m ?S (set (slots l @ slots r)) True (snd ?q)"
      using om_upd_ok[OF q(2)] om_upd_mem[OF q(2)] fr4 by (simp add: om_del_post_def gone del: set_append)
    ultimately show ?thesis using q(1) by (intro exI[of _ "fst ?q"] exI[of _ "snd ?q"]) simp
  qed
qed
lemma om_del_post_upd:
  assumes "om_del_post m S S' hit m1" "om_upd T m1 m2" "S \<union> T \<subseteq> S2" "S2 - S2' = S - S'"
  shows "om_del_post m S2 S2' hit m2"
proof -
  have "om_same (S \<union> T) m m2"
    using assms(1,2) by (intro om_same_trans[of _ m m1]) (simp_all add: om_del_post_def om_upd_def)
  then have "om_same S2 m m2" using assms(3) by (rule om_same_mono)
  then show ?thesis using assms(1,4) om_upd_mem[OF assms(2)] om_upd_ok[OF assms(2)] by (simp add: om_del_post_def)
qed

lemma om_deleteNode_miss:
  "om_at m n t \<Longrightarrow> \<not> t_has cmp key t \<Longrightarrow> om_deleteNode cmp key m n = Some (n, False, m)"
proof (induction t arbitrary: n)
  case (Bin s l k v h r)
  then have "n = s" "s \<noteq> - 1" "om_key m s = k" "om_at m (ta_get (omLeft m) s) l"
      "om_at m (ta_get (omRight m) s) r"
    by (auto simp: om_key_def)
  then show ?case using Bin.IH Bin.prems(2)
    by (auto simp: om_deleteNode.simps[of cmp key m s] split: if_splits)
qed (simp add: om_deleteNode.simps)

lemma om_deleteNode_hit:
  assumes "om_ok m" "om_mem m"
  shows "om_at m n t \<Longrightarrow> t_has cmp key t \<Longrightarrow> distinct (slots t) \<Longrightarrow> hts t \<Longrightarrow> length (slots t) \<le> 2 ^ 30 \<Longrightarrow>
    set (slots t) \<subseteq> om_used m \<Longrightarrow>
    \<exists>n' m'. om_deleteNode cmp key m n = Some (n', True, m') \<and> om_at m' n' (t_del cmp key t) \<and>
      om_del_post m (set (slots t)) (set (slots (t_del cmp key t))) True m'"
proof (induction t arbitrary: n)
  case (Bin s l k v h r)
  have n: "n = s" "s \<noteq> - 1" "om_key m s = k" "om_at m (ta_get (omLeft m) s) l" "om_at m (ta_get (omRight m) s) r"
    using Bin.prems(1) by (auto simp: om_key_def)
  have at: "om_at m s (Bin s l k v h r)" using Bin.prems(1) n(1) by simp
  have d: "s \<notin> set (slots l)" "s \<notin> set (slots r)" "set (slots l) \<inter> set (slots r) = {}"
      "distinct (slots l)" "distinct (slots r)" "hts l" "hts r"
    using Bin.prems(3,4) by auto
  have us: "set (slots l) \<subseteq> om_used m" "set (slots r) \<subseteq> om_used m" "s \<in> om_used m" using Bin.prems(6) by auto
  consider "cmp key k < 0" | "cmp key k > 0" | "cmp key k = 0" by linarith
  then show ?case
  proof cases
    case 1
    let ?l = "t_del cmp key l"
    have hl: "t_has cmp key l" using Bin.prems(2) 1 by simp
    obtain c m1 where c: "om_deleteNode cmp key m (ta_get (omLeft m) s) = Some (c, True, m1)" "om_at m1 c ?l"
        "om_del_post m (set (slots l)) (set (slots ?l)) True m1"
      using Bin.IH(1)[OF n(4) hl d(4) d(6) _ us(1)] Bin.prems(5) by auto
    let ?q = "om_rebalance (m1\<lparr>omLeft := ta_put (omLeft m1) s c\<rparr>) s"
    have sub: "set (slots ?l) \<subseteq> set (slots l)" by (rule t_del_slots(1))
    have pre: "distinct (slots ?l @ s # slots r)" "length (slots ?l @ s # slots r) \<le> 2 ^ 30"
      using t_del_slots(2)[OF d(4)] t_del_slots(3)[of l cmp key] sub d Bin.prems(5) by auto
    have hang: "om_at (snd ?q) (fst ?q) (bal s ?l k v r)" "om_upd (set (slots ?l @ s # slots r)) m1 (snd ?q)"
      using om_hang_left[OF _ _ at c(2), of "set (slots l)"] c(3) d t_del_hts[OF d(6)] pre
      by (auto simp: om_del_post_def)
    have "om_del_post m (set (slots (Bin s l k v h r))) (set (slots (bal s ?l k v r))) True (snd ?q)"
      by (rule om_del_post_upd[OF c(3) hang(2)]) (use sub d in auto)
    moreover have "om_deleteNode cmp key m n = Some (fst ?q, True, snd ?q)"
      using 1 n c(1) by (simp add: om_deleteNode.simps[of cmp key m s] case_prod_beta)
    ultimately show ?thesis using hang(1) 1 hl
      by (intro exI[of _ "fst ?q"] exI[of _ "snd ?q"]) simp
  next
    case 2
    let ?r = "t_del cmp key r"
    have hr: "t_has cmp key r" using Bin.prems(2) 2 by simp
    obtain c m1 where c: "om_deleteNode cmp key m (ta_get (omRight m) s) = Some (c, True, m1)" "om_at m1 c ?r"
        "om_del_post m (set (slots r)) (set (slots ?r)) True m1"
      using Bin.IH(2)[OF n(5) hr d(5) d(7) _ us(2)] Bin.prems(5) by auto
    let ?q = "om_rebalance (m1\<lparr>omRight := ta_put (omRight m1) s c\<rparr>) s"
    have sub: "set (slots ?r) \<subseteq> set (slots r)" by (rule t_del_slots(1))
    have pre: "distinct (slots l @ s # slots ?r)" "length (slots l @ s # slots ?r) \<le> 2 ^ 30"
      using t_del_slots(2)[OF d(5)] t_del_slots(3)[of r cmp key] sub d Bin.prems(5) by auto
    have hang: "om_at (snd ?q) (fst ?q) (bal s l k v ?r)" "om_upd (set (slots l @ s # slots ?r)) m1 (snd ?q)"
      using om_hang_right[OF _ _ at c(2), of "set (slots r)"] c(3) d t_del_hts[OF d(7)] pre
      by (auto simp: om_del_post_def)
    have "om_del_post m (set (slots (Bin s l k v h r))) (set (slots (bal s l k v ?r))) True (snd ?q)"
      by (rule om_del_post_upd[OF c(3) hang(2)]) (use sub d in auto)
    moreover have "om_deleteNode cmp key m n = Some (fst ?q, True, snd ?q)"
      using 2 n c(1) by (simp add: om_deleteNode.simps[of cmp key m s] case_prod_beta)
    ultimately show ?thesis using hang(1) 2 hr
      by (intro exI[of _ "fst ?q"] exI[of _ "snd ?q"]) simp
  next
    case 3
    obtain n' m' where q: "om_removeRoot m s = Some (n', m')" "om_at m' n' (t_join l r)"
        "om_del_post m (set (slots l @ s # slots r)) (set (slots l @ slots r)) True m'"
      using om_removeRoot_ok[OF assms at _ d(6,7) _ us(3)] Bin.prems(3,5) by auto
    moreover have "om_deleteNode cmp key m n = Some (n', True, m')"
      using 3 n q(1) by (simp add: om_deleteNode.simps[of cmp key m s])
    ultimately show ?thesis using 3
      by (intro exI[of _ n'] exI[of _ m']) (simp add: t_join_facts)
  qed
qed simp

end
