(* ===== verification/OrderedMapOrder.thy ===== *)
theory OrderedMapOrder
  imports OrderedMap
begin

text \<open>
  The order and the balance of the tree of \<open>OrderedMap\<close>, with the lookups, the traversals and the
  sessions. The reference of every operation is a list of entries in strictly increasing key order.
\<close>

section \<open>Balance\<close>

fun avl_ok :: "('k, 'v) avl \<Rightarrow> bool" where
  "avl_ok Tip \<longleftrightarrow> True"
| "avl_ok (Bin s l k v h r) \<longleftrightarrow> \<bar>ht l - ht r\<bar> \<le> 1 \<and> avl_ok l \<and> avl_ok r"

lemma ht_nonneg: "hts t \<Longrightarrow> 0 \<le> ht t"
  using hts_bound[of t] by simp

lemma ht_Bin: "hts t \<Longrightarrow> 0 < ht t \<Longrightarrow> \<exists>s l k v h r. t = Bin s l k v h r"
  by (cases t) auto

text \<open>\<open>rebalance\<close> repairs a difference of two, and the tree does not grow by more than the join would.\<close>

definition bal_result :: "('k, 'v) avl \<Rightarrow> int \<Rightarrow> int \<Rightarrow> bool" where
  "bal_result t hl hr \<longleftrightarrow> avl_ok t \<and> max hl hr \<le> ht t \<and> ht t \<le> 1 + max hl hr \<and>
     (\<bar>hl - hr\<bar> \<le> 1 \<longrightarrow> ht t = 1 + max hl hr)"

lemma bal_left_heavy:
  assumes "hts l" "hts r" "avl_ok l" "avl_ok r" "ht l = ht r + 2"
  shows "bal_result (rotR s (leanL l) k v r) (ht l) (ht r)"
proof -
  obtain ls a lk lv lh b where l: "l = Bin ls a lk lv lh b" using ht_Bin[OF assms(1)] ht_nonneg[OF assms(2)] assms(5) by auto
  show ?thesis
  proof (cases "ht a < ht b")
    case False
    then show ?thesis using assms l by (auto simp: mkb_def bal_result_def)
  next
    case True
    then obtain bs ba bk bv bh bb where b: "b = Bin bs ba bk bv bh bb"
      using ht_Bin[of b] ht_nonneg[of a] assms(1) l by auto
    show ?thesis using assms True by (auto simp: l b mkb_def bal_result_def)
  qed
qed

lemma bal_right_heavy:
  assumes "hts l" "hts r" "avl_ok l" "avl_ok r" "ht r = ht l + 2"
  shows "bal_result (rotL s l k v (leanR r)) (ht l) (ht r)"
proof -
  obtain rs b rk rv rh c where r: "r = Bin rs b rk rv rh c" using ht_Bin[OF assms(2)] ht_nonneg[OF assms(1)] assms(5) by auto
  show ?thesis
  proof (cases "ht b > ht c")
    case False
    then show ?thesis using assms r by (auto simp: mkb_def bal_result_def)
  next
    case True
    then obtain bs ba bk bv bh bb where b: "b = Bin bs ba bk bv bh bb"
      using ht_Bin[of b] ht_nonneg[of c] assms(2) r by auto
    show ?thesis using assms True by (auto simp: r b mkb_def bal_result_def)
  qed
qed

lemma bal_balanced:
  assumes "hts l" "hts r" "avl_ok l" "avl_ok r" "\<bar>ht l - ht r\<bar> \<le> 2"
  shows "bal_result (bal s l k v r) (ht l) (ht r)"
proof -
  consider "ht l = ht r + 2" | "ht r = ht l + 2" | "\<bar>ht l - ht r\<bar> \<le> 1" using assms(5) by linarith
  then show ?thesis
  proof cases
    case 3
    then have "\<not> ht l - ht r > 1" "\<not> ht l - ht r < - 1" by linarith+
    then have "bal s l k v r = mkb s l k v r" by (simp add: bal_def)
    then show ?thesis using assms 3 by (simp add: mkb_def bal_result_def)
  qed (use assms bal_left_heavy[OF assms(1-4)] bal_right_heavy[OF assms(1-4)] in \<open>simp_all add: bal_def\<close>)
qed

lemma t_ins_balanced:
  "hts t \<Longrightarrow> avl_ok t \<Longrightarrow> avl_ok (t_ins cmp new key val t) \<and> ht t \<le> ht (t_ins cmp new key val t) \<and>
    ht (t_ins cmp new key val t) \<le> ht t + 1"
proof (induction t)
  case (Bin s l k v h r)
  have d: "hts l" "hts r" "avl_ok l" "avl_ok r" "\<bar>ht l - ht r\<bar> \<le> 1" "h = 1 + max (ht l) (ht r)"
    using Bin.prems by auto
  let ?l = "t_ins cmp new key val l" and ?r = "t_ins cmp new key val r"
  have "bal_result (bal s ?l k v r) (ht ?l) (ht r)"
    by (rule bal_balanced) (use d Bin.IH(1) t_ins_hts[OF d(1)] in auto)
  moreover have "bal_result (bal s l k v ?r) (ht l) (ht ?r)"
    by (rule bal_balanced) (use d Bin.IH(2) t_ins_hts[OF d(2)] in auto)
  ultimately show ?case using d Bin.IH by (auto simp: bal_result_def)
qed simp

lemma t_delmin_balanced:
  "hts t \<Longrightarrow> avl_ok t \<Longrightarrow> t \<noteq> Tip \<Longrightarrow> t_delmin t = (t1, x) \<Longrightarrow>
    avl_ok t1 \<and> ht t1 \<le> ht t \<and> ht t \<le> ht t1 + 1"
proof (induction t arbitrary: t1 x)
  case (Bin s l k v h r)
  have d: "hts l" "hts r" "avl_ok l" "avl_ok r" "\<bar>ht l - ht r\<bar> \<le> 1" "h = 1 + max (ht l) (ht r)"
    using Bin.prems by auto
  show ?case
  proof (cases "l = Tip")
    case True
    then show ?thesis using Bin.prems d ht_nonneg[OF d(2)] by auto
  next
    case False
    obtain l1 y where l1: "t_delmin l = (l1, y)" by (cases "t_delmin l")
    have i: "avl_ok l1" "ht l1 \<le> ht l" "ht l \<le> ht l1 + 1" using Bin.IH(1)[OF d(1,3) False l1] by auto
    have "hts l1" using t_delmin_facts[OF False, of l1] l1 d(1) by (cases y) auto
    then have "bal_result (bal s l1 k v r) (ht l1) (ht r)" by (rule bal_balanced) (use d i in auto)
    then show ?thesis using Bin.prems(4) False l1 d i by (auto simp: bal_result_def)
  qed
qed simp

lemma t_join_balanced:
  assumes "hts l" "hts r" "avl_ok l" "avl_ok r" "\<bar>ht l - ht r\<bar> \<le> 1"
  shows "avl_ok (t_join l r) \<and> max (ht l) (ht r) \<le> ht (t_join l r) \<and> ht (t_join l r) \<le> 1 + max (ht l) (ht r)"
proof (cases "r = Tip \<or> l = Tip")
  case True
  then show ?thesis using assms ht_nonneg[OF assms(1)] ht_nonneg[OF assms(2)] by (auto simp: t_join_def)
next
  case False
  obtain r1 s k v where r1: "t_delmin r = (r1, s, k, v)" by (cases "t_delmin r")
  have i: "avl_ok r1" "ht r1 \<le> ht r" "ht r \<le> ht r1 + 1"
    using t_delmin_balanced[OF assms(2,4) _ r1] False by auto
  have "hts r1" using t_delmin_facts[OF _ r1] False assms(2) by auto
  then have "bal_result (bal s l k v r1) (ht l) (ht r1)"
    by (intro bal_balanced) (use assms i in auto)
  then show ?thesis using False r1 i assms(5) by (auto simp: t_join_def bal_result_def)
qed

lemma t_del_balanced:
  "hts t \<Longrightarrow> avl_ok t \<Longrightarrow> avl_ok (t_del cmp key t) \<and> ht (t_del cmp key t) \<le> ht t \<and>
    ht t \<le> ht (t_del cmp key t) + 1"
proof (induction t)
  case (Bin s l k v h r)
  have d: "hts l" "hts r" "avl_ok l" "avl_ok r" "\<bar>ht l - ht r\<bar> \<le> 1" "h = 1 + max (ht l) (ht r)"
    using Bin.prems by auto
  let ?l = "t_del cmp key l" and ?r = "t_del cmp key r"
  note i = Bin.IH(1)[OF d(1,3)] Bin.IH(2)[OF d(2,4)]
  have bl: "bal_result (bal s ?l k v r) (ht ?l) (ht r)"
    by (rule bal_balanced) (use d i t_del_hts[OF d(1)] in auto)
  have br: "bal_result (bal s l k v ?r) (ht l) (ht ?r)"
    by (rule bal_balanced) (use d i t_del_hts[OF d(2)] in auto)
  consider "\<not> t_has cmp key (Bin s l k v h r)" | "t_has cmp key (Bin s l k v h r)" "cmp key k < 0"
    | "t_has cmp key (Bin s l k v h r)" "cmp key k > 0" | "t_has cmp key (Bin s l k v h r)" "cmp key k = 0"
    by linarith
  then show ?case
  proof cases
    case 1
    then have eq: "t_del cmp key (Bin s l k v h r) = Bin s l k v h r" by (rule t_del_slots(4))
    show ?thesis unfolding eq using Bin.prems by simp
  next
    case 2
    then have "t_del cmp key (Bin s l k v h r) = bal s ?l k v r" by simp
    then show ?thesis using bl d(5,6) i(1) unfolding bal_result_def by simp linarith
  next
    case 3
    then have "t_del cmp key (Bin s l k v h r) = bal s l k v ?r" by simp
    then show ?thesis using br d(5,6) i(2) unfolding bal_result_def by simp linarith
  next
    case 4
    then have "t_del cmp key (Bin s l k v h r) = t_join l r" by simp
    then show ?thesis using t_join_balanced[OF d(1-5)] d(6) by simp
  qed
qed simp

text \<open>The height is logarithmic: a tree of height \<open>h\<close> has at least \<open>sqrt (2 ^ h) - 1\<close> nodes.\<close>

lemma sum_square_bound:
  fixes x y p :: nat
  assumes "2 * p \<le> x * x" "p \<le> y * y"
  shows "4 * p \<le> (x + y) * (x + y)"
proof -
  have "p \<le> x * y"
  proof (cases "x \<le> y")
    case True
    then have "x * x \<le> x * y" by simp
    then show ?thesis using assms(1) by linarith
  next
    case False
    then have "y * y \<le> x * y" by simp
    then show ?thesis using assms(2) by linarith
  qed
  then show ?thesis using assms by (simp add: algebra_simps)
qed

lemma avl_height_bound:
  "hts t \<Longrightarrow> avl_ok t \<Longrightarrow> 2 ^ nat (ht t) \<le> (length (slots t) + 1) * (length (slots t) + 1)"
proof (induction t)
  case (Bin s l k v h r)
  let ?x = "length (slots l) + 1" and ?y = "length (slots r) + 1"
  have d: "hts l" "hts r" "avl_ok l" "avl_ok r" "\<bar>ht l - ht r\<bar> \<le> 1" "h = 1 + max (ht l) (ht r)"
    using Bin.prems by auto
  have nn: "0 \<le> ht l" "0 \<le> ht r" using ht_nonneg d by auto
  have IH: "2 ^ nat (ht l) \<le> ?x * ?x" "2 ^ nat (ht r) \<le> ?y * ?y" using Bin.IH d by auto
  have size: "length (slots (Bin s l k v h r)) + 1 = ?x + ?y" by simp
  consider "ht l = ht r" | "ht l = ht r + 1" | "ht r = ht l + 1" using d(5) by linarith
  then show ?case unfolding size
  proof cases
    case 1
    have "nat h = Suc (nat (ht l))" using d(6) 1 nn by auto
    moreover have "2 * 2 ^ nat (ht l) \<le> (?x + ?y) * (?x + ?y)"
      using IH 1 by (auto simp: algebra_simps)
    ultimately show "2 ^ nat (ht (Bin s l k v h r)) \<le> (?x + ?y) * (?x + ?y)" by simp
  next
    case 2
    have "nat h = Suc (Suc (nat (ht r)))" "nat (ht l) = Suc (nat (ht r))" using d(6) 2 nn by auto
    then show "2 ^ nat (ht (Bin s l k v h r)) \<le> (?x + ?y) * (?x + ?y)"
      using sum_square_bound[of "2 ^ nat (ht r)" ?x ?y] IH by simp
  next
    case 3
    have "nat h = Suc (Suc (nat (ht l)))" "nat (ht r) = Suc (nat (ht l))" using d(6) 3 nn by auto
    then show "2 ^ nat (ht (Bin s l k v h r)) \<le> (?x + ?y) * (?x + ?y)"
      using sum_square_bound[of "2 ^ nat (ht l)" ?y ?x] IH by (simp add: add.commute)
  qed
qed simp

lemma avl_height_60:
  assumes "hts t" "avl_ok t" "length (slots t) < 2 ^ 30"
  shows "ht t \<le> 60"
proof -
  have "(length (slots t) + 1) * (length (slots t) + 1) \<le> 2 ^ 30 * 2 ^ 30"
    by (rule mult_mono) (use assms(3) in auto)
  then have "(2::nat) ^ nat (ht t) \<le> 2 ^ 60"
    using avl_height_bound[OF assms(1,2)] by (simp flip: power_add)
  then have "nat (ht t) \<le> 60" by (rule power_le_imp_le_exp[rotated]) simp
  then show ?thesis by linarith
qed
section \<open>The sorted list of entries\<close>

type_synonym ('k, 'v) entries = "('k \<times> 'v option) list"

definition al_sorted :: "('k \<Rightarrow> 'k \<Rightarrow> int) \<Rightarrow> ('k, 'v) entries \<Rightarrow> bool" where
  "al_sorted cmp xs \<longleftrightarrow> sorted_wrt (\<lambda>a b. cmp (fst a) (fst b) < 0) xs"

text \<open>A key that compares equal keeps its place and its key, and takes the new value.\<close>

fun al_set :: "('k \<Rightarrow> 'k \<Rightarrow> int) \<Rightarrow> 'k \<Rightarrow> 'v option \<Rightarrow> ('k, 'v) entries \<Rightarrow> ('k, 'v) entries" where
  "al_set cmp key val [] = [(key, val)]"
| "al_set cmp key val (e # xs) =
     (if cmp key (fst e) < 0 then (key, val) # e # xs
      else if cmp key (fst e) > 0 then e # al_set cmp key val xs
      else (fst e, val) # xs)"

definition al_same :: "('k \<Rightarrow> 'k \<Rightarrow> int) \<Rightarrow> 'k \<Rightarrow> ('k, 'v) entries \<Rightarrow> ('k, 'v) entries" where
  "al_same cmp key xs = filter (\<lambda>e. cmp key (fst e) = 0) xs"

definition al_del :: "('k \<Rightarrow> 'k \<Rightarrow> int) \<Rightarrow> 'k \<Rightarrow> ('k, 'v) entries \<Rightarrow> ('k, 'v) entries" where
  "al_del cmp key xs = filter (\<lambda>e. cmp key (fst e) \<noteq> 0) xs"

definition al_get :: "('k \<Rightarrow> 'k \<Rightarrow> int) \<Rightarrow> 'k \<Rightarrow> ('k, 'v) entries \<Rightarrow> 'v option" where
  "al_get cmp key xs = (case al_same cmp key xs of [] \<Rightarrow> None | e # _ \<Rightarrow> snd e)"

definition al_has :: "('k \<Rightarrow> 'k \<Rightarrow> int) \<Rightarrow> 'k \<Rightarrow> ('k, 'v) entries \<Rightarrow> bool" where
  "al_has cmp key xs \<longleftrightarrow> al_same cmp key xs \<noteq> []"

definition al_first :: "('k, 'v) entries \<Rightarrow> ('k \<times> 'v option) option" where
  "al_first xs = (if xs = [] then None else Some (hd xs))"

definition al_last :: "('k, 'v) entries \<Rightarrow> ('k \<times> 'v option) option" where
  "al_last xs = (if xs = [] then None else Some (last xs))"

definition al_floor :: "('k \<Rightarrow> 'k \<Rightarrow> int) \<Rightarrow> 'k \<Rightarrow> ('k, 'v) entries \<Rightarrow> ('k \<times> 'v option) option" where
  "al_floor cmp key xs = al_last (filter (\<lambda>e. cmp key (fst e) \<ge> 0) xs)"

definition al_ceiling :: "('k \<Rightarrow> 'k \<Rightarrow> int) \<Rightarrow> 'k \<Rightarrow> ('k, 'v) entries \<Rightarrow> ('k \<times> 'v option) option" where
  "al_ceiling cmp key xs = al_first (filter (\<lambda>e. cmp key (fst e) \<le> 0) xs)"

definition al_range :: "('k \<Rightarrow> 'k \<Rightarrow> int) \<Rightarrow> 'k \<Rightarrow> 'k \<Rightarrow> ('k, 'v) entries \<Rightarrow> ('k, 'v) entries" where
  "al_range cmp lo hi xs = filter (\<lambda>e. cmp (fst e) lo \<ge> 0 \<and> cmp (fst e) hi \<le> 0) xs"

context comparator
begin

text \<open>Around a key of the list, the entries before it are below and those after it above.\<close>

lemma al_sorted_mid:
  assumes "al_sorted cmp (xs @ e # ys)"
  shows "al_sorted cmp xs" "al_sorted cmp ys" "\<And>x. x \<in> set xs \<Longrightarrow> cmp (fst x) (fst e) < 0"
    "\<And>y. y \<in> set ys \<Longrightarrow> cmp (fst e) (fst y) < 0"
  using assms by (auto simp: al_sorted_def sorted_wrt_append)

lemma al_left_above:
  assumes "al_sorted cmp (xs @ e # ys)" "cmp key (fst e) \<ge> 0" "x \<in> set xs"
  shows "cmp key (fst x) > 0"
  using al_sorted_mid(3)[OF assms(1,3)] assms(2) cmp_flip[of "fst e" key] cmp_antisym[of "fst x" key]
    cmp_less_le_trans[of "fst x" "fst e" key] by linarith

lemma al_right_below:
  assumes "al_sorted cmp (xs @ e # ys)" "cmp key (fst e) \<le> 0" "y \<in> set ys"
  shows "cmp key (fst y) < 0"
  using al_sorted_mid(4)[OF assms(1,3)] assms(2) cmp_le_less_trans[of key "fst e" "fst y"] by blast

lemma al_set_left:
  "cmp key (fst e) < 0 \<Longrightarrow> al_set cmp key val (xs @ e # ys) = al_set cmp key val xs @ e # ys"
  by (induction xs) auto

lemma al_set_right:
  "(\<And>x. x \<in> set xs \<Longrightarrow> cmp key (fst x) > 0) \<Longrightarrow> al_set cmp key val (xs @ ys) = xs @ al_set cmp key val ys"
  by (induction xs) fastforce+

lemma al_set_keys: "x \<in> set (al_set cmp key val xs) \<Longrightarrow> fst x = key \<or> (\<exists>e \<in> set xs. fst x = fst e)"
  by (induction xs) (auto split: if_splits)

lemma al_set_sorted: "al_sorted cmp xs \<Longrightarrow> al_sorted cmp (al_set cmp key val xs)"
proof (induction xs)
  case Nil
  then show ?case by (simp add: al_sorted_def)
next
  case (Cons e xs)
  have s: "al_sorted cmp xs" "\<And>y. y \<in> set xs \<Longrightarrow> cmp (fst e) (fst y) < 0"
    using Cons.prems by (auto simp: al_sorted_def)
  consider "cmp key (fst e) < 0" | "cmp key (fst e) > 0" | "cmp key (fst e) = 0" by linarith
  then show ?case
  proof cases
    case 1
    then have "\<And>y. y \<in> set xs \<Longrightarrow> cmp key (fst y) < 0" using s(2) cmp_less_trans by blast
    then show ?thesis using 1 Cons.prems by (auto simp: al_sorted_def)
  next
    case 2
    then have "cmp (fst e) key < 0" using cmp_antisym[of "fst e" key] by blast
    then have "cmp (fst e) (fst x) < 0" if "x \<in> set (al_set cmp key val xs)" for x
      using al_set_keys[OF that] s(2) by fastforce
    then show ?thesis using 2 Cons.IH[OF s(1)] by (simp add: al_sorted_def)
  next
    case 3
    then show ?thesis using s by (simp add: al_sorted_def)
  qed
qed

lemma al_del_sorted: "al_sorted cmp xs \<Longrightarrow> al_sorted cmp (al_del cmp key xs)"
  by (simp add: al_sorted_def al_del_def sorted_wrt_filter)

lemma filter_hides: "(\<And>x. x \<in> set xs \<Longrightarrow> \<not> P x) \<Longrightarrow> filter P xs = []"
  by (simp add: filter_empty_conv)

lemma filter_keeps: "(\<And>x. x \<in> set xs \<Longrightarrow> P x) \<Longrightarrow> filter P xs = xs"
  by simp

text \<open>The three outcomes of a comparison at the root of a subtree.\<close>

lemma al_around:
  assumes "al_sorted cmp (xs @ e # ys)"
  shows "cmp key (fst e) \<ge> 0 \<Longrightarrow> \<forall>x\<in>set xs. cmp key (fst x) > 0"
    "cmp key (fst e) \<le> 0 \<Longrightarrow> \<forall>y\<in>set ys. cmp key (fst y) < 0"
  using al_left_above[OF assms, of key] al_right_below[OF assms, of key] by blast+

lemma al_around_filter:
  assumes "al_sorted cmp (xs @ e # ys)" "cmp key (fst e) = 0"
  shows "filter (\<lambda>x. cmp key (fst x) = 0) xs = []" "filter (\<lambda>x. cmp key (fst x) = 0) ys = []"
    "filter (\<lambda>x. cmp key (fst x) \<noteq> 0) xs = xs" "filter (\<lambda>x. cmp key (fst x) \<noteq> 0) ys = ys"
  using al_around[OF assms(1), of key] assms(2) by (auto simp: filter_empty_conv filter_id_conv)

lemma al_same_cases:
  assumes "al_sorted cmp (xs @ e # ys)"
  shows "cmp key (fst e) < 0 \<Longrightarrow> al_same cmp key (xs @ e # ys) = al_same cmp key xs"
    "cmp key (fst e) > 0 \<Longrightarrow> al_same cmp key (xs @ e # ys) = al_same cmp key ys"
    "cmp key (fst e) = 0 \<Longrightarrow> al_same cmp key (xs @ e # ys) = [e]"
  using al_around[OF assms, of key] al_around_filter[OF assms, of key]
  by (auto simp: al_same_def filter_empty_conv)

lemma al_del_cases:
  assumes "al_sorted cmp (xs @ e # ys)"
  shows "cmp key (fst e) < 0 \<Longrightarrow> al_del cmp key (xs @ e # ys) = al_del cmp key xs @ e # ys"
    "cmp key (fst e) > 0 \<Longrightarrow> al_del cmp key (xs @ e # ys) = xs @ e # al_del cmp key ys"
    "cmp key (fst e) = 0 \<Longrightarrow> al_del cmp key (xs @ e # ys) = xs @ ys"
  using al_around[OF assms, of key] al_around_filter[OF assms, of key]
  by (auto simp: al_del_def filter_id_conv)

lemma t_has_inorder: "al_sorted cmp (inorder t) \<Longrightarrow> t_has cmp key t = al_has cmp key (inorder t)"
proof (induction t)
  case (Bin s l k v h r)
  have s: "al_sorted cmp (inorder l @ (k, v) # inorder r)" using Bin.prems by simp
  show ?case using Bin.IH al_sorted_mid(1,2)[OF s] al_same_cases[OF s, of key]
    by (cases "cmp key k" "0 :: int" rule: linorder_cases) (simp_all add: al_has_def)
qed (simp add: al_has_def al_same_def)

lemma t_ins_inorder:
  "al_sorted cmp (inorder t) \<Longrightarrow> inorder (t_ins cmp new key val t) = al_set cmp key val (inorder t)"
proof (induction t)
  case (Bin s l k v h r)
  have s: "al_sorted cmp (inorder l @ (k, v) # inorder r)" using Bin.prems by simp
  note above = al_left_above[OF s, of key, simplified]
  consider "cmp key k < 0" | "cmp key k > 0" | "cmp key k = 0" by linarith
  then show ?case
  proof cases
    case 1
    then show ?thesis using Bin.IH(1) al_sorted_mid(1)[OF s] by (simp add: al_set_left)
  next
    case 2
    then show ?thesis using Bin.IH(2) al_sorted_mid(2)[OF s] above by (simp add: al_set_right)
  next
    case 3
    then show ?thesis using above by (simp add: al_set_right)
  qed
qed simp

lemma al_del_absent: "\<not> al_has cmp key xs \<Longrightarrow> al_del cmp key xs = xs"
  by (simp add: al_has_def al_same_def al_del_def filter_empty_conv filter_id_conv)

lemma t_del_inorder:
  "al_sorted cmp (inorder t) \<Longrightarrow> inorder (t_del cmp key t) = al_del cmp key (inorder t)"
proof (induction t)
  case (Bin s l k v h r)
  have s: "al_sorted cmp (inorder l @ (k, v) # inorder r)" using Bin.prems by simp
  show ?case
  proof (cases "t_has cmp key (Bin s l k v h r)")
    case False
    then show ?thesis using t_has_inorder[OF Bin.prems] al_del_absent t_del_slots(4) by metis
  next
    case True
    then show ?thesis using Bin.IH al_sorted_mid(1,2)[OF s] al_del_cases[OF s, of key]
      by (cases "cmp key k" "0 :: int" rule: linorder_cases) (auto simp: t_join_facts)
  qed
qed (simp add: al_del_def)

end
section \<open>Lookups\<close>

lemma om_at_cong:
  "om_at m n t \<Longrightarrow> omLen m' = omLen m \<Longrightarrow> omKeys m' = omKeys m \<Longrightarrow> omVals m' = omVals m \<Longrightarrow>
    omLeft m' = omLeft m \<Longrightarrow> omRight m' = omRight m \<Longrightarrow> omHeight m' = omHeight m \<Longrightarrow> om_at m' n t"
  by (induction t arbitrary: n) auto

lemma om_entry_at: "om_at m n (Bin s l k v h r) \<Longrightarrow> om_entry m n = (k, v) \<and> om_key m n = k \<and> n = s \<and> n \<noteq> - 1"
  by (auto simp: om_entry_def om_key_def)

text \<open>The entry a descent has found, \<open>-1\<close> being none.\<close>

definition om_found :: "('k, 'v) omap \<Rightarrow> int \<Rightarrow> ('k \<times> 'v option) option" where
  "om_found m n = (if n = - 1 then None else Some (om_entry m n))"

lemma om_spine_left:
  "om_at m n t \<Longrightarrow> t \<noteq> Tip \<Longrightarrow> \<exists>n'. om_spine_end (omLeft m) n = Some n' \<and> om_entry m n' = hd (inorder t)"
proof (induction t arbitrary: n)
  case (Bin s l k v h r)
  have n: "n = s" "om_at m (ta_get (omLeft m) s) l" "om_entry m s = (k, v)"
    using Bin.prems(1) om_entry_at[OF Bin.prems(1)] by auto
  show ?case
  proof (cases "l = Tip")
    case True
    then show ?thesis using n by (simp add: om_spine_end.simps[of _ s])
  next
    case False
    then have "inorder l \<noteq> []" by (cases l) auto
    then show ?thesis using Bin.IH(1)[OF n(2) False] n(1) om_at_null[OF n(2)] False
      by (simp add: om_spine_end.simps[of _ s])
  qed
qed simp

lemma om_spine_right:
  "om_at m n t \<Longrightarrow> t \<noteq> Tip \<Longrightarrow> \<exists>n'. om_spine_end (omRight m) n = Some n' \<and> om_entry m n' = last (inorder t)"
proof (induction t arbitrary: n)
  case (Bin s l k v h r)
  have n: "n = s" "om_at m (ta_get (omRight m) s) r" "om_entry m s = (k, v)"
    using Bin.prems(1) om_entry_at[OF Bin.prems(1)] by auto
  show ?case
  proof (cases "r = Tip")
    case True
    then show ?thesis using n by (simp add: om_spine_end.simps[of _ s])
  next
    case False
    then have "inorder r \<noteq> []" by (cases r) auto
    then show ?thesis using Bin.IH(2)[OF n(2) False] n(1) om_at_null[OF n(2)] False
      by (simp add: om_spine_end.simps[of _ s])
  qed
qed simp

context comparator
begin

lemma om_get_loop_ok:
  assumes "omCmp m = cmp"
  shows "om_at m n t \<Longrightarrow> al_sorted cmp (inorder t) \<Longrightarrow> om_get_loop m key n = Some (al_get cmp key (inorder t))"
proof (induction t arbitrary: n)
  case Tip
  then show ?case by (simp add: om_get_loop.simps al_get_def al_same_def)
next
  case (Bin s l k v h r)
  have s: "al_sorted cmp (inorder l @ (k, v) # inorder r)" using Bin.prems by simp
  have n: "n = s" "s \<noteq> - 1" "om_key m s = k" "js_get (omVals m) s = v"
      "om_at m (ta_get (omLeft m) s) l" "om_at m (ta_get (omRight m) s) r"
    using Bin.prems(1) by (auto simp: om_key_def)
  show ?case
    using Bin.IH(1)[OF n(5)] Bin.IH(2)[OF n(6)] al_sorted_mid(1,2)[OF s] al_same_cases[OF s, of key] n(1-4) assms
    by (cases "cmp key k" "0 :: int" rule: linorder_cases)
      (simp_all add: om_get_loop.simps[of m key s] al_get_def)
qed

lemma om_has_loop_ok:
  assumes "omCmp m = cmp"
  shows "om_at m n t \<Longrightarrow> al_sorted cmp (inorder t) \<Longrightarrow> om_has_loop m key n = Some (al_has cmp key (inorder t))"
proof (induction t arbitrary: n)
  case Tip
  then show ?case by (simp add: om_has_loop.simps al_has_def al_same_def)
next
  case (Bin s l k v h r)
  have s: "al_sorted cmp (inorder l @ (k, v) # inorder r)" using Bin.prems by simp
  have n: "n = s" "s \<noteq> - 1" "om_key m s = k"
      "om_at m (ta_get (omLeft m) s) l" "om_at m (ta_get (omRight m) s) r"
    using Bin.prems(1) by (auto simp: om_key_def)
  show ?case
    using Bin.IH(1)[OF n(4)] Bin.IH(2)[OF n(5)] al_sorted_mid(1,2)[OF s] al_same_cases[OF s, of key] n(1-3) assms
    by (cases "cmp key k" "0 :: int" rule: linorder_cases)
      (simp_all add: om_has_loop.simps[of m key s] al_has_def)
qed

lemma al_floor_cases:
  assumes "al_sorted cmp (xs @ e # ys)"
  shows "cmp key (fst e) < 0 \<Longrightarrow> al_floor cmp key (xs @ e # ys) = al_floor cmp key xs"
    "cmp key (fst e) > 0 \<Longrightarrow> al_floor cmp key (xs @ e # ys) =
       (case al_floor cmp key ys of None \<Rightarrow> Some e | Some x \<Rightarrow> Some x)"
    "cmp key (fst e) = 0 \<Longrightarrow> al_floor cmp key (xs @ e # ys) = Some e"
proof -
  have hide: "filter (\<lambda>x. 0 \<le> cmp key (fst x)) ys = []" if "cmp key (fst e) \<le> 0"
    using al_around(2)[OF assms that] by (auto simp: filter_empty_conv)
  show "cmp key (fst e) < 0 \<Longrightarrow> al_floor cmp key (xs @ e # ys) = al_floor cmp key xs"
    "cmp key (fst e) = 0 \<Longrightarrow> al_floor cmp key (xs @ e # ys) = Some e"
    using hide by (simp_all add: al_floor_def al_last_def)
  show "cmp key (fst e) > 0 \<Longrightarrow> al_floor cmp key (xs @ e # ys) =
       (case al_floor cmp key ys of None \<Rightarrow> Some e | Some x \<Rightarrow> Some x)"
    by (simp add: al_floor_def al_last_def)
qed

lemma al_ceiling_cases:
  assumes "al_sorted cmp (xs @ e # ys)"
  shows "cmp key (fst e) > 0 \<Longrightarrow> al_ceiling cmp key (xs @ e # ys) = al_ceiling cmp key ys"
    "cmp key (fst e) < 0 \<Longrightarrow> al_ceiling cmp key (xs @ e # ys) =
       (case al_ceiling cmp key xs of None \<Rightarrow> Some e | Some x \<Rightarrow> Some x)"
    "cmp key (fst e) = 0 \<Longrightarrow> al_ceiling cmp key (xs @ e # ys) = Some e"
proof -
  have hide: "filter (\<lambda>x. cmp key (fst x) \<le> 0) xs = []" if "cmp key (fst e) \<ge> 0"
    using al_around(1)[OF assms that] by (auto simp: filter_empty_conv)
  show "cmp key (fst e) > 0 \<Longrightarrow> al_ceiling cmp key (xs @ e # ys) = al_ceiling cmp key ys"
    "cmp key (fst e) = 0 \<Longrightarrow> al_ceiling cmp key (xs @ e # ys) = Some e"
    using hide by (simp_all add: al_ceiling_def al_first_def)
  show "cmp key (fst e) < 0 \<Longrightarrow> al_ceiling cmp key (xs @ e # ys) =
       (case al_ceiling cmp key xs of None \<Rightarrow> Some e | Some x \<Rightarrow> Some x)"
    by (simp add: al_ceiling_def al_first_def)
qed

lemma om_floor_loop_ok:
  assumes "omCmp m = cmp"
  shows "om_at m n t \<Longrightarrow> al_sorted cmp (inorder t) \<Longrightarrow> \<exists>b. om_floor_loop m key n best = Some b \<and>
    om_found m b = (case al_floor cmp key (inorder t) of None \<Rightarrow> om_found m best | Some e \<Rightarrow> Some e)"
proof (induction t arbitrary: n best)
  case Tip
  then show ?case by (simp add: om_floor_loop.simps al_floor_def al_last_def)
next
  case (Bin s l k v h r)
  have s: "al_sorted cmp (inorder l @ (k, v) # inorder r)" using Bin.prems by simp
  have n: "n = s" "s \<noteq> - 1" "om_key m s = k" "om_found m s = Some (k, v)"
      "om_at m (ta_get (omLeft m) s) l" "om_at m (ta_get (omRight m) s) r"
    using Bin.prems(1) om_entry_at[OF Bin.prems(1)] by (auto simp: om_found_def)
  note step = om_floor_loop.simps[of m key s best] and cases = al_floor_cases[OF s, of key, unfolded fst_conv]
  consider "cmp key k < 0" | "cmp key k > 0" | "cmp key k = 0" by linarith
  then show ?case
  proof cases
    case 1
    then show ?thesis using Bin.IH(1)[OF n(5) al_sorted_mid(1)[OF s], of best] cases n(1-4) assms step by simp
  next
    case 2
    obtain b where b: "om_floor_loop m key (ta_get (omRight m) s) s = Some b"
        "om_found m b = (case al_floor cmp key (inorder r) of None \<Rightarrow> om_found m s | Some e \<Rightarrow> Some e)"
      using Bin.IH(2)[OF n(6) al_sorted_mid(2)[OF s], of s] by blast
    have "om_floor_loop m key n best = Some b" using 2 n(1-3) assms step b(1) by simp
    moreover have "om_found m b = (case al_floor cmp key (inorder (Bin s l k v h r)) of
        None \<Rightarrow> om_found m best | Some e \<Rightarrow> Some e)"
      using b(2) cases(2)[OF 2] n(4) by (simp split: option.splits)
    ultimately show ?thesis by blast
  next
    case 3
    then show ?thesis using cases n(1-4) assms step by simp
  qed
qed

lemma om_ceiling_loop_ok:
  assumes "omCmp m = cmp"
  shows "om_at m n t \<Longrightarrow> al_sorted cmp (inorder t) \<Longrightarrow> \<exists>b. om_ceiling_loop m key n best = Some b \<and>
    om_found m b = (case al_ceiling cmp key (inorder t) of None \<Rightarrow> om_found m best | Some e \<Rightarrow> Some e)"
proof (induction t arbitrary: n best)
  case Tip
  then show ?case by (simp add: om_ceiling_loop.simps al_ceiling_def al_first_def)
next
  case (Bin s l k v h r)
  have s: "al_sorted cmp (inorder l @ (k, v) # inorder r)" using Bin.prems by simp
  have n: "n = s" "s \<noteq> - 1" "om_key m s = k" "om_found m s = Some (k, v)"
      "om_at m (ta_get (omLeft m) s) l" "om_at m (ta_get (omRight m) s) r"
    using Bin.prems(1) om_entry_at[OF Bin.prems(1)] by (auto simp: om_found_def)
  note step = om_ceiling_loop.simps[of m key s best] and cases = al_ceiling_cases[OF s, of key, unfolded fst_conv]
  consider "cmp key k > 0" | "cmp key k < 0" | "cmp key k = 0" by linarith
  then show ?case
  proof cases
    case 1
    then show ?thesis using Bin.IH(2)[OF n(6) al_sorted_mid(2)[OF s], of best] cases n(1-4) assms step by simp
  next
    case 2
    obtain b where b: "om_ceiling_loop m key (ta_get (omLeft m) s) s = Some b"
        "om_found m b = (case al_ceiling cmp key (inorder l) of None \<Rightarrow> om_found m s | Some e \<Rightarrow> Some e)"
      using Bin.IH(1)[OF n(5) al_sorted_mid(1)[OF s], of s] by blast
    have "om_ceiling_loop m key n best = Some b" using 2 n(1-3) assms step b(1) by simp
    moreover have "om_found m b = (case al_ceiling cmp key (inorder (Bin s l k v h r)) of
        None \<Rightarrow> om_found m best | Some e \<Rightarrow> Some e)"
      using b(2) cases(2)[OF 2] n(4) by (simp split: option.splits)
    ultimately show ?thesis by blast
  next
    case 3
    then show ?thesis using cases n(1-4) assms step by simp
  qed
qed

end
section \<open>Traversals\<close>

text \<open>A traversal's stack holds nodes with their subtrees; what it has still to visit.\<close>

fun tail_of :: "('k, 'v) avl \<Rightarrow> ('k, 'v) entries" where
  "tail_of Tip = []"
| "tail_of (Bin s l k v h r) = (k, v) # inorder r"

definition rest_of :: "('k, 'v) avl list \<Rightarrow> ('k, 'v) entries" where
  "rest_of ts = concat (map tail_of ts)"

definition stk_at :: "('k, 'v) omap \<Rightarrow> int list \<Rightarrow> ('k, 'v) avl list \<Rightarrow> bool" where
  "stk_at m ns ts \<longleftrightarrow> list_all2 (\<lambda>n t. om_at m n t \<and> t \<noteq> Tip) ns ts"

text \<open>A node at depth \<open>d\<close> of the stack has height at most \<open>H - d\<close>, which bounds the stack by \<open>H\<close>.\<close>

fun stk_bound :: "int \<Rightarrow> ('k, 'v) avl list \<Rightarrow> bool" where
  "stk_bound H [] \<longleftrightarrow> True"
| "stk_bound H (t # ts) \<longleftrightarrow> hts t \<and> t \<noteq> Tip \<and> int (length ts) + ht t \<le> H \<and> stk_bound H ts"

fun spine :: "('k, 'v) avl \<Rightarrow> ('k, 'v) avl list \<Rightarrow> ('k, 'v) avl list" where
  "spine Tip ts = ts"
| "spine (Bin s l k v h r) ts = spine l (Bin s l k v h r # ts)"

lemma rest_simps [simp]: "rest_of [] = []" "rest_of (t # ts) = tail_of t @ rest_of ts"
  by (simp_all add: rest_of_def)

lemma rest_spine: "rest_of (spine t ts) = inorder t @ rest_of ts"
  by (induction t ts rule: spine.induct) auto

lemma stk_bound_length: "stk_bound H ts \<Longrightarrow> 0 \<le> H \<Longrightarrow> int (length ts) \<le> H"
proof (cases ts)
  case (Cons t us)
  assume b: "stk_bound H ts"
  then have "hts t" "t \<noteq> Tip" "int (length us) + ht t \<le> H" using Cons by auto
  moreover have "1 \<le> ht t" using \<open>hts t\<close> \<open>t \<noteq> Tip\<close> ht_nonneg by (cases t) fastforce+
  ultimately show ?thesis using Cons by simp
qed simp

lemma stk_bound_spine: "hts t \<Longrightarrow> stk_bound H ts \<Longrightarrow> int (length ts) + ht t \<le> H \<Longrightarrow> stk_bound H (spine t ts)"
  by (induction t ts rule: spine.induct) auto

lemma stk_bound_next:
  "stk_bound H (Bin s l k v h r # ts) \<Longrightarrow> stk_bound H ts \<and> hts r \<and> int (length ts) + ht r \<le> H"
  by auto

lemma om_push_left_ok:
  "om_at m n t \<Longrightarrow> stk_at m ns ts \<Longrightarrow> \<exists>ns'. om_push_left (omLeft m) n ns = Some ns' \<and> stk_at m ns' (spine t ts)"
proof (induction t arbitrary: n ns ts)
  case (Bin s l k v h r)
  have n: "n = s" "s \<noteq> - 1" "om_at m (ta_get (omLeft m) s) l" "om_at m s (Bin s l k v h r)"
    using Bin.prems(1) by auto
  have "stk_at m (s # ns) (Bin s l k v h r # ts)" using Bin.prems(2) n(4) by (simp add: stk_at_def)
  from Bin.IH(1)[OF n(3) this] show ?case using n(1,2) by (simp add: om_push_left.simps[of _ s])
qed (simp add: om_push_left.simps)

lemma om_entries_loop_ok:
  "om_at m n t \<Longrightarrow> stk_at m ns ts \<Longrightarrow> om_entries_loop m n ns = Some (inorder t @ rest_of ts)"
proof (induction "length (inorder t @ rest_of ts)" arbitrary: n t ns ts rule: less_induct)
  case less
  obtain ns' where push: "om_push_left (omLeft m) n ns = Some ns'" "stk_at m ns' (spine t ts)"
    using om_push_left_ok[OF less.prems] by blast
  show ?case
  proof (cases ns')
    case Nil
    then have "spine t ts = []" using push(2) by (simp add: stk_at_def)
    then have "inorder t @ rest_of ts = []" using rest_spine[of t ts] by simp
    then show ?thesis using push(1) Nil by (subst om_entries_loop.simps) simp
  next
    case (Cons x xs)
    then obtain u us where u: "spine t ts = u # us" "om_at m x u" "u \<noteq> Tip" "stk_at m xs us"
      using push(2) by (auto simp: stk_at_def list_all2_Cons1)
    obtain s l k v h r where ub: "u = Bin s l k v h r" using u(3) by (cases u) auto
    have e: "inorder t @ rest_of ts = (k, v) # inorder r @ rest_of us"
      using rest_spine[of t ts] u(1) ub by simp
    have x: "om_entry m x = (k, v)" using om_entry_at[OF u(2)[unfolded ub]] by auto
    have right: "om_at m (ta_get (omRight m) x) r" using u(2) ub by auto
    have "length (inorder r @ rest_of us) < length (inorder t @ rest_of ts)" unfolding e by simp
    from less.hyps[OF this right u(4)]
    have "om_entries_loop m (ta_get (omRight m) x) xs = Some (inorder r @ rest_of us)" .
    then show ?thesis unfolding e using push(1) Cons x by (subst om_entries_loop.simps) simp
  qed
qed

text \<open>\<open>range\<close>: the descent leaves the entries from \<open>lo\<close> on, the walk stops at the first past \<open>hi\<close>.\<close>

fun range_spine :: "('k \<Rightarrow> 'k \<Rightarrow> int) \<Rightarrow> 'k \<Rightarrow> ('k, 'v) avl \<Rightarrow> ('k, 'v) avl list \<Rightarrow> ('k, 'v) avl list" where
  "range_spine cmp lo Tip ts = ts"
| "range_spine cmp lo (Bin s l k v h r) ts =
     (if cmp k lo \<ge> 0 then range_spine cmp lo l (Bin s l k v h r # ts) else range_spine cmp lo r ts)"

lemma stk_bound_range_spine:
  "hts t \<Longrightarrow> stk_bound H ts \<Longrightarrow> int (length ts) + ht t \<le> H \<Longrightarrow> stk_bound H (range_spine cmp lo t ts)"
  by (induction cmp lo t ts rule: range_spine.induct) auto

lemma om_range_init_ok:
  "om_at m n t \<Longrightarrow> stk_at m ns ts \<Longrightarrow>
    \<exists>ns'. om_range_init m lo n ns = Some ns' \<and> stk_at m ns' (range_spine (omCmp m) lo t ts)"
proof (induction t arbitrary: n ns ts)
  case (Bin s l k v h r)
  have n: "n = s" "s \<noteq> - 1" "om_at m (ta_get (omLeft m) s) l" "om_at m (ta_get (omRight m) s) r"
      "om_at m s (Bin s l k v h r)" "om_key m s = k"
    using Bin.prems(1) by (auto simp: om_key_def)
  have "stk_at m (s # ns) (Bin s l k v h r # ts)" using Bin.prems(2) n(5) by (simp add: stk_at_def)
  from Bin.IH(1)[OF n(3) this] Bin.IH(2)[OF n(4) Bin.prems(2)] show ?case
    using n(1,2,6) by (simp add: om_range_init.simps[of _ _ s])
qed (simp add: om_range_init.simps)

lemma om_range_loop_ok:
  "stk_at m ns ts \<Longrightarrow> om_range_loop m hi ns = Some (takeWhile (\<lambda>e. \<not> omCmp m (fst e) hi > 0) (rest_of ts))"
proof (induction "length (rest_of ts)" arbitrary: ns ts rule: less_induct)
  case less
  show ?case
  proof (cases ns)
    case Nil
    then have "ts = []" using less.prems by (simp add: stk_at_def)
    then show ?thesis using Nil by (subst om_range_loop.simps) simp
  next
    case (Cons x xs)
    then obtain u us where u: "ts = u # us" "om_at m x u" "u \<noteq> Tip" "stk_at m xs us"
      using less.prems by (auto simp: stk_at_def list_all2_Cons1)
    obtain s l k v h r where ub: "u = Bin s l k v h r" using u(3) by (cases u) auto
    have x: "om_entry m x = (k, v)" "om_key m x = k" using om_entry_at[OF u(2)[unfolded ub]] by auto
    have right: "om_at m (ta_get (omRight m) x) r" using u(2) ub by auto
    obtain ns' where push: "om_push_left (omLeft m) (ta_get (omRight m) x) xs = Some ns'" "stk_at m ns' (spine r us)"
      using om_push_left_ok[OF right u(4)] by blast
    have e: "rest_of ts = (k, v) # rest_of (spine r us)" using u(1) ub by (simp add: rest_spine)
    have "length (rest_of (spine r us)) < length (rest_of ts)" unfolding e by simp
    from less.hyps[OF this push(2)]
    have "om_range_loop m hi ns' = Some (takeWhile (\<lambda>e. \<not> omCmp m (fst e) hi > 0) (rest_of (spine r us)))" .
    then show ?thesis unfolding e using push(1) Cons x by (subst om_range_loop.simps) simp
  qed
qed

context comparator
begin

lemma range_spine_rest:
  "al_sorted cmp (inorder t) \<Longrightarrow>
    rest_of (range_spine cmp lo t ts) = filter (\<lambda>e. cmp (fst e) lo \<ge> 0) (inorder t) @ rest_of ts"
proof (induction t arbitrary: ts)
  case (Bin s l k v h r)
  have s: "al_sorted cmp (inorder l @ (k, v) # inorder r)" using Bin.prems by simp
  show ?case
  proof (cases "cmp k lo \<ge> 0")
    case True
    then have "cmp lo k \<le> 0" using cmp_flip by blast
    then have "\<forall>y\<in>set (inorder r). cmp lo (fst y) < 0" using al_around(2)[OF s] by simp
    then have "filter (\<lambda>e. cmp (fst e) lo \<ge> 0) (inorder r) = inorder r"
      using cmp_flip[of lo] by (force simp: filter_id_conv)
    then show ?thesis using True Bin.IH(1)[OF al_sorted_mid(1)[OF s]] by simp
  next
    case False
    then have "cmp lo k \<ge> 0" using cmp_flip[of k lo] by linarith
    then have "\<forall>x\<in>set (inorder l). cmp lo (fst x) > 0" using al_around(1)[OF s] by simp
    then have "filter (\<lambda>e. cmp (fst e) lo \<ge> 0) (inorder l) = []"
      using cmp_antisym[of _ lo] by (force simp: filter_empty_conv)
    then show ?thesis using False Bin.IH(2)[OF al_sorted_mid(2)[OF s]] by simp
  qed
qed simp

lemma takeWhile_upto:
  "al_sorted cmp xs \<Longrightarrow> takeWhile (\<lambda>e. \<not> cmp (fst e) hi > 0) xs = filter (\<lambda>e. cmp (fst e) hi \<le> 0) xs"
proof (induction xs)
  case (Cons e xs)
  have s: "al_sorted cmp xs" "\<And>y. y \<in> set xs \<Longrightarrow> cmp (fst e) (fst y) < 0"
    using Cons.prems by (auto simp: al_sorted_def)
  have "filter (\<lambda>e. cmp (fst e) hi \<le> 0) xs = []" if "cmp (fst e) hi > 0"
  proof -
    have "cmp (fst y) hi > 0" if y: "y \<in> set xs" for y
      using cmp_less_trans[of hi "fst e" "fst y"] s(2)[OF y] \<open>cmp (fst e) hi > 0\<close>
        cmp_antisym[of hi "fst e"] cmp_antisym[of hi "fst y"] by blast
    then show ?thesis by (force simp: filter_empty_conv)
  qed
  then show ?case using Cons.IH[OF s(1)] by auto
qed simp

end
section \<open>The shared stack of \<open>forRange\<close>\<close>

definition buf_holds :: "int list \<Rightarrow> int list \<Rightarrow> bool" where
  "buf_holds buf ns \<longleftrightarrow> js_len buf = 128 \<and> length ns \<le> 128 \<and>
     (\<forall>i < length ns. ta_get buf (int i) = rev ns ! i)"

lemma buf_push:
  assumes "buf_holds buf ns" "length ns < 128" "0 \<le> n" "n < 2 ^ 31"
  shows "buf_holds (ta_put buf (int (length ns)) n) (n # ns)"
proof -
  have p: "ta_get (ta_put buf (int (length ns)) n) = (ta_get buf)(int (length ns) := n)"
    using assms by (intro ta_get_put) (auto simp: buf_holds_def)
  show ?thesis using assms(1,2) unfolding buf_holds_def p
    by (auto simp: nth_append less_Suc_eq)
qed

lemma buf_pop: "buf_holds buf (n # ns) \<Longrightarrow> ta_get buf (int (length ns)) = n \<and> buf_holds buf ns"
  by (auto simp: buf_holds_def nth_append)

lemma stk_at_length: "stk_at m ns ts \<Longrightarrow> length ns = length ts"
  by (auto simp: stk_at_def dest: list_all2_lengthD)

lemma om_slot_small: "om_ok m \<Longrightarrow> om_at m n (Bin s l k v h r) \<Longrightarrow> 0 \<le> n \<and> n < 2 ^ 31"
  by (auto simp: om_ok_def)

lemma om_fr_push_ok:
  assumes "om_ok m" "H \<le> 128"
  shows "om_at m n t \<Longrightarrow> stk_at m ns ts \<Longrightarrow> hts t \<Longrightarrow> int (length ts) + ht t \<le> H \<Longrightarrow> buf_holds buf ns \<Longrightarrow>
    \<exists>ns' buf'. om_fr_push (omLeft m) n buf (int (length ns)) = Some (buf', int (length ns')) \<and>
      buf_holds buf' ns' \<and> stk_at m ns' (spine t ts)"
proof (induction t arbitrary: n ns ts buf)
  case Tip
  then show ?case by (simp add: om_fr_push.simps) blast
next
  case (Bin s l k v h r)
  have n: "n = s" "s \<noteq> - 1" "om_at m (ta_get (omLeft m) s) l" "om_at m s (Bin s l k v h r)"
    using Bin.prems(1) by auto
  have b: "hts l" "int (length (Bin s l k v h r # ts)) + ht l \<le> H" "0 \<le> ht l" "length ns < 128"
    using Bin.prems(3,4) stk_at_length[OF Bin.prems(2)] assms(2) ht_nonneg[of l] ht_nonneg[of r] by auto
  have st: "stk_at m (s # ns) (Bin s l k v h r # ts)" using Bin.prems(2) n(4) by (simp add: stk_at_def)
  have "buf_holds (ta_put buf (int (length ns)) s) (s # ns)"
    using buf_push[OF Bin.prems(5) b(4)] om_slot_small[OF assms(1) n(4)] by blast
  from Bin.IH(1)[OF n(3) st b(1,2) this] show ?case
    using n(1,2) by (simp add: om_fr_push.simps[of _ s] add.commute)
qed

lemma om_fr_init_ok:
  assumes "om_ok m" "H \<le> 128"
  shows "om_at m n t \<Longrightarrow> stk_at m ns ts \<Longrightarrow> hts t \<Longrightarrow> int (length ts) + ht t \<le> H \<Longrightarrow> buf_holds buf ns \<Longrightarrow>
    \<exists>ns' buf'. om_fr_init m lo n buf (int (length ns)) = Some (buf', int (length ns')) \<and>
      buf_holds buf' ns' \<and> stk_at m ns' (range_spine (omCmp m) lo t ts)"
proof (induction t arbitrary: n ns ts buf)
  case Tip
  then show ?case by (simp add: om_fr_init.simps) blast
next
  case (Bin s l k v h r)
  have n: "n = s" "s \<noteq> - 1" "om_at m (ta_get (omLeft m) s) l" "om_at m (ta_get (omRight m) s) r"
      "om_at m s (Bin s l k v h r)" "om_key m s = k"
    using Bin.prems(1) by (auto simp: om_key_def)
  have b: "hts l" "int (length (Bin s l k v h r # ts)) + ht l \<le> H" "0 \<le> ht l" "length ns < 128"
      "hts r" "int (length ts) + ht r \<le> H"
    using Bin.prems(3,4) stk_at_length[OF Bin.prems(2)] assms(2) ht_nonneg[of l] ht_nonneg[of r] by auto
  have st: "stk_at m (s # ns) (Bin s l k v h r # ts)" using Bin.prems(2) n(5) by (simp add: stk_at_def)
  have "buf_holds (ta_put buf (int (length ns)) s) (s # ns)"
    using buf_push[OF Bin.prems(5) b(4)] om_slot_small[OF assms(1) n(5)] by blast
  from Bin.IH(1)[OF n(3) st b(1,2) this] Bin.IH(2)[OF n(4) Bin.prems(2) b(5,6) Bin.prems(5)]
  show ?case using n(1,2,6) by (simp add: om_fr_init.simps[of _ _ s] add.commute)
qed

lemma om_forRange_loop_ok:
  assumes "om_ok m" "H \<le> 128"
  shows "stk_at m ns ts \<Longrightarrow> stk_bound H ts \<Longrightarrow> buf_holds buf ns \<Longrightarrow>
    \<exists>buf'. om_forRange_loop m hi fn buf (int (length ns)) c s =
      Some (c + int (length (takeWhile (\<lambda>e. \<not> omCmp m (fst e) hi > 0) (rest_of ts))),
            fold (\<lambda>e. fn (fst e) (snd e)) (takeWhile (\<lambda>e. \<not> omCmp m (fst e) hi > 0) (rest_of ts)) s, buf') \<and>
      js_len buf' = 128"
proof (induction "length (rest_of ts)" arbitrary: ns ts buf c s rule: less_induct)
  case less
  show ?case
  proof (cases ns)
    case Nil
    then have "ts = []" using less.prems by (simp add: stk_at_def)
    then show ?thesis using Nil less.prems(3)
      by (intro exI[of _ buf]) (subst om_forRange_loop.simps, simp add: buf_holds_def)
  next
    case (Cons x xs)
    then obtain u us where u: "ts = u # us" "om_at m x u" "u \<noteq> Tip" "stk_at m xs us"
      using less.prems by (auto simp: stk_at_def list_all2_Cons1)
    obtain d l k v h r where ub: "u = Bin d l k v h r" using u(3) by (cases u) auto
    have x: "om_key m x = k" "js_get (omVals m) x = v" "om_at m (ta_get (omRight m) x) r"
      using u(2) by (auto simp: ub om_key_def)
    have pop: "ta_get buf (int (length ns) - 1) = x" "buf_holds buf xs"
      using buf_pop[of buf x xs] less.prems(3) Cons by auto
    have bd: "stk_bound H us" "hts r" "int (length us) + ht r \<le> H"
      using stk_bound_next less.prems(2) u(1) ub by metis+
    obtain ns' buf1 where push: "om_fr_push (omLeft m) (ta_get (omRight m) x) buf (int (length xs)) = Some (buf1, int (length ns'))"
        "buf_holds buf1 ns'" "stk_at m ns' (spine r us)"
      using om_fr_push_ok[OF assms x(3) u(4) bd(2,3) pop(2)] by blast
    have e: "rest_of ts = (k, v) # rest_of (spine r us)" using u(1) ub by (simp add: rest_spine)
    have sm: "length (rest_of (spine r us)) < length (rest_of ts)" unfolding e by simp
    note IH = less.hyps[OF sm push(3) stk_bound_spine[OF bd(2,1,3)] push(2), of "c + 1" "fn k v s"]
    have "om_forRange_loop m hi fn buf (int (length ns)) c s =
        (if omCmp m k hi > 0 then Some (c, s, buf)
         else om_forRange_loop m hi fn buf1 (int (length ns')) (c + 1) (fn k v s))"
      using pop(1) push(1) x(1,2) Cons by (subst om_forRange_loop.simps) simp
    then show ?thesis unfolding e using IH less.prems(3)
      by (cases "omCmp m k hi > 0") (auto simp: buf_holds_def)
  qed
qed
section \<open>Sessions\<close>

text \<open>The state holds a balanced tree over exactly the slots in use, whose entries are \<open>xs\<close> in order.\<close>

definition om_holds :: "('k, 'v) omap \<Rightarrow> ('k, 'v) avl \<Rightarrow> bool" where
  "om_holds m t \<longleftrightarrow> om_ok m \<and> om_mem m \<and> om_at m (omRoot m) t \<and> distinct (slots t) \<and> hts t \<and> avl_ok t \<and>
     om_used m = set (slots t) \<and> omSize m = int (length (slots t))"

definition om_rep :: "('k \<Rightarrow> 'k \<Rightarrow> int) \<Rightarrow> ('k, 'v) omap \<Rightarrow> ('k, 'v) entries \<Rightarrow> bool" where
  "om_rep cmp m xs \<longleftrightarrow> omCmp m = cmp \<and> al_sorted cmp xs \<and> (\<exists>t. om_holds m t \<and> inorder t = xs)"

datatype ('k, 'v) om_call = OmSet 'k "'v option" | OmGet 'k | OmHas 'k | OmDel 'k | OmSize | OmMin | OmMax
  | OmFloor 'k | OmCeiling 'k | OmEntries | OmKeys | OmValues | OmRange 'k 'k

datatype ('k, 'v) om_answer = OmUnit | OmValue "'v option" | OmBool bool | OmNumber int
  | OmEntry "('k \<times> 'v option) option" | OmList "('k \<times> 'v option) list" | OmKeyList "'k list"
  | OmValueList "'v option list" | OmDiverges

definition om_answered :: "('a \<Rightarrow> ('k, 'v) om_answer) \<Rightarrow> 'a option \<Rightarrow> ('k, 'v) om_answer" where
  "om_answered f r = (case r of None \<Rightarrow> OmDiverges | Some x \<Rightarrow> f x)"

fun om_exec :: "('k, 'v) om_call \<Rightarrow> ('k, 'v) omap \<Rightarrow> ('k, 'v) om_answer \<times> ('k, 'v) omap" where
  "om_exec (OmSet k v) m = (case om_set m k v of None \<Rightarrow> (OmDiverges, m) | Some m1 \<Rightarrow> (OmUnit, m1))"
| "om_exec (OmDel k) m = (case om_del m k of None \<Rightarrow> (OmDiverges, m) | Some (b, m1) \<Rightarrow> (OmBool b, m1))"
| "om_exec (OmGet k) m = (om_answered OmValue (om_get m k), m)"
| "om_exec (OmHas k) m = (om_answered OmBool (om_has m k), m)"
| "om_exec OmSize m = (OmNumber (om_size m), m)"
| "om_exec OmMin m = (om_answered OmEntry (om_min m), m)"
| "om_exec OmMax m = (om_answered OmEntry (om_max m), m)"
| "om_exec (OmFloor k) m = (om_answered OmEntry (om_floor m k), m)"
| "om_exec (OmCeiling k) m = (om_answered OmEntry (om_ceiling m k), m)"
| "om_exec OmEntries m = (om_answered OmList (om_entries m), m)"
| "om_exec OmKeys m = (om_answered OmKeyList (om_keys m), m)"
| "om_exec OmValues m = (om_answered OmValueList (om_values m), m)"
| "om_exec (OmRange lo hi) m = (om_answered OmList (om_range m lo hi), m)"

fun al_exec :: "('k \<Rightarrow> 'k \<Rightarrow> int) \<Rightarrow> ('k, 'v) om_call \<Rightarrow> ('k, 'v) entries \<Rightarrow> ('k, 'v) om_answer \<times> ('k, 'v) entries" where
  "al_exec cmp (OmSet k v) xs = (OmUnit, al_set cmp k v xs)"
| "al_exec cmp (OmDel k) xs = (OmBool (al_has cmp k xs), al_del cmp k xs)"
| "al_exec cmp (OmGet k) xs = (OmValue (al_get cmp k xs), xs)"
| "al_exec cmp (OmHas k) xs = (OmBool (al_has cmp k xs), xs)"
| "al_exec cmp OmSize xs = (OmNumber (int (length xs)), xs)"
| "al_exec cmp OmMin xs = (OmEntry (al_first xs), xs)"
| "al_exec cmp OmMax xs = (OmEntry (al_last xs), xs)"
| "al_exec cmp (OmFloor k) xs = (OmEntry (al_floor cmp k xs), xs)"
| "al_exec cmp (OmCeiling k) xs = (OmEntry (al_ceiling cmp k xs), xs)"
| "al_exec cmp OmEntries xs = (OmList xs, xs)"
| "al_exec cmp OmKeys xs = (OmKeyList (map fst xs), xs)"
| "al_exec cmp OmValues xs = (OmValueList (map snd xs), xs)"
| "al_exec cmp (OmRange lo hi) xs = (OmList (al_range cmp lo hi xs), xs)"

lemma inorder_length: "length (inorder t) = length (slots t)"
  by (induction t) auto

lemma om_make_holds: "om_holds (om_make cmp) Tip"
proof -
  have "om_mem (om_make cmp)" unfolding om_mem_def
    by (intro conjI exI[of _ 0]) (auto simp: om_make_def)
  then show ?thesis
    by (auto simp: om_holds_def om_make_def om_ok_def om_used_def js_len_def)
qed

lemma om_make_rep: "om_rep cmp (om_make cmp) []"
  using om_make_holds[of cmp] by (auto simp: om_rep_def al_sorted_def om_make_def intro!: exI[of _ Tip])

lemma om_fresh_new: "om_holds m t \<Longrightarrow> om_fresh m \<notin> set (slots t)"
proof -
  assume "om_holds m t"
  then have u: "set (slots t) = {0..<omLen m} - set (omFree m)" by (simp add: om_holds_def om_used_def)
  show ?thesis unfolding u using last_in_set[of "omFree m"] by (auto simp: om_fresh_def)
qed

lemma om_has_room:
  assumes "om_holds m t" "length (slots t) < 2 ^ 30"
  shows "om_room m"
proof (cases "omFree m = []")
  case True
  have h: "om_ok m" "om_mem m" "distinct (slots t)" "om_used m = set (slots t)" using assms(1) by (auto simp: om_holds_def)
  obtain j where j: "omLen m = 16 * 2 ^ j" using h(2) by (auto simp: om_mem_def)
  have "set (slots t) = {0..<omLen m}" using h(4) True by (simp add: om_used_def)
  then have "nat (omLen m) = length (slots t)" using distinct_card[OF h(3)] by simp
  then have "int (nat (omLen m)) < int (2 ^ 30)" using assms(2) by (metis of_nat_less_iff)
  then have "omLen m < 2 ^ 30" by (simp split: if_splits)
  then have "(2::int) ^ (4 + j) < 2 ^ 30" by (simp add: j power_add)
  then have "4 + j \<le> 29" using power_less_imp_less_exp[of "2::int" "4 + j" 30] by simp
  then have "(2::int) ^ (4 + j) \<le> 2 ^ 29" by (rule power_increasing) simp
  then show ?thesis by (simp add: om_room_def j power_add)
qed (simp add: om_room_def)

lemma om_set_holds:
  assumes "om_holds m t" "length (slots t) < 2 ^ 30"
  shows "\<exists>m'. om_set m key val = Some m' \<and> om_holds m' (t_ins (omCmp m) (om_fresh m) key val t) \<and> omCmp m' = omCmp m"
proof -
  note h = assms(1)[unfolded om_holds_def]
  obtain n' m' where i: "om_insertNode (omCmp m) key val m (omRoot m) = Some (n', m')"
      "om_at m' n' (t_ins (omCmp m) (om_fresh m) key val t)"
      "om_ins_post m (t_has (omCmp m) key t) (set (slots t)) m'"
    using om_insertNode_ok[of m "omRoot m" t "omCmp m" key val] om_has_room[OF assms] om_fresh_new[OF assms(1)] h assms(2)
    by blast
  let ?t = "t_ins (omCmp m) (om_fresh m) key val t" and ?m = "m'\<lparr>omRoot := n'\<rparr>"
  have p: "om_ok m'" "om_mem m'" "omCmp m' = omCmp m" "om_used m' = set (slots ?t)" "omSize m' = int (length (slots ?t))"
    using i(3) h by (auto simp: om_ins_post_def om_same_def t_ins_slots)
  have at: "om_at ?m n' ?t"
    using i(2) by (rule om_at_cong) simp_all
  have "om_holds ?m ?t"
    using p at t_ins_distinct[OF om_fresh_new[OF assms(1)]] t_ins_hts[of t] t_ins_balanced[of t] h
    by (simp add: om_holds_def om_ok_def om_mem_def om_used_def)
  then show ?thesis using i(1) p(3) by (simp add: om_set_def)
qed

lemma om_del_holds:
  assumes "om_holds m t" "length (slots t) \<le> 2 ^ 30"
  shows "\<exists>m'. om_del m key = Some (t_has (omCmp m) key t, m') \<and> om_holds m' (t_del (omCmp m) key t) \<and>
    omCmp m' = omCmp m"
proof (cases "t_has (omCmp m) key t")
  case False
  note h = assms(1)[unfolded om_holds_def]
  have "om_deleteNode (omCmp m) key m (omRoot m) = Some (omRoot m, False, m)"
    using om_deleteNode_miss[OF _ False] h by blast
  then show ?thesis using False assms(1) t_del_slots(4)[OF False] by (simp add: om_del_def)
next
  case True
  note h = assms(1)[unfolded om_holds_def]
  obtain n' m' where i: "om_deleteNode (omCmp m) key m (omRoot m) = Some (n', True, m')"
      "om_at m' n' (t_del (omCmp m) key t)"
      "om_del_post m (set (slots t)) (set (slots (t_del (omCmp m) key t))) True m'"
    using om_deleteNode_hit[of m "omRoot m" t "omCmp m" key] True h assms(2) by blast
  let ?t = "t_del (omCmp m) key t" and ?m = "m'\<lparr>omRoot := n'\<rparr>"
  have sub: "set (slots t) - (set (slots t) - set (slots ?t)) = set (slots ?t)"
    using t_del_slots(1)[of "omCmp m" key t] by blast
  have p: "om_ok m'" "om_mem m'" "omCmp m' = omCmp m" "om_used m' = set (slots ?t)" "omSize m' = int (length (slots ?t))"
    using i(3) h sub t_del_slots(3)[of t "omCmp m" key] True by (auto simp: om_del_post_def om_same_def)
  have at: "om_at ?m n' ?t" using i(2) by (rule om_at_cong) simp_all
  have "om_holds ?m ?t"
    using p at t_del_slots(2)[of t] t_del_hts[of t] t_del_balanced[of t] h
    by (simp add: om_holds_def om_ok_def om_mem_def om_used_def)
  then show ?thesis using i(1) p(3) True by (simp add: om_del_def)
qed
context comparator
begin

lemma om_set_rep:
  assumes "om_rep cmp m xs" "length xs < 2 ^ 30"
  shows "\<exists>m'. om_set m key val = Some m' \<and> om_rep cmp m' (al_set cmp key val xs)"
proof -
  obtain t where t: "omCmp m = cmp" "om_holds m t" "inorder t = xs" "al_sorted cmp xs"
    using assms(1) by (auto simp: om_rep_def)
  have "length (slots t) < 2 ^ 30" using assms(2) t(3) inorder_length[of t] by simp
  then obtain m' where m': "om_set m key val = Some m'" "om_holds m' (t_ins cmp (om_fresh m) key val t)" "omCmp m' = cmp"
    using om_set_holds[OF t(2), of key val] t(1) by auto
  moreover have "inorder (t_ins cmp (om_fresh m) key val t) = al_set cmp key val xs"
    using t_ins_inorder[of t] t(3,4) by simp
  ultimately show ?thesis using al_set_sorted[OF t(4)] unfolding om_rep_def by blast
qed

lemma om_del_rep:
  assumes "om_rep cmp m xs" "length xs < 2 ^ 30"
  shows "\<exists>m'. om_del m key = Some (al_has cmp key xs, m') \<and> om_rep cmp m' (al_del cmp key xs)"
proof -
  obtain t where t: "omCmp m = cmp" "om_holds m t" "inorder t = xs" "al_sorted cmp xs"
    using assms(1) by (auto simp: om_rep_def)
  have "length (slots t) \<le> 2 ^ 30" using assms(2) t(3) inorder_length[of t] by simp
  then obtain m' where m': "om_del m key = Some (t_has cmp key t, m')" "om_holds m' (t_del cmp key t)" "omCmp m' = cmp"
    using om_del_holds[OF t(2), of key] t(1) by auto
  moreover have "inorder (t_del cmp key t) = al_del cmp key xs" "t_has cmp key t = al_has cmp key xs"
    using t_del_inorder[of t] t_has_inorder[of t] t(3,4) by simp_all
  ultimately show ?thesis using al_del_sorted[OF t(4)] unfolding om_rep_def by auto
qed

lemma om_ends_rep:
  assumes "om_rep cmp m xs"
  shows "om_min m = Some (al_first xs)" "om_max m = Some (al_last xs)"
proof -
  obtain t where t: "om_at m (omRoot m) t" "inorder t = xs" using assms by (auto simp: om_rep_def om_holds_def)
  have e: "t = Tip \<longleftrightarrow> xs = []" "omRoot m = - 1 \<longleftrightarrow> t = Tip" using t by (cases t; auto)+
  show "om_min m = Some (al_first xs)"
    using om_spine_left[OF t(1)] e t(2) by (auto simp: om_min_def al_first_def)
  show "om_max m = Some (al_last xs)"
    using om_spine_right[OF t(1)] e t(2) by (auto simp: om_max_def al_last_def)
qed

lemma om_near_rep:
  assumes "om_rep cmp m xs"
  shows "om_floor m key = Some (al_floor cmp key xs)" "om_ceiling m key = Some (al_ceiling cmp key xs)"
proof -
  obtain t where t: "omCmp m = cmp" "om_at m (omRoot m) t" "inorder t = xs" "al_sorted cmp (inorder t)"
    using assms by (auto simp: om_rep_def om_holds_def)
  have out: "(if b = - 1 then None else Some (om_entry m b)) = om_found m b" for b by (simp add: om_found_def)
  show "om_floor m key = Some (al_floor cmp key xs)"
    using om_floor_loop_ok[OF t(1,2,4), of key "- 1"] t(3)
    by (auto simp: om_floor_def out om_found_def[of m "- 1"] split: option.splits)
  show "om_ceiling m key = Some (al_ceiling cmp key xs)"
    using om_ceiling_loop_ok[OF t(1,2,4), of key "- 1"] t(3)
    by (auto simp: om_ceiling_def out om_found_def[of m "- 1"] split: option.splits)
qed

lemma om_scan_rep:
  assumes "om_rep cmp m xs"
  shows "om_entries m = Some xs" "om_range m lo hi = Some (al_range cmp lo hi xs)"
proof -
  obtain t where t: "omCmp m = cmp" "om_at m (omRoot m) t" "inorder t = xs" "al_sorted cmp (inorder t)"
    using assms by (auto simp: om_rep_def om_holds_def)
  have nil: "stk_at m [] []" by (simp add: stk_at_def)
  show "om_entries m = Some xs" using om_entries_loop_ok[OF t(2) nil] t(3) by (simp add: om_entries_def)
  obtain ns where ns: "om_range_init m lo (omRoot m) [] = Some ns" "stk_at m ns (range_spine cmp lo t [])"
    using om_range_init_ok[OF t(2) nil] t(1) by blast
  let ?ys = "filter (\<lambda>e. cmp (fst e) lo \<ge> 0) xs"
  have "al_sorted cmp ?ys" using t(3,4) by (simp add: al_sorted_def sorted_wrt_filter)
  then have "om_range_loop m hi ns = Some (filter (\<lambda>e. cmp (fst e) hi \<le> 0) ?ys)"
    using om_range_loop_ok[OF ns(2), of hi] t(1,3) range_spine_rest[OF t(4), of lo "[]"] takeWhile_upto[of ?ys hi]
    by simp
  then show "om_range m lo hi = Some (al_range cmp lo hi xs)"
    using ns(1) by (simp add: om_range_def al_range_def conj_commute)
qed

lemma om_reads_rep:
  assumes "om_rep cmp m xs"
  shows "om_get m key = Some (al_get cmp key xs)" "om_has m key = Some (al_has cmp key xs)"
    "om_size m = int (length xs)"
proof -
  obtain t where t: "omCmp m = cmp" "om_at m (omRoot m) t" "inorder t = xs" "al_sorted cmp (inorder t)"
      "omSize m = int (length (slots t))"
    using assms by (auto simp: om_rep_def om_holds_def)
  show "om_get m key = Some (al_get cmp key xs)" "om_has m key = Some (al_has cmp key xs)"
    using om_get_loop_ok[OF t(1,2,4)] om_has_loop_ok[OF t(1,2,4)] t(3) by (simp_all add: om_get_def om_has_def)
  show "om_size m = int (length xs)" using t(3,5) inorder_length[of t] by (simp add: om_size_def)
qed

lemma om_exec_rep:
  assumes "om_rep cmp m xs" "length xs < 2 ^ 30"
  shows "fst (om_exec c m) = fst (al_exec cmp c xs) \<and> om_rep cmp (snd (om_exec c m)) (snd (al_exec cmp c xs))"
proof (cases c)
  case (OmSet k v)
  then show ?thesis using om_set_rep[OF assms, of k v] by auto
next
  case (OmDel k)
  then show ?thesis using om_del_rep[OF assms, of k] by auto
qed (use assms(1) om_reads_rep[OF assms(1)] om_ends_rep[OF assms(1)] om_near_rep[OF assms(1)] om_scan_rep[OF assms(1)]
  in \<open>simp_all add: om_answered_def om_keys_def om_values_def\<close>)

lemma al_set_length: "length (al_set cmp key val xs) \<le> Suc (length xs)"
  by (induction xs) auto

lemma al_exec_length: "length (snd (al_exec cmp c xs)) \<le> Suc (length xs)"
  by (cases c) (auto simp: al_set_length al_del_def intro: le_SucI)

lemma om_session_rep:
  "om_rep cmp m xs \<Longrightarrow> length xs + length cs \<le> 2 ^ 30 \<Longrightarrow>
    fst (run_calls om_exec cs m) = fst (run_calls (al_exec cmp) cs xs) \<and>
    om_rep cmp (snd (run_calls om_exec cs m)) (snd (run_calls (al_exec cmp) cs xs))"
proof (induction cs arbitrary: m xs)
  case (Cons c cs)
  have "length xs < 2 ^ 30" using Cons.prems(2) by simp
  from om_exec_rep[OF Cons.prems(1) this, of c] Cons.IH[of "snd (om_exec c m)" "snd (al_exec cmp c xs)"]
  show ?case using Cons.prems(2) al_exec_length[of c xs] by simp
qed simp

lemma om_run_rep: "length cs \<le> 2 ^ 30 \<Longrightarrow>
    fst (run_calls om_exec cs (om_make cmp)) = fst (run_calls (al_exec cmp) cs []) \<and>
    om_rep cmp (snd (run_calls om_exec cs (om_make cmp))) (snd (run_calls (al_exec cmp) cs []))"
  using om_session_rep[OF om_make_rep] by simp

lemma al_run_length: "length (snd (run_calls (al_exec cmp) cs xs)) \<le> length xs + length cs"
proof (induction cs arbitrary: xs)
  case (Cons c cs)
  show ?case using Cons.IH[of "snd (al_exec cmp c xs)"] al_exec_length[of c xs] by simp
qed simp

lemma om_forRange_rep:
  assumes "om_rep cmp m xs" "length xs < 2 ^ 30" "js_len buf = 128"
  shows "\<exists>buf'. om_forRange buf m lo hi fn s =
      Some (int (length (al_range cmp lo hi xs)), fold (\<lambda>e. fn (fst e) (snd e)) (al_range cmp lo hi xs) s, buf')
      \<and> js_len buf' = 128"
proof -
  obtain t where t: "omCmp m = cmp" "om_at m (omRoot m) t" "inorder t = xs" "al_sorted cmp (inorder t)"
      "om_ok m" "hts t" "avl_ok t"
    using assms(1) by (auto simp: om_rep_def om_holds_def)
  have h: "ht t \<le> 60" using avl_height_60[OF t(6,7)] assms(2) t(3) inorder_length[of t] by simp
  have nil: "stk_at m [] []" "buf_holds buf []" using assms(3) by (simp_all add: stk_at_def buf_holds_def)
  obtain ns buf1 where i: "om_fr_init m lo (omRoot m) buf 0 = Some (buf1, int (length ns))" "buf_holds buf1 ns"
      "stk_at m ns (range_spine cmp lo t [])"
    using om_fr_init_ok[OF t(5), of 60 "omRoot m" t "[]" "[]" buf lo] h t(1,2,6) nil by auto
  have b: "stk_bound 60 (range_spine cmp lo t [])" by (rule stk_bound_range_spine) (use t(6) h in auto)
  let ?ys = "filter (\<lambda>e. cmp (fst e) lo \<ge> 0) xs"
  have "al_sorted cmp ?ys" using t(3,4) by (simp add: al_sorted_def sorted_wrt_filter)
  then have "takeWhile (\<lambda>e. \<not> omCmp m (fst e) hi > 0) (rest_of (range_spine cmp lo t [])) = al_range cmp lo hi xs"
    using t(1,3) range_spine_rest[OF t(4), of lo "[]"] takeWhile_upto[of ?ys hi]
    by (simp add: al_range_def conj_commute)
  with om_forRange_loop_ok[OF t(5) _ i(3) b i(2), of hi fn 0 s] show ?thesis
    using i(1) by (simp add: om_forRange_def)
qed

end

interpretation om_default: comparator om_defaultCmp
proof unfold_locales
  fix a b c :: "int option"
  show "om_defaultCmp a b < 0 \<longleftrightarrow> 0 < om_defaultCmp b a"
    by (cases a; cases b) (auto simp: om_defaultCmp_def)
  show "om_defaultCmp a b \<le> 0 \<Longrightarrow> om_defaultCmp b c \<le> 0 \<Longrightarrow> om_defaultCmp a c \<le> 0"
    by (cases a; cases b; cases c) (auto simp: om_defaultCmp_def split: if_splits)
qed

section \<open>Properties\<close>

text \<open>
  C4. Every session on a fresh map answers as the same session on a sorted list of entries: \<open>get\<close>,
  \<open>has\<close>, \<open>del\<close>, \<open>size\<close>, \<open>min\<close>, \<open>max\<close>, \<open>floor\<close>, \<open>ceiling\<close>, the iterators and \<open>range\<close>, for any total
  order as comparator. All calls return; a key equal to one present keeps the old key.
\<close>

theorem omap_session_refines_sorted_list:
  assumes "comparator cmp" "length cs \<le> 2 ^ 30"
  shows "fst (run_calls om_exec cs (om_make cmp)) = fst (run_calls (al_exec cmp) cs []) \<and>
    om_rep cmp (snd (run_calls om_exec cs (om_make cmp))) (snd (run_calls (al_exec cmp) cs []))"
  by (rule comparator.om_run_rep[OF assms])

theorem omap_session_refines_sorted_list_witness:
  "fst (run_calls om_exec [OmSet (Some 2) (Some ''b''), OmSet None None, OmSet (Some 1) (Some ''a''),
      OmDel (Some 2), OmEntries, OmFloor (Some 7), OmCeiling (Some 7)] (om_make om_defaultCmp)) =
    [OmUnit, OmUnit, OmUnit, OmBool True, OmList [(Some 1, Some ''a''), (None, None)],
      OmEntry (Some (Some 1, Some ''a'')), OmEntry (Some (None, None))]"
  using omap_session_refines_sorted_list[OF om_default.comparator_axioms,
      of "[OmSet (Some 2) (Some ''b''), OmSet None None, OmSet (Some 1) (Some ''a''),
      OmDel (Some 2), OmEntries, OmFloor (Some 7), OmCeiling (Some 7)]"]
  by (simp add: al_has_def al_same_def al_del_def al_floor_def al_ceiling_def al_first_def al_last_def
      om_defaultCmp_def)

text \<open>
  C16. After any session the arrays hold a balanced tree over exactly the slots in use, its stored
  heights are its heights, and the height \<open>h\<close> is logarithmic: \<open>2 ^ h \<le> (n + 1)\<^sup>2\<close> for \<open>n\<close> entries.
\<close>

theorem omap_stays_balanced:
  assumes "comparator cmp" "length cs \<le> 2 ^ 30"
  shows "\<exists>t. om_at (snd (run_calls om_exec cs (om_make cmp))) (omRoot (snd (run_calls om_exec cs (om_make cmp)))) t \<and>
    set (slots t) = om_used (snd (run_calls om_exec cs (om_make cmp))) \<and> hts t \<and> avl_ok t \<and>
    2 ^ nat (ht t) \<le> (length (inorder t) + 1) ^ 2 \<and>
    om_size (snd (run_calls om_exec cs (om_make cmp))) = int (length (inorder t))"
proof -
  obtain t where "om_holds (snd (run_calls om_exec cs (om_make cmp))) t"
    using comparator.om_run_rep[OF assms] by (auto simp: om_rep_def)
  then show ?thesis using avl_height_bound[of t] inorder_length[of t]
    by (intro exI[of _ t]) (simp add: om_holds_def om_size_def power2_eq_square)
qed

theorem omap_stays_balanced_witness:
  "\<exists>t. om_at (snd (run_calls om_exec [OmSet (Some 1) (None :: string option)] (om_make om_defaultCmp)))
      (omRoot (snd (run_calls om_exec [OmSet (Some 1) (None :: string option)] (om_make om_defaultCmp)))) t \<and> avl_ok t"
proof -
  have l: "length [OmSet (Some 1) (None :: string option)] \<le> 2 ^ 30" by simp
  from omap_stays_balanced[OF om_default.comparator_axioms l] show ?thesis by blast
qed

text \<open>
  C17. \<open>forRange\<close> calls back with exactly the entries in the inclusive range, in order, and returns
  their number, whatever the shared buffer held before: its 128 slots never overflow, because the tree
  is balanced.
\<close>

theorem omap_forRange_visits_range:
  assumes "comparator cmp" "length cs < 2 ^ 30" "js_len buf = 128"
  shows "\<exists>buf'. om_forRange buf (snd (run_calls om_exec cs (om_make cmp))) lo hi fn s =
      Some (int (length (al_range cmp lo hi (snd (run_calls (al_exec cmp) cs [])))),
        fold (\<lambda>e. fn (fst e) (snd e)) (al_range cmp lo hi (snd (run_calls (al_exec cmp) cs []))) s, buf') \<and>
      js_len buf' = 128"
proof -
  have n: "length (snd (run_calls (al_exec cmp) cs [])) < 2 ^ 30"
    using comparator.al_run_length[OF assms(1), of cs "[]"] assms(2) by simp
  show ?thesis
    by (rule comparator.om_forRange_rep[OF assms(1)
        conjunct2[OF comparator.om_run_rep[OF assms(1) less_imp_le[OF assms(2)]]] n assms(3)])
qed

theorem omap_forRange_visits_range_witness:
  "\<exists>buf'. om_forRange (replicate 128 7) (snd (run_calls om_exec
      [OmSet (Some 3) (Some ''c''), OmSet (Some 1) (Some ''a''), OmSet (Some 2) (Some ''b'')] (om_make om_defaultCmp)))
      (Some 2) (Some 3) (\<lambda>k v ks. k # ks) [] = Some (2, [Some 3, Some 2], buf')"
proof -
  let ?cs = "[OmSet (Some 3) (Some ''c''), OmSet (Some 1) (Some ''a''), OmSet (Some 2) (Some ''b'')]"
  let ?m = "snd (run_calls om_exec ?cs (om_make om_defaultCmp))" and ?ys = "[(Some (2 :: int), Some ''b''), (Some 3, Some ''c'')]"
  have l: "length ?cs < 2 ^ 30" "js_len (replicate 128 7) = 128" by (simp_all add: js_len_def)
  have e: "al_range om_defaultCmp (Some 2) (Some 3) (snd (run_calls (al_exec om_defaultCmp) ?cs [])) = ?ys"
    by (simp add: al_range_def om_defaultCmp_def)
  have "\<exists>buf'. om_forRange (replicate 128 7) ?m (Some 2) (Some 3) (\<lambda>k v ks. k # ks) [] =
      Some (int (length ?ys), fold (\<lambda>e. (\<lambda>k v ks. k # ks) (fst e) (snd e)) ?ys [], buf') \<and> js_len buf' = 128"
    using omap_forRange_visits_range[OF om_default.comparator_axioms l, where lo = "Some 2" and hi = "Some 3"
        and fn = "\<lambda>k v ks. k # ks" and s = "[]"] unfolding e .
  moreover have "int (length ?ys) = 2" "fold (\<lambda>e. (\<lambda>k v ks. k # ks) (fst e) (snd e)) ?ys [] = [Some 3, Some 2]"
    by simp_all
  ultimately show ?thesis by metis
qed

end
