(* ===== verification/Prng.thy ===== *)
theory Prng
  imports JsPrelude Complex_Main
begin

text \<open>
  \<open>src/src/PRNG.ts\<close>: the SplitMix64 generator, its 64-bit state kept as two unsigned 32-bit halves. The
  module variables \<open>outHi\<close> and \<open>outLo\<close> are the pair an operation returns. A \<open>bigint\<close> is an \<^typ>\<open>int\<close>, an
  argument that must be an integer is an \<^typ>\<open>int\<close> option (\<^term>\<open>None\<close>: fractional, \<open>NaN\<close> or infinite).
  Division of doubles is written out in \<open>js_floor_div\<close>, rounding included; \<open>next\<close> returns a rational,
  which is a double because its numerator has 53 bits. The entropy source of \<open>randomSeed\<close> is its argument.
\<close>

section \<open>Doubles\<close>

definition js_imul :: "int \<Rightarrow> int \<Rightarrow> int" where
  "js_imul a b = to_int32 (to_int32 a * to_int32 b)"

text \<open>Round half to even of \<open>a / b\<close>.\<close>

definition round_even :: "nat \<Rightarrow> nat \<Rightarrow> nat" where
  "round_even a b = (let q = a div b; r = a mod b
     in if 2 * r < b \<or> (2 * r = b \<and> even q) then q else q + 1)"

text \<open>The double next to an integer.\<close>

definition to_double :: "int \<Rightarrow> int" where
  "to_double x = (let n = nat \<bar>x\<bar>; e = bitlen n - 53
     in sgn x * int (round_even n (2 ^ e) * 2 ^ e))"

text \<open>\<open>Math.floor(x / r)\<close> for \<open>x < 2^53\<close>, \<open>r\<close> at least 2: the quotient has 53 significant bits.\<close>

function quot_scale :: "nat \<Rightarrow> nat \<Rightarrow> nat" where
  "quot_scale x r = (if x = 0 \<or> 2 ^ 52 * r \<le> x then 0 else Suc (quot_scale (2 * x) r))"
  by auto
termination by (relation "measure (\<lambda>(x, r). 2 ^ 52 * r - x)") auto

declare quot_scale.simps [simp del]

definition js_floor_div :: "int \<Rightarrow> int \<Rightarrow> int" where
  "js_floor_div x r = (let k = quot_scale (nat x) (nat r)
     in int (round_even (nat x * 2 ^ k) (nat r) div 2 ^ k))"

section \<open>The generator\<close>

record prng =
  kHi :: int
  kLo :: int

definition "MASK64 = (0xffffffffffffffff :: int)"
definition "GOLDEN_HI = (0x9e3779b9 :: int)"
definition "GOLDEN_LO = (0x7f4a7c15 :: int)"
definition "MIX_A_HI = (0xbf58476d :: int)"
definition "MIX_A_LO = (0x1ce4e5b9 :: int)"
definition "MIX_B_HI = (0x94d049bb :: int)"
definition "MIX_B_LO = (0x133111eb :: int)"
definition "SPLIT_HI = (0x6a09e667 :: int)"
definition "SPLIT_LO = (0xf3bcc908 :: int)"
definition "TWO_32 = (0x100000000 :: int)"
definition "ONE_STEP_RANGE = (0x200000 :: int)"
definition "HORNER_RANGE = (0x2000000000 :: int)"
definition "MAX_SAFE_INTEGER = (0x1fffffffffffff :: int)"

definition mul64 :: "int \<Rightarrow> int \<Rightarrow> int \<Rightarrow> int \<Rightarrow> int \<times> int" where
  "mul64 aHi aLo bHi bLo =
     (let a0 = js_and aLo 0xffff; a1 = js_ushr aLo 16; b0 = js_and bLo 0xffff; b1 = js_ushr bLo 16;
          p00 = a0 * b0; p01 = a0 * b1; p10 = a1 * b0;
          mid = js_ushr p00 16 + js_and p01 0xffff + js_and p10 0xffff
      in (js_ushr (a1 * b1 + js_ushr p01 16 + js_ushr p10 16 + js_ushr mid 16
                   + js_imul aHi bLo + js_imul aLo bHi) 0,
          js_ushr (js_or (js_shl (js_and mid 0xffff) 16) (js_and p00 0xffff)) 0))"

definition mix64 :: "int \<Rightarrow> int \<Rightarrow> int \<times> int" where
  "mix64 hi lo =
     (let (hi1, lo1) = mul64 (js_ushr (js_xor hi (js_ushr hi 30)) 0)
            (js_ushr (js_xor lo (js_or (js_ushr lo 30) (js_shl hi 2))) 0) MIX_A_HI MIX_A_LO;
          (hi2, lo2) = mul64 (js_ushr (js_xor hi1 (js_ushr hi1 27)) 0)
            (js_ushr (js_xor lo1 (js_or (js_ushr lo1 27) (js_shl hi1 5))) 0) MIX_B_HI MIX_B_LO
      in (js_ushr (js_xor hi2 (js_ushr hi2 31)) 0,
          js_ushr (js_xor lo2 (js_or (js_ushr lo2 31) (js_shl hi2 1))) 0))"

definition prng_advance :: "prng \<Rightarrow> (int \<times> int) \<times> prng" where
  "prng_advance p =
     (let lo = kLo p + GOLDEN_LO;
          hi = js_ushr (kHi p + GOLDEN_HI + (if lo \<ge> TWO_32 then 1 else 0)) 0
      in (mix64 hi (js_ushr lo 0), \<lparr>kHi = hi, kLo = js_ushr lo 0\<rparr>))"

definition prng_create :: "int \<Rightarrow> int \<Rightarrow> prng" where
  "prng_create hi lo = \<lparr>kHi = hi, kLo = lo\<rparr>"

definition modSmall :: "int \<Rightarrow> int \<Rightarrow> int" where
  "modSmall x r = x - js_floor_div x r * r"

definition outBigInt :: "int \<times> int \<Rightarrow> int" where
  "outBigInt out = push_bit 32 (fst out) OR snd out"

definition prng_seed :: "int \<Rightarrow> int" where
  "prng_seed n = n AND MASK64"

definition prng_make :: "int \<Rightarrow> prng" where
  "prng_make s = prng_create (take_bit 32 (drop_bit 32 s)) (take_bit 32 s)"

definition prng_next :: "prng \<Rightarrow> rat \<times> prng" where
  "prng_next p = (let ((outHi, outLo), p1) = prng_advance p
     in (of_int (outHi * 0x200000 + js_ushr outLo 11) / 0x20000000000000, p1))"

definition prng_nextInt :: "prng \<Rightarrow> int option \<Rightarrow> int option \<Rightarrow> int outcome \<times> prng" where
  "prng_nextInt p mn mx =
     (case (mn, mx) of
        (Some lo, Some hi) \<Rightarrow>
          (let range = to_double (to_double (hi - lo) + 1)
           in if range \<le> 1 then (Inr lo, p)
              else let (out, p1) = prng_advance p; (outHi, outLo) = out
                   in if range \<le> ONE_STEP_RANGE
                      then (Inr (to_double (lo + modSmall (modSmall outHi range * TWO_32 + outLo) range)), p1)
                      else if range \<le> HORNER_RANGE
                      then let m = modSmall (modSmall outHi range * 0x10000 + js_ushr outLo 16) range
                           in (Inr (to_double (lo + modSmall (m * 0x10000 + js_and outLo 0xffff) range)), p1)
                      else let big = (if range \<le> MAX_SAFE_INTEGER then range else hi - lo + 1)
                           in (Inr (to_double (lo + to_double (outBigInt out mod big))), p1))
      | _ \<Rightarrow> (Inl RangeError, p))"

definition prng_nextBigInt :: "prng \<Rightarrow> int \<times> prng" where
  "prng_nextBigInt p = (let (out, p1) = prng_advance p in (outBigInt out, p1))"

definition prng_split :: "prng \<Rightarrow> prng \<times> prng" where
  "prng_split p =
     (let lo = kLo p; hi = kHi p;
          dLo = lo + SPLIT_LO;
          dHi = js_ushr (hi + SPLIT_HI + (if dLo \<ge> TWO_32 then 1 else 0)) 0;
          nLo = lo + GOLDEN_LO;
          p1 = \<lparr>kHi = js_ushr (hi + GOLDEN_HI + (if nLo \<ge> TWO_32 then 1 else 0)) 0, kLo = js_ushr nLo 0\<rparr>;
          (outHi, outLo) = mix64 dHi (js_ushr dLo 0)
      in (prng_create outHi outLo, p1))"

text \<open>The two words the platform's entropy source wrote.\<close>

definition prng_randomSeed :: "int \<Rightarrow> int \<Rightarrow> int" where
  "prng_randomSeed w0 w1 = push_bit 32 w0 OR w1"

section \<open>Halves and words\<close>

definition half :: "int \<Rightarrow> bool" where
  "half x \<longleftrightarrow> 0 \<le> x \<and> x < 2 ^ 32"

lemma js_and_low: "k \<le> 31 \<Longrightarrow> js_and x (2 ^ k - 1) = x mod 2 ^ k"
proof -
  assume k: "k \<le> 31"
  have "(2::int) ^ k \<le> 2 ^ 31" using k by (intro power_increasing) auto
  then have m: "to_int32 (2 ^ k - 1) = 2 ^ k - 1"
    using one_le_power[of "2::int" k] by (intro to_int32_id) linarith+
  have d: "(2::int) ^ k dvd 2 ^ 31" "(2::int) ^ k dvd 2 ^ 32" by (rule le_imp_power_dvd; use k in simp)+
  have "to_int32 x mod 2 ^ k = x mod 2 ^ k"
  proof -
    have "to_int32 x mod 2 ^ k = ((x + 2 ^ 31) mod 2 ^ 32 - 2 ^ 31) mod 2 ^ k" by (simp add: to_int32_def)
    also have "\<dots> = ((x + 2 ^ 31) mod 2 ^ 32 mod 2 ^ k - 2 ^ 31 mod 2 ^ k) mod 2 ^ k" by (simp add: mod_diff_eq)
    also have "\<dots> = (x + 2 ^ 31) mod 2 ^ k" using d by (simp add: mod_mod_cancel mod_eq_0_iff_dvd)
    also have "\<dots> = x mod 2 ^ k" using d(1) by (metis dvd_eq_mod_eq_0 mod_add_right_eq add.right_neutral)
    finally show ?thesis .
  qed
  then show ?thesis unfolding js_and_def m by (simp flip: take_bit_eq_mod mask_eq_exp_minus_1 take_bit_eq_mask)
qed

lemma js_and_ffff: "js_and x 0xffff = x mod 2 ^ 16"
  using js_and_low[of 16 x] by simp

lemma js_ushr_0: "js_ushr x 0 = x mod 2 ^ 32"
  by (simp add: js_ushr_def to_uint32_def)

lemma imul_cong: "js_imul a b mod 2 ^ 32 = (a * b) mod 2 ^ 32"
proof -
  have c: "to_int32 x mod 2 ^ 32 = x mod 2 ^ 32" for x
  proof -
    have "to_int32 x mod 2 ^ 32 = ((x + 2 ^ 31) mod 2 ^ 32 - 2 ^ 31) mod 2 ^ 32" by (simp only: to_int32_def)
    also have "\<dots> = (x + 2 ^ 31 - 2 ^ 31) mod 2 ^ 32" by (rule mod_diff_left_eq)
    finally show ?thesis by simp
  qed
  show ?thesis unfolding js_imul_def c using c by (metis mod_mult_eq)
qed
lemma half_bounds: "half x \<Longrightarrow> 0 \<le> x" "half x \<Longrightarrow> x < 2 ^ 32"
  by (simp_all add: half_def)

lemma half_mod: "half (x mod 2 ^ 32)"
  by (simp add: half_def)

lemma add_cong3:
  fixes m :: int
  assumes "a mod m = c mod m" "b mod m = d mod m"
  shows "(h + a + b) mod m = (h + (c + d)) mod m"
  unfolding add.assoc by (rule mod_add_cong[OF refl mod_add_cong[OF assms]])

lemma half_compose: "0 \<le> a \<Longrightarrow> a < 2 ^ 16 \<Longrightarrow> 0 \<le> b \<Longrightarrow> b < 2 ^ 16 \<Longrightarrow> half (a * 2 ^ 16 + b)"
  by (simp add: half_def)

lemma js_or_disjoint:
  assumes "0 \<le> y" "y < 2 ^ 16"
  shows "js_ushr (js_or (js_shl (x mod 2 ^ 16) 16) y) 0 = (x mod 2 ^ 16) * 2 ^ 16 + y"
proof -
  let ?x = "x mod 2 ^ 16"
  have x: "0 \<le> ?x" "?x < 2 ^ 16" by simp_all
  have tx: "to_int32 ?x = ?x" and ty: "to_int32 y = y" using x assms by (auto intro!: to_int32_id)
  have u: "js_ushr z 0 = take_bit 32 z" for z by (simp add: js_ushr_0 take_bit_eq_mod)
  have idem: "take_bit 32 (to_int32 z) = take_bit 32 z" for z
    by (simp add: to_int32_def take_bit_eq_mod mod_diff_left_eq)
  have y16: "take_bit 16 y = y" using assms by (simp add: take_bit_int_eq_self)
  have "js_ushr (js_or (js_shl ?x 16) y) 0 = take_bit 32 (push_bit 16 ?x) OR take_bit 32 y"
    unfolding js_or_def js_shl_def u take_bit_or using tx ty idem by simp
  also have "\<dots> = push_bit 16 ?x OR y"
  proof -
    have "take_bit 32 (push_bit 16 ?x) = push_bit 16 ?x" using x
      by (intro take_bit_int_eq_self) (auto simp: push_bit_eq_mult)
    moreover have "take_bit 32 y = y" using assms by (intro take_bit_int_eq_self) auto
    ultimately show ?thesis by simp
  qed
  also have "\<dots> = push_bit 16 ?x + y"
  proof -
    have "\<not> bit y i" if "16 \<le> i" for i
      using bit_take_bit_iff[of 16 y i] that unfolding y16 by simp
    then have "push_bit 16 ?x AND y = 0" by (auto simp: bit_eq_iff bit_and_iff bit_push_bit_iff)
    then show ?thesis by (simp add: disjunctive_add_eq_or)
  qed
  finally show ?thesis by (simp add: push_bit_eq_mult)
qed

lemma limb_sum_gen:
  fixes p q r :: int
  assumes "p = ph * 65536 + pl" "q = qh * 65536 + ql" "r = rh * 65536 + rl" "ph + ql + rl = mh * 65536 + ml"
  shows "(q + r) * 65536 + p = (qh + rh + mh) * 4294967296 + (ml * 65536 + pl)"
  using assms by (simp add: distrib_right)

lemma limb_sum:
  fixes p q r :: int
  shows "(q + r) * 2 ^ 16 + p = (q div 2 ^ 16 + r div 2 ^ 16 + (p div 2 ^ 16 + q mod 2 ^ 16 + r mod 2 ^ 16) div 2 ^ 16) * 2 ^ 32
    + (((p div 2 ^ 16 + q mod 2 ^ 16 + r mod 2 ^ 16) mod 2 ^ 16) * 2 ^ 16 + p mod 2 ^ 16)"
proof -
  have e: "x = x div 65536 * 65536 + x mod 65536" for x :: int by simp
  show ?thesis using limb_sum_gen[OF e e e e, of q r p] by simp
qed

lemma product_halves:
  fixes aHi aLo bHi bLo :: int
  assumes "aLo * bLo = h * 4294967296 + oLo" "oHi = (h + (aHi * bLo + aLo * bHi)) mod 4294967296"
  shows "((aHi * 4294967296 + aLo) * (bHi * 4294967296 + bLo)) mod 18446744073709551616
    = (oHi * 4294967296 + oLo) mod 18446744073709551616"
proof -
  obtain q where q: "h + (aHi * bLo + aLo * bHi) = q * 4294967296 + oHi"
    using div_mult_mod_eq[of "h + (aHi * bLo + aLo * bHi)" 4294967296] assms(2) by metis
  have "(aHi * 4294967296 + aLo) * (bHi * 4294967296 + bLo)
      = aHi * bHi * 18446744073709551616 + (aHi * bLo + aLo * bHi) * 4294967296 + aLo * bLo"
    by (simp add: algebra_simps)
  also have "\<dots> = (aHi * bHi + q) * 18446744073709551616 + (oHi * 4294967296 + oLo)"
    using assms(1) q by (simp add: distrib_right)
  finally show ?thesis by (simp only: mod_mult_self3)
qed

lemma product_halves_pow:
  fixes aHi aLo bHi bLo :: int
  assumes "aLo * bLo = h * 2 ^ 32 + oLo" "oHi = (h + (aHi * bLo + aLo * bHi)) mod 2 ^ 32"
  shows "((aHi * 2 ^ 32 + aLo) * (bHi * 2 ^ 32 + bLo)) mod 2 ^ 64 = (oHi * 2 ^ 32 + oLo) mod 2 ^ 64"
  using product_halves[of aLo bLo h oLo oHi aHi bHi] assms by simp

lemma halves_fit: "half hi \<Longrightarrow> half lo \<Longrightarrow> (hi * 2 ^ 32 + lo) mod 2 ^ 64 = hi * 2 ^ 32 + lo"
  by (rule mod_pos_pos_trivial) (auto simp: half_def)

lemma mul64_ok:
  assumes "half aHi" "half aLo" "half bHi" "half bLo" "mul64 aHi aLo bHi bLo = (oHi, oLo)"
  shows "half oHi \<and> half oLo \<and> oHi * 2 ^ 32 + oLo = ((aHi * 2 ^ 32 + aLo) * (bHi * 2 ^ 32 + bLo)) mod 2 ^ 64"
proof -
  define a0 a1 b0 b1 where d: "a0 = aLo mod 2 ^ 16" "a1 = aLo div 2 ^ 16" "b0 = bLo mod 2 ^ 16" "b1 = bLo div 2 ^ 16"
  have r: "0 \<le> a0" "a0 < 2 ^ 16" "0 \<le> a1" "a1 < 2 ^ 16" "0 \<le> b0" "b0 < 2 ^ 16" "0 \<le> b1" "b1 < 2 ^ 16"
    using assms(2,4) by (auto simp: d half_def)
  have prod: "0 \<le> x * y \<and> x * y < 2 ^ 32" if "0 \<le> x" "x < 2 ^ 16" "0 \<le> y" "y < 2 ^ 16" for x y :: int
    using mult_strict_mono[of x "2 ^ 16" y "2 ^ 16"] that by simp
  have sh: "js_ushr x 16 = x div 2 ^ 16" if "0 \<le> x" "x < 2 ^ 32" for x
    using js_ushr_div[of x 16] that by simp
  let ?p00 = "a0 * b0" and ?p01 = "a0 * b1" and ?p10 = "a1 * b0"
  let ?mid = "?p00 div 2 ^ 16 + ?p01 mod 2 ^ 16 + ?p10 mod 2 ^ 16"
  have p: "0 \<le> ?p00 \<and> ?p00 < 2 ^ 32" "0 \<le> ?p01 \<and> ?p01 < 2 ^ 32" "0 \<le> ?p10 \<and> ?p10 < 2 ^ 32"
    using prod r by auto
  have mid: "0 \<le> ?mid" "?mid < 2 ^ 32" using p by auto
  let ?h = "a1 * b1 + ?p01 div 2 ^ 16 + ?p10 div 2 ^ 16 + ?mid div 2 ^ 16"
  have e: "js_and aLo 0xffff = a0" "js_ushr aLo 16 = a1" "js_and bLo 0xffff = b0" "js_ushr bLo 16 = b1"
    using sh assms(2,4) by (simp_all only: js_and_ffff d half_def)
  have e2: "js_ushr ?p00 16 = ?p00 div 2 ^ 16" "js_ushr ?p01 16 = ?p01 div 2 ^ 16" "js_ushr ?p10 16 = ?p10 div 2 ^ 16"
    "js_ushr ?mid 16 = ?mid div 2 ^ 16"
    by (rule sh; use p mid in blast)+
  have ev: "(oHi, oLo) = (js_ushr (?h + js_imul aHi bLo + js_imul aLo bHi) 0,
      js_ushr (js_or (js_shl (?mid mod 2 ^ 16) 16) (?p00 mod 2 ^ 16)) 0)"
    unfolding assms(5)[symmetric] mul64_def Let_def js_and_ffff unfolding e(2,4) d(1,3)[symmetric]
    unfolding e2 ..
  have lo: "oLo = (?mid mod 2 ^ 16) * 2 ^ 16 + ?p00 mod 2 ^ 16"
  proof -
    have "js_ushr (js_or (js_shl (?mid mod 2 ^ 16) 16) (?p00 mod 2 ^ 16)) 0 = (?mid mod 2 ^ 16) * 2 ^ 16 + ?p00 mod 2 ^ 16"
      by (rule js_or_disjoint) simp_all
    moreover have "oLo = js_ushr (js_or (js_shl (?mid mod 2 ^ 16) 16) (?p00 mod 2 ^ 16)) 0" using ev by simp
    ultimately show ?thesis by simp
  qed
  have hi: "oHi = (?h + js_imul aHi bLo + js_imul aLo bHi) mod 2 ^ 32"
    using ev unfolding js_ushr_0 by simp
  have lohalf: "half oLo"
  proof -
    have "0 \<le> ?mid mod 2 ^ 16" "?mid mod 2 ^ 16 < 2 ^ 16" "0 \<le> ?p00 mod 2 ^ 16" "?p00 mod 2 ^ 16 < 2 ^ 16" by simp_all
    then show ?thesis unfolding lo by (rule half_compose)
  qed
  have hi2: "oHi = (?h + (aHi * bLo + aLo * bHi)) mod 2 ^ 32"
    unfolding hi by (rule add_cong3; rule imul_cong)
  have "aLo = a1 * 2 ^ 16 + a0" "bLo = b1 * 2 ^ 16 + b0" unfolding d by simp_all
  then have low: "aLo * bLo = ?h * 2 ^ 32 + oLo"
  proof -
    have "aLo * bLo = a1 * b1 * 2 ^ 32 + (?p01 + ?p10) * 2 ^ 16 + ?p00"
      unfolding \<open>aLo = a1 * 2 ^ 16 + a0\<close> \<open>bLo = b1 * 2 ^ 16 + b0\<close> by (simp add: algebra_simps)
    also have "\<dots> = a1 * b1 * 2 ^ 32 + ((?p01 + ?p10) * 2 ^ 16 + ?p00)" by simp
    finally show ?thesis unfolding lo limb_sum by (simp only: distrib_right add.assoc)
  qed
  have full: "((aHi * 2 ^ 32 + aLo) * (bHi * 2 ^ 32 + bLo)) mod 2 ^ 64 = (oHi * 2 ^ 32 + oLo) mod 2 ^ 64"
    by (rule product_halves_pow[OF low hi2])
  have hihalf: "half oHi" unfolding hi by (rule half_mod)
  show ?thesis unfolding full halves_fit[OF hihalf lohalf] using hihalf lohalf by blast
qed
section \<open>Xorshift on halves\<close>

lemma take_to_int32: "take_bit 32 (to_int32 z) = take_bit 32 z"
  by (simp add: to_int32_def take_bit_eq_mod mod_diff_left_eq)

lemma bit_to_int32: "i < 32 \<Longrightarrow> bit (to_int32 z) i = bit z i"
  using bit_take_bit_iff[of 32 "to_int32 z" i] bit_take_bit_iff[of 32 z i] by (simp add: take_to_int32)

lemma bit_js_xor: "i < 32 \<Longrightarrow> bit (js_xor a b) i = (bit a i \<noteq> bit b i)"
  by (simp add: js_xor_def bit_xor_iff bit_to_int32)

lemma bit_js_or: "i < 32 \<Longrightarrow> bit (js_or a b) i = (bit a i \<or> bit b i)"
  by (simp add: js_or_def bit_or_iff bit_to_int32)

lemma bit_js_shl: "i < 32 \<Longrightarrow> s < 32 \<Longrightarrow> bit (js_shl a (int s)) i = (s \<le> i \<and> bit a (i - s))"
  by (simp add: js_shl_def bit_to_int32 bit_push_bit_iff)

lemma to_uint32_take: "to_uint32 a = take_bit 32 a"
  by (simp add: to_uint32_def take_bit_eq_mod)

lemma bit_js_ushr: "s < 32 \<Longrightarrow> bit (js_ushr a (int s)) i = (i + s < 32 \<and> bit a (i + s))"
  by (simp add: js_ushr_def to_uint32_take bit_drop_bit_eq bit_take_bit_iff ac_simps)

definition join :: "int \<Rightarrow> int \<Rightarrow> int" where
  "join hi lo = hi * 2 ^ 32 + lo"

lemma bit_half: "half x \<Longrightarrow> bit x i \<Longrightarrow> i < 32"
  using bit_take_bit_iff[of 32 x i] by (simp add: half_def take_bit_int_eq_self)

lemma halves_or: "half lo \<Longrightarrow> join hi lo = push_bit 32 hi OR lo"
proof -
  assume l: "half lo"
  have "\<not> bit lo n" if "32 \<le> n" for n using bit_half[OF l, of n] that by auto
  then have "push_bit 32 hi AND lo = 0"
    by (auto simp: bit_eq_iff bit_and_iff bit_push_bit_iff)
  then have "push_bit 32 hi + lo = push_bit 32 hi OR lo" by (rule disjunctive_add_eq_or)
  then show ?thesis by (simp add: push_bit_eq_mult join_def)
qed

lemma bit_halves: "half lo \<Longrightarrow> bit (join hi lo) i = (if i < 32 then bit lo i else bit hi (i - 32))"
  using bit_half[of lo i] unfolding halves_or by (auto simp: bit_or_iff bit_push_bit_iff)

lemma xorshift_halves:
  assumes "half hi" "half lo" "0 < s" "s < 32"
    "oHi = js_ushr (js_xor hi (js_ushr hi (int s))) 0"
    "oLo = js_ushr (js_xor lo (js_or (js_ushr lo (int s)) (js_shl hi (int (32 - s))))) 0"
  shows "half oHi \<and> half oLo \<and>
    join oHi oLo = (join hi lo) XOR drop_bit s (join hi lo)"
proof -
  have h: "half oHi" "half oLo" unfolding assms(5,6) js_ushr_0 by (rule half_mod)+
  have b0: "bit (js_ushr z 0) i = (i < 32 \<and> bit z i)" for z i using bit_js_ushr[of 0 z i] by simp
  have bh: "bit oHi i = (i < 32 \<and> (bit hi i \<noteq> (i + s < 32 \<and> bit hi (i + s))))" for i
    unfolding assms(5) b0 using bit_js_ushr[OF assms(4), of hi i] by (auto simp: bit_js_xor)
  have bl: "bit oLo i = (i < 32 \<and> (bit lo i \<noteq> ((i + s < 32 \<and> bit lo (i + s)) \<or> (32 - s \<le> i \<and> bit hi (i - (32 - s))))))" for i
    unfolding assms(6) b0 using bit_js_ushr[OF assms(4), of lo i] bit_js_shl[of i "32 - s" hi] assms(3)
    by (auto simp: bit_js_xor bit_js_or)
  have "bit (join oHi oLo) i = bit ((join hi lo) XOR drop_bit s (join hi lo)) i" for i
  proof (cases "i < 32")
    case True
    have "i - (32 - s) = i + s - 32" if "32 \<le> i + s" using that assms(4) by simp
    then show ?thesis using True assms(4)
      by (auto simp: bit_halves[OF h(2)] bl bit_xor_iff bit_drop_bit_eq bit_halves[OF assms(2)] ac_simps)
  next
    case False
    have "s + i - 32 = s + (i - 32)" using False by simp
    then show ?thesis using False bit_half[OF assms(1), of "i - 32"] bit_half[OF assms(1), of "s + (i - 32)"]
      by (auto simp: bit_halves[OF h(2)] bh bit_xor_iff bit_drop_bit_eq bit_halves[OF assms(2)] ac_simps)
  qed
  then show ?thesis using h by (simp add: bit_eq_iff)
qed

section \<open>SplitMix64 on 64-bit words\<close>

definition sm_mix :: "64 word \<Rightarrow> 64 word" where
  "sm_mix z0 = (let z1 = (z0 XOR drop_bit 30 z0) * 0xbf58476d1ce4e5b9;
                    z2 = (z1 XOR drop_bit 27 z1) * 0x94d049bb133111eb
                in z2 XOR drop_bit 31 z2)"

definition sm_gamma :: "64 word" where
  "sm_gamma = 0x9e3779b97f4a7c15"

definition halves_of :: "int \<times> int \<Rightarrow> 64 word \<Rightarrow> bool" where
  "halves_of p w \<longleftrightarrow> half (fst p) \<and> half (snd p) \<and> join (fst p) (snd p) = uint w"

lemma halves_of_w64: "half hi \<Longrightarrow> half lo \<Longrightarrow> halves_of (hi, lo) (word_of_int (join hi lo))"
  unfolding halves_of_def using halves_fit[of hi lo] by (simp only: fst_conv snd_conv uint_word_of_int join_def) simp

lemma mul64_halves:
  assumes "halves_of (aHi, aLo) a" "halves_of (bHi, bLo) b"
  shows "halves_of (mul64 aHi aLo bHi bLo) (a * b)"
proof -
  obtain oHi oLo where o: "mul64 aHi aLo bHi bLo = (oHi, oLo)" by force
  have "half oHi \<and> half oLo \<and> join oHi oLo = (uint a * uint b) mod 2 ^ 64"
    using mul64_ok[OF _ _ _ _ o] assms by (simp add: halves_of_def join_def)
  then show ?thesis by (simp add: halves_of_def o uint_word_ariths)
qed

lemma xorshift_word:
  assumes "halves_of (hi, lo) w" "0 < s" "s < 32"
  shows "halves_of (js_ushr (js_xor hi (js_ushr hi (int s))) 0,
    js_ushr (js_xor lo (js_or (js_ushr lo (int s)) (js_shl hi (int (32 - s))))) 0) (w XOR drop_bit s w)"
proof -
  have "uint (w XOR drop_bit s w) = uint w XOR drop_bit s (uint w)"
    by (simp add: bit_eq_iff bit_uint_iff bit_xor_iff bit_drop_bit_eq)
      (auto simp: bit_simps dest: bit_imp_le_length)
  then show ?thesis
    using xorshift_halves[OF _ _ assms(2,3) refl refl, of hi lo] assms(1) by (simp add: halves_of_def)
qed

lemma mix64_halves:
  assumes "halves_of (hi, lo) w"
  shows "halves_of (mix64 hi lo) (sm_mix w)"
proof -
  have a: "halves_of (MIX_A_HI, MIX_A_LO) 0xbf58476d1ce4e5b9" "halves_of (MIX_B_HI, MIX_B_LO) 0x94d049bb133111eb"
    by (simp_all add: halves_of_def half_def join_def MIX_A_HI_def MIX_A_LO_def MIX_B_HI_def MIX_B_LO_def)
  have x1: "halves_of (js_ushr (js_xor hi (js_ushr hi 30)) 0,
      js_ushr (js_xor lo (js_or (js_ushr lo 30) (js_shl hi 2))) 0) (w XOR drop_bit 30 w)"
    using xorshift_word[OF assms, of 30] by simp
  let ?z1 = "(w XOR drop_bit 30 w) * 0xbf58476d1ce4e5b9"
  obtain h1 l1 where m1: "mul64 (js_ushr (js_xor hi (js_ushr hi 30)) 0)
      (js_ushr (js_xor lo (js_or (js_ushr lo 30) (js_shl hi 2))) 0) MIX_A_HI MIX_A_LO = (h1, l1)" by force
  have z1: "halves_of (h1, l1) ?z1" using mul64_halves[OF x1 a(1)] m1 by simp
  have x2: "halves_of (js_ushr (js_xor h1 (js_ushr h1 27)) 0,
      js_ushr (js_xor l1 (js_or (js_ushr l1 27) (js_shl h1 5))) 0) (?z1 XOR drop_bit 27 ?z1)"
    using xorshift_word[OF z1, of 27] by simp
  let ?z2 = "(?z1 XOR drop_bit 27 ?z1) * 0x94d049bb133111eb"
  obtain h2 l2 where m2: "mul64 (js_ushr (js_xor h1 (js_ushr h1 27)) 0)
      (js_ushr (js_xor l1 (js_or (js_ushr l1 27) (js_shl h1 5))) 0) MIX_B_HI MIX_B_LO = (h2, l2)" by force
  have z2: "halves_of (h2, l2) ?z2" using mul64_halves[OF x2 a(2)] m2 by simp
  have x3: "halves_of (js_ushr (js_xor h2 (js_ushr h2 31)) 0,
      js_ushr (js_xor l2 (js_or (js_ushr l2 31) (js_shl h2 1))) 0) (?z2 XOR drop_bit 31 ?z2)"
    using xorshift_word[OF z2, of 31] by simp
  have "mix64 hi lo = (js_ushr (js_xor h2 (js_ushr h2 31)) 0,
      js_ushr (js_xor l2 (js_or (js_ushr l2 31) (js_shl h2 1))) 0)"
    unfolding mix64_def m1 m2 by (simp add: m2)
  then show ?thesis using x3 unfolding sm_mix_def Let_def by simp
qed
section \<open>The mixer is a permutation\<close>

lemma xorshift_fixed:
  fixes d :: "64 word"
  assumes "d = drop_bit s d" "0 < s"
  shows "d = 0"
proof -
  have "\<not> bit d i" for i
  proof (induction "64 - i" arbitrary: i rule: less_induct)
    case less
    show ?case
    proof (cases "i < 64")
      case True
      then have "\<not> bit d (s + i)" using less[of "s + i"] assms(2) by simp
      then show ?thesis using assms(1) bit_drop_bit_eq[of s d] by (metis comp_apply)
    next
      case False
      then show ?thesis using bit_imp_le_length[of d i] by auto
    qed
  qed
  then show ?thesis by (simp add: bit_eq_iff)
qed

lemma xorshift_inj:
  fixes v w :: "64 word"
  assumes "v XOR drop_bit s v = w XOR drop_bit s w" "0 < s"
  shows "v = w"
proof -
  have "(v XOR w) = drop_bit s (v XOR w)"
  proof -
    have "bit v i \<noteq> bit v (s + i) \<longleftrightarrow> bit w i \<noteq> bit w (s + i)" for i
      using arg_cong[OF assms(1), of "\<lambda>x. bit x i"] bit_imp_le_length[of v i] bit_imp_le_length[of w i]
      by (auto simp: bit_xor_iff bit_drop_bit_eq)
    then show ?thesis by (auto simp: bit_eq_iff bit_xor_iff bit_drop_bit_eq)
  qed
  then have "v XOR w = 0" using assms(2) by (rule xorshift_fixed)
  then have "bit v i = bit w i" for i using bit_xor_iff[of v w i] by simp
  then show ?thesis by (simp add: bit_eq_iff)
qed

lemma mult_unit_inj:
  fixes c :: "64 word"
  assumes "c * u = 1" "a * c = b * c"
  shows "a = b"
  using arg_cong[OF assms(2), of "\<lambda>x. x * u"] assms(1) by (simp add: mult.assoc)

lemma sm_mix_bij: "bij sm_mix"
proof -
  have "inj sm_mix"
  proof (rule injI)
    fix v w assume e: "sm_mix v = sm_mix w"
    have u: "(0xbf58476d1ce4e5b9 :: 64 word) * 0x96de1b173f119089 = 1"
      "(0x94d049bb133111eb :: 64 word) * 0x319642b2d24d8ec3 = 1" by simp_all
    show "v = w"
      using e unfolding sm_mix_def Let_def
      by (metis xorshift_inj[of _ 31] xorshift_inj[of _ 27] xorshift_inj[of _ 30] mult_unit_inj[OF u(1)]
          mult_unit_inj[OF u(2)] zero_less_numeral)
  qed
  then show ?thesis using finite_UNIV_inj_surj[of sm_mix] by (simp add: bij_def)
qed

section \<open>Draws\<close>

lemma halves_add:
  assumes "halves_of (hi, lo) w" "halves_of (cHi, cLo) c"
  shows "halves_of (js_ushr (hi + cHi + (if lo + cLo \<ge> TWO_32 then 1 else 0)) 0, js_ushr (lo + cLo) 0) (w + c)"
proof -
  have h: "half hi" "half lo" "half cHi" "half cLo" "join hi lo = uint w" "join cHi cLo = uint c"
    using assms by (auto simp: halves_of_def)
  let ?H = "hi + cHi + (if lo + cLo \<ge> 2 ^ 32 then 1 else 0)" and ?L = "lo + cLo"
  have "?L mod 2 ^ 32 = ?L - (if ?L \<ge> 2 ^ 32 then 2 ^ 32 else 0)"
  proof (cases "?L \<ge> 2 ^ 32")
    case True
    then have "(?L - 2 ^ 32) mod 2 ^ 32 = ?L - 2 ^ 32"
      using h(2,4) by (intro mod_pos_pos_trivial) (auto simp: half_def)
    then show ?thesis using True by simp
  next
    case False
    then show ?thesis using h(2,4) by (simp add: half_def)
  qed
  then have "?H * 2 ^ 32 + ?L mod 2 ^ 32 = uint w + uint c"
    unfolding h(5,6)[symmetric] join_def by (simp add: algebra_simps split: if_splits)
  then have "join (?H mod 2 ^ 32) (?L mod 2 ^ 32) = (uint w + uint c) mod 2 ^ 64"
    using halves_fit[OF half_mod half_mod, of ?H ?L] unfolding join_def
    by (metis (no_types, lifting) mod_add_left_eq mod_mult_mult2 mult_2_right numeral_Bit0 power_add)
  moreover have "uint (w + c) = (uint w + uint c) mod 2 ^ 64" "TWO_32 = 2 ^ 32"
    by (simp_all add: uint_word_ariths TWO_32_def)
  ultimately show ?thesis unfolding halves_of_def js_ushr_0 fst_conv snd_conv using half_mod by metis
qed

lemma prng_consts: "halves_of (GOLDEN_HI, GOLDEN_LO) sm_gamma" "halves_of (SPLIT_HI, SPLIT_LO) 0x6a09e667f3bcc908"
  by (simp_all add: halves_of_def half_def join_def GOLDEN_HI_def GOLDEN_LO_def sm_gamma_def SPLIT_HI_def SPLIT_LO_def)

definition prng_at :: "prng \<Rightarrow> 64 word \<Rightarrow> bool" where
  "prng_at p w \<longleftrightarrow> halves_of (kHi p, kLo p) w"

lemma prng_advance_at:
  assumes "prng_at p w"
  shows "halves_of (fst (prng_advance p)) (sm_mix (w + sm_gamma)) \<and> prng_at (snd (prng_advance p)) (w + sm_gamma)"
  using halves_add[OF assms[unfolded prng_at_def] prng_consts(1)] mix64_halves
  by (simp add: prng_advance_def Let_def prng_at_def)

lemma outBigInt_halves: "halves_of out w \<Longrightarrow> outBigInt out = uint w"
  using halves_or[of "snd out" "fst out"] by (simp add: outBigInt_def halves_of_def)

lemma prng_nextBigInt_at:
  assumes "prng_at p w"
  shows "fst (prng_nextBigInt p) = uint (sm_mix (w + sm_gamma)) \<and> prng_at (snd (prng_nextBigInt p)) (w + sm_gamma)"
  using prng_advance_at[OF assms] outBigInt_halves by (simp add: prng_nextBigInt_def case_prod_beta)

lemma half_take: "half (take_bit 32 s)"
  unfolding take_bit_eq_mod by (rule half_mod)

lemma prng_make_at: "prng_at (prng_make s) (word_of_int s)"
proof -
  have "join (take_bit 32 (drop_bit 32 s)) (take_bit 32 s) = take_bit 64 s"
  proof -
    have "half (take_bit 32 s)" by (rule half_take)
    then show ?thesis
      by (auto simp: bit_eq_iff bit_halves bit_take_bit_iff bit_drop_bit_eq)
  qed
  then show ?thesis
    using half_take[of s] half_take[of "drop_bit 32 s"]
    by (simp add: prng_at_def halves_of_def prng_make_def prng_create_def uint_word_of_int take_bit_eq_mod)
qed

lemma prng_steps_at:
  "prng_at p w \<Longrightarrow> prng_at (((\<lambda>p. snd (prng_nextBigInt p)) ^^ n) p) (w + of_nat n * sm_gamma)"
proof (induction n)
  case (Suc n)
  have e: "w + of_nat (Suc n) * sm_gamma = w + of_nat n * sm_gamma + sm_gamma" by (simp add: algebra_simps)
  show ?case unfolding e funpow.simps comp_apply using prng_nextBigInt_at[OF Suc.IH[OF Suc.prems]] by blast
qed simp

lemma prng_split_at:
  assumes "prng_at p w"
  shows "prng_at (fst (prng_split p)) (sm_mix (w + 0x6a09e667f3bcc908)) \<and> prng_at (snd (prng_split p)) (w + sm_gamma)"
  using halves_add[OF assms[unfolded prng_at_def] prng_consts(1)] halves_add[OF assms[unfolded prng_at_def] prng_consts(2)]
    mix64_halves
  by (simp add: prng_split_def Let_def prng_at_def prng_create_def case_prod_beta)
section \<open>Doubles that are exact\<close>

lemma round_even_bounds:
  assumes "0 < b"
  shows "a div b \<le> round_even a b" "2 * (round_even a b * b) \<le> 2 * a + b"
proof -
  show "a div b \<le> round_even a b" by (simp add: round_even_def Let_def)
  have m: "a div b * b + a mod b = a" by (rule div_mult_mod_eq)
  show "2 * (round_even a b * b) \<le> 2 * a + b"
  proof (cases "2 * (a mod b) < b \<or> (2 * (a mod b) = b \<and> even (a div b))")
    case True
    then have "round_even a b * b = a div b * b" by (simp add: round_even_def Let_def)
    then show ?thesis using m by linarith
  next
    case False
    then have "b \<le> 2 * (a mod b)" by linarith
    moreover have "round_even a b * b = a div b * b + b" using False unfolding round_even_def Let_def
      by (simp only: if_False distrib_right mult_1)
    ultimately show ?thesis using m by linarith
  qed
qed

lemma quot_scale_bound: "0 < x \<Longrightarrow> 2 ^ 52 * r \<le> x * 2 ^ quot_scale x r"
proof (induction x r rule: quot_scale.induct)
  case (1 x r)
  show ?case
  proof (cases "2 ^ 52 * r \<le> x")
    case True
    then show ?thesis by (simp add: quot_scale.simps)
  next
    case False
    then have "quot_scale x r = Suc (quot_scale (2 * x) r)" using "1.prems" by (subst quot_scale.simps) simp
    moreover have "2 ^ 52 * r \<le> 2 * x * 2 ^ quot_scale (2 * x) r" using 1 False by simp
    ultimately show ?thesis by (simp only: power_Suc mult.assoc mult.left_commute[of x 2])
  qed
qed

lemma quotient_floor:
  fixes x r k :: nat
  assumes "2 ^ 52 * r \<le> x * 2 ^ k" "x < 2 ^ 53" "0 < r" "0 < x"
  shows "round_even (x * 2 ^ k) r div 2 ^ k = x div r"
proof -
  let ?n = "round_even (x * 2 ^ k) r" and ?q = "x div r"
  have up: "2 * (?n * r) \<le> 2 * (x * 2 ^ k) + r" and lo: "(x * 2 ^ k) div r \<le> ?n"
    using round_even_bounds[OF assms(3)] by blast+
  have "?q * 2 ^ k * r \<le> x * 2 ^ k" using div_times_less_eq_dividend[of x r] by (simp add: mult.commute mult.left_commute)
  then have "?q * 2 ^ k \<le> (x * 2 ^ k) div r" using assms(3) by (simp add: less_eq_div_iff_mult_less_eq)
  then have low: "?q * 2 ^ k \<le> ?n" using lo by linarith
  have high: "?n < (?q + 1) * 2 ^ k"
  proof (rule ccontr)
    assume "\<not> ?n < (?q + 1) * 2 ^ k"
    then have "(?q + 1) * 2 ^ k * r \<le> ?n * r" by simp
    moreover have "x + 1 \<le> (?q + 1) * r"
      using dividend_less_div_times[OF assms(3), of x] by (simp add: add.commute)
    then have "(x + 1) * 2 ^ k \<le> (?q + 1) * r * 2 ^ k" by (rule mult_le_mono1)
    then have "(x + 1) * 2 ^ k \<le> (?q + 1) * 2 ^ k * r" by (metis mult.assoc mult.commute)
    ultimately have "2 * ((x + 1) * 2 ^ k) \<le> 2 * (x * 2 ^ k) + r" using up by linarith
    then have "2 * 2 ^ k \<le> r" by (simp add: distrib_right)
    then have "x * (2 * 2 ^ k) \<le> x * r" by (rule mult_le_mono2)
    moreover have "2 * (2 ^ 52 * r) \<le> 2 * (x * 2 ^ k)" using assms(1) by (rule mult_le_mono2)
    moreover have "2 ^ 53 * r = 2 * (2 ^ 52 * r)" "2 * (x * 2 ^ k) = x * (2 * 2 ^ k)" by simp_all
    ultimately have "2 ^ 53 * r \<le> x * r" by linarith
    then have "2 ^ 53 \<le> x" using assms(3) by simp
    then show False using assms(2) by simp
  qed
  show ?thesis
    by (rule div_nat_eqI) (use low high in \<open>simp_all add: ac_simps\<close>)
qed

lemma js_floor_div_exact:
  assumes "0 \<le> x" "x < 2 ^ 53" "0 < r"
  shows "js_floor_div x r = x div r"
proof (cases "x = 0")
  case True
  then show ?thesis using assms(3) by (simp add: js_floor_div_def round_even_def Let_def)
next
  case False
  then have p: "0 < nat x" "nat x < 2 ^ 53" "0 < nat r" using assms by (auto simp: nat_less_iff)
  have "round_even (nat x * 2 ^ quot_scale (nat x) (nat r)) (nat r) div 2 ^ quot_scale (nat x) (nat r) = nat x div nat r"
    by (rule quotient_floor[OF quot_scale_bound[OF p(1)] p(2,3,1)])
  then show ?thesis using assms(1,3) unfolding js_floor_div_def Let_def by (simp add: zdiv_int)
qed

lemma modSmall_mod: "0 \<le> x \<Longrightarrow> x < 2 ^ 53 \<Longrightarrow> 0 < r \<Longrightarrow> modSmall x r = x mod r"
  by (simp add: modSmall_def js_floor_div_exact minus_div_mult_eq_mod)

lemma to_double_limit: "to_double (2 ^ 53) = 2 ^ 53" "to_double (- (2 ^ 53)) = - (2 ^ 53)"
proof -
  have n: "nat \<bar>2 ^ 53 :: int\<bar> = 2 ^ 53" "nat \<bar>- (2 ^ 53) :: int\<bar> = 2 ^ 53" by (simp_all add: nat_power_eq)
  have "bitlen (2 ^ 53) = 54"
  proof -
    have "bitlen (2 ^ 53) \<le> 54" by (rule bitlen_le) simp
    moreover have "(2::nat) ^ 53 < 2 ^ bitlen (2 ^ 53)" using bitlen_bounds[of "2 ^ 53"] by simp
    then have "53 < bitlen (2 ^ 53)" by (rule power_less_imp_less_exp[rotated]) simp
    ultimately show ?thesis by linarith
  qed
  then show "to_double (2 ^ 53) = 2 ^ 53" "to_double (- (2 ^ 53)) = - (2 ^ 53)"
    unfolding to_double_def Let_def n by (simp_all add: round_even_def)
qed

lemma to_double_id: "\<bar>x\<bar> \<le> 2 ^ 53 \<Longrightarrow> to_double x = x"
proof -
  assume x: "\<bar>x\<bar> \<le> 2 ^ 53"
  show ?thesis
  proof (cases "\<bar>x\<bar> < 2 ^ 53")
    case True
    then have "nat \<bar>x\<bar> < 2 ^ 53" by (simp add: nat_less_iff)
    then have "bitlen (nat \<bar>x\<bar>) - 53 = 0" using bitlen_le[of "nat \<bar>x\<bar>" 53] by simp
    then show ?thesis by (simp add: to_double_def round_even_def sgn_mult_abs)
  next
    case False
    then consider "x = 2 ^ 53" | "x = - (2 ^ 53)" using x by linarith
    then show ?thesis by cases (simp_all only: to_double_limit)
  qed
qed
section \<open>\<open>nextInt\<close>\<close>

lemma mod_range: "0 < (r :: int) \<Longrightarrow> 0 \<le> x mod r \<and> x mod r \<le> r - 1"
  using pos_mod_bound[of r x] pos_mod_sign[of r x] by linarith

lemma one_step_mod:
  fixes hi lo r :: int
  assumes "half hi" "half lo" "0 < r" "r \<le> 2 ^ 21"
  shows "modSmall (modSmall hi r * 2 ^ 32 + lo) r = join hi lo mod r"
proof -
  have h: "modSmall hi r = hi mod r" by (rule modSmall_mod) (use assms in \<open>auto simp: half_def\<close>)
  have b: "0 \<le> hi mod r" "hi mod r \<le> 2 ^ 21 - 1" using assms(3,4) mod_range[of r hi] by linarith+
  have "modSmall (hi mod r * 2 ^ 32 + lo) r = (hi mod r * 2 ^ 32 + lo) mod r"
    by (rule modSmall_mod) (use b assms in \<open>auto simp: half_def\<close>)
  also have "\<dots> = (hi * 2 ^ 32 + lo) mod r" by (metis mod_add_left_eq mod_mult_left_eq)
  finally show ?thesis by (simp only: h join_def)
qed

lemma horner_mod:
  fixes hi lo r :: int
  assumes "half hi" "half lo" "0 < r" "r \<le> 2 ^ 37"
  shows "modSmall (modSmall (modSmall hi r * 2 ^ 16 + lo div 2 ^ 16) r * 2 ^ 16 + lo mod 2 ^ 16) r = join hi lo mod r"
proof -
  have h: "modSmall hi r = hi mod r" by (rule modSmall_mod) (use assms in \<open>auto simp: half_def\<close>)
  have low: "0 \<le> lo div 2 ^ 16" "lo div 2 ^ 16 < 2 ^ 16" using assms(2) by (auto simp: half_def)
  have b: "0 \<le> z mod r" "z mod r \<le> 2 ^ 37 - 1" for z
    using assms(3,4) mod_range[of r z] by linarith+
  have s: "modSmall (z mod r * 2 ^ 16 + l) r = (z * 2 ^ 16 + l) mod r" if "0 \<le> l" "l < 2 ^ 16" for z l
  proof -
    have "modSmall (z mod r * 2 ^ 16 + l) r = (z mod r * 2 ^ 16 + l) mod r"
      by (rule modSmall_mod) (use b[of z] that assms(3) in auto)
    also have "\<dots> = (z * 2 ^ 16 + l) mod r" by (metis mod_add_left_eq mod_mult_left_eq)
    finally show ?thesis .
  qed
  have "modSmall (modSmall (modSmall hi r * 2 ^ 16 + lo div 2 ^ 16) r * 2 ^ 16 + lo mod 2 ^ 16) r
      = ((hi * 2 ^ 16 + lo div 2 ^ 16) * 2 ^ 16 + lo mod 2 ^ 16) mod r"
    unfolding h s[OF low] by (rule s) simp_all
  also have "(hi * 2 ^ 16 + lo div 2 ^ 16) * 2 ^ 16 + lo mod 2 ^ 16 = join hi lo"
    unfolding join_def using div_mult_mod_eq[of lo "2 ^ 16"] by (simp add: algebra_simps)
  finally show ?thesis .
qed

lemma prng_nextInt_ok:
  assumes "prng_at p w" "lo < hi" "\<bar>lo\<bar> < 2 ^ 53" "\<bar>hi\<bar> < 2 ^ 53" "hi - lo < 2 ^ 53"
  shows "prng_nextInt p (Some lo) (Some hi) =
    (Inr (lo + uint (sm_mix (w + sm_gamma)) mod (hi - lo + 1)), snd (prng_advance p))"
proof -
  obtain oHi oLo p1 where a: "prng_advance p = ((oHi, oLo), p1)" by (metis prod.exhaust)
  have o: "half oHi" "half oLo" "join oHi oLo = uint (sm_mix (w + sm_gamma))"
      "outBigInt (oHi, oLo) = uint (sm_mix (w + sm_gamma))"
    using prng_advance_at[OF assms(1)] outBigInt_halves[of "(oHi, oLo)"] by (auto simp: a halves_of_def)
  let ?r = "hi - lo + 1" and ?u = "uint (sm_mix (w + sm_gamma))"
  have r: "1 < ?r" "?r \<le> 2 ^ 53" using assms(2,5) by auto
  have range: "to_double (to_double (hi - lo) + 1) = ?r"
    using to_double_id[of "hi - lo"] to_double_id[of ?r] assms(2,5) by simp
  have res: "0 \<le> ?u mod ?r" "?u mod ?r < ?r" using mod_range[of ?r ?u] r by linarith+
  have bk: "to_double (lo + ?u mod ?r) = lo + ?u mod ?r" "to_double (?u mod ?r) = ?u mod ?r"
    by (rule to_double_id; use res assms in linarith)+
  have lim: "ONE_STEP_RANGE = 2 ^ 21" "HORNER_RANGE = 2 ^ 37" "TWO_32 = 2 ^ 32" "(0x10000 :: int) = 2 ^ 16"
    by (simp_all add: ONE_STEP_RANGE_def HORNER_RANGE_def TWO_32_def)
  have limbs: "js_ushr oLo 16 = oLo div 2 ^ 16" using js_ushr_div[of oLo 16] o(2) by (simp add: half_def)
  have big: "(if ?r \<le> MAX_SAFE_INTEGER then ?r else hi - lo + 1) = ?r" by simp
  consider "?r \<le> 2 ^ 21" | "\<not> ?r \<le> 2 ^ 21" "?r \<le> 2 ^ 37" | "\<not> ?r \<le> 2 ^ 21" "\<not> ?r \<le> 2 ^ 37" by blast
  then show ?thesis
  proof cases
    case 1
    then have "modSmall (modSmall oHi ?r * 2 ^ 32 + oLo) ?r = ?u mod ?r"
      using one_step_mod[OF o(1,2), of ?r] r o(3) by simp
    then show ?thesis using 1 r bk unfolding prng_nextInt_def prod.case option.case Let_def unfolding range a prod.case lim by simp
  next
    case 2
    then have "modSmall (modSmall (modSmall oHi ?r * 2 ^ 16 + oLo div 2 ^ 16) ?r * 2 ^ 16 + oLo mod 2 ^ 16) ?r = ?u mod ?r"
      using horner_mod[OF o(1,2), of ?r] r o(3) by simp
    then show ?thesis using 2 r bk limbs js_and_ffff[of oLo] unfolding prng_nextInt_def prod.case option.case Let_def unfolding range a prod.case lim by simp
  next
    case 3
    then show ?thesis using r bk o(4) unfolding prng_nextInt_def prod.case option.case Let_def unfolding range a prod.case big lim by simp
  qed
qed

section \<open>Properties\<close>

text \<open>
  C9. The generator has full period: of the first \<open>2^64\<close> draws of \<open>nextBigInt\<close> from any seed, every
  64-bit value is drawn exactly once. The multiplication in 16-bit limbs and the shifts across the two
  halves compute SplitMix64 on 64-bit words, whose increment is odd and whose mixer is a permutation.
\<close>

theorem prng_full_period:
  "bij_betw (\<lambda>n. fst (prng_nextBigInt (((\<lambda>p. snd (prng_nextBigInt p)) ^^ n) (prng_make s))))
     {..<2 ^ 64} {0..<2 ^ 64}"
proof -
  let ?f = "\<lambda>n. sm_mix (word_of_int s + of_nat n * sm_gamma + sm_gamma)"
  have out: "fst (prng_nextBigInt (((\<lambda>p. snd (prng_nextBigInt p)) ^^ n) (prng_make s))) = uint (?f n)" for n
    using prng_nextBigInt_at[OF prng_steps_at[OF prng_make_at]] by simp
  have u: "sm_gamma * 0xf1de83e19937733d = 1" by (simp add: sm_gamma_def)
  have inj: "inj_on ?f {..<2 ^ 64}"
  proof (rule inj_onI)
    fix a b :: nat assume ab: "a \<in> {..<2 ^ 64}" "b \<in> {..<2 ^ 64}" "?f a = ?f b"
    then have "(of_nat a :: 64 word) * sm_gamma = of_nat b * sm_gamma"
      using injD[OF bij_is_inj[OF sm_mix_bij] ab(3)] by simp
    then have "(of_nat a :: 64 word) = of_nat b" by (rule mult_unit_inj[OF u])
    then have "unat (of_nat a :: 64 word) = unat (of_nat b :: 64 word)" by simp
    then show "a = b" using ab(1,2) by (simp add: unat_of_nat)
  qed
  have lt: "uint w < 2 ^ 64" for w :: "64 word" using uint_lt2p[of w] by simp
  have "card (?f ` {..<2 ^ 64}) = card (UNIV :: 64 word set)" using card_image[OF inj] by (simp add: card_word)
  then have "?f ` {..<2 ^ 64} = UNIV" by (intro card_subset_eq) auto
  then have "bij_betw ?f {..<2 ^ 64} UNIV" using inj by (simp add: bij_betw_def)
  moreover have "bij_betw (uint :: 64 word \<Rightarrow> int) UNIV {0..<2 ^ 64}"
    by (rule bij_betw_byWitness[of _ word_of_int]) (use lt in \<open>auto simp: uint_word_of_int\<close>)
  ultimately have "bij_betw (uint \<circ> ?f) {..<2 ^ 64} {0..<2 ^ 64}" by (rule bij_betw_trans)
  then show ?thesis by (simp add: out comp_def)
qed

text \<open>
  C18. \<open>nextInt\<close> on safe bounds returns \<open>min\<close> plus the exact remainder of the 64-bit draw by the range,
  hence a value within the bounds, on all three reduction paths; the divisions of doubles round to the
  right floor.
\<close>

theorem prng_nextInt_exact:
  assumes "lo < hi" "\<bar>lo\<bar> < 2 ^ 53" "\<bar>hi\<bar> < 2 ^ 53" "hi - lo < 2 ^ 53"
  shows "let p = ((\<lambda>p. snd (prng_nextBigInt p)) ^^ n) (prng_make s); r = lo + fst (prng_nextBigInt p) mod (hi - lo + 1)
    in prng_nextInt p (Some lo) (Some hi) = (Inr r, snd (prng_nextBigInt p)) \<and> lo \<le> r \<and> r \<le> hi"
proof -
  let ?p = "((\<lambda>p. snd (prng_nextBigInt p)) ^^ n) (prng_make s)"
  obtain w where w: "prng_at ?p w" using prng_steps_at[OF prng_make_at] by blast
  have "0 \<le> fst (prng_nextBigInt ?p) mod (hi - lo + 1)" "fst (prng_nextBigInt ?p) mod (hi - lo + 1) \<le> hi - lo"
    using mod_range[of "hi - lo + 1" "fst (prng_nextBigInt ?p)"] assms(1) by linarith+
  moreover have "snd (prng_advance ?p) = snd (prng_nextBigInt ?p)" by (simp add: prng_nextBigInt_def case_prod_beta)
  ultimately show ?thesis
    using prng_nextInt_ok[OF w assms] prng_nextBigInt_at[OF w] unfolding Let_def by simp
qed

theorem prng_nextInt_exact_witness:
  "fst (prng_nextInt (prng_make 0) (Some 1) (Some 6)) = Inr (1 + fst (prng_nextBigInt (prng_make 0)) mod 6)"
  using prng_nextInt_exact[of 1 6 0 0] by (simp add: Let_def)

lemma to_double_nonpos: "x \<le> 0 \<Longrightarrow> to_double x \<le> 0"
  unfolding to_double_def Let_def by (cases "x = 0") (simp_all add: sgn_if)

text \<open>
  \<open>nextInt\<close> with a bound that is not an integer throws \<open>RangeError\<close> whatever the other bound, and
  an empty or one-value range returns \<open>min\<close>; neither advances the generator.
\<close>

theorem prng_nextInt_guards:
  assumes "hi \<le> lo"
  shows "prng_nextInt p None b = (Inl RangeError, p) \<and> prng_nextInt p a None = (Inl RangeError, p) \<and>
    prng_nextInt p (Some lo) (Some hi) = (Inr lo, p)"
proof -
  have "to_double (hi - lo) + 1 \<le> 1" using to_double_nonpos[of "hi - lo"] assms by simp
  then have "to_double (to_double (hi - lo) + 1) \<le> 1"
    using to_double_nonpos[of "to_double (hi - lo) + 1"] to_double_id[of 1]
    by (cases "to_double (hi - lo) + 1 = 1") auto
  then show ?thesis by (auto simp: prng_nextInt_def Let_def split: option.splits)
qed

theorem prng_nextInt_guards_witness:
  "prng_nextInt (prng_make 7) (Some 5) (Some 3) = (Inr 5, prng_make 7) \<and>
   fst (prng_nextInt (prng_make 7) None (Some 3)) = Inl RangeError"
  using prng_nextInt_guards[of 3 5 "prng_make 7" "Some 3" None] by simp

end
