(* ===== verification/BitSet.thy ===== *)
theory BitSet
  imports JsPrelude
begin

text \<open>
  \<open>src/src/BitSet.ts\<close>: bits packed in a \<open>Uint32Array\<close>, whose elements are \<^typ>\<open>32 word\<close>s. The operators
  \<open>&\<close>, \<open>|\<close>, \<open>^\<close>, \<open>~\<close> and \<open>>>>\<close> of the code act on 32 bits, the sums of the population count stay
  below \<open>2^32\<close>, and what is stored is taken modulo \<open>2^32\<close>; so words are what the code computes with. The
  one product, which goes beyond 32 bits, is an \<^typ>\<open>int\<close>. An index or capacity is an \<^typ>\<open>int\<close> option
  (\<^term>\<open>None\<close>: not an integer).
\<close>

section \<open>The code\<close>

record bitset =
  bsBits :: "32 word list"
  bsLength :: int

definition popcount32 :: "32 word \<Rightarrow> int" where
  "popcount32 v =
     (let v1 = v - (drop_bit 1 v AND 0x55555555);
          v2 = (v1 AND 0x33333333) + (drop_bit 2 v1 AND 0x33333333)
      in js_ushr (uint ((v2 + drop_bit 4 v2) AND 0x0f0f0f0f) * 0x01010101) 24)"

definition bs_make :: "int option \<Rightarrow> bitset outcome" where
  "bs_make capacity =
     (case capacity of None \<Rightarrow> Inl RangeError
      | Some c \<Rightarrow> if c < 1 \<or> to_int32 c \<noteq> c then Inl RangeError
                  else Inr \<lparr>bsBits = replicate (nat ((c + 31) div 32)) 0, bsLength = c\<rparr>)"

definition bs_checkBounds :: "bitset \<Rightarrow> int option \<Rightarrow> int outcome" where
  "bs_checkBounds bs i =
     (case i of None \<Rightarrow> Inl RangeError
      | Some i \<Rightarrow> if i < 0 \<or> i \<ge> bsLength bs \<or> to_int32 i \<noteq> i then Inl RangeError else Inr i)"

definition bs_word :: "int \<Rightarrow> nat" where
  "bs_word i = nat (js_ushr i 5)"

definition bs_bit :: "int \<Rightarrow> 32 word" where
  "bs_bit i = push_bit (nat (js_and i 31)) 1"

definition bs_set :: "bitset \<Rightarrow> int option \<Rightarrow> unit outcome \<times> bitset" where
  "bs_set bs i0 = (case bs_checkBounds bs i0 of Inl e \<Rightarrow> (Inl e, bs)
     | Inr i \<Rightarrow> (Inr (), bs\<lparr>bsBits := (bsBits bs)[bs_word i := bsBits bs ! bs_word i OR bs_bit i]\<rparr>))"

definition bs_clear :: "bitset \<Rightarrow> int option \<Rightarrow> unit outcome \<times> bitset" where
  "bs_clear bs i0 = (case bs_checkBounds bs i0 of Inl e \<Rightarrow> (Inl e, bs)
     | Inr i \<Rightarrow> (Inr (), bs\<lparr>bsBits := (bsBits bs)[bs_word i := bsBits bs ! bs_word i AND NOT (bs_bit i)]\<rparr>))"

definition bs_toggle :: "bitset \<Rightarrow> int option \<Rightarrow> unit outcome \<times> bitset" where
  "bs_toggle bs i0 = (case bs_checkBounds bs i0 of Inl e \<Rightarrow> (Inl e, bs)
     | Inr i \<Rightarrow> (Inr (), bs\<lparr>bsBits := (bsBits bs)[bs_word i := bsBits bs ! bs_word i XOR bs_bit i]\<rparr>))"

definition bs_get :: "bitset \<Rightarrow> int option \<Rightarrow> bool outcome" where
  "bs_get bs i0 = (case bs_checkBounds bs i0 of Inl e \<Rightarrow> Inl e
     | Inr i \<Rightarrow> Inr (drop_bit (nat (js_and i 31)) (bsBits bs ! bs_word i) AND 1 = 1))"

definition bs_capacity :: "bitset \<Rightarrow> int" where
  "bs_capacity bs = bsLength bs"

text \<open>The mask of the last word.\<close>

definition bs_lastMask :: "bitset \<Rightarrow> 32 word" where
  "bs_lastMask bs = (let rem = js_and (bsLength bs) 31
     in if rem = 0 then 0xffffffff else push_bit (nat rem) 1 - 1)"

definition bs_popcount :: "bitset \<Rightarrow> int" where
  "bs_popcount bs = (let bits = bsBits bs; len = length bits
     in foldl (\<lambda>count v. count + popcount32 v) 0 (take (len - 1) bits)
        + popcount32 (bits ! (len - 1) AND bs_lastMask bs))"

text \<open>\<open>word & -word\<close> is the lowest set bit.\<close>

lemma odd_and_minus:
  fixes u :: "32 word"
  assumes "odd u"
  shows "u AND - u = 1"
proof -
  have "NOT u AND 1 = 0" using assms by (simp add: and_one_eq even_not_iff flip: even_iff_mod_2_eq_zero)
  then have "- u = NOT u OR 1" by (simp add: minus_eq_not_plus_1 disjunctive_add_eq_or)
  then have m: "- u = NOT u OR 1" .
  show ?thesis
  proof (rule bit_word_eqI)
    fix n assume "n < LENGTH(32)"
    then show "bit (u AND - u) n = bit (1 :: 32 word) n" unfolding m using assms
      by (cases "n = 0") (simp_all add: bit_and_iff bit_or_iff bit_not_iff bit_1_iff bit_0 even_and_iff even_or_iff)
  qed
qed

lemma lsb_word:
  fixes w :: "32 word"
  assumes "w \<noteq> 0"
  shows "\<exists>k<32. bit w k \<and> (\<forall>j<k. \<not> bit w j) \<and> w AND - w = push_bit k 1"
proof -
  obtain i where "bit w i" using assms bit_eq_iff[of w 0] by auto
  define k where "k = (LEAST j. bit w j)"
  have k: "bit w k" "\<And>j. j < k \<Longrightarrow> \<not> bit w j"
    unfolding k_def by (rule LeastI[of "bit w", OF \<open>bit w i\<close>], rule not_less_Least)
  have k32: "k < 32" using bit_imp_le_length[OF k(1)] by simp
  obtain u where u: "w = push_bit k u" "odd u"
  proof
    show "w = push_bit k (drop_bit k w)"
    proof (rule bit_word_eqI)
      fix n assume "n < LENGTH(32)"
      then show "bit w n = bit (push_bit k (drop_bit k w)) n"
        using k(2)[of n] by (cases "k \<le> n") (auto simp: bit_push_bit_iff bit_drop_bit_eq)
    qed
    show "odd (drop_bit k w)" using k(1) by (simp add: bit_0[symmetric] bit_drop_bit_eq)
  qed
  have "w AND - w = push_bit k (u AND - u)" by (simp only: u(1) push_bit_minus push_bit_and)
  then have "w AND - w = push_bit k 1" by (simp only: odd_and_minus[OF u(2)])
  then show ?thesis using k k32 by blast
qed

lemma clear_lsb_bit:
  fixes w :: "32 word"
  assumes "w AND - w = push_bit k 1" "bit w k"
  shows "bit (w XOR (w AND - w)) i = (bit w i \<and> i \<noteq> k)"
  unfolding assms(1) using assms(2) bit_imp_le_length[of w i]
  by (auto simp: bit_xor_iff bit_exp_iff)

lemma clear_lsb_less:
  fixes w :: "32 word"
  assumes "w \<noteq> 0"
  shows "unat (w XOR (w AND - w)) < unat w"
proof -
  let ?v = "w XOR (w AND - w)"
  obtain k where k: "bit w k" "w AND - w = push_bit k 1" using lsb_word[OF assms] by blast
  have b: "bit ?v i = (bit w i \<and> i \<noteq> k)" for i by (rule clear_lsb_bit[OF k(2,1)])
  have "?v = ?v AND w" by (rule bit_word_eqI) (use b in \<open>auto simp: bit_and_iff\<close>)
  then have "?v \<le> w" using word_and_le1[of ?v w] by simp
  moreover have "?v \<noteq> w" using b[of k] k(1) by metis
  ultimately have "?v < w" by (rule order.not_eq_order_implies_strict[rotated])
  then show ?thesis by (simp add: word_less_nat_alt)
qed

text \<open>The inner loop of \<open>toArray\<close>: lowest set bit first, written at \<open>result[j++]\<close>.\<close>

function bs_extract :: "int \<Rightarrow> 32 word \<Rightarrow> int option list \<times> int \<Rightarrow> int option list \<times> int" where
  "bs_extract base w (result, j) =
     (if w = 0 then (result, j)
      else let lsb = w AND - w
           in bs_extract base (w XOR lsb) (js_put result j (Some (base + (31 - js_clz32 (uint lsb)))), j + 1))"
  by pat_completeness auto
termination by (relation "measure (\<lambda>(base, w, _). unat w)") (auto simp: clear_lsb_less)

declare bs_extract.simps [simp del]

fun bs_words_loop :: "bitset \<Rightarrow> nat \<Rightarrow> 32 word list \<Rightarrow> int option list \<times> int \<Rightarrow> int option list \<times> int" where
  "bs_words_loop bs i [] st = st"
| "bs_words_loop bs i (v # vs) st =
     (let word = (if vs = [] then v AND bs_lastMask bs else v)
      in bs_words_loop bs (Suc i) vs (bs_extract (js_shl (int i) 5) word st))"

definition bs_toArray :: "bitset \<Rightarrow> int option list" where
  "bs_toArray bs = fst (bs_words_loop bs 0 (bsBits bs) (replicate (nat (bs_popcount bs)) None, 0))"

definition bs_checkSameCapacity :: "bitset \<Rightarrow> bitset \<Rightarrow> unit outcome" where
  "bs_checkSameCapacity a b = (if bsLength a \<noteq> bsLength b then Inl RangeError else Inr ())"

definition bs_makeFromBits :: "int \<Rightarrow> 32 word list \<Rightarrow> bitset" where
  "bs_makeFromBits capacity bits = \<lparr>bsBits = bits, bsLength = capacity\<rparr>"

definition bs_and :: "bitset \<Rightarrow> bitset \<Rightarrow> bitset outcome" where
  "bs_and a b = (case bs_checkSameCapacity a b of Inl e \<Rightarrow> Inl e
     | Inr _ \<Rightarrow> Inr (bs_makeFromBits (bsLength a)
         (map (\<lambda>w. bsBits a ! w AND bsBits b ! w) [0..<length (bsBits a)])))"

definition bs_or :: "bitset \<Rightarrow> bitset \<Rightarrow> bitset outcome" where
  "bs_or a b = (case bs_checkSameCapacity a b of Inl e \<Rightarrow> Inl e
     | Inr _ \<Rightarrow> Inr (bs_makeFromBits (bsLength a)
         (map (\<lambda>w. bsBits a ! w OR bsBits b ! w) [0..<length (bsBits a)])))"

definition bs_xor :: "bitset \<Rightarrow> bitset \<Rightarrow> bitset outcome" where
  "bs_xor a b = (case bs_checkSameCapacity a b of Inl e \<Rightarrow> Inl e
     | Inr _ \<Rightarrow> Inr (bs_makeFromBits (bsLength a)
         (map (\<lambda>w. bsBits a ! w XOR bsBits b ! w) [0..<length (bsBits a)])))"

definition bs_not :: "bitset \<Rightarrow> bitset" where
  "bs_not a = (let ra = bsBits a; n = length ra; rc = map (\<lambda>w. NOT (ra ! w)) [0..<n]
     in bs_makeFromBits (bsLength a) (rc[n - 1 := rc ! (n - 1) AND bs_lastMask a]))"
section \<open>Population count\<close>

text \<open>The three byte steps, which the word computes for its four bytes at once.\<close>

definition byte1 :: "int \<Rightarrow> int" where "byte1 a = a - ((a div 2) AND 0x55)"
definition byte2 :: "int \<Rightarrow> int" where "byte2 a = (a AND 0x33) + ((a div 4) AND 0x33)"
definition byte3 :: "int \<Rightarrow> int" where "byte3 a = (a + a div 16) AND 0x0f"

definition bit_count :: "nat \<Rightarrow> int \<Rightarrow> nat" where
  "bit_count n a = length (filter (bit a) [0..<n])"

lemma byte_table:
  "list_all (\<lambda>a. byte3 (byte2 (byte1 a)) = int (bit_count 8 a) \<and> 0 \<le> byte1 a \<and> byte1 a < 256 \<and>
     byte2 (byte1 a) mod 16 \<le> 4 \<and> byte2 (byte1 a) div 16 \<le> 4 \<and> 0 \<le> byte2 (byte1 a)) [0..255]"
  by code_simp

lemma byte_steps:
  assumes "0 \<le> a" "a < 256"
  shows "byte3 (byte2 (byte1 a)) = int (bit_count 8 a)" "0 \<le> byte1 a" "byte1 a < 256"
    "byte2 (byte1 a) mod 16 \<le> 4" "byte2 (byte1 a) div 16 \<le> 4" "0 \<le> byte2 (byte1 a)"
proof -
  have "a \<in> set [0..255]" using assms by simp
  then show "byte3 (byte2 (byte1 a)) = int (bit_count 8 a)" "0 \<le> byte1 a" "byte1 a < 256"
    "byte2 (byte1 a) mod 16 \<le> 4" "byte2 (byte1 a) div 16 \<le> 4" "0 \<le> byte2 (byte1 a)"
    using byte_table unfolding list_all_iff by blast+
qed

text \<open>\<open>AND\<close> acts on the low byte and on the rest.\<close>

lemma and_bytes:
  fixes a b x y :: int
  assumes "0 \<le> a" "a < 256" "0 \<le> b" "b < 256"
  shows "(a + 256 * x) AND (b + 256 * y) = (a AND b) + 256 * (x AND y)"
proof -
  have or: "c + 256 * z = c OR push_bit 8 z" if "0 \<le> c" "c < 256" for c z :: int
  proof -
    have t: "take_bit 8 c = c" using that by (simp add: take_bit_int_eq_self)
    have "\<not> bit c i" if "8 \<le> i" for i using bit_take_bit_iff[of 8 c i] that unfolding t by simp
    then have "c AND push_bit 8 z = 0" by (auto simp: bit_eq_iff bit_and_iff bit_push_bit_iff)
    then have "c + push_bit 8 z = c OR push_bit 8 z" by (rule disjunctive_add_eq_or)
    then show ?thesis by (simp add: push_bit_eq_mult mult.commute)
  qed
  have ab: "0 \<le> a AND b" "a AND b < 256" using assms AND_upper1[of a b] by auto
  have hi: "8 \<le> i \<Longrightarrow> \<not> bit c i" if "0 \<le> c" "c < 256" for c :: int and i
    using bit_take_bit_iff[of 8 c i] that by (simp add: take_bit_int_eq_self)
  show ?thesis unfolding or[OF assms(1,2)] or[OF assms(3,4)] or[OF ab]
    using hi[OF assms(1,2)] hi[OF assms(3,4)]
    by (auto simp: bit_eq_iff bit_and_iff bit_or_iff bit_push_bit_iff)
qed

lemma shift_masked:
  assumes "list_all (\<lambda>a. list_all (\<lambda>c. (a div d + e * c) AND m = (a div d) AND m \<and> 0 \<le> a div d + e * c
      \<and> a div d + e * c < 256) [0..d - 1]) [0..255]" "d * e = 256" "0 < d" "0 \<le> m" "m < 256"
    "0 \<le> a" "a < (256 :: int)"
  shows "((a + 256 * x) div d) AND (m + 256 * y) = ((a div d) AND m) + 256 * ((x div d) AND y)"
proof -
  have e: "(a + 256 * x) div d = (a div d + e * (x mod d)) + 256 * (x div d)"
  proof -
    have "a + 256 * x = a + d * (e * (x mod d) + e * (d * (x div d)))"
      using assms(2) mod_mult_div_eq[of x d] by (metis distrib_left mult.assoc)
    then show ?thesis using assms(2,3) by (simp add: mult.assoc[symmetric] mult.commute[of e d])
  qed
  have "a \<in> set [0..255]" "x mod d \<in> set [0..d - 1]" using assms(3,6,7) pos_mod_bound[of d x] by auto
  then have t: "(a div d + e * (x mod d)) AND m = (a div d) AND m" "0 \<le> a div d + e * (x mod d)"
    "a div d + e * (x mod d) < 256"
    using assms(1) unfolding list_all_iff by blast+
  show ?thesis unfolding e and_bytes[OF t(2,3) assms(4,5)] t(1) ..
qed
text \<open>The word as its bytes, lowest first.\<close>

fun bytes_val :: "int list \<Rightarrow> int" where
  "bytes_val [] = 0"
| "bytes_val (a # as) = a + 256 * bytes_val as"

definition byte :: "int \<Rightarrow> bool" where
  "byte a \<longleftrightarrow> 0 \<le> a \<and> a < 256"

lemma step1_bytes:
  "list_all byte as \<Longrightarrow> n = length as \<Longrightarrow>
    bytes_val as - ((bytes_val as div 2) AND bytes_val (replicate n 0x55)) = bytes_val (map byte1 as)"
proof (induction as arbitrary: n)
  case (Cons a as)
  have t: "list_all (\<lambda>a. list_all (\<lambda>c. (a div 2 + 128 * c) AND 0x55 = (a div 2) AND 0x55 \<and> 0 \<le> a div 2 + 128 * c
      \<and> a div 2 + 128 * c < 256) [0..2 - 1]) [0..255 :: int]" by code_simp
  obtain k where k: "n = Suc k" "k = length as" using Cons.prems by auto
  have "((a + 256 * bytes_val as) div 2) AND (0x55 + 256 * bytes_val (replicate k 0x55))
      = ((a div 2) AND 0x55) + 256 * ((bytes_val as div 2) AND bytes_val (replicate k 0x55))"
    by (rule shift_masked[OF t]) (use Cons.prems in \<open>auto simp: byte_def\<close>)
  then show ?case using Cons.IH[OF _ k(2)] Cons.prems k(1) by (simp add: byte1_def algebra_simps)
qed simp

lemma step2_bytes:
  "list_all byte as \<Longrightarrow> n = length as \<Longrightarrow>
    (bytes_val as AND bytes_val (replicate n 0x33)) + ((bytes_val as div 4) AND bytes_val (replicate n 0x33))
    = bytes_val (map byte2 as)"
proof (induction as arbitrary: n)
  case (Cons a as)
  have t: "list_all (\<lambda>a. list_all (\<lambda>c. (a div 4 + 64 * c) AND 0x33 = (a div 4) AND 0x33 \<and> 0 \<le> a div 4 + 64 * c
      \<and> a div 4 + 64 * c < 256) [0..4 - 1]) [0..255 :: int]" by code_simp
  obtain k where k: "n = Suc k" "k = length as" using Cons.prems by auto
  have "((a + 256 * bytes_val as) div 4) AND (0x33 + 256 * bytes_val (replicate k 0x33))
      = ((a div 4) AND 0x33) + 256 * ((bytes_val as div 4) AND bytes_val (replicate k 0x33))"
    by (rule shift_masked[OF t]) (use Cons.prems in \<open>auto simp: byte_def\<close>)
  moreover have "(a + 256 * bytes_val as) AND (0x33 + 256 * bytes_val (replicate k 0x33))
      = (a AND 0x33) + 256 * (bytes_val as AND bytes_val (replicate k 0x33))"
    by (rule and_bytes) (use Cons.prems in \<open>auto simp: byte_def\<close>)
  ultimately show ?case using Cons.IH[OF _ k(2)] Cons.prems k(1) by (simp add: byte2_def algebra_simps)
qed simp

definition small_nibbles :: "int \<Rightarrow> bool" where
  "small_nibbles a \<longleftrightarrow> 0 \<le> a \<and> a mod 16 \<le> 4 \<and> a div 16 \<le> 4"

lemma bytes_low_nibble: "list_all small_nibbles as \<Longrightarrow> 0 \<le> bytes_val as mod 16 \<and> bytes_val as mod 16 \<le> 4"
proof (cases as)
  case (Cons b bs)
  assume "list_all small_nibbles as"
  then have "b mod 16 \<le> 4" using Cons by (simp add: small_nibbles_def)
  moreover have "(b + 256 * bytes_val bs) mod 16 = b mod 16"
    using mod_mult_self2[of b 16 "16 * bytes_val bs"] by simp
  ultimately show ?thesis using Cons by simp
qed simp

lemma and_15: "(a :: int) AND 15 = a mod 16"
  using take_bit_eq_mask[of 4 a] by (simp add: take_bit_eq_mod mask_eq_exp_minus_1)

lemma carry_split:
  fixes a d x q r y :: int
  assumes "y = d + 16 * x" "x = 16 * q + r"
  shows "(a + 256 * x) + y = (a + d + 16 * r) + 256 * (x + q)"
  using assms by simp

lemma step3_bytes:
  "list_all small_nibbles as \<Longrightarrow> n = length as \<Longrightarrow>
    (bytes_val as + bytes_val as div 16) AND bytes_val (replicate n 0x0f) = bytes_val (map byte3 as)"
proof (induction as arbitrary: n)
  case (Cons a as)
  obtain k where k: "n = Suc k" "k = length as" using Cons.prems by auto
  let ?x = "bytes_val as"
  have x: "0 \<le> ?x mod 16" "?x mod 16 \<le> 4" using bytes_low_nibble[of as] Cons.prems(1) by auto
  have a: "0 \<le> a" "a mod 16 \<le> 4" "a div 16 \<le> 4" using Cons.prems(1) by (auto simp: small_nibbles_def)
  then have "a = 16 * (a div 16) + a mod 16" "0 \<le> a div 16" "0 \<le> a mod 16" by simp_all
  then have lo: "0 \<le> a + a div 16 + 16 * (?x mod 16)" "a + a div 16 + 16 * (?x mod 16) < 256"
    using a x by linarith+
  have "(a + 256 * ?x) div 16 = a div 16 + 16 * ?x" using div_mult_self2[of 16 a "16 * ?x"] by simp
  moreover have "?x = 16 * (?x div 16) + ?x mod 16" by simp
  ultimately have eq: "(a + 256 * ?x) + (a + 256 * ?x) div 16 = (a + a div 16 + 16 * (?x mod 16)) + 256 * (?x + ?x div 16)"
    by (rule carry_split)
  have "((a + 256 * ?x) + (a + 256 * ?x) div 16) AND (0x0f + 256 * bytes_val (replicate k 0x0f))
      = ((a + a div 16 + 16 * (?x mod 16)) AND 0x0f) + 256 * ((?x + ?x div 16) AND bytes_val (replicate k 0x0f))"
    unfolding eq by (rule and_bytes[OF lo]) simp_all
  moreover have "(a + a div 16 + 16 * (?x mod 16)) AND 0x0f = byte3 a"
    unfolding byte3_def and_15 by (rule mod_mult_self2)
  ultimately show ?case using Cons.IH[OF _ k(2)] Cons.prems k(1) by simp
qed simp

lemma bit_count_bytes:
  assumes "byte a"
  shows "bit_count (8 + n) (a + 256 * x) = bit_count 8 a + bit_count n x"
proof -
  have b: "bit (a + 256 * x) i = (if i < 8 then bit a i else bit x (i - 8))" for i
  proof -
    have t: "take_bit 8 (a + 256 * x) = a" "drop_bit 8 (a + 256 * x) = x"
      using assms by (simp_all add: take_bit_eq_mod drop_bit_eq_div byte_def)
    show ?thesis
      using bit_take_bit_iff[of 8 "a + 256 * x" i] bit_drop_bit_eq[of 8 "a + 256 * x"]
      unfolding t by (auto simp: fun_eq_iff dest: spec[of _ "i - 8"])
  qed
  have "[0..<8 + n] = [0..<8] @ map (\<lambda>i. i + 8) [0..<n]"
    using upt_add_eq_append[of 0 8 n] map_add_upt[of 8 n] by (simp add: add.commute)
  moreover have "filter (bit (a + 256 * x)) [0..<8] = filter (bit a) [0..<8]" by (rule filter_cong) (auto simp: b)
  moreover have "filter (bit (a + 256 * x)) (map (\<lambda>i. i + 8) [0..<n]) = map (\<lambda>i. i + 8) (filter (bit x) [0..<n])"
    by (simp add: filter_map comp_def b)
  ultimately show ?thesis unfolding bit_count_def by (simp only: filter_append length_append length_map)
qed

lemma bit_count_val:
  "list_all byte as \<Longrightarrow> int (bit_count (8 * length as) (bytes_val as)) = (\<Sum>a\<leftarrow>as. int (bit_count 8 a))"
proof (induction as)
  case (Cons a as)
  then show ?case using bit_count_bytes[of a "8 * length as" "bytes_val as"] by simp
qed (simp add: bit_count_def)

lemma multiply_sum:
  fixes a b c d :: int
  assumes "0 \<le> a" "a \<le> 8" "0 \<le> b" "b \<le> 8" "0 \<le> c" "c \<le> 8" "0 \<le> d" "d \<le> 8"
  shows "(bytes_val [a, b, c, d] * 0x01010101) mod 2 ^ 32 div 2 ^ 24 = a + b + c + d"
proof -
  let ?l = "a + 256 * (a + b) + 65536 * (a + b + c)" and ?h = "b + c + d + 256 * (c + d) + 65536 * d"
  have "bytes_val [a, b, c, d] * 0x01010101 = (?l + 2 ^ 24 * (a + b + c + d)) + ?h * 2 ^ 32"
    by simp
  then have "(bytes_val [a, b, c, d] * 0x01010101) mod 2 ^ 32 = (?l + 2 ^ 24 * (a + b + c + d)) mod 2 ^ 32"
    by (simp only: mod_mult_self1)
  also have "\<dots> = ?l + 2 ^ 24 * (a + b + c + d)" by (rule mod_pos_pos_trivial) (use assms in simp_all)
  also have "\<dots> div 2 ^ 24 = a + b + c + d"
  proof -
    have "0 \<le> ?l" "?l < 2 ^ 24" using assms by simp_all
    then have "(2 ^ 24 * (a + b + c + d) + ?l) div 2 ^ 24 = a + b + c + d"
      by (simp add: div_pos_pos_trivial)
    then show ?thesis by (simp only: add.commute)
  qed
  finally show ?thesis .
qed
definition wbits :: "32 word \<Rightarrow> nat list" where
  "wbits w = filter (bit w) [0..<32]"

lemma uint_drop: "uint (drop_bit n w) = uint w div 2 ^ n" for w :: "32 word"
proof -
  have "uint (drop_bit n w) = drop_bit n (take_bit 32 (uint w))" by (simp add: unsigned_drop_bit_eq)
  also have "take_bit 32 (uint w) = uint w" using uint_lt2p[of w] by (simp add: take_bit_int_eq_self)
  finally show ?thesis by (simp only: drop_bit_eq_div)
qed

lemma popcount_word1:
  fixes v :: "32 word"
  assumes "y = uint v - ((uint v div 2) AND 0x55555555)" "0 \<le> y \<and> y < 2 ^ 32"
  shows "uint (v - (drop_bit 1 v AND 0x55555555)) = y"
proof -
  have "uint (drop_bit 1 v AND 0x55555555) = (uint v div 2) AND 0x55555555"
    unfolding uint_and uint_drop by simp
  then have "uint (v - (drop_bit 1 v AND 0x55555555)) = y mod 2 ^ 32"
    unfolding uint_word_ariths assms(1) by simp
  then show ?thesis using assms(2) by simp
qed

lemma popcount_word2:
  fixes v :: "32 word"
  assumes "y = (uint v AND 0x33333333) + ((uint v div 4) AND 0x33333333)" "0 \<le> y \<and> y < 2 ^ 32"
  shows "uint ((v AND 0x33333333) + (drop_bit 2 v AND 0x33333333)) = y"
proof -
  have "uint (drop_bit 2 v AND 0x33333333) = (uint v div 4) AND 0x33333333"
    "uint (v AND 0x33333333) = uint v AND 0x33333333"
    unfolding uint_and uint_drop by simp_all
  then have "uint ((v AND 0x33333333) + (drop_bit 2 v AND 0x33333333)) = y mod 2 ^ 32"
    unfolding uint_word_ariths assms(1) by simp
  then show ?thesis using assms(2) by simp
qed

lemma popcount_word3:
  fixes v :: "32 word"
  assumes "y = (uint v + uint v div 16) AND 0x0f0f0f0f"
  shows "uint ((v + drop_bit 4 v) AND 0x0f0f0f0f) = y"
proof -
  have "uint (v + drop_bit 4 v) = take_bit 32 (uint v + uint v div 16)"
    unfolding uint_word_ariths uint_drop by (simp add: take_bit_eq_mod)
  then have "uint ((v + drop_bit 4 v) AND 0x0f0f0f0f) = take_bit 32 (uint v + uint v div 16) AND take_bit 32 0x0f0f0f0f"
    unfolding uint_and by simp
  also have "\<dots> = take_bit 32 y" unfolding assms take_bit_and ..
  also have "\<dots> = y"
  proof (rule take_bit_int_eq_self)
    show "0 \<le> y" unfolding assms by simp
    have "(uint v + uint v div 16) AND 0x0f0f0f0f \<le> 0x0f0f0f0f" by (rule AND_upper2) simp
    then show "y < 2 ^ 32" unfolding assms by simp
  qed
  finally show ?thesis .
qed

lemma popcount32_ok: "popcount32 v = int (length (wbits v))"
proof -
  let ?u = "uint v"
  define as where "as = [?u mod 256, ?u div 256 mod 256, ?u div 65536 mod 256, ?u div 16777216]"
  have u: "0 \<le> ?u" "?u < 2 ^ 32" using uint_lt2p[of v] by simp_all
  have val: "bytes_val as = ?u"
  proof -
    have "?u div 65536 = ?u div 256 div 256" "?u div 16777216 = ?u div 256 div 256 div 256"
      by (simp_all add: zdiv_zmult2_eq[symmetric])
    then show ?thesis unfolding as_def
      using div_mult_mod_eq[of ?u 256] div_mult_mod_eq[of "?u div 256" 256] div_mult_mod_eq[of "?u div 256 div 256" 256]
      by simp
  qed
  have b: "list_all byte as" using u by (auto simp: as_def byte_def pos_imp_zdiv_nonneg_iff)
  let ?as1 = "map byte1 as" and ?as2 = "map byte2 (map byte1 as)" and ?as3 = "map byte3 (map byte2 (map byte1 as))"
  have b1: "list_all byte ?as1" using b byte_steps(2,3) by (auto simp: list_all_iff byte_def)
  have b2: "list_all small_nibbles ?as2" using b byte_steps(4-6) by (auto simp: list_all_iff byte_def small_nibbles_def)
  have n: "length as = 4" by (simp add: as_def)
  have m: "bytes_val (replicate 4 0x55) = 0x55555555" "bytes_val (replicate 4 0x33) = 0x33333333"
      "bytes_val (replicate 4 0x0f) = 0x0f0f0f0f" by code_simp+
  have bnd: "0 \<le> bytes_val xs \<and> bytes_val xs < 2 ^ 32" if "list_all byte xs" "length xs = 4" for xs
  proof -
    obtain p q r s where "xs = [p, q, r, s]" using \<open>length xs = 4\<close> by (auto simp: length_Suc_conv numeral_eq_Suc)
    then show ?thesis using \<open>list_all byte xs\<close> by (auto simp: byte_def)
  qed
  have nib: "small_nibbles a \<Longrightarrow> byte a" for a
    by (auto simp: small_nibbles_def byte_def)
  let ?v1 = "v - (drop_bit 1 v AND 0x55555555)"
  have s1: "uint ?v1 = bytes_val ?as1"
    by (rule popcount_word1) (use step1_bytes[OF b n[symmetric]] m(1) val bnd[OF b1] n in simp_all)
  let ?v2 = "(?v1 AND 0x33333333) + (drop_bit 2 ?v1 AND 0x33333333)"
  have "list_all byte ?as2" using b2 nib by (auto simp: list_all_iff)
  then have s2: "uint ?v2 = bytes_val ?as2"
    by (intro popcount_word2, unfold s1)
      (use step2_bytes[OF b1, of 4] m(2) bnd[of ?as2] n in simp_all)
  have s3: "uint ((?v2 + drop_bit 4 ?v2) AND 0x0f0f0f0f) = bytes_val ?as3"
    by (intro popcount_word3, unfold s2) (use step3_bytes[OF b2, of 4] m(3) n in simp)
  obtain c0 c1 c2 c3 where c: "as = [c0, c1, c2, c3]" by (simp add: as_def)
  have cnt: "bit_count 8 a \<le> 8" for a unfolding bit_count_def using length_filter_le[of "bit a" "[0..<8]"] by simp
  have as3: "?as3 = map (\<lambda>a. int (bit_count 8 a)) as"
    using b byte_steps(1) by (auto simp: list_all_iff byte_def)
  have "popcount32 v = js_ushr (bytes_val ?as3 * 0x01010101) 24"
    unfolding popcount32_def Let_def s3 ..
  also have "\<dots> = (bytes_val ?as3 * 0x01010101) mod 2 ^ 32 div 2 ^ 24"
    by (simp add: js_ushr_def to_uint32_def drop_bit_eq_div)
  also have "\<dots> = (\<Sum>a\<leftarrow>as. int (bit_count 8 a))"
    unfolding as3 unfolding c list.map by (subst multiply_sum) (use cnt in simp_all)
  also have "\<dots> = int (bit_count 32 ?u)" using bit_count_val[OF b] n val by simp
  also have "filter (bit ?u) [0..<32] = filter (bit v) [0..<32]" by (rule filter_cong) (auto simp: bit_uint_iff)
  then have "int (bit_count 32 ?u) = int (length (wbits v))" by (simp only: bit_count_def wbits_def)
  finally show ?thesis .
qed
section \<open>The set of the indices\<close>

definition bs_mem :: "bitset \<Rightarrow> nat \<Rightarrow> bool" where
  "bs_mem bs i \<longleftrightarrow> bit (bsBits bs ! (i div 32)) (i mod 32)"

text \<open>No bit beyond the capacity is ever set.\<close>

definition bs_rep :: "bitset \<Rightarrow> nat \<times> nat set \<Rightarrow> bool" where
  "bs_rep bs s \<longleftrightarrow> 1 \<le> bsLength bs \<and> bsLength bs < 2 ^ 31 \<and> fst s = nat (bsLength bs) \<and>
     length (bsBits bs) = (fst s + 31) div 32 \<and> snd s \<subseteq> {..<fst s} \<and>
     (\<forall>i < 32 * length (bsBits bs). bs_mem bs i \<longleftrightarrow> i \<in> snd s)"

lemma bs_index:
  assumes "0 \<le> i" "i < 2 ^ 31"
  shows "bs_word i = nat i div 32" "bs_bit i = push_bit (nat i mod 32) 1" "nat (js_and i 31) = nat i mod 32"
proof -
  have w: "js_ushr i 5 = i div 32" using js_ushr_div[of i 5] assms by simp
  have b: "js_and i 31 = i mod 32" using js_and_mask[of i 5] assms by simp
  show "bs_word i = nat i div 32" unfolding bs_word_def w using assms(1) by (simp add: nat_div_distrib)
  show "nat (js_and i 31) = nat i mod 32" unfolding b using assms(1) by (simp add: nat_mod_distrib)
  then show "bs_bit i = push_bit (nat i mod 32) 1" by (simp add: bs_bit_def)
qed

lemma bs_checkBounds_ok:
  assumes "bs_rep bs s"
  shows "bs_checkBounds bs i0 = (case i0 of None \<Rightarrow> Inl RangeError
    | Some i \<Rightarrow> if 0 \<le> i \<and> nat i < fst s then Inr i else Inl RangeError)"
proof (cases i0)
  case (Some i)
  then show ?thesis using assms by (auto simp: bs_checkBounds_def bs_rep_def to_int32_id)
qed (simp add: bs_checkBounds_def)

lemma bs_make_ok:
  "bs_make c0 = (case c0 of Some c \<Rightarrow> if 1 \<le> c \<and> c < 2 ^ 31 then Inr \<lparr>bsBits = replicate (nat ((c + 31) div 32)) 0, bsLength = c\<rparr>
      else Inl RangeError | None \<Rightarrow> Inl RangeError)"
proof (cases c0)
  case (Some c)
  have "to_int32 c = c \<longleftrightarrow> c < 2 ^ 31" if "1 \<le> c"
    using to_int32_id[of c] that pos_mod_bound[of "2 ^ 32" "c + 2 ^ 31"] by (auto simp: to_int32_def)
  then show ?thesis using Some by (auto simp: bs_make_def)
qed (simp add: bs_make_def)

lemma bs_make_rep:
  assumes "1 \<le> c" "c < 2 ^ 31"
  shows "bs_rep \<lparr>bsBits = replicate (nat ((c + 31) div 32)) 0, bsLength = c\<rparr> (nat c, {})"
proof -
  have n: "nat ((c + 31) div 32) = (nat c + 31) div 32" using assms(1) by (simp add: nat_div_distrib nat_add_distrib)
  show ?thesis unfolding bs_rep_def n using assms by (auto simp: bs_mem_def)
qed

text \<open>One word changed at one bit.\<close>

lemma bs_update_rep:
  assumes "bs_rep bs s" "0 \<le> i" "nat i < fst s"
    "\<And>j. j < 32 \<Longrightarrow> bit w j = (if j = nat i mod 32 then b else bit (bsBits bs ! bs_word i) j)"
  shows "bs_rep (bs\<lparr>bsBits := (bsBits bs)[bs_word i := w]\<rparr>)
    (fst s, if b then insert (nat i) (snd s) else snd s - {nat i})"
proof -
  have i31: "i < 2 ^ 31" using assms(1-3) by (auto simp: bs_rep_def)
  note ix = bs_index(1)[OF assms(2) i31]
  have len: "nat i div 32 < length (bsBits bs)" using assms(1,3) by (auto simp: bs_rep_def)
  have m: "bs_mem (bs\<lparr>bsBits := (bsBits bs)[bs_word i := w]\<rparr>) j = (if j = nat i then b else bs_mem bs j)" for j
  proof (cases "j div 32 = nat i div 32")
    case True
    then have "j mod 32 = nat i mod 32 \<longleftrightarrow> j = nat i" by (metis div_mult_mod_eq)
    then show ?thesis using True len assms(4)[of "j mod 32"] by (simp add: bs_mem_def ix)
  next
    case False
    then show ?thesis by (auto simp: bs_mem_def ix)
  qed
  show ?thesis using assms(1,3) by (auto simp: bs_rep_def m)
qed

lemma bit_bs_bit:
  assumes "0 \<le> i" "i < 2 ^ 31" "j < 32"
  shows "bit (bs_bit i) j = (j = nat i mod 32)"
  unfolding bs_index(2)[OF assms(1,2)] using assms(3) by (auto simp: bit_exp_iff)

lemma bs_set_rep:
  assumes "bs_rep bs s" "0 \<le> i" "nat i < fst s"
  shows "fst (bs_set bs (Some i)) = Inr () \<and> bs_rep (snd (bs_set bs (Some i))) (fst s, insert (nat i) (snd s))"
    "fst (bs_clear bs (Some i)) = Inr () \<and> bs_rep (snd (bs_clear bs (Some i))) (fst s, snd s - {nat i})"
    "fst (bs_toggle bs (Some i)) = Inr () \<and> bs_rep (snd (bs_toggle bs (Some i)))
      (fst s, if nat i \<in> snd s then snd s - {nat i} else insert (nat i) (snd s))"
    "bs_get bs (Some i) = Inr (nat i \<in> snd s)"
proof -
  have i31: "i < 2 ^ 31" using assms by (auto simp: bs_rep_def)
  note bb = bit_bs_bit[OF assms(2) i31]
  have mem: "bit (bsBits bs ! bs_word i) (nat i mod 32) = (nat i \<in> snd s)"
    using assms by (auto simp: bs_rep_def bs_mem_def bs_index(1)[OF assms(2) i31])
  have chk: "bs_checkBounds bs (Some i) = Inr i" using bs_checkBounds_ok[OF assms(1), of "Some i"] assms(2,3) by simp
  show "fst (bs_set bs (Some i)) = Inr () \<and> bs_rep (snd (bs_set bs (Some i))) (fst s, insert (nat i) (snd s))"
    using bs_update_rep[OF assms, of "bsBits bs ! bs_word i OR bs_bit i" True] bb
    by (simp add: bs_set_def chk bit_or_iff)
  show "fst (bs_clear bs (Some i)) = Inr () \<and> bs_rep (snd (bs_clear bs (Some i))) (fst s, snd s - {nat i})"
    using bs_update_rep[OF assms, of "bsBits bs ! bs_word i AND NOT (bs_bit i)" False] bb
    by (simp add: bs_clear_def chk bit_and_iff bit_not_iff)
  show "fst (bs_toggle bs (Some i)) = Inr () \<and> bs_rep (snd (bs_toggle bs (Some i)))
      (fst s, if nat i \<in> snd s then snd s - {nat i} else insert (nat i) (snd s))"
    using bs_update_rep[OF assms, of "bsBits bs ! bs_word i XOR bs_bit i" "nat i \<notin> snd s"] bb mem
    by (auto simp: bs_toggle_def chk bit_xor_iff)
  have "(drop_bit (nat i mod 32) (bsBits bs ! bs_word i) AND 1 = 1) = bit (bsBits bs ! bs_word i) (nat i mod 32)"
    by (simp add: and_one_eq bit_iff_odd_drop_bit odd_iff_mod_2_eq_one)
  then show "bs_get bs (Some i) = Inr (nat i \<in> snd s)"
    unfolding bs_get_def chk using mem bs_index(3)[OF assms(2) i31] by simp
qed
lemma bitlen_pow2: "bitlen (2 ^ k) = Suc k"
proof -
  have "bitlen (2 ^ k) \<le> Suc k" by (rule bitlen_le) simp
  moreover have "(2::nat) ^ k < 2 ^ bitlen (2 ^ k)" using bitlen_bounds[of "2 ^ k"] by simp
  then have "k < bitlen (2 ^ k)" by (rule power_less_imp_less_exp[rotated]) simp
  ultimately show ?thesis by linarith
qed

lemma wbits_lsb:
  assumes "w \<noteq> 0"
  shows "\<exists>k<32. w AND - w = push_bit k 1 \<and> wbits w = k # wbits (w XOR (w AND - w))"
proof -
  obtain k where k: "k < 32" "bit w k" "\<forall>j<k. \<not> bit w j" "w AND - w = push_bit k 1" using lsb_word[OF assms] by blast
  have b: "bit (w XOR (w AND - w)) i = (bit w i \<and> i \<noteq> k)" for i by (rule clear_lsb_bit[OF k(4,2)])
  have s: "[0..<32] = [0..<k] @ k # [Suc k..<32]" using k(1) upt_add_eq_append[of 0 k "32 - k"] upt_conv_Cons[of k 32] by simp
  have below: "filter (bit w) [0..<k] = []" "filter (\<lambda>i. bit w i \<and> i \<noteq> k) [0..<k] = []" using k(3) by (auto simp: filter_empty_conv)
  have above: "filter (\<lambda>i. bit w i \<and> i \<noteq> k) [Suc k..<32] = filter (bit w) [Suc k..<32]" by (rule filter_cong) auto
  have "wbits w = k # wbits (w XOR (w AND - w))"
    unfolding wbits_def b s filter_append below using k(2) above by simp
  then show ?thesis using k by blast
qed

lemma bs_extract_ok:
  "length (wbits w) \<le> m \<Longrightarrow>
    bs_extract base w (map Some pre @ replicate m None, int (length pre)) =
      (map Some (pre @ map (\<lambda>i. base + int i) (wbits w)) @ replicate (m - length (wbits w)) None,
       int (length pre + length (wbits w)))"
proof (induction "length (wbits w)" arbitrary: w pre m)
  case 0
  then have "w = 0" using wbits_lsb[of w] by fastforce
  then show ?case by (simp add: wbits_def bs_extract.simps)
next
  case (Suc n)
  then have nz: "w \<noteq> 0" by (auto simp: wbits_def)
  obtain k where k: "k < 32" "w AND - w = push_bit k 1" "wbits w = k # wbits (w XOR (w AND - w))"
    using wbits_lsb[OF nz] by blast
  let ?w = "w XOR (w AND - w)"
  obtain m' where m: "m = Suc m'" using Suc.prems Suc.hyps(2) by (cases m) auto
  have "nat (to_uint32 (uint (push_bit k 1 :: 32 word))) = 2 ^ k"
  proof -
    have "(2::int) ^ k < 2 ^ 32" by (rule power_strict_increasing) (use k(1) in simp_all)
    then have "uint (word_of_int (2 ^ k) :: 32 word) = 2 ^ k" by (simp only: uint_word_of_int) simp
    then have "uint (2 ^ k :: 32 word) = 2 ^ k" by simp
    then show ?thesis using \<open>(2::int) ^ k < 2 ^ 32\<close> by (simp add: to_uint32_def nat_power_eq)
  qed
  then have clz: "base + (31 - js_clz32 (uint (w AND - w))) = base + int k"
    unfolding k(2) js_clz32_def by (simp add: bitlen_pow2 nat_power_eq)
  have "js_put (map Some pre @ replicate m None) (int (length pre)) (Some (base + int k))
      = map Some (pre @ [base + int k]) @ replicate m' None"
    unfolding m by (simp add: js_put_int list_update_append)
  then have "bs_extract base w (map Some pre @ replicate m None, int (length pre))
      = bs_extract base ?w (map Some (pre @ [base + int k]) @ replicate m' None, int (length (pre @ [base + int k])))"
    using nz clz by (subst bs_extract.simps) (simp add: Let_def add.commute)
  also have "\<dots> = (map Some ((pre @ [base + int k]) @ map (\<lambda>i. base + int i) (wbits ?w)) @ replicate (m' - length (wbits ?w)) None,
      int (length (pre @ [base + int k]) + length (wbits ?w)))"
    by (rule Suc.hyps(1)) (use Suc.hyps(2) Suc.prems k(3) m in simp_all)
  finally show ?case unfolding k(3)[symmetric] using k(3) m by (simp add: k(3))
qed
text \<open>All indices, word by word.\<close>

fun word_indices :: "nat \<Rightarrow> 32 word list \<Rightarrow> nat list" where
  "word_indices n [] = []"
| "word_indices n (v # vs) = map (\<lambda>i. 32 * n + i) (wbits v) @ word_indices (Suc n) vs"

lemma word_indices_filter:
  "word_indices n vs = filter (\<lambda>i. bit (vs ! (i div 32 - n)) (i mod 32)) [32 * n..<32 * (n + length vs)]"
proof (induction vs arbitrary: n)
  case (Cons v vs)
  have s: "[32 * n..<32 * (n + length (v # vs))] = map (\<lambda>i. 32 * n + i) [0..<32] @ [32 * Suc n..<32 * (Suc n + length vs)]"
  proof -
    have "[32 * n..<32 * (n + length (v # vs))] = [32 * n..<32 * n + 32] @ [32 * n + 32..<32 * n + 32 + 32 * length vs]"
      using upt_add_eq_append[of "32 * n" "32 * n + 32" "32 * length vs"] by (simp add: algebra_simps)
    moreover have "[32 * n..<32 * n + 32] = map (\<lambda>i. 32 * n + i) [0..<32]"
      using map_add_upt[of "32 * n" 32] by (simp add: add.commute)
    ultimately show ?thesis by (simp add: algebra_simps)
  qed
  have hd: "filter (\<lambda>i. bit ((v # vs) ! (i div 32 - n)) (i mod 32)) (map (\<lambda>i. 32 * n + i) [0..<32])
      = map (\<lambda>i. 32 * n + i) (wbits v)"
    unfolding wbits_def filter_map comp_def by (intro arg_cong[where f = "map _"] filter_cong) auto
  have tl: "filter (\<lambda>i. bit ((v # vs) ! (i div 32 - n)) (i mod 32)) [32 * Suc n..<32 * (Suc n + length vs)]
      = filter (\<lambda>i. bit (vs ! (i div 32 - Suc n)) (i mod 32)) [32 * Suc n..<32 * (Suc n + length vs)]"
  proof (rule filter_cong[OF refl])
    fix i assume "i \<in> set [32 * Suc n..<32 * (Suc n + length vs)]"
    then have "Suc n \<le> i div 32" by (simp add: less_eq_div_iff_mult_less_eq)
    then have "i div 32 - n = Suc (i div 32 - Suc n)" by simp
    then show "bit ((v # vs) ! (i div 32 - n)) (i mod 32) = bit (vs ! (i div 32 - Suc n)) (i mod 32)" by simp
  qed
  show ?case unfolding s filter_append hd tl using Cons.IH[of "Suc n"] by simp
qed simp

definition bs_list :: "nat \<times> nat set \<Rightarrow> nat list" where
  "bs_list s = filter (\<lambda>i. i \<in> snd s) [0..<fst s]"

lemma bs_indices:
  assumes "bs_rep bs s"
  shows "word_indices 0 (bsBits bs) = bs_list s"
proof -
  let ?n = "length (bsBits bs)"
  have r: "fst s \<le> 32 * ?n" "snd s \<subseteq> {..<fst s}" using assms by (auto simp: bs_rep_def)
  have "word_indices 0 (bsBits bs) = filter (bs_mem bs) [0..<32 * ?n]"
    unfolding word_indices_filter by (simp add: bs_mem_def[abs_def])
  also have "\<dots> = filter (\<lambda>i. i \<in> snd s) [0..<32 * ?n]"
    by (rule filter_cong) (use assms in \<open>auto simp: bs_rep_def\<close>)
  also have "[0..<32 * ?n] = [0..<fst s] @ [fst s..<32 * ?n]" using r(1) upt_add_eq_append[of 0 "fst s" "32 * ?n - fst s"] by simp
  also have "filter (\<lambda>i. i \<in> snd s) \<dots> = bs_list s" using r(2) by (auto simp: bs_list_def filter_empty_conv)
  finally show ?thesis .
qed

text \<open>Masking the last word changes nothing.\<close>

lemma bit_lastMask:
  assumes "1 \<le> bsLength bs" "bsLength bs < 2 ^ 31" "j < 32"
  shows "bit (bs_lastMask bs) j \<longleftrightarrow> nat (bsLength bs) mod 32 = 0 \<or> j < nat (bsLength bs) mod 32"
proof -
  have r: "js_and (bsLength bs) 31 = bsLength bs mod 32" using js_and_mask[of "bsLength bs" 5] assms by simp
  have n: "nat (bsLength bs mod 32) = nat (bsLength bs) mod 32" using assms(1) by (simp add: nat_mod_distrib)
  show ?thesis
  proof (cases "bsLength bs mod 32 = 0")
    case True
    have m: "(0xffffffff :: 32 word) = mask 32" by (simp add: mask_eq_exp_minus_1)
    have "bit (0xffffffff :: 32 word) j" unfolding m bit_mask_iff using assms(3) by simp
    then show ?thesis using True n unfolding bs_lastMask_def Let_def r by simp
  next
    case False
    have "push_bit (nat (bsLength bs mod 32)) 1 - 1 = (mask (nat (bsLength bs) mod 32) :: 32 word)"
      by (simp add: n mask_eq_exp_minus_1)
    moreover have "nat (bsLength bs) mod 32 \<noteq> 0" using False n assms(1) by (metis nat_0_iff pos_mod_sign zero_less_numeral order_antisym)
    ultimately show ?thesis using False assms(3) unfolding bs_lastMask_def Let_def r by (simp add: bit_mask_iff)
  qed
qed

lemma mod32_less: "n mod 32 < 32" for n :: nat
  by simp

lemma block_less: "r + 32 * q = i \<Longrightarrow> r < 32 \<Longrightarrow> Suc q \<le> p \<Longrightarrow> r' + 32 * p = n \<Longrightarrow> i < n" for n :: nat
  by simp

lemma ceil_arith: "r + 32 * q = n \<Longrightarrow> r \<noteq> 0 \<Longrightarrow> n + 31 = (r - 1) + 32 * Suc q" for n :: nat
  by simp

lemma ceil_div: "(n + 31) div 32 = Suc (n div 32)" if "n mod 32 \<noteq> 0" for n :: nat
proof -
  have e: "n + 31 = (n mod 32 - 1) + 32 * Suc (n div 32)" by (rule ceil_arith[OF mod_mult_div_eq that])
  have "n mod 32 - 1 < 32" by (rule less_imp_diff_less[OF mod32_less])
  then have "((n mod 32 - 1) + 32 * Suc (n div 32)) div 32 = Suc (n div 32)"
    by (simp only: div_mult_self2[OF numeral_neq_zero] div_less add_0_right)
  then show ?thesis using e by (simp only:)
qed

lemma bs_last:
  assumes "bs_rep bs s"
  shows "bsBits bs \<noteq> []" "last (bsBits bs) AND bs_lastMask bs = last (bsBits bs)"
proof -
  let ?n = "length (bsBits bs)"
  have r: "1 \<le> bsLength bs" "bsLength bs < 2 ^ 31" "fst s = nat (bsLength bs)" "?n = (fst s + 31) div 32"
      "snd s \<subseteq> {..<fst s}" "\<And>i. i < 32 * ?n \<Longrightarrow> bs_mem bs i \<longleftrightarrow> i \<in> snd s"
    using assms by (auto simp: bs_rep_def)
  have n: "0 < ?n" using r(1,3,4) by (simp add: div_greater_zero_iff)
  then show ne: "bsBits bs \<noteq> []" by auto
  have "bit (last (bsBits bs)) j \<longrightarrow> bit (bs_lastMask bs) j" if j: "j < 32" for j
  proof
    assume "bit (last (bsBits bs)) j"
    then have "bs_mem bs (32 * (?n - 1) + j)" using j ne by (simp add: bs_mem_def last_conv_nth)
    moreover have "32 * (?n - 1) + j < 32 * ?n" using n j by linarith
    ultimately have lt: "32 * (?n - 1) + j < fst s" using r(5,6) by blast
    have "fst s mod 32 = 0 \<or> j < fst s mod 32"
    proof (cases "fst s mod 32 = 0")
      case False
      then have "(fst s + 31) div 32 = Suc (fst s div 32)" by (rule ceil_div)
      then have "?n - 1 = fst s div 32" using r(4) by simp
      then have "32 * (fst s div 32) + j < fst s" using lt by simp
      then have "j < fst s mod 32" using mod_mult_div_eq[of "fst s" 32] by linarith
      then show ?thesis by blast
    qed simp
    then show "bit (bs_lastMask bs) j" using bit_lastMask[OF r(1,2) j] r(3) by simp
  qed
  then show "last (bsBits bs) AND bs_lastMask bs = last (bsBits bs)"
    by (intro bit_word_eqI) (auto simp: bit_and_iff)
qed

lemma foldl_popcount: "foldl (\<lambda>count v. count + popcount32 v) c vs = c + int (length (word_indices n vs))"
proof (induction vs arbitrary: c n)
  case (Cons v vs)
  show ?case using Cons.IH[of "c + popcount32 v" "Suc n"] by (simp add: popcount32_ok)
qed simp

lemma word_indices_append: "word_indices n (vs @ ws) = word_indices n vs @ word_indices (n + length vs) ws"
  by (induction vs arbitrary: n) auto

lemma bs_popcount_rep:
  assumes "bs_rep bs s"
  shows "bs_popcount bs = int (length (bs_list s))"
proof -
  note l = bs_last[OF assms]
  have "bsBits bs = butlast (bsBits bs) @ [last (bsBits bs)]" using l(1) by simp
  then have "word_indices 0 (bsBits bs) = word_indices 0 (butlast (bsBits bs)) @ word_indices (length (bsBits bs) - 1) [last (bsBits bs)]"
    using word_indices_append[of 0 "butlast (bsBits bs)" "[last (bsBits bs)]"] by simp
  moreover have "take (length (bsBits bs) - 1) (bsBits bs) = butlast (bsBits bs)" by (simp add: butlast_conv_take)
  moreover have "bsBits bs ! (length (bsBits bs) - 1) = last (bsBits bs)" using l(1) by (simp add: last_conv_nth)
  ultimately show ?thesis
    unfolding bs_popcount_def Let_def using l(2) foldl_popcount[of 0 "butlast (bsBits bs)" 0]
    by (simp add: popcount32_ok flip: bs_indices[OF assms])
qed

lemma bs_words_loop_ok:
  assumes "bs_lastMask bs = lm" "vs \<noteq> [] \<Longrightarrow> last vs AND lm = last vs" "length (word_indices n vs) \<le> m"
    "int n + int (length vs) \<le> 2 ^ 26"
  shows "bs_words_loop bs n vs (map Some pre @ replicate m None, int (length pre)) =
    (map Some (pre @ map int (word_indices n vs)) @ replicate (m - length (word_indices n vs)) None,
     int (length pre + length (word_indices n vs)))"
  using assms(2-4)
proof (induction vs arbitrary: n pre m)
  case (Cons v vs)
  have w: "(if vs = [] then v AND bs_lastMask bs else v) = v" using Cons.prems(1) assms(1) by auto
  have "int n * 2 ^ 5 < 2 ^ 31" using Cons.prems(3) by simp
  then have sh: "js_shl (int n) 5 = 32 * int n" using js_shl_mult[of "int n" 5] by simp
  let ?pre = "pre @ map (\<lambda>i. 32 * int n + int i) (wbits v)" and ?m = "m - length (wbits v)"
  have e: "map (\<lambda>i. 32 * int n + int i) (wbits v) = map int (map (\<lambda>i. 32 * n + i) (wbits v))" by simp
  have "bs_words_loop bs n (v # vs) (map Some pre @ replicate m None, int (length pre)) =
      bs_words_loop bs (Suc n) vs (map Some ?pre @ replicate ?m None, int (length ?pre))"
    using bs_extract_ok[of v m "32 * int n" pre] Cons.prems(2) unfolding bs_words_loop.simps Let_def w sh by simp
  also have "\<dots> = (map Some (?pre @ map int (word_indices (Suc n) vs)) @ replicate (?m - length (word_indices (Suc n) vs)) None,
      int (length ?pre + length (word_indices (Suc n) vs)))"
    by (rule Cons.IH) (use Cons.prems in \<open>auto split: if_splits\<close>)
  finally show ?case by simp
qed simp

lemma bs_toArray_rep:
  assumes "bs_rep bs s"
  shows "bs_toArray bs = map (\<lambda>i. Some (int i)) (bs_list s)"
proof -
  have "int (length (bsBits bs)) \<le> 2 ^ 26"
  proof -
    have "length (bsBits bs) = (nat (bsLength bs) + 31) div 32" "bsLength bs < 2 ^ 31" "1 \<le> bsLength bs"
      using assms by (auto simp: bs_rep_def)
    moreover from this have "nat (bsLength bs) < 2147483648" by (simp add: nat_less_iff)
    then have "nat (bsLength bs) + 31 \<le> 2147483678" by linarith
    then have "(nat (bsLength bs) + 31) div 32 \<le> 2147483678 div 32" by (rule div_le_mono)
    ultimately show ?thesis by simp
  qed
  then have "int 0 + int (length (bsBits bs)) \<le> 2 ^ 26" by simp
  then have "bs_words_loop bs 0 (bsBits bs) (map Some [] @ replicate (length (bs_list s)) None, int (length [])) =
    (map Some ([] @ map int (bs_list s)) @ replicate (length (bs_list s) - length (bs_list s)) None, int (length [] + length (bs_list s)))"
    using bs_words_loop_ok[OF refl, of "bsBits bs" bs 0 "length (bs_list s)" "[]"] bs_last[OF assms]
    by (simp add: bs_indices[OF assms])
  then show ?thesis by (simp add: bs_toArray_def bs_popcount_rep[OF assms])
qed
section \<open>Set algebra\<close>

lemma bs_pointwise_rep:
  assumes "bs_rep a s" "bs_rep b t" "fst s = fst t" "\<And>v w j. j < 32 \<Longrightarrow> bit (f v w) j = g (bit v j) (bit w j)"
    "\<not> g False False"
  shows "bs_rep (bs_makeFromBits (bsLength a) (map (\<lambda>w. f (bsBits a ! w) (bsBits b ! w)) [0..<length (bsBits a)]))
    (fst s, {i. i < fst s \<and> g (i \<in> snd s) (i \<in> snd t)})"
proof -
  have n: "length (bsBits a) = length (bsBits b)" using assms(1-3) by (simp add: bs_rep_def)
  have sub: "snd s \<subseteq> {..<fst s}" "snd t \<subseteq> {..<fst s}" using assms(1-3) by (auto simp: bs_rep_def)
  have m: "bs_mem (bs_makeFromBits (bsLength a) (map (\<lambda>w. f (bsBits a ! w) (bsBits b ! w)) [0..<length (bsBits a)])) i
      = g (i \<in> snd s) (i \<in> snd t)" if "i < 32 * length (bsBits a)" for i
  proof -
    have w: "i div 32 < length (bsBits a)" using that by auto
    have "bs_mem a i = (i \<in> snd s)" "bs_mem b i = (i \<in> snd t)" using assms(1,2) that n by (auto simp: bs_rep_def)
    then show ?thesis using w assms(4) by (simp add: bs_mem_def bs_makeFromBits_def)
  qed
  have out: "g (i \<in> snd s) (i \<in> snd t) \<longrightarrow> i < fst s" for i
    using sub assms(5) by (cases "i \<in> snd s"; cases "i \<in> snd t") auto
  show ?thesis using assms(1) m out unfolding bs_rep_def by (auto simp: bs_makeFromBits_def)
qed

lemma bs_binary_rep:
  assumes "bs_rep a s" "bs_rep b t"
  shows "fst s \<noteq> fst t \<Longrightarrow> bs_and a b = Inl RangeError \<and> bs_or a b = Inl RangeError \<and> bs_xor a b = Inl RangeError"
    "fst s = fst t \<Longrightarrow> \<exists>c. bs_and a b = Inr c \<and> bs_rep c (fst s, snd s \<inter> snd t)"
    "fst s = fst t \<Longrightarrow> \<exists>c. bs_or a b = Inr c \<and> bs_rep c (fst s, snd s \<union> snd t)"
    "fst s = fst t \<Longrightarrow> \<exists>c. bs_xor a b = Inr c \<and> bs_rep c (fst s, (snd s - snd t) \<union> (snd t - snd s))"
proof -
  have c: "bs_checkSameCapacity a b = (if fst s = fst t then Inr () else Inl RangeError)"
    using assms by (auto simp: bs_checkSameCapacity_def bs_rep_def)
  then show "fst s \<noteq> fst t \<Longrightarrow> bs_and a b = Inl RangeError \<and> bs_or a b = Inl RangeError \<and> bs_xor a b = Inl RangeError"
    by (simp add: bs_and_def bs_or_def bs_xor_def)
  have sub: "snd s \<subseteq> {..<fst s}" "snd t \<subseteq> {..<fst t}" using assms by (auto simp: bs_rep_def)
  assume e: "fst s = fst t"
  note p = bs_pointwise_rep[OF assms e]
  have sets: "{i. i < fst s \<and> (i \<in> snd s \<and> i \<in> snd t)} = snd s \<inter> snd t"
    "{i. i < fst s \<and> (i \<in> snd s \<or> i \<in> snd t)} = snd s \<union> snd t"
    "{i. i < fst s \<and> (i \<in> snd s) \<noteq> (i \<in> snd t)} = (snd s - snd t) \<union> (snd t - snd s)"
    using sub e by auto
  show "\<exists>c. bs_and a b = Inr c \<and> bs_rep c (fst s, snd s \<inter> snd t)"
    using p[of "(AND)" "(\<and>)"] c e sets(1) by (simp add: bs_and_def bit_and_iff)
  show "\<exists>c. bs_or a b = Inr c \<and> bs_rep c (fst s, snd s \<union> snd t)"
    using p[of "(OR)" "(\<or>)"] c e sets(2) by (simp add: bs_or_def bit_or_iff)
  show "\<exists>c. bs_xor a b = Inr c \<and> bs_rep c (fst s, (snd s - snd t) \<union> (snd t - snd s))"
    using p[of "(XOR)" "(\<noteq>)"] c e sets(3) by (simp add: bs_xor_def bit_xor_iff)
qed

lemma bs_not_rep:
  assumes "bs_rep a s"
  shows "bs_rep (bs_not a) (fst s, {..<fst s} - snd s)"
proof -
  let ?n = "length (bsBits a)"
  have r: "1 \<le> bsLength a" "bsLength a < 2 ^ 31" "fst s = nat (bsLength a)" "?n = (fst s + 31) div 32"
      "snd s \<subseteq> {..<fst s}" "\<And>i. i < 32 * ?n \<Longrightarrow> bs_mem a i \<longleftrightarrow> i \<in> snd s"
    using assms by (auto simp: bs_rep_def)
  have n: "0 < ?n" using bs_last(1)[OF assms] by simp
  have tail: "i < fst s \<longleftrightarrow> fst s mod 32 = 0 \<or> i mod 32 < fst s mod 32" if "i div 32 = ?n - 1" for i
  proof (cases "fst s mod 32 = 0")
    case True
    then have "(fst s + 31) div 32 = fst s div 32" "32 * (fst s div 32) = fst s" by auto
    then show ?thesis using True that n r(4) mod_mult_div_eq[of i 32] mod32_less[of i] by linarith
  next
    case False
    then have "?n - 1 = fst s div 32" using r(4) ceil_div by simp
    then have "i div 32 = fst s div 32" using that by simp
    then show ?thesis using False mod_mult_div_eq[of i 32] mod_mult_div_eq[of "fst s" 32] by linarith
  qed
  have inner: "i < fst s" if "i div 32 < ?n - 1" for i
  proof -
    have "Suc (i div 32) \<le> fst s div 32"
    proof (cases "fst s mod 32 = 0")
      case True
      then have "(fst s + 31) div 32 = fst s div 32" by auto
      then show ?thesis using that r(4) by linarith
    next
      case False
      then show ?thesis using that r(4) ceil_div[OF False] by linarith
    qed
    then show ?thesis by (rule block_less[OF mod_mult_div_eq mod32_less _ mod_mult_div_eq])
  qed
  have m: "bs_mem (bs_not a) i \<longleftrightarrow> i \<in> {..<fst s} - snd s" if i: "i < 32 * ?n" for i
  proof -
    have w: "i div 32 < ?n" using i by auto
    have b: "bs_mem (bs_not a) i \<longleftrightarrow> \<not> bs_mem a i \<and> (i div 32 = ?n - 1 \<longrightarrow> bit (bs_lastMask a) (i mod 32))"
      using w n by (auto simp: bs_mem_def bs_not_def bs_makeFromBits_def Let_def nth_list_update bit_and_iff bit_not_iff)
    show ?thesis
    proof (cases "i div 32 = ?n - 1")
      case True
      then show ?thesis using b r(6)[OF i] tail[OF True] bit_lastMask[OF r(1,2), of "i mod 32"] r(3) by auto
    next
      case False
      then have "i < fst s" using inner w by simp
      then show ?thesis using b r(6)[OF i] False by auto
    qed
  qed
  have "bsLength (bs_not a) = bsLength a" "length (bsBits (bs_not a)) = ?n"
    by (simp_all add: bs_not_def bs_makeFromBits_def Let_def)
  then show ?thesis using r m by (auto simp: bs_rep_def)
qed

section \<open>Sessions on two bit sets\<close>

datatype bs_call = BsSet "int option" | BsClear "int option" | BsToggle "int option" | BsGet "int option"
  | BsCapacity | BsPopcount | BsToArray | BsAnd | BsOr | BsXor | BsNot | BsSwap

datatype bs_answer = BsThrows js_error | BsDone | BsBool bool | BsNumber int | BsArray "int option list"

definition bs_done :: "unit outcome \<Rightarrow> bs_answer" where
  "bs_done r = (case r of Inl e \<Rightarrow> BsThrows e | Inr _ \<Rightarrow> BsDone)"

text \<open>The algebra replaces the first set by the result.\<close>

definition bs_replace :: "bitset outcome \<Rightarrow> bitset \<times> bitset \<Rightarrow> bs_answer \<times> bitset \<times> bitset" where
  "bs_replace r st = (case r of Inl e \<Rightarrow> (BsThrows e, st) | Inr c \<Rightarrow> (BsDone, c, snd st))"

fun bs_exec :: "bs_call \<Rightarrow> bitset \<times> bitset \<Rightarrow> bs_answer \<times> bitset \<times> bitset" where
  "bs_exec (BsSet i) (a, b) = (bs_done (fst (bs_set a i)), snd (bs_set a i), b)"
| "bs_exec (BsClear i) (a, b) = (bs_done (fst (bs_clear a i)), snd (bs_clear a i), b)"
| "bs_exec (BsToggle i) (a, b) = (bs_done (fst (bs_toggle a i)), snd (bs_toggle a i), b)"
| "bs_exec (BsGet i) (a, b) = (case bs_get a i of Inl e \<Rightarrow> BsThrows e | Inr r \<Rightarrow> BsBool r, a, b)"
| "bs_exec BsCapacity (a, b) = (BsNumber (bs_capacity a), a, b)"
| "bs_exec BsPopcount (a, b) = (BsNumber (bs_popcount a), a, b)"
| "bs_exec BsToArray (a, b) = (BsArray (bs_toArray a), a, b)"
| "bs_exec BsAnd (a, b) = bs_replace (bs_and a b) (a, b)"
| "bs_exec BsOr (a, b) = bs_replace (bs_or a b) (a, b)"
| "bs_exec BsXor (a, b) = bs_replace (bs_xor a b) (a, b)"
| "bs_exec BsNot (a, b) = (BsDone, bs_not a, b)"
| "bs_exec BsSwap (a, b) = (BsDone, b, a)"

type_synonym sized = "nat \<times> nat set"

definition set_at :: "int option \<Rightarrow> (nat set \<Rightarrow> nat \<Rightarrow> nat set) \<Rightarrow> sized \<times> sized \<Rightarrow> bs_answer \<times> sized \<times> sized" where
  "set_at i0 f st = (case i0 of
      Some i \<Rightarrow> if 0 \<le> i \<and> nat i < fst (fst st) then (BsDone, (fst (fst st), f (snd (fst st)) (nat i)), snd st)
                else (BsThrows RangeError, st)
    | None \<Rightarrow> (BsThrows RangeError, st))"

definition set_with :: "(nat set \<Rightarrow> nat set \<Rightarrow> nat set) \<Rightarrow> sized \<times> sized \<Rightarrow> bs_answer \<times> sized \<times> sized" where
  "set_with f st = (if fst (fst st) = fst (snd st)
     then (BsDone, (fst (fst st), f (snd (fst st)) (snd (snd st))), snd st) else (BsThrows RangeError, st))"

fun set_exec :: "bs_call \<Rightarrow> sized \<times> sized \<Rightarrow> bs_answer \<times> sized \<times> sized" where
  "set_exec (BsSet i) st = set_at i (\<lambda>S i. insert i S) st"
| "set_exec (BsClear i) st = set_at i (\<lambda>S i. S - {i}) st"
| "set_exec (BsToggle i) st = set_at i (\<lambda>S i. if i \<in> S then S - {i} else insert i S) st"
| "set_exec (BsGet i0) st = (case i0 of
      Some i \<Rightarrow> if 0 \<le> i \<and> nat i < fst (fst st) then BsBool (nat i \<in> snd (fst st)) else BsThrows RangeError
    | None \<Rightarrow> BsThrows RangeError, st)"
| "set_exec BsCapacity st = (BsNumber (int (fst (fst st))), st)"
| "set_exec BsPopcount st = (BsNumber (int (card (snd (fst st)))), st)"
| "set_exec BsToArray st = (BsArray (map (\<lambda>i. Some (int i)) (sorted_list_of_set (snd (fst st)))), st)"
| "set_exec BsAnd st = set_with (\<inter>) st"
| "set_exec BsOr st = set_with (\<union>) st"
| "set_exec BsXor st = set_with (\<lambda>S T. (S - T) \<union> (T - S)) st"
| "set_exec BsNot st = (BsDone, (fst (fst st), {..<fst (fst st)} - snd (fst st)), snd st)"
| "set_exec BsSwap st = (BsDone, snd st, fst st)"

definition bs_rep2 :: "bitset \<times> bitset \<Rightarrow> sized \<times> sized \<Rightarrow> bool" where
  "bs_rep2 ab st \<longleftrightarrow> bs_rep (fst ab) (fst st) \<and> bs_rep (snd ab) (snd st)"

lemma bs_list_set:
  assumes "bs_rep bs s"
  shows "bs_list s = sorted_list_of_set (snd s)" "length (bs_list s) = card (snd s)"
proof -
  have "set (bs_list s) = snd s" "sorted (bs_list s)" "distinct (bs_list s)"
    using assms by (auto simp: bs_list_def bs_rep_def sorted_wrt_filter)
  then show "bs_list s = sorted_list_of_set (snd s)" "length (bs_list s) = card (snd s)"
    using sorted_list_of_set.idem_if_sorted_distinct[of "bs_list s"] distinct_card[of "bs_list s"] by auto
qed

lemma bs_update_calls:
  assumes "bs_rep a s"
  shows "fst s = n \<Longrightarrow> \<not> (\<exists>i. i0 = Some i \<and> 0 \<le> i \<and> nat i < n) \<Longrightarrow>
    bs_set a i0 = (Inl RangeError, a) \<and> bs_clear a i0 = (Inl RangeError, a) \<and>
    bs_toggle a i0 = (Inl RangeError, a) \<and> bs_get a i0 = Inl RangeError"
  using bs_checkBounds_ok[OF assms, of i0]
  by (auto simp: bs_set_def bs_clear_def bs_toggle_def bs_get_def split: option.splits if_splits)

lemma bs_exec_rep:
  assumes "bs_rep2 ab st"
  shows "fst (bs_exec c ab) = fst (set_exec c st) \<and> bs_rep2 (snd (bs_exec c ab)) (snd (set_exec c st))"
proof -
  obtain a b s t where ab: "ab = (a, b)" "st = (s, t)" "bs_rep a s" "bs_rep b t"
    using assms by (cases ab; cases st) (auto simp: bs_rep2_def)
  note bin = bs_binary_rep[OF ab(3,4)]
  have at: ?thesis if "c \<in> {BsSet i0, BsClear i0, BsToggle i0, BsGet i0}" for i0
  proof (cases "\<exists>i. i0 = Some i \<and> 0 \<le> i \<and> nat i < fst s")
    case True
    then obtain i where i: "i0 = Some i" "0 \<le> i" "nat i < fst s" by blast
    show ?thesis using that bs_set_rep[OF ab(3) i(2,3)] ab i
      by (auto simp: bs_rep2_def set_at_def bs_done_def)
  next
    case False
    then show ?thesis using that bs_update_calls[OF ab(3) refl False] ab
      by (auto simp: bs_rep2_def set_at_def bs_done_def split: option.splits if_splits)
  qed
  have alg: ?thesis if "c \<in> {BsAnd, BsOr, BsXor}"
  proof (cases "fst s = fst t")
    case True
    then show ?thesis using that bin(2-4)[OF True] ab by (auto simp: bs_rep2_def bs_replace_def set_with_def)
  next
    case False
    then show ?thesis using that bin(1) ab by (auto simp: bs_rep2_def bs_replace_def set_with_def)
  qed
  show ?thesis
  proof (cases c)
    case BsCapacity
    then show ?thesis using ab by (auto simp: bs_rep2_def bs_capacity_def bs_rep_def)
  next
    case BsPopcount
    then show ?thesis using ab bs_popcount_rep[OF ab(3)] bs_list_set[OF ab(3)] by (simp add: bs_rep2_def)
  next
    case BsToArray
    then show ?thesis using ab bs_toArray_rep[OF ab(3)] bs_list_set[OF ab(3)] by (simp add: bs_rep2_def)
  next
    case BsNot
    then show ?thesis using ab bs_not_rep[OF ab(3)] by (simp add: bs_rep2_def)
  next
    case BsSwap
    then show ?thesis using ab by (simp add: bs_rep2_def)
  qed (use at alg in blast)+
qed

section \<open>Properties\<close>

text \<open>
  C8. Every session on two bit sets answers as the same session on two sets of indices below the
  capacities: updates, membership, the population count and the ascending array, intersection, union,
  symmetric difference and complement, with \<open>RangeError\<close> for an index that is out of bounds or no
  integer and for different capacities; after an error nothing has changed.
\<close>

theorem bitset_session_refines_sets:
  assumes "bs_make (Some c) = Inr a" "bs_make (Some d) = Inr b"
  shows "fst (run_calls bs_exec cs (a, b)) = fst (run_calls set_exec cs ((nat c, {}), (nat d, {}))) \<and>
    bs_rep2 (snd (run_calls bs_exec cs (a, b))) (snd (run_calls set_exec cs ((nat c, {}), (nat d, {}))))"
proof (rule run_calls_refines[where R = bs_rep2])
  show "bs_rep2 (a, b) ((nat c, {}), (nat d, {}))"
    using assms bs_make_rep[of c] bs_make_rep[of d] by (auto simp: bs_make_ok bs_rep2_def split: if_splits)
qed (rule bs_exec_rep)

theorem bitset_session_refines_sets_witness:
  "fst (run_calls bs_exec [BsSet (Some 5), BsSet (Some 39), BsSet (Some 40), BsSet None, BsNot, BsPopcount, BsNot, BsToArray]
     (\<lparr>bsBits = [0, 0], bsLength = 40\<rparr>, \<lparr>bsBits = [0], bsLength = 7\<rparr>)) =
   [BsDone, BsDone, BsThrows RangeError, BsThrows RangeError, BsDone, BsNumber 38, BsDone, BsArray [Some 5, Some 39]]"
proof -
  have mk: "bs_make (Some 40) = Inr \<lparr>bsBits = [0, 0], bsLength = 40\<rparr>" "bs_make (Some 7) = Inr \<lparr>bsBits = [0], bsLength = 7\<rparr>"
    by (simp_all add: bs_make_ok numeral_2_eq_2)
  have c: "card ({..<40} - {39, 5 :: nat}) = 38" by (subst card_Diff_subset) auto
  have d: "{..<40} - ({..<40} - {39, 5 :: nat}) = {5, 39}" by auto
  show ?thesis
    using bitset_session_refines_sets[OF mk, of "[BsSet (Some 5), BsSet (Some 39), BsSet (Some 40), BsSet None, BsNot, BsPopcount, BsNot, BsToArray]"]
    by (simp add: set_at_def c d)
qed

text \<open>
  C19. The parallel population count of a 32-bit word, with its three masked additions and the product
  that sums the bytes, is the number of set bits of every word.
\<close>

theorem bitset_swar_popcount:
  "popcount32 v = int (card {i. i < 32 \<and> bit v i})"
proof -
  have "{i. i < 32 \<and> bit v i} = set (wbits v)" "distinct (wbits v)" by (auto simp: wbits_def)
  then show ?thesis using popcount32_ok[of v] distinct_card[of "wbits v"] by simp
qed

end
