(* ===== verification/JsText.thy ===== *)
theory JsText
  imports JsPrelude
begin

text \<open>
  JavaScript strings and numbers as the text modules use them.

  A string is the list of its UTF-16 code units; \<open>charCodeAt\<close> past either end is \<open>NaN\<close>, here
  \<^term>\<open>None\<close>, and every comparison with it but \<open>!==\<close> is false. \<open>of_text\<close> writes an ASCII literal.

  A number that an exported function takes from its caller can be any double. \<open>Whole i\<close> is an
  integer, \<open>Between k\<close> a fraction strictly between \<open>k\<close> and \<open>k + 1\<close>: the code compares such
  numbers with integers and truncates them, which this much decides.
\<close>

named_theorems text_ops \<open>definitions of string primitives\<close>

type_synonym jstr = "int list"

definition of_text :: "string \<Rightarrow> jstr" where
  [text_ops]: "of_text s = map of_char s"

definition char_at :: "jstr \<Rightarrow> int \<Rightarrow> int option" where
  "char_at s i = (if 0 \<le> i \<and> i < js_len s then Some (s ! nat i) else None)"

text \<open>\<open>s.slice(a, b)\<close> for \<open>0 \<le> a\<close> and \<open>0 \<le> b\<close>; \<open>s.startsWith(p, i)\<close>.\<close>

definition str_slice :: "jstr \<Rightarrow> int \<Rightarrow> int \<Rightarrow> jstr" where
  "str_slice s a b = take (nat b - nat a) (drop (nat a) s)"

definition str_from :: "jstr \<Rightarrow> int \<Rightarrow> jstr" where
  "str_from s a = drop (nat a) s"

section \<open>Numbers of callers\<close>

datatype js_number = Whole int | Between int | NaN | PosInf | NegInf

fun num_ge :: "js_number \<Rightarrow> int \<Rightarrow> bool" where
  "num_ge (Whole i) k = (k \<le> i)"
| "num_ge (Between i) k = (k \<le> i)"
| "num_ge PosInf k = True"
| "num_ge _ k = False"

fun num_gt :: "js_number \<Rightarrow> int \<Rightarrow> bool" where
  "num_gt (Whole i) k = (k < i)"
| "num_gt (Between i) k = (k \<le> i)"
| "num_gt PosInf k = True"
| "num_gt _ k = False"

fun num_lt :: "js_number \<Rightarrow> int \<Rightarrow> bool" where
  "num_lt (Whole i) k = (i < k)"
| "num_lt (Between i) k = (i < k)"
| "num_lt NegInf k = True"
| "num_lt _ k = False"

fun num_le :: "js_number \<Rightarrow> int \<Rightarrow> bool" where
  "num_le (Whole i) k = (i \<le> k)"
| "num_le (Between i) k = (i < k)"
| "num_le NegInf k = True"
| "num_le _ k = False"

text \<open>\<open>Number.isInteger\<close>, \<open>Number.isSafeInteger\<close>; truncation towards zero and \<open>Math.floor\<close>.\<close>

fun is_integer :: "js_number \<Rightarrow> bool" where
  "is_integer (Whole i) = True"
| "is_integer _ = False"

fun is_safe_integer :: "js_number \<Rightarrow> bool" where
  "is_safe_integer (Whole i) = (\<bar>i\<bar> \<le> 9007199254740991)"
| "is_safe_integer _ = False"

fun num_trunc :: "js_number \<Rightarrow> int option" where
  "num_trunc (Whole i) = Some i"
| "num_trunc (Between i) = Some (if 0 \<le> i then i else i + 1)"
| "num_trunc _ = None"

fun num_floor :: "js_number \<Rightarrow> int option" where
  "num_floor (Whole i) = Some i"
| "num_floor (Between i) = Some i"
| "num_floor _ = None"

text \<open>
  \<open>(a / b) | 0\<close> for \<open>b > 0\<close>: the quotient truncated, then to 32 bits. The operands of the code are
  so small that the rounded quotient of the doubles has the same integer part.
\<close>

definition js_quot :: "int \<Rightarrow> int \<Rightarrow> int" where
  "js_quot a b = to_int32 (if 0 \<le> a then a div b else - (- a div b))"

text \<open>\<open>a % b\<close>: the sign of the dividend.\<close>

definition js_rem :: "int \<Rightarrow> int \<Rightarrow> int" where
  "js_rem a b = (if 0 \<le> a then a mod \<bar>b\<bar> else - (- a mod \<bar>b\<bar>))"

section \<open>Decimal text\<close>

function digits_of :: "int \<Rightarrow> jstr" where
  "digits_of n = (if n < 10 then [48 + n] else digits_of (n div 10) @ [48 + n mod 10])"
  by pat_completeness auto
termination by (relation "measure nat") auto

declare digits_of.simps [simp del]

text \<open>\<open>String(n)\<close> of an integer below \<open>10 ^ 21\<close> in size; \<open>s.padStart(n, "0")\<close>.\<close>

definition str_of_int :: "int \<Rightarrow> jstr" where
  "str_of_int n = (if n < 0 then 45 # digits_of (- n) else digits_of n)"

definition padStart0 :: "int \<Rightarrow> jstr \<Rightarrow> jstr" where
  "padStart0 n s = replicate (nat n - length s) 48 @ s"

text \<open>The element of a table of strings in a template: a read past the end prints \<open>undefined\<close>.\<close>

definition table_text :: "jstr list \<Rightarrow> int \<Rightarrow> jstr" where
  "table_text t i = (if 0 \<le> i \<and> i < js_len t then t ! nat i else of_text ''undefined'')"

definition pad_table :: "int \<Rightarrow> int \<Rightarrow> jstr list" where
  "pad_table n w = map (\<lambda>i. padStart0 w (str_of_int i)) [0..n - 1]"

section \<open>Lemmas\<close>

lemma char_at_Cons: "char_at (c # s) i = (if i = 0 then Some c else char_at s (i - 1))"
proof (cases "i \<le> 0")
  case True
  then show ?thesis by (auto simp: char_at_def js_len_def)
next
  case False
  then have "nat i = Suc (nat (i - 1))" by simp
  with False show ?thesis by (auto simp: char_at_def js_len_def)
qed

lemma char_at_Nil [simp]: "char_at [] i = None"
  by (simp add: char_at_def js_len_def)

lemma char_at_append:
  "char_at (s @ t) i = (if i < js_len s then char_at s i else char_at t (i - js_len s))"
  by (auto simp: char_at_def js_len_def nth_append nat_diff_distrib)

lemma char_at_Some: "char_at s i = Some c \<longleftrightarrow> 0 \<le> i \<and> i < js_len s \<and> s ! nat i = c"
  by (auto simp: char_at_def)

lemma char_at_drop: "0 \<le> j \<Longrightarrow> 0 \<le> i \<Longrightarrow> char_at (drop (nat j) s) i = char_at s (j + i)"
  by (auto simp: char_at_def js_len_def nat_add_distrib)

lemma char_at_neg [simp]: "i < 0 \<Longrightarrow> char_at s i = None"
  by (simp add: char_at_def)

lemma js_len_simps [simp]: "js_len [] = 0" "js_len (x # xs) = 1 + js_len xs"
    "js_len (xs @ ys) = js_len xs + js_len ys" "0 \<le> js_len xs"
  by (auto simp: js_len_def)

lemma js_quot_div: "0 \<le> a \<Longrightarrow> a < 2 ^ 31 \<Longrightarrow> 0 < b \<Longrightarrow> js_quot a b = a div b"
proof -
  assume a: "0 \<le> a" "a < 2 ^ 31" "0 < b"
  have "a div b \<le> a div 1" using a by (intro zdiv_mono2) auto
  then have "to_int32 (a div b) = a div b"
    using a pos_imp_zdiv_nonneg_iff[of b a] by (intro to_int32_id) auto
  then show ?thesis using a by (simp add: js_quot_def)
qed

lemma digits_of_1: "n < 10 \<Longrightarrow> digits_of n = [48 + n]"
  by (subst digits_of.simps) simp

lemma digits_of_step: "10 \<le> n \<Longrightarrow> digits_of n = digits_of (n div 10) @ [48 + n mod 10]"
  by (subst digits_of.simps) simp

lemma digits_2: "0 \<le> n \<Longrightarrow> n < 100 \<Longrightarrow> padStart0 2 (str_of_int n) = [48 + n div 10, 48 + n mod 10]"
proof (cases "n < 10")
  case True
  then show "0 \<le> n \<Longrightarrow> ?thesis" by (simp add: str_of_int_def digits_of_1 padStart0_def)
next
  case False
  assume "0 \<le> n" "n < 100"
  with False show ?thesis by (simp add: str_of_int_def digits_of_1 digits_of_step padStart0_def)
qed

lemma padStart0_step:
  assumes "10 \<le> n" "0 < w"
  shows "padStart0 w (str_of_int n) = padStart0 (w - 1) (str_of_int (n div 10)) @ [48 + n mod 10]"
proof -
  have "\<not> n div 10 < 0" using assms by linarith
  moreover have "nat w - Suc k = nat (w - 1) - k" for k using assms by simp
  ultimately show ?thesis using assms(1) by (simp add: str_of_int_def digits_of_step padStart0_def)
qed

lemma padStart0_small:
  assumes "0 \<le> n" "n < 10" "0 < w"
  shows "padStart0 w (str_of_int n) = replicate (nat (w - 1)) 48 @ [48 + n]"
  using assms by (simp add: str_of_int_def digits_of_1 padStart0_def nat_diff_distrib)

lemma padStart0_snoc:
  assumes "0 \<le> n" "1 < w"
  shows "padStart0 w (str_of_int n) = padStart0 (w - 1) (str_of_int (n div 10)) @ [48 + n mod 10]"
proof (cases "10 \<le> n")
  case True
  then show ?thesis using assms by (intro padStart0_step) auto
next
  case False
  have "nat (w - 1) = Suc (nat (w - 1 - 1))" using assms by simp
  then have "replicate (nat (w - 1)) (48::int) = replicate (nat (w - 1 - 1)) 48 @ [48]"
    by (simp add: replicate_append_same)
  moreover have "n div 10 = 0" "n mod 10 = n" using assms False by auto
  ultimately show ?thesis using assms False
    padStart0_small[of n w] padStart0_small[of 0 "w - 1"] by simp
qed

lemma digits_3: "0 \<le> n \<Longrightarrow> n < 1000 \<Longrightarrow>
    padStart0 3 (str_of_int n) = [48 + n div 100, 48 + n div 10 mod 10, 48 + n mod 10]"
  using padStart0_snoc[of n 3] digits_2[of "n div 10"] by (simp add: div_mult2_eq[symmetric] zdiv_zmult2_eq[symmetric])

lemma digits_4: "0 \<le> n \<Longrightarrow> n < 10000 \<Longrightarrow> padStart0 4 (str_of_int n) =
    [48 + n div 1000, 48 + n div 100 mod 10, 48 + n div 10 mod 10, 48 + n mod 10]"
  using padStart0_snoc[of n 4] digits_3[of "n div 10"] by (simp add: zdiv_zmult2_eq[symmetric])

lemma digits_4_plain: "1000 \<le> n \<Longrightarrow> n < 10000 \<Longrightarrow> str_of_int n = padStart0 4 (str_of_int n)"
  by (simp add: str_of_int_def digits_of_1 digits_of_step padStart0_def)

lemma pad_table_text: "0 \<le> i \<Longrightarrow> i < n \<Longrightarrow> table_text (pad_table n w) i = padStart0 w (str_of_int i)"
  by (simp add: table_text_def pad_table_def js_len_def)

end
