(* ===== verification/ISODate.thy ===== *)
theory ISODate
  imports JsText
begin

text \<open>
  \<open>ISODate.ts\<close>: calendar dates \<open>YYYY-MM-DD\<close>.

  The validator, the conversions to and from day numbers (days since 1970-01-01) and the day
  arithmetic are modelled on code units and integers. A \<open>Date\<close> object is its time value:
  \<open>Some ms\<close>, or \<^term>\<open>None\<close> for an invalid date, whose \<open>getTime()\<close> is \<open>NaN\<close>. Time values are
  integers of at most \<open>8.64e15\<close> in size, so the double quotient by a day's milliseconds never
  rounds up to the next integer and \<open>Math.floor\<close> of it is the integer quotient.

  The lemmas show that \<open>fromDays\<close> and \<open>toDays\<close> are inverse bijections between the day numbers of
  years 0000 to 9999 and the accepted strings, and that they count days of the calendar that
  \<open>daysInMonth\<close> defines.
\<close>

section \<open>The code\<close>

definition DAYS_IN_MONTH :: "int list" where
  "DAYS_IN_MONTH = [31, 28, 31, 30, 31, 30, 31, 31, 30, 31, 30, 31]"

definition daysInMonth :: "int \<Rightarrow> int \<Rightarrow> int" where
  "daysInMonth year month =
     (if month = 2
      then if js_rem year 4 = 0 \<and> (js_rem year 100 \<noteq> 0 \<or> js_rem year 400 = 0) then 29 else 28
      else if 0 \<le> month - 1 \<and> month - 1 < js_len DAYS_IN_MONTH then DAYS_IN_MONTH ! nat (month - 1)
      else 0)"

definition num2 :: "jstr \<Rightarrow> int \<Rightarrow> int" where
  "num2 s i = (case (char_at s i, char_at s (i + 1)) of
      (Some x, Some y) \<Rightarrow>
        (let a = x - 48; b = y - 48
         in if a \<ge> 0 \<and> a \<le> 9 \<and> b \<ge> 0 \<and> b \<le> 9 then a * 10 + b else -1)
    | _ \<Rightarrow> -1)"

definition isISODate :: "jstr \<Rightarrow> bool" where
  "isISODate s =
     (if js_len s \<noteq> 10 \<or> char_at s 4 \<noteq> Some 45 \<or> char_at s 7 \<noteq> Some 45 then False
      else
        let hi = num2 s 0; lo = num2 s 2; month = num2 s 5; day = num2 s 8
        in hi \<ge> 0 \<and> lo \<ge> 0 \<and> day \<ge> 1 \<and> day \<le> daysInMonth (hi * 100 + lo) month)"

definition isoDate :: "jstr \<Rightarrow> jstr outcome" where
  "isoDate s = (if \<not> isISODate s then Inl RangeError else Inr s)"

definition "MS_PER_DAY = (86400000 :: int)"
definition "MIN_DAY = (- 719528 :: int)"
definition "MAX_DAY = (2932896 :: int)"

definition toDays :: "jstr \<Rightarrow> int" where
  "toDays s =
     (let m = num2 s 5;
          d = num2 s 8;
          y = num2 s 0 * 100 + num2 s 2 - (if m \<le> 2 then 1 else 0);
          era = y div 400;
          yoe = y - era * 400;
          doy = js_quot (153 * (if m > 2 then m - 3 else m + 9) + 2) 5 + d - 1;
          doe = yoe * 365 + js_quot yoe 4 - js_quot yoe 100 + doy
      in era * 146097 + doe - 719468)"

definition PAD2 :: "jstr list" where
  "PAD2 = pad_table 32 2"

definition fromDays :: "int \<Rightarrow> jstr" where
  "fromDays days =
     (let z = days + 719468;
          era = z div 146097;
          doe = z - era * 146097;
          yoe = js_quot (doe - js_quot doe 1460 + js_quot doe 36524 - js_quot doe 146096) 365;
          doy = doe - (365 * yoe + js_quot yoe 4 - js_quot yoe 100);
          mp = js_quot (5 * doy + 2) 153;
          d = doy - js_quot (153 * mp + 2) 5 + 1;
          m = (if mp < 10 then mp + 3 else mp - 9);
          y = yoe + era * 400 + (if m \<le> 2 then 1 else 0);
          ys = (if y \<ge> 1000 then str_of_int y else padStart0 4 (str_of_int y))
      in ys @ of_text ''-'' @ table_text PAD2 m @ of_text ''-'' @ table_text PAD2 d)"

definition checkRange :: "int option \<Rightarrow> int outcome" where
  "checkRange days = (case days of
      Some n \<Rightarrow> if \<not> (n \<ge> MIN_DAY \<and> n \<le> MAX_DAY) then Inl RangeError else Inr n
    | None \<Rightarrow> Inl RangeError)"

definition fromDate :: "int option \<Rightarrow> jstr outcome" where
  "fromDate time = map_sum id fromDays (checkRange (map_option (\<lambda>t. t div MS_PER_DAY) time))"

text \<open>The clock's reading is an argument.\<close>

definition today :: "int \<Rightarrow> jstr" where
  "today now = fromDays (now div MS_PER_DAY)"

text \<open>
  The sum of a day number and a safe integer may be rounded by the doubles, but then both sums are
  far outside the range, so \<open>checkRange\<close> answers the same.
\<close>

definition addDays :: "jstr \<Rightarrow> js_number \<Rightarrow> jstr outcome" where
  "addDays date n =
     (if \<not> is_safe_integer n then Inl RangeError
      else map_sum id fromDays (checkRange (map_option (\<lambda>k. toDays date + k) (num_trunc n))))"

definition toDate :: "jstr \<Rightarrow> int" where
  "toDate date = toDays date * MS_PER_DAY"

section \<open>The text of a date\<close>

type_synonym civil = "int \<times> int \<times> int"

fun civil_ok :: "civil \<Rightarrow> bool" where
  "civil_ok (y, m, d) =
     (0 \<le> y \<and> y \<le> 9999 \<and> 1 \<le> m \<and> m \<le> 12 \<and> 1 \<le> d \<and> d \<le> daysInMonth y m)"

definition two :: "int \<Rightarrow> jstr" where
  "two n = [48 + n div 10, 48 + n mod 10]"

fun iso_text :: "civil \<Rightarrow> jstr" where
  "iso_text (y, m, d) = two (y div 100) @ two (y mod 100) @ [45] @ two m @ [45] @ two d"

lemma num2_at:
  assumes "0 \<le> n" "n < 100" "char_at s i = Some (48 + n div 10)" "char_at s (i + 1) = Some (48 + n mod 10)"
  shows "num2 s i = n"
proof -
  have "n div 10 * 10 + n mod 10 = n" by simp
  moreover have "n div 10 \<le> 9" "0 \<le> n div 10" "n mod 10 \<le> 9" "0 \<le> n mod 10" using assms by linarith+
  ultimately show ?thesis unfolding num2_def assms(3,4) by (simp add: Let_def)
qed

lemma num2_inv:
  assumes "0 \<le> num2 s i"
  shows "char_at s i = Some (48 + num2 s i div 10)" "char_at s (i + 1) = Some (48 + num2 s i mod 10)"
    "num2 s i < 100"
proof -
  obtain x y where c: "char_at s i = Some x" "char_at s (i + 1) = Some y"
    and b: "48 \<le> x" "x \<le> 57" "48 \<le> y" "y \<le> 57"
    using assms by (auto simp: num2_def Let_def split: option.splits if_splits)
  define u where "u = x - 48"
  define v where "v = y - 48"
  have uv: "0 \<le> v" "v \<le> 9" "x = 48 + u" "y = 48 + v" "u \<le> 9" using b by (auto simp: u_def v_def)
  have n: "num2 s i = u * 10 + v" unfolding num2_def c using b by (simp add: Let_def u_def v_def)
  have "num2 s i div 10 = u" "num2 s i mod 10 = v" unfolding n using uv by auto
  then show "char_at s i = Some (48 + num2 s i div 10)" "char_at s (i + 1) = Some (48 + num2 s i mod 10)"
      "num2 s i < 100" using c uv n by auto
qed

lemma num2_le: "num2 s i \<le> 99"
  by (auto simp: num2_def Let_def split: option.splits)

lemma num2_two: "0 \<le> n \<Longrightarrow> n < 100 \<Longrightarrow> js_len p = i \<Longrightarrow> num2 (p @ two n @ r) i = n"
  by (rule num2_at) (auto simp: two_def char_at_append char_at_Cons)

lemma iso_text_num2:
  assumes "civil_ok (y, m, d)"
  shows "num2 (iso_text (y, m, d) @ r) 0 = y div 100" "num2 (iso_text (y, m, d) @ r) 2 = y mod 100"
    "num2 (iso_text (y, m, d) @ r) 5 = m" "num2 (iso_text (y, m, d) @ r) 8 = d"
proof -
  have d: "d \<le> 31" using assms by (auto simp: daysInMonth_def DAYS_IN_MONTH_def nth_Cons' split: if_splits)
  have y: "0 \<le> y div 100" "y div 100 < 100" using assms by auto
  show "num2 (iso_text (y, m, d) @ r) 0 = y div 100"
    using num2_two[of "y div 100" "[]" 0] y by simp
  show "num2 (iso_text (y, m, d) @ r) 2 = y mod 100"
    using num2_two[of "y mod 100" "two (y div 100)" 2] by (simp add: two_def)
  show "num2 (iso_text (y, m, d) @ r) 5 = m"
    using num2_two[of m "two (y div 100) @ two (y mod 100) @ [45]" 5] assms by (simp add: two_def)
  show "num2 (iso_text (y, m, d) @ r) 8 = d"
    using num2_two[of d "two (y div 100) @ two (y mod 100) @ [45] @ two m @ [45]" 8] assms d
    by (simp add: two_def)
qed

lemma iso_text_chars:
  "js_len (iso_text c) = 10" "char_at (iso_text c @ r) 4 = Some 45" "char_at (iso_text c @ r) 7 = Some 45"
  by (cases c; simp add: two_def char_at_Cons)+

lemma isISODate_text: "civil_ok c \<Longrightarrow> isISODate (iso_text c)"
proof (cases c)
  case (fields y m d)
  assume "civil_ok c"
  then show ?thesis
    using iso_text_num2[of y m d "[]"] iso_text_chars(2,3)[of c "[]"] iso_text_chars(1)[of c]
    unfolding fields by (simp add: isISODate_def mult.commute pos_imp_zdiv_nonneg_iff del: iso_text.simps)
qed

lemma daysInMonth_pos: "1 \<le> daysInMonth y m \<Longrightarrow> 1 \<le> m \<and> m \<le> 12"
  by (auto simp: daysInMonth_def DAYS_IN_MONTH_def js_len_def split: if_splits)

lemma jstr_eqI:
  assumes "js_len s = js_len t" "\<And>i. 0 \<le> i \<Longrightarrow> i < js_len t \<Longrightarrow> char_at s i = char_at t i"
  shows "s = t"
proof (rule nth_equalityI)
  show "length s = length t" using assms(1) by (simp add: js_len_def)
  fix n assume "n < length s"
  then show "s ! n = t ! n" using assms(1) assms(2)[of "int n"] by (auto simp: char_at_def js_len_def)
qed

lemma text_of_chars:
  assumes "js_len s = 10" "char_at s 4 = Some 45" "char_at s 7 = Some 45"
    and n: "0 \<le> num2 s 0" "0 \<le> num2 s 2" "0 \<le> num2 s 5" "0 \<le> num2 s 8"
  shows "s = iso_text (num2 s 0 * 100 + num2 s 2, num2 s 5, num2 s 8)"
proof (rule jstr_eqI)
  let ?t = "iso_text (num2 s 0 * 100 + num2 s 2, num2 s 5, num2 s 8)"
  show "js_len s = js_len ?t" by (simp only: assms(1) iso_text_chars(1))
  have "(num2 s 0 * 100 + num2 s 2) div 100 = num2 s 0" "(num2 s 0 * 100 + num2 s 2) mod 100 = num2 s 2"
    using n num2_le[of s 2] by auto
  then have t: "?t = two (num2 s 0) @ two (num2 s 2) @ [45] @ two (num2 s 5) @ [45] @ two (num2 s 8)"
    by simp
  fix i :: int
  assume i: "0 \<le> i" "i < js_len ?t"
  then have "i < 10" by (simp only: iso_text_chars(1))
  then have "i \<in> {0, 1, 2, 3, 4, 5, 6, 7, 8, 9}" using i(1) by simp presburger
  then show "char_at s i = char_at ?t i"
    unfolding t using assms(2,3) num2_inv(1,2)[OF n(1)] num2_inv(1,2)[OF n(2)]
      num2_inv(1,2)[OF n(3)] num2_inv(1,2)[OF n(4)]
    by (elim insertE) (simp_all add: two_def char_at_Cons)
qed

lemma isISODate_civil:
  assumes "isISODate s"
  obtains c where "civil_ok c" "s = iso_text c"
proof -
  let ?y = "num2 s 0 * 100 + num2 s 2"
  have s: "js_len s = 10" "char_at s 4 = Some 45" "char_at s 7 = Some 45"
      "0 \<le> num2 s 0" "0 \<le> num2 s 2" "1 \<le> num2 s 8" "num2 s 8 \<le> daysInMonth ?y (num2 s 5)"
    using assms by (auto simp: isISODate_def Let_def split: if_splits)
  then have m: "1 \<le> num2 s 5 \<and> num2 s 5 \<le> 12" using daysInMonth_pos[of ?y "num2 s 5"] by linarith
  have "s = iso_text (?y, num2 s 5, num2 s 8)" using s m by (intro text_of_chars) auto
  moreover have "civil_ok (?y, num2 s 5, num2 s 8)" using s m num2_le[of s 0] num2_le[of s 2] by auto
  ultimately show ?thesis using that by blast
qed

lemma isISODate_iff: "isISODate s \<longleftrightarrow> (\<exists>c. civil_ok c \<and> s = iso_text c)"
  using isISODate_text isISODate_civil by metis
section \<open>Day numbers\<close>

text \<open>Years that begin in March: day \<open>doe\<close> of a 400-year era is day \<open>doy\<close> of year \<open>yoe\<close>.\<close>

definition year_start :: "int \<Rightarrow> int" where
  "year_start k = 365 * k + k div 4 - k div 100"

definition leap :: "int \<Rightarrow> bool" where
  "leap y \<longleftrightarrow> y mod 4 = 0 \<and> (y mod 100 \<noteq> 0 \<or> y mod 400 = 0)"

definition in_era :: "int \<Rightarrow> int \<Rightarrow> bool" where
  "in_era k doy \<longleftrightarrow> 0 \<le> k \<and> k < 400 \<and> 0 \<le> doy \<and> doy \<le> (if leap (k + 1) then 365 else 364)"

lemma div_eqI: "0 < b \<Longrightarrow> q * b \<le> a \<Longrightarrow> a < (q + 1) * b \<Longrightarrow> a div b = (q::int)"
  by (rule int_div_pos_eq[of a b q "a - b * q"]) (simp_all add: algebra_simps)

lemma mod_eq_0_top: "0 < x \<Longrightarrow> x \<le> n \<Longrightarrow> x mod n = 0 \<longleftrightarrow> x = (n::int)"
  by (cases "x = n") (auto simp: mod_pos_pos_trivial)

lemma parts_of_year:
  fixes k c q r :: int
  assumes k: "k = 100 * c + 4 * q + r"
    and b: "0 \<le> c" "c < 4" "0 \<le> q" "q < 25" "0 \<le> r" "r < 4"
  shows "k div 100 = c" "k div 4 = 25 * c + q" "leap (k + 1) \<longleftrightarrow> r = 3 \<and> (q \<noteq> 24 \<or> c = 3)"
proof -
  show "k div 100 = c" "k div 4 = 25 * c + q" using b by (auto simp: k intro: div_eqI)
  have "(k + 1) mod 4 = (r + 1 + 4 * (25 * c + q)) mod 4" unfolding k by (simp add: algebra_simps)
  then have 4: "(k + 1) mod 4 = 0 \<longleftrightarrow> r + 1 = 4" unfolding mod_mult_self2 using b by (simp add: mod_eq_0_top)
  have "(k + 1) mod 100 = (4 * q + r + 1 + 100 * c) mod 100" unfolding k by (simp add: algebra_simps)
  then have 100: "(k + 1) mod 100 = 0 \<longleftrightarrow> 4 * q + r + 1 = 100"
    unfolding mod_mult_self2 using b by (simp add: mod_eq_0_top)
  have 400: "(k + 1) mod 400 = 0 \<longleftrightarrow> k + 1 = 400" using b k by (intro mod_eq_0_top) auto
  show "leap (k + 1) \<longleftrightarrow> r = 3 \<and> (q \<noteq> 24 \<or> c = 3)"
    unfolding leap_def 4 100 400 using b k by auto
qed

lemma era_parts:
  assumes "0 \<le> k" "k < (400::int)"
  obtains c q r where "k = 100 * c + 4 * q + r" "0 \<le> c" "c < 4" "0 \<le> q" "q < 25" "0 \<le> r" "r < 4"
proof -
  have "k = 100 * (k div 100) + 4 * (k mod 100 div 4) + k mod 100 mod 4" by simp
  moreover have "0 \<le> k div 100" "k div 100 < 4" "0 \<le> k mod 100 div 4" "k mod 100 div 4 < 25"
      "0 \<le> k mod 100 mod 4" "k mod 100 mod 4 < 4" using assms by auto
  ultimately show ?thesis using that by blast
qed

lemma year_of_day:
  assumes "in_era k doy"
  defines "doe \<equiv> year_start k + doy"
  shows "(doe - doe div 1460 + doe div 36524 - doe div 146096) div 365 = k" "0 \<le> doe" "doe \<le> 146096"
proof -
  obtain c q r where k: "k = 100 * c + 4 * q + r" "0 \<le> c" "c < 4" "0 \<le> q" "q < 25" "0 \<le> r" "r < 4"
    using assms era_parts unfolding in_era_def by metis
  note p = parts_of_year[OF k]
  have doe: "doe = 36524 * c + 1461 * q + 365 * r + doy"
    unfolding doe_def year_start_def p(1,2) using k(1) by simp
  have doy: "0 \<le> doy" "doy \<le> 365" "doy = 365 \<longrightarrow> r = 3 \<and> (q \<noteq> 24 \<or> c = 3)"
    using assms(1) p(3) unfolding in_era_def by (auto split: if_splits)
  show "0 \<le> doe" using doy k unfolding doe by simp
  show "doe \<le> 146096" using doy k unfolding doe by auto
  define e where "e = 24 * c + q + 365 * r + doy"
  define t where "t = (if 1460 \<le> e then 1 else 0 :: int)"
  have e: "e \<le> 1556" "0 \<le> e" using k doy unfolding e_def by auto
  have a: "doe div 1460 = 25 * c + q + t"
    by (rule div_eqI) (use e in \<open>auto simp: doe e_def t_def\<close>)
  define l where "l = (if c = 3 \<and> q = 24 \<and> r = 3 \<and> doy = 365 then 1 else 0 :: int)"
  have b: "doe div 36524 = c + l"
    by (rule div_eqI) (use k doy in \<open>auto simp: doe l_def\<close>)
  have c: "doe div 146096 = l"
    by (rule div_eqI) (use k doy in \<open>auto simp: doe l_def\<close>)
  have "0 \<le> doy - t \<and> doy - t \<le> 364"
    using k doy by (auto simp: t_def e_def)
  then show "(doe - doe div 1460 + doe div 36524 - doe div 146096) div 365 = k"
    unfolding a b c by (intro div_eqI) (auto simp: doe k(1))
qed

lemma day_of_era:
  assumes "0 \<le> doe" "doe \<le> 146096"
  obtains k doy where "in_era k doy" "doe = year_start k + doy"
proof -
  define c where "c = min 3 (doe div 36524)"
  define u where "u = doe - 36524 * c"
  define q where "q = u div 1461"
  define v where "v = u - 1461 * q"
  define r where "r = min 3 (v div 365)"
  define k where "k = 100 * c + 4 * q + r"
  have c: "0 \<le> c" "c \<le> 3" "0 \<le> u" "u \<le> 36524" "u = 36524 \<longrightarrow> c = 3"
    using assms unfolding c_def u_def by (auto simp: min_def)
  have q: "0 \<le> q" "q \<le> 24" "0 \<le> v" "v \<le> 1460" "q = 24 \<longrightarrow> v = 1460 \<longrightarrow> c = 3"
    using c unfolding q_def v_def by auto
  have r: "0 \<le> r" "r \<le> 3" "0 \<le> v - 365 * r" "v - 365 * r \<le> 365" "v - 365 * r = 365 \<longrightarrow> r = 3 \<and> v = 1460"
    using q unfolding r_def by (auto simp: min_def)
  have lt: "c < 4" "q < 25" "r < 4" using c(2) q(2) r(2) by linarith+
  have "0 \<le> k" "k < 400" unfolding k_def using c(1) lt q(1) r(1) by linarith+
  note k = this parts_of_year[OF k_def c(1) lt(1) q(1) lt(2) r(1) lt(3)]
  define w where "w = v - 365 * r"
  have "w = 365 \<longrightarrow> leap (k + 1)" "0 \<le> w" "w \<le> 365" using k(5) r q(5) unfolding w_def by blast+
  then have "in_era k w" using k(1,2) unfolding in_era_def by (cases "leap (k + 1)") auto
  moreover have "doe = year_start k + w"
    unfolding year_start_def k w_def by (simp add: k_def v_def u_def)
  ultimately show ?thesis using that by blast
qed
text \<open>Months from March: month \<open>mp\<close> begins on day \<open>(153 mp + 2) div 5\<close> of the year.\<close>

definition shifted_month :: "int \<Rightarrow> int" where
  "shifted_month m = (if m > 2 then m - 3 else m + 9)"

definition calendar_month :: "int \<Rightarrow> int" where
  "calendar_month mp = (if mp < 10 then mp + 3 else mp - 9)"

definition month_of :: "int \<Rightarrow> int" where
  "month_of doy = (5 * doy + 2) div 153"

definition day_in_month :: "int \<Rightarrow> int" where
  "day_in_month doy = doy - (153 * month_of doy + 2) div 5 + 1"

definition day_of_year :: "int \<Rightarrow> int \<Rightarrow> int" where
  "day_of_year m d = (153 * shifted_month m + 2) div 5 + d - 1"

text \<open>The length of a month, with 29 days for February.\<close>

definition longest :: "int \<Rightarrow> int" where
  "longest m = (if m = 2 then 29 else DAYS_IN_MONTH ! nat (m - 1))"

lemma doy_table: "\<forall>doy\<in>set [0..365].
    month_of doy \<in> {0..11} \<and> calendar_month (month_of doy) \<in> {1..12} \<and>
    day_of_year (calendar_month (month_of doy)) (day_in_month doy) = doy \<and>
    1 \<le> day_in_month doy \<and> day_in_month doy \<le> longest (calendar_month (month_of doy)) \<and>
    (calendar_month (month_of doy) = 2 \<and> day_in_month doy = 29 \<longleftrightarrow> doy = 365)"
  by code_simp

lemma month_table: "\<forall>m\<in>set [1..12]. \<forall>d\<in>set [1..longest m].
    calendar_month (month_of (day_of_year m d)) = m \<and> day_in_month (day_of_year m d) = d \<and>
    0 \<le> day_of_year m d \<and> day_of_year m d \<le> 365 \<and> (day_of_year m d = 365 \<longleftrightarrow> m = 2 \<and> d = 29) \<and>
    (m \<le> 2 \<longleftrightarrow> 306 \<le> day_of_year m d)"
  unfolding longest_def DAYS_IN_MONTH_def by code_simp

lemma daysInMonth_longest:
  assumes "1 \<le> m" "m \<le> 12" "0 \<le> y"
  shows "daysInMonth y m = (if m = 2 \<and> \<not> leap y then 28 else longest m)"
  using assms by (auto simp: daysInMonth_def longest_def leap_def js_rem_def DAYS_IN_MONTH_def js_len_def)

text \<open>The arithmetic of \<open>toDays\<close> and \<open>fromDays\<close>, without the text.\<close>

fun days_of :: "civil \<Rightarrow> int" where
  "days_of (y, m, d) =
     (let y' = y - (if m \<le> 2 then 1 else 0)
      in y' div 400 * 146097 + year_start (y' mod 400) + day_of_year m d - 719468)"

definition year_of_doe :: "int \<Rightarrow> int" where
  "year_of_doe doe = (doe - doe div 1460 + doe div 36524 - doe div 146096) div 365"

definition civil_of :: "int \<Rightarrow> civil" where
  "civil_of n =
     (let z = n + 719468; era = z div 146097; doe = z mod 146097; k = year_of_doe doe;
          doy = doe - year_start k; m = calendar_month (month_of doy)
      in (k + era * 400 + (if m \<le> 2 then 1 else 0), m, day_in_month doy))"

lemma civil_ok_bounds:
  assumes "civil_ok (y, m, d)"
  shows "m \<in> set [1..12]" "d \<in> set [1..longest m]" "m = 2 \<longrightarrow> d = 29 \<longrightarrow> leap y"
  using assms daysInMonth_longest[of m y] by (auto simp: longest_def split: if_splits)

lemma leap_mod: "leap (400 * e + y) = leap y"
proof -
  have "400 * e + y = y + 4 * (100 * e)" "400 * e + y = y + 100 * (4 * e)" "400 * e + y = y + 400 * e" by auto
  then show ?thesis unfolding leap_def by (metis mod_mult_self2)
qed

lemma civil_era:
  assumes "civil_ok (y, m, d)"
  defines "y' \<equiv> y - (if m \<le> 2 then 1 else 0)"
  shows "in_era (y' mod 400) (day_of_year m d)"
proof -
  note b = civil_ok_bounds[OF assms(1)]
  note t = bspec[OF bspec[OF month_table b(1)] b(2)]
  have "leap (y' + 1) = leap (y' mod 400 + 1)"
    using leap_mod[of "y' div 400" "y' mod 400 + 1"] by (simp add: add.assoc[symmetric])
  then have "day_of_year m d = 365 \<longrightarrow> leap (y' mod 400 + 1)" using t b(3) by (auto simp: y'_def)
  then show ?thesis using t by (auto simp: in_era_def)
qed

lemma civil_of_days_of:
  assumes c: "civil_ok (y, m, d)"
  shows "civil_of (days_of (y, m, d)) = (y, m, d)"
proof -
  define y' where "y' = y - (if m \<le> 2 then 1 else 0)"
  define doe where "doe = year_start (y' mod 400) + day_of_year m d"
  note e = year_of_day[OF civil_era[OF c, folded y'_def], folded doe_def]
  have n: "days_of (y, m, d) + 719468 = doe + y' div 400 * 146097"
    by (simp add: Let_def y'_def doe_def)
  have z: "(days_of (y, m, d) + 719468) div 146097 = y' div 400"
      "(days_of (y, m, d) + 719468) mod 146097 = doe"
    unfolding n using e(2,3) by auto
  have k: "year_of_doe doe = y' mod 400" using e(1) by (simp add: year_of_doe_def)
  have doy: "doe - year_start (y' mod 400) = day_of_year m d" by (simp add: doe_def)
  note b = civil_ok_bounds[OF c]
  note t = bspec[OF bspec[OF month_table b(1)] b(2)]
  have "y' mod 400 + y' div 400 * 400 = y'" by simp
  then show ?thesis
    unfolding civil_of_def Let_def z k doy using t by (simp add: y'_def)
qed

lemma civil_of_inverse:
  assumes "n + 719468 = doe + era * 146097" "doe = year_start k + doy" "in_era k doy"
  defines "m \<equiv> calendar_month (month_of doy)"
  shows "civil_of n = (k + era * 400 + (if m \<le> 2 then 1 else 0), m, day_in_month doy)"
    "days_of (civil_of n) = n"
    "d = day_in_month doy \<Longrightarrow> y = fst (civil_of n) \<Longrightarrow> 0 \<le> y \<Longrightarrow> 1 \<le> m \<and> m \<le> 12 \<and> 1 \<le> d \<and> d \<le> daysInMonth y m"
proof -
  note e = year_of_day[OF assms(3), folded assms(2)]
  have z: "(n + 719468) div 146097 = era" "(n + 719468) mod 146097 = doe"
    unfolding assms(1) using e(2,3) by auto
  have k: "year_of_doe doe = k" using e(1) by (simp add: year_of_doe_def)
  have doy: "doe - year_start k = doy" by (simp add: assms(2))
  show c: "civil_of n = (k + era * 400 + (if m \<le> 2 then 1 else 0), m, day_in_month doy)"
    unfolding civil_of_def Let_def z k doy m_def by (rule refl)
  have kb: "0 \<le> k" "k < 400" "doy \<in> set [0..365]" and l: "doy = 365 \<longrightarrow> leap (k + 1)"
    using assms(3) by (auto simp: in_era_def split: if_splits)
  note t = bspec[OF doy_table kb(3), folded m_def]
  have "(k + era * 400) div 400 = era" "(k + era * 400) mod 400 = k" using kb by auto
  then show "days_of (civil_of n) = n" unfolding c using t assms(1,2) by (simp add: Let_def)
  assume d: "d = day_in_month doy" "y = fst (civil_of n)" "0 \<le> y"
  have "m = 2 \<longrightarrow> d = 29 \<longrightarrow> leap y"
    using l t leap_mod[of era "k + 1"] by (auto simp: d c algebra_simps)
  then show "1 \<le> m \<and> m \<le> 12 \<and> 1 \<le> d \<and> d \<le> daysInMonth y m"
    using t d(1,3) daysInMonth_longest[of m y] by (auto simp: longest_def)
qed
lemma year_range:
  assumes "MIN_DAY \<le> n" "n \<le> MAX_DAY"
  shows "0 \<le> fst (civil_of n) \<and> fst (civil_of n) \<le> 9999"
proof -
  define era where "era = (n + 719468) div 146097"
  define doe where "doe = (n + 719468) mod 146097"
  have n: "n + 719468 = doe + era * 146097" "0 \<le> doe" "doe \<le> 146096"
    unfolding era_def doe_def by auto
  then obtain k doy where k: "in_era k doy" "doe = year_start k + doy" using day_of_era by metis
  define m where "m = calendar_month (month_of doy)"
  have c: "fst (civil_of n) = k + era * 400 + (if m \<le> 2 then 1 else 0)"
    unfolding civil_of_inverse(1)[OF n(1) k(2,1)] m_def by simp
  have kb: "0 \<le> k" "k < 400" and doy: "doy \<in> set [0..365]"
    using k(1) by (auto simp: in_era_def split: if_splits)
  note t = bspec[OF doy_table doy, folded m_def]
  have m: "m \<le> 2 \<longleftrightarrow> 306 \<le> doy"
    using bspec[OF bspec[OF month_table, of m], of "day_in_month doy"] t by auto
  have era: "- 1 \<le> era" "era \<le> 24" using assms n unfolding MIN_DAY_def MAX_DAY_def by linarith+
  have last: "k \<le> 398 \<or> k = 399 \<and> year_start k = 145731" using kb by (auto simp: year_start_def)
  have low: "era = - 1 \<Longrightarrow> k = 399 \<and> 306 \<le> doy"
  proof -
    assume "era = - 1"
    then have doe: "146037 \<le> doe" using assms n(1) unfolding MIN_DAY_def by simp
    have "year_start k \<le> 365 * k + k div 4" using kb by (simp add: year_start_def)
    then have "365 * k + k div 4 + 365 \<ge> 146037" using doe k(2) doy by simp
    then have "k = 399" using kb by linarith
    then show ?thesis using last doe k(2) by auto
  qed
  have high: "era = 24 \<Longrightarrow> k = 399 \<Longrightarrow> doy < 306"
    using last assms n(1) k(2) unfolding MAX_DAY_def by auto
  show ?thesis unfolding c using era low high m kb last by (cases "era = - 1"; cases "era = 24") auto
qed

lemma civil_of_ok:
  assumes "MIN_DAY \<le> n" "n \<le> MAX_DAY"
  shows "civil_ok (civil_of n)" "days_of (civil_of n) = n"
proof -
  define era where "era = (n + 719468) div 146097"
  define doe where "doe = (n + 719468) mod 146097"
  have n: "n + 719468 = doe + era * 146097" "0 \<le> doe" "doe \<le> 146096"
    unfolding era_def doe_def by auto
  then obtain k doy where k: "in_era k doy" "doe = year_start k + doy" using day_of_era by metis
  note c = civil_of_inverse[OF n(1) k(2,1)]
  show "days_of (civil_of n) = n" by (rule c(2))
  show "civil_ok (civil_of n)"
    using c(3)[OF refl refl] year_range[OF assms] by (simp add: c(1))
qed

lemma days_of_range:
  assumes "civil_ok (y, m, d)"
  shows "MIN_DAY \<le> days_of (y, m, d)" "days_of (y, m, d) \<le> MAX_DAY"
proof -
  define y' where "y' = y - (if m \<le> 2 then 1 else 0)"
  define doe where "doe = year_start (y' mod 400) + day_of_year m d"
  have e: "in_era (y' mod 400) (day_of_year m d)" unfolding y'_def by (rule civil_era[OF assms])
  note r = year_of_day(2,3)[OF e, folded doe_def]
  note b = civil_ok_bounds[OF assms(1)]
  note t = bspec[OF bspec[OF month_table b(1)] b(2)]
  have n: "days_of (y, m, d) = doe + y' div 400 * 146097 - 719468"
    by (simp add: Let_def y'_def doe_def)
  have y: "0 \<le> y" "y \<le> 9999" using assms by auto
  show "MIN_DAY \<le> days_of (y, m, d)"
  proof (cases "y' = - 1")
    case True
    then have "m \<le> 2" using y by (auto simp: y'_def split: if_splits)
    then have "306 \<le> day_of_year m d" using t by simp
    then show ?thesis unfolding n doe_def True by (simp add: year_start_def MIN_DAY_def)
  next
    case False
    then have "0 \<le> y' div 400" using y by (auto simp: y'_def pos_imp_zdiv_nonneg_iff split: if_splits)
    then show ?thesis unfolding n using r by (simp add: MIN_DAY_def)
  qed
  show "days_of (y, m, d) \<le> MAX_DAY"
  proof (cases "y' = 9999")
    case True
    then have "\<not> m \<le> 2" using y by (auto simp: y'_def)
    then have "day_of_year m d < 306" using t by simp
    then show ?thesis unfolding n doe_def True by (simp add: year_start_def MAX_DAY_def)
  next
    case False
    define q where "q = y' div 400"
    define k where "k = y' mod 400"
    have y': "y' = 400 * q + k" "0 \<le> k" "k < 400" "y' \<le> 9998"
      using False y by (auto simp: q_def k_def y'_def)
    have ys: "year_start k \<le> 365 * k + 99 - k div 100" using y' by (simp add: year_start_def)
    have "q \<le> 24" using y' by linarith
    moreover have "q = 24 \<Longrightarrow> doe \<le> 146036"
    proof -
      assume "q = 24"
      then have "k \<le> 398" using y' by simp
      moreover have "year_start k + 365 \<le> 146036"
        using \<open>k \<le> 398\<close> ys y'(2) by linarith
      ultimately show ?thesis using t unfolding doe_def k_def[symmetric] by linarith
    qed
    ultimately show ?thesis unfolding n q_def[symmetric] MAX_DAY_def using r by (cases "q = 24") auto
  qed
qed

section \<open>Text and day numbers\<close>

lemma toDays_text: "civil_ok (y, m, d) \<Longrightarrow> toDays (iso_text (y, m, d)) = days_of (y, m, d)"
proof -
  assume c: "civil_ok (y, m, d)"
  note b = civil_ok_bounds[OF c]
  note n = iso_text_num2[OF c, where r = "[]", simplified append_Nil2]
  define k where "k = (y - (if m \<le> 2 then 1 else 0)) mod 400"
  have "0 \<le> shifted_month m" "shifted_month m \<le> 11" using b(1) by (auto simp: shifted_month_def)
  then have 1: "js_quot (153 * shifted_month m + 2) 5 = (153 * shifted_month m + 2) div 5"
    by (intro js_quot_div) auto
  have "0 \<le> k" "k < 400" by (auto simp: k_def)
  then have 2: "js_quot k 4 = k div 4" "js_quot k 100 = k div 100" by (auto intro!: js_quot_div)
  have k: "x - x div 400 * 400 = x mod (400::int)" for x by (simp add: minus_div_mult_eq_mod)
  have y: "y div 100 * 100 + y mod 100 = y" by simp
  show ?thesis
    unfolding toDays_def n y Let_def shifted_month_def[symmetric] 1 k days_of.simps
    unfolding k_def[symmetric] 2 year_start_def day_of_year_def by (simp add: mult.commute)
qed

lemma two_two:
  "two (y div 100) @ two (y mod 100) =
    [48 + y div 1000, 48 + y div 100 mod 10, 48 + y div 10 mod 10, 48 + y mod 10]"
proof -
  have e: "y mod 100 = 10 * (y div 10 mod 10) + y mod 10" using zmod_zmult2_eq[of 10 y 10] by simp
  have 1: "y mod 100 div 10 = y div 10 mod 10" unfolding e by simp
  have 2: "y mod 100 mod 10 = y mod 10" by (simp add: mod_mod_cancel)
  have 3: "y div 100 div 10 = y div 1000" by (simp add: zdiv_zmult2_eq[symmetric])
  show ?thesis by (simp add: two_def 1 2 3)
qed

lemma year_digits:
  "0 \<le> y \<Longrightarrow> y \<le> 9999 \<Longrightarrow> padStart0 4 (str_of_int y) = two (y div 100) @ two (y mod 100)"
  unfolding two_two by (intro digits_4) auto

text \<open>The steps of civil-from-days with the divisions of the code.\<close>

lemma hinnant_steps:
  assumes "MIN_DAY \<le> n" "n \<le> MAX_DAY"
  defines "era \<equiv> (n + 719468) div 146097"
  obtains doe k doy where
    "n + 719468 - era * 146097 = doe"
    "js_quot (doe - js_quot doe 1460 + js_quot doe 36524 - js_quot doe 146096) 365 = k"
    "doe - (365 * k + js_quot k 4 - js_quot k 100) = doy"
    "js_quot (5 * doy + 2) 153 = month_of doy"
    "doy - js_quot (153 * month_of doy + 2) 5 + 1 = day_in_month doy"
    "civil_of n = (k + era * 400 + (if calendar_month (month_of doy) \<le> 2 then 1 else 0),
      calendar_month (month_of doy), day_in_month doy)"
proof -
  define doe where "doe = (n + 719468) mod 146097"
  have doe: "0 \<le> doe" "doe \<le> 146096" "n + 719468 - era * 146097 = doe"
    unfolding doe_def era_def by (auto simp: minus_div_mult_eq_mod)
  obtain k doy where k: "in_era k doy" "doe = year_start k + doy" using day_of_era doe by metis
  have kb: "0 \<le> k" "k < 400" "0 \<le> doy" "doy \<le> 365" and doy: "doy \<in> set [0..365]"
    using k(1) by (auto simp: in_era_def split: if_splits)
  note t = bspec[OF doy_table doy]
  have y: "year_of_doe doe = k" using year_of_day(1)[OF k(1), folded k(2)] by (simp add: year_of_doe_def)
  have q: "js_quot doe 1460 = doe div 1460" "js_quot doe 36524 = doe div 36524"
      "js_quot doe 146096 = doe div 146096" using doe(1,2) by (auto intro!: js_quot_div)
  define a where "a = doe - doe div 1460 + doe div 36524 - doe div 146096"
  have a: "a div 365 = k" using y unfolding year_of_doe_def a_def .
  then have "0 \<le> a" "a < 2 ^ 31" using kb(1,2) by auto
  then have 1: "js_quot (doe - js_quot doe 1460 + js_quot doe 36524 - js_quot doe 146096) 365 = k"
    unfolding q a_def[symmetric] a[symmetric] by (intro js_quot_div) auto
  have 2: "doe - (365 * k + js_quot k 4 - js_quot k 100) = doy"
    using kb k(2) by (simp add: js_quot_div year_start_def)
  have 3: "js_quot (5 * doy + 2) 153 = month_of doy" using kb by (simp add: js_quot_div month_of_def)
  have 4: "doy - js_quot (153 * month_of doy + 2) 5 + 1 = day_in_month doy"
    using t by (simp add: js_quot_div day_in_month_def)
  have civil: "civil_of n = (k + era * 400 + (if calendar_month (month_of doy) \<le> 2 then 1 else 0),
      calendar_month (month_of doy), day_in_month doy)"
    by (rule civil_of_inverse(1)[OF _ k(2,1)]) (simp add: doe_def era_def)
  show ?thesis using that[OF doe(3) 1 2 3 4 civil] .
qed

lemma civil_ok_digits:
  assumes "civil_ok (y, m, d)"
  shows "0 \<le> y" "y \<le> 9999" "1 \<le> m" "m \<le> 12" "1 \<le> d" "d \<le> 31"
  using assms civil_ok_bounds[OF assms]
  by (auto simp: longest_def DAYS_IN_MONTH_def nth_Cons' split: if_splits)

lemma fromDays_text:
  assumes "MIN_DAY \<le> n" "n \<le> MAX_DAY"
  shows "fromDays n = iso_text (civil_of n)"
proof -
  obtain y m d where civil: "civil_of n = (y, m, d)" by (cases "civil_of n")
  note ok = civil_ok_digits[OF civil_of_ok(1)[OF assms, unfolded civil]]
  have yt: "(if y \<ge> 1000 then str_of_int y else padStart0 4 (str_of_int y)) = two (y div 100) @ two (y mod 100)"
    using year_digits[OF ok(1,2)] digits_4_plain[of y] ok(2) by (cases "1000 \<le> y") simp_all
  have pad: "table_text PAD2 m = two m" "table_text PAD2 d = two d"
    using ok by (simp_all add: PAD2_def pad_table_text digits_2 two_def)
  have "fromDays n = (if y \<ge> 1000 then str_of_int y else padStart0 4 (str_of_int y)) @ of_text ''-'' @
      table_text PAD2 m @ of_text ''-'' @ table_text PAD2 d"
  proof (rule hinnant_steps[OF assms])
    fix doe k doy
    assume h: "n + 719468 - (n + 719468) div 146097 * 146097 = doe"
      "js_quot (doe - js_quot doe 1460 + js_quot doe 36524 - js_quot doe 146096) 365 = k"
      "doe - (365 * k + js_quot k 4 - js_quot k 100) = doy"
      "js_quot (5 * doy + 2) 153 = month_of doy"
      "doy - js_quot (153 * month_of doy + 2) 5 + 1 = day_in_month doy"
      "civil_of n = (k + (n + 719468) div 146097 * 400 + (if calendar_month (month_of doy) \<le> 2 then 1 else 0),
        calendar_month (month_of doy), day_in_month doy)"
    have ymd: "y = k + (n + 719468) div 146097 * 400 + (if calendar_month (month_of doy) \<le> 2 then 1 else 0)"
        "m = calendar_month (month_of doy)" "d = day_in_month doy"
      using h(6) civil by simp_all
    show ?thesis
      unfolding fromDays_def Let_def[of "n + 719468"] Let_def[of "(n + 719468) div 146097"] h(1)
        Let_def[of doe] h(2) Let_def[of k] h(3) Let_def[of doy] h(4) Let_def[of "month_of doy"] h(5)
      unfolding Let_def ymd calendar_month_def by (rule refl)
  qed
  moreover have "of_text ''-'' = [45]" by (simp add: text_ops)
  ultimately show ?thesis unfolding civil yt pad by (simp only: iso_text.simps append_assoc)
qed

section \<open>Counting days\<close>

text \<open>The next day of the calendar, from the lengths of the months alone.\<close>

fun civil_next :: "civil \<Rightarrow> civil" where
  "civil_next (y, m, d) =
     (if d < daysInMonth y m then (y, m, d + 1) else if m < 12 then (y, m + 1, 1) else (y + 1, 1, 1))"

lemma succ_div: "0 < (n::int) \<Longrightarrow> (x + 1) div n = x div n + (if (x + 1) mod n = 0 then 1 else 0)"
proof -
  assume n: "0 < n"
  define q where "q = x div n"
  define r where "r = x mod n"
  have x: "x + 1 = n * q + (r + 1)" and b: "0 \<le> r" "r < n" using n by (simp_all add: q_def r_def)
  show ?thesis
  proof (cases "r + 1 = n")
    case True
    then have e: "x + 1 = n * (q + 1)" using x by (simp add: distrib_left)
    show ?thesis unfolding e q_def[symmetric] using n by simp
  next
    case False
    then have r: "0 \<le> r + 1" "r + 1 < n" using b by auto
    have "(x + 1) mod n = r + 1" by (rule int_mod_pos_eq[OF x r])
    moreover have "(x + 1) div n = q" by (rule int_div_pos_eq[OF x r])
    ultimately show ?thesis using b by (simp add: q_def)
  qed
qed

lemma year_start_Suc:
  assumes "0 \<le> k" "k < 399"
  shows "year_start (k + 1) = year_start k + 365 + (if leap (k + 1) then 1 else 0)"
proof -
  have 400: "(k + 1) mod 400 \<noteq> 0" using assms by simp
  have "(k + 1) mod 100 = 0 \<Longrightarrow> (k + 1) mod 4 = 0" by presburger
  then show ?thesis
    unfolding year_start_def leap_def using 400 by (auto simp: succ_div[of 4 k] succ_div[of 100 k])
qed

definition year_days :: "int \<Rightarrow> int" where
  "year_days y = y div 400 * 146097 + year_start (y mod 400)"

lemma year_step: "year_days y = year_days (y - 1) + 365 + (if leap y then 1 else 0)"
proof -
  define e where "e = (y - 1) div 400"
  define k where "k = (y - 1) mod 400"
  have y: "y = 400 * e + (k + 1)" unfolding e_def k_def by simp
  have k: "0 \<le> k" "k < 400" unfolding k_def by auto
  have l: "leap y = leap (k + 1)" unfolding y by (rule leap_mod)
  have 1: "year_days (y - 1) = e * 146097 + year_start k" by (simp add: year_days_def e_def k_def)
  show ?thesis
  proof (cases "k = 399")
    case True
    have "y div 400 = e + 1" "y mod 400 = 0" unfolding y True by simp_all
    moreover have "leap (400::int)" by (simp add: leap_def)
    ultimately show ?thesis unfolding 1 l True by (simp add: year_days_def year_start_def)
  next
    case False
    then have "y div 400 = e" "y mod 400 = k + 1" unfolding y using k by auto
    then show ?thesis unfolding 1 l using k False year_start_Suc[of k] by (simp add: year_days_def)
  qed
qed

lemma days_of_year:
  "days_of (y, m, d) = year_days (y - (if m \<le> 2 then 1 else 0)) + day_of_year m d - 719468"
  by (simp add: year_days_def Let_def)

lemma days_of_next:
  assumes "civil_ok c"
  shows "days_of (civil_next c) = days_of c + 1"
proof (cases c)
  case (fields y m d)
  note ok = assms[unfolded fields]
  have m: "m \<in> {1, 2, 3, 4, 5, 6, 7, 8, 9, 10, 11, 12}" using ok by simp presburger
  consider "d < daysInMonth y m" | "d = daysInMonth y m" "m = 2" | "d = daysInMonth y m" "m \<noteq> 2"
    using ok by fastforce
  then show ?thesis
  proof cases
    case 1
    then show ?thesis by (simp add: fields day_of_year_def Let_def)
  next
    case 2
    then have "d = (if leap y then 29 else 28)" using ok daysInMonth_longest[of m y] by (auto simp: longest_def)
    then have "day_of_year 2 d + 1 = 365 + (if leap y then 1 else 0)" by (simp add: day_of_year_def shifted_month_def)
    moreover have "day_of_year 3 1 = 0" by (simp add: day_of_year_def shifted_month_def)
    moreover have "civil_next c = (y, 3, 1)" using 2 by (simp add: fields)
    ultimately show ?thesis unfolding fields days_of_year 2(2) using year_step[of y] by (simp add: days_of_year del: days_of.simps)
  next
    case 3
    then have d: "d = longest m" using ok daysInMonth_longest[of m y] by simp
    show ?thesis
    proof (cases "m = 12")
      case True
      then show ?thesis using 3 d unfolding fields
        by (simp add: days_of_year day_of_year_def shifted_month_def longest_def DAYS_IN_MONTH_def del: days_of.simps)
    next
      case False
      then have "day_of_year (m + 1) 1 = day_of_year m d + 1" "m + 1 \<le> 2 \<longleftrightarrow> m \<le> 2"
        using m 3(2) unfolding d
        by (auto simp: day_of_year_def shifted_month_def longest_def DAYS_IN_MONTH_def)
      then show ?thesis using 3 False ok unfolding fields by (simp add: days_of_year del: days_of.simps)
    qed
  qed
qed

lemma civil_of_MAX: "civil_of MAX_DAY = (9999, 12, 31)"
  by code_simp

lemma civil_next_of:
  assumes "MIN_DAY \<le> n" "n < MAX_DAY"
  shows "civil_next (civil_of n) = civil_of (n + 1)"
proof -
  obtain y m d where c: "civil_of n = (y, m, d)" by (cases "civil_of n")
  note ok = civil_of_ok[of n, unfolded c]
  obtain y' m' d' where c': "civil_next (y, m, d) = (y', m', d')" by (cases "civil_next (y, m, d)")
  have n: "days_of (y', m', d') = n + 1" using days_of_next[of "(y, m, d)"] ok assms unfolding c' by simp
  have "civil_ok (y', m', d')"
  proof (cases "y = 9999 \<and> m = 12 \<and> d = 31")
    case True
    then have "civil_of n = civil_of MAX_DAY" using c civil_of_MAX by simp
    then have "n = MAX_DAY" using civil_of_ok(2)[of n] civil_of_ok(2)[of MAX_DAY] assms
      by (simp add: MIN_DAY_def MAX_DAY_def)
    then show ?thesis using assms by simp
  next
    case False
    have "1 \<le> daysInMonth y' m'" if "1 \<le> m'" "m' \<le> 12"
    proof -
      have "m' \<in> {1, 2, 3, 4, 5, 6, 7, 8, 9, 10, 11, 12}" using that by simp presburger
      then show ?thesis by (auto simp: daysInMonth_def DAYS_IN_MONTH_def js_len_def)
    qed
    moreover have "m = 12 \<Longrightarrow> daysInMonth y m = 31" by (simp add: daysInMonth_def DAYS_IN_MONTH_def js_len_def)
    moreover have "m = 12 \<Longrightarrow> \<not> d < daysInMonth y m \<Longrightarrow> y \<noteq> 9999" using calculation(2) False ok(1) assms by auto
    ultimately show ?thesis using ok(1) assms c' by (auto split: if_splits)
  qed
  then show ?thesis using civil_of_days_of n unfolding c c' by metis
qed

lemma civil_next_iter:
  assumes "civil_ok c" "days_of c + int k \<le> MAX_DAY"
  shows "(civil_next ^^ k) c = civil_of (days_of c + int k)"
  using assms(2)
proof (induction k)
  case 0
  then show ?case using civil_of_days_of assms(1) by (cases c) simp
next
  case (Suc k)
  moreover have "MIN_DAY \<le> days_of c" using days_of_range(1) assms(1) by (cases c) blast
  ultimately show ?case using civil_next_of[of "days_of c + int k"] by (simp add: algebra_simps)
qed

lemma civil_next_year: "fst c \<le> fst ((civil_next ^^ k) c)"
proof (induction k)
  case (Suc k)
  have "fst e \<le> fst (civil_next e)" for e by (cases e) simp
  from order_trans[OF Suc this] show ?case by simp
qed simp

lemma civil_next_late:
  assumes "civil_ok c" "MAX_DAY < days_of c + int k"
  shows "9999 < fst ((civil_next ^^ k) c)"
proof -
  define j where "j = nat (MAX_DAY - days_of c)"
  have r: "days_of c \<le> MAX_DAY" using days_of_range(2) assms(1) by (cases c) blast
  then have "(civil_next ^^ j) c = (9999, 12, 31)"
    using civil_next_iter[OF assms(1), of j] civil_of_MAX by (simp add: j_def)
  then have "(civil_next ^^ Suc j) c = (10000, 1, 1)"
    by (simp add: daysInMonth_def DAYS_IN_MONTH_def js_len_def)
  moreover have "k = (k - Suc j) + Suc j" using assms(2) r by (simp add: j_def)
  ultimately have "(civil_next ^^ k) c = (civil_next ^^ (k - Suc j)) (10000, 1, 1)"
    by (metis comp_apply funpow_add)
  then show ?thesis using civil_next_year[of "(10000, 1, 1)" "k - Suc j"] by simp
qed

text \<open>What \<open>addDays\<close> does with a date and a safe integer.\<close>

lemma addDays_text:
  assumes "civil_ok c" "\<bar>n\<bar> \<le> 9007199254740991"
  shows "addDays (iso_text c) (Whole n) =
    (if MIN_DAY \<le> days_of c + n \<and> days_of c + n \<le> MAX_DAY
     then Inr (iso_text (civil_of (days_of c + n))) else Inl RangeError)"
  using assms toDays_text fromDays_text
  by (cases c) (simp add: addDays_def checkRange_def del: days_of.simps iso_text.simps)

section \<open>Properties\<close>

text \<open>
  C23. Dates and day numbers are in bijection: \<open>fromDays\<close> of a day number of the years 0000 to 9999
  is a string the validator accepts, and \<open>toDays\<close> gives the number back; every string the
  validator accepts has such a day number, and \<open>fromDays\<close> gives the string back.
\<close>

theorem isodate_roundtrip:
  "(\<forall>n. MIN_DAY \<le> n \<longrightarrow> n \<le> MAX_DAY \<longrightarrow> isISODate (fromDays n) \<and> toDays (fromDays n) = n) \<and>
   (\<forall>s. isISODate s \<longrightarrow> MIN_DAY \<le> toDays s \<and> toDays s \<le> MAX_DAY \<and> fromDays (toDays s) = s)"
proof (intro conjI allI impI)
  fix n assume n: "MIN_DAY \<le> n" "n \<le> MAX_DAY"
  obtain y m d where c: "civil_of n = (y, m, d)" by (cases "civil_of n")
  note ok = civil_of_ok[OF n, unfolded c]
  show "isISODate (fromDays n)" "toDays (fromDays n) = n"
    unfolding fromDays_text[OF n] c using ok isISODate_text toDays_text by metis+
next
  fix s assume "isISODate s"
  then obtain c where ok: "civil_ok c" and s: "s = iso_text c" by (rule isISODate_civil)
  obtain y m d where c: "c = (y, m, d)" by (cases c)
  note days = toDays_text[OF ok[unfolded c]]
  show r: "MIN_DAY \<le> toDays s" "toDays s \<le> MAX_DAY"
    unfolding s c days using days_of_range[OF ok[unfolded c]] by auto
  show "fromDays (toDays s) = s"
    unfolding fromDays_text[OF r] using civil_of_days_of[OF ok[unfolded c]] by (simp only: s c days)
qed

lemma isodate_roundtrip_witness:
  "isISODate (fromDays 19782) \<and> toDays (fromDays 19782) = 19782 \<and>
   isISODate (of_text ''2024-02-29'') \<and> fromDays (toDays (of_text ''2024-02-29'')) = of_text ''2024-02-29''"
proof -
  have s: "isISODate (of_text ''2024-02-29'')" by code_simp
  have n: "MIN_DAY \<le> 19782" "19782 \<le> MAX_DAY" by (simp_all add: MIN_DAY_def MAX_DAY_def)
  show ?thesis using isodate_roundtrip s n by blast
qed



text \<open>
  Adding days composes and can be undone, errors included: after \<open>addDays(s, a)\<close> gave \<open>t\<close>,
  \<open>t\<close> is an accepted date and \<open>addDays(t, b)\<close> answers exactly as \<open>addDays(s, a + b)\<close>; with
  \<open>b = -a\<close> the answer is \<open>s\<close>.
\<close>

theorem addDays_composes:
  assumes "isISODate s" "addDays s (Whole a) = Inr t" "\<bar>b\<bar> \<le> 9007199254740991" "\<bar>a + b\<bar> \<le> 9007199254740991"
  shows "isISODate t \<and> addDays t (Whole b) = addDays s (Whole (a + b)) \<and> addDays t (Whole (- a)) = Inr s"
proof -
  obtain c where c: "civil_ok c" "s = iso_text c" using isISODate_civil[OF assms(1)] .
  have a: "\<bar>a\<bar> \<le> 9007199254740991" using assms(2) by (auto simp: addDays_def split: if_splits)
  have r: "MIN_DAY \<le> days_of c + a" "days_of c + a \<le> MAX_DAY" "t = iso_text (civil_of (days_of c + a))"
    using assms(2) c a by (auto simp: addDays_text split: if_splits)
  note ok = civil_of_ok[OF r(1,2)]
  have "MIN_DAY \<le> days_of c \<and> days_of c \<le> MAX_DAY \<and> civil_of (days_of c) = c"
    using days_of_range civil_of_days_of c(1) by (cases c) metis
  then show ?thesis
    using assms(3,4) a c r ok isISODate_text by (simp add: addDays_text add.assoc del: days_of.simps iso_text.simps)
qed

lemma addDays_composes_witness:
  "addDays (of_text ''2025-03-01'') (Whole (- 1)) = Inr (of_text ''2025-02-28'')"
proof -
  have s: "isISODate (of_text ''2025-02-28'')" by code_simp
  have t: "addDays (of_text ''2025-02-28'') (Whole 1) = Inr (of_text ''2025-03-01'')" by code_simp
  show ?thesis using addDays_composes[OF s t, of 0] by simp
qed

end
