(* ===== verification/ISOTimestamp.thy ===== *)
theory ISOTimestamp
  imports ISODate
begin

text \<open>
  \<open>ISOTimestamp.ts\<close>: instants \<open>YYYY-MM-DDTHH:mm:ss.sssZ\<close>, the validator of the documented profile,
  the two RFC 3339 predicates and the conversions from and to epoch milliseconds.

  The file has its own copy of \<open>num2\<close>, the same function as in \<open>ISODate.ts\<close>; the model uses one.
  A \<open>Date\<close> is its time value. \<open>native_iso\<close> is \<open>Date.prototype.toISOString\<close> for years 0000 to 9999,
  written from the language standard (\<open>DayFromYear\<close>, \<open>YearFromTime\<close>, \<open>MonthFromTime\<close>), and
  \<open>native_parse\<close> is \<open>new Date(text)\<close>: the standard fixes it for texts without a fraction or with
  exactly three fraction digits, and leaves other texts to the engine, which is the parameter
  \<open>engine\<close>.
\<close>

section \<open>The standard library: dates\<close>

definition es_day_from_year :: "int \<Rightarrow> int" where
  "es_day_from_year y =
     365 * (y - 1970) + (y - 1969) div 4 - (y - 1901) div 100 + (y - 1601) div 400"

text \<open>The largest year that starts on or before the day, found from an estimate.\<close>

definition es_year :: "int \<Rightarrow> int" where
  "es_year day =
     (let y = 400 * day div 146097 + 1970
      in if es_day_from_year (y + 1) \<le> day then y + 1
         else if es_day_from_year y \<le> day then y
         else y - 1)"

definition es_leap :: "int \<Rightarrow> bool" where
  "es_leap y \<longleftrightarrow> es_day_from_year (y + 1) - es_day_from_year y = 366"

definition es_month_start :: "bool \<Rightarrow> int list" where
  "es_month_start l =
     (let a = (if l then 1 else 0)
      in [0, 31, 59 + a, 90 + a, 120 + a, 151 + a, 181 + a, 212 + a, 243 + a, 273 + a, 304 + a, 334 + a])"

definition es_month :: "bool \<Rightarrow> int \<Rightarrow> int" where
  "es_month l day = int (length (filter (\<lambda>s. s \<le> day) (es_month_start l)))"

definition es_civil :: "int \<Rightarrow> civil" where
  "es_civil day =
     (let y = es_year day; l = es_leap y; n = day - es_day_from_year y; m = es_month l n
      in (y, m, n - es_month_start l ! nat (m - 1) + 1))"

definition es_day :: "civil \<Rightarrow> int" where
  "es_day c = (case c of (y, m, d) \<Rightarrow>
     es_day_from_year y + es_month_start (es_leap y) ! nat (m - 1) + d - 1)"

definition three :: "int \<Rightarrow> jstr" where
  "three n = [48 + n div 100, 48 + n div 10 mod 10, 48 + n mod 10]"

definition native_iso :: "int \<Rightarrow> jstr" where
  "native_iso ms =
     (let t = ms mod 86400000
      in iso_text (es_civil (ms div 86400000)) @ [84] @ two (t div 3600000) @ [58] @
         two (t div 60000 mod 60) @ [58] @ two (t div 1000 mod 60) @ [46] @ three (t mod 1000) @ [90])"

section \<open>The code\<close>

definition fullDate :: "jstr \<Rightarrow> bool" where
  "fullDate s =
     (if char_at s 4 \<noteq> Some 45 \<or> char_at s 7 \<noteq> Some 45 then False
      else
        let hi = num2 s 0; lo = num2 s 2; day = num2 s 8
        in hi \<ge> 0 \<and> lo \<ge> 0 \<and> day \<ge> 1 \<and> day \<le> daysInMonth (hi * 100 + lo) (num2 s 5))"

definition is_digit :: "int option \<Rightarrow> bool" where
  "is_digit c = (case c of Some x \<Rightarrow> x \<ge> 48 \<and> x \<le> 57 | None \<Rightarrow> False)"

function skipDigits :: "jstr \<Rightarrow> int \<Rightarrow> int" where
  "skipDigits s i = (if is_digit (char_at s i) then skipDigits s (i + 1) else i)"
  by pat_completeness auto
termination
  by (relation "measure (\<lambda>(s, i). nat (js_len s - i))")
    (auto simp: is_digit_def char_at_def split: option.splits if_splits)

declare skipDigits.simps [simp del]

text \<open>\<open>NaN\<close> is \<^term>\<open>None\<close>.\<close>

definition offsetMinutes :: "jstr \<Rightarrow> int \<Rightarrow> bool \<Rightarrow> int option" where
  "offsetMinutes s p lower =
     (let c = char_at s p
      in if c = Some 90 \<or> (lower \<and> c = Some 122) then (if p + 1 = js_len s then Some 0 else None)
         else if (c \<noteq> Some 43 \<and> c \<noteq> Some 45) \<or> p + 6 \<noteq> js_len s \<or> char_at s (p + 3) \<noteq> Some 58 then None
         else
           let oh = num2 s (p + 1); om = num2 s (p + 4)
           in if oh < 0 \<or> oh > 23 \<or> om < 0 \<or> om > 59 then None
              else Some (if c = Some 45 then - (oh * 60 + om) else oh * 60 + om))"

definition ts_isValid :: "jstr \<Rightarrow> bool" where
  "ts_isValid s =
     (if js_len s < 17 \<or> char_at s 10 \<noteq> Some 84 \<or> char_at s 13 \<noteq> Some 58 then False
      else if \<not> fullDate s then False
      else
        let hour = num2 s 11; minute = num2 s 14
        in if hour < 0 \<or> hour > 23 \<or> minute < 0 \<or> minute > 59 then False
           else if char_at s 16 = Some 58 then
             let sec = num2 s 17
             in if sec < 0 \<or> sec > 59 then False
                else if char_at s 19 = Some 46 then
                  let p = skipDigits s 20
                  in if p = 20 then False else offsetMinutes s p False \<noteq> None
                else offsetMinutes s 19 False \<noteq> None
           else offsetMinutes s 16 False \<noteq> None)"

definition rfcTimeAt :: "jstr \<Rightarrow> int \<Rightarrow> bool" where
  "rfcTimeAt s i =
     (if char_at s (i + 2) \<noteq> Some 58 \<or> char_at s (i + 5) \<noteq> Some 58 then False
      else
        let hour = num2 s i; minute = num2 s (i + 3); sec = num2 s (i + 6)
        in if hour < 0 \<or> hour > 23 \<or> minute < 0 \<or> minute > 59 \<or> sec < 0 \<or> sec > 60 then False
           else
             let p0 = i + 8;
                 p = (if char_at s p0 = Some 46 then skipDigits s (p0 + 1) else p0)
             in if char_at s p0 = Some 46 \<and> p = i + 9 then False
                else case offsetMinutes s p True of
                    None \<Rightarrow> False
                  | Some off \<Rightarrow>
                      if sec < 60 then True
                      else js_rem (js_rem (hour * 60 + minute - off) 1440 + 1440) 1440 = 1439)"

definition isRfc3339DateTime :: "jstr \<Rightarrow> bool" where
  "isRfc3339DateTime s =
     (let t = char_at s 10
      in js_len s \<ge> 20 \<and> (t = Some 84 \<or> t = Some 116) \<and> fullDate s \<and> rfcTimeAt s 11)"

definition isRfc3339Time :: "jstr \<Rightarrow> bool" where
  "isRfc3339Time s = (js_len s \<ge> 9 \<and> rfcTimeAt s 0)"

definition isoTimestamp :: "jstr \<Rightarrow> jstr outcome" where
  "isoTimestamp s = (if \<not> ts_isValid s then Inl RangeError else Inr s)"

definition "MAX_FAST_MS = (253402300800000 :: int)"
definition "MIN_MS = (- 62167219200000 :: int)"

definition ts_checkRange :: "js_number \<Rightarrow> unit outcome" where
  "ts_checkRange ms = (if \<not> (num_gt ms (MIN_MS - 1) \<and> num_lt ms MAX_FAST_MS) then Inl RangeError else Inr ())"

definition ts_fromDate :: "int option \<Rightarrow> jstr outcome" where
  "ts_fromDate time =
     (case ts_checkRange (case time of Some t \<Rightarrow> Whole t | None \<Rightarrow> NaN) of
        Inl e \<Rightarrow> Inl e
      | Inr _ \<Rightarrow> Inr (native_iso (the time)))"

definition TS_PAD2 :: "jstr list" where "TS_PAD2 = pad_table 60 2"
definition PAD3 :: "jstr list" where "PAD3 = pad_table 1000 3"
definition PAD4 :: "jstr list" where "PAD4 = pad_table 10000 4"

text \<open>The fast path, for a whole number of milliseconds from 1970 to 9999.\<close>

definition fast_iso :: "int \<Rightarrow> jstr" where
  "fast_iso ms =
     (let rem_ms = ms mod 1000;
          totalSec = (ms - rem_ms) div 1000;
          rem_sec = totalSec mod 60;
          totalMin = (totalSec - rem_sec) div 60;
          rem_min = totalMin mod 60;
          totalHr = (totalMin - rem_min) div 60;
          rem_hr = totalHr mod 24;
          z = (totalHr - rem_hr) div 24 + 719468;
          era = js_quot z 146097;
          doe = z - era * 146097;
          yoe = js_quot (doe - js_quot doe 1460 + js_quot doe 36524 - js_quot doe 146096) 365;
          y = yoe + era * 400;
          doy = doe - (365 * yoe + js_quot yoe 4 - js_quot yoe 100);
          mp = js_quot (5 * doy + 2) 153;
          d = doy - js_quot (153 * mp + 2) 5 + 1;
          m = mp + (if mp < 10 then 3 else - 9);
          yr = y + (if m \<le> 2 then 1 else 0)
      in table_text PAD4 yr @ of_text ''-'' @ table_text TS_PAD2 m @ of_text ''-'' @ table_text TS_PAD2 d @
         of_text ''T'' @ table_text TS_PAD2 rem_hr @ of_text '':'' @ table_text TS_PAD2 rem_min @
         of_text '':'' @ table_text TS_PAD2 rem_sec @ of_text ''.'' @ table_text PAD3 rem_ms @ of_text ''Z'')"

definition fromEpochMs :: "js_number \<Rightarrow> jstr outcome" where
  "fromEpochMs ms =
     (if \<not> (num_ge ms 0 \<and> num_lt ms MAX_FAST_MS) \<or> \<not> is_integer ms
      then case ts_checkRange ms of Inl e \<Rightarrow> Inl e | Inr _ \<Rightarrow> Inr (native_iso (the (num_trunc ms)))
      else Inr (fast_iso (the (num_trunc ms))))"

definition ts_now :: "int \<Rightarrow> jstr outcome" where
  "ts_now clock = fromEpochMs (Whole clock)"

section \<open>Parsing\<close>

text \<open>The fields of an accepted text; any other text, and a fraction of other than three digits, is up to the engine.\<close>

definition native_parse :: "(jstr \<Rightarrow> int option) \<Rightarrow> jstr \<Rightarrow> int option" where
  "native_parse engine s =
     (let sec = (if char_at s 16 = Some 58 then num2 s 17 else 0);
          p = (if char_at s 16 = Some 58 then 19 else 16);
          frac = char_at s p = Some 46;
          q = (if frac then skipDigits s (p + 1) else p);
          milli = (if frac then num2 s (p + 1) * 10 + (the (char_at s (p + 3)) - 48) else 0)
      in if \<not> ts_isValid s \<or> frac \<and> q \<noteq> p + 4 then engine s
         else Some (es_day (num2 s 0 * 100 + num2 s 2, num2 s 5, num2 s 8) * 86400000 + num2 s 11 * 3600000 +
           num2 s 14 * 60000 + sec * 1000 + milli - the (offsetMinutes s q False) * 60000))"

definition ts_toDate :: "(jstr \<Rightarrow> int option) \<Rightarrow> jstr \<Rightarrow> int option" where
  "ts_toDate engine s =
     (if char_at s 19 = Some 46 \<and> skipDigits s 20 > 23
      then native_parse engine (str_slice s 0 23 @ str_from s (skipDigits s 20))
      else native_parse engine s)"
section \<open>Two calendars\<close>

lemma year_days_closed: "year_days k = 365 * k + k div 4 - k div 100 + k div 400"
proof -
  define q where "q = k div 400"
  define r where "r = k mod 400"
  have k: "k = r + q * 400" by (simp add: q_def r_def)
  have "k div 4 = q * 100 + r div 4"
    using div_mult_self1[of 4 r "q * 100"] by (simp add: k)
  moreover have "k div 100 = q * 4 + r div 100"
    using div_mult_self1[of 100 r "q * 4"] by (simp add: k)
  ultimately show ?thesis
    unfolding year_days_def q_def[symmetric] r_def[symmetric] year_start_def using k by simp
qed

lemma es_day_from_year: "es_day_from_year y = year_days (y - 1) - 719162"
proof -
  have 1: "(y - 1969) div 4 = (y - 1) div 4 - 492" using div_mult_self1[of 4 "y - 1" "- 492"] by simp
  have 2: "(y - 1901) div 100 = (y - 1) div 100 - 19" using div_mult_self1[of 100 "y - 1" "- 19"] by simp
  have 3: "(y - 1601) div 400 = (y - 1) div 400 - 4" using div_mult_self1[of 400 "y - 1" "- 4"] by simp
  show ?thesis unfolding es_day_from_year_def year_days_closed 1 2 3 right_diff_distrib by linarith
qed

lemma es_leap: "es_leap y = leap y"
  using year_step[of y] by (simp add: es_leap_def es_day_from_year)

lemma year_days_bounds:
  "146097 * k - 699 \<le> 400 * year_days k" "400 * year_days k \<le> 146097 * k + 396"
proof -
  define a b c where "a = k div 4" and "b = k div 100" and "c = k div 400"
  have "4 * a \<le> k" "k \<le> 4 * a + 3" "100 * b \<le> k" "k \<le> 100 * b + 99" "400 * c \<le> k" "k \<le> 400 * c + 399"
    by (auto simp: a_def b_def c_def)
  then show "146097 * k - 699 \<le> 400 * year_days k" "400 * year_days k \<le> 146097 * k + 396"
    unfolding year_days_closed a_def[symmetric] b_def[symmetric] c_def[symmetric]
    by (simp_all add: algebra_simps)
qed

lemma es_year_spec: "es_day_from_year (es_year day) \<le> day \<and> day < es_day_from_year (es_year day + 1)"
proof -
  define y where "y = 400 * day div 146097 + 1970"
  have q: "146097 * (y - 1970) \<le> 400 * day" "400 * day < 146097 * (y - 1970) + 146097"
    unfolding y_def by auto
  have "es_day_from_year (y - 1) \<le> day"
    unfolding es_day_from_year using year_days_bounds(2)[of "y - 1 - 1"] q by (simp add: algebra_simps)
  moreover have "day < es_day_from_year (y + 1 + 1)"
    unfolding es_day_from_year using year_days_bounds(1)[of "y + 1 + 1 - 1"] q by (simp add: algebra_simps)
  moreover have "y - 1 + 1 = y" by simp
  ultimately show ?thesis unfolding es_year_def Let_def y_def[symmetric] by auto
qed

lemma es_month_table: "\<forall>l\<in>{True, False}. \<forall>n\<in>set [0..if l then 365 else 364].
    let m = es_month l n; d = n - es_month_start l ! nat (m - 1) + 1
    in 1 \<le> m \<and> m \<le> 12 \<and> 1 \<le> d \<and> d \<le> (if m = 2 \<and> \<not> l then 28 else longest m) \<and>
       day_of_year m d = (if m \<le> 2 then n + 306 else n - 59 - (if l then 1 else 0))"
  unfolding es_month_def es_month_start_def longest_def DAYS_IN_MONTH_def by code_simp

lemma es_civil_of:
  assumes "MIN_DAY \<le> n" "n \<le> MAX_DAY"
  shows "es_civil n = civil_of n"
proof -
  define y where "y = es_year n"
  define l where "l = leap y"
  define r where "r = n - es_day_from_year y"
  define m where "m = es_month l r"
  define d where "d = r - es_month_start l ! nat (m - 1) + 1"
  have civil: "es_civil n = (y, m, d)"
    unfolding es_civil_def Let_def d_def m_def r_def l_def y_def es_leap by (rule refl)
  have "0 \<le> r" "r < es_day_from_year (y + 1) - es_day_from_year y"
    using es_year_spec[of n] unfolding r_def y_def by auto
  then have r: "r \<in> set [0..if l then 365 else 364]"
    using year_step[of y] unfolding es_day_from_year l_def by (auto split: if_splits)
  have "l \<in> {True, False}" by simp
  note t = bspec[OF bspec[OF es_month_table this] r, unfolded Let_def, folded m_def, folded d_def]
  have n: "n = r + year_days (y - 1) - 719162" unfolding r_def es_day_from_year by simp
  have days: "days_of (y, m, d) = n"
    unfolding days_of_year using conjunct2[OF conjunct2[OF conjunct2[OF conjunct2[OF t]]]] year_step[of y] n
    by (cases "m \<le> 2"; cases l) (simp_all add: l_def)
  have b: "year_days (y - 1) \<le> n + 719162" "n + 719162 < year_days y"
    using es_year_spec[of n] unfolding y_def[symmetric] es_day_from_year by simp_all
  have "y \<le> 9999" using b(1) year_days_bounds(1)[of "y - 1"] assms unfolding MAX_DAY_def
    by (simp add: algebra_simps)
  moreover have "- 1 \<le> y" using b(2) year_days_bounds(2)[of y] assms unfolding MIN_DAY_def
    by (simp add: algebra_simps)
  moreover have "y \<noteq> - 1" using b(2) assms by (auto simp: year_days_closed MIN_DAY_def)
  ultimately have y: "0 \<le> y" "y \<le> 9999" by auto
  then have "civil_ok (y, m, d)" using t daysInMonth_longest[of m y] by (auto simp: l_def)
  then show ?thesis using civil_of_days_of days civil by metis
qed
section \<open>The fast path\<close>

lemma time_parts:
  fixes ms :: int
  shows "(ms - ms mod 1000) div 1000 = ms div 1000"
    "(ms div 1000 - ms div 1000 mod 60) div 60 = ms div 60000"
    "(ms div 60000 - ms div 60000 mod 60) div 60 = ms div 3600000"
    "(ms div 3600000 - ms div 3600000 mod 24) div 24 = ms div 86400000"
    "ms div 3600000 mod 24 = ms mod 86400000 div 3600000"
    "ms div 60000 mod 60 = ms mod 86400000 div 60000 mod 60"
    "ms div 1000 mod 60 = ms mod 86400000 div 1000 mod 60"
    "ms mod 1000 = ms mod 86400000 mod 1000"
proof -
  have q: "(x - x mod n) div n = x div n" for x n :: int by (simp add: minus_mod_eq_mult_div)
  have d: "x div a div b = x div (a * b)" if "0 < b" for x a b :: int
    using that by (intro zdiv_zmult2_eq[symmetric]) simp
  have m: "x mod (a * b) div a = x div a mod b" if "0 < a" "0 < b" for x a b :: int
    using that by (simp add: zmod_zmult2_eq)
  show "(ms - ms mod 1000) div 1000 = ms div 1000" by (rule q)
  show "(ms div 1000 - ms div 1000 mod 60) div 60 = ms div 60000"
    unfolding q using d[of 1000 ms 60] by simp
  show "(ms div 60000 - ms div 60000 mod 60) div 60 = ms div 3600000"
    unfolding q using d[of 60000 ms 60] by simp
  show "(ms div 3600000 - ms div 3600000 mod 24) div 24 = ms div 86400000"
    unfolding q using d[of 3600000 ms 24] by simp
  show "ms div 3600000 mod 24 = ms mod 86400000 div 3600000" using m[of 3600000 24 ms] by simp
  have "ms mod 86400000 div 60000 = ms div 60000 mod 1440" using m[of 60000 1440 ms] by simp
  moreover have "ms div 60000 mod 1440 mod 60 = ms div 60000 mod 60" by (intro mod_mod_cancel) simp
  ultimately show "ms div 60000 mod 60 = ms mod 86400000 div 60000 mod 60" by (simp only:)
  have "ms mod 86400000 div 1000 = ms div 1000 mod 86400" using m[of 1000 86400 ms] by simp
  moreover have "ms div 1000 mod 86400 mod 60 = ms div 1000 mod 60" by (intro mod_mod_cancel) simp
  ultimately show "ms div 1000 mod 60 = ms mod 86400000 div 1000 mod 60" by (simp only:)
  show "ms mod 1000 = ms mod 86400000 mod 1000" by (rule mod_mod_cancel[symmetric]) simp
qed

lemma day_range:
  assumes "MIN_MS \<le> ms" "ms < MAX_FAST_MS"
  shows "MIN_DAY \<le> ms div 86400000" "ms div 86400000 \<le> MAX_DAY"
  using assms unfolding MIN_MS_def MAX_FAST_MS_def MIN_DAY_def MAX_DAY_def by linarith+

lemma fast_iso_native:
  assumes "0 \<le> ms" "ms < MAX_FAST_MS"
  shows "fast_iso ms = native_iso ms"
proof -
  define n where "n = ms div 86400000"
  define t where "t = ms mod 86400000"
  have r: "MIN_DAY \<le> n" "n \<le> MAX_DAY"
    unfolding n_def using day_range[of ms] assms by (auto simp: MIN_MS_def)
  have n0: "0 \<le> n" using assms by (simp add: n_def pos_imp_zdiv_nonneg_iff)
  obtain y m d where civil: "civil_of n = (y, m, d)" by (cases "civil_of n")
  note ok = civil_ok_digits[OF civil_of_ok(1)[OF r, unfolded civil]]
  have t: "0 \<le> t" "t < 86400000" by (auto simp: t_def)
  have tb: "0 \<le> t div 3600000" "t div 3600000 < 24" "0 \<le> t div 60000 mod 60" "t div 60000 mod 60 < 60"
      "0 \<le> t div 1000 mod 60" "t div 1000 mod 60 < 60" "0 \<le> t mod 1000" "t mod 1000 < 1000"
    using t by (auto simp: pos_imp_zdiv_nonneg_iff)
  have pad: "table_text TS_PAD2 i = two i" if "0 \<le> i" "i < 60" for i
    using that by (simp add: TS_PAD2_def pad_table_text digits_2 two_def)
  have pads: "table_text PAD4 y = two (y div 100) @ two (y mod 100)" "table_text PAD3 (t mod 1000) = three (t mod 1000)"
    using ok tb by (simp_all add: PAD4_def pad_table_text year_digits PAD3_def digits_3 three_def)
  have ascii: "of_text ''-'' = [45]" "of_text ''T'' = [84]" "of_text '':'' = [58]" "of_text ''.'' = [46]" "of_text ''Z'' = [90]"
    by (simp_all add: text_ops)
  have era: "js_quot (n + 719468) 146097 = (n + 719468) div 146097"
    using n0 r by (intro js_quot_div) (auto simp: MAX_DAY_def)
  note parts = time_parts[of ms, folded n_def t_def]
  have "fast_iso ms = table_text PAD4 y @ of_text ''-'' @ table_text TS_PAD2 m @ of_text ''-'' @ table_text TS_PAD2 d @
      of_text ''T'' @ table_text TS_PAD2 (t div 3600000) @ of_text '':'' @ table_text TS_PAD2 (t div 60000 mod 60) @
      of_text '':'' @ table_text TS_PAD2 (t div 1000 mod 60) @ of_text ''.'' @ table_text PAD3 (t mod 1000) @ of_text ''Z''"
  proof (rule hinnant_steps[OF r])
    fix doe k doy
    assume h: "n + 719468 - (n + 719468) div 146097 * 146097 = doe"
      "js_quot (doe - js_quot doe 1460 + js_quot doe 36524 - js_quot doe 146096) 365 = k"
      "doe - (365 * k + js_quot k 4 - js_quot k 100) = doy"
      "js_quot (5 * doy + 2) 153 = month_of doy"
      "doy - js_quot (153 * month_of doy + 2) 5 + 1 = day_in_month doy"
      "civil_of n = (k + (n + 719468) div 146097 * 400 + (if calendar_month (month_of doy) \<le> 2 then 1 else 0),
        calendar_month (month_of doy), day_in_month doy)"
    have ymd: "y = k + (n + 719468) div 146097 * 400 + (if calendar_month (month_of doy) \<le> 2 then 1 else 0)"
        "m = calendar_month (month_of doy)" "d = day_in_month doy"
      using h(6) civil by simp_all
    have cm: "mp + (if mp < 10 then 3 else - 9) = calendar_month mp" for mp by (simp add: calendar_month_def)
    show ?thesis
      unfolding fast_iso_def Let_def[of "ms mod 1000"] parts(1) Let_def[of "ms div 1000"] Let_def[of "ms div 1000 mod 60"]
        parts(2) Let_def[of "ms div 60000"] Let_def[of "ms div 60000 mod 60"]
        parts(3) Let_def[of "ms div 3600000"] Let_def[of "ms div 3600000 mod 24"] parts(4)
        Let_def[of "n + 719468"] era Let_def[of "(n + 719468) div 146097"] h(1)
        Let_def[of doe] h(2) Let_def[of k] h(3) Let_def[of doy] h(4) Let_def[of "month_of doy"] h(5)
      unfolding Let_def cm ymd parts(5-8) by (rule refl)
  qed
  also have "\<dots> = native_iso ms"
    using ok tb unfolding native_iso_def Let_def n_def[symmetric] t_def[symmetric] es_civil_of[OF r] civil
      iso_text.simps ascii pads by (simp add: pad)
  finally show ?thesis .
qed

lemma fromEpochMs_native:
  "fromEpochMs ms = (case ts_checkRange ms of Inl e \<Rightarrow> Inl e | Inr _ \<Rightarrow> Inr (native_iso (the (num_trunc ms))))"
proof (cases "num_ge ms 0 \<and> num_lt ms MAX_FAST_MS \<and> is_integer ms")
  case True
  then obtain i where i: "ms = Whole i" "0 \<le> i" "i < MAX_FAST_MS" by (cases ms) auto
  then show ?thesis
    using fast_iso_native[of i] by (simp add: fromEpochMs_def ts_checkRange_def MIN_MS_def)
next
  case False
  then show ?thesis by (simp add: fromEpochMs_def)
qed
section \<open>Reading a printed instant\<close>

lemma char_at_rest: "10 \<le> i \<Longrightarrow> char_at (iso_text c @ r) i = char_at r (i - 10)"
  by (simp only: char_at_append iso_text_chars(1) if_not_P not_less)

lemma num2_rest: "10 \<le> i \<Longrightarrow> num2 (iso_text c @ r) i = num2 r (i - 10)"
  by (simp add: num2_def char_at_rest add_diff_eq[symmetric] diff_add_eq)

lemma fullDate_text: "civil_ok c \<Longrightarrow> fullDate (iso_text c @ r)"
proof (cases c)
  case (fields y m d)
  assume "civil_ok c"
  then show ?thesis
    using iso_text_num2[of y m d r] iso_text_chars(2,3)[of c r]
    unfolding fields by (simp add: fullDate_def mult.commute pos_imp_zdiv_nonneg_iff del: iso_text.simps)
qed

definition instant_text :: "civil \<Rightarrow> int \<Rightarrow> int \<Rightarrow> int \<Rightarrow> int \<Rightarrow> jstr" where
  "instant_text c h mi sec ml = iso_text c @ [84] @ two h @ [58] @ two mi @ [58] @ two sec @ [46] @ three ml @ [90]"

lemma instant_read:
  assumes "civil_ok c" "0 \<le> h" "h < 24" "0 \<le> mi" "mi < 60" "0 \<le> sec" "sec < 60" "0 \<le> ml" "ml < 1000"
  defines "s \<equiv> instant_text c h mi sec ml"
  shows "js_len s = 24" "fullDate s" "char_at s 10 = Some 84" "char_at s 13 = Some 58" "char_at s 16 = Some 58"
    "char_at s 19 = Some 46" "num2 s 11 = h" "num2 s 14 = mi" "num2 s 17 = sec"
    "num2 s 20 = ml div 10" "char_at s 22 = Some (48 + ml mod 10)" "skipDigits s 20 = 23"
    "offsetMinutes s 23 False = Some 0"
proof -
  define r where "r = [84] @ two h @ [58] @ two mi @ [58] @ two sec @ [46] @ three ml @ [90]"
  have s: "s = iso_text c @ r" by (simp add: s_def instant_text_def r_def)
  have r: "r = [84, 48 + h div 10, 48 + h mod 10, 58, 48 + mi div 10, 48 + mi mod 10, 58,
      48 + sec div 10, 48 + sec mod 10, 46, 48 + ml div 100, 48 + ml div 10 mod 10, 48 + ml mod 10, 90]"
    by (simp add: r_def two_def three_def)
  show "js_len s = 24" unfolding s js_len_simps(3) iso_text_chars(1) r by simp
  show "fullDate s" unfolding s using assms(1) by (rule fullDate_text)
  show "char_at s 10 = Some 84" "char_at s 13 = Some 58" "char_at s 16 = Some 58" "char_at s 19 = Some 46"
      "char_at s 22 = Some (48 + ml mod 10)"
    unfolding s by (simp_all add: char_at_rest r char_at_Cons)
  have n: "num2 s (10 + i) = x" if "char_at r i = Some (48 + x div 10)" "char_at r (i + 1) = Some (48 + x mod 10)"
      "0 \<le> x" "x < 100" "0 \<le> i" for i x
    unfolding s using that num2_at[of x r i] by (simp add: num2_rest)
  show "num2 s 11 = h" using n[of 1 h] assms by (simp add: r char_at_Cons)
  show "num2 s 14 = mi" using n[of 4 mi] assms by (simp add: r char_at_Cons)
  show "num2 s 17 = sec" using n[of 7 sec] assms by (simp add: r char_at_Cons)
  have "ml div 10 div 10 = ml div 100" by (simp add: zdiv_zmult2_eq[symmetric])
  then show "num2 s 20 = ml div 10" using n[of 10 "ml div 10"] assms by (simp add: r char_at_Cons pos_imp_zdiv_nonneg_iff)
  have "is_digit (char_at s 20)" "is_digit (char_at s 21)" "is_digit (char_at s 22)" "\<not> is_digit (char_at s 23)"
    unfolding s using assms by (simp_all add: char_at_rest r char_at_Cons is_digit_def pos_imp_zdiv_nonneg_iff)
  then show "skipDigits s 20 = 23"
    by (simp add: skipDigits.simps[of s 20] skipDigits.simps[of s 21] skipDigits.simps[of s 22] skipDigits.simps[of s 23])
  have "char_at s 23 = Some 90" unfolding s by (simp add: char_at_rest r char_at_Cons)
  then show "offsetMinutes s 23 False = Some 0" using \<open>js_len s = 24\<close> by (simp add: offsetMinutes_def)
qed

lemma instant_valid:
  assumes "civil_ok c" "0 \<le> h" "h < 24" "0 \<le> mi" "mi < 60" "0 \<le> sec" "sec < 60" "0 \<le> ml" "ml < 1000"
  shows "ts_isValid (instant_text c h mi sec ml)"
    "ts_toDate engine (instant_text c h mi sec ml) =
      Some (es_day c * 86400000 + h * 3600000 + mi * 60000 + sec * 1000 + ml)"
proof -
  note r = instant_read[OF assms]
  show v: "ts_isValid (instant_text c h mi sec ml)"
    unfolding ts_isValid_def Let_def using r assms by simp
  obtain y m d where c: "c = (y, m, d)" by (cases c)
  have date: "num2 (instant_text c h mi sec ml) 0 = y div 100" "num2 (instant_text c h mi sec ml) 2 = y mod 100"
      "num2 (instant_text c h mi sec ml) 5 = m" "num2 (instant_text c h mi sec ml) 8 = d"
    unfolding instant_text_def c by (rule iso_text_num2[OF assms(1)[unfolded c]])+
  have y: "y div 100 * 100 + y mod 100 = y" by simp
  have ml: "ml div 10 * 10 + (48 + ml mod 10 - 48) = ml" by simp
  have "ts_toDate engine (instant_text c h mi sec ml) = native_parse engine (instant_text c h mi sec ml)"
    unfolding ts_toDate_def r by simp
  also have "\<dots> = Some (es_day c * 86400000 + h * 3600000 + mi * 60000 + sec * 1000 + ml)"
    unfolding native_parse_def Let_def r date y c[symmetric] using v by (simp add: r ml)
  finally show "ts_toDate engine (instant_text c h mi sec ml) =
      Some (es_day c * 86400000 + h * 3600000 + mi * 60000 + sec * 1000 + ml)" .
qed

lemma es_day_civil: "es_day (es_civil n) = n"
  by (simp add: es_day_def es_civil_def Let_def)

lemma time_sum: "(t::int) div 3600000 * 3600000 + t div 60000 mod 60 * 60000 + t div 1000 mod 60 * 1000 + t mod 1000 = t"
proof -
  have q: "a div b * b + a mod b = a" for a b :: int by simp
  have 1: "t div 1000 div 60 = t div 60000" "t div 60000 div 60 = t div 3600000"
    by (simp_all add: zdiv_zmult2_eq[symmetric])
  have 2: "t div 60000 * 60 + t div 1000 mod 60 = t div 1000" using q[of "t div 1000" 60] 1 by simp
  have 3: "t div 3600000 * 60 + t div 60000 mod 60 = t div 60000" using q[of "t div 60000" 60] 1 by simp
  show ?thesis using 2 3 q[of t 1000] by linarith
qed

section \<open>Properties\<close>


text \<open>
  C26. An instant of years 0000 to 9999 survives being printed and read: \<open>fromEpochMs\<close> gives a text
  that \<open>isValid\<close> accepts, and \<open>toDate\<close> of it is the same millisecond, whatever the engine does
  with texts the standard leaves open.
\<close>

theorem timestamp_roundtrip:
  assumes "MIN_MS \<le> ms" "ms < MAX_FAST_MS"
  shows "\<exists>s. fromEpochMs (Whole ms) = Inr s \<and> ts_isValid s \<and> ts_toDate engine s = Some ms"
proof -
  define n where "n = ms div 86400000"
  define t where "t = ms mod 86400000"
  have r: "MIN_DAY \<le> n" "n \<le> MAX_DAY" unfolding n_def by (rule day_range[OF assms])+
  have ok: "civil_ok (es_civil n)" unfolding es_civil_of[OF r] by (rule civil_of_ok(1)[OF r])
  have t: "0 \<le> t" "t < 86400000" by (auto simp: t_def)
  have tb: "0 \<le> t div 3600000" "t div 3600000 < 24" "0 \<le> t div 60000 mod 60" "t div 60000 mod 60 < 60"
      "0 \<le> t div 1000 mod 60" "t div 1000 mod 60 < 60" "0 \<le> t mod 1000" "t mod 1000 < 1000"
    using t by (auto simp: pos_imp_zdiv_nonneg_iff)
  have "fromEpochMs (Whole ms) = Inr (native_iso ms)"
    using assms by (simp add: fromEpochMs_native ts_checkRange_def)
  moreover have "native_iso ms =
      instant_text (es_civil n) (t div 3600000) (t div 60000 mod 60) (t div 1000 mod 60) (t mod 1000)"
    unfolding native_iso_def Let_def instant_text_def n_def t_def by (rule refl)
  moreover have "es_day (es_civil n) * 86400000 + t div 3600000 * 3600000 + t div 60000 mod 60 * 60000 +
      t div 1000 mod 60 * 1000 + t mod 1000 = ms"
  proof -
    have "n * 86400000 + t = ms" by (simp add: n_def t_def)
    then show ?thesis unfolding es_day_civil using time_sum[of t] by linarith
  qed
  ultimately show ?thesis
    using instant_valid(1)[OF ok tb] instant_valid(2)[OF ok tb, of engine] by (simp only:) blast
qed

lemma timestamp_roundtrip_witness:
  "\<exists>s. fromEpochMs (Whole 1709251199999) = Inr s \<and> ts_isValid s \<and> ts_toDate (\<lambda>_. None) s = Some 1709251199999"
proof -
  have "MIN_MS \<le> 1709251199999" "1709251199999 < MAX_FAST_MS" by (simp_all add: MIN_MS_def MAX_FAST_MS_def)
  then show ?thesis by (rule timestamp_roundtrip)
qed

end
