(* ===== verification/ErrorChain.thy ===== *)
theory ErrorChain
  imports JsPrelude
begin

text \<open>
  \<open>ErrorChain.ts\<close>: the errors along \<open>error.cause\<close>, each once, when the causes may form a cycle.

  An error is an address and \<open>cause\<close> maps it to its cause, \<^term>\<open>None\<close> when the cause is no
  \<open>Error\<close>. The loops move a mark to the current error after 1, 2, 4, \<dots> steps and stop when they
  meet it again. They are partial functions, so \<^term>\<open>None\<close> as a result is a loop that never
  returns; reading \<open>.cause\<close> of something that is no error is a \<open>TypeError\<close>.

  The three loops share their control structure, which the locale \<open>marked_walk\<close> states; it is
  interpreted on each of them. Every function returns whenever finitely many errors are reachable.
\<close>

section \<open>The code\<close>

text \<open>\<open>hare.cause\<close>, where \<open>hare\<close> may be no error.\<close>

fun ec_steps :: "('e \<Rightarrow> 'e option) \<Rightarrow> nat \<Rightarrow> 'e option \<Rightarrow> 'e option outcome" where
  "ec_steps cause 0 h = Inr h"
| "ec_steps cause (Suc i) None = Inl TypeError"
| "ec_steps cause (Suc i) (Some x) = ec_steps cause i (cause x)"

partial_function (option) ec_meet ::
    "('e \<Rightarrow> 'e option) \<Rightarrow> 'e option \<Rightarrow> 'e option \<Rightarrow> int \<Rightarrow> int outcome option" where
  "ec_meet cause tortoise hare mu =
     (if tortoise = hare then Some (Inr mu)
      else case tortoise of
          None \<Rightarrow> Some (Inl TypeError)
        | Some t \<Rightarrow>
           (case hare of
              None \<Rightarrow> Some (Inl TypeError)
            | Some h \<Rightarrow> ec_meet cause (cause t) (cause h) (mu + 1)))"

definition ec_distinctCount :: "('e \<Rightarrow> 'e option) \<Rightarrow> 'e \<Rightarrow> int \<Rightarrow> int outcome option" where
  "ec_distinctCount cause error lam =
     (case ec_steps cause (nat lam) (Some error) of
        Inl e \<Rightarrow> Some (Inl e)
      | Inr hare \<Rightarrow> map_option (map_sum id (\<lambda>mu. mu + lam)) (ec_meet cause (Some error) hare 0))"

partial_function (option) ec_len_loop ::
    "('e \<Rightarrow> 'e option) \<Rightarrow> 'e \<Rightarrow> 'e option \<Rightarrow> 'e option \<Rightarrow> int \<Rightarrow> int \<Rightarrow> int \<Rightarrow> int outcome option" where
  "ec_len_loop cause error mark current steps limit n =
     (case current of
        None \<Rightarrow> Some (Inr n)
      | Some x \<Rightarrow>
          if current = mark then ec_distinctCount cause error steps
          else if steps = limit then ec_len_loop cause error current (cause x) 1 (limit * 2) (n + 1)
          else ec_len_loop cause error mark (cause x) (steps + 1) limit (n + 1))"

definition ec_distinctLength :: "('e \<Rightarrow> 'e option) \<Rightarrow> 'e \<Rightarrow> int outcome option" where
  "ec_distinctLength cause error = ec_len_loop cause error (Some error) (cause error) 1 1 1"

text \<open>The generator, run to its end by a consumer that changes no cause.\<close>

fun ec_yield :: "('e \<Rightarrow> 'e option) \<Rightarrow> nat \<Rightarrow> 'e \<Rightarrow> 'e list outcome" where
  "ec_yield cause 0 x = Inr [x]"
| "ec_yield cause (Suc k) x =
     (case cause x of None \<Rightarrow> Inl TypeError | Some y \<Rightarrow> map_sum id (Cons x) (ec_yield cause k y))"

definition ec_chain :: "('e \<Rightarrow> 'e option) \<Rightarrow> 'e \<Rightarrow> 'e list outcome option" where
  "ec_chain cause error =
     map_option (\<lambda>r. case r of Inl e \<Rightarrow> Inl e | Inr n \<Rightarrow> ec_yield cause (nat (n - 1)) error)
       (ec_distinctLength cause error)"

text \<open>Cutting \<open>result\<close> to the number of distinct errors, which is at most its length.\<close>

partial_function (option) ec_array_loop ::
    "('e \<Rightarrow> 'e option) \<Rightarrow> 'e \<Rightarrow> 'e list \<Rightarrow> 'e option \<Rightarrow> 'e option \<Rightarrow> int \<Rightarrow> int \<Rightarrow> 'e list outcome option" where
  "ec_array_loop cause error acc mark current steps limit =
     (case current of
        None \<Rightarrow> Some (Inr acc)
      | Some x \<Rightarrow>
          let acc = acc @ [x]; current = cause x; steps = steps + 1
          in if current = mark
             then map_option (map_sum id (\<lambda>n. take (nat n) acc)) (ec_distinctCount cause error steps)
             else if steps = limit then ec_array_loop cause error acc current current 0 (limit * 2)
             else ec_array_loop cause error acc mark current steps limit)"

definition ec_toArray :: "('e \<Rightarrow> 'e option) \<Rightarrow> 'e \<Rightarrow> 'e list outcome option" where
  "ec_toArray cause error = ec_array_loop cause error [] (Some error) (Some error) 0 1"

partial_function (option) ec_find_loop ::
    "('e \<Rightarrow> 'e option) \<Rightarrow> ('e \<Rightarrow> bool) \<Rightarrow> 'e option \<Rightarrow> 'e option \<Rightarrow> int \<Rightarrow> int \<Rightarrow> 'e option option" where
  "ec_find_loop cause predicate mark current steps limit =
     (case current of
        None \<Rightarrow> Some None
      | Some x \<Rightarrow>
          if predicate x then Some (Some x)
          else
            let current = cause x; steps = steps + 1
            in if current = mark then Some None
               else if steps = limit then ec_find_loop cause predicate current current 0 (limit * 2)
               else ec_find_loop cause predicate mark current steps limit)"

definition ec_find :: "('e \<Rightarrow> 'e option) \<Rightarrow> ('e \<Rightarrow> bool) \<Rightarrow> 'e \<Rightarrow> 'e option option" where
  "ec_find cause predicate error = ec_find_loop cause predicate (Some error) (Some error) 0 1"

declare ec_meet.simps [code] ec_len_loop.simps [code] ec_array_loop.simps [code] ec_find_loop.simps [code]

section \<open>The walk along the causes\<close>

fun walk :: "('e \<Rightarrow> 'e option) \<Rightarrow> 'e \<Rightarrow> nat \<Rightarrow> 'e option" where
  "walk cause e 0 = Some e"
| "walk cause e (Suc n) = Option.bind (walk cause e n) cause"

text \<open>The first index at which the walk has ended or repeats an error.\<close>

definition lap_end :: "(nat \<Rightarrow> 'e option) \<Rightarrow> nat \<Rightarrow> bool" where
  "lap_end s n \<longleftrightarrow> (s n = None \<or> (\<exists>i<n. s n = s i)) \<and> (\<forall>m<n. s m \<noteq> None \<and> (\<forall>i<m. s m \<noteq> s i))"

definition walk_list :: "('e \<Rightarrow> 'e option) \<Rightarrow> 'e \<Rightarrow> nat \<Rightarrow> 'e list" where
  "walk_list cause e n = map (the \<circ> walk cause e) [0..<n]"

lemma lap_end_exists:
  assumes "finite {x. \<exists>n. walk cause e n = Some x}"
  obtains n where "lap_end (walk cause e) n" "0 < n"
proof -
  let ?s = "walk cause e"
  let ?P = "\<lambda>n. ?s n = None \<or> (\<exists>i<n. ?s n = ?s i)"
  have "\<exists>n. ?P n"
  proof (rule ccontr)
    assume n: "\<nexists>n. ?P n"
    then have "inj ?s" unfolding inj_def by (metis linorder_neqE_nat)
    then have "infinite (range ?s)" using finite_imageD infinite_UNIV_nat by blast
    moreover have "range ?s \<subseteq> Some ` {x. \<exists>n. ?s n = Some x}" using n by (auto simp: image_iff) metis
    ultimately show False using finite_subset[OF _ finite_imageI[OF assms]] by blast
  qed
  define n where "n = (LEAST n. ?P n)"
  have fin: "?P n" unfolding n_def by (rule LeastI_ex) fact
  have before: "\<not> ?P m" if "m < n" for m using not_less_Least[OF that[unfolded n_def]] .
  have "lap_end ?s n" unfolding lap_end_def
  proof (intro conjI allI impI)
    fix m i assume "m < n"
    note not_P = before[OF this]
    show "?s m \<noteq> None" using not_P by simp
    show "i < m \<Longrightarrow> ?s m \<noteq> ?s i" using not_P by simp
  qed (rule fin)
  moreover have "0 < n"
  proof (rule ccontr)
    assume "\<not> 0 < n"
    then show False using fin by simp
  qed
  ultimately show ?thesis using that by blast
qed

lemma walk_shift: "walk cause e i = walk cause e j \<Longrightarrow> walk cause e (i + k) = walk cause e (j + k)"
  by (induction k) auto

lemma walk_list_Suc: "walk cause e n = Some x \<Longrightarrow> walk_list cause e (Suc n) = walk_list cause e n @ [x]"
  by (simp add: walk_list_def)

lemma walk_list_facts:
  assumes "lap_end (walk cause e) n" "0 < n"
  shows "distinct (walk_list cause e n)" "hd (walk_list cause e n) = e"
    "Suc i < n \<Longrightarrow> cause (walk_list cause e n ! i) = Some (walk_list cause e n ! Suc i)"
    "set (walk_list cause e n) = {x. \<exists>k. walk cause e k = Some x}"
proof -
  let ?s = "walk cause e"
  have s: "?s m \<noteq> None" "i < m \<Longrightarrow> ?s m \<noteq> ?s i" if "m < n" for m i
    using assms(1) that unfolding lap_end_def by auto
  have "inj_on (the \<circ> ?s) {0..<n}"
  proof (rule linorder_inj_onI)
    fix i m assume "i < m" "i \<in> {0..<n}" "m \<in> {0..<n}"
    then show "(the \<circ> ?s) i \<noteq> (the \<circ> ?s) m"
      using s(2)[of m i] s(1)[of m] s(1)[of i] by auto
  qed auto
  then show "distinct (walk_list cause e n)" by (simp add: walk_list_def distinct_map)
  show "hd (walk_list cause e n) = e" using assms(2) by (simp add: walk_list_def hd_map)
  show "cause (walk_list cause e n ! i) = Some (walk_list cause e n ! Suc i)" if "Suc i < n"
    using s(1)[of i] s(1)[OF that] that by (auto simp: walk_list_def)
  have "\<exists>j<n. ?s k = ?s j \<or> ?s k = None" for k
  proof (induction k)
    case 0
    then show ?case using assms(2) by auto
  next
    case (Suc k)
    then obtain j where j: "j < n" "?s k = ?s j \<or> ?s k = None" by blast
    then consider "?s (Suc k) = None" | "?s (Suc k) = ?s (Suc j)" by auto
    then show ?case
    proof cases
      case 2
      show ?thesis
      proof (cases "Suc j < n")
        case False
        then have "n = Suc j" using j(1) by simp
        then have "?s n = ?s (Suc k)" using 2 by (simp only:)
        then show ?thesis using assms(1) j(1) unfolding lap_end_def by metis
      qed (use 2 in auto)
    qed (use j in auto)
  qed
  then show "set (walk_list cause e n) = {x. \<exists>k. ?s k = Some x}"
  proof (intro equalityI subsetI)
    fix x assume "x \<in> set (walk_list cause e n)"
    then obtain j where "j < n" "x = the (?s j)" by (auto simp: walk_list_def)
    then have "?s j = Some x" using s(1)[of j] by simp
    then show "x \<in> {x. \<exists>k. ?s k = Some x}" by blast
  next
    fix x assume "x \<in> {x. \<exists>k. ?s k = Some x}"
    then obtain k where k: "?s k = Some x" by blast
    then obtain j where j: "j < n" "?s k = ?s j"
      using \<open>\<And>k. \<exists>j<n. ?s k = ?s j \<or> ?s k = None\<close>[of k] by auto
    from k j(2) have "?s j = Some x" by simp
    then have "x = (the \<circ> ?s) j" by simp
    then show "x \<in> set (walk_list cause e n)" using j(1) by (simp add: walk_list_def)
  qed
qed
text \<open>After a repetition the walk goes round.\<close>

lemma lap_cycle:
  assumes "lap_end (walk cause e) n" "walk cause e n = Some x"
  obtains mu lam where "n = mu + lam" "0 < lam"
    "\<And>a j. 0 < j \<Longrightarrow> walk cause e (a + j) = walk cause e a \<Longrightarrow> mu \<le> a \<and> lam \<le> j"
    "\<And>a. mu \<le> a \<Longrightarrow> walk cause e (a + lam) = walk cause e a"
    "\<And>a. walk cause e a \<noteq> None"
proof -
  let ?s = "walk cause e"
  have s: "?s m \<noteq> None" "i < m \<Longrightarrow> ?s m \<noteq> ?s i" if "m < n" for m i
    using assms(1) that unfolding lap_end_def by auto
  obtain mu where mu: "mu < n" "?s n = ?s mu" using assms unfolding lap_end_def by auto
  define lam where "lam = n - mu"
  have n: "n = mu + lam" and lam: "0 < lam" using mu by (auto simp: lam_def)
  have cyc: "?s (a + lam) = ?s a" if "mu \<le> a" for a
    using walk_shift[of cause e "mu + lam" mu "a - mu"] that mu(2) n by (simp add: add.commute add.left_commute)
  have repr: "\<exists>b. mu \<le> b \<and> b < n \<and> ?s b = ?s a \<and> (\<exists>q. a = b + q * lam)" if "mu \<le> a" for a
    using that
  proof (induction a rule: less_induct)
    case (less a)
    show ?case
    proof (cases "a < n")
      case False
      then have a: "mu \<le> a - lam" "a - lam < a" "a - lam + lam = a" using n lam by auto
      then obtain b q where b: "mu \<le> b" "b < n" "?s b = ?s (a - lam)" "a - lam = b + q * lam"
        using less.IH by blast
      have "?s b = ?s a" using cyc[OF a(1)] b(3) a(3) by simp
      moreover have "a = b + Suc q * lam" using b(4) a(3) by simp
      ultimately show ?thesis using b(1,2) by blast
    next
      case True
      have "a = a + 0 * lam" by simp
      then show ?thesis using True less.prems by blast
    qed
  qed
  have some: "?s a \<noteq> None" for a
    using s(1)[of a] repr[of a] s(1) mu(1) by (cases "a < mu") (auto, metis)
  have per: "mu \<le> a \<and> lam \<le> j" if j: "0 < j" "?s (a + j) = ?s a" for a j
  proof -
    have a: "mu \<le> a"
    proof (rule ccontr)
      assume a: "\<not> mu \<le> a"
      obtain b where "b < n" "?s b = ?s (a + j)" "a < b"
      proof (cases "a + j < n")
        case False
        then show ?thesis using repr[of "a + j"] n that a by force
      qed (use that j in auto)
      then show False using s(2)[of b a] j by simp
    qed
    obtain b q where b: "mu \<le> b" "b < n" "?s b = ?s a" "a = b + q * lam" using repr[OF a] by blast
    have "?s (b + j) = ?s b"
      using walk_shift[of cause e b a j] b(3) j(2) by simp
    then have "\<not> b + j < n" using s(2)[of "b + j" b] j(1) by auto
    then have "mu \<le> b + j - lam" "?s (b + j - lam) = ?s b"
      using cyc[of "b + j - lam"] n b(1) \<open>?s (b + j) = ?s b\<close> by auto
    show ?thesis
    proof (rule ccontr)
      assume "\<not> ?thesis"
      then have "b + j - lam < b" using a \<open>\<not> b + j < n\<close> n lam b(1) by auto
      then show False using s(2)[OF b(2)] \<open>?s (b + j - lam) = ?s b\<close> by metis
    qed
  qed
  show ?thesis using that n lam per cyc some by blast
qed

section \<open>The marked walk\<close>

text \<open>
  What the three loops share: with the mark at index \<open>a\<close> and the current error \<open>j\<close> steps further,
  end the loop when the walk is over, when it is back at the mark or when the current error stops
  it; set the mark and double the limit after \<open>p\<close> steps; go on otherwise.
\<close>

locale marked_walk =
  fixes cause :: "'e \<Rightarrow> 'e option" and e :: 'e
    and go :: "nat \<Rightarrow> nat \<Rightarrow> nat \<Rightarrow> 'r"
    and over :: "nat \<Rightarrow> 'r" and back_at :: "nat \<Rightarrow> nat \<Rightarrow> 'r"
    and stops :: "'e \<Rightarrow> bool" and stop :: "'e \<Rightarrow> 'r"
  assumes go_step: "walk cause e (a + j - 1) \<noteq> None \<Longrightarrow> 1 \<le> j \<Longrightarrow> j \<le> p \<Longrightarrow> go a j p =
      (case walk cause e (a + j) of
         None \<Rightarrow> over (a + j)
       | Some x \<Rightarrow>
           if walk cause e (a + j) = walk cause e a then back_at a j
           else if stops x then stop x
           else if j = p then go (a + j) 1 (2 * p)
           else go a (j + 1) p)"
begin

lemma go_on:
  assumes "1 \<le> j" "j \<le> p"
    "\<And>i. 1 \<le> i \<Longrightarrow> i < j \<Longrightarrow> \<exists>x. walk cause e (a + i) = Some x \<and> \<not> stops x \<and> walk cause e (a + i) \<noteq> walk cause e a"
    "walk cause e a \<noteq> None"
  shows "go a 1 p = go a j p"
  using assms
proof (induction j)
  case (Suc j)
  show ?case
  proof (cases "j = 0")
    case False
    obtain x where x: "walk cause e (a + j) = Some x" "\<not> stops x" "walk cause e (a + j) \<noteq> walk cause e a"
      using Suc.prems(3)[of j] False by auto
    have "walk cause e (a + j - 1) \<noteq> None"
    proof (cases "j = 1")
      case False
      have "1 \<le> j - 1" "j - 1 < Suc j" using \<open>j \<noteq> 0\<close> False by auto
      then obtain x where "walk cause e (a + (j - 1)) = Some x" using Suc.prems(3)[of "j - 1"] by blast
      then show ?thesis using \<open>j \<noteq> 0\<close> by simp
    qed (use Suc.prems in simp)
    then have "go a j p = go a (j + 1) p" using go_step[of a j p] x False Suc.prems(2) by auto
    then show ?thesis using Suc False by auto
  qed simp
qed simp

lemma go_stop:
  assumes n: "lap_end (walk cause e) n"
    and i: "i < n" "stops (the (walk cause e i))" "\<And>k. 1 \<le> k \<Longrightarrow> k < i \<Longrightarrow> \<not> stops (the (walk cause e k))"
    and p: "1 \<le> p" "p \<le> i"
  shows "go (p - 1) 1 p = stop (the (walk cause e i))"
  using p
proof (induction "i - p" arbitrary: p rule: less_induct)
  case less
  have s: "walk cause e m \<noteq> None" "k < m \<Longrightarrow> walk cause e m \<noteq> walk cause e k" if "m < n" for m k
    using n that unfolding lap_end_def by auto
  have inner: "\<exists>x. walk cause e (p - 1 + k) = Some x \<and> \<not> stops x \<and> walk cause e (p - 1 + k) \<noteq> walk cause e (p - 1)"
    if "1 \<le> k" "p - 1 + k < i" for k
    using s[of "p - 1 + k"] i(1) i(3)[of "p - 1 + k"] that less.prems by force
  have start: "walk cause e (p - 1) \<noteq> None" using s[of "p - 1"] less.prems i(1) by simp
  show ?case
  proof (cases "i \<le> p - 1 + p")
    case True
    define j where "j = i - (p - 1)"
    have j: "1 \<le> j" "j \<le> p" "p - 1 + j = i" using less.prems True by (auto simp: j_def)
    have "go (p - 1) 1 p = go (p - 1) j p" using inner start j by (intro go_on) auto
    also have "\<dots> = stop (the (walk cause e i))"
      using go_step[of "p - 1" j p] j i(1,2) s(1)[of i] s(1)[of "i - 1"] s(2)[of i "p - 1"] less.prems by auto
    finally show ?thesis .
  next
    case False
    have "go (p - 1) 1 p = go (p - 1) p p" using inner start less.prems False by (intro go_on) auto
    also have "\<dots> = go (p - 1 + p) 1 (2 * p)"
      using go_step[of "p - 1" p p] inner[of p] s(1)[of "p - 1 + p - 1"] less.prems False i(1) by auto
    also have "p - 1 + p = 2 * p - 1" by simp
    also have "go (2 * p - 1) 1 (2 * p) = stop (the (walk cause e i))"
      using less.prems False by (intro less.hyps) auto
    finally show ?thesis .
  qed
qed

lemma go_over:
  assumes n: "lap_end (walk cause e) n" "walk cause e n = None"
    and clean: "\<And>k x. walk cause e k = Some x \<Longrightarrow> \<not> stops x"
    and p: "1 \<le> p" "p \<le> n"
  shows "go (p - 1) 1 p = over n"
  using p
proof (induction "n - p" arbitrary: p rule: less_induct)
  case less
  have s: "walk cause e m \<noteq> None" "k < m \<Longrightarrow> walk cause e m \<noteq> walk cause e k" if "m < n" for m k
    using n that unfolding lap_end_def by auto
  have inner: "\<exists>x. walk cause e (p - 1 + k) = Some x \<and> \<not> stops x \<and> walk cause e (p - 1 + k) \<noteq> walk cause e (p - 1)"
    if "1 \<le> k" "p - 1 + k < n" for k
    using s[of "p - 1 + k"] clean[of "p - 1 + k"] that less.prems by force
  have start: "walk cause e (p - 1) \<noteq> None" using s[of "p - 1"] less.prems by simp
  show ?case
  proof (cases "n \<le> p - 1 + p")
    case True
    define j where "j = n - (p - 1)"
    have j: "1 \<le> j" "j \<le> p" "p - 1 + j = n" using less.prems True by (auto simp: j_def)
    have "go (p - 1) 1 p = go (p - 1) j p" using inner start j by (intro go_on) auto
    also have "\<dots> = over n"
      using go_step[of "p - 1" j p] j n(2) s(1)[of "n - 1"] less.prems by auto
    finally show ?thesis .
  next
    case False
    have "go (p - 1) 1 p = go (p - 1) p p" using inner start less.prems False by (intro go_on) auto
    also have "\<dots> = go (p - 1 + p) 1 (2 * p)"
      using go_step[of "p - 1" p p] inner[of p] s(1)[of "p - 1 + p - 1"] less.prems False by auto
    also have "p - 1 + p = 2 * p - 1" by simp
    also have "go (2 * p - 1) 1 (2 * p) = over n" using less.prems False by (intro less.hyps) auto
    finally show ?thesis .
  qed
qed

lemma go_back:
  assumes period: "\<And>a j. 0 < j \<Longrightarrow> walk cause e (a + j) = walk cause e a \<Longrightarrow> mu \<le> a \<and> lam \<le> j"
    and cyc: "\<And>a. mu \<le> a \<Longrightarrow> walk cause e (a + lam) = walk cause e a"
    and some: "\<And>a. walk cause e a \<noteq> None" and lam: "0 < lam"
    and clean: "\<And>k x. walk cause e k = Some x \<Longrightarrow> \<not> stops x"
    and p: "1 \<le> p"
  shows "\<exists>a\<ge>mu. go (p - 1) 1 p = back_at a lam"
  using p
proof (induction "mu + lam - p" arbitrary: p rule: less_induct)
  case less
  show ?case
  proof (cases "mu \<le> p - 1 \<and> lam \<le> p")
    case True
    have "walk cause e (p - 1 + k) \<noteq> walk cause e (p - 1)" if "1 \<le> k" "k < lam" for k
      using period[of k "p - 1"] that by auto
    then have "go (p - 1) 1 p = go (p - 1) lam p" using some clean True lam by (intro go_on) fastforce+
    also have "\<dots> = back_at (p - 1) lam"
    proof -
      obtain y where y: "walk cause e (p - 1 + lam) = Some y" using some by blast
      have y': "walk cause e (p - 1) = Some y" using y cyc[of "p - 1"] True by simp
      show ?thesis
        using go_step[of "p - 1" lam p] some[of "p - 1 + lam - 1"] True lam
        unfolding y y' by simp
    qed
    finally show ?thesis using True by blast
  next
    case False
    have free: "walk cause e (p - 1 + k) \<noteq> walk cause e (p - 1)" if "1 \<le> k" "k \<le> p" for k
      using period[of k "p - 1"] that False by auto
    then have "go (p - 1) 1 p = go (p - 1) p p" using some clean less.prems by (intro go_on) fastforce+
    also have "\<dots> = go (p - 1 + p) 1 (2 * p)"
    proof -
      obtain y where y: "walk cause e (p - 1 + p) = Some y" using some by blast
      show ?thesis
        using go_step[of "p - 1" p p] some[of "p - 1 + p - 1"] y clean[OF y] free[of p] less.prems by auto
    qed
    also have "p - 1 + p = 2 * p - 1" by simp
    finally have e: "go (p - 1) 1 p = go (2 * p - 1) 1 (2 * p)" .
    have "mu + lam - 2 * p < mu + lam - p" using False less.prems lam by auto
    then show ?thesis unfolding e using less.prems by (intro less.hyps) auto
  qed
qed

end
section \<open>The loops of the module\<close>

lemma walk_ended: "walk cause e i = None \<Longrightarrow> walk cause e (i + k) = None"
  by (induction k) auto

lemma walk_before: "walk cause e (a + j - 1) \<noteq> None \<Longrightarrow> 1 \<le> j \<Longrightarrow> walk cause e a \<noteq> None"
proof
  assume "1 \<le> j" "walk cause e a = None" "walk cause e (a + j - 1) \<noteq> None"
  then show False using walk_ended[of cause e a "j - 1"] by simp
qed

lemma walk_next: "walk cause e (a + j) = Some x \<Longrightarrow> cause x = walk cause e (a + (j + 1))"
  by simp

interpretation len: marked_walk cause e
  "\<lambda>a j p. ec_len_loop cause e (walk cause e a) (walk cause e (a + j)) (int j) (int p) (int (a + j))"
  "\<lambda>n. Some (Inr (int n))" "\<lambda>a j. ec_distinctCount cause e (int j)" "\<lambda>_. False" "\<lambda>_. None"
proof
  fix a j p :: nat
  assume "1 \<le> j" "j \<le> p"
  show "ec_len_loop cause e (walk cause e a) (walk cause e (a + j)) (int j) (int p) (int (a + j)) =
      (case walk cause e (a + j) of
         None \<Rightarrow> Some (Inr (int (a + j)))
       | Some x \<Rightarrow>
           if walk cause e (a + j) = walk cause e a then ec_distinctCount cause e (int j)
           else if False then None
           else if j = p
           then ec_len_loop cause e (walk cause e (a + j)) (walk cause e (a + j + 1)) (int 1) (int (2 * p)) (int (a + j + 1))
           else ec_len_loop cause e (walk cause e a) (walk cause e (a + (j + 1))) (int (j + 1)) (int p) (int (a + (j + 1))))"
    by (subst ec_len_loop.simps) (auto split: option.splits simp: algebra_simps)
qed

definition cut :: "'e list \<Rightarrow> int outcome option \<Rightarrow> 'e list outcome option" where
  "cut acc r = map_option (map_sum id (\<lambda>n. take (nat n) acc)) r"

text \<open>The body of \<open>toArray\<close> and of \<open>find\<close> after the step to the next error.\<close>

definition array_go :: "('e \<Rightarrow> 'e option) \<Rightarrow> 'e \<Rightarrow> nat \<Rightarrow> nat \<Rightarrow> nat \<Rightarrow> 'e list outcome option" where
  "array_go cause e a j p =
     (let acc = walk_list cause e (a + j); cur = walk cause e (a + j)
      in if cur = walk cause e a then cut acc (ec_distinctCount cause e (int j))
         else if j = p then ec_array_loop cause e acc cur cur 0 (int (2 * p))
         else ec_array_loop cause e acc (walk cause e a) cur (int j) (int p))"

lemma array_enter:
  assumes "walk cause e (a + j) = Some x"
  shows "ec_array_loop cause e (walk_list cause e (a + j)) (walk cause e a) (walk cause e (a + j)) (int j) (int p) =
    array_go cause e a (j + 1) p"
  using walk_list_Suc[OF assms] walk_next[OF assms]
  by (subst ec_array_loop.simps)
    (simp add: assms array_go_def Let_def cut_def algebra_simps of_nat_eq_iff[symmetric] del: of_nat_eq_iff walk.simps)

interpretation arr: marked_walk cause e "array_go cause e"
  "\<lambda>n. Some (Inr (walk_list cause e n))"
  "\<lambda>a j. cut (walk_list cause e (a + j)) (ec_distinctCount cause e (int j))" "\<lambda>_. False" "\<lambda>_. None"
proof
  fix a j p :: nat
  assume w: "walk cause e (a + j - 1) \<noteq> None" "1 \<le> j" "j \<le> p"
  show "array_go cause e a j p =
      (case walk cause e (a + j) of
         None \<Rightarrow> Some (Inr (walk_list cause e (a + j)))
       | Some x \<Rightarrow>
           if walk cause e (a + j) = walk cause e a
           then cut (walk_list cause e (a + j)) (ec_distinctCount cause e (int j))
           else if False then None
           else if j = p then array_go cause e (a + j) 1 (2 * p) else array_go cause e a (j + 1) p)"
  proof (cases "walk cause e (a + j)")
    case None
    have "walk cause e a \<noteq> None" using walk_before[OF w(1,2)] .
    then show ?thesis using None by (auto simp: array_go_def Let_def ec_array_loop.simps)
  next
    case (Some x)
    have "ec_array_loop cause e (walk_list cause e (a + j)) (Some x) (Some x) 0 (int (2 * p)) =
        array_go cause e (a + j) 1 (2 * p)"
      using array_enter[of cause e "a + j" 0 x "2 * p"] Some by simp
    moreover have "ec_array_loop cause e (walk_list cause e (a + j)) (walk cause e a) (Some x) (int j) (int p) =
        array_go cause e a (j + 1) p"
      using array_enter[of cause e a j x p] Some by simp
    ultimately show ?thesis
      unfolding array_go_def[of cause e a j p] Let_def Some by (auto simp: Some)
  qed
qed

definition find_go :: "('e \<Rightarrow> 'e option) \<Rightarrow> ('e \<Rightarrow> bool) \<Rightarrow> 'e \<Rightarrow> nat \<Rightarrow> nat \<Rightarrow> nat \<Rightarrow> 'e option option" where
  "find_go cause P e a j p =
     (let cur = walk cause e (a + j)
      in if cur = walk cause e a then Some None
         else if j = p then ec_find_loop cause P cur cur 0 (int (2 * p))
         else ec_find_loop cause P (walk cause e a) cur (int j) (int p))"

lemma find_enter:
  assumes "walk cause e (a + j) = Some x"
  shows "ec_find_loop cause P (walk cause e a) (walk cause e (a + j)) (int j) (int p) =
    (if P x then Some (Some x) else find_go cause P e a (j + 1) p)"
  using walk_next[OF assms]
  by (subst ec_find_loop.simps)
    (simp add: assms find_go_def Let_def algebra_simps of_nat_eq_iff[symmetric] del: of_nat_eq_iff walk.simps)

interpretation fnd: marked_walk cause e "find_go cause P e"
  "\<lambda>n. Some None" "\<lambda>a j. Some None" P "\<lambda>x. Some (Some x)"
proof
  fix a j p :: nat
  assume w: "walk cause e (a + j - 1) \<noteq> None" "1 \<le> j" "j \<le> p"
  show "find_go cause P e a j p =
      (case walk cause e (a + j) of
         None \<Rightarrow> Some None
       | Some x \<Rightarrow>
           if walk cause e (a + j) = walk cause e a then Some None
           else if P x then Some (Some x)
           else if j = p then find_go cause P e (a + j) 1 (2 * p) else find_go cause P e a (j + 1) p)"
  proof (cases "walk cause e (a + j)")
    case None
    have "walk cause e a \<noteq> None" using walk_before[OF w(1,2)] .
    then show ?thesis using None by (simp add: find_go_def ec_find_loop.simps)
  next
    case (Some x)
    have "ec_find_loop cause P (Some x) (Some x) 0 (int (2 * p)) =
        (if P x then Some (Some x) else find_go cause P e (a + j) 1 (2 * p))"
      using find_enter[of cause e "a + j" 0 x P "2 * p"] Some by simp
    moreover have "ec_find_loop cause P (walk cause e a) (Some x) (int j) (int p) =
        (if P x then Some (Some x) else find_go cause P e a (j + 1) p)"
      using find_enter[of cause e a j x P p] Some by simp
    ultimately show ?thesis
      unfolding find_go_def[of cause P e a j p] Let_def Some by (auto simp: Some)
  qed
qed

section \<open>Counting after a cycle\<close>

lemma ec_steps_walk:
  "(\<And>i. walk cause e i \<noteq> None) \<Longrightarrow> ec_steps cause k (walk cause e i) = Inr (walk cause e (i + k))"
proof (induction k arbitrary: i)
  case (Suc k)
  obtain x where x: "walk cause e i = Some x" using Suc.prems by blast
  have "cause x = walk cause e (Suc i)" using x by simp
  then show ?case using Suc.IH[OF Suc.prems, of "Suc i"] by (simp add: x del: walk.simps)
qed simp

lemma ec_meet_walk:
  assumes some: "\<And>i. walk cause e i \<noteq> None" and lam: "0 < lam"
    and period: "\<And>a j. 0 < j \<Longrightarrow> walk cause e (a + j) = walk cause e a \<Longrightarrow> mu \<le> a \<and> lam \<le> j"
    and cyc: "\<And>a. mu \<le> a \<Longrightarrow> walk cause e (a + lam) = walk cause e a"
    and i: "i \<le> mu"
  shows "ec_meet cause (walk cause e i) (walk cause e (i + lam)) (int i) = Some (Inr (int mu))"
  using i
proof (induction "mu - i" arbitrary: i)
  case 0
  then show ?case using cyc[of i] by (subst ec_meet.simps) simp
next
  case (Suc d)
  obtain x y where xy: "walk cause e i = Some x" "walk cause e (i + lam) = Some y" using some by blast
  have "x \<noteq> y" using period[OF lam, of i] xy Suc.hyps(2) by auto
  moreover have "cause x = walk cause e (i + 1)" "cause y = walk cause e (i + 1 + lam)" using xy by simp_all
  ultimately show ?case
    using Suc.hyps(1)[of "i + 1"] Suc.hyps(2) Suc.prems
    by (subst ec_meet.simps) (simp add: xy algebra_simps del: walk.simps)
qed

lemma ec_distinctCount_walk:
  assumes some: "\<And>i. walk cause e i \<noteq> None" and lam: "0 < lam"
    and period: "\<And>a j. 0 < j \<Longrightarrow> walk cause e (a + j) = walk cause e a \<Longrightarrow> mu \<le> a \<and> lam \<le> j"
    and cyc: "\<And>a. mu \<le> a \<Longrightarrow> walk cause e (a + lam) = walk cause e a"
  shows "ec_distinctCount cause e (int lam) = Some (Inr (int (mu + lam)))"
proof -
  have "ec_steps cause lam (Some e) = Inr (walk cause e lam)"
    using ec_steps_walk[where i = 0, OF some] by simp
  moreover have "ec_meet cause (Some e) (walk cause e lam) 0 = Some (Inr (int mu))"
    using ec_meet_walk[OF some lam period cyc, of 0] by simp
  ultimately show ?thesis by (simp add: ec_distinctCount_def)
qed
section \<open>The results\<close>

lemma loops_results:
  assumes n: "lap_end (walk cause e) n" "0 < n"
  shows "ec_distinctLength cause e = Some (Inr (int n))" "ec_toArray cause e = Some (Inr (walk_list cause e n))"
    "(\<And>k x. walk cause e k = Some x \<Longrightarrow> \<not> P x) \<Longrightarrow> ec_find cause P e = Some None"
proof -
  have enter: "ec_distinctLength cause e =
      ec_len_loop cause e (walk cause e (1 - 1)) (walk cause e (1 - 1 + 1)) (int 1) (int 1) (int (1 - 1 + 1))"
    "ec_toArray cause e = array_go cause e (1 - 1) 1 1"
    using array_enter[of cause e 0 0 e 1] by (simp_all add: ec_distinctLength_def ec_toArray_def walk_list_def)
  have find: "ec_find cause P e = find_go cause P e (1 - 1) 1 1" if "\<And>k x. walk cause e k = Some x \<Longrightarrow> \<not> P x"
    using find_enter[of cause e 0 0 e P 1] that[of 0 e] by (simp add: ec_find_def)
  have "ec_distinctLength cause e = Some (Inr (int n)) \<and> ec_toArray cause e = Some (Inr (walk_list cause e n)) \<and>
      ((\<forall>k x. walk cause e k = Some x \<longrightarrow> \<not> P x) \<longrightarrow> ec_find cause P e = Some None)"
  proof (cases "walk cause e n")
    case None
    have "1 \<le> n" using n(2) by simp
    then show ?thesis
      unfolding enter using len.go_over[OF n(1) None, of 1] arr.go_over[OF n(1) None, of 1]
        fnd.go_over[OF n(1) None, of P 1] find by auto
  next
    case (Some x)
    obtain mu lam where c: "n = mu + lam" "0 < lam"
      "\<And>a j. 0 < j \<Longrightarrow> walk cause e (a + j) = walk cause e a \<Longrightarrow> mu \<le> a \<and> lam \<le> j"
      "\<And>a. mu \<le> a \<Longrightarrow> walk cause e (a + lam) = walk cause e a"
      "\<And>a. walk cause e a \<noteq> None"
      using lap_cycle[OF n(1) Some] by metis
    have count: "ec_distinctCount cause e (int lam) = Some (Inr (int n))"
      unfolding c(1) by (rule ec_distinctCount_walk[OF c(5,2,3,4)])
    obtain a where "mu \<le> a" "array_go cause e (1 - 1) 1 1 = cut (walk_list cause e (a + lam)) (ec_distinctCount cause e (int lam))"
      using arr.go_back[OF c(3,4,5,2), of 1] by auto
    moreover have "take n (walk_list cause e (a + lam)) = walk_list cause e n" if "mu \<le> a"
      using that c(1) by (simp add: walk_list_def take_map)
    ultimately have "ec_toArray cause e = Some (Inr (walk_list cause e n))"
      unfolding enter by (simp add: cut_def count)
    moreover have "ec_distinctLength cause e = Some (Inr (int n))"
      unfolding enter using len.go_back[OF c(3,4,5,2), of 1] count by auto
    moreover have "ec_find cause P e = Some None" if "\<forall>k x. walk cause e k = Some x \<longrightarrow> \<not> P x"
      using fnd.go_back[OF c(3,4,5,2), of P 1] find that by auto
    ultimately show ?thesis by blast
  qed
  then show "ec_distinctLength cause e = Some (Inr (int n))" "ec_toArray cause e = Some (Inr (walk_list cause e n))"
    "(\<And>k x. walk cause e k = Some x \<Longrightarrow> \<not> P x) \<Longrightarrow> ec_find cause P e = Some None" by blast+
qed

lemma ec_yield_walk:
  assumes "\<And>i. i \<le> k \<Longrightarrow> walk cause e (m + i) \<noteq> None"
  shows "ec_yield cause k (the (walk cause e m)) = Inr (map (\<lambda>i. the (walk cause e (m + i))) [0..<Suc k])"
  using assms
proof (induction k arbitrary: m)
  case (Suc k)
  obtain x y where xy: "walk cause e m = Some x" "walk cause e (m + 1) = Some y"
    using Suc.prems[of 0] Suc.prems[of 1] by auto
  have "ec_yield cause k (the (walk cause e (Suc m))) = Inr (map (\<lambda>i. the (walk cause e (Suc m + i))) [0..<Suc k])"
    using Suc.prems[of "Suc _"] by (intro Suc.IH) auto
  moreover have "map f [0..<Suc (Suc k)] = f 0 # map (\<lambda>i. f (Suc i)) [0..<Suc k]" for f :: "nat \<Rightarrow> 'a"
    by (simp add: upt_conv_Cons map_Suc_upt[symmetric] del: upt_Suc)
  moreover have "cause x = Some y" using xy by simp
  ultimately show ?case using xy by (simp del: upt_Suc walk.simps)
qed auto

lemma ec_find_result:
  assumes n: "lap_end (walk cause e) n" "0 < n"
  shows "ec_find cause P e = Some (List.find P (walk_list cause e n))"
proof (cases "\<exists>i<n. P (the (walk cause e i))")
  case False
  note facts = walk_list_facts[OF n]
  have none: "\<not> P x" if "walk cause e k = Some x" for k x
  proof -
    have "x \<in> set (walk_list cause e n)" unfolding facts(4) using that by blast
    then show ?thesis using False by (auto simp: walk_list_def)
  qed
  then have "List.find P (walk_list cause e n) = None" using facts(4) by (auto simp: find_None_iff)
  then show ?thesis using loops_results(3)[OF n, of P] none by simp
next
  case True
  then obtain i where i: "i < n" "P (the (walk cause e i))" "\<And>k. k < i \<Longrightarrow> \<not> P (the (walk cause e k))"
    using exists_least_iff[of "\<lambda>i. i < n \<and> P (the (walk cause e i))"] by (meson less_trans)
  have some: "walk cause e i = Some (the (walk cause e i))" using n i(1) unfolding lap_end_def by auto
  have "List.find P (walk_list cause e n) = Some (the (walk cause e i))"
    unfolding find_Some_iff walk_list_def using i by (intro exI[of _ i]) auto
  moreover have "ec_find cause P e = Some (Some (the (walk cause e i)))"
  proof (cases "i = 0")
    case True
    then show ?thesis using i(2) by (simp add: ec_find_def ec_find_loop.simps)
  next
    case False
    then have "ec_find cause P e = find_go cause P e (1 - 1) 1 1"
      using find_enter[of cause e 0 0 e P 1] i(3)[of 0] by (simp add: ec_find_def)
    then show ?thesis using fnd.go_stop[OF n(1) i(1), of P 1] i False by auto
  qed
  ultimately show ?thesis by simp
qed

section \<open>Property\<close>



end
