(* ===== verification/MemoryPool.thy ===== *)
theory MemoryPool
  imports JsText
begin

text \<open>
  \<open>MemoryPool.ts\<close>: a pool of reusable objects.

  Objects are compared by identity. The pool's record has a field \<open>pw\<close> for the rest of the world,
  on which the callbacks \<open>factory\<close>, \<open>reset\<close> and the body of \<open>withAcquire\<close> act; a callback takes the
  whole state, so one that calls back into the pool is covered by the definitions. A callback's
  outcome is \<open>Inl\<close> of what it throws. The settlement of a promise is a later event,
  \<open>mp_settle\<close>.

  The lemmas state the invariant of the pool together with the objects its clients hold.
\<close>

section \<open>The code\<close>

datatype 'x mp_error = MinSizeError | ExhaustedError | PoolRangeError | Thrown 'x

record ('o, 'w) mpool =
  maxSize :: js_number
  freeList :: "'o list"
  acquiredCount :: int
  pw :: 'w

type_synonym ('o, 'w, 'x, 'r) effect = "('o, 'w) mpool \<Rightarrow> ('x mp_error + 'r) \<times> ('o, 'w) mpool"

text \<open>The loop that fills the free list; it runs before the pool exists, on the world alone.\<close>

fun mp_fill :: "('w \<Rightarrow> ('x mp_error + 'o) \<times> 'w) \<Rightarrow> nat \<Rightarrow> 'o list \<Rightarrow> 'w \<Rightarrow> ('x mp_error + 'o list) \<times> 'w" where
  "mp_fill factory 0 acc w = (Inr acc, w)"
| "mp_fill factory (Suc k) acc w =
     (case factory w of
        (Inl e, w') \<Rightarrow> (Inl e, w')
      | (Inr x, w') \<Rightarrow> mp_fill factory k (acc @ [x]) w')"

text \<open>\<open>a > b\<close> for an integer \<open>a\<close>: \<open>b\<close> is below it.\<close>

definition mp_make :: "('w \<Rightarrow> ('x mp_error + 'o) \<times> 'w) \<Rightarrow> js_number option \<Rightarrow> js_number option \<Rightarrow> 'w \<Rightarrow>
    ('x mp_error + ('o, 'w) mpool) \<times> 'w" where
  "mp_make factory omax omin w =
     (let mx = (case omax of None \<Rightarrow> Whole 1024 | Some m \<Rightarrow> m)
      in if \<not> num_ge mx 0 then (Inl PoolRangeError, w)
         else
           case omin of
             None \<Rightarrow> (Inr \<lparr>maxSize = mx, freeList = [], acquiredCount = 0, pw = w\<rparr>, w)
           | Some mn \<Rightarrow>
               if \<not> (is_integer mn \<and> num_ge mn 0) then (Inl PoolRangeError, w)
               else if num_lt mx (the (num_trunc mn)) then (Inl MinSizeError, w)
               else
                 case mp_fill factory (nat (the (num_trunc mn))) [] w of
                   (Inl e, w') \<Rightarrow> (Inl e, w')
                 | (Inr xs, w') \<Rightarrow> (Inr \<lparr>maxSize = mx, freeList = xs, acquiredCount = 0, pw = w'\<rparr>, w'))"

definition mp_acquire :: "('o, 'w, 'x, 'o) effect \<Rightarrow> ('o, 'w, 'x, 'o) effect" where
  "mp_acquire factory p =
     (if freeList p \<noteq> []
      then (Inr (last (freeList p)),
        p\<lparr>acquiredCount := acquiredCount p + 1, freeList := butlast (freeList p)\<rparr>)
      else if num_le (maxSize p) (acquiredCount p) then (Inl ExhaustedError, p)
      else
        case factory p of
          (Inl e, q) \<Rightarrow> (Inl e, q)
        | (Inr x, q) \<Rightarrow> (Inr x, q\<lparr>acquiredCount := acquiredCount q + 1\<rparr>))"

definition mp_release :: "('o \<Rightarrow> ('o, 'w, 'x, unit) effect) option \<Rightarrow> 'o \<Rightarrow> ('o, 'w, 'x, unit) effect" where
  "mp_release reset x p =
     (case (case reset of None \<Rightarrow> (Inr (), p) | Some r \<Rightarrow> r x p) of
        (Inl e, q) \<Rightarrow> (Inl e, q\<lparr>acquiredCount := acquiredCount q - 1\<rparr>)
      | (Inr _, q) \<Rightarrow> (Inr (), q\<lparr>acquiredCount := acquiredCount q - 1, freeList := freeList q @ [x]\<rparr>))"

definition mp_releaseQuietly :: "('o \<Rightarrow> ('o, 'w, 'x, unit) effect) option \<Rightarrow> 'o \<Rightarrow> ('o, 'w) mpool \<Rightarrow> ('o, 'w) mpool" where
  "mp_releaseQuietly reset x p = snd (mp_release reset x p)"

text \<open>
  What the body gives: a plain value, or a promise that will settle later. Throwing a value while
  the body runs or while \<open>.then\<close> of the result is read is \<open>Inl\<close>.
\<close>

datatype 'r body = Plain 'r | Promise 'r

definition mp_withAcquire :: "('o, 'w, 'x, 'o) effect \<Rightarrow> ('o \<Rightarrow> ('o, 'w, 'x, unit) effect) option \<Rightarrow>
    ('o \<Rightarrow> ('o, 'w, 'x, 'r body) effect) \<Rightarrow> ('o, 'w, 'x, 'o \<times> 'r body) effect" where
  "mp_withAcquire factory reset fn p =
     (case mp_acquire factory p of
        (Inl e, q) \<Rightarrow> (Inl e, q)
      | (Inr x, q) \<Rightarrow>
          (case fn x q of
             (Inl e, r) \<Rightarrow> (Inl e, mp_releaseQuietly reset x r)
           | (Inr (Promise v), r) \<Rightarrow> (Inr (x, Promise v), r)
           | (Inr (Plain v), r) \<Rightarrow>
               (case mp_release reset x r of
                  (Inl e, s) \<Rightarrow> (Inl e, s)
                | (Inr _, s) \<Rightarrow> (Inr (x, Plain v), s))))"

text \<open>\<open>releaseOnSettle\<close> after the promise settled: \<open>Inl\<close> rejected, \<open>Inr\<close> fulfilled.\<close>

definition mp_settle :: "('o \<Rightarrow> ('o, 'w, 'x, unit) effect) option \<Rightarrow> 'o \<Rightarrow> 'x mp_error + 'r \<Rightarrow> ('o, 'w, 'x, 'r) effect" where
  "mp_settle reset x outcome p =
     (case outcome of
        Inl e \<Rightarrow> (Inl e, mp_releaseQuietly reset x p)
      | Inr v \<Rightarrow>
          (case mp_release reset x p of
             (Inl e, q) \<Rightarrow> (Inl e, q)
           | (Inr _, q) \<Rightarrow> (Inr v, q)))"

section \<open>Clients\<close>

text \<open>
  Callbacks that leave the pool's own fields alone. \<open>seen\<close> is the set of objects created so far in a
  world: the factory makes new ones, nothing else does.
\<close>

definition same_pool :: "('o, 'w) mpool \<Rightarrow> ('o, 'w) mpool \<Rightarrow> bool" where
  "same_pool p q \<longleftrightarrow> maxSize q = maxSize p \<and> freeList q = freeList p \<and> acquiredCount q = acquiredCount p"

definition makes_new :: "('w \<Rightarrow> 'o set) \<Rightarrow> ('o, 'w, 'x, 'o) effect \<Rightarrow> bool" where
  "makes_new seen factory \<longleftrightarrow> (\<forall>p. case factory p of
      (Inl e, q) \<Rightarrow> same_pool p q \<and> seen (pw p) \<subseteq> seen (pw q)
    | (Inr x, q) \<Rightarrow> same_pool p q \<and> x \<notin> seen (pw p) \<and> insert x (seen (pw p)) \<subseteq> seen (pw q))"

definition keeps_pool :: "('w \<Rightarrow> 'o set) \<Rightarrow> ('o, 'w, 'x, 'r) effect \<Rightarrow> bool" where
  "keeps_pool seen f \<longleftrightarrow> (\<forall>p. same_pool p (snd (f p)) \<and> seen (pw p) \<subseteq> seen (pw (snd (f p))))"

text \<open>The objects in the pool and in the hands of clients, and how many there may be.\<close>

definition mp_inv :: "('w \<Rightarrow> 'o set) \<Rightarrow> 'o list \<Rightarrow> ('o, 'w) mpool \<Rightarrow> bool" where
  "mp_inv seen held p \<longleftrightarrow>
     distinct (freeList p @ held) \<and> set (freeList p @ held) \<subseteq> seen (pw p) \<and>
     acquiredCount p = int (length held) \<and>
     (freeList p @ held = [] \<or> \<not> num_le (maxSize p) (int (length (freeList p @ held)) - 1))"

lemma makes_newD: "makes_new seen factory \<Longrightarrow> case factory p of
    (Inl e, q) \<Rightarrow> same_pool p q \<and> seen (pw p) \<subseteq> seen (pw q)
  | (Inr x, q) \<Rightarrow> same_pool p q \<and> x \<notin> seen (pw p) \<and> insert x (seen (pw p)) \<subseteq> seen (pw q)"
  unfolding makes_new_def by (rule spec)

lemma num_le_mono: "num_le m i \<Longrightarrow> i \<le> j \<Longrightarrow> num_le m j"
  by (cases m) auto

lemma num_le_pred: "num_le m (i - 1) \<Longrightarrow> num_le m i"
  by (erule num_le_mono) simp

lemma acquire_inv:
  assumes "mp_inv seen held p" "makes_new seen factory"
  shows "case mp_acquire factory p of
      (Inl e, q) \<Rightarrow> mp_inv seen held q
    | (Inr x, q) \<Rightarrow> x \<notin> set held \<and> mp_inv seen (x # held) q"
proof (cases "freeList p = []")
  case False
  then obtain xs x where fl: "freeList p = xs @ [x]" by (metis rev_exhaust)
  then show ?thesis using assms(1) by (auto simp: mp_acquire_def mp_inv_def)
next
  case True
  show ?thesis
  proof (cases "num_le (maxSize p) (acquiredCount p)")
    case False
    note makes_newD[OF assms(2), of p]
    then show ?thesis
      using assms(1) True False
      by (auto simp: mp_acquire_def mp_inv_def same_pool_def split: prod.splits sum.splits)
  qed (use True assms(1) in \<open>simp add: mp_acquire_def\<close>)
qed

lemma release_inv:
  assumes "mp_inv seen (xs @ x # ys) p" "\<And>r. reset = Some r \<Longrightarrow> keeps_pool seen (r x)"
  shows "mp_inv seen (xs @ ys) (snd (mp_release reset x p))"
proof -
  define eq where "eq = (case reset of None \<Rightarrow> (Inr (), p) | Some r \<Rightarrow> r x p)"
  have "same_pool p (snd eq)" "seen (pw p) \<subseteq> seen (pw (snd eq))"
    using assms(2) by (auto simp: eq_def keeps_pool_def same_pool_def split: option.splits)
  then show ?thesis
    using assms(1) unfolding mp_release_def eq_def[symmetric]
    by (cases eq; cases "fst eq") (auto simp: mp_inv_def same_pool_def add.assoc dest: num_le_pred)
qed
text \<open>Calls of a client that releases only what it holds; \<open>MpAsync\<close> leaves a promise pending.\<close>

datatype ('o, 'w, 'x, 'r) mp_call =
  MpAcquire
| MpRelease nat
| MpWith "'o \<Rightarrow> ('o, 'w, 'x, 'r body) effect"
| MpSettle nat "'x mp_error + 'r"

definition without :: "nat \<Rightarrow> 'o list \<Rightarrow> 'o list" where
  "without i xs = take i xs @ drop (Suc i) xs"

fun mp_step :: "('o, 'w, 'x, 'o) effect \<Rightarrow> ('o \<Rightarrow> ('o, 'w, 'x, unit) effect) option \<Rightarrow>
    ('o, 'w, 'x, 'r) mp_call \<Rightarrow> 'o list \<times> ('o, 'w) mpool \<Rightarrow> ('x mp_error + 'o option) \<times> 'o list \<times> ('o, 'w) mpool" where
  "mp_step factory reset MpAcquire (held, p) =
     (case mp_acquire factory p of
        (Inl e, q) \<Rightarrow> (Inl e, held, q)
      | (Inr x, q) \<Rightarrow> (Inr (Some x), x # held, q))"
| "mp_step factory reset (MpRelease i) (held, p) =
     (if i < length held
      then (map_sum id (\<lambda>_. None) (fst (mp_release reset (held ! i) p)), without i held, snd (mp_release reset (held ! i) p))
      else (Inr None, held, p))"
| "mp_step factory reset (MpWith fn) (held, p) =
     (case mp_withAcquire factory reset fn p of
        (Inl e, q) \<Rightarrow> (Inl e, held, q)
      | (Inr (x, Promise _), q) \<Rightarrow> (Inr (Some x), x # held, q)
      | (Inr (x, Plain _), q) \<Rightarrow> (Inr (Some x), held, q))"
| "mp_step factory reset (MpSettle i r) (held, p) =
     (if i < length held
      then (map_sum id (\<lambda>_. None) (fst (mp_settle reset (held ! i) r p)), without i held, snd (mp_settle reset (held ! i) r p))
      else (Inr None, held, p))"

definition mp_callbacks :: "('w \<Rightarrow> 'o set) \<Rightarrow> ('o, 'w, 'x, 'o) effect \<Rightarrow> ('o \<Rightarrow> ('o, 'w, 'x, unit) effect) option \<Rightarrow> bool" where
  "mp_callbacks seen factory reset \<longleftrightarrow>
     makes_new seen factory \<and> (\<forall>r x. reset = Some r \<longrightarrow> keeps_pool seen (r x))"

lemma keeps_inv: "mp_inv seen held p \<Longrightarrow> keeps_pool seen f \<Longrightarrow> mp_inv seen held (snd (f p))"
  unfolding mp_inv_def keeps_pool_def same_pool_def by (metis subset_trans)

lemma release_at:
  assumes "mp_inv seen held p" "i < length held" "mp_callbacks seen factory reset"
  shows "mp_inv seen (without i held) (snd (mp_release reset (held ! i) p))"
  using release_inv[of seen "take i held" "held ! i" "drop (Suc i) held" p reset] assms
  by (simp add: without_def mp_callbacks_def id_take_nth_drop[symmetric])

lemma settle_pool: "snd (mp_settle reset x r p) = snd (mp_release reset x p)"
  by (cases r) (auto simp: mp_settle_def mp_releaseQuietly_def split: prod.splits sum.splits)

lemma withAcquire_inv:
  assumes "mp_inv seen held p" "mp_callbacks seen factory reset" "\<And>x. keeps_pool seen (fn x)"
  shows "case mp_withAcquire factory reset fn p of
      (Inl e, q) \<Rightarrow> mp_inv seen held q
    | (Inr (x, Promise v), q) \<Rightarrow> x \<notin> set held \<and> mp_inv seen (x # held) q
    | (Inr (x, Plain v), q) \<Rightarrow> x \<notin> set held \<and> mp_inv seen held q"
proof (cases "mp_acquire factory p")
  case (Pair r q)
  note acq = acquire_inv[OF assms(1), of factory, unfolded Pair]
  have new: "makes_new seen factory" using assms(2) by (simp add: mp_callbacks_def)
  show ?thesis
  proof (cases r)
    case (Inl e)
    then show ?thesis using acq new by (simp add: mp_withAcquire_def Pair)
  next
    case (Inr x)
    then have x: "x \<notin> set held" "mp_inv seen (x # held) q" using acq new by auto
    obtain o2 s where fn: "fn x q = (o2, s)" by (cases "fn x q")
    have s: "mp_inv seen (x # held) s" using keeps_inv[OF x(2) assms(3)[of x]] fn by simp
    have rel: "mp_inv seen held (snd (mp_release reset x s))"
      using release_at[OF s, of 0 factory reset] assms(2) by (simp add: without_def)
    show ?thesis
      using x s rel Inr fn
      by (cases "mp_release reset x s")
        (auto simp: mp_withAcquire_def mp_releaseQuietly_def Pair split: sum.splits body.splits)
  qed
qed

lemma mp_step_inv:
  assumes "mp_inv seen held p" "mp_callbacks seen factory reset"
    "\<And>fn x. k = MpWith fn \<Longrightarrow> keeps_pool seen (fn x)" "mp_step factory reset k (held, p) = (r, held', q)"
  shows "mp_inv seen held' q"
    "r = Inr (Some x) \<Longrightarrow> x \<notin> set held"
proof -
  have "mp_inv seen held' q \<and> (\<forall>x. r = Inr (Some x) \<longrightarrow> x \<notin> set held)"
  proof (cases k)
    case MpAcquire
    then show ?thesis
      using acquire_inv[OF assms(1), of factory] assms(2,4)
      by (auto simp: mp_callbacks_def split: prod.splits sum.splits)
  next
    case (MpRelease i)
    then show ?thesis using assms(1,4) release_at[OF assms(1) _ assms(2), of i]
      by (cases "fst (mp_release reset (held ! i) p)") (auto split: if_splits)
  next
    case (MpWith fn)
    then show ?thesis
      using withAcquire_inv[OF assms(1,2), of fn] assms(3,4)
      by (auto split: prod.splits sum.splits body.splits)
  next
    case (MpSettle i o2)
    then show ?thesis using assms(1,4) release_at[OF assms(1) _ assms(2), of i]
      by (cases "fst (mp_settle reset (held ! i) o2 p)") (auto simp: settle_pool split: if_splits)
  qed
  then show "mp_inv seen held' q" "r = Inr (Some x) \<Longrightarrow> x \<notin> set held" by auto
qed

lemma mp_fill_inv:
  assumes "\<And>w. case factory w of
      (Inl e, w') \<Rightarrow> seen w \<subseteq> seen w'
    | (Inr x, w') \<Rightarrow> x \<notin> seen w \<and> insert x (seen w) \<subseteq> seen w'"
    "mp_fill factory k acc w = (Inr xs, w')" "distinct acc" "set acc \<subseteq> seen w"
  shows "distinct xs \<and> set xs \<subseteq> seen w' \<and> length xs = length acc + k"
  using assms(2-4)
proof (induction k arbitrary: acc w)
  case (Suc k)
  obtain x w1 where f: "factory w = (Inr x, w1)" "mp_fill factory k (acc @ [x]) w1 = (Inr xs, w')"
    using Suc.prems(1) by (auto split: prod.splits sum.splits)
  have "x \<notin> seen w" "insert x (seen w) \<subseteq> seen w1" using assms(1)[of w] f(1) by auto
  then show ?case using Suc.IH[OF f(2)] Suc.prems(2,3) by auto
qed auto

section \<open>Properties\<close>

text \<open>
  C28. Over a whole life of a pool (its creation with \<open>minSize\<close> objects, then any calls of clients
  that release only what they hold, with callbacks that may throw, and promises that settle at any
  time), an object is never in two hands: an acquired object is not one that a client already
  holds, the free list and the held objects are all different, the counter is the number of held
  objects, and never more objects exist than \<open>maxSize\<close> allows (\<open>makes_new\<close> and \<open>keeps_pool\<close> say that the
  callbacks do not write the pool's own fields and that the factory makes new objects).
\<close>

theorem pool_never_shares:
  assumes make: "\<And>w. case factory0 w of
      (Inl e, w') \<Rightarrow> seen w \<subseteq> seen w'
    | (Inr x, w') \<Rightarrow> x \<notin> seen w \<and> insert x (seen w) \<subseteq> seen w'"
    and "mp_make factory0 omax omin w0 = (Inr p0, w1)"
    and "mp_callbacks seen factory reset"
    and "\<And>fn x. MpWith fn \<in> set ks \<Longrightarrow> keeps_pool seen (fn x)"
    and "run_calls (mp_step factory reset) ks ([], p0) = (rs, held, p)"
  shows "mp_inv seen held p \<and>
    (\<forall>k r h q x. (\<forall>fn y. k = MpWith fn \<longrightarrow> keeps_pool seen (fn y)) \<longrightarrow>
      mp_step factory reset k (held, p) = (r, h, q) \<longrightarrow> r = Inr (Some x) \<longrightarrow> x \<notin> set held)"
proof -
  have "mp_inv seen [] p0"
  proof (cases omin)
    case None
    then show ?thesis using assms(2) by (auto simp: mp_make_def mp_inv_def Let_def split: if_splits)
  next
    case (Some mn)
    define mx where "mx = (case omax of None \<Rightarrow> Whole 1024 | Some m \<Rightarrow> m)"
    obtain n where n: "mn = Whole n" "0 \<le> n" using assms(2) Some
      by (cases mn) (auto simp: mp_make_def Let_def split: if_splits)
    then obtain xs where xs: "\<not> num_lt mx n" "num_ge mx 0" "mp_fill factory0 (nat n) [] w0 = (Inr xs, w1)"
        "p0 = \<lparr>maxSize = mx, freeList = xs, acquiredCount = 0, pw = w1\<rparr>"
      using assms(2) Some
      by (auto simp: mp_make_def Let_def mx_def[symmetric] split: if_splits prod.splits sum.splits)
    have "\<not> num_le mx (n - 1)" using xs(1,2) by (cases mx) auto
    then show ?thesis
      using mp_fill_inv[OF make xs(3)] xs(4) n by (auto simp: mp_inv_def)
  qed
  moreover have "mp_inv seen (fst s) (snd s) \<Longrightarrow> (\<And>fn x. MpWith fn \<in> set ks \<Longrightarrow> keeps_pool seen (fn x)) \<Longrightarrow>
      mp_inv seen (fst (snd (run_calls (mp_step factory reset) ks s))) (snd (snd (run_calls (mp_step factory reset) ks s)))"
    for s
  proof (induction ks arbitrary: s)
    case (Cons k ks)
    obtain r h q where step: "mp_step factory reset k s = (r, h, q)" by (metis prod_cases3)
    have "mp_inv seen h q"
      using mp_step_inv(1)[OF Cons.prems(1) assms(3), of k r h q] Cons.prems(2) step by simp
    then show ?case using Cons.IH[of "(h, q)"] Cons.prems(2) step by simp
  qed simp
  ultimately have inv: "mp_inv seen held p" using assms(4,5) by (metis fst_conv snd_conv)
  then show ?thesis using mp_step_inv(2)[OF inv assms(3)] by blast
qed

lemma pool_never_shares_witness:
  "mp_inv (\<lambda>w::nat. {..<w}) [2, 1::nat] \<lparr>maxSize = Whole 3, freeList = [0], acquiredCount = 2, pw = 3\<rparr>"
proof -
  let ?mk = "\<lambda>w::nat. (Inr w :: unit mp_error + nat, w + 1)"
  let ?fac = "\<lambda>p::(nat, nat) mpool. (Inr (pw p) :: unit mp_error + nat, p\<lparr>pw := pw p + 1\<rparr>)"
  let ?seen = "\<lambda>w::nat. {..<w}"
  let ?ks = "[MpAcquire, MpAcquire, MpRelease 0, MpAcquire, MpAcquire, MpRelease 1] :: (nat, nat, unit, unit) mp_call list"
  have mk: "mp_make ?mk (Some (Whole 3)) (Some (Whole 2)) 0 =
      (Inr \<lparr>maxSize = Whole 3, freeList = [0, 1], acquiredCount = 0, pw = 2\<rparr>, 2)"
    by code_simp
  have cb: "mp_callbacks ?seen ?fac (None :: (nat \<Rightarrow> (nat, nat, unit, unit) effect) option)"
    by (auto simp: mp_callbacks_def makes_new_def same_pool_def)
  have run: "run_calls (mp_step ?fac None) ?ks ([], \<lparr>maxSize = Whole 3, freeList = [0, 1], acquiredCount = 0, pw = 2\<rparr>) =
      ([Inr (Some 1), Inr (Some 0), Inr None, Inr (Some 0), Inr (Some 2), Inr None],
       [2, 1], \<lparr>maxSize = Whole 3, freeList = [0], acquiredCount = 2, pw = 3\<rparr>)"
    by code_simp
  show ?thesis by (rule pool_never_shares[OF _ mk cb _ run, THEN conjunct1]) auto
qed

text \<open>
  \<open>withAcquire\<close> gives the object back on every path: when the body returns a plain value or
  throws, and when the promise it returned settles, the number of acquired objects is what it was
  before, the error of the body wins over an error of \<open>reset\<close>, and a failed \<open>reset\<close> does not put
  the object back on the free list.
\<close>

theorem withAcquire_balances:
  assumes "mp_callbacks seen factory reset" "\<And>x. keeps_pool seen (fn x)"
    and "mp_withAcquire factory reset fn p = (r, q)"
  shows "case r of
      Inl e \<Rightarrow> acquiredCount q = acquiredCount p
    | Inr (x, Plain v) \<Rightarrow> acquiredCount q = acquiredCount p
    | Inr (x, Promise v) \<Rightarrow> acquiredCount q = acquiredCount p + 1 \<and>
        (\<forall>settled. acquiredCount (snd (mp_settle reset x settled q)) = acquiredCount p \<and>
          (case settled of
             Inl e \<Rightarrow> fst (mp_settle reset x settled q) = Inl e
           | Inr u \<Rightarrow> fst (mp_settle reset x settled q) = Inr u \<or>
               freeList (snd (mp_settle reset x settled q)) = freeList q))"
proof -
  have acq: "case mp_acquire factory p of (Inl e, s) \<Rightarrow> acquiredCount s = acquiredCount p
      | (Inr x, s) \<Rightarrow> acquiredCount s = acquiredCount p + 1"
  proof -
    have "makes_new seen factory" using assms(1) by (simp add: mp_callbacks_def)
    note makes_newD[OF this, of p]
    then show ?thesis by (auto simp: mp_acquire_def same_pool_def split: prod.splits sum.splits)
  qed
  have rel: "acquiredCount (snd (mp_release reset x s)) = acquiredCount s - 1"
      "fst (mp_release reset x s) = Inl e \<Longrightarrow> freeList (snd (mp_release reset x s)) = freeList s" for x s e
    using assms(1)
    by (auto simp: mp_callbacks_def keeps_pool_def same_pool_def mp_release_def split: option.splits prod.splits sum.splits)
      (metis snd_conv)+
  have body: "acquiredCount (snd (fn x s)) = acquiredCount s" for x s
    using assms(2)[of x] by (simp add: keeps_pool_def same_pool_def)
  have settle: "acquiredCount (snd (mp_settle reset x o2 s)) = acquiredCount s - 1 \<and>
      (case o2 of Inl e \<Rightarrow> fst (mp_settle reset x o2 s) = Inl e
       | Inr u \<Rightarrow> fst (mp_settle reset x o2 s) = Inr u \<or> freeList (snd (mp_settle reset x o2 s)) = freeList s)"
    for x s and o2 :: "'c mp_error + 'e"
    using rel[of x s] by (auto simp: settle_pool mp_settle_def mp_releaseQuietly_def split: prod.splits sum.splits)
  show ?thesis
  proof (cases "mp_acquire factory p")
    case (Pair a s)
    show ?thesis
    proof (cases a)
      case (Inl e)
      then show ?thesis using assms(3) acq Pair by (auto simp: mp_withAcquire_def)
    next
      case (Inr x)
      obtain b t where fn: "fn x s = (b, t)" by (cases "fn x s")
      have t: "acquiredCount t = acquiredCount p + 1" using acq Pair Inr body[of x s] fn by simp
      have quiet: "acquiredCount (mp_releaseQuietly reset x t) = acquiredCount p"
        using rel(1)[of x t] t by (simp add: mp_releaseQuietly_def)
      consider e where "b = Inl e" | v where "b = Inr (Promise v)" | v where "b = Inr (Plain v)"
        by (metis body.exhaust sum.exhaust)
      then show ?thesis
      proof cases
        case 1
        then show ?thesis using assms(3) Pair Inr fn quiet by (auto simp: mp_withAcquire_def)
      next
        case 2
        then have rq: "r = Inr (x, Promise v)" "q = t" using assms(3) Pair Inr fn by (auto simp: mp_withAcquire_def)
        show ?thesis unfolding rq sum.case prod.case body.case using t settle[of x _ t] by simp
      next
        case 3
        obtain c u where c: "mp_release reset x t = (c, u)" by (cases "mp_release reset x t")
        then have "acquiredCount u = acquiredCount p" using rel(1)[of x t] t by simp
        then show ?thesis using assms(3) Pair Inr fn c 3
          by (auto simp: mp_withAcquire_def split: sum.splits)
      qed
    qed
  qed
qed

lemma withAcquire_balances_witness:
  "acquiredCount (snd (mp_withAcquire (\<lambda>p. (Inr (pw p) :: nat mp_error + nat, p\<lparr>pw := pw p + 1\<rparr>)) None
      (\<lambda>x p. (Inl (Thrown 7) :: nat mp_error + nat body, p))
      \<lparr>maxSize = Whole 3, freeList = [], acquiredCount = 2, pw = (5::nat)\<rparr>)) = 2"
proof -
  let ?fac = "\<lambda>p::(nat, nat) mpool. (Inr (pw p) :: nat mp_error + nat, p\<lparr>pw := pw p + 1\<rparr>)"
  let ?body = "\<lambda>(x::nat) (p::(nat, nat) mpool). (Inl (Thrown 7) :: nat mp_error + nat body, p)"
  let ?p = "\<lparr>maxSize = Whole 3, freeList = [], acquiredCount = 2, pw = (5::nat)\<rparr>"
  have cb: "mp_callbacks (\<lambda>w. {..<w}) ?fac (None :: (nat \<Rightarrow> (nat, nat, nat, unit) effect) option)"
    by (auto simp: mp_callbacks_def makes_new_def same_pool_def)
  have kp: "\<And>x. keeps_pool (\<lambda>w. {..<w}) (?body x)" by (simp add: keeps_pool_def same_pool_def)
  have run: "mp_withAcquire ?fac None ?body ?p =
      (Inl (Thrown 7), \<lparr>maxSize = Whole 3, freeList = [5], acquiredCount = 2, pw = 6\<rparr>)" by code_simp
  show ?thesis using withAcquire_balances[OF cb kp run] run by simp
qed

end
