(* ===== verification/Batching.thy ===== *)
theory Batching
  imports Queue JsText "HOL-Library.Multiset"
begin

text \<open>
  \<open>BufferizedFunction.ts\<close> and \<open>BatchExecutor.ts\<close>: calls collected until a timer fires and then passed
  on together, in batches of bounded size with a bounded number of batches in flight.

  The two modules keep their data in the queues of \<open>Queue.ts\<close>, here the model of it; the proofs use
  the queue only through the interface \<open>deque\<close>. The event loop is explicit: a timer that was set
  is counted in \<open>timers\<close> and fires in a later event, and the batch function's promise settles in a
  later event. A request is what the caller passed with the two functions that settle its promise;
  it is opaque. \<open>running\<close> is the list of batches whose promise is pending; \<open>started\<close> and \<open>finished\<close>
  record what happened and nothing reads them.

  The lemmas carry one invariant through every event.
\<close>

section \<open>Buffered functions\<close>

record 'a buffer =
  bq :: "'a queue"
  scheduled :: bool
  timers :: nat

definition bf_make :: "'a buffer" where
  "bf_make = \<lparr>bq = q_init, scheduled = False, timers = 0\<rparr>"

text \<open>A call pushes its arguments, and sets the timer unless it is set; \<open>push\<close> may throw.\<close>

definition bf_schedule :: "'a buffer \<Rightarrow> 'a buffer" where
  "bf_schedule b = b\<lparr>timers := timers b + 1\<rparr>"

definition bf_call :: "'a buffer \<Rightarrow> 'a list \<Rightarrow> unit outcome \<times> 'a buffer" where
  "bf_call b args =
     (case q_pushAll (bq b) args of
        (Inl e, q) \<Rightarrow> (Inl e, b\<lparr>bq := q\<rparr>)
      | (Inr _, q) \<Rightarrow>
          (Inr (),
           if \<not> scheduled b then bf_schedule (b\<lparr>bq := q, scheduled := True\<rparr>)
           else b\<lparr>bq := q\<rparr>))"

text \<open>The timer fires: the function gets everything that was pushed.\<close>

definition bf_worker :: "'a buffer \<Rightarrow> 'a option list \<times> 'a buffer" where
  "bf_worker b =
     (case q_dumpToArray (bq b) of
        (args, q) \<Rightarrow> (args, b\<lparr>bq := q, scheduled := False, timers := timers b - 1\<rparr>))"

section \<open>Batches\<close>

text \<open>\<open>validateLimit\<close>: an absent limit is infinite.\<close>

definition bx_validateLimit :: "js_number option \<Rightarrow> js_number outcome" where
  "bx_validateLimit v =
     (case v of
        None \<Rightarrow> Inr PosInf
      | Some x \<Rightarrow>
          if x = PosInf then Inr PosInf
          else if \<not> is_integer x \<or> num_lt x 1 then Inl RangeError
          else Inr x)"

record 'a batch =
  maxBatchSize :: js_number
  maxInFlight :: js_number
  buf :: "'a buffer"
  pending :: "'a option list queue"
  head :: int
  queued :: int
  inFlight :: int
  running :: "'a option list list"
  started :: "'a option list list"
  finished :: "'a option list list"

text \<open>The options of \<open>make\<close> are checked in this order; without limits the simple worker is used.\<close>

definition bx_make :: "js_number option \<Rightarrow> js_number option \<Rightarrow> 'a batch outcome" where
  "bx_make bs fl =
     (case bx_validateLimit bs of
        Inl e \<Rightarrow> Inl e
      | Inr mb \<Rightarrow>
          (case bx_validateLimit fl of
             Inl e \<Rightarrow> Inl e
           | Inr mf \<Rightarrow>
               Inr \<lparr>maxBatchSize = mb, maxInFlight = mf, buf = bf_make, pending = q_init, head = 0,
                 queued = 0, inFlight = 0, running = [], started = [], finished = []\<rparr>))"

definition bx_limited :: "'a batch \<Rightarrow> bool" where
  "bx_limited s \<longleftrightarrow> maxBatchSize s \<noteq> PosInf \<or> maxInFlight s \<noteq> PosInf"

text \<open>
  The loop of \<open>take\<close> over the arrays at the front; \<^term>\<open>None\<close> is a loop that does not return or
  reads \<open>length\<close> of \<open>undefined\<close>.
\<close>

partial_function (option) bx_take_loop ::
    "int \<Rightarrow> int \<Rightarrow> 'a option list \<Rightarrow> int \<Rightarrow> 'a option list queue \<Rightarrow> ('a option list \<times> int \<times> 'a option list queue) option" where
  "bx_take_loop n k chunk h p =
     (if k < n
      then
        (case q_peekFront p of
           None \<Rightarrow> None
         | Some front \<Rightarrow>
             let e = (if js_len front - h \<le> n - k then js_len front else h + n - k);
                 chunk' = chunk @ js_slice front h e;
                 k' = k + (e - h)
             in if e = js_len front then bx_take_loop n k' chunk' 0 (snd (q_shift p))
                else Some (chunk', e, p))
      else Some (chunk, h, p))"

definition bx_take :: "int \<Rightarrow> 'a batch \<Rightarrow> ('a option list \<times> 'a batch) option" where
  "bx_take n s0 =
     (let s = s0\<lparr>queued := queued s0 - n\<rparr>
      in case q_peekFront (pending s) of
           None \<Rightarrow> None
         | Some front \<Rightarrow>
             if js_len front - head s \<ge> n
             then
               let chunk = (if head s = 0 \<and> n = js_len front then front else js_slice front (head s) (head s + n));
                   h = head s + n
               in if h = js_len front then Some (chunk, s\<lparr>pending := snd (q_shift (pending s)), head := 0\<rparr>)
                  else Some (chunk, s\<lparr>head := h\<rparr>)
             else
               map_option (\<lambda>(chunk, h, p). (chunk, s\<lparr>head := h, pending := p\<rparr>))
                 (bx_take_loop n 0 [] (head s) (pending s)))"

text \<open>\<open>runChunk\<close> up to its \<open>await\<close>: the batch function is called with the batch.\<close>

definition bx_start :: "'a option list \<Rightarrow> 'a batch \<Rightarrow> 'a batch" where
  "bx_start chunk s = s\<lparr>running := running s @ [chunk], started := started s @ [chunk]\<rparr>"

definition bx_chunkSize :: "'a batch \<Rightarrow> int" where
  "bx_chunkSize s = (if num_gt (maxBatchSize s) (queued s) then queued s else the (num_trunc (maxBatchSize s)))"

partial_function (option) bx_pump :: "'a batch \<Rightarrow> 'a batch option" where
  "bx_pump s =
     (if num_gt (maxInFlight s) (inFlight s) \<and> queued s > 0
      then
        Option.bind (bx_take (bx_chunkSize s) (s\<lparr>inFlight := inFlight s + 1\<rparr>))
          (\<lambda>(chunk, t). bx_pump (bx_start chunk t))
      else Some s)"

declare bx_take_loop.simps [code] bx_pump.simps [code]

definition bx_release :: "'a batch \<Rightarrow> 'a batch option" where
  "bx_release s = bx_pump (s\<lparr>inFlight := inFlight s - 1\<rparr>)"

text \<open>The call of the function that \<open>make\<close> returned.\<close>

definition bx_submit :: "'a \<Rightarrow> 'a batch \<Rightarrow> unit outcome \<times> 'a batch" where
  "bx_submit a s = (case bf_call (buf s) [a] of (r, b) \<Rightarrow> (r, s\<lparr>buf := b\<rparr>))"

text \<open>The timer fires.\<close>

definition bx_tick :: "'a batch \<Rightarrow> 'a batch option" where
  "bx_tick s =
     (case bf_worker (buf s) of
        (args, b) \<Rightarrow>
          let s1 = s\<lparr>buf := b\<rparr>
          in if bx_limited s
             then
               (case q_push (pending s1) args of
                  (Inl e, p) \<Rightarrow> Some (s1\<lparr>pending := p\<rparr>)
                | (Inr _, p) \<Rightarrow> bx_pump (s1\<lparr>pending := p, queued := queued s1 + js_len args\<rparr>))
             else Some (bx_start args s1))"

text \<open>What \<open>runChunk\<close> does with the answer of the batch function.\<close>

datatype ('v, 'e) settled = Fulfilled 'v | Rejected 'e

datatype 'e reason = Reason 'e | WrongLength | NotAnObject

text \<open>
  The loop that settles the requests: an entry that is \<open>undefined\<close> or \<open>null\<close> makes the read of
  \<open>status\<close> throw, and the remaining requests are rejected with that error.
\<close>

fun bx_deliver :: "'a option list \<Rightarrow> ('v, 'e) settled option list \<Rightarrow> ('a option \<times> ('v, 'e reason) settled) list" where
  "bx_deliver (a # args) (Some (Fulfilled v) # rs) = (a, Fulfilled v) # bx_deliver args rs"
| "bx_deliver (a # args) (Some (Rejected e) # rs) = (a, Rejected (Reason e)) # bx_deliver args rs"
| "bx_deliver args _ = map (\<lambda>a. (a, Rejected NotAnObject)) args"

definition bx_settle :: "'a option list \<Rightarrow> 'e + ('v, 'e) settled option list \<Rightarrow> ('a option \<times> ('v, 'e reason) settled) list" where
  "bx_settle args answer =
     (case answer of
        Inl e \<Rightarrow> map (\<lambda>a. (a, Rejected (Reason e))) args
      | Inr rs \<Rightarrow>
          if length rs \<noteq> length args then map (\<lambda>a. (a, Rejected WrongLength)) args
          else bx_deliver args rs)"

text \<open>The promise of the \<open>i\<close>-th running batch settles.\<close>

definition bx_finish :: "nat \<Rightarrow> 'a batch \<Rightarrow> 'a batch option" where
  "bx_finish i s =
     (let t = s\<lparr>running := take i (running s) @ drop (Suc i) (running s), finished := finished s @ [running s ! i]\<rparr>
      in if bx_limited s then bx_release t else Some t)"
section \<open>Taking from the pending arrays\<close>

text \<open>The arrays hold requests from offset \<open>h\<close> of the first one on.\<close>

definition arrays_ok :: "'a list list \<Rightarrow> int \<Rightarrow> bool" where
  "arrays_ok arrs h \<longleftrightarrow> [] \<notin> set arrs \<and> 0 \<le> h \<and> (if arrs = [] then h = 0 else h < js_len (hd arrs))"

definition waiting :: "'a list list \<Rightarrow> int \<Rightarrow> 'a list" where
  "waiting arrs h = drop (nat h) (concat arrs)"

abbreviation holds :: "'a option list queue \<Rightarrow> 'a list list \<Rightarrow> bool" where
  "holds p arrs \<equiv> q_rep p (map (map Some) arrs)"

lemma waiting_Cons: "h \<le> js_len a \<Longrightarrow> waiting (a # as) h = drop (nat h) a @ concat as"
  by (simp add: waiting_def js_len_def)

lemma slice_Some: "js_slice (map Some a) h e = map Some (take (nat e - nat h) (drop (nat h) a))"
  by (simp add: js_slice_def take_map drop_map)

lemma arrays_tail: "arrays_ok (a # as) h \<Longrightarrow> arrays_ok as 0"
  by (cases as) (auto simp: arrays_ok_def js_len_def)

lemma front_shift:
  assumes "holds p (a # as)"
  shows "q_peekFront p = Some (map Some a)" "holds (snd (q_shift p)) as"
  using qd.front_rep[OF assms] qd.deq_rep[of p "map Some a" "map (map Some) as"] assms by auto

lemma take_loop:
  assumes "holds p arrs" "arrays_ok arrs h" "k < n" "n - k \<le> js_len (waiting arrs h)"
  shows "\<exists>arrs' h' p'. bx_take_loop n k chunk h p =
      Some (chunk @ map Some (take (nat (n - k)) (waiting arrs h)), h', p') \<and>
    holds p' arrs' \<and> arrays_ok arrs' h' \<and> waiting arrs' h' = drop (nat (n - k)) (waiting arrs h)"
  using assms
proof (induction arrs arbitrary: p h k chunk)
  case Nil
  then show ?case by (simp add: arrays_ok_def waiting_def)
next
  case (Cons a as)
  have h: "0 \<le> h" "h < js_len a" using Cons.prems(2) by (auto simp: arrays_ok_def)
  have w: "waiting (a # as) h = drop (nat h) a @ concat as" using h by (simp add: waiting_Cons)
  have len: "js_len (drop (nat h) a) = js_len a - h" using h by (simp add: js_len_def)
  note q = front_shift[OF Cons.prems(1)]
  show ?case
  proof (cases "js_len a - h \<le> n - k")
    case True
    define k' where "k' = k + (js_len a - h)"
    have step: "bx_take_loop n k chunk h p = bx_take_loop n k' (chunk @ map Some (drop (nat h) a)) 0 (snd (q_shift p))"
      using Cons.prems(3) True h
      by (subst bx_take_loop.simps) (simp add: q Let_def slice_Some k'_def js_len_def)
    show ?thesis
    proof (cases "k' < n")
      case False
      then have "n - k = js_len (drop (nat h) a)" using True len by (simp add: k'_def)
      then have "nat (n - k) = length (drop (nat h) a)" by (simp add: js_len_def)
      moreover have "bx_take_loop n k' (chunk @ map Some (drop (nat h) a)) 0 (snd (q_shift p)) =
          Some (chunk @ map Some (drop (nat h) a), 0, snd (q_shift p))"
        using False by (subst bx_take_loop.simps) simp
      ultimately show ?thesis
        unfolding step w using q(2) arrays_tail[OF Cons.prems(2)]
        by (intro exI[of _ as] exI[of _ 0] exI[of _ "snd (q_shift p)"]) (simp add: waiting_def)
    next
      case more: True
      have "n - k' \<le> js_len (waiting as 0)"
        using Cons.prems(4) len unfolding w by (simp add: k'_def waiting_def)
      from Cons.IH[OF q(2) arrays_tail[OF Cons.prems(2)] more this, of "chunk @ map Some (drop (nat h) a)"]
      obtain arrs' h' p' where ih: "bx_take_loop n k' (chunk @ map Some (drop (nat h) a)) 0 (snd (q_shift p)) =
          Some ((chunk @ map Some (drop (nat h) a)) @ map Some (take (nat (n - k')) (waiting as 0)), h', p')"
        "holds p' arrs'" "arrays_ok arrs' h'" "waiting arrs' h' = drop (nat (n - k')) (waiting as 0)"
        by blast
      have "nat (n - k) = length (drop (nat h) a) + nat (n - k')"
        using True more len by (simp add: k'_def js_len_def)
      then show ?thesis unfolding step w using ih by (auto simp: waiting_def)
    qed
  next
    case False
    have less: "h + n - k < js_len a" "nat (h + n - k) - nat h = nat (n - k)"
        "nat (n - k) \<le> length (drop (nat h) a)" "nat (h + n - k) = nat (n - k) + nat h"
      using False h Cons.prems(3) by (auto simp: js_len_def)
    have "bx_take_loop n k chunk h p = Some (chunk @ map Some (take (nat (n - k)) (drop (nat h) a)), h + n - k, p)"
      using Cons.prems(3) False less
      by (subst bx_take_loop.simps) (simp add: q Let_def slice_Some js_len_def)
    moreover have "arrays_ok (a # as) (h + n - k)" using Cons.prems(2,3) less by (simp add: arrays_ok_def)
    moreover have "waiting (a # as) (h + n - k) = drop (nat (n - k)) (waiting (a # as) h)"
      using less h unfolding w by (simp add: waiting_Cons)
    ultimately show ?thesis
      using Cons.prems(1) less(3) unfolding w by (intro exI[of _ "a # as"] exI[of _ "h + n - k"] exI[of _ p]) simp
  qed
qed

lemma take_batch:
  assumes "holds (pending s) arrs" "arrays_ok arrs (head s)" "1 \<le> n" "n \<le> js_len (waiting arrs (head s))"
  shows "\<exists>arrs' h' p'. bx_take n s = Some (map Some (take (nat n) (waiting arrs (head s))),
      s\<lparr>queued := queued s - n, head := h', pending := p'\<rparr>) \<and>
    holds p' arrs' \<and> arrays_ok arrs' h' \<and> waiting arrs' h' = drop (nat n) (waiting arrs (head s))"
proof (cases arrs)
  case Nil
  then show ?thesis using assms by (simp add: waiting_def)
next
  case (Cons a as)
  have h: "0 \<le> head s" "head s < js_len a" using assms(2) Cons by (auto simp: arrays_ok_def)
  have w: "waiting arrs (head s) = drop (nat (head s)) a @ concat as" using h by (simp add: waiting_Cons Cons)
  note q = front_shift[OF assms(1)[unfolded Cons]]
  show ?thesis
  proof (cases "n \<le> js_len a - head s")
    case True
    have len: "nat n \<le> length (drop (nat (head s)) a)" using True h assms(3) by (auto simp: js_len_def)
    have chunk: "(if head s = 0 \<and> n = js_len (map Some a) then map Some a else js_slice (map Some a) (head s) (head s + n)) =
        map Some (take (nat n) (drop (nat (head s)) a))"
      using h assms(3) by (simp add: slice_Some nat_add_distrib) (simp add: js_len_def)
    show ?thesis
    proof (cases "head s + n = js_len a")
      case full: True
      then have "nat n = length (drop (nat (head s)) a)" using h assms(3) by (simp add: js_len_def)
      then show ?thesis
        unfolding w bx_take_def Let_def chunk[symmetric] using q True full arrays_tail[of a as "head s"] assms(2) chunk
        by (intro exI[of _ as] exI[of _ 0] exI[of _ "snd (q_shift (pending s))"])
          (simp add: Cons waiting_def js_len_def slice_Some)
    next
      case False
      have "waiting arrs (head s + n) = drop (nat n) (waiting arrs (head s))"
        using True h assms(3) False unfolding w Cons by (simp add: waiting_Cons nat_add_distrib add.commute js_len_def)
      moreover have "arrays_ok arrs (head s + n)" using assms(2,3) False True by (simp add: arrays_ok_def Cons)
      ultimately show ?thesis
        unfolding bx_take_def Let_def using q True False assms(1,3) len chunk w h
        by (intro exI[of _ arrs] exI[of _ "head s + n"] exI[of _ "pending s"])
          (simp add: js_len_def slice_Some nat_add_distrib)
    qed
  next
    case False
    obtain arrs' h' p' where l: "bx_take_loop n 0 [] (head s) (pending s) =
        Some ([] @ map Some (take (nat (n - 0)) (waiting arrs (head s))), h', p')"
      "holds p' arrs'" "arrays_ok arrs' h'" "waiting arrs' h' = drop (nat (n - 0)) (waiting arrs (head s))"
      using take_loop[OF assms(1,2), of 0 n "[]"] assms(3,4) by auto
    then show ?thesis
      unfolding bx_take_def Let_def using q False
      by (intro exI[of _ arrs'] exI[of _ h'] exI[of _ p']) (simp add: js_len_def)
  qed
qed
section \<open>The invariant\<close>

definition limit_ok :: "js_number \<Rightarrow> bool" where
  "limit_ok m \<longleftrightarrow> m = PosInf \<or> (\<exists>n\<ge>1. m = Whole n)"

text \<open>Number of batches in flight and their requests, without regard to what may be started next.\<close>

definition batch_ok :: "'a list \<Rightarrow> 'a list \<Rightarrow> 'a list list \<Rightarrow> 'a batch \<Rightarrow> bool" where
  "batch_ok sub xs arrs s \<longleftrightarrow>
     limit_ok (maxBatchSize s) \<and> limit_ok (maxInFlight s) \<and>
     q_rep (bq (buf s)) xs \<and> holds (pending s) arrs \<and> arrays_ok arrs (head s) \<and>
     queued s = js_len (waiting arrs (head s)) \<and>
     map Some sub = concat (started s) @ map Some (waiting arrs (head s) @ xs) \<and>
     (\<forall>c\<in>set (started s). c \<noteq> [] \<and> \<not> num_lt (maxBatchSize s) (js_len c)) \<and>
     mset (started s) = mset (running s) + mset (finished s) \<and>
     (if bx_limited s then inFlight s = js_len (running s) \<and> \<not> num_lt (maxInFlight s) (inFlight s)
      else arrs = []) \<and>
     timers (buf s) = (if xs = [] then 0 else 1) \<and> scheduled (buf s) = (xs \<noteq> [])"

text \<open>Nothing more can be started.\<close>

definition batch_busy :: "'a batch \<Rightarrow> bool" where
  "batch_busy s \<longleftrightarrow> \<not> (num_gt (maxInFlight s) (inFlight s) \<and> queued s > 0)"

lemma limit_cases:
  assumes "limit_ok m"
  shows "num_gt m k \<longleftrightarrow> \<not> num_lt m (k + 1)" "\<not> num_gt m k \<Longrightarrow> num_trunc m = Some (the (num_trunc m))"
    "\<not> num_gt m k \<Longrightarrow> the (num_trunc m) \<le> k" "\<not> num_gt m k \<Longrightarrow> 1 \<le> the (num_trunc m)"
    "\<not> num_gt m k \<Longrightarrow> \<not> num_lt m (the (num_trunc m))"
  using assms by (auto simp: limit_ok_def)

lemma chunkSize_bounds:
  assumes "limit_ok (maxBatchSize s)" "0 < queued s"
  shows "1 \<le> bx_chunkSize s" "bx_chunkSize s \<le> queued s" "\<not> num_lt (maxBatchSize s) (bx_chunkSize s)"
  using limit_cases[OF assms(1), of "queued s"] assms(2)
  by (auto simp: bx_chunkSize_def limit_ok_def split: if_splits) (cases "maxBatchSize s"; simp)+

lemma pump_ok:
  assumes "batch_ok sub xs arrs s" "bx_limited s"
  shows "\<exists>arrs' s'. bx_pump s = Some s' \<and> batch_ok sub xs arrs' s' \<and> batch_busy s' \<and>
    maxBatchSize s' = maxBatchSize s \<and> maxInFlight s' = maxInFlight s"
  using assms
proof (induction "nat (queued s)" arbitrary: s arrs rule: less_induct)
  case less
  show ?case
  proof (cases "batch_busy s")
    case True
    then show ?thesis using less.prems by (subst bx_pump.simps) (auto simp: batch_busy_def)
  next
    case False
    define n where "n = bx_chunkSize s"
    define w where "w = waiting arrs (head s)"
    have ok: "limit_ok (maxBatchSize s)" "limit_ok (maxInFlight s)" "holds (pending s) arrs" "arrays_ok arrs (head s)"
        "queued s = js_len w" "q_rep (bq (buf s)) xs"
        "map Some sub = concat (started s) @ map Some (w @ xs)"
        "\<forall>c\<in>set (started s). c \<noteq> [] \<and> \<not> num_lt (maxBatchSize s) (js_len c)"
        "mset (started s) = mset (running s) + mset (finished s)" "inFlight s = js_len (running s)"
      using less.prems by (auto simp: batch_ok_def w_def)
    have q: "0 < queued s" "num_gt (maxInFlight s) (inFlight s)" using False by (auto simp: batch_busy_def)
    note n = chunkSize_bounds[OF ok(1) q(1), folded n_def]
    define t where "t = s\<lparr>inFlight := inFlight s + 1\<rparr>"
    obtain arrs' h' p' where take: "bx_take n t = Some (map Some (take (nat n) w), t\<lparr>queued := queued s - n, head := h', pending := p'\<rparr>)"
      "holds p' arrs'" "arrays_ok arrs' h'" "waiting arrs' h' = drop (nat n) w"
      using take_batch[of t arrs n] ok(3,4,5) n(1,2) unfolding w_def[symmetric] by (auto simp: t_def w_def)
    define u where "u = bx_start (map Some (take (nat n) w)) (t\<lparr>queued := queued s - n, head := h', pending := p'\<rparr>)"
    have pump: "bx_pump s = bx_pump u"
      using False take(1) by (subst bx_pump.simps) (simp add: batch_busy_def t_def n_def bx_chunkSize_def u_def)
    have nlen: "nat n \<le> length w" "0 < nat n" using n(1,2) ok(5) by (auto simp: js_len_def)
    have "js_len (take (nat n) w) = n" using nlen n(1) by (simp add: js_len_def)
    then have size: "js_len (map Some (take (nat n) w)) = n" by (simp add: js_len_def)
    have "bx_limited u" using less.prems(2) by (simp add: u_def t_def bx_limited_def bx_start_def)
    moreover have "batch_ok sub xs arrs' u"
    proof -
      have "w @ xs = take (nat n) w @ drop (nat n) w @ xs" by simp
      then have "map Some sub = (concat (started s) @ map Some (take (nat n) w)) @ map Some (drop (nat n) w @ xs)"
        unfolding ok(7) by (metis append_assoc map_append)
      moreover have "queued s - n = js_len (drop (nat n) w)" using ok(5) nlen n(1) by (simp add: js_len_def)
      moreover have "map Some (take (nat n) w) \<noteq> []" using nlen by auto
      moreover have "\<not> num_lt (maxInFlight s) (inFlight s + 1)" using q(2) limit_cases(1)[OF ok(2)] by simp
      ultimately show ?thesis
        using less.prems take(2-4) ok size n(3)
        by (simp add: batch_ok_def u_def t_def bx_start_def bx_limited_def js_len_def)
    qed
    moreover have "nat (queued u) < nat (queued s)" using n q by (simp add: u_def t_def bx_start_def)
    ultimately obtain arrs2 s2 where "bx_pump u = Some s2" "batch_ok sub xs arrs2 s2" "batch_busy s2"
        "maxBatchSize s2 = maxBatchSize u" "maxInFlight s2 = maxInFlight u"
      using less.hyps by metis
    then show ?thesis unfolding pump by (auto simp: u_def t_def bx_start_def)
  qed
qed
section \<open>Events\<close>

datatype 'a bx_event = Submit 'a | Fire | Finish nat

text \<open>A timer fires only when it is set, and a promise settles only while its batch runs.\<close>

fun bx_happen :: "'a bx_event \<Rightarrow> 'a batch \<Rightarrow> 'a batch option" where
  "bx_happen (Submit a) s = Some (snd (bx_submit a s))"
| "bx_happen Fire s = (if 0 < timers (buf s) then bx_tick s else Some s)"
| "bx_happen (Finish i) s = (if i < length (running s) then bx_finish i s else Some s)"

fun bx_run :: "'a bx_event list \<Rightarrow> 'a batch \<Rightarrow> 'a batch option" where
  "bx_run [] s = Some s"
| "bx_run (k # ks) s = Option.bind (bx_happen k s) (bx_run ks)"

fun submits :: "'a bx_event list \<Rightarrow> 'a list" where
  "submits [] = []"
| "submits (Submit a # ks) = a # submits ks"
| "submits (_ # ks) = submits ks"

definition batch_inv :: "js_number \<Rightarrow> js_number \<Rightarrow> 'a list \<Rightarrow> 'a batch \<Rightarrow> bool" where
  "batch_inv mb mf sub s \<longleftrightarrow> maxBatchSize s = mb \<and> maxInFlight s = mf \<and> (\<exists>xs arrs. batch_ok sub xs arrs s) \<and> (bx_limited s \<longrightarrow> batch_busy s)"

lemma submit_inv:
  assumes "batch_inv mb mf sub s" "length sub < 2 ^ 30 - 1"
  shows "batch_inv mb mf (sub @ [a]) (snd (bx_submit a s))"
proof -
  obtain xs arrs where ok: "batch_ok sub xs arrs s" using assms(1) by (auto simp: batch_inv_def)
  have rep: "q_rep (bq (buf s)) xs" and sub: "map Some sub = concat (started s) @ map Some (waiting arrs (head s) @ xs)"
    using ok by (auto simp: batch_ok_def)
  have "length xs \<le> length (map Some sub)" unfolding sub by simp
  then have "length xs + length [a] < 2 ^ 30" using assms(2) by simp
  then obtain q where q: "q_pushAll (bq (buf s)) [a] = (Inr (), q)" "q_rep q (xs @ [a])"
    using q_pushAll_rep[OF rep, of "[a]"] by auto
  have "batch_ok (sub @ [a]) (xs @ [a]) arrs (snd (bx_submit a s))"
    using ok q unfolding bx_submit_def bf_call_def
    by (auto simp: batch_ok_def bf_schedule_def bx_limited_def simp del: q_pushAll.simps)
  moreover have "maxBatchSize (snd (bx_submit a s)) = maxBatchSize s" "maxInFlight (snd (bx_submit a s)) = maxInFlight s"
    by (simp_all add: bx_submit_def split: prod.splits)
  moreover have "batch_busy (snd (bx_submit a s)) = batch_busy s" "bx_limited (snd (bx_submit a s)) = bx_limited s"
    by (simp_all add: bx_submit_def batch_busy_def bx_limited_def split: prod.splits)
  ultimately show ?thesis using assms(1) unfolding batch_inv_def by blast
qed

lemma tick_inv:
  assumes "batch_inv mb mf sub s" "length sub < 2 ^ 30 - 1" "0 < timers (buf s)"
  shows "\<exists>s'. bx_tick s = Some s' \<and> batch_inv mb mf sub s'"
proof -
  obtain xs arrs where ok: "batch_ok sub xs arrs s" using assms(1) by (auto simp: batch_inv_def)
  have rep: "q_rep (bq (buf s)) xs" "holds (pending s) arrs" and sub: "map Some sub = concat (started s) @ map Some (waiting arrs (head s) @ xs)"
    and arrs: "arrays_ok arrs (head s)"
    using ok by (auto simp: batch_ok_def)
  have xs: "xs \<noteq> []" using ok assms(3) by (auto simp: batch_ok_def split: if_splits)
  obtain q where q: "q_dumpToArray (bq (buf s)) = (map Some xs, q)" "q_rep q []" using qd.drain_rep[OF rep(1)] by blast
  define s1 where "s1 = s\<lparr>buf := (buf s)\<lparr>bq := q, scheduled := False, timers := timers (buf s) - 1\<rparr>\<rparr>"
  have worker: "bf_worker (buf s) = (map Some xs, buf s1)" by (simp add: bf_worker_def q s1_def)
  show ?thesis
  proof (cases "bx_limited s")
    case True
    have "length arrs < 2 ^ 30 - 1"
    proof -
      have "length as \<le> length (concat as)" if "[] \<notin> set as" for as :: "'b list list"
        using that
      proof (induction as)
        case (Cons b bs)
        then show ?case by (cases b) auto
      qed simp
      then have "length arrs \<le> length (concat arrs)" using arrs by (auto simp: arrays_ok_def)
      moreover have "length (concat arrs) - nat (head s) + length xs \<le> length sub"
        using arg_cong[OF sub, of length] by (simp add: waiting_def)
      moreover have "length arrs \<le> length (waiting arrs (head s)) + 1"
      proof (cases arrs)
        case (Cons b bs)
        have "length bs \<le> length (concat bs)" using arrs Cons \<open>\<And>as. [] \<notin> set as \<Longrightarrow> length as \<le> length (concat as)\<close>[of bs]
          by (auto simp: arrays_ok_def)
        then show ?thesis using arrs Cons by (simp add: waiting_Cons arrays_ok_def)
      qed simp
      ultimately show ?thesis using assms(2) xs arg_cong[OF sub, of length] by (cases xs) auto
    qed
    then obtain p where p: "q_push (pending s) (map Some xs) = (Inr (), p)" "holds p (arrs @ [xs])"
      using qd.enq_rep[OF rep(2), of "map Some xs"] by auto
    define u where "u = s1\<lparr>pending := p, queued := queued s1 + js_len (map Some xs)\<rparr>"
    have w: "waiting (arrs @ [xs]) (head s) = waiting arrs (head s) @ xs"
    proof (cases arrs)
      case Nil
      then show ?thesis using arrs by (simp add: waiting_def arrays_ok_def)
    next
      case (Cons b bs)
      then show ?thesis using arrs by (auto simp: arrays_ok_def waiting_Cons)
    qed
    have "arrays_ok (arrs @ [xs]) (head s)"
    proof (cases arrs)
      case Nil
      then show ?thesis using arrs xs by (cases xs) (auto simp: arrays_ok_def js_len_def)
    qed (use arrs xs in \<open>auto simp: arrays_ok_def\<close>)
    then have "batch_ok sub [] (arrs @ [xs]) u"
      using ok p q(2) xs True unfolding batch_ok_def u_def s1_def by (auto simp: w js_len_def bx_limited_def)
    moreover have "bx_limited u" using True by (simp add: u_def s1_def bx_limited_def)
    ultimately obtain arrs' s' where "bx_pump u = Some s'" "batch_ok sub [] arrs' s'" "batch_busy s'"
        "maxBatchSize s' = maxBatchSize u" "maxInFlight s' = maxInFlight u"
      using pump_ok by blast
    moreover have "bx_tick s = bx_pump u"
      using True worker p by (simp add: bx_tick_def Let_def u_def s1_def)
    ultimately show ?thesis using assms(1) unfolding batch_inv_def by (auto simp: u_def s1_def)
  next
    case False
    then have "arrs = []" using ok by (simp add: batch_ok_def)
    define u where "u = bx_start (map Some xs) s1"
    have "batch_ok sub [] [] u"
      using ok \<open>arrs = []\<close> q(2) xs False
      unfolding batch_ok_def u_def s1_def by (auto simp: waiting_def bx_start_def bx_limited_def arrays_ok_def)
    moreover have "\<not> bx_limited u" using False by (simp add: u_def s1_def bx_start_def bx_limited_def)
    moreover have "bx_tick s = Some u" using False worker by (simp add: bx_tick_def Let_def u_def s1_def)
    moreover have "maxBatchSize u = maxBatchSize s" "maxInFlight u = maxInFlight s"
      by (simp_all add: u_def s1_def bx_start_def)
    ultimately show ?thesis using assms(1) unfolding batch_inv_def by blast
  qed
qed

lemma finish_inv:
  assumes "batch_inv mb mf sub s" "i < length (running s)"
  shows "\<exists>s'. bx_finish i s = Some s' \<and> batch_inv mb mf sub s'"
proof -
  obtain xs arrs where ok: "batch_ok sub xs arrs s" using assms(1) by (auto simp: batch_inv_def)
  define t where "t = s\<lparr>running := take i (running s) @ drop (Suc i) (running s), finished := finished s @ [running s ! i]\<rparr>"
  have "mset (running s) = mset (take i (running s) @ running s ! i # drop (Suc i) (running s))"
    using id_take_nth_drop[OF assms(2)] by metis
  then have ms: "mset (running s) + mset (finished s) = mset (running t) + mset (finished t)" by (simp add: t_def)
  have len: "js_len (running t) = js_len (running s) - 1" using assms(2) by (simp add: t_def js_len_def)
  show ?thesis
  proof (cases "bx_limited s")
    case True
    define u where "u = t\<lparr>inFlight := inFlight t - 1\<rparr>"
    have "\<not> num_lt m k \<Longrightarrow> \<not> num_lt m (k - 1)" for m k by (cases m) auto
    then have "batch_ok sub xs arrs u"
      using ok ms len True by (auto simp: batch_ok_def u_def t_def bx_limited_def)
    moreover have "bx_limited u" using True by (simp add: u_def t_def bx_limited_def)
    ultimately obtain arrs' s' where "bx_pump u = Some s'" "batch_ok sub xs arrs' s'" "batch_busy s'"
        "maxBatchSize s' = maxBatchSize u" "maxInFlight s' = maxInFlight u"
      using pump_ok by blast
    then show ?thesis using True assms(1) unfolding batch_inv_def
      by (auto simp: bx_finish_def bx_release_def Let_def t_def u_def)
  next
    case False
    have "batch_ok sub xs arrs t" using ok ms False by (auto simp: batch_ok_def t_def bx_limited_def)
    moreover have "\<not> bx_limited t" using False by (simp add: t_def bx_limited_def)
    ultimately show ?thesis using False assms(1) unfolding batch_inv_def by (auto simp: bx_finish_def Let_def t_def)
  qed
qed

lemma event_inv:
  assumes "batch_inv mb mf sub s" "length sub < 2 ^ 30 - 1"
  shows "\<exists>s'. bx_happen k s = Some s' \<and> batch_inv mb mf (sub @ submits [k]) s'"
  using assms submit_inv[OF assms] tick_inv[OF assms] finish_inv[OF assms(1)] by (cases k) auto

lemma run_inv:
  "batch_inv mb mf sub s \<Longrightarrow> length sub + length (submits ks) < 2 ^ 30 - 1 \<Longrightarrow>
    \<exists>s'. bx_run ks s = Some s' \<and> batch_inv mb mf (sub @ submits ks) s'"
proof (induction ks arbitrary: sub s)
  case (Cons k ks)
  have "submits (k # ks) = submits [k] @ submits ks" by (cases k) auto
  moreover have "length sub < 2 ^ 30 - 1" using Cons.prems(2) by simp
  then obtain s1 where s1: "bx_happen k s = Some s1" "batch_inv mb mf (sub @ submits [k]) s1"
    using event_inv[OF Cons.prems(1)] by blast
  ultimately show ?case using Cons.IH[OF s1(2)] Cons.prems(2) s1(1) by simp
qed simp

lemma validateLimit_ok: "bx_validateLimit v = Inr m \<Longrightarrow> limit_ok m \<and> \<not> num_lt m 0"
proof -
  assume "bx_validateLimit v = Inr m"
  then consider "m = PosInf" | n where "m = Whole n" "1 \<le> n"
    by (cases m) (auto simp: bx_validateLimit_def split: option.splits if_splits)
  then show ?thesis by cases (auto simp: limit_ok_def)
qed

lemma make_inv: "bx_make bs fl = Inr s \<Longrightarrow> batch_inv (maxBatchSize s) (maxInFlight s) [] s"
proof -
  assume "bx_make bs fl = Inr s"
  then obtain mb mf where m: "bx_validateLimit bs = Inr mb" "bx_validateLimit fl = Inr mf"
      "s = \<lparr>maxBatchSize = mb, maxInFlight = mf, buf = bf_make, pending = q_init, head = 0,
        queued = 0, inFlight = 0, running = [], started = [], finished = []\<rparr>"
    by (auto simp: bx_make_def split: sum.splits)
  have "batch_ok [] [] [] s"
    using validateLimit_ok[OF m(1)] validateLimit_ok[OF m(2)] unfolding m(3) batch_ok_def
    by (simp add: q_init_rep bf_make_def arrays_ok_def waiting_def)
  moreover have "batch_busy s" by (simp add: batch_busy_def m(3))
  ultimately show ?thesis unfolding batch_inv_def by blast
qed

lemma settle_each: "map fst (bx_settle args answer) = args"
proof -
  have "map fst (bx_deliver args rs) = args" for rs
    by (induction args rs rule: bx_deliver.induct) (auto simp: comp_def)
  then show ?thesis by (auto simp: bx_settle_def comp_def split: sum.splits)
qed

section \<open>Properties\<close>

text \<open>
  C31. The executor never loops, crashes or loses the order of its calls: after any sequence of
  calls, timers and settled promises (fewer than \<open>2 ^ 30 - 1\<close> calls), the batches passed to the batch
  function, put end to end, are a prefix of the requests in the order they were made; no batch is
  empty or longer than \<open>maxBatchSize\<close>, and no more than \<open>maxInFlight\<close> batches are running.
\<close>

theorem batches_in_order:
  assumes "bx_make bs fl = Inr s0" "length (submits ks) < 2 ^ 30 - 1"
  shows "\<exists>s rest. bx_run ks s0 = Some s \<and> map Some (submits ks) = concat (started s) @ map Some rest \<and>
    (\<forall>c\<in>set (started s). c \<noteq> [] \<and> \<not> num_lt (maxBatchSize s0) (js_len c)) \<and>
    \<not> num_lt (maxInFlight s0) (js_len (running s))"
proof -
  obtain s where s: "bx_run ks s0 = Some s" "batch_inv (maxBatchSize s0) (maxInFlight s0) (submits ks) s"
    using run_inv[OF make_inv[OF assms(1)], of ks] assms(2) by auto
  then obtain xs arrs where ok: "batch_ok (submits ks) xs arrs s" "maxBatchSize s = maxBatchSize s0"
      "maxInFlight s = maxInFlight s0" by (auto simp: batch_inv_def)
  have "\<not> num_lt (maxInFlight s) (js_len (running s))"
    using ok(1) by (cases "bx_limited s") (auto simp: batch_ok_def bx_limited_def)
  then show ?thesis using s(1) ok unfolding batch_ok_def by metis
qed

lemma batches_in_order_witness:
  "\<exists>s0 s rest. bx_make (Some (Whole 2)) (Some (Whole 1)) = Inr s0 \<and>
    bx_run [Submit 1, Submit 2, Submit 3, Fire, Submit (4::nat), Finish 0] s0 = Some s \<and>
    [Some 1, Some 2, Some 3, Some 4] = concat (started s) @ map Some rest \<and> \<not> num_lt (Whole 1) (js_len (running s))"
proof -
  let ?ks = "[Submit 1, Submit 2, Submit 3, Fire, Submit (4::nat), Finish 0]"
  obtain s0 :: "nat batch" where s0: "bx_make (Some (Whole 2)) (Some (Whole 1)) = Inr s0" "maxInFlight s0 = Whole 1"
    by (simp add: bx_make_def bx_validateLimit_def)
  have "length (submits ?ks) < 2 ^ 30 - 1" by simp
  from batches_in_order[OF s0(1) this] s0(2) show ?thesis using s0(1) by fastforce
qed

text \<open>
  C32. No request is forgotten: whenever no timer is set and no batch is running, every request made
  so far belongs to exactly one finished batch, so as long as requests are unsettled a timer is
  set or a batch is running; and for every answer of the batch function (a rejection, a list of the
  wrong length, entries that are no objects) each request of the batch is settled exactly once.
\<close>

theorem requests_all_settle:
  assumes "bx_make bs fl = Inr s0" "length (submits ks) < 2 ^ 30 - 1" "bx_run ks s0 = Some s"
    and "timers (buf s) = 0" "running s = []"
  shows "mset (concat (finished s)) = mset (map Some (submits ks)) \<and>
    (\<forall>c\<in>set (finished s). \<forall>answer. map fst (bx_settle c answer) = c)"
proof -
  obtain xs arrs where ok: "batch_ok (submits ks) xs arrs s" and busy: "bx_limited s \<longrightarrow> batch_busy s"
    using run_inv[OF make_inv[OF assms(1)], of ks] assms(2,3) by (auto simp: batch_inv_def)
  have xs: "xs = []" using ok assms(4) by (auto simp: batch_ok_def split: if_splits)
  have "waiting arrs (head s) = []"
  proof (cases "bx_limited s")
    case True
    then have "inFlight s = 0" "limit_ok (maxInFlight s)" "queued s = js_len (waiting arrs (head s))"
      using ok assms(5) by (auto simp: batch_ok_def js_len_def)
    then show ?thesis using busy True by (auto simp: batch_busy_def limit_ok_def js_len_def)
  next
    case False
    then show ?thesis using ok by (simp add: batch_ok_def waiting_def)
  qed
  then have "map Some (submits ks) = concat (started s)" using ok xs by (simp add: batch_ok_def)
  moreover have "mset (started s) = mset (finished s)" using ok assms(5) by (simp add: batch_ok_def)
  then have "mset (concat (started s)) = mset (concat (finished s))"
    by (metis mset_concat mset_map sum_mset_sum_list)
  ultimately show ?thesis by (simp add: settle_each)
qed

lemma requests_all_settle_witness:
  "\<exists>s. bx_run [Submit 1, Submit (2::nat), Fire, Finish 0] (projr (bx_make None None)) = Some s \<and>
    mset (concat (finished s)) = {#Some 1, Some 2#}"
proof -
  let ?ks = "[Submit 1, Submit (2::nat), Fire, Finish 0]"
  have s0: "bx_make None None = Inr (projr (bx_make None None) :: nat batch)"
    by (simp add: bx_make_def bx_validateLimit_def)
  have "case bx_run ?ks (projr (bx_make None None)) of None \<Rightarrow> False | Some s \<Rightarrow> timers (buf s) = 0 \<and> running s = []"
    by code_simp
  then obtain s where s: "bx_run ?ks (projr (bx_make None None)) = Some s" "timers (buf s) = 0" "running s = []"
    by (auto split: option.splits)
  have "length (submits ?ks) < 2 ^ 30 - 1" by simp
  from requests_all_settle[OF s0 this s]
  have "mset (concat (finished s)) = mset (map Some (submits ?ks))" by (rule conjunct1)
  also have "mset (map Some (submits ?ks)) = {#Some 1, Some 2#}" by simp
  finally show ?thesis using s(1) by blast
qed

end
