(* ===== verification/SOA.thy ===== *)
theory SOA
  imports JsText
begin

text \<open>
  \<open>SOA.ts\<close>: a structure of arrays, one array per field, with rows and views.

  The column arrays are shared between the structure, its views and the caller, so they live in a
  store from addresses to arrays; two columns may be the same array. A structure is the list of
  its own keys with their arrays, in the order of \<open>for ... in\<close>, and the two per-structure caches: the
  columns that the cached view descriptors captured and the column names of the cached row factory.
  The factory's generated text builds the object of those names at a row, which is what
  \<open>soa_row\<close> says; the cache shared between structures holds equal factories. A value is an
  option, \<^term>\<open>None\<close> being \<open>undefined\<close>; an item is a map from keys to values, \<^term>\<open>None\<close> for a key
  it does not have.

  The lemmas relate a structure to the list of its rows.
\<close>

section \<open>The code\<close>

type_synonym 'v store = "nat \<Rightarrow> 'v option list"
type_synonym columns = "(string \<times> nat) list"
type_synonym 'v item = "string \<Rightarrow> 'v option option"

record soa =
  cols :: columns
  viewCache :: "columns option"
  rowKeys :: "string list option"

record view =
  captured :: columns
  idx :: int

text \<open>\<open>isFresh\<close>: the same names with the same arrays, in the same order.\<close>

fun soa_isFresh :: "columns \<Rightarrow> columns \<Rightarrow> bool" where
  "soa_isFresh [] [] = True"
| "soa_isFresh ((k', a') # es) ((k, a) # cs) = (if k' \<noteq> k \<or> a' \<noteq> a then False else soa_isFresh es cs)"
| "soa_isFresh _ _ = False"

definition soa_getOrCreateDescriptors :: "soa \<Rightarrow> columns outcome \<times> soa" where
  "soa_getOrCreateDescriptors s =
     (case viewCache s of
        Some entry \<Rightarrow>
          if soa_isFresh entry (cols s) then (Inr entry, s)
          else if ''index'' \<in> fst ` set (cols s) then (Inl TypeError, s)
          else (Inr (cols s), s\<lparr>viewCache := Some (cols s)\<rparr>)
      | None \<Rightarrow>
          if ''index'' \<in> fst ` set (cols s) then (Inl TypeError, s)
          else (Inr (cols s), s\<lparr>viewCache := Some (cols s)\<rparr>))"

definition soa_createView :: "soa \<Rightarrow> int \<Rightarrow> view outcome \<times> soa" where
  "soa_createView s index =
     (case soa_getOrCreateDescriptors s of
        (Inl e, s') \<Rightarrow> (Inl e, s')
      | (Inr d, s') \<Rightarrow> (Inr \<lparr>captured = d, idx = to_int32 index\<rparr>, s'))"

text \<open>The accessors of a view: a field, and \<open>index\<close>.\<close>

definition view_get :: "view \<Rightarrow> string \<Rightarrow> 'v store \<Rightarrow> 'v option" where
  "view_get v key h = (case map_of (captured v) key of None \<Rightarrow> None | Some a \<Rightarrow> js_get (h a) (idx v))"

definition view_set :: "view \<Rightarrow> string \<Rightarrow> 'v option \<Rightarrow> 'v store \<Rightarrow> 'v store" where
  "view_set v key x h =
     (case map_of (captured v) key of None \<Rightarrow> h | Some a \<Rightarrow> h(a := js_put (h a) (idx v) x))"

definition view_setIndex :: "view \<Rightarrow> int \<Rightarrow> view" where
  "view_setIndex v i = v\<lparr>idx := to_int32 i\<rparr>"

text \<open>A row by a factory for these names; a name that is no column makes it throw.\<close>

fun soa_row :: "string list \<Rightarrow> columns \<Rightarrow> 'v store \<Rightarrow> int \<Rightarrow> (string \<times> 'v option) list outcome" where
  "soa_row [] cs h i = Inr []"
| "soa_row (k # ks) cs h i =
     (case map_of cs k of
        None \<Rightarrow> Inl TypeError
      | Some a \<Rightarrow> map_sum id (Cons (k, js_get (h a) i)) (soa_row ks cs h i))"

definition soa_getRowFactory :: "soa \<Rightarrow> string list \<times> soa" where
  "soa_getRowFactory s =
     (case rowKeys s of
        Some keys \<Rightarrow> (keys, s)
      | None \<Rightarrow> (map fst (cols s), s\<lparr>rowKeys := Some (map fst (cols s))\<rparr>))"

definition soa_length :: "soa \<Rightarrow> 'v store \<Rightarrow> int" where
  "soa_length s h = (case cols s of [] \<Rightarrow> 0 | (k, a) # _ \<Rightarrow> js_len (h a))"

definition soa_push :: "soa \<Rightarrow> 'v item \<Rightarrow> 'v store \<Rightarrow> 'v store" where
  "soa_push s item h =
     fold (\<lambda>(k, a) h. h(a := h a @ [case item k of None \<Rightarrow> None | Some v \<Rightarrow> v])) (cols s) h"

definition soa_popAll :: "columns \<Rightarrow> 'v store \<Rightarrow> 'v store" where
  "soa_popAll cs h = fold (\<lambda>(k, a) h. h(a := butlast (h a))) cs h"

definition soa_get :: "soa \<Rightarrow> int \<Rightarrow> 'v store \<Rightarrow> (string \<times> 'v option) list outcome \<times> soa" where
  "soa_get s i h = (case soa_getRowFactory s of (keys, s') \<Rightarrow> (soa_row keys (cols s') h i, s'))"

definition soa_pop :: "soa \<Rightarrow> 'v store \<Rightarrow> (string \<times> 'v option) list outcome \<times> soa \<times> 'v store" where
  "soa_pop s h =
     (case soa_getRowFactory s of
        (keys, s') \<Rightarrow>
          (case soa_row keys (cols s') h (soa_length s h - 1) of
             Inl e \<Rightarrow> (Inl e, s', h)
           | Inr row \<Rightarrow> (Inr row, s', soa_popAll (cols s) h)))"

text \<open>\<open>index >>> 0 !== index\<close>: anything but an unsigned 32-bit integer.\<close>

fun not_uint32 :: "js_number \<Rightarrow> bool" where
  "not_uint32 (Whole i) = (to_uint32 i \<noteq> i)"
| "not_uint32 _ = True"

definition soa_write :: "'v item \<Rightarrow> int \<Rightarrow> string \<times> nat \<Rightarrow> 'v store \<Rightarrow> 'v store" where
  "soa_write item i c h =
     (case item (fst c) of None \<Rightarrow> h | Some v \<Rightarrow> h(snd c := js_put (h (snd c)) i v))"

definition soa_set :: "soa \<Rightarrow> js_number \<Rightarrow> 'v item \<Rightarrow> 'v store \<Rightarrow> unit outcome \<times> 'v store" where
  "soa_set s index item h =
     (case cols s of
        [] \<Rightarrow> (Inl RangeError, h)
      | (k, a) # _ \<Rightarrow>
          if not_uint32 index \<or> num_ge index (js_len (h a)) then (Inl RangeError, h)
          else (Inr (), fold (soa_write item (the (num_trunc index))) (cols s) h))"

definition soa_swapRemove :: "soa \<Rightarrow> js_number \<Rightarrow> 'v store \<Rightarrow> unit outcome \<times> 'v store" where
  "soa_swapRemove s index h =
     (let lst = soa_length s h - 1
      in if not_uint32 index \<or> num_gt index lst then (Inl RangeError, h)
         else
           let i = the (num_trunc index);
               h1 = (if i \<noteq> lst then fold (\<lambda>(k, a) h. h(a := js_put (h a) i (js_get (h a) lst))) (cols s) h else h)
           in (Inr (), soa_popAll (cols s) h1))"

definition soa_clear :: "soa \<Rightarrow> 'v store \<Rightarrow> 'v store" where
  "soa_clear s h = fold (\<lambda>(k, a) h. h(a := [])) (cols s) h"

section \<open>Rows\<close>

type_synonym 'v row = "string \<Rightarrow> 'v option"

text \<open>The store holds the rows in columns of different names and different arrays.\<close>

definition soa_rep :: "soa \<Rightarrow> 'v store \<Rightarrow> 'v row list \<Rightarrow> bool" where
  "soa_rep s h rows \<longleftrightarrow>
     cols s \<noteq> [] \<and> distinct (map fst (cols s)) \<and> distinct (map snd (cols s)) \<and>
     (\<forall>(k, a)\<in>set (cols s). h a = map (\<lambda>r. r k) rows) \<and>
     (rowKeys s = None \<or> rowKeys s = Some (map fst (cols s)))"

text \<open>An operation that rewrites each column on its own.\<close>

lemma fold_columns_frame:
  "b \<notin> snd ` set cs \<Longrightarrow> fold (\<lambda>(k, a) h. h(a := f k (h a))) cs h b = h b"
  by (induction cs arbitrary: h) auto

lemma fold_columns:
  "distinct (map snd cs) \<Longrightarrow> (k, a) \<in> set cs \<Longrightarrow>
    fold (\<lambda>(k, a) h. h(a := f k (h a))) cs h a = f k (h a)"
proof (induction cs arbitrary: h)
  case (Cons c cs)
  obtain k' a' where c: "c = (k', a')" by (cases c)
  show ?case
  proof (cases "(k, a) = c")
    case True
    then have "a \<notin> snd ` set cs" using Cons.prems(1) c by (auto simp: image_iff)
    then have "fold (\<lambda>(k, a) h. h(a := f k (h a))) cs (h(a := f k (h a))) a = (h(a := f k (h a))) a"
      by (rule fold_columns_frame)
    then show ?thesis using True c by (simp del: fun_upd_apply add: fun_upd_same)
  next
    case False
    then have "(k, a) \<in> set cs" "a \<noteq> a'" using Cons.prems c by (auto simp: image_iff)
    then show ?thesis using Cons.IH[of "h(a' := f k' (h a'))"] Cons.prems(1) c by simp
  qed
qed simp

lemma soa_rep_update:
  assumes "soa_rep s h rows" "cols s' = cols s" "rowKeys s' = None \<or> rowKeys s' = Some (map fst (cols s))"
    "\<And>k. k \<in> fst ` set (cols s) \<Longrightarrow> f k (map (\<lambda>r. r k) rows) = map (\<lambda>r. r k) rows'"
  shows "soa_rep s' (fold (\<lambda>(k, a) h. h(a := f k (h a))) (cols s) h) rows'"
proof -
  have "fold (\<lambda>(k, a) h. h(a := f k (h a))) (cols s) h a = map (\<lambda>r. r k) rows'" if "(k, a) \<in> set (cols s)" for k a
    using fold_columns[of "cols s" k a f h] assms(1,4) that unfolding soa_rep_def by force
  then show ?thesis using assms unfolding soa_rep_def by auto
qed

lemma soa_row_rep:
  assumes "soa_rep s h rows" "set ks \<subseteq> fst ` set (cols s)"
  shows "soa_row ks (cols s) h i = Inr (map (\<lambda>k. (k, if 0 \<le> i \<and> i < js_len rows then (rows ! nat i) k else None)) ks)"
  using assms(2)
proof (induction ks)
  case (Cons k ks)
  then obtain a where a: "(k, a) \<in> set (cols s)" by auto
  then have "map_of (cols s) k = Some a" using assms(1) by (simp add: soa_rep_def)
  moreover have "h a = map (\<lambda>r. r k) rows" using assms(1) a by (auto simp: soa_rep_def)
  ultimately show ?case using Cons by (auto simp: js_get_def js_len_def)
qed simp

lemma soa_length_rep: "soa_rep s h rows \<Longrightarrow> soa_length s h = js_len rows"
  by (cases "cols s") (auto simp: soa_rep_def soa_length_def js_len_def)

lemma rowFactory_rep:
  assumes "soa_rep s h rows"
  shows "fst (soa_getRowFactory s) = map fst (cols s)" "soa_rep (snd (soa_getRowFactory s)) h rows"
    "cols (snd (soa_getRowFactory s)) = cols s" "viewCache (snd (soa_getRowFactory s)) = viewCache s"
  using assms by (auto simp: soa_getRowFactory_def soa_rep_def split: option.splits)
section \<open>Sessions\<close>

text \<open>
  A client with views. It writes through a view only where the view is on a row; reading may be
  anywhere.
\<close>

datatype 'v soa_call =
  SoaPush "'v item" | SoaPop | SoaGet int | SoaSet js_number "'v item" | SoaSwapRemove js_number
| SoaLength | SoaClear | SoaView int | SoaViewGet nat string | SoaViewSet nat string "'v option" | SoaViewMove nat int

datatype 'v soa_answer = SoaThrows js_error | SoaDone | SoaRow "(string \<times> 'v option) list" | SoaNumber int | SoaValue "'v option"

definition soa_unit :: "unit outcome \<Rightarrow> 'v soa_answer" where
  "soa_unit r = (case r of Inl e \<Rightarrow> SoaThrows e | Inr _ \<Rightarrow> SoaDone)"

definition soa_item :: "(string \<times> 'v option) list outcome \<Rightarrow> 'v soa_answer" where
  "soa_item r = (case r of Inl e \<Rightarrow> SoaThrows e | Inr row \<Rightarrow> SoaRow row)"

fun soa_step :: "'v soa_call \<Rightarrow> soa \<times> 'v store \<times> view list \<Rightarrow> 'v soa_answer \<times> soa \<times> 'v store \<times> view list" where
  "soa_step (SoaPush item) (s, h, vs) = (SoaDone, s, soa_push s item h, vs)"
| "soa_step SoaPop (s, h, vs) = (case soa_pop s h of (r, s', h') \<Rightarrow> (soa_item r, s', h', vs))"
| "soa_step (SoaGet i) (s, h, vs) = (case soa_get s i h of (r, s') \<Rightarrow> (soa_item r, s', h, vs))"
| "soa_step (SoaSet i item) (s, h, vs) = (case soa_set s i item h of (r, h') \<Rightarrow> (soa_unit r, s, h', vs))"
| "soa_step (SoaSwapRemove i) (s, h, vs) = (case soa_swapRemove s i h of (r, h') \<Rightarrow> (soa_unit r, s, h', vs))"
| "soa_step SoaLength (s, h, vs) = (SoaNumber (soa_length s h), s, h, vs)"
| "soa_step SoaClear (s, h, vs) = (SoaDone, s, soa_clear s h, vs)"
| "soa_step (SoaView i) (s, h, vs) =
     (case soa_createView s i of
        (Inl e, s') \<Rightarrow> (SoaThrows e, s', h, vs)
      | (Inr v, s') \<Rightarrow> (SoaDone, s', h, vs @ [v]))"
| "soa_step (SoaViewGet n k) (s, h, vs) =
     (if n < length vs then (SoaValue (view_get (vs ! n) k h), s, h, vs) else (SoaDone, s, h, vs))"
| "soa_step (SoaViewSet n k x) (s, h, vs) =
     (if n < length vs \<and> 0 \<le> idx (vs ! n) \<and> idx (vs ! n) < soa_length s h
      then (SoaDone, s, view_set (vs ! n) k x h, vs) else (SoaDone, s, h, vs))"
| "soa_step (SoaViewMove n i) (s, h, vs) =
     (if n < length vs then (SoaDone, s, h, vs[n := view_setIndex (vs ! n) i]) else (SoaDone, s, h, vs))"

text \<open>The same client of a list of rows, with the names of the fields.\<close>

definition row_at :: "'v row list \<Rightarrow> int \<Rightarrow> 'v row" where
  "row_at rows i = (if 0 \<le> i \<and> i < js_len rows then rows ! nat i else (\<lambda>_. None))"

definition row_answer :: "string list \<Rightarrow> 'v row \<Rightarrow> 'v soa_answer" where
  "row_answer ks r = SoaRow (map (\<lambda>k. (k, r k)) ks)"

definition item_over :: "'v item \<Rightarrow> 'v row \<Rightarrow> 'v row" where
  "item_over item r = (\<lambda>k. case item k of None \<Rightarrow> r k | Some v \<Rightarrow> v)"

definition row_index :: "js_number \<Rightarrow> 'v row list \<Rightarrow> nat option" where
  "row_index n rows = (case n of Whole i \<Rightarrow> if 0 \<le> i \<and> i < js_len rows then Some (nat i) else None | _ \<Rightarrow> None)"

fun rows_step :: "string list \<Rightarrow> 'v soa_call \<Rightarrow> 'v row list \<times> int list \<Rightarrow> 'v soa_answer \<times> 'v row list \<times> int list" where
  "rows_step ks (SoaPush item) (rows, vs) = (SoaDone, rows @ [item_over item (\<lambda>_. None)], vs)"
| "rows_step ks SoaPop (rows, vs) = (row_answer ks (row_at rows (js_len rows - 1)), butlast rows, vs)"
| "rows_step ks (SoaGet i) (rows, vs) = (row_answer ks (row_at rows i), rows, vs)"
| "rows_step ks (SoaSet n item) (rows, vs) =
     (case row_index n rows of
        None \<Rightarrow> (SoaThrows RangeError, rows, vs)
      | Some i \<Rightarrow> (SoaDone, rows[i := item_over item (rows ! i)], vs))"
| "rows_step ks (SoaSwapRemove n) (rows, vs) =
     (case row_index n rows of
        None \<Rightarrow> (SoaThrows RangeError, rows, vs)
      | Some i \<Rightarrow> (SoaDone, butlast (rows[i := last rows]), vs))"
| "rows_step ks SoaLength (rows, vs) = (SoaNumber (js_len rows), rows, vs)"
| "rows_step ks SoaClear (rows, vs) = (SoaDone, [], vs)"
| "rows_step ks (SoaView i) (rows, vs) = (SoaDone, rows, vs @ [to_int32 i])"
| "rows_step ks (SoaViewGet n k) (rows, vs) =
     (if n < length vs then (SoaValue (if k \<in> set ks then row_at rows (vs ! n) k else None), rows, vs) else (SoaDone, rows, vs))"
| "rows_step ks (SoaViewSet n k x) (rows, vs) =
     (if n < length vs \<and> 0 \<le> vs ! n \<and> vs ! n < js_len rows \<and> k \<in> set ks
      then (SoaDone, rows[nat (vs ! n) := (rows ! nat (vs ! n))(k := x)], vs) else (SoaDone, rows, vs))"
| "rows_step ks (SoaViewMove n i) (rows, vs) =
     (if n < length vs then (SoaDone, rows, vs[n := to_int32 i]) else (SoaDone, rows, vs))"

definition soa_client :: "columns \<Rightarrow> soa \<times> 'v store \<times> view list \<Rightarrow> 'v row list \<times> int list \<Rightarrow> bool" where
  "soa_client cs c a \<longleftrightarrow> (case c of (s, h, vs) \<Rightarrow> case a of (rows, is) \<Rightarrow>
     cols s = cs \<and> ''index'' \<notin> fst ` set cs \<and> soa_rep s h rows \<and> length rows < 2 ^ 32 \<and>
     (viewCache s = None \<or> viewCache s = Some cs) \<and>
     vs = map (\<lambda>i. \<lparr>captured = cs, idx = i\<rparr>) is)"

lemma isFresh_iff: "soa_isFresh es cs \<longleftrightarrow> es = cs"
  by (induction es cs rule: soa_isFresh.induct) auto

lemma row_index_cases:
  assumes "length rows < 2 ^ 32"
  shows "not_uint32 n \<or> num_ge n (js_len rows) \<longleftrightarrow> row_index n rows = None"
    "not_uint32 n \<or> num_gt n (js_len rows - 1) \<longleftrightarrow> row_index n rows = None"
    "row_index n rows = Some i \<Longrightarrow> the (num_trunc n) = int i \<and> i < length rows"
proof -
  define N :: int where "N = 2 ^ 32"
  have N: "0 < N" "int (length rows) < N"
    using assms of_nat_less_iff[of "length rows" "2 ^ 32", where ?'a = int] by (simp_all add: N_def)
  have u: "to_uint32 i = i \<longleftrightarrow> 0 \<le> i \<and> i < N" for i
    unfolding to_uint32_def N_def[symmetric]
    using pos_mod_bound[OF N(1), of i] pos_mod_sign[OF N(1), of i] mod_pos_pos_trivial[of i N] by auto
  show "not_uint32 n \<or> num_ge n (js_len rows) \<longleftrightarrow> row_index n rows = None"
    "not_uint32 n \<or> num_gt n (js_len rows - 1) \<longleftrightarrow> row_index n rows = None"
    using N(2) by (cases n; auto simp: row_index_def js_len_def u)+
  show "row_index n rows = Some i \<Longrightarrow> the (num_trunc n) = int i \<and> i < length rows"
    by (cases n) (auto simp: row_index_def js_len_def split: if_splits)
qed

lemma push_rep:
  "soa_rep s h rows \<Longrightarrow> soa_rep s (soa_push s item h) (rows @ [item_over item (\<lambda>_. None)])"
  unfolding soa_push_def
  by (rule soa_rep_update[where f = "\<lambda>k xs. xs @ [case item k of None \<Rightarrow> None | Some v \<Rightarrow> v]"])
    (auto simp: soa_rep_def item_over_def)

lemma popAll_rep:
  "soa_rep s h rows \<Longrightarrow> cols s' = cols s \<Longrightarrow> rowKeys s' = None \<or> rowKeys s' = Some (map fst (cols s)) \<Longrightarrow>
    soa_rep s' (soa_popAll (cols s) h) (butlast rows)"
  unfolding soa_popAll_def
  by (rule soa_rep_update[where f = "\<lambda>k. butlast"]) (auto simp: map_butlast)

lemma clear_rep: "soa_rep s h rows \<Longrightarrow> soa_rep s (soa_clear s h) []"
  unfolding soa_clear_def by (rule soa_rep_update[where f = "\<lambda>k xs. []"]) (auto simp: soa_rep_def)

lemma map_same: "i < length rows \<Longrightarrow> (map f rows)[i := f (rows ! i)] = map f rows"
  by (metis list_update_id map_update)

lemma write_rep:
  assumes "soa_rep s h rows" "i < length rows"
  shows "soa_rep s (fold (soa_write item (int i)) (cols s) h) (rows[i := item_over item (rows ! i)])"
proof -
  define f where "f = (\<lambda>k xs. case item k of None \<Rightarrow> xs | Some v \<Rightarrow> js_put xs (int i) v)"
  have "soa_write item (int i) = (\<lambda>(k, a) h. h(a := f k (h a)))"
    by (auto simp: soa_write_def f_def fun_eq_iff split: option.splits)
  moreover have "f k (map (\<lambda>r. r k) rows) = map (\<lambda>r. r k) (rows[i := item_over item (rows ! i)])" for k
    using assms(2) map_same[OF assms(2), of "\<lambda>r. r k"]
    by (simp add: f_def js_put_int map_update item_over_def split: option.split)
  ultimately show ?thesis using soa_rep_update[OF assms(1), of s f] assms(1) by (auto simp: soa_rep_def)
qed

lemma swap_rep:
  assumes "soa_rep s h rows" "i < length rows" "lst = js_len rows - 1"
  shows "soa_rep s (soa_popAll (cols s) (if int i \<noteq> lst then
      fold (\<lambda>(k, a) h. h(a := js_put (h a) (int i) (js_get (h a) lst))) (cols s) h else h)) (butlast (rows[i := last rows]))"
proof -
  have keys: "rowKeys s = None \<or> rowKeys s = Some (map fst (cols s))" using assms(1) by (simp add: soa_rep_def)
  have ne: "rows \<noteq> []" using assms(2) by auto
  have lst: "nat lst = length rows - 1" "0 \<le> lst" "lst < int (length rows)" using assms by (auto simp: js_len_def)
  show ?thesis
  proof (cases "int i = lst")
    case True
    then have "i = length rows - 1" "rows \<noteq> []" using assms by (auto simp: js_len_def)
    then have "rows[i := last rows] = rows" by (simp add: last_conv_nth)
    then show ?thesis using popAll_rep[OF assms(1) refl keys] True by simp
  next
    case False
    have "soa_rep s (fold (\<lambda>(k, a) h. h(a := js_put (h a) (int i) (js_get (h a) lst))) (cols s) h) (rows[i := last rows])"
    proof (rule soa_rep_update[where f = "\<lambda>k xs. js_put xs (int i) (js_get xs lst)", OF assms(1) refl keys])
      fix k
      have "js_get (map (\<lambda>r. r k) rows) lst = last rows k"
        using lst assms(2) by (subst js_get_nth) (auto simp: last_conv_nth[OF ne])
      then show "js_put (map (\<lambda>r. r k) rows) (int i) (js_get (map (\<lambda>r. r k) rows) lst) = map (\<lambda>r. r k) (rows[i := last rows])"
        using assms(2) by (simp add: js_put_int map_update)
    qed
    then show ?thesis using popAll_rep[OF _ refl keys] False by simp
  qed
qed

lemma view_get_rep:
  assumes "soa_rep s h rows"
  shows "view_get \<lparr>captured = cols s, idx = i\<rparr> k h = (if k \<in> set (map fst (cols s)) then row_at rows i k else None)"
proof (cases "k \<in> set (map fst (cols s))")
  case True
  then obtain a where a: "(k, a) \<in> set (cols s)" by auto
  then have "map_of (cols s) k = Some a" "h a = map (\<lambda>r. r k) rows" using assms by (auto simp: soa_rep_def)
  then show ?thesis using True by (auto simp: view_get_def row_at_def js_get_def js_len_def)
next
  case False
  then have "map_of (cols s) k = None" by (simp add: map_of_eq_None_iff)
  then show ?thesis using False by (simp add: view_get_def)
qed

lemma view_set_rep:
  assumes "soa_rep s h rows" "0 \<le> i" "i < js_len rows"
  shows "soa_rep s (view_set \<lparr>captured = cols s, idx = i\<rparr> k x h)
    (if k \<in> set (map fst (cols s)) then rows[nat i := (rows ! nat i)(k := x)] else rows)"
proof (cases "k \<in> set (map fst (cols s))")
  case True
  then obtain a where a: "(k, a) \<in> set (cols s)" by auto
  then have m: "map_of (cols s) k = Some a" using assms(1) by (simp add: soa_rep_def)
  have n: "nat i < length rows" using assms(2,3) by (simp add: js_len_def)
  have i: "js_put xs i x = xs[nat i := x]" if "length xs = length rows" for xs
    using assms(2,3) that by (simp add: js_put_update js_len_def)
  have "(h(a := js_put (h a) i x)) b = map (\<lambda>r. r c) (rows[nat i := (rows ! nat i)(k := x)])"
    if "(c, b) \<in> set (cols s)" for c b
  proof (cases "b = a")
    case True
    then have "c = k" using that a assms(1) by (metis (no_types) eq_key_imp_eq_value soa_rep_def distinct_map inj_onD snd_conv fst_conv)
    then show ?thesis using True a assms(1) i[of "h a"] by (auto simp: soa_rep_def map_update)
  next
    case False
    then have "c \<noteq> k" using that a m assms(1) by (metis map_of_is_SomeI option.inject soa_rep_def)
    then have "map (\<lambda>r. r c) (rows[nat i := (rows ! nat i)(k := x)]) = map (\<lambda>r. r c) rows"
      using n by (simp add: map_update list_update_same_conv)
    then show ?thesis using False that assms(1) by (auto simp: soa_rep_def)
  qed
  then have "\<forall>(c, b)\<in>set (cols s). (h(a := js_put (h a) i x)) b = map (\<lambda>r. r c) (rows[nat i := (rows ! nat i)(k := x)])"
    by blast
  then show ?thesis using assms(1) True m unfolding soa_rep_def view_set_def by simp
next
  case False
  then have "map_of (cols s) k = None" by (simp add: map_of_eq_None_iff)
  then show ?thesis using False assms(1) by (simp add: view_set_def)
qed
lemma soa_step_refines:
  assumes "soa_client cs c a" "length (fst a) + 1 < 2 ^ 32"
  shows "fst (soa_step k c) = fst (rows_step (map fst cs) k a) \<and>
    soa_client cs (snd (soa_step k c)) (snd (rows_step (map fst cs) k a))"
proof -
  obtain s h vs where c: "c = (s, h, vs)" by (cases c)
  obtain rows "is" where a: "a = (rows, is)" by (cases a)
  have rep: "soa_rep s h rows" and cs: "cols s = cs" "''index'' \<notin> fst ` set cs"
    and len: "length rows < 2 ^ 32" "length rows + 1 < 2 ^ 32"
    and cache: "viewCache s = None \<or> viewCache s = Some cs"
    and vs: "vs = map (\<lambda>i. \<lparr>captured = cs, idx = i\<rparr>) is"
    using assms by (auto simp: soa_client_def c a)
  have keys: "rowKeys s = None \<or> rowKeys s = Some (map fst (cols s))" using rep by (simp add: soa_rep_def)
  have row: "soa_row (map fst cs) cs h i = Inr (map (\<lambda>k. (k, row_at rows i k)) (map fst cs))" for i
    using soa_row_rep[OF rep, of "map fst cs" i] cs(1) by (auto simp: row_at_def)
  obtain keys' s' where fac: "soa_getRowFactory s = (keys', s')" by (cases "soa_getRowFactory s")
  note f = rowFactory_rep[OF rep, unfolded fac]
  have keys': "rowKeys s' = None \<or> rowKeys s' = Some (map fst (cols s))" using f by (simp add: soa_rep_def)
  show ?thesis
  proof (cases k)
    case (SoaPush item)
    then show ?thesis using push_rep[OF rep] cs len cache vs by (simp add: c a soa_client_def)
  next
    case SoaPop
    have "soa_rep s' (soa_popAll (cols s) h) (butlast rows)"
      using popAll_rep[OF rep, of s'] f keys' by simp
    then show ?thesis
      using SoaPop f cs len cache vs row[of "js_len rows - 1"] soa_length_rep[OF rep]
      by (simp add: c a soa_client_def soa_pop_def fac soa_item_def row_answer_def)
  next
    case (SoaGet i)
    then show ?thesis
      using f cs len cache vs row[of i] by (simp add: c a soa_client_def soa_get_def fac soa_item_def row_answer_def)
  next
    case (SoaSet n item)
    obtain k0 a0 cs0 where cols: "cs = (k0, a0) # cs0" using rep cs by (cases cs) (auto simp: soa_rep_def)
    have l: "js_len (h a0) = js_len rows" using soa_length_rep[OF rep] cols cs by (simp add: soa_length_def)
    note idx = row_index_cases[OF len(1), of n]
    show ?thesis
    proof (cases "row_index n rows")
      case None
      then have "not_uint32 n \<or> num_ge n (js_len rows)" using idx(1) by simp
      then show ?thesis using SoaSet None assms(1) cs cols l by (simp add: c a soa_set_def soa_unit_def)
    next
      case (Some i)
      then have "\<not> (not_uint32 n \<or> num_ge n (js_len rows))" using idx(1) by simp
      moreover note idx(3)[OF Some]
      ultimately show ?thesis
        using SoaSet Some write_rep[OF rep, of i item] cs cols l len cache vs
        by (simp add: c a soa_set_def soa_unit_def soa_client_def)
    qed
  next
    case (SoaSwapRemove n)
    note idx = row_index_cases[OF len(1), of n]
    show ?thesis
    proof (cases "row_index n rows")
      case None
      then have "not_uint32 n \<or> num_gt n (js_len rows - 1)" using idx(2) by simp
      then show ?thesis using SoaSwapRemove None assms(1) soa_length_rep[OF rep]
        by (simp add: c a soa_swapRemove_def soa_unit_def)
    next
      case (Some i)
      then have "\<not> (not_uint32 n \<or> num_gt n (js_len rows - 1))" using idx(2) by simp
      moreover note idx(3)[OF Some]
      ultimately show ?thesis
        using SoaSwapRemove Some swap_rep[OF rep, of i "js_len rows - 1"] soa_length_rep[OF rep] cs len cache vs
        by (simp add: c a soa_swapRemove_def soa_unit_def soa_client_def Let_def)
    qed
  next
    case SoaLength
    then show ?thesis using assms(1) soa_length_rep[OF rep] by (simp add: c a)
  next
    case SoaClear
    then show ?thesis using clear_rep[OF rep] cs len cache vs by (simp add: c a soa_client_def)
  next
    case (SoaView i)
    have "soa_rep (s\<lparr>viewCache := Some cs\<rparr>) h rows" using rep by (simp add: soa_rep_def)
    then show ?thesis
      using SoaView rep cs len cache vs
      by (auto simp: c a soa_client_def soa_createView_def soa_getOrCreateDescriptors_def isFresh_iff)
  next
    case (SoaViewGet n key)
    then show ?thesis using assms(1) view_get_rep[OF rep, of "is ! n" key] cs vs by (auto simp: c a)
  next
    case (SoaViewSet n key x)
    note view = view_set_rep[OF rep, of "is ! n" key x] soa_length_rep[OF rep]
    show ?thesis
    proof (cases "n < length is \<and> 0 \<le> is ! n \<and> is ! n < js_len rows \<and> key \<in> set (map fst cs)")
      case True
      then have "vs ! n = \<lparr>captured = cs, idx = is ! n\<rparr>" using vs by simp
      then show ?thesis using SoaViewSet True view cs len cache vs
        by (simp add: c a soa_client_def del: set_map list.set_map)
    next
      case False
      then show ?thesis using SoaViewSet assms(1) view cs len cache vs
        by (cases "n < length is") (auto simp add: c a soa_client_def simp del: set_map list.set_map)
    qed
  next
    case (SoaViewMove n i)
    then show ?thesis using rep cs len cache vs by (simp add: c a soa_client_def map_update view_setIndex_def)
  qed
qed

lemma rows_step_length: "length (fst (snd (rows_step ks k a))) \<le> length (fst a) + 1"
  by (cases a; cases k) (auto split: option.splits)

lemma soa_run_refines:
  "soa_client cs c a \<Longrightarrow> length (fst a) + length ks < 2 ^ 32 \<Longrightarrow>
    fst (run_calls soa_step ks c) = fst (run_calls (rows_step (map fst cs)) ks a) \<and>
    soa_client cs (snd (run_calls soa_step ks c)) (snd (run_calls (rows_step (map fst cs)) ks a))"
proof (induction ks arbitrary: c a)
  case (Cons k ks)
  have "length (fst a) + 1 < 2 ^ 32" using Cons.prems(2) by simp
  note step = soa_step_refines[OF Cons.prems(1) this, of k]
  have "length (fst (snd (rows_step (map fst cs) k a))) + length ks < 2 ^ 32"
    using rows_step_length[of "map fst cs" k a] Cons.prems(2) by simp
  then show ?case using Cons.IH[OF conjunct2[OF step]] step by simp
qed simp

section \<open>Property\<close>



end
