(* ===== verification/JsRegex.thy ===== *)
theory JsRegex
  imports JsText
begin

text \<open>
  The regular expressions of the source, as far as it uses them: character classes, sequence,
  alternation and the quantifiers, with \<open>^\<close> and \<open>$\<close> at the ends and without groups that are
  read back. Such an expression denotes a set of strings and \<open>test\<close> decides membership, in any
  implementation; here by derivatives, so that it can be evaluated.
\<close>

datatype regex = RxNone | RxEmpty | RxSet "(int \<times> int) list" | RxSeq regex regex | RxAlt regex regex
  | RxStar regex

definition in_class :: "(int \<times> int) list \<Rightarrow> int \<Rightarrow> bool" where
  "in_class rs c = list_ex (\<lambda>(a, b). a \<le> c \<and> c \<le> b) rs"

text \<open>The single characters of a class, a literal text, and the quantifiers \<open>?\<close>, \<open>+\<close>, \<open>{n}\<close>, \<open>{m,n}\<close>.\<close>

definition chars_of :: "string \<Rightarrow> (int \<times> int) list" where
  "chars_of s = map (\<lambda>c. (c, c)) (of_text s)"

definition rx_char :: "string \<Rightarrow> regex" where
  "rx_char s = RxSet (chars_of s)"

fun rx_text :: "string \<Rightarrow> regex" where
  "rx_text [] = RxEmpty"
| "rx_text (c # s) = RxSeq (rx_char [c]) (rx_text s)"

definition rx_opt :: "regex \<Rightarrow> regex" where
  "rx_opt r = RxAlt RxEmpty r"

definition rx_plus :: "regex \<Rightarrow> regex" where
  "rx_plus r = RxSeq r (RxStar r)"

fun rx_times :: "nat \<Rightarrow> regex \<Rightarrow> regex" where
  "rx_times 0 r = RxEmpty"
| "rx_times (Suc n) r = RxSeq r (rx_times n r)"

fun rx_upto :: "nat \<Rightarrow> regex \<Rightarrow> regex" where
  "rx_upto 0 r = RxEmpty"
| "rx_upto (Suc n) r = RxAlt RxEmpty (RxSeq r (rx_upto n r))"

definition rx_range :: "nat \<Rightarrow> nat \<Rightarrow> regex \<Rightarrow> regex" where
  "rx_range m n r = RxSeq (rx_times m r) (rx_upto (n - m) r)"

section \<open>Strings of an expression\<close>

definition lang_seq :: "jstr set \<Rightarrow> jstr set \<Rightarrow> jstr set" where
  "lang_seq A B = {u @ v | u v. u \<in> A \<and> v \<in> B}"

definition lang_star :: "jstr set \<Rightarrow> jstr set" where
  "lang_star A = {concat ws | ws. set ws \<subseteq> A}"

primrec rx_lang :: "regex \<Rightarrow> jstr set" where
  "rx_lang RxNone = {}"
| "rx_lang RxEmpty = {[]}"
| "rx_lang (RxSet cs) = {[c] | c. in_class cs c}"
| "rx_lang (RxSeq r s) = lang_seq (rx_lang r) (rx_lang s)"
| "rx_lang (RxAlt r s) = rx_lang r \<union> rx_lang s"
| "rx_lang (RxStar r) = lang_star (rx_lang r)"

section \<open>The matcher\<close>

primrec nullable :: "regex \<Rightarrow> bool" where
  "nullable RxNone = False"
| "nullable RxEmpty = True"
| "nullable (RxSet cs) = False"
| "nullable (RxSeq r s) = (nullable r \<and> nullable s)"
| "nullable (RxAlt r s) = (nullable r \<or> nullable s)"
| "nullable (RxStar r) = True"

text \<open>Sequence and alternation with the empty cases removed, to keep derivatives small.\<close>

definition mk_seq :: "regex \<Rightarrow> regex \<Rightarrow> regex" where
  "mk_seq r s = (if r = RxNone then RxNone else if r = RxEmpty then s else RxSeq r s)"

definition mk_alt :: "regex \<Rightarrow> regex \<Rightarrow> regex" where
  "mk_alt r s = (if r = RxNone then s else if s = RxNone then r else RxAlt r s)"

primrec deriv :: "int \<Rightarrow> regex \<Rightarrow> regex" where
  "deriv c RxNone = RxNone"
| "deriv c RxEmpty = RxNone"
| "deriv c (RxSet cs) = (if in_class cs c then RxEmpty else RxNone)"
| "deriv c (RxSeq r s) = (if nullable r then mk_alt (mk_seq (deriv c r) s) (deriv c s) else mk_seq (deriv c r) s)"
| "deriv c (RxAlt r s) = mk_alt (deriv c r) (deriv c s)"
| "deriv c (RxStar r) = mk_seq (deriv c r) (RxStar r)"

text \<open>\<open>/^r$/.test(s)\<close> and \<open>/^r/.test(s)\<close>.\<close>

fun rx_test :: "regex \<Rightarrow> jstr \<Rightarrow> bool" where
  "rx_test r [] = nullable r"
| "rx_test r (c # s) = rx_test (deriv c r) s"

fun rx_prefix :: "regex \<Rightarrow> jstr \<Rightarrow> bool" where
  "rx_prefix r [] = nullable r"
| "rx_prefix r (c # s) = (nullable r \<or> rx_prefix (deriv c r) s)"

section \<open>The matcher decides the strings of an expression\<close>

named_theorems rx_mem \<open>membership in the strings of an expression\<close>

lemma nullable_lang: "nullable r \<longleftrightarrow> [] \<in> rx_lang r"
  by (induction r) (auto simp: lang_seq_def lang_star_def intro: exI[of _ "[]"])

lemma mk_seq_lang: "rx_lang (mk_seq r s) = lang_seq (rx_lang r) (rx_lang s)"
  by (auto simp: mk_seq_def lang_seq_def)

lemma mk_alt_lang: "rx_lang (mk_alt r s) = rx_lang r \<union> rx_lang s"
  by (auto simp: mk_alt_def)

lemma lang_seq_Cons:
  "c # w \<in> lang_seq A B \<longleftrightarrow> w \<in> lang_seq {u. c # u \<in> A} B \<or> ([] \<in> A \<and> c # w \<in> B)"
proof
  assume "c # w \<in> lang_seq A B"
  then obtain u v where "c # w = u @ v" "u \<in> A" "v \<in> B" by (auto simp: lang_seq_def)
  then show "w \<in> lang_seq {u. c # u \<in> A} B \<or> ([] \<in> A \<and> c # w \<in> B)"
    by (cases u) (auto simp: lang_seq_def)
next
  assume "w \<in> lang_seq {u. c # u \<in> A} B \<or> ([] \<in> A \<and> c # w \<in> B)"
  then show "c # w \<in> lang_seq A B"
  proof
    assume "w \<in> lang_seq {u. c # u \<in> A} B"
    then obtain u v where "w = u @ v" "c # u \<in> A" "v \<in> B" by (auto simp: lang_seq_def)
    then have "c # w = (c # u) @ v" "c # u \<in> A" "v \<in> B" by auto
    then show ?thesis unfolding lang_seq_def by blast
  next
    assume "[] \<in> A \<and> c # w \<in> B"
    then have "c # w = [] @ (c # w)" "[] \<in> A" "c # w \<in> B" by auto
    then show ?thesis unfolding lang_seq_def by blast
  qed
qed

lemma concat_Cons_split: "concat ws = c # w \<Longrightarrow> \<exists>u vs. c # u \<in> set ws \<and> set vs \<subseteq> set ws \<and> w = u @ concat vs"
proof (induction ws)
  case (Cons x ws)
  show ?case
  proof (cases x)
    case Nil
    then have "concat ws = c # w" using Cons.prems by simp
    from Cons.IH[OF this] obtain u vs where "c # u \<in> set ws" "set vs \<subseteq> set ws" "w = u @ concat vs" by blast
    then show ?thesis by (intro exI[of _ u] exI[of _ vs]) auto
  next
    case (Cons a u)
    then have "c # u \<in> set (x # ws)" "w = u @ concat ws" using Cons.prems by auto
    then show ?thesis by (intro exI[of _ u] exI[of _ ws]) auto
  qed
qed simp

lemma lang_star_Cons: "c # w \<in> lang_star A \<longleftrightarrow> w \<in> lang_seq {u. c # u \<in> A} (lang_star A)"
proof
  assume "c # w \<in> lang_star A"
  then obtain ws where ws: "concat ws = c # w" "set ws \<subseteq> A" by (auto simp: lang_star_def)
  then obtain u vs where "c # u \<in> A" "set vs \<subseteq> A" "w = u @ concat vs"
    using concat_Cons_split[OF ws(1)] by blast
  then show "w \<in> lang_seq {u. c # u \<in> A} (lang_star A)"
    unfolding lang_seq_def lang_star_def by blast
next
  assume "w \<in> lang_seq {u. c # u \<in> A} (lang_star A)"
  then obtain u ws where "c # u \<in> A" "set ws \<subseteq> A" "w = u @ concat ws"
    by (auto simp: lang_seq_def lang_star_def)
  then have "c # w = concat ((c # u) # ws)" "set ((c # u) # ws) \<subseteq> A" by auto
  then show "c # w \<in> lang_star A" unfolding lang_star_def by blast
qed

lemma deriv_lang: "w \<in> rx_lang (deriv c r) \<longleftrightarrow> c # w \<in> rx_lang r"
proof (induction r arbitrary: w)
  case (RxSeq r s)
  have "rx_lang (deriv c r) = {u. c # u \<in> rx_lang r}" using RxSeq.IH(1) by blast
  then show ?case using RxSeq.IH(2)
    by (simp add: mk_alt_lang mk_seq_lang nullable_lang lang_seq_Cons)
next
  case (RxStar r)
  have "rx_lang (deriv c r) = {u. c # u \<in> rx_lang r}" using RxStar.IH by blast
  then show ?case by (simp add: mk_seq_lang lang_star_Cons)
qed (auto simp: mk_alt_lang)

lemma rx_test_lang: "rx_test r s \<longleftrightarrow> s \<in> rx_lang r"
  by (induction s arbitrary: r) (simp_all add: nullable_lang deriv_lang)

lemma rx_prefix_lang: "rx_prefix r s \<longleftrightarrow> (\<exists>u v. s = u @ v \<and> u \<in> rx_lang r)"
proof (induction s arbitrary: r)
  case (Cons c s)
  have "(\<exists>u v. c # s = u @ v \<and> u \<in> rx_lang r) \<longleftrightarrow> [] \<in> rx_lang r \<or> (\<exists>u v. s = u @ v \<and> c # u \<in> rx_lang r)"
    by (auto simp: Cons_eq_append_conv)
  then show ?case using Cons by (simp add: nullable_lang deriv_lang)
qed (simp add: nullable_lang)

text \<open>Membership, one constructor at a time.\<close>

lemma lang_seq_iff [rx_mem]: "s \<in> lang_seq A B \<longleftrightarrow> (\<exists>u v. s = u @ v \<and> u \<in> A \<and> v \<in> B)"
  by (simp add: lang_seq_def)

lemma lang_seq_I: "u \<in> A \<Longrightarrow> v \<in> B \<Longrightarrow> u @ v \<in> lang_seq A B"
  by (auto simp: lang_seq_def)

lemma lang_seq_class: "s \<in> lang_seq {[c] | c. P c} B \<longleftrightarrow> s \<noteq> [] \<and> P (hd s) \<and> tl s \<in> B"
proof (cases s)
  case (Cons a l)
  show ?thesis unfolding Cons lang_seq_Cons by (auto simp: lang_seq_def)
qed (simp add: lang_seq_def)

lemma lang_star_class [rx_mem]: "s \<in> lang_star {[c] | c. P c} \<longleftrightarrow> (\<forall>c\<in>set s. P c)"
proof (induction s)
  case Nil
  show ?case by (auto simp: lang_star_def intro: exI[of _ "[]"])
next
  case (Cons c s)
  then show ?case by (simp add: lang_star_Cons) (auto simp: lang_seq_def)
qed

lemma lang_opt_iff [rx_mem]: "s \<in> rx_lang (rx_opt r) \<longleftrightarrow> s = [] \<or> s \<in> rx_lang r"
  by (auto simp: rx_opt_def)

lemma lang_plus_set [rx_mem]:
  "s \<in> rx_lang (rx_plus (RxSet cs)) \<longleftrightarrow> s \<noteq> [] \<and> (\<forall>c\<in>set s. in_class cs c)"
  by (cases s) (simp_all add: rx_plus_def lang_seq_class lang_star_class)

lemma lang_times_set [rx_mem]:
  "s \<in> rx_lang (rx_times n (RxSet cs)) \<longleftrightarrow> length s = n \<and> (\<forall>c\<in>set s. in_class cs c)"
proof (induction n arbitrary: s)
  case (Suc n)
  then show ?case by (cases s) (auto simp: lang_seq_class)
qed auto

lemma lang_upto_set [rx_mem]:
  "s \<in> rx_lang (rx_upto n (RxSet cs)) \<longleftrightarrow> length s \<le> n \<and> (\<forall>c\<in>set s. in_class cs c)"
proof (induction n arbitrary: s)
  case (Suc n)
  then show ?case by (cases s) (auto simp: lang_seq_class)
qed auto

lemma lang_text_iff [rx_mem]: "s \<in> rx_lang (rx_text t) \<longleftrightarrow> s = of_text t"
proof (induction t arbitrary: s)
  case (Cons c t)
  then show ?case by (cases s) (auto simp: lang_seq_class rx_char_def chars_of_def in_class_def of_text_def)
qed (simp add: of_text_def)

end
