(* ===== verification/JsStrings.thy ===== *)
theory JsStrings
  imports JsText
begin

text \<open>
  The string methods of JavaScript that search, split and compare: \<open>startsWith\<close>, \<open>indexOf\<close>,
  \<open>lastIndexOf\<close>, \<open>split\<close> on one character, \<open>join\<close> and \<open>trim\<close>. Positions are not negative, as in every
  call of the source.
\<close>

definition starts_with :: "jstr \<Rightarrow> jstr \<Rightarrow> int \<Rightarrow> bool" where
  "starts_with s t i = (take (length t) (drop (nat i) s) = t)"

fun find_sub :: "jstr \<Rightarrow> jstr \<Rightarrow> nat option" where
  "find_sub t [] = (if t = [] then Some 0 else None)"
| "find_sub t (c # s) = (if take (length t) (c # s) = t then Some 0 else map_option Suc (find_sub t s))"

definition index_of :: "jstr \<Rightarrow> jstr \<Rightarrow> int \<Rightarrow> int" where
  "index_of s t i = (case find_sub t (drop (nat i) s) of None \<Rightarrow> -1 | Some k \<Rightarrow> i + int k)"

text \<open>\<open>s.lastIndexOf(c, i)\<close> of one character, looking at positions up to \<open>i\<close>.\<close>

definition last_index_of :: "jstr \<Rightarrow> int \<Rightarrow> int \<Rightarrow> int" where
  "last_index_of s c i = (let t = take (nat (i + 1)) s in
    case find_sub [c] (rev t) of None \<Rightarrow> -1 | Some k \<Rightarrow> js_len t - 1 - int k)"

fun split_on :: "int \<Rightarrow> jstr \<Rightarrow> jstr list" where
  "split_on d [] = [[]]"
| "split_on d (c # s) = (if c = d then [] # split_on d s
    else case split_on d s of p # ps \<Rightarrow> (c # p) # ps | [] \<Rightarrow> [[c]])"

fun join_on :: "jstr \<Rightarrow> jstr list \<Rightarrow> jstr" where
  "join_on d [] = []"
| "join_on d [p] = p"
| "join_on d (p # ps) = p @ d @ join_on d ps"

text \<open>What \<open>trim\<close> removes: the white space and line terminators of ECMAScript.\<close>

definition js_space :: "int \<Rightarrow> bool" where
  "js_space c = (9 \<le> c \<and> c \<le> 13 \<or> c = 32 \<or> c = 160 \<or> c = 0x1680 \<or> 0x2000 \<le> c \<and> c \<le> 0x200a \<or>
    c = 0x2028 \<or> c = 0x2029 \<or> c = 0x202f \<or> c = 0x205f \<or> c = 0x3000 \<or> c = 0xfeff)"

definition js_trim :: "jstr \<Rightarrow> jstr" where
  "js_trim s = rev (dropWhile js_space (rev (dropWhile js_space s)))"

section \<open>Lemmas\<close>

lemma char_at_end [simp]: "char_at s (js_len s) = None"
  by (simp add: char_at_def)

lemma str_slice_mid: "str_slice (p @ m @ t) (js_len p) (js_len p + js_len m) = m"
  by (simp add: str_slice_def js_len_def nat_add_distrib)

lemma str_from_mid: "str_from (p @ t) (js_len p) = t"
  by (simp add: str_from_def js_len_def)

lemma char_at_mid: "char_at (p @ c # t) (js_len p) = Some c"
  by (simp add: char_at_append char_at_Cons)

lemma find_char_None: "find_sub [c] s = None \<longleftrightarrow> c \<notin> set s"
  by (induction s) auto

lemma find_char_append: "c \<notin> set u \<Longrightarrow> find_sub [c] (u @ c # v) = Some (length u)"
  by (induction u) auto

lemma find_char_split: "find_sub [c] s = Some k \<Longrightarrow> \<exists>v. s = take k s @ c # v \<and> c \<notin> set (take k s)"
  by (induction s arbitrary: k) (auto split: if_splits)

lemma find_char_less: "find_sub [c] s = Some k \<Longrightarrow> k < length s"
  by (induction s arbitrary: k) (auto split: if_splits)

lemma find_char_after: "find_sub [c] (u @ w) = Some k \<Longrightarrow> c \<notin> set u \<Longrightarrow> length u \<le> k"
  by (induction u arbitrary: k) auto

lemma index_of_none: "c \<notin> set (drop (nat i) s) \<Longrightarrow> index_of s [c] i = -1"
  by (simp add: index_of_def flip: find_char_None)

lemma index_of_hit: "c \<notin> set u \<Longrightarrow> index_of (p @ u @ c # v) [c] (js_len p) = js_len p + js_len u"
  by (simp add: index_of_def js_len_def find_char_append)

lemma last_index_of_none: "c \<notin> set (take (nat (i + 1)) s) \<Longrightarrow> last_index_of s c i = -1"
  by (simp add: last_index_of_def Let_def find_char_None[THEN iffD2])

lemma split_on_append: "d \<notin> set p \<Longrightarrow> split_on d (p @ d # s) = p # split_on d s"
  by (induction p) auto

lemma split_on_single: "d \<notin> set p \<Longrightarrow> split_on d p = [p]"
  by (induction p) auto

lemma split_on_join: "ps \<noteq> [] \<Longrightarrow> \<forall>p\<in>set ps. d \<notin> set p \<Longrightarrow> split_on d (join_on [d] ps) = ps"
proof (induction ps rule: induct_list012)
  case (3 p q ps)
  then show ?case by (simp add: split_on_append)
qed (auto simp: split_on_single)

lemma split_on_not_Nil [simp]: "split_on d s \<noteq> []"
  by (induction s) (auto split: list.splits)

lemma join_on_split: "join_on [d] (split_on d s) = s"
proof (induction s)
  case (Cons c s)
  obtain p ps where "split_on d s = p # ps" by (meson list.exhaust split_on_not_Nil)
  then show ?case using Cons by (cases ps) auto
qed simp

lemma split_on_free: "\<forall>p\<in>set (split_on d s). d \<notin> set p"
proof (induction s)
  case (Cons c s)
  obtain p ps where "split_on d s = p # ps" by (meson list.exhaust split_on_not_Nil)
  then show ?case using Cons by auto
qed simp

end
