(* ===== verification/Formats.thy ===== *)
theory Formats
  imports JsRegex JsStrings ISOTimestamp
begin

text \<open>
  \<open>schema/Formats.ts\<close>: the testers of the string formats. Every function is the scan of the
  source; the regular expressions are written with the constructors of \<open>JsRegex\<close>. \<open>isUri\<close> has a
  regular expression as a fast path in front of the full scan.
\<close>

section \<open>IP addresses\<close>

definition DIGITS :: "(int \<times> int) list" where
  "DIGITS = [(48, 57)]"

definition HEX_DIGITS :: "(int \<times> int) list" where
  "HEX_DIGITS = [(48, 57), (65, 70), (97, 102)]"

definition ALPHAS :: "(int \<times> int) list" where
  "ALPHAS = [(65, 90), (97, 122)]"

definition IPV4_OCTET :: regex where
  "IPV4_OCTET = RxAlt (RxSeq (rx_text ''25'') (RxSet [(48, 53)]))
    (RxAlt (RxSeq (rx_text ''2'') (RxSeq (RxSet [(48, 52)]) (RxSet DIGITS)))
    (RxAlt (RxSeq (rx_text ''1'') (RxSeq (RxSet DIGITS) (RxSet DIGITS)))
      (RxSeq (rx_opt (RxSet [(49, 57)])) (RxSet DIGITS))))"

definition IPV4 :: regex where
  "IPV4 = RxSeq (rx_times 3 (RxSeq IPV4_OCTET (rx_text ''.''))) IPV4_OCTET"

definition isIPv4 :: "jstr \<Rightarrow> bool" where
  "isIPv4 value = rx_test IPV4 value"

definition HEX_GROUP :: regex where
  "HEX_GROUP = rx_range 1 4 (RxSet HEX_DIGITS)"

definition hexGroups :: "jstr \<Rightarrow> int" where
  "hexGroups s = (if s = [] then 0
    else let parts = split_on 58 s in if list_all (rx_test HEX_GROUP) parts then js_len parts else -1)"

text \<open>After the embedded IPv4 address has been replaced, and the whole test.\<close>

definition ipv6_groups :: "jstr \<Rightarrow> bool" where
  "ipv6_groups s = (let gap = index_of s (of_text ''::'') 0 in
    if gap = -1 then hexGroups s = 8
    else if index_of s (of_text ''::'') (gap + 1) \<noteq> -1 then False
    else let left = hexGroups (str_slice s 0 gap); right = hexGroups (str_from s (gap + 2)) in
      left \<noteq> -1 \<and> right \<noteq> -1 \<and> left + right \<le> 7)"

definition isIPv6 :: "jstr \<Rightarrow> bool" where
  "isIPv6 value = (let lastColon = last_index_of value 58 (js_len value) in
    if lastColon = -1 then False
    else if index_of value (of_text ''.'') lastColon \<noteq> -1 then
      if \<not> rx_test IPV4 (str_from value (lastColon + 1)) then False
      else ipv6_groups (str_slice value 0 (lastColon + 1) @ of_text ''0:0'')
    else ipv6_groups value)"

section \<open>Character classes\<close>

definition UNRESERVED :: int where "UNRESERVED = 1"
definition SUB_DELIM :: int where "SUB_DELIM = 2"
definition COLON :: int where "COLON = 4"
definition AT :: int where "AT = 8"
definition SLASH :: int where "SLASH = 16"
definition QUESTION :: int where "QUESTION = 32"
definition HEX :: int where "HEX = 64"
definition DIGIT :: int where "DIGIT = 128"
definition ALNUM :: int where "ALNUM = 256"
definition ATEXT :: int where "ATEXT = 512"
definition QTEXT :: int where "QTEXT = 1024"
definition SCHEME_TAIL :: int where "SCHEME_TAIL = 2048"

definition class_set :: "jstr \<Rightarrow> int \<Rightarrow> int list \<Rightarrow> int list" where
  "class_set chars flag t = foldl (\<lambda>t c. t[nat c := js_or (t ! nat c) flag]) t chars"

definition alnum_text :: jstr where
  "alnum_text = of_text ''abcdefghijklmnopqrstuvwxyzABCDEFGHIJKLMNOPQRSTUVWXYZ0123456789''"

definition CLASS :: "int list" where
  "CLASS = (let
    t = class_set (alnum_text @ of_text ''-._~'') UNRESERVED (replicate 128 0);
    t = class_set ([33, 36, 38, 39] @ of_text ''()*+,;='') SUB_DELIM t;
    t = class_set (of_text '':'') COLON t;
    t = class_set [64] AT t;
    t = class_set (of_text ''/'') SLASH t;
    t = class_set (of_text ''?'') QUESTION t;
    t = class_set (of_text ''0123456789abcdefABCDEF'') HEX t;
    t = class_set (of_text ''0123456789'') DIGIT t;
    t = class_set alnum_text ALNUM t;
    t = class_set (alnum_text @ [33, 35, 36, 37, 38, 39, 42, 43, 47, 61, 63, 94, 95, 96, 123, 124, 125, 126, 45]) ATEXT t;
    t = foldl (\<lambda>t c. if c \<noteq> 34 \<and> c \<noteq> 92 then t[nat c := js_or (t ! nat c) QTEXT] else t) t [32..126]
    in class_set (alnum_text @ of_text ''+-.'') SCHEME_TAIL t)"

text \<open>\<open>is\<close>: the code \<^term>\<open>None\<close> is \<open>NaN\<close>, past the end of the string.\<close>

fun is_class :: "int option \<Rightarrow> int \<Rightarrow> bool" where
  "is_class None m = False"
| "is_class (Some c) m = (c < 128 \<and> js_and (CLASS ! nat c) m \<noteq> 0)"

section \<open>E-mail addresses\<close>

text \<open>The loops of \<open>quotedEnd\<close>, \<open>dotAtomEnd\<close> and \<open>isDomainFrom\<close>, from position \<open>i\<close>.\<close>

function quotedEnd_loop :: "jstr \<Rightarrow> int \<Rightarrow> int" where
  "quotedEnd_loop s i = (if i < js_len s then
      if char_at s i = Some 34 then i + 1
      else if char_at s i = Some 92 then
        (case char_at s (i + 1) of None \<Rightarrow> -1
         | Some n \<Rightarrow> if 32 \<le> n \<and> n < 127 then quotedEnd_loop s (i + 2) else -1)
      else if is_class (char_at s i) QTEXT then quotedEnd_loop s (i + 1) else -1
    else -1)"
  by pat_completeness auto
termination by (relation "measure (\<lambda>(s, i). nat (js_len s - i))") auto

definition quotedEnd :: "jstr \<Rightarrow> int" where
  "quotedEnd s = quotedEnd_loop s 1"

function dotAtomEnd_loop :: "jstr \<Rightarrow> int \<Rightarrow> int \<Rightarrow> int" where
  "dotAtomEnd_loop s i run = (if i < js_len s then
      if is_class (char_at s i) ATEXT then dotAtomEnd_loop s (i + 1) (run + 1)
      else if char_at s i = Some 46 \<and> run > 0 then dotAtomEnd_loop s (i + 1) 0
      else if run > 0 then i else -1
    else -1)"
  by pat_completeness auto
termination by (relation "measure (\<lambda>(s, i, run). nat (js_len s - i))") auto

definition dotAtomEnd :: "jstr \<Rightarrow> int" where
  "dotAtomEnd s = dotAtomEnd_loop s 0 0"

function isDomainFrom_loop :: "jstr \<Rightarrow> int \<Rightarrow> int \<Rightarrow> bool" where
  "isDomainFrom_loop s labelStart i = (if i \<le> js_len s then
      let c = if i = js_len s then Some 46 else char_at s i in
      if c = Some 46 then
        let n = i - labelStart in
        if n = 0 \<or> n > 63 \<or> \<not> is_class (char_at s (i - 1)) ALNUM then False
        else if \<not> is_class (char_at s labelStart) ALNUM then False
        else isDomainFrom_loop s (i + 1) (i + 1)
      else if \<not> is_class c ALNUM \<and> c \<noteq> Some 45 then False
      else isDomainFrom_loop s labelStart (i + 1)
    else True)"
  by pat_completeness auto
termination by (relation "measure (\<lambda>(s, l, i). nat (js_len s + 1 - i))") (auto simp: Let_def)

declare quotedEnd_loop.simps [simp del] dotAtomEnd_loop.simps [simp del] isDomainFrom_loop.simps [simp del]

definition isDomainFrom :: "jstr \<Rightarrow> int \<Rightarrow> bool" where
  "isDomainFrom s start = (if start \<ge> js_len s \<or> js_len s - start > 253 then False
    else isDomainFrom_loop s start start)"

text \<open>\<open>/^IPv6:/i\<close>\<close>

definition IPV6_TAG :: regex where
  "IPV6_TAG = RxSeq (rx_char ''Ii'') (RxSeq (rx_char ''Pp'') (RxSeq (rx_char ''Vv'')
    (RxSeq (rx_char ''6'') (rx_char '':''))))"

definition isEmail :: "jstr \<Rightarrow> bool" where
  "isEmail value = (let e = if char_at value 0 = Some 34 then quotedEnd value else dotAtomEnd value in
    if e = -1 \<or> e > 64 \<or> char_at value e \<noteq> Some 64 then False
    else let start = e + 1 in
      if char_at value start = Some 91 then
        if char_at value (js_len value - 1) \<noteq> Some 93 then False
        else let lit = str_slice value (start + 1) (js_len value - 1) in
          if rx_prefix IPV6_TAG lit then isIPv6 (str_from lit 5) else isIPv4 lit
      else isDomainFrom value start)"

section \<open>URIs\<close>

definition PCHAR :: int where
  "PCHAR = js_or (js_or (js_or UNRESERVED SUB_DELIM) COLON) AT"

text \<open>The unreserved and sub-delim characters, as the expressions of the source list them.\<close>

definition UNRESERVED_SUB :: "(int \<times> int) list" where
  "UNRESERVED_SUB = ALPHAS @ DIGITS @ chars_of ''-._~!$'' @ [(38, 38), (39, 39)] @ chars_of ''()*+,;=''"

definition IPV_FUTURE :: regex where
  "IPV_FUTURE = RxSeq (rx_char ''vV'') (RxSeq (rx_plus (RxSet HEX_DIGITS)) (RxSeq (rx_text ''.'')
    (rx_plus (RxSet (UNRESERVED_SUB @ chars_of '':'')))))"

definition isHex :: "jstr \<Rightarrow> int \<Rightarrow> bool" where
  "isHex s i = is_class (char_at s i) HEX"

function uri_scan :: "jstr \<Rightarrow> int \<Rightarrow> int \<Rightarrow> int \<Rightarrow> bool" where
  "uri_scan s i stop m = (if i < stop then
      if char_at s i = Some 37 then
        if i + 2 \<ge> stop \<or> \<not> isHex s (i + 1) \<or> \<not> isHex s (i + 2) then False
        else uri_scan s (i + 3) stop m
      else if \<not> is_class (char_at s i) m then False
      else uri_scan s (i + 1) stop m
    else True)"
  by pat_completeness auto
termination by (relation "measure (\<lambda>(s, i, stop, m). nat (stop - i))") auto

function port_digits :: "jstr \<Rightarrow> int \<Rightarrow> int \<Rightarrow> bool" where
  "port_digits s i stop = (if i < stop then
    if \<not> is_class (char_at s i) DIGIT then False else port_digits s (i + 1) stop else True)"
  by pat_completeness auto
termination by (relation "measure (\<lambda>(s, i, stop). nat (stop - i))") auto

function schemeEnd_loop :: "jstr \<Rightarrow> int \<Rightarrow> int" where
  "schemeEnd_loop s i = (if i < js_len s then
      if char_at s i = Some 58 then i
      else if \<not> is_class (char_at s i) SCHEME_TAIL then -1
      else schemeEnd_loop s (i + 1)
    else -1)"
  by pat_completeness auto
termination by (relation "measure (\<lambda>(s, i). nat (js_len s - i))") auto

declare uri_scan.simps [simp del] port_digits.simps [simp del] schemeEnd_loop.simps [simp del]

text \<open>The host of an authority: the position where it ends, or \<^term>\<open>None\<close> for \<open>return false\<close>.\<close>

definition host_end :: "jstr \<Rightarrow> int \<Rightarrow> int \<Rightarrow> int option" where
  "host_end s hostStart stop = (if char_at s hostStart = Some 91 then
      let close = index_of s [93] hostStart in
      if close = -1 \<or> close \<ge> stop then None
      else let lit = str_slice s (hostStart + 1) close in
        if \<not> isIPv6 lit \<and> \<not> rx_test IPV_FUTURE lit then None
        else let hostEnd = close + 1 in
          if hostEnd \<noteq> stop \<and> char_at s hostEnd \<noteq> Some 58 then None else Some hostEnd
    else
      let colon = index_of s [58] hostStart;
        hostEnd = (if colon = -1 \<or> colon \<ge> stop then stop else colon) in
      if \<not> uri_scan s hostStart hostEnd (js_or UNRESERVED SUB_DELIM) then None else Some hostEnd)"

definition isAuthority :: "jstr \<Rightarrow> int \<Rightarrow> int \<Rightarrow> bool" where
  "isAuthority s start stop = (let at = last_index_of s 64 (stop - 1) in
    if at \<ge> start \<and> \<not> uri_scan s start at (js_or (js_or UNRESERVED SUB_DELIM) COLON) then False
    else case host_end s (if at \<ge> start then at + 1 else start) stop of
        None \<Rightarrow> False
      | Some hostEnd \<Rightarrow> port_digits s (hostEnd + 1) stop)"

definition schemeEnd :: "jstr \<Rightarrow> int" where
  "schemeEnd s = (let c0 = char_at s 0 in
    if \<not> is_class c0 ALNUM \<or> is_class c0 DIGIT then -1 else schemeEnd_loop s 1)"

definition isUriScan :: "jstr \<Rightarrow> bool" where
  "isUriScan value = (let colon = schemeEnd value in
    if colon = -1 then False
    else let len = js_len value; hash = index_of value (of_text ''#'') 0;
        stop = (if hash = -1 then len else hash) in
      if hash \<noteq> -1 \<and> \<not> uri_scan value (hash + 1) len (js_or (js_or PCHAR SLASH) QUESTION) then False
      else let q = index_of value (of_text ''?'') 0; pathEnd = (if q = -1 \<or> q > stop then stop else q) in
        if pathEnd \<noteq> stop \<and> \<not> uri_scan value (pathEnd + 1) stop (js_or (js_or PCHAR SLASH) QUESTION) then False
        else let pathStart = colon + 1 in
          if starts_with value (of_text ''//'') pathStart then
            let authStart = pathStart + 2; slash = index_of value (of_text ''/'') authStart;
              authEnd = (if slash = -1 \<or> slash > pathEnd then pathEnd else slash) in
            isAuthority value authStart authEnd \<and> uri_scan value authEnd pathEnd (js_or PCHAR SLASH)
          else uri_scan value pathStart pathEnd (js_or PCHAR SLASH))"

definition URI_COMMON :: regex where
  "URI_COMMON = RxSeq (RxSet ALPHAS) (RxSeq (RxStar (RxSet (ALPHAS @ DIGITS @ chars_of ''+.-'')))
    (RxSeq (rx_text ''://'') (RxSeq (RxStar (RxSet UNRESERVED_SUB))
    (RxSeq (rx_opt (RxSeq (rx_text '':'') (RxStar (RxSet DIGITS))))
    (RxSeq (rx_opt (RxSeq (rx_text ''/'') (RxStar (RxSet (UNRESERVED_SUB @ chars_of '':@/'')))))
    (RxSeq (rx_opt (RxSeq (rx_text ''?'') (RxStar (RxSet (UNRESERVED_SUB @ chars_of '':@/?'')))))
      (rx_opt (RxSeq (rx_text ''#'') (RxStar (RxSet (UNRESERVED_SUB @ chars_of '':@/?''))))))))))) "

definition isUri :: "jstr \<Rightarrow> bool" where
  "isUri value = (rx_test URI_COMMON value \<or> isUriScan value)"

section \<open>UUIDs, legacy dates and the table\<close>

text \<open>The expression \<open>UUID\<close> has the flag \<open>i\<close>, so its letters match in both cases.\<close>

definition UUID :: regex where
  "UUID = RxSeq (rx_times 8 (RxSet HEX_DIGITS)) (RxSeq (rx_text ''-'')
    (RxSeq (rx_times 4 (RxSet HEX_DIGITS)) (RxSeq (rx_text ''-'')
    (RxSeq (rx_times 4 (RxSet HEX_DIGITS)) (RxSeq (rx_text ''-'')
    (RxSeq (rx_times 4 (RxSet HEX_DIGITS)) (RxSeq (rx_text ''-'') (rx_times 12 (RxSet HEX_DIGITS)))))))))"

definition isUuid :: "jstr \<Rightarrow> bool" where
  "isUuid value = rx_test UUID value"

definition ISO_DATETIME_PREFIX :: regex where
  "ISO_DATETIME_PREFIX = RxSeq (rx_times 4 (RxSet DIGITS)) (RxSeq (rx_text ''-'')
    (RxSeq (rx_times 2 (RxSet DIGITS)) (RxSeq (rx_text ''-'') (RxSeq (rx_times 2 (RxSet DIGITS))
    (RxSeq (rx_text ''T'') (RxSeq (rx_times 2 (RxSet DIGITS)) (RxSeq (rx_text '':'')
    (RxSeq (rx_times 2 (RxSet DIGITS)) (RxSeq (rx_text '':'') (rx_times 2 (RxSet DIGITS)))))))))))"

definition FORMATS :: "(string \<times> (jstr \<Rightarrow> bool)) list" where
  "FORMATS = [(''date-time'', isRfc3339DateTime), (''date'', isISODate), (''time'', isRfc3339Time),
    (''email'', isEmail), (''uri'', isUri), (''uuid'', isUuid), (''ipv4'', isIPv4), (''ipv6'', isIPv6),
    (''iso-datetime'', rx_prefix ISO_DATETIME_PREFIX)]"

definition KNOWN_FORMATS :: "string list" where
  "KNOWN_FORMATS = map fst FORMATS"

definition isKnownFormat :: "string \<Rightarrow> bool" where
  "isKnownFormat name = (name \<in> set (map fst FORMATS))"

definition formatTester :: "string \<Rightarrow> (jstr \<Rightarrow> bool) option" where
  "formatTester name = (if isKnownFormat name then map_of FORMATS name else None)"

section \<open>The character classes\<close>

lemma CLASS_table: "CLASS = [
    0, 0, 0, 0, 0, 0, 0, 0, 0, 0, 0, 0, 0, 0, 0, 0, 0, 0, 0, 0, 0, 0, 0, 0, 0, 0, 0, 0, 0,
    0, 0, 0, 1024, 1538, 0, 1536, 1538, 1536, 1538, 1538, 1026, 1026, 1538, 3586, 1026,
    3585, 3073, 1552, 4033, 4033, 4033, 4033, 4033, 4033, 4033, 4033, 4033, 4033, 1028,
    1026, 1024, 1538, 1024, 1568, 1032, 3905, 3905, 3905, 3905, 3905, 3905, 3841, 3841,
    3841, 3841, 3841, 3841, 3841, 3841, 3841, 3841, 3841, 3841, 3841, 3841, 3841, 3841,
    3841, 3841, 3841, 3841, 1024, 0, 1024, 1536, 1537, 1536, 3905, 3905, 3905, 3905, 3905,
    3905, 3841, 3841, 3841, 3841, 3841, 3841, 3841, 3841, 3841, 3841, 3841, 3841, 3841,
    3841, 3841, 3841, 3841, 3841, 3841, 3841, 1536, 1536, 1536, 1537, 0]"
  by code_simp

lemma class_mask:
  assumes "list_all (\<lambda>(c, t). in_class rs c \<longrightarrow> js_and t m \<noteq> 0) (zip [0..127] CLASS)"
    and "list_all (\<lambda>(a, b). 0 \<le> a \<and> b < 128) rs" and "in_class rs c"
  shows "is_class (Some c) m"
proof -
  have c: "0 \<le> c" "c < 128" using assms(2,3) by (auto simp: in_class_def list_ex_iff list_all_iff)
  have "length CLASS = 128" by (simp add: CLASS_table)
  then have "\<forall>n<128. in_class rs (int n) \<longrightarrow> js_and (CLASS ! n) m \<noteq> 0"
    using assms(1) by (simp add: list_all_length)
  from this[rule_format, of "nat c"] show ?thesis using c assms(3) by simp
qed

lemma class_alpha: "in_class ALPHAS c \<Longrightarrow> is_class (Some c) ALNUM"
  by (erule class_mask[rotated 2]) (unfold CLASS_table, code_simp+)

lemma class_not_digit: "in_class ALPHAS c \<Longrightarrow> \<not> is_class (Some c) DIGIT"
proof
  assume a: "in_class ALPHAS c" "is_class (Some c) DIGIT"
  have "list_all (\<lambda>(c, t). js_and t DIGIT \<noteq> 0 \<longrightarrow> \<not> in_class ALPHAS c) (zip [0..127] CLASS)"
    unfolding CLASS_table by code_simp
  moreover have "length CLASS = 128" by (simp add: CLASS_table)
  ultimately have "\<forall>n<128. js_and (CLASS ! n) DIGIT \<noteq> 0 \<longrightarrow> \<not> in_class ALPHAS (int n)"
    by (simp add: list_all_length)
  moreover have "0 \<le> c" "c < 128" using a(1) by (auto simp: in_class_def ALPHAS_def)
  ultimately show False using a by (auto dest: spec[of _ "nat c"])
qed

lemma class_tail: "in_class (ALPHAS @ DIGITS @ chars_of ''+.-'') c \<Longrightarrow> is_class (Some c) SCHEME_TAIL"
  by (erule class_mask[rotated 2]) (unfold CLASS_table, code_simp+)

lemma class_host: "in_class UNRESERVED_SUB c \<Longrightarrow> is_class (Some c) (js_or UNRESERVED SUB_DELIM)"
  by (erule class_mask[rotated 2]) (unfold CLASS_table, code_simp+)

lemma class_port: "in_class DIGITS c \<Longrightarrow> is_class (Some c) DIGIT"
  by (erule class_mask[rotated 2]) (unfold CLASS_table, code_simp+)

lemma class_path: "in_class (UNRESERVED_SUB @ chars_of '':@/'') c \<Longrightarrow> is_class (Some c) (js_or PCHAR SLASH)"
  by (erule class_mask[rotated 2]) (unfold CLASS_table, code_simp+)

lemma class_query: "in_class (UNRESERVED_SUB @ chars_of '':@/?'') c \<Longrightarrow>
    is_class (Some c) (js_or (js_or PCHAR SLASH) QUESTION)"
  by (erule class_mask[rotated 2]) (unfold CLASS_table, code_simp+)

section \<open>The fast path of \<open>isUri\<close>\<close>

text \<open>A delimiter search that falls back to the end of the part.\<close>

lemma index_cut:
  assumes "c \<notin> set u" "v = [] \<or> hd v = c" "stop = js_len p + js_len u + js_len v"
  shows "index_of (p @ u @ v @ w) [c] (js_len p) = -1 \<and> v = [] \<or>
    js_len p + js_len u \<le> index_of (p @ u @ v @ w) [c] (js_len p) \<and>
    (v \<noteq> [] \<longrightarrow> index_of (p @ u @ v @ w) [c] (js_len p) = js_len p + js_len u)"
proof (cases v)
  case (Cons a v')
  then show ?thesis using assms index_of_hit[of c u p "v' @ w"] by auto
next
  case Nil
  have "find_sub [c] (u @ w) = Some k \<Longrightarrow> length u \<le> k" for k
    using find_char_after[of c u w k] assms(1) by blast
  then show ?thesis using Nil by (auto simp: index_of_def js_len_def split: option.splits)
qed

lemma scan_part:
  "\<forall>c\<in>set u. is_class (Some c) m \<and> c \<noteq> 37 \<Longrightarrow> uri_scan (p @ u @ v) (js_len p) (js_len p + js_len u) m"
proof (induction u arbitrary: p)
  case Nil
  show ?case by (simp add: uri_scan.simps)
next
  case (Cons c u)
  have "char_at (p @ (c # u) @ v) (js_len p) = Some c" by (simp add: char_at_append char_at_Cons)
  then show ?case using Cons.prems Cons.IH[of "p @ [c]"]
    by (subst uri_scan.simps) (simp add: add.assoc)
qed

lemma port_part:
  "\<forall>c\<in>set u. is_class (Some c) DIGIT \<Longrightarrow> port_digits (p @ u @ v) (js_len p) (js_len p + js_len u)"
proof (induction u arbitrary: p)
  case Nil
  show ?case by (simp add: port_digits.simps)
next
  case (Cons c u)
  have "char_at (p @ (c # u) @ v) (js_len p) = Some c" by (simp add: char_at_append char_at_Cons)
  then show ?case using Cons.prems Cons.IH[of "p @ [c]"]
    by (subst port_digits.simps) (simp add: add.assoc)
qed

lemma scheme_part:
  "\<forall>c\<in>set u. is_class (Some c) SCHEME_TAIL \<and> c \<noteq> 58 \<Longrightarrow>
    schemeEnd_loop (p @ u @ 58 # v) (js_len p) = js_len p + js_len u"
proof (induction u arbitrary: p)
  case Nil
  have "js_len p < js_len (p @ [] @ 58 # v)" by (simp add: js_len_def)
  then show ?case by (subst schemeEnd_loop.simps) (simp add: char_at_append char_at_Cons)
next
  case (Cons c u)
  have "char_at (p @ (c # u) @ 58 # v) (js_len p) = Some c" by (simp add: char_at_append char_at_Cons)
  moreover have "js_len p < js_len (p @ (c # u) @ 58 # v)" by (simp add: js_len_def)
  ultimately show ?case using Cons.prems Cons.IH[of "p @ [c]"]
    by (subst schemeEnd_loop.simps) (simp add: add.assoc del: is_class.simps)
qed

lemma last_index_before:
  assumes "c \<notin> set u"
  shows "last_index_of (p @ u @ v) c (js_len p + js_len u - 1) < js_len p"
proof -
  have t: "take (nat (js_len p + js_len u)) (p @ u @ v) = p @ u" by (simp add: js_len_def nat_add_distrib)
  have "find_sub [c] (rev u @ rev p) = Some k \<Longrightarrow> length u \<le> k" for k
    using find_char_after[of c "rev u" "rev p" k] assms by simp
  then show ?thesis by (auto simp: last_index_of_def Let_def t js_len_def split: option.splits)
qed

text \<open>What the fast path accepts: a scheme, a host, and the optional port, path, query and fragment.\<close>

definition part_of :: "int \<Rightarrow> (int \<times> int) list \<Rightarrow> jstr \<Rightarrow> bool" where
  "part_of d rs v = (v = [] \<or> (\<exists>x. v = d # x \<and> (\<forall>c\<in>set x. in_class rs c)))"

lemma URI_COMMON_parts:
  assumes "rx_test URI_COMMON s"
  obtains (parts) a t h P A Q F where "s = ([a] @ t @ [58, 47, 47]) @ h @ P @ A @ Q @ F"
    and "in_class ALPHAS a" "\<forall>c\<in>set t. in_class (ALPHAS @ DIGITS @ chars_of ''+.-'') c"
    and "\<forall>c\<in>set h. in_class UNRESERVED_SUB c" "part_of 58 DIGITS P"
    and "part_of 47 (UNRESERVED_SUB @ chars_of '':@/'') A"
    and "part_of 63 (UNRESERVED_SUB @ chars_of '':@/?'') Q" "part_of 35 (UNRESERVED_SUB @ chars_of '':@/?'') F"
proof -
  have part: "v \<in> rx_lang (rx_opt (RxSeq (rx_text [ch]) (RxStar (RxSet rs)))) \<Longrightarrow> part_of (of_char ch) rs v" for v ch rs
    unfolding lang_opt_iff rx_lang.simps lang_seq_iff lang_star_class lang_text_iff
    by (auto simp: part_of_def of_text_def)
  have sep: "of_text ''://'' = [58, 47, 47]" by code_simp
  have "s \<in> rx_lang URI_COMMON" using assms by (simp add: rx_test_lang)
  then show ?thesis
    unfolding URI_COMMON_def rx_lang.simps(4) lang_seq_iff
    apply (elim exE conjE)
    subgoal for u v u1 v1 u2 v2 u3 v3 u4 v4 u5 v5 u6 v6
      using parts[of "hd u" u1 u3 u4 u5 u6 v6] part[of u4 "CHR '':''"] part[of u5 "CHR ''/''"]
        part[of u6 "CHR ''?''"] part[of v6 "CHR ''#''"] sep
      by (auto simp: lang_star_class lang_text_iff simp del: rx_text.simps)
    done
qed

lemma cut_eq:
  assumes "c \<notin> set u" "v = [] \<or> hd v = c" "stop = js_len p + js_len u + js_len v" "s = p @ u @ v @ w"
  shows "(if index_of s [c] (js_len p) = -1 \<or> stop < index_of s [c] (js_len p) then stop
      else index_of s [c] (js_len p)) = js_len p + js_len u"
    and "(if index_of s [c] (js_len p) = -1 \<or> stop \<le> index_of s [c] (js_len p) then stop
      else index_of s [c] (js_len p)) = js_len p + js_len u"
proof -
  have "js_len p + js_len u \<noteq> -1" "0 < js_len v \<or> v = []" by (cases v) (auto simp: js_len_def)
  then show "(if index_of s [c] (js_len p) = -1 \<or> stop < index_of s [c] (js_len p) then stop
      else index_of s [c] (js_len p)) = js_len p + js_len u"
    "(if index_of s [c] (js_len p) = -1 \<or> stop \<le> index_of s [c] (js_len p) then stop
      else index_of s [c] (js_len p)) = js_len p + js_len u"
    using index_cut[OF assms(1-3), of w] assms(3)
    unfolding assms(4) by auto
qed

lemma part_hd: "part_of d rs v \<Longrightarrow> v = [] \<or> hd v = d"
  by (auto simp: part_of_def)

lemma part_free: "part_of d rs v \<Longrightarrow> c \<noteq> d \<Longrightarrow> \<not> in_class rs c \<Longrightarrow> c \<notin> set v"
  by (auto simp: part_of_def)

text \<open>The part between two positions is scanned past its delimiter.\<close>

lemma part_scan:
  assumes "part_of d rs v" "\<And>c. in_class rs c \<Longrightarrow> is_class (Some c) m" "\<not> in_class rs 37" "s = p @ v @ w" "v \<noteq> []"
  shows "uri_scan s (js_len p + 1) (js_len p + js_len v) m"
proof -
  obtain x where x: "v = d # x" "\<forall>c\<in>set x. in_class rs c" using assms(1,5) by (auto simp: part_of_def)
  then have "\<forall>c\<in>set x. is_class (Some c) m \<and> c \<noteq> 37" using assms(2,3) by metis
  from scan_part[OF this, of "p @ [d]" w] show ?thesis by (simp add: x(1) assms(4) add.assoc)
qed

lemma starts_with_part: "starts_with (p @ t @ v) t (js_len p)"
  by (simp add: starts_with_def js_len_def)

text \<open>Which delimiters the classes leave out.\<close>

lemma classes_free:
  "\<not> in_class UNRESERVED_SUB 35" "\<not> in_class UNRESERVED_SUB 37" "\<not> in_class UNRESERVED_SUB 47"
  "\<not> in_class UNRESERVED_SUB 58" "\<not> in_class UNRESERVED_SUB 63" "\<not> in_class UNRESERVED_SUB 64"
  "\<not> in_class UNRESERVED_SUB 91" "\<not> in_class DIGITS 35" "\<not> in_class DIGITS 63" "\<not> in_class DIGITS 47"
  "\<not> in_class DIGITS 64" "\<not> in_class (UNRESERVED_SUB @ chars_of '':@/'') 35"
  "\<not> in_class (UNRESERVED_SUB @ chars_of '':@/'') 63" "\<not> in_class (UNRESERVED_SUB @ chars_of '':@/'') 37"
  "\<not> in_class (UNRESERVED_SUB @ chars_of '':@/?'') 35" "\<not> in_class (UNRESERVED_SUB @ chars_of '':@/?'') 37"
  "\<not> in_class (ALPHAS @ DIGITS @ chars_of ''+.-'') 58" "\<not> in_class (ALPHAS @ DIGITS @ chars_of ''+.-'') 35"
  "\<not> in_class (ALPHAS @ DIGITS @ chars_of ''+.-'') 63" "\<not> in_class ALPHAS 35" "\<not> in_class ALPHAS 63"
  by code_simp+

lemma authority_parts:
  assumes s: "s = pre @ h @ P @ v" and h: "\<forall>c\<in>set h. in_class UNRESERVED_SUB c" and P: "part_of 58 DIGITS P"
    and v: "v = [] \<or> hd v \<noteq> 91"
  shows "isAuthority s (js_len pre) (js_len pre + js_len h + js_len P)"
proof -
  have free: "64 \<notin> set (h @ P)" "58 \<notin> set h" "91 \<notin> set h"
    using h part_free[OF P, of 64] by (auto simp: classes_free)
  have "last_index_of s 64 (js_len pre + js_len h + js_len P - 1) < js_len pre"
    using last_index_before[OF free(1), of pre v] by (simp add: s add.assoc)
  then have below: "\<not> js_len pre \<le> last_index_of s 64 (js_len pre + js_len h + js_len P - 1)" by simp
  have "hd P \<noteq> 91 \<or> P = []" using part_hd[OF P] by auto
  then have open_: "char_at s (js_len pre) \<noteq> Some 91"
    using free(3) v by (cases h; cases P; cases v) (auto simp: s char_at_append char_at_Cons)
  have "\<forall>c\<in>set h. is_class (Some c) (js_or UNRESERVED SUB_DELIM) \<and> c \<noteq> 37"
    using h class_host classes_free(2) by metis
  then have host: "uri_scan s (js_len pre) (js_len pre + js_len h) (js_or UNRESERVED SUB_DELIM)"
    unfolding s by (rule scan_part)
  have port: "port_digits s (js_len pre + js_len h + 1) (js_len pre + js_len h + js_len P)"
  proof (cases "P = []")
    case True
    then show ?thesis by (simp add: port_digits.simps)
  next
    case False
    then obtain x where x: "P = 58 # x" "\<forall>c\<in>set x. in_class DIGITS c" using P by (auto simp: part_of_def)
    then have "\<forall>c\<in>set x. is_class (Some c) DIGIT" using class_port by blast
    from port_part[OF this, of "pre @ h @ [58]" v] show ?thesis by (simp add: s x(1) add.assoc)
  qed
  note cut = cut_eq(2)[OF free(2) part_hd[OF P] refl s]
  show ?thesis using below open_ host port cut by (simp add: isAuthority_def host_end_def Let_def)
qed


lemma URI_COMMON_scan:
  assumes "rx_test URI_COMMON s"
  shows "isUriScan s"
  using assms
proof (cases rule: URI_COMMON_parts)
  case (parts a t h P A Q F)
  define pre where "pre = [a] @ t @ [58, 47, 47]"
  define Z where "Z = pre @ h @ P @ A @ Q"
  define Y where "Y = pre @ h @ P @ A"
  define X where "X = pre @ h @ P"
  have s: "s = pre @ h @ P @ A @ Q @ F" using parts(1) by (simp add: pre_def)
  note cl = classes_free
  have pre_free: "35 \<notin> set pre" "63 \<notin> set pre" using parts(2,3) cl by (auto simp: pre_def)
  have h_free: "35 \<notin> set h" "63 \<notin> set h" "47 \<notin> set h" using parts(4) cl by auto
  note P_free = part_free[OF parts(5), of 35] part_free[OF parts(5), of 63] part_free[OF parts(5), of 47]
  note A_free = part_free[OF parts(6), of 35] part_free[OF parts(6), of 63]
  have Q_free: "35 \<notin> set Q" using part_free[OF parts(7), of 35] cl by simp
  have free: "35 \<notin> set Z" "63 \<notin> set Y" "47 \<notin> set (h @ P)"
    using pre_free h_free P_free A_free Q_free cl by (auto simp: Z_def Y_def)
  have colon: "schemeEnd s = js_len t + 1"
  proof -
    have "\<forall>c\<in>set t. is_class (Some c) SCHEME_TAIL \<and> c \<noteq> 58" using parts(3) class_tail cl(17) by metis
    from scheme_part[OF this, of "[a]" "[47, 47] @ h @ P @ A @ Q @ F"]
    have "schemeEnd_loop s 1 = 1 + js_len t" by (simp add: parts(1))
    moreover have "char_at s 0 = Some a" by (simp add: parts(1) char_at_Cons)
    ultimately show ?thesis
      using class_alpha[OF parts(2)] class_not_digit[OF parts(2)] by (simp add: schemeEnd_def Let_def)
  qed
  have hash: "(if index_of s [35] 0 = -1 then js_len s else index_of s [35] 0) = js_len Z"
    "index_of s [35] 0 \<noteq> -1 \<Longrightarrow> index_of s [35] 0 = js_len Z \<and> F \<noteq> []"
  proof -
    have sZ: "s = Z @ F" by (simp add: s Z_def)
    have "F = [] \<Longrightarrow> index_of s [35] 0 = -1" using free(1) sZ by (simp add: index_of_none)
    moreover have "F \<noteq> [] \<Longrightarrow> index_of s [35] 0 = js_len Z"
      using index_cut[OF free(1) part_hd[OF parts(8)] refl, of "[]" "[]"] by (auto simp: sZ)
    moreover have "js_len Z \<noteq> -1" by (simp add: js_len_def)
    ultimately show "(if index_of s [35] 0 = -1 then js_len s else index_of s [35] 0) = js_len Z"
      "index_of s [35] 0 \<noteq> -1 \<Longrightarrow> index_of s [35] 0 = js_len Z \<and> F \<noteq> []"
      by (cases "F = []"; simp add: sZ)+
  qed
  have fragment: "index_of s [35] 0 \<noteq> -1 \<Longrightarrow>
      uri_scan s (index_of s [35] 0 + 1) (js_len s) (js_or (js_or PCHAR SLASH) QUESTION)"
    using hash(2) part_scan[OF parts(8) class_query cl(16), of s Z "[]"] by (simp add: s Z_def add.assoc)
  have q: "(if index_of s [63] 0 = -1 \<or> js_len Z < index_of s [63] 0 then js_len Z else index_of s [63] 0) = js_len Y"
  proof -
    have "js_len Z = js_len [] + js_len Y + js_len Q" "s = [] @ Y @ Q @ F" by (simp_all add: s Y_def Z_def)
    from cut_eq(1)[OF free(2) part_hd[OF parts(7)] this, unfolded js_len_simps(1)] show ?thesis by simp
  qed
  have query: "js_len Y \<noteq> js_len Z \<Longrightarrow> uri_scan s (js_len Y + 1) (js_len Z) (js_or (js_or PCHAR SLASH) QUESTION)"
    using part_scan[OF parts(7) class_query cl(16), of s Y F] by (cases "Q = []") (simp_all add: s Y_def Z_def add.assoc)
  have pre: "js_len pre = js_len t + 4" by (simp add: pre_def)
  have slashes: "starts_with s [47, 47] (js_len t + 1 + 1)"
    using starts_with_part[of "[a] @ t @ [58]" "[47, 47]" "h @ P @ A @ Q @ F"] by (simp add: s pre_def add.commute)
  have slash: "(if index_of s [47] (js_len pre) = -1 \<or> js_len Y < index_of s [47] (js_len pre) then js_len Y
      else index_of s [47] (js_len pre)) = js_len X"
  proof -
    have "js_len Y = js_len pre + js_len (h @ P) + js_len A" "s = pre @ (h @ P) @ A @ Q @ F" by (simp_all add: s Y_def)
    from cut_eq(1)[OF free(3) part_hd[OF parts(6)] this] show ?thesis by (simp add: X_def add.assoc)
  qed
  have "isAuthority s (js_len pre) (js_len X)"
    using authority_parts[OF _ parts(4,5), of s pre "A @ Q @ F"] part_hd[OF parts(6)] part_hd[OF parts(7)] part_hd[OF parts(8)]
    by (cases A; cases Q; cases F) (simp_all add: s X_def add.assoc)
  moreover have "uri_scan s (js_len X) (js_len Y) (js_or PCHAR SLASH)"
  proof -
    have "in_class (UNRESERVED_SUB @ chars_of '':@/'') 47" by code_simp
    then have "\<forall>c\<in>set A. in_class (UNRESERVED_SUB @ chars_of '':@/'') c" using parts(6) by (auto simp: part_of_def)
    then have "\<forall>c\<in>set A. is_class (Some c) (js_or PCHAR SLASH) \<and> c \<noteq> 37" using class_path cl(14) by metis
    from scan_part[OF this, of X "Q @ F"] show ?thesis by (simp add: s X_def Y_def add.assoc)
  qed
  moreover have lits: "of_text ''#'' = [35]" "of_text ''?'' = [63]" "of_text ''//'' = [47, 47]" "of_text ''/'' = [47]"
    by code_simp+
  moreover have start: "js_len t + 1 + 1 + 2 = js_len pre" using pre by simp
  moreover have "js_len t + 1 \<noteq> -1" by (simp add: js_len_def)
  ultimately show ?thesis
    unfolding isUriScan_def Let_def colon lits hash(1) q start slash using fragment query slashes
    by (cases "index_of s [35] 0 = -1"; cases "js_len Y = js_len Z") simp_all
qed

section \<open>IP addresses\<close>

lemma octet_text:
  "0 \<le> c \<Longrightarrow> c \<le> 9 \<Longrightarrow> str_of_int c = [48 + c]"
  "1 \<le> b \<Longrightarrow> b \<le> 9 \<Longrightarrow> 0 \<le> c \<Longrightarrow> c \<le> 9 \<Longrightarrow> str_of_int (10 * b + c) = [48 + b, 48 + c]"
  "1 \<le> a \<Longrightarrow> a \<le> 9 \<Longrightarrow> 0 \<le> b \<Longrightarrow> b \<le> 9 \<Longrightarrow> 0 \<le> c \<Longrightarrow> c \<le> 9 \<Longrightarrow>
    str_of_int (100 * a + 10 * b + c) = [48 + a, 48 + b, 48 + c]"
proof -
  show "0 \<le> c \<Longrightarrow> c \<le> 9 \<Longrightarrow> str_of_int c = [48 + c]" by (simp add: str_of_int_def digits_of_1)
  have two: "digits_of (10 * b + c) = [48 + b, 48 + c]" if "1 \<le> b" "b \<le> 9" "0 \<le> c" "c \<le> 9" for b c :: int
    using that by (simp add: digits_of_step digits_of_1 div_add1_eq)
  then show "1 \<le> b \<Longrightarrow> b \<le> 9 \<Longrightarrow> 0 \<le> c \<Longrightarrow> c \<le> 9 \<Longrightarrow> str_of_int (10 * b + c) = [48 + b, 48 + c]"
    by (simp add: str_of_int_def)
  assume a: "1 \<le> a" "a \<le> 9" "0 \<le> b" "b \<le> 9" "0 \<le> c" "c \<le> 9"
  have "(c + 10 * (10 * a + b)) div 10 = 10 * a + b" "(c + 10 * (10 * a + b)) mod 10 = c"
    using a by (simp_all del: distrib_left_numeral)
  then have "digits_of (100 * a + 10 * b + c) = digits_of (10 * a + b) @ [48 + c]"
    using a digits_of_step[of "c + 10 * (10 * a + b)"] by (simp add: algebra_simps)
  then show "str_of_int (100 * a + 10 * b + c) = [48 + a, 48 + b, 48 + c]"
    using a two[of a b] by (simp add: str_of_int_def)
qed

lemma octet_iff: "u \<in> rx_lang IPV4_OCTET \<longleftrightarrow> (\<exists>n. 0 \<le> n \<and> n \<le> 255 \<and> u = str_of_int n)"
proof
  assume "\<exists>n. 0 \<le> n \<and> n \<le> 255 \<and> u = str_of_int n"
  then obtain n where n: "n \<in> set [0..255]" "u = str_of_int n" by auto
  have "list_all (\<lambda>n. rx_test IPV4_OCTET (str_of_int n)) [0..255]" by code_simp
  then have "rx_test IPV4_OCTET (str_of_int n)" using n(1) unfolding list_all_iff by blast
  then show "u \<in> rx_lang IPV4_OCTET" using n(2) by (simp add: rx_test_lang)
next
  have digit: "in_class DIGITS c \<longleftrightarrow> 48 \<le> c \<and> c \<le> 57" for c by (simp add: in_class_def DIGITS_def)
  have lits: "of_text ''25'' = [50, 53]" "of_text ''2'' = [50]" "of_text ''1'' = [49]" by code_simp+
  assume "u \<in> rx_lang IPV4_OCTET"
  then consider (a) c where "u = [50, 53, c]" "48 \<le> c" "c \<le> 53"
    | (b) b c where "u = [50, b, c]" "48 \<le> b" "b \<le> 52" "48 \<le> c" "c \<le> 57"
    | (c) b c where "u = [49, b, c]" "48 \<le> b" "b \<le> 57" "48 \<le> c" "c \<le> 57"
    | (d) b c where "u = [b, c]" "49 \<le> b" "b \<le> 57" "48 \<le> c" "c \<le> 57"
    | (e) c where "u = [c]" "48 \<le> c" "c \<le> 57"
    unfolding IPV4_OCTET_def rx_lang.simps lang_opt_iff Un_iff lang_seq_iff lang_text_iff lits mem_Collect_eq
    by (auto simp: digit) (auto simp: in_class_def)
  then show "\<exists>n. 0 \<le> n \<and> n \<le> 255 \<and> u = str_of_int n"
  proof cases
    case a
    then show ?thesis using octet_text(3)[of 2 5 "c - 48"] by (intro exI[of _ "100 * 2 + 10 * 5 + (c - 48)"]) simp
  next
    case b
    then show ?thesis using octet_text(3)[of 2 "b - 48" "c - 48"]
      by (intro exI[of _ "100 * 2 + 10 * (b - 48) + (c - 48)"]) simp
  next
    case c
    then show ?thesis using octet_text(3)[of 1 "b - 48" "c - 48"]
      by (intro exI[of _ "100 * 1 + 10 * (b - 48) + (c - 48)"]) simp
  next
    case d
    then show ?thesis using octet_text(2)[of "b - 48" "c - 48"] by (intro exI[of _ "10 * (b - 48) + (c - 48)"]) simp
  next
    case e
    then show ?thesis using octet_text(1)[of "c - 48"] by (intro exI[of _ "c - 48"]) simp
  qed
qed

lemma isIPv4_iff: "isIPv4 s \<longleftrightarrow> (\<exists>a b c d. {a, b, c, d} \<subseteq> {0..255} \<and> s = join_on [46] (map str_of_int [a, b, c, d]))"
proof -
  have lits: "of_text ''.'' = [46]" by code_simp
  have "isIPv4 s \<longleftrightarrow> (\<exists>u v w x. {u, v, w, x} \<subseteq> rx_lang IPV4_OCTET \<and> s = u @ [46] @ v @ [46] @ w @ [46] @ x)"
  proof
    assume "isIPv4 s"
    then obtain u v w x where "s = (((u @ [46]) @ (v @ [46]) @ (w @ [46])) @ x)" "{u, v, w, x} \<subseteq> rx_lang IPV4_OCTET"
      unfolding isIPv4_def IPV4_def rx_test_lang numeral_3_eq_3 rx_times.simps rx_lang.simps lang_seq_iff lang_text_iff lits
      by auto
    then show "\<exists>u v w x. {u, v, w, x} \<subseteq> rx_lang IPV4_OCTET \<and> s = u @ [46] @ v @ [46] @ w @ [46] @ x"
      by (intro exI[of _ u] exI[of _ v] exI[of _ w] exI[of _ x]) simp
  next
    assume "\<exists>u v w x. {u, v, w, x} \<subseteq> rx_lang IPV4_OCTET \<and> s = u @ [46] @ v @ [46] @ w @ [46] @ x"
    then obtain u v w x where p: "{u, v, w, x} \<subseteq> rx_lang IPV4_OCTET"
      and s: "s = ((u @ [46]) @ ((v @ [46]) @ ((w @ [46]) @ []))) @ x" by auto
    show "isIPv4 s"
      unfolding isIPv4_def IPV4_def rx_test_lang numeral_3_eq_3 rx_times.simps rx_lang.simps s
      using p by (intro lang_seq_I) (simp_all add: lang_text_iff lits del: rx_text.simps)
  qed
  also have "\<dots> \<longleftrightarrow> (\<exists>a b c d. {a, b, c, d} \<subseteq> {0..255} \<and> s = join_on [46] (map str_of_int [a, b, c, d]))"
  proof
    assume "\<exists>a b c d. {a, b, c, d} \<subseteq> {0..255} \<and> s = join_on [46] (map str_of_int [a, b, c, d])"
    then obtain a b c d where "{a, b, c, d} \<subseteq> {0..255}" "s = join_on [46] (map str_of_int [a, b, c, d])" by blast
    then show "\<exists>u v w x. {u, v, w, x} \<subseteq> rx_lang IPV4_OCTET \<and> s = u @ [46] @ v @ [46] @ w @ [46] @ x"
      by (intro exI[of _ "str_of_int a"] exI[of _ "str_of_int b"] exI[of _ "str_of_int c"] exI[of _ "str_of_int d"])
        (auto simp: octet_iff)
  qed (auto simp: octet_iff)
  finally show ?thesis .
qed

text \<open>IPv6: the groups of an address without and with a gap.\<close>

lemma rx_range_set:
  "s \<in> rx_lang (rx_range m n (RxSet cs)) \<longleftrightarrow> m \<le> length s \<and> length s \<le> m + (n - m) \<and> (\<forall>c\<in>set s. in_class cs c)"
proof
  assume "s \<in> rx_lang (rx_range m n (RxSet cs))"
  then show "m \<le> length s \<and> length s \<le> m + (n - m) \<and> (\<forall>c\<in>set s. in_class cs c)"
    by (auto simp: rx_range_def lang_seq_iff lang_times_set lang_upto_set)
next
  assume "m \<le> length s \<and> length s \<le> m + (n - m) \<and> (\<forall>c\<in>set s. in_class cs c)"
  then have "take m s @ drop m s \<in> lang_seq (rx_lang (rx_times m (RxSet cs))) (rx_lang (rx_upto (n - m) (RxSet cs)))"
    by (intro lang_seq_I) (auto simp: lang_times_set lang_upto_set dest: in_set_takeD in_set_dropD)
  then show "s \<in> rx_lang (rx_range m n (RxSet cs))" by (simp add: rx_range_def)
qed

abbreviation hex_group :: "jstr \<Rightarrow> bool" where
  "hex_group \<equiv> rx_test HEX_GROUP"

lemma hex_group_iff: "hex_group g \<longleftrightarrow> g \<noteq> [] \<and> length g \<le> 4 \<and> (\<forall>c\<in>set g. in_class HEX_DIGITS c)"
  by (cases g) (auto simp: rx_test_lang HEX_GROUP_def rx_range_set)

lemma hex_group_free: "hex_group g \<Longrightarrow> 58 \<notin> set g \<and> 46 \<notin> set g \<and> g \<noteq> []"
  by (auto simp: hex_group_iff in_class_def HEX_DIGITS_def)

lemma gap_skip: "58 \<notin> set g \<Longrightarrow> find_sub [58, 58] (g @ r) = map_option (\<lambda>k. length g + k) (find_sub [58, 58] r)"
  by (induction g) (auto simp: map_option_case split: option.splits)

lemma join_head: "list_all hex_group gs \<Longrightarrow> join_on [58] gs = [] \<or> hd (join_on [58] gs) \<noteq> 58"
  by (cases "([58 :: int], gs)" rule: join_on.cases) (auto dest!: hex_group_free simp: hd_append hd_in_set neq_Nil_conv)

lemma gap_colon: "r = [] \<or> hd r \<noteq> 58 \<Longrightarrow> find_sub [58, 58] (58 # r) = map_option Suc (find_sub [58, 58] r)"
  by (cases r) auto

lemma gap_join:
  "list_all hex_group gs \<Longrightarrow> find_sub [58, 58] (join_on [58] gs) = None"
proof (induction gs rule: induct_list012)
  case (2 g)
  then show ?case using gap_skip[of g "[]"] hex_group_free[of g] by simp
next
  case (3 g h gs)
  then show ?case using gap_skip[of g "58 # join_on [58] (h # gs)"] hex_group_free[of g]
      gap_colon[of "join_on [58] (h # gs)"] join_head[of "h # gs"] by simp
qed simp

lemma gap_join_gap:
  "list_all hex_group gs \<Longrightarrow> find_sub [58, 58] (join_on [58] gs @ 58 # 58 # r) = Some (length (join_on [58] gs))"
proof (induction gs rule: induct_list012)
  case (2 g)
  then show ?case using gap_skip[of g "58 # 58 # r"] hex_group_free[of g] by simp
next
  case (3 g h gs)
  have "join_on [58] (h # gs) \<noteq> []" using 3(3) by (cases gs) (auto dest: hex_group_free)
  then show ?case using 3 gap_skip[of g "58 # join_on [58] (h # gs) @ 58 # 58 # r"] hex_group_free[of g]
      gap_colon[of "join_on [58] (h # gs) @ 58 # 58 # r"] join_head[of "h # gs"] by simp
qed simp

lemma hexGroups_join: "list_all hex_group gs \<Longrightarrow> hexGroups (join_on [58] gs) = js_len gs"
proof (cases "gs = []")
  case False
  assume g: "list_all hex_group gs"
  then have "join_on [58] gs \<noteq> []" using False
    by (cases "([58 :: int], gs)" rule: join_on.cases) (auto dest: hex_group_free)
  moreover have "split_on 58 (join_on [58] gs) = gs"
    using g False by (intro split_on_join) (auto simp: list_all_iff dest: hex_group_free)
  ultimately show ?thesis using g by (simp add: hexGroups_def Let_def)
qed (simp add: hexGroups_def)

lemma join_free: "list_all hex_group gs \<Longrightarrow> 46 \<notin> set (join_on [58] gs)"
  by (induction gs rule: induct_list012) (auto dest: hex_group_free)

lemma isIPv6_plain: "46 \<notin> set s \<Longrightarrow> 58 \<in> set s \<Longrightarrow> isIPv6 s = ipv6_groups s"
proof -
  assume s: "46 \<notin> set s" "58 \<in> set s"
  have "of_text ''.'' = [46]" by code_simp
  moreover have "index_of s [46] i = -1" for i
    using s(1) by (intro index_of_none) (auto dest: in_set_dropD)
  moreover have "last_index_of s 58 (js_len s) \<noteq> -1"
  proof -
    have "take (nat (js_len s + 1)) s = s" by (simp add: js_len_def)
    moreover obtain k where k: "find_sub [58] (rev s) = Some k" using s(2) find_char_None[of 58 "rev s"] by auto
    moreover have "k < length s" using find_char_less[OF k] by simp
    ultimately show ?thesis by (simp add: last_index_of_def Let_def js_len_def)
  qed
  ultimately show ?thesis by (simp add: isIPv6_def Let_def)
qed

lemma ipv6_full:
  assumes "list_all hex_group gs"
  shows "isIPv6 (join_on [58] gs) = (length gs = 8)"
proof (cases "58 \<in> set (join_on [58] gs)")
  case True
  have "of_text ''::'' = [58, 58]" by code_simp
  then have "ipv6_groups (join_on [58] gs) = (length gs = 8)"
    using gap_join[OF assms] hexGroups_join[OF assms] by (simp add: ipv6_groups_def index_of_def Let_def js_len_def)
  then show ?thesis using isIPv6_plain[OF join_free[OF assms] True] by simp
next
  case False
  have "length gs \<noteq> 8"
  proof
    assume "length gs = 8"
    then obtain a b ps where "gs = a # b # ps" by (cases gs; cases "tl gs") auto
    then show False using False by simp
  qed
  moreover have "\<not> isIPv6 (join_on [58] gs)"
  proof -
    have "last_index_of (join_on [58] gs) 58 (js_len (join_on [58] gs)) = -1"
      using False by (intro last_index_of_none) (auto dest: in_set_takeD)
    then show ?thesis by (simp add: isIPv6_def Let_def)
  qed
  ultimately show ?thesis by simp
qed

lemma ipv6_gap:
  assumes "list_all hex_group ls" "list_all hex_group rs"
  shows "isIPv6 (join_on [58] ls @ [58, 58] @ join_on [58] rs) = (length ls + length rs \<le> 7)"
proof -
  let ?l = "join_on [58] ls" and ?r = "join_on [58] rs"
  let ?s = "?l @ [58, 58] @ ?r"
  have dots: "of_text ''::'' = [58, 58]" by code_simp
  have first: "index_of ?s [58, 58] 0 = js_len ?l"
    using gap_join_gap[OF assms(1), of ?r] by (simp add: index_of_def js_len_def)
  have "drop (nat (js_len ?l + 1)) ?s = 58 # ?r" by (simp add: js_len_def nat_add_distrib)
  then have again: "index_of ?s [58, 58] (js_len ?l + 1) = -1"
    using gap_join[OF assms(2)] gap_colon[OF join_head[OF assms(2)]] by (simp add: index_of_def)
  have halves: "str_slice ?s 0 (js_len ?l) = ?l" "str_from ?s (js_len ?l + 2) = ?r"
    by (simp_all add: str_slice_def str_from_def js_len_def nat_add_distrib)
  have nonneg: "js_len ?l \<noteq> -1" "js_len ls \<noteq> -1" "js_len rs \<noteq> -1" by (simp_all add: js_len_def)
  have "ipv6_groups ?s = (length ls + length rs \<le> 7)"
    unfolding ipv6_groups_def dots Let_def first again halves hexGroups_join[OF assms(1)] hexGroups_join[OF assms(2)]
    using nonneg by (auto simp: js_len_def)
  moreover have "46 \<notin> set ?s" using join_free[OF assms(1)] join_free[OF assms(2)] by simp
  ultimately show ?thesis using isIPv6_plain[of ?s] by simp
qed

section \<open>Properties\<close>

text \<open>
  C34. The fast path of \<open>isUri\<close> changes no answer: every string that the regular expression
  accepts is accepted by the scan of the RFC 3986 grammar, so \<open>isUri\<close> is that scan.
\<close>

theorem isUri_is_full_scan: "isUri s = isUriScan s"
  using URI_COMMON_scan by (auto simp: isUri_def)

text \<open>
  \<open>isIPv4\<close> accepts exactly four numbers from 0 to 255 in plain decimal, joined by dots. On
  groups of one to four hexadecimal digits, \<open>isIPv6\<close> accepts exactly eight joined by colons, and
  with one gap \<open>::\<close> between two such runs at most seven in all.
\<close>

theorem ip_address_forms:
  "(isIPv4 s \<longleftrightarrow> (\<exists>a b c d. {a, b, c, d} \<subseteq> {0..255} \<and> s = join_on [46] (map str_of_int [a, b, c, d]))) \<and>
   (list_all hex_group gs \<longrightarrow> isIPv6 (join_on [58] gs) = (length gs = 8)) \<and>
   (list_all hex_group ls \<and> list_all hex_group rs \<longrightarrow>
    isIPv6 (join_on [58] ls @ [58, 58] @ join_on [58] rs) = (length ls + length rs \<le> 7))"
  using isIPv4_iff ipv6_full ipv6_gap by blast

text \<open>\<open>1::2:ff\<close> is an IPv6 address.\<close>

theorem ip_address_forms_witness: "isIPv6 [49, 58, 58, 50, 58, 102, 102]"
proof -
  have "list_all hex_group [[49]]" "list_all hex_group [[50], [102, 102]]" by code_simp+
  then show ?thesis using ip_address_forms[of "[]" "[]" "[[49]]" "[[50], [102, 102]]"] by simp
qed

end
