(* ===== verification/BloomFilter.thy ===== *)
theory BloomFilter
  imports JsText Prng
begin

text \<open>
  \<open>src/src/BloomFilter.ts\<close>: a bit array and hash probes. The bits are the words of a \<open>Uint32Array\<close>;
  the hashes and probe positions are computed with the 32-bit operators as the code writes them. The
  module-level registers \<open>_h1\<close>, \<open>_h2\<close> are written and read at once, so \<open>hashPairInto\<close> returns them.

  \<open>make\<close> sizes the array with \<open>Math.log\<close> and \<open>Math.exp\<close>, whose results are approximations that the
  engine chooses: the size it starts from, the real-valued number of probes and the estimated rate for
  a size are parameters (\<open>rawM\<close>, \<open>kExact\<close>, \<open>actualFpr\<close>), and the search over sizes is the code's. A
  capacity that is no integer is \<^term>\<open>None\<close>; a rate that is no number in between fails the guard.
\<close>

section \<open>The code\<close>

record bloom =
  kBits :: "32 word list"
  kK :: int
  kM :: int
  kMask :: int
  kCount :: int

definition MAX_BITS :: int where
  "MAX_BITS = 2 ^ 32"

text \<open>\<open>while (p < n) p *= 2\<close>; \<open>p\<close> starts at 32, so it is positive.\<close>

function nextPow2_loop :: "int \<Rightarrow> int \<Rightarrow> int" where
  "nextPow2_loop p n = (if p < n \<and> 0 < p then nextPow2_loop (p * 2) n else p)"
  by pat_completeness auto
termination by (relation "measure (\<lambda>(p, n). nat (n - p))") auto

declare nextPow2_loop.simps [simp del]

definition nextPow2 :: "int \<Rightarrow> int" where
  "nextPow2 n = nextPow2_loop 32 n"

definition FNV_PRIME :: int where "FNV_PRIME = 0x01000193"
definition FNV_SEED1 :: int where "FNV_SEED1 = 0x811c9dc5"
definition FNV_SEED2 :: int where "FNV_SEED2 = 0x9e3779b9"

text \<open>The murmur3 finalizer that the code writes out for both hashes.\<close>

definition fmix32 :: "int \<Rightarrow> int" where
  "fmix32 h = (let h = js_xor h (js_ushr h 16); h = js_imul h 0x85ebca6b;
     h = js_xor h (js_ushr h 13); h = js_imul h 0xc2b2ae35 in js_xor h (js_ushr h 16))"

definition fnv_step :: "int \<times> int \<Rightarrow> int \<Rightarrow> int \<times> int" where
  "fnv_step h c = (js_imul (js_xor (fst h) c) FNV_PRIME, js_imul (js_xor (snd h) c) FNV_PRIME)"

definition hashPairInto :: "jstr \<Rightarrow> int \<times> int" where
  "hashPairInto s = (let (h1, h2) = foldl fnv_step (FNV_SEED1, FNV_SEED2) s
     in (fmix32 h1, js_or (fmix32 h2) 1))"

text \<open>The search of \<open>make\<close> from size \<open>m\<close>, which is positive: the size and the number of probes.\<close>

function sizing_loop :: "int \<Rightarrow> (int \<Rightarrow> rat) \<Rightarrow> (int \<Rightarrow> int \<Rightarrow> rat) \<Rightarrow> rat \<Rightarrow> (int \<times> int) outcome" where
  "sizing_loop m kExact actualFpr fpr =
    (let kF = max 1 \<lfloor>kExact m\<rfloor>; kC = \<lceil>kExact m\<rceil> in
      if actualFpr m kF \<le> fpr then Inr (m, kF)
      else if actualFpr m kC \<le> fpr then Inr (m, kC)
      else if m \<ge> MAX_BITS \<or> m \<le> 0 then Inl RangeError
      else sizing_loop (m * 2) kExact actualFpr fpr)"
  by pat_completeness auto
termination by (relation "measure (\<lambda>(m, k, a, f). nat (MAX_BITS - m))") auto

declare sizing_loop.simps [simp del]

definition bloom_make :: "int \<Rightarrow> (int \<Rightarrow> rat) \<Rightarrow> (int \<Rightarrow> int \<Rightarrow> rat) \<Rightarrow> int option \<Rightarrow> rat option \<Rightarrow> bloom outcome" where
  "bloom_make rawM kExact actualFpr capacity fpr =
    (case capacity of None \<Rightarrow> Inl RangeError
     | Some c \<Rightarrow> if c < 1 \<or> to_int32 c \<noteq> c then Inl RangeError
       else case fpr of None \<Rightarrow> Inl RangeError
       | Some f \<Rightarrow> if \<not> (f > 0 \<and> f < 1) then Inl RangeError
         else let m = nextPow2 rawM; m = (if m > MAX_BITS then MAX_BITS else m) in
           (case sizing_loop m kExact actualFpr f of Inl e \<Rightarrow> Inl e
            | Inr (m, k) \<Rightarrow> Inr \<lparr>kBits = replicate (nat (m div 32)) 0, kK = k, kM = m,
                kMask = js_or (m - 1) 0, kCount = 0\<rparr>))"

text \<open>\<open>bits[pos >>> 5] |= 1 << (pos & 31)\<close>: a write past the end of a typed array is dropped.\<close>

definition set_probe :: "32 word list \<Rightarrow> int \<Rightarrow> 32 word list" where
  "set_probe bits pos = (let w = nat (js_ushr pos 5) in
    if w < length bits then bits[w := bits ! w OR push_bit (nat (js_and pos 31)) 1] else bits)"

text \<open>\<open>((bits[pos >>> 5] >>> (pos & 31)) & 1) === 0\<close>: past the end the element reads as 0.\<close>

definition probe_unset :: "32 word list \<Rightarrow> int \<Rightarrow> bool" where
  "probe_unset bits pos = (let w = nat (js_ushr pos 5) in
    w < length bits \<longrightarrow> drop_bit (nat (js_and pos 31)) (bits ! w) AND 1 = 0)"

text \<open>The loops of \<open>add\<close> and \<open>mightContain\<close> with \<open>n\<close> probes to go.\<close>

fun add_loop :: "nat \<Rightarrow> int \<Rightarrow> int \<Rightarrow> int \<Rightarrow> 32 word list \<Rightarrow> 32 word list" where
  "add_loop 0 mk h2 acc bits = bits"
| "add_loop (Suc n) mk h2 acc bits =
    add_loop n mk h2 (js_or (acc + h2) 0) (set_probe bits (js_and acc mk))"

fun contain_loop :: "nat \<Rightarrow> int \<Rightarrow> int \<Rightarrow> int \<Rightarrow> 32 word list \<Rightarrow> bool" where
  "contain_loop 0 mk h2 acc bits = True"
| "contain_loop (Suc n) mk h2 acc bits =
    (if probe_unset bits (js_and acc mk) then False else contain_loop n mk h2 (js_or (acc + h2) 0) bits)"

definition bloom_add :: "bloom \<Rightarrow> jstr \<Rightarrow> bloom" where
  "bloom_add bf item = (let (h1, h2) = hashPairInto item in
    bf\<lparr>kBits := add_loop (nat (kK bf)) (kMask bf) h2 h1 (kBits bf), kCount := kCount bf + 1\<rparr>)"

definition mightContain :: "bloom \<Rightarrow> jstr \<Rightarrow> bool" where
  "mightContain bf item = (let (h1, h2) = hashPairInto item in
    contain_loop (nat (kK bf)) (kMask bf) h2 h1 (kBits bf))"

definition bloom_clear :: "bloom \<Rightarrow> bloom" where
  "bloom_clear bf = bf\<lparr>kBits := replicate (length (kBits bf)) 0, kCount := 0\<rparr>"

definition bloom_count :: "bloom \<Rightarrow> int" where "bloom_count bf = kCount bf"
definition bitCount :: "bloom \<Rightarrow> int" where "bitCount bf = kM bf"
definition hashCount :: "bloom \<Rightarrow> int" where "hashCount bf = kK bf"

section \<open>Sizes\<close>

definition is_size :: "int \<Rightarrow> bool" where
  "is_size m = (\<exists>j. 5 \<le> j \<and> j \<le> 32 \<and> m = 2 ^ j)"

lemma nextPow2_loop_pow: "\<exists>j\<ge>i. nextPow2_loop (2 ^ i) n = 2 ^ j"
proof (induction "nat (n - 2 ^ i)" arbitrary: i rule: less_induct)
  case less
  have eq: "nextPow2_loop (2 ^ i) n = (if (2::int) ^ i < n then nextPow2_loop (2 ^ Suc i) n else 2 ^ i)"
    by (subst nextPow2_loop.simps) (simp add: mult.commute)
  show ?case
  proof (cases "(2::int) ^ i < n")
    case True
    then have "nat (n - 2 ^ Suc i) < nat (n - 2 ^ i)" by simp
    from less[OF this] show ?thesis using eq True by (auto intro: Suc_leD)
  qed (auto simp: eq)
qed

lemma nextPow2_size: "is_size (if nextPow2 n > MAX_BITS then MAX_BITS else nextPow2 n)"
proof -
  obtain j where j: "5 \<le> j" "nextPow2 n = 2 ^ j" using nextPow2_loop_pow[of 5 n] by (auto simp: nextPow2_def)
  show ?thesis
  proof (cases "nextPow2 n > MAX_BITS")
    case True
    then show ?thesis by (auto simp: is_size_def MAX_BITS_def intro: exI[of _ 32])
  next
    case False
    then have "j \<le> 32" using j(2) power_strict_increasing_iff[of "2::int" 32 j] by (auto simp: MAX_BITS_def)
    then show ?thesis using False j by (auto simp: is_size_def)
  qed
qed

lemma is_size_double: "is_size m \<Longrightarrow> \<not> MAX_BITS \<le> m \<Longrightarrow> is_size (m * 2)"
proof -
  assume m: "is_size m" "\<not> MAX_BITS \<le> m"
  then obtain j where j: "5 \<le> j" "j \<le> 32" "m = 2 ^ j" by (auto simp: is_size_def)
  then have "j \<noteq> 32" using m(2) by (auto simp: MAX_BITS_def)
  then show ?thesis using j by (auto simp: is_size_def intro!: exI[of _ "Suc j"])
qed

lemma is_size_pos: "is_size m \<Longrightarrow> 0 < m"
  by (auto simp: is_size_def)

text \<open>The search ends at a size between 32 and \<open>2 ^ 32\<close> whose estimated rate is met.\<close>

lemma sizing_ok:
  "is_size m \<Longrightarrow> \<forall>m. 0 < kx m \<Longrightarrow> sizing_loop m kx rate f = Inr (m', k) \<Longrightarrow> is_size m' \<and> 1 \<le> k \<and> rate m' k \<le> f"
proof (induction m kx rate f rule: sizing_loop.induct)
  case (1 m kx rate f)
  have "0 < \<lceil>kx m\<rceil>" using 1(3) by simp
  then have k: "1 \<le> \<lceil>kx m\<rceil>" by linarith
  show ?case
  proof (cases "rate m (max 1 \<lfloor>kx m\<rfloor>) \<le> f \<or> rate m \<lceil>kx m\<rceil> \<le> f")
    case True
    then show ?thesis using 1(2,4) k by (auto simp: sizing_loop.simps[of m] Let_def split: if_splits)
  next
    case False
    then have "\<not> MAX_BITS \<le> m" "\<not> m \<le> 0" "sizing_loop (m * 2) kx rate f = Inr (m', k)"
      using 1(4) by (auto simp: sizing_loop.simps[of m] Let_def split: if_splits)
    then show ?thesis using 1(1)[OF refl refl] False is_size_double[OF 1(2)] 1(3) by simp
  qed
qed

section \<open>Probes\<close>

lemma probe_bit: "nat (js_and pos 31) < 32"
proof -
  have "to_int32 31 = 31" by code_simp
  moreover have "x AND 31 = x mod 32" for x :: int using take_bit_eq_mask[of 5 x] by (simp add: mask_eq_exp_minus_1 take_bit_eq_mod)
  ultimately have "js_and pos 31 = to_int32 pos mod 32" by (simp add: js_and_def)
  then show ?thesis by (simp add: nat_less_iff)
qed

lemma probe_word:
  assumes "is_size m" "length bits = nat (m div 32)"
  shows "nat (js_ushr (js_and acc (js_or (m - 1) 0)) 5) < length bits"
proof -
  obtain j where j: "5 \<le> j" "j \<le> 32" "m = 2 ^ j" using assms(1) by (auto simp: is_size_def)
  have zero: "to_int32 0 = 0" by code_simp
  have "take_bit 32 (js_and acc (js_or (m - 1) 0)) = take_bit 32 acc AND take_bit 32 (m - 1)"
    by (simp add: js_and_def js_or_def zero take_to_int32)
  also have "take_bit 32 (m - 1) = mask j" using j by (simp add: take_bit_of_mask min_absorb2 flip: mask_eq_exp_minus_1)
  finally have u: "to_uint32 (js_and acc (js_or (m - 1) 0)) = take_bit j (take_bit 32 acc)"
    by (simp add: to_uint32_take take_bit_eq_mask)
  obtain i where i: "j = 5 + i" using j(1) le_Suc_ex by blast
  have "take_bit j (take_bit 32 acc) < 2 ^ j" by (rule take_bit_int_less_exp)
  then have "take_bit j (take_bit 32 acc) div 32 < 2 ^ i" "m div 32 = 2 ^ i"
    by (simp_all add: i j(3) power_add del: take_bit_take_bit)
  then show ?thesis
    using assms(2) by (simp add: js_ushr_def u drop_bit_eq_div nat_less_iff)
qed


text \<open>Bits are only ever added.\<close>

definition bits_le :: "32 word list \<Rightarrow> 32 word list \<Rightarrow> bool" where
  "bits_le xs ys = (length xs = length ys \<and> (\<forall>i<length xs. \<forall>n. bit (xs ! i) n \<longrightarrow> bit (ys ! i) n))"

lemma bits_le_refl: "bits_le xs xs"
  by (simp add: bits_le_def)

lemma bits_le_trans: "bits_le xs ys \<Longrightarrow> bits_le ys zs \<Longrightarrow> bits_le xs zs"
  by (simp add: bits_le_def)

lemma set_probe_le: "bits_le xs (set_probe xs p)"
  by (auto simp: bits_le_def set_probe_def Let_def nth_list_update bit_or_iff)

lemma add_loop_le: "bits_le xs (add_loop n mk h acc xs)"
  by (induction n mk h acc xs rule: add_loop.induct) (auto intro: bits_le_refl bits_le_trans set_probe_le)

lemma probe_unset_iff: "probe_unset bits p \<longleftrightarrow>
    (nat (js_ushr p 5) < length bits \<longrightarrow> \<not> bit (bits ! nat (js_ushr p 5)) (nat (js_and p 31)))"
  by (simp add: probe_unset_def Let_def bit_iff_odd_drop_bit and_one_eq odd_iff_mod_2_eq_one)

lemma probe_unset_mono: "bits_le xs ys \<Longrightarrow> probe_unset ys p \<Longrightarrow> probe_unset xs p"
  by (auto simp: probe_unset_iff bits_le_def)

lemma contain_mono: "bits_le xs ys \<Longrightarrow> contain_loop n mk h acc xs \<Longrightarrow> contain_loop n mk h acc ys"
  by (induction n arbitrary: acc) (auto dest: probe_unset_mono split: if_splits)

lemma set_probe_set: "nat (js_ushr p 5) < length bits \<Longrightarrow> \<not> probe_unset (set_probe bits p) p"
  using probe_bit[of p] by (simp add: probe_unset_iff set_probe_def Let_def bit_or_iff bit_exp_iff)

lemma contain_added:
  assumes "\<And>acc. nat (js_ushr (js_and acc mk) 5) < length bits"
  shows "contain_loop n mk h acc (add_loop n mk h acc bits)"
  using assms
proof (induction n arbitrary: acc bits)
  case (Suc n)
  let ?b = "set_probe bits (js_and acc mk)"
  have len: "length ?b = length bits" using set_probe_le[of bits "js_and acc mk"] by (simp add: bits_le_def)
  have "\<not> probe_unset (add_loop n mk h (js_or (acc + h) 0) ?b) (js_and acc mk)"
    using probe_unset_mono[OF add_loop_le] set_probe_set[OF Suc.prems[of acc]] by blast
  moreover have "contain_loop n mk h (js_or (acc + h) 0) (add_loop n mk h (js_or (acc + h) 0) ?b)"
    using Suc.prems by (intro Suc.IH) (simp add: len)
  ultimately show ?case by simp
qed simp

section \<open>Sessions\<close>

datatype bloom_call = BloomAdd jstr | BloomClear

fun bloom_step :: "bloom_call \<Rightarrow> bloom \<Rightarrow> bloom" where
  "bloom_step (BloomAdd x) bf = bloom_add bf x"
| "bloom_step BloomClear bf = bloom_clear bf"

text \<open>What has been added since the last \<open>clear\<close>, as often as it was added.\<close>

fun added_since :: "bloom_call list \<Rightarrow> jstr list \<Rightarrow> jstr list" where
  "added_since [] xs = xs"
| "added_since (BloomAdd x # cs) xs = added_since cs (x # xs)"
| "added_since (BloomClear # cs) xs = added_since cs []"

definition bloom_inv :: "jstr list \<Rightarrow> bloom \<Rightarrow> bool" where
  "bloom_inv xs bf = (is_size (kM bf) \<and> length (kBits bf) = nat (kM bf div 32) \<and> kMask bf = js_or (kM bf - 1) 0 \<and>
    1 \<le> kK bf \<and> kCount bf = int (length xs) \<and> (\<forall>x\<in>set xs. mightContain bf x) \<and>
    (xs = [] \<longrightarrow> (\<forall>w\<in>set (kBits bf). w = 0)))"

lemma bloom_add_inv: "bloom_inv xs bf \<Longrightarrow> bloom_inv (x # xs) (bloom_add bf x)"
proof -
  assume i: "bloom_inv xs bf"
  obtain h1 h2 where h: "hashPairInto x = (h1, h2)" by (cases "hashPairInto x")
  have word: "nat (js_ushr (js_and acc (kMask bf)) 5) < length (kBits bf)" for acc
    using i probe_word[of "kM bf" "kBits bf" acc] by (simp add: bloom_inv_def)
  let ?b = "add_loop (nat (kK bf)) (kMask bf) h2 h1 (kBits bf)"
  have le: "bits_le (kBits bf) ?b" by (rule add_loop_le)
  have "mightContain (bloom_add bf x) x"
    using contain_added[OF word] by (simp add: mightContain_def bloom_add_def h)
  moreover have "mightContain (bloom_add bf x) y" if "mightContain bf y" for y
    using that contain_mono[OF le] by (auto simp: mightContain_def bloom_add_def h split: prod.splits)
  moreover have "length ?b = length (kBits bf)" using le by (simp add: bits_le_def)
  ultimately show ?thesis using i by (simp add: bloom_inv_def) (simp add: bloom_add_def h)
qed

lemma bloom_clear_inv: "bloom_inv xs bf \<Longrightarrow> bloom_inv [] (bloom_clear bf)"
  by (simp add: bloom_inv_def bloom_clear_def)

lemma bloom_run_inv: "bloom_inv xs bf \<Longrightarrow> bloom_inv (added_since cs xs) (fold bloom_step cs bf)"
  by (induction cs xs arbitrary: bf rule: added_since.induct) (simp_all add: bloom_add_inv bloom_clear_inv)

lemma bloom_make_inv:
  assumes "bloom_make rawM kExact actualFpr cap fpr = Inr bf" "\<forall>m. 0 < kExact m"
  shows "bloom_inv [] bf" "\<exists>f. fpr = Some f \<and> actualFpr (kM bf) (kK bf) \<le> f"
proof -
  let ?m = "if nextPow2 rawM > MAX_BITS then MAX_BITS else nextPow2 rawM"
  obtain f m k where f: "fpr = Some f" "sizing_loop ?m kExact actualFpr f = Inr (m, k)"
    and bf: "bf = \<lparr>kBits = replicate (nat (m div 32)) 0, kK = k, kM = m, kMask = js_or (m - 1) 0, kCount = 0\<rparr>"
    using assms(1) unfolding bloom_make_def Let_def
    by (auto split: option.splits if_splits sum.splits)
  note ok = sizing_ok[OF nextPow2_size assms(2) f(2)]
  show "bloom_inv [] bf" "\<exists>f. fpr = Some f \<and> actualFpr (kM bf) (kK bf) \<le> f"
    using ok by (auto simp: bf f(1) bloom_inv_def)
qed

lemma empty_contains_nothing: "bloom_inv [] bf \<Longrightarrow> \<not> mightContain bf x"
proof -
  assume i: "bloom_inv [] bf"
  obtain n where n: "nat (kK bf) = Suc n" using i by (cases "nat (kK bf)") (auto simp: bloom_inv_def)
  have "\<forall>j<length (kBits bf). kBits bf ! j = 0" using i by (simp add: bloom_inv_def)
  then have "probe_unset (kBits bf) p" for p by (simp add: probe_unset_iff)
  then show ?thesis by (simp add: mightContain_def n split: prod.splits)
qed

section \<open>Property\<close>

text \<open>
  C36. No false negatives: a filter that \<open>make\<close> returns has an estimated rate within the one asked
  for, and after every sequence of \<open>add\<close> and \<open>clear\<close> it may contain each item added since the last
  \<open>clear\<close>, counts the calls of \<open>add\<close> since then, and contains nothing if there were none.
\<close>

theorem bloom_no_false_negatives:
  assumes "bloom_make rawM kExact actualFpr capacity fpr = Inr bf" "\<forall>m. 0 < kExact m"
  shows "(\<exists>f. fpr = Some f \<and> actualFpr (bitCount bf) (hashCount bf) \<le> f) \<and>
    (let now = fold bloom_step cs bf; xs = added_since cs [] in
      (\<forall>x\<in>set xs. mightContain now x) \<and> bloom_count now = int (length xs) \<and>
      (xs = [] \<longrightarrow> (\<forall>x. \<not> mightContain now x)))"
proof -
  note inv = bloom_run_inv[OF bloom_make_inv(1)[OF assms], of cs]
  then have "added_since cs [] = [] \<Longrightarrow> \<not> mightContain (fold bloom_step cs bf) x" for x
    using empty_contains_nothing[of "fold bloom_step cs bf" x] by simp
  then show ?thesis using inv bloom_make_inv(2)[OF assms]
    by (auto simp: bloom_inv_def bloom_count_def bitCount_def hashCount_def Let_def)
qed

text \<open>A filter of 64 bits with two probes, after adding the strings \<open>a\<close> and \<open>bc\<close>.\<close>

theorem bloom_no_false_negatives_witness:
  "\<exists>bf. bloom_make 40 (\<lambda>_. 2) (\<lambda>m k. 1 / of_int (m * k)) (Some 4) (Some (1 / 100)) = Inr bf \<and> bitCount bf = 64 \<and>
    mightContain (fold bloom_step [BloomAdd [97], BloomAdd [98, 99]] bf) [97]"
proof -
  have four: "to_int32 4 = 4" by code_simp
  let ?bf = "\<lparr>kBits = replicate 2 0, kK = 2, kM = 64, kMask = js_or 63 0, kCount = 0\<rparr>"
  have mk: "bloom_make 40 (\<lambda>_. 2) (\<lambda>m k. 1 / of_int (m * k)) (Some 4) (Some (1 / 100)) = Inr ?bf"
    by (simp add: bloom_make_def four nextPow2_def nextPow2_loop.simps MAX_BITS_def sizing_loop.simps numeral_2_eq_2)
  have "\<forall>m::int. 0 < (2::rat)" by simp
  from bloom_no_false_negatives[OF mk this, of "[BloomAdd [97], BloomAdd [98, 99]]"] show ?thesis
    using mk by (intro exI[of _ ?bf]) (auto simp: Let_def bitCount_def)
qed

end
