(* ===== verification/UUIDs.thy ===== *)
theory UUIDs
  imports Formats Prng "HOL-Library.List_Lexorder"
begin

text \<open>
  \<open>src/src/UUID.v7.ts\<close> and \<open>src/src/UUID.ts\<close>: time-ordered identifiers, and the checks of identifiers
  given as text.

  The module variables of the generator are a record. A call reads the clock (\<open>Date.now()\<close>, a whole
  number) and may refill the pool from \<open>crypto.getRandomValues\<close>, which gives bytes: both are
  arguments of the step. The text of \<open>HEX[i]\<close> is computed from \<open>toString(16)\<close>.
\<close>

section \<open>The generator\<close>

fun hex_digit :: "int \<Rightarrow> int" where
  "hex_digit d = (if d < 10 then 48 + d else 87 + d)"

text \<open>\<open>n.toString(16)\<close> for \<open>n\<close> not negative.\<close>

function hex_of :: "int \<Rightarrow> jstr" where
  "hex_of n = (if n < 16 then [hex_digit n] else hex_of (n div 16) @ [hex_digit (n mod 16)])"
  by pat_completeness auto
termination by (relation "measure nat") auto

declare hex_of.simps [simp del]

definition HEX_TABLE :: "jstr list" where
  "HEX_TABLE = map (\<lambda>i. drop 1 (hex_of (i + 0x100))) [0..255]"

definition POOL_SIZE :: int where "POOL_SIZE = 4096"
definition RANDOM_BYTES :: int where "RANDOM_BYTES = 10"

record v7_state =
  pool :: "int list"
  poolPos :: int
  lastMs :: int
  v7_counter :: int

definition v7_initial :: v7_state where
  "v7_initial = \<lparr>pool = replicate 4096 0, poolPos = POOL_SIZE, lastMs = -1, v7_counter = 0\<rparr>"

definition resetV7State :: "v7_state \<Rightarrow> v7_state" where
  "resetV7State s = s\<lparr>lastMs := -1\<rparr>"

text \<open>\<open>(a / b) & m\<close>: the quotient is truncated by the conversion to 32 bits.\<close>

definition quot_and :: "int \<Rightarrow> int \<Rightarrow> int \<Rightarrow> int" where
  "quot_and a b m = js_and (if 0 \<le> a then a div b else - (- a div b)) m"

definition seed_counter :: "int list \<Rightarrow> int \<Rightarrow> int" where
  "seed_counter p i = js_or (js_shl (js_and (p ! nat i) 0x07) 8) (p ! nat (i + 1)) * 0x40000000 +
    js_or (js_or (js_or (js_shl (js_and (p ! nat (i + 2)) 0x3f) 24) (js_shl (p ! nat (i + 3)) 16))
      (js_shl (p ! nat (i + 4)) 8)) (p ! nat (i + 5))"

definition v7_text :: "int \<Rightarrow> int \<Rightarrow> int list \<Rightarrow> int \<Rightarrow> jstr" where
  "v7_text ms counter p i = (let
      hi = quot_and counter 0x40000000 0xfff;
      lo = js_and counter 0x3fffffff;
      h = table_text HEX_TABLE in
    h (quot_and ms 0x10000000000 0xff) @ h (quot_and ms 0x100000000 0xff) @
    h (quot_and ms 0x1000000 0xff) @ h (quot_and ms 0x10000 0xff) @ of_text ''-'' @
    h (quot_and ms 0x100 0xff) @ h (js_and ms 0xff) @ of_text ''-'' @
    h (js_or 0x70 (js_ushr hi 8)) @ h (js_and hi 0xff) @ of_text ''-'' @
    h (js_or 0x80 (js_ushr lo 24)) @ h (js_and (js_ushr lo 16) 0xff) @ of_text ''-'' @
    h (js_and (js_ushr lo 8) 0xff) @ h (js_and lo 0xff) @
    h (p ! nat (i + 6)) @ h (p ! nat (i + 7)) @ h (p ! nat (i + 8)) @ h (p ! nat (i + 9)))"

definition v7Impl :: "int \<Rightarrow> int list \<Rightarrow> v7_state \<Rightarrow> jstr \<times> v7_state" where
  "v7Impl now fill s =
    (let s = (if poolPos s + RANDOM_BYTES > POOL_SIZE then s\<lparr>pool := fill, poolPos := 0\<rparr> else s);
         i = poolPos s;
         s = s\<lparr>poolPos := i + RANDOM_BYTES\<rparr>;
         s = (if now > lastMs s then s\<lparr>lastMs := now, v7_counter := seed_counter (pool s) i\<rparr>
              else s\<lparr>v7_counter := v7_counter s + 1\<rparr>)
     in (v7_text (lastMs s) (v7_counter s) (pool s) i, s))"

section \<open>Checked identifiers\<close>

definition NIL :: jstr where "NIL = of_text ''00000000-0000-0000-0000-000000000000''"
definition MAX_UUID :: jstr where "MAX_UUID = of_text ''ffffffff-ffff-ffff-ffff-ffffffffffff''"

definition UUID_RE :: regex where
  "UUID_RE = RxSeq (rx_times 8 (RxSet HEX_DIGITS)) (RxSeq (rx_text ''-'')
    (RxSeq (rx_times 4 (RxSet HEX_DIGITS)) (RxSeq (rx_text ''-'')
    (RxSeq (rx_times 4 (RxSet HEX_DIGITS)) (RxSeq (rx_text ''-'')
    (RxSeq (rx_char ''89abAB'') (RxSeq (rx_times 3 (RxSet HEX_DIGITS))
    (RxSeq (rx_text ''-'') (rx_times 12 (RxSet HEX_DIGITS))))))))))"

text \<open>\<open>toLowerCase\<close> follows the tables of the Unicode standard: the parameter \<open>lower\<close>.\<close>

definition uuid_normalize :: "(jstr \<Rightarrow> jstr) \<Rightarrow> jstr \<Rightarrow> jstr option" where
  "uuid_normalize lower value = (let l = lower value in
    if rx_test UUID_RE l \<or> l = NIL \<or> l = MAX_UUID then Some l else None)"

definition uuid :: "(jstr \<Rightarrow> jstr) \<Rightarrow> jstr \<Rightarrow> jstr outcome" where
  "uuid lower value = (case uuid_normalize lower value of None \<Rightarrow> Inl RangeError | Some l \<Rightarrow> Inr l)"

text \<open>\<open>parseInt(id[14], 16)\<close> of one character or \<open>undefined\<close>; \<^term>\<open>None\<close> is \<open>NaN\<close>.\<close>

definition uuid_version :: "jstr \<Rightarrow> int option" where
  "uuid_version s = (case char_at s 14 of None \<Rightarrow> None
    | Some c \<Rightarrow> if 48 \<le> c \<and> c \<le> 57 then Some (c - 48)
        else if 65 \<le> c \<and> c \<le> 70 then Some (c - 55)
        else if 97 \<le> c \<and> c \<le> 102 then Some (c - 87) else None)"

text \<open>\<open>validateUUID\<close>: \<^term>\<open>None\<close> is a value that is no string; \<open>Inl\<close> is the validation error.\<close>

definition validateUUID :: "(jstr \<Rightarrow> jstr) \<Rightarrow> jstr option \<Rightarrow> string + jstr" where
  "validateUUID lower value = (case value of None \<Rightarrow> Inl ''UUID''
    | Some v \<Rightarrow> (case uuid_normalize lower v of None \<Rightarrow> Inl ''UUID'' | Some l \<Rightarrow> Inr l))"

section \<open>The text of an identifier\<close>

text \<open>Two digits per byte, and \<open>k\<close> bytes of a number, the highest first.\<close>

definition hex2 :: "int \<Rightarrow> jstr" where
  "hex2 b = [hex_digit (b div 16), hex_digit (b mod 16)]"

fun hex_bytes :: "nat \<Rightarrow> int \<Rightarrow> jstr" where
  "hex_bytes 0 x = []"
| "hex_bytes (Suc k) x = hex2 (x div 256 ^ k mod 256) @ hex_bytes k x"

lemma HEX_TABLE_text: "0 \<le> b \<Longrightarrow> b < 256 \<Longrightarrow> table_text HEX_TABLE b = hex2 b"
proof -
  assume b: "0 \<le> b" "b < 256"
  have q: "0 \<le> b div 16" "b div 16 < 16" "(b + 256) div 16 = 16 + b div 16" using b by auto
  have q4: "(b + 256) mod 16 = b mod 16" using mod_mult_self2[of b 16 16] by simp
  have "hex_of (b + 256) = hex_of (16 + b div 16) @ [hex_digit (b mod 16)]"
    using b q(3) q4 hex_of.simps[of "b + 256"] by simp
  also have "hex_of (16 + b div 16) = hex_of ((16 + b div 16) div 16) @ [hex_digit ((16 + b div 16) mod 16)]"
    using q(1) hex_of.simps[of "16 + b div 16"] by simp
  also have "(16 + b div 16) div 16 = 1" using q(1,2) by auto
  also have "(16 + b div 16) mod 16 = b div 16" using q(1,2) by auto
  finally have "drop 1 (hex_of (b + 256)) = hex2 b" by (simp add: hex_of.simps[of 1] hex2_def)
  moreover have "[0..255] ! nat b = b" using b by (simp add: nth_upto)
  ultimately show ?thesis using b by (simp add: table_text_def HEX_TABLE_def js_len_def nth_upto)
qed

lemma js_or_add:
  assumes "0 \<le> a" "a * 2 ^ k + y < 2 ^ 31" "0 \<le> y" "y < 2 ^ k"
  shows "js_or (a * 2 ^ k) y = a * 2 ^ k + y"
proof -
  have "0 \<le> a * 2 ^ k" using assms(1) by simp
  then have "to_int32 (a * 2 ^ k) = a * 2 ^ k" "to_int32 y = y" using assms by (intro to_int32_id; linarith)+
  moreover have "\<not> bit y n" if "k \<le> n" for n
    using assms(3,4) that by (metis bit_take_bit_iff take_bit_int_eq_self not_less)
  then have "push_bit k a AND y = 0"
    by (auto simp: bit_eq_iff bit_and_iff bit_push_bit_iff)
  then have "push_bit k a + y = push_bit k a OR y" by (rule disjunctive_add_eq_or)
  ultimately show ?thesis by (simp add: js_or_def push_bit_eq_mult)
qed

lemma byte_and: "js_and x 255 = x mod 256"
  using js_and_low[of 8 x] by simp

lemma hex_bytes_mod: "hex_bytes k (x mod 256 ^ k) = hex_bytes k x"
proof -
  have "j \<le> k \<Longrightarrow> hex_bytes j (x mod 256 ^ k) = hex_bytes j x" for j
  proof (induction j)
    case (Suc j)
    have "x mod 256 ^ k div 256 ^ j mod 256 = x div 256 ^ j mod 256"
    proof -
      have "(256::int) ^ k = 256 ^ j * 256 ^ (k - j)" using Suc.prems by (simp flip: power_add)
      moreover have "(256::int) dvd 256 ^ (k - j)" using Suc.prems by (intro dvd_power) auto
      ultimately show ?thesis
        by (simp add: zmod_zmult2_eq mod_mod_cancel)
    qed
    then show ?case using Suc by simp
  qed simp
  then show ?thesis by simp
qed

lemma append_less: "(p :: jstr) @ u < p @ v \<longleftrightarrow> u < v"
  by (induction p) auto

lemma hex2_less: "0 \<le> a \<Longrightarrow> a < b \<Longrightarrow> b < 256 \<Longrightarrow> hex2 a @ u < hex2 b @ v"
proof -
  assume ab: "0 \<le> a" "a < b" "b < 256"
  have mono: "0 \<le> c \<Longrightarrow> c < d \<Longrightarrow> d < 16 \<Longrightarrow> hex_digit c < hex_digit d" for c d by simp
  show ?thesis
  proof (cases "a div 16 = b div 16")
    case True
    then have "a mod 16 < b mod 16" using ab div_mult_mod_eq[of a 16] div_mult_mod_eq[of b 16] by linarith
    then show ?thesis using True mono[of "a mod 16" "b mod 16"] by (simp add: hex2_def del: hex_digit.simps)
  next
    case False
    then have "a div 16 < b div 16" using ab by (simp add: order_less_le zdiv_mono1)
    then show ?thesis using ab mono[of "a div 16" "b div 16"] by (simp add: hex2_def del: hex_digit.simps)
  qed
qed

lemma hex_bytes_less: "x mod 256 ^ k < y mod 256 ^ k \<Longrightarrow> hex_bytes k x @ u < hex_bytes k y @ v"
proof (induction k)
  case (Suc k)
  define a b where "a = x div 256 ^ k mod 256" and "b = y div 256 ^ k mod 256"
  have split: "z mod 256 ^ Suc k = 256 ^ k * (z div 256 ^ k mod 256) + z mod 256 ^ k" for z :: int
    by (simp add: zmod_zmult2_eq mult.commute[of 256])
  have less: "256 ^ k * a + x mod 256 ^ k < 256 ^ k * b + y mod 256 ^ k"
    using Suc.prems unfolding split by (simp add: a_def b_def)
  have range: "0 \<le> a" "b < 256" "0 \<le> x mod 256 ^ k" "y mod 256 ^ k < 256 ^ k" by (simp_all add: a_def b_def)
  show ?case
  proof (cases "a = b")
    case True
    then have "x mod 256 ^ k < y mod 256 ^ k" using less by simp
    then show ?thesis using Suc.IH True by (simp add: a_def b_def append_less)
  next
    case False
    have "a < b"
    proof (rule ccontr)
      assume "\<not> a < b"
      then have "b + 1 \<le> a" using False by simp
      then have "256 ^ k * (b + 1) \<le> 256 ^ k * a" by (intro mult_left_mono) auto
      then show False using less range by (simp add: distrib_left)
    qed
    then show ?thesis using range hex2_less[of a b] by (simp add: a_def b_def)
  qed
qed simp

text \<open>The layout: the 48 bits of the time, version and upper counter bits, variant and lower counter bits.\<close>

definition v7_layout :: "int \<Rightarrow> int \<Rightarrow> jstr \<Rightarrow> jstr" where
  "v7_layout ms c rest = hex_bytes 4 (ms div 65536) @ [45] @ hex_bytes 2 ms @ [45] @
    hex_bytes 2 (0x7000 + c div 2 ^ 30) @ [45] @ hex_bytes 2 (0x8000 + c mod 2 ^ 30 div 65536) @ [45] @
    hex_bytes 2 (c mod 2 ^ 30) @ rest"

lemma quot_and_byte: "0 \<le> a \<Longrightarrow> quot_and a b 255 = a div b mod 256"
  by (simp add: quot_and_def byte_and)

lemma div_bytes: "x div 65536 div 256 = x div 0x1000000" "x div 65536 div 65536 = x div 0x100000000"
    "x div 65536 div 16777216 = x div 0x10000000000" for x :: int
  by (simp_all add: zdiv_zmult2_eq[symmetric])

lemma hex_bytes_expand: "hex_bytes 2 x = hex2 (x div 256 mod 256) @ hex2 (x mod 256)"
    "hex_bytes 4 x = hex2 (x div 0x1000000 mod 256) @ hex2 (x div 65536 mod 256) @ hex2 (x div 256 mod 256) @ hex2 (x mod 256)"
  by (simp_all add: eval_nat_numeral)

lemma high_bits:
  assumes "0 \<le> hi" "hi < 4096"
  shows "js_or 0x70 (js_ushr hi 8) = (0x7000 + hi) div 256 mod 256" "(0x7000 + hi) mod 256 = hi mod 256"
proof -
  have "js_ushr hi 8 = hi div 256" using js_ushr_div[of hi 8] assms by simp
  moreover have "hi div 256 < 16" "0 \<le> hi div 256" using assms by auto
  ultimately show "js_or 0x70 (js_ushr hi 8) = (0x7000 + hi) div 256 mod 256"
    using js_or_add[of 7 4 "hi div 256"] by simp
  show "(0x7000 + hi) mod 256 = hi mod 256" using mod_mult_self3[of 112 256 hi] by simp
qed

lemma low_bits:
  assumes "0 \<le> lo" "lo < 2 ^ 30"
  shows "js_or 0x80 (js_ushr lo 24) = (0x8000 + lo div 65536) div 256 mod 256"
    "js_ushr lo 16 mod 256 = (0x8000 + lo div 65536) mod 256" "js_ushr lo 8 mod 256 = lo div 256 mod 256"
proof -
  have "js_ushr lo 24 = lo div 0x1000000" using js_ushr_div[of lo 24] assms by simp
  moreover have "lo div 0x1000000 < 64" "0 \<le> lo div 0x1000000" using assms by auto
  moreover have "(0x8000 + lo div 65536) div 256 = 128 + lo div 0x1000000"
    using div_bytes(1)[of lo] by simp
  ultimately show "js_or 0x80 (js_ushr lo 24) = (0x8000 + lo div 65536) div 256 mod 256"
    using js_or_add[of 1 7 "lo div 0x1000000"] by simp
  show "js_ushr lo 16 mod 256 = (0x8000 + lo div 65536) mod 256"
    using js_ushr_div[of lo 16] assms mod_mult_self3[of 128 256 "lo div 65536"] by simp
  show "js_ushr lo 8 mod 256 = lo div 256 mod 256"
    using js_ushr_div[of lo 8] assms by simp
qed

lemma v7_text_layout:
  assumes "0 \<le> ms" "0 \<le> c" "c < 2 ^ 42" "\<forall>b\<in>set p. 0 \<le> b \<and> b < 256" "0 \<le> i" "i + 10 \<le> js_len p"
  shows "\<exists>rest. v7_text ms c p i = v7_layout ms c rest \<and>
    rest = hex2 (p ! nat (i + 6)) @ hex2 (p ! nat (i + 7)) @ hex2 (p ! nat (i + 8)) @ hex2 (p ! nat (i + 9))"
proof -
  have bytes: "0 \<le> p ! nat (i + j) \<and> p ! nat (i + j) < 256" if "0 \<le> j" "j < 10" for j
    using assms(4-6) that by (auto simp: js_len_def)
  have hi: "0 \<le> c div 2 ^ 30" "c div 2 ^ 30 < 4096" using assms(2,3) by auto
  have "quot_and c 0x40000000 0xfff = c div 2 ^ 30 mod 2 ^ 12"
    using assms(2) js_and_low[of 12 "c div 2 ^ 30"] by (simp add: quot_and_def)
  then have hi_eq: "quot_and c 0x40000000 0xfff = c div 2 ^ 30" using hi by simp
  have lo: "0 \<le> c mod 2 ^ 30" "c mod 2 ^ 30 < 2 ^ 30" by simp_all
  have lo_eq: "js_and c 0x3fffffff = c mod 2 ^ 30" using js_and_low[of 30 c] by simp
  have dash: "of_text ''-'' = [45]" by code_simp
  have h: "table_text HEX_TABLE (x mod 256) = hex2 (x mod 256)" for x by (simp add: HEX_TABLE_text)
  note tails = HEX_TABLE_text[OF conjunct1[OF bytes[of 6]] conjunct2[OF bytes[of 6]], simplified]
    HEX_TABLE_text[OF conjunct1[OF bytes[of 7]] conjunct2[OF bytes[of 7]], simplified]
    HEX_TABLE_text[OF conjunct1[OF bytes[of 8]] conjunct2[OF bytes[of 8]], simplified]
    HEX_TABLE_text[OF conjunct1[OF bytes[of 9]] conjunct2[OF bytes[of 9]], simplified]
  have "v7_text ms c p i = v7_layout ms c
    (hex2 (p ! nat (i + 6)) @ hex2 (p ! nat (i + 7)) @ hex2 (p ! nat (i + 8)) @ hex2 (p ! nat (i + 9)))"
    unfolding v7_text_def v7_layout_def hex_bytes_expand Let_def hi_eq lo_eq dash high_bits[OF hi] low_bits[OF lo] byte_and
      quot_and_byte[OF assms(1)] h tails div_bytes append_assoc byte_and ..
  then show ?thesis by blast
qed

text \<open>The text grows with the time, and with the counter at the same time.\<close>

lemma div_less_cases:
  "(x :: int) < y \<Longrightarrow> 0 < b \<Longrightarrow> x div b < y div b \<or> x div b = y div b \<and> x mod b < y mod b"
proof (cases "x div b = y div b")
  case True
  assume "x < y"
  moreover have "x div b * b + x mod b = x" "x div b * b + y mod b = y"
    using div_mult_mod_eq[of x b] div_mult_mod_eq[of y b] True by simp_all
  ultimately show ?thesis using True by linarith
next
  case False
  assume "x < y" "0 < b"
  then have "x div b \<le> y div b" by (intro zdiv_mono1) auto
  then show ?thesis using False by simp
qed

lemma v7_layout_less:
  assumes "0 \<le> m" "m' < 2 ^ 48" "0 \<le> c" "c' < 2 ^ 42" "m < m' \<or> m = m' \<and> c < c'"
  shows "v7_layout m c r < v7_layout m' c' r'"
proof -
  have dash: "[45] @ u < [45] @ v \<longleftrightarrow> u < v" for u v :: jstr by simp
  have pows: "(256::int) ^ 4 = 2 ^ 32" "(256::int) ^ 2 = 65536" by simp_all
  show ?thesis
  proof (cases "m < m'")
    case True
    have range: "0 \<le> m div 65536" "m div 65536 < 2 ^ 32" "0 \<le> m' div 65536" "m' div 65536 < 2 ^ 32"
      using True assms(1,2) by auto
    consider (high) "m div 65536 < m' div 65536" | (low) "m div 65536 = m' div 65536" "m mod 65536 < m' mod 65536"
      using div_less_cases[OF True, of 65536] by auto
    then show ?thesis
    proof cases
      case high
      then show ?thesis unfolding v7_layout_def using range by (intro hex_bytes_less) (simp add: pows)
    next
      case low
      then show ?thesis unfolding v7_layout_def low(1) append_less dash by (intro hex_bytes_less) (simp add: pows)
    qed
  next
    case False
    then have m: "m = m'" "c < c'" using assms(5) by auto
    define lo lo' where "lo = c mod 2 ^ 30" and "lo' = c' mod 2 ^ 30"
    have lo: "0 \<le> lo" "lo < 2 ^ 30" "0 \<le> lo'" "lo' < 2 ^ 30" by (simp_all add: lo_def lo'_def)
    have hi: "0 \<le> c div 2 ^ 30" "c' div 2 ^ 30 < 4096" "c div 2 ^ 30 < 4096" "0 \<le> c' div 2 ^ 30"
      using m assms(3,4) by auto
    have mid: "lo div 65536 < 2 ^ 14" "lo' div 65536 < 2 ^ 14" "0 \<le> lo div 65536" "0 \<le> lo' div 65536"
      using lo by auto
    consider (high) "c div 2 ^ 30 < c' div 2 ^ 30" | (mid) "c div 2 ^ 30 = c' div 2 ^ 30" "lo div 65536 < lo' div 65536"
      | (low) "c div 2 ^ 30 = c' div 2 ^ 30" "lo div 65536 = lo' div 65536" "lo mod 65536 < lo' mod 65536"
      using div_less_cases[OF m(2), of "2 ^ 30", folded lo_def lo'_def] div_less_cases[of lo lo' 65536]
      by (metis zero_less_numeral zero_less_power)
    then show ?thesis unfolding v7_layout_def m(1) lo_def[symmetric] lo'_def[symmetric] append_less dash
    proof cases
      case high
      then show "hex_bytes 2 (0x7000 + c div 2 ^ 30) @ [45] @ hex_bytes 2 (0x8000 + lo div 65536) @ [45] @ hex_bytes 2 lo @ r
        < hex_bytes 2 (0x7000 + c' div 2 ^ 30) @ [45] @ hex_bytes 2 (0x8000 + lo' div 65536) @ [45] @ hex_bytes 2 lo' @ r'"
      proof (intro hex_bytes_less)
        define h h' where "h = c div 2 ^ 30" and "h' = c' div 2 ^ 30"
        have "0 \<le> h" "h < h'" "h' < 4096" using hi high by (simp_all add: h_def h'_def)
        then have "(0x7000 + h) mod 256 ^ 2 < (0x7000 + h') mod 256 ^ 2" by (simp add: pows)
        then show "(0x7000 + c div 2 ^ 30) mod 256 ^ 2 < (0x7000 + c' div 2 ^ 30) mod 256 ^ 2"
          by (simp only: h_def h'_def)
      qed
    next
      case mid
      then show "hex_bytes 2 (0x7000 + c div 2 ^ 30) @ [45] @ hex_bytes 2 (0x8000 + lo div 65536) @ [45] @ hex_bytes 2 lo @ r
        < hex_bytes 2 (0x7000 + c' div 2 ^ 30) @ [45] @ hex_bytes 2 (0x8000 + lo' div 65536) @ [45] @ hex_bytes 2 lo' @ r'"
        unfolding mid(1) append_less dash using \<open>lo div 65536 < 2 ^ 14\<close> \<open>lo' div 65536 < 2 ^ 14\<close> \<open>0 \<le> lo div 65536\<close>
        by (intro hex_bytes_less) (simp add: pows)
    next
      case low
      then show "hex_bytes 2 (0x7000 + c div 2 ^ 30) @ [45] @ hex_bytes 2 (0x8000 + lo div 65536) @ [45] @ hex_bytes 2 lo @ r
        < hex_bytes 2 (0x7000 + c' div 2 ^ 30) @ [45] @ hex_bytes 2 (0x8000 + lo' div 65536) @ [45] @ hex_bytes 2 lo' @ r'"
        unfolding low(1,2) append_less dash by (intro hex_bytes_less) (simp add: pows)
    qed
  qed
qed

section \<open>Sessions of the generator\<close>

definition is_bytes :: "int list \<Rightarrow> bool" where
  "is_bytes p = (js_len p = POOL_SIZE \<and> (\<forall>b\<in>set p. 0 \<le> b \<and> b < 256))"

fun v7_run :: "(int \<times> int list) list \<Rightarrow> v7_state \<Rightarrow> jstr list" where
  "v7_run [] s = []"
| "v7_run ((now, fill) # xs) s = fst (v7Impl now fill s) # v7_run xs (snd (v7Impl now fill s))"

definition input_ok :: "int \<times> int list \<Rightarrow> bool" where
  "input_ok x = (0 \<le> fst x \<and> fst x < 2 ^ 48 \<and> is_bytes (snd x))"

definition v7_ok :: "nat \<Rightarrow> v7_state \<Rightarrow> bool" where
  "v7_ok n s = (-1 \<le> lastMs s \<and> lastMs s < 2 ^ 48 \<and> 0 \<le> v7_counter s \<and> v7_counter s + int n < 2 ^ 42 \<and>
    is_bytes (pool s) \<and> 0 \<le> poolPos s)"

lemma seed_counter_range:
  assumes "\<forall>b\<in>set p. 0 \<le> b \<and> b < 256" "0 \<le> i" "i + 10 \<le> js_len p"
  shows "0 \<le> seed_counter p i \<and> seed_counter p i < 2 ^ 41"
proof -
  have bytes: "0 \<le> p ! nat (i + j) \<and> p ! nat (i + j) < 256" if "0 \<le> j" "j < 10" for j
    using assms that by (auto simp: js_len_def)
  define b0 b1 b2 b3 b4 b5 where b: "b0 = p ! nat i" "b1 = p ! nat (i + 1)" "b2 = p ! nat (i + 2)"
    "b3 = p ! nat (i + 3)" "b4 = p ! nat (i + 4)" "b5 = p ! nat (i + 5)"
  have r: "0 \<le> b0" "b0 < 256" "0 \<le> b1" "b1 < 256" "0 \<le> b2" "b2 < 256" "0 \<le> b3" "b3 < 256"
    "0 \<le> b4" "b4 < 256" "0 \<le> b5" "b5 < 256"
    using bytes[of 0] bytes[of 1] bytes[of 2] bytes[of 3] bytes[of 4] bytes[of 5] by (simp_all add: b)
  have low: "js_and b0 7 = b0 mod 8" "js_and b2 0x3f = b2 mod 64" using js_and_low[of 3 b0] js_and_low[of 6 b2] by simp_all
  have m: "0 \<le> b0 mod 8" "b0 mod 8 < 8" "0 \<le> b2 mod 64" "b2 mod 64 < 64" by simp_all
  have upper: "js_or (js_shl (b0 mod 8) 8) b1 = (b0 mod 8) * 2 ^ 8 + b1"
    using js_shl_mult[of "b0 mod 8" 8] js_or_add[of "b0 mod 8" 8 b1] m(1,2) r(3,4) by simp
  have "js_or (js_shl (b2 mod 64) 24) (js_shl b3 16) = ((b2 mod 64) * 2 ^ 8 + b3) * 2 ^ 16"
    using js_shl_mult[of "b2 mod 64" 24] js_shl_mult[of b3 16] js_or_add[of "b2 mod 64" 24 "b3 * 2 ^ 16"] m(3,4) r(7,8)
    by simp
  moreover have "js_or (((b2 mod 64) * 2 ^ 8 + b3) * 2 ^ 16) (js_shl b4 8) = (((b2 mod 64) * 2 ^ 8 + b3) * 2 ^ 8 + b4) * 2 ^ 8"
    using js_shl_mult[of b4 8] js_or_add[of "(b2 mod 64) * 2 ^ 8 + b3" 16 "b4 * 2 ^ 8"] m(3,4) r(7-10) by simp
  moreover have "js_or ((((b2 mod 64) * 2 ^ 8 + b3) * 2 ^ 8 + b4) * 2 ^ 8) b5 = (((b2 mod 64) * 2 ^ 8 + b3) * 2 ^ 8 + b4) * 2 ^ 8 + b5"
    using js_or_add[of "((b2 mod 64) * 2 ^ 8 + b3) * 2 ^ 8 + b4" 8 b5] m(3,4) r(7-12) by simp
  ultimately have "seed_counter p i = ((b0 mod 8) * 2 ^ 8 + b1) * 2 ^ 30 + ((((b2 mod 64) * 2 ^ 8 + b3) * 2 ^ 8 + b4) * 2 ^ 8 + b5)"
    unfolding seed_counter_def b[symmetric] low upper by simp
  then show ?thesis using m r by simp
qed

lemma v7_step:
  assumes s: "v7_ok (Suc n) s" and n: "int (Suc n) \<le> 2 ^ 41" and x: "input_ok (now, fill)"
    and eq: "v7Impl now fill s = (u, s')"
  shows "v7_ok n s'" "0 \<le> lastMs s'" "lastMs s < lastMs s' \<or> lastMs s = lastMs s' \<and> v7_counter s < v7_counter s'"
    "\<exists>b0 b1 b2 b3. u = v7_layout (lastMs s') (v7_counter s') (hex2 b0 @ hex2 b1 @ hex2 b2 @ hex2 b3) \<and>
      (\<forall>b\<in>{b0, b1, b2, b3}. 0 \<le> b \<and> b < 256)"
proof -
  define s1 where "s1 = (if poolPos s + RANDOM_BYTES > POOL_SIZE then s\<lparr>pool := fill, poolPos := 0\<rparr> else s)"
  have pool: "is_bytes (pool s1)" "0 \<le> poolPos s1" "poolPos s1 + 10 \<le> js_len (pool s1)"
    and same: "lastMs s1 = lastMs s" "v7_counter s1 = v7_counter s"
    using s x by (auto simp: s1_def v7_ok_def input_ok_def is_bytes_def POOL_SIZE_def RANDOM_BYTES_def)
  have bytes: "\<forall>b\<in>set (pool s1). 0 \<le> b \<and> b < 256" using pool(1) by (simp add: is_bytes_def)
  note seed = seed_counter_range[OF bytes pool(2,3)]
  define s2 where "s2 = s1\<lparr>poolPos := poolPos s1 + RANDOM_BYTES\<rparr>"
  have s': "s' = (if now > lastMs s then s2\<lparr>lastMs := now, v7_counter := seed_counter (pool s1) (poolPos s1)\<rparr>
      else s2\<lparr>v7_counter := v7_counter s + 1\<rparr>)"
    and u: "u = v7_text (lastMs s') (v7_counter s') (pool s1) (poolPos s1)"
    using eq by (auto simp: v7Impl_def Let_def s1_def[symmetric] s2_def same split: if_splits)
  have pos: "0 \<le> poolPos s1 + RANDOM_BYTES" using pool(2) by (simp add: RANDOM_BYTES_def)
  show ok: "v7_ok n s'" "0 \<le> lastMs s'"
    using s x seed n pool pos unfolding s' v7_ok_def input_ok_def by (auto simp: s2_def same)
  show "lastMs s < lastMs s' \<or> lastMs s = lastMs s' \<and> v7_counter s < v7_counter s'"
    unfolding s' by (auto simp: s2_def same)
  have "v7_counter s' < 2 ^ 42" "0 \<le> v7_counter s'" using ok by (simp_all add: v7_ok_def)
  from v7_text_layout[OF ok(2) this(2,1) bytes pool(2,3)]
  have "u = v7_layout (lastMs s') (v7_counter s') (hex2 (pool s1 ! nat (poolPos s1 + 6)) @
      hex2 (pool s1 ! nat (poolPos s1 + 7)) @ hex2 (pool s1 ! nat (poolPos s1 + 8)) @ hex2 (pool s1 ! nat (poolPos s1 + 9)))"
    using u by simp
  moreover have "0 \<le> pool s1 ! nat (poolPos s1 + j) \<and> pool s1 ! nat (poolPos s1 + j) < 256" if "0 \<le> j" "j < 10" for j
    using bytes pool(2,3) that by (auto simp: js_len_def)
  ultimately show "\<exists>b0 b1 b2 b3. u = v7_layout (lastMs s') (v7_counter s') (hex2 b0 @ hex2 b1 @ hex2 b2 @ hex2 b3) \<and>
      (\<forall>b\<in>{b0, b1, b2, b3}. 0 \<le> b \<and> b < 256)"
    by (intro exI[of _ "pool s1 ! nat (poolPos s1 + 6)"] exI[of _ "pool s1 ! nat (poolPos s1 + 7)"]
      exI[of _ "pool s1 ! nat (poolPos s1 + 8)"] exI[of _ "pool s1 ! nat (poolPos s1 + 9)"]) simp
qed

text \<open>An identifier issued after the state \<open>s\<close>.\<close>

definition stamped :: "v7_state \<Rightarrow> jstr \<Rightarrow> bool" where
  "stamped s u = (\<exists>m c b0 b1 b2 b3. u = v7_layout m c (hex2 b0 @ hex2 b1 @ hex2 b2 @ hex2 b3) \<and>
    (\<forall>b\<in>{b0, b1, b2, b3}. 0 \<le> b \<and> b < 256) \<and> 0 \<le> m \<and> m < 2 ^ 48 \<and> 0 \<le> c \<and> c < 2 ^ 42 \<and>
    (lastMs s < m \<or> lastMs s = m \<and> v7_counter s < c))"

lemma v7_run_stamped:
  assumes "v7_ok (length xs) s" "\<forall>x\<in>set xs. input_ok x" "int (length xs) \<le> 2 ^ 41"
  shows "(\<forall>u\<in>set (v7_run xs s). stamped s u) \<and> sorted_wrt (<) (v7_run xs s)"
  using assms
proof (induction xs arbitrary: s)
  case (Cons x xs)
  obtain now fill where x: "x = (now, fill)" by (cases x)
  obtain u s' where eq: "v7Impl now fill s = (u, s')" by (cases "v7Impl now fill s")
  have "v7_ok (Suc (length xs)) s" "int (Suc (length xs)) \<le> 2 ^ 41" "input_ok (now, fill)" using Cons.prems x by auto
  note step = v7_step[OF this eq]
  have ih: "\<forall>u\<in>set (v7_run xs s'). stamped s' u" "sorted_wrt (<) (v7_run xs s')"
    using Cons.IH[OF step(1)] Cons.prems by auto
  obtain b0 b1 b2 b3 where u: "u = v7_layout (lastMs s') (v7_counter s') (hex2 b0 @ hex2 b1 @ hex2 b2 @ hex2 b3)"
    "\<forall>b\<in>{b0, b1, b2, b3}. 0 \<le> b \<and> b < 256" using step(4) by blast
  have ok': "lastMs s' < 2 ^ 48" "0 \<le> v7_counter s'" "v7_counter s' < 2 ^ 42" using step(1) by (simp_all add: v7_ok_def)
  have "stamped s u" unfolding stamped_def using u step(2,3) ok' by blast
  moreover have "stamped s u'" if "stamped s' u'" for u'
  proof -
    from that obtain m c c0 c1 c2 c3 where i: "u' = v7_layout m c (hex2 c0 @ hex2 c1 @ hex2 c2 @ hex2 c3)"
      "\<forall>b\<in>{c0, c1, c2, c3}. 0 \<le> b \<and> b < 256" "0 \<le> m" "m < 2 ^ 48" "0 \<le> c" "c < 2 ^ 42"
      "lastMs s' < m \<or> lastMs s' = m \<and> v7_counter s' < c" unfolding stamped_def by blast
    moreover have "lastMs s < m \<or> lastMs s = m \<and> v7_counter s < c" using i(7) step(3) by auto
    ultimately show ?thesis unfolding stamped_def by blast
  qed
  moreover have "u < u'" if later: "stamped s' u'" for u'
    using later unfolding stamped_def u(1) by (elim exE conjE) (simp add: v7_layout_less step(2) ok'(2))
  ultimately show ?case using ih by (simp add: x eq)
qed simp

section \<open>The form of an identifier\<close>

lemma hex_digit_class: "0 \<le> d \<Longrightarrow> d < 16 \<Longrightarrow> in_class HEX_DIGITS (hex_digit d)"
  by (auto simp: in_class_def HEX_DIGITS_def)

lemma hex2_class: "\<forall>c\<in>set (hex2 (x mod 256)). in_class HEX_DIGITS c" "length (hex2 x) = 2"
proof -
  have "x mod 256 div 16 < 16" "0 \<le> x mod 256 div 16" by auto
  then show "\<forall>c\<in>set (hex2 (x mod 256)). in_class HEX_DIGITS c" "length (hex2 x) = 2"
    by (simp_all add: hex2_def hex_digit_class del: hex_digit.simps)
qed

lemma hex_bytes_class: "\<forall>c\<in>set (hex_bytes k x). in_class HEX_DIGITS c" "length (hex_bytes k x) = 2 * k"
  by (induction k) (use hex2_class in auto)

lemma hex_bytes_lang: "hex_bytes k x \<in> rx_lang (rx_times (2 * k) (RxSet HEX_DIGITS))"
  using hex_bytes_class[of k x] by (simp only: lang_times_set)

lemma tail_lang:
  assumes "\<forall>b\<in>{b0, b1, b2, b3}. 0 \<le> b \<and> b < 256"
  shows "hex_bytes 2 x @ hex2 b0 @ hex2 b1 @ hex2 b2 @ hex2 b3 \<in> rx_lang (rx_times 12 (RxSet HEX_DIGITS))"
proof -
  have "b0 mod 256 = b0" "b1 mod 256 = b1" "b2 mod 256 = b2" "b3 mod 256 = b3" using assms by simp_all
  then show ?thesis
    using hex2_class(1)[of b0] hex2_class(1)[of b1] hex2_class(1)[of b2] hex2_class(1)[of b3] hex_bytes_class[of 2 x]
    unfolding lang_times_set by (auto simp: hex2_class(2))
qed

lemma variant_lang:
  assumes "0 \<le> l" "l < 2 ^ 14"
  shows "\<exists>c r. hex_bytes 2 (0x8000 + l) = [c] @ r \<and> in_class (chars_of ''89abAB'') c \<and>
    r \<in> rx_lang (rx_times 3 (RxSet HEX_DIGITS))"
proof -
  have v: "(0x8000 + l) div 256 mod 256 div 16 = 8 + l div 4096" "0 \<le> l div 4096" "l div 4096 < 4" using assms by auto
  define q where "q = l div 4096"
  then have "q \<in> {0, 1, 2, 3}" using v(2,3) by auto
  moreover have "\<forall>q\<in>{0, 1, 2, 3}. in_class (chars_of ''89abAB'') (hex_digit (8 + q))" by code_simp
  ultimately have c: "in_class (chars_of ''89abAB'') (hex_digit (8 + q))" by blast
  have "hex_bytes 2 (0x8000 + l) = [hex_digit (8 + q)] @ drop 1 (hex_bytes 2 (0x8000 + l))"
    unfolding hex_bytes_expand hex2_def[of "(0x8000 + l) div 256 mod 256"] v(1) q_def by (simp del: hex_digit.simps)
  moreover have "drop 1 (hex_bytes 2 (0x8000 + l)) \<in> rx_lang (rx_times 3 (RxSet HEX_DIGITS))"
    using hex_bytes_class[of 2 "0x8000 + l"] unfolding lang_times_set by (auto dest: in_set_dropD)
  ultimately show ?thesis using c by blast
qed

lemma stamped_form:
  assumes "stamped s u"
  shows "rx_test UUID_RE u" "isUuid u" "uuid_version u = Some 7"
    "\<forall>c\<in>set u. c = 45 \<or> 48 \<le> c \<and> c \<le> 57 \<or> 97 \<le> c \<and> c \<le> 102"
proof -
  obtain m c b0 b1 b2 b3 where u: "u = v7_layout m c (hex2 b0 @ hex2 b1 @ hex2 b2 @ hex2 b3)"
    and b: "\<forall>b\<in>{b0, b1, b2, b3}. 0 \<le> b \<and> b < 256" and c: "0 \<le> c" "c < 2 ^ 42"
    using assms unfolding stamped_def by blast
  have dash: "[45] \<in> rx_lang (rx_text ''-'')" by (simp add: lang_text_iff of_text_def del: rx_text.simps)
  have lo: "0 \<le> c mod 2 ^ 30 div 65536" "c mod 2 ^ 30 div 65536 < 2 ^ 14" by auto
  obtain d r where v: "hex_bytes 2 (0x8000 + c mod 2 ^ 30 div 65536) = [d] @ r" "in_class (chars_of ''89abAB'') d"
      "r \<in> rx_lang (rx_times 3 (RxSet HEX_DIGITS))"
    using variant_lang[OF lo] by blast
  note h4 = hex_bytes_lang[of 4, simplified mult_2_right numeral_plus_numeral]
  have four: "hex_bytes 4 x \<in> rx_lang (rx_times 8 (RxSet HEX_DIGITS))" and
    two: "hex_bytes 2 x \<in> rx_lang (rx_times 4 (RxSet HEX_DIGITS))" for x
    using hex_bytes_lang[of 4 x] hex_bytes_lang[of 2 x] by (simp_all del: rx_times.simps hex_bytes.simps)
  show "isUuid u"
    unfolding isUuid_def rx_test_lang UUID_def rx_lang.simps u v7_layout_def
    by (intro lang_seq_I four two dash tail_lang b)
  have "hex_bytes 4 (m div 65536) @ [45] @ hex_bytes 2 m @ [45] @ hex_bytes 2 (0x7000 + c div 2 ^ 30) @ [45] @
      [d] @ r @ [45] @ hex_bytes 2 (c mod 2 ^ 30) @ hex2 b0 @ hex2 b1 @ hex2 b2 @ hex2 b3 \<in> rx_lang UUID_RE"
    unfolding UUID_RE_def rx_lang.simps
    by (intro lang_seq_I four two dash tail_lang b v(3)) (use v(2) in \<open>simp add: rx_char_def\<close>)
  then show "rx_test UUID_RE u" unfolding rx_test_lang u v7_layout_def v(1) append_assoc .
  have hi: "0 \<le> c div 2 ^ 30" "c div 2 ^ 30 < 4096" using c by auto
  then have "(0x7000 + c div 2 ^ 30) div 256 mod 256 div 16 = 7" by auto
  then have "hd (hex_bytes 2 (0x7000 + c div 2 ^ 30)) = 55" by (simp add: hex_bytes_expand hex2_def)
  then have "char_at u 14 = Some 55"
    using hex_bytes_class(2)[of 4 "m div 65536"] hex_bytes_class(2)[of 2 m] hex_bytes_class(2)[of 2 "0x7000 + c div 2 ^ 30"]
    by (cases "hex_bytes 2 (0x7000 + c div 2 ^ 30)") (simp_all add: u v7_layout_def char_at_append char_at_Cons js_len_def)
  then show "uuid_version u = Some 7" by (simp add: uuid_version_def)
  have digit: "0 \<le> d \<Longrightarrow> d < 16 \<Longrightarrow> 48 \<le> hex_digit d \<and> hex_digit d \<le> 57 \<or> 97 \<le> hex_digit d \<and> hex_digit d \<le> 102" for d
    by auto
  have low: "0 \<le> x \<Longrightarrow> x < 256 \<Longrightarrow> \<forall>c\<in>set (hex2 x). 48 \<le> c \<and> c \<le> 57 \<or> 97 \<le> c \<and> c \<le> 102" for x
    using digit[of "x div 16"] digit[of "x mod 16"] by (simp add: hex2_def del: hex_digit.simps)
  have lows: "\<forall>c\<in>set (hex_bytes k x). 48 \<le> c \<and> c \<le> 57 \<or> 97 \<le> c \<and> c \<le> 102" for k x
  proof (induction k)
    case (Suc k)
    then show ?case using low[of "x div 256 ^ k mod 256"] by (simp add: ball_Un)
  qed simp
  show "\<forall>c\<in>set u. c = 45 \<or> 48 \<le> c \<and> c \<le> 57 \<or> 97 \<le> c \<and> c \<le> 102"
    unfolding u v7_layout_def using lows low b by (simp del: hex_bytes.simps) blast
qed

section \<open>Properties\<close>

text \<open>What \<open>toLowerCase\<close> does to text without upper-case letters: nothing.\<close>

definition lower_keeps :: "(jstr \<Rightarrow> jstr) \<Rightarrow> bool" where
  "lower_keeps lower = (\<forall>s. (\<forall>c\<in>set s. c = 45 \<or> 48 \<le> c \<and> c \<le> 57 \<or> 97 \<le> c \<and> c \<le> 122) \<longrightarrow> lower s = s)"

lemma initial_ok: "int n \<le> 2 ^ 41 \<Longrightarrow> v7_ok n v7_initial"
  by (simp add: v7_ok_def v7_initial_def is_bytes_def js_len_def POOL_SIZE_def)

text \<open>
  C37. Identifiers of one thread are strictly increasing as strings, whatever the clock does between
  the epoch and the year 10889 (stalls and steps back included) and whatever the random bytes are, for
  up to \<open>2 ^ 41\<close> calls.
\<close>

theorem v7_strictly_increasing:
  assumes "\<forall>x\<in>set xs. input_ok x" "int (length xs) \<le> 2 ^ 41"
  shows "sorted_wrt (<) (v7_run xs v7_initial)"
  using v7_run_stamped[OF initial_ok[OF assms(2)] assms] by blast

lemma bytes_255: "is_bytes (replicate 4096 255)"
  by (simp add: is_bytes_def js_len_def POOL_SIZE_def)

text \<open>A clock that steps back.\<close>

theorem v7_strictly_increasing_witness:
  "sorted_wrt (<) (v7_run [(1700000000000, replicate 4096 255), (1699999999999, replicate 4096 255)] v7_initial)"
  by (rule v7_strictly_increasing) (simp_all add: input_ok_def bytes_255)

text \<open>
  C40. Every identifier of the generator is a well-formed UUID of version 7: \<open>isUuid\<close> and the stricter
  \<open>uuid\<close> and \<open>validateUUID\<close> accept it unchanged, and \<open>version\<close> reads 7.
\<close>

theorem v7_is_uuid:
  assumes "\<forall>x\<in>set xs. input_ok x" "int (length xs) \<le> 2 ^ 41" "lower_keeps lower"
  shows "\<forall>u\<in>set (v7_run xs v7_initial).
    isUuid u \<and> uuid lower u = Inr u \<and> validateUUID lower (Some u) = Inr u \<and> uuid_version u = Some 7"
proof
  fix u assume "u \<in> set (v7_run xs v7_initial)"
  then have "stamped v7_initial u" using v7_run_stamped[OF initial_ok[OF assms(2)] assms(1,2)] by blast
  note form = stamped_form[OF this]
  have "\<forall>c\<in>set u. c = 45 \<or> 48 \<le> c \<and> c \<le> 57 \<or> 97 \<le> c \<and> c \<le> 122" using form(4) by fastforce
  then have "lower u = u" using assms(3) unfolding lower_keeps_def by blast
  then have "uuid_normalize lower u = Some u" using form(1) by (simp add: uuid_normalize_def)
  then show "isUuid u \<and> uuid lower u = Inr u \<and> validateUUID lower (Some u) = Inr u \<and> uuid_version u = Some 7"
    using form by (simp add: uuid_def validateUUID_def)
qed

definition ascii_lower :: "jstr \<Rightarrow> jstr" where
  "ascii_lower s = map (\<lambda>c. if 65 \<le> c \<and> c \<le> 90 then c + 32 else c) s"

theorem v7_is_uuid_witness:
  "case v7_run [(1700000000000, replicate 4096 255)] v7_initial of
    [u] \<Rightarrow> isUuid u \<and> uuid ascii_lower u = Inr u \<and> validateUUID ascii_lower (Some u) = Inr u \<and> uuid_version u = Some 7
  | _ \<Rightarrow> False"
proof -
  have "lower_keeps ascii_lower" by (auto simp: lower_keeps_def ascii_lower_def intro!: map_idI)
  moreover have "\<forall>x\<in>set [(1700000000000 :: int, replicate 4096 (255 :: int))]. input_ok x" "int (length [(1700000000000 :: int, replicate 4096 (255 :: int))]) \<le> 2 ^ 41"
    by (simp_all add: input_ok_def bytes_255)
  ultimately show ?thesis using v7_is_uuid[of "[(1700000000000, replicate 4096 255)]" ascii_lower]
    by (simp del: v7_run.simps) (simp split: list.splits)
qed

end
