(* ===== verification/TOON.thy ===== *)
theory TOON
  imports JsStrings JsRegex
begin

text \<open>
  \<open>src/src/schema/TOON.ts\<close>: the runtime helpers that every generated serializer and parser calls. They
  write and read single tokens, rows of cells, key lines and array headers.

  Numbers are a parameter type with what the engine does on them: \<open>num_text\<close> is \<open>"" + n\<close>,
  \<open>num_finite\<close> tells \<open>n - n === 0\<close>, \<open>to_number\<close> is \<open>+s\<close>. A result \<open>null\<close> is \<^term>\<open>None\<close>.
\<close>

record 'n numbers =
  num_text :: "'n \<Rightarrow> jstr"
  num_finite :: "'n \<Rightarrow> bool"
  to_number :: "jstr \<Rightarrow> 'n"

section \<open>When a token is quoted\<close>

fun hex4_digit :: "int \<Rightarrow> int" where
  "hex4_digit d = (if d < 10 then 48 + d else 87 + d)"

definition TOON_ESCAPE_TABLE :: "jstr list" where
  "TOON_ESCAPE_TABLE = ((map (\<lambda>i. [92, 117, 48, 48, hex4_digit (i div 16), hex4_digit (i mod 16)]) [0..31])
    [0x09 := [92, 116]])[0x0a := [92, 110], 0x0d := [92, 114]]"

definition hasEdgeSpace :: "jstr \<Rightarrow> int \<Rightarrow> int \<Rightarrow> bool" where
  "hasEdgeSpace s a z = (if a \<le> 0x20 \<or> z \<le> 0x20 then True
    else (a > 0x7e \<or> z > 0x7e) \<and> js_len (js_trim s) \<noteq> js_len s)"

definition isStructural :: "int \<Rightarrow> bool" where
  "isStructural c = (c < 0x20 \<or> c = 0x3a \<or> c = 0x22 \<or> c = 0x5c \<or> c = 0x5b \<or> c = 0x5d \<or> c = 0x7b \<or> c = 0x7d)"

definition needsQuote :: "jstr \<Rightarrow> int \<Rightarrow> bool" where
  "needsQuote s delimCode = (if s = [] then True
    else if hasEdgeSpace s (hd s) (last s) then True
    else if s = of_text ''true'' \<or> s = of_text ''false'' \<or> s = of_text ''null'' \<or> s = [0x2d] then True
    else if hd s \<ge> 0x30 \<and> hd s \<le> 0x39 then True
    else if hd s = 0x2d \<and> (case char_at s 1 of None \<Rightarrow> False | Some second \<Rightarrow> second \<ge> 0x30 \<and> second \<le> 0x39) then True
    else list_ex (\<lambda>c. isStructural c \<or> c = delimCode) s)"

definition needsKeyQuote :: "jstr \<Rightarrow> int \<Rightarrow> bool" where
  "needsKeyQuote k delimCode = (if k = [] \<or> hasEdgeSpace k (hd k) (last k) then True
    else list_ex (\<lambda>c. isStructural c \<or> c = delimCode) k)"

section \<open>Quoting\<close>

text \<open>The loop of \<open>quote\<close>: position, start of the part not copied yet, output.\<close>

function quote_loop :: "jstr \<Rightarrow> int \<Rightarrow> int \<Rightarrow> jstr \<Rightarrow> jstr" where
  "quote_loop s i start out = (case char_at s i of None \<Rightarrow> out @ str_from s start @ [0x22]
     | Some c \<Rightarrow> if c = 0x5c \<or> c = 0x22 \<or> c < 0x20
         then quote_loop s (i + 1) (i + 1) (out @ str_slice s start i @
           (if c = 0x5c then [0x5c, 0x5c] else if c = 0x22 then [0x5c, 0x22] else TOON_ESCAPE_TABLE ! nat c))
         else quote_loop s (i + 1) start out)"
  by pat_completeness auto
termination by (relation "measure (\<lambda>(s, i, l, out). nat (js_len s - i))") (auto simp: char_at_Some)

declare quote_loop.simps [simp del]

definition quote :: "jstr \<Rightarrow> jstr" where
  "quote s = quote_loop s 0 0 [0x22]"

definition toonQuote :: "jstr \<Rightarrow> int \<Rightarrow> jstr" where
  "toonQuote s delim = (if needsQuote s delim then quote s else s)"

definition encodeKey :: "jstr \<Rightarrow> int \<Rightarrow> jstr" where
  "encodeKey k delimCode = (if needsKeyQuote k delimCode then quote k else k)"

function trim_left :: "jstr \<Rightarrow> int \<Rightarrow> int \<Rightarrow> int" where
  "trim_left s a b = (if a < b \<and> char_at s a = Some 0x20 then trim_left s (a + 1) b else a)"
  by pat_completeness auto
termination by (relation "measure (\<lambda>(s, a, b). nat (b - a))") auto

function trim_right :: "jstr \<Rightarrow> int \<Rightarrow> int \<Rightarrow> int" where
  "trim_right s a b = (if b > a \<and> char_at s (b - 1) = Some 0x20 then trim_right s a (b - 1) else b)"
  by pat_completeness auto
termination by (relation "measure (\<lambda>(s, a, b). nat (b - a))") auto

declare trim_left.simps [simp del] trim_right.simps [simp del]

definition trimSpaces :: "jstr \<Rightarrow> jstr" where
  "trimSpaces s = (let a = trim_left s 0 (js_len s); b = trim_right s a (js_len s)
    in if a = 0 \<and> b = js_len s then s else str_slice s a b)"

text \<open>\<open>parseInt(h, 16)\<close> of four hexadecimal digits.\<close>

definition hex_value :: "int \<Rightarrow> int" where
  "hex_value c = (if c \<le> 57 then c - 48 else if c \<le> 70 then c - 55 else c - 87)"

definition hex4_value :: "jstr \<Rightarrow> int" where
  "hex4_value h = foldl (\<lambda>n c. n * 16 + hex_value c) 0 h"

definition HEX4_RE :: regex where
  "HEX4_RE = rx_times 4 (RxSet [(48, 57), (97, 102), (65, 70)])"

text \<open>
  One escape at position \<open>i\<close>: the text it stands for and how many characters follow the backslash, or
  \<^term>\<open>None\<close> for a malformed one.
\<close>

definition read_escape :: "jstr \<Rightarrow> int \<Rightarrow> int \<Rightarrow> (jstr \<times> int) option" where
  "read_escape s i stop = (case char_at s (i + 1) of None \<Rightarrow> None
     | Some nxt \<Rightarrow> if nxt = 0x6e then Some ([10], 1) else if nxt = 0x72 then Some ([13], 1)
        else if nxt = 0x74 then Some ([9], 1) else if nxt = 0x5c \<or> nxt = 0x22 then Some ([nxt], 1)
        else if nxt = 0x75 \<and> i + 5 < stop \<and> rx_test HEX4_RE (str_slice s (i + 2) (i + 6))
          then Some ([hex4_value (str_slice s (i + 2) (i + 6))], 5)
        else None)"

text \<open>The skip is positive; the guard makes that visible to the termination proof.\<close>

function unquote_loop :: "jstr \<Rightarrow> int \<Rightarrow> int \<Rightarrow> int \<Rightarrow> jstr \<Rightarrow> jstr option" where
  "unquote_loop s i start stop out = (if i < stop then
      if char_at s i = Some 0x22 then None
      else if char_at s i \<noteq> Some 0x5c then unquote_loop s (i + 1) start stop out
      else (case read_escape s i stop of None \<Rightarrow> None
        | Some (rep, skip) \<Rightarrow> unquote_loop s (i + 1 + max 0 skip) (i + 1 + skip) stop (out @ str_slice s start i @ rep))
    else if char_at s stop \<noteq> Some 0x22 \<or> start > stop then None
    else Some (out @ str_slice s start stop))"
  by pat_completeness auto
termination by (relation "measure (\<lambda>(s, i, l, stop, out). nat (stop - i))") auto

declare unquote_loop.simps [simp del]

definition toonUnquote :: "jstr \<Rightarrow> jstr option" where
  "toonUnquote s = (if char_at s 0 \<noteq> Some 0x22 then Some s
    else let stop = js_len s - 1 in
      if index_of s [0x5c] 0 = -1 then
        (if index_of s [0x22] 1 = stop then Some (str_slice s 1 stop) else None)
      else unquote_loop s 1 1 stop [])"

section \<open>Primitive tokens\<close>

datatype 'n toon_value = TString jstr | TNumber 'n | TBool bool | TNull | TUndefined | TMalformed

definition canonicalNumber :: "'n numbers \<Rightarrow> 'n \<Rightarrow> jstr" where
  "canonicalNumber N n = (if num_finite N n then num_text N n else of_text ''null'')"

text \<open>\<open>isDigit\<close>; past the end of a string the code is \<open>NaN\<close>.\<close>

fun isDigit :: "int option \<Rightarrow> bool" where
  "isDigit None = False"
| "isDigit (Some c) = (c \<ge> 0x30 \<and> c \<le> 0x39)"

function number_chars :: "jstr \<Rightarrow> int \<Rightarrow> bool" where
  "number_chars s i = (if i < js_len s - 1 then
      (case char_at s i of None \<Rightarrow> False
       | Some c \<Rightarrow> if isDigit (Some c) \<or> js_or c 0x20 = 0x65 \<or> c = 0x2b \<or> c = 0x2d then number_chars s (i + 1)
           else if c \<noteq> 0x2e \<or> \<not> isDigit (char_at s (i + 1)) then False else number_chars s (i + 1))
    else True)"
  by pat_completeness auto
termination by (relation "measure (\<lambda>(s, i). nat (js_len s - i))") auto

declare number_chars.simps [simp del]

definition parseNumber :: "'n numbers \<Rightarrow> jstr \<Rightarrow> 'n option" where
  "parseNumber N s = (let neg = (if char_at s 0 = Some 0x2d then 1 else 0); lead = char_at s neg in
    if \<not> isDigit lead \<or> (lead = Some 0x30 \<and> isDigit (char_at s (neg + 1))) \<or> \<not> isDigit (char_at s (js_len s - 1))
    then None
    else if \<not> number_chars s (neg + 1) then None
    else let n = to_number N s in if num_finite N n then Some n else None)"

definition decodePrimitive :: "'n numbers \<Rightarrow> jstr \<Rightarrow> 'n toon_value" where
  "decodePrimitive N raw = (if raw = [] then TUndefined
    else if char_at raw 0 = Some 0x22 then (case toonUnquote raw of None \<Rightarrow> TMalformed | Some u \<Rightarrow> TString u)
    else if raw = of_text ''true'' then TBool True
    else if raw = of_text ''false'' then TBool False
    else if raw = of_text ''null'' then TNull
    else (case parseNumber N raw of None \<Rightarrow> TString raw | Some n \<Rightarrow> TNumber n))"

fun primitiveToToon :: "'n numbers \<Rightarrow> 'n toon_value \<Rightarrow> int \<Rightarrow> jstr" where
  "primitiveToToon N (TString s) delim = toonQuote s delim"
| "primitiveToToon N (TNumber n) delim = canonicalNumber N n"
| "primitiveToToon N (TBool b) delim = (if b then of_text ''true'' else of_text ''false'')"
| "primitiveToToon N TNull delim = of_text ''null''"
| "primitiveToToon N _ delim = []"

section \<open>Rows, key lines and headers\<close>

text \<open>The cells found so far are the list; their number is the \<open>idx\<close> of the code.\<close>

function split_loop :: "jstr \<Rightarrow> int \<Rightarrow> int \<Rightarrow> int \<Rightarrow> int \<Rightarrow> bool \<Rightarrow> jstr list \<Rightarrow> jstr list option" where
  "split_loop s dc expected i start inQuote result = (case char_at s i of
      None \<Rightarrow> if js_len result \<noteq> expected - 1 then None else Some (result @ [str_from s start])
    | Some c \<Rightarrow> if inQuote then
          if c = 0x5c then split_loop s dc expected (i + 2) start True result
          else split_loop s dc expected (i + 1) start (c \<noteq> 0x22) result
        else if c = 0x22 then split_loop s dc expected (i + 1) start True result
        else if c = dc then
          if js_len result = expected - 1 then None
          else split_loop s dc expected (i + 1) (i + 1) False (result @ [str_slice s start i])
        else split_loop s dc expected (i + 1) start False result)"
  by pat_completeness auto
termination by (relation "measure (\<lambda>(s, dc, e, i, st, q, r). nat (js_len s - i))") (auto simp: char_at_Some)

declare split_loop.simps [simp del]

definition splitByDelimiter :: "jstr \<Rightarrow> int \<Rightarrow> int \<Rightarrow> jstr list option" where
  "splitByDelimiter s delim expected = (if expected > js_len s + 1 then None
    else split_loop s delim expected 0 0 False [])"

definition getErrorCtx :: "jstr list \<Rightarrow> int \<Rightarrow> jstr" where
  "getErrorCtx lines li = (if li < js_len lines then lines ! nat li else of_text ''end of input'')"

definition readField :: "jstr list \<Rightarrow> int \<Rightarrow> jstr \<Rightarrow> int \<Rightarrow> jstr option" where
  "readField lines li prefix prefixLen = (if li \<ge> js_len lines \<or> \<not> starts_with (lines ! nat li) prefix 0 then None
    else Some (str_from (lines ! nat li) prefixLen))"

definition readTail :: "jstr list \<Rightarrow> int \<Rightarrow> jstr \<Rightarrow> int \<Rightarrow> jstr option" where
  "readTail lines li prefix prefixLen = (if li \<ge> js_len lines \<or> \<not> starts_with (lines ! nat li) prefix 0 then None
    else let c = char_at (lines ! nat li) prefixLen in
      if c = Some 0x3a \<or> c = Some 0x5b then Some (str_from (lines ! nat li) prefixLen) else None)"

text \<open>The two loops of \<open>splitKeyLine\<close> that find the end of the key.\<close>

function quoted_key_end :: "jstr \<Rightarrow> int \<Rightarrow> int" where
  "quoted_key_end line e = (case char_at line e of None \<Rightarrow> e
    | Some c \<Rightarrow> if c = 0x22 then e else quoted_key_end line (e + (if c = 0x5c then 2 else 1)))"
  by pat_completeness auto
termination by (relation "measure (\<lambda>(l, e). nat (js_len l - e))") (auto simp: char_at_Some)

function plain_key_end :: "jstr \<Rightarrow> int \<Rightarrow> int" where
  "plain_key_end line e = (case char_at line e of None \<Rightarrow> e
    | Some c \<Rightarrow> if c \<noteq> 0x3a \<and> c \<noteq> 0x5b then plain_key_end line (e + 1) else e)"
  by pat_completeness auto
termination by (relation "measure (\<lambda>(l, e). nat (js_len l - e))") (auto simp: char_at_Some)

declare quoted_key_end.simps [simp del] plain_key_end.simps [simp del]

definition splitKeyLine :: "jstr \<Rightarrow> int \<Rightarrow> (jstr \<times> jstr) option" where
  "splitKeyLine line padLen = (let c = char_at line padLen in
    if c = Some 0x20 then None
    else let e = (if c = Some 0x22 then quoted_key_end line (padLen + 1) + 1 else plain_key_end line padLen);
        t = char_at line e in
      if e = padLen \<or> (t \<noteq> Some 0x3a \<and> t \<noteq> Some 0x5b) then None
      else (case toonUnquote (str_slice line padLen e) of None \<Rightarrow> None | Some key \<Rightarrow> Some (key, str_from line e)))"

function header_digits :: "jstr \<Rightarrow> int \<Rightarrow> int \<Rightarrow> int \<times> int" where
  "header_digits tail i n = (case char_at tail i of None \<Rightarrow> (i, n)
    | Some c \<Rightarrow> if c \<ge> 0x30 \<and> c \<le> 0x39 then header_digits tail (i + 1) (n * 10 + (c - 0x30)) else (i, n))"
  by pat_completeness auto
termination by (relation "measure (\<lambda>(t, i, n). nat (js_len t - i))") (auto simp: char_at_Some)

declare header_digits.simps [simp del]

definition headerCount :: "jstr \<Rightarrow> int \<Rightarrow> int" where
  "headerCount tail delimCode = (if char_at tail 0 \<noteq> Some 0x5b then -1
    else let (i, n) = header_digits tail 1 0 in
      if i = 1 \<or> n > 0xffffffff then -1
      else let i = (if char_at tail i = Some delimCode then i + 1 else i) in
        if char_at tail i = Some 0x5d then n else -1)"

text \<open>What the serializer writes after the count of an array header.\<close>

definition headerClose :: "int \<Rightarrow> jstr" where
  "headerClose delim = (if delim = 44 then of_text '']'' else delim # of_text '']'')"

function findDiscriminantValue :: "jstr list \<Rightarrow> int \<Rightarrow> jstr \<Rightarrow> jstr \<Rightarrow> jstr option" where
  "findDiscriminantValue lines i pad prefix = (if i < js_len lines \<and> starts_with (lines ! nat i) pad 0 then
      if starts_with (lines ! nat i) prefix 0 then Some (str_from (lines ! nat i) (js_len prefix))
      else findDiscriminantValue lines (i + 1) pad prefix
    else None)"
  by pat_completeness auto
termination by (relation "measure (\<lambda>(l, i, p, q). nat (js_len l - i))") auto

declare findDiscriminantValue.simps [simp del]

text \<open>
  The flexible-order scan. The object \<open>map\<close> has no prototype, so it is a map from keys to line numbers;
  \<open>declared\<close> is \<^term>\<open>None\<close> when every key is allowed. The lines are rewritten in place and returned.
\<close>

function scanBlock_loop :: "jstr list \<Rightarrow> int \<Rightarrow> jstr \<Rightarrow> jstr set option \<Rightarrow> (jstr \<rightharpoonup> int) \<Rightarrow>
    ((jstr \<rightharpoonup> int) \<times> int \<times> int \<times> string) \<times> jstr list" where
  "scanBlock_loop lines i pad declared found =
    (if i < js_len lines \<and> starts_with (lines ! nat i) pad 0 then
      (case splitKeyLine (lines ! nat i) (js_len pad) of
        None \<Rightarrow> if char_at (lines ! nat i) (js_len pad) = Some 0x20 then scanBlock_loop lines (i + 1) pad declared found
          else ((found, i, -1, ''''), lines)
      | Some (key, tail) \<Rightarrow> if found key \<noteq> None then ((found, i, i, ''unique key''), lines)
          else if declared \<noteq> None \<and> key \<notin> the declared then ((found, i, i, ''declared key''), lines)
          else scanBlock_loop (lines[nat i := pad @ encodeKey key (-1) @ tail]) (i + 1) pad declared (found(key \<mapsto> i)))
    else ((found, i, -1, ''''), lines))"
  by pat_completeness auto
termination by (relation "measure (\<lambda>(l, i, p, d, f). nat (js_len l - i))") (auto simp: js_len_def)

declare scanBlock_loop.simps [simp del]

definition scanBlock :: "jstr list \<Rightarrow> int \<Rightarrow> jstr \<Rightarrow> jstr set option \<Rightarrow>
    ((jstr \<rightharpoonup> int) \<times> int \<times> int \<times> string) \<times> jstr list" where
  "scanBlock lines li pad declared = scanBlock_loop lines li pad declared Map.empty"

section \<open>Quoted text\<close>

text \<open>The escaped form of one character.\<close>

definition esc :: "int \<Rightarrow> jstr" where
  "esc c = (if c = 0x5c then [0x5c, 0x5c] else if c = 0x22 then [0x5c, 0x22]
    else if c < 0x20 then TOON_ESCAPE_TABLE ! nat c else [c])"

definition escs :: "jstr \<Rightarrow> jstr" where
  "escs s = concat (map esc s)"

definition special :: "int \<Rightarrow> bool" where
  "special c = (c = 0x5c \<or> c = 0x22 \<or> c < 0x20)"

text \<open>Strings are lists of code units.\<close>

definition units :: "jstr \<Rightarrow> bool" where
  "units s = (\<forall>c\<in>set s. 0 \<le> c \<and> c < 65536)"

lemma quote_loop_ok:
  "quote_loop (p @ m @ t) (js_len p + js_len m) (js_len p) out = out @ m @ escs t @ [0x22]"
proof (induction t arbitrary: p m out)
  case Nil
  have "char_at (p @ m @ []) (js_len p + js_len m) = None" using char_at_end[of "p @ m"] by simp
  then show ?case using str_from_mid[of p m] by (subst quote_loop.simps) (simp add: escs_def)
next
  case (Cons c t)
  have c: "char_at (p @ m @ c # t) (js_len p + js_len m) = Some c" using char_at_mid[of "p @ m" c t] by simp
  show ?case
  proof (cases "special c")
    case True
    then show ?thesis using c str_slice_mid[of p m "c # t"] Cons.IH[of "p @ m @ [c]" "[]"]
      by (subst quote_loop.simps) (auto simp: special_def escs_def esc_def add.assoc)
  next
    case False
    then show ?thesis using c Cons.IH[of p "m @ [c]"]
      by (subst quote_loop.simps) (auto simp: special_def escs_def esc_def add.assoc)
  qed
qed

lemma quote_text: "quote s = [0x22] @ escs s @ [0x22]"
  using quote_loop_ok[of "[]" "[]" s "[0x22]"] by (simp add: quote_def)

text \<open>The shapes of an escape: a backslash and one character, or \<open>\uXXXX\<close>.\<close>

lemma TOON_ESCAPE_TABLE_eq: "TOON_ESCAPE_TABLE = [
    [92, 117, 48, 48, 48, 48], [92, 117, 48, 48, 48, 49], [92, 117, 48, 48, 48, 50], [92, 117, 48, 48, 48, 51],
    [92, 117, 48, 48, 48, 52], [92, 117, 48, 48, 48, 53], [92, 117, 48, 48, 48, 54], [92, 117, 48, 48, 48, 55],
    [92, 117, 48, 48, 48, 56], [92, 116], [92, 110], [92, 117, 48, 48, 48, 98],
    [92, 117, 48, 48, 48, 99], [92, 114], [92, 117, 48, 48, 48, 101], [92, 117, 48, 48, 48, 102],
    [92, 117, 48, 48, 49, 48], [92, 117, 48, 48, 49, 49], [92, 117, 48, 48, 49, 50], [92, 117, 48, 48, 49, 51],
    [92, 117, 48, 48, 49, 52], [92, 117, 48, 48, 49, 53], [92, 117, 48, 48, 49, 54], [92, 117, 48, 48, 49, 55],
    [92, 117, 48, 48, 49, 56], [92, 117, 48, 48, 49, 57], [92, 117, 48, 48, 49, 97], [92, 117, 48, 48, 49, 98],
    [92, 117, 48, 48, 49, 99], [92, 117, 48, 48, 49, 100], [92, 117, 48, 48, 49, 101], [92, 117, 48, 48, 49, 102]]"
  by code_simp

definition esc_shape :: "int \<Rightarrow> jstr \<Rightarrow> bool" where
  "esc_shape c e = (if length e = 2
    then e = [0x5c, e ! 1] \<and> (e ! 1 = 0x6e \<and> c = 10 \<or> e ! 1 = 0x72 \<and> c = 13 \<or> e ! 1 = 0x74 \<and> c = 9)
    else e = [0x5c, 0x75, 48, 48, e ! 4, e ! 5] \<and> rx_test HEX4_RE [48, 48, e ! 4, e ! 5] \<and>
      hex4_value [48, 48, e ! 4, e ! 5] = c \<and> e ! 4 \<noteq> 34 \<and> e ! 4 \<noteq> 92 \<and> e ! 5 \<noteq> 34 \<and> e ! 5 \<noteq> 92)"

lemma esc_shapes: "list_all (\<lambda>(c, e). esc_shape c e) (zip [0..31] TOON_ESCAPE_TABLE)"
  unfolding TOON_ESCAPE_TABLE_eq by code_simp

lemma esc_control:
  assumes "0 \<le> c" "c < 32"
  obtains (short) x where "esc c = [0x5c, x]" "x = 0x6e \<and> c = 10 \<or> x = 0x72 \<and> c = 13 \<or> x = 0x74 \<and> c = 9"
  | (long) h l where "esc c = [0x5c, 0x75, 48, 48, h, l]" "rx_test HEX4_RE [48, 48, h, l]" "hex4_value [48, 48, h, l] = c"
      "h \<noteq> 34 \<and> h \<noteq> 92 \<and> l \<noteq> 34 \<and> l \<noteq> 92"
proof -
  have "length TOON_ESCAPE_TABLE = 32" by (simp add: TOON_ESCAPE_TABLE_eq)
  then have "\<forall>n<32. esc_shape (int n) (TOON_ESCAPE_TABLE ! n)" using esc_shapes by (simp add: list_all_length)
  from this[rule_format, of "nat c"] have "esc_shape c (TOON_ESCAPE_TABLE ! nat c)" using assms by simp
  then have shape: "esc_shape c (esc c)" using assms by (simp add: esc_def)
  show ?thesis
  proof (cases "length (esc c) = 2")
    case True
    then show ?thesis using shape unfolding esc_shape_def by (intro short[of "esc c ! 1"]) (simp_all only: if_True)
  next
    case False
    then show ?thesis using shape unfolding esc_shape_def
      by (intro long[of "esc c ! 4" "esc c ! 5"]) (simp_all only: if_False simp_thms)
  qed
qed

lemma read_escape_ok:
  assumes "special c" "0 \<le> c" "js_len p + js_len (esc c) \<le> stop"
  shows "read_escape (p @ esc c @ r) (js_len p) stop = Some ([c], js_len (esc c) - 1) \<and> (\<exists>x y. esc c = 0x5c # x # y)"
proof (cases "c < 32")
  case True
  from assms(2) True show ?thesis
  proof (cases rule: esc_control)
    case (short x)
    have "char_at (p @ esc c @ r) (js_len p + 1) = Some x" using char_at_mid[of "p @ [0x5c]" x r] by (simp add: short)
    then show ?thesis using short by (auto simp: read_escape_def)
  next
    case (long h l)
    have "char_at (p @ esc c @ r) (js_len p + 1) = Some 0x75"
      using char_at_mid[of "p @ [0x5c]" "0x75" "[48, 48, h, l] @ r"] by (simp add: long(1))
    moreover have "str_slice (p @ esc c @ r) (js_len p + 2) (js_len p + 6) = [48, 48, h, l]"
      using str_slice_mid[of "p @ [0x5c, 0x75]" "[48, 48, h, l]" r] by (simp add: long(1) add.commute[of _ 6])
    ultimately show ?thesis using long assms(3) by (simp add: read_escape_def)
  qed
next
  case False
  then have "esc c = [0x5c, c]" "c = 0x5c \<or> c = 0x22" using assms(1) by (auto simp: special_def esc_def)
  moreover have "char_at (p @ [0x5c, c] @ r) (js_len p + 1) = Some c" using char_at_mid[of "p @ [0x5c]" c r] by simp
  ultimately show ?thesis by (auto simp: read_escape_def)
qed

lemma esc_plain: "\<not> special c \<Longrightarrow> esc c = [c]"
  by (simp add: special_def esc_def)

lemma unquote_loop_ok:
  "units t \<Longrightarrow> \<forall>c\<in>set m. \<not> special c \<Longrightarrow>
    unquote_loop (p @ m @ escs t @ [0x22]) (js_len p + js_len m) (js_len p)
      (js_len p + js_len m + js_len (escs t)) out = Some (out @ m @ t)"
proof (induction t arbitrary: p m out)
  case Nil
  have "char_at (p @ m @ [0x22]) (js_len p + js_len m) = Some 0x22" using char_at_mid[of "p @ m" "0x22" "[]"] by simp
  then show ?case using str_slice_mid[of p m "[0x22]"] by (subst unquote_loop.simps) (simp add: escs_def js_len_def)
next
  case (Cons c t)
  let ?r = "escs t @ [0x22]"
  let ?stop = "js_len p + js_len m + js_len (escs (c # t))"
  have escs: "escs (c # t) = esc c @ escs t" by (simp add: escs_def)
  have c: "0 \<le> c" and t: "units t" using Cons.prems(1) by (auto simp: units_def)
  show ?case
  proof (cases "special c")
    case True
    have "js_len (p @ m) + js_len (esc c) \<le> ?stop" by (simp add: escs)
    note esc = read_escape_ok[OF True c this, of ?r]
    then obtain x y where xy: "esc c = 0x5c # x # y" by blast
    define w where "w = p @ m @ escs (c # t) @ [0x22]"
    define i where "i = js_len p + js_len m"
    have at: "char_at w i = Some 0x5c"
      using char_at_mid[of "p @ m" "0x5c" "x # y @ ?r"] by (simp add: w_def i_def escs xy)
    have slice: "str_slice w (js_len p) i = m" unfolding w_def i_def by (rule str_slice_mid)
    have read: "read_escape w i ?stop = Some ([c], js_len (esc c) - 1)"
      using esc by (simp add: w_def i_def escs)
    have less: "i < ?stop" "0 \<le> js_len (esc c) - 1" by (simp_all add: i_def escs xy js_len_def)
    have "unquote_loop w i (js_len p) ?stop out =
      unquote_loop w (i + js_len (esc c)) (i + js_len (esc c)) ?stop (out @ m @ [c])"
      using less by (subst unquote_loop.simps) (simp add: at read slice max_absorb2)
    also have "\<dots> =
      unquote_loop ((p @ m @ esc c) @ [] @ ?r) (js_len (p @ m @ esc c) + js_len []) (js_len (p @ m @ esc c))
        (js_len (p @ m @ esc c) + js_len [] + js_len (escs t)) (out @ m @ [c])"
      by (simp add: w_def i_def escs add.assoc)
    finally have "unquote_loop (p @ m @ escs (c # t) @ [0x22]) (js_len p + js_len m) (js_len p) ?stop out =
      unquote_loop ((p @ m @ esc c) @ [] @ ?r) (js_len (p @ m @ esc c) + js_len []) (js_len (p @ m @ esc c))
        (js_len (p @ m @ esc c) + js_len [] + js_len (escs t)) (out @ m @ [c])"
      unfolding w_def i_def .
    then show ?thesis using Cons.IH[OF t, of "[]" "p @ m @ esc c" "out @ m @ [c]"] by simp
  next
    case False
    define w where "w = p @ m @ escs (c # t) @ [0x22]"
    define i where "i = js_len p + js_len m"
    have at: "char_at w i = Some c"
      using char_at_mid[of "p @ m" c ?r] False by (simp add: w_def i_def escs esc_plain)
    have "i < ?stop" "c \<noteq> 0x22" "c \<noteq> 0x5c" using False by (auto simp: i_def escs esc_plain js_len_def special_def)
    then have "unquote_loop w i (js_len p) ?stop out = unquote_loop w (i + 1) (js_len p) ?stop out"
      by (subst unquote_loop.simps) (simp add: at)
    also have "\<dots> = unquote_loop (p @ (m @ [c]) @ ?r) (js_len p + js_len (m @ [c])) (js_len p)
        (js_len p + js_len (m @ [c]) + js_len (escs t)) out"
      using False by (simp add: w_def i_def escs esc_plain add.assoc)
    finally have "unquote_loop (p @ m @ escs (c # t) @ [0x22]) (js_len p + js_len m) (js_len p) ?stop out =
      unquote_loop (p @ (m @ [c]) @ ?r) (js_len p + js_len (m @ [c])) (js_len p)
        (js_len p + js_len (m @ [c]) + js_len (escs t)) out"
      unfolding w_def i_def .
    then show ?thesis using Cons.IH[OF t, of "m @ [c]" p out] Cons.prems(2) False by simp
  qed
qed

lemma escs_plain: "\<forall>c\<in>set s. \<not> special c \<Longrightarrow> escs s = s"
  by (induction s) (simp_all add: escs_def esc_plain)

lemma escs_backslash: "units s \<Longrightarrow> \<exists>c\<in>set s. special c \<Longrightarrow> 0x5c \<in> set (escs s)"
proof -
  assume u: "units s" "\<exists>c\<in>set s. special c"
  then obtain c where c: "c \<in> set s" "special c" "0 \<le> c" by (auto simp: units_def)
  then have "0x5c \<in> set (esc c)" using read_escape_ok[of c "[]" "js_len (esc c)" "[]"] by auto
  then show ?thesis using c(1) by (auto simp: escs_def)
qed

lemma unquote_quote: "units s \<Longrightarrow> toonUnquote (quote s) = Some s"
proof -
  assume u: "units s"
  have stop: "js_len (quote s) - 1 = js_len [0x22 :: int] + js_len ([] :: jstr) + js_len (escs s)" by (simp add: quote_text)
  have first: "char_at (quote s) 0 = Some 0x22" by (simp add: quote_text char_at_Cons)
  show ?thesis
  proof (cases "\<exists>c\<in>set s. special c")
    case True
    then have "0x5c \<in> set (quote s)" using escs_backslash[OF u] by (simp add: quote_text)
    then have "find_sub [0x5c] (quote s) \<noteq> None" using find_char_None by blast
    then have "index_of (quote s) [0x5c] 0 \<noteq> -1" by (auto simp: index_of_def)
    moreover have "unquote_loop (quote s) 1 1 (js_len (quote s) - 1) [] = Some s"
      using unquote_loop_ok[OF u, of "[]" "[0x22]" "[]"] by (simp add: quote_text)
    ultimately show ?thesis using first by (simp add: toonUnquote_def Let_def)
  next
    case False
    then have plain: "escs s = s" "0x22 \<notin> set s" "0x5c \<notin> set s" using escs_plain[of s] by (auto simp: special_def)
    then have "index_of (quote s) [0x5c] 0 = -1" by (intro index_of_none) (simp add: quote_text)
    moreover have "index_of (quote s) [0x22] 1 = js_len (quote s) - 1"
      using index_of_hit[of "0x22" s "[0x22]" "[]"] plain by (simp add: quote_text)
    moreover have "str_slice (quote s) 1 (js_len (quote s) - 1) = s"
      using str_slice_mid[of "[0x22]" s "[0x22]"] plain by (simp add: quote_text)
    ultimately show ?thesis using first by (simp add: toonUnquote_def Let_def)
  qed
qed

section \<open>Tokens of strings\<close>

lemma bare_token:
  assumes "\<not> needsQuote s d"
  shows "s \<noteq> []" "\<forall>c\<in>set s. \<not> isStructural c \<and> c \<noteq> d" "hd s > 0x20" "last s > 0x20"
    "s \<noteq> of_text ''true''" "s \<noteq> of_text ''false''" "s \<noteq> of_text ''null''" "parseNumber N s = None"
proof -
  show s: "s \<noteq> []" "\<forall>c\<in>set s. \<not> isStructural c \<and> c \<noteq> d" "hd s > 0x20" "last s > 0x20"
    "s \<noteq> of_text ''true''" "s \<noteq> of_text ''false''" "s \<noteq> of_text ''null''"
    using assms by (auto simp: needsQuote_def hasEdgeSpace_def list_ex_iff split: if_splits)
  have "char_at s 0 = Some (hd s)" using s(1) by (cases s) (auto simp: char_at_Cons)
  then show "parseNumber N s = None"
    using assms by (auto simp: needsQuote_def parseNumber_def Let_def split: if_splits option.splits)
qed

lemma unquote_token: "units s \<Longrightarrow> toonUnquote (toonQuote s d) = Some s"
proof (cases "needsQuote s d")
  case False
  then have "char_at s 0 \<noteq> Some 0x22"
    using bare_token(1,2)[OF False] by (cases s) (auto simp: char_at_Cons isStructural_def)
  then show ?thesis using False by (simp add: toonQuote_def toonUnquote_def)
qed (simp add: toonQuote_def unquote_quote)

lemma decode_token: "units s \<Longrightarrow> decodePrimitive N (toonQuote s d) = TString s"
proof (cases "needsQuote s d")
  case True
  assume "units s"
  moreover have "quote s \<noteq> []" "char_at (quote s) 0 = Some 0x22" by (simp_all add: quote_text char_at_Cons)
  ultimately show ?thesis using True unquote_quote by (simp add: decodePrimitive_def toonQuote_def)
next
  case False
  note b = bare_token(1-7)[OF False] bare_token(8)[OF False, of N]
  have "char_at s 0 \<noteq> Some 0x22" using b(1,2) by (cases s) (auto simp: char_at_Cons isStructural_def)
  then show ?thesis using False b by (simp add: decodePrimitive_def toonQuote_def)
qed

lemma trimSpaces_id: "s = [] \<or> (hd s \<noteq> 0x20 \<and> last s \<noteq> 0x20) \<Longrightarrow> trimSpaces s = s"
proof -
  assume s: "s = [] \<or> (hd s \<noteq> 0x20 \<and> last s \<noteq> 0x20)"
  have "trim_left s 0 (js_len s) = 0" using s by (cases s) (auto simp: trim_left.simps char_at_Cons)
  moreover have "trim_right s 0 (js_len s) = js_len s"
    using s by (cases s rule: rev_cases) (auto simp: trim_right.simps char_at_append char_at_Cons)
  ultimately show ?thesis by (simp add: trimSpaces_def Let_def)
qed

section \<open>Numbers\<close>

text \<open>The number grammar that the comment of \<open>parseNumber\<close> gives.\<close>

definition JSON_NUMBER :: regex where
  "JSON_NUMBER = RxSeq (rx_opt (rx_text ''-''))
    (RxSeq (RxAlt (rx_text ''0'') (RxSeq (RxSet [(49, 57)]) (RxStar (RxSet [(48, 57)]))))
    (RxSeq (rx_opt (RxSeq (rx_text ''.'') (rx_plus (RxSet [(48, 57)]))))
      (rx_opt (RxSeq (rx_char ''eE'') (RxSeq (rx_opt (rx_char ''+-'')) (rx_plus (RxSet [(48, 57)])))))))"

definition digit :: "int \<Rightarrow> bool" where
  "digit c = (48 \<le> c \<and> c \<le> 57)"

text \<open>The scan of the inner characters as a recursion on the rest of the string.\<close>

fun inner_ok :: "jstr \<Rightarrow> bool" where
  "inner_ok (c # d # s) = ((digit c \<or> js_or c 0x20 = 0x65 \<or> c = 0x2b \<or> c = 0x2d \<or> c = 0x2e \<and> digit d) \<and> inner_ok (d # s))"
| "inner_ok _ = True"

lemma number_chars_inner: "number_chars (p @ s) (js_len p) = inner_ok s"
proof (induction s arbitrary: p rule: inner_ok.induct)
  case (1 c d s)
  have "char_at (p @ c # d # s) (js_len p) = Some c" "char_at (p @ c # d # s) (js_len p + 1) = Some d"
    using char_at_mid[of p c "d # s"] char_at_mid[of "p @ [c]" d s] by simp_all
  moreover have "js_len p < js_len (p @ c # d # s) - 1" by (simp add: js_len_def)
  ultimately show ?case using 1[of "p @ [c]"] by (subst number_chars.simps) (auto simp: digit_def)
qed (subst number_chars.simps; simp)+

lemma inner_digits: "\<forall>c\<in>set ds. digit c \<Longrightarrow> ds \<noteq> [] \<Longrightarrow> inner_ok ds"
  by (induction ds rule: inner_ok.induct) auto

lemma inner_append: "\<forall>c\<in>set ds. digit c \<or> js_or c 0x20 = 0x65 \<or> c = 0x2b \<or> c = 0x2d \<Longrightarrow> inner_ok t \<Longrightarrow> inner_ok (ds @ t)"
proof (induction ds)
  case (Cons c ds)
  then show ?case by (cases "ds @ t") auto
qed simp

lemma char_at_last: "s \<noteq> [] \<Longrightarrow> char_at s (js_len s - 1) = Some (last s)"
  by (cases s rule: rev_cases) (simp_all add: char_at_append char_at_Cons)

lemma json_number_scan:
  assumes "rx_test JSON_NUMBER s"
  shows "parseNumber N s = (if num_finite N (to_number N s) then Some (to_number N s) else None)"
    "s \<noteq> []" "\<forall>c\<in>set s. digit c \<or> c = 0x2d \<or> c = 0x2b \<or> c = 0x2e \<or> c = 0x65 \<or> c = 0x45" "digit (hd s) \<or> hd s = 0x2d"
    "digit (last s)"
proof -
  have cls: "in_class [(48, 57)] c = digit c" "in_class [(49, 57)] c = (49 \<le> c \<and> c \<le> 57)" for c
    by (auto simp: in_class_def digit_def)
  have lits: "of_text ''-'' = [0x2d]" "of_text ''0'' = [48]" "of_text ''.'' = [0x2e]" by code_simp+
  have ee: "v \<in> rx_lang (rx_char ''eE'') \<longleftrightarrow> v = [0x65] \<or> v = [0x45]" "v \<in> rx_lang (rx_char ''+-'') \<longleftrightarrow> v = [0x2b] \<or> v = [0x2d]" for v
    by (auto simp: rx_char_def in_class_def chars_of_def of_text_def)
  have "s \<in> rx_lang JSON_NUMBER" using assms by (simp add: rx_test_lang)
  then obtain m a f e where s: "s = m @ a @ f @ e" and "m \<in> rx_lang (rx_opt (rx_text ''-''))"
    "a \<in> rx_lang (RxAlt (rx_text ''0'') (RxSeq (RxSet [(49, 57)]) (RxStar (RxSet [(48, 57)]))))"
    "f \<in> rx_lang (rx_opt (RxSeq (rx_text ''.'') (rx_plus (RxSet [(48, 57)]))))"
    "e \<in> rx_lang (rx_opt (RxSeq (rx_char ''eE'') (RxSeq (rx_opt (rx_char ''+-'')) (rx_plus (RxSet [(48, 57)])))))"
    unfolding JSON_NUMBER_def rx_lang.simps(4) lang_seq_iff by blast
  note parts = this(2-5)
  have m: "m = [] \<or> m = [0x2d]" using parts(1) by (simp add: lang_opt_iff lang_text_iff lits del: rx_text.simps)
  have a: "a = [48] \<or> (\<exists>x ds. a = x # ds \<and> 49 \<le> x \<and> x \<le> 57 \<and> (\<forall>c\<in>set ds. digit c))"
    using parts(2) unfolding rx_lang.simps Un_iff lang_text_iff lits lang_seq_iff lang_star_class cls by auto
  have f: "f = [] \<or> (\<exists>ds. f = 0x2e # ds \<and> ds \<noteq> [] \<and> (\<forall>c\<in>set ds. digit c))"
    using parts(3) unfolding lang_opt_iff rx_lang.simps lang_text_iff lits lang_seq_iff lang_plus_set cls by auto
  have e: "e = [] \<or> (\<exists>x g ds. e = x # g @ ds \<and> (x = 0x65 \<or> x = 0x45) \<and> (g = [] \<or> g = [0x2b] \<or> g = [0x2d]) \<and>
      ds \<noteq> [] \<and> (\<forall>c\<in>set ds. digit c))"
  proof (cases "e = []")
    case False
    then obtain u g ds where e: "e = u @ g @ ds" "u \<in> rx_lang (rx_char ''eE'')" "g \<in> rx_lang (rx_opt (rx_char ''+-''))"
      "ds \<in> rx_lang (rx_plus (RxSet [(48, 57)]))"
      using parts(4) unfolding lang_opt_iff[of e] rx_lang.simps(4) lang_seq_iff by blast
    from e(2) obtain y where "u = [y]" "y = 0x65 \<or> y = 0x45" by (auto simp: ee)
    then show ?thesis using e(1,3,4) unfolding lang_opt_iff lang_plus_set cls ee
      by (intro disjI2 exI[of _ y] exI[of _ g] exI[of _ ds]) auto
  qed simp
  obtain x ds where x: "a = x # ds" "digit x" "\<forall>c\<in>set ds. digit c" "x = 48 \<Longrightarrow> ds = []"
    using a by (auto simp: digit_def)
  have ex: "js_or 0x65 0x20 = 0x65" "js_or 0x45 0x20 = 0x65" by code_simp+
  have e_ok: "inner_ok e" "e = [] \<or> digit (last e)" "e = [] \<or> hd e = 0x65 \<or> hd e = 0x45"
  proof -
    show "inner_ok e"
    proof (cases "e = []")
      case False
      then obtain y g zs where y: "e = (y # g) @ zs" "y = 0x65 \<or> y = 0x45" "g = [] \<or> g = [0x2b] \<or> g = [0x2d]"
        "zs \<noteq> []" "\<forall>c\<in>set zs. digit c" using e by auto
      show ?thesis unfolding y(1) using y ex by (intro inner_append inner_digits) auto
    qed simp
    show "e = [] \<or> digit (last e)" "e = [] \<or> hd e = 0x65 \<or> hd e = 0x45" using e by auto
  qed
  have f_ok: "inner_ok (f @ e)" "f @ e = [] \<or> digit (last (f @ e))" "f @ e = [] \<or> \<not> digit (hd (f @ e))"
  proof -
    have digits: "\<forall>c\<in>set ds. digit c \<Longrightarrow> inner_ok (ds @ e)" for ds using e_ok(1) by (intro inner_append) auto
    show "inner_ok (f @ e)"
    proof (cases f)
      case (Cons c ds)
      then have "c = 0x2e" "ds \<noteq> []" "\<forall>c\<in>set ds. digit c" using f by auto
      then show ?thesis using digits[of ds] Cons by (cases ds) auto
    qed (use e_ok in simp)
    show "f @ e = [] \<or> digit (last (f @ e))" using f e_ok(2) by (cases "e = []") auto
    show "f @ e = [] \<or> \<not> digit (hd (f @ e))" using f e_ok(3) by (cases f) (auto simp: digit_def)
  qed
  have sx: "s = (m @ [x]) @ ds @ f @ e" by (simp add: s x(1))
  have inner: "inner_ok (ds @ f @ e)" using x(3) f_ok(1) inner_append[of ds "f @ e"] by simp
  define neg :: int where "neg = (if char_at s 0 = Some 0x2d then 1 else 0)"
  have neg: "neg = js_len m" using m x(2) by (auto simp: neg_def sx char_at_Cons digit_def)
  have lead: "char_at s neg = Some x" using char_at_mid[of m x "ds @ f @ e"] by (simp add: neg sx)
  have zero: "x = 48 \<Longrightarrow> \<not> isDigit (char_at s (neg + 1))"
  proof -
    assume "x = 48"
    then have "ds = []" by (rule x(4))
    then show ?thesis using f_ok(3) by (cases "f @ e") (auto simp: neg sx char_at_append char_at_Cons digit_def)
  qed
  show "s \<noteq> []" by (simp add: sx)
  show last: "digit (last s)"
    using x(2,3) f_ok(2) by (cases "f @ e = []"; cases "ds = []") (auto simp: sx)
  show "digit (hd s) \<or> hd s = 0x2d" using m x(2) by (auto simp: sx)
  show "\<forall>c\<in>set s. digit c \<or> c = 0x2d \<or> c = 0x2b \<or> c = 0x2e \<or> c = 0x65 \<or> c = 0x45"
    using m x(2,3) f e unfolding sx by auto
  have "number_chars s (neg + 1)" using number_chars_inner[of "m @ [x]" "ds @ f @ e"] inner by (simp add: neg sx)
  moreover have "isDigit (char_at s (js_len s - 1))" using char_at_last[of s] last by (simp add: sx digit_def)
  moreover have "isDigit (Some x)" using x(2) by (simp add: digit_def)
  ultimately show "parseNumber N s = (if num_finite N (to_number N s) then Some (to_number N s) else None)"
    unfolding parseNumber_def Let_def neg_def[symmetric] lead using zero by (cases "x = 48") simp_all
qed

section \<open>Rows\<close>

text \<open>A token that the splitter steps over: no delimiter outside a quoted part.\<close>

definition steps_over :: "int \<Rightarrow> jstr \<Rightarrow> bool" where
  "steps_over d t = (\<forall>p r e start res. split_loop (p @ t @ r) d e (js_len p) start False res =
    split_loop (p @ t @ r) d e (js_len p + js_len t) start False res)"

lemma steps_over_bare: "\<forall>c\<in>set t. c \<noteq> 0x22 \<and> c \<noteq> d \<Longrightarrow> steps_over d t"
proof (induction t)
  case (Cons c t)
  show ?case
    unfolding steps_over_def
  proof (intro allI)
    fix p r e start res
    have at: "char_at (p @ c # t @ r) (js_len p) = Some c" by (rule char_at_mid)
    have ih: "split_loop ((p @ [c]) @ t @ r) d e (js_len (p @ [c])) start False res =
        split_loop ((p @ [c]) @ t @ r) d e (js_len (p @ [c]) + js_len t) start False res"
      using Cons unfolding steps_over_def by (meson list.set_intros(2))
    have "split_loop (p @ (c # t) @ r) d e (js_len p) start False res = split_loop (p @ (c # t) @ r) d e (js_len p + 1) start False res"
      using Cons.prems by (subst split_loop.simps) (simp add: at)
    then show "split_loop (p @ (c # t) @ r) d e (js_len p) start False res =
        split_loop (p @ (c # t) @ r) d e (js_len p + js_len (c # t)) start False res"
      using ih by (simp add: add.assoc)
  qed
qed (simp add: steps_over_def)

text \<open>
  Two scans look for the end of a quoted part, one character at a time and two after a backslash. What
  they promise is enough to step over the escaped form of any text.
\<close>

locale quoted_scan =
  fixes scan :: "jstr \<Rightarrow> int \<Rightarrow> 'a"
  assumes plain: "c \<noteq> 0x22 \<Longrightarrow> c \<noteq> 0x5c \<Longrightarrow> scan (p @ c # r) (js_len p) = scan (p @ c # r) (js_len p + 1)"
    and pair: "scan (p @ 0x5c # c # r) (js_len p) = scan (p @ 0x5c # c # r) (js_len p + 2)"
begin

lemma over_esc:
  assumes "0 \<le> c"
  shows "scan (p @ esc c @ r) (js_len p) = scan (p @ esc c @ r) (js_len p + js_len (esc c))"
proof (cases "special c")
  case False
  then show ?thesis using plain[of c p r] by (simp add: esc_plain special_def)
next
  case True
  show ?thesis
  proof (cases "c < 32")
    case False
    then have "esc c = [0x5c, c]" using True by (auto simp: special_def esc_def)
    then show ?thesis using pair[of p c r] by simp
  next
    case True
    from assms True show ?thesis
    proof (cases rule: esc_control)
      case (short x)
      then show ?thesis using pair[of p x r] by simp
    next
      case (long h l)
      have q: "scan (p @ esc c @ r) i = scan (p @ esc c @ r) (i + 1)"
        if "i = js_len p + 2 \<or> i = js_len p + 3 \<or> i = js_len p + 4 \<or> i = js_len p + 5" for i
        using that long(4) plain[of 48 "p @ [0x5c, 0x75]" "[48, h, l] @ r"] plain[of 48 "p @ [0x5c, 0x75, 48]" "[h, l] @ r"]
          plain[of h "p @ [0x5c, 0x75, 48, 48]" "[l] @ r"] plain[of l "p @ [0x5c, 0x75, 48, 48, h]" r]
        unfolding long(1) by (elim disjE) (simp_all add: add.commute)
      have "scan (p @ esc c @ r) (js_len p) = scan (p @ esc c @ r) (js_len p + 2)"
        using pair[of p "0x75" "[48, 48, h, l] @ r"] unfolding long(1) by simp
      also have "\<dots> = scan (p @ esc c @ r) (js_len p + 6)"
        using q[of "js_len p + 2"] q[of "js_len p + 3"] q[of "js_len p + 4"] q[of "js_len p + 5"] by (simp add: add.commute)
      finally show ?thesis by (simp add: long(1))
    qed
  qed
qed

lemma over_escs: "units t \<Longrightarrow> scan (p @ escs t @ r) (js_len p) = scan (p @ escs t @ r) (js_len p + js_len (escs t))"
proof (induction t arbitrary: p)
  case (Cons c t)
  then have "0 \<le> c" "units t" by (auto simp: units_def)
  then show ?case using Cons.IH[of "p @ esc c"] over_esc[of c p "escs t @ r"] by (simp add: escs_def add.assoc)
qed (simp add: escs_def)

end

interpretation row_scan: quoted_scan "\<lambda>w i. split_loop w d e i start True res" for d e start res
proof
  show "c \<noteq> 0x22 \<Longrightarrow> c \<noteq> 0x5c \<Longrightarrow> split_loop (p @ c # r) d e (js_len p) start True res =
      split_loop (p @ c # r) d e (js_len p + 1) start True res" for c p r
    using char_at_mid[of p c r] by (subst split_loop.simps) simp
  show "split_loop (p @ 0x5c # x # r) d e (js_len p) start True res =
      split_loop (p @ 0x5c # x # r) d e (js_len p + 2) start True res" for p x r
    using char_at_mid[of p "0x5c" "x # r"] by (subst split_loop.simps) simp
qed

interpretation key_scan: quoted_scan quoted_key_end
proof
  show "c \<noteq> 0x22 \<Longrightarrow> c \<noteq> 0x5c \<Longrightarrow> quoted_key_end (p @ c # r) (js_len p) = quoted_key_end (p @ c # r) (js_len p + 1)" for c p r
    using char_at_mid[of p c r] by (subst quoted_key_end.simps) simp
  show "quoted_key_end (p @ 0x5c # x # r) (js_len p) = quoted_key_end (p @ 0x5c # x # r) (js_len p + 2)" for p x r
    using char_at_mid[of p "0x5c" "x # r"] by (subst quoted_key_end.simps) simp
qed

lemma steps_over_quote: "units s \<Longrightarrow> steps_over d (quote s)"
  unfolding steps_over_def
proof (intro allI)
  fix p r e start res
  assume u: "units s"
  let ?w = "p @ quote s @ r"
  have w: "?w = p @ 0x22 # escs s @ 0x22 # r" by (simp add: quote_text)
  have open_: "char_at ?w (js_len p) = Some 0x22" unfolding w by (rule char_at_mid)
  have close: "char_at ?w (js_len p + 1 + js_len (escs s)) = Some 0x22"
    using char_at_mid[of "p @ [0x22] @ escs s" "0x22" r] by (simp add: w add.assoc)
  have "split_loop ?w d e (js_len p) start False res = split_loop ?w d e (js_len p + 1) start True res"
    by (subst split_loop.simps) (simp add: open_)
  also have "\<dots> = split_loop ?w d e (js_len p + 1 + js_len (escs s)) start True res"
    using row_scan.over_escs[OF u, of "p @ [0x22]" "0x22 # r"] by (simp add: w)
  also have "\<dots> = split_loop ?w d e (js_len p + 1 + js_len (escs s) + 1) start False res"
    by (subst split_loop.simps) (simp add: close)
  also have "js_len p + 1 + js_len (escs s) + 1 = js_len p + js_len (quote s)" by (simp add: quote_text)
  finally show "split_loop ?w d e (js_len p) start False res = split_loop ?w d e (js_len p + js_len (quote s)) start False res" .
qed

text \<open>Cells that a token can carry. Of numbers: their text is a JSON number and reads back as the number.\<close>

fun cell_ok :: "'n numbers \<Rightarrow> 'n toon_value \<Rightarrow> bool" where
  "cell_ok N (TString s) = units s"
| "cell_ok N (TNumber n) = (num_finite N n \<and> rx_test JSON_NUMBER (num_text N n) \<and> to_number N (num_text N n) = n)"
| "cell_ok N TMalformed = False"
| "cell_ok N _ = True"

lemma words: "of_text ''true'' = [116, 114, 117, 101]" "of_text ''false'' = [102, 97, 108, 115, 101]"
    "of_text ''null'' = [110, 117, 108, 108]"
  by code_simp+

lemma cell_steps_over:
  assumes "cell_ok N v" "d \<in> {9, 44, 124}"
  shows "steps_over d (primitiveToToon N v d)"
proof (cases v)
  case (TString s)
  show ?thesis
  proof (cases "needsQuote s d")
    case True
    then show ?thesis using TString assms(1) steps_over_quote by (simp add: toonQuote_def)
  next
    case False
    then show ?thesis using TString bare_token(2)[OF False]
      by (simp add: toonQuote_def) (rule steps_over_bare, auto simp: isStructural_def)
  qed
next
  case (TNumber n)
  then have "num_finite N n" "rx_test JSON_NUMBER (num_text N n)" using assms(1) by auto
  then show ?thesis using TNumber json_number_scan(3)[of "num_text N n"] assms(2)
    by (simp add: canonicalNumber_def) (rule steps_over_bare, auto simp: digit_def)
qed (use assms in \<open>auto simp: words intro!: steps_over_bare\<close>)

lemma cell_decodes:
  assumes "cell_ok N v"
  shows "decodePrimitive N (trimSpaces (primitiveToToon N v d)) = v"
proof (cases v)
  case (TString s)
  have "hd (toonQuote s d) \<noteq> 0x20 \<and> last (toonQuote s d) \<noteq> 0x20"
    using bare_token(3,4)[of s d] by (cases "needsQuote s d") (auto simp: toonQuote_def quote_text)
  then show ?thesis using TString assms decode_token[of s N d] by (simp add: trimSpaces_id)
next
  case (TNumber n)
  then have n: "num_finite N n" "rx_test JSON_NUMBER (num_text N n)" "to_number N (num_text N n) = n" using assms by auto
  note scan = json_number_scan[OF n(2)]
  have "trimSpaces (num_text N n) = num_text N n" using scan(4,5) by (intro trimSpaces_id) (auto simp: digit_def)
  moreover have "char_at (num_text N n) 0 = Some (hd (num_text N n))" using scan(2) by (cases "num_text N n") (auto simp: char_at_Cons)
  moreover have "num_text N n \<noteq> of_text ''true''" "num_text N n \<noteq> of_text ''false''" "num_text N n \<noteq> of_text ''null''"
    using scan(4) by (auto simp: words digit_def)
  ultimately show ?thesis using TNumber n scan(1)[of N] scan(2,4)
    by (auto simp: canonicalNumber_def decodePrimitive_def digit_def)
qed (use assms in \<open>auto simp: words trimSpaces_id decodePrimitive_def char_at_Cons\<close>)

lemma split_row:
  "ts \<noteq> [] \<Longrightarrow> \<forall>t\<in>set ts. steps_over d t \<Longrightarrow> d \<noteq> 0x22 \<Longrightarrow>
    split_loop (p @ join_on [d] ts) d (js_len res + js_len ts) (js_len p) (js_len p) False res = Some (res @ ts)"
proof (induction ts arbitrary: p res rule: induct_list012)
  case (2 t)
  have "split_loop (p @ t @ []) d (js_len res + 1) (js_len p) (js_len p) False res =
      split_loop (p @ t @ []) d (js_len res + 1) (js_len p + js_len t) (js_len p) False res"
    using 2(2) unfolding steps_over_def by (meson list.set_intros(1))
  moreover have "char_at (p @ t) (js_len p + js_len t) = None" using char_at_end[of "p @ t"] by simp
  ultimately show ?case using str_from_mid[of p t] by (simp add: split_loop.simps[of _ _ _ "js_len p + js_len t"])
next
  case (3 t u ts)
  let ?w = "p @ t @ d # join_on [d] (u # ts)" and ?e = "js_len res + js_len (t # u # ts)"
  have "split_loop ?w d ?e (js_len p) (js_len p) False res = split_loop ?w d ?e (js_len p + js_len t) (js_len p) False res"
    using 3(4) unfolding steps_over_def by (meson list.set_intros(1))
  moreover have "split_loop ?w d ?e (js_len p + js_len t) (js_len p) False res =
      split_loop ?w d ?e (js_len p + js_len t + 1) (js_len p + js_len t + 1) False (res @ [t])"
  proof -
    have "char_at ?w (js_len p + js_len t) = Some d" using char_at_mid[of "p @ t" d] by simp
    moreover have "js_len res \<noteq> ?e - 1" by (simp add: js_len_def)
    moreover have "str_slice ?w (js_len p) (js_len p + js_len t) = t" by (rule str_slice_mid)
    ultimately show ?thesis using 3(5) by (subst split_loop.simps) simp
  qed
  ultimately have "split_loop ?w d ?e (js_len p) (js_len p) False res =
      split_loop ?w d ?e (js_len p + js_len t + 1) (js_len p + js_len t + 1) False (res @ [t])" by simp
  then show ?case using 3(2)[of "p @ t @ [d]" "res @ [t]"] 3(4,5) by (simp add: add.assoc)
qed simp

lemma join_length: "js_len ts \<le> js_len (join_on [d] ts) + 1"
proof -
  have "length ts \<le> Suc (length (join_on [d] ts))" by (induction ts rule: induct_list012) auto
  then show ?thesis by (simp add: js_len_def)
qed

section \<open>Key lines and headers\<close>

lemma plain_key_end_ok:
  "\<forall>c\<in>set k. c \<noteq> 0x3a \<and> c \<noteq> 0x5b \<Longrightarrow> c = 0x3a \<or> c = 0x5b \<Longrightarrow>
    plain_key_end (p @ k @ c # r) (js_len p) = js_len p + js_len k"
proof (induction k arbitrary: p)
  case Nil
  then show ?case using char_at_mid[of p c r] by (subst plain_key_end.simps) auto
next
  case (Cons x k)
  have "char_at (p @ x # k @ c # r) (js_len p) = Some x" by (rule char_at_mid)
  then show ?case using Cons.prems Cons.IH[of "p @ [x]"] by (subst plain_key_end.simps) (simp add: add.assoc)
qed

lemma key_end_escs: "units t \<Longrightarrow> quoted_key_end (p @ escs t @ 0x22 # r) (js_len p) = js_len p + js_len (escs t)"
proof -
  have "char_at (p @ escs t @ 0x22 # r) (js_len p + js_len (escs t)) = Some 0x22"
    using char_at_mid[of "p @ escs t" "0x22" r] by simp
  then have "quoted_key_end (p @ escs t @ 0x22 # r) (js_len p + js_len (escs t)) = js_len p + js_len (escs t)"
    by (subst quoted_key_end.simps) simp
  then show "units t \<Longrightarrow> ?thesis" using key_scan.over_escs[of t p "0x22 # r"] by simp
qed

lemma key_line:
  assumes "units k" "tl0 = 0x3a # r \<or> tl0 = 0x5b # r"
  shows "splitKeyLine (pad @ encodeKey k d @ tl0) (js_len pad) = Some (k, tl0)"
proof -
  obtain t where t: "tl0 = t # r" "t = 0x3a \<or> t = 0x5b" using assms(2) by auto
  show ?thesis
  proof (cases "needsKeyQuote k d")
    case True
    let ?w = "pad @ quote k @ t # r"
    have w: "?w = pad @ 0x22 # escs k @ 0x22 # t # r" by (simp add: quote_text)
    have first: "char_at ?w (js_len pad) = Some 0x22" unfolding w by (rule char_at_mid)
    have stop: "quoted_key_end ?w (js_len pad + 1) + 1 = js_len pad + js_len (quote k)"
      using key_end_escs[OF assms(1), of "pad @ [0x22]" "t # r"] by (simp add: quote_text)
    have at: "char_at ?w (js_len pad + js_len (quote k)) = Some t" using char_at_mid[of "pad @ quote k" t r] by simp
    have slices: "str_slice ?w (js_len pad) (js_len pad + js_len (quote k)) = quote k"
      "str_from ?w (js_len pad + js_len (quote k)) = t # r"
      using str_slice_mid[of pad "quote k" "t # r"] str_from_mid[of "pad @ quote k" "t # r"] by simp_all
    have "js_len (quote k) \<noteq> 0" by (simp add: quote_text js_len_def)
    then show ?thesis
      using True t unquote_quote[OF assms(1)]
      by (simp add: encodeKey_def splitKeyLine_def Let_def first stop at slices)
  next
    case False
    let ?w = "pad @ k @ t # r"
    have k: "k \<noteq> []" "hd k > 0x20" "\<forall>c\<in>set k. \<not> isStructural c"
      using False by (auto simp: needsKeyQuote_def hasEdgeSpace_def list_ex_iff split: if_splits)
    obtain c k' where c: "k = c # k'" using k(1) by (cases k) auto
    have first: "char_at ?w (js_len pad) = Some c" using char_at_mid[of pad c "k' @ t # r"] by (simp add: c)
    have ck: "c \<noteq> 0x20" "c \<noteq> 0x22" using k(2,3) c by (auto simp: isStructural_def)
    have stop: "plain_key_end ?w (js_len pad) = js_len pad + js_len k"
      using k(3) t(2) by (intro plain_key_end_ok) (auto simp: isStructural_def)
    have at: "char_at ?w (js_len pad + js_len k) = Some t" using char_at_mid[of "pad @ k" t r] by simp
    have slices: "str_slice ?w (js_len pad) (js_len pad + js_len k) = k" "str_from ?w (js_len pad + js_len k) = t # r"
      using str_slice_mid[of pad k "t # r"] str_from_mid[of "pad @ k" "t # r"] by simp_all
    have "toonUnquote k = Some k" using ck(2) by (simp add: toonUnquote_def c char_at_Cons)
    moreover have "js_len k \<noteq> 0" by (simp add: c js_len_def)
    ultimately show ?thesis
      using False t ck by (simp add: encodeKey_def splitKeyLine_def Let_def first stop at slices)
  qed
qed

lemma header_digits_ok:
  "\<forall>c\<in>set ds. digit c \<Longrightarrow> \<not> digit x \<Longrightarrow> header_digits (p @ ds @ x # r) (js_len p) n =
    (js_len p + js_len ds, foldl (\<lambda>n c. n * 10 + (c - 48)) n ds)"
proof (induction ds arbitrary: p n)
  case Nil
  then show ?case using char_at_mid[of p x r] by (subst header_digits.simps) (auto simp: digit_def)
next
  case (Cons c ds)
  have "char_at (p @ c # ds @ x # r) (js_len p) = Some c" by (rule char_at_mid)
  then show ?case using Cons.prems Cons.IH[of "p @ [c]"] by (subst header_digits.simps) (simp add: digit_def add.assoc)
qed

lemma digits_of_digits: "0 \<le> n \<Longrightarrow> (\<forall>c\<in>set (digits_of n). digit c) \<and> digits_of n \<noteq> [] \<and>
    foldl (\<lambda>n c. n * 10 + (c - 48)) 0 (digits_of n) = n"
proof (induction n rule: digits_of.induct)
  case (1 n)
  show ?case
  proof (cases "n < 10")
    case True
    then show ?thesis using 1(2) by (simp add: digits_of_1 digit_def)
  next
    case False
    have "0 \<le> n div 10" "0 \<le> n mod 10" "n mod 10 < 10" using 1(2) by auto
    then show ?thesis using 1(1)[OF False] False by (simp add: digits_of_step digit_def)
  qed
qed

lemma header_line:
  assumes "0 \<le> n" "n \<le> 0xffffffff" "d \<in> {9, 44, 124}"
  shows "headerCount ([0x5b] @ str_of_int n @ headerClose d @ r) d = n"
proof -
  let ?ds = "digits_of n"
  note ds = digits_of_digits[OF assms(1)]
  have lit: "of_text '']'' = [93]" by code_simp
  have str: "str_of_int n = ?ds" using assms(1) by (simp add: str_of_int_def)
  have len: "js_len ?ds \<noteq> 0" using ds by (simp add: js_len_def)
  show ?thesis
  proof (cases "d = 44")
    case True
    let ?w = "[0x5b] @ ?ds @ 93 # r"
    have "header_digits ?w 1 0 = (1 + js_len ?ds, n)" using header_digits_ok[of ?ds 93 "[0x5b]" r 0] ds by (simp add: digit_def)
    moreover have "char_at ?w (1 + js_len ?ds) = Some 93" using char_at_mid[of "[0x5b] @ ?ds" 93 r] by simp
    moreover have "char_at ?w 0 = Some 0x5b" by (simp add: char_at_Cons)
    ultimately show ?thesis using len assms(2) True by (simp add: headerCount_def headerClose_def lit str)
  next
    case False
    let ?w = "[0x5b] @ ?ds @ d # 93 # r"
    have "header_digits ?w 1 0 = (1 + js_len ?ds, n)"
      using header_digits_ok[of ?ds d "[0x5b]" "93 # r" 0] ds assms(3) by (auto simp: digit_def)
    moreover have "char_at ?w (1 + js_len ?ds) = Some d" using char_at_mid[of "[0x5b] @ ?ds" d "93 # r"] by simp
    moreover have "char_at ?w (1 + js_len ?ds + 1) = Some 93" using char_at_mid[of "[0x5b] @ ?ds @ [d]" 93 r] by simp
    moreover have "char_at ?w 0 = Some 0x5b" by (simp add: char_at_Cons)
    ultimately show ?thesis using len assms(2) False by (simp add: headerCount_def headerClose_def lit str)
  qed
qed

section \<open>Properties\<close>

text \<open>
  C35. A row of cells survives the trip: for every delimiter and every list of strings (any code
  units), numbers, booleans, \<open>null\<close> and absent values, writing the cells with \<open>primitiveToToon\<close>, joining
  them, splitting the line again, trimming and decoding each token gives the cells back. A number is one
  that is finite and that the engine prints in the JSON grammar and reads back.
\<close>

theorem toon_row_roundtrip:
  assumes "d \<in> {9, 44, 124}" "vs \<noteq> []" "\<forall>v\<in>set vs. cell_ok N v"
  shows "map_option (map (\<lambda>t. decodePrimitive N (trimSpaces t)))
    (splitByDelimiter (join_on [d] (map (\<lambda>v. primitiveToToon N v d) vs)) d (js_len vs)) = Some vs"
proof -
  let ?ts = "map (\<lambda>v. primitiveToToon N v d) vs"
  have "\<forall>t\<in>set ?ts. steps_over d t" using cell_steps_over[OF _ assms(1)] assms(3) by auto
  then have "split_loop (join_on [d] ?ts) d (js_len vs) 0 0 False [] = Some ?ts"
    using split_row[of ?ts d "[]" "[]"] assms(1,2) by (auto simp: js_len_def)
  moreover have "\<not> js_len vs > js_len (join_on [d] ?ts) + 1" using join_length[of ?ts d] by (simp add: js_len_def)
  ultimately have "splitByDelimiter (join_on [d] ?ts) d (js_len vs) = Some ?ts" by (simp add: splitByDelimiter_def)
  then show ?thesis using assms(3) by (simp add: cell_decodes comp_def map_idI)
qed

text \<open>Whole numbers with their decimal text; a string with a delimiter, one that looks like a number, \<open>null\<close>.\<close>

definition whole_numbers :: "int numbers" where
  "whole_numbers = \<lparr>num_text = str_of_int, num_finite = (\<lambda>_. True), to_number =
    (\<lambda>s. if s \<noteq> [] \<and> hd s = 45 then - foldl (\<lambda>n c. n * 10 + (c - 48)) 0 (tl s) else foldl (\<lambda>n c. n * 10 + (c - 48)) 0 s)\<rparr>"

theorem toon_row_roundtrip_witness:
  "map_option (map (\<lambda>t. decodePrimitive whole_numbers (trimSpaces t)))
    (splitByDelimiter (join_on [44] (map (\<lambda>v. primitiveToToon whole_numbers v 44)
      [TString [97, 44, 34], TString [49], TNumber (-70), TNull])) 44 4) =
    Some [TString [97, 44, 34], TString [49], TNumber (-70), TNull]"
proof -
  have "rx_test JSON_NUMBER (str_of_int (-70))" "foldl (\<lambda>n c. n * 10 + (c - 48)) 0 (tl (str_of_int (-70))) = 70"
    "str_of_int (-70) \<noteq> [] \<and> hd (str_of_int (-70)) = 45"
    by (simp_all add: str_of_int_def digits_of_step digits_of_1) code_simp
  then have "\<forall>v\<in>set [TString [97, 44, 34], TString [49], TNumber (-70), TNull]. cell_ok whole_numbers v"
    by (simp add: units_def whole_numbers_def)
  from toon_row_roundtrip[OF _ _ this, of 44] show ?thesis by (simp add: js_len_def)
qed

text \<open>
  A key line is read back as written: for every key, in front of a tail that starts with
  \<open>:\<close> or \<open>[\<close>, \<open>splitKeyLine\<close> finds the key of \<open>encodeKey\<close> and the tail; and \<open>headerCount\<close> reads the
  count of the array header of the serializer, up to the largest length of an array.
\<close>

theorem toon_key_line_roundtrip:
  assumes "units k" "rest = 0x3a # r \<or> rest = 0x5b # r" "0 \<le> n" "n \<le> 0xffffffff" "d \<in> {9, 44, 124}"
  shows "splitKeyLine (pad @ encodeKey k d' @ rest) (js_len pad) = Some (k, rest) \<and>
    headerCount ([0x5b] @ str_of_int n @ headerClose d @ r') d = n"
  using key_line[OF assms(1,2)] header_line[OF assms(3-5)] by blast

text \<open>The key \<open>a:b\<close> at depth one with the header of 12 items separated by bars.\<close>

theorem toon_key_line_roundtrip_witness:
  "splitKeyLine ([32, 32] @ encodeKey [97, 58, 98] (-1) @ [58]) 2 = Some ([97, 58, 98], [58]) \<and>
    headerCount ([91] @ str_of_int 12 @ headerClose 124 @ [58]) 124 = 12"
  using toon_key_line_roundtrip[of "[97, 58, 98]" "[58]" "[]" 12 124 "[32, 32]" "-1" "[58]"]
  by (simp add: units_def js_len_def)

end
