(* ===== verification/HTML.thy ===== *)
theory HTML
  imports JsStrings
begin

text \<open>
  \<open>src/HTML.ts\<close>: escaping of the five characters that markup gives a meaning. \<open>escapeImpl\<close> is the
  loop with the two cursors \<open>left\<close> and \<open>right\<close> and the flag \<open>escapedAtLeastOnce\<close>; on Bun the
  module calls \<open>Bun.escapeHTML\<close>, a parameter, and replaces the spelling of the apostrophe.
  The reference is the character by character substitution \<open>escaped\<close>; a decoder of the five entities
  takes the text back.
\<close>

section \<open>The code\<close>

definition GT_STR :: jstr where "GT_STR = of_text ''&gt;''"
definition LT_STR :: jstr where "LT_STR = of_text ''&lt;''"
definition AMP_STR :: jstr where "AMP_STR = of_text ''&amp;''"
definition QUOTE_STR :: jstr where "QUOTE_STR = of_text ''&quot;''"
definition APOS_STR :: jstr where "APOS_STR = of_text ''&#039;''"

text \<open>The \<open>switch\<close>: the entity, or none for \<open>default: continue\<close>.\<close>

definition entity :: "int \<Rightarrow> jstr option" where
  "entity c = (if c = 62 then Some GT_STR else if c = 60 then Some LT_STR
     else if c = 38 then Some AMP_STR else if c = 34 then Some QUOTE_STR
     else if c = 39 then Some APOS_STR else None)"

text \<open>The loop over \<open>right\<close>: cursor \<open>left\<close>, \<open>result\<close> and \<open>escapedAtLeastOnce\<close>.\<close>

function escape_loop :: "jstr \<Rightarrow> int \<Rightarrow> int \<Rightarrow> jstr \<Rightarrow> bool \<Rightarrow> int \<times> jstr \<times> bool" where
  "escape_loop s right left result done =
     (case char_at s right of None \<Rightarrow> (left, result, done)
      | Some c \<Rightarrow>
          (case entity c of None \<Rightarrow> escape_loop s (right + 1) left result done
           | Some ch \<Rightarrow>
               let result = (if left \<noteq> right then result @ str_slice s left right else result)
               in escape_loop s (right + 1) (right + 1) (result @ ch) True))"
  by pat_completeness auto
termination by (relation "measure (\<lambda>(s, i, l, out, d). nat (js_len s - i))") (auto simp: char_at_Some)

declare escape_loop.simps [simp del]

definition escapeImpl :: "jstr \<Rightarrow> jstr" where
  "escapeImpl s =
     (if js_len s = 0 then s
      else case escape_loop s 0 0 [] False of (left, result, done) \<Rightarrow>
        if \<not> done then s else if left < js_len s then result @ str_from s left else result)"

text \<open>\<open>str.replaceAll(pattern, replacement)\<close> with a pattern that is not empty.\<close>

function replace_all :: "jstr \<Rightarrow> jstr \<Rightarrow> jstr \<Rightarrow> jstr" where
  "replace_all p r s =
     (if p = [] \<or> s = [] then s
      else if take (length p) s = p then r @ replace_all p r (drop (length p) s)
      else hd s # replace_all p r (tl s))"
  by pat_completeness auto
termination by (relation "measure (\<lambda>(p, r, s). length s)") auto

declare replace_all.simps [simp del]

text \<open>\<open>escape\<close>: \<open>bunEscape\<close> is \<open>globalThis.Bun?.escapeHTML\<close>.\<close>

definition html_escape :: "(jstr \<Rightarrow> jstr) option \<Rightarrow> jstr \<Rightarrow> jstr" where
  "html_escape bunEscape s =
     (case bunEscape of None \<Rightarrow> escapeImpl s
      | Some f \<Rightarrow> replace_all (of_text ''&#x27;'') APOS_STR (f s))"

section \<open>The reference\<close>

definition escaped_char :: "int \<Rightarrow> jstr" where
  "escaped_char c = (case entity c of None \<Rightarrow> [c] | Some e \<Rightarrow> e)"

definition escaped :: "jstr \<Rightarrow> jstr" where
  "escaped s = concat (map escaped_char s)"

lemmas entity_strs = GT_STR_def LT_STR_def AMP_STR_def QUOTE_STR_def APOS_STR_def of_text_def

lemma escaped_simps [simp]:
  "escaped [] = []" "escaped (c # s) = escaped_char c @ escaped s" "escaped (s @ t) = escaped s @ escaped t"
  by (simp_all add: escaped_def)

lemma escaped_plain: "\<forall>c\<in>set s. entity c = None \<Longrightarrow> escaped s = s"
  by (induction s) (auto simp: escaped_char_def)

section \<open>The loop computes the reference\<close>

text \<open>
  The invariant: \<open>result\<close> is the escaped text up to \<open>left\<close>, the run \<open>m\<close> from \<open>left\<close> to \<open>right\<close> holds
  nothing to escape.
\<close>

lemma escape_loop_ok:
  assumes "\<forall>c\<in>set m. entity c = None" "d \<or> out = p"
  shows "case escape_loop (p @ m @ t) (js_len p + js_len m) (js_len p) out d of (l, r, d') \<Rightarrow>
    r @ str_from (p @ m @ t) l = out @ escaped (m @ t) \<and> (\<not> d' \<longrightarrow> out @ escaped (m @ t) = p @ m @ t) \<and>
    0 \<le> l"
  using assms
proof (induction t arbitrary: p m out d)
  case Nil
  have "char_at (p @ m @ []) (js_len p + js_len m) = None" using char_at_end[of "p @ m"] by simp
  then show ?case
    using str_from_mid[of p m] Nil by (subst escape_loop.simps) (auto simp: escaped_plain js_len_def)
next
  case (Cons c t)
  have c: "char_at (p @ m @ c # t) (js_len p + js_len m) = Some c" using char_at_mid[of "p @ m" c t] by simp
  show ?case
  proof (cases "entity c")
    case (Some e)
    have "str_slice (p @ m @ c # t) (js_len p) (js_len p + js_len m) = m" by (rule str_slice_mid)
    moreover have "js_len m = 0 \<longleftrightarrow> m = []" by (simp add: js_len_def)
    ultimately have "escape_loop (p @ m @ c # t) (js_len p + js_len m) (js_len p) out d =
        escape_loop (p @ m @ c # t) (js_len p + js_len m + 1) (js_len p + js_len m + 1) (out @ m @ e) True"
      by (subst escape_loop.simps) (simp add: c Some)
    then show ?thesis
      using Cons.IH[of "[]" True "out @ m @ e" "p @ m @ [c]"] Cons.prems(1) Some
      by (simp add: escaped_char_def escaped_plain add.assoc case_prod_beta)
  next
    case None
    then show ?thesis using c Cons.IH[of "m @ [c]" d out p] Cons.prems
      by (subst escape_loop.simps) (auto simp: add.assoc)
  qed
qed

lemma escapeImpl_escaped: "escapeImpl s = escaped s"
proof -
  obtain l r d where at: "escape_loop s 0 0 [] False = (l, r, d)" by (metis prod_cases3)
  then have "r @ str_from s l = escaped s" "\<not> d \<longrightarrow> escaped s = s" "0 \<le> l"
    using escape_loop_ok[of "[]" False "[]" "[]" s] by auto
  then show ?thesis
    using at by (auto simp: escapeImpl_def str_from_def js_len_def)
qed

section \<open>What the escaped text holds\<close>

text \<open>A reader of the five entities, the ampersand in front of anything else stands for itself.\<close>

definition entity_at :: "jstr \<Rightarrow> (int \<times> jstr) option" where
  "entity_at s = List.find (\<lambda>(c, e). take (length e) s = e)
     [(62, GT_STR), (60, LT_STR), (38, AMP_STR), (34, QUOTE_STR), (39, APOS_STR)]"

function unescape :: "jstr \<Rightarrow> jstr" where
  "unescape [] = []"
| "unescape (x # s) =
     (case entity_at (x # s) of None \<Rightarrow> x # unescape s
      | Some (c, e) \<Rightarrow> c # unescape (drop (length e - 1) s))"
  by pat_completeness auto
termination by (relation "measure length") auto

lemma unescape_char: "unescape (escaped_char c @ s) = c # unescape s"
proof (cases "c = 62 \<or> c = 60 \<or> c = 38 \<or> c = 34 \<or> c = 39")
  case True
  then show ?thesis by (elim disjE) (simp_all add: escaped_char_def entity_def entity_at_def entity_strs)
next
  case False
  then have "escaped_char c = [c]" "entity_at (c # s) = None"
    by (simp_all add: escaped_char_def entity_def entity_at_def entity_strs)
  then show ?thesis by simp
qed

lemma unescape_escaped: "unescape (escaped s) = s"
  by (induction s) (simp_all add: unescape_char)

lemma escaped_no_markup: "c \<in> set (escaped s) \<Longrightarrow> c \<notin> {60, 62, 34, 39}"
  by (induction s) (auto simp: escaped_char_def entity_def entity_strs split: if_splits)

section \<open>The two runtimes agree\<close>

text \<open>\<open>Bun.escapeHTML\<close> as documented: the same five characters, the apostrophe as \<open>&#x27;\<close>.\<close>

definition bun_char :: "int \<Rightarrow> jstr" where
  "bun_char c = (if c = 39 then of_text ''&#x27;'' else escaped_char c)"

lemma replace_bun_char:
  "replace_all (of_text ''&#x27;'') APOS_STR (bun_char c @ s) =
    escaped_char c @ replace_all (of_text ''&#x27;'') APOS_STR s"
proof (cases "c = 62 \<or> c = 60 \<or> c = 38 \<or> c = 34 \<or> c = 39")
  case True
  then show ?thesis
    by (elim disjE; simp add: replace_all.simps[of _ _ "_ # _"] bun_char_def escaped_char_def entity_def entity_strs)
next
  case False
  then have "bun_char c = [c]" "escaped_char c = [c]" "c \<noteq> 38"
    by (simp_all add: bun_char_def escaped_char_def entity_def)
  then show ?thesis by (simp add: replace_all.simps[of _ _ "_ # _"] of_text_def)
qed

lemma replace_bun_text:
  "replace_all (of_text ''&#x27;'') APOS_STR (concat (map bun_char s)) = escaped s"
  by (induction s) (simp_all add: replace_bun_char, simp add: replace_all.simps)

section \<open>Properties\<close>

text \<open>
  C39. Escaping is safe and lossless: the loop with the two cursors returns the character by
  character substitution, the result holds no \<open><\<close>, \<open>>\<close>, quote or apostrophe, and reading the
  five entities gives the text back, so no two texts have the same escape.
\<close>

theorem html_escape_safe:
  "escapeImpl s = concat (map escaped_char s) \<and>
   set (escapeImpl s) \<inter> {60, 62, 34, 39} = {} \<and>
   unescape (escapeImpl s) = s"
  using escaped_no_markup[of _ s]
  by (auto simp: escapeImpl_escaped unescape_escaped escaped_def[symmetric])

text \<open>
  The two runtimes agree: where \<open>Bun.escapeHTML\<close> escapes the five characters, with the apostrophe
  as \<open>&#x27;\<close>, the module returns on Bun what it returns on Node.
\<close>

theorem html_runtimes_agree:
  assumes "f s = concat (map bun_char s)"
  shows "html_escape (Some f) s = html_escape None s"
  using assms by (simp add: html_escape_def replace_bun_text escapeImpl_escaped)

theorem html_runtimes_agree_witness:
  "html_escape (Some (\<lambda>s. concat (map bun_char s))) (of_text ''it's <b>'') = of_text ''it&#039;s &lt;b&gt;''"
  using html_runtimes_agree[of "\<lambda>s. concat (map bun_char s)" "of_text ''it's <b>''"]
  by (simp add: html_escape_def escapeImpl_escaped escaped_char_def entity_def entity_strs)

end
