(* ===== verification/WeakCache.thy ===== *)
theory WeakCache
  imports JsPrelude "HOL-Library.AList"
begin

text \<open>
  \<open>src/WeakCache.ts\<close>: a map from keys to weak references with a finalization registry. A weak
  reference is an object of its own, \<open>WeakRef\<close> with its identity and its target; the registry holds
  the cells \<open>(target, key, token)\<close>. The runtime's part of the state is the list of collected objects:
  collection of an object and the call of one pending finalizer are events that interleave with the
  calls of the program in any order.
\<close>

section \<open>State\<close>

datatype 'v weak_ref = WeakRef (ref_id: nat) (target: 'v)

record ('k, 'v) weak_cache =
  wcEntries :: "('k \<times> 'v weak_ref) list"
  wcRegistry :: "('v \<times> 'k \<times> 'v weak_ref) list"
  wcNextRef :: nat
  wcCollected :: "'v list"

definition wc_make :: "('k, 'v) weak_cache" where
  "wc_make = \<lparr>wcEntries = [], wcRegistry = [], wcNextRef = 0, wcCollected = []\<rparr>"

definition deref :: "('k, 'v) weak_cache \<Rightarrow> 'v weak_ref \<Rightarrow> 'v option" where
  "deref w r = (if target r \<in> set (wcCollected w) then None else Some (target r))"

text \<open>\<open>registry.unregister(token)\<close> and \<open>registry.register(value, key, token)\<close>.\<close>

definition reg_unregister :: "'v weak_ref \<Rightarrow> ('k, 'v) weak_cache \<Rightarrow> ('k, 'v) weak_cache" where
  "reg_unregister tok w = w\<lparr>wcRegistry := filter (\<lambda>(v, k, t). t \<noteq> tok) (wcRegistry w)\<rparr>"

definition reg_register :: "'v \<Rightarrow> 'k \<Rightarrow> 'v weak_ref \<Rightarrow> ('k, 'v) weak_cache \<Rightarrow> ('k, 'v) weak_cache" where
  "reg_register v k tok w = w\<lparr>wcRegistry := wcRegistry w @ [(v, k, tok)]\<rparr>"

section \<open>Operations\<close>

definition wc_drop :: "'k \<Rightarrow> ('k, 'v) weak_cache \<Rightarrow> ('k, 'v) weak_cache" where
  "wc_drop k w = w\<lparr>wcEntries := AList.delete k (wcEntries w)\<rparr>"

definition wc_get :: "('k, 'v) weak_cache \<Rightarrow> 'k \<Rightarrow> 'v option \<times> ('k, 'v) weak_cache" where
  "wc_get w k =
     (case map_of (wcEntries w) k of None \<Rightarrow> (None, w)
      | Some r \<Rightarrow>
          (case deref w r of None \<Rightarrow> (None, wc_drop k w)
           | Some v \<Rightarrow> (Some v, w)))"

definition wc_set :: "('k, 'v) weak_cache \<Rightarrow> 'k \<Rightarrow> 'v \<Rightarrow> ('k, 'v) weak_cache" where
  "wc_set w k v =
     (let w1 = (case map_of (wcEntries w) k of None \<Rightarrow> w | Some existing \<Rightarrow> reg_unregister existing w);
          r = WeakRef (wcNextRef w1) v;
          w2 = w1\<lparr>wcNextRef := wcNextRef w1 + 1, wcEntries := AList.update k r (wcEntries w1)\<rparr>
      in reg_register v k r w2)"

definition wc_has :: "('k, 'v) weak_cache \<Rightarrow> 'k \<Rightarrow> bool \<times> ('k, 'v) weak_cache" where
  "wc_has w k =
     (case map_of (wcEntries w) k of None \<Rightarrow> (False, w)
      | Some r \<Rightarrow> if deref w r = None then (False, wc_drop k w) else (True, w))"

definition wc_remove :: "('k, 'v) weak_cache \<Rightarrow> 'k \<Rightarrow> bool \<times> ('k, 'v) weak_cache" where
  "wc_remove w k =
     (case map_of (wcEntries w) k of None \<Rightarrow> (False, w)
      | Some r \<Rightarrow> (True, wc_drop k (reg_unregister r w)))"

definition wc_size :: "('k, 'v) weak_cache \<Rightarrow> int" where
  "wc_size w = js_len (wcEntries w)"

text \<open>The finalizer's body.\<close>

definition cleanupStaleEntry :: "('k, 'v) weak_cache \<Rightarrow> 'k \<Rightarrow> ('k, 'v) weak_cache" where
  "cleanupStaleEntry w k =
     (case map_of (wcEntries w) k of None \<Rightarrow> w
      | Some r \<Rightarrow> if deref w r = None then wc_drop k w else w)"

section \<open>Runs\<close>

text \<open>
  The program cannot store an object that is gone, an object is collected once, and a
  finalizer runs for a registered cell whose target is gone; the cell leaves the registry first.
\<close>

datatype ('k, 'v) wc_event =
  EGet 'k | ESet 'k 'v | EHas 'k | ERemove 'k | ECollect 'v | EFinalize nat

fun wc_happen :: "('k, 'v) wc_event \<Rightarrow> ('k, 'v) weak_cache \<Rightarrow> ('k, 'v) weak_cache option" where
  "wc_happen (EGet k) w = Some (snd (wc_get w k))"
| "wc_happen (ESet k v) w = (if v \<in> set (wcCollected w) then None else Some (wc_set w k v))"
| "wc_happen (EHas k) w = Some (snd (wc_has w k))"
| "wc_happen (ERemove k) w = Some (snd (wc_remove w k))"
| "wc_happen (ECollect v) w = (if v \<in> set (wcCollected w) then None else Some (w\<lparr>wcCollected := v # wcCollected w\<rparr>))"
| "wc_happen (EFinalize i) w =
     (if i < length (wcRegistry w) \<and> fst (wcRegistry w ! i) \<in> set (wcCollected w)
      then Some (cleanupStaleEntry
        (w\<lparr>wcRegistry := take i (wcRegistry w) @ drop (Suc i) (wcRegistry w)\<rparr>) (fst (snd (wcRegistry w ! i))))
      else None)"

fun wc_run :: "('k, 'v) wc_event list \<Rightarrow> ('k, 'v) weak_cache \<Rightarrow> ('k, 'v) weak_cache option" where
  "wc_run [] w = Some w"
| "wc_run (e # es) w = Option.bind (wc_happen e w) (wc_run es)"

text \<open>The reference: a map that forgets nothing.\<close>

fun wc_ideal :: "('k, 'v) wc_event list \<Rightarrow> ('k \<rightharpoonup> 'v) \<Rightarrow> ('k \<rightharpoonup> 'v)" where
  "wc_ideal [] m = m"
| "wc_ideal (ESet k v # es) m = wc_ideal es (m(k \<mapsto> v))"
| "wc_ideal (ERemove k # es) m = wc_ideal es (m(k := None))"
| "wc_ideal (_ # es) m = wc_ideal es m"

definition held :: "('k, 'v) weak_cache \<Rightarrow> ('k \<rightharpoonup> 'v) \<Rightarrow> ('k \<rightharpoonup> 'v)" where
  "held w m k = (case m k of None \<Rightarrow> None | Some v \<Rightarrow> if v \<in> set (wcCollected w) then None else Some v)"

definition no_finalizer_pending :: "('k, 'v) weak_cache \<Rightarrow> bool" where
  "no_finalizer_pending w = list_all (\<lambda>(v, k, t). v \<notin> set (wcCollected w)) (wcRegistry w)"

section \<open>Invariant\<close>

text \<open>
  Every entry agrees with the reference and has its cell in the registry; an object that lives is
  still there; the identities of references are below the next one, and a token names one key.
\<close>

definition wc_inv :: "('k, 'v) weak_cache \<Rightarrow> ('k \<rightharpoonup> 'v) \<Rightarrow> bool" where
  "wc_inv w m \<longleftrightarrow>
     distinct (map fst (wcEntries w)) \<and>
     (\<forall>k r. map_of (wcEntries w) k = Some r \<longrightarrow>
        m k = Some (target r) \<and> (target r, k, r) \<in> set (wcRegistry w)) \<and>
     (\<forall>k v. m k = Some v \<and> v \<notin> set (wcCollected w) \<longrightarrow> (\<exists>r. map_of (wcEntries w) k = Some r)) \<and>
     (\<forall>v k r. (v, k, r) \<in> set (wcRegistry w) \<longrightarrow> v = target r \<and> ref_id r < wcNextRef w) \<and>
     (\<forall>v k r v' k' r'. (v, k, r) \<in> set (wcRegistry w) \<and> (v', k', r') \<in> set (wcRegistry w) \<and>
        ref_id r = ref_id r' \<longrightarrow> k = k')"

lemma wc_invI:
  assumes "distinct (map fst (wcEntries w))"
    "\<And>k r. map_of (wcEntries w) k = Some r \<Longrightarrow> m k = Some (target r)"
    "\<And>k r. map_of (wcEntries w) k = Some r \<Longrightarrow> (target r, k, r) \<in> set (wcRegistry w)"
    "\<And>k v. m k = Some v \<Longrightarrow> v \<notin> set (wcCollected w) \<Longrightarrow> \<exists>r. map_of (wcEntries w) k = Some r"
    "\<And>v k r. (v, k, r) \<in> set (wcRegistry w) \<Longrightarrow> v = target r \<and> ref_id r < wcNextRef w"
    "\<And>v k r v' k' r'. (v, k, r) \<in> set (wcRegistry w) \<Longrightarrow> (v', k', r') \<in> set (wcRegistry w) \<Longrightarrow>
        ref_id r = ref_id r' \<Longrightarrow> k = k'"
  shows "wc_inv w m"
  unfolding wc_inv_def
  by (intro conjI allI impI; (elim conjE)?) (rule assms assms(5)[THEN conjunct1] assms(5)[THEN conjunct2]; assumption)+

lemma wc_inv_facts:
  assumes "wc_inv w m"
  shows wc_inv_distinct: "distinct (map fst (wcEntries w))"
    and wc_inv_value: "map_of (wcEntries w) k = Some r \<Longrightarrow> m k = Some (target r)"
    and wc_inv_cell: "map_of (wcEntries w) k = Some r \<Longrightarrow> (target r, k, r) \<in> set (wcRegistry w)"
    and wc_inv_live: "m k = Some v \<Longrightarrow> v \<notin> set (wcCollected w) \<Longrightarrow> \<exists>r. map_of (wcEntries w) k = Some r"
    and wc_inv_ref: "(v, k, r) \<in> set (wcRegistry w) \<Longrightarrow> v = target r \<and> ref_id r < wcNextRef w"
    and wc_inv_token: "(v, k, r) \<in> set (wcRegistry w) \<Longrightarrow> (v', k', r') \<in> set (wcRegistry w) \<Longrightarrow>
        ref_id r = ref_id r' \<Longrightarrow> k = k'"
  using assms unfolding wc_inv_def by (blast, blast, blast, blast, blast, blast)

lemma wc_inv_make: "wc_inv wc_make Map.empty"
  by (simp add: wc_inv_def wc_make_def)

text \<open>
  Three small steps carry every operation: an entry whose object is gone is dropped, the cells of a
  token are unregistered together with its entry, and a cell is taken out of the registry by its
  finalizer, which then looks at the key.
\<close>

lemma map_of_drop: "map_of (wcEntries (wc_drop k w)) = (map_of (wcEntries w))(k := None)"
  by (simp add: wc_drop_def delete_conv')

lemma wc_drop_simps [simp]:
  "wcRegistry (wc_drop k w) = wcRegistry w" "wcNextRef (wc_drop k w) = wcNextRef w"
  "wcCollected (wc_drop k w) = wcCollected w" "deref (wc_drop k w) = deref w"
  by (simp_all add: wc_drop_def deref_def fun_eq_iff)

lemma distinct_drop: "distinct (map fst (wcEntries w)) \<Longrightarrow> distinct (map fst (wcEntries (wc_drop k w)))"
  by (simp add: wc_drop_def distinct_delete)

lemma wc_inv_drop:
  assumes "wc_inv w m" "\<forall>v. m k = Some v \<longrightarrow> v \<in> set (wcCollected w)"
  shows "wc_inv (wc_drop k w) m"
proof (rule wc_invI)
  show "distinct (map fst (wcEntries (wc_drop k w)))"
    by (rule distinct_drop) (rule wc_inv_distinct[OF assms(1)])
  show "\<exists>r. map_of (wcEntries (wc_drop k w)) k' = Some r"
    if "m k' = Some v" "v \<notin> set (wcCollected (wc_drop k w))" for k' v
    using that assms(2) wc_inv_live[OF assms(1), of k' v] by (auto simp: map_of_drop)
qed (use wc_inv_value[OF assms(1)] wc_inv_cell[OF assms(1)] wc_inv_ref[OF assms(1)] in
    \<open>auto simp: map_of_drop split: if_splits dest: wc_inv_token[OF assms(1)]\<close>)

lemma wc_inv_stale:
  assumes "wc_inv w m" "map_of (wcEntries w) k = Some r" "deref w r = None"
  shows "wc_inv (wc_drop k w) m"
  using assms wc_inv_value[OF assms(1,2)] by (intro wc_inv_drop) (auto simp: deref_def split: if_splits)

lemma wc_inv_get: "wc_inv w m \<Longrightarrow> wc_inv (snd (wc_get w k)) m"
  by (auto simp: wc_get_def wc_inv_stale split: option.split)

lemma wc_inv_has: "wc_inv w m \<Longrightarrow> wc_inv (snd (wc_has w k)) m"
  by (auto simp: wc_has_def wc_inv_stale split: option.split)

lemma wc_inv_cleanup: "wc_inv w m \<Longrightarrow> wc_inv (cleanupStaleEntry w k) m"
  by (auto simp: cleanupStaleEntry_def wc_inv_stale split: option.split)

text \<open>A token is the reference of one key only, so unregistering it leaves the cells of other entries.\<close>

lemma wc_other_key:
  assumes "wc_inv w m" "map_of (wcEntries w) k = Some r" "map_of (wcEntries w) k' = Some r'" "k' \<noteq> k"
  shows "r' \<noteq> r"
  using wc_inv_token[OF assms(1) wc_inv_cell[OF assms(1,2)] wc_inv_cell[OF assms(1,3)]] assms(4) by auto

lemma unregister_simps [simp]:
  "wcEntries (reg_unregister r w) = wcEntries w" "wcNextRef (reg_unregister r w) = wcNextRef w"
  "wcCollected (reg_unregister r w) = wcCollected w"
  "(v, k, r') \<in> set (wcRegistry (reg_unregister r w)) \<longleftrightarrow> (v, k, r') \<in> set (wcRegistry w) \<and> r' \<noteq> r"
  by (auto simp: reg_unregister_def)

lemma wc_inv_remove:
  assumes "wc_inv w m"
  shows "wc_inv (snd (wc_remove w k)) (m(k := None))"
proof (cases "map_of (wcEntries w) k")
  case None
  then have "m k = None \<or> m k \<noteq> None \<and> the (m k) \<in> set (wcCollected w)"
    using wc_inv_live[OF assms, of k "the (m k)"] by fastforce
  show ?thesis
  proof (rule wc_invI)
    show "\<exists>r. map_of (wcEntries (snd (wc_remove w k))) k' = Some r"
      if "(m(k := None)) k' = Some v" "v \<notin> set (wcCollected (snd (wc_remove w k)))" for k' v
      using that None wc_inv_live[OF assms, of k' v] by (auto simp: wc_remove_def split: if_splits)
  qed (use None assms wc_inv_distinct[OF assms] wc_inv_value[OF assms] wc_inv_cell[OF assms] wc_inv_ref[OF assms] in
    \<open>auto simp: wc_remove_def dest: wc_inv_token[OF assms]\<close>)
next
  case (Some r)
  define w' where "w' = wc_drop k (reg_unregister r w)"
  have w': "snd (wc_remove w k) = w'" using Some by (simp add: wc_remove_def w'_def)
  have look: "map_of (wcEntries w') = (map_of (wcEntries w))(k := None)"
    by (simp add: w'_def map_of_drop)
  show ?thesis unfolding w'
  proof (rule wc_invI)
    show "distinct (map fst (wcEntries w'))"
      unfolding w'_def by (rule distinct_drop) (simp add: wc_inv_distinct[OF assms])
    show "(target s, k', s) \<in> set (wcRegistry w')" if "map_of (wcEntries w') k' = Some s" for k' s
      using that[unfolded look] wc_inv_cell[OF assms, of k' s] wc_other_key[OF assms Some, of k' s]
      by (auto simp: w'_def split: if_splits)
    show "\<exists>r. map_of (wcEntries w') k' = Some r"
      if "(m(k := None)) k' = Some v" "v \<notin> set (wcCollected w')" for k' v
      unfolding look using that wc_inv_live[OF assms, of k' v] by (auto simp: w'_def split: if_splits)
    show "(m(k := None)) k' = Some (target s)" if "map_of (wcEntries w') k' = Some s" for k' s
      using that wc_inv_value[OF assms, of k' s] by (auto simp: look split: if_splits)
  qed (use wc_inv_ref[OF assms] in \<open>auto simp: w'_def dest: wc_inv_token[OF assms]\<close>)
qed

text \<open>\<open>set\<close>: the old token goes, a fresh reference takes the entry and one new cell.\<close>

lemma wc_set_simps:
  "wcEntries (wc_set w k v) = AList.update k (WeakRef (wcNextRef w) v) (wcEntries w)"
  "wcNextRef (wc_set w k v) = wcNextRef w + 1"
  "wcCollected (wc_set w k v) = wcCollected w"
  "(u, k', r) \<in> set (wcRegistry (wc_set w k v)) \<longleftrightarrow>
    (u, k', r) = (v, k, WeakRef (wcNextRef w) v) \<or>
    (u, k', r) \<in> set (wcRegistry w) \<and> map_of (wcEntries w) k \<noteq> Some r"
  by (auto simp: wc_set_def reg_register_def Let_def split: option.split)

lemma wc_inv_set:
  assumes "wc_inv w m"
  shows "wc_inv (wc_set w k v) (m(k \<mapsto> v))"
proof (rule wc_invI)
  have look: "map_of (wcEntries (wc_set w k v)) = (map_of (wcEntries w))(k \<mapsto> WeakRef (wcNextRef w) v)"
    by (simp add: wc_set_simps update_conv')
  show "distinct (map fst (wcEntries (wc_set w k v)))"
    by (simp add: wc_set_simps distinct_update wc_inv_distinct[OF assms])
  show "(m(k \<mapsto> v)) k' = Some (target r)" if "map_of (wcEntries (wc_set w k v)) k' = Some r" for k' r
    using that[unfolded look] wc_inv_value[OF assms, of k' r] by (auto split: if_splits)
  show "(target r, k', r) \<in> set (wcRegistry (wc_set w k v))"
    if "map_of (wcEntries (wc_set w k v)) k' = Some r" for k' r
    using that[unfolded look] wc_inv_cell[OF assms, of k' r] wc_other_key[OF assms, of k r k' r]
    by (auto simp: wc_set_simps split: if_splits)
  show "\<exists>r. map_of (wcEntries (wc_set w k v)) k' = Some r"
    if "(m(k \<mapsto> v)) k' = Some u" "u \<notin> set (wcCollected (wc_set w k v))" for k' u
    unfolding look using that wc_inv_live[OF assms, of k' u] by (auto simp: wc_set_simps(3) split: if_splits)
  have ref: "u = target r \<and> ref_id r < wcNextRef w" if "(u, k', r) \<in> set (wcRegistry w)" for u k' r
    using wc_inv_ref[OF assms that] .
  show "u = target r \<and> ref_id r < wcNextRef (wc_set w k v)" if "(u, k', r) \<in> set (wcRegistry (wc_set w k v))" for u k' r
    using that ref[of u k' r] by (auto simp: wc_set_simps)
  show "k1 = k2" if "(u1, k1, r1) \<in> set (wcRegistry (wc_set w k v))"
    "(u2, k2, r2) \<in> set (wcRegistry (wc_set w k v))" "ref_id r1 = ref_id r2" for u1 k1 r1 u2 k2 r2
    using that ref[of u1 k1 r1] ref[of u2 k2 r2] wc_inv_token[OF assms, of u1 k1 r1 u2 k2 r2]
    by (auto simp: wc_set_simps)
qed

text \<open>The runtime's own steps.\<close>

lemma wc_inv_collect: "wc_inv w m \<Longrightarrow> wc_inv (w\<lparr>wcCollected := v # wcCollected w\<rparr>) m"
  by (rule wc_invI) (use wc_inv_distinct wc_inv_value wc_inv_cell wc_inv_live wc_inv_ref wc_inv_token in \<open>fastforce+\<close>)

lemma wc_inv_finalize:
  assumes "wc_inv w m" "wcRegistry w = cs @ (v, k, r) # ds" "v \<in> set (wcCollected w)"
  shows "wc_inv (cleanupStaleEntry (w\<lparr>wcRegistry := cs @ ds\<rparr>) k) m"
proof -
  define w1 where "w1 = w\<lparr>wcRegistry := cs @ ds\<rparr>"
  have w1 [simp]: "wcEntries w1 = wcEntries w" "wcNextRef w1 = wcNextRef w" "wcCollected w1 = wcCollected w"
      "wcRegistry w1 = cs @ ds" "deref w1 = deref w"
    by (simp_all add: w1_def deref_def fun_eq_iff)
  have cell: "(v, k, r) \<in> set (wcRegistry w)" using assms(2) by simp
  have gone: "v' \<in> set (wcCollected w)" if "map_of (wcEntries w) k = Some r" "m k = Some v'" for v'
    using that wc_inv_value[OF assms(1) that(1)] wc_inv_ref[OF assms(1) cell] assms(3) by auto
  define w2 where "w2 = cleanupStaleEntry w1 k"
  have w2 [simp]: "wcNextRef w2 = wcNextRef w" "wcCollected w2 = wcCollected w" "wcRegistry w2 = cs @ ds"
    by (simp_all add: w2_def cleanupStaleEntry_def split: option.split)
  have look: "map_of (wcEntries w2) k' = (if k' = k \<and> (\<exists>s. map_of (wcEntries w) k = Some s \<and> target s \<in> set (wcCollected w))
      then None else map_of (wcEntries w) k')" for k'
    by (auto simp: w2_def cleanupStaleEntry_def map_of_drop deref_def split: option.split)
  have still: "(target s, k', s) \<in> set (cs @ ds)" if "map_of (wcEntries w2) k' = Some s" for k' s
  proof -
    have at: "map_of (wcEntries w) k' = Some s" and live: "k' = k \<longrightarrow> target s \<notin> set (wcCollected w)"
      using that by (auto simp: look split: if_splits)
    have "(target s, k', s) \<noteq> (v, k, r)" using live assms(3) by auto
    then show ?thesis using wc_inv_cell[OF assms(1) at] assms(2) by auto
  qed
  have "wc_inv w2 m"
  proof (rule wc_invI)
    show "distinct (map fst (wcEntries w2))"
      by (auto simp: w2_def cleanupStaleEntry_def distinct_drop wc_inv_distinct[OF assms(1)] split: option.split)
    show "m k' = Some (target s)" if "map_of (wcEntries w2) k' = Some s" for k' s
      using that wc_inv_value[OF assms(1), of k' s] by (auto simp: look split: if_splits)
    show "\<exists>r. map_of (wcEntries w2) k' = Some r" if "m k' = Some u" "u \<notin> set (wcCollected w2)" for k' u
      using that wc_inv_live[OF assms(1), of k' u] wc_inv_value[OF assms(1), of k'] by (auto simp: look)
    show "(target s, k', s) \<in> set (wcRegistry w2)" if "map_of (wcEntries w2) k' = Some s" for k' s
      using still[OF that] by simp
    have old: "c \<in> set (wcRegistry w2) \<Longrightarrow> c \<in> set (wcRegistry w)" for c using assms(2) by auto
    show "u = target s \<and> ref_id s < wcNextRef w2" if "(u, k', s) \<in> set (wcRegistry w2)" for u k' s
      using wc_inv_ref[OF assms(1) old[OF that]] by simp
    show "k1 = k2" if "(u1, k1, r1) \<in> set (wcRegistry w2)" "(u2, k2, r2) \<in> set (wcRegistry w2)"
      "ref_id r1 = ref_id r2" for u1 k1 r1 u2 k2 r2
      using wc_inv_token[OF assms(1) old[OF that(1)] old[OF that(2)] that(3)] .
  qed
  then show ?thesis by (simp add: w2_def w1_def)
qed

section \<open>Runs keep the invariant\<close>

lemma wc_inv_happen:
  assumes "wc_inv w m" "wc_happen e w = Some w'"
  shows "wc_inv w' (wc_ideal [e] m)"
proof (cases e)
  case (EFinalize i)
  obtain v k r where cell: "wcRegistry w ! i = (v, k, r)" by (metis prod_cases3)
  have i: "i < length (wcRegistry w)" and v: "v \<in> set (wcCollected w)"
    and w': "w' = cleanupStaleEntry (w\<lparr>wcRegistry := take i (wcRegistry w) @ drop (Suc i) (wcRegistry w)\<rparr>) k"
    using assms(2) EFinalize cell by (simp_all split: if_splits)
  have "wcRegistry w = take i (wcRegistry w) @ (v, k, r) # drop (Suc i) (wcRegistry w)"
    using id_take_nth_drop[OF i] cell by simp
  then show ?thesis using wc_inv_finalize[OF assms(1) _ v] EFinalize w' by simp
qed (use assms in \<open>auto simp: wc_inv_get wc_inv_has wc_inv_remove wc_inv_set wc_inv_collect split: if_splits\<close>)

lemma wc_ideal_Cons: "wc_ideal (e # es) m = wc_ideal es (wc_ideal [e] m)"
  by (cases e) simp_all

lemma wc_inv_run: "wc_inv w m \<Longrightarrow> wc_run es w = Some w' \<Longrightarrow> wc_inv w' (wc_ideal es m)"
proof (induction es arbitrary: w m)
  case (Cons e es)
  then obtain w1 where "wc_happen e w = Some w1" "wc_run es w1 = Some w'" by (auto split: bind_splits)
  then show ?case using Cons.IH[OF wc_inv_happen[OF Cons.prems(1)]] by (simp only: wc_ideal_Cons[of e es])
qed simp

section \<open>Answers\<close>

lemma wc_lookup:
  assumes "wc_inv w m"
  shows "Option.bind (map_of (wcEntries w) k) (deref w) = held w m k"
  using wc_inv_value[OF assms, of k] wc_inv_live[OF assms, of k]
  by (cases "map_of (wcEntries w) k") (auto simp: held_def deref_def split: option.split)

lemma wc_get_held: "wc_inv w m \<Longrightarrow> fst (wc_get w k) = held w m k"
  using wc_lookup[of w m k] by (auto simp: wc_get_def split: option.split)

lemma wc_has_held: "wc_inv w m \<Longrightarrow> fst (wc_has w k) \<longleftrightarrow> held w m k \<noteq> None"
  using wc_lookup[of w m k, symmetric] by (auto simp: wc_has_def split: option.split)

lemma wc_remove_held:
  assumes "wc_inv w m"
  shows "(held w m k \<noteq> None \<longrightarrow> fst (wc_remove w k)) \<and> (fst (wc_remove w k) \<longrightarrow> m k \<noteq> None)"
  using wc_lookup[OF assms, of k] wc_inv_value[OF assms, of k]
  by (auto simp: wc_remove_def split: option.splits)

lemma wc_size_card:
  assumes "wc_inv w m"
  shows "wc_size w = int (card (dom (map_of (wcEntries w))))"
  using distinct_card[OF wc_inv_distinct[OF assms]]
  by (simp add: wc_size_def js_len_def dom_map_of_conv_image_fst)

lemma dom_held_entries: "wc_inv w m \<Longrightarrow> dom (held w m) \<subseteq> dom (map_of (wcEntries w))"
  using wc_lookup by (fastforce simp: dom_def split: bind_splits)

text \<open>With no finalizer pending every entry is alive: an entry keeps its cell.\<close>

lemma wc_quiet_dom:
  assumes "wc_inv w m" "no_finalizer_pending w"
  shows "dom (map_of (wcEntries w)) = dom (held w m)"
proof
  show "dom (held w m) \<subseteq> dom (map_of (wcEntries w))" by (rule dom_held_entries[OF assms(1)])
  show "dom (map_of (wcEntries w)) \<subseteq> dom (held w m)"
  proof
    fix k
    assume "k \<in> dom (map_of (wcEntries w))"
    then obtain r where r: "map_of (wcEntries w) k = Some r" by auto
    have "target r \<notin> set (wcCollected w)"
      using wc_inv_cell[OF assms(1) r] assms(2) by (auto simp: no_finalizer_pending_def list_all_iff)
    then show "k \<in> dom (held w m)" using wc_lookup[OF assms(1), of k, symmetric] r by (auto simp: deref_def dom_def)
  qed
qed

section \<open>Properties\<close>

text \<open>
  C11. A weak cache is a map from which collected objects vanish. After any run of calls, collections
  and finalizers, \<open>get\<close> returns what the last \<open>set\<close> stored as long as that object lives, and
  nothing after its collection; \<open>has\<close> agrees; \<open>remove\<close> reports every live entry, and never a
  key that was not set or was already removed.
\<close>

theorem weak_cache_refines_map:
  assumes "wc_run es wc_make = Some w"
  shows "fst (wc_get w k) = held w (wc_ideal es Map.empty) k \<and>
    fst (wc_has w k) = (held w (wc_ideal es Map.empty) k \<noteq> None) \<and>
    (held w (wc_ideal es Map.empty) k = None \<or> fst (wc_remove w k)) \<and>
    (\<not> fst (wc_remove w k) \<or> wc_ideal es Map.empty k \<noteq> None)"
proof -
  have "wc_inv w (wc_ideal es Map.empty)" by (rule wc_inv_run[OF wc_inv_make assms])
  then show ?thesis by (metis wc_get_held wc_has_held wc_remove_held)
qed

text \<open>A finalizer of an old value does not take the new entry of its key.\<close>

theorem weak_cache_refines_map_witness:
  "wc_run [ESet (7::nat) ''a'', ESet 8 ''a'', ECollect ''a'', EGet 7, ESet 7 ''b'', EFinalize 0] wc_make
     = Some \<lparr>wcEntries = [(8, WeakRef 1 ''a''), (7, WeakRef 2 ''b'')],
         wcRegistry = [(''a'', 8, WeakRef 1 ''a''), (''b'', 7, WeakRef 2 ''b'')],
         wcNextRef = 3, wcCollected = [''a'']\<rparr> \<and>
   fst (wc_get (\<lparr>wcEntries = [(8::nat, WeakRef 1 ''a''), (7, WeakRef 2 ''b'')],
         wcRegistry = [(''a'', 8, WeakRef 1 ''a''), (''b'', 7, WeakRef 2 ''b'')],
         wcNextRef = 3, wcCollected = [''a'']\<rparr>) 7) = Some ''b''"
proof -
  have run: "wc_run [ESet (7::nat) ''a'', ESet 8 ''a'', ECollect ''a'', EGet 7, ESet 7 ''b'', EFinalize 0] wc_make
     = Some \<lparr>wcEntries = [(8, WeakRef 1 ''a''), (7, WeakRef 2 ''b'')],
         wcRegistry = [(''a'', 8, WeakRef 1 ''a''), (''b'', 7, WeakRef 2 ''b'')],
         wcNextRef = 3, wcCollected = [''a'']\<rparr>"
    by code_simp
  show ?thesis by (rule conjI[OF run]) (use weak_cache_refines_map[OF run, of 7] in \<open>simp add: held_def\<close>)
qed

text \<open>
  The size counts every live entry and at most the keys that are set, and no dead entry stays for
  ever: once the pending finalizers have run the size is exactly the number of live entries.
\<close>

theorem weak_cache_size:
  assumes "wc_run es wc_make = Some w"
  shows "int (card (dom (held w (wc_ideal es Map.empty)))) \<le> wc_size w \<and>
    (no_finalizer_pending w \<longrightarrow> wc_size w = int (card (dom (held w (wc_ideal es Map.empty)))))"
proof -
  have inv: "wc_inv w (wc_ideal es Map.empty)" by (rule wc_inv_run[OF wc_inv_make assms])
  have "card (dom (held w (wc_ideal es Map.empty))) \<le> card (dom (map_of (wcEntries w)))"
    by (rule card_mono[OF finite_dom_map_of dom_held_entries[OF inv]])
  then show ?thesis using wc_size_card[OF inv] wc_quiet_dom[OF inv] by simp
qed

theorem weak_cache_size_witness:
  "wc_size \<lparr>wcEntries = [(8::nat, WeakRef 1 ''b'')], wcRegistry = [(''b'', 8, WeakRef 1 ''b'')],
     wcNextRef = 2, wcCollected = [''a'']\<rparr>
   = int (card (dom (held \<lparr>wcEntries = [(8::nat, WeakRef 1 ''b'')], wcRegistry = [(''b'', 8, WeakRef 1 ''b'')],
     wcNextRef = 2, wcCollected = [''a'']\<rparr>
     (wc_ideal [ESet 7 ''a'', ESet 8 ''b'', ECollect ''a'', EFinalize 0] Map.empty))))"
proof -
  have run: "wc_run [ESet 7 ''a'', ESet (8::nat) ''b'', ECollect ''a'', EFinalize 0] wc_make
     = Some \<lparr>wcEntries = [(8, WeakRef 1 ''b'')], wcRegistry = [(''b'', 8, WeakRef 1 ''b'')],
         wcNextRef = 2, wcCollected = [''a'']\<rparr>"
    by code_simp
  show ?thesis using weak_cache_size[OF run] by (simp add: no_finalizer_pending_def)
qed

end
