(* ===== verification/Arbitrary.thy ===== *)
theory Arbitrary
  imports JsText Prng "HOL-Library.Sublist" "HOL-Library.Multiset"
begin

text \<open>
  \<open>src/Arbitrary.ts\<close>: generators of random values with integrated shrinking. A \<open>Tree\<close> holds a value and
  a lazy, re-iterable collection of simpler trees; the type is coinductive, since nothing bounds the
  depth to which a program may shrink. An iteration may also throw after some children (a filter
  or a chained generator that fails when it is derived anew), so a node keeps the error that ends its
  iteration. A generator takes the PRNG and a size, and returns a tree or an error with the PRNG's next state.
  The callbacks of the caller are functions without effects.
\<close>

section \<open>Trees\<close>

codatatype 'a shrink_tree =
  Tree (tree_value: 'a) (tree_shrinks: "'a shrink_tree list") (tree_throw: "js_error option")

type_synonym 'a arbitrary = "prng \<Rightarrow> int \<Rightarrow> 'a shrink_tree outcome \<times> prng"

definition FULL_SIZE :: int where "FULL_SIZE = 100"

definition leaf :: "'a \<Rightarrow> 'a shrink_tree" where
  "leaf v = Tree v [] None"

definition fresh :: "int \<Rightarrow> prng" where
  "fresh s = prng_make (prng_seed s)"

primcorec mapTree :: "('a \<Rightarrow> 'b) \<Rightarrow> 'a shrink_tree \<Rightarrow> 'b shrink_tree" where
  "mapTree f t = Tree (f (tree_value t)) (map (mapTree f) (tree_shrinks t)) (tree_throw t)"

text \<open>
  The trees whose children a generator function derives from a state: the value of a state, the states of the
  children and the error that ends the iteration.
\<close>

primcorec grow :: "('s \<Rightarrow> 'a) \<Rightarrow> ('s \<Rightarrow> 's list \<times> js_error option) \<Rightarrow> 's \<Rightarrow> 'a shrink_tree" where
  "grow v kids s = Tree (v s) (map (grow v kids) (fst (kids s))) (snd (kids s))"

text \<open>Pieces of a generator function in order: the first that throws ends the iteration.\<close>

fun flow :: "('s list \<times> js_error option) list \<Rightarrow> 's list \<times> js_error option" where
  "flow [] = ([], None)"
| "flow ((xs, Some e) # ps) = (xs, Some e)"
| "flow ((xs, None) # ps) = (xs @ fst (flow ps), snd (flow ps))"

text \<open>A step on a PRNG of its own, split off the given one.\<close>

definition on_split :: "(prng \<Rightarrow> 'r \<times> prng) \<Rightarrow> prng \<Rightarrow> 'r \<times> prng" where
  "on_split f p = (case prng_split p of (c, p1) \<Rightarrow> (fst (f c), p1))"

section \<open>Combinators\<close>

definition arb_map :: "'a arbitrary \<Rightarrow> ('a \<Rightarrow> 'b) \<Rightarrow> 'b arbitrary" where
  "arb_map arb f p sz =
     (case arb p sz of (Inl e, p1) \<Rightarrow> (Inl e, p1) | (Inr t, p1) \<Rightarrow> (Inr (mapTree f t), p1))"

text \<open>Phase 2 of \<open>chainShrinks\<close>: the inner tree is derived anew for each simpler outer value.\<close>

fun chain_outer :: "('a \<Rightarrow> 'b arbitrary) \<Rightarrow> int \<Rightarrow> 'a shrink_tree list \<Rightarrow> prng \<Rightarrow>
    ('a shrink_tree \<times> 'b shrink_tree \<times> int) list \<times> js_error option" where
  "chain_outer fn sz [] rng = ([], None)"
| "chain_outer fn sz (outer # outers) rng =
     (case prng_split rng of (childRng, rng1) \<Rightarrow>
        case fn (tree_value outer) childRng sz of
          (Inl e, _) \<Rightarrow> ([], Some e)
        | (Inr newInner, childRng1) \<Rightarrow>
            (case chain_outer fn sz outers rng1 of (xs, t) \<Rightarrow>
               ((outer, newInner, fst (prng_nextBigInt childRng1)) # xs, t)))"

definition chain_kids :: "('a \<Rightarrow> 'b arbitrary) \<Rightarrow> int \<Rightarrow> 'a shrink_tree \<times> 'b shrink_tree \<times> int \<Rightarrow>
    ('a shrink_tree \<times> 'b shrink_tree \<times> int) list \<times> js_error option" where
  "chain_kids fn sz st = (case st of (outer, inner, s) \<Rightarrow>
     flow [(map (\<lambda>i. (outer, i, s)) (tree_shrinks inner), tree_throw inner),
           chain_outer fn sz (tree_shrinks outer) (fresh s),
           ([], tree_throw outer)])"

definition chainTree :: "('a \<Rightarrow> 'b arbitrary) \<Rightarrow> int \<Rightarrow> 'a shrink_tree \<times> 'b shrink_tree \<times> int \<Rightarrow> 'b shrink_tree" where
  "chainTree fn sz = grow (\<lambda>(outer, inner, s). tree_value inner) (chain_kids fn sz)"

definition arb_chain :: "'a arbitrary \<Rightarrow> ('a \<Rightarrow> 'b arbitrary) \<Rightarrow> 'b arbitrary" where
  "arb_chain arb fn p sz =
     (case prng_split p of (prng2, p1) \<Rightarrow>
        case arb p1 sz of
          (Inl e, p2) \<Rightarrow> (Inl e, p2)
        | (Inr outerTree, p2) \<Rightarrow>
            (case fn (tree_value outerTree) prng2 sz of
               (Inl e, _) \<Rightarrow> (Inl e, p2)
             | (Inr innerTree, prng3) \<Rightarrow>
                 (Inr (chainTree fn sz (outerTree, innerTree, fst (prng_nextBigInt prng3))), p2)))"

definition filterTree :: "('a \<Rightarrow> bool) \<Rightarrow> 'a shrink_tree \<Rightarrow> 'a shrink_tree" where
  "filterTree pred = grow tree_value (\<lambda>t. (filter (\<lambda>c. pred (tree_value c)) (tree_shrinks t), tree_throw t))"

text \<open>The retries that are left.\<close>

fun filter_loop :: "nat \<Rightarrow> 'a arbitrary \<Rightarrow> ('a \<Rightarrow> bool) \<Rightarrow> prng \<Rightarrow> int \<Rightarrow> 'a shrink_tree outcome \<times> prng" where
  "filter_loop 0 arb pred p sz = (Inl (PlainError ''filter: failed to find a value''), p)"
| "filter_loop (Suc n) arb pred p sz =
     (case on_split (\<lambda>c. arb c sz) p of
        (Inl e, p1) \<Rightarrow> (Inl e, p1)
      | (Inr t, p1) \<Rightarrow> if pred (tree_value t) then (Inr (filterTree pred t), p1)
                       else filter_loop n arb pred p1 sz)"

definition arb_filter :: "'a arbitrary \<Rightarrow> ('a \<Rightarrow> bool) \<Rightarrow> int \<Rightarrow> 'a arbitrary" where
  "arb_filter arb pred maxRetries p sz = filter_loop (nat maxRetries) arb pred p sz"

section \<open>Shrinking of numbers\<close>

text \<open>\<open>Math.trunc(x / 2)\<close>, and truncating division of a \<open>bigint\<close> by \<open>2n\<close>.\<close>

definition trunc_half :: "int \<Rightarrow> int" where
  "trunc_half n = sgn n * (\<bar>n\<bar> div 2)"

text \<open>
  \<open>Math.trunc(lo + (hi - lo) / 2)\<close> on doubles: the half is exact, the sum rounds once, which
  is the rounding of twice the sum.
\<close>

definition midpoint :: "int \<Rightarrow> int \<Rightarrow> int" where
  "midpoint lo hi = trunc_half (to_double (2 * lo + to_double (hi - lo)))"

text \<open>The loop of \<open>shrinkNumber\<close>; 64 halvings are enough for safe integers.\<close>

fun midpoints :: "nat \<Rightarrow> int \<Rightarrow> int \<Rightarrow> int list" where
  "midpoints 0 lo hi = []"
| "midpoints (Suc n) lo hi = (let mid = midpoint lo hi
     in if mid = lo \<or> mid = hi then [] else mid # midpoints n mid hi)"

definition number_kids :: "int \<Rightarrow> int \<Rightarrow> int list \<times> js_error option" where
  "number_kids tgt current = (if tgt = current then ([], None) else (tgt # midpoints 64 tgt current, None))"

text \<open>\<open>shrinkNumber(target, target)\<close> is empty, so \<open>leaf(target)\<close> is the tree of the target.\<close>

definition number_tree :: "int \<Rightarrow> int \<Rightarrow> int shrink_tree" where
  "number_tree tgt = grow id (number_kids tgt)"

function big_midpoints :: "int \<Rightarrow> int \<Rightarrow> int list" where
  "big_midpoints lo hi = (let mid = lo + trunc_half (hi - lo)
     in if mid = lo \<or> mid = hi then [] else mid # big_midpoints mid hi)"
  by pat_completeness auto
termination
  by (relation "measure (\<lambda>(lo, hi). nat \<bar>hi - lo\<bar>)") (auto simp: trunc_half_def sgn_if split: if_splits)

declare big_midpoints.simps [simp del]

definition big_kids :: "int \<Rightarrow> int \<Rightarrow> int list \<times> js_error option" where
  "big_kids tgt current = (if tgt = current then ([], None) else (tgt # big_midpoints tgt current, None))"

definition big_tree :: "int \<Rightarrow> int \<Rightarrow> int shrink_tree" where
  "big_tree tgt = grow id (big_kids tgt)"
section \<open>Shrinking of sequences\<close>

text \<open>The chunk sizes \<open>removeCount\<close>, the offsets of one chunk size, and the candidates with the chunk removed.\<close>

fun chunk_sizes :: "nat \<Rightarrow> nat list" where
  "chunk_sizes n = (if n = 0 then [] else if n = 1 then [1] else n # chunk_sizes (n div 2))"

declare chunk_sizes.simps [simp del]

function chunk_offsets :: "nat \<Rightarrow> nat \<Rightarrow> nat \<Rightarrow> nat list" where
  "chunk_offsets r off len = (if off < len \<and> 0 < r then off # chunk_offsets r (off + r) len else [])"
  by pat_completeness auto
termination by (relation "measure (\<lambda>(r, off, len). len - off)") auto

declare chunk_offsets.simps [simp del]

definition without_chunk :: "'a list \<Rightarrow> nat \<Rightarrow> nat \<Rightarrow> 'a list" where
  "without_chunk xs off r = take off xs @ drop (off + r) xs"

definition removals :: "'a list \<Rightarrow> nat \<Rightarrow> 'a list list" where
  "removals xs minLength = filter (\<lambda>c. length c \<ge> minLength)
     (concat (map (\<lambda>r. map (\<lambda>off. without_chunk xs off r) (chunk_offsets r 0 (length xs)))
       (chunk_sizes (length xs - minLength))))"

fun allUnique_loop :: "'k list \<Rightarrow> ('a \<Rightarrow> 'k) \<Rightarrow> 'a list \<Rightarrow> bool" where
  "allUnique_loop seen keyFn [] = True"
| "allUnique_loop seen keyFn (v # vs) =
     (if keyFn v \<in> set seen then False else allUnique_loop (keyFn v # seen) keyFn vs)"

definition allUnique :: "('a \<Rightarrow> 'k) \<Rightarrow> 'a list \<Rightarrow> bool" where
  "allUnique keyFn vs = allUnique_loop [] keyFn vs"

text \<open>Element \<open>i\<close> replaced by each of its shrinks in turn.\<close>

definition element_kids :: "'a shrink_tree list \<Rightarrow> 'a shrink_tree list list \<times> js_error option" where
  "element_kids trees = flow (map (\<lambda>i.
     (map (\<lambda>child. trees[i := child]) (tree_shrinks (trees ! i)), tree_throw (trees ! i))) [0..<length trees])"

definition array_kids :: "nat \<Rightarrow> ('a \<Rightarrow> 'k) option \<Rightarrow> 'a shrink_tree list \<Rightarrow>
    'a shrink_tree list list \<times> js_error option" where
  "array_kids minLength keyFn trees =
     flow [(removals trees minLength, None),
           (case element_kids trees of (cs, t) \<Rightarrow>
              (filter (\<lambda>c. case keyFn of None \<Rightarrow> True | Some f \<Rightarrow> allUnique f (map tree_value c)) cs, t))]"

definition array_tree :: "nat \<Rightarrow> ('a \<Rightarrow> 'k) option \<Rightarrow> 'a shrink_tree list \<Rightarrow> 'a list shrink_tree" where
  "array_tree minLength keyFn = grow (map tree_value) (array_kids minLength keyFn)"

definition tuple_tree :: "'a shrink_tree list \<Rightarrow> 'a list shrink_tree" where
  "tuple_tree = grow (map tree_value) element_kids"

text \<open>\<open>shrinkRecord\<close>: \<open>Object.fromEntries\<close> of the pairs, a later key replaces an earlier one.\<close>

definition from_entries :: "('k \<times> 'v) list \<Rightarrow> ('k \<rightharpoonup> 'v)" where
  "from_entries ps = map_of (rev ps)"

definition record_kids :: "('k \<times> 'a shrink_tree) list \<Rightarrow> ('k \<times> 'a shrink_tree) list list \<times> js_error option" where
  "record_kids ps = flow (map (\<lambda>i.
     (map (\<lambda>child. ps[i := (fst (ps ! i), child)]) (tree_shrinks (snd (ps ! i))), tree_throw (snd (ps ! i))))
     [0..<length ps])"

definition record_tree :: "('k \<times> 'a shrink_tree) list \<Rightarrow> ('k \<rightharpoonup> 'a) shrink_tree" where
  "record_tree = grow (\<lambda>ps. from_entries (map (\<lambda>(k, t). (k, tree_value t)) ps)) record_kids"

definition string_kids :: "nat \<Rightarrow> jstr \<Rightarrow> jstr list \<times> js_error option" where
  "string_kids minLength current =
     flow [(removals current minLength, None),
           (map (\<lambda>i. take i current @ of_text ''a'' @ drop (i + 1) current)
              (filter (\<lambda>i. current ! i \<noteq> 97) [0..<length current]), None)]"

definition string_tree :: "nat \<Rightarrow> jstr \<Rightarrow> jstr shrink_tree" where
  "string_tree minLength = grow id (string_kids minLength)"

definition subarray_kids :: "'a list \<Rightarrow> 'a list list \<times> js_error option" where
  "subarray_kids current =
     (if current = [] then ([], None)
      else ([] # map (\<lambda>i. take i current @ drop (i + 1) current) (rev [0..<length current]), None))"

definition subarray_tree :: "'a list \<Rightarrow> 'a list shrink_tree" where
  "subarray_tree = grow id subarray_kids"

text \<open>
  \<open>alternativeShrinks\<close>: the shrinks of the chosen tree, then one fresh tree of each earlier alternative.
\<close>

fun alternatives_from :: "'a arbitrary list \<Rightarrow> prng \<Rightarrow> int \<Rightarrow> 'a shrink_tree list \<times> js_error option" where
  "alternatives_from [] rng sz = ([], None)"
| "alternatives_from (arb # arbs) rng sz =
     (case on_split (\<lambda>c. arb c sz) rng of
        (Inl e, rng1) \<Rightarrow> ([], Some e)
      | (Inr t, rng1) \<Rightarrow> (case alternatives_from arbs rng1 sz of (ts, e) \<Rightarrow> (t # ts, e)))"

definition alternative_tree :: "'a shrink_tree \<Rightarrow> 'a arbitrary list \<Rightarrow> nat \<Rightarrow> int \<Rightarrow> int \<Rightarrow> 'a shrink_tree" where
  "alternative_tree t alternatives cnt s sz =
     (case flow [(tree_shrinks t, tree_throw t), alternatives_from (take cnt alternatives) (fresh s) sz] of
        (ts, e) \<Rightarrow> Tree (tree_value t) ts e)"

section \<open>Drawing numbers\<close>

text \<open>
  \<open>sizedWidth\<close>: \<open>Math.pow\<close> is only approximated by engines, so \<open>powFloor width s\<close> stands for
  \<open>Math.floor(Math.pow(width + 1, s / 100))\<close>.
\<close>

definition sizedWidth :: "(int \<Rightarrow> int \<Rightarrow> int) \<Rightarrow> int \<Rightarrow> int \<Rightarrow> int" where
  "sizedWidth powFloor width sz =
     (if sz \<ge> FULL_SIZE then width
      else let s = max 0 sz; e = powFloor width s - 1 in min width (max s e))"

definition drawInt :: "prng \<Rightarrow> int \<Rightarrow> int \<Rightarrow> int outcome \<times> prng" where
  "drawInt p lo hi =
     (if to_double (hi - lo) < MAX_SAFE_INTEGER then prng_nextInt p (Some lo) (Some hi)
      else let rng_width = hi - lo + 1
           in case prng_nextBigInt p of (big, p1) \<Rightarrow> (Inr (to_double (lo + big mod rng_width)), p1))"

text \<open>\<open>None\<close>: the power is not finite.\<close>

definition sizedWidthBig :: "(int \<Rightarrow> int \<Rightarrow> int option) \<Rightarrow> int \<Rightarrow> int \<Rightarrow> int" where
  "sizedWidthBig powFloor width sz =
     (if sz \<ge> FULL_SIZE then width
      else let s = max 0 sz;
               w = (case powFloor width s of Some e \<Rightarrow> e - 1 | None \<Rightarrow> width);
               atLeast = (if w > s then w else s)
           in if atLeast < width then atLeast else width)"

text \<open>The loop of \<open>drawBigInt\<close>: 64 more bits while the bound is below the range with its slack.\<close>

function big_words :: "int \<Rightarrow> int \<Rightarrow> int \<Rightarrow> prng \<Rightarrow> int \<times> prng" where
  "big_words bound rng_width raw p =
     (if 0 < bound \<and> bound < push_bit 32 rng_width
      then case prng_nextBigInt p of (w, p1) \<Rightarrow> big_words (push_bit 64 bound) rng_width (push_bit 64 raw OR w) p1
      else (raw, p))"
  by pat_completeness auto
termination
  by (relation "measure (\<lambda>(bound, rng_width, raw, p). nat (push_bit 32 rng_width - bound))") (auto simp: push_bit_eq_mult)

declare big_words.simps [simp del]

definition drawBigInt :: "prng \<Rightarrow> int \<Rightarrow> int \<Rightarrow> int \<times> prng" where
  "drawBigInt p lo hi =
     (let rng_width = hi - lo + 1
      in case prng_nextBigInt p of (raw0, p1) \<Rightarrow>
           case big_words (push_bit 64 1) rng_width raw0 p1 of (raw, p2) \<Rightarrow> (lo + raw mod rng_width, p2))"
section \<open>Arbitraries\<close>

text \<open>An omitted argument is \<^const>\<open>None\<close>; \<open>given\<close> fills in the default.\<close>

definition given :: "js_number \<Rightarrow> js_number option \<Rightarrow> js_number" where
  "given d x = (case x of None \<Rightarrow> d | Some v \<Rightarrow> v)"

text \<open>The shrink target of a range: zero, or the bound next to it.\<close>

definition shrink_target :: "int \<Rightarrow> int \<Rightarrow> int" where
  "shrink_target mn mx = (if mn \<le> 0 \<and> mx \<ge> 0 then 0 else if mn > 0 then mn else mx)"

definition integerArb :: "(int \<Rightarrow> int \<Rightarrow> int) \<Rightarrow> int \<Rightarrow> int \<Rightarrow> int arbitrary" where
  "integerArb powFloor mn mx p sz =
     (let tgt = shrink_target mn mx; down = tgt - mn; up = mx - tgt
      in case drawInt p (tgt - sizedWidth powFloor down sz) (tgt + sizedWidth powFloor up sz) of
           (Inl e, p1) \<Rightarrow> (Inl e, p1)
         | (Inr v, p1) \<Rightarrow> (Inr (number_tree tgt v), p1))"

definition arb_integer :: "(int \<Rightarrow> int \<Rightarrow> int) \<Rightarrow> js_number option \<Rightarrow> js_number option \<Rightarrow> int arbitrary outcome" where
  "arb_integer powFloor mn mx =
     (case (given (Whole (- 0x7fffffff)) mn, given (Whole 0x7fffffff) mx) of
        (Whole a, Whole b) \<Rightarrow>
          if \<not> is_safe_integer (Whole a) \<or> \<not> is_safe_integer (Whole b) \<or> a > b then Inl RangeError
          else Inr (integerArb powFloor a b)
      | _ \<Rightarrow> Inl RangeError)"

definition arb_nat :: "(int \<Rightarrow> int \<Rightarrow> int) \<Rightarrow> js_number option \<Rightarrow> int arbitrary outcome" where
  "arb_nat powFloor mx = arb_integer powFloor (Some (Whole 0)) (Some (given (Whole 0x7fffffff) mx))"

definition arb_boolean :: "bool arbitrary" where
  "arb_boolean p sz =
     (case prng_next p of (r, p1) \<Rightarrow>
        (Inr (if r < 1 / 2 then Tree True [leaf False] None else leaf False), p1))"

definition arb_constant :: "'a \<Rightarrow> 'a arbitrary" where
  "arb_constant v p sz = (Inr (leaf v), p)"

definition arb_constantFrom :: "'a list \<Rightarrow> 'a arbitrary" where
  "arb_constantFrom vs p sz =
     (case prng_nextInt p (Some 0) (Some (js_len vs - 1)) of
        (Inl e, p1) \<Rightarrow> (Inl e, p1)
      | (Inr idx, p1) \<Rightarrow>
          (Inr (if idx = 0 then leaf (vs ! 0) else Tree (vs ! nat idx) [leaf (vs ! 0)] None), p1))"

text \<open>\<open>lengthBounds\<close>: the upper bound is \<^const>\<open>None\<close> for \<open>Infinity\<close>.\<close>

definition lengthBounds :: "js_number option \<Rightarrow> js_number option \<Rightarrow> (int \<times> int option) outcome" where
  "lengthBounds minLength maxLength =
     (case given (Whole 0) minLength of
        Whole a \<Rightarrow>
          (case given (Whole (max a 10)) maxLength of
             Whole b \<Rightarrow> if \<not> is_safe_integer (Whole a) \<or> \<not> is_safe_integer (Whole b) \<or> a < 0 \<or> a > b
                        then Inl RangeError else Inr (a, Some b)
           | PosInf \<Rightarrow> if \<not> is_safe_integer (Whole a) \<or> a < 0 then Inl RangeError else Inr (a, None)
           | _ \<Rightarrow> Inl RangeError)
      | _ \<Rightarrow> Inl RangeError)"

definition sizedMax :: "int \<Rightarrow> int option \<Rightarrow> int \<Rightarrow> int" where
  "sizedMax minLen maxLen sz = (case maxLen of None \<Rightarrow> max minLen sz | Some m \<Rightarrow> min m (max minLen sz))"

fun draw_chars :: "nat \<Rightarrow> prng \<Rightarrow> jstr outcome \<times> prng" where
  "draw_chars 0 p = (Inr [], p)"
| "draw_chars (Suc n) p =
     (case prng_nextInt p (Some 0x20) (Some 0x7e) of
        (Inl e, p1) \<Rightarrow> (Inl e, p1)
      | (Inr c, p1) \<Rightarrow>
          (case draw_chars n p1 of (Inl e, p2) \<Rightarrow> (Inl e, p2) | (Inr cs, p2) \<Rightarrow> (Inr (c # cs), p2)))"

definition stringArb :: "int \<Rightarrow> int option \<Rightarrow> jstr arbitrary" where
  "stringArb minLen maxLen p sz =
     (case prng_nextInt p (Some minLen) (Some (sizedMax minLen maxLen sz)) of
        (Inl e, p1) \<Rightarrow> (Inl e, p1)
      | (Inr len, p1) \<Rightarrow>
          (case draw_chars (nat len) p1 of
             (Inl e, p2) \<Rightarrow> (Inl e, p2)
           | (Inr v, p2) \<Rightarrow> (Inr (string_tree (nat minLen) v), p2)))"

definition arb_string :: "js_number option \<Rightarrow> js_number option \<Rightarrow> jstr arbitrary outcome" where
  "arb_string minLength maxLength =
     (case lengthBounds minLength maxLength of Inl e \<Rightarrow> Inl e | Inr (a, b) \<Rightarrow> Inr (stringArb a b))"

text \<open>One tree of each arbitrary in turn, every one on a PRNG of its own.\<close>

fun draw_each :: "'a arbitrary list \<Rightarrow> prng \<Rightarrow> int \<Rightarrow> 'a shrink_tree list outcome \<times> prng" where
  "draw_each [] p sz = (Inr [], p)"
| "draw_each (arb # arbs) p sz =
     (case on_split (\<lambda>c. arb c sz) p of
        (Inl e, p1) \<Rightarrow> (Inl e, p1)
      | (Inr t, p1) \<Rightarrow>
          (case draw_each arbs p1 sz of (Inl e, p2) \<Rightarrow> (Inl e, p2) | (Inr ts, p2) \<Rightarrow> (Inr (t # ts), p2)))"

definition arrayArb :: "'a arbitrary \<Rightarrow> int \<Rightarrow> int option \<Rightarrow> 'a list arbitrary" where
  "arrayArb arb minLen maxLen p sz =
     (case prng_nextInt p (Some minLen) (Some (sizedMax minLen maxLen sz)) of
        (Inl e, p1) \<Rightarrow> (Inl e, p1)
      | (Inr len, p1) \<Rightarrow>
          (case draw_each (replicate (nat len) arb) p1 sz of
             (Inl e, p2) \<Rightarrow> (Inl e, p2)
           | (Inr ts, p2) \<Rightarrow> (Inr (array_tree (nat minLen) (None :: ('a \<Rightarrow> 'a) option) ts), p2)))"

definition arb_array :: "'a arbitrary \<Rightarrow> js_number option \<Rightarrow> js_number option \<Rightarrow> 'a list arbitrary outcome" where
  "arb_array arb minLength maxLength =
     (case lengthBounds minLength maxLength of Inl e \<Rightarrow> Inl e | Inr (a, b) \<Rightarrow> Inr (arrayArb arb a b))"

definition arb_tuple :: "'a arbitrary list \<Rightarrow> 'a list arbitrary" where
  "arb_tuple arbs p sz =
     (case draw_each arbs p sz of (Inl e, p1) \<Rightarrow> (Inl e, p1) | (Inr ts, p1) \<Rightarrow> (Inr (tuple_tree ts), p1))"

definition arb_record :: "('k \<times> 'a arbitrary) list \<Rightarrow> ('k \<rightharpoonup> 'a) arbitrary" where
  "arb_record shape p sz =
     (case draw_each (map snd shape) p sz of
        (Inl e, p1) \<Rightarrow> (Inl e, p1)
      | (Inr ts, p1) \<Rightarrow> (Inr (record_tree (zip (map fst shape) ts)), p1))"

definition arb_oneOf :: "'a arbitrary list \<Rightarrow> 'a arbitrary" where
  "arb_oneOf arbs p sz =
     (case prng_nextInt p (Some 0) (Some (js_len arbs - 1)) of
        (Inl e, p1) \<Rightarrow> (Inl e, p1)
      | (Inr idx, p1) \<Rightarrow>
          (case on_split (\<lambda>c. (arbs ! nat idx) c sz) p1 of
             (Inl e, p2) \<Rightarrow> (Inl e, p2)
           | (Inr t, p2) \<Rightarrow>
               if idx = 0 then (Inr t, p2)
               else (case prng_nextBigInt p2 of (s, p3) \<Rightarrow> (Inr (alternative_tree t arbs (nat idx) s sz), p3))))"

definition arb_bigint :: "(int \<Rightarrow> int \<Rightarrow> int option) \<Rightarrow> int option \<Rightarrow> int option \<Rightarrow> int arbitrary outcome" where
  "arb_bigint powFloor mn0 mx0 =
     (let mn = (case mn0 of None \<Rightarrow> - 0x7fffffffffffffff | Some a \<Rightarrow> a);
          mx = (case mx0 of None \<Rightarrow> 0x7fffffffffffffff | Some b \<Rightarrow> b)
      in if mn > mx then Inl RangeError
         else Inr (\<lambda>p sz.
           let tgt = shrink_target mn mx; down = tgt - mn; up = mx - tgt
           in case drawBigInt p (tgt - sizedWidthBig powFloor down sz) (tgt + sizedWidthBig powFloor up sz) of
                (v, p1) \<Rightarrow> (Inr (big_tree tgt v), p1)))"

text \<open>\<open>date\<close>: a \<open>Date\<close> is its time value; \<^const>\<open>NaN\<close> is an invalid date.\<close>

definition arb_date :: "(int \<Rightarrow> int \<Rightarrow> int) \<Rightarrow> ('d \<Rightarrow> js_number) \<Rightarrow> (int \<Rightarrow> 'd) \<Rightarrow> 'd option \<Rightarrow> 'd option \<Rightarrow> 'd arbitrary outcome" where
  "arb_date powFloor getTime newDate mn mx =
     (case arb_integer powFloor
        (Some (case mn of None \<Rightarrow> Whole (- 8640000000000000) | Some d \<Rightarrow> getTime d))
        (Some (case mx of None \<Rightarrow> Whole 8640000000000000 | Some d \<Rightarrow> getTime d)) of
        Inl e \<Rightarrow> Inl e
      | Inr intArb \<Rightarrow> Inr (arb_map intArb newDate))"

text \<open>
  \<open>uniqueArray\<close>: the retry loop with the trees so far, the keys seen, the size in use and the misses
  since the last hit.
\<close>

function unique_loop :: "'a arbitrary \<Rightarrow> ('a \<Rightarrow> 'k) \<Rightarrow> int \<Rightarrow> nat \<Rightarrow> 'a shrink_tree list \<Rightarrow> 'k list \<Rightarrow> int \<Rightarrow> nat \<Rightarrow> prng \<Rightarrow>
    'a shrink_tree list outcome \<times> prng" where
  "unique_loop arb keyFn sizeCap targetLen trees seen genSize misses p =
     (if length trees < targetLen
      then (case on_split (\<lambda>c. arb c genSize) p of
              (Inl e, p1) \<Rightarrow> (Inl e, p1)
            | (Inr t, p1) \<Rightarrow>
                let k = keyFn (tree_value t)
                in if k \<notin> set seen
                   then unique_loop arb keyFn sizeCap targetLen (trees @ [t]) (k # seen) genSize 0 p1
                   else if misses + 1 \<ge> 10
                   then if genSize \<ge> sizeCap then (Inr trees, p1)
                        else unique_loop arb keyFn sizeCap targetLen trees seen
                          (min sizeCap (max 1 (genSize * 2))) 0 p1
                   else unique_loop arb keyFn sizeCap targetLen trees seen genSize (misses + 1) p1)
      else (Inr trees, p))"
  by pat_completeness auto
termination
  by (relation "measures [\<lambda>(arb, f, cap, n, ts, seen, g, mi, p). n - length ts,
      \<lambda>(arb, f, cap, n, ts, seen, g, mi, p). nat (cap - g), \<lambda>(arb, f, cap, n, ts, seen, g, mi, p). 10 - mi]") auto

declare unique_loop.simps [simp del]

definition uniqueArrayOf :: "'a arbitrary \<Rightarrow> int \<Rightarrow> int option \<Rightarrow> ('a \<Rightarrow> 'k) \<Rightarrow> 'a list arbitrary" where
  "uniqueArrayOf arb minLen maxLen keyFn p sz =
     (case prng_nextInt p (Some minLen) (Some (sizedMax minLen maxLen sz)) of
        (Inl e, p1) \<Rightarrow> (Inl e, p1)
      | (Inr targetLen, p1) \<Rightarrow>
          (case unique_loop arb keyFn (max sz FULL_SIZE) (nat targetLen) [] [] sz 0 p1 of
             (Inl e, p2) \<Rightarrow> (Inl e, p2)
           | (Inr ts, p2) \<Rightarrow>
               if js_len ts < minLen then (Inl (PlainError ''uniqueArray: too few unique elements''), p2)
               else (Inr (array_tree (nat minLen) (Some keyFn) ts), p2)))"

definition arb_uniqueArray :: "'a arbitrary \<Rightarrow> js_number option \<Rightarrow> js_number option \<Rightarrow> ('a \<Rightarrow> 'k) \<Rightarrow> 'a list arbitrary outcome" where
  "arb_uniqueArray arb minLength maxLength keyFn =
     (case lengthBounds minLength maxLength of Inl e \<Rightarrow> Inl e | Inr (a, b) \<Rightarrow> Inr (uniqueArrayOf arb a b keyFn))"

text \<open>\<open>dictionary\<close>: a pair is the tuple of a key and a value, whose types the sum keeps apart.\<close>

definition pair_of :: "('k + 'v) list \<Rightarrow> 'k \<times> 'v" where
  "pair_of kv = (case kv of [Inl k, Inr v] \<Rightarrow> (k, v))"

definition arb_dictionary :: "'k arbitrary \<Rightarrow> 'v arbitrary \<Rightarrow> js_number option \<Rightarrow> js_number option \<Rightarrow> ('k \<rightharpoonup> 'v) arbitrary outcome" where
  "arb_dictionary keyArb valueArb minSize maxSize =
     (case lengthBounds minSize maxSize of
        Inl e \<Rightarrow> Inl e
      | Inr (a, b) \<Rightarrow>
          let pairArb = arb_tuple [arb_map keyArb Inl, arb_map valueArb Inr]
          in case arb_uniqueArray pairArb (Some (Whole a)) (Some (case b of None \<Rightarrow> PosInf | Some n \<Rightarrow> Whole n))
                    (\<lambda>kv. fst (pair_of kv)) of
               Inl e \<Rightarrow> Inl e
             | Inr arrArb \<Rightarrow> Inr (arb_map arrArb (\<lambda>ps. from_entries (map pair_of ps))))"
text \<open>
  \<open>subarray\<close>: a partial Fisher-Yates shuffle of the indices picks \<open>len\<close> of them, which are then
  sorted. The loop at index \<open>i\<close> with \<open>n\<close> steps to go.
\<close>

definition swap_at :: "nat list \<Rightarrow> nat \<Rightarrow> nat \<Rightarrow> nat list" where
  "swap_at xs i j = (let tmp = xs ! i in (xs[i := xs ! j])[j := tmp])"

fun pick_indices :: "nat \<Rightarrow> nat \<Rightarrow> nat list \<Rightarrow> prng \<Rightarrow> nat list outcome \<times> prng" where
  "pick_indices 0 i indices p = (Inr indices, p)"
| "pick_indices (Suc n) i indices p =
     (case prng_nextInt p (Some (int i)) (Some (js_len indices - 1)) of
        (Inl e, p1) \<Rightarrow> (Inl e, p1)
      | (Inr j, p1) \<Rightarrow> pick_indices n (Suc i) (swap_at indices i (nat j)) p1)"

definition arb_subarray :: "'a list \<Rightarrow> 'a list arbitrary" where
  "arb_subarray items p sz =
     (case prng_nextInt p (Some 0) (Some (min (js_len items) sz)) of
        (Inl e, p1) \<Rightarrow> (Inl e, p1)
      | (Inr len, p1) \<Rightarrow>
          (case pick_indices (nat len) 0 [0..<length items] p1 of
             (Inl e, p2) \<Rightarrow> (Inl e, p2)
           | (Inr indices, p2) \<Rightarrow>
               let selected = sort (take (nat len) indices); v = map (\<lambda>i. items ! i) selected
               in (Inr (subarray_tree v), p2)))"

text \<open>
  \<open>frequency\<close>: weights are numbers, \<^const>\<open>None\<close> one that is not finite; \<open>rnd\<close> is the rounding of doubles.
\<close>

fun pick_entry :: "(rat \<Rightarrow> rat) \<Rightarrow> rat list \<Rightarrow> rat \<Rightarrow> rat \<Rightarrow> nat \<Rightarrow> nat option" where
  "pick_entry rnd [] r cumulative i = None"
| "pick_entry rnd (w # ws) r cumulative i =
     (let c = rnd (cumulative + w) in if r < c then Some i else pick_entry rnd ws r c (i + 1))"

definition weight_order :: "rat list \<Rightarrow> nat list" where
  "weight_order ws = sort_key (\<lambda>i. - (ws ! i)) (filter (\<lambda>i. ws ! i > 0) [0..<length ws])"

definition rank_of :: "nat list \<Rightarrow> nat \<Rightarrow> nat option" where
  "rank_of order i = (if i \<in> set order then Some (length (takeWhile (\<lambda>j. j \<noteq> i) order)) else None)"

definition frequencyOf :: "(rat \<Rightarrow> rat) \<Rightarrow> rat list \<Rightarrow> 'a arbitrary list \<Rightarrow> rat \<Rightarrow> nat \<Rightarrow> 'a arbitrary list \<Rightarrow> (nat \<Rightarrow> nat option) \<Rightarrow> 'a arbitrary" where
  "frequencyOf rnd ws arbs totalWeight lastPositive ranked rank p sz =
     (case prng_next p of (x, p1) \<Rightarrow>
        let r = rnd (x * totalWeight);
            chosen = (case pick_entry rnd ws r 0 0 of Some i \<Rightarrow> i | None \<Rightarrow> lastPositive)
        in case on_split (\<lambda>c. (arbs ! chosen) c sz) p1 of
             (Inl e, p2) \<Rightarrow> (Inl e, p2)
           | (Inr t, p2) \<Rightarrow>
               (case rank chosen of
                  Some 0 \<Rightarrow> (Inr t, p2)
                | pos \<Rightarrow> (case prng_nextBigInt p2 of (s, p3) \<Rightarrow>
                    (Inr (alternative_tree t ranked (case pos of Some n \<Rightarrow> n | None \<Rightarrow> 0) s sz), p3))))"

fun total_weight :: "(rat \<Rightarrow> rat) \<Rightarrow> rat option list \<Rightarrow> rat \<Rightarrow> rat outcome" where
  "total_weight rnd [] acc = Inr acc"
| "total_weight rnd (w # ws) acc =
     (case w of None \<Rightarrow> Inl RangeError
      | Some x \<Rightarrow> if x < 0 then Inl RangeError else total_weight rnd ws (rnd (acc + x)))"

definition arb_frequency :: "(rat \<Rightarrow> rat) \<Rightarrow> (rat option \<times> 'a arbitrary) list \<Rightarrow> 'a arbitrary outcome" where
  "arb_frequency rnd entries =
     (case total_weight rnd (map fst entries) 0 of
        Inl e \<Rightarrow> Inl e
      | Inr totalWeight \<Rightarrow>
          if totalWeight \<le> 0 then Inl RangeError
          else let ws = map (\<lambda>(w, a). the w) entries; order = weight_order ws
               in Inr (frequencyOf rnd ws (map snd entries) totalWeight (fold max order 0)
                    (map (\<lambda>i. snd (entries ! i)) order) (rank_of order)))"

section \<open>Every node of a tree\<close>

inductive subtree :: "'a shrink_tree \<Rightarrow> 'a shrink_tree \<Rightarrow> bool" where
  here: "subtree t t"
| below: "c \<in> set (tree_shrinks t) \<Longrightarrow> subtree c u \<Longrightarrow> subtree t u"

lemma subtree_trans: "subtree t u \<Longrightarrow> subtree u v \<Longrightarrow> subtree t v"
  by (induction rule: subtree.induct) (auto intro: below)

text \<open>
  The rule of all shrinkers: an invariant of the states that every child keeps holds of the state of
  every node.
\<close>

lemma grow_subtree:
  assumes "subtree (grow v kids s) t" "P s"
    and "\<And>s c. P s \<Longrightarrow> c \<in> set (fst (kids s)) \<Longrightarrow> P c"
  shows "\<exists>s'. P s' \<and> t = grow v kids s'"
  using assms(1,2)
proof (induction "grow v kids s" t arbitrary: s rule: subtree.induct)
  case (below c u)
  from below.hyps(1) obtain s' where s': "s' \<in> set (fst (kids s))" "c = grow v kids s'" by auto
  show ?case using below.hyps(3)[OF s'(2) assms(3)[OF below.prems s'(1)]] .
qed auto

lemma leaf_subtree [simp]: "subtree (leaf v) t \<longleftrightarrow> t = leaf v"
  by (auto simp: leaf_def intro: here elim: subtree.cases)

lemma mapTree_subtree: "subtree (mapTree f t) u \<Longrightarrow> \<exists>s. subtree t s \<and> u = mapTree f s"
proof (induction "mapTree f t" u arbitrary: t rule: subtree.induct)
  case (below c u)
  then obtain d where "d \<in> set (tree_shrinks t)" "c = mapTree f d" by auto
  then show ?case using below.hyps(3)[of d] by (auto intro: subtree.below)
qed (auto intro: here)

lemma set_flow: "c \<in> set (fst (flow ps)) \<Longrightarrow> \<exists>p\<in>set ps. c \<in> set (fst p)"
  by (induction ps rule: flow.induct) auto

section \<open>Filters\<close>

lemma filterTree_subtree:
  assumes "subtree (filterTree pred t) u" "pred (tree_value t)"
  shows "pred (tree_value u)"
  using grow_subtree[OF assms(1)[unfolded filterTree_def], of "\<lambda>s. pred (tree_value s)"] assms(2) by auto

lemma filter_loop_ok:
  "filter_loop n arb pred p sz = (Inr t, p') \<Longrightarrow> subtree t u \<Longrightarrow> pred (tree_value u)"
proof (induction n arbitrary: p)
  case (Suc n)
  obtain r p1 where r: "on_split (\<lambda>c. arb c sz) p = (r, p1)" by (metis prod.exhaust)
  show ?case
  proof (cases r)
    case (Inr t0)
    then show ?thesis
      using Suc r filterTree_subtree[of pred t0 u] by (auto split: if_splits)
  qed (use Suc.prems r in auto)
qed simp

section \<open>Doubles above \<open>2^53\<close>\<close>

lemma to_double_even: "\<bar>n\<bar> \<le> 2 ^ 54 \<Longrightarrow> even n \<Longrightarrow> to_double n = n"
  and to_double_near: "\<bar>n\<bar> \<le> 2 ^ 54 \<Longrightarrow> \<bar>to_double n - n\<bar> \<le> 1"
proof -
  have near: "\<bar>to_double n - n\<bar> \<le> 1 \<and> (even n \<longrightarrow> to_double n = n)" if n: "\<bar>n\<bar> \<le> 2 ^ 54" for n
  proof -
    define m where "m = nat \<bar>n\<bar>"
    have nm: "n = sgn n * int m" "even n \<longleftrightarrow> even m"
      by (simp_all add: m_def sgn_mult_abs even_nat_iff)
    have am: "\<bar>n\<bar> = int m" by (simp add: m_def)
    have "m \<le> 2 ^ 54" using n unfolding am by simp
    then consider "m \<le> 2 ^ 53" | "2 ^ 53 < m" "m < 2 ^ 54" | "m = 2 ^ 54" by linarith
    then show ?thesis
    proof cases
      case 1
      then have "\<bar>n\<bar> \<le> 2 ^ 53" unfolding am by simp
      then show ?thesis by (simp add: to_double_id)
    next
      case 2
      have "bitlen m \<le> 54" by (rule bitlen_le) (rule 2)
      moreover have "53 < bitlen m"
        by (rule power_less_imp_less_exp[of "2 :: nat"]) (use bitlen_bounds[of m] 2 in linarith)+
      ultimately have "bitlen m - 53 = 1" by linarith
      then have d: "to_double n = sgn n * int (round_even m 2 * 2)"
        unfolding to_double_def m_def[symmetric] Let_def by simp
      have "round_even m 2 * 2 = m \<or> odd m \<and> (round_even m 2 * 2 = m + 1 \<or> round_even m 2 * 2 + 1 = m)"
        unfolding round_even_def Let_def by (cases "even m") (auto elim!: evenE oddE, presburger)
      then show ?thesis using d nm by (auto simp: sgn_if split: if_splits)
    next
      case 3
      have "bitlen m \<le> 55" using 3 by (intro bitlen_le) simp
      moreover have "54 < bitlen m"
        by (rule power_less_imp_less_exp[of "2 :: nat"]) (use bitlen_bounds[of m] 3 in simp)+
      ultimately have b: "bitlen m = 55" by linarith
      have "to_double n = sgn n * int m"
        unfolding to_double_def m_def[symmetric] Let_def b using 3 by (simp add: round_even_def)
      then show ?thesis using nm(1) by simp
    qed
  qed
  show "\<bar>n\<bar> \<le> 2 ^ 54 \<Longrightarrow> even n \<Longrightarrow> to_double n = n" "\<bar>n\<bar> \<le> 2 ^ 54 \<Longrightarrow> \<bar>to_double n - n\<bar> \<le> 1"
    using near by blast+
qed
text \<open>A safe integer, and a range of safe integers on one side of which the search moves.\<close>

abbreviation safe_int :: "int \<Rightarrow> bool" where
  "safe_int x \<equiv> \<bar>x\<bar> \<le> 9007199254740991"

lemma midpoint_between:
  assumes "safe_int lo" "safe_int hi" "\<bar>hi - lo\<bar> \<le> 9007199254740991"
  shows "2 * \<bar>midpoint lo hi - lo\<bar> \<le> \<bar>hi - lo\<bar> + 1 \<and> 2 * \<bar>hi - midpoint lo hi\<bar> \<le> \<bar>hi - lo\<bar> + 1"
proof -
  define n where "n = lo + hi"
  have d: "to_double (hi - lo) = hi - lo" using assms(3) by (intro to_double_id) simp
  have n: "\<bar>n\<bar> \<le> 2 ^ 54" using assms(1,2) unfolding n_def by simp
  have m: "midpoint lo hi = trunc_half (to_double n)"
    unfolding midpoint_def d n_def by (rule arg_cong[of _ _ "\<lambda>x. trunc_half (to_double x)"]) simp
  define q where "q = to_double n"
  have q: "\<bar>q - n\<bar> \<le> 1" "even n \<longrightarrow> q = n" unfolding q_def using to_double_near[OF n] to_double_even[OF n] by auto
  have h: "2 * trunc_half q = q \<or> odd q \<and> \<bar>2 * trunc_half q - q\<bar> = 1"
    by (cases "even q") (auto simp: trunc_half_def sgn_if elim!: evenE oddE)
  have "\<bar>2 * trunc_half q - n\<bar> \<le> 1"
  proof (cases "q = n")
    case False
    then have "odd n" "q = n + 1 \<or> q = n - 1" using q by auto
    then have "even q" by auto
    then show ?thesis using h q(1) by auto
  qed (use h in auto)
  then obtain e where e: "2 * trunc_half q = lo + hi + e" "\<bar>e\<bar> \<le> 1"
    unfolding n_def by (metis add_diff_cancel_left' add_diff_eq add.commute diff_add_cancel)
  have "2 * (trunc_half q - lo) = (hi - lo) + e" "2 * (hi - trunc_half q) = (hi - lo) + - e"
    using e(1) by simp_all
  then have "2 * \<bar>trunc_half q - lo\<bar> = \<bar>(hi - lo) + e\<bar>" "2 * \<bar>hi - trunc_half q\<bar> = \<bar>(hi - lo) + - e\<bar>"
    by (metis abs_mult abs_numeral)+
  then show ?thesis
    unfolding m q_def[symmetric] using abs_triangle_ineq[of "hi - lo" e] abs_triangle_ineq[of "hi - lo" "- e"] e(2)
    by linarith
qed

lemma twice_le: "2 * \<bar>x\<bar> \<le> c \<Longrightarrow> 2 * x \<le> c \<and> - (2 * x) \<le> (c :: int)"
  by (simp add: abs_if split: if_splits)

lemma halfway:
  fixes m :: int
  assumes "2 * \<bar>m - lo\<bar> \<le> \<bar>hi - lo\<bar> + 1" "2 * \<bar>hi - m\<bar> \<le> \<bar>hi - lo\<bar> + 1"
  shows "lo \<le> m \<and> m \<le> hi \<or> hi \<le> m \<and> m \<le> lo"
proof (cases "lo \<le> hi")
  case True
  then have "\<bar>hi - lo\<bar> = hi - lo" by simp
  then have "2 * (m - lo) \<le> hi - lo + 1" "2 * (hi - m) \<le> hi - lo + 1" using assms[THEN twice_le] by simp_all
  then show ?thesis using True by presburger
next
  case False
  then have "\<bar>hi - lo\<bar> = lo - hi" by simp
  then have "- (2 * (m - lo)) \<le> lo - hi + 1" "- (2 * (hi - m)) \<le> lo - hi + 1" using assms[THEN twice_le] by simp_all
  then show ?thesis using False by presburger
qed

text \<open>Between the target and the value, and closer to the value with every step.\<close>

definition toward :: "int \<Rightarrow> int \<Rightarrow> int \<Rightarrow> bool" where
  "toward tgt current v \<longleftrightarrow> (tgt \<le> v \<and> v < current \<or> current < v \<and> v \<le> tgt)"

lemma midpoints_toward:
  assumes "safe_int lo" "safe_int hi" "\<bar>hi - lo\<bar> \<le> 9007199254740991" "v \<in> set (midpoints n lo hi)"
  shows "toward lo hi v"
  using assms
proof (induction n arbitrary: lo)
  case (Suc n)
  define mid where "mid = midpoint lo hi"
  have mid: "mid \<noteq> lo" "mid \<noteq> hi" and v: "v = mid \<or> v \<in> set (midpoints n mid hi)"
    using Suc.prems(4) by (auto simp: mid_def Let_def split: if_splits)
  have b: "2 * \<bar>mid - lo\<bar> \<le> \<bar>hi - lo\<bar> + 1" "2 * \<bar>hi - mid\<bar> \<le> \<bar>hi - lo\<bar> + 1"
    unfolding mid_def using midpoint_between[OF Suc.prems(1-3)] by blast+
  have m: "toward lo hi mid" using halfway[OF b] mid by (auto simp: toward_def)
  show ?case
    using v
  proof
    assume "v \<in> set (midpoints n mid hi)"
    then have "toward mid hi v"
      using m Suc.prems(1-3) by (intro Suc.IH) (auto simp: toward_def)
    then show ?thesis using m by (auto simp: toward_def)
  qed (use m in simp)
qed simp

lemma midpoints_enough:
  assumes "safe_int lo" "safe_int hi" "\<bar>hi - lo\<bar> \<le> 2 ^ k" "k \<le> 52"
  shows "midpoints (Suc k + j) lo hi = midpoints (Suc k) lo hi"
  using assms
proof (induction k arbitrary: lo)
  case 0
  have "\<bar>hi - lo\<bar> \<le> 9007199254740991" using 0 by simp
  then have "midpoint lo hi = lo \<or> midpoint lo hi = hi"
    using midpoint_between[OF 0(1,2)] halfway[of "midpoint lo hi" lo hi] 0(3) by auto
  then show ?case by (simp add: Let_def)
next
  case (Suc k)
  have p: "(2::int) ^ Suc k \<le> 2 ^ 52" using Suc.prems(4) by (intro power_increasing) auto
  then have d: "\<bar>hi - lo\<bar> \<le> 9007199254740991" using Suc.prems(3) by simp
  define mid where "mid = midpoint lo hi"
  have b: "2 * \<bar>mid - lo\<bar> \<le> \<bar>hi - lo\<bar> + 1" "2 * \<bar>hi - mid\<bar> \<le> \<bar>hi - lo\<bar> + 1"
    unfolding mid_def using midpoint_between[OF Suc.prems(1,2) d] by blast+
  have "safe_int mid" using halfway[OF b] Suc.prems(1,2) by auto
  moreover have "\<bar>hi - mid\<bar> \<le> 2 ^ k" using b(2) Suc.prems(3) by simp
  ultimately have "midpoints (Suc k + j) mid hi = midpoints (Suc k) mid hi"
    using Suc.IH[of mid] Suc.prems(2,4) by simp
  then show ?case unfolding add_Suc midpoints.simps(2)[of _ lo] mid_def[symmetric] Let_def by simp
qed

lemma big_midpoints_toward: "v \<in> set (big_midpoints lo hi) \<Longrightarrow> toward lo hi v"
proof (induction lo hi rule: big_midpoints.induct)
  case (1 lo hi)
  define mid where "mid = lo + trunc_half (hi - lo)"
  have v: "mid \<noteq> lo" "mid \<noteq> hi" "v = mid \<or> v \<in> set (big_midpoints mid hi)"
    using 1(2) unfolding big_midpoints.simps[of lo hi] mid_def[symmetric] Let_def by (auto split: if_splits)
  have m: "toward lo hi mid"
    using v(1,2) by (auto simp: toward_def mid_def trunc_half_def sgn_if split: if_splits)
  have "toward mid hi v" if "v \<in> set (big_midpoints mid hi)"
    using 1(1)[of mid] that v(1,2) by (simp add: mid_def)
  then show ?case using v(3) m by (auto simp: toward_def)
qed
section \<open>Generators that are proper\<close>

definition prng_ok :: "prng \<Rightarrow> bool" where
  "prng_ok p \<longleftrightarrow> (\<exists>w. prng_at p w)"

lemma prng_ok_make [simp]: "prng_ok (prng_make s)"
  using prng_make_at by (auto simp: prng_ok_def)

lemma prng_ok_split: "prng_ok p \<Longrightarrow> prng_ok (fst (prng_split p)) \<and> prng_ok (snd (prng_split p))"
  using prng_split_at by (auto simp: prng_ok_def)

lemma prng_ok_fresh [simp]: "prng_ok (fresh s)"
  by (simp add: fresh_def)

lemma on_split_ok: "prng_ok p \<Longrightarrow> on_split f p = (r, p1) \<Longrightarrow> prng_ok p1 \<and> (\<exists>c. prng_ok c \<and> r = fst (f c))"
  using prng_ok_split[of p] by (auto simp: on_split_def split: prod.splits)

lemma nextBigInt_ok: "prng_ok p \<Longrightarrow> prng_ok (snd (prng_nextBigInt p)) \<and> 0 \<le> fst (prng_nextBigInt p)"
  using prng_nextBigInt_at by (fastforce simp: prng_ok_def)

lemma nextInt_in:
  assumes "prng_ok p" "lo \<le> hi" "safe_int lo" "safe_int hi" "hi - lo \<le> 9007199254740991"
  shows "\<exists>v p'. prng_nextInt p (Some lo) (Some hi) = (Inr v, p') \<and> lo \<le> v \<and> v \<le> hi \<and> prng_ok p'"
proof (cases "lo = hi")
  case True
  then show ?thesis using prng_nextInt_ok assms(1)
    by (simp add: prng_nextInt_def to_double_id)
next
  case False
  obtain w where w: "prng_at p w" using assms(1) by (auto simp: prng_ok_def)
  have "prng_nextInt p (Some lo) (Some hi) =
      (Inr (lo + uint (sm_mix (w + sm_gamma)) mod (hi - lo + 1)), snd (prng_advance p))"
    by (rule prng_nextInt_ok[OF w]) (use assms False in auto)
  moreover have "0 \<le> uint (sm_mix (w + sm_gamma)) mod (hi - lo + 1)" "uint (sm_mix (w + sm_gamma)) mod (hi - lo + 1) \<le> hi - lo"
    using mod_range[of "hi - lo + 1" "uint (sm_mix (w + sm_gamma))"] assms(2) by linarith+
  moreover have "prng_ok (snd (prng_advance p))" using prng_advance_at[OF w] by (auto simp: prng_ok_def)
  ultimately show ?thesis by auto
qed

lemma drawInt_in:
  assumes "prng_ok p" "lo \<le> hi" "safe_int lo" "safe_int hi"
  shows "\<exists>v p'. drawInt p lo hi = (Inr v, p') \<and> lo \<le> v \<and> v \<le> hi \<and> prng_ok p'"
proof (cases "to_double (hi - lo) < MAX_SAFE_INTEGER")
  case True
  have "hi - lo \<le> 9007199254740991"
  proof (rule ccontr)
    assume big: "\<not> hi - lo \<le> 9007199254740991"
    have "\<bar>to_double (hi - lo) - (hi - lo)\<bar> \<le> 1" using assms(3,4) by (intro to_double_near) simp
    then show False using big True by (simp add: MAX_SAFE_INTEGER_def)
  qed
  then show ?thesis using nextInt_in[OF assms] True by (simp add: drawInt_def)
next
  case False
  obtain b p1 where b: "prng_nextBigInt p = (b, p1)" by (metis prod.exhaust)
  have "0 \<le> b mod (hi - lo + 1)" "b mod (hi - lo + 1) \<le> hi - lo" using mod_range[of "hi - lo + 1" b] assms(2) by linarith+
  moreover from this have "to_double (lo + b mod (hi - lo + 1)) = lo + b mod (hi - lo + 1)"
    using assms(3,4) by (intro to_double_id) simp
  ultimately show ?thesis
    using False b nextBigInt_ok[OF assms(1)] by (auto simp: drawInt_def Let_def)
qed

lemma sizedWidth_bounds: "0 \<le> w \<Longrightarrow> 0 \<le> sizedWidth powFloor w sz \<and> sizedWidth powFloor w sz \<le> w"
  by (auto simp: sizedWidth_def Let_def)

section \<open>Integers\<close>

lemma shrink_target_between: "mn \<le> mx \<Longrightarrow> mn \<le> shrink_target mn mx \<and> shrink_target mn mx \<le> mx"
  by (auto simp: shrink_target_def)

lemma safe_between: "safe_int mn \<Longrightarrow> safe_int mx \<Longrightarrow> mn \<le> x \<Longrightarrow> x \<le> mx \<Longrightarrow> safe_int x"
  by auto

lemma number_kids_closer:
  assumes "safe_int tgt" "safe_int v" "\<bar>v - tgt\<bar> \<le> 9007199254740991" "c \<in> set (fst (number_kids tgt v))"
  shows "toward tgt v c"
proof -
  have "v \<noteq> tgt" "c = tgt \<or> c \<in> set (midpoints 64 tgt v)"
    using assms(4) by (auto simp: number_kids_def split: if_splits)
  then show ?thesis using midpoints_toward[OF assms(1,2,3)] by (auto simp: toward_def)
qed

lemma toward_closer: "toward tgt v c \<Longrightarrow> \<bar>c - tgt\<bar> < \<bar>v - tgt\<bar>"
  by (auto simp: toward_def)

lemma number_tree_nodes:
  assumes "safe_int mn" "safe_int mx" "mn \<le> v" "v \<le> mx" "subtree (number_tree (shrink_target mn mx) v) u"
  defines "tgt \<equiv> shrink_target mn mx"
  shows "mn \<le> tree_value u \<and> tree_value u \<le> mx \<and> tree_throw u = None \<and>
    (\<forall>c\<in>set (tree_shrinks u). \<bar>tree_value c - tgt\<bar> < \<bar>tree_value u - tgt\<bar>)"
proof -
  have kid: "toward tgt x c" if "mn \<le> x" "x \<le> mx" "c \<in> set (fst (number_kids tgt x))" for x c
    by (rule number_kids_closer[OF _ _ _ that(3)]) (use that(1,2) assms(1,2) in \<open>auto simp: tgt_def shrink_target_def\<close>)
  have tgt: "mn \<le> tgt" "tgt \<le> mx" using shrink_target_between[of mn mx] assms(3,4) unfolding tgt_def by auto
  have "\<exists>x. (mn \<le> x \<and> x \<le> mx) \<and> u = grow id (number_kids tgt) x"
  proof (rule grow_subtree)
    show "subtree (grow id (number_kids tgt) v) u" using assms(5) by (simp add: number_tree_def tgt_def)
    show "mn \<le> c \<and> c \<le> mx" if "mn \<le> x \<and> x \<le> mx" "c \<in> set (fst (number_kids tgt x))" for x c
      using kid[of x c] that tgt by (auto simp: toward_def)
  qed (use assms(3,4) in simp)
  then obtain x where x: "mn \<le> x" "x \<le> mx" "u = grow id (number_kids tgt) x" by blast
  then show ?thesis using kid[OF x(1,2)] toward_closer by (auto simp: number_kids_def)
qed

lemma integerArb_ok:
  assumes "safe_int mn" "safe_int mx" "mn \<le> mx" "prng_ok p"
  shows "\<exists>v p'. integerArb powFloor mn mx p sz = (Inr (number_tree (shrink_target mn mx) v), p') \<and>
    mn \<le> v \<and> v \<le> mx \<and> prng_ok p'"
proof -
  define tgt where "tgt = shrink_target mn mx"
  define lo where "lo = tgt - sizedWidth powFloor (tgt - mn) sz"
  define hi where "hi = tgt + sizedWidth powFloor (mx - tgt) sz"
  have b: "mn \<le> lo" "lo \<le> tgt" "tgt \<le> hi" "hi \<le> mx"
    using shrink_target_between[OF assms(3)] sizedWidth_bounds[of "tgt - mn" powFloor sz]
      sizedWidth_bounds[of "mx - tgt" powFloor sz] by (auto simp: lo_def hi_def tgt_def)
  have "safe_int lo" "safe_int hi" "lo \<le> hi" using b by (auto intro!: safe_between[OF assms(1,2)])
  from drawInt_in[OF assms(4) this(3,1,2)] obtain v p' where
    "drawInt p lo hi = (Inr v, p')" "lo \<le> v" "v \<le> hi" "prng_ok p'" by blast
  then have "integerArb powFloor mn mx p sz = (Inr (number_tree tgt v), p')" "mn \<le> v" "v \<le> mx" "prng_ok p'"
    using b by (simp_all add: integerArb_def Let_def lo_def hi_def tgt_def)
  then show ?thesis unfolding tgt_def by blast
qed
section \<open>Arrays\<close>

lemma without_chunk_set: "set (without_chunk xs off r) \<subseteq> set xs"
  unfolding without_chunk_def using set_take_subset set_drop_subset by fastforce

lemma without_chunk_subseq: "subseq (without_chunk xs off r) xs"
proof -
  have "subseq (drop (off + r) xs) (drop off xs)"
    by (metis add.commute drop_drop suffix_drop suffix_imp_subseq)
  then have "subseq (take off xs @ drop (off + r) xs) (take off xs @ drop off xs)" by (rule list_emb_append_mono[OF subseq_order.refl])
  then show ?thesis by (simp add: without_chunk_def)
qed

lemma removals_ok: "c \<in> set (removals xs k) \<Longrightarrow> subseq c xs \<and> k \<le> length c"
  by (auto simp: removals_def without_chunk_subseq)

lemma chunk_sizes_pos: "r \<in> set (chunk_sizes n) \<Longrightarrow> 0 < r"
proof (induction n rule: chunk_sizes.induct)
  case (1 n)
  then show ?case using chunk_sizes.simps[of n] by (auto split: if_splits)
qed

lemma chunk_offsets_less: "off \<in> set (chunk_offsets r o0 len) \<Longrightarrow> off < len"
proof (induction r o0 len rule: chunk_offsets.induct)
  case (1 r o0 len)
  then show ?case using chunk_offsets.simps[of r o0 len] by (auto split: if_splits)
qed

lemma removals_shorter: "c \<in> set (removals xs k) \<Longrightarrow> length c < length xs"
  using chunk_sizes_pos chunk_offsets_less[of _ _ 0 "length xs"]
  by (fastforce simp: removals_def without_chunk_def)

lemma element_kids_ok:
  assumes "c \<in> set (fst (element_kids trees))"
  shows "\<exists>i d. i < length trees \<and> d \<in> set (tree_shrinks (trees ! i)) \<and> c = trees[i := d]"
  using set_flow[OF assms[unfolded element_kids_def]] by auto

lemma allUnique_loop_distinct:
  "allUnique_loop seen f vs \<longleftrightarrow> distinct (map f vs) \<and> set (map f vs) \<inter> set seen = {}"
  by (induction vs arbitrary: seen) auto

lemma allUnique_distinct: "allUnique f vs \<longleftrightarrow> distinct (map f vs)"
  by (simp add: allUnique_def allUnique_loop_distinct)

text \<open>
  The invariant of the states of \<open>shrinkArray\<close>: the length bounds, a property of every node of the
  element trees, and unique keys where a key function is given.
\<close>

definition array_state :: "nat \<Rightarrow> nat \<Rightarrow> ('a \<Rightarrow> bool) \<Rightarrow> ('a \<Rightarrow> 'k) option \<Rightarrow> 'a shrink_tree list \<Rightarrow> bool" where
  "array_state lo hi Q keyFn trees \<longleftrightarrow>
     lo \<le> length trees \<and> length trees \<le> hi \<and> (\<forall>t\<in>set trees. \<forall>u. subtree t u \<longrightarrow> Q (tree_value u)) \<and>
     (\<forall>f. keyFn = Some f \<longrightarrow> distinct (map (\<lambda>t. f (tree_value t)) trees))"

lemma array_kids_keep:
  assumes "array_state lo hi Q keyFn s" "c \<in> set (fst (array_kids lo keyFn s))"
  shows "array_state lo hi Q keyFn c"
proof -
  obtain es t where e: "element_kids s = (es, t)" by (metis prod.exhaust)
  have "c \<in> set (removals s lo) \<or> c \<in> set es \<and> (case keyFn of None \<Rightarrow> True | Some f \<Rightarrow> allUnique f (map tree_value c))"
    using set_flow[OF assms(2)[unfolded array_kids_def e prod.case]] by auto
  then show ?thesis
  proof
    assume "c \<in> set (removals s lo)"
    then have c: "subseq c s" "lo \<le> length c" using removals_ok by blast+
    have "distinct (map (\<lambda>t. f (tree_value t)) c)" if "keyFn = Some f" for f
      using subseq_map[OF c(1), of "\<lambda>t. f (tree_value t)"] subseqs_distinctD assms(1) that
      by (metis array_state_def in_set_subseqs)
    then show ?thesis
      using c assms(1) list_emb_length[OF c(1)] list_emb_set[OF c(1)] unfolding array_state_def by fastforce
  next
    assume "c \<in> set es \<and> (case keyFn of None \<Rightarrow> True | Some f \<Rightarrow> allUnique f (map tree_value c))"
    then have u: "\<forall>f. keyFn = Some f \<longrightarrow> distinct (map (\<lambda>t. f (tree_value t)) c)"
      and "c \<in> set (fst (element_kids s))" by (auto simp: e allUnique_distinct comp_def)
    then obtain i d where c: "i < length s" "d \<in> set (tree_shrinks (s ! i))" "c = s[i := d]"
      using element_kids_ok by blast
    have "Q (tree_value v)" if "subtree d v" for v
      using assms(1) c(1,2) that below[OF c(2)] unfolding array_state_def by (meson nth_mem)
    then show ?thesis using u c(3) assms(1) set_update_subset_insert[of s i d] unfolding array_state_def by auto
  qed
qed

lemma array_tree_nodes:
  assumes "subtree (array_tree lo keyFn trees) u" "array_state lo hi Q keyFn trees"
  shows "lo \<le> length (tree_value u) \<and> length (tree_value u) \<le> hi \<and> list_all Q (tree_value u) \<and>
    (\<forall>f. keyFn = Some f \<longrightarrow> distinct (map f (tree_value u)))"
proof -
  obtain s where s: "array_state lo hi Q keyFn s" "u = array_tree lo keyFn s"
    using grow_subtree[OF assms(1)[unfolded array_tree_def], of "array_state lo hi Q keyFn"] assms(2)
      array_kids_keep[of lo hi Q keyFn] unfolding array_tree_def by blast
  have "Q (tree_value t)" if "t \<in> set s" for t using s(1) that here unfolding array_state_def by blast
  then show ?thesis using s by (auto simp: array_state_def array_tree_def list_all_iff comp_def)
qed

text \<open>A generator whose trees hold only values of \<open>Q\<close>, from proper generators.\<close>

definition arb_yields :: "'a arbitrary \<Rightarrow> ('a \<Rightarrow> bool) \<Rightarrow> bool" where
  "arb_yields arb Q \<longleftrightarrow>
     (\<forall>p sz t p'. prng_ok p \<longrightarrow> arb p sz = (Inr t, p') \<longrightarrow> (\<forall>u. subtree t u \<longrightarrow> Q (tree_value u)))"

lemma arb_yieldsD: "arb_yields arb Q \<Longrightarrow> prng_ok p \<Longrightarrow> arb p sz = (Inr t, p') \<Longrightarrow> subtree t u \<Longrightarrow> Q (tree_value u)"
  by (auto simp: arb_yields_def)

lemma on_split_yields:
  assumes "arb_yields arb Q" "prng_ok p" "on_split (\<lambda>c. arb c sz) p = (Inr t, p1)"
  shows "prng_ok p1 \<and> (\<forall>u. subtree t u \<longrightarrow> Q (tree_value u))"
proof -
  from on_split_ok[OF assms(2,3)] obtain c where c: "prng_ok p1" "prng_ok c" "Inr t = fst (arb c sz)" by blast
  then have "arb c sz = (Inr t, snd (arb c sz))" by (metis prod.collapse)
  then show ?thesis using c arb_yieldsD[OF assms(1) c(2)] by blast
qed

lemma draw_each_yields:
  "draw_each arbs p sz = (Inr ts, p') \<Longrightarrow> prng_ok p \<Longrightarrow> \<forall>a\<in>set arbs. arb_yields a Q \<Longrightarrow>
    length ts = length arbs \<and> (\<forall>t\<in>set ts. \<forall>u. subtree t u \<longrightarrow> Q (tree_value u))"
proof (induction arbs arbitrary: p ts)
  case (Cons a arbs)
  then obtain t p1 ts' where "on_split (\<lambda>c. a c sz) p = (Inr t, p1)" "draw_each arbs p1 sz = (Inr ts', p')" "ts = t # ts'"
    by (auto split: prod.splits sum.splits)
  then show ?case using Cons.IH[of p1 ts'] Cons.prems on_split_yields[of a Q p sz t p1] by auto
qed simp
lemma lengthBounds_ok:
  assumes "lengthBounds a b = Inr (lo, hi)"
  shows "0 \<le> lo \<and> safe_int lo \<and> (\<forall>h. hi = Some h \<longrightarrow> lo \<le> h \<and> safe_int h)"
  using assms by (auto simp: lengthBounds_def split: js_number.splits if_splits)

lemma sizedMax_bounds:
  assumes "lengthBounds a b = Inr (lo, hi)" "safe_int sz"
  shows "lo \<le> sizedMax lo hi sz \<and> safe_int (sizedMax lo hi sz) \<and> (\<forall>h. hi = Some h \<longrightarrow> sizedMax lo hi sz \<le> h)"
  using lengthBounds_ok[OF assms(1)] assms(2) by (auto simp: sizedMax_def split: option.splits)

lemma draw_length:
  assumes "lengthBounds a b = Inr (lo, hi)" "safe_int sz" "prng_ok p"
  shows "\<exists>n p'. prng_nextInt p (Some lo) (Some (sizedMax lo hi sz)) = (Inr n, p') \<and>
    lo \<le> n \<and> n \<le> sizedMax lo hi sz \<and> 0 \<le> n \<and> prng_ok p'"
proof -
  have s: "0 \<le> lo" "safe_int lo" "lo \<le> sizedMax lo hi sz" "safe_int (sizedMax lo hi sz)"
    using lengthBounds_ok[OF assms(1)] sizedMax_bounds[OF assms(1,2)] by blast+
  then have "sizedMax lo hi sz - lo \<le> 9007199254740991" by linarith
  from nextInt_in[OF assms(3) s(3,2,4) this] show ?thesis using s(1) order_trans by blast
qed

lemma unique_loop_ok:
  assumes "unique_loop arb f cap n trees seen g misses p = (Inr ts, p')" "arb_yields arb Q" "prng_ok p"
    "set seen = set (map (\<lambda>t. f (tree_value t)) trees)" "array_state 0 n Q (Some f) trees"
  shows "array_state 0 n Q (Some f) ts"
  using assms
proof (induction arb f cap n trees seen g misses p arbitrary: ts rule: unique_loop.induct)
  case (1 arb f cap n trees seen g misses p)
  obtain r p1 where r: "on_split (\<lambda>c. arb c g) p = (r, p1)" by (metis prod.exhaust)
  note step = "1.prems"(1)[unfolded unique_loop.simps[of arb f cap n trees seen g misses p] r prod.case]
  show ?case
  proof (cases "length trees < n \<and> (\<exists>t. r = Inr t)")
    case False
    then show ?thesis using step "1.prems"(5) by (cases r) (auto split: if_splits)
  next
    case True
    then obtain t where less: "length trees < n" and t: "r = Inr t" by blast
    have t': "prng_ok p1" "\<forall>u. subtree t u \<longrightarrow> Q (tree_value u)"
      using on_split_yields[OF "1.prems"(2,3)] r t by blast+
    define k where "k = f (tree_value t)"
    note step' = step[unfolded t sum.case k_def[symmetric] Let_def] and at = r[unfolded t, symmetric]
    show ?thesis
    proof (cases "k \<notin> set seen")
      case True
      have "array_state 0 n Q (Some f) (trees @ [t])"
        using "1.prems"(4,5) less t'(2) True by (auto simp: array_state_def k_def)
      then show ?thesis
        using "1.IH"(1)[OF less at refl k_def] step' less True "1.prems"(2,4) t'(1) k_def by simp
    next
      case False
      then show ?thesis
        using "1.IH"(2)[OF less at refl k_def] "1.IH"(3)[OF less at refl k_def] step' less "1.prems"(2,4,5) t'(1)
        by (auto split: if_splits)
    qed
  qed
qed

lemma array_state_bounds:
  assumes "array_state 0 n Q f ts" "lo \<le> length ts" "n \<le> hi"
  shows "array_state lo hi Q f ts"
  using assms by (auto simp: array_state_def)

section \<open>Strings\<close>

definition printable :: "jstr \<Rightarrow> bool" where
  "printable s \<longleftrightarrow> list_all (\<lambda>c. 0x20 \<le> c \<and> c \<le> 0x7e) s"

lemma draw_chars_ok:
  "prng_ok p \<Longrightarrow> \<exists>s p'. draw_chars n p = (Inr s, p') \<and> length s = n \<and> printable s"
proof (induction n arbitrary: p)
  case (Suc n)
  from nextInt_in[OF Suc.prems, of 32 126] obtain c p1 where
    "prng_nextInt p (Some 32) (Some 126) = (Inr c, p1)" "32 \<le> c" "c \<le> 126" "prng_ok p1" by auto
  then show ?case using Suc.IH[of p1] by (auto simp: printable_def)
qed (simp add: printable_def)

lemma string_kids_keep:
  assumes "printable s" "lo \<le> length s" "length s \<le> hi" "c \<in> set (fst (string_kids lo s))"
  shows "printable c \<and> lo \<le> length c \<and> length c \<le> hi"
proof -
  consider "c \<in> set (removals s lo)" | i where "i < length s" "c = take i s @ of_text ''a'' @ drop (i + 1) s"
    using set_flow[OF assms(4)[unfolded string_kids_def]] by auto
  then show ?thesis
  proof cases
    case 1
    then have c: "subseq c s" "lo \<le> length c" using removals_ok by blast+
    have "set c \<subseteq> set s" using list_emb_set[OF c(1)] by auto
    then show ?thesis using assms c(2) list_emb_length[OF c(1)] by (auto simp: printable_def list_all_iff)
  next
    case 2
    have "set c \<subseteq> insert 97 (set s)"
      using 2(2) set_take_subset[of i s] set_drop_subset[of "i + 1" s] by (auto simp: of_text_def)
    then show ?thesis using assms 2 by (auto simp: printable_def list_all_iff of_text_def)
  qed
qed

section \<open>Subarrays\<close>

lemma nths_of_sorted:
  "sorted_wrt (<) is \<Longrightarrow> \<forall>i\<in>set is. k \<le> i \<and> i < length xs \<Longrightarrow> subseq (map (\<lambda>i. xs ! i) is) (drop k xs)"
proof (induction "is" arbitrary: k)
  case (Cons i "is")
  then have "subseq (map (\<lambda>i. xs ! i) is) (drop (Suc i) xs)" by (intro Cons.IH) (auto simp: Suc_le_eq)
  then have "subseq (map (\<lambda>i. xs ! i) (i # is)) (drop i xs)"
    using Cons.prems(2) by (simp add: Cons_nth_drop_Suc[symmetric])
  moreover have "suffix (drop i xs) (drop k xs)"
    using Cons.prems(2) by (metis drop_drop le_add_diff_inverse2 list.set_intros(1) suffix_drop)
  ultimately show ?case by (meson suffix_imp_subseq subseq_order.trans)
qed simp

lemma swap_at_mset: "i < length xs \<Longrightarrow> j < length xs \<Longrightarrow> set (swap_at xs i j) = set xs \<and> length (swap_at xs i j) = length xs \<and>
    distinct (swap_at xs i j) = distinct xs"
proof -
  assume "i < length xs" "j < length xs"
  then have m: "mset (swap_at xs i j) = mset xs" using mset_swap[of j xs i] by (simp add: swap_at_def)
  show ?thesis using mset_eq_setD[OF m] mset_eq_length[OF m] mset_eq_imp_distinct_iff[OF m] by simp
qed

lemma pick_indices_ok:
  assumes "prng_ok p" "i + n \<le> length xs" "int (length xs) < 9007199254740991" "distinct xs"
  shows "\<exists>ys p'. pick_indices n i xs p = (Inr ys, p') \<and> distinct ys \<and> set ys = set xs \<and> length ys = length xs"
  using assms
proof (induction n arbitrary: i xs p)
  case (Suc n)
  have b: "int i \<le> js_len xs - 1" using Suc.prems(2) by (simp add: js_len_def)
  have "safe_int (int i)" "safe_int (js_len xs - 1)" "js_len xs - 1 - int i \<le> 9007199254740991"
    using Suc.prems(2,3) by (auto simp: js_len_def)
  from nextInt_in[OF Suc.prems(1) b this] obtain j p1 where
    j: "prng_nextInt p (Some (int i)) (Some (js_len xs - 1)) = (Inr j, p1)" "int i \<le> j" "j \<le> js_len xs - 1" "prng_ok p1"
    by blast
  have s: "set (swap_at xs i (nat j)) = set xs" "length (swap_at xs i (nat j)) = length xs" "distinct (swap_at xs i (nat j)) = distinct xs"
    using swap_at_mset[of i xs "nat j"] j(2,3) Suc.prems(2) by (simp_all add: js_len_def)
  show ?case
    using Suc.IH[OF j(4), of "Suc i" "swap_at xs i (nat j)"] Suc.prems s by (simp add: j(1))
qed simp

lemma subarray_kids_subseq: "c \<in> set (fst (subarray_kids s)) \<Longrightarrow> subseq c s"
  using without_chunk_subseq[of s _ 1] by (auto simp: subarray_kids_def without_chunk_def split: if_splits)

section \<open>Choices\<close>

lemma alternatives_from_yields:
  "prng_ok rng \<Longrightarrow> \<forall>a\<in>set arbs. arb_yields a Q \<Longrightarrow> t \<in> set (fst (alternatives_from arbs rng sz)) \<Longrightarrow>
    subtree t u \<Longrightarrow> Q (tree_value u)"
proof (induction arbs arbitrary: rng)
  case (Cons a arbs)
  obtain r rng1 where r: "on_split (\<lambda>c. a c sz) rng = (r, rng1)" by (metis prod.exhaust)
  show ?case
  proof (cases r)
    case (Inr t0)
    then have "t = t0 \<or> t \<in> set (fst (alternatives_from arbs rng1 sz))"
      using Cons.prems(3) r by (auto split: prod.splits)
    moreover have "prng_ok rng1 \<and> (\<forall>u. subtree t0 u \<longrightarrow> Q (tree_value u))"
      using on_split_yields[of a Q rng sz t0 rng1] Cons.prems(1,2) r Inr by simp
    ultimately show ?thesis using Cons.IH[of rng1] Cons.prems(2,4) by auto
  qed (use Cons.prems r in auto)
qed simp

lemma alternative_tree_yields:
  assumes "\<forall>u. subtree t u \<longrightarrow> Q (tree_value u)" "\<forall>a\<in>set (take n arbs). arb_yields a Q"
    "subtree (alternative_tree t arbs n s sz) u"
  shows "Q (tree_value u)"
proof -
  obtain ts e where f: "flow [(tree_shrinks t, tree_throw t), alternatives_from (take n arbs) (fresh s) sz] = (ts, e)"
    by (metis prod.exhaust)
  have "Q (tree_value v)" if c: "c \<in> set ts" and v: "subtree c v" for c v
  proof -
    have "c \<in> set (tree_shrinks t) \<or> c \<in> set (fst (alternatives_from (take n arbs) (fresh s) sz))"
      using set_flow[of c "[(tree_shrinks t, tree_throw t), alternatives_from (take n arbs) (fresh s) sz]"] c by (simp add: f)
    then show ?thesis
      using assms(1) below[of c t v] v alternatives_from_yields[OF prng_ok_fresh assms(2), of c s sz v] by blast
  qed
  moreover have "Q (tree_value t)" using assms(1) here by blast
  ultimately show ?thesis
    using assms(3) by (auto simp: alternative_tree_def f elim: subtree.cases)
qed

text \<open>What the code relies on of the rounding of doubles.\<close>

definition rounding :: "(rat \<Rightarrow> rat) \<Rightarrow> bool" where
  "rounding rnd \<longleftrightarrow> rnd 0 = 0 \<and> (\<forall>x. rnd (rnd x) = rnd x) \<and> (\<forall>x. 0 \<le> x \<longrightarrow> 0 \<le> rnd x)"

lemma pick_entry_positive:
  assumes "rounding rnd" "\<forall>w\<in>set ws. 0 \<le> w" "\<not> r < c" "rnd c = c" "pick_entry rnd ws r c i = Some k"
  shows "i \<le> k \<and> k < i + length ws \<and> 0 < ws ! (k - i)"
  using assms(2-)
proof (induction ws arbitrary: c i)
  case (Cons w ws)
  show ?case
  proof (cases "r < rnd (c + w)")
    case True
    then have "w \<noteq> 0" using Cons.prems(2,3) by (metis add.right_neutral)
    then show ?thesis using True Cons.prems(1,4) by (auto simp: Let_def)
  next
    case False
    then show ?thesis
      using Cons.IH[of "rnd (c + w)" "Suc i"] Cons.prems(1,4) assms(1)
      by (fastforce simp: Let_def rounding_def nth_Cons' Suc_diff_le)
  qed
qed simp

lemma total_weight_ok:
  assumes "rounding rnd" "total_weight rnd ws acc = Inr tot"
  shows "(\<forall>w\<in>set ws. \<exists>x\<ge>0. w = Some x) \<and> (acc = 0 \<and> (\<forall>w\<in>set ws. w = Some 0) \<longrightarrow> tot = 0)"
  using assms(2)
proof (induction ws arbitrary: acc)
  case (Cons w ws)
  then show ?case using assms(1) by (fastforce simp: rounding_def split: option.splits if_splits)
qed simp

lemma weight_order_set: "set (weight_order ws) = {i. i < length ws \<and> 0 < ws ! i}"
  by (auto simp: weight_order_def)

lemma fold_max_in: "fold max xs (a :: nat) \<in> insert a (set xs)"
  by (induction xs arbitrary: a) (auto simp: max_def split: if_splits)

lemma prng_next_ok:
  assumes "prng_ok p"
  shows "prng_ok (snd (prng_next p)) \<and> 0 \<le> fst (prng_next p)"
proof -
  obtain w where w: "prng_at p w" using assms by (auto simp: prng_ok_def)
  obtain h l p1 where a: "prng_advance p = ((h, l), p1)" by (metis prod.exhaust)
  have "0 \<le> h" "prng_at p1 (w + sm_gamma)"
    using prng_advance_at[OF w] half_bounds by (auto simp: a halves_of_def)
  moreover have "0 \<le> js_ushr l 11" by (simp add: js_ushr_def to_uint32_def)
  ultimately show ?thesis by (auto simp: prng_next_def a prng_ok_def)
qed

section \<open>Properties\<close>

text \<open>
  C20. \<open>integer(min, max)\<close> on safe bounds never throws while generating, and every value it can ever
  shrink to stays within the bounds. Each shrink is strictly closer to the target, so shrinking ends
  whatever the property under test; the rounding of doubles near \<open>2^53\<close> is included.
\<close>

theorem arb_integer_in_bounds:
  assumes "arb_integer powFloor (Some (Whole a)) (Some (Whole b)) = Inr arb" "prng_ok p"
  shows "\<exists>t p'. arb p sz = (Inr t, p') \<and>
    (\<forall>u. \<not> subtree t u \<or> (a \<le> tree_value u \<and> tree_value u \<le> b \<and>
      list_all (\<lambda>c. \<bar>tree_value c - shrink_target a b\<bar> < \<bar>tree_value u - shrink_target a b\<bar>) (tree_shrinks u)))"
proof -
  have ab: "safe_int a" "safe_int b" "a \<le> b" "arb = integerArb powFloor a b"
    using assms(1) by (auto simp: arb_integer_def given_def split: if_splits)
  obtain v p' where v: "arb p sz = (Inr (number_tree (shrink_target a b) v), p')" "a \<le> v" "v \<le> b"
    using integerArb_ok[OF ab(1-3) assms(2)] ab(4) by blast
  show ?thesis
    by (rule exI, rule exI, rule conjI[OF v(1)]) (use number_tree_nodes[OF ab(1,2) v(2,3)] in \<open>auto simp: list_all_iff\<close>)
qed

theorem arb_integer_in_bounds_witness:
  "\<exists>arb t p'. arb_integer (\<lambda>w s. 1) (Some (Whole (- 5))) (Some (Whole 9)) = Inr arb \<and>
    arb (prng_make 3) 100 = (Inr t, p') \<and> - 5 \<le> tree_value t \<and> tree_value t \<le> 9"
proof -
  have g: "arb_integer (\<lambda>w s. 1) (Some (Whole (- 5))) (Some (Whole 9)) = Inr (integerArb (\<lambda>w s. 1) (- 5) 9)"
    by (simp add: arb_integer_def given_def)
  show ?thesis using arb_integer_in_bounds[OF g prng_ok_make, of 3 100] here g by blast
qed

text \<open>
  \<open>uniqueArray\<close>: in every array that the generator returns or that shrinking can reach, the number of
  elements is within the bounds, every element is a value that the element generator can yield, and no two
  elements have the same key.
\<close>

theorem arb_uniqueArray_distinct:
  assumes "arb_uniqueArray arb a b keyFn = Inr g" "lengthBounds a b = Inr (lo, hi)" "arb_yields arb Q"
    "prng_ok p" "safe_int sz" "g p sz = (Inr t, p')" "subtree t u"
  shows "lo \<le> js_len (tree_value u) \<and> js_len (tree_value u) \<le> sizedMax lo hi sz \<and>
    list_all Q (tree_value u) \<and> distinct (map keyFn (tree_value u))"
proof -
  have g: "g = uniqueArrayOf arb lo hi keyFn" using assms(1,2) by (simp add: arb_uniqueArray_def)
  obtain n p1 where n: "prng_nextInt p (Some lo) (Some (sizedMax lo hi sz)) = (Inr n, p1)"
    "lo \<le> n" "n \<le> sizedMax lo hi sz" "0 \<le> n" "prng_ok p1" using draw_length[OF assms(2,5,4)] by blast
  obtain ts where ts: "unique_loop arb keyFn (max sz FULL_SIZE) (nat n) [] [] sz 0 p1 = (Inr ts, p')"
    "lo \<le> js_len ts" "t = array_tree (nat lo) (Some keyFn) ts"
    using assms(6) by (auto simp: g uniqueArrayOf_def n(1) split: sum.splits prod.splits if_splits)
  have "array_state 0 (nat n) Q (Some keyFn) ts"
    by (rule unique_loop_ok[OF ts(1) assms(3) n(5)]) (simp_all add: array_state_def)
  then have "array_state (nat lo) (nat (sizedMax lo hi sz)) Q (Some keyFn) ts"
    by (rule array_state_bounds) (use ts(2) n(3) in \<open>auto simp: js_len_def\<close>)
  from array_tree_nodes[OF assms(7)[unfolded ts(3)] this] show ?thesis
    using n(2-4) by (auto simp: js_len_def)
qed

text \<open>
  \<open>array\<close>: in every array that the generator returns or that shrinking can reach, the number of
  elements is within the bounds and every element is a value that the element generator can yield.
\<close>

theorem arb_array_bounds:
  assumes "arb_array arb a b = Inr g" "lengthBounds a b = Inr (lo, hi)" "arb_yields arb Q"
    "prng_ok p" "safe_int sz" "g p sz = (Inr t, p')" "subtree t u"
  shows "lo \<le> js_len (tree_value u) \<and> js_len (tree_value u) \<le> sizedMax lo hi sz \<and> list_all Q (tree_value u)"
proof -
  have g: "g = arrayArb arb lo hi" using assms(1,2) by (simp add: arb_array_def)
  obtain n p1 where n: "prng_nextInt p (Some lo) (Some (sizedMax lo hi sz)) = (Inr n, p1)"
    "lo \<le> n" "n \<le> sizedMax lo hi sz" "0 \<le> n" "prng_ok p1" using draw_length[OF assms(2,5,4)] by blast
  obtain ts where ts: "draw_each (replicate (nat n) arb) p1 sz = (Inr ts, p')"
    "t = array_tree (nat lo) (None :: ('a \<Rightarrow> 'a) option) ts"
    using assms(6) by (auto simp: g arrayArb_def n(1) split: sum.splits prod.splits)
  have "length ts = nat n \<and> (\<forall>t\<in>set ts. \<forall>u. subtree t u \<longrightarrow> Q (tree_value u))"
    using draw_each_yields[OF ts(1) n(5), of Q] assms(3) by simp
  then have "array_state (nat lo) (nat (sizedMax lo hi sz)) Q None ts"
    using n(2-4) by (auto simp: array_state_def)
  from array_tree_nodes[OF assms(7)[unfolded ts(2)] this] show ?thesis
    using n(2-4) by (auto simp: js_len_def)
qed

text \<open>
  \<open>filter\<close>: whatever the generator, every value that a filtered generator returns or shrinks to
  satisfies the predicate, and \<open>maxRetries\<close> failures in a row end in an error.
\<close>

theorem arb_filter_sound:
  assumes "arb_filter arb pred maxRetries p sz = (Inr t, p')" "subtree t u"
  shows "pred (tree_value u)"
  using filter_loop_ok[OF assms(1)[unfolded arb_filter_def] assms(2)] .

text \<open>
  \<open>subarray\<close>: the generated array and every array reached by shrinking is a subsequence of the items,
  in their order and with none taken twice.
\<close>

theorem arb_subarray_subsequence:
  assumes "prng_ok p" "0 \<le> sz" "js_len items < 9007199254740991"
  shows "\<exists>t p'. arb_subarray items p sz = (Inr t, p') \<and> (\<forall>u. \<not> subtree t u \<or> subseq (tree_value u) items)"
proof -
  let ?m = "min (js_len items) sz"
  have "0 \<le> ?m" "safe_int 0" "safe_int ?m" "?m - 0 \<le> 9007199254740991" using assms(2,3) by (auto simp: js_len_def)
  from nextInt_in[OF assms(1) this] obtain len p1 where
    len: "prng_nextInt p (Some 0) (Some ?m) = (Inr len, p1)" "0 \<le> len" "len \<le> ?m" "prng_ok p1" by blast
  obtain ys p2 where ys: "pick_indices (nat len) 0 [0..<length items] p1 = (Inr ys, p2)" "distinct ys" "set ys = {0..<length items}"
    using pick_indices_ok[OF len(4), of 0 "nat len" "[0..<length items]"] len(2,3) assms(3)
    by (auto simp: js_len_def nat_le_iff)
  define v where "v = map (\<lambda>i. items ! i) (sort (take (nat len) ys))"
  have "sorted_wrt (<) (sort (take (nat len) ys))"
    using ys(2) by (simp add: strict_sorted_iff)
  moreover have "\<forall>i\<in>set (sort (take (nat len) ys)). 0 \<le> i \<and> i < length items"
    using ys(3) by (auto dest!: in_set_takeD)
  ultimately have v: "subseq v items"
    using nths_of_sorted[of "sort (take (nat len) ys)" 0 items] unfolding v_def by simp
  have "subseq (tree_value u) items" if u: "subtree (subarray_tree v) u" for u
    using grow_subtree[OF u[unfolded subarray_tree_def], of "\<lambda>s. subseq s items"] v subarray_kids_subseq
    by (metis grow.simps(1) id_apply subseq_order.trans)
  then show ?thesis using len(1) ys(1) by (auto simp: arb_subarray_def v_def)
qed

theorem arb_subarray_subsequence_witness:
  "\<exists>t p'. arb_subarray ''abc'' (prng_make 9) 2 = (Inr t, p') \<and> subseq (tree_value t) ''abc''"
proof -
  obtain t p' where "arb_subarray ''abc'' (prng_make 9) 2 = (Inr t, p')" "\<not> subtree t t \<or> subseq (tree_value t) ''abc''"
    using arb_subarray_subsequence[OF prng_ok_make, of 2 "''abc''" 9] by (simp add: js_len_def) blast
  then show ?thesis using here by blast
qed

text \<open>
  \<open>frequency\<close>: a weight of zero disables its entry. Every value generated, or reached by shrinking, can
  be yielded by an entry of positive weight, whatever the rounding of the cumulative sum.
\<close>

theorem arb_frequency_positive:
  assumes "rounding rnd" "arb_frequency rnd entries = Inr g"
    "\<forall>x\<in>set entries. fst x = Some 0 \<or> arb_yields (snd x) Q"
  shows "arb_yields g Q"
  unfolding arb_yields_def
proof (intro allI impI)
  fix p sz t p' u
  assume p: "prng_ok p" and run: "g p sz = (Inr t, p')" and u: "subtree t u"
  define ws where "ws = map (\<lambda>(w, a). the w) entries"
  define order where "order = weight_order ws"
  obtain tot where tot: "total_weight rnd (map fst entries) 0 = Inr tot" "\<not> tot \<le> 0"
    "g = frequencyOf rnd ws (map snd entries) tot (fold max order 0) (map (\<lambda>i. snd (entries ! i)) order) (rank_of order)"
    using assms(2) by (auto simp: arb_frequency_def ws_def order_def Let_def split: sum.splits if_splits)
  have w: "\<forall>w\<in>set (map fst entries). \<exists>x\<ge>0. w = Some x" "\<exists>w\<in>set (map fst entries). w \<noteq> Some 0"
    using total_weight_ok[OF assms(1) tot(1)] tot(2) by auto
  have ws0: "\<forall>w\<in>set ws. 0 \<le> w" using w(1) by (fastforce simp: ws_def)
  have good: "arb_yields (snd (entries ! i)) Q" if "i \<in> set order" for i
    using that assms(3) w(1) unfolding order_def weight_order_set
    by (auto simp: ws_def case_prod_beta) (metis nth_mem option.sel order_less_irrefl)
  have "order \<noteq> []"
  proof -
    from w(2) obtain i where "i < length entries" "fst (entries ! i) \<noteq> Some 0" by (auto simp: in_set_conv_nth)
    moreover from this obtain x where "fst (entries ! i) = Some x" "0 \<le> x" using w(1) by (metis length_map nth_map nth_mem)
    ultimately have "i \<in> set order" by (auto simp: order_def weight_order_set ws_def case_prod_beta)
    then show ?thesis by auto
  qed
  then have lp: "fold max order 0 \<in> set order"
    using fold_max_in[of "tl order" "hd order"] by (cases order) auto
  obtain x p1 where x: "prng_next p = (x, p1)" "prng_ok p1" "0 \<le> x" using prng_next_ok[OF p] by (metis prod.collapse)
  define chosen where "chosen = (case pick_entry rnd ws (rnd (x * tot)) 0 0 of Some i \<Rightarrow> i | None \<Rightarrow> fold max order 0)"
  have "\<not> rnd (x * tot) < 0" using assms(1) x(3) tot(2) by (simp add: rounding_def not_less)
  then have ch: "chosen \<in> set order"
    using pick_entry_positive[OF assms(1) ws0, of "rnd (x * tot)" 0 0] lp assms(1)
    by (auto simp: chosen_def order_def weight_order_set rounding_def split: option.split)
  then have n: "chosen < length entries" by (simp add: order_def weight_order_set ws_def)
  obtain t0 p2 where t0: "on_split (\<lambda>c. (snd (entries ! chosen)) c sz) p1 = (Inr t0, p2)"
    "t = t0 \<or> (\<exists>k s. t = alternative_tree t0 (map (\<lambda>i. snd (entries ! i)) order) k s sz)"
    using run n by (auto simp: tot(3) frequencyOf_def x(1) chosen_def[symmetric] Let_def
        split: sum.splits prod.splits option.splits nat.splits)
  have q: "\<forall>u. subtree t0 u \<longrightarrow> Q (tree_value u)" using on_split_yields[OF good[OF ch] x(2) t0(1)] by blast
  have "\<forall>a\<in>set (take k (map (\<lambda>i. snd (entries ! i)) order)). arb_yields a Q" for k
    using good by (auto dest!: in_set_takeD)
  then show "Q (tree_value u)"
    using t0(2) q u alternative_tree_yields[OF q, of _ "map (\<lambda>i. snd (entries ! i)) order"] by blast
qed

lemma arb_constant_yields: "Q v \<Longrightarrow> arb_yields (arb_constant v) Q"
  by (auto simp: arb_yields_def arb_constant_def) (simp add: leaf_def)

theorem arb_frequency_positive_witness:
  "\<exists>g. arb_frequency id [(Some 2, arb_constant (4 :: int)), (Some 0, arb_constant (- 1))] = Inr g \<and>
    arb_yields g (\<lambda>v. v = 4)"
proof -
  have "\<exists>g. arb_frequency id [(Some 2, arb_constant (4 :: int)), (Some 0, arb_constant (- 1))] = Inr g"
    by (simp add: arb_frequency_def Let_def)
  then show ?thesis
    using arb_frequency_positive[of id "[(Some 2, arb_constant (4 :: int)), (Some 0, arb_constant (- 1))]" _ "\<lambda>v. v = 4"]
    by (auto simp: rounding_def arb_constant_yields)
qed

text \<open>
  \<open>string\<close>: every string generated or reached by shrinking has printable ASCII characters only and a
  length within the bounds.
\<close>

theorem arb_string_printable:
  assumes "arb_string a b = Inr g" "lengthBounds a b = Inr (lo, hi)" "prng_ok p" "safe_int sz"
  shows "\<exists>t p'. g p sz = (Inr t, p') \<and> (\<forall>u. \<not> subtree t u \<or> (printable (tree_value u) \<and>
    lo \<le> js_len (tree_value u) \<and> js_len (tree_value u) \<le> sizedMax lo hi sz))"
proof -
  have g: "g = stringArb lo hi" using assms(1,2) by (simp add: arb_string_def)
  obtain n p1 where n: "prng_nextInt p (Some lo) (Some (sizedMax lo hi sz)) = (Inr n, p1)"
    "lo \<le> n" "n \<le> sizedMax lo hi sz" "0 \<le> n" "prng_ok p1" using draw_length[OF assms(2,4,3)] by blast
  obtain s p2 where s: "draw_chars (nat n) p1 = (Inr s, p2)" "length s = nat n" "printable s"
    using draw_chars_ok[OF n(5)] by blast
  let ?P = "\<lambda>s. printable s \<and> nat lo \<le> length s \<and> length s \<le> nat (sizedMax lo hi sz)"
  have "?P (tree_value u)" if u: "subtree (string_tree (nat lo) s) u" for u
  proof -
    have "\<exists>s'. ?P s' \<and> u = grow id (string_kids (nat lo)) s'"
      by (rule grow_subtree[OF u[unfolded string_tree_def]])
        (use s n string_kids_keep in auto)
    then show ?thesis by auto
  qed
  then show ?thesis using s(1) n(2-4) lengthBounds_ok[OF assms(2)]
    by (fastforce simp: g stringArb_def n(1) js_len_def)
qed
text \<open>The witnesses draw from a generator whose value is the size it is asked for.\<close>

definition sized_arb :: "int arbitrary" where
  "sized_arb p sz = (Inr (Tree sz [leaf 0] None), p)"

lemma sized_arb_subtree: "subtree (Tree sz [leaf 0] None) u \<Longrightarrow> tree_value u = sz \<or> tree_value u = 0"
  by (erule subtree.cases) (auto simp: leaf_def elim: subtree.cases)

lemma sized_arb_yields: "arb_yields sized_arb (\<lambda>v. True)"
  by (simp add: arb_yields_def)

lemma on_split_pair: "on_split f p = (fst (f (fst (prng_split p))), snd (prng_split p))"
  by (simp add: on_split_def case_prod_beta)

lemma sized_unique:
  "\<exists>p'. uniqueArrayOf sized_arb 2 (Some 2) id p 5 =
    (Inr (array_tree 2 (Some id) [Tree 5 [leaf 0] None, Tree 10 [leaf 0] None]), p')"
  by (simp add: uniqueArrayOf_def prng_nextInt_def sizedMax_def to_double_id FULL_SIZE_def js_len_def
     unique_loop.simps on_split_pair sized_arb_def)

theorem arb_uniqueArray_distinct_witness:
  "\<exists>t p'. uniqueArrayOf sized_arb 2 (Some 2) id (prng_make 1) 5 = (Inr t, p') \<and>
    tree_value t = [5, 10] \<and> length (tree_value t) = 2 \<and> distinct (tree_value t)"
proof -
  obtain p' where p': "uniqueArrayOf sized_arb 2 (Some 2) id (prng_make 1) 5 =
      (Inr (array_tree 2 (Some id) [Tree 5 [leaf 0] None, Tree 10 [leaf 0] None]), p')" using sized_unique by blast
  have b: "lengthBounds (Some (Whole 2)) (Some (Whole 2)) = Inr (2, Some 2)"
    by (simp add: lengthBounds_def given_def)
  then have g: "arb_uniqueArray sized_arb (Some (Whole 2)) (Some (Whole 2)) id = Inr (uniqueArrayOf sized_arb 2 (Some 2) id)"
    by (simp add: arb_uniqueArray_def)
  have "distinct (map id (tree_value (array_tree 2 (Some id) [Tree 5 [leaf 0] None, Tree (10 :: int) [leaf 0] None])))"
    using arb_uniqueArray_distinct[OF g b sized_arb_yields prng_ok_make _ p' here] by simp
  note d = this
  show ?thesis by (intro exI conjI, rule p') (use d in \<open>simp_all add: array_tree_def\<close>)
qed

theorem arb_array_bounds_witness:
  "\<exists>t p'. arrayArb sized_arb 2 (Some 2) (prng_make 1) 5 = (Inr t, p') \<and> js_len (tree_value t) = 2"
proof -
  have p: "\<exists>p' t. arrayArb sized_arb 2 (Some 2) (prng_make 1) 5 = (Inr t, p')"
    by (simp add: arrayArb_def prng_nextInt_def sizedMax_def to_double_id on_split_pair sized_arb_def eval_nat_numeral)
  have b: "lengthBounds (Some (Whole 2)) (Some (Whole 2)) = Inr (2, Some 2)"
    by (simp add: lengthBounds_def given_def)
  then have g: "arb_array sized_arb (Some (Whole 2)) (Some (Whole 2)) = Inr (arrayArb sized_arb 2 (Some 2))"
    by (simp add: arb_array_def)
  show ?thesis using p arb_array_bounds[OF g b sized_arb_yields prng_ok_make _ _ here, of 5] by (fastforce simp: sizedMax_def)
qed

theorem arb_filter_sound_witness:
  "\<exists>t p'. arb_filter sized_arb (\<lambda>v. 3 < v) 100 (prng_make 1) 7 = (Inr t, p') \<and> 3 < tree_value t"
proof -
  have "\<exists>t p'. arb_filter sized_arb (\<lambda>v. 3 < v) 100 (prng_make 1) 7 = (Inr t, p')"
    by (simp add: arb_filter_def on_split_pair sized_arb_def eval_nat_numeral)
  then show ?thesis using arb_filter_sound[OF _ here, of sized_arb "\<lambda>v. 3 < v" 100 "prng_make 1" 7] by blast
qed

theorem arb_string_printable_witness:
  "\<exists>t p'. stringArb 2 (Some 4) (prng_make 1) 9 = (Inr t, p') \<and> printable (tree_value t)"
proof -
  have b: "lengthBounds (Some (Whole 2)) (Some (Whole 4)) = Inr (2, Some 4)"
    by (simp add: lengthBounds_def given_def)
  then have g: "arb_string (Some (Whole 2)) (Some (Whole 4)) = Inr (stringArb 2 (Some 4))"
    by (simp add: arb_string_def)
  show ?thesis using arb_string_printable[OF g b prng_ok_make, of 9 1] here by fastforce
qed

end
