(* ===== verification/JsNumber.thy ===== *)
theory JsNumber
  imports JsStrings Prng
begin

text \<open>
  \<open>Number(s)\<close> of a string: white space is trimmed, the empty text is 0, prefixes \<open>0x\<close>, \<open>0o\<close> and \<open>0b\<close>
  read other bases, and a decimal literal is rounded to the nearest double.
\<close>

section \<open>Rounding a quotient\<close>

text \<open>The double next to \<open>n / d\<close>: 53 significant bits, at most 1074 bits after the point.\<close>

definition ratio_number :: "nat \<Rightarrow> nat \<Rightarrow> js_number" where
  "ratio_number n d =
     (let e = bitlen (n div d) - 53; k = min (quot_scale n d) 1074;
          w = round_even (n * 2 ^ k) (d * 2 ^ e) * 2 ^ e
      in if w \<ge> 2 ^ (k + 1024) then PosInf
         else if w mod 2 ^ k = 0 then Whole (int (w div 2 ^ k)) else Between (int (w div 2 ^ k)))"

fun negated :: "js_number \<Rightarrow> js_number" where
  "negated (Whole i) = Whole (- i)"
| "negated (Between i) = Between (- i - 1)"
| "negated PosInf = NegInf"
| "negated NegInf = PosInf"
| "negated NaN = NaN"

section \<open>Parsing\<close>

definition is_digit :: "int \<Rightarrow> bool" where
  "is_digit c = (48 \<le> c \<and> c \<le> 57)"

text \<open>The value of a digit in a base up to 16.\<close>

definition digit_value :: "int \<Rightarrow> nat" where
  "digit_value c = (if is_digit c then nat (c - 48) else if 65 \<le> c \<and> c \<le> 70 then nat (c - 55)
     else if 97 \<le> c \<and> c \<le> 102 then nat (c - 87) else 16)"

definition base_value :: "nat \<Rightarrow> jstr \<Rightarrow> nat" where
  "base_value b s = fold (\<lambda>c v. v * b + digit_value c) s 0"

definition radix_literal :: "nat \<Rightarrow> jstr \<Rightarrow> js_number" where
  "radix_literal b s = (if s = [] \<or> list_ex (\<lambda>c. digit_value c \<ge> b) s then NaN else ratio_number (base_value b s) 1)"

text \<open>The exponent part: none when there is no text left.\<close>

definition exponent_part :: "jstr \<Rightarrow> int option" where
  "exponent_part s =
     (case s of [] \<Rightarrow> Some 0
      | c # t \<Rightarrow>
          if c \<noteq> 101 \<and> c \<noteq> 69 then None
          else let sgn = (if t \<noteq> [] \<and> hd t = 45 then - 1 else 1);
                   ds = (if t \<noteq> [] \<and> (hd t = 45 \<or> hd t = 43) then tl t else t)
               in if ds = [] \<or> \<not> list_all is_digit ds then None else Some (sgn * int (base_value 10 ds)))"

definition decimal_literal :: "jstr \<Rightarrow> js_number" where
  "decimal_literal s =
     (let ip = takeWhile is_digit s; r = dropWhile is_digit s;
          dot = (r \<noteq> [] \<and> hd r = 46);
          fp = (if dot then takeWhile is_digit (tl r) else []);
          r2 = (if dot then dropWhile is_digit (tl r) else r)
      in if ip = [] \<and> fp = [] then NaN
         else case exponent_part r2 of None \<Rightarrow> NaN
              | Some e \<Rightarrow>
                  let x = e - js_len fp; m = base_value 10 (ip @ fp)
                  in if x \<ge> 0 then ratio_number (m * 10 ^ nat x) 1 else ratio_number m (10 ^ nat (- x)))"

definition unsigned_number :: "jstr \<Rightarrow> js_number" where
  "unsigned_number s = (if s = of_text ''Infinity'' then PosInf else decimal_literal s)"

text \<open>The base that a prefix of two characters selects.\<close>

definition prefix_base :: "jstr \<Rightarrow> nat option" where
  "prefix_base p =
     (if p = of_text ''0x'' \<or> p = of_text ''0X'' then Some 16
      else if p = of_text ''0o'' \<or> p = of_text ''0O'' then Some 8
      else if p = of_text ''0b'' \<or> p = of_text ''0B'' then Some 2 else None)"

definition js_Number :: "jstr \<Rightarrow> js_number" where
  "js_Number s0 =
     (let s = js_trim s0
      in if s = [] then Whole 0
         else case prefix_base (take 2 s) of
           Some b \<Rightarrow> radix_literal b (drop 2 s)
         | None \<Rightarrow> if hd s = 45 then negated (unsigned_number (tl s))
                   else if hd s = 43 then unsigned_number (tl s) else unsigned_number s)"

section \<open>Whole numbers\<close>

lemma ratio_number_whole:
  assumes "n \<le> 9007199254740991"
  shows "ratio_number n 1 = Whole (int n)"
proof -
  have "bitlen n \<le> 53" by (rule bitlen_le) (use assms in simp)
  then have e: "bitlen (n div 1) - 53 = 0" by simp
  define k where "k = min (quot_scale n 1) 1074"
  have "n * 2 ^ k < 2 ^ (k + 1024)"
  proof -
    have "n * 2 ^ k < 2 ^ 1024 * 2 ^ k" using assms by (intro mult_strict_right_mono) auto
    then show ?thesis by (simp add: power_add mult.commute)
  qed
  moreover have "round_even (n * 2 ^ k) 1 = n * 2 ^ k" by (simp add: round_even_def)
  ultimately show ?thesis
    unfolding ratio_number_def e Let_def k_def[symmetric] by simp
qed

lemma digits_of_set: "0 \<le> n \<Longrightarrow> list_all is_digit (digits_of n) \<and> digits_of n \<noteq> []"
proof (induction n rule: digits_of.induct)
  case (1 n)
  then show ?case by (cases "n < 10") (auto simp: digits_of_1 digits_of_step is_digit_def)
qed

lemma base_value_digits: "0 \<le> n \<Longrightarrow> int (base_value 10 (digits_of n)) = n"
proof (induction n rule: digits_of.induct)
  case (1 n)
  have "digit_value (48 + d) = nat d" if "0 \<le> d" "d < 10" for d using that by (simp add: digit_value_def is_digit_def)
  then show ?case using 1 by (cases "n < 10") (auto simp: digits_of_1 digits_of_step base_value_def)
qed

lemma digit_not_space: "is_digit c \<Longrightarrow> \<not> js_space c"
  by (auto simp: is_digit_def js_space_def)

lemma trim_digits:
  assumes "list_all is_digit s"
  shows "js_trim s = s"
proof -
  have "dropWhile js_space t = t" if "set t \<subseteq> set s" for t
    using that assms digit_not_space by (cases t) (auto simp: list_all_iff)
  then show ?thesis by (simp add: js_trim_def)
qed

lemma no_prefix: "list_all is_digit s \<Longrightarrow> prefix_base (take 2 s) = None"
  by (cases s; cases "tl s") (auto simp: prefix_base_def of_text_def is_digit_def)

text \<open>Printing a safe integer that is not negative and reading it back.\<close>

lemma js_Number_digits:
  assumes "0 \<le> n" "n \<le> 9007199254740991"
  shows "js_Number (str_of_int n) = Whole n"
proof -
  let ?s = "digits_of n"
  have d: "list_all is_digit ?s" "?s \<noteq> []" using digits_of_set[OF assms(1)] by auto
  have h: "is_digit (hd ?s)" using d by (auto simp: list_all_iff)
  have span: "takeWhile is_digit ?s = ?s" "dropWhile is_digit ?s = []" using d(1) by (simp_all add: list_all_iff)
  have "?s \<noteq> of_text ''Infinity''" using h d(2) by (auto simp: of_text_def is_digit_def)
  then have "unsigned_number ?s = ratio_number (base_value 10 ?s) 1"
    using d(2) by (simp add: unsigned_number_def decimal_literal_def span exponent_part_def Let_def js_len_def)
  also have "base_value 10 ?s = nat n" using base_value_digits[OF assms(1)] by linarith
  finally have "unsigned_number ?s = Whole n" using ratio_number_whole[of "nat n"] assms by simp
  moreover have "js_Number ?s = unsigned_number ?s"
    using d h by (auto simp: js_Number_def trim_digits no_prefix Let_def is_digit_def)
  ultimately show ?thesis using assms(1) by (simp add: str_of_int_def)
qed

end
