(* ===== verification/PropertyRun.thy ===== *)
theory PropertyRun
  imports Arbitrary JsNumber
begin

text \<open>
  \<open>src/Property.ts\<close>: the runner of property-based tests. A predicate is a function from a value to what
  calling it does; the wall clock is the sequence of its readings, so every call of \<open>Date.now\<close> takes the
  next one. The loops follow the source: the test loop, the shrink loop with its budget of
  evaluations and its deadline, and the replay of a path. \<open>checkAsync\<close> is the same text with
  \<open>await\<close> at the evaluations, so it is the same function with the evaluation of a promise.
  The messages of \<open>throwFailure\<close> are not modelled, only what it throws.
\<close>

section \<open>Configuration and results\<close>

record check_config =
  numRuns :: int
  cfgSeed :: int
  maxSize :: int
  maxShrinks :: int
  maxShrinkEvaluations :: int
  replay :: "jstr option"
  timeoutMs :: "int option"

text \<open>The caller's configuration: every field may be missing.\<close>

record raw_config =
  rNumRuns :: "int option"
  rSeed :: "int option"
  rMaxSize :: "int option"
  rMaxShrinks :: "int option"
  rMaxShrinkEvaluations :: "int option"
  rReplay :: "jstr option"
  rTimeoutMs :: "int option"

definition resolveConfig :: "int \<Rightarrow> raw_config \<Rightarrow> check_config" where
  "resolveConfig randomSeed c =
     (let ms = (case rMaxShrinks c of None \<Rightarrow> 1000 | Some n \<Rightarrow> n)
      in \<lparr>numRuns = (case rNumRuns c of None \<Rightarrow> 100 | Some n \<Rightarrow> n),
          cfgSeed = (case rSeed c of None \<Rightarrow> randomSeed | Some s \<Rightarrow> s),
          maxSize = (case rMaxSize c of None \<Rightarrow> 100 | Some n \<Rightarrow> n),
          maxShrinks = ms,
          maxShrinkEvaluations = (case rMaxShrinkEvaluations c of None \<Rightarrow> max 10000 (10 * ms) | Some n \<Rightarrow> n),
          replay = rReplay c, timeoutMs = rTimeoutMs c\<rparr>)"

text \<open>What is thrown or returned by a predicate, and the error a failing evaluation reports.\<close>

datatype 'e call_result = Holds | Refuted | ReturnedPromise | Threw 'e

datatype 'e failing = Undefined | NotAwaited | Thrown 'e

record ('a, 'e) check_result =
  ok :: bool
  ranTests :: int
  resSeed :: int
  counterexample :: "'a option"
  shrinks :: "int option"
  error_of :: "'e failing option"
  path_of :: "jstr option"

definition sizeFor :: "int \<Rightarrow> int \<Rightarrow> int \<Rightarrow> int" where
  "sizeFor i n mx = (if n \<le> 1 then mx else js_floor_div (to_double (i * mx)) (n - 1))"

section \<open>Paths\<close>

record parsed_path =
  testIdx :: int
  path_size :: "int option"
  shrinkIndices :: "int list"

definition encodePath :: "int \<Rightarrow> int \<Rightarrow> int list \<Rightarrow> jstr" where
  "encodePath i sz indices =
     str_of_int i @ of_text ''@'' @ str_of_int sz @ concat (map (\<lambda>idx. of_text '':'' @ str_of_int idx) indices)"

definition whole_of :: "js_number \<Rightarrow> int" where
  "whole_of x = (case x of Whole i \<Rightarrow> i | _ \<Rightarrow> 0)"

definition decodePath :: "jstr \<Rightarrow> parsed_path outcome" where
  "decodePath path =
     (let parts = split_on 58 path; head = split_on 64 (parts ! 0);
          nums = map js_Number (head @ drop 1 parts)
      in if length head > 2 \<or> list_ex (\<lambda>n. \<not> is_safe_integer n \<or> num_lt n 0) nums
         then Inl (PlainError ''Property: invalid replay path'')
         else let ns = map whole_of nums
              in Inr \<lparr>testIdx = ns ! 0, path_size = (if length head = 2 then Some (ns ! 1) else None),
                   shrinkIndices = drop (length head) ns\<rparr>)"

section \<open>Evaluation\<close>

definition evalSync :: "('a \<Rightarrow> 'e call_result) \<Rightarrow> 'a \<Rightarrow> 'e failing option" where
  "evalSync predicate v =
     (case predicate v of Holds \<Rightarrow> None | Refuted \<Rightarrow> Some Undefined
      | ReturnedPromise \<Rightarrow> Some NotAwaited | Threw e \<Rightarrow> Some (Thrown e))"

text \<open>After \<open>await\<close> the value is never a promise.\<close>

definition evalAsync :: "('a \<Rightarrow> 'e call_result) \<Rightarrow> 'a \<Rightarrow> 'e failing option" where
  "evalAsync predicate v =
     (case predicate v of Refuted \<Rightarrow> Some Undefined | Threw e \<Rightarrow> Some (Thrown e) | _ \<Rightarrow> None)"

section \<open>Shrinking\<close>

type_synonym clock = "nat \<Rightarrow> int"

record limits =
  limShrinks :: int
  limEvaluations :: int
  deadline :: "int option"

text \<open>With the readings of the clock that were taken so far.\<close>

definition outOfBudget :: "clock \<Rightarrow> int \<Rightarrow> limits \<Rightarrow> nat \<Rightarrow> bool \<times> nat" where
  "outOfBudget clk evaluations lims tick =
     (if evaluations \<ge> limEvaluations lims then (True, tick)
      else case deadline lims of None \<Rightarrow> (False, tick) | Some d \<Rightarrow> (clk tick > d, Suc tick))"

text \<open>
  The \<open>for\<close> loop over the children: the first that fails, none, or the budget ends the search; the
  iteration itself may throw.
\<close>

datatype ('a, 'e) search =
  FoundAt "'a shrink_tree" int "'e failing" int nat
| NoneFails int nat
| BudgetEnds
| IterationThrows js_error

fun try_children :: "('a \<Rightarrow> 'e failing option) \<Rightarrow> clock \<Rightarrow> limits \<Rightarrow> 'a shrink_tree list \<Rightarrow> js_error option \<Rightarrow>
    int \<Rightarrow> int \<Rightarrow> nat \<Rightarrow> ('a, 'e) search" where
  "try_children ev clk lims [] thr childIdx evaluations tick =
     (case thr of None \<Rightarrow> NoneFails evaluations tick | Some e \<Rightarrow> IterationThrows e)"
| "try_children ev clk lims (child # rest) thr childIdx evaluations tick =
     (case outOfBudget clk evaluations lims tick of (out, tick1) \<Rightarrow>
        if out then BudgetEnds
        else case ev (tree_value child) of
               Some err \<Rightarrow> FoundAt child childIdx err (evaluations + 1) tick1
             | None \<Rightarrow> try_children ev clk lims rest thr (childIdx + 1) (evaluations + 1) tick1)"

record ('a, 'e) shrink_state =
  current :: "'a shrink_tree"
  best :: 'a
  bestError :: "'e failing"
  shrinkCount :: int
  evaluations :: int
  pathIndices :: "int list"
  ticks :: nat

function shrink_loop :: "('a \<Rightarrow> 'e failing option) \<Rightarrow> clock \<Rightarrow> limits \<Rightarrow> ('a, 'e) shrink_state \<Rightarrow>
    ('a, 'e) shrink_state outcome" where
  "shrink_loop ev clk lims s =
     (if shrinkCount s < limShrinks lims
      then (case try_children ev clk lims (tree_shrinks (current s)) (tree_throw (current s)) 0 (evaluations s) (ticks s) of
              IterationThrows e \<Rightarrow> Inl e
            | BudgetEnds \<Rightarrow> Inr s
            | NoneFails n t \<Rightarrow> Inr (s\<lparr>evaluations := n, ticks := t\<rparr>)
            | FoundAt child idx err n t \<Rightarrow>
                shrink_loop ev clk lims
                  \<lparr>current = child, best = tree_value child, bestError = err, shrinkCount = shrinkCount s + 1,
                   evaluations = n, pathIndices = pathIndices s @ [idx], ticks = t\<rparr>)
      else Inr s)"
  by pat_completeness auto
termination by (relation "measure (\<lambda>(ev, clk, lims, s). nat (limShrinks lims - shrinkCount s))") auto

declare shrink_loop.simps [simp del]

definition shrink_init :: "'a shrink_tree \<Rightarrow> 'e failing \<Rightarrow> nat \<Rightarrow> ('a, 'e) shrink_state" where
  "shrink_init t err tick = \<lparr>current = t, best = tree_value t, bestError = err, shrinkCount = 0,
     evaluations = 0, pathIndices = [], ticks = tick\<rparr>"

definition shrinkSync :: "'a shrink_tree \<Rightarrow> ('a \<Rightarrow> 'e call_result) \<Rightarrow> clock \<Rightarrow> 'e failing \<Rightarrow> limits \<Rightarrow> nat \<Rightarrow>
    ('a, 'e) shrink_state outcome" where
  "shrinkSync t predicate clk initialError lims tick =
     shrink_loop (evalSync predicate) clk lims (shrink_init t initialError tick)"

definition shrinkAsync :: "'a shrink_tree \<Rightarrow> ('a \<Rightarrow> 'e call_result) \<Rightarrow> clock \<Rightarrow> 'e failing \<Rightarrow> limits \<Rightarrow> nat \<Rightarrow>
    ('a, 'e) shrink_state outcome" where
  "shrinkAsync t predicate clk initialError lims tick =
     shrink_loop (evalAsync predicate) clk lims (shrink_init t initialError tick)"

section \<open>Replay\<close>

definition diverged :: js_error where
  "diverged = PlainError ''Property: replay path diverged''"

text \<open>The inner loop counts the children up to the index.\<close>

fun nth_child :: "'a shrink_tree list \<Rightarrow> js_error option \<Rightarrow> int \<Rightarrow> int \<Rightarrow> 'a shrink_tree outcome" where
  "nth_child [] thr childIdx idx = (case thr of Some e \<Rightarrow> Inl e | None \<Rightarrow> Inl diverged)"
| "nth_child (child # rest) thr childIdx idx =
     (if childIdx = idx then Inr child else nth_child rest thr (childIdx + 1) idx)"

fun replayPath :: "'a shrink_tree \<Rightarrow> int list \<Rightarrow> 'a shrink_tree outcome" where
  "replayPath t [] = Inr t"
| "replayPath t (idx # indices) =
     (case nth_child (tree_shrinks t) (tree_throw t) 0 idx of
        Inl e \<Rightarrow> Inl e | Inr child \<Rightarrow> replayPath child indices)"

definition skip_splits :: "nat \<Rightarrow> prng \<Rightarrow> prng" where
  "skip_splits n p = ((\<lambda>p. snd (prng_split p)) ^^ n) p"

definition replayTarget :: "'a arbitrary \<Rightarrow> check_config \<Rightarrow> jstr \<Rightarrow> ('a shrink_tree \<times> parsed_path) outcome" where
  "replayTarget arb cfg path =
     (case decodePath path of
        Inl e \<Rightarrow> Inl e
      | Inr parsed \<Rightarrow>
          let p = skip_splits (nat (testIdx parsed)) (prng_make (cfgSeed cfg));
              sz = (case path_size parsed of Some n \<Rightarrow> n
                    | None \<Rightarrow> sizeFor (testIdx parsed) (numRuns cfg) (maxSize cfg))
          in case fst (on_split (\<lambda>c. arb c sz) p) of
               Inl e \<Rightarrow> Inl e
             | Inr t \<Rightarrow> (case replayPath t (shrinkIndices parsed) of
                          Inl e \<Rightarrow> Inl e | Inr target \<Rightarrow> Inr (target, parsed)))"

definition passing :: "int \<Rightarrow> check_config \<Rightarrow> ('a, 'e) check_result" where
  "passing n cfg = \<lparr>ok = True, ranTests = n, resSeed = cfgSeed cfg, counterexample = None, shrinks = None,
     error_of = None, path_of = None\<rparr>"

definition replayResult :: "check_config \<Rightarrow> jstr \<Rightarrow> 'a shrink_tree \<Rightarrow> parsed_path \<Rightarrow> 'e failing option \<Rightarrow> ('a, 'e) check_result" where
  "replayResult cfg path t parsed result =
     (case result of None \<Rightarrow> passing 1 cfg
      | Some err \<Rightarrow> \<lparr>ok = False, ranTests = 1, resSeed = cfgSeed cfg, counterexample = Some (tree_value t),
          shrinks = Some (js_len (shrinkIndices parsed)), error_of = Some err, path_of = Some path\<rparr>)"

section \<open>Running\<close>

definition failure :: "check_config \<Rightarrow> int \<Rightarrow> int \<Rightarrow> ('a, 'e) shrink_state \<Rightarrow> ('a, 'e) check_result" where
  "failure cfg i sz s =
     \<lparr>ok = False, ranTests = i + 1, resSeed = cfgSeed cfg, counterexample = Some (best s),
      shrinks = Some (shrinkCount s), error_of = Some (bestError s),
      path_of = Some (encodePath i sz (pathIndices s))\<rparr>"

text \<open>The test loop, with \<open>Date.now() > deadline\<close> read before each test.\<close>

function run_loop :: "'a arbitrary \<Rightarrow> ('a \<Rightarrow> 'e failing option) \<Rightarrow> clock \<Rightarrow> check_config \<Rightarrow> limits \<Rightarrow> int \<Rightarrow> prng \<Rightarrow> nat \<Rightarrow>
    ('a, 'e) check_result outcome" where
  "run_loop arb ev clk cfg lims i p tick =
     (if i < numRuns cfg
      then (case (case deadline lims of None \<Rightarrow> (False, tick) | Some d \<Rightarrow> (clk tick > d, Suc tick)) of (late, tick1) \<Rightarrow>
        if late then Inr (passing i cfg)
        else let sz = sizeFor i (numRuns cfg) (maxSize cfg)
             in case on_split (\<lambda>c. arb c sz) p of
                  (Inl e, p1) \<Rightarrow> Inl e
                | (Inr t, p1) \<Rightarrow>
                    (case ev (tree_value t) of
                       None \<Rightarrow> run_loop arb ev clk cfg lims (i + 1) p1 tick1
                     | Some err \<Rightarrow>
                         (case shrink_loop ev clk lims (shrink_init t err tick1) of
                            Inl e \<Rightarrow> Inl e
                          | Inr s \<Rightarrow> Inr (failure cfg i sz s))))
      else Inr (passing i cfg))"
  by pat_completeness auto
termination by (relation "measure (\<lambda>(arb, ev, clk, cfg, lims, i, p, tick). nat (numRuns cfg - i))") auto

declare run_loop.simps [simp del]

definition check_with :: "('a \<Rightarrow> 'e failing option) \<Rightarrow> 'a arbitrary \<Rightarrow> clock \<Rightarrow> check_config \<Rightarrow>
    ('a, 'e) check_result outcome" where
  "check_with ev arb clk cfg =
     (case replay cfg of
        Some path \<Rightarrow>
          (case replayTarget arb cfg path of
             Inl e \<Rightarrow> Inl e
           | Inr (t, parsed) \<Rightarrow> Inr (replayResult cfg path t parsed (ev (tree_value t))))
      | None \<Rightarrow>
          (let (dl, tick) = (case timeoutMs cfg of None \<Rightarrow> (None, 0) | Some ms \<Rightarrow> (Some (clk 0 + ms), 1))
           in run_loop arb ev clk cfg
                \<lparr>limShrinks = maxShrinks cfg, limEvaluations = maxShrinkEvaluations cfg, deadline = dl\<rparr>
                0 (prng_make (cfgSeed cfg)) tick))"

definition check :: "int \<Rightarrow> 'a arbitrary \<Rightarrow> ('a \<Rightarrow> 'e call_result) \<Rightarrow> clock \<Rightarrow> raw_config \<Rightarrow> ('a, 'e) check_result outcome" where
  "check randomSeed arb predicate clk c = check_with (evalSync predicate) arb clk (resolveConfig randomSeed c)"

definition checkAsync :: "int \<Rightarrow> 'a arbitrary \<Rightarrow> ('a \<Rightarrow> 'e call_result) \<Rightarrow> clock \<Rightarrow> raw_config \<Rightarrow> ('a, 'e) check_result outcome" where
  "checkAsync randomSeed arb predicate clk c = check_with (evalAsync predicate) arb clk (resolveConfig randomSeed c)"

text \<open>\<open>assert\<close>: the error carries the result that failed.\<close>

datatype ('a, 'e) assertion = Quiet | CheckThrows js_error | Reports "('a, 'e) check_result"

definition prop_assert :: "int \<Rightarrow> 'a arbitrary \<Rightarrow> ('a \<Rightarrow> 'e call_result) \<Rightarrow> clock \<Rightarrow> raw_config \<Rightarrow> ('a, 'e) assertion" where
  "prop_assert randomSeed arb predicate clk c =
     (case check randomSeed arb predicate clk c of
        Inl e \<Rightarrow> CheckThrows e | Inr r \<Rightarrow> if ok r then Quiet else Reports r)"
section \<open>The search\<close>

lemma try_children_found:
  "try_children ev clk lims cs thr c0 n t = FoundAt child idx err n' t' \<Longrightarrow>
    nth_child cs thr c0 idx = Inr child \<and> child \<in> set cs \<and> ev (tree_value child) = Some err \<and>
    c0 \<le> idx \<and> n' = n + (idx - c0) + 1 \<and> n' \<le> limEvaluations lims"
proof (induction cs arbitrary: c0 n t)
  case (Cons c cs)
  obtain out t1 where b: "outOfBudget clk n lims t = (out, t1)" by (metis prod.exhaust)
  then have "\<not> out" "n < limEvaluations lims"
    using Cons.prems by (auto simp: outOfBudget_def split: if_splits option.splits)
  then show ?case
    using Cons.prems Cons.IH[of "c0 + 1" "n + 1" t1] b by (cases "ev (tree_value c)") fastforce+
qed (simp split: option.splits)

lemma try_children_none:
  "try_children ev clk lims cs thr c0 n t = NoneFails n' t' \<Longrightarrow>
    list_all (\<lambda>c. ev (tree_value c) = None) cs \<and> n' = n + js_len cs \<and> (cs = [] \<or> n' \<le> limEvaluations lims) \<and> thr = None"
proof (induction cs arbitrary: c0 n t)
  case (Cons c cs)
  obtain out t1 where b: "outOfBudget clk n lims t = (out, t1)" by (metis prod.exhaust)
  then have "\<not> out" "n < limEvaluations lims"
    using Cons.prems by (auto simp: outOfBudget_def split: if_splits option.splits)
  then show ?case
    using Cons.prems Cons.IH[of "c0 + 1" "n + 1" t1] b
    by (cases "ev (tree_value c)"; cases cs) (auto simp: js_len_def)
qed (auto simp: js_len_def split: option.splits)

lemma try_children_budget:
  "try_children ev clk lims cs thr c0 n t = BudgetEnds \<Longrightarrow> deadline lims = None \<Longrightarrow>
    limEvaluations lims < n + js_len cs"
proof (induction cs arbitrary: c0 n t)
  case (Cons c cs)
  show ?case
  proof (cases "n \<ge> limEvaluations lims")
    case False
    then have "outOfBudget clk n lims t = (False, t)" using Cons.prems(2) by (simp add: outOfBudget_def)
    then show ?thesis
      using Cons.prems Cons.IH[of "c0 + 1" "n + 1" t] by (auto simp: js_len_def split: option.splits)
  qed (auto simp: js_len_def)
qed (simp split: option.splits)

lemma replayPath_snoc:
  "replayPath t is = Inr u \<Longrightarrow> nth_child (tree_shrinks u) (tree_throw u) 0 i = Inr c \<Longrightarrow> replayPath t (is @ [i]) = Inr c"
  by (induction "is" arbitrary: t) (auto split: sum.splits)

lemma nth_child_in: "nth_child cs thr c0 i = Inr c \<Longrightarrow> c \<in> set cs"
  by (induction cs arbitrary: c0) (auto split: if_splits option.splits)

lemma replayPath_subtree: "replayPath t is = Inr u \<Longrightarrow> subtree t u"
proof (induction "is" arbitrary: t)
  case (Cons i "is")
  then obtain c where "nth_child (tree_shrinks t) (tree_throw t) 0 i = Inr c" "replayPath c is = Inr u"
    by (auto split: sum.splits)
  then show ?case using Cons.IH below nth_child_in by metis
qed (simp add: here)

text \<open>
  The invariant of the shrink loop: the path leads from the root to the current node, whose value is the best
  counterexample so far and fails with the error kept; indices are below the number of evaluations.
\<close>

definition shrink_inv :: "('a \<Rightarrow> 'e failing option) \<Rightarrow> limits \<Rightarrow> 'a shrink_tree \<Rightarrow> ('a, 'e) shrink_state \<Rightarrow> bool" where
  "shrink_inv ev lims t s \<longleftrightarrow>
     replayPath t (pathIndices s) = Inr (current s) \<and> best s = tree_value (current s) \<and>
     ev (best s) = Some (bestError s) \<and> js_len (pathIndices s) = shrinkCount s \<and>
     0 \<le> evaluations s \<and> evaluations s \<le> max 0 (limEvaluations lims) \<and>
     shrinkCount s \<le> max 0 (limShrinks lims) \<and> list_all (\<lambda>i. 0 \<le> i \<and> i < evaluations s) (pathIndices s)"

lemma shrink_inv_init:
  "ev (tree_value t) = Some err \<Longrightarrow> shrink_inv ev lims t (shrink_init t err tick)"
  by (simp add: shrink_inv_def shrink_init_def js_len_def)

text \<open>How the loop ends: no child fails, the number of shrinks, or the budget.\<close>

definition shrunk :: "('a \<Rightarrow> 'e failing option) \<Rightarrow> limits \<Rightarrow> ('a, 'e) shrink_state \<Rightarrow> bool" where
  "shrunk ev lims s \<longleftrightarrow>
     list_all (\<lambda>c. ev (tree_value c) = None) (tree_shrinks (current s)) \<or>
     shrinkCount s \<ge> limShrinks lims \<or> deadline lims \<noteq> None \<or>
     limEvaluations lims < evaluations s + js_len (tree_shrinks (current s))"

lemma shrink_loop_ok:
  assumes "shrink_inv ev lims t s" "shrink_loop ev clk lims s = Inr s'"
  shows "shrink_inv ev lims t s' \<and> shrunk ev lims s'"
  using assms
proof (induction ev clk lims s rule: shrink_loop.induct)
  case (1 ev clk lims s)
  note step = "1.prems"(2)[unfolded shrink_loop.simps[of ev clk lims s]]
  show ?case
  proof (cases "shrinkCount s < limShrinks lims")
    case False
    then show ?thesis using step "1.prems"(1) by (simp add: shrunk_def)
  next
    case True
    let ?r = "try_children ev clk lims (tree_shrinks (current s)) (tree_throw (current s)) 0 (evaluations s) (ticks s)"
    show ?thesis
    proof (cases ?r)
      case (FoundAt child idx err n tick)
      note f = try_children_found[OF FoundAt]
      define s1 where "s1 = \<lparr>current = child, best = tree_value child, bestError = err,
        shrinkCount = shrinkCount s + 1, evaluations = n, pathIndices = pathIndices s @ [idx], ticks = tick\<rparr>"
      have "shrink_inv ev lims t s1"
        using "1.prems"(1) f True replayPath_snoc[of t "pathIndices s" "current s" idx child]
        by (auto simp: shrink_inv_def s1_def js_len_def list_all_iff)
      moreover have "shrink_loop ev clk lims s1 = Inr s'" using step True FoundAt by (simp add: s1_def)
      ultimately show ?thesis using "1.IH"[OF True FoundAt] by (simp add: s1_def)
    next
      case (NoneFails n tick)
      note f = try_children_none[OF NoneFails]
      have s': "s' = s\<lparr>evaluations := n, ticks := tick\<rparr>" using step True NoneFails by simp
      have "n \<ge> evaluations s" using f by (simp add: js_len_def)
      then show ?thesis using "1.prems"(1) f
        by (auto simp: s' shrink_inv_def shrunk_def list_all_iff js_len_def)
    next
      case BudgetEnds
      then show ?thesis using step True "1.prems"(1) try_children_budget[OF BudgetEnds] by (auto simp: shrunk_def)
    next
      case (IterationThrows e)
      then show ?thesis using step True by simp
    qed
  qed
qed

section \<open>The path text\<close>

lemma digit_text: "0 \<le> n \<Longrightarrow> list_all is_digit (str_of_int n)"
  using digits_of_set by (simp add: str_of_int_def)

lemma no_sep: "list_all is_digit s \<Longrightarrow> 58 \<notin> set s \<and> 64 \<notin> set s"
  by (auto simp: list_all_iff is_digit_def)

lemma join_hd: "join_on d ((u @ p) # ps) = u @ join_on d (p # ps)"
  by (cases ps) simp_all

lemma encode_join:
  "encodePath i sz indices = join_on [58] ((str_of_int i @ 64 # str_of_int sz) # map str_of_int indices)"
proof -
  have "p @ concat (map (\<lambda>idx. of_text '':'' @ str_of_int idx) indices) = join_on [58] (p # map str_of_int indices)" for p
    using join_hd[of "[58]" "[58]"] by (induction indices arbitrary: p) (simp_all add: of_text_def)
  from this[of "str_of_int i @ 64 # str_of_int sz"] show ?thesis by (simp add: encodePath_def of_text_def)
qed

lemma decode_encode:
  assumes "0 \<le> i" "safe_int i" "0 \<le> sz" "safe_int sz" "list_all (\<lambda>i. 0 \<le> i \<and> safe_int i) indices"
  shows "decodePath (encodePath i sz indices) = Inr \<lparr>testIdx = i, path_size = Some sz, shrinkIndices = indices\<rparr>"
proof -
  note plain = no_sep[OF digit_text]
  have idx: "0 \<le> j" "safe_int j" if "j \<in> set indices" for j using that assms(5) by (auto simp: list_all_iff)
  have parts: "split_on 58 (encodePath i sz indices) = (str_of_int i @ 64 # str_of_int sz) # map str_of_int indices"
    unfolding encode_join
    by (rule split_on_join) (use plain[OF assms(1)] plain[OF assms(3)] plain[OF idx(1)] in auto)
  have head: "split_on 64 (str_of_int i @ 64 # str_of_int sz) = [str_of_int i, str_of_int sz]"
    using plain[OF assms(1)] plain[OF assms(3)] by (simp add: split_on_append split_on_single)
  have num: "js_Number (str_of_int j) = Whole j" if "j \<in> set indices" for j
    using idx[OF that] js_Number_digits by auto
  have "js_Number (str_of_int i) = Whole i" "js_Number (str_of_int sz) = Whole sz"
    using js_Number_digits assms(1-4) by auto
  then show ?thesis
    using assms(1-4) idx(2) leD[OF idx(1)] unfolding decodePath_def parts
    by (auto simp: head num Let_def whole_of_def list_ex_iff intro!: map_idI)
qed
section \<open>The test loop\<close>

text \<open>What the generator yields for test \<open>i\<close>.\<close>

definition test_tree :: "'a arbitrary \<Rightarrow> check_config \<Rightarrow> int \<Rightarrow> 'a shrink_tree outcome" where
  "test_tree arb cfg i = fst (on_split (\<lambda>c. arb c (sizeFor i (numRuns cfg) (maxSize cfg)))
     (skip_splits (nat i) (prng_make (cfgSeed cfg))))"

definition test_passes :: "('a \<Rightarrow> 'e failing option) \<Rightarrow> 'a arbitrary \<Rightarrow> check_config \<Rightarrow> int \<Rightarrow> bool" where
  "test_passes ev arb cfg i = (case test_tree arb cfg i of Inl e \<Rightarrow> False | Inr t \<Rightarrow> ev (tree_value t) = None)"

lemma on_split_snd: "on_split f p = (r, p1) \<Longrightarrow> p1 = snd (prng_split p)"
  by (auto simp: on_split_def split: prod.splits)

lemma run_loop_ok:
  assumes "run_loop arb ev clk cfg lims i (skip_splits (nat i) (prng_make (cfgSeed cfg))) tick = Inr r" "0 \<le> i"
  shows "(\<exists>n \<ge> i. r = passing n cfg \<and> (deadline lims = None \<longrightarrow> n = max i (numRuns cfg)) \<and>
      (\<forall>j. i \<le> j \<and> j < n \<longrightarrow> test_passes ev arb cfg j)) \<or>
    (\<exists>k t err tk s. i \<le> k \<and> k < numRuns cfg \<and> test_tree arb cfg k = Inr t \<and> ev (tree_value t) = Some err \<and>
      shrink_loop ev clk lims (shrink_init t err tk) = Inr s \<and>
      r = failure cfg k (sizeFor k (numRuns cfg) (maxSize cfg)) s \<and>
      (\<forall>j. i \<le> j \<and> j < k \<longrightarrow> test_passes ev arb cfg j))"
  using assms
proof (induction "nat (numRuns cfg - i)" arbitrary: i tick)
  case 0
  then have "r = passing i cfg" by (subst (asm) run_loop.simps) simp
  then show ?case using 0 by (intro disjI1 exI[of _ i]) auto
next
  case (Suc n)
  let ?p = "skip_splits (nat i) (prng_make (cfgSeed cfg))"
  have less: "i < numRuns cfg" using Suc.hyps(2) by simp
  obtain late tick1 where lt: "(case deadline lims of None \<Rightarrow> (False, tick) | Some d \<Rightarrow> (clk tick > d, Suc tick)) = (late, tick1)"
    by (metis prod.exhaust)
  obtain q p1 where q: "on_split (\<lambda>c. arb c (sizeFor i (numRuns cfg) (maxSize cfg))) ?p = (q, p1)" by (metis prod.exhaust)
  have p1: "p1 = skip_splits (nat (i + 1)) (prng_make (cfgSeed cfg))"
    using on_split_snd[OF q] Suc.prems(2) by (simp add: skip_splits_def nat_add_distrib)
  have t: "test_tree arb cfg i = q" by (simp add: test_tree_def q)
  note run = Suc.prems(1)[unfolded run_loop.simps[of arb ev clk cfg lims i] lt prod.case q Let_def]
  show ?case
  proof (cases late)
    case True
    then have "r = passing i cfg" "deadline lims \<noteq> None" using run less lt by (auto split: option.splits)
    then show ?thesis by (intro disjI1 exI[of _ i]) auto
  next
    case False
    obtain t0 where t0: "q = Inr t0" using run less False by (cases q) auto
    show ?thesis
    proof (cases "ev (tree_value t0)")
      case None
      have here: "test_passes ev arb cfg i" by (simp add: test_passes_def t t0 None)
      have "run_loop arb ev clk cfg lims (i + 1) p1 tick1 = Inr r" using run less False t0 None by simp
      then have ih: "(\<exists>n \<ge> i + 1. r = passing n cfg \<and> (deadline lims = None \<longrightarrow> n = max (i + 1) (numRuns cfg)) \<and>
          (\<forall>j. i + 1 \<le> j \<and> j < n \<longrightarrow> test_passes ev arb cfg j)) \<or>
        (\<exists>k t err tk s. i + 1 \<le> k \<and> k < numRuns cfg \<and> test_tree arb cfg k = Inr t \<and> ev (tree_value t) = Some err \<and>
          shrink_loop ev clk lims (shrink_init t err tk) = Inr s \<and>
          r = failure cfg k (sizeFor k (numRuns cfg) (maxSize cfg)) s \<and>
          (\<forall>j. i + 1 \<le> j \<and> j < k \<longrightarrow> test_passes ev arb cfg j))"
        using Suc.hyps(1)[of "i + 1" tick1] Suc.hyps(2) Suc.prems(2) by (simp add: p1)
      have ext: "\<forall>j. i \<le> j \<and> j < m \<longrightarrow> test_passes ev arb cfg j"
        if "\<forall>j. i + 1 \<le> j \<and> j < m \<longrightarrow> test_passes ev arb cfg j" for m
        using that here by (metis zless_imp_add1_zle order_le_less)
      from ih show ?thesis
      proof (elim disjE exE conjE)
        fix m assume "i + 1 \<le> m" "r = passing m cfg" "deadline lims = None \<longrightarrow> m = max (i + 1) (numRuns cfg)"
          "\<forall>j. i + 1 \<le> j \<and> j < m \<longrightarrow> test_passes ev arb cfg j"
        then show ?thesis using ext[of m] less by (intro disjI1 exI[of _ m]) auto
      next
        fix k t err tk s assume "i + 1 \<le> k" and k: "k < numRuns cfg" "test_tree arb cfg k = Inr t" "ev (tree_value t) = Some err"
          "shrink_loop ev clk lims (shrink_init t err tk) = Inr s"
          "r = failure cfg k (sizeFor k (numRuns cfg) (maxSize cfg)) s" and j: "\<forall>j. i + 1 \<le> j \<and> j < k \<longrightarrow> test_passes ev arb cfg j"
        then have "i \<le> k" by simp
        then show ?thesis using k ext[OF j] by blast
      qed
    next
      case (Some err)
      then obtain s where "shrink_loop ev clk lims (shrink_init t0 err tick1) = Inr s"
        "r = failure cfg i (sizeFor i (numRuns cfg) (maxSize cfg)) s"
        using run less False t0 by (auto split: sum.splits)
      then show ?thesis using less t t0 Some
        by (intro disjI2 exI[of _ i] exI[of _ t0] exI[of _ err] exI[of _ tick1] exI[of _ s]) auto
    qed
  qed
qed
lemma sizeFor_safe:
  assumes "0 \<le> i" "i < n" "0 \<le> mx" "n * mx \<le> 9007199254740991"
  shows "0 \<le> sizeFor i n mx \<and> safe_int (sizeFor i n mx)"
proof (cases "n \<le> 1")
  case True
  then have "n = 1" using assms(1,2) by linarith
  then show ?thesis using assms(3,4) by (simp add: sizeFor_def)
next
  case False
  have m: "0 \<le> i * mx" "i * mx \<le> 9007199254740991"
    using assms mult_right_mono[of i n mx] by (auto intro: order_trans)
  have "sizeFor i n mx = i * mx div (n - 1)"
    using False m js_floor_div_exact[of "i * mx" "n - 1"] by (simp add: sizeFor_def to_double_id)
  moreover have "0 \<le> i * mx div (n - 1)" using m False by (simp add: pos_imp_zdiv_nonneg_iff)
  moreover have "i * mx div (n - 1) \<le> i * mx div 1" using m False by (intro zdiv_mono2) auto
  ultimately show ?thesis using m by simp
qed

section \<open>Properties\<close>

text \<open>
  C10. \<open>check\<close> reports the truth. A passing result counts tests whose values all satisfied the
  predicate, all \<open>numRuns\<close> of them when there is no timeout. A failing result comes from the first test that
  fails; its counterexample is a node of that test's tree, the predicate fails for it with the error reported, and
  the shrinks are at most \<open>maxShrinks\<close>.
\<close>

theorem check_reports_truth:
  assumes "resolveConfig rs c = cfg" "replay cfg = None" "check rs arb predicate clk c = Inr r"
  shows "if ok r
    then (timeoutMs cfg \<noteq> None \<or> ranTests r = max 0 (numRuns cfg)) \<and>
      (\<forall>i\<in>{0..<ranTests r}. test_passes (evalSync predicate) arb cfg i)
    else (\<exists>t u e. test_tree arb cfg (ranTests r - 1) = Inr t \<and> subtree t u \<and>
      counterexample r = Some (tree_value u) \<and> error_of r = Some e \<and> evalSync predicate (tree_value u) = Some e \<and>
      the (shrinks r) \<le> max 0 (maxShrinks cfg)) \<and>
      (\<forall>i\<in>{0..<ranTests r - 1}. test_passes (evalSync predicate) arb cfg i)"
proof -
  obtain dl tick where dl: "(case timeoutMs cfg of None \<Rightarrow> (None, 0) | Some ms \<Rightarrow> (Some (clk 0 + ms), 1 :: nat)) = (dl, tick)"
    by (metis prod.exhaust)
  let ?l = "\<lparr>limShrinks = maxShrinks cfg, limEvaluations = maxShrinkEvaluations cfg, deadline = dl\<rparr>"
  have run: "run_loop arb (evalSync predicate) clk cfg ?l 0 (skip_splits (nat 0) (prng_make (cfgSeed cfg))) tick = Inr r"
    using assms dl by (simp add: check_def check_with_def skip_splits_def)
  from run_loop_ok[OF run order.refl] show ?thesis
  proof (elim disjE exE conjE)
    fix n
    assume n: "0 \<le> n" "r = passing n cfg" "deadline ?l = None \<longrightarrow> n = max 0 (numRuns cfg)"
      "\<forall>j. 0 \<le> j \<and> j < n \<longrightarrow> test_passes (evalSync predicate) arb cfg j"
    then show ?thesis using dl by (auto simp: passing_def split: option.splits)
  next
    fix k t err tk s
    assume k: "0 \<le> k" "test_tree arb cfg k = Inr t" "evalSync predicate (tree_value t) = Some err"
      "shrink_loop (evalSync predicate) clk ?l (shrink_init t err tk) = Inr s"
      "r = failure cfg k (sizeFor k (numRuns cfg) (maxSize cfg)) s"
      "\<forall>j. 0 \<le> j \<and> j < k \<longrightarrow> test_passes (evalSync predicate) arb cfg j"
    have "shrink_inv (evalSync predicate) ?l t s" using shrink_loop_ok[OF shrink_inv_init[of "evalSync predicate", OF k(3)] k(4)] by blast
    then show ?thesis using k replayPath_subtree[of t "pathIndices s" "current s"]
      by (auto simp: failure_def shrink_inv_def)
  qed
qed

text \<open>
  C5. A failure can be replayed. Running \<open>check\<close> again with the seed and the path of a failing result,
  whatever the clock, finds the same counterexample with one evaluation and reports the same error,
  shrinks and path. The path survives printing and parsing.
\<close>

theorem check_replays_failure:
  assumes "resolveConfig rs c = cfg" "replay cfg = None" "check rs arb predicate clk c = Inr r" "\<not> ok r"
    "0 \<le> maxSize cfg" "0 < numRuns cfg" "numRuns cfg \<le> 9007199254740991" "numRuns cfg * maxSize cfg \<le> 9007199254740991"
    "maxShrinkEvaluations cfg \<le> 9007199254740991"
  shows "check rs' arb predicate clk' (c\<lparr>rSeed := Some (resSeed r), rReplay := path_of r\<rparr>) = Inr (r\<lparr>ranTests := 1\<rparr>)"
proof -
  let ?ev = "evalSync predicate"
  obtain dl tick where dl: "(case timeoutMs cfg of None \<Rightarrow> (None, 0) | Some ms \<Rightarrow> (Some (clk 0 + ms), 1 :: nat)) = (dl, tick)"
    by (metis prod.exhaust)
  let ?l = "\<lparr>limShrinks = maxShrinks cfg, limEvaluations = maxShrinkEvaluations cfg, deadline = dl\<rparr>"
  have run: "run_loop arb ?ev clk cfg ?l 0 (skip_splits (nat 0) (prng_make (cfgSeed cfg))) tick = Inr r"
    using assms(1-3) dl by (simp add: check_def check_with_def skip_splits_def)
  have "r \<noteq> passing n cfg" for n using assms(4) by (auto simp: passing_def)
  then obtain k t err tk s where k: "0 \<le> k" "k < numRuns cfg" "test_tree arb cfg k = Inr t" "?ev (tree_value t) = Some err"
      "shrink_loop ?ev clk ?l (shrink_init t err tk) = Inr s"
      "r = failure cfg k (sizeFor k (numRuns cfg) (maxSize cfg)) s"
    using run_loop_ok[OF run order.refl] by blast
  define sz where "sz = sizeFor k (numRuns cfg) (maxSize cfg)"
  have inv: "shrink_inv ?ev ?l t s" using shrink_loop_ok[OF shrink_inv_init[of ?ev, OF k(4)] k(5)] by blast
  have sz: "0 \<le> sz" "safe_int sz" using sizeFor_safe[OF k(1,2) assms(5,8)] unfolding sz_def by blast+
  have "list_all (\<lambda>i. 0 \<le> i \<and> safe_int i) (pathIndices s)"
    using inv assms(9) by (auto simp: shrink_inv_def list_all_iff)
  then have dec: "decodePath (encodePath k sz (pathIndices s)) =
      Inr \<lparr>testIdx = k, path_size = Some sz, shrinkIndices = pathIndices s\<rparr>"
    using decode_encode[of k sz "pathIndices s"] k(1,2) sz assms(7) by simp
  define c' where "c' = c\<lparr>rSeed := Some (resSeed r), rReplay := path_of r\<rparr>"
  have cfg': "replay (resolveConfig rs' c') = Some (encodePath k sz (pathIndices s))"
    "cfgSeed (resolveConfig rs' c') = cfgSeed cfg"
    by (simp_all add: c'_def resolveConfig_def Let_def k(6) failure_def sz_def)
  have tree: "fst (on_split (\<lambda>c. arb c sz) (skip_splits (nat k) (prng_make (cfgSeed cfg)))) = Inr t"
    using k(3) by (simp add: test_tree_def sz_def)
  have "replayTarget arb (resolveConfig rs' c') (encodePath k sz (pathIndices s)) =
      Inr (current s, \<lparr>testIdx = k, path_size = Some sz, shrinkIndices = pathIndices s\<rparr>)"
    using inv tree by (simp add: replayTarget_def dec cfg' shrink_inv_def Let_def)
  moreover have "?ev (tree_value (current s)) = Some (bestError s)" "best s = tree_value (current s)"
    "js_len (pathIndices s) = shrinkCount s"
    using inv unfolding shrink_inv_def by auto
  ultimately show ?thesis
    unfolding check_def c'_def[symmetric]
    by (simp add: check_with_def cfg' replayResult_def k(6) failure_def sz_def)
qed

text \<open>The witnesses: a value 5 with shrinks 0 and 3, and a predicate that fails from 3 on.\<close>

definition demo_tree :: "int shrink_tree" where
  "demo_tree = Tree 5 [leaf 0, leaf 3] None"

definition demo_gen :: "int arbitrary" where
  "demo_gen p sz = (Inr demo_tree, p)"

definition demo_predicate :: "int \<Rightarrow> unit call_result" where
  "demo_predicate v = (if v < 3 then Holds else Refuted)"

definition demo_config :: raw_config where
  "demo_config = \<lparr>rNumRuns = Some 1, rSeed = Some 42, rMaxSize = Some 7, rMaxShrinks = None,
     rMaxShrinkEvaluations = None, rReplay = None, rTimeoutMs = None\<rparr>"

definition demo_failure :: "(int, unit) check_result" where
  "demo_failure = \<lparr>ok = False, ranTests = 1, resSeed = 42, counterexample = Some 3, shrinks = Some 1,
     error_of = Some Undefined, path_of = Some (of_text ''0@7:1'')\<rparr>"

lemma demo_shrink:
  assumes "limShrinks lims = 1000" "limEvaluations lims = 10000" "deadline lims = None"
  shows "shrink_loop (evalSync demo_predicate) clk lims (shrink_init demo_tree Undefined tick) =
    Inr \<lparr>current = leaf 3, best = 3, bestError = Undefined, shrinkCount = 1, evaluations = 2, pathIndices = [1], ticks = tick\<rparr>"
  by (simp add: shrink_loop.simps shrink_init_def demo_tree_def leaf_def evalSync_def demo_predicate_def assms outOfBudget_def)

lemma demo_run: "check 0 demo_gen demo_predicate clk demo_config = Inr demo_failure"
proof -
  have "evalSync demo_predicate (tree_value demo_tree) = Some Undefined"
    by (simp add: evalSync_def demo_predicate_def demo_tree_def)
  then show ?thesis
    by (simp add: check_def check_with_def resolveConfig_def demo_config_def Let_def run_loop.simps[of _ _ _ _ _ 0]
       sizeFor_def on_split_def demo_gen_def case_prod_beta demo_shrink failure_def demo_failure_def encodePath_def
       of_text_def str_of_int_def digits_of_1)
qed

theorem check_reports_truth_witness:
  "\<exists>u. subtree demo_tree u \<and> tree_value u = 3 \<and> evalSync demo_predicate (tree_value u) = Some Undefined"
  using check_reports_truth[OF refl _ demo_run[of "\<lambda>n. 0"]]
  by (auto simp: demo_failure_def resolveConfig_def demo_config_def Let_def test_tree_def on_split_def demo_gen_def case_prod_beta)

theorem check_replays_failure_witness:
  "check 99 demo_gen demo_predicate (\<lambda>n. 0) (demo_config\<lparr>rSeed := Some 42, rReplay := Some (of_text ''0@7:1'')\<rparr>) = Inr demo_failure"
  using check_replays_failure[OF refl _ demo_run[of "\<lambda>n. 0"], of 99 "\<lambda>n. 0"]
  by (simp add: demo_failure_def resolveConfig_def demo_config_def Let_def)


end
