(* ===== verification/WorkerPool.thy ===== *)
theory WorkerPool
  imports Complex_Main PriorityQueue "HOL-Library.AList"
begin

text \<open>
  \<open>src/WorkerPool.ts\<close> with the worker side of \<open>src/WorkerPool.worker.ts\<close>: tasks are dispatched through a
  priority queue to worker threads that are spawned on demand, and each \<open>run\<close> call owns a promise.

  The objects the code shares by reference are kept in heaps of the state: the entry of a thread is found by
  its thread id, the \<open>aborted\<close> flag, the abort listener and the promise of a task by its task id. A worker
  thread is seen from the pool: the tasks posted to it that it has not answered, whether it raised
  \<open>error\<close>, whether it exited. Threads, signals and timers act through the events of a step relation, in
  any order that \<open>worker_threads\<close> allows. A promise settles once; its callbacks run later, as microtasks,
  so no event is interrupted by them.
\<close>

section \<open>Numbers and tasks\<close>

text \<open>A number other than \<open>NaN\<close>.\<close>

datatype number = MinusInfinity | Finite rat | PlusInfinity

instantiation number :: linorder
begin

fun less_eq_number :: "number \<Rightarrow> number \<Rightarrow> bool" where
  "less_eq_number MinusInfinity b = True"
| "less_eq_number (Finite a) (Finite b) = (a \<le> b)"
| "less_eq_number a PlusInfinity = True"
| "less_eq_number a b = False"

definition less_number :: "number \<Rightarrow> number \<Rightarrow> bool" where
  "less_number a b = (a \<le> b \<and> \<not> b \<le> a)"

instance
proof
  fix a b c :: number
  show "a \<le> a" by (cases a) auto
  show "a < b \<longleftrightarrow> a \<le> b \<and> \<not> b \<le> a" by (simp add: less_number_def)
  show "a \<le> b \<Longrightarrow> b \<le> c \<Longrightarrow> a \<le> c" by (cases a; cases b; cases c) auto
  show "a \<le> b \<Longrightarrow> b \<le> a \<Longrightarrow> a = b" by (cases a; cases b) auto
  show "a \<le> b \<or> b \<le> a" by (cases a; cases b) auto
qed

end

text \<open>What a caller may pass where a number is expected.\<close>

datatype number_arg = Num number | NotANumber | NonNumber

text \<open>\<open>FunctionUtils.nonNegativeInteger\<close> and \<open>positiveInteger\<close>.\<close>

definition MAX_SAFE :: int where "MAX_SAFE = 2 ^ 53 - 1"

fun safe_integer :: "number_arg \<Rightarrow> int option" where
  "safe_integer (Num (Finite r)) = (if r = of_int \<lfloor>r\<rfloor> \<and> \<bar>\<lfloor>r\<rfloor>\<bar> \<le> MAX_SAFE then Some \<lfloor>r\<rfloor> else None)"
| "safe_integer n = None"

definition nonNegativeInteger :: "number_arg \<Rightarrow> int outcome" where
  "nonNegativeInteger n =
     (case safe_integer n of None \<Rightarrow> Inl RangeError | Some i \<Rightarrow> if i < 0 then Inl RangeError else Inr i)"

definition positiveInteger :: "number_arg \<Rightarrow> int outcome" where
  "positiveInteger n =
     (case safe_integer n of None \<Rightarrow> Inl RangeError | Some i \<Rightarrow> if i < 1 then Inl RangeError else Inr i)"

text \<open>
  A task. Its two callbacks are its promise, its \<open>aborted\<close> flag a bit of the state; \<open>transferList\<close> is the
  list of the objects transferred.
\<close>

record 'd task =
  tkId :: nat
  tkData :: 'd
  tkPriority :: number
  tkTransfer :: "nat list option"

text \<open>\<open>a - b\<close> as the code uses it: its sign, or \<^const>\<open>None\<close> for \<open>NaN\<close>, which two equal infinities give.\<close>

definition minus_sign :: "number \<Rightarrow> number \<Rightarrow> int option" where
  "minus_sign a b =
     (if a = b \<and> (a = PlusInfinity \<or> a = MinusInfinity) then None
      else Some (if a < b then -1 else if a = b then 0 else 1))"

text \<open>\<open>taskCmp\<close>: \<open>a.priority - b.priority || a.taskId - b.taskId\<close>.\<close>

definition taskCmp :: "'d task \<Rightarrow> 'd task \<Rightarrow> int" where
  "taskCmp a b =
     (let ids = int (tkId a) - int (tkId b)
      in case minus_sign (tkPriority a) (tkPriority b) of
           None \<Rightarrow> ids
         | Some d \<Rightarrow> if d \<noteq> 0 then d else ids)"

text \<open>The queue applies it to slots, where \<open>undefined\<close> has no \<open>priority\<close> to read.\<close>

definition taskCmp_code :: "'d task option \<Rightarrow> 'd task option \<Rightarrow> js_error + int" where
  "taskCmp_code a b =
     (case (a, b) of (Some x, Some y) \<Rightarrow> Inr (taskCmp x y) | _ \<Rightarrow> Inl TypeError)"

lemma taskCmp_less:
  "taskCmp a b < 0 \<longleftrightarrow> tkPriority a < tkPriority b \<or> tkPriority a = tkPriority b \<and> tkId a < tkId b"
  by (auto simp: taskCmp_def minus_sign_def Let_def)

lemma taskCmp_flip: "0 < taskCmp a b \<longleftrightarrow> taskCmp b a < 0"
  by (auto simp: taskCmp_def minus_sign_def Let_def)

lemma taskCmp_le:
  "taskCmp a b \<le> 0 \<longleftrightarrow> tkPriority a < tkPriority b \<or> tkPriority a = tkPriority b \<and> tkId a \<le> tkId b"
  using taskCmp_flip[of a b] taskCmp_less[of b a] by (auto simp: not_less[symmetric])

interpretation task_order: comparator taskCmp
proof
  show "taskCmp a b < 0 \<longleftrightarrow> 0 < taskCmp b a" for a b :: "'a task" by (simp add: taskCmp_flip)
  show "taskCmp a b \<le> 0 \<Longrightarrow> taskCmp b c \<le> 0 \<Longrightarrow> taskCmp a c \<le> 0" for a b c :: "'a task"
    unfolding taskCmp_le by auto
qed

lemma taskCmp_agrees: "pq_agrees taskCmp_code taskCmp"
  by (auto simp: pq_agrees_def taskCmp_code_def)

lemma taskCmp_never_throws: "never_throws taskCmp_code"
  by (auto simp: never_throws_def taskCmp_code_def)

section \<open>State\<close>

text \<open>
  A worker thread, as the pool sees it: the task messages it has not answered, whether it has raised
  \<open>error\<close>, whether it has exited.
\<close>

record thread =
  thPosted :: "nat list"
  thError :: bool
  thExited :: bool

text \<open>\<open>WorkerEntry\<close>; the timer field is set or \<open>undefined\<close>.\<close>

record 'd worker_entry =
  weReady :: bool
  weFailed :: bool
  weTask :: "'d task option"
  weTimer :: bool
  weThread :: thread

text \<open>Why a promise is rejected: the pool's own errors, or a value of the caller or of a thread.\<close>

datatype 'e reason = PoolDestroyed | WorkerExited | PriorityError | Thrown 'e

datatype ('r, 'e) settlement = Fulfilled 'r | Rejected "'e reason"

text \<open>
  \<open>WorkerPool\<close>. Of \<open>kWorkers\<close> the keys in insertion order, of \<open>kPendingTasks\<close> the entries; the deferred
  of \<open>drain\<close> is present or not. The last fields are the heaps, and the number of deferreds resolved.
  The file name, the worker data and the bootstrap path are only handed to the \<open>Worker\<close> constructor.
\<close>

record ('d, 'r, 'e) pool =
  wpWorkers :: "nat list"
  wpIdle :: "nat list"
  wpQueue :: "('d task, js_error) pqueue"
  wpNextTaskId :: nat
  wpPending :: "(nat \<times> 'd task) list"
  wpMinThreads :: int
  wpMaxThreads :: int
  wpIdleTimeout :: rat
  wpDestroyed :: bool
  wpDrain :: bool
  wpAbortedQueued :: int
  wpEntry :: "nat \<Rightarrow> 'd worker_entry"
  wpNextThread :: nat
  wpAborted :: "nat set"
  wpListening :: "nat set"
  wpSettled :: "nat \<Rightarrow> ('r, 'e) settlement option"
  wpDrainsResolved :: nat

definition fresh_entry :: "'d worker_entry" where
  "fresh_entry = \<lparr>weReady = False, weFailed = False, weTask = None, weTimer = False,
     weThread = \<lparr>thPosted = [], thError = False, thExited = False\<rparr>\<rparr>"

definition set_entry :: "nat \<Rightarrow> ('d worker_entry \<Rightarrow> 'd worker_entry) \<Rightarrow> ('d, 'r, 'e) pool \<Rightarrow> ('d, 'r, 'e) pool" where
  "set_entry w f p = p\<lparr>wpEntry := (wpEntry p)(w := f (wpEntry p w))\<rparr>"

abbreviation set_task :: "'d task option \<Rightarrow> 'd worker_entry \<Rightarrow> 'd worker_entry" where
  "set_task t e \<equiv> e\<lparr>weTask := t\<rparr>"

abbreviation set_timer :: "bool \<Rightarrow> 'd worker_entry \<Rightarrow> 'd worker_entry" where
  "set_timer b e \<equiv> e\<lparr>weTimer := b\<rparr>"

text \<open>\<open>task.resolve\<close> and \<open>task.reject\<close>: the abort listener goes, and the promise takes its first settlement.\<close>

definition settle :: "nat \<Rightarrow> ('r, 'e) settlement \<Rightarrow> ('d, 'r, 'e) pool \<Rightarrow> ('d, 'r, 'e) pool" where
  "settle tid s p = p\<lparr>wpListening := wpListening p - {tid},
     wpSettled := (wpSettled p)(tid := Some (case wpSettled p tid of None \<Rightarrow> s | Some s1 \<Rightarrow> s1))\<rparr>"

text \<open>\<open>if (!task.aborted) task.reject(err)\<close>, and the same with \<open>resolve\<close>.\<close>

definition settle_unless_aborted :: "nat \<Rightarrow> ('r, 'e) settlement \<Rightarrow> ('d, 'r, 'e) pool \<Rightarrow> ('d, 'r, 'e) pool" where
  "settle_unless_aborted tid s p = (if tid \<in> wpAborted p then p else settle tid s p)"

abbreviation reject_unless_aborted :: "nat \<Rightarrow> 'e reason \<Rightarrow> ('d, 'r, 'e) pool \<Rightarrow> ('d, 'r, 'e) pool" where
  "reject_unless_aborted tid r \<equiv> settle_unless_aborted tid (Rejected r)"

section \<open>The queue\<close>

text \<open>
  \<open>PQ.push\<close> and \<open>PQ.pop\<close>. Under this comparator the heap operations return and never throw
  (\<open>push_queued\<close>, \<open>pop_queued\<close>), so the other cases of the result do not arise.
\<close>

definition queue_push :: "'d task \<Rightarrow> ('d, 'r, 'e) pool \<Rightarrow> ('d, 'r, 'e) pool" where
  "queue_push t p = (case pq_push (wpQueue p) t of Some (_, q) \<Rightarrow> p\<lparr>wpQueue := q\<rparr> | None \<Rightarrow> p)"

definition queue_pop :: "('d, 'r, 'e) pool \<Rightarrow> 'd task option \<times> ('d, 'r, 'e) pool" where
  "queue_pop p = (case pq_pop (wpQueue p) of
     Some (Inr t, q) \<Rightarrow> (t, p\<lparr>wpQueue := q\<rparr>) | _ \<Rightarrow> (None, p))"

definition queue_size :: "('d, 'r, 'e) pool \<Rightarrow> int" where
  "queue_size p = pq_size (wpQueue p)"

lemma pq_siftDown_size: "pq_siftDown q i = Some (Inr u, q1) \<Longrightarrow> pqSize q1 = pqSize q"
  by (auto simp: pq_siftDown_def Let_def split: option.splits)

lemma pq_maybeShrink_size: "pqSize (pq_maybeShrink q n) = pqSize q"
  by (simp add: pq_maybeShrink_def)

lemma queue_pop_size:
  assumes "queue_pop p = (Some t, p1)"
  shows "queue_size p1 = queue_size p - 1"
  using assms
  by (auto simp: queue_pop_def queue_size_def pq_size_def pq_pop_def Let_def pq_maybeShrink_size
      dest: pq_siftDown_size split: option.splits if_splits sum.splits prod.splits)

lemma queue_pop_size_le: "queue_pop p = (r, p1) \<Longrightarrow> queue_size p1 \<le> queue_size p"
  by (auto simp: queue_pop_def queue_size_def pq_size_def pq_pop_def Let_def pq_maybeShrink_size
      dest: pq_siftDown_size split: option.splits if_splits sum.splits prod.splits)

text \<open>\<open>dequeueNextValid\<close>; the \<open>undefined\<close> of an empty queue would throw at \<open>task.aborted\<close>, after the guard it does not arise.\<close>

function dequeueNextValid :: "('d, 'r, 'e) pool \<Rightarrow> 'd task option \<times> ('d, 'r, 'e) pool" where
  "dequeueNextValid p =
     (if queue_size p > 0
      then case queue_pop p of
             (None, p1) \<Rightarrow> (None, p1)
           | (Some task, p1) \<Rightarrow>
               if tkId task \<notin> wpAborted p1 then (Some task, p1)
               else dequeueNextValid (p1\<lparr>wpAbortedQueued := wpAbortedQueued p1 - 1\<rparr>)
      else (None, p))"
  by pat_completeness auto
termination
proof (relation "measure (\<lambda>p. nat (queue_size p))", goal_cases)
  case (2 p x p1 task)
  then have "queue_size p1 = queue_size p - 1" using queue_pop_size[of p task p1] by simp
  then show ?case using 2(1) by (simp add: queue_size_def)
qed simp

declare dequeueNextValid.simps [simp del]

text \<open>
  The loop of \<open>failStartup\<close> and \<open>destroy\<close> that rejects everything queued, until \<open>PQ.pop\<close> returns
  \<open>undefined\<close>; it does that on an empty queue, which is tested first to show that the loop ends.
\<close>

function reject_queued :: "'e reason \<Rightarrow> ('d, 'r, 'e) pool \<Rightarrow> ('d, 'r, 'e) pool" where
  "reject_queued r p =
     (if queue_size p > 0
      then case queue_pop p of
             (None, p1) \<Rightarrow> p1
           | (Some task, p1) \<Rightarrow> reject_queued r (reject_unless_aborted (tkId task) r p1)
      else p)"
  by pat_completeness auto
termination
proof (relation "measure (\<lambda>(r, p). nat (queue_size p))", goal_cases)
  case (2 r p x p1 task)
  then have "queue_size p1 = queue_size p - 1" using queue_pop_size[of p task p1] by simp
  then show ?case using 2(1) by (simp add: queue_size_def settle_unless_aborted_def settle_def)
qed simp

declare reject_queued.simps [simp del]

section \<open>Dispatching\<close>

text \<open>\<open>popIdleWorker\<close>: the top of the stack is the end of the list.\<close>

function popIdleWorker :: "('d, 'r, 'e) pool \<Rightarrow> nat option \<times> ('d, 'r, 'e) pool" where
  "popIdleWorker p =
     (if wpIdle p \<noteq> []
      then let w = last (wpIdle p); p1 = p\<lparr>wpIdle := butlast (wpIdle p)\<rparr>
           in if weReady (wpEntry p w) \<and> weTask (wpEntry p w) = None
              then (Some w, if weTimer (wpEntry p w) then set_entry w (set_timer False) p1 else p1)
              else popIdleWorker p1
      else (None, p))"
  by pat_completeness auto
termination by (relation "measure (\<lambda>p. length (wpIdle p))") auto

declare popIdleWorker.simps [simp del]

text \<open>
  \<open>sendTask\<close>: \<open>postMessage\<close> serialises the data and transfers the objects of the list before it returns,
  or throws (\<open>DataCloneError\<close>). Each task is posted at most once, so whether it throws is a function of
  the task, a parameter of the model. The reused message object has no effect on what is sent.
\<close>

type_synonym ('d, 'e) poster = "'d task \<Rightarrow> 'e option"

definition sendTask :: "('d, 'e) poster \<Rightarrow> nat \<Rightarrow> 'd task \<Rightarrow> ('d, 'r, 'e) pool \<Rightarrow> 'e option \<times> ('d, 'r, 'e) pool" where
  "sendTask post w task p =
     (case post task of
        Some err \<Rightarrow> (Some err, p)
      | None \<Rightarrow> (None, set_entry w (\<lambda>e. e\<lparr>weThread := (weThread e)
          \<lparr>thPosted := thPosted (weThread e) @ [tkId task]\<rparr>\<rparr>) p))"

definition maybeResolveDrain :: "('d, 'r, 'e) pool \<Rightarrow> ('d, 'r, 'e) pool" where
  "maybeResolveDrain p =
     (if wpPending p = [] \<and> queue_size p = 0
      then p\<lparr>wpDrain := False, wpDrainsResolved := wpDrainsResolved p + 1\<rparr> else p)"

text \<open>\<open>pool[kPendingTasks].set\<close> and \<open>delete\<close>.\<close>

definition set_pending :: "'d task \<Rightarrow> ('d, 'r, 'e) pool \<Rightarrow> ('d, 'r, 'e) pool" where
  "set_pending task p = p\<lparr>wpPending := AList.update (tkId task) task (wpPending p)\<rparr>"

definition delete_pending :: "nat \<Rightarrow> ('d, 'r, 'e) pool \<Rightarrow> ('d, 'r, 'e) pool" where
  "delete_pending tid p = p\<lparr>wpPending := AList.delete tid (wpPending p)\<rparr>"

lemma queue_size_simps [simp]:
  "queue_size (set_entry w f p) = queue_size p"
  "queue_size (set_pending t p) = queue_size p"
  "queue_size (delete_pending tid p) = queue_size p"
  "queue_size (settle tid s p) = queue_size p"
  "queue_size (settle_unless_aborted tid s p) = queue_size p"
  by (simp_all add: queue_size_def set_entry_def set_pending_def delete_pending_def settle_def
      settle_unless_aborted_def)

lemma sendTask_size: "queue_size (snd (sendTask post w t p)) = queue_size p"
  by (simp add: sendTask_def split: option.split)

lemma dequeue_shrinks: "dequeueNextValid p = (Some t, p1) \<Longrightarrow> queue_size p1 < queue_size p \<and> 0 < queue_size p"
proof (induction p arbitrary: t p1 rule: dequeueNextValid.induct)
  case (1 p)
  show ?case
  proof (cases "queue_size p > 0")
    case True
    obtain r q where pop: "queue_pop p = (r, q)" by fastforce
    then obtain task where task: "r = Some task"
      using True 1(2) by (cases r) (auto simp: dequeueNextValid.simps[of p])
    have size: "queue_size q = queue_size p - 1" using queue_pop_size pop task by metis
    let ?q = "q\<lparr>wpAbortedQueued := wpAbortedQueued q - 1\<rparr>"
    show ?thesis
    proof (cases "tkId task \<in> wpAborted q")
      case False
      then have "p1 = q" using 1(2) True pop task by (simp add: dequeueNextValid.simps[of p])
      then show ?thesis using size True by simp
    next
      case aborted: True
      then have "dequeueNextValid ?q = (Some t, p1)"
        using 1(2) True pop task by (simp add: dequeueNextValid.simps[of p])
      then have "queue_size p1 < queue_size ?q"
        using 1(1)[OF True pop[symmetric] task] aborted by simp
      then show ?thesis using size True by (simp add: queue_size_def)
    qed
  next
    case False
    then show ?thesis using 1(2) by (simp add: dequeueNextValid.simps[of p])
  qed
qed

text \<open>
  \<open>markWorkerIdle\<close>, \<open>dispatchTask\<close> and \<open>postTask\<close> call each other: a task that cannot be posted is rejected and
  its worker takes the next one.
\<close>

function markWorkerIdle :: "('d, 'e) poster \<Rightarrow> nat \<Rightarrow> ('d, 'r, 'e) pool \<Rightarrow> ('d, 'r, 'e) pool"
  and dispatchTask :: "('d, 'e) poster \<Rightarrow> nat \<Rightarrow> 'd task \<Rightarrow> ('d, 'r, 'e) pool \<Rightarrow> ('d, 'r, 'e) pool"
  and postTask :: "('d, 'e) poster \<Rightarrow> nat \<Rightarrow> 'd task \<Rightarrow> ('d, 'r, 'e) pool \<Rightarrow> ('d, 'r, 'e) pool" where
  "markWorkerIdle post w p =
     (case dequeueNextValid p of
        (Some task, p1) \<Rightarrow> dispatchTask post w task p1
      | (None, p1) \<Rightarrow>
          let p2 = p1\<lparr>wpIdle := wpIdle p1 @ [w]\<rparr>;
              p3 = (if wpIdleTimeout p2 > 0 \<and> int (length (wpWorkers p2)) > wpMinThreads p2
                    then set_entry w (set_timer True) p2 else p2)
          in if wpDrain p3 then maybeResolveDrain p3 else p3)"
| "dispatchTask post w task p = postTask post w task (set_pending task (set_entry w (set_task (Some task)) p))"
| "postTask post w task p =
     (case sendTask post w task p of
        (None, p1) \<Rightarrow> p1
      | (Some err, p1) \<Rightarrow>
          markWorkerIdle post w (reject_unless_aborted (tkId task) (Thrown err)
            (delete_pending (tkId task) (set_entry w (set_task None) p1))))"
  by pat_completeness auto
termination
proof (relation "measure (\<lambda>x. case x of Inl (post, w, p) \<Rightarrow> 3 * nat (queue_size p)
    | Inr (Inl (post, w, task, p)) \<Rightarrow> 3 * nat (queue_size p) + 2
    | Inr (Inr (post, w, task, p)) \<Rightarrow> 3 * nat (queue_size p) + 1)", goal_cases)
  case (2 post w p x p1 task)
  then have "nat (queue_size p1) < nat (queue_size p)" using dequeue_shrinks[of p task p1] by simp
  then have "3 * nat (queue_size p1) + 2 < 3 * nat (queue_size p)" by linarith
  then show ?case by simp
next
  case (4 post w task p x p1 err)
  then have "queue_size p1 = queue_size p" using sendTask_size[of post w task p] by (metis snd_conv)
  then show ?case by simp
qed simp_all

declare markWorkerIdle.simps [simp del] dispatchTask.simps [simp del] postTask.simps [simp del]

text \<open>\<open>spawnWorker\<close>: the new thread's id is one that no thread has had.\<close>

definition spawnWorker :: "('d, 'r, 'e) pool \<Rightarrow> nat \<times> ('d, 'r, 'e) pool" where
  "spawnWorker p =
     (let w = wpNextThread p
      in (w, p\<lparr>wpNextThread := w + 1, wpEntry := (wpEntry p)(w := fresh_entry), wpWorkers := wpWorkers p @ [w]\<rparr>))"

text \<open>A spawned worker keeps a task until it is ready.\<close>

definition spawn_with :: "'d task \<Rightarrow> ('d, 'r, 'e) pool \<Rightarrow> ('d, 'r, 'e) pool" where
  "spawn_with task p = (case spawnWorker p of (w, p1) \<Rightarrow> set_pending task (set_entry w (set_task (Some task)) p1))"

definition room_for_worker :: "('d, 'r, 'e) pool \<Rightarrow> bool" where
  "room_for_worker p \<longleftrightarrow> int (length (wpWorkers p)) < wpMaxThreads p"

lemma dequeue_size_le: "dequeueNextValid p = (r, p1) \<Longrightarrow> queue_size p1 \<le> queue_size p"
proof (induction p arbitrary: r p1 rule: dequeueNextValid.induct)
  case (1 p)
  obtain t q where pop: "queue_pop p = (t, q)" by fastforce
  show ?case
  proof (cases "queue_size p > 0 \<and> t \<noteq> None")
    case True
    then obtain task where task: "t = Some task" by auto
    have size: "queue_size q = queue_size p - 1" using queue_pop_size pop task by metis
    let ?q = "q\<lparr>wpAbortedQueued := wpAbortedQueued q - 1\<rparr>"
    have q: "queue_size ?q = queue_size q" by (simp add: queue_size_def)
    show ?thesis
      using 1(1)[OF conjunct1[OF True] pop[symmetric] task, of r p1] 1(2) True pop task size q
      by (auto simp: dequeueNextValid.simps[of p] split: if_splits)
  next
    case False
    moreover have "queue_size q \<le> queue_size p" using queue_pop_size_le[OF pop] .
    ultimately show ?thesis using 1(2) pop by (auto simp: dequeueNextValid.simps[of p] split: if_splits)
  qed
qed

lemma maybeResolveDrain_size [simp]: "queue_size (maybeResolveDrain p) = queue_size p"
  by (simp add: maybeResolveDrain_def queue_size_def)

lemma dispatch_size:
  "queue_size (markWorkerIdle post w p) \<le> queue_size p"
  "queue_size (dispatchTask post w t p) \<le> queue_size p"
  "queue_size (postTask post w t p) \<le> queue_size p"
proof (induction post w p and post w t p and post w t p
    rule: markWorkerIdle_dispatchTask_postTask.induct)
  case (1 post w p)
  obtain r p1 where d: "dequeueNextValid p = (r, p1)" by fastforce
  show ?case
  proof (cases r)
    case None
    then have "queue_size (markWorkerIdle post w p) = queue_size p1"
      using d by (simp add: markWorkerIdle.simps[of post w p] Let_def) (simp add: queue_size_def set_entry_def)
    then show ?thesis using dequeue_size_le[OF d] by simp
  next
    case (Some task)
    then show ?thesis using 1(1)[OF d[symmetric] Some] d dequeue_size_le[OF d]
      by (simp add: markWorkerIdle.simps[of post w p])
  qed
next
  case (2 post w task p)
  then show ?case by (simp add: dispatchTask.simps[of post w task p])
next
  case (3 post w task p)
  obtain e p1 where s: "sendTask post w task p = (e, p1)" by fastforce
  then have "queue_size p1 = queue_size p" using sendTask_size[of post w task p] by simp
  then show ?case using 3(1)[OF s[symmetric]] s by (cases e) (auto simp: postTask.simps[of post w task p])
qed

lemma popIdleWorker_size: "queue_size (snd (popIdleWorker p)) = queue_size p"
  by (induction p rule: popIdleWorker.induct) (simp add: popIdleWorker.simps Let_def queue_size_def set_entry_def)

lemma try_shrinks:
  assumes "(Some task, p1) = dequeueNextValid p" "(r, p2) = popIdleWorker p1"
  shows "nat (queue_size (dispatchTask post w task p2)) < nat (queue_size p)"
    and "nat (queue_size (spawn_with task p2)) < nat (queue_size p)"
proof -
  have p2: "queue_size p2 = queue_size p1" using popIdleWorker_size[of p1] assms(2) by (metis snd_conv)
  have p1: "queue_size p1 < queue_size p" "0 < queue_size p"
    using dequeue_shrinks[of p task p1] assms(1) by auto
  show "nat (queue_size (dispatchTask post w task p2)) < nat (queue_size p)"
    using dispatch_size(2)[of post w task p2] p1 p2 by simp
  have "queue_size (spawn_with task p2) = queue_size p2"
    by (simp add: spawn_with_def spawnWorker_def Let_def) (simp add: queue_size_def)
  then show "nat (queue_size (spawn_with task p2)) < nat (queue_size p)" using p1 p2 by simp
qed

function tryDispatch :: "('d, 'e) poster \<Rightarrow> ('d, 'r, 'e) pool \<Rightarrow> ('d, 'r, 'e) pool" where
  "tryDispatch post p =
     (if queue_size p > 0
      then case dequeueNextValid p of
             (None, p1) \<Rightarrow> p1
           | (Some task, p1) \<Rightarrow>
               (case popIdleWorker p1 of
                  (Some w, p2) \<Rightarrow> tryDispatch post (dispatchTask post w task p2)
                | (None, p2) \<Rightarrow>
                    if room_for_worker p2 then tryDispatch post (spawn_with task p2)
                    else queue_push task p2)
      else p)"
  by pat_completeness auto
termination by (relation "measure (\<lambda>(post, p). nat (queue_size p))") (auto dest: try_shrinks)

declare tryDispatch.simps [simp del]

section \<open>Public operations\<close>

text \<open>\<open>make\<close>. A string \<open>filename\<close> is resolved by the path library; the name plays no part in the state.\<close>

record pool_config =
  cfgMinThreads :: "number_arg option"
  cfgMaxThreads :: "number_arg option"
  cfgIdleTimeout :: "number_arg option"

definition MAX_TIMEOUT :: rat where "MAX_TIMEOUT = 2147483647"

definition resolve_timeout :: "number_arg option \<Rightarrow> rat outcome" where
  "resolve_timeout arg =
     (case arg of
        None \<Rightarrow> Inr 30000
      | Some (Num PlusInfinity) \<Rightarrow> Inr 0
      | Some (Num (Finite r)) \<Rightarrow> if 0 \<le> r \<and> r \<le> MAX_TIMEOUT then Inr r else Inl RangeError
      | Some _ \<Rightarrow> Inl RangeError)"

definition empty_pool :: "int \<Rightarrow> int \<Rightarrow> rat \<Rightarrow> ('d, 'r, 'e) pool" where
  "empty_pool mn mx timeout = \<lparr>wpWorkers = [], wpIdle = [],
     wpQueue = \<lparr>pqItems = [], pqSize = 0, pqCmp = taskCmp_code\<rparr>, wpNextTaskId = 0, wpPending = [],
     wpMinThreads = mn, wpMaxThreads = mx, wpIdleTimeout = timeout, wpDestroyed = False, wpDrain = False,
     wpAbortedQueued = 0, wpEntry = (\<lambda>_. fresh_entry), wpNextThread = 0, wpAborted = {}, wpListening = {},
     wpSettled = (\<lambda>_. None), wpDrainsResolved = 0\<rparr>"

definition spawn_only :: "('d, 'r, 'e) pool \<Rightarrow> ('d, 'r, 'e) pool" where
  "spawn_only p = snd (spawnWorker p)"

definition wp_make :: "int \<Rightarrow> pool_config \<Rightarrow> ('d, 'r, 'e) pool outcome" where
  "wp_make parallelism config =
     (case (case cfgMinThreads config of Some n \<Rightarrow> nonNegativeInteger n | None \<Rightarrow> nonNegativeInteger (Num (Finite 0))) of
        Inl e \<Rightarrow> Inl e
      | Inr mn \<Rightarrow>
          (case (case cfgMaxThreads config of Some n \<Rightarrow> positiveInteger n
                 | None \<Rightarrow> positiveInteger (Num (Finite (of_int parallelism)))) of
             Inl e \<Rightarrow> Inl e
           | Inr mx \<Rightarrow>
               (case resolve_timeout (cfgIdleTimeout config) of
                  Inl e \<Rightarrow> Inl e
                | Inr timeout \<Rightarrow>
                    if mn > mx then Inl RangeError
                    else Inr ((spawn_only ^^ nat mn) (empty_pool mn mx timeout)))))"

text \<open>
  \<open>run\<close>. The signal of the options is \<^term>\<open>Some (Some reason)\<close> when it is already aborted. The result is
  the rejection, or the id of the task whose promise is returned.
\<close>

record 'e run_options =
  optPriority :: "number_arg option"
  optTransfer :: "nat list option"
  optSignal :: "'e option option"

definition start_or_queue :: "('d, 'e) poster \<Rightarrow> 'd task \<Rightarrow> ('d, 'r, 'e) pool \<Rightarrow> ('d, 'r, 'e) pool" where
  "start_or_queue post task p =
     (if tkPriority task = Finite 0 \<and> queue_size p = 0
      then (case popIdleWorker p of
              (Some w, p1) \<Rightarrow> dispatchTask post w task p1
            | (None, p1) \<Rightarrow>
                if room_for_worker p1 then spawn_with task p1
                else tryDispatch post (queue_push task p1))
      else tryDispatch post (queue_push task p))"

definition wp_run :: "('d, 'e) poster \<Rightarrow> 'd \<Rightarrow> 'e run_options \<Rightarrow> ('d, 'r, 'e) pool
    \<Rightarrow> ('e reason + nat) \<times> ('d, 'r, 'e) pool" where
  "wp_run post d opts p =
     (if wpDestroyed p then (Inl PoolDestroyed, p)
      else case (case optPriority opts of None \<Rightarrow> Num (Finite 0) | Some n \<Rightarrow> n) of
             Num priority \<Rightarrow>
               (case optSignal opts of
                  Some (Some reason) \<Rightarrow> (Inl (Thrown reason), p)
                | signal \<Rightarrow>
                    let tid = wpNextTaskId p;
                        p1 = p\<lparr>wpNextTaskId := tid + 1\<rparr>;
                        p2 = (if signal = None then p1 else p1\<lparr>wpListening := insert tid (wpListening p1)\<rparr>);
                        task = \<lparr>tkId = tid, tkData = d, tkPriority = priority, tkTransfer = optTransfer opts\<rparr>
                    in (Inr tid, start_or_queue post task p2))
           | _ \<Rightarrow> (Inl PriorityError, p))"

text \<open>The abort listener of a task.\<close>

definition onAbort :: "nat \<Rightarrow> 'e \<Rightarrow> ('d, 'r, 'e) pool \<Rightarrow> ('d, 'r, 'e) pool" where
  "onAbort tid reason p =
     (let p1 = p\<lparr>wpAborted := insert tid (wpAborted p)\<rparr>;
          p2 = (if map_of (wpPending p1) tid = None then p1\<lparr>wpAbortedQueued := wpAbortedQueued p1 + 1\<rparr> else p1)
      in settle tid (Rejected (Thrown reason)) p2)"

definition activeCount :: "('d, 'r, 'e) pool \<Rightarrow> int" where
  "activeCount p = int (length (wpPending p))"

definition pendingCount :: "('d, 'r, 'e) pool \<Rightarrow> int" where
  "pendingCount p = queue_size p - wpAbortedQueued p"

text \<open>\<open>drain\<close>: the flag tells a promise that is resolved already.\<close>

definition wp_drain :: "('d, 'r, 'e) pool \<Rightarrow> bool \<times> ('d, 'r, 'e) pool" where
  "wp_drain p =
     (if wpPending p = [] \<and> queue_size p = 0 then (True, p) else (False, p\<lparr>wpDrain := True\<rparr>))"

primrec reject_pending :: "'e reason \<Rightarrow> (nat \<times> 'd task) list \<Rightarrow> ('d, 'r, 'e) pool \<Rightarrow> ('d, 'r, 'e) pool" where
  "reject_pending r [] p = p"
| "reject_pending r (entry # entries) p =
     reject_pending r entries (reject_unless_aborted (tkId (snd entry)) r p)"

text \<open>\<open>destroy\<close> up to its \<open>await\<close>, and what follows when all threads have terminated.\<close>

definition wp_destroy :: "('d, 'r, 'e) pool \<Rightarrow> ('d, 'r, 'e) pool" where
  "wp_destroy p =
     (let p1 = (reject_queued PoolDestroyed (p\<lparr>wpDestroyed := True\<rparr>))\<lparr>wpAbortedQueued := 0\<rparr>;
          p2 = (reject_pending PoolDestroyed (wpPending p1) p1)\<lparr>wpPending := []\<rparr>;
          p3 = fold (\<lambda>w. set_entry w (set_timer False)) (wpWorkers p2) p2
      in p3\<lparr>wpWorkers := [], wpIdle := []\<rparr>)"

definition wp_destroyed :: "('d, 'r, 'e) pool \<Rightarrow> ('d, 'r, 'e) pool" where
  "wp_destroyed p =
     (if wpDrain p then p\<lparr>wpDrain := False, wpDrainsResolved := wpDrainsResolved p + 1\<rparr> else p)"

section \<open>Handlers\<close>

definition handleReady :: "('d, 'e) poster \<Rightarrow> nat \<Rightarrow> ('d, 'r, 'e) pool \<Rightarrow> ('d, 'r, 'e) pool" where
  "handleReady post w p =
     (let p1 = set_entry w (\<lambda>e. e\<lparr>weReady := True\<rparr>) p
      in case weTask (wpEntry p1 w) of
           Some task \<Rightarrow>
             if tkId task \<in> wpAborted p1
             then markWorkerIdle post w (delete_pending (tkId task) (set_entry w (set_task None) p1))
             else postTask post w task p1
         | None \<Rightarrow> markWorkerIdle post w p1)"

text \<open>\<open>MSG_RESULT\<close> and \<open>MSG_ERROR\<close>, which differ in how the promise settles.\<close>

definition handleAnswer :: "('d, 'e) poster \<Rightarrow> nat \<Rightarrow> nat \<Rightarrow> ('r, 'e) settlement \<Rightarrow> ('d, 'r, 'e) pool
    \<Rightarrow> ('d, 'r, 'e) pool" where
  "handleAnswer post w tid s p =
     (let task = map_of (wpPending p) tid;
          p1 = set_entry w (set_task None) (delete_pending tid p);
          p2 = (case task of
                  Some t \<Rightarrow> settle_unless_aborted (tkId t) s p1
                | None \<Rightarrow> p1)
      in markWorkerIdle post w p2)"

text \<open>The outbound messages; the payload of an error is given as \<open>deserializeThrown\<close> decodes it.\<close>

datatype ('r, 'e) message = MSG_READY | MSG_RESULT nat 'r | MSG_ERROR nat 'e

fun handleWorkerMessage :: "('d, 'e) poster \<Rightarrow> nat \<Rightarrow> ('r, 'e) message \<Rightarrow> ('d, 'r, 'e) pool \<Rightarrow> ('d, 'r, 'e) pool" where
  "handleWorkerMessage post w MSG_READY p = handleReady post w p"
| "handleWorkerMessage post w (MSG_RESULT tid v) p = handleAnswer post w tid (Fulfilled v) p"
| "handleWorkerMessage post w (MSG_ERROR tid e) p = handleAnswer post w tid (Rejected (Thrown e)) p"

definition terminateIdleWorker :: "nat \<Rightarrow> ('d, 'r, 'e) pool \<Rightarrow> ('d, 'r, 'e) pool" where
  "terminateIdleWorker w p =
     (if weTask (wpEntry p w) \<noteq> None then p
      else if int (length (wpWorkers p)) \<le> wpMinThreads p then p
      else (set_entry w (set_timer False) p)\<lparr>wpWorkers := remove1 w (wpWorkers p), wpIdle := remove1 w (wpIdle p)\<rparr>)"

text \<open>The task of a worker that died: \<open>pending\<close> forgets it and it is rejected, unless it was aborted.\<close>

definition drop_task :: "nat \<Rightarrow> 'e reason \<Rightarrow> ('d, 'r, 'e) pool \<Rightarrow> ('d, 'r, 'e) pool" where
  "drop_task w r p =
     (let p1 = set_entry w (set_task None) p
      in case weTask (wpEntry p w) of
           Some task \<Rightarrow> reject_unless_aborted (tkId task) r (delete_pending (tkId task) p1)
         | None \<Rightarrow> p1)"

definition failStartup :: "nat \<Rightarrow> 'e reason \<Rightarrow> ('d, 'r, 'e) pool \<Rightarrow> ('d, 'r, 'e) pool" where
  "failStartup w r p =
     (if weFailed (wpEntry p w) then p
      else (reject_queued r (drop_task w r (set_entry w (\<lambda>e. e\<lparr>weFailed := True\<rparr>) p)))\<lparr>wpAbortedQueued := 0\<rparr>)"

definition handleWorkerError :: "nat \<Rightarrow> 'e \<Rightarrow> ('d, 'r, 'e) pool \<Rightarrow> ('d, 'r, 'e) pool" where
  "handleWorkerError w err p =
     (if \<not> weReady (wpEntry p w) then failStartup w (Thrown err) p else drop_task w (Thrown err) p)"

definition handleWorkerExit :: "('d, 'e) poster \<Rightarrow> nat \<Rightarrow> ('d, 'r, 'e) pool \<Rightarrow> ('d, 'r, 'e) pool" where
  "handleWorkerExit post w p =
     (let p1 = (set_entry w (set_timer False) p)\<lparr>wpWorkers := remove1 w (wpWorkers p), wpIdle := remove1 w (wpIdle p)\<rparr>;
          p2 = (if \<not> weReady (wpEntry p1 w) \<and> \<not> wpDestroyed p1 then failStartup w WorkerExited p1 else p1);
          p3 = drop_task w WorkerExited p2;
          p4 = (if \<not> wpDestroyed p3
                then tryDispatch post
                       (if weReady (wpEntry p3 w) \<and> int (length (wpWorkers p3)) < wpMinThreads p3
                        then spawn_only p3 else p3)
                else p3)
      in if wpDrain p4 then maybeResolveDrain p4 else p4)"

end
