(* ===== verification/PoolInvariant.thy ===== *)
theory PoolInvariant
  imports WorkerPool
begin

text \<open>
  The invariant of a worker pool that has not been destroyed, and that dispatching keeps it: the queue is a
  heap, the live tasks have distinct ids, a promise is settled exactly when its task is not live or was
  aborted, the pending map and the workers describe each other, and a thread owes at most one answer.
\<close>

section \<open>What the queue holds\<close>

definition queued :: "('d, 'r, 'e) pool \<Rightarrow> 'd task multiset" where
  "queued p = mset (map the (take (nat (pqSize (wpQueue p))) (pqItems (wpQueue p))))"

definition queue_ok :: "('d, 'r, 'e) pool \<Rightarrow> bool" where
  "queue_ok p \<longleftrightarrow> pq_holds taskCmp taskCmp_code (queued p) (wpQueue p)"

lemma pq_rep_take: "pq_rep q xs \<Longrightarrow> map the (take (nat (pqSize q)) (pqItems q)) = xs"
  by (rule nth_equalityI) (auto simp: pq_rep_def)

lemma queue_okI:
  assumes "pq_holds taskCmp taskCmp_code M (wpQueue p)"
  shows "queue_ok p" "queued p = M"
proof -
  show M: "queued p = M" using assms by (elim pq_holdsE) (simp only: queued_def pq_rep_take)
  show "queue_ok p" using assms by (simp add: queue_ok_def M)
qed

lemma queue_okE:
  assumes "queue_ok p"
  obtains xs where "pq_rep (wpQueue p) xs" "heap_from taskCmp 0 xs" "mset xs = queued p" "pqCmp (wpQueue p) = taskCmp_code"
  using assms unfolding queue_ok_def by (rule pq_holdsE)

lemma queue_size_queued: "queue_ok p \<Longrightarrow> queue_size p = int (size (queued p))"
  by (erule queue_okE) (auto simp: queue_size_def pq_size_def pq_rep_def dest: arg_cong[of _ _ size])

lemma queue_size_zero: "queue_ok p \<Longrightarrow> queue_size p = 0 \<longleftrightarrow> queued p = {#}"
  by (simp add: queue_size_queued)

lemma queue_size_pos: "queue_ok p \<Longrightarrow> queue_size p > 0 \<longleftrightarrow> queued p \<noteq> {#}"
  by (simp add: queue_size_queued nonempty_has_size)

lemma push_queued:
  assumes "queue_ok p" "size (queued p) < 2 ^ 29"
  obtains q where "queue_push t p = p\<lparr>wpQueue := q\<rparr>" "queue_ok (p\<lparr>wpQueue := q\<rparr>)"
    "queued (p\<lparr>wpQueue := q\<rparr>) = add_mset t (queued p)"
proof -
  obtain xs where xs: "pq_rep (wpQueue p) xs" "heap_from taskCmp 0 xs" "mset xs = queued p"
    "pqCmp (wpQueue p) = taskCmp_code"
    using assms(1) by (rule queue_okE)
  have len: "length xs < 2 ^ 30" using assms(2) xs(3) size_mset[of xs] by simp
  have quiet: "pq_push (wpQueue p) t \<noteq> Some (Inl e, q)" for e q
    by (rule pq_push_quiet[OF _ xs(1) len]) (simp add: xs(4) taskCmp_never_throws)
  obtain ys q where q: "pq_push (wpQueue p) t = Some (Inr (), q)" "pq_rep q ys" "pqCmp q = taskCmp_code"
    "mset ys = add_mset t (mset xs)" "heap_from taskCmp 0 ys"
    using task_order.pq_push_ok[of "wpQueue p" xs t] xs quiet len by (auto simp: taskCmp_agrees)
  have "pq_holds taskCmp taskCmp_code (add_mset t (queued p)) (wpQueue (p\<lparr>wpQueue := q\<rparr>))"
    using q xs(3) by (simp add: pq_holdsI)
  then show ?thesis using q(1) by (intro that[of q] queue_okI) (simp_all add: queue_push_def)
qed

lemma pop_nothing: "queue_ok p \<Longrightarrow> queued p = {#} \<Longrightarrow> queue_pop p = (None, p)"
  using queue_size_zero[of p] by (simp add: queue_pop_def pq_pop_def queue_size_def pq_size_def)

lemma pop_queued:
  assumes "queue_ok p" "size (queued p) \<le> 2 ^ 29" "queued p \<noteq> {#}"
  obtains t q where "queue_pop p = (Some t, p\<lparr>wpQueue := q\<rparr>)" "queue_ok (p\<lparr>wpQueue := q\<rparr>)"
    "queued p = add_mset t (queued (p\<lparr>wpQueue := q\<rparr>))" "is_least taskCmp t (queued p)"
proof -
  obtain xs where xs: "pq_rep (wpQueue p) xs" "heap_from taskCmp 0 xs" "mset xs = queued p"
    "pqCmp (wpQueue p) = taskCmp_code"
    using assms(1) by (rule queue_okE)
  have len: "length xs \<le> 2 ^ 29" "xs \<noteq> []" using assms(2,3) xs(3) size_mset[of xs] by auto
  obtain ys q where q: "pq_pop (wpQueue p) = Some (Inr (Some (xs ! 0)), q)" "pq_rep q ys" "pqCmp q = taskCmp_code"
    "mset xs = add_mset (xs ! 0) (mset ys)" "heap_from taskCmp 0 ys"
    using task_order.pq_pop_ok[of "wpQueue p" xs] xs len by (auto simp: taskCmp_agrees taskCmp_never_throws)
  have "pq_holds taskCmp taskCmp_code (mset ys) (wpQueue (p\<lparr>wpQueue := q\<rparr>))"
    using q by (simp add: pq_holdsI)
  moreover have "is_least taskCmp (xs ! 0) (queued p)" using task_order.root_is_least xs(2,3) len(2) by metis
  moreover have "queued (p\<lparr>wpQueue := q\<rparr>) = mset ys" by (rule queue_okI) fact
  ultimately show ?thesis using q(1,4) xs(3) by (intro that[of "xs ! 0" q] queue_okI(1)) (auto simp: queue_pop_def)
qed

section \<open>The invariant\<close>

text \<open>
  The tasks a pool is responsible for are queued, pending (on a worker), or in the hands of the running
  operation: the multiset \<open>H\<close>. Their ids are distinct and were given out by \<open>run\<close>.
\<close>

definition live_ids :: "'d task multiset \<Rightarrow> ('d, 'r, 'e) pool \<Rightarrow> nat multiset" where
  "live_ids H p = image_mset tkId (queued p) + mset (map fst (wpPending p)) + image_mset tkId H"

definition ids_ok :: "'d task multiset \<Rightarrow> ('d, 'r, 'e) pool \<Rightarrow> bool" where
  "ids_ok H p \<longleftrightarrow> live_ids H p \<subseteq># mset_set {..<wpNextTaskId p} \<and> wpNextTaskId p \<le> 2 ^ 29 \<and>
     wpListening p \<subseteq> {..<wpNextTaskId p} \<and> wpAborted p \<subseteq> {..<wpNextTaskId p}"

text \<open>A live task's promise is settled exactly when the task was aborted; every other promise is settled.\<close>

definition promises_ok :: "'d task multiset \<Rightarrow> ('d, 'r, 'e) pool \<Rightarrow> bool" where
  "promises_ok H p \<longleftrightarrow>
     (\<forall>tid. wpSettled p tid = None \<longleftrightarrow>
        tid \<ge> wpNextTaskId p \<or> tid \<in># live_ids H p \<and> tid \<notin> wpAborted p) \<and>
     (\<forall>tid \<in> wpListening p. wpSettled p tid = None)"

definition aborted_ok :: "('d, 'r, 'e) pool \<Rightarrow> bool" where
  "aborted_ok p \<longleftrightarrow> wpAbortedQueued p = int (size (filter_mset (\<lambda>t. tkId t \<in> wpAborted p) (queued p)))"

abbreviation posted :: "('d, 'r, 'e) pool \<Rightarrow> nat \<Rightarrow> nat list" where
  "posted p w \<equiv> thPosted (weThread (wpEntry p w))"

abbreviation exited :: "('d, 'r, 'e) pool \<Rightarrow> nat \<Rightarrow> bool" where
  "exited p w \<equiv> thExited (weThread (wpEntry p w))"

text \<open>
  A registered worker that is free: it has no task and no unanswered message, and is not on the idle stack.
\<close>

definition free_worker :: "('d, 'r, 'e) pool \<Rightarrow> nat \<Rightarrow> bool" where
  "free_worker p w \<longleftrightarrow> w \<in> set (wpWorkers p) \<and> weTask (wpEntry p w) = None \<and> posted p w = [] \<and> w \<notin> set (wpIdle p)"

definition workers_ok :: "('d, 'r, 'e) pool \<Rightarrow> bool" where
  "workers_ok p \<longleftrightarrow> distinct (wpWorkers p) \<and> int (length (wpWorkers p)) \<le> wpMaxThreads p \<and>
     (\<forall>w \<in> set (wpWorkers p). w < wpNextThread p \<and> \<not> exited p w) \<and>
     distinct (wpIdle p) \<and>
     (\<forall>w \<in> set (wpIdle p). w \<in> set (wpWorkers p) \<and> weReady (wpEntry p w) \<and> weTask (wpEntry p w) = None \<and>
        posted p w = []) \<and>
     (\<forall>w \<ge> wpNextThread p. wpEntry p w = fresh_entry) \<and>
     (\<forall>w. weTimer (wpEntry p w) \<longrightarrow> w \<in> set (wpIdle p))"

text \<open>The pending map and the workers' current tasks describe each other.\<close>

definition tasks_ok :: "('d, 'r, 'e) pool \<Rightarrow> bool" where
  "tasks_ok p \<longleftrightarrow>
     (\<forall>tid t. (tid, t) \<in> set (wpPending p) \<longleftrightarrow>
        tkId t = tid \<and> (\<exists>w \<in> set (wpWorkers p). weTask (wpEntry p w) = Some t)) \<and>
     (\<forall>w t. weTask (wpEntry p w) = Some t \<longrightarrow> w \<in> set (wpWorkers p)) \<and>
     (\<forall>v w t u. weTask (wpEntry p v) = Some t \<longrightarrow> weTask (wpEntry p w) = Some u \<longrightarrow> tkId t = tkId u \<longrightarrow> v = w)"

lemma tasks_okD:
  assumes "tasks_ok p"
  shows "(tid, t) \<in> set (wpPending p) \<longleftrightarrow>
      tkId t = tid \<and> (\<exists>w \<in> set (wpWorkers p). weTask (wpEntry p w) = Some t)"
    and "weTask (wpEntry p w) = Some t \<Longrightarrow> w \<in> set (wpWorkers p)"
    and "weTask (wpEntry p v) = Some t \<Longrightarrow> weTask (wpEntry p w) = Some u \<Longrightarrow> tkId t = tkId u \<Longrightarrow> v = w"
  using assms unfolding tasks_ok_def by auto

lemma tasks_okI:
  assumes "\<And>tid t. (tid, t) \<in> set (wpPending p) \<longleftrightarrow>
      tkId t = tid \<and> (\<exists>w \<in> set (wpWorkers p). weTask (wpEntry p w) = Some t)"
    and "\<And>w t. weTask (wpEntry p w) = Some t \<Longrightarrow> w \<in> set (wpWorkers p)"
    and "\<And>v t w u. weTask (wpEntry p v) = Some t \<Longrightarrow> weTask (wpEntry p w) = Some u \<Longrightarrow> tkId t = tkId u \<Longrightarrow> v = w"
  shows "tasks_ok p"
  unfolding tasks_ok_def using assms by blast

text \<open>
  A live thread owes at most one answer, for the current task of its worker; if the worker has none (it raised
  \<open>error\<close>), for a task that no other worker has and that is neither queued nor in hand.
\<close>

definition posted_ok :: "'d task multiset \<Rightarrow> ('d, 'r, 'e) pool \<Rightarrow> bool" where
  "posted_ok H p \<longleftrightarrow> (\<forall>w. posted p w \<noteq> [] \<longrightarrow> \<not> exited p w \<longrightarrow>
     w \<in> set (wpWorkers p) \<and> weReady (wpEntry p w) \<and> length (posted p w) = 1 \<and>
     (\<forall>t. weTask (wpEntry p w) = Some t \<longrightarrow> posted p w = [tkId t]) \<and>
     (\<forall>tid \<in> set (posted p w). tid < wpNextTaskId p \<and> tid \<notin># image_mset tkId (queued p) + image_mset tkId H \<and>
        (\<forall>v t. weTask (wpEntry p v) = Some t \<longrightarrow> tkId t = tid \<longrightarrow> v = w)))"

lemma posted_okD:
  assumes "posted_ok H p" "posted p w \<noteq> []" "\<not> exited p w"
  shows "w \<in> set (wpWorkers p)" "weReady (wpEntry p w)" "length (posted p w) = 1"
    "weTask (wpEntry p w) = Some t \<Longrightarrow> posted p w = [tkId t]"
    "tid \<in> set (posted p w) \<Longrightarrow> tid \<notin># image_mset tkId (queued p) + image_mset tkId H"
    "tid \<in> set (posted p w) \<Longrightarrow> weTask (wpEntry p v) = Some t \<Longrightarrow> tkId t = tid \<Longrightarrow> v = w"
    "tid \<in> set (posted p w) \<Longrightarrow> tid < wpNextTaskId p"
  using assms unfolding posted_ok_def by blast+

lemma posted_okI:
  assumes "\<And>w. posted p w \<noteq> [] \<Longrightarrow> \<not> exited p w \<Longrightarrow>
      w \<in> set (wpWorkers p) \<and> weReady (wpEntry p w) \<and> length (posted p w) = 1"
    and "\<And>w t. posted p w \<noteq> [] \<Longrightarrow> \<not> exited p w \<Longrightarrow> weTask (wpEntry p w) = Some t \<Longrightarrow> posted p w = [tkId t]"
    and "\<And>w tid. posted p w \<noteq> [] \<Longrightarrow> \<not> exited p w \<Longrightarrow> tid \<in> set (posted p w) \<Longrightarrow>
      tid \<notin># image_mset tkId (queued p) + image_mset tkId H"
    and "\<And>w tid. posted p w \<noteq> [] \<Longrightarrow> \<not> exited p w \<Longrightarrow> tid \<in> set (posted p w) \<Longrightarrow> tid < wpNextTaskId p"
    and "\<And>w v t. posted p w \<noteq> [] \<Longrightarrow> \<not> exited p w \<Longrightarrow> tkId t \<in> set (posted p w) \<Longrightarrow>
      weTask (wpEntry p v) = Some t \<Longrightarrow> v = w"
  shows "posted_ok H p"
  unfolding posted_ok_def using assms by blast

lemma posted_ok_mono:
  assumes P: "posted_ok H p"
    and same: "\<And>w. posted q w = posted p w" "\<And>w. exited q w = exited p w"
      "\<And>w. weReady (wpEntry p w) \<Longrightarrow> weReady (wpEntry q w)"
      "\<And>w t. weTask (wpEntry q w) = Some t \<Longrightarrow> weTask (wpEntry p w) = Some t"
    and workers: "set (wpWorkers p) \<subseteq> set (wpWorkers q)" and nxt: "wpNextTaskId p \<le> wpNextTaskId q"
    and ids: "set_mset (image_mset tkId (queued q) + image_mset tkId H') \<subseteq>
      set_mset (image_mset tkId (queued p) + image_mset tkId H)"
  shows "posted_ok H' q"
proof (rule posted_okI, unfold same)
  fix v u assume v: "posted p v \<noteq> []" "\<not> exited p v"
  note D = posted_okD[OF P v]
  show "v \<in> set (wpWorkers q) \<and> weReady (wpEntry q v) \<and> length (posted p v) = 1"
    using D(1-3) workers same(3) by blast
  show "weTask (wpEntry q v) = Some u \<Longrightarrow> posted p v = [tkId u]" by (rule D(4)[OF same(4)])
  show "tid \<in> set (posted p v) \<Longrightarrow> tid \<notin># image_mset tkId (queued q) + image_mset tkId H'" for tid
    using D(5)[of tid] ids by blast
  show "tid \<in> set (posted p v) \<Longrightarrow> tid < wpNextTaskId q" for tid using D(7)[of tid] nxt by simp
  show "tkId u \<in> set (posted p v) \<Longrightarrow> weTask (wpEntry q x) = Some u \<Longrightarrow> x = v" for x
    by (rule D(6)[OF _ same(4)]) auto
qed

definition limits_ok :: "('d, 'r, 'e) pool \<Rightarrow> bool" where
  "limits_ok p \<longleftrightarrow> 0 \<le> wpMinThreads p \<and> wpMinThreads p \<le> wpMaxThreads p \<and> 1 \<le> wpMaxThreads p \<and> \<not> wpDestroyed p"

definition books :: "'d task multiset \<Rightarrow> ('d, 'r, 'e) pool \<Rightarrow> bool" where
  "books H p \<longleftrightarrow> queue_ok p \<and> ids_ok H p \<and> promises_ok H p \<and> workers_ok p \<and> tasks_ok p \<and> limits_ok p"

definition base :: "'d task multiset \<Rightarrow> ('d, 'r, 'e) pool \<Rightarrow> bool" where
  "base H p \<longleftrightarrow> books H p \<and> posted_ok H p"

lemma base_def': "base H p \<longleftrightarrow> queue_ok p \<and> ids_ok H p \<and> promises_ok H p \<and> workers_ok p \<and> tasks_ok p \<and>
    limits_ok p \<and> posted_ok H p"
  by (auto simp: base_def books_def)

named_theorems pool_defs

lemmas [pool_defs] = set_entry_def set_pending_def delete_pending_def settle_def settle_unless_aborted_def

lemma live_ids_distinct: "ids_ok H p \<Longrightarrow> count (live_ids H p) tid \<le> 1"
  using mset_subset_eq_count[of "live_ids H p" "mset_set {..<wpNextTaskId p}" tid]
  by (auto simp: ids_ok_def count_mset_set' split: if_splits)

lemma live_ids_bound: "ids_ok H p \<Longrightarrow> tid \<in># live_ids H p \<Longrightarrow> tid < wpNextTaskId p"
  unfolding ids_ok_def by (metis finite_lessThan finite_set_mset_mset_set lessThan_iff mset_subset_eqD)

lemma queued_size:
  assumes "ids_ok H p"
  shows "size (queued p) + size H \<le> 2 ^ 29"
proof -
  have "size (live_ids H p) \<le> size (mset_set {..<wpNextTaskId p})"
    using assms by (auto simp: ids_ok_def dest: size_mset_mono)
  then show ?thesis using assms by (simp add: live_ids_def ids_ok_def)
qed

lemma queued_frame [simp]:
  "queued (set_entry w f p) = queued p" "queued (set_pending t p) = queued p"
  "queued (delete_pending tid p) = queued p" "queued (settle_unless_aborted tid s p) = queued p"
  "queue_ok (set_entry w f p) = queue_ok p" "queue_ok (set_pending t p) = queue_ok p"
  "queue_ok (delete_pending tid p) = queue_ok p" "queue_ok (settle_unless_aborted tid s p) = queue_ok p"
  by (simp_all add: queued_def queue_ok_def pool_defs)

lemma aborted_ok_frame [simp]:
  "aborted_ok (set_entry w f p) = aborted_ok p" "aborted_ok (set_pending t p) = aborted_ok p"
  "aborted_ok (delete_pending tid p) = aborted_ok p" "aborted_ok (settle_unless_aborted tid s p) = aborted_ok p"
  by (simp_all add: aborted_ok_def queued_def pool_defs)

lemma live_ids_frame [simp]:
  "live_ids H (set_entry w f p) = live_ids H p" "live_ids H (settle_unless_aborted tid s p) = live_ids H p"
  by (simp_all add: live_ids_def) (simp_all add: pool_defs)

lemma AList_update_new: "k \<notin> fst ` set al \<Longrightarrow> AList.update k v al = al @ [(k, v)]"
  by (induction al) auto

lemma set_pending_new:
  "ids_ok (add_mset t H) p \<Longrightarrow> wpPending (set_pending t p) = wpPending p @ [(tkId t, t)]"
proof -
  assume "ids_ok (add_mset t H) p"
  then have "count (mset (map fst (wpPending p))) (tkId t) = 0"
    using live_ids_distinct[of "add_mset t H" p "tkId t"] by (simp add: live_ids_def)
  then have "tkId t \<notin> fst ` set (wpPending p)" by (metis count_eq_zero_iff set_map set_mset_mset)
  then show ?thesis by (simp add: set_pending_def AList_update_new)
qed

text \<open>A task in hand is given to a free worker.\<close>

lemma base_assign:
  assumes "base (add_mset t H) p" "free_worker p w"
  shows "base H (set_pending t (set_entry w (set_task (Some t)) p))"
proof -
  let ?p = "set_pending t (set_entry w (set_task (Some t)) p)"
  have ids: "ids_ok (add_mset t H) p" using assms(1) by (simp add: base_def')
  have pend: "wpPending ?p = wpPending p @ [(tkId t, t)]"
    using set_pending_new[OF ids] by (simp add: set_pending_def set_entry_def)
  have live: "live_ids H ?p = live_ids (add_mset t H) p" by (simp add: live_ids_def pend)
  have fields: "wpNextTaskId ?p = wpNextTaskId p" "wpListening ?p = wpListening p" "wpAborted ?p = wpAborted p"
    "wpSettled ?p = wpSettled p" "wpWorkers ?p = wpWorkers p" "wpIdle ?p = wpIdle p" "wpNextThread ?p = wpNextThread p"
    "wpMaxThreads ?p = wpMaxThreads p" "wpMinThreads ?p = wpMinThreads p" "wpDestroyed ?p = wpDestroyed p"
    "wpEntry ?p = (wpEntry p)(w := set_task (Some t) (wpEntry p w))"
    by (simp_all add: pool_defs)
  have fresh: "tkId u \<noteq> tkId t" if "weTask (wpEntry p v) = Some u" for v u
  proof
    assume eq: "tkId u = tkId t"
    have "(tkId t, u) \<in> set (wpPending p)" using assms(1) that eq by (auto simp: base_def' tasks_ok_def)
    then have "tkId t \<in># mset (map fst (wpPending p))" by force
    then have "1 \<le> count (mset (map fst (wpPending p))) (tkId t)" by (simp add: Suc_le_eq del: mset_map)
    then show False using live_ids_distinct[OF ids, of "tkId t"] by (simp add: live_ids_def del: mset_map)
  qed
  have free: "w \<in> set (wpWorkers p)" "weTask (wpEntry p w) = None" using assms(2) by (auto simp: free_worker_def)
  have task: "weTask (wpEntry ?p v) = (if v = w then Some t else weTask (wpEntry p v))" for v by (simp add: fields)
  have "tasks_ok p" using assms(1) by (simp add: base_def')
  note T = tasks_okD[OF this]
  have "tasks_ok ?p"
  proof (rule tasks_okI)
    show "(tid, u) \<in> set (wpPending ?p) \<longleftrightarrow>
        tkId u = tid \<and> (\<exists>v \<in> set (wpWorkers ?p). weTask (wpEntry ?p v) = Some u)" for tid u
      using free by (auto simp: pend fields(5) task T(1)) (metis option.distinct(1))
    show "weTask (wpEntry ?p v) = Some u \<Longrightarrow> v \<in> set (wpWorkers ?p)" for v u
      using free T(2)[of v u] by (simp add: task fields(5) split: if_splits)
    show "weTask (wpEntry ?p v) = Some u \<Longrightarrow> weTask (wpEntry ?p v') = Some u' \<Longrightarrow> tkId u = tkId u' \<Longrightarrow> v = v'"
      for v v' u u'
      using fresh[of v u] fresh[of v' u'] T(3)[of v u v' u'] by (auto simp: task split: if_splits)
  qed
  moreover have "workers_ok ?p"
    using assms unfolding base_def' workers_ok_def free_worker_def fields by auto
  moreover have "posted_ok H ?p"
  proof -
    have P: "posted_ok (add_mset t H) p" using assms(1) by (simp add: base_def)
    have post: "posted ?p v = posted p v" "exited ?p v = exited p v" "weReady (wpEntry ?p v) = weReady (wpEntry p v)" for v
      by (simp_all add: fields)
    have w: "posted p w = []" using assms(2) by (simp add: free_worker_def)
    show ?thesis
    proof (rule posted_okI, unfold post fields(5) queued_frame)
      fix v u assume v: "posted p v \<noteq> []" "\<not> exited p v"
      show "v \<in> set (wpWorkers p) \<and> weReady (wpEntry p v) \<and> length (posted p v) = 1"
        using posted_okD(1-3)[OF P v] by simp
      show "weTask (wpEntry ?p v) = Some u \<Longrightarrow> posted p v = [tkId u]"
        using posted_okD(4)[OF P v, of u] v(1) w by (auto simp: task split: if_splits)
      show "tid \<in> set (posted p v) \<Longrightarrow> tid \<notin># image_mset tkId (queued p) + image_mset tkId H" for tid
        using posted_okD(5)[OF P v, of tid] by auto
      show "tid \<in> set (posted p v) \<Longrightarrow> tid < wpNextTaskId ?p" for tid
        using posted_okD(7)[OF P v, of tid] by (simp add: fields)
      show "tkId u \<in> set (posted p v) \<Longrightarrow> weTask (wpEntry ?p x) = Some u \<Longrightarrow> x = v" for x
        using posted_okD(6)[OF P v, of "tkId u" x u] posted_okD(5)[OF P v, of "tkId u"]
        by (auto simp: task split: if_splits)
    qed
  qed
  ultimately show ?thesis
    using assms(1) unfolding base_def' ids_ok_def promises_ok_def limits_ok_def live fields by simp
qed

lemma delete_pending_keys:
  assumes "distinct (map fst (wpPending p))"
  shows "mset (map fst (wpPending (delete_pending tid p))) = mset (map fst (wpPending p)) - {#tid#}"
  using assms
  by (simp add: delete_pending_def AList.delete_keys distinct_remove1_removeAll[symmetric] del: mset_map)

lemma delete_pending_set: "set (wpPending (delete_pending tid p)) = {(k, t) \<in> set (wpPending p). k \<noteq> tid}"
  by (auto simp: delete_pending_def AList.delete_eq)

lemma pending_distinct: "ids_ok H p \<Longrightarrow> distinct (map fst (wpPending p))"
proof -
  assume ids: "ids_ok H p"
  have "count_list (map fst (wpPending p)) k \<le> 1" for k
    using live_ids_distinct[OF ids, of k] by (simp add: live_ids_def count_mset[symmetric] del: mset_map)
  then show ?thesis by (metis distinct_count_atmost_1 count_list_0_iff count_mset le_antisym less_one linorder_not_less)
qed

text \<open>A worker's task comes back into hand.\<close>

lemma books_unassign:
  assumes "books H p" "weTask (wpEntry p w) = Some t"
  shows "books (add_mset t H) (delete_pending (tkId t) (set_entry w (set_task None) p))"
proof -
  let ?p = "delete_pending (tkId t) (set_entry w (set_task None) p)"
  have ids: "ids_ok H p" and tasks: "tasks_ok p" using assms(1) by (auto simp: books_def)
  have pend: "(tkId t, t) \<in> set (wpPending p)" using tasks assms(2) by (auto simp: tasks_ok_def)
  have keys: "mset (map fst (wpPending ?p)) = mset (map fst (wpPending p)) - {#tkId t#}"
    using delete_pending_keys[of "set_entry w (set_task None) p" "tkId t"] pending_distinct[OF ids]
    by (simp add: set_entry_def)
  have "tkId t \<in># mset (map fst (wpPending p))" using pend by force
  then have live: "live_ids (add_mset t H) ?p = live_ids H p"
    by (simp add: live_ids_def keys del: mset_map)
  have set: "set (wpPending ?p) = {(k, u) \<in> set (wpPending p). k \<noteq> tkId t}"
    by (simp add: delete_pending_set set_entry_def)
  have fields: "wpNextTaskId ?p = wpNextTaskId p" "wpListening ?p = wpListening p" "wpAborted ?p = wpAborted p"
    "wpSettled ?p = wpSettled p" "wpWorkers ?p = wpWorkers p" "wpIdle ?p = wpIdle p" "wpNextThread ?p = wpNextThread p"
    "wpMaxThreads ?p = wpMaxThreads p" "wpMinThreads ?p = wpMinThreads p" "wpDestroyed ?p = wpDestroyed p"
    "wpEntry ?p = (wpEntry p)(w := set_task None (wpEntry p w))"
    by (simp_all add: pool_defs)
  have task: "weTask (wpEntry ?p v) = (if v = w then None else weTask (wpEntry p v))" for v by (simp add: fields)
  note T = tasks_okD[OF tasks]
  have "tasks_ok ?p"
  proof (rule tasks_okI)
    show "(tid, u) \<in> set (wpPending ?p) \<longleftrightarrow>
        tkId u = tid \<and> (\<exists>v \<in> set (wpWorkers ?p). weTask (wpEntry ?p v) = Some u)" for tid u
      using assms(2) T(3)[of w t _ u] by (auto simp: set fields(5) task T(1) split: if_splits) (metis option.inject)
    show "weTask (wpEntry ?p v) = Some u \<Longrightarrow> v \<in> set (wpWorkers ?p)" for v u
      using T(2)[of v u] by (simp add: task fields(5) split: if_splits)
    show "weTask (wpEntry ?p v) = Some u \<Longrightarrow> weTask (wpEntry ?p v') = Some u' \<Longrightarrow> tkId u = tkId u' \<Longrightarrow> v = v'"
      for v v' u u'
      using T(3)[of v u v' u'] by (simp add: task split: if_splits)
  qed
  moreover have "workers_ok ?p"
    using assms unfolding books_def workers_ok_def fields by (auto simp: fresh_entry_def)
  ultimately show ?thesis
    using assms(1) unfolding books_def ids_ok_def promises_ok_def limits_ok_def live fields by simp
qed

text \<open>A task in hand is done with: its promise is settled, now or when it was aborted.\<close>

lemma books_settle:
  assumes "books (add_mset t H) p"
  shows "books H (settle_unless_aborted (tkId t) s p)"
proof -
  let ?p = "settle_unless_aborted (tkId t) s p"
  have ids: "ids_ok (add_mset t H) p" and prom: "promises_ok (add_mset t H) p" using assms by (auto simp: books_def)
  have live: "live_ids (add_mset t H) p = add_mset (tkId t) (live_ids H p)" by (simp add: live_ids_def)
  have gone: "tkId t \<notin># live_ids H p"
    using live_ids_distinct[OF ids, of "tkId t"] by (simp add: live count_eq_zero_iff)
  have lt: "tkId t < wpNextTaskId p" by (rule live_ids_bound[OF ids]) (simp add: live)
  have fields: "wpNextTaskId ?p = wpNextTaskId p" "wpAborted ?p = wpAborted p"
    "wpWorkers ?p = wpWorkers p" "wpIdle ?p = wpIdle p" "wpNextThread ?p = wpNextThread p"
    "wpMaxThreads ?p = wpMaxThreads p" "wpMinThreads ?p = wpMinThreads p" "wpDestroyed ?p = wpDestroyed p"
    "wpEntry ?p = wpEntry p" "wpPending ?p = wpPending p"
    by (simp_all add: pool_defs)
  have listen: "wpListening ?p \<subseteq> wpListening p" "tkId t \<notin> wpListening ?p"
    using prom lt by (auto simp: pool_defs promises_ok_def)
  have settled: "wpSettled ?p tid = None \<longleftrightarrow> wpSettled p tid = None \<and> tid \<noteq> tkId t" for tid
    using prom lt by (auto simp: pool_defs promises_ok_def live)
  have "ids_ok H ?p"
    using ids listen(1) unfolding ids_ok_def live live_ids_frame fields
    by (metis insert_subset_eq_iff mset_subset_eq_insertD subset_mset.dual_order.strict_implies_order subset_trans)
  moreover have "promises_ok H ?p"
    using prom gone lt listen unfolding promises_ok_def settled live live_ids_frame fields by auto
  ultimately show ?thesis
    using assms unfolding books_def workers_ok_def tasks_ok_def limits_ok_def fields by simp
qed

lemma base_unassign:
  assumes "base H p" "weTask (wpEntry p w) = Some t" "posted p w = []"
  shows "base (add_mset t H) (delete_pending (tkId t) (set_entry w (set_task None) p))"
proof -
  let ?p = "delete_pending (tkId t) (set_entry w (set_task None) p)"
  have fields: "wpWorkers ?p = wpWorkers p" "wpEntry ?p = (wpEntry p)(w := set_task None (wpEntry p w))"
    by (simp_all add: pool_defs)
  have P: "posted_ok H p" using assms(1) by (simp add: base_def)
  have other: "tkId t \<notin> set (posted p v)" if "posted p v \<noteq> []" "\<not> exited p v" for v
    using posted_okD(6)[OF P that, of "tkId t" w t] assms(2,3) by auto
  have entry: "posted ?p v = posted p v" "exited ?p v = exited p v" "weReady (wpEntry ?p v) = weReady (wpEntry p v)"
    "weTask (wpEntry ?p v) = (if v = w then None else weTask (wpEntry p v))" for v
    by (simp_all add: fields)
  have "posted_ok (add_mset t H) ?p"
  proof (rule posted_okI, unfold entry fields(1) queued_frame)
    fix v u assume v: "posted p v \<noteq> []" "\<not> exited p v"
    note D = posted_okD[OF P v]
    show "v \<in> set (wpWorkers p) \<and> weReady (wpEntry p v) \<and> length (posted p v) = 1" using D(1-3) by simp
    show "(if v = w then None else weTask (wpEntry p v)) = Some u \<Longrightarrow> posted p v = [tkId u]"
      using D(4)[of u] by (simp split: if_splits)
    show "tid \<in> set (posted p v) \<Longrightarrow> tid \<notin># image_mset tkId (queued p) + image_mset tkId (add_mset t H)" for tid
      using D(5)[of tid] other[OF v] by auto
    show "tid \<in> set (posted p v) \<Longrightarrow> tid < wpNextTaskId ?p" for tid using D(7)[of tid] by (simp add: pool_defs)
    show "tkId u \<in> set (posted p v) \<Longrightarrow> (if x = w then None else weTask (wpEntry p x)) = Some u \<Longrightarrow> x = v" for x
      using D(6)[of "tkId u" x u] by (simp split: if_splits)
  qed
  then show ?thesis using books_unassign[of H p w t] assms by (simp add: base_def)
qed

lemma base_settle:
  assumes "base (add_mset t H) p"
  shows "base H (settle_unless_aborted (tkId t) s p)"
proof -
  have same: "wpEntry (settle_unless_aborted (tkId t) s p) = wpEntry p"
    "wpWorkers (settle_unless_aborted (tkId t) s p) = wpWorkers p"
    "wpNextTaskId (settle_unless_aborted (tkId t) s p) = wpNextTaskId p"
    by (simp_all add: pool_defs)
  have P: "posted_ok (add_mset t H) p" using assms by (simp add: base_def)
  have "posted_ok H (settle_unless_aborted (tkId t) s p)"
    by (rule posted_ok_mono[OF P]) (auto simp: same)
  then show ?thesis using books_settle[of t H p s] assms by (simp add: base_def)
qed

text \<open>The task of a dying worker is settled, whether its thread owes the answer or not.\<close>

lemma base_drop:
  assumes "base H p" "weTask (wpEntry p w) = Some t"
  shows "base H (settle_unless_aborted (tkId t) s (delete_pending (tkId t) (set_entry w (set_task None) p)))"
proof -
  let ?p = "settle_unless_aborted (tkId t) s (delete_pending (tkId t) (set_entry w (set_task None) p))"
  have fields: "wpWorkers ?p = wpWorkers p" "wpEntry ?p = (wpEntry p)(w := set_task None (wpEntry p w))"
    by (simp_all add: pool_defs)
  have P: "posted_ok H p" using assms(1) by (simp add: base_def)
  have entry: "posted ?p v = posted p v" "exited ?p v = exited p v" "weReady (wpEntry ?p v) = weReady (wpEntry p v)"
    "weTask (wpEntry ?p v) = (if v = w then None else weTask (wpEntry p v))" for v
    by (simp_all add: fields)
  have "posted_ok H ?p"
    by (rule posted_ok_mono[OF P]) (auto simp: entry fields(1) split: if_splits, simp add: pool_defs)
  then show ?thesis using books_settle[OF books_unassign[of H p w t]] assms by (simp add: base_def)
qed

text \<open>A worker's task is posted to its thread.\<close>

lemma base_post:
  assumes "base H p" "weTask (wpEntry p w) = Some t" "weReady (wpEntry p w)" "posted p w = []"
    "sendTask post w t p = (None, p1)"
  shows "base H p1"
proof -
  have p1: "p1 = set_entry w (\<lambda>e. e\<lparr>weThread := (weThread e)\<lparr>thPosted := thPosted (weThread e) @ [tkId t]\<rparr>\<rparr>) p"
    using assms(5) by (auto simp: sendTask_def split: option.splits)
  have fields: "wpNextTaskId p1 = wpNextTaskId p" "wpListening p1 = wpListening p" "wpAborted p1 = wpAborted p"
    "wpSettled p1 = wpSettled p" "wpWorkers p1 = wpWorkers p" "wpIdle p1 = wpIdle p" "wpNextThread p1 = wpNextThread p"
    "wpMaxThreads p1 = wpMaxThreads p" "wpMinThreads p1 = wpMinThreads p" "wpDestroyed p1 = wpDestroyed p"
    "wpPending p1 = wpPending p"
    by (simp_all add: p1 pool_defs)
  have entry: "weTask (wpEntry p1 v) = weTask (wpEntry p v)" "weReady (wpEntry p1 v) = weReady (wpEntry p v)"
    "exited p1 v = exited p v" "posted p1 v = (if v = w then [tkId t] else posted p v)"
    "weTimer (wpEntry p1 v) = weTimer (wpEntry p v)" for v
    using assms(4) by (simp_all add: p1 set_entry_def)
  have reg: "w \<in> set (wpWorkers p)" using assms(1,2) by (auto simp: base_def' tasks_ok_def)
  have "wpEntry p1 v = fresh_entry" if "v \<ge> wpNextThread p" for v
    using that reg assms(1) by (auto simp: base_def' workers_ok_def p1 set_entry_def)
  then have "workers_ok p1"
    using assms(1,2) unfolding base_def' workers_ok_def fields entry by auto
  moreover have "tasks_ok p1" using assms(1) unfolding base_def' tasks_ok_def fields entry by simp
  moreover have q: "live_ids H p1 = live_ids H p" "queue_ok p1 = queue_ok p" "queued p1 = queued p" by (simp_all add: p1)
  moreover have "posted_ok H p1"
  proof -
    have P: "posted_ok H p" and ids: "ids_ok H p" and T: "tasks_ok p" using assms(1) by (auto simp: base_def')
    have "(tkId t, t) \<in> set (wpPending p)" using T assms(2) reg by (auto simp: tasks_okD(1)[OF T])
    then have "tkId t \<in># mset (map fst (wpPending p))" by force
    then have known: "tkId t \<in># live_ids H p" and "1 \<le> count (mset (map fst (wpPending p))) (tkId t)"
      by (simp_all add: Suc_le_eq live_ids_def del: mset_map)
    then have "count (image_mset tkId (queued p) + image_mset tkId H) (tkId t) = 0"
      using live_ids_distinct[OF ids, of "tkId t"] unfolding live_ids_def count_union by linarith
    then have new: "tkId t \<notin># image_mset tkId (queued p) + image_mset tkId H" by (metis count_eq_zero_iff)
    show ?thesis
    proof (rule posted_okI, unfold entry fields(5) q(3))
      fix v u assume "(if v = w then [tkId t] else posted p v) \<noteq> []" "\<not> exited p v"
      then have v: "v \<noteq> w \<Longrightarrow> posted p v \<noteq> []" "\<not> exited p v" by auto
      note D = posted_okD[OF P v(1) v(2)]
      show "v \<in> set (wpWorkers p) \<and> weReady (wpEntry p v) \<and> length (if v = w then [tkId t] else posted p v) = 1"
        using D(1-3) reg assms(3) by auto
      show "weTask (wpEntry p v) = Some u \<Longrightarrow> (if v = w then [tkId t] else posted p v) = [tkId u]"
        using D(4)[of u] assms(2) by auto
      show "tid \<in> set (if v = w then [tkId t] else posted p v) \<Longrightarrow>
          tid \<notin># image_mset tkId (queued p) + image_mset tkId H" for tid
        using D(5)[of tid] new by (auto split: if_splits)
      show "tid \<in> set (if v = w then [tkId t] else posted p v) \<Longrightarrow> tid < wpNextTaskId p1" for tid
        using D(7)[of tid] live_ids_bound[OF ids, of "tkId t"] known by (auto simp: fields split: if_splits)
      show "tkId u \<in> set (if v = w then [tkId t] else posted p v) \<Longrightarrow> weTask (wpEntry p x) = Some u \<Longrightarrow> x = v" for x
        using D(6)[of "tkId u" x u] tasks_okD(3)[OF T assms(2), of x u] by (auto split: if_splits)
    qed
  qed
  ultimately show ?thesis
    using assms(1) unfolding base_def' ids_ok_def promises_ok_def limits_ok_def fields by simp
qed

text \<open>Fields that no part of the invariant reads may change.\<close>

lemma base_cong:
  assumes "base H p" "wpQueue q = wpQueue p" "wpPending q = wpPending p" "wpNextTaskId q = wpNextTaskId p"
    "wpListening q = wpListening p" "wpAborted q = wpAborted p" "wpSettled q = wpSettled p"
    "wpWorkers q = wpWorkers p" "wpIdle q = wpIdle p" "wpNextThread q = wpNextThread p"
    "wpMaxThreads q = wpMaxThreads p" "wpMinThreads q = wpMinThreads p" "wpDestroyed q = wpDestroyed p"
    "wpEntry q = wpEntry p"
  shows "base H q"
proof -
  have q: "queued q = queued p" using assms(2) by (simp add: queued_def)
  then have "queue_ok q = queue_ok p" "live_ids H q = live_ids H p"
    using assms(2,3) by (simp_all add: queue_ok_def live_ids_def)
  then show ?thesis
    using assms(1) q
    unfolding base_def' ids_ok_def promises_ok_def workers_ok_def tasks_ok_def posted_ok_def limits_ok_def assms(2-)
    by simp
qed

text \<open>The flags of a worker that the invariant does not read, or reads as a condition, may be set.\<close>

lemma base_flag:
  assumes "base H p" "w < wpNextThread p"
    "\<And>e. weTask (f e) = weTask e" "\<And>e. weReady e \<Longrightarrow> weReady (f e)"
    "\<And>e. thPosted (weThread (f e)) = thPosted (weThread e)" "\<And>e. thExited (weThread (f e)) = thExited (weThread e)"
    "\<And>e. weTimer (f e) \<Longrightarrow> weTimer e \<or> w \<in> set (wpIdle p)"
  shows "base H (set_entry w f p)"
proof -
  let ?p = "set_entry w f p"
  have fields: "wpNextTaskId ?p = wpNextTaskId p" "wpListening ?p = wpListening p" "wpAborted ?p = wpAborted p"
    "wpSettled ?p = wpSettled p" "wpWorkers ?p = wpWorkers p" "wpIdle ?p = wpIdle p" "wpNextThread ?p = wpNextThread p"
    "wpMaxThreads ?p = wpMaxThreads p" "wpMinThreads ?p = wpMinThreads p" "wpDestroyed ?p = wpDestroyed p"
    "wpPending ?p = wpPending p"
    by (simp_all add: pool_defs)
  have entry: "weTask (wpEntry ?p v) = weTask (wpEntry p v)" "weReady (wpEntry p v) \<Longrightarrow> weReady (wpEntry ?p v)"
    "exited ?p v = exited p v" "posted ?p v = posted p v" "v \<ge> wpNextThread p \<Longrightarrow> wpEntry ?p v = wpEntry p v"
    "weTimer (wpEntry ?p v) \<Longrightarrow> weTimer (wpEntry p v) \<or> v \<in> set (wpIdle p)" for v
    using assms(2-7) by (auto simp: set_entry_def split: if_splits)
  have "weTimer (wpEntry ?p v) \<Longrightarrow> v \<in> set (wpIdle p)" for v
    using entry(6)[of v] assms(1) by (auto simp: base_def' workers_ok_def)
  note entry = entry(1-5) this
  have "tasks_ok ?p" using assms(1) unfolding base_def' tasks_ok_def fields entry by simp
  moreover have "workers_ok ?p" "posted_ok H ?p"
    using assms(1) entry unfolding base_def' workers_ok_def posted_ok_def fields by auto
  ultimately show ?thesis
    using assms(1) unfolding base_def' ids_ok_def promises_ok_def limits_ok_def live_ids_frame fields by simp
qed

lemma base_timer:
  "base H p \<Longrightarrow> w < wpNextThread p \<Longrightarrow> w \<in> set (wpIdle p) \<or> \<not> b \<Longrightarrow> base H (set_entry w (set_timer b) p)"
  by (rule base_flag) auto

lemma base_idle:
  assumes "base H p" "free_worker p w" "weReady (wpEntry p w)"
  shows "base H (p\<lparr>wpIdle := wpIdle p @ [w]\<rparr>)"
  using assms
  unfolding base_def' ids_ok_def promises_ok_def workers_ok_def tasks_ok_def posted_ok_def limits_ok_def free_worker_def
  by (auto simp: live_ids_def queued_def queue_ok_def)

text \<open>What stays the same when only the queue is replaced.\<close>

lemma base_requeue:
  assumes "base H p" "queue_ok (p\<lparr>wpQueue := q\<rparr>)"
    "image_mset tkId (queued (p\<lparr>wpQueue := q\<rparr>)) + image_mset tkId H' = image_mset tkId (queued p) + image_mset tkId H"
  shows "base H' (p\<lparr>wpQueue := q\<rparr>)"
proof -
  have "live_ids H' (p\<lparr>wpQueue := q\<rparr>) = live_ids H p"
    using assms(3) by (simp add: live_ids_def ac_simps)
  moreover have "posted_ok H' (p\<lparr>wpQueue := q\<rparr>)"
  proof (rule posted_ok_mono)
    show "posted_ok H p" using assms(1) by (simp add: base_def)
    show "set_mset (image_mset tkId (queued (p\<lparr>wpQueue := q\<rparr>)) + image_mset tkId H') \<subseteq>
      set_mset (image_mset tkId (queued p) + image_mset tkId H)"
      unfolding assms(3) by (rule subset_refl)
  qed simp_all
  ultimately show ?thesis
    using assms(1,2)
    unfolding base_def' ids_ok_def promises_ok_def workers_ok_def tasks_ok_def limits_ok_def by simp
qed

lemma base_pop:
  assumes "base H p" "queued p \<noteq> {#}"
  obtains t q where "queue_pop p = (Some t, p\<lparr>wpQueue := q\<rparr>)" "base (add_mset t H) (p\<lparr>wpQueue := q\<rparr>)"
    "queued p = add_mset t (queued (p\<lparr>wpQueue := q\<rparr>))" "is_least taskCmp t (queued p)"
proof -
  have ok: "queue_ok p" "size (queued p) \<le> 2 ^ 29" using assms(1) queued_size[of H p] by (auto simp: base_def')
  obtain t q where q: "queue_pop p = (Some t, p\<lparr>wpQueue := q\<rparr>)" "queue_ok (p\<lparr>wpQueue := q\<rparr>)"
    "queued p = add_mset t (queued (p\<lparr>wpQueue := q\<rparr>))" "is_least taskCmp t (queued p)"
    using ok assms(2) by (rule pop_queued)
  have "base (add_mset t H) (p\<lparr>wpQueue := q\<rparr>)" by (rule base_requeue[OF assms(1) q(2)]) (simp add: q(3))
  then show ?thesis using that q by blast
qed

lemma base_push:
  assumes "base (add_mset t H) p"
  obtains q where "queue_push t p = p\<lparr>wpQueue := q\<rparr>" "base H (p\<lparr>wpQueue := q\<rparr>)"
    "queued (p\<lparr>wpQueue := q\<rparr>) = add_mset t (queued p)"
proof -
  have "queue_ok p" "size (queued p) < 2 ^ 29" using assms queued_size[of "add_mset t H" p] by (auto simp: base_def')
  then obtain q where q: "queue_push t p = p\<lparr>wpQueue := q\<rparr>" "queue_ok (p\<lparr>wpQueue := q\<rparr>)"
    "queued (p\<lparr>wpQueue := q\<rparr>) = add_mset t (queued p)"
    by (rule push_queued)
  have "base H (p\<lparr>wpQueue := q\<rparr>)" by (rule base_requeue[OF assms q(2)]) (simp add: q(3))
  then show ?thesis using that q by blast
qed

text \<open>\<open>dequeueNextValid\<close> takes the first unaborted task in the order of priority and submission.\<close>

definition next_valid :: "('d, 'r, 'e) pool \<Rightarrow> 'd task \<Rightarrow> bool" where
  "next_valid p t \<longleftrightarrow> t \<in># queued p \<and> tkId t \<notin> wpAborted p \<and>
     (\<forall>u \<in># queued p. tkId u \<notin> wpAborted p \<longrightarrow> taskCmp t u \<le> 0)"

lemma dequeueNextValid_base:
  assumes "base H p" "aborted_ok p" "dequeueNextValid p = (r, p1)"
  shows "\<exists>q n. p1 = p\<lparr>wpQueue := q, wpAbortedQueued := n\<rparr> \<and> aborted_ok p1 \<and>
    (case r of None \<Rightarrow> base H p1 \<and> queued p1 = {#} \<and> (\<forall>u \<in># queued p. tkId u \<in> wpAborted p)
     | Some t \<Rightarrow> base (add_mset t H) p1 \<and> next_valid p t \<and> queued p1 \<subset># queued p)"
  using assms
proof (induction p arbitrary: r p1 rule: dequeueNextValid.induct)
  case (1 p)
  note unf = dequeueNextValid.simps[of p]
  have qok: "queue_ok p" using 1(2) by (simp add: base_def')
  show ?case
  proof (cases "queued p = {#}")
    case True
    then have "r = None" "p1 = p" using 1(4) queue_size_pos[OF qok] by (auto simp: unf)
    then show ?thesis
      using 1(2,3) True by (intro exI[of _ "wpQueue p"] exI[of _ "wpAbortedQueued p"]) simp
  next
    case False
    then have pos: "0 < queue_size p" using queue_size_pos[OF qok] by simp
    obtain t q where q: "queue_pop p = (Some t, p\<lparr>wpQueue := q\<rparr>)" "base (add_mset t H) (p\<lparr>wpQueue := q\<rparr>)"
      "queued p = add_mset t (queued (p\<lparr>wpQueue := q\<rparr>))" "is_least taskCmp t (queued p)"
      using 1(2) False by (rule base_pop)
    show ?thesis
    proof (cases "tkId t \<in> wpAborted p")
      case fine: False
      then have r: "r = Some t" "p1 = p\<lparr>wpQueue := q\<rparr>" using 1(4) pos q(1) by (auto simp: unf)
      have "aborted_ok p1" using 1(3) fine by (simp add: r(2) aborted_ok_def q(3))
      moreover have "next_valid p t" using q(4) fine by (auto simp: next_valid_def is_least_def)
      moreover have "p1 = p\<lparr>wpQueue := q, wpAbortedQueued := wpAbortedQueued p\<rparr>" using r(2) by simp
      moreover have "queued p1 \<subset># queued p" using q(3) r(2) by simp
      ultimately show ?thesis using q(2) r by (intro exI[of _ q] exI[of _ "wpAbortedQueued p"]) simp
    next
      case aborted: True
      let ?p = "p\<lparr>wpQueue := q, wpAbortedQueued := wpAbortedQueued p - 1\<rparr>"
      have "settle_unless_aborted (tkId t) (Rejected PoolDestroyed) (p\<lparr>wpQueue := q\<rparr>) = p\<lparr>wpQueue := q\<rparr>"
        using aborted by (simp add: settle_unless_aborted_def)
      then have "base H (p\<lparr>wpQueue := q\<rparr>)" using base_settle[OF q(2), of "Rejected PoolDestroyed"] by simp
      then have b: "base H ?p" by (rule base_cong) simp_all
      have ql: "queued ?p = queued (p\<lparr>wpQueue := q\<rparr>)" by (simp add: queued_def)
      have a: "aborted_ok ?p" using 1(3) aborted unfolding aborted_ok_def ql q(3) by simp
      have d: "dequeueNextValid ?p = (r, p1)" using 1(4) pos q(1) aborted by (simp add: unf)
      have ab: "wpAbortedQueued (p\<lparr>wpQueue := q\<rparr>) = wpAbortedQueued p" by simp
      have na: "\<not> tkId t \<notin> wpAborted (p\<lparr>wpQueue := q\<rparr>)" using aborted by simp
      have IH: "\<exists>q' n. p1 = ?p\<lparr>wpQueue := q', wpAbortedQueued := n\<rparr> \<and> aborted_ok p1 \<and>
        (case r of None \<Rightarrow> base H p1 \<and> queued p1 = {#} \<and> (\<forall>u \<in># queued ?p. tkId u \<in> wpAborted ?p)
         | Some t \<Rightarrow> base (add_mset t H) p1 \<and> next_valid ?p t \<and> queued p1 \<subset># queued ?p)"
        by (rule 1(1)[OF pos q(1)[symmetric] refl na, unfolded ab, OF b a d])
      have nv: "next_valid ?p u \<Longrightarrow> next_valid p u" for u
        using aborted by (auto simp: next_valid_def q(3) ql)
      have sub: "M \<subset># queued ?p \<Longrightarrow> M \<subset># queued p" for M
        unfolding ql q(3) by (metis multi_psub_of_add_self subset_mset.less_trans)
      show ?thesis using IH nv sub aborted by (cases r) (auto simp: q(3) ql)
    qed
  qed
qed

text \<open>Rejecting everything queued leaves the rest alone.\<close>

lemma reject_queued_base:
  assumes "base H p"
  shows "\<exists>q L S. reject_queued r p = p\<lparr>wpQueue := q, wpListening := L, wpSettled := S\<rparr> \<and>
    base H (reject_queued r p) \<and> queued (reject_queued r p) = {#}"
  using assms
proof (induction r p rule: reject_queued.induct)
  case (1 r p)
  note unf = reject_queued.simps[of r p]
  have qok: "queue_ok p" using 1(2) by (simp add: base_def')
  show ?case
  proof (cases "queued p = {#}")
    case True
    then have "reject_queued r p = p" using queue_size_pos[OF qok] by (simp add: unf)
    then show ?thesis
      using 1(2) True by (intro exI[of _ "wpQueue p"] exI[of _ "wpListening p"] exI[of _ "wpSettled p"]) simp
  next
    case False
    then have pos: "0 < queue_size p" using queue_size_pos[OF qok] by simp
    obtain t q where q: "queue_pop p = (Some t, p\<lparr>wpQueue := q\<rparr>)" "base (add_mset t H) (p\<lparr>wpQueue := q\<rparr>)"
      using 1(2) False by (rule base_pop)
    let ?p = "reject_unless_aborted (tkId t) r (p\<lparr>wpQueue := q\<rparr>)"
    obtain L S where p: "?p = p\<lparr>wpQueue := q, wpListening := L, wpSettled := S\<rparr>"
    proof -
      have "\<exists>L S. ?p = p\<lparr>wpQueue := q, wpListening := L, wpSettled := S\<rparr>"
      proof (cases "tkId t \<in> wpAborted p")
        case True
        then show ?thesis
          by (intro exI[of _ "wpListening p"] exI[of _ "wpSettled p"]) (simp add: settle_unless_aborted_def)
      qed (auto simp: settle_unless_aborted_def settle_def)
      then show ?thesis using that by blast
    qed
    have "reject_queued r p = reject_queued r ?p" using pos q(1) by (simp add: unf)
    moreover have "\<exists>q' L' S'. reject_queued r ?p = ?p\<lparr>wpQueue := q', wpListening := L', wpSettled := S'\<rparr> \<and>
        base H (reject_queued r ?p) \<and> queued (reject_queued r ?p) = {#}"
      by (rule 1(1)[OF pos q(1)[symmetric] refl base_settle[OF q(2)]])
    ultimately show ?thesis unfolding p by auto
  qed
qed

text \<open>A new thread is registered.\<close>

lemma spawn_base:
  assumes "base H p" "room_for_worker p" "spawnWorker p = (w, p1)"
  shows "base H p1" "free_worker p1 w" "w = wpNextThread p" "wpEntry p1 w = fresh_entry"
    "wpWorkers p1 = wpWorkers p @ [w]" "wpIdle p1 = wpIdle p" "queued p1 = queued p" "aborted_ok p1 = aborted_ok p"
    "p1 = p\<lparr>wpNextThread := w + 1, wpEntry := (wpEntry p)(w := fresh_entry), wpWorkers := wpWorkers p @ [w]\<rparr>"
proof -
  show p1: "p1 = p\<lparr>wpNextThread := w + 1, wpEntry := (wpEntry p)(w := fresh_entry), wpWorkers := wpWorkers p @ [w]\<rparr>"
    and w: "w = wpNextThread p"
    using assms(3) by (auto simp: spawnWorker_def Let_def)
  show q: "queued p1 = queued p" by (simp add: p1 queued_def)
  then show "aborted_ok p1 = aborted_ok p" by (simp add: p1 aborted_ok_def)
  show "wpEntry p1 w = fresh_entry" "wpWorkers p1 = wpWorkers p @ [w]" "wpIdle p1 = wpIdle p" by (simp_all add: p1)
  have old: "v < w" if "v \<in> set (wpWorkers p)" for v using assms(1) that w by (auto simp: base_def' workers_ok_def)
  have idle: "v \<in> set (wpWorkers p)" if "v \<in> set (wpIdle p)" for v
    using assms(1) that by (auto simp: base_def' workers_ok_def)
  have same: "wpEntry p1 v = wpEntry p v" for v
    using assms(1) w by (cases "v = w") (auto simp: p1 base_def' workers_ok_def)
  show "free_worker p1 w" using old idle by (auto simp: free_worker_def p1 fresh_entry_def)
  have none: "weTask (wpEntry p w) = None" "\<not> exited p w"
    using assms(1) w by (auto simp: base_def' workers_ok_def fresh_entry_def)
  have "workers_ok p1"
    using assms(1,2) old none same unfolding base_def' workers_ok_def room_for_worker_def
    by (auto simp: p1 w simp del: fun_upd_apply)
  moreover have "tasks_ok p1"
    using assms(1) none same unfolding base_def' tasks_ok_def by (auto simp: p1 simp del: fun_upd_apply)
  moreover have "posted_ok H p1"
  proof (rule posted_ok_mono)
    show "posted_ok H p" using assms(1) by (simp add: base_def)
  qed (simp_all add: same q, auto simp: p1)
  moreover have "queue_ok p1 = queue_ok p" "live_ids H p1 = live_ids H p"
    using q by (simp_all add: queue_ok_def live_ids_def p1)
  ultimately show "base H p1"
    using assms(1) unfolding base_def' ids_ok_def promises_ok_def limits_ok_def by (simp add: p1)
qed

definition core :: "'d task multiset \<Rightarrow> ('d, 'r, 'e) pool \<Rightarrow> bool" where
  "core H p \<longleftrightarrow> base H p \<and> aborted_ok p"

text \<open>What dispatching through worker \<open>w\<close> may change, and how it ends: \<open>w\<close> works, or the queue is empty and \<open>w\<close> idles.\<close>

definition idle_or_busy :: "nat \<Rightarrow> ('d, 'r, 'e) pool \<Rightarrow> ('d, 'r, 'e) pool \<Rightarrow> bool" where
  "idle_or_busy w p p' \<longleftrightarrow>
     (wpIdle p' = wpIdle p \<and> (\<exists>t. weTask (wpEntry p' w) = Some t \<and> posted p' w = [tkId t]) \<or>
      wpIdle p' = wpIdle p @ [w] \<and> queued p' = {#} \<and> weTask (wpEntry p' w) = None)"

definition dispatched :: "nat \<Rightarrow> ('d, 'r, 'e) pool \<Rightarrow> ('d, 'r, 'e) pool \<Rightarrow> bool" where
  "dispatched w p p' \<longleftrightarrow>
     wpWorkers p' = wpWorkers p \<and> wpNextTaskId p' = wpNextTaskId p \<and> wpNextThread p' = wpNextThread p \<and>
     wpMaxThreads p' = wpMaxThreads p \<and> wpMinThreads p' = wpMinThreads p \<and>
     (\<forall>v. v \<noteq> w \<longrightarrow> wpEntry p' v = wpEntry p v) \<and> weReady (wpEntry p' w) = weReady (wpEntry p w) \<and>
     thError (weThread (wpEntry p' w)) = thError (weThread (wpEntry p w)) \<and> (wpDrain p' \<longrightarrow> wpDrain p \<and> wpPending p' \<noteq> []) \<and>
     (wpDrainsResolved p' \<noteq> wpDrainsResolved p \<longrightarrow> queued p' = {#} \<and> wpPending p' = [])"

text \<open>Steps before the dispatch that keep what \<^const>\<open>dispatched\<close> compares.\<close>

definition unmoved :: "nat \<Rightarrow> ('d, 'r, 'e) pool \<Rightarrow> ('d, 'r, 'e) pool \<Rightarrow> bool" where
  "unmoved w p q \<longleftrightarrow>
     wpWorkers q = wpWorkers p \<and> wpIdle q = wpIdle p \<and> wpNextTaskId q = wpNextTaskId p \<and> wpNextThread q = wpNextThread p \<and>
     wpMaxThreads q = wpMaxThreads p \<and> wpMinThreads q = wpMinThreads p \<and>
     (\<forall>v. v \<noteq> w \<longrightarrow> wpEntry q v = wpEntry p v) \<and> weReady (wpEntry q w) = weReady (wpEntry p w) \<and>
     thError (weThread (wpEntry q w)) = thError (weThread (wpEntry p w)) \<and> (wpDrain q \<longrightarrow> wpDrain p) \<and>
     wpDrainsResolved q = wpDrainsResolved p"

lemma unmoved_dispatched:
  "unmoved w p q \<Longrightarrow> dispatched w q p' \<Longrightarrow> dispatched w p p'"
  "unmoved w p q \<Longrightarrow> idle_or_busy w q p' \<Longrightarrow> idle_or_busy w p p'"
  unfolding unmoved_def dispatched_def idle_or_busy_def by auto

lemma unmoved_refl: "unmoved w p p"
  by (simp add: unmoved_def)

lemma free_frame:
  "free_worker p w \<Longrightarrow> unmoved w p q \<Longrightarrow> weTask (wpEntry q w) = None \<Longrightarrow> posted q w = [] \<Longrightarrow> free_worker q w"
  by (auto simp: free_worker_def unmoved_def)

lemma base_worker_known: "base H p \<Longrightarrow> w \<in> set (wpWorkers p) \<Longrightarrow> w < wpNextThread p"
  by (auto simp: base_def' workers_ok_def)

lemma go_idle:
  assumes "core {#} p" "free_worker p w" "weReady (wpEntry p w)" "queued p = {#}"
    "p2 = p\<lparr>wpIdle := wpIdle p @ [w]\<rparr>" "p3 = (if b then set_entry w (set_timer True) p2 else p2)"
    "p' = (if wpDrain p3 then maybeResolveDrain p3 else p3)"
  shows "core {#} p'" "dispatched w p p'" "idle_or_busy w p p'"
proof -
  have w: "w < wpNextThread p2" "w \<in> set (wpWorkers p)" "w \<in> set (wpIdle p2)"
    using assms(1,2,5) base_worker_known[of "{#}" p w] by (auto simp: core_def free_worker_def)
  have p2: "base {#} p2" using assms(1-3,5) base_idle[of "{#}" p w] by (simp add: core_def)
  then have p3: "base {#} p3" using base_timer[OF p2 w(1), of True] w(3) assms(6) by simp
  have qp: "queued p3 = {#}" using assms(4-6) by (auto simp: queued_def set_entry_def)
  have zero: "queue_size p3 = 0" using p3 qp queue_size_zero[of p3] by (simp add: base_def')
  have p': "p' = p3 \<or> p' = p3\<lparr>wpDrain := False, wpDrainsResolved := wpDrainsResolved p3 + 1\<rparr> \<and> wpPending p3 = []"
    "wpDrain p' \<longrightarrow> wpPending p3 \<noteq> []"
    using assms(7) zero by (auto simp: maybeResolveDrain_def)
  have "base {#} p'" using p'(1) base_cong[OF p3, of p'] p3 by auto
  moreover have q': "queued p' = {#}" using p'(1) qp by (auto simp: queued_def)
  moreover have "aborted_ok p'"
    using assms(1,4-6) p'(1) q' by (auto simp: aborted_ok_def core_def set_entry_def)
  ultimately show "core {#} p'" by (simp add: core_def)
  show "dispatched w p p'" using p' q' assms(5,6) by (auto simp: dispatched_def set_entry_def split: if_splits)
  show "idle_or_busy w p p'"
    using p' q' assms(2,5,6) by (auto simp: idle_or_busy_def set_entry_def free_worker_def split: if_splits)
qed

lemma dispatch_core:
  "core {#} p \<Longrightarrow> free_worker p w \<Longrightarrow> weReady (wpEntry p w) \<Longrightarrow>
     core {#} (markWorkerIdle post w p) \<and> dispatched w p (markWorkerIdle post w p) \<and>
     idle_or_busy w p (markWorkerIdle post w p)"
  "core {#t#} p \<Longrightarrow> free_worker p w \<Longrightarrow> weReady (wpEntry p w) \<Longrightarrow>
     core {#} (dispatchTask post w t p) \<and> dispatched w p (dispatchTask post w t p) \<and>
     idle_or_busy w p (dispatchTask post w t p)"
  "core {#} p \<Longrightarrow> weTask (wpEntry p w) = Some t \<Longrightarrow> posted p w = [] \<Longrightarrow> weReady (wpEntry p w) \<Longrightarrow>
     w \<notin> set (wpIdle p) \<Longrightarrow>
     core {#} (postTask post w t p) \<and> dispatched w p (postTask post w t p) \<and>
     idle_or_busy w p (postTask post w t p)"
proof (induction post w p and post w t p and post w t p
    rule: markWorkerIdle_dispatchTask_postTask.induct)
  case (1 post w p)
  obtain r p1 where d: "dequeueNextValid p = (r, p1)" by fastforce
  have c: "base {#} p" "aborted_ok p" using 1(2) by (auto simp: core_def)
  obtain q n where p1: "p1 = p\<lparr>wpQueue := q, wpAbortedQueued := n\<rparr>" and a: "aborted_ok p1"
    and r: "case r of None \<Rightarrow> base {#} p1 \<and> queued p1 = {#} \<and> (\<forall>u \<in># queued p. tkId u \<in> wpAborted p)
     | Some t \<Rightarrow> base (add_mset t {#}) p1 \<and> next_valid p t \<and> queued p1 \<subset># queued p"
    using dequeueNextValid_base[OF c d] by auto
  have un: "unmoved w p p1" by (simp add: p1 unmoved_def)
  have free: "free_worker p1 w" "weReady (wpEntry p1 w)"
    using 1(3,4) by (simp_all add: p1 free_worker_def)
  show ?case
  proof (cases r)
    case (Some t)
    have "core {#t#} p1" using r a Some by (simp add: core_def)
    then have "core {#} (dispatchTask post w t p1) \<and> dispatched w p1 (dispatchTask post w t p1) \<and>
        idle_or_busy w p1 (dispatchTask post w t p1)"
      using 1(1)[OF d[symmetric] Some] free by simp
    moreover have "markWorkerIdle post w p = dispatchTask post w t p1"
      using d Some by (simp add: markWorkerIdle.simps[of post w p])
    ultimately show ?thesis using unmoved_dispatched[OF un] by simp
  next
    case None
    have c1: "core {#} p1" "queued p1 = {#}" using r a None by (simp_all add: core_def)
    have m: "markWorkerIdle post w p =
      (let p2 = p1\<lparr>wpIdle := wpIdle p1 @ [w]\<rparr>;
           p3 = (if wpIdleTimeout p2 > 0 \<and> int (length (wpWorkers p2)) > wpMinThreads p2
                 then set_entry w (set_timer True) p2 else p2)
       in if wpDrain p3 then maybeResolveDrain p3 else p3)"
      using d None by (simp add: markWorkerIdle.simps[of post w p])
    show ?thesis
      using go_idle[OF c1(1) free c1(2) refl refl refl] unmoved_dispatched[OF un] unfolding m Let_def by blast
  qed
next
  case (2 post w t p)
  let ?p = "set_pending t (set_entry w (set_task (Some t)) p)"
  have "base {#} ?p" using base_assign[OF _ 2(3)] 2(2) by (simp add: core_def)
  then have c: "core {#} ?p" using 2(2) by (simp add: core_def)
  have un: "unmoved w p ?p" by (simp add: unmoved_def pool_defs)
  have "core {#} (postTask post w t ?p) \<and> dispatched w ?p (postTask post w t ?p) \<and>
      idle_or_busy w ?p (postTask post w t ?p)"
    by (rule 2(1)[OF c]) (use 2(3,4) in \<open>simp_all add: pool_defs free_worker_def\<close>)
  then show ?case using unmoved_dispatched[OF un] by (simp add: dispatchTask.simps[of post w t p])
next
  case (3 post w t p)
  obtain e p1 where s: "sendTask post w t p = (e, p1)" by fastforce
  have b: "base {#} p" "aborted_ok p" using 3(2) by (auto simp: core_def)
  show ?case
  proof (cases e)
    case None
    then have post: "postTask post w t p = p1" using s by (simp add: postTask.simps[of post w t p])
    have b1: "base {#} p1" by (rule base_post[OF b(1) 3(3,5,4)]) (use s None in simp)
    have p1: "p1 = set_entry w (\<lambda>e. e\<lparr>weThread := (weThread e)\<lparr>thPosted := thPosted (weThread e) @ [tkId t]\<rparr>\<rparr>) p"
      using s None by (auto simp: sendTask_def split: option.splits)
    have "(tkId t, t) \<in> set (wpPending p)" using b(1) 3(3) by (auto simp: base_def' tasks_ok_def)
    then show ?thesis
      using b1 b(2) 3(3,4) unfolding post
      by (auto simp: core_def p1 dispatched_def idle_or_busy_def) (auto simp: set_entry_def)
  next
    case (Some err)
    then have p1: "p1 = p" using s by (auto simp: sendTask_def split: option.splits)
    let ?u = "delete_pending (tkId t) (set_entry w (set_task None) p)"
    let ?p = "reject_unless_aborted (tkId t) (Thrown err) ?u"
    have b0: "base {#t#} ?u" by (rule base_unassign[OF b(1) 3(3,4)])
    then have "base {#} ?p" using base_settle[of t "{#}" ?u] by simp
    then have c: "core {#} ?p" using b(2) by (simp add: core_def)
    have un: "unmoved w p ?p" by (simp add: unmoved_def pool_defs)
    have "w \<in> set (wpWorkers p)" using b(1) 3(3) by (auto simp: base_def' tasks_ok_def)
    then have free: "free_worker ?p w" "weReady (wpEntry ?p w)"
      using 3(4-6) by (simp_all add: free_worker_def pool_defs)
    have "postTask post w t p = markWorkerIdle post w ?p"
      using s Some p1 by (simp add: postTask.simps[of post w t p])
    moreover have "core {#} (markWorkerIdle post w ?p) \<and> dispatched w ?p (markWorkerIdle post w ?p) \<and>
        idle_or_busy w ?p (markWorkerIdle post w ?p)"
      using 3(1)[OF s[symmetric] Some] c free p1 by simp
    ultimately show ?thesis using unmoved_dispatched[OF un] by simp
  qed
qed

text \<open>The top of the idle stack is taken off, and its timer stopped.\<close>

lemma base_unidle:
  assumes "base H p" "wpIdle p = ws @ [w]"
  shows "base H (set_entry w (set_timer False) (p\<lparr>wpIdle := ws\<rparr>))"
proof -
  let ?q = "set_entry w (set_timer False) (p\<lparr>wpIdle := ws\<rparr>)"
  have q: "queued ?q = queued p" "queue_ok ?q = queue_ok p" "queued (p\<lparr>wpIdle := ws\<rparr>) = queued p"
    by (simp_all add: set_entry_def queued_def queue_ok_def)
  have e: "weTimer (wpEntry ?q v) \<longleftrightarrow> weTimer (wpEntry p v) \<and> v \<noteq> w" "weTask (wpEntry ?q v) = weTask (wpEntry p v)"
    "weReady (wpEntry ?q v) = weReady (wpEntry p v)" "weThread (wpEntry ?q v) = weThread (wpEntry p v)" for v
    by (simp_all add: set_entry_def)
  have f: "wpWorkers ?q = wpWorkers p" "wpIdle ?q = ws" "wpNextThread ?q = wpNextThread p" "wpMaxThreads ?q = wpMaxThreads p"
    "wpPending ?q = wpPending p" "wpNextTaskId ?q = wpNextTaskId p" "wpListening ?q = wpListening p"
    "wpAborted ?q = wpAborted p" "wpSettled ?q = wpSettled p" "wpMinThreads ?q = wpMinThreads p"
    "wpDestroyed ?q = wpDestroyed p"
    by (simp_all add: set_entry_def)
  have W: "workers_ok p" and P: "posted_ok H p" using assms(1) by (auto simp: base_def')
  have lt: "w < wpNextThread p" using W assms(2) by (simp add: workers_ok_def)
  have old: "wpEntry ?q v = fresh_entry" if "wpNextThread p \<le> v" for v
    using that W lt by (auto simp: workers_ok_def set_entry_def)
  have "workers_ok ?q"
    using W old unfolding workers_ok_def e f assms(2) by auto
  moreover have "posted_ok H ?q" by (rule posted_ok_mono[OF P]) (simp_all add: e f q)
  moreover have "live_ids H ?q = live_ids H p" by (simp add: live_ids_def q f)
  ultimately show ?thesis
    using assms(1) unfolding base_def' ids_ok_def promises_ok_def tasks_ok_def limits_ok_def e f q by simp
qed

lemma popIdleWorker_core:
  assumes "core H p" "popIdleWorker p = (r, p1)"
  shows "case r of None \<Rightarrow> p1 = p \<and> wpIdle p = []
    | Some w \<Rightarrow> core H p1 \<and> free_worker p1 w \<and> weReady (wpEntry p1 w) \<and> wpIdle p = wpIdle p1 @ [w] \<and>
        queued p1 = queued p \<and> wpPending p1 = wpPending p \<and> wpAborted p1 = wpAborted p \<and>
        dispatched w p (p1\<lparr>wpDrain := False\<rparr>) \<and> wpDrain p1 = wpDrain p \<and> wpDrainsResolved p1 = wpDrainsResolved p"
proof (cases "wpIdle p" rule: rev_cases)
  case Nil
  then show ?thesis using assms(2) by (auto simp: popIdleWorker.simps[of p])
next
  case (snoc ws w)
  let ?q = "set_entry w (set_timer False) (p\<lparr>wpIdle := ws\<rparr>)"
  have b: "base H p" "aborted_ok p" "workers_ok p" using assms(1) by (auto simp: core_def base_def')
  then have top: "weReady (wpEntry p w)" "weTask (wpEntry p w) = None" "posted p w = []" "w \<in> set (wpWorkers p)"
    "w \<notin> set ws"
    using snoc by (auto simp: workers_ok_def)
  have "\<not> weTimer (wpEntry p w) \<Longrightarrow> set_timer False (wpEntry p w) = wpEntry p w" by (cases "wpEntry p w") simp
  then have "?q = p\<lparr>wpIdle := ws\<rparr>" if "\<not> weTimer (wpEntry p w)"
    using that unfolding set_entry_def by (simp add: fun_upd_idem)
  then have r: "r = Some w" and p1: "p1 = ?q"
    using assms(2) snoc top by (auto simp: popIdleWorker.simps[of p] Let_def split: if_splits)
  have "queued p1 = queued p" by (simp add: p1) (simp add: queued_def)
  then have "aborted_ok p1" using b(2) by (simp add: aborted_ok_def p1) (simp add: set_entry_def)
  then have "core H p1" using base_unidle[OF b(1) snoc] by (simp add: core_def p1)
  moreover have "free_worker p1 w" "weReady (wpEntry p1 w)" using top by (auto simp: p1 free_worker_def set_entry_def)
  moreover have "wpIdle p1 = ws" "wpPending p1 = wpPending p" "wpAborted p1 = wpAborted p"
    "wpDrain p1 = wpDrain p" "wpDrainsResolved p1 = wpDrainsResolved p"
    by (simp_all add: p1 set_entry_def)
  moreover have "dispatched w p (p1\<lparr>wpDrain := False\<rparr>)" by (simp add: p1 dispatched_def set_entry_def)
  ultimately show ?thesis using snoc \<open>queued p1 = queued p\<close> by (simp add: r)
qed

text \<open>A worker is of use: it idles, starts up, works on a posted task, or has raised \<open>error\<close> and will exit.\<close>

definition of_use :: "('d, 'r, 'e) pool \<Rightarrow> nat \<Rightarrow> bool" where
  "of_use p w \<longleftrightarrow> w \<in> set (wpIdle p) \<or> \<not> weReady (wpEntry p w) \<or> thError (weThread (wpEntry p w)) \<or>
     (\<exists>t. weTask (wpEntry p w) = Some t \<and> posted p w = [tkId t])"

text \<open>A thread that is still starting up is registered.\<close>

definition starting_known :: "('d, 'r, 'e) pool \<Rightarrow> bool" where
  "starting_known p \<longleftrightarrow>
     (\<forall>w < wpNextThread p. \<not> weReady (wpEntry p w) \<longrightarrow> \<not> exited p w \<longrightarrow> w \<in> set (wpWorkers p))"

definition all_of_use :: "('d, 'r, 'e) pool \<Rightarrow> bool" where
  "all_of_use p \<longleftrightarrow> (\<forall>w \<in> set (wpWorkers p). of_use p w) \<and> starting_known p"

lemma dispatched_of_use:
  assumes "\<forall>v \<in> set (wpWorkers p). v = w \<or> of_use p v" "dispatched w p p'" "idle_or_busy w p p'"
    "starting_known p" "w \<in> set (wpWorkers p)"
  shows "all_of_use p'"
proof -
  have "of_use p' v" if v: "v \<in> set (wpWorkers p')" for v
  proof (cases "v = w")
    case True
    then show ?thesis using assms(3) by (auto simp: of_use_def idle_or_busy_def)
  next
    case False
    then show ?thesis using assms(1-3) v by (auto simp: of_use_def idle_or_busy_def dispatched_def)
  qed
  moreover have "v \<in> set (wpWorkers p')"
    if "v < wpNextThread p'" "\<not> weReady (wpEntry p' v)" "\<not> exited p' v" for v
    using that assms(2,4,5) by (cases "v = w") (auto simp: dispatched_def starting_known_def)
  ultimately show ?thesis by (simp add: all_of_use_def starting_known_def)
qed

text \<open>No task waits in the queue while a worker idles or another may be spawned.\<close>

definition busy_if_queued :: "('d, 'r, 'e) pool \<Rightarrow> bool" where
  "busy_if_queued p \<longleftrightarrow> (queued p \<noteq> {#} \<longrightarrow> wpIdle p = [] \<and> int (length (wpWorkers p)) = wpMaxThreads p)"

text \<open>What the loop of \<open>tryDispatch\<close> keeps.\<close>

definition advanced :: "('d, 'r, 'e) pool \<Rightarrow> ('d, 'r, 'e) pool \<Rightarrow> bool" where
  "advanced p p' \<longleftrightarrow> wpNextTaskId p' = wpNextTaskId p \<and> wpMaxThreads p' = wpMaxThreads p \<and>
     wpMinThreads p' = wpMinThreads p \<and> wpNextThread p \<le> wpNextThread p' \<and>
     (wpDrain p' \<longrightarrow> wpDrain p) \<and>
     (wpDrainsResolved p' \<noteq> wpDrainsResolved p \<longrightarrow> queued p' = {#} \<and> wpPending p' = [])"

definition to_drain :: "('d, 'r, 'e) pool \<Rightarrow> bool" where
  "to_drain p \<longleftrightarrow> (wpDrain p \<longrightarrow> wpPending p \<noteq> [] \<or> (\<exists>u \<in># queued p. tkId u \<notin> wpAborted p))"

lemma advanced_trans:
  assumes "advanced p d" "advanced d p'" "queued d = {#} \<Longrightarrow> p' = d"
  shows "advanced p p'"
proof (cases "queued d = {#}")
  case False
  then have "wpDrainsResolved d = wpDrainsResolved p" using assms(1) by (auto simp: advanced_def)
  then show ?thesis using assms(1,2) by (simp add: advanced_def)
qed (use assms in simp)

lemma spawn_with_core:
  assumes "core {#t#} p" "room_for_worker p"
  shows "core {#} (spawn_with t p)" "wpPending (spawn_with t p) \<noteq> []" "all_of_use p \<Longrightarrow> all_of_use (spawn_with t p)"
    "advanced p (spawn_with t p)" "wpIdle (spawn_with t p) = wpIdle p"
proof -
  obtain w p1 where s: "spawnWorker p = (w, p1)" by fastforce
  have b: "base {#t#} p" "aborted_ok p" using assms(1) by (auto simp: core_def)
  note sp = spawn_base[OF b(1) assms(2) s]
  have def1: "spawn_with t p = set_pending t (set_entry w (set_task (Some t)) p1)" using s by (simp add: spawn_with_def)
  have "base {#} (spawn_with t p)" unfolding def1 by (rule base_assign[OF _ sp(2)]) (use sp(1) in simp)
  then show "core {#} (spawn_with t p)" using b(2) sp(8) by (simp add: core_def def1)
  have "ids_ok {#t#} p1" using sp(1) by (simp add: base_def')
  then show "wpPending (spawn_with t p) \<noteq> []"
    using set_pending_new[of t "{#}" p1] by (auto simp: def1 set_pending_def set_entry_def)
  have fields: "wpWorkers (spawn_with t p) = wpWorkers p @ [w]" "wpIdle (spawn_with t p) = wpIdle p"
    "wpDrain (spawn_with t p) = wpDrain p" "wpDrainsResolved (spawn_with t p) = wpDrainsResolved p"
    "wpEntry (spawn_with t p) v = (if v = w then set_task (Some t) fresh_entry else wpEntry p v)" for v
    by (simp_all add: def1 sp(9) pool_defs)
  have "w \<notin> set (wpWorkers p)" using sp(3) base_worker_known[OF b(1), of w] by auto
  then show "all_of_use p \<Longrightarrow> all_of_use (spawn_with t p)"
    unfolding all_of_use_def of_use_def starting_known_def fields using sp(3)
    by (auto simp: fresh_entry_def def1 sp(9) pool_defs less_Suc_eq)
  show "advanced p (spawn_with t p)" by (simp add: advanced_def def1 sp(3,9) pool_defs)
  show "wpIdle (spawn_with t p) = wpIdle p" by (rule fields)
qed

text \<open>A task in hand goes to the worker on top of the idle stack.\<close>

lemma idle_dispatch:
  assumes "core {#t#} p" "all_of_use p" "popIdleWorker p = (Some w, p1)"
  shows "core {#} (dispatchTask post w t p1)" "all_of_use (dispatchTask post w t p1)"
    "advanced p (dispatchTask post w t p1)"
    "wpDrain (dispatchTask post w t p1) \<longrightarrow> wpPending (dispatchTask post w t p1) \<noteq> []"
proof -
  have pop: "core {#t#} p1" "free_worker p1 w" "weReady (wpEntry p1 w)" "wpIdle p = wpIdle p1 @ [w]"
    "dispatched w p (p1\<lparr>wpDrain := False\<rparr>)" "wpDrain p1 = wpDrain p" "wpDrainsResolved p1 = wpDrainsResolved p"
    using popIdleWorker_core[OF assms(1,3)] by auto
  let ?p = "dispatchTask post w t p1"
  have d: "core {#} ?p" "dispatched w p1 ?p" "idle_or_busy w p1 ?p" using dispatch_core(2)[OF pop(1-3)] by auto
  show "core {#} ?p" by (rule d)
  have "\<forall>v \<in> set (wpWorkers p1). v = w \<or> of_use p1 v"
    using assms(2) pop(4,5) by (auto simp: all_of_use_def of_use_def dispatched_def)
  moreover have "starting_known p1"
    unfolding starting_known_def
  proof (intro allI impI)
    fix v assume "v < wpNextThread p1" "\<not> weReady (wpEntry p1 v)" "\<not> exited p1 v"
    then show "v \<in> set (wpWorkers p1)"
      using assms(2) pop(2,5)
      by (cases "v = w") (auto simp: free_worker_def all_of_use_def starting_known_def dispatched_def)
  qed
  ultimately show "all_of_use ?p" using dispatched_of_use[OF _ d(2,3)] pop(2) by (simp add: free_worker_def)
  show "advanced p ?p" "wpDrain ?p \<longrightarrow> wpPending ?p \<noteq> []"
    using d(2) pop(5-7) by (auto simp: advanced_def dispatched_def)
qed

text \<open>When no worker idles, it goes to a new one, or back into the queue when there is no room.\<close>

lemma requeue_core:
  assumes "core {#t#} p" "tkId t \<notin> wpAborted p"
  obtains q where "queue_push t p = p\<lparr>wpQueue := q\<rparr>" "core {#} (p\<lparr>wpQueue := q\<rparr>)"
    "queued (p\<lparr>wpQueue := q\<rparr>) = add_mset t (queued p)"
proof -
  have c: "base {#t#} p" "aborted_ok p" using assms(1) by (auto simp: core_def)
  obtain q where q: "queue_push t p = p\<lparr>wpQueue := q\<rparr>" "base {#} (p\<lparr>wpQueue := q\<rparr>)"
    "queued (p\<lparr>wpQueue := q\<rparr>) = add_mset t (queued p)"
    using c(1) by (rule base_push)
  have "aborted_ok (p\<lparr>wpQueue := q\<rparr>)" using c(2) assms(2) by (simp add: aborted_ok_def q(3))
  then show ?thesis using that q by (simp add: core_def)
qed

lemma queue_change_of_use:
  "all_of_use (p\<lparr>wpQueue := q, wpAbortedQueued := n\<rparr>) = all_of_use p" "all_of_use (p\<lparr>wpQueue := q\<rparr>) = all_of_use p"
  "advanced p (p\<lparr>wpQueue := q, wpAbortedQueued := n\<rparr>)" "advanced p (p\<lparr>wpQueue := q\<rparr>)"
  by (simp_all add: all_of_use_def of_use_def starting_known_def advanced_def)

lemma tryDispatch_core:
  assumes "core {#} p" "all_of_use p"
  shows "core {#} (tryDispatch post p) \<and> all_of_use (tryDispatch post p) \<and> busy_if_queued (tryDispatch post p) \<and>
    advanced p (tryDispatch post p) \<and>
    (to_drain p \<and> wpDrain (tryDispatch post p) \<longrightarrow>
       wpPending (tryDispatch post p) \<noteq> [] \<or> queued (tryDispatch post p) \<noteq> {#})"
  using assms
proof (induction post p rule: tryDispatch.induct)
  case (1 post p)
  note unf = tryDispatch.simps[of post p]
  have b: "base {#} p" "aborted_ok p" "queue_ok p" using 1(3) by (auto simp: core_def base_def')
  show ?case
  proof (cases "0 < queue_size p")
    case False
    then show ?thesis
      using 1(3,4) queue_size_pos[OF b(3)] by (simp add: unf busy_if_queued_def advanced_def to_drain_def)
  next
    case pos: True
    obtain r p1 where d: "dequeueNextValid p = (r, p1)" by fastforce
    obtain q n where p1: "p1 = p\<lparr>wpQueue := q, wpAbortedQueued := n\<rparr>" and a: "aborted_ok p1"
      and r: "case r of None \<Rightarrow> base {#} p1 \<and> queued p1 = {#} \<and> (\<forall>u \<in># queued p. tkId u \<in> wpAborted p)
       | Some t \<Rightarrow> base (add_mset t {#}) p1 \<and> next_valid p t \<and> queued p1 \<subset># queued p"
      using dequeueNextValid_base[OF b(1,2) d] by auto
    have use1: "all_of_use p1" using 1(4) by (simp add: p1 queue_change_of_use)
    show ?thesis
    proof (cases r)
      case None
      then have res: "tryDispatch post p = p1" using pos d by (simp add: unf)
      have "to_drain p \<and> wpDrain p1 \<longrightarrow> wpPending p1 \<noteq> []" using r None by (auto simp: to_drain_def p1)
      moreover have "core {#} p1" "queued p1 = {#}" using r None a by (auto simp: core_def)
      ultimately show ?thesis unfolding res using use1 by (auto simp: busy_if_queued_def advanced_def p1)
    next
      case (Some t)
      have c1: "core {#t#} p1" using r Some a by (simp add: core_def)
      obtain y p2 where pop: "popIdleWorker p1 = (y, p2)" by fastforce
      show ?thesis
      proof (cases y)
        case w: (Some w)
        let ?d = "dispatchTask post w t p2"
        have res: "tryDispatch post p = tryDispatch post ?d" using pos d Some pop w by (simp add: unf)
        have st: "core {#} ?d" "all_of_use ?d" "advanced p1 ?d" "wpDrain ?d \<longrightarrow> wpPending ?d \<noteq> []"
          using idle_dispatch[OF c1 use1] pop w by auto
        then have adv: "advanced p ?d" by (simp add: advanced_def p1)
        note IH = 1(2)[OF pos d[symmetric] Some pop[symmetric] w st(1,2)]
        have same: "tryDispatch post ?d = ?d" if "queued ?d = {#}"
        proof -
          have "queue_ok ?d" using st(1) by (simp add: core_def base_def')
          then show ?thesis using queue_size_pos[of ?d] that by (simp add: tryDispatch.simps[of post ?d])
        qed
        have "to_drain ?d" using st(4) by (simp add: to_drain_def)
        moreover have "advanced p (tryDispatch post ?d)"
          using advanced_trans[OF adv _ same] IH by blast
        ultimately show ?thesis unfolding res using IH by blast
      next
        case None
        then have p2: "p2 = p1" "wpIdle p1 = []" using popIdleWorker_core[OF c1 pop] by auto
        show ?thesis
        proof (cases "room_for_worker p1")
          case True
          let ?d = "spawn_with t p1"
          have res: "tryDispatch post p = tryDispatch post ?d"
            using pos d Some pop None p2 True by (simp add: unf)
          note sp = spawn_with_core[OF c1 True]
          have room: "room_for_worker p2" using True p2 by simp
          have st: "core {#} ?d" "all_of_use ?d" "advanced p1 ?d" "wpPending ?d \<noteq> []" using sp use1 by auto
          have IH: "core {#} (tryDispatch post ?d) \<and> all_of_use (tryDispatch post ?d) \<and>
              busy_if_queued (tryDispatch post ?d) \<and> advanced ?d (tryDispatch post ?d) \<and>
              (to_drain ?d \<and> wpDrain (tryDispatch post ?d) \<longrightarrow>
                wpPending (tryDispatch post ?d) \<noteq> [] \<or> queued (tryDispatch post ?d) \<noteq> {#})"
            using 1(1)[OF pos d[symmetric] Some pop[symmetric] None room] st(1,2) p2 by simp
          have "to_drain ?d" using st(4) by (simp add: to_drain_def)
          moreover have "wpDrainsResolved ?d = wpDrainsResolved p1" using st(3,4) by (auto simp: advanced_def)
          then have "advanced p (tryDispatch post ?d)" using st(3) IH unfolding advanced_def p1 by auto
          ultimately show ?thesis unfolding res using IH by blast
        next
          case False
          then have res: "tryDispatch post p = queue_push t p1" using pos d Some pop None p2 by (simp add: unf)
          have "tkId t \<notin> wpAborted p1" using r Some by (auto simp: next_valid_def p1)
          then obtain q' where q': "queue_push t p1 = p1\<lparr>wpQueue := q'\<rparr>" "core {#} (p1\<lparr>wpQueue := q'\<rparr>)"
            "queued (p1\<lparr>wpQueue := q'\<rparr>) = add_mset t (queued p1)"
            using requeue_core[OF c1] by blast
          have "int (length (wpWorkers p1)) = wpMaxThreads p1"
            using False b(1) by (auto simp: p1 base_def' workers_ok_def room_for_worker_def)
          then show ?thesis
            unfolding res q'(1) using q'(2,3) use1 p2(2)
            by (auto simp: busy_if_queued_def queue_change_of_use) (simp add: advanced_def p1)
        qed
      qed
    qed
  qed
qed

end
