(* ===== verification/PoolRuns.thy ===== *)
theory PoolRuns
  imports PoolInvariant
begin

text \<open>
  The runs of a worker pool: every order of calls, aborts, messages, crashes, exits and timers that threads
  allow. The properties hold in every state of every run.
\<close>

section \<open>Events\<close>

datatype ('d, 'r, 'e) event =
    Run 'd "'e run_options"
  | Abort nat 'e
  | Message nat "('r, 'e) message"
  | ThreadError nat 'e
  | ThreadExit nat
  | IdleTimer nat
  | Drain
  | Destroy
  | Terminated

text \<open>The thread's side of an event: an answer is sent once, an error or an exit is remembered.\<close>

definition answered :: "nat \<Rightarrow> nat \<Rightarrow> 'd worker_entry \<Rightarrow> 'd worker_entry" where
  "answered tid w e = e\<lparr>weThread := (weThread e)\<lparr>thPosted := remove1 tid (thPosted (weThread e))\<rparr>\<rparr>"

definition errored :: "'d worker_entry \<Rightarrow> 'd worker_entry" where
  "errored e = e\<lparr>weThread := (weThread e)\<lparr>thError := True\<rparr>\<rparr>"

definition gone :: "'d worker_entry \<Rightarrow> 'd worker_entry" where
  "gone e = e\<lparr>weThread := (weThread e)\<lparr>thExited := True\<rparr>\<rparr>"

text \<open>
  \<open>WorkerPool.worker.ts\<close>: a thread sends \<open>MSG_READY\<close> once, then answers every task message once, with a
  result or an error (a result that cannot be cloned is answered by a reduced error). It may raise \<open>error\<close>
  and exit at any time, and is silent after that; messages that were under way when it raised
  \<open>error\<close> may still arrive. An idle timer may fire while it is set. The abort listener of a task
  fires at most once (\<open>once: true\<close>), and not after it is removed. A run has at most \<open>2 ^ 29\<close> tasks, since
  the index arithmetic of the heap is 32-bit.
\<close>

inductive wp_step :: "('d, 'e) poster \<Rightarrow> ('d, 'r, 'e) pool \<Rightarrow> ('d, 'r, 'e) event \<Rightarrow> ('d, 'r, 'e) pool \<Rightarrow> bool"
  for post :: "('d, 'e) poster" where
  Run: "wpNextTaskId p < 2 ^ 29 \<Longrightarrow> wp_step post p (Run d opts) (snd (wp_run post d opts p))"
| Abort: "tid \<in> wpListening p \<Longrightarrow> wp_step post p (Abort tid reason) (onAbort tid reason p)"
| Ready: "w < wpNextThread p \<Longrightarrow> \<not> exited p w \<Longrightarrow> \<not> weReady (wpEntry p w) \<Longrightarrow>
    wp_step post p (Message w MSG_READY) (handleWorkerMessage post w MSG_READY p)"
| Result: "\<not> exited p w \<Longrightarrow> tid \<in> set (posted p w) \<Longrightarrow>
    wp_step post p (Message w (MSG_RESULT tid v))
      (handleWorkerMessage post w (MSG_RESULT tid v) (set_entry w (answered tid w) p))"
| Failure: "\<not> exited p w \<Longrightarrow> tid \<in> set (posted p w) \<Longrightarrow>
    wp_step post p (Message w (MSG_ERROR tid e))
      (handleWorkerMessage post w (MSG_ERROR tid e) (set_entry w (answered tid w) p))"
| Error: "w < wpNextThread p \<Longrightarrow> \<not> exited p w \<Longrightarrow>
    wp_step post p (ThreadError w e) (handleWorkerError w e (set_entry w errored p))"
| Exit: "w < wpNextThread p \<Longrightarrow> \<not> exited p w \<Longrightarrow>
    wp_step post p (ThreadExit w) (handleWorkerExit post w (set_entry w gone p))"
| Timer: "weTimer (wpEntry p w) \<Longrightarrow> wp_step post p (IdleTimer w) (terminateIdleWorker w p)"
| Drain: "wp_step post p Drain (snd (wp_drain p))"
| Destroy: "wp_step post p Destroy (wp_destroy p)"
| Terminated: "wpDestroyed p \<Longrightarrow> wp_step post p Terminated (wp_destroyed p)"

inductive wp_reachable :: "('d, 'e) poster \<Rightarrow> ('d, 'r, 'e) pool \<Rightarrow> bool" for post :: "('d, 'e) poster" where
  Make: "wp_make parallelism config = Inr p \<Longrightarrow> wp_reachable post p"
| Step: "wp_reachable post p \<Longrightarrow> wp_step post p ev p' \<Longrightarrow> wp_reachable post p'"

inductive_cases wp_stepE: "wp_step post p ev p'"

section \<open>The invariant of a run\<close>

text \<open>While \<open>drain\<close> waits there is work, or a worker that raised \<open>error\<close> and whose exit will look again.\<close>

definition drain_ok :: "('d, 'r, 'e) pool \<Rightarrow> bool" where
  "drain_ok p \<longleftrightarrow> (wpDrain p \<longrightarrow> wpPending p \<noteq> [] \<or> queued p \<noteq> {#} \<or>
     (\<exists>w \<in> set (wpWorkers p). thError (weThread (wpEntry p w)) \<and> w \<notin> set (wpIdle p)))"

definition wp_live :: "('d, 'r, 'e) pool \<Rightarrow> bool" where
  "wp_live p \<longleftrightarrow> core {#} p \<and> all_of_use p \<and> busy_if_queued p \<and> drain_ok p"

text \<open>A destroyed pool has nothing left.\<close>

definition wp_dead :: "('d, 'r, 'e) pool \<Rightarrow> bool" where
  "wp_dead p \<longleftrightarrow> wpDestroyed p \<and> wpWorkers p = [] \<and> wpPending p = [] \<and> queue_size p = 0 \<and> 0 \<le> wpMinThreads p \<and>
     (\<forall>tid < wpNextTaskId p. wpSettled p tid \<noteq> None) \<and> wpListening p = {}"

definition wp_inv :: "('d, 'r, 'e) pool \<Rightarrow> bool" where
  "wp_inv p \<longleftrightarrow> wp_live p \<or> wp_dead p"

text \<open>A step may resolve the deferred of \<open>drain\<close> only when nothing is left to do.\<close>

definition done_if_drained :: "('d, 'r, 'e) pool \<Rightarrow> ('d, 'r, 'e) pool \<Rightarrow> bool" where
  "done_if_drained p p' \<longleftrightarrow> (wpDrainsResolved p' \<noteq> wpDrainsResolved p \<longrightarrow>
     (\<forall>tid < wpNextTaskId p'. wpSettled p' tid \<noteq> None))"

lemma all_settled:
  assumes "base {#} p" "queued p = {#}" "wpPending p = []" "tid < wpNextTaskId p"
  shows "wpSettled p tid \<noteq> None"
  using assms by (simp add: base_def' promises_ok_def live_ids_def)

lemma resolved_done:
  assumes "base {#} p'" "wpDrainsResolved p' \<noteq> wpDrainsResolved p \<longrightarrow> queued p' = {#} \<and> wpPending p' = []"
  shows "done_if_drained p p'"
  using assms all_settled by (auto simp: done_if_drained_def)

section \<open>The steps keep the invariant\<close>

subsection \<open>make and run\<close>

lemma fresh_entry_simps [simp]: "thPosted (weThread fresh_entry) = []" "weTask fresh_entry = None" "\<not> weTimer fresh_entry"
  by (simp_all add: fresh_entry_def)

lemma empty_pool_core:
  assumes "0 \<le> mn" "mn \<le> mx" "1 \<le> mx"
  shows "core {#} (empty_pool mn mx timeout)" "all_of_use (empty_pool mn mx timeout)"
    "queued (empty_pool mn mx timeout) = {#}"
proof -
  let ?p = "empty_pool mn mx timeout"
  have "pq_holds taskCmp taskCmp_code {#} (wpQueue ?p)" unfolding empty_pool_def by (simp add: pq_empty_holds)
  then have q: "queue_ok ?p" "queued ?p = {#}" by (rule queue_okI)+
  then show "queued ?p = {#}" by simp
  have f: "wpWorkers ?p = []" "wpIdle ?p = []" "wpPending ?p = []" "wpNextTaskId ?p = 0" "wpNextThread ?p = 0"
    "wpEntry ?p = (\<lambda>_. fresh_entry)" "wpSettled ?p = (\<lambda>_. None)" "wpListening ?p = {}" "wpAborted ?p = {}"
    "wpAbortedQueued ?p = 0" "wpMinThreads ?p = mn" "wpMaxThreads ?p = mx" "wpDestroyed ?p = False"
    by (simp_all add: empty_pool_def)
  show "core {#} ?p"
    using q assms unfolding core_def base_def' ids_ok_def promises_ok_def workers_ok_def tasks_ok_def posted_ok_def
      limits_ok_def aborted_ok_def live_ids_def f by simp
  show "all_of_use ?p" by (simp add: all_of_use_def starting_known_def f)
qed

lemma spawn_only_core:
  assumes "core {#} p" "all_of_use p" "room_for_worker p"
  shows "core {#} (spawn_only p)" "all_of_use (spawn_only p)" "queued (spawn_only p) = queued p"
    "wpIdle (spawn_only p) = wpIdle p" "wpPending (spawn_only p) = wpPending p" "wpAborted (spawn_only p) = wpAborted p"
    "advanced p (spawn_only p)" "wpDrain (spawn_only p) = wpDrain p"
    "length (wpWorkers (spawn_only p)) = Suc (length (wpWorkers p))"
proof -
  obtain w p1 where s: "spawnWorker p = (w, p1)" by fastforce
  then have p1: "spawn_only p = p1" by (simp add: spawn_only_def)
  note sp = spawn_base[OF conjunct1[OF assms(1)[unfolded core_def]] assms(3) s]
  show "core {#} (spawn_only p)" "queued (spawn_only p) = queued p" "wpIdle (spawn_only p) = wpIdle p"
    using sp(1,6-8) assms(1) by (simp_all add: p1 core_def)
  show "wpPending (spawn_only p) = wpPending p" "wpAborted (spawn_only p) = wpAborted p" "wpDrain (spawn_only p) = wpDrain p"
    "length (wpWorkers (spawn_only p)) = Suc (length (wpWorkers p))" "advanced p (spawn_only p)"
    by (simp_all add: p1 sp(9) advanced_def sp(3))
  show "all_of_use (spawn_only p)"
    using assms(2) sp(3,6)
    by (auto simp: p1 sp(9) all_of_use_def of_use_def starting_known_def fresh_entry_def less_Suc_eq)
qed

lemma spawn_many_core:
  assumes "core {#} p" "all_of_use p" "queued p = {#}" "\<not> wpDrain p" "int (length (wpWorkers p) + n) \<le> wpMaxThreads p"
  shows "core {#} ((spawn_only ^^ n) p) \<and> all_of_use ((spawn_only ^^ n) p) \<and> queued ((spawn_only ^^ n) p) = {#} \<and>
    \<not> wpDrain ((spawn_only ^^ n) p) \<and> length (wpWorkers ((spawn_only ^^ n) p)) = length (wpWorkers p) + n \<and>
    wpMaxThreads ((spawn_only ^^ n) p) = wpMaxThreads p"
  using assms(5)
proof (induction n)
  case (Suc n)
  then have IH: "core {#} ((spawn_only ^^ n) p)" "all_of_use ((spawn_only ^^ n) p)" "queued ((spawn_only ^^ n) p) = {#}"
    "\<not> wpDrain ((spawn_only ^^ n) p)" "length (wpWorkers ((spawn_only ^^ n) p)) = length (wpWorkers p) + n"
    "wpMaxThreads ((spawn_only ^^ n) p) = wpMaxThreads p"
    by auto
  have "room_for_worker ((spawn_only ^^ n) p)" using Suc.prems IH(5,6) by (simp add: room_for_worker_def)
  from spawn_only_core[OF IH(1,2) this] show ?case using IH by (simp add: advanced_def)
qed (use assms in simp)

lemma integer_args: "nonNegativeInteger n = Inr i \<Longrightarrow> 0 \<le> i" "positiveInteger n = Inr i \<Longrightarrow> 1 \<le> i"
  by (auto simp: nonNegativeInteger_def positiveInteger_def split: option.splits if_splits)

lemma make_live:
  fixes p :: "('d, 'r, 'e) pool"
  assumes "wp_make parallelism config = Inr p"
  shows "wp_live p"
proof -
  let ?min = "case cfgMinThreads config of Some n \<Rightarrow> nonNegativeInteger n | None \<Rightarrow> nonNegativeInteger (Num (Finite 0))"
  let ?max = "case cfgMaxThreads config of Some n \<Rightarrow> positiveInteger n
    | None \<Rightarrow> positiveInteger (Num (Finite (of_int parallelism)))"
  obtain mn mx timeout where a: "?min = Inr mn" "?max = Inr mx" "mn \<le> mx"
    and p: "p = (spawn_only ^^ nat mn) (empty_pool mn mx timeout)"
    using assms unfolding wp_make_def
    by (cases ?min; cases ?max; cases "resolve_timeout (cfgIdleTimeout config)") (auto split: if_splits)
  then have m: "p = (spawn_only ^^ nat mn) (empty_pool mn mx timeout)" "0 \<le> mn" "1 \<le> mx" "mn \<le> mx"
    using a(1,2) by (auto split: option.splits dest: integer_args)
  note e = empty_pool_core[OF m(2,4,3), of timeout]
  let ?e = "empty_pool mn mx timeout :: ('d, 'r, 'e) pool"
  have "\<not> wpDrain ?e" "int (length (wpWorkers ?e) + nat mn) \<le> wpMaxThreads ?e"
    using m by (simp_all add: empty_pool_def)
  from spawn_many_core[OF e this] show ?thesis
    by (simp add: m(1) wp_live_def busy_if_queued_def drain_ok_def)
qed

text \<open>A task with a new id is in the hands of \<open>run\<close>.\<close>

lemma new_task_core:
  assumes "core {#} p" "wpNextTaskId p < 2 ^ 29" "tkId t = wpNextTaskId p"
    "p2 = p\<lparr>wpNextTaskId := wpNextTaskId p + 1, wpListening := L\<rparr>"
    "L = wpListening p \<or> L = insert (wpNextTaskId p) (wpListening p)"
  shows "core {#t#} p2"
proof -
  have b: "queue_ok p" "ids_ok {#} p" "promises_ok {#} p" "workers_ok p" "tasks_ok p" "limits_ok p" "posted_ok {#} p"
    "aborted_ok p"
    using assms(1) by (auto simp: core_def base_def')
  have f: "queued p2 = queued p" "queue_ok p2 = queue_ok p" by (simp_all add: assms(4) queued_def queue_ok_def)
  have live: "live_ids {#t#} p2 = add_mset (wpNextTaskId p) (live_ids {#} p)"
    using f assms(3) by (simp add: live_ids_def assms(4))
  have "mset_set {..<wpNextTaskId p2} = add_mset (wpNextTaskId p) (mset_set {..<wpNextTaskId p})"
    by (simp add: assms(4) lessThan_Suc)
  then have "ids_ok {#t#} p2"
    using b(2) assms(2,5) unfolding ids_ok_def live by (auto simp: assms(4))
  moreover have "promises_ok {#t#} p2"
  proof -
    have old: "tid < wpNextTaskId p" if "tid \<in># live_ids {#} p" for tid using live_ids_bound[OF b(2) that] .
    have "wpNextTaskId p \<notin> wpAborted p" using b(2) by (auto simp: ids_ok_def)
    moreover have "wpSettled p (wpNextTaskId p) = None" using b(3) by (simp add: promises_ok_def)
    ultimately show ?thesis
      using b(3) assms(5) old unfolding promises_ok_def live by (auto simp: assms(4) Suc_le_eq le_eq_less_or_eq)
  qed
  moreover have "posted_ok {#t#} p2"
  proof (rule posted_okI)
    fix v u assume "posted p2 v \<noteq> []" "\<not> exited p2 v"
    then have v: "posted p v \<noteq> []" "\<not> exited p v" by (simp_all add: assms(4))
    note D = posted_okD[OF b(7) v]
    show "v \<in> set (wpWorkers p2) \<and> weReady (wpEntry p2 v) \<and> length (posted p2 v) = 1"
      using D(1-3) by (simp add: assms(4))
    show "weTask (wpEntry p2 v) = Some u \<Longrightarrow> posted p2 v = [tkId u]" using D(4)[of u] by (simp add: assms(4))
    show "tid \<in> set (posted p2 v) \<Longrightarrow> tid \<notin># image_mset tkId (queued p2) + image_mset tkId {#t#}" for tid
      unfolding f using D(5,7)[of tid] assms(3) by (auto simp: assms(4))
    show "tid \<in> set (posted p2 v) \<Longrightarrow> tid < wpNextTaskId p2" for tid using D(7)[of tid] by (simp add: assms(4))
    show "tkId u \<in> set (posted p2 v) \<Longrightarrow> weTask (wpEntry p2 x) = Some u \<Longrightarrow> x = v" for x
      using D(6)[of "tkId u" x u] by (simp add: assms(4))
  qed
  moreover have "workers_ok p2" "tasks_ok p2" "limits_ok p2" "aborted_ok p2"
    using b f by (simp_all add: workers_ok_def tasks_ok_def limits_ok_def aborted_ok_def assms(4))
  ultimately show ?thesis using b(1) f by (simp add: core_def base_def')
qed

lemma queue_new_live:
  assumes "core {#t#} p" "all_of_use p" "tkId t \<notin> wpAborted p" "p' = tryDispatch post (queue_push t p)"
  shows "wp_live p'" "advanced p p'"
proof -
  obtain q where q: "queue_push t p = p\<lparr>wpQueue := q\<rparr>" "core {#} (p\<lparr>wpQueue := q\<rparr>)"
    "queued (p\<lparr>wpQueue := q\<rparr>) = add_mset t (queued p)"
    using assms(1,3) by (rule requeue_core)
  have "to_drain (queue_push t p)" using assms(3) q(3) by (simp add: q(1) to_drain_def)
  moreover have "all_of_use (queue_push t p)" using assms(2) by (simp add: q(1) queue_change_of_use)
  ultimately have "core {#} p' \<and> all_of_use p' \<and> busy_if_queued p' \<and> advanced (queue_push t p) p' \<and>
      (wpDrain p' \<longrightarrow> wpPending p' \<noteq> [] \<or> queued p' \<noteq> {#})"
    using tryDispatch_core[of "queue_push t p" post] assms(4) q(1,2) by auto
  then show "wp_live p'" "advanced p p'" by (auto simp: wp_live_def drain_ok_def advanced_def q(1))
qed

lemma queue_stays_empty:
  assumes "core {#} p'" "queue_size p' \<le> queue_size p" "queue_size p = 0"
  shows "busy_if_queued p'"
  using assms queue_size_pos[of p'] by (auto simp: core_def base_def' busy_if_queued_def)

lemma start_or_queue_live:
  assumes "core {#t#} p" "all_of_use p" "tkId t \<notin> wpAborted p"
  shows "wp_live (start_or_queue post t p) \<and> advanced p (start_or_queue post t p)"
proof (cases "tkPriority t = Finite 0 \<and> queue_size p = 0")
  case False
  then have "start_or_queue post t p = tryDispatch post (queue_push t p)" by (auto simp: start_or_queue_def)
  then show ?thesis using queue_new_live[OF assms] by simp
next
  case fast: True
  obtain y p1 where pop: "popIdleWorker p = (y, p1)" by fastforce
  show ?thesis
  proof (cases y)
    case (Some w)
    let ?p = "dispatchTask post w t p1"
    have res: "start_or_queue post t p = ?p" using fast pop Some by (simp add: start_or_queue_def)
    note d = idle_dispatch[OF assms(1,2) pop[unfolded Some], of post]
    have "queue_size ?p \<le> queue_size p"
      using dispatch_size(2)[of post w t p1] popIdleWorker_size[of p] pop by simp
    then have "busy_if_queued ?p" using queue_stays_empty[OF d(1)] fast by blast
    then show ?thesis using d by (auto simp: res wp_live_def drain_ok_def)
  next
    case None
    then have p1: "p1 = p" "wpIdle p = []" using popIdleWorker_core[OF assms(1) pop] by auto
    show ?thesis
    proof (cases "room_for_worker p")
      case True
      have res: "start_or_queue post t p = spawn_with t p" using fast pop None p1 True by (simp add: start_or_queue_def)
      note sp = spawn_with_core[OF assms(1) True]
      have "queue_size (spawn_with t p) = queue_size p"
        unfolding spawn_with_def spawnWorker_def Let_def by (simp add: queue_size_def pool_defs)
      then have "busy_if_queued (spawn_with t p)" using queue_stays_empty[OF sp(1), of p] fast by simp
      then show ?thesis using sp(1-4) assms(2) by (simp add: res wp_live_def drain_ok_def)
    next
      case False
      then have "start_or_queue post t p = tryDispatch post (queue_push t p)"
        using fast pop None p1 by (simp add: start_or_queue_def)
      then show ?thesis using queue_new_live[OF assms] by simp
    qed
  qed
qed

lemma run_cases:
  obtains "snd (wp_run post d opts p) = p"
  | t L where "snd (wp_run post d opts p) =
      start_or_queue post t (p\<lparr>wpNextTaskId := wpNextTaskId p + 1, wpListening := L\<rparr>)"
    "tkId t = wpNextTaskId p" "L = wpListening p \<or> L = insert (wpNextTaskId p) (wpListening p)"
proof (cases "wpDestroyed p")
  case True
  then show ?thesis using that(1) by (simp add: wp_run_def)
next
  case False
  note open1 = False
  show ?thesis
  proof (cases "case optPriority opts of None \<Rightarrow> Num (Finite 0) | Some n \<Rightarrow> n")
    case (Num pr)
    let ?t = "\<lparr>tkId = wpNextTaskId p, tkData = d, tkPriority = pr, tkTransfer = optTransfer opts\<rparr>"
    show ?thesis
    proof (cases "optSignal opts")
      case None
      then show ?thesis using that(2)[of ?t "wpListening p"] open1 Num by (simp add: wp_run_def Let_def)
    next
      case (Some s)
      then show ?thesis
        using that(1) that(2)[of ?t "insert (wpNextTaskId p) (wpListening p)"] open1 Num
        by (cases s) (simp_all add: wp_run_def Let_def)
    qed
  qed (use that(1) open1 in \<open>simp_all add: wp_run_def\<close>)
qed

lemma run_live:
  assumes "wp_live p" "wpNextTaskId p < 2 ^ 29"
  shows "wp_live (snd (wp_run post d opts p)) \<and> done_if_drained p (snd (wp_run post d opts p))"
proof (rule run_cases[of post d opts p])
  assume "snd (wp_run post d opts p) = p"
  then show ?thesis using assms(1) by (simp add: done_if_drained_def)
next
  fix t L
  assume run: "snd (wp_run post d opts p) =
      start_or_queue post t (p\<lparr>wpNextTaskId := wpNextTaskId p + 1, wpListening := L\<rparr>)"
    and t: "tkId t = wpNextTaskId p" "L = wpListening p \<or> L = insert (wpNextTaskId p) (wpListening p)"
  let ?p = "p\<lparr>wpNextTaskId := wpNextTaskId p + 1, wpListening := L\<rparr>"
  have live: "core {#} p" "all_of_use p" using assms(1) by (auto simp: wp_live_def)
  have "core {#t#} ?p" by (rule new_task_core[OF live(1) assms(2) t(1) refl t(2)])
  moreover have "all_of_use ?p" using live(2) by (simp add: all_of_use_def of_use_def starting_known_def)
  moreover have "tkId t \<notin> wpAborted ?p" using live(1) t(1) by (auto simp: core_def base_def' ids_ok_def)
  ultimately have "wp_live (start_or_queue post t ?p) \<and> advanced ?p (start_or_queue post t ?p)"
    by (rule start_or_queue_live)
  then show ?thesis unfolding run using resolved_done[of "start_or_queue post t ?p" p]
    by (simp add: advanced_def wp_live_def core_def)
qed

subsection \<open>Aborts\<close>

lemma abort_live:
  assumes "wp_live p" "tid \<in> wpListening p"
  shows "wp_live (onAbort tid reason p) \<and> done_if_drained p (onAbort tid reason p)"
proof -
  let ?p = "onAbort tid reason p"
  have b: "queue_ok p" "ids_ok {#} p" "promises_ok {#} p" "workers_ok p" "tasks_ok p" "limits_ok p" "posted_ok {#} p"
    "aborted_ok p"
    using assms(1) by (auto simp: core_def base_def' wp_live_def)
  have unsettled: "wpSettled p tid = None" using b(3) assms(2) by (auto simp: promises_ok_def)
  have lt: "tid < wpNextTaskId p" using b(2) assms(2) by (auto simp: ids_ok_def)
  have live: "tid \<in># live_ids {#} p" "tid \<notin> wpAborted p" using b(3) unsettled lt by (auto simp: promises_ok_def)
  have f: "wpQueue ?p = wpQueue p" "wpPending ?p = wpPending p" "wpNextTaskId ?p = wpNextTaskId p"
    "wpWorkers ?p = wpWorkers p" "wpIdle ?p = wpIdle p" "wpEntry ?p = wpEntry p" "wpNextThread ?p = wpNextThread p"
    "wpMaxThreads ?p = wpMaxThreads p" "wpMinThreads ?p = wpMinThreads p" "wpDestroyed ?p = wpDestroyed p"
    "wpDrain ?p = wpDrain p" "wpDrainsResolved ?p = wpDrainsResolved p" "wpAborted ?p = insert tid (wpAborted p)"
    "wpListening ?p = wpListening p - {tid}" "wpSettled ?p = (wpSettled p)(tid := Some (Rejected (Thrown reason)))"
    using unsettled by (simp_all add: onAbort_def Let_def settle_def)
  have q: "queued ?p = queued p" "queue_ok ?p = queue_ok p" by (simp_all add: queued_def queue_ok_def f)
  have ids: "live_ids {#} ?p = live_ids {#} p" by (simp add: live_ids_def f q)
  have one: "count (image_mset tkId (queued p)) tid + count (mset (map fst (wpPending p))) tid = 1"
  proof -
    have "count (live_ids {#} p) tid > 0" using live(1) by simp
    then show ?thesis using live_ids_distinct[OF b(2), of tid]
      unfolding live_ids_def count_union image_mset_empty count_empty by linarith
  qed
  have cnt: "size (filter_mset (\<lambda>t. tkId t \<in> insert tid (wpAborted p)) M) =
      size (filter_mset (\<lambda>t. tkId t \<in> wpAborted p) M) + count (image_mset tkId M) tid" for M
    using live(2) by (induction M) auto
  have pend: "map_of (wpPending p) tid = None \<longleftrightarrow> count (mset (map fst (wpPending p))) tid = 0"
    by (simp add: map_of_eq_None_iff count_eq_zero_iff)
  have cq: "count (image_mset tkId (queued p)) tid = (if map_of (wpPending p) tid = None then 1 else 0)"
  proof (cases "map_of (wpPending p) tid = None")
    case True
    then have "count (mset (map fst (wpPending p))) tid = 0" using pend by blast
    then have "count (image_mset tkId (queued p)) tid = 1" using one by linarith
    then show ?thesis using True by simp
  next
    case False
    then have "count (mset (map fst (wpPending p))) tid \<noteq> 0" using pend by simp
    then have "count (image_mset tkId (queued p)) tid = 0" using one by linarith
    then show ?thesis using False by presburger
  qed
  have aq: "wpAbortedQueued ?p = wpAbortedQueued p + (if map_of (wpPending p) tid = None then 1 else 0)"
    by (simp add: onAbort_def Let_def settle_def)
  have "aborted_ok ?p" using b(8) unfolding aborted_ok_def q f cnt cq aq by simp
  moreover have "promises_ok {#} ?p" using b(3) lt unfolding promises_ok_def ids f by auto
  moreover have "ids_ok {#} ?p" using b(2) lt unfolding ids_ok_def ids f by auto
  moreover have "posted_ok {#} ?p" by (rule posted_ok_mono[OF b(7)]) (simp_all add: f q)
  ultimately have "core {#} ?p"
    using b(1,4-6) by (simp add: core_def base_def' q workers_ok_def tasks_ok_def limits_ok_def f)
  moreover have "all_of_use ?p" "busy_if_queued ?p" "drain_ok ?p"
    using assms(1) by (simp_all add: wp_live_def all_of_use_def of_use_def starting_known_def busy_if_queued_def drain_ok_def f q)
  ultimately show ?thesis by (simp add: wp_live_def done_if_drained_def f(12))
qed

subsection \<open>Messages\<close>

text \<open>Dispatching through a worker leaves the pool in order, whatever that worker was before.\<close>

lemma dispatched_live:
  assumes "core {#} p" "w \<in> set (wpWorkers p)" "starting_known p" "\<forall>v \<in> set (wpWorkers p). v = w \<or> of_use p v"
    "busy_if_queued p" "core {#} p'" "dispatched w p p'" "idle_or_busy w p p'" "queue_size p' \<le> queue_size p"
  shows "wp_live p' \<and> done_if_drained p p'"
proof -
  have "all_of_use p'" by (rule dispatched_of_use[OF assms(4,7,8,3,2)])
  moreover have "busy_if_queued p'"
  proof (cases "queued p = {#}")
    case True
    then have "queue_size p = 0" using assms(1) queue_size_zero[of p] by (simp add: core_def base_def')
    then show ?thesis by (rule queue_stays_empty[OF assms(6,9)])
  next
    case False
    then show ?thesis using assms(5,7,8) by (auto simp: busy_if_queued_def dispatched_def idle_or_busy_def)
  qed
  moreover have "drain_ok p'" using assms(7) by (auto simp: dispatched_def drain_ok_def)
  moreover have "done_if_drained p p'"
    using assms(6,7) by (intro resolved_done) (auto simp: core_def dispatched_def)
  ultimately show ?thesis using assms(6) by (simp add: wp_live_def)
qed

lemma mark_live:
  assumes "core {#} p" "free_worker p w" "weReady (wpEntry p w)" "starting_known p"
    "\<forall>v \<in> set (wpWorkers p). v = w \<or> of_use p v" "busy_if_queued p"
  shows "wp_live (markWorkerIdle post w p) \<and> done_if_drained p (markWorkerIdle post w p)"
  using dispatch_core(1)[OF assms(1-3), of post] dispatch_size(1)[of post w p] assms
  by (intro dispatched_live[of p w]) (auto simp: free_worker_def)

lemma post_live:
  assumes "core {#} p" "weTask (wpEntry p w) = Some t" "posted p w = []" "weReady (wpEntry p w)" "starting_known p"
    "\<forall>v \<in> set (wpWorkers p). v = w \<or> of_use p v" "busy_if_queued p"
  shows "wp_live (postTask post w t p) \<and> done_if_drained p (postTask post w t p)"
proof -
  have idle: "w \<notin> set (wpIdle p)" and reg: "w \<in> set (wpWorkers p)"
    using assms(1,2) by (auto simp: core_def base_def' workers_ok_def tasks_ok_def)
  show ?thesis
    using dispatch_core(3)[OF assms(1-4) idle, of post] dispatch_size(3)[of post w t p] assms reg
    by (intro dispatched_live[of p w]) auto
qed

lemma ready_live:
  assumes "wp_live p" "w < wpNextThread p" "\<not> exited p w" "\<not> weReady (wpEntry p w)"
  shows "wp_live (handleReady post w p) \<and> done_if_drained p (handleReady post w p)"
proof -
  let ?q = "set_entry w (\<lambda>e. e\<lparr>weReady := True\<rparr>) p"
  have b: "base {#} p" "aborted_ok p" "all_of_use p" "busy_if_queued p" using assms(1) by (auto simp: wp_live_def core_def)
  have reg: "w \<in> set (wpWorkers p)" using b(3) assms(2-4) by (auto simp: all_of_use_def starting_known_def)
  have idle: "w \<notin> set (wpIdle p)" using b(1) assms(4) by (auto simp: base_def' workers_ok_def)
  have silent: "posted p w = []" using b(1) assms(3,4) posted_okD(2)[of "{#}" p w] by (auto simp: base_def')
  have c: "core {#} ?q" using base_flag[OF b(1) assms(2), of "\<lambda>e. e\<lparr>weReady := True\<rparr>"] b(2) by (simp add: core_def)
  have st: "starting_known ?q" using b(3) by (auto simp: all_of_use_def starting_known_def set_entry_def)
  have use: "\<forall>v \<in> set (wpWorkers ?q). v = w \<or> of_use ?q v"
    using b(3) by (auto simp: all_of_use_def of_use_def set_entry_def)
  have busy: "busy_if_queued ?q" using b(4) by (simp add: busy_if_queued_def) (simp add: set_entry_def)
  have rd: "weReady (wpEntry ?q w)" by (simp add: set_entry_def)
  have drain: "done_if_drained ?q p' \<Longrightarrow> done_if_drained p p'" for p' by (simp add: done_if_drained_def set_entry_def)
  show ?thesis
  proof (cases "weTask (wpEntry p w)")
    case None
    then have "free_worker ?q w" using reg idle silent by (simp add: free_worker_def set_entry_def)
    moreover have "handleReady post w p = markWorkerIdle post w ?q"
      using None by (simp add: handleReady_def Let_def) (simp add: set_entry_def)
    ultimately show ?thesis using mark_live[OF c _ rd st use busy, of post] drain by auto
  next
    case (Some t)
    have t: "weTask (wpEntry ?q w) = Some t" "posted ?q w = []" using Some silent by (simp_all add: set_entry_def)
    show ?thesis
    proof (cases "tkId t \<in> wpAborted p")
      case False
      then have "handleReady post w p = postTask post w t ?q"
        using Some by (simp add: handleReady_def Let_def set_entry_def)
      then show ?thesis using post_live[OF c t rd st use busy, of post] drain by auto
    next
      case True
      let ?u = "delete_pending (tkId t) (set_entry w (set_task None) ?q)"
      have "settle_unless_aborted (tkId t) (Rejected PoolDestroyed) ?u = ?u"
        using True by (simp add: settle_unless_aborted_def pool_defs)
      then have "base {#} ?u"
        using base_drop[of "{#}" ?q w t "Rejected PoolDestroyed"] c t(1) by (simp add: core_def)
      then have cu: "core {#} ?u" using c by (simp add: core_def)
      have f: "free_worker ?u w" "weReady (wpEntry ?u w)" using reg idle silent by (simp_all add: free_worker_def pool_defs)
      have "starting_known ?u" "\<forall>v \<in> set (wpWorkers ?u). v = w \<or> of_use ?u v" "busy_if_queued ?u"
        using st use busy by (auto simp: starting_known_def of_use_def pool_defs busy_if_queued_def queued_def)
      from mark_live[OF cu f this, of post]
      have "wp_live (markWorkerIdle post w ?u) \<and> done_if_drained ?u (markWorkerIdle post w ?u)" .
      moreover have "handleReady post w p = markWorkerIdle post w ?u"
        using True Some by (simp add: handleReady_def Let_def set_entry_def)
      ultimately show ?thesis by (simp add: done_if_drained_def pool_defs)
    qed
  qed
qed

lemma base_answered:
  assumes "base H p" "\<not> exited p w" "tid \<in> set (posted p w)"
  shows "base H (set_entry w (answered tid w) p)" "posted (set_entry w (answered tid w) p) w = []"
    "w \<in> set (wpWorkers p)" "weReady (wpEntry p w)" "w \<notin> set (wpIdle p)"
    "weTask (wpEntry p w) = Some t \<Longrightarrow> tid = tkId t"
    "weTask (wpEntry p w) = None \<Longrightarrow> map_of (wpPending p) tid = None"
proof -
  let ?p = "set_entry w (answered tid w) p"
  have b: "workers_ok p" "tasks_ok p" "posted_ok H p" using assms(1) by (auto simp: base_def')
  have ne: "posted p w \<noteq> []" using assms(3) by auto
  note D = posted_okD[OF b(3) ne assms(2)]
  have one: "posted p w = [tid]" using D(3) assms(3) by (cases "posted p w") auto
  show reg: "w \<in> set (wpWorkers p)" "weReady (wpEntry p w)" using D(1,2) by auto
  show "w \<notin> set (wpIdle p)" using b(1) ne by (auto simp: workers_ok_def)
  show "weTask (wpEntry p w) = Some t \<Longrightarrow> tid = tkId t" using D(4)[of t] one by simp
  show "map_of (wpPending p) tid = None" if "weTask (wpEntry p w) = None"
  proof (rule ccontr)
    assume "map_of (wpPending p) tid \<noteq> None"
    then obtain t where "(tid, t) \<in> set (wpPending p)" by (auto dest: map_of_SomeD)
    then obtain v where "weTask (wpEntry p v) = Some t" "tkId t = tid" using tasks_okD(1)[OF b(2)] by auto
    then show False using D(6)[of tid v t] one that by auto
  qed
  have f: "wpWorkers ?p = wpWorkers p" "wpIdle ?p = wpIdle p" "wpNextThread ?p = wpNextThread p" "wpPending ?p = wpPending p"
    "wpNextTaskId ?p = wpNextTaskId p" "wpListening ?p = wpListening p" "wpAborted ?p = wpAborted p"
    "wpSettled ?p = wpSettled p" "wpMaxThreads ?p = wpMaxThreads p" "wpMinThreads ?p = wpMinThreads p"
    "wpDestroyed ?p = wpDestroyed p"
    by (simp_all add: set_entry_def)
  have e: "weTask (wpEntry ?p v) = weTask (wpEntry p v)" "weReady (wpEntry ?p v) = weReady (wpEntry p v)"
    "exited ?p v = exited p v" "posted ?p v = (if v = w then [] else posted p v)"
    "weTimer (wpEntry ?p v) = weTimer (wpEntry p v)" for v
    by (simp_all add: set_entry_def answered_def one)
  show "posted ?p w = []" by (simp add: e)
  have known: "wpEntry ?p v = fresh_entry" if "v \<ge> wpNextThread p" for v
    using that b(1) reg(1) by (auto simp: workers_ok_def set_entry_def)
  have "workers_ok ?p" using b(1) known unfolding workers_ok_def f e by auto
  moreover have "tasks_ok ?p" using b(2) unfolding tasks_ok_def f e by simp
  moreover have "posted_ok H ?p"
  proof (rule posted_okI, unfold e f queued_frame)
    fix v u assume "(if v = w then [] else posted p v) \<noteq> []" "\<not> exited p v"
    then have v: "posted p v \<noteq> []" "\<not> exited p v" "v \<noteq> w" by (auto split: if_splits)
    note D = posted_okD[OF b(3) v(1,2)]
    show "v \<in> set (wpWorkers p) \<and> weReady (wpEntry p v) \<and> length (if v = w then [] else posted p v) = 1"
      using D(1-3) v(3) by simp
    show "weTask (wpEntry p v) = Some u \<Longrightarrow> (if v = w then [] else posted p v) = [tkId u]" using D(4)[of u] v(3) by simp
    show "i \<in> set (if v = w then [] else posted p v) \<Longrightarrow>
        i \<notin># image_mset tkId (queued p) + image_mset tkId H" for i
      using D(5)[of i] v(3) by simp
    show "i \<in> set (if v = w then [] else posted p v) \<Longrightarrow> i < wpNextTaskId p" for i using D(7)[of i] v(3) by simp
    show "tkId u \<in> set (if v = w then [] else posted p v) \<Longrightarrow> weTask (wpEntry p x) = Some u \<Longrightarrow> x = v" for x
      using D(6)[of "tkId u" x u] v(3) by simp
  qed
  ultimately show "base H ?p"
    using assms(1) unfolding base_def' ids_ok_def promises_ok_def limits_ok_def live_ids_frame queued_frame f by simp
qed

lemma delete_pending_absent:
  assumes "map_of (wpPending p) tid = None"
  shows "delete_pending tid p = p"
proof -
  have "AList.delete tid (wpPending p) = wpPending p"
    using assms by (auto simp: AList.delete_eq map_of_eq_None_iff intro!: filter_True) force
  then show ?thesis by (simp add: delete_pending_def)
qed

lemma set_task_same: "weTask (wpEntry p w) = t \<Longrightarrow> set_entry w (set_task t) p = p"
proof -
  assume t: "weTask (wpEntry p w) = t"
  have "set_task t (wpEntry p w) = wpEntry p w" using t by (cases "wpEntry p w") simp
  then show ?thesis by (simp add: set_entry_def)
qed

lemma answer_live:
  assumes "wp_live p" "\<not> exited p w" "tid \<in> set (posted p w)"
  shows "wp_live (handleAnswer post w tid s (set_entry w (answered tid w) p)) \<and>
    done_if_drained p (handleAnswer post w tid s (set_entry w (answered tid w) p))"
proof -
  let ?q = "set_entry w (answered tid w) p"
  have b: "base {#} p" "aborted_ok p" "all_of_use p" "busy_if_queued p" using assms(1) by (auto simp: wp_live_def core_def)
  note A = base_answered[OF b(1) assms(2,3)]
  have e: "weTask (wpEntry ?q v) = weTask (wpEntry p v)" "weReady (wpEntry ?q v) = weReady (wpEntry p v)" for v
    by (simp_all add: set_entry_def answered_def)
  have st: "starting_known ?q" using b(3) by (auto simp: all_of_use_def starting_known_def set_entry_def answered_def)
  have use: "\<forall>v \<in> set (wpWorkers ?q). v = w \<or> of_use ?q v"
    using b(3) by (auto simp: all_of_use_def of_use_def set_entry_def)
  have busy: "busy_if_queued ?q" using b(4) by (simp add: busy_if_queued_def) (simp add: set_entry_def)
  have "\<exists>u. handleAnswer post w tid s ?q = markWorkerIdle post w u \<and> core {#} u \<and> free_worker u w \<and> unmoved w ?q u \<and>
      queued u = queued ?q"
  proof (cases "weTask (wpEntry p w)")
    case None
    then have none: "map_of (wpPending ?q) tid = None" using A(7) by (simp add: set_entry_def)
    have "set_entry w (set_task None) ?q = ?q" by (rule set_task_same) (simp add: e None)
    then have "handleAnswer post w tid s ?q = markWorkerIdle post w ?q"
      by (simp add: handleAnswer_def Let_def none delete_pending_absent[OF none])
    moreover have "free_worker ?q w" using A(2,3,5) None by (simp add: free_worker_def) (simp add: set_entry_def answered_def)
    ultimately show ?thesis using A(1) b(2) by (intro exI[of _ ?q]) (simp add: core_def unmoved_refl)
  next
    case (Some t)
    let ?u = "settle_unless_aborted (tkId t) s (delete_pending (tkId t) (set_entry w (set_task None) ?q))"
    have tid: "tid = tkId t" by (rule A(6)[OF Some])
    have "(tkId t, t) \<in> set (wpPending ?q)" using b(1) Some A(3) by (auto simp: base_def' tasks_ok_def set_entry_def)
    moreover have "distinct (map fst (wpPending ?q))" using A(1) pending_distinct[of "{#}" ?q] by (simp add: base_def')
    ultimately have lookup: "map_of (wpPending ?q) tid = Some t" by (simp add: tid)
    have swap: "set_entry w (set_task None) (delete_pending tid ?q) = delete_pending (tkId t) (set_entry w (set_task None) ?q)"
      by (simp add: pool_defs tid)
    have "handleAnswer post w tid s ?q = markWorkerIdle post w ?u"
      unfolding handleAnswer_def Let_def lookup swap by simp
    moreover have "base {#} ?u" using base_drop[of "{#}" ?q w t s] A(1) Some by (simp add: e)
    then have "core {#} ?u" using b(2) by (simp add: core_def)
    moreover have "free_worker ?u w" using A(2,3,5) by (simp add: free_worker_def pool_defs)
    moreover have "unmoved w ?q ?u" by (simp add: unmoved_def pool_defs)
    ultimately show ?thesis by (intro exI[of _ ?u]) simp
  qed
  then obtain u where u: "handleAnswer post w tid s ?q = markWorkerIdle post w u" "core {#} u" "free_worker u w"
    "unmoved w ?q u" "queued u = queued ?q"
    by blast
  have "weReady (wpEntry u w)" using u(4) A(4) by (simp add: unmoved_def e)
  moreover have "\<forall>v \<in> set (wpWorkers u). v = w \<or> of_use u v" using use u(4) by (auto simp: unmoved_def of_use_def)
  moreover have "starting_known u" using st u(3,4) unfolding starting_known_def unmoved_def free_worker_def by metis
  moreover have "busy_if_queued u" using busy u(4,5) by (simp add: busy_if_queued_def unmoved_def)
  ultimately have "wp_live (markWorkerIdle post w u) \<and> done_if_drained u (markWorkerIdle post w u)"
    using mark_live[OF u(2,3), of post] by blast
  then show ?thesis using u(1,4) by (simp add: done_if_drained_def unmoved_def set_entry_def)
qed

subsection \<open>Crashes and exits\<close>

lemma drop_task_core:
  assumes "base H p"
  shows "base H (drop_task w r p)" "unmoved w p (drop_task w r p)" "queued (drop_task w r p) = queued p"
    "aborted_ok (drop_task w r p) = aborted_ok p" "weTask (wpEntry (drop_task w r p) w) = None"
    "posted (drop_task w r p) w = posted p w" "exited (drop_task w r p) w = exited p w" "wpDrain (drop_task w r p) = wpDrain p"
    "weFailed (wpEntry (drop_task w r p) w) = weFailed (wpEntry p w)"
    "weTask (wpEntry p w) = None \<Longrightarrow> drop_task w r p = p"
proof -
  have "base H (drop_task w r p) \<and> unmoved w p (drop_task w r p) \<and> queued (drop_task w r p) = queued p \<and>
    aborted_ok (drop_task w r p) = aborted_ok p \<and> weTask (wpEntry (drop_task w r p) w) = None \<and>
    posted (drop_task w r p) w = posted p w \<and> exited (drop_task w r p) w = exited p w \<and>
    wpDrain (drop_task w r p) = wpDrain p \<and> weFailed (wpEntry (drop_task w r p) w) = weFailed (wpEntry p w) \<and>
    (weTask (wpEntry p w) = None \<longrightarrow> drop_task w r p = p)"
  proof (cases "weTask (wpEntry p w)")
    case None
    then have "drop_task w r p = p" using set_task_same[OF None] by (simp add: drop_task_def)
    then show ?thesis using assms None by (simp add: unmoved_refl)
  next
    case (Some t)
    then have d: "drop_task w r p = reject_unless_aborted (tkId t) r (delete_pending (tkId t) (set_entry w (set_task None) p))"
      by (simp add: drop_task_def)
    show ?thesis using base_drop[OF assms Some, of "Rejected r"] Some unfolding d
      by (simp add: unmoved_def) (simp add: pool_defs)
  qed
  then show "base H (drop_task w r p)" "unmoved w p (drop_task w r p)" "queued (drop_task w r p) = queued p"
    "aborted_ok (drop_task w r p) = aborted_ok p" "weTask (wpEntry (drop_task w r p) w) = None"
    "posted (drop_task w r p) w = posted p w" "exited (drop_task w r p) w = exited p w" "wpDrain (drop_task w r p) = wpDrain p"
    "weFailed (wpEntry (drop_task w r p) w) = weFailed (wpEntry p w)"
    "weTask (wpEntry p w) = None \<Longrightarrow> drop_task w r p = p"
    by blast+
qed

lemma reject_all_core:
  assumes "base {#} p"
  shows "core {#} ((reject_queued r p)\<lparr>wpAbortedQueued := 0\<rparr>)"
    "queued ((reject_queued r p)\<lparr>wpAbortedQueued := 0\<rparr>) = {#}"
    "\<exists>q L S. (reject_queued r p)\<lparr>wpAbortedQueued := 0\<rparr> =
       p\<lparr>wpQueue := q, wpListening := L, wpSettled := S, wpAbortedQueued := 0\<rparr>"
proof -
  obtain q L S where r: "reject_queued r p = p\<lparr>wpQueue := q, wpListening := L, wpSettled := S\<rparr>"
    and b: "base {#} (reject_queued r p)" "queued (reject_queued r p) = {#}"
    using reject_queued_base[OF assms, of r] by blast
  let ?p = "(reject_queued r p)\<lparr>wpAbortedQueued := 0\<rparr>"
  show q: "queued ?p = {#}" using b(2) by (simp add: queued_def)
  have "base {#} ?p" by (rule base_cong[OF b(1)]) simp_all
  moreover have "aborted_ok ?p" using q by (simp add: aborted_ok_def)
  ultimately show "core {#} ?p" by (simp add: core_def)
  show "\<exists>q L S. ?p = p\<lparr>wpQueue := q, wpListening := L, wpSettled := S, wpAbortedQueued := 0\<rparr>" unfolding r by auto
qed

text \<open>A worker that raised \<open>error\<close> is of use: its exit makes room.\<close>

lemma errored_of_use:
  assumes "all_of_use p" "wpWorkers q = wpWorkers p" "wpIdle q = wpIdle p" "wpNextThread q = wpNextThread p"
    "\<forall>v. v \<noteq> w \<longrightarrow> wpEntry q v = wpEntry p v" "thError (weThread (wpEntry q w))"
    "weReady (wpEntry q w) \<or> w \<in> set (wpWorkers p)"
  shows "all_of_use q"
  unfolding all_of_use_def of_use_def starting_known_def assms(2-4)
proof (intro conjI ballI allI impI)
  fix v assume v: "v \<in> set (wpWorkers p)"
  show "v \<in> set (wpIdle p) \<or> \<not> weReady (wpEntry q v) \<or> thError (weThread (wpEntry q v)) \<or>
      (\<exists>t. weTask (wpEntry q v) = Some t \<and> posted q v = [tkId t])"
    using assms(1,5,6) v by (cases "v = w") (auto simp: all_of_use_def of_use_def)
next
  fix v assume "v < wpNextThread p" "\<not> weReady (wpEntry q v)" "\<not> exited q v"
  then show "v \<in> set (wpWorkers p)"
    using assms(1,5,7) by (cases "v = w") (auto simp: all_of_use_def starting_known_def)
qed

lemma error_ready_live:
  assumes "wp_live p" "w < wpNextThread p" "weReady (wpEntry p w)" "q = set_entry w errored p" "d = drop_task w r q"
  shows "wp_live d \<and> done_if_drained p d"
proof -
  have b: "base {#} p" "aborted_ok p" "all_of_use p" "busy_if_queued p" "drain_ok p"
    using assms(1) by (auto simp: wp_live_def core_def)
  have q: "base {#} q" unfolding assms(4) by (rule base_flag[OF b(1) assms(2)]) (auto simp: errored_def)
  note D = drop_task_core[OF q, of w r, folded assms(5)]
  have f: "wpWorkers d = wpWorkers p" "wpIdle d = wpIdle p" "wpNextThread d = wpNextThread p" "wpMaxThreads d = wpMaxThreads p"
    "\<forall>v. v \<noteq> w \<longrightarrow> wpEntry d v = wpEntry p v" "thError (weThread (wpEntry d w))" "weReady (wpEntry d w)"
    "wpDrainsResolved d = wpDrainsResolved p" "wpDrain d = wpDrain p" "queued d = queued p" "aborted_ok d"
    using D(2-4,8) b(2) assms(3,4) by (auto simp: unmoved_def) (auto simp: set_entry_def errored_def)
  have "all_of_use d" by (rule errored_of_use[OF b(3) f(1-3,5,6)]) (simp add: f(7))
  moreover have "busy_if_queued d" using b(4) by (simp add: busy_if_queued_def f)
  moreover have "drain_ok d"
  proof (cases "weTask (wpEntry p w)")
    case None
    then have "d = q" using D(10) assms(4,5) by (simp add: set_entry_def errored_def)
    then have "wpPending d = wpPending p" by (simp add: assms(4) set_entry_def)
    then show ?thesis using b(5) f(5,6) unfolding drain_ok_def f by metis
  next
    case (Some t)
    then have "w \<in> set (wpWorkers p)" "w \<notin> set (wpIdle p)"
      using b(1) by (auto simp: base_def' tasks_ok_def workers_ok_def)
    then show ?thesis using f(6) unfolding drain_ok_def f by blast
  qed
  ultimately show ?thesis using D(1) f(8,11) by (simp add: wp_live_def core_def done_if_drained_def)
qed

text \<open>A startup failure rejects everything queued.\<close>

lemma startup_error_live:
  assumes "wp_live p" "w < wpNextThread p" "\<not> exited p w" "\<not> weReady (wpEntry p w)" "q = set_entry w errored p"
  shows "wp_live (failStartup w r q) \<and> done_if_drained p (failStartup w r q)"
proof -
  have b: "base {#} p" "aborted_ok p" "all_of_use p" "busy_if_queued p"
    using assms(1) by (auto simp: wp_live_def core_def)
  have reg: "w \<in> set (wpWorkers p)" "w \<notin> set (wpIdle p)"
    using b(1,3) assms(2-4) by (auto simp: all_of_use_def starting_known_def base_def' workers_ok_def)
  have q: "base {#} q" unfolding assms(5) by (rule base_flag[OF b(1) assms(2)]) (auto simp: errored_def)
  have live: "wp_live d \<and> done_if_drained p d"
    if d: "core {#} d" "busy_if_queued d" "wpWorkers d = wpWorkers p" "wpIdle d = wpIdle p" "wpNextThread d = wpNextThread p"
      "\<forall>v. v \<noteq> w \<longrightarrow> wpEntry d v = wpEntry p v" "thError (weThread (wpEntry d w))"
      "wpDrainsResolved d = wpDrainsResolved p" for d
  proof -
    have "all_of_use d" by (rule errored_of_use[OF b(3) d(3-7)]) (simp add: reg)
    moreover have "drain_ok d" unfolding drain_ok_def d(3,4) using d(7) reg by blast
    ultimately show ?thesis using d(1,2,8) by (simp add: wp_live_def done_if_drained_def)
  qed
  show ?thesis
  proof (cases "weFailed (wpEntry p w)")
    case True
    then have res: "failStartup w r q = q" by (simp add: failStartup_def assms(5) set_entry_def errored_def)
    have "busy_if_queued q" using b(4) by (simp add: busy_if_queued_def assms(5)) (simp add: set_entry_def)
    then show ?thesis
      unfolding res using q b(2) by (intro live) (simp_all add: core_def assms(5), simp_all add: set_entry_def errored_def)
  next
    case fresh: False
    let ?u = "set_entry w (\<lambda>e. e\<lparr>weFailed := True\<rparr>) q"
    let ?d = "drop_task w r ?u"
    have "w < wpNextThread q" using assms(2,5) by (simp add: set_entry_def)
    then have u: "base {#} ?u" by (rule base_flag[OF q]) auto
    note D = drop_task_core[OF u, of w r]
    let ?p = "(reject_queued r ?d)\<lparr>wpAbortedQueued := 0\<rparr>"
    have res: "failStartup w r q = ?p" using fresh by (simp add: failStartup_def assms(5) set_entry_def errored_def)
    obtain Q L S where P: "?p = ?d\<lparr>wpQueue := Q, wpListening := L, wpSettled := S, wpAbortedQueued := 0\<rparr>"
      using reject_all_core(3)[OF D(1)] by blast
    have same: "wpWorkers ?p = wpWorkers p" "wpIdle ?p = wpIdle p" "wpNextThread ?p = wpNextThread p"
      "\<forall>v. v \<noteq> w \<longrightarrow> wpEntry ?p v = wpEntry p v" "thError (weThread (wpEntry ?p w))"
      "wpDrainsResolved ?p = wpDrainsResolved p"
      using D(2) unfolding P by (auto simp: unmoved_def set_entry_def errored_def assms(5))
    have "busy_if_queued ?p" using reject_all_core(2)[OF D(1)] by (simp add: busy_if_queued_def)
    then show ?thesis unfolding res using reject_all_core(1)[OF D(1)] same by (intro live)
  qed
qed

lemma error_live:
  assumes "wp_live p" "w < wpNextThread p" "\<not> exited p w"
  shows "wp_live (handleWorkerError w err (set_entry w errored p)) \<and>
    done_if_drained p (handleWorkerError w err (set_entry w errored p))"
proof -
  have "weReady (wpEntry (set_entry w errored p) w) = weReady (wpEntry p w)" by (simp add: set_entry_def errored_def)
  then show ?thesis
    using error_ready_live[OF assms(1,2) _ refl refl, of "Thrown err"]
      startup_error_live[OF assms _ refl, of "Thrown err"]
    by (simp add: handleWorkerError_def)
qed

text \<open>A worker without a task leaves the books: it exits, or an idle one is told to shut down.\<close>

definition unregister :: "nat \<Rightarrow> ('d worker_entry \<Rightarrow> 'd worker_entry) \<Rightarrow> ('d, 'r, 'e) pool \<Rightarrow> ('d, 'r, 'e) pool" where
  "unregister w f p = (set_entry w f p)\<lparr>wpWorkers := remove1 w (wpWorkers p), wpIdle := remove1 w (wpIdle p)\<rparr>"

lemma unregister_core:
  assumes "core H p" "w < wpNextThread p" "weTask (wpEntry p w) = None"
    "\<And>e. weTask (f e) = weTask e" "\<And>e. weReady (f e) = weReady e"
    "\<And>e. thPosted (weThread (f e)) = thPosted (weThread e)"
    "\<And>e. thExited (weThread (f e)) = thExited (weThread e) \<or> thExited (weThread (f e))"
    "posted p w = [] \<or> thExited (weThread (f (wpEntry p w)))" "\<And>e. \<not> weTimer (f e)"
  shows "core H (unregister w f p)"
proof -
  let ?p = "unregister w f p"
  have b: "queue_ok p" "ids_ok H p" "promises_ok H p" "workers_ok p" "tasks_ok p" "limits_ok p" "posted_ok H p" "aborted_ok p"
    using assms(1) by (auto simp: core_def base_def')
  have fl: "wpNextThread ?p = wpNextThread p" "wpPending ?p = wpPending p"
    "wpNextTaskId ?p = wpNextTaskId p" "wpListening ?p = wpListening p" "wpAborted ?p = wpAborted p"
    "wpSettled ?p = wpSettled p" "wpMaxThreads ?p = wpMaxThreads p" "wpMinThreads ?p = wpMinThreads p"
    "wpDestroyed ?p = wpDestroyed p" "wpAbortedQueued ?p = wpAbortedQueued p"
    by (simp_all add: unregister_def set_entry_def)
  have dist: "distinct (wpWorkers p)" "distinct (wpIdle p)" using b(4) by (auto simp: workers_ok_def)
  have sets: "set (wpWorkers ?p) = set (wpWorkers p) - {w}" "set (wpIdle ?p) = set (wpIdle p) - {w}"
    "distinct (wpWorkers ?p)" "distinct (wpIdle ?p)" "length (wpWorkers ?p) \<le> length (wpWorkers p)"
    using dist by (simp_all add: unregister_def set_remove1_eq length_remove1)
  have e: "v \<noteq> w \<Longrightarrow> wpEntry ?p v = wpEntry p v" "weTask (wpEntry ?p v) = weTask (wpEntry p v)"
    "weReady (wpEntry ?p v) = weReady (wpEntry p v)" "posted ?p v = posted p v" for v
    using assms(4-6) by (simp_all add: unregister_def set_entry_def)
  have timer: "weTimer (wpEntry ?p v) \<Longrightarrow> weTimer (wpEntry p v) \<and> v \<noteq> w" for v
    using assms(9) by (auto simp: unregister_def set_entry_def split: if_splits)
  have gone: "posted p w = [] \<or> exited ?p w" using assms(8) by (simp add: unregister_def set_entry_def)
  have q: "queued ?p = queued p" "queue_ok ?p = queue_ok p"
    by (simp_all add: unregister_def queued_def queue_ok_def set_entry_def)
  have ids: "live_ids H ?p = live_ids H p" by (simp add: live_ids_def q fl)
  have "workers_ok ?p"
    unfolding workers_ok_def sets fl e(2-4)
  proof (intro conjI ballI allI impI)
    show "int (length (wpWorkers ?p)) \<le> wpMaxThreads p" using b(4) sets(5) by (simp add: workers_ok_def)
    fix v assume v: "v \<in> set (wpWorkers p) - {w}"
    show "v < wpNextThread p" using b(4) v by (simp add: workers_ok_def)
    show "\<not> exited ?p v" using b(4) v e(1)[of v] by (simp add: workers_ok_def)
  next
    fix v assume "wpNextThread p \<le> v"
    then show "wpEntry ?p v = fresh_entry" using b(4) e(1)[of v] assms(2) by (cases "v = w") (auto simp: workers_ok_def)
  qed (use b(4) sets timer in \<open>auto simp: workers_ok_def\<close>)
  moreover have "tasks_ok ?p"
  proof (rule tasks_okI, unfold sets fl e)
    show "(tid, t) \<in> set (wpPending p) \<longleftrightarrow>
        tkId t = tid \<and> (\<exists>v \<in> set (wpWorkers p) - {w}. weTask (wpEntry p v) = Some t)" for tid t
      using tasks_okD(1)[OF b(5), of tid t] assms(3) by auto
    show "weTask (wpEntry p v) = Some t \<Longrightarrow> v \<in> set (wpWorkers p) - {w}" for v t
      using tasks_okD(2)[OF b(5), of v t] assms(3) by auto
  qed (rule tasks_okD(3)[OF b(5)])
  moreover have "posted_ok H ?p"
  proof (rule posted_okI, unfold sets fl e q)
    fix v u assume v: "posted p v \<noteq> []" "\<not> exited ?p v"
    then have vw: "v \<noteq> w" using gone by auto
    then have "\<not> exited p v" using v(2) e(1)[of v] by simp
    note D = posted_okD[OF b(7) v(1) this]
    show "v \<in> set (wpWorkers p) - {w} \<and> weReady (wpEntry p v) \<and> length (posted p v) = 1" using D(1-3) vw by simp
    show "weTask (wpEntry p v) = Some u \<Longrightarrow> posted p v = [tkId u]" by (rule D(4))
    show "i \<in> set (posted p v) \<Longrightarrow> i \<notin># image_mset tkId (queued p) + image_mset tkId H" for i by (rule D(5))
    show "i \<in> set (posted p v) \<Longrightarrow> i < wpNextTaskId p" for i by (rule D(7))
    show "tkId u \<in> set (posted p v) \<Longrightarrow> weTask (wpEntry p x) = Some u \<Longrightarrow> x = v" for x by (rule D(6)) auto
  qed
  ultimately show ?thesis
    using b unfolding core_def base_def' ids_ok_def promises_ok_def limits_ok_def aborted_ok_def ids q fl by simp
qed

lemma unregister_of_use:
  assumes "\<forall>v \<in> set (wpWorkers p). v = w \<or> of_use p v" "starting_known p \<or> exited (unregister w f p) w"
    "\<forall>v < wpNextThread p. v \<noteq> w \<longrightarrow> \<not> weReady (wpEntry p v) \<longrightarrow> \<not> exited p v \<longrightarrow> v \<in> set (wpWorkers p)"
    "distinct (wpWorkers p)" "weReady (f (wpEntry p w)) \<or> exited (unregister w f p) w"
  shows "all_of_use (unregister w f p)"
proof -
  have e: "v \<noteq> w \<Longrightarrow> wpEntry (unregister w f p) v = wpEntry p v" for v by (simp add: unregister_def set_entry_def)
  have "of_use (unregister w f p) v" if "v \<in> set (wpWorkers (unregister w f p))" for v
  proof -
    have "v \<noteq> w" "v \<in> set (wpWorkers p)" using that assms(4) by (auto simp: unregister_def)
    then show ?thesis using assms(1) e[of v] by (auto simp: of_use_def unregister_def in_set_remove1)
  qed
  moreover have "v \<in> set (wpWorkers (unregister w f p))"
    if "v < wpNextThread p" "\<not> weReady (wpEntry (unregister w f p) v)" "\<not> exited (unregister w f p) v" for v
  proof -
    have "v \<noteq> w" using that assms(5) by (auto simp: unregister_def set_entry_def)
    then show ?thesis using that assms(3) e[of v] by (simp add: unregister_def in_set_remove1)
  qed
  ultimately show ?thesis by (simp add: all_of_use_def starting_known_def) (simp add: unregister_def set_entry_def)
qed

subsection \<open>Idle timers\<close>

lemma timer_live:
  assumes "wp_live p" "weTimer (wpEntry p w)"
  shows "wp_live (terminateIdleWorker w p) \<and> done_if_drained p (terminateIdleWorker w p)"
proof (cases "weTask (wpEntry p w) \<noteq> None \<or> int (length (wpWorkers p)) \<le> wpMinThreads p")
  case True
  then have "terminateIdleWorker w p = p" by (auto simp: terminateIdleWorker_def)
  then show ?thesis using assms(1) by (simp add: done_if_drained_def)
next
  case False
  let ?p = "unregister w (set_timer False) p"
  have res: "terminateIdleWorker w p = ?p" using False by (simp add: terminateIdleWorker_def unregister_def set_entry_def)
  have b: "core {#} p" "all_of_use p" "busy_if_queued p" "drain_ok p" using assms(1) by (auto simp: wp_live_def)
  have W: "workers_ok p" using b(1) by (simp add: core_def base_def')
  have w: "w \<in> set (wpIdle p)" using W assms(2) by (auto simp: workers_ok_def)
  then have top: "weReady (wpEntry p w)" "weTask (wpEntry p w) = None" "posted p w = []" "w \<in> set (wpWorkers p)"
    "w < wpNextThread p" "distinct (wpWorkers p)"
    using W by (auto simp: workers_ok_def)
  have "core {#} ?p" by (rule unregister_core[OF b(1) top(5,2)]) (simp_all add: top(3))
  moreover have "all_of_use ?p"
    by (rule unregister_of_use) (use b(2) top in \<open>auto simp: all_of_use_def starting_known_def\<close>)
  moreover have "queued p = {#}" using b(3) w by (auto simp: busy_if_queued_def)
  then have "busy_if_queued ?p" by (simp add: busy_if_queued_def unregister_def set_entry_def queued_def)
  moreover have "drain_ok ?p"
  proof -
    have "v \<in> set (wpWorkers ?p) \<and> thError (weThread (wpEntry ?p v)) \<and> v \<notin> set (wpIdle ?p)"
      if "v \<in> set (wpWorkers p)" "thError (weThread (wpEntry p v))" "v \<notin> set (wpIdle p)" for v
      using that w by (auto simp: unregister_def set_entry_def in_set_remove1 dest: notin_set_remove1)
    moreover have "wpDrain ?p = wpDrain p" "wpPending ?p = wpPending p" by (simp_all add: unregister_def set_entry_def)
    ultimately show ?thesis using b(4) \<open>queued p = {#}\<close> unfolding drain_ok_def by metis
  qed
  ultimately show ?thesis by (simp add: res wp_live_def done_if_drained_def) (simp add: unregister_def set_entry_def)
qed

subsection \<open>Exits\<close>

text \<open>The entry of an exiting worker: gone, its timer stopped.\<close>

abbreviation exit_entry :: "'d worker_entry \<Rightarrow> 'd worker_entry" where
  "exit_entry e \<equiv> (gone e)\<lparr>weTimer := False\<rparr>"

text \<open>
  \<open>handleWorkerExit\<close> up to \<open>tryDispatch\<close> takes the worker out, drops its task, and after a startup failure
  rejects the queue; the order of the first two does not matter.
\<close>

definition exit_cleaned :: "nat \<Rightarrow> ('d, 'r, 'e) pool \<Rightarrow> ('d, 'r, 'e) pool" where
  "exit_cleaned w p =
     (let p1 = (set_entry w (set_timer False) p)\<lparr>wpWorkers := remove1 w (wpWorkers p), wpIdle := remove1 w (wpIdle p)\<rparr>;
          p2 = (if \<not> weReady (wpEntry p1 w) \<and> \<not> wpDestroyed p1 then failStartup w WorkerExited p1 else p1)
      in drop_task w WorkerExited p2)"

lemma drop_unregister:
  "drop_task w r (unregister w f p) = unregister w f (drop_task w r p)" if "\<And>e. weTask (f e) = weTask e"
    "\<And>e t. f (e\<lparr>weTask := t\<rparr>) = (f e)\<lparr>weTask := t\<rparr>"
  using that
  by (cases "weTask (wpEntry p w)"; intro pool.equality)
    (simp_all add: drop_task_def unregister_def pool_defs Let_def)

lemma exit_cleaned_core:
  assumes "core {#} p" "all_of_use p" "w < wpNextThread p"
  shows "core {#} (exit_cleaned w (set_entry w gone p))" "all_of_use (exit_cleaned w (set_entry w gone p))"
    "wpDrainsResolved (exit_cleaned w (set_entry w gone p)) = wpDrainsResolved p"
    "wpDestroyed (exit_cleaned w (set_entry w gone p)) = wpDestroyed p"
proof -
  let ?f = "exit_entry :: 'a worker_entry \<Rightarrow> 'a worker_entry" and ?g = "\<lambda>e. (exit_entry e)\<lparr>weFailed := True\<rparr>"
  let ?p = "exit_cleaned w (set_entry w gone p)" and ?d = "drop_task w WorkerExited p"
  have b: "base {#} p" "aborted_ok p" "\<not> wpDestroyed p" using assms(1) by (auto simp: core_def base_def' limits_ok_def)
  note D = drop_task_core[OF b(1), of w WorkerExited]
  have cd: "core {#} ?d" using D(1,4) b(2) by (simp add: core_def)
  have lt: "w < wpNextThread ?d" using assms(3) D(2) by (simp add: unmoved_def)
  have reg: "core {#} (unregister w f ?d) \<and> all_of_use (unregister w f ?d)" if f: "f = ?f \<or> f = ?g" for f
  proof
    show "core {#} (unregister w f ?d)"
      by (rule unregister_core[OF cd lt D(5)]) (use f in \<open>auto simp: gone_def\<close>)
    have ex: "exited (unregister w f ?d) w" using f by (auto simp: unregister_def set_entry_def gone_def)
    show "all_of_use (unregister w f ?d)"
    proof (rule unregister_of_use)
      show "\<forall>v \<in> set (wpWorkers ?d). v = w \<or> of_use ?d v"
        using assms(2) D(2) by (auto simp: all_of_use_def of_use_def unmoved_def)
      show "\<forall>v < wpNextThread ?d. v \<noteq> w \<longrightarrow> \<not> weReady (wpEntry ?d v) \<longrightarrow> \<not> exited ?d v \<longrightarrow> v \<in> set (wpWorkers ?d)"
        using assms(2) D(2) by (auto simp: all_of_use_def starting_known_def unmoved_def)
      show "distinct (wpWorkers ?d)" using cd by (auto simp: core_def base_def' workers_ok_def)
    qed (use ex in auto)
  qed
  have p1: "(set_entry w (set_timer False) (set_entry w gone p))\<lparr>wpWorkers := remove1 w (wpWorkers (set_entry w gone p)),
      wpIdle := remove1 w (wpIdle (set_entry w gone p))\<rparr> = unregister w ?f p"
    by (simp add: unregister_def set_entry_def)
  have dropf: "drop_task w WorkerExited (unregister w ?f p) = unregister w ?f ?d"
    by (rule drop_unregister) (simp_all add: gone_def)
  have fields: "weReady (wpEntry (unregister w ?f p) w) = weReady (wpEntry p w)"
    "weFailed (wpEntry (unregister w ?f p) w) = weFailed (wpEntry p w)" "\<not> wpDestroyed (unregister w ?f p)"
    using b(3) by (simp_all add: unregister_def set_entry_def gone_def)
  have sameu: "wpDrainsResolved (unregister w f ?d) = wpDrainsResolved p" "wpDestroyed (unregister w f ?d) = wpDestroyed p" for f
    using D(1,2) b(3) by (auto simp: unregister_def set_entry_def unmoved_def base_def' limits_ok_def)
  have "core {#} ?p \<and> all_of_use ?p \<and> wpDrainsResolved ?p = wpDrainsResolved p \<and> wpDestroyed ?p = wpDestroyed p"
  proof (cases "weReady (wpEntry p w) \<or> weFailed (wpEntry p w)")
    case True
    then have "?p = unregister w ?f ?d"
      unfolding exit_cleaned_def Let_def p1 using fields dropf by (auto simp: failStartup_def)
    then show ?thesis using reg[of ?f] sameu[of ?f] by simp
  next
    case False
    let ?u = "unregister w ?g ?d"
    let ?r = "(reject_queued WorkerExited ?u)\<lparr>wpAbortedQueued := 0\<rparr>"
    have bu: "base {#} ?u" using reg[of ?g] by (simp add: core_def)
    obtain Q L S where R: "?r = ?u\<lparr>wpQueue := Q, wpListening := L, wpSettled := S, wpAbortedQueued := 0\<rparr>"
      using reject_all_core(3)[OF bu] by blast
    have g: "set_entry w (\<lambda>e. e\<lparr>weFailed := True\<rparr>) (unregister w ?f p) = unregister w ?g p"
      by (simp add: unregister_def set_entry_def)
    have dropg: "drop_task w WorkerExited (unregister w ?g p) = ?u" by (rule drop_unregister) (simp_all add: gone_def)
    have "failStartup w WorkerExited (unregister w ?f p) = ?r" using False fields(2) by (simp add: failStartup_def g dropg)
    then have "?p = drop_task w WorkerExited ?r"
      unfolding exit_cleaned_def Let_def p1 using fields False by simp
    also have "... = ?r"
    proof (rule drop_task_core(10))
      show "base {#} ?r" using reject_all_core(1)[OF bu] by (simp add: core_def)
      show "weTask (wpEntry ?r w) = None" unfolding R using D(5) by (simp add: unregister_def set_entry_def gone_def)
    qed
    finally have p: "?p = ?r" .
    have "all_of_use ?r" using reg[of ?g] unfolding R by (simp add: all_of_use_def of_use_def starting_known_def)
    moreover have "wpDrainsResolved ?r = wpDrainsResolved ?u" "wpDestroyed ?r = wpDestroyed ?u" unfolding R by simp_all
    ultimately show ?thesis unfolding p using reject_all_core(1)[OF bu] sameu[of ?g] by simp
  qed
  then show "core {#} ?p" "all_of_use ?p" "wpDrainsResolved ?p = wpDrainsResolved p" "wpDestroyed ?p = wpDestroyed p" by auto
qed

lemma exit_live:
  assumes "wp_live p" "w < wpNextThread p"
  shows "wp_live (handleWorkerExit post w (set_entry w gone p)) \<and>
    done_if_drained p (handleWorkerExit post w (set_entry w gone p))"
proof -
  let ?c = "exit_cleaned w (set_entry w gone p)" and ?h = "handleWorkerExit post w (set_entry w gone p)"
  have live: "core {#} p" "all_of_use p" using assms(1) by (auto simp: wp_live_def)
  note C = exit_cleaned_core[OF live assms(2)]
  have alive: "\<not> wpDestroyed ?c" "wpMinThreads ?c \<le> wpMaxThreads ?c" using C(1) by (auto simp: core_def base_def' limits_ok_def)
  define u where "u = (if weReady (wpEntry ?c w) \<and> int (length (wpWorkers ?c)) < wpMinThreads ?c then spawn_only ?c else ?c)"
  have u: "core {#} u" "all_of_use u" "wpDrainsResolved u = wpDrainsResolved p"
  proof -
    have "room_for_worker ?c" if "int (length (wpWorkers ?c)) < wpMinThreads ?c" using that alive by (simp add: room_for_worker_def)
    then show "core {#} u" "all_of_use u" using spawn_only_core[OF C(1,2)] C(1,2) by (auto simp: u_def)
    show "wpDrainsResolved u = wpDrainsResolved p"
      using C(3) by (auto simp: u_def spawn_only_def spawnWorker_def Let_def)
  qed
  let ?t = "tryDispatch post u"
  have t: "core {#} ?t" "all_of_use ?t" "busy_if_queued ?t" "advanced u ?t" using tryDispatch_core[OF u(1,2), of post] by auto
  have "?h = (let p4 = (if \<not> wpDestroyed ?c
        then tryDispatch post (if weReady (wpEntry ?c w) \<and> int (length (wpWorkers ?c)) < wpMinThreads ?c
                               then spawn_only ?c else ?c)
        else ?c) in if wpDrain p4 then maybeResolveDrain p4 else p4)"
    by (simp only: handleWorkerExit_def exit_cleaned_def Let_def)
  then have h: "?h = (if wpDrain ?t then maybeResolveDrain ?t else ?t)"
    unfolding u_def[symmetric] using alive(1) by (simp add: Let_def)
  have base: "base {#} ?t" using t(1) by (simp add: core_def)
  then have zero: "queue_size ?t = 0 \<longleftrightarrow> queued ?t = {#}" using queue_size_zero[of ?t] by (simp add: base_def')
  show ?thesis
  proof (cases "wpDrain ?t \<and> wpPending ?t = [] \<and> queued ?t = {#}")
    case True
    then have res: "?h = ?t\<lparr>wpDrain := False, wpDrainsResolved := wpDrainsResolved ?t + 1\<rparr>"
      using h zero by (simp add: maybeResolveDrain_def)
    have q: "queued ?h = queued ?t" by (simp add: res queued_def)
    have bh: "base {#} ?h" unfolding res by (rule base_cong[OF base]) simp_all
    then have "core {#} ?h" using t(1) by (simp add: core_def aborted_ok_def q) (simp add: res)
    moreover have "all_of_use ?h" using t(2) by (simp add: res all_of_use_def of_use_def starting_known_def)
    moreover have "done_if_drained p ?h" using bh True q by (intro resolved_done) (simp_all add: res)
    ultimately show ?thesis using True q by (simp add: wp_live_def busy_if_queued_def drain_ok_def) (simp add: res)
  next
    case False
    then have res: "?h = ?t" using h zero by (auto simp: maybeResolveDrain_def)
    have "done_if_drained p ?t" using base t(4) u(3) by (intro resolved_done) (auto simp: advanced_def)
    then show ?thesis using t(1-3) False by (auto simp: res wp_live_def drain_ok_def)
  qed
qed

subsection \<open>drain, destroy, and a destroyed pool\<close>

lemma drain_live: "wp_live p \<Longrightarrow> wp_live (snd (wp_drain p)) \<and> done_if_drained p (snd (wp_drain p))"
proof -
  assume live: "wp_live p"
  show ?thesis
  proof (cases "wpPending p = [] \<and> queue_size p = 0")
    case True
    then show ?thesis using live by (simp add: wp_drain_def done_if_drained_def)
  next
    case False
    let ?p = "p\<lparr>wpDrain := True\<rparr>"
    have b: "base {#} p" "aborted_ok p" "queue_ok p" using live by (auto simp: wp_live_def core_def base_def')
    have q: "queued ?p = queued p" by (simp add: queued_def)
    have "base {#} ?p" by (rule base_cong[OF b(1)]) simp_all
    then have "core {#} ?p" using b(2) by (simp add: core_def aborted_ok_def q)
    moreover have "all_of_use ?p" "busy_if_queued ?p"
      using live q by (simp_all add: wp_live_def all_of_use_def of_use_def starting_known_def busy_if_queued_def)
    moreover have "drain_ok ?p" using False queue_size_zero[OF b(3)] q by (auto simp: drain_ok_def)
    ultimately have "wp_live ?p" by (simp add: wp_live_def)
    moreover have "snd (wp_drain p) = ?p" using False by (auto simp: wp_drain_def)
    ultimately show ?thesis by (simp add: done_if_drained_def)
  qed
qed

lemma queue_pop_destroyed:
  "queue_pop (p\<lparr>wpDestroyed := b\<rparr>) = map_prod id (\<lambda>q. q\<lparr>wpDestroyed := b\<rparr>) (queue_pop p)"
  by (simp add: queue_pop_def split: option.split sum.split)

lemma reject_queued_destroyed:
  "reject_queued r (p\<lparr>wpDestroyed := b\<rparr>) = (reject_queued r p)\<lparr>wpDestroyed := b\<rparr>"
proof (induction r p rule: reject_queued.induct)
  case (1 r p)
  have size: "queue_size (p\<lparr>wpDestroyed := b\<rparr>) = queue_size p" by (simp add: queue_size_def)
  show ?case
  proof (cases "queue_size p > 0")
    case True
    obtain t q where pop: "queue_pop p = (t, q)" by fastforce
    show ?thesis
    proof (cases t)
      case None
      then show ?thesis
        using True pop by (simp add: reject_queued.simps[of r p] reject_queued.simps[of r "p\<lparr>wpDestroyed := b\<rparr>"]
            size queue_pop_destroyed)
    next
      case (Some task)
      have "reject_unless_aborted i r (q\<lparr>wpDestroyed := b\<rparr>) = (reject_unless_aborted i r q)\<lparr>wpDestroyed := b\<rparr>" for i
        by (simp add: settle_unless_aborted_def settle_def)
      then show ?thesis
        using 1[OF True pop[symmetric] Some] True pop Some
        by (simp add: reject_queued.simps[of r p] reject_queued.simps[of r "p\<lparr>wpDestroyed := b\<rparr>"]
            size queue_pop_destroyed)
    qed
  qed (simp add: reject_queued.simps[of r p] reject_queued.simps[of r "p\<lparr>wpDestroyed := b\<rparr>"] size)
qed

text \<open>Rejecting every pending task: what it settles, and the listeners it removes.\<close>

lemma reject_pending_settles:
  "wpSettled (reject_pending r al p) tid = None \<longleftrightarrow>
     wpSettled p tid = None \<and> (tid \<in> wpAborted p \<or> tid \<notin> (\<lambda>e. tkId (snd e)) ` set al)"
  by (induction al arbitrary: p) (auto simp: settle_unless_aborted_def settle_def split: option.splits if_splits)

lemma reject_pending_listening:
  "tid \<in> wpListening (reject_pending r al p) \<longleftrightarrow>
     tid \<in> wpListening p \<and> (tid \<in> wpAborted p \<or> tid \<notin> (\<lambda>e. tkId (snd e)) ` set al)"
  by (induction al arbitrary: p) (auto simp: settle_unless_aborted_def settle_def)

lemma reject_pending_frame:
  "wpQueue (reject_pending r al p) = wpQueue p" "wpNextTaskId (reject_pending r al p) = wpNextTaskId p"
  "wpDestroyed (reject_pending r al p) = wpDestroyed p" "wpMinThreads (reject_pending r al p) = wpMinThreads p"
  by (induction al arbitrary: p) (simp_all add: settle_unless_aborted_def settle_def)

lemma stop_timers:
  "\<exists>E. fold (\<lambda>w. set_entry w f) ws p = p\<lparr>wpEntry := E\<rparr>"
proof (induction ws arbitrary: p)
  case Nil
  show ?case by (intro exI[of _ "wpEntry p"]) simp
next
  case (Cons w ws)
  obtain E where "fold (\<lambda>w. set_entry w f) ws (set_entry w f p) = (set_entry w f p)\<lparr>wpEntry := E\<rparr>"
    using Cons by blast
  moreover have "(set_entry w f p)\<lparr>wpEntry := E\<rparr> = p\<lparr>wpEntry := E\<rparr>" by (simp add: set_entry_def)
  ultimately show ?case by (intro exI[of _ E]) simp
qed

lemma destroy_dead:
  assumes "wp_live p"
  shows "wp_dead (wp_destroy p)"
proof -
  have b: "base {#} p" using assms by (simp add: wp_live_def core_def)
  let ?r = "reject_queued PoolDestroyed p"
  obtain Q L S where R: "?r = p\<lparr>wpQueue := Q, wpListening := L, wpSettled := S\<rparr>"
    and br: "base {#} ?r" "queued ?r = {#}"
    using reject_queued_base[OF b] by blast
  let ?p1 = "?r\<lparr>wpDestroyed := True, wpAbortedQueued := 0\<rparr>"
  let ?p2 = "reject_pending PoolDestroyed (wpPending p) ?p1"
  have p1: "wpPending ?p1 = wpPending p" by (simp add: R)
  have def1: "(reject_queued PoolDestroyed (p\<lparr>wpDestroyed := True\<rparr>))\<lparr>wpAbortedQueued := 0\<rparr> = ?p1"
    by (simp add: reject_queued_destroyed)
  obtain E where E: "wp_destroy p = ?p2\<lparr>wpPending := [], wpEntry := E, wpWorkers := [], wpIdle := []\<rparr>"
    using stop_timers[of "set_timer False" "wpWorkers (?p2\<lparr>wpPending := []\<rparr>)" "?p2\<lparr>wpPending := []\<rparr>"]
    unfolding wp_destroy_def Let_def def1 p1 by auto
  have live: "live_ids {#} ?r = mset (map fst (wpPending p))" using br(2) by (simp add: live_ids_def R)
  have keys: "(\<lambda>e. tkId (snd e)) ` set (wpPending p) = fst ` set (wpPending p)"
  proof -
    have "tkId t = tid" if "(tid, t) \<in> set (wpPending p)" for tid t using b that by (auto simp: base_def' tasks_ok_def)
    then show ?thesis by (force simp: image_iff)
  qed
  have prom: "wpSettled ?r tid = None \<longleftrightarrow>
      tid \<ge> wpNextTaskId p \<or> tid \<in> fst ` set (wpPending p) \<and> tid \<notin> wpAborted p" for tid
    using br(1) unfolding base_def' promises_ok_def live by (simp add: R)
  have listen: "tid \<in> wpListening ?r \<Longrightarrow> tid < wpNextTaskId p \<and> wpSettled ?r tid = None" for tid
    using br(1) unfolding base_def' promises_ok_def ids_ok_def by (auto simp: R)
  have settled: "wpSettled ?p2 tid \<noteq> None" if "tid < wpNextTaskId p" for tid
    using prom[of tid] that by (simp add: reject_pending_settles keys) (simp add: R)
  have "tid \<in> wpListening ?r \<Longrightarrow> tid \<in> fst ` set (wpPending p) \<and> tid \<notin> wpAborted p" for tid
    using listen[of tid] prom[of tid] by auto
  then have quiet: "wpListening ?p2 = {}"
    by (auto simp: reject_pending_listening keys) (auto simp: R)
  have "queue_size ?r = 0" using br queue_size_zero[of ?r] by (simp add: base_def')
  then have zero: "queue_size ?p2 = 0" by (simp add: queue_size_def reject_pending_frame)
  have nxt: "wpNextTaskId ?p2 = wpNextTaskId p" "wpMinThreads ?p2 = wpMinThreads p" "wpDestroyed ?p2"
    by (simp_all add: reject_pending_frame R)
  have "0 \<le> wpMinThreads p" using b by (simp add: base_def' limits_ok_def)
  then show ?thesis
    unfolding wp_dead_def E using settled quiet zero nxt by (simp add: queue_size_def)
qed

lemma wp_dead_frame [simp]:
  "wp_dead (set_entry w f p) = wp_dead p" "wp_dead (p\<lparr>wpIdle := ws\<rparr>) = wp_dead p"
  "wp_dead (p\<lparr>wpDrain := b, wpDrainsResolved := n\<rparr>) = wp_dead p" "wp_dead (p\<lparr>wpAbortedQueued := k\<rparr>) = wp_dead p"
  by (simp_all add: wp_dead_def set_entry_def queue_size_def)

lemma dead_settle: "wp_dead p \<Longrightarrow> wp_dead (settle_unless_aborted tid s p)"
  by (simp add: wp_dead_def) (auto simp: settle_unless_aborted_def settle_def)

lemma dead_delete: "wp_dead p \<Longrightarrow> wp_dead (delete_pending tid p)"
  by (simp add: wp_dead_def) (simp add: delete_pending_def)

lemma dead_mark: "wp_dead p \<Longrightarrow> wp_dead (markWorkerIdle post w p)"
proof -
  assume dead: "wp_dead p"
  then have d: "dequeueNextValid p = (None, p)" by (simp add: dequeueNextValid.simps[of p] wp_dead_def)
  have m: "wp_dead (maybeResolveDrain q)" if "wp_dead q" for q :: "('a, 'b, 'c) pool"
    using that by (simp add: maybeResolveDrain_def)
  show ?thesis using dead d m by (simp add: markWorkerIdle.simps[of post w p] Let_def)
qed

lemma dead_post: "wp_dead p \<Longrightarrow> wp_dead (postTask post w t p)"
  by (auto simp: postTask.simps[of post w t p] sendTask_def split: option.split
      intro!: dead_mark dead_settle dead_delete)

lemma dead_drop: "wp_dead p \<Longrightarrow> wp_dead (drop_task w r p)"
  by (auto simp: drop_task_def Let_def split: option.split intro!: dead_settle dead_delete)

lemma dead_reject_queued: "wp_dead p \<Longrightarrow> reject_queued r p = p"
  by (simp add: wp_dead_def reject_queued.simps[of r p])

lemma dead_fail: "wp_dead p \<Longrightarrow> wp_dead (failStartup w r p)"
  using dead_reject_queued[OF dead_drop, of "set_entry w (\<lambda>e. e\<lparr>weFailed := True\<rparr>) p" r w r]
    dead_drop[of "set_entry w (\<lambda>e. e\<lparr>weFailed := True\<rparr>) p" w r]
  by (simp add: failStartup_def)

lemma dead_answer: "wp_dead p \<Longrightarrow> wp_dead (handleAnswer post w tid s p)"
  by (auto simp: handleAnswer_def Let_def split: option.split intro!: dead_mark dead_settle dead_delete)

lemma dead_ready: "wp_dead p \<Longrightarrow> wp_dead (handleReady post w p)"
  by (auto simp: handleReady_def Let_def split: option.split intro!: dead_mark dead_post dead_delete)

lemma dead_exit: "wp_dead p \<Longrightarrow> wp_dead (handleWorkerExit post w p)"
proof -
  assume dead: "wp_dead p"
  let ?p = "(set_entry w (set_timer False) p)\<lparr>wpWorkers := remove1 w (wpWorkers p), wpIdle := remove1 w (wpIdle p)\<rparr>"
  have p: "wp_dead ?p" using dead by (simp add: wp_dead_def set_entry_def queue_size_def)
  then have d: "wp_dead (drop_task w WorkerExited ?p)" by (rule dead_drop)
  then have "wpDestroyed ?p" "wpDestroyed (drop_task w WorkerExited ?p)" using p by (auto simp: wp_dead_def)
  moreover have "wp_dead (maybeResolveDrain (drop_task w WorkerExited ?p))" using d by (simp add: maybeResolveDrain_def)
  ultimately show ?thesis using d by (simp add: handleWorkerExit_def Let_def)
qed

lemma dead_step:
  assumes "wp_step post p ev p'" "wp_dead p"
  shows "wp_dead p'"
  using assms
proof (cases rule: wp_step.cases)
  case (Run d opts)
  then show ?thesis using assms(2) by (simp add: wp_run_def wp_dead_def)
next
  case (Abort tid reason)
  then show ?thesis using assms(2) by (simp add: wp_dead_def)
next
  case (Timer w)
  then show ?thesis using assms(2) by (auto simp: terminateIdleWorker_def wp_dead_def)
next
  case Drain
  then show ?thesis using assms(2) by (simp add: wp_drain_def wp_dead_def)
next
  case Destroy
  have "wp_dead (p\<lparr>wpDestroyed := True\<rparr>)" using assms(2) by (simp add: wp_dead_def queue_size_def)
  then have "reject_queued PoolDestroyed (p\<lparr>wpDestroyed := True\<rparr>) = p\<lparr>wpDestroyed := True\<rparr>" by (rule dead_reject_queued)
  then show ?thesis using assms(2) Destroy by (simp add: wp_destroy_def Let_def wp_dead_def queue_size_def)
next
  case Terminated
  then show ?thesis using assms(2) by (simp add: wp_destroyed_def)
qed (use assms(2) in \<open>simp_all add: dead_ready dead_answer dead_exit handleWorkerError_def dead_fail dead_drop\<close>)

text \<open>Every step keeps the invariant, and resolves \<open>drain\<close> only when all is done.\<close>

lemma live_step:
  assumes "wp_step post p ev p'" "wp_live p"
  shows "wp_inv p' \<and> done_if_drained p p'"
proof -
  have alive: "\<not> wpDestroyed p" using assms(2) by (simp add: wp_live_def core_def base_def' limits_ok_def)
  show ?thesis
    using assms(1)
  proof (cases rule: wp_step.cases)
    case Destroy
    then show ?thesis using destroy_dead[OF assms(2)] by (auto simp: wp_inv_def done_if_drained_def wp_dead_def)
  qed (use assms(2) alive in \<open>simp_all add: wp_inv_def run_live abort_live ready_live answer_live error_live exit_live
      timer_live drain_live\<close>)
qed

lemma inv_step: "wp_step post p ev p' \<Longrightarrow> wp_inv p \<Longrightarrow> wp_inv p' \<and> done_if_drained p p'"
proof (unfold wp_inv_def[of p], elim disjE)
  assume "wp_step post p ev p'" "wp_dead p"
  then have "wp_dead p'" by (rule dead_step)
  then show ?thesis by (simp add: wp_inv_def done_if_drained_def wp_dead_def)
qed (rule live_step)

lemma reachable_inv: "wp_reachable post p \<Longrightarrow> wp_inv p"
proof (induction rule: wp_reachable.induct)
  case (Make parallelism config p)
  then show ?case by (simp add: make_live wp_inv_def)
next
  case (Step p ev p')
  then show ?case using inv_step by blast
qed

lemma tasks_accounted:
  assumes "wp_reachable post p" "tid < wpNextTaskId p"
  shows "wpSettled p tid = None \<longleftrightarrow> tid \<notin> wpAborted p \<and>
    ((\<exists>t \<in># queued p. tkId t = tid) \<or> (\<exists>w \<in> set (wpWorkers p). \<exists>t. weTask (wpEntry p w) = Some t \<and> tkId t = tid))"
proof -
  consider "wp_live p" | "wp_dead p" using reachable_inv[OF assms(1)] by (auto simp: wp_inv_def)
  then show ?thesis
  proof cases
    case 1
    then have b: "promises_ok {#} p" "tasks_ok p" by (auto simp: wp_live_def core_def base_def')
    have "tid \<in> fst ` set (wpPending p) \<longleftrightarrow>
        (\<exists>w \<in> set (wpWorkers p). \<exists>t. weTask (wpEntry p w) = Some t \<and> tkId t = tid)"
      using tasks_okD(1)[OF b(2)] by force
    moreover have "tid \<in> tkId ` set_mset (queued p) \<longleftrightarrow> (\<exists>t \<in># queued p. tkId t = tid)" by auto
    ultimately show ?thesis using b(1) assms(2) unfolding promises_ok_def live_ids_def by auto
  next
    case 2
    then have "queued p = {#}" by (simp add: wp_dead_def queued_def queue_size_def pq_size_def)
    then show ?thesis using 2 assms(2) by (simp add: wp_dead_def)
  qed
qed


section \<open>A run with one thread\<close>

text \<open>Two tasks of one thread: the first is held by the thread, the second waits in the queue.\<close>

definition demo_config :: pool_config where
  "demo_config = \<lparr>cfgMinThreads = None, cfgMaxThreads = Some (Num (Finite 1)), cfgIdleTimeout = Some (Num PlusInfinity)\<rparr>"

definition demo_options :: "int run_options" where
  "demo_options = \<lparr>optPriority = None, optTransfer = None, optSignal = None\<rparr>"

definition demo_post :: "(int, int) poster" where
  "demo_post t = None"

definition demo_start :: "(int, int, int) pool" where
  "demo_start = empty_pool 0 1 0"

definition demo_one :: "(int, int, int) pool" where
  "demo_one = snd (wp_run demo_post 7 demo_options demo_start)"

definition demo_two :: "(int, int, int) pool" where
  "demo_two = snd (wp_run demo_post 8 demo_options demo_one)"

lemma demo_start_reachable: "wp_reachable demo_post demo_start"
proof (rule wp_reachable.Make)
  show "wp_make 4 demo_config = Inr demo_start"
    by (simp add: wp_make_def demo_config_def demo_start_def nonNegativeInteger_def positiveInteger_def resolve_timeout_def MAX_SAFE_def)
qed

lemma demo_one_eval: "demo_one = demo_start\<lparr>wpNextTaskId := 1, wpWorkers := [0], wpNextThread := 1,
    wpPending := [(0, \<lparr>tkId = 0, tkData = 7, tkPriority = Finite 0, tkTransfer = None\<rparr>)],
    wpEntry := (\<lambda>_. fresh_entry)(0 := fresh_entry\<lparr>weTask := Some \<lparr>tkId = 0, tkData = 7, tkPriority = Finite 0, tkTransfer = None\<rparr>\<rparr>)\<rparr>"
  by (simp add: demo_one_def demo_start_def empty_pool_def wp_run_def demo_options_def Let_def start_or_queue_def queue_size_def pq_size_def
      popIdleWorker.simps room_for_worker_def spawn_with_def spawnWorker_def pool_defs)

lemma demo_one_reachable: "wp_reachable demo_post demo_one"
  unfolding demo_one_def
  by (rule wp_reachable.Step[OF demo_start_reachable wp_step.Run]) (simp add: demo_start_def empty_pool_def)

lemma demo_two_reachable: "wp_reachable demo_post demo_two"
  unfolding demo_two_def
  by (rule wp_reachable.Step[OF demo_one_reachable wp_step.Run]) (simp add: demo_one_eval)

lemma demo_two_eval: "demo_two = demo_one\<lparr>wpNextTaskId := 2,
    wpQueue := \<lparr>pqItems = [Some \<lparr>tkId = Suc 0, tkData = 8, tkPriority = Finite 0, tkTransfer = None\<rparr>], pqSize = 1, pqCmp = taskCmp_code\<rparr>\<rparr>"
proof -
  let ?t = "\<lparr>tkId = Suc 0, tkData = 8 :: int, tkPriority = Finite 0, tkTransfer = None\<rparr>"
  let ?p = "demo_one\<lparr>wpNextTaskId := 2\<rparr>"
  let ?q = "?p\<lparr>wpQueue := \<lparr>pqItems = [Some ?t], pqSize = 1, pqCmp = taskCmp_code\<rparr>\<rparr>"
  have push: "queue_push ?t p = p\<lparr>wpQueue := \<lparr>pqItems = [Some ?t], pqSize = 1, pqCmp = taskCmp_code\<rparr>\<rparr>"
    if "wpQueue p = \<lparr>pqItems = items, pqSize = 0, pqCmp = taskCmp_code\<rparr>" "items = [] \<or> items = [None]" for p :: "(int, int, int) pool" and items
    using that by (auto simp: queue_push_def pq_push_def Let_def pq_siftUp_def pq_up_loop.simps js_put_def js_get_def js_len_def)
  have pop: "queue_pop ?q = (Some ?t, ?p\<lparr>wpQueue := \<lparr>pqItems = [None], pqSize = 0, pqCmp = taskCmp_code\<rparr>\<rparr>)"
    by (simp add: queue_pop_def pq_pop_def Let_def js_get_def js_put_def js_len_def)
  have "demo_two = tryDispatch demo_post (queue_push ?t ?p)"
    by (simp add: demo_two_def wp_run_def demo_options_def Let_def start_or_queue_def demo_one_eval demo_start_def empty_pool_def
        queue_size_def pq_size_def popIdleWorker.simps room_for_worker_def numeral_2_eq_2)
  also have "queue_push ?t ?p = ?q" by (rule push[of _ "[]"]) (simp_all add: demo_one_eval demo_start_def empty_pool_def)
  also have "tryDispatch demo_post ?q = queue_push ?t (?p\<lparr>wpQueue := \<lparr>pqItems = [None], pqSize = 0, pqCmp = taskCmp_code\<rparr>\<rparr>)"
    by (simp add: tryDispatch.simps[of demo_post ?q] dequeueNextValid.simps[of ?q] pop)
      (simp add: queue_size_def pq_size_def demo_one_eval demo_start_def empty_pool_def popIdleWorker.simps room_for_worker_def)
  also have "... = ?q" by (subst push[of _ "[None]"]) simp_all
  finally show ?thesis by simp
qed

section \<open>Properties\<close>

text \<open>
  C6. In every state of every run a promise is unsettled exactly when its task was not aborted and is queued
  or held by a registered worker: no task is lost, none is settled while it waits or runs.
\<close>

theorem pool_tasks_accounted:
  assumes "wp_reachable post p" "tid < wpNextTaskId p"
  shows "wpSettled p tid = None \<longleftrightarrow> tid \<notin> wpAborted p \<and>
    ((\<exists>t \<in># queued p. tkId t = tid) \<or> (\<exists>w \<in> set (wpWorkers p). \<exists>t. weTask (wpEntry p w) = Some t \<and> tkId t = tid))"
  by (rule tasks_accounted[OF assms])

theorem pool_tasks_accounted_witness:
  "wpSettled demo_two 1 = None \<longleftrightarrow> 1 \<notin> wpAborted demo_two \<and>
    ((\<exists>t \<in># queued demo_two. tkId t = 1) \<or>
     (\<exists>w \<in> set (wpWorkers demo_two). \<exists>t. weTask (wpEntry demo_two w) = Some t \<and> tkId t = 1))"
  by (rule pool_tasks_accounted[OF demo_two_reachable]) (simp add: demo_two_eval)

text \<open>
  C12. No task is stuck: while a promise of a run is unsettled, some registered thread has not exited and owes the
  pool an event (its start, an answer, or the exit after an \<open>error\<close>); and while a task is queued, all of the
  \<open>maxThreads\<close> workers are registered and none idles.
\<close>

theorem pool_never_stuck:
  assumes "wp_reachable post p" "tid < wpNextTaskId p" "wpSettled p tid = None"
  shows "(\<exists>w \<in> set (wpWorkers p). \<not> exited p w \<and>
      (\<not> weReady (wpEntry p w) \<or> posted p w \<noteq> [] \<or> thError (weThread (wpEntry p w)))) \<and>
    ((\<exists>t \<in># queued p. tkId t = tid) \<longrightarrow> wpIdle p = [] \<and> int (length (wpWorkers p)) = wpMaxThreads p)"
proof -
  have live: "wp_live p" using reachable_inv[OF assms(1)] assms(2,3) by (auto simp: wp_inv_def wp_dead_def)
  then have b: "workers_ok p" "tasks_ok p" "limits_ok p" "all_of_use p" "busy_if_queued p"
    by (auto simp: wp_live_def core_def base_def')
  have owes: "\<not> exited p w \<and> (\<not> weReady (wpEntry p w) \<or> posted p w \<noteq> [] \<or> thError (weThread (wpEntry p w)))"
    if "w \<in> set (wpWorkers p)" "w \<notin> set (wpIdle p)" for w
    using that b(1,4) by (auto simp: workers_ok_def all_of_use_def of_use_def)
  consider t where "t \<in># queued p" | w t where "w \<in> set (wpWorkers p)" "weTask (wpEntry p w) = Some t"
    using tasks_accounted[OF assms(1,2)] assms(3) by auto
  then have "\<exists>w. w \<in> set (wpWorkers p) \<and> w \<notin> set (wpIdle p)"
  proof cases
    case 1
    then have "wpIdle p = []" "int (length (wpWorkers p)) \<ge> 1" using b(3,5) by (auto simp: busy_if_queued_def limits_ok_def)
    then show ?thesis by (cases "wpWorkers p") auto
  next
    case 2
    then show ?thesis using b(1) by (auto simp: workers_ok_def)
  qed
  moreover have "t \<in># queued p \<Longrightarrow> wpIdle p = [] \<and> int (length (wpWorkers p)) = wpMaxThreads p" for t
    using b(5) by (auto simp: busy_if_queued_def)
  ultimately show ?thesis using owes by blast
qed

theorem pool_never_stuck_witness: "wpIdle demo_two = [] \<and> int (length (wpWorkers demo_two)) = wpMaxThreads demo_two"
proof -
  have "1 < wpNextTaskId demo_two" "wpSettled demo_two 1 = None" "\<exists>t \<in># queued demo_two. tkId t = 1"
    by (simp_all add: demo_two_eval queued_def) (simp add: demo_one_eval demo_start_def empty_pool_def)
  then show ?thesis using pool_never_stuck[OF demo_two_reachable, of 1] by blast
qed



text \<open>
  C30. The counts are the true ones: \<open>pendingCount\<close> the queued tasks that are not aborted, although aborted ones
  stay in the queue, and \<open>activeCount\<close> the registered workers that hold a task.
\<close>

theorem pool_counts_true:
  assumes "wp_reachable post p" "\<not> wpDestroyed p"
  shows "pendingCount p = int (size (filter_mset (\<lambda>t. tkId t \<notin> wpAborted p) (queued p))) \<and>
    activeCount p = int (length (filter (\<lambda>w. weTask (wpEntry p w) \<noteq> None) (wpWorkers p))) \<and>
    int (length (wpWorkers p)) \<le> wpMaxThreads p"
proof -
  have live: "wp_live p" using reachable_inv[OF assms(1)] assms(2) by (auto simp: wp_inv_def wp_dead_def)
  then have b: "workers_ok p" "tasks_ok p" "ids_ok {#} p" "queue_ok p" "aborted_ok p"
    by (auto simp: wp_live_def core_def base_def')
  let ?W = "filter (\<lambda>w. weTask (wpEntry p w) \<noteq> None) (wpWorkers p)"
  have "bij_betw (\<lambda>w. (tkId (the (weTask (wpEntry p w))), the (weTask (wpEntry p w)))) (set ?W) (set (wpPending p))"
    unfolding bij_betw_def
  proof
    show "inj_on (\<lambda>w. (tkId (the (weTask (wpEntry p w))), the (weTask (wpEntry p w)))) (set ?W)"
      by (rule inj_onI) (auto intro: tasks_okD(3)[OF b(2)])
    show "(\<lambda>w. (tkId (the (weTask (wpEntry p w))), the (weTask (wpEntry p w)))) ` set ?W = set (wpPending p)"
      using tasks_okD(1)[OF b(2)] by (force simp: image_iff)
  qed
  then have "card (set ?W) = card (set (wpPending p))" by (rule bij_betw_same_card)
  moreover have "distinct ?W" "distinct (wpPending p)"
    using b(1) pending_distinct[OF b(3)] by (auto simp: workers_ok_def distinct_map)
  ultimately have "length ?W = length (wpPending p)" by (metis distinct_card)
  moreover have "size (queued p) = size (filter_mset (\<lambda>t. tkId t \<in> wpAborted p) (queued p)) +
      size (filter_mset (\<lambda>t. tkId t \<notin> wpAborted p) (queued p))"
    by (metis multiset_partition size_union)
  ultimately show ?thesis
    using b(1,5) queue_size_queued[OF b(4)]
    by (simp add: pendingCount_def activeCount_def aborted_ok_def workers_ok_def)
qed

theorem pool_counts_true_witness:
  "pendingCount demo_two = int (size (filter_mset (\<lambda>t. tkId t \<notin> wpAborted demo_two) (queued demo_two))) \<and>
    activeCount demo_two = int (length (filter (\<lambda>w. weTask (wpEntry demo_two w) \<noteq> None) (wpWorkers demo_two))) \<and>
    int (length (wpWorkers demo_two)) \<le> wpMaxThreads demo_two"
  by (rule pool_counts_true[OF demo_two_reachable])
    (simp add: demo_two_eval demo_one_eval demo_start_def empty_pool_def)

text \<open>
  C22. Tasks start in the order of priority, and of submission within one priority: what is dequeued is queued, not
  aborted, and before every other such task; nothing is dequeued only if every queued task is aborted.
\<close>

theorem pool_priority_order:
  assumes "wp_reachable post p" "\<not> wpDestroyed p" "dequeueNextValid p = (r, p')"
  shows "case r of
      None \<Rightarrow> (\<forall>u \<in># queued p. tkId u \<in> wpAborted p)
    | Some t \<Rightarrow> t \<in># queued p \<and> tkId t \<notin> wpAborted p \<and>
        (\<forall>u \<in># queued p. tkId u \<notin> wpAborted p \<longrightarrow>
           tkPriority t < tkPriority u \<or> tkPriority t = tkPriority u \<and> tkId t \<le> tkId u)"
proof -
  have "wp_live p" using reachable_inv[OF assms(1)] assms(2) by (auto simp: wp_inv_def wp_dead_def)
  then have "base {#} p" "aborted_ok p" by (auto simp: wp_live_def core_def)
  from dequeueNextValid_base[OF this assms(3)] show ?thesis
    by (cases r) (auto simp: next_valid_def taskCmp_le)
qed

theorem pool_priority_order_witness:
  "map_option tkId (fst (dequeueNextValid demo_two)) = Some 1 \<and>
    (\<exists>t. t \<in># queued demo_two \<and> tkId t = 1 \<and> tkId t \<notin> wpAborted demo_two)"
proof -
  let ?t = "\<lparr>tkId = Suc 0, tkData = 8 :: int, tkPriority = Finite 0, tkTransfer = None\<rparr>"
  have pop: "dequeueNextValid demo_two = (Some ?t, demo_two\<lparr>wpQueue := \<lparr>pqItems = [None], pqSize = 0, pqCmp = taskCmp_code\<rparr>\<rparr>)"
    by (simp add: dequeueNextValid.simps[of demo_two])
      (simp add: demo_two_eval demo_one_eval demo_start_def empty_pool_def queue_pop_def pq_pop_def Let_def js_get_def js_put_def
        js_len_def queue_size_def pq_size_def)
  have alive: "\<not> wpDestroyed demo_two"
    by (simp add: demo_two_eval) (simp add: demo_one_eval demo_start_def empty_pool_def)
  have "?t \<in># queued demo_two \<and> tkId ?t \<notin> wpAborted demo_two"
    using pool_priority_order[OF demo_two_reachable alive pop] by simp
  then show ?thesis using pop by (intro conjI exI[of _ ?t]) auto
qed

end
