(* ===== verification/Spec2Isabelle.thy ===== *)
theory Spec2Isabelle
  imports Queue PriorityQueue LRUCache Memoization RadixTree OrderedMapOrder Prng BitSet ISODate ISOTimestamp ErrorChain MemoryPool Batching SOA Formats BloomFilter UUIDs TOON HTML WeakCache Arbitrary PropertyRun PoolRuns
begin

text \<open>
  A verification of \<open>vjuga\<close>, a TypeScript library of data structures and utilities for servers. The
  code under \<open>src/src\<close> is a set of modules, most of which stand alone; where one calls another, the
  theories below import one another the same way. Every operation is a definition that follows the
  statements of the source, computes on concrete input and returns its effects: the new state, the value
  or the error thrown (\<open>Inl\<close>), and no result at all (\<^term>\<open>None\<close> of a partial function) for a loop that
  does not end.

  \<^bold>\<open>JavaScript.\<close> \<open>JsPrelude\<close> holds what all of it uses of the language: the 32-bit operators with their
  conversions, arrays that read \<open>undefined\<close> past the end and extend on a write, typed arrays that do
  neither, and the shared lemmas and collections. \<open>JsText\<close> has strings as lists of UTF-16 code units and
  the numbers a caller can pass, \<open>JsStrings\<close> the string methods, \<open>JsRegex\<close> the regular expressions
  of the source (by derivatives), \<open>JsNumber\<close> the conversion \<open>Number(s)\<close> with its rounding a parameter.

  \<^bold>\<open>Containers.\<close>
  \<^item> \<open>Queue\<close> (\<open>Queue.ts\<close>): the ring buffer; refines a list for every sequence of calls, up to the
    \<open>RangeError\<close> of a buffer past \<open>2 ^ 30\<close> slots, which the model keeps.
  \<^item> \<open>PriorityQueue\<close> (\<open>PriorityQueue.ts\<close>): the binary heap with a comparator that may throw; refines a
    multiset, an exception leaves the heap as it was. Bound: \<open>2 ^ 30\<close> elements, by the 32-bit indices.
  \<^item> \<open>LRUCache\<close> (\<open>LRUCache.ts\<close>): linked list in arrays, free slots and map; refines a list of entries in
    order of use. \<open>Memoization\<close> (\<open>Memoization.ts\<close>): memoization over any cache, and \<open>once\<close>.
  \<^item> \<open>RadixTree\<close> (\<open>RadixTree.ts\<close>): the compressed trie; refines a map from strings, stays compressed,
    enumerates in lexicographic order.
  \<^item> \<open>OrderedMap\<close>, \<open>OrderedMapOrder\<close> (\<open>OrderedMap.ts\<close>): the AVL tree in arrays: first the shape of the
    tree in the slots and what each routine does to it, then order, balance, ranges and sessions, which
    refine a sorted list of entries.
  \<^item> \<open>BitSet\<close> (\<open>BitSet.ts\<close>) refines sets of indices, its population count is the count of elements;
    \<open>BloomFilter\<close> (\<open>BloomFilter.ts\<close>) never forgets what was added.
  \<^item> \<open>SOA\<close> (\<open>SOA.ts\<close>): columns, rows and views over a store of shared arrays; refines a list of rows.
  \<^item> \<open>WeakCache\<close> (\<open>WeakCache.ts\<close>): weak references and finalizers, with collection as an event between
    any two calls; a late finalizer never removes a newer entry.
  \<^item> \<open>MemoryPool\<close> (\<open>MemoryPool.ts\<close>): reusable objects; no object is handed to two holders at once.

  \<^bold>\<open>Text and time.\<close>
  \<^item> \<open>ISODate\<close>, \<open>ISOTimestamp\<close> (\<open>ISODate.ts\<close>, \<open>ISOTimestamp.ts\<close>): validators and conversions, with the
    calendar and the language's \<open>Date\<close> as references. \<open>Formats\<close> (\<open>schema/Formats.ts\<close>): string formats;
    the fast path of \<open>isUri\<close> accepts nothing that the full scan rejects.
  \<^item> \<open>UUIDs\<close> (\<open>UUID.ts\<close>, \<open>UUID.v7.ts\<close>): the monotonic generator and the checks, which accept what it
    generates. \<open>HTML\<close> (\<open>HTML.ts\<close>): escaping, equal to the substitution character by character.
  \<^item> \<open>TOON\<close> (\<open>schema/TOON.ts\<close>): the runtime helpers of generated serializers; a written row reads back.
  \<^item> \<open>ErrorChain\<close> (\<open>ErrorChain.ts\<close>): walks along \<open>cause\<close> with cycle detection, which end.

  \<^bold>\<open>Randomised testing.\<close> \<open>Prng\<close> (\<open>PRNG.ts\<close>): SplitMix64 on halves of 32 bits, equal to the arithmetic on
  64 bits, of full period, with exact bounded draws. \<open>Arbitrary\<close> (\<open>Arbitrary.ts\<close>): generators of lazily
  shrinking values over it; all trees stay within the bounds of their generator and its sizes.
  \<open>PropertyRun\<close> (\<open>Property.ts\<close>): the runner over those: what it reports is what the predicate did, a
  reported path replays to the same failure, and the reported value has no failing child unless the
  budget or the time ran out.

  \<^bold>\<open>Scheduling.\<close> \<open>Batching\<close> (\<open>BufferizedFunction.ts\<close>, \<open>BatchExecutor.ts\<close>) uses the operations of \<open>Queue\<close>,
  with timers and settled promises as events. \<open>WorkerPool\<close>, \<open>PoolInvariant\<close>, \<open>PoolRuns\<close> (\<open>WorkerPool.ts\<close>, the
  order of messages of \<open>WorkerPool.worker.ts\<close> and the message types of \<open>WorkerPool.protocol.ts\<close>) use the heap of
  \<open>PriorityQueue\<close>: first the handlers, then the invariant and that each dispatch keeps it, then the runs,
  an inductive step relation in which calls, aborts, messages, crashes, exits and timers come in every order
  that threads allow, and the properties of every reachable state.

  \<^bold>\<open>Interfaces.\<close> The theory \<open>Interfaces\<close> states as locales what one module asks of another. \<open>fifo\<close> and
  \<open>deque\<close> are interpreted on the model of \<open>Queue.ts\<close> and used by \<open>Batching\<close>; \<open>memo_cache\<close> on \<open>LRUCache\<close> and on the
  built-in \<open>Map\<close>, used by \<open>Memoization\<close>; \<open>comparator\<close> on the default comparator of \<open>OrderedMap\<close>, on the numbers
  of \<open>PriorityQueue\<close> and on the task comparator of \<open>WorkerPool\<close>. Two more state the control structure that
  several loops of one module share: \<open>marked_walk\<close> in \<open>ErrorChain\<close> (three walks) and \<open>quoted_scan\<close> in \<open>TOON\<close>
  (cells and keys).

  \<^bold>\<open>Techniques.\<close> A container has an invariant and an abstraction, lemmas that each operation keeps the one and
  commutes with the other, and a theorem on all sequences of calls. Systems with events have a step relation
  and an invariant by rule induction. Loops without an evident bound are partial functions, and that they
  return is proved. Each property with hypotheses has a concrete instance.

  \<^bold>\<open>Bounds.\<close> Numbers used as indices go through the 32-bit operators, so statements on \<open>PriorityQueue\<close> and
  \<open>Queue\<close> bound the number of elements by \<open>2 ^ 30\<close>, where the code's own arithmetic stops; a pool's run
  statements bound the tasks posted by \<open>2 ^ 29\<close>. Years are those of four digits. The only fuel is where
  the code itself counts: the retries of a filter, the evaluations of a shrink, the halvings of an
  interval. The latter are at most 64 for the safe integers, whose width is below \<open>2 ^ 54\<close>.

  \<^bold>\<open>Parameters.\<close> Code outside the repository is an argument of the definitions that use it: \<open>toLowerCase\<close>,
  the engine's printing and rounding of numbers, the reading of dates that the standard leaves open,
  \<open>Math.log\<close> and \<open>Math.exp\<close> in the size of a Bloom filter, \<open>Bun.escapeHTML\<close>, random bytes, the readings of
  the clock, whether \<open>postMessage\<close> can clone a message, and every callback of the caller. Garbage
  collection, timers and threads are events.

  \<^bold>\<open>Not modelled.\<close> \<open>schema/Schema.ts\<close>, \<open>Validate.ts\<close>, \<open>JSON.ts\<close>, \<open>Codegen.ts\<close> and the compile-time part of
  \<open>TOON.ts\<close> emit source text for the engine's \<open>Function\<close> constructor, whose meaning is the language's;
  \<open>HttpServer.ts\<close> and \<open>CoverageGuided.ts\<close> drive sockets and the inspector of the runtime; \<open>PromiseUtils.ts\<close> is
  combinators over the event loop; \<open>Immutable.ts\<close> is types and \<open>Object.freeze\<close>. Of modelled modules: the
  floating-point arbitrary and the generators with shared mutable closures (\<open>letrec\<close>, \<open>gen\<close>), the message
  texts of \<open>Property.ts\<close>, the encoding of thrown values between threads, and the wrappers \<open>validator()\<close>.
  \<open>JSON.ts\<close>, \<open>StatefulTest.ts\<close> and the small modules \<open>Result.ts\<close>, \<open>TaggedUnion.ts\<close>, \<open>Ref.ts\<close>,
  \<open>UnixTimestamp.ts\<close>, \<open>FunctionReference.ts\<close> and \<open>TimedFunction.ts\<close> are left to later work; of
  \<open>FunctionUtils.ts\<close> only the two conversions that the pool calls are here.
\<close>

end
